(* ===== verification/Prelude.thy ===== *)
theory Prelude
  imports Main "HOL-Library.Word" "HOL-Library.Monad_Syntax"
begin

text \<open>
  Shared vocabulary of the development: the machine integers of the RV64 target, the
  error numbers of \<open>provided/usr/error.h\<close>, the constants of \<open>memory.h\<close> that several parts
  use, and generic lemmas on lists, words and options.

  Conventions used by every theory.  A C function that may halt the machine (a failed
  \<open>assert\<close>, a \<open>panic\<close>) or that would touch memory outside its object returns an
  \<open>option\<close>, with \<open>None\<close> for that outcome; return codes are \<open>int\<close> as in the code,
  negative for errors; a NULL-able pointer is an \<open>option\<close>.
\<close>

unbundle bit_operations_syntax

type_synonym u8 = "8 word"
type_synonym u16 = "16 word"
type_synonym u32 = "32 word"
type_synonym u64 = "64 word"
type_synonym bytes = "u8 list"

named_theorems kernel_defs \<open>definitions that proofs unfold\<close>
named_theorems kernel_inv \<open>preservation facts of invariants\<close>

section \<open>Error numbers\<close>

abbreviation (input) EINVAL :: int where "EINVAL \<equiv> 1"
abbreviation (input) EBUSY :: int where "EBUSY \<equiv> 2"
abbreviation (input) ENOTSUP :: int where "ENOTSUP \<equiv> 3"
abbreviation (input) EBADFMT :: int where "EBADFMT \<equiv> 6"
abbreviation (input) ENOENT :: int where "ENOENT \<equiv> 7"
abbreviation (input) EBADFD :: int where "EBADFD \<equiv> 9"
abbreviation (input) EMFILE :: int where "EMFILE \<equiv> 10"
abbreviation (input) EMTHR :: int where "EMTHR \<equiv> 12"
abbreviation (input) ENOMEM :: int where "ENOMEM \<equiv> 14"
abbreviation (input) EPIPE :: int where "EPIPE \<equiv> 15"

section \<open>Constants of the memory layout\<close>

abbreviation (input) PAGE_ORDER :: nat where "PAGE_ORDER \<equiv> 12"
abbreviation (input) PAGE_SIZE :: nat where "PAGE_SIZE \<equiv> 4096"

section \<open>Generic lemmas\<close>

lemma nth_append_replicate:
  "i < length xs \<Longrightarrow> (xs @ replicate n x) ! i = xs ! i"
  by (simp add: nth_append)

lemma take_drop_update:
  "i < n \<Longrightarrow> drop n (xs[i := x]) = drop n xs"
  by simp

lemma list_update_append_mid [simp]:
  "(xs @ y # ys)[length xs := z] = xs @ z # ys"
  by (induction xs) auto

lemma unat_lt_64 [simp]: "unat (w :: u64) < 2 ^ 64"
  using unsigned_less [of w, where ?'a = nat] by simp

lemma unat_lt_32 [simp]: "unat (w :: u32) < 2 ^ 32"
  using unsigned_less [of w, where ?'a = nat] by simp

lemma unat_lt_8 [simp]: "unat (w :: u8) < 256"
  using unsigned_less [of w, where ?'a = nat] by simp

lemma unat_word_of_nat_small:
  "n < 2 ^ LENGTH('a) \<Longrightarrow> unat (word_of_nat n :: 'a::len word) = n"
  by (simp add: unat_of_nat)

text \<open>Bytes overwritten in place.\<close>

definition overwrite :: "bytes \<Rightarrow> nat \<Rightarrow> bytes \<Rightarrow> bytes" where
  "overwrite img p bs = take p img @ take (length img - p) bs @ drop (p + length bs) img"

lemma length_overwrite [simp]: "p \<le> length img \<Longrightarrow> length (overwrite img p bs) = length img"
  by (auto simp: overwrite_def min_def)

lemma nth_overwrite:
  "p + length bs \<le> length img \<Longrightarrow> i < length img \<Longrightarrow>
     overwrite img p bs ! i = (if p \<le> i \<and> i < p + length bs then bs ! (i - p) else img ! i)"
  by (auto simp: overwrite_def nth_append min_def)

lemma ring_index_inj:
  assumes "(h + i) mod m = (h + j) mod (m::nat)" and "i < m" and "j < m"
  shows "i = j"
proof -
  have aux: "b = a" if "(h + a) mod m = (h + b) mod m" "a \<le> b" "b < m" for a b
  proof -
    from that have "m dvd (h + b) - (h + a)" by (metis add_le_cancel_left mod_eq_dvd_iff_nat)
    with that show ?thesis by (auto dest: dvd_imp_le)
  qed
  show ?thesis
  proof (cases "i \<le> j")
    case True
    from aux [OF assms(1) this assms(3)] show ?thesis by simp
  next
    case False
    with aux [of j i, OF assms(1) [symmetric] _ assms(2)] show ?thesis by simp
  qed
qed

end
