(* ===== verification/CString.thy ===== *)
theory CString
  imports Prelude
begin

text \<open>
  The string and memory functions of \<open>provided/sys/string.c\<close>.  A pointer into an object is
  the list of bytes from the pointer to the end of the object; the result \<open>None\<close> means that
  the loop runs off the end of that object.  A pointer that may be NULL is an \<open>option\<close>.
  \<open>char\<close> is unsigned on the RISC-V target, so characters are unsigned bytes.

  The lemmas give each loop a closed form over \<open>cstr\<close>, the characters before the NUL.
\<close>

section \<open>Loops of string.c\<close>

fun strlen_loop :: "bytes \<Rightarrow> nat option" where
  "strlen_loop [] = None"
| "strlen_loop (c # p) = (if c \<noteq> 0 then map_option Suc (strlen_loop p) else Some 0)"

definition strlen :: "bytes option \<Rightarrow> nat option" where
  "strlen s = (case s of None \<Rightarrow> Some 0 | Some p \<Rightarrow> strlen_loop p)"

fun strcmp_loop :: "bytes \<Rightarrow> bytes \<Rightarrow> int option" where
  "strcmp_loop (c1 # s1) (c2 # s2) =
     (if c1 = c2 \<and> c1 \<noteq> 0 then strcmp_loop s1 s2
      else if c1 < c2 then Some (-1)
      else if c1 > c2 then Some 1
      else Some 0)"
| "strcmp_loop _ _ = None"

definition strcmp :: "bytes option \<Rightarrow> bytes option \<Rightarrow> int option" where
  "strcmp s1 s2 =
     (case (s1, s2) of
        (None, None) \<Rightarrow> Some 0
      | (None, Some _) \<Rightarrow> Some (-1)
      | (Some _, None) \<Rightarrow> Some 1
      | (Some p1, Some p2) \<Rightarrow> strcmp_loop p1 p2)"

fun strncmp :: "bytes \<Rightarrow> bytes \<Rightarrow> nat \<Rightarrow> int option" where
  "strncmp s1 s2 0 = Some 0"
| "strncmp (c1 # s1) (c2 # s2) (Suc n) =
     (if c1 \<noteq> 0 \<and> c1 = c2 then strncmp s1 s2 n
      else Some (sint (ucast c1 - ucast c2 :: u32)))"
| "strncmp _ _ (Suc n) = None"

fun memset :: "bytes \<Rightarrow> u8 \<Rightarrow> nat \<Rightarrow> bytes option" where
  "memset s c 0 = Some s"
| "memset [] c (Suc n) = None"
| "memset (_ # s) c (Suc n) = map_option ((#) c) (memset s c n)"

fun memcpy :: "bytes \<Rightarrow> bytes \<Rightarrow> nat \<Rightarrow> bytes option" where
  "memcpy dst src 0 = Some dst"
| "memcpy (_ # dst) (c # src) (Suc n) = map_option ((#) c) (memcpy dst src n)"
| "memcpy _ _ (Suc n) = None"

fun memcmp :: "bytes \<Rightarrow> bytes \<Rightarrow> nat \<Rightarrow> int option" where
  "memcmp u v 0 = Some 0"
| "memcmp (a # u) (b # v) (Suc n) =
     (if a \<noteq> b then Some (uint a - uint b) else memcmp u v n)"
| "memcmp _ _ (Suc n) = None"

fun strncpy :: "bytes \<Rightarrow> bytes \<Rightarrow> nat \<Rightarrow> bytes option" where
  "strncpy dst src 0 = Some dst"
| "strncpy dst [] (Suc n) = None"
| "strncpy dst (c # src) (Suc n) =
     (if c \<noteq> 0
      then (case dst of [] \<Rightarrow> None | _ # dst' \<Rightarrow> map_option ((#) c) (strncpy dst' src n))
      else memset dst 0 (Suc n))"

text \<open>\<open>strchr\<close> and \<open>strrchr\<close> return the index of the character they point to; the inner
  \<open>option\<close> is the returned pointer, which may be NULL.\<close>

fun strchr :: "bytes \<Rightarrow> int \<Rightarrow> nat option option" where
  "strchr [] c = None"
| "strchr (x # s) c =
     (if x = 0 then Some None
      else if uint x = c then Some (Some 0)
      else map_option (map_option Suc) (strchr s c))"

fun strrchr_loop :: "bytes \<Rightarrow> int \<Rightarrow> nat \<Rightarrow> nat option \<Rightarrow> nat option option" where
  "strrchr_loop [] c i p = None"
| "strrchr_loop (x # s) c i p =
     (if x = 0 then Some p
      else strrchr_loop s c (Suc i) (if uint x = c then Some i else p))"

definition strrchr :: "bytes \<Rightarrow> int \<Rightarrow> nat option option" where
  "strrchr s c = strrchr_loop s c 0 None"

text \<open>\<open>strtoul\<close> returns the value and, for \<open>*endptr\<close>, the index of the first character
  not consumed (\<open>None\<close>: \<open>*endptr = NULL\<close>).\<close>

fun strtoul_loop :: "bytes \<Rightarrow> int \<Rightarrow> u64 \<Rightarrow> nat \<Rightarrow> (u64 \<times> nat) option" where
  "strtoul_loop [] base val i = None"
| "strtoul_loop (c # str) base val i =
     (if uint c < 48 \<or> 48 + base \<le> uint c then Some (val, i)
      else strtoul_loop str base (val * word_of_int base + (ucast c - 48)) (Suc i))"

definition strtoul :: "bytes option \<Rightarrow> int \<Rightarrow> (u64 \<times> nat option) option" where
  "strtoul str base =
     (case str of
        None \<Rightarrow> Some (-1, None)
      | Some p \<Rightarrow>
          if base \<le> 1 \<or> 10 < base then Some (-1, None)
          else (case p of
                  [] \<Rightarrow> None
                | c # p' \<Rightarrow>
                    if c = 45 then
                      map_option (\<lambda>(val, i). (- val, Some i)) (strtoul_loop p' base 0 1)
                    else if c = 43 then
                      map_option (\<lambda>(val, i). (val, Some i)) (strtoul_loop p' base 0 1)
                    else
                      map_option (\<lambda>(val, i). (val, Some i)) (strtoul_loop p base 0 0)))"

section \<open>Closed forms\<close>

definition cstr :: "bytes \<Rightarrow> bytes" where
  "cstr s = takeWhile (\<lambda>c. c \<noteq> 0) s"

definition nul_terminated :: "bytes \<Rightarrow> bool" where
  "nul_terminated s \<longleftrightarrow> 0 \<in> set s"

lemma cstr_simps [simp]:
  "cstr [] = []" "cstr (0 # s) = []" "c \<noteq> 0 \<Longrightarrow> cstr (c # s) = c # cstr s"
  by (simp_all add: cstr_def)

lemma cstr_append_nul [simp]: "0 \<notin> set s \<Longrightarrow> cstr (s @ 0 # r) = s"
  by (induction s) auto

lemma cstr_append_zeros [simp]: "0 \<notin> set s \<Longrightarrow> cstr (s @ replicate k 0) = s"
  by (induction s) (auto simp: cstr_def takeWhile_eq_Nil_iff)

lemma nul_terminated_simps [simp]:
  "\<not> nul_terminated []" "nul_terminated (c # s) \<longleftrightarrow> c = 0 \<or> nul_terminated s"
  by (auto simp: nul_terminated_def)

lemma zero_notin_cstr [simp]: "0 \<notin> set (cstr s)"
  by (induction s) (auto simp: cstr_def)

lemma length_cstr_less: "nul_terminated s \<Longrightarrow> length (cstr s) < length s"
  by (induction s) (auto simp: cstr_def)

lemma nul_terminated_split:
  "nul_terminated s \<Longrightarrow> s = cstr s @ 0 # drop (Suc (length (cstr s))) s"
  by (induction s) (auto simp: cstr_def)

lemma strlen_loop_eq:
  "strlen_loop s = (if nul_terminated s then Some (length (cstr s)) else None)"
  by (induction s) auto

lemma memset_eq:
  "memset s c n = (if n \<le> length s then Some (replicate n c @ drop n s) else None)"
  by (induction s c n rule: memset.induct) auto

lemma memcpy_eq:
  "memcpy dst src n =
     (if n \<le> length dst \<and> n \<le> length src then Some (take n src @ drop n dst) else None)"
  by (induction dst src n rule: memcpy.induct) auto

lemma strncpy_nul_terminated:
  assumes "nul_terminated src" and "n \<le> length dst"
  shows "strncpy dst src n = Some (take n (cstr src @ replicate n 0) @ drop n dst)"
  using assms
proof (induction dst src n rule: strncpy.induct)
  case (3 dst c src n)
  show ?case
  proof (cases "c = 0")
    case True
    with "3.prems" show ?thesis by (simp add: memset_eq)
  next
    case False
    from "3.prems" obtain d dst' where dst: "dst = d # dst'" by (cases dst) auto
    with False "3" have "strncpy dst' src n = Some (take n (cstr src @ replicate n 0) @ drop n dst')"
      by simp
    moreover have "take n (cstr src @ replicate n 0) = take n (cstr src @ replicate (Suc n) (0::u8))"
      by (simp add: take_append flip: replicate_Suc)
    ultimately show ?thesis using False dst by simp
  qed
qed auto

lemma strcmp_loop_defined:
  assumes "nul_terminated s" and "nul_terminated t"
  shows "\<exists>r. strcmp_loop s t = Some r \<and> r \<in> {-1, 0, 1}"
  using assms by (induction s t rule: strcmp_loop.induct) auto

lemma strcmp_loop_zero:
  assumes "nul_terminated s" and "nul_terminated t"
  shows "strcmp_loop s t = Some 0 \<longleftrightarrow> cstr s = cstr t"
  using assms
proof (induction s t rule: strcmp_loop.induct)
  case (1 c1 s1 c2 s2)
  have pos: "c \<noteq> 0 \<Longrightarrow> (0::u8) < c" for c by (simp add: word_gt_0)
  show ?case using "1" pos [of c1] pos [of c2] by (cases "c1 = 0"; cases "c2 = 0") (auto simp: cstr_def)
qed auto

lemma strcmp_loop_less:
  assumes "nul_terminated s" and "nul_terminated t"
  shows "strcmp_loop s t = Some (-1) \<longleftrightarrow> (cstr s, cstr t) \<in> lexord {(a, b). a < b}"
  using assms
proof (induction s t rule: strcmp_loop.induct)
  case (1 c1 s1 c2 s2)
  have pos: "c \<noteq> 0 \<Longrightarrow> (0::u8) < c" for c by (simp add: word_gt_0)
  show ?case
  proof (cases "c1 = 0 \<or> c2 = 0")
    case True
    then show ?thesis using pos [of c1] pos [of c2] by (auto simp: cstr_def)
  next
    case False
    with "1" show ?thesis by (auto simp: lexord_cons_cons)
  qed
qed auto

lemma strcmp_loop_neg:
  "strcmp_loop t s = map_option uminus (strcmp_loop s t)"
proof (induction s t rule: strcmp_loop.induct, goal_cases)
  case (1 c1 s1 c2 s2)
  then show ?case by (auto simp: not_less_iff_gr_or_eq)
next
  case (2 t)
  then show ?case by (cases t) auto
next
  case (3 s)
  then show ?case by (cases s) auto
qed

section \<open>Properties\<close>

text \<open>On NUL-terminated strings \<open>strcmp\<close> always returns, gives 0 exactly for equal strings and
  otherwise orders them lexicographically by unsigned bytes.\<close>

theorem strcmp_lexicographic:
  assumes "nul_terminated s" and "nul_terminated t"
  shows "strcmp (Some s) (Some t) =
     Some (if cstr s = cstr t then 0
           else if (cstr s, cstr t) \<in> lexord {(a, b). a < b} then -1 else 1)"
proof -
  obtain r where r: "strcmp_loop s t = Some r" "r \<in> {-1, 0, 1}"
    using strcmp_loop_defined [OF assms] by blast
  with strcmp_loop_zero [OF assms] strcmp_loop_less [OF assms] show ?thesis
    by (auto simp: strcmp_def)
qed

theorem strcmp_lexicographic_witness:
  "strcmp (Some [97, 98, 0]) (Some [97, 99, 0, 7]) = Some (-1)"
proof -
  have "nul_terminated [97, 98, 0 :: u8]" "nul_terminated [97, 99, 0, 7 :: u8]" by simp_all
  from strcmp_lexicographic [OF this] show ?thesis by simp
qed

text \<open>\<open>strncpy\<close> writes exactly \<open>n\<close> bytes: the characters of the source cut to \<open>n\<close>, padded with
  NULs; the destination beyond \<open>n\<close> is unchanged, and the copy is NUL-terminated exactly
  when the source has fewer than \<open>n\<close> characters.\<close>

theorem strncpy_exact:
  assumes "nul_terminated src" and "n \<le> length dst"
  shows "\<exists>copy. strncpy dst src n = Some (copy @ drop n dst) \<and> length copy = n \<and>
     cstr copy = take n (cstr src) \<and> (nul_terminated copy \<longleftrightarrow> length (cstr src) < n)"
proof -
  let ?copy = "take n (cstr src @ replicate n (0::u8))"
  have "0 \<notin> set (take n (cstr src))" by (meson in_set_takeD zero_notin_cstr)
  then have "cstr ?copy = take n (cstr src)"
    by simp
  moreover have "nul_terminated ?copy \<longleftrightarrow> length (cstr src) < n"
    using \<open>0 \<notin> set (take n (cstr src))\<close>
    by (cases "n - length (cstr src)") (auto simp: nul_terminated_def)
  ultimately show ?thesis
    using strncpy_nul_terminated [OF assms] by (intro exI [of _ ?copy]) simp
qed

theorem strncpy_exact_witness:
  "\<exists>copy. strncpy [1, 2, 3, 4] [97, 0] 3 = Some (copy @ [4]) \<and> length copy = 3 \<and> cstr copy = [97]"
  using strncpy_exact [of "[97, 0]" 3 "[1, 2, 3, 4]"] by (auto simp: numeral_3_eq_3)

end
