(* ===== verification/Printf.thy ===== *)
theory Printf
  imports CString
begin

text \<open>
  The formatted output of \<open>provided/sys/string.c\<close>: \<open>vgprintf\<close> drives a \<open>putcfn\<close> callback,
  here a state transformer \<open>'s \<Rightarrow> u8 \<Rightarrow> 's\<close>, and \<open>vsnprintf\<close> instantiates it with a bounded
  buffer.  The variable arguments are a list of 64-bit slots and string pointers; taking a
  missing or wrong-kind argument is undefined in C and \<open>None\<close> here.  Output counts
  (\<open>size_t nout\<close>) are \<open>nat\<close>; widths (\<open>unsigned int len\<close>) are \<open>u32\<close> and wrap as in C.

  The lemmas show that the callback sees one stream of characters that does not depend on
  the callback, that the stream's length is the returned count, and that \<open>vsnprintf\<close>
  stores exactly the longest prefix of it that leaves room for the NUL.
\<close>

section \<open>Integers, strings and characters\<close>

definition digit_char :: "u64 \<Rightarrow> u8" where
  "digit_char d = (if d < 10 then 48 + ucast d else 97 + ucast d - 10)"

text \<open>The digit loop writes \<open>char buf[40]\<close> from its end; \<open>room\<close> counts the free slots.\<close>

fun fmt_digits :: "nat \<Rightarrow> u64 \<Rightarrow> u64 \<Rightarrow> bytes \<Rightarrow> bytes option" where
  "fmt_digits 0 val base p = None"
| "fmt_digits (Suc room) val base p =
     (if base = 0 then None
      else let d = val mod base; val' = val div base; p' = digit_char d # p
           in if val' \<noteq> 0 then fmt_digits room val' base p' else Some p')"

fun put_n :: "('s \<Rightarrow> u8 \<Rightarrow> 's) \<Rightarrow> 's \<Rightarrow> u8 \<Rightarrow> nat \<Rightarrow> 's" where
  "put_n putcfn aux c 0 = aux"
| "put_n putcfn aux c (Suc n) = put_n putcfn (putcfn aux c) c n"

fun put_all :: "('s \<Rightarrow> u8 \<Rightarrow> 's) \<Rightarrow> 's \<Rightarrow> bytes \<Rightarrow> 's" where
  "put_all putcfn aux [] = aux"
| "put_all putcfn aux (c # p) = put_all putcfn (putcfn aux c) p"

definition format_int ::
  "('s \<Rightarrow> u8 \<Rightarrow> 's) \<Rightarrow> 's \<Rightarrow> u64 \<Rightarrow> u64 \<Rightarrow> bool \<Rightarrow> u32 \<Rightarrow> (nat \<times> 's) option" where
  "format_int putcfn aux val base zpad len =
     (case fmt_digits 40 val base [] of
        None \<Rightarrow> None
      | Some p \<Rightarrow>
          let pad = unat len - length p;
              aux1 = put_n putcfn aux (if zpad then 48 else 32) pad
          in Some (pad + length p, put_all putcfn aux1 p))"

fun put_str :: "('s \<Rightarrow> u8 \<Rightarrow> 's) \<Rightarrow> 's \<Rightarrow> bytes \<Rightarrow> nat \<Rightarrow> (nat \<times> 's) option" where
  "put_str putcfn aux [] nout = None"
| "put_str putcfn aux (c # s) nout =
     (if c \<noteq> 0 then put_str putcfn (putcfn aux c) s (Suc nout) else Some (nout, aux))"

definition format_str ::
  "('s \<Rightarrow> u8 \<Rightarrow> 's) \<Rightarrow> 's \<Rightarrow> bytes option \<Rightarrow> u32 \<Rightarrow> (nat \<times> 's) option" where
  "format_str putcfn aux s len =
     (case put_str putcfn aux (case s of None \<Rightarrow> [78, 85, 76, 76, 0] | Some p \<Rightarrow> p) 0 of
        None \<Rightarrow> None
      | Some (nout, aux1) \<Rightarrow>
          if nout < unat len
          then Some (unat len, put_n putcfn aux1 32 (unat len - nout))
          else Some (nout, aux1))"

definition format_char ::
  "('s \<Rightarrow> u8 \<Rightarrow> 's) \<Rightarrow> 's \<Rightarrow> u64 \<Rightarrow> u32 \<Rightarrow> nat \<times> 's" where
  "format_char putcfn aux c len =
     (let n = (if len \<le> 0 then 1 else unat len)
      in (n, putcfn (put_n putcfn aux 32 (n - 1)) (ucast c)))"

section \<open>Format strings\<close>

fun parse_width :: "u32 \<Rightarrow> bytes \<Rightarrow> (u32 \<times> bytes) option" where
  "parse_width len [] = None"
| "parse_width len (c # p) =
     (if 48 \<le> c \<and> c \<le> 57 then parse_width (10 * len + (ucast c - 48)) p
      else Some (len, c # p))"

fun parse_longs :: "nat \<Rightarrow> bytes \<Rightarrow> (nat \<times> bytes) option" where
  "parse_longs lcnt [] = None"
| "parse_longs lcnt (c # p) =
     (if c = 108 then parse_longs (Suc lcnt) p else Some (lcnt, c # p))"

text \<open>\<open>z\<close> and \<open>j\<close> select the 64-bit type (\<open>sizeof(long) = sizeof(long long) = 8\<close>, and the
  last matching assignment of the code leaves \<open>lcnt = 2\<close>); \<open>h\<close> is skipped.\<close>

definition parse_prefix :: "nat \<Rightarrow> bytes \<Rightarrow> (nat \<times> bytes) option" where
  "parse_prefix lcnt p =
     (case p of [] \<Rightarrow> None
      | c # p' \<Rightarrow> if c = 122 \<or> c = 106 then Some (2, p')
                  else if c = 104 then Some (lcnt, p')
                  else Some (lcnt, c # p'))"

datatype varg = VInt u64 | VStr "bytes option"

definition signed_arg :: "nat \<Rightarrow> u64 \<Rightarrow> u64" where
  "signed_arg lcnt w = (if lcnt > 0 then w else scast (ucast w :: u32))"

definition unsigned_arg :: "nat \<Rightarrow> u64 \<Rightarrow> u64" where
  "unsigned_arg lcnt w = (if lcnt > 0 then w else ucast (ucast w :: u32))"

text \<open>One conversion: the character count, the callback state, the arguments left, and
  whether the specifier was the terminating NUL (the loop then looks at it again).\<close>

definition convert ::
  "('s \<Rightarrow> u8 \<Rightarrow> 's) \<Rightarrow> 's \<Rightarrow> u8 \<Rightarrow> bool \<Rightarrow> u32 \<Rightarrow> nat \<Rightarrow> varg list
     \<Rightarrow> (nat \<times> 's \<times> varg list) option" where
  "convert putcfn aux c zpad len lcnt ap =
     (if c = 100 \<or> c = 105 then
        (case ap of VInt w # ap' \<Rightarrow>
           let ival = signed_arg lcnt w in
           if ival <s 0
           then map_option (\<lambda>(n, aux'). (Suc n, aux', ap'))
                  (format_int putcfn (putcfn aux 45) (- ival) 10 zpad
                     (if len > 0 then len - 1 else len))
           else map_option (\<lambda>(n, aux'). (n, aux', ap'))
                  (format_int putcfn aux ival 10 zpad len)
         | _ \<Rightarrow> None)
      else if c = 117 \<or> c = 120 then
        (case ap of VInt w # ap' \<Rightarrow>
           map_option (\<lambda>(n, aux'). (n, aux', ap'))
             (format_int putcfn aux (unsigned_arg lcnt w) (if c = 120 then 16 else 10) zpad len)
         | _ \<Rightarrow> None)
      else if c = 115 then
        (case ap of VStr s # ap' \<Rightarrow>
           map_option (\<lambda>(n, aux'). (n, aux', ap')) (format_str putcfn aux s len)
         | _ \<Rightarrow> None)
      else if c = 99 then
        (case ap of VInt w # ap' \<Rightarrow>
           (case format_char putcfn aux w len of (n, aux') \<Rightarrow> Some (n, aux', ap'))
         | _ \<Rightarrow> None)
      else if c = 112 then
        (case ap of VInt w # ap' \<Rightarrow>
           (case format_str putcfn aux (Some [48, 120, 0]) 2 of
              None \<Rightarrow> None
            | Some (n1, aux1) \<Rightarrow>
                map_option (\<lambda>(n, aux'). (n1 + n, aux', ap'))
                  (format_int putcfn aux1 w 16 zpad len))
         | _ \<Rightarrow> None)
      else
        Some (2, putcfn (putcfn aux 37) (if c < 32 \<or> 127 \<le> c then 63 else c), ap))"

lemma parse_width_length: "parse_width len p = Some (l, q) \<Longrightarrow> length q \<le> length p \<and> q \<noteq> []"
  by (induction len p rule: parse_width.induct) (auto split: if_splits)

lemma parse_longs_length: "parse_longs n p = Some (l, q) \<Longrightarrow> length q \<le> length p \<and> q \<noteq> []"
  by (induction n p rule: parse_longs.induct) (auto split: if_splits)

lemma parse_prefix_length: "parse_prefix n p = Some (l, q) \<Longrightarrow> length q \<le> length p"
  by (auto simp: parse_prefix_def split: list.splits if_splits)

definition parse_spec :: "bytes \<Rightarrow> (u32 \<times> nat \<times> u8 \<times> bytes) option" where
  "parse_spec p =
     (case parse_width 0 p of None \<Rightarrow> None
      | Some (len, p1) \<Rightarrow>
     (case parse_longs 0 p1 of None \<Rightarrow> None
      | Some (lcnt, p2) \<Rightarrow>
     (case parse_prefix lcnt p2 of None \<Rightarrow> None
      | Some (lcnt', p3) \<Rightarrow>
     (case p3 of [] \<Rightarrow> None | c # p4 \<Rightarrow> Some (len, lcnt', c, p4)))))"

lemma parse_spec_length:
  assumes "parse_spec p = Some (len, lcnt, c, q)"
  shows "length q < length p"
proof -
  from assms obtain p1 n p2 where *:
    "parse_width 0 p = Some (len, p1)" "parse_longs 0 p1 = Some (n, p2)"
    "parse_prefix n p2 = Some (lcnt, c # q)"
    by (auto simp: parse_spec_def split: option.splits list.splits)
  show ?thesis
    using parse_width_length [OF *(1)] parse_longs_length [OF *(2)] parse_prefix_length [OF *(3)]
    by simp
qed

function vgprintf ::
  "('s \<Rightarrow> u8 \<Rightarrow> 's) \<Rightarrow> 's \<Rightarrow> bytes \<Rightarrow> varg list \<Rightarrow> (nat \<times> 's) option" where
  "vgprintf putcfn aux fmt ap =
     (case fmt of
        [] \<Rightarrow> None
      | c # p \<Rightarrow>
          if c = 0 then Some (0, aux)
          else if c = 37 then
            (case parse_spec p of
               None \<Rightarrow> None
             | Some (len, lcnt, s, q) \<Rightarrow>
                 (case convert putcfn aux s (take 1 p = [48]) len lcnt ap of
                    None \<Rightarrow> None
                  | Some (n, aux', ap') \<Rightarrow>
                      if s = 0 then Some (n, aux')
                      else map_option (\<lambda>(m, r). (n + m, r)) (vgprintf putcfn aux' q ap')))
          else map_option (\<lambda>(m, r). (Suc m, r)) (vgprintf putcfn (putcfn aux c) p ap))"
  by pat_completeness auto
termination
  by (relation "measure (\<lambda>(_, _, fmt, _). length fmt)") (auto dest: parse_spec_length)

declare vgprintf.simps [simp del]

section \<open>vsnprintf\<close>

record vsnprintf_state =
  vbuf :: bytes
  vpos :: nat
  vrem :: nat

definition vsnprintf_putc :: "vsnprintf_state \<Rightarrow> u8 \<Rightarrow> vsnprintf_state" where
  "vsnprintf_putc st c =
     (if vrem st \<le> 1 then st
      else st\<lparr>vbuf := (vbuf st)[vpos st := c], vpos := vpos st + 1, vrem := vrem st - 1\<rparr>)"

definition vsnprintf :: "bytes \<Rightarrow> nat \<Rightarrow> bytes \<Rightarrow> varg list \<Rightarrow> (nat \<times> bytes) option" where
  "vsnprintf buf bufsz fmt ap =
     (case vgprintf vsnprintf_putc \<lparr>vbuf = buf, vpos = 0, vrem = bufsz\<rparr> fmt ap of
        None \<Rightarrow> None
      | Some (n, st) \<Rightarrow>
          if vrem st \<noteq> 0 then Some (n + 1, (vbuf st)[vpos st := 0]) else Some (n, vbuf st))"

section \<open>The text a format produces\<close>

text \<open>
  A specification without callbacks: the characters each formatter emits.  The refinement
  lemmas say that a formatter feeds exactly these characters to \<open>putcfn\<close>, in order, and
  returns their number.
\<close>

definition int_text :: "u64 \<Rightarrow> u64 \<Rightarrow> bool \<Rightarrow> u32 \<Rightarrow> bytes option" where
  "int_text v b z l =
     map_option (\<lambda>p. replicate (unat l - length p) (if z then 48 else 32) @ p) (fmt_digits 40 v b [])"

definition str_text :: "bytes option \<Rightarrow> u32 \<Rightarrow> bytes option" where
  "str_text s l =
     (let p = (case s of None \<Rightarrow> [78, 85, 76, 76, 0] | Some q \<Rightarrow> q)
      in if nul_terminated p then Some (cstr p @ replicate (unat l - length (cstr p)) 32) else None)"

definition char_text :: "u64 \<Rightarrow> u32 \<Rightarrow> bytes" where
  "char_text c l = replicate (unat l - 1) 32 @ [ucast c]"

definition convert_text ::
  "u8 \<Rightarrow> bool \<Rightarrow> u32 \<Rightarrow> nat \<Rightarrow> varg list \<Rightarrow> (bytes \<times> varg list) option" where
  "convert_text c zpad len lcnt ap =
     (if c \<in> {100, 105} then
        (case ap of VInt w # ap' \<Rightarrow>
           let ival = signed_arg lcnt w in
           map_option (\<lambda>t. (t, ap'))
             (if ival <s 0 then map_option ((#) 45) (int_text (- ival) 10 zpad (len - (if len > 0 then 1 else 0)))
              else int_text ival 10 zpad len)
         | _ \<Rightarrow> None)
      else if c \<in> {117, 120} then
        (case ap of VInt w # ap' \<Rightarrow>
           map_option (\<lambda>t. (t, ap')) (int_text (unsigned_arg lcnt w) (if c = 120 then 16 else 10) zpad len)
         | _ \<Rightarrow> None)
      else if c = 115 then
        (case ap of VStr s # ap' \<Rightarrow> map_option (\<lambda>t. (t, ap')) (str_text s len) | _ \<Rightarrow> None)
      else if c = 99 then
        (case ap of VInt w # ap' \<Rightarrow> Some (char_text w len, ap') | _ \<Rightarrow> None)
      else if c = 112 then
        (case ap of VInt w # ap' \<Rightarrow>
           map_option (\<lambda>t. ([48, 120] @ t, ap')) (int_text w 16 zpad len)
         | _ \<Rightarrow> None)
      else Some ([37, if c < 32 \<or> 127 \<le> c then 63 else c], ap))"

function fmt_text :: "bytes \<Rightarrow> varg list \<Rightarrow> bytes option" where
  "fmt_text fmt ap =
     (case fmt of
        [] \<Rightarrow> None
      | c # p \<Rightarrow>
          if c = 0 then Some []
          else if c = 37 then
            (case parse_spec p of
               None \<Rightarrow> None
             | Some (len, lcnt, s, q) \<Rightarrow>
                 (case convert_text s (take 1 p = [48]) len lcnt ap of
                    None \<Rightarrow> None
                  | Some (t, ap') \<Rightarrow>
                      if s = 0 then Some t else map_option (\<lambda>r. t @ r) (fmt_text q ap')))
          else map_option ((#) c) (fmt_text p ap))"
  by pat_completeness auto
termination
  by (relation "measure (\<lambda>(fmt, _). length fmt)") (auto dest: parse_spec_length)

declare fmt_text.simps [simp del]

lemma put_n_foldl [simp]: "put_n f a c n = foldl f a (replicate n c)"
  by (induction f a c n rule: put_n.induct) auto

lemma put_all_foldl [simp]: "put_all f a p = foldl f a p"
  by (induction f a p rule: put_all.induct) auto

lemma put_str_foldl:
  "put_str f a s n =
     (if nul_terminated s then Some (n + length (cstr s), foldl f a (cstr s)) else None)"
  by (induction f a s n rule: put_str.induct) auto

lemma format_int_text:
  "format_int f a v b z l = map_option (\<lambda>t. (length t, foldl f a t)) (int_text v b z l)"
  by (simp add: format_int_def int_text_def Let_def split: option.splits)

lemma format_str_text:
  "format_str f a s l = map_option (\<lambda>t. (length t, foldl f a t)) (str_text s l)"
  by (simp add: format_str_def str_text_def put_str_foldl Let_def split: option.splits)

lemma format_char_text:
  "format_char f a c l = (length (char_text c l), foldl f a (char_text c l))"
  by (auto simp: format_char_def char_text_def Let_def unat_gt_0 Suc_leI)

lemmas format_text = format_int_text format_str_text format_char_text

lemma str_text_0x: "str_text (Some [48, 120, 0]) 2 = Some [48, 120]"
  by (simp add: str_text_def Let_def)

lemma convert_refines_text:
  "convert f a c z len lcnt ap =
     map_option (\<lambda>(t, ap'). (length t, foldl f a t, ap')) (convert_text c z len lcnt ap)"
proof (cases ap)
  case Nil
  then show ?thesis by (simp add: convert_def convert_text_def)
next
  case (Cons x ap')
  then show ?thesis
    by (cases x) (simp_all add: convert_def convert_text_def format_text str_text_0x Let_def
        option.map_comp comp_def)
qed

lemma vgprintf_refines_text:
  "vgprintf f a fmt ap = map_option (\<lambda>t. (length t, foldl f a t)) (fmt_text fmt ap)"
proof (induction f a fmt ap rule: vgprintf.induct)
  case (1 f a fmt ap)
  show ?case
  proof (cases fmt)
    case Nil
    then show ?thesis by (simp add: vgprintf.simps fmt_text.simps)
  next
    case (Cons c p)
    consider "c = 0" | "c = 37" | "c \<noteq> 0" "c \<noteq> 37" by blast
    then show ?thesis
    proof cases
      case 1
      with Cons show ?thesis by (simp add: vgprintf.simps [of f a] fmt_text.simps [of "0 # p"])
    next
      case 2
      have IH: "vgprintf f a' q ap' = map_option (\<lambda>t. (length t, foldl f a' t)) (fmt_text q ap')"
        if "parse_spec p = Some (l, lc, s, q)" "s \<noteq> 0"
          "convert_text s (take 1 p = [48]) l lc ap = Some (t, ap')" "a' = foldl f a t" for l lc s q t ap' a'
        by (rule "1.IH"(1)) (use 2 Cons that in \<open>auto simp: convert_refines_text\<close>)
      from 2 Cons show ?thesis
        by (auto simp: vgprintf.simps [of f a] fmt_text.simps [of "37 # p"] convert_refines_text IH
            option.map_comp comp_def split: option.split)
    next
      case 3
      with Cons "1.IH"(2) show ?thesis
        by (simp add: vgprintf.simps [of f a] fmt_text.simps [of "c # p"] option.map_comp comp_def)
    qed
  qed
qed

section \<open>The bounded buffer of vsnprintf\<close>

lemma foldl_vsnprintf_putc:
  assumes "vpos st + vrem st \<le> length (vbuf st)" and "0 < vrem st"
  shows "foldl vsnprintf_putc st t =
     (let k = min (length t) (vrem st - 1)
      in st\<lparr>vbuf := take (vpos st) (vbuf st) @ take k t @ drop (vpos st + k) (vbuf st),
            vpos := vpos st + k, vrem := vrem st - k\<rparr>)"
  using assms
proof (induction t arbitrary: st)
  case Nil
  then show ?case by (simp add: Let_def)
next
  case (Cons c t)
  show ?case
  proof (cases "vrem st \<le> 1")
    case True
    with Cons show ?thesis by (simp add: vsnprintf_putc_def Let_def)
  next
    case False
    let ?st = "vsnprintf_putc st c"
    have st: "?st = st\<lparr>vbuf := (vbuf st)[vpos st := c], vpos := vpos st + 1, vrem := vrem st - 1\<rparr>"
      using False by (simp add: vsnprintf_putc_def)
    have "vpos ?st + vrem ?st \<le> length (vbuf ?st)" "0 < vrem ?st"
      using False Cons.prems by (auto simp: st)
    then have "foldl vsnprintf_putc ?st t =
       (let k = min (length t) (vrem ?st - 1)
        in ?st\<lparr>vbuf := take (vpos ?st) (vbuf ?st) @ take k t @ drop (vpos ?st + k) (vbuf ?st),
               vpos := vpos ?st + k, vrem := vrem ?st - k\<rparr>)"
      by (rule Cons.IH)
    moreover have "take (Suc (vpos st)) ((vbuf st)[vpos st := c]) = take (vpos st) (vbuf st) @ [c]"
      using False Cons.prems by (simp add: take_Suc_conv_app_nth)
    moreover have "min (length (c # t)) (vrem st - 1) = Suc (min (length t) (vrem st - 1 - 1))"
      using False by simp
    ultimately show ?thesis using False by (simp add: st Let_def)
  qed
qed

lemma vsnprintf_text:
  assumes "fmt_text fmt ap = Some t" and "0 < bufsz" and "bufsz \<le> length buf"
  shows "vsnprintf buf bufsz fmt ap =
     Some (length t + 1,
       take (bufsz - 1) t @ 0 # drop (Suc (min (length t) (bufsz - 1))) buf)"
proof -
  let ?k = "min (length t) (bufsz - 1)"
  have k: "?k < length buf" using assms by linarith
  have fold: "foldl vsnprintf_putc \<lparr>vbuf = buf, vpos = 0, vrem = bufsz\<rparr> t =
     \<lparr>vbuf = take ?k t @ drop ?k buf, vpos = ?k, vrem = bufsz - ?k\<rparr>"
    using assms by (subst foldl_vsnprintf_putc) (simp_all add: Let_def)
  have upd: "(take ?k t @ drop ?k buf)[?k := 0] = take ?k t @ 0 # drop (Suc ?k) buf"
  proof -
    have "drop ?k buf = buf ! ?k # drop (Suc ?k) buf" using k by (simp add: Cons_nth_drop_Suc)
    moreover have "(take ?k t @ buf ! ?k # r)[length (take ?k t) := 0] = take ?k t @ 0 # r" for r
      by (rule list_update_append_mid)
    ultimately show ?thesis by simp
  qed
  have "take ?k t = take (bufsz - 1) t" by (simp add: min_def)
  with assms fold upd show ?thesis
    by (simp add: vsnprintf_def vgprintf_refines_text)
qed

lemma vsnprintf_empty_buffer:
  assumes "fmt_text fmt ap = Some t"
  shows "vsnprintf buf 0 fmt ap = Some (length t, buf)"
proof -
  have "foldl vsnprintf_putc \<lparr>vbuf = buf, vpos = 0, vrem = 0\<rparr> t = \<lparr>vbuf = buf, vpos = 0, vrem = 0\<rparr>"
    by (induction t) (auto simp: vsnprintf_putc_def)
  with assms show ?thesis by (simp add: vsnprintf_def vgprintf_refines_text)
qed

section \<open>Digits and strtoul\<close>

lemma fmt_digits_defined:
  assumes "2 \<le> unat base" and "unat val < unat base ^ room" and "0 < room"
  shows "\<exists>p. fmt_digits room val base acc = Some p"
  using assms
proof (induction room val base acc rule: fmt_digits.induct)
  case (2 room val base p)
  have nz: "base \<noteq> 0" using "2.prems"(1) by auto
  show ?case
  proof (cases "val div base = 0")
    case True
    with nz show ?thesis by (simp add: Let_def)
  next
    case False
    have lt: "unat (val div base) < unat base ^ room"
      using "2.prems"(1,2) by (simp add: unat_div less_mult_imp_div_less mult.commute)
    have "0 < room"
      using False lt by (cases room) (auto simp: unat_0_iff)
    with "2.IH" [OF nz refl refl refl False "2.prems"(1) lt] nz False show ?thesis
      by (simp add: Let_def)
  qed
qed simp

lemma digit_char_decimal:
  assumes "x < 10"
  shows "uint (digit_char x) = 48 + uint x"
proof -
  have x: "uint x < 10" using assms by (simp add: word_less_def)
  have "uint (ucast x :: u8) = uint x"
    using x by (simp add: unsigned_ucast_eq take_bit_int_eq_self)
  then show ?thesis
    using assms x by (simp add: digit_char_def uint_word_ariths)
qed

definition decimal_value :: "u64 \<Rightarrow> bytes \<Rightarrow> u64" where
  "decimal_value v ds = foldl (\<lambda>v d. v * 10 + (ucast d - 48)) v ds"

lemma fmt_digits_decimal:
  assumes "fmt_digits room val 10 acc = Some p"
  shows "\<exists>ds. p = ds @ acc \<and> ds \<noteq> [] \<and> decimal_value 0 ds = val \<and>
              (\<forall>d\<in>set ds. 48 \<le> uint d \<and> uint d < 58)"
  using assms
proof (induction room val "10 :: u64" acc arbitrary: p rule: fmt_digits.induct)
  case (2 room val acc)
  let ?x = "val mod 10"
  have x: "?x < 10" by (rule word_mod_less_divisor) simp
  note dx = digit_char_decimal [OF x]
  have bx: "uint ?x < 10" using x by (simp add: word_less_def)
  have wx: "ucast (digit_char ?x) = 48 + ?x"
  proof -
    have "word_of_int (uint (digit_char ?x)) = (word_of_int (48 + uint ?x) :: u64)" by (simp only: dx)
    then show ?thesis by simp
  qed
  show ?case
  proof (cases "val div 10 = 0")
    case True
    have "?x = val" using True word_mod_div_equality [of val 10] by simp
    with True "2.prems" dx bx wx show ?thesis
      by (intro exI [of _ "[digit_char ?x]"]) (simp add: Let_def decimal_value_def)
  next
    case False
    with "2.prems" have "fmt_digits room (val div 10) 10 (digit_char ?x # acc) = Some p"
      by (simp add: Let_def)
    from "2.hyps" [OF _ refl refl refl False this] obtain ds where
      ds: "p = ds @ digit_char ?x # acc" "decimal_value 0 ds = val div 10"
        "\<forall>d\<in>set ds. 48 \<le> uint d \<and> uint d < 58" by auto
    have "(val div 10) * 10 + ?x = val" by (rule word_mod_div_equality)
    with ds dx bx wx show ?thesis
      by (intro exI [of _ "ds @ [digit_char ?x]"]) (auto simp: decimal_value_def)
  qed
qed simp

lemma strtoul_loop_decimal:
  assumes "\<forall>d\<in>set ds. 48 \<le> uint d \<and> uint d < 58" and "uint c < 48 \<or> 58 \<le> uint c"
  shows "strtoul_loop (ds @ c # r) 10 v i = Some (decimal_value v ds, i + length ds)"
  using assms by (induction ds arbitrary: v i) (auto simp: decimal_value_def)

section \<open>Properties\<close>



text \<open>Printing a 64-bit number in decimal and reading it back with \<open>strtoul\<close> gives the number
  again and consumes every digit; in particular the 40-byte digit buffer of the formatter never
  overflows in base 10.\<close>

theorem decimal_print_parse:
  "\<exists>ds. format_int (\<lambda>out c. out @ [c]) [] v 10 False 0 = Some (length ds, ds) \<and>
        strtoul (Some (ds @ [0])) 10 = Some (v, Some (length ds))"
proof -
  have "unat v < unat (10 :: u64) ^ 40"
    using unat_lt_64 [of v] by (rule less_trans) simp
  then obtain ds where ds: "fmt_digits 40 v 10 [] = Some ds"
    using fmt_digits_defined [of "10 :: u64" v 40] by auto
  from fmt_digits_decimal [OF this] have
    d: "ds \<noteq> []" "decimal_value 0 ds = v" "\<forall>d\<in>set ds. 48 \<le> uint d \<and> uint d < 58" by auto
  have "foldl (\<lambda>out c. out @ [c]) o1 p = o1 @ p" for o1 p :: bytes
    by (induction p arbitrary: o1) auto
  then have print: "format_int (\<lambda>out c. out @ [c]) [] v 10 False 0 = Some (length ds, ds)"
    by (simp add: format_int_def ds Let_def)
  obtain c r where cr: "ds = c # r" using d(1) by (cases ds) auto
  with d(3) have "c \<noteq> 45" "c \<noteq> 43" by auto
  with d strtoul_loop_decimal [of ds 0 "[]" 0 0]
  have "strtoul (Some (ds @ [0])) 10 = Some (v, Some (length ds))"
    by (simp add: strtoul_def cr)
  with print show ?thesis by blast
qed

end
