(* ===== verification/Fifo.thy ===== *)
theory Fifo
  imports Prelude
begin

text \<open>
  Two ring buffers of the kernel and the contract they share.  The UART driver's
  \<open>struct ringbuf\<close> (\<open>modified/sys/dev/uart.c\<close>) has free-running 32-bit positions reduced
  modulo 64 at each access; the pipe's \<open>struct ringbuf\<close> (\<open>modified/sys/uio.c\<close>) keeps its
  positions reduced modulo the page size and its byte count next to it.  The locale
  \<open>byte_fifo\<close> states what both promise (a bounded first-in first-out queue of bytes) and
  derives what loops of puts and gets do; both buffers interpret it.
\<close>

section \<open>The contract\<close>

locale byte_fifo =
  fixes fifo_inv :: "'q \<Rightarrow> bool"
    and contents :: "'q \<Rightarrow> bytes"
    and capacity :: nat
    and put :: "'q \<Rightarrow> u8 \<Rightarrow> 'q"
    and get :: "'q \<Rightarrow> u8 \<times> 'q"
  assumes contents_bound: "fifo_inv q \<Longrightarrow> length (contents q) \<le> capacity"
    and put_inv: "fifo_inv q \<Longrightarrow> length (contents q) < capacity \<Longrightarrow> fifo_inv (put q c)"
    and put_contents:
      "fifo_inv q \<Longrightarrow> length (contents q) < capacity \<Longrightarrow> contents (put q c) = contents q @ [c]"
    and get_inv: "fifo_inv q \<Longrightarrow> contents q \<noteq> [] \<Longrightarrow> fifo_inv (snd (get q))"
    and get_contents:
      "fifo_inv q \<Longrightarrow> contents q \<noteq> [] \<Longrightarrow> contents q = fst (get q) # contents (snd (get q))"

text \<open>Taking a fixed number of bytes, the shape of the copy loops over both buffers.\<close>

fun take_loop :: "('q \<Rightarrow> u8 \<times> 'q) \<Rightarrow> nat \<Rightarrow> 'q \<Rightarrow> bytes \<times> 'q" where
  "take_loop getc 0 q = ([], q)"
| "take_loop getc (Suc n) q =
     (case getc q of (c, q1) \<Rightarrow> (case take_loop getc n q1 of (cs, q2) \<Rightarrow> (c # cs, q2)))"

context byte_fifo
begin

lemma put_all:
  assumes "fifo_inv q" and "length (contents q) + length cs \<le> capacity"
  shows "fifo_inv (foldl put q cs) \<and> contents (foldl put q cs) = contents q @ cs"
  using assms
proof (induction cs arbitrary: q)
  case (Cons c cs)
  then have room: "length (contents q) < capacity" by simp
  with Cons.prems have "fifo_inv (put q c)" "contents (put q c) = contents q @ [c]"
    by (simp_all add: put_inv put_contents)
  with Cons.IH [of "put q c"] Cons.prems show ?case by simp
qed simp

lemma take_all:
  assumes "fifo_inv q" and "n \<le> length (contents q)"
  shows "fst (take_loop get n q) = take n (contents q) \<and>
     fifo_inv (snd (take_loop get n q)) \<and>
     contents (snd (take_loop get n q)) = drop n (contents q)"
  using assms
proof (induction n arbitrary: q)
  case (Suc n)
  obtain c q1 where g: "get q = (c, q1)" by (cases "get q")
  from Suc.prems have ne: "contents q \<noteq> []" by auto
  with Suc.prems(1) g have "fifo_inv q1" "contents q = c # contents q1"
    using get_inv [of q] get_contents [of q] by auto
  with Suc.IH [of q1] Suc.prems(2) g show ?case by (simp add: split_beta)
qed simp

text \<open>First in, first out: what was put comes out, in order, after what was there.\<close>

lemma put_then_take:
  assumes "fifo_inv q" and "length (contents q) + length cs \<le> capacity"
  shows "fst (take_loop get (length (contents q) + length cs) (foldl put q cs)) = contents q @ cs"
  using put_all [OF assms] take_all [of "foldl put q cs" "length (contents q) + length cs"] by simp

end

section \<open>The UART driver's ring buffer\<close>

abbreviation (input) UART_RBUFSZ :: nat where "UART_RBUFSZ \<equiv> 64"

record uart_ringbuf =
  hpos :: u32
  tpos :: u32
  data :: bytes

definition rbuf_init :: "uart_ringbuf \<Rightarrow> uart_ringbuf" where
  "rbuf_init rbuf = rbuf\<lparr>hpos := 0, tpos := 0\<rparr>"

definition rbuf_empty :: "uart_ringbuf \<Rightarrow> bool" where
  "rbuf_empty rbuf \<longleftrightarrow> hpos rbuf = tpos rbuf"

definition rbuf_full :: "uart_ringbuf \<Rightarrow> bool" where
  "rbuf_full rbuf \<longleftrightarrow> tpos rbuf - hpos rbuf = of_nat UART_RBUFSZ"

definition rbuf_putc :: "uart_ringbuf \<Rightarrow> u8 \<Rightarrow> uart_ringbuf" where
  "rbuf_putc rbuf c =
     (let tp = tpos rbuf
      in rbuf\<lparr>data := (data rbuf)[unat (tp mod of_nat UART_RBUFSZ) := c], tpos := tp + 1\<rparr>)"

definition rbuf_getc :: "uart_ringbuf \<Rightarrow> u8 \<times> uart_ringbuf" where
  "rbuf_getc rbuf =
     (let hp = hpos rbuf
      in (data rbuf ! unat (hp mod of_nat UART_RBUFSZ), rbuf\<lparr>hpos := hp + 1\<rparr>))"

definition rbuf_count :: "uart_ringbuf \<Rightarrow> nat" where
  "rbuf_count r = unat (tpos r - hpos r)"

definition rbuf_inv :: "uart_ringbuf \<Rightarrow> bool" where
  "rbuf_inv r \<longleftrightarrow> length (data r) = UART_RBUFSZ \<and> rbuf_count r \<le> UART_RBUFSZ"

definition rbuf_contents :: "uart_ringbuf \<Rightarrow> bytes" where
  "rbuf_contents r =
     map (\<lambda>i. data r ! unat ((hpos r + of_nat i) mod of_nat UART_RBUFSZ)) [0..<rbuf_count r]"

lemma length_rbuf_contents [simp]: "length (rbuf_contents r) = rbuf_count r"
  by (simp add: rbuf_contents_def)

lemma unat_mod_64: "unat (w mod 64 :: u32) = unat w mod 64"
  by (simp add: unat_mod)

lemma rbuf_slot: "unat ((h + of_nat i) mod 64 :: u32) = (unat h + i) mod 64"
proof -
  have "unat (h + of_nat i :: u32) = (unat h + i) mod 2 ^ 32"
    by (simp add: unat_word_ariths unat_of_nat mod_add_right_eq)
  moreover have "(unat h + i) mod 2 ^ 32 mod 64 = (unat h + i) mod 64"
    by (simp add: mod_mod_cancel)
  ultimately show ?thesis by (simp add: unat_mod_64)
qed

lemma rbuf_empty_iff: "rbuf_empty r \<longleftrightarrow> rbuf_count r = 0"
  by (auto simp: rbuf_empty_def rbuf_count_def unat_0_iff)

lemma rbuf_full_iff: "rbuf_full r \<longleftrightarrow> rbuf_count r = UART_RBUFSZ"
proof -
  have "tpos r - hpos r = 64 \<longleftrightarrow> unat (tpos r - hpos r) = unat (64 :: u32)"
    by (metis word_unat_eq_iff)
  then show ?thesis by (simp add: rbuf_full_def rbuf_count_def)
qed

lemma rbuf_count_putc:
  assumes "rbuf_count r < UART_RBUFSZ"
  shows "rbuf_count (rbuf_putc r c) = Suc (rbuf_count r)"
proof -
  have "unat ((tpos r - hpos r) + 1) = Suc (unat (tpos r - hpos r))"
    using assms by (simp add: rbuf_count_def unat_word_ariths)
  then have "unat (tpos r + 1 - hpos r) = Suc (unat (tpos r - hpos r))"
    by (simp only: add_diff_eq diff_add_eq)
  moreover have "rbuf_count (rbuf_putc r c) = unat (tpos r + 1 - hpos r)"
    by (simp add: rbuf_count_def rbuf_putc_def Let_def)
  ultimately show ?thesis by (simp add: rbuf_count_def)
qed

lemma rbuf_count_getc:
  assumes "rbuf_count r \<noteq> 0"
  shows "rbuf_count (snd (rbuf_getc r)) = rbuf_count r - 1"
proof -
  have "tpos r - hpos r \<noteq> 0" using assms by (auto simp: rbuf_count_def)
  then have "unat ((tpos r - hpos r) - 1) = unat (tpos r - hpos r) - 1" by (rule unat_minus_one)
  then have "unat (tpos r - (hpos r + 1)) = unat (tpos r - hpos r) - 1"
    by (simp only: diff_diff_eq [symmetric])
  moreover have "rbuf_count (snd (rbuf_getc r)) = unat (tpos r - (hpos r + 1))"
    by (simp add: rbuf_count_def rbuf_getc_def Let_def)
  ultimately show ?thesis by (simp add: rbuf_count_def)
qed

lemma rbuf_tpos_slot: "unat (tpos r mod 64) = (unat (hpos r) + rbuf_count r) mod 64"
proof -
  have "tpos r = hpos r + of_nat (rbuf_count r)" by (simp add: rbuf_count_def)
  then have "unat (tpos r mod 64) = unat ((hpos r + of_nat (rbuf_count r)) mod 64)"
    by simp
  then show ?thesis by (simp only: rbuf_slot)
qed

interpretation uart_fifo: byte_fifo rbuf_inv rbuf_contents UART_RBUFSZ rbuf_putc rbuf_getc
proof (unfold_locales, goal_cases)
  case (1 q)
  then show ?case by (simp add: rbuf_inv_def)
next
  case (2 q c)
  then have "rbuf_count (rbuf_putc q c) \<le> 64" by (simp add: rbuf_count_putc)
  with 2 show ?case by (simp add: rbuf_inv_def) (simp add: rbuf_putc_def Let_def)
next
  case (3 q c)
  then have len: "length (data q) = 64" "rbuf_count q < 64" by (simp_all add: rbuf_inv_def)
  have "rbuf_contents (rbuf_putc q c) =
      map (\<lambda>i. data (rbuf_putc q c) ! ((unat (hpos q) + i) mod 64)) [0..<Suc (rbuf_count q)]"
    using len by (simp add: rbuf_contents_def rbuf_count_putc rbuf_slot)
      (simp add: rbuf_putc_def Let_def)
  moreover have "data (rbuf_putc q c) ! ((unat (hpos q) + i) mod 64) =
      (if i = rbuf_count q then c else data q ! ((unat (hpos q) + i) mod 64))"
    if "i < Suc (rbuf_count q)" for i
    using len that ring_index_inj [of "unat (hpos q)" i 64 "rbuf_count q"]
    by (auto simp: rbuf_putc_def Let_def rbuf_tpos_slot nth_list_update)
  ultimately show ?case by (simp add: rbuf_contents_def rbuf_slot)
next
  case (4 q)
  then have "rbuf_count q \<noteq> 0" by (metis length_0_conv length_rbuf_contents)
  then have "rbuf_count (snd (rbuf_getc q)) \<le> rbuf_count q" by (simp add: rbuf_count_getc)
  with 4 show ?case
    by (auto simp: rbuf_inv_def) (simp add: rbuf_getc_def Let_def)
next
  case (5 q)
  then obtain n where n: "rbuf_count q = Suc n"
    by (metis length_0_conv length_rbuf_contents not0_implies_Suc)
  then have "rbuf_count (snd (rbuf_getc q)) = n" by (simp add: rbuf_count_getc)
  moreover have "[0..<Suc n] = 0 # map Suc [0..<n]" by (simp add: upt_conv_Cons map_Suc_upt)
  ultimately show ?case
    using n by (simp add: rbuf_contents_def comp_def)
      (simp add: rbuf_getc_def Let_def algebra_simps)
qed

section \<open>The pipe's ring buffer\<close>

record pipe_ringbuf =
  p_hpos :: nat
  p_tpos :: nat
  p_data :: bytes

text \<open>
  One iteration of the copy loops of \<open>pipe_read\<close> and \<open>pipe_write\<close>.  The positions stay
  below \<open>PAGE_SIZE\<close>, so the \<open>unsigned int\<close> additions never wrap and \<open>nat\<close> is exact.
\<close>

definition ring_getc :: "pipe_ringbuf \<Rightarrow> u8 \<times> pipe_ringbuf" where
  "ring_getc b = (p_data b ! p_hpos b, b\<lparr>p_hpos := (p_hpos b + 1) mod PAGE_SIZE\<rparr>)"

definition ring_putc :: "pipe_ringbuf \<Rightarrow> u8 \<Rightarrow> pipe_ringbuf" where
  "ring_putc b c =
     b\<lparr>p_data := (p_data b)[p_tpos b := c], p_tpos := (p_tpos b + 1) mod PAGE_SIZE\<rparr>"

text \<open>The pipe counts its bytes beside the ring: the queue is the ring with its count.\<close>

type_synonym counted_ring = "pipe_ringbuf \<times> nat"

definition counted_get :: "counted_ring \<Rightarrow> u8 \<times> counted_ring" where
  "counted_get q = (case ring_getc (fst q) of (c, b) \<Rightarrow> (c, (b, snd q - 1)))"

definition counted_put :: "counted_ring \<Rightarrow> u8 \<Rightarrow> counted_ring" where
  "counted_put q c = (ring_putc (fst q) c, snd q + 1)"

definition ring_inv :: "counted_ring \<Rightarrow> bool" where
  "ring_inv q \<longleftrightarrow> length (p_data (fst q)) = PAGE_SIZE \<and> p_hpos (fst q) < PAGE_SIZE \<and>
     snd q \<le> PAGE_SIZE \<and> p_tpos (fst q) = (p_hpos (fst q) + snd q) mod PAGE_SIZE"

definition ring_contents :: "counted_ring \<Rightarrow> bytes" where
  "ring_contents q = map (\<lambda>i. p_data (fst q) ! ((p_hpos (fst q) + i) mod PAGE_SIZE)) [0..<snd q]"

lemma length_ring_contents [simp]: "length (ring_contents q) = snd q"
  by (simp add: ring_contents_def)

interpretation pipe_fifo: byte_fifo ring_inv ring_contents PAGE_SIZE counted_put counted_get
proof (unfold_locales, goal_cases)
  case (1 q)
  then show ?case by (simp add: ring_inv_def)
next
  case (2 q c)
  then show ?case
    by (auto simp: ring_inv_def counted_put_def ring_putc_def mod_Suc_eq)
next
  case (3 q c)
  then have q: "length (p_data (fst q)) = 4096" "snd q < 4096"
      "p_tpos (fst q) = (p_hpos (fst q) + snd q) mod 4096"
    by (auto simp: ring_inv_def)
  have "p_data (fst (counted_put q c)) ! ((p_hpos (fst q) + i) mod 4096) =
      (if i = snd q then c else p_data (fst q) ! ((p_hpos (fst q) + i) mod 4096))"
    if "i < Suc (snd q)" for i
    using q that ring_index_inj [of "p_hpos (fst q)" i 4096 "snd q"]
    by (auto simp: counted_put_def ring_putc_def nth_list_update)
  moreover have "p_hpos (fst (counted_put q c)) = p_hpos (fst q)" "snd (counted_put q c) = Suc (snd q)"
    by (simp_all add: counted_put_def ring_putc_def)
  ultimately show ?case by (simp add: ring_contents_def)
next
  case (4 q)
  then obtain n where n: "snd q = Suc n"
    by (metis length_0_conv length_ring_contents not0_implies_Suc)
  have "(p_hpos (fst q) + Suc n) mod 4096 = (Suc (p_hpos (fst q)) mod 4096 + n) mod 4096"
    by (simp add: mod_simps)
  with 4 n show ?case
    by (auto simp: ring_inv_def counted_get_def ring_getc_def)
next
  case (5 q)
  then obtain n where n: "snd q = Suc n"
    by (metis length_0_conv length_ring_contents not0_implies_Suc)
  have split: "[0..<Suc n] = 0 # map Suc [0..<n]" by (simp add: upt_conv_Cons map_Suc_upt)
  have "p_hpos (fst q) mod 4096 = p_hpos (fst q)" using 5 by (simp add: ring_inv_def)
  with n split show ?case
    by (simp add: ring_contents_def counted_get_def ring_getc_def comp_def mod_simps)
qed

lemma foldl_counted_put:
  "foldl counted_put (b, n) cs = (foldl ring_putc b cs, n + length cs)"
  by (induction cs arbitrary: b n) (simp_all add: counted_put_def)

lemma take_loop_counted_get:
  "take_loop counted_get n (b, m) =
     (fst (take_loop ring_getc n b), (snd (take_loop ring_getc n b), m - n))"
  by (induction n arbitrary: b m) (simp_all add: counted_get_def split_beta)

end
