(* ===== verification/Uart.thy ===== *)
theory Uart
  imports Fifo
begin

text \<open>
  The interrupt-driven UART driver, \<open>modified/sys/dev/uart.c\<close>: open, close, the blocking
  receive and send calls and the interrupt service routine.  The device registers are an
  input: an interrupt comes with the overrun bit, the bytes that successive reads of RBR
  return while LSR shows data ready, and the number of writes to THR before LSR stops showing
  it empty.  A blocking call runs until it returns or sleeps on its condition variable; it
  keeps the UART's lock while it sleeps, so at most one call is in progress.
\<close>

section \<open>State\<close>

abbreviation (input) IER_DRIE :: u8 where "IER_DRIE \<equiv> 1"
abbreviation (input) IER_THREIE :: u8 where "IER_THREIE \<equiv> 2"

record uart_serial =
  opened :: bool
  rxovrcnt :: u64
  ier :: u8
  rxbnotempty_waiting :: bool
  txbnotfull_waiting :: bool
  rxbuf :: uart_ringbuf
  txbuf :: uart_ringbuf

section \<open>Open and close\<close>

definition uart_serial_open :: "uart_serial \<Rightarrow> int \<times> uart_serial" where
  "uart_serial_open uart =
     (if opened uart then (- EBUSY, uart)
      else (0, uart\<lparr>rxbuf := rbuf_init (rxbuf uart), txbuf := rbuf_init (txbuf uart),
                    ier := IER_DRIE, opened := True\<rparr>))"

definition uart_serial_close :: "uart_serial \<Rightarrow> uart_serial" where
  "uart_serial_close uart = (if \<not> opened uart then uart else uart\<lparr>ier := 0, opened := False\<rparr>)"

section \<open>The copy loops\<close>

text \<open>Move at most \<open>n\<close> bytes out of a ring buffer, stopping when it is empty.\<close>

fun rbuf_drain :: "nat \<Rightarrow> uart_ringbuf \<Rightarrow> bytes \<times> uart_ringbuf" where
  "rbuf_drain 0 b = ([], b)"
| "rbuf_drain (Suc n) b =
     (if rbuf_empty b then ([], b)
      else (case rbuf_getc b of (c, b1) \<Rightarrow> (case rbuf_drain n b1 of (cs, b2) \<Rightarrow> (c # cs, b2))))"

text \<open>Move bytes into a ring buffer, stopping when it is full; the bytes left over are returned.\<close>

fun rbuf_fill :: "bytes \<Rightarrow> uart_ringbuf \<Rightarrow> bytes \<times> uart_ringbuf" where
  "rbuf_fill [] b = ([], b)"
| "rbuf_fill (c # cs) b = (if rbuf_full b then (c # cs, b) else rbuf_fill cs (rbuf_putc b c))"

lemma rbuf_drain_progress:
  "n \<noteq> 0 \<Longrightarrow> \<not> rbuf_empty b \<Longrightarrow> fst (rbuf_drain n b) \<noteq> []"
  by (cases n) (auto split: prod.split)

lemma rbuf_fill_length: "length (fst (rbuf_fill cs b)) \<le> length cs"
  by (induction cs arbitrary: b) (auto intro: le_SucI)

lemma rbuf_fill_progress:
  "cs \<noteq> [] \<Longrightarrow> \<not> rbuf_full b \<Longrightarrow> length (fst (rbuf_fill cs b)) < length cs"
  by (cases cs) (auto simp: less_Suc_eq_le rbuf_fill_length)

section \<open>Blocking calls\<close>

text \<open>A call in progress: the size asked for and the bytes copied so far, or the size given
  and the bytes still to queue.  It returns a code or sleeps.\<close>

datatype uart_call = Receiving nat bytes | Sending nat bytes

datatype uart_outcome = Returns int | Sleeps uart_call

function recv_run :: "nat \<Rightarrow> bytes \<Rightarrow> uart_serial \<Rightarrow> (uart_outcome \<times> bytes) \<times> uart_serial" where
  "recv_run bufsz got uart =
     (if bufsz \<le> length got then ((Returns (int (length got)), got), uart)
      else if rbuf_empty (rxbuf uart)
      then ((Sleeps (Receiving bufsz got), got), uart\<lparr>rxbnotempty_waiting := True\<rparr>)
      else recv_run bufsz (got @ fst (rbuf_drain (bufsz - length got) (rxbuf uart)))
             (uart\<lparr>rxbuf := snd (rbuf_drain (bufsz - length got) (rxbuf uart))\<rparr>))"
  by pat_completeness auto
termination
proof (relation "measure (\<lambda>(bufsz, got, uart). bufsz - length got)", goal_cases)
  case (2 bufsz got uart)
  then have "fst (rbuf_drain (bufsz - length got) (rxbuf uart)) \<noteq> []"
    by (intro rbuf_drain_progress) auto
  with 2 show ?case by (auto intro!: diff_less_mono2)
qed simp

function send_run :: "nat \<Rightarrow> bytes \<Rightarrow> uart_serial \<Rightarrow> (uart_outcome \<times> bytes) \<times> uart_serial" where
  "send_run bufsz left uart =
     (if left = [] then ((Returns (int bufsz), []), uart)
      else if rbuf_full (txbuf uart)
      then ((Sleeps (Sending bufsz left), left), uart\<lparr>txbnotfull_waiting := True\<rparr>)
      else send_run bufsz (fst (rbuf_fill left (txbuf uart)))
             (uart\<lparr>txbuf := snd (rbuf_fill left (txbuf uart)), ier := ier uart OR IER_THREIE\<rparr>))"
  by pat_completeness auto
termination
  by (relation "measure (\<lambda>(bufsz, left, uart). length left)") (auto intro: rbuf_fill_progress)

declare recv_run.simps [simp del] send_run.simps [simp del]

definition uart_serial_recv ::
    "bool \<Rightarrow> nat \<Rightarrow> uart_serial \<Rightarrow> (uart_outcome \<times> bytes) \<times> uart_serial" where
  "uart_serial_recv buf_is_null bufsz uart =
     (if \<not> opened uart \<or> buf_is_null then ((Returns (- EINVAL), []), uart)
      else if bufsz = 0 then ((Returns 0, []), uart)
      else recv_run bufsz [] (uart\<lparr>ier := ier uart OR IER_DRIE\<rparr>))"

definition uart_serial_send ::
    "bytes option \<Rightarrow> uart_serial \<Rightarrow> (uart_outcome \<times> bytes) \<times> uart_serial" where
  "uart_serial_send buf uart =
     (case buf of
        None \<Rightarrow> ((Returns (- EINVAL), []), uart)
      | Some bs \<Rightarrow>
          (if \<not> opened uart then ((Returns (- EINVAL), bs), uart)
           else if bs = [] then ((Returns 0, []), uart)
           else send_run (length bs) bs uart))"

section \<open>Interrupts\<close>

text \<open>The result: bytes left in the receiver hardware, and bytes written to THR.\<close>

definition uart_isr ::
    "bool \<Rightarrow> bytes \<Rightarrow> nat \<Rightarrow> uart_serial \<Rightarrow> (bytes \<times> bytes) \<times> uart_serial" where
  "uart_isr lsr_oe rbr room uart =
     (case rbuf_fill rbr (rxbuf uart) of (rest, rx) \<Rightarrow>
      case rbuf_drain room (txbuf uart) of (thr, tx) \<Rightarrow>
        let ier1 = (if rbuf_full rx then ier uart AND NOT IER_DRIE else ier uart OR IER_DRIE);
            ier2 = (if rbuf_empty tx then ier1 AND NOT IER_THREIE else ier1 OR IER_THREIE)
        in ((rest, thr),
            uart\<lparr>rxovrcnt := (if lsr_oe then rxovrcnt uart + 1 else rxovrcnt uart),
                 rxbuf := rx, txbuf := tx, ier := ier2,
                 rxbnotempty_waiting := rxbnotempty_waiting uart \<and> length rest = length rbr,
                 txbnotfull_waiting := txbnotfull_waiting uart \<and> thr = []\<rparr>))"


section \<open>The open device with its callers and its line\<close>

text \<open>
  The lock holder is the call that sleeps inside the driver.  The four logs record the line
  and the callers: bytes the interrupt handler took from the receiver, bytes copied to callers,
  bytes taken from callers, bytes written to the transmitter.
\<close>

record uart_sys =
  dev :: uart_serial
  holder :: "uart_call option"
  wire_in :: bytes
  delivered :: bytes
  queued :: bytes
  wire_out :: bytes

datatype uart_event =
    Interrupt bool bytes nat
  | Recv nat
  | Send bytes
  | Resume

definition after_recv :: "bytes \<Rightarrow> (uart_outcome \<times> bytes) \<times> uart_serial \<Rightarrow> uart_sys \<Rightarrow> uart_sys" where
  "after_recv got r s =
     s\<lparr>dev := snd r,
       holder := (case fst (fst r) of Returns _ \<Rightarrow> None | Sleeps c \<Rightarrow> Some c),
       delivered := delivered s @ drop (length got) (snd (fst r))\<rparr>"

definition after_send :: "bytes \<Rightarrow> (uart_outcome \<times> bytes) \<times> uart_serial \<Rightarrow> uart_sys \<Rightarrow> uart_sys" where
  "after_send given r s =
     s\<lparr>dev := snd r,
       holder := (case fst (fst r) of Returns _ \<Rightarrow> None | Sleeps c \<Rightarrow> Some c),
       queued := queued s @ take (length given - length (snd (fst r))) given\<rparr>"

text \<open>
  The device interrupts when data is ready with DRIE set or the transmitter is empty with
  THREIE set.  A call starts when the lock is free; a sleeper resumes after its broadcast.
\<close>

definition uart_step :: "uart_event \<Rightarrow> uart_sys \<Rightarrow> uart_sys option" where
  "uart_step e s =
     (case e of
        Interrupt oe rbr room \<Rightarrow>
          (if (rbr \<noteq> [] \<and> ier (dev s) AND IER_DRIE \<noteq> 0) \<or> (room \<noteq> 0 \<and> ier (dev s) AND IER_THREIE \<noteq> 0)
           then (case uart_isr oe rbr room (dev s) of ((rest, thr), d) \<Rightarrow>
             Some (s\<lparr>dev := d, wire_in := wire_in s @ take (length rbr - length rest) rbr,
                     wire_out := wire_out s @ thr\<rparr>))
           else None)
      | Recv bufsz \<Rightarrow>
          (if holder s = None then Some (after_recv [] (uart_serial_recv False bufsz (dev s)) s) else None)
      | Send bs \<Rightarrow>
          (if holder s = None then Some (after_send bs (uart_serial_send (Some bs) (dev s)) s) else None)
      | Resume \<Rightarrow>
          (case holder s of
             Some (Receiving bufsz got) \<Rightarrow>
               (if rxbnotempty_waiting (dev s) then None
                else Some (after_recv got (recv_run bufsz got (dev s)) s))
           | Some (Sending bufsz left) \<Rightarrow>
               (if txbnotfull_waiting (dev s) then None
                else Some (after_send left (send_run bufsz left (dev s)) s))
           | None \<Rightarrow> None))"

definition uart_init_sys :: "uart_serial \<Rightarrow> uart_sys" where
  "uart_init_sys d = \<lparr>dev = d, holder = None, wire_in = [], delivered = [], queued = [], wire_out = []\<rparr>"

text \<open>What \<open>attach_uart\<close> leaves: a zeroed structure.\<close>

definition attached_uart :: uart_serial where
  "attached_uart =
     \<lparr>opened = False, rxovrcnt = 0, ier = 0, rxbnotempty_waiting = False, txbnotfull_waiting = False,
      rxbuf = \<lparr>hpos = 0, tpos = 0, data = replicate UART_RBUFSZ 0\<rparr>,
      txbuf = \<lparr>hpos = 0, tpos = 0, data = replicate UART_RBUFSZ 0\<rparr>\<rparr>"

inductive uart_reach :: "uart_sys \<Rightarrow> bool" where
  opened_init: "uart_reach (uart_init_sys (snd (uart_serial_open attached_uart)))"
| step: "uart_reach s \<Longrightarrow> uart_step e s = Some s' \<Longrightarrow> uart_reach s'"


section \<open>What the loops do to the queues\<close>

lemma rbuf_contents_nil_iff: "rbuf_contents b = [] \<longleftrightarrow> rbuf_empty b"
  by (metis length_0_conv length_rbuf_contents rbuf_empty_iff)

lemma rbuf_drain_take_loop:
  "rbuf_inv b \<Longrightarrow> rbuf_drain n b = take_loop rbuf_getc (min n (rbuf_count b)) b"
proof (induction n arbitrary: b)
  case (Suc n)
  show ?case
  proof (cases "rbuf_empty b")
    case True
    then show ?thesis by (simp add: rbuf_empty_iff)
  next
    case False
    then have nz: "rbuf_count b \<noteq> 0" by (simp add: rbuf_empty_iff)
    with False Suc.prems have "rbuf_inv (snd (rbuf_getc b))"
      by (intro uart_fifo.get_inv) (auto simp: rbuf_contents_nil_iff)
    from Suc.IH [OF this] nz
    have "rbuf_drain n (snd (rbuf_getc b)) =
        take_loop rbuf_getc (min n (rbuf_count b - 1)) (snd (rbuf_getc b))"
      by (simp add: rbuf_count_getc)
    moreover have "min (Suc n) (rbuf_count b) = Suc (min n (rbuf_count b - 1))" using nz by simp
    ultimately show ?thesis using False by (simp add: split_beta)
  qed
qed simp

lemma rbuf_drain_spec:
  assumes "rbuf_inv b"
  shows "fst (rbuf_drain n b) = take n (rbuf_contents b)"
    and "rbuf_inv (snd (rbuf_drain n b))"
    and "rbuf_contents (snd (rbuf_drain n b)) = drop n (rbuf_contents b)"
proof -
  have min_take: "take (min n (rbuf_count b)) (rbuf_contents b) = take n (rbuf_contents b)"
    "drop (min n (rbuf_count b)) (rbuf_contents b) = drop n (rbuf_contents b)"
    by (simp_all add: min_def)
  note t = uart_fifo.take_all [OF assms, of "min n (rbuf_count b)"]
  from t min_take assms show "fst (rbuf_drain n b) = take n (rbuf_contents b)"
    "rbuf_inv (snd (rbuf_drain n b))"
    "rbuf_contents (snd (rbuf_drain n b)) = drop n (rbuf_contents b)"
    by (simp_all add: rbuf_drain_take_loop)
qed

lemma rbuf_fill_spec:
  assumes "rbuf_inv b"
  shows "rbuf_inv (snd (rbuf_fill cs b)) \<and>
     fst (rbuf_fill cs b) = drop (UART_RBUFSZ - rbuf_count b) cs \<and>
     rbuf_contents (snd (rbuf_fill cs b)) = rbuf_contents b @ take (UART_RBUFSZ - rbuf_count b) cs"
  using assms
proof (induction cs arbitrary: b)
  case (Cons c cs)
  show ?case
  proof (cases "rbuf_full b")
    case True
    with Cons.prems show ?thesis by (simp add: rbuf_full_iff)
  next
    case False
    with Cons.prems have lt: "rbuf_count b < 64" by (auto simp: rbuf_full_iff rbuf_inv_def)
    with Cons.prems have "rbuf_inv (rbuf_putc b c)" "rbuf_contents (rbuf_putc b c) = rbuf_contents b @ [c]"
      using uart_fifo.put_inv [of b c] uart_fifo.put_contents [of b c] by simp_all
    moreover have "64 - rbuf_count b = Suc (64 - Suc (rbuf_count b))" using lt by simp
    ultimately show ?thesis
      using Cons.IH [of "rbuf_putc b c"] False lt by (simp add: rbuf_count_putc)
  qed
qed simp

definition recv_post ::
    "nat \<Rightarrow> bytes \<Rightarrow> uart_serial \<Rightarrow> (uart_outcome \<times> bytes) \<times> uart_serial \<Rightarrow> bool" where
  "recv_post sz got u r \<longleftrightarrow>
     (let out = fst (fst r); copied = snd (fst r); d = snd r
      in (\<exists>X. copied = got @ X \<and> rbuf_contents (rxbuf u) = X @ rbuf_contents (rxbuf d)) \<and>
         rbuf_inv (rxbuf d) \<and> txbuf d = txbuf u \<and> ier d = ier u \<and> opened d = opened u \<and>
         txbnotfull_waiting d = txbnotfull_waiting u \<and>
         (length got \<le> sz \<longrightarrow> length copied \<le> sz) \<and>
         out = (if sz \<le> length copied then Returns (int (length copied))
                else Sleeps (Receiving sz copied)) \<and>
         rxbnotempty_waiting d = (\<not> sz \<le> length copied) \<and>
         (rxbnotempty_waiting d \<longrightarrow> rbuf_contents (rxbuf d) = []))"

lemma recv_run_post:
  assumes "rbuf_inv (rxbuf u)" and "\<not> rxbnotempty_waiting u"
  shows "recv_post sz got u (recv_run sz got u)"
  using assms
proof (induction sz got u rule: recv_run.induct)
  case (1 sz got u)
  consider (all) "sz \<le> length got" | (dry) "\<not> sz \<le> length got" "rbuf_empty (rxbuf u)"
    | (more) "\<not> sz \<le> length got" "\<not> rbuf_empty (rxbuf u)" by blast
  then show ?case
  proof cases
    case all
    with 1(2,3) show ?thesis by (simp add: recv_run.simps [of sz got u] recv_post_def)
  next
    case dry
    with 1(2) show ?thesis
      by (simp add: recv_run.simps [of sz got u] recv_post_def rbuf_contents_nil_iff)
  next
    case more
    let ?k = "sz - length got"
    let ?u = "u\<lparr>rxbuf := snd (rbuf_drain ?k (rxbuf u))\<rparr>"
    let ?got = "got @ take ?k (rbuf_contents (rxbuf u))"
    let ?r = "recv_run sz ?got ?u"
    note dr = rbuf_drain_spec [OF 1(2), of ?k]
    from more dr(1) have run: "recv_run sz got u = ?r" by (simp add: recv_run.simps [of sz got u])
    from 1(1) [OF more] dr 1(3) have IH: "recv_post sz ?got ?u ?r" by simp
    then obtain X where X: "snd (fst ?r) = ?got @ X"
        "drop ?k (rbuf_contents (rxbuf u)) = X @ rbuf_contents (rxbuf (snd ?r))"
      using dr(3) by (auto simp: recv_post_def Let_def)
    then have "\<exists>Y. snd (fst ?r) = got @ Y \<and> rbuf_contents (rxbuf u) = Y @ rbuf_contents (rxbuf (snd ?r))"
      by (metis append.assoc append_take_drop_id)
    moreover have "length ?got \<le> sz" using more by simp
    ultimately show ?thesis using IH unfolding run recv_post_def Let_def by simp
  qed
qed

definition send_post ::
    "nat \<Rightarrow> bytes \<Rightarrow> uart_serial \<Rightarrow> (uart_outcome \<times> bytes) \<times> uart_serial \<Rightarrow> bool" where
  "send_post sz left u r \<longleftrightarrow>
     (let out = fst (fst r); rest = snd (fst r); d = snd r
      in (\<exists>X. left = X @ rest \<and> rbuf_contents (txbuf d) = rbuf_contents (txbuf u) @ X) \<and>
         rbuf_inv (txbuf d) \<and> rxbuf d = rxbuf u \<and> opened d = opened u \<and>
         rxbnotempty_waiting d = rxbnotempty_waiting u \<and>
         (ier d = ier u \<or> ier d = ier u OR IER_THREIE) \<and>
         (\<not> rbuf_empty (txbuf d) \<longrightarrow> ier d AND IER_THREIE \<noteq> 0) \<and>
         out = (if rest = [] then Returns (int sz) else Sleeps (Sending sz rest)) \<and>
         txbnotfull_waiting d = (rest \<noteq> []) \<and>
         (txbnotfull_waiting d \<longrightarrow> rbuf_full (txbuf d)))"

lemma ier_or_threie: "(w OR IER_THREIE) AND IER_THREIE \<noteq> 0"
  by (simp add: bit.conj_disj_distrib2)

lemma send_run_post:
  assumes "rbuf_inv (txbuf u)" and "\<not> txbnotfull_waiting u"
    and "\<not> rbuf_empty (txbuf u) \<longrightarrow> ier u AND IER_THREIE \<noteq> 0"
  shows "send_post sz left u (send_run sz left u)"
  using assms
proof (induction sz left u rule: send_run.induct)
  case (1 sz left u)
  consider (all) "left = []" | (full) "left \<noteq> []" "rbuf_full (txbuf u)"
    | (more) "left \<noteq> []" "\<not> rbuf_full (txbuf u)" by blast
  then show ?case
  proof cases
    case all
    with 1(2-4) show ?thesis by (simp add: send_run.simps [of sz "[]"] send_post_def)
  next
    case full
    with 1(2-4) show ?thesis by (simp add: send_run.simps [of sz left u] send_post_def)
  next
    case more
    let ?j = "64 - rbuf_count (txbuf u)"
    let ?u = "u\<lparr>txbuf := snd (rbuf_fill left (txbuf u)), ier := ier u OR IER_THREIE\<rparr>"
    let ?r = "send_run sz (drop ?j left) ?u"
    have fl: "rbuf_inv (snd (rbuf_fill left (txbuf u)))" "fst (rbuf_fill left (txbuf u)) = drop ?j left"
        "rbuf_contents (snd (rbuf_fill left (txbuf u))) = rbuf_contents (txbuf u) @ take ?j left"
      using rbuf_fill_spec [OF 1(2), of left] by simp_all
    from more fl(2) have run: "send_run sz left u = ?r" by (simp add: send_run.simps [of sz left u])
    from 1(1) [OF more] fl 1(3) ier_or_threie have IH: "send_post sz (drop ?j left) ?u ?r" by simp
    then obtain X where X: "drop ?j left = X @ snd (fst ?r)"
        "rbuf_contents (txbuf (snd ?r)) = (rbuf_contents (txbuf u) @ take ?j left) @ X"
      using fl(3) by (auto simp: send_post_def Let_def)
    then have "\<exists>Y. left = Y @ snd (fst ?r) \<and> rbuf_contents (txbuf (snd ?r)) = rbuf_contents (txbuf u) @ Y"
      by (metis append.assoc append_take_drop_id)
    moreover have "(ier u OR 2) OR 2 = ier u OR 2" by (simp add: or.assoc)
    ultimately show ?thesis using IH unfolding run send_post_def Let_def by simp
  qed
qed


section \<open>Invariant of the open device\<close>

definition uart_inv :: "uart_sys \<Rightarrow> bool" where
  "uart_inv s \<longleftrightarrow>
     opened (dev s) \<and> rbuf_inv (rxbuf (dev s)) \<and> rbuf_inv (txbuf (dev s)) \<and>
     wire_in s = delivered s @ rbuf_contents (rxbuf (dev s)) \<and>
     queued s = wire_out s @ rbuf_contents (txbuf (dev s)) \<and>
     (rxbnotempty_waiting (dev s) \<longrightarrow>
        rbuf_empty (rxbuf (dev s)) \<and> (\<exists>sz got. holder s = Some (Receiving sz got) \<and> length got < sz)) \<and>
     (txbnotfull_waiting (dev s) \<longrightarrow>
        rbuf_full (txbuf (dev s)) \<and> (\<exists>sz left. holder s = Some (Sending sz left) \<and> left \<noteq> [])) \<and>
     (\<not> rbuf_empty (txbuf (dev s)) \<longrightarrow> ier (dev s) AND IER_THREIE \<noteq> 0)"

text \<open>A receiver asking for no more than the ring holds is never left without its interrupt.\<close>

definition drie_inv :: "uart_sys \<Rightarrow> bool" where
  "drie_inv s \<longleftrightarrow>
     (\<forall>sz got. holder s = Some (Receiving sz got) \<longrightarrow> sz \<le> UART_RBUFSZ \<longrightarrow>
        ier (dev s) AND IER_DRIE \<noteq> 0 \<or> rbuf_full (rxbuf (dev s)))"

lemma ier_bits:
  "(w OR IER_DRIE) AND IER_DRIE \<noteq> 0"
  "(w AND NOT IER_DRIE) AND IER_THREIE = w AND IER_THREIE"
  "(w OR IER_DRIE) AND IER_THREIE = w AND IER_THREIE"
  "(w AND NOT IER_THREIE) AND IER_DRIE = w AND IER_DRIE"
  "(w OR IER_THREIE) AND IER_DRIE = w AND IER_DRIE"
  by (auto simp: bit.conj_disj_distrib2 and.assoc)

lemma isr_facts:
  assumes "rbuf_inv (rxbuf u)" and "rbuf_inv (txbuf u)"
    and "uart_isr oe rbr room u = ((rest, thr), d)"
  shows "rbuf_inv (rxbuf d)" "rbuf_inv (txbuf d)" "opened d = opened u"
    "rbuf_contents (rxbuf d) = rbuf_contents (rxbuf u) @ take (length rbr - length rest) rbr"
    "rbuf_contents (txbuf u) = thr @ rbuf_contents (txbuf d)"
    "rxbnotempty_waiting d \<Longrightarrow> rxbnotempty_waiting u \<and> rbuf_contents (rxbuf d) = rbuf_contents (rxbuf u)"
    "txbnotfull_waiting d \<Longrightarrow> txbnotfull_waiting u \<and> rbuf_contents (txbuf d) = rbuf_contents (txbuf u)"
    "rbuf_empty (txbuf d) \<or> ier d AND IER_THREIE \<noteq> 0"
    "rbuf_full (rxbuf d) \<or> ier d AND IER_DRIE \<noteq> 0"
proof -
  obtain rx where f: "rbuf_fill rbr (rxbuf u) = (rest, rx)" and rx: "rxbuf d = rx"
    using assms(3) by (auto simp: uart_isr_def Let_def split: prod.splits)
  obtain tx where g: "rbuf_drain room (txbuf u) = (thr, tx)" and tx: "txbuf d = tx"
    using assms(3) by (auto simp: uart_isr_def Let_def split: prod.splits)
  have d: "rxbnotempty_waiting d = (rxbnotempty_waiting u \<and> length rest = length rbr)"
    "txbnotfull_waiting d = (txbnotfull_waiting u \<and> thr = [])" "opened d = opened u"
    using assms(3) f g by (auto simp: uart_isr_def Let_def)
  show "opened d = opened u" by (rule d(3))
  note fs = rbuf_fill_spec [OF assms(1), of rbr, unfolded f fst_conv snd_conv, folded rx]
  note gs = rbuf_drain_spec [OF assms(2), of room, unfolded g fst_conv snd_conv, folded tx]
  show "rbuf_inv (rxbuf d)" "rbuf_inv (txbuf d)" using fs gs by auto
  show *: "rbuf_contents (rxbuf d) = rbuf_contents (rxbuf u) @ take (length rbr - length rest) rbr"
    using fs by (cases "64 - rbuf_count (rxbuf u) \<le> length rbr") auto
  show **: "rbuf_contents (txbuf u) = thr @ rbuf_contents (txbuf d)"
    using gs by simp
  show "rxbnotempty_waiting d \<Longrightarrow> rxbnotempty_waiting u \<and> rbuf_contents (rxbuf d) = rbuf_contents (rxbuf u)"
    using d * by simp
  show "txbnotfull_waiting d \<Longrightarrow> txbnotfull_waiting u \<and> rbuf_contents (txbuf d) = rbuf_contents (txbuf u)"
    using d ** by simp
  show "rbuf_empty (txbuf d) \<or> ier d AND IER_THREIE \<noteq> 0"
    using assms(3) f g ier_or_threie by (auto simp: uart_isr_def Let_def)
  show "rbuf_full (rxbuf d) \<or> ier d AND IER_DRIE \<noteq> 0"
  proof -
    have "ier d =
        (if rbuf_empty tx then (if rbuf_full rx then ier u AND NOT IER_DRIE else ier u OR IER_DRIE) AND NOT IER_THREIE
         else (if rbuf_full rx then ier u AND NOT IER_DRIE else ier u OR IER_DRIE) OR IER_THREIE)"
      using assms(3) f g by (auto simp: uart_isr_def Let_def)
    then show ?thesis unfolding rx by (simp only: ier_bits split: if_split) simp
  qed
qed

lemma rbuf_full_contents: "rbuf_full b \<longleftrightarrow> length (rbuf_contents b) = UART_RBUFSZ"
  by (simp add: rbuf_full_iff)

lemma after_recv_inv:
  assumes inv: "uart_inv s" and h: "\<not> txbnotfull_waiting (dev s)"
    and post: "recv_post sz got u r"
    and u: "rxbuf u = rxbuf (dev s)" "txbuf u = txbuf (dev s)" "opened u"
      "\<not> txbnotfull_waiting u" "ier u = ier (dev s) \<or> ier u = ier (dev s) OR IER_DRIE"
  shows "uart_inv (after_recv got r s)"
proof -
  from post obtain X where X: "snd (fst r) = got @ X"
      "rbuf_contents (rxbuf u) = X @ rbuf_contents (rxbuf (snd r))"
    and rest: "rbuf_inv (rxbuf (snd r))" "txbuf (snd r) = txbuf u" "ier (snd r) = ier u"
      "opened (snd r) = opened u" "txbnotfull_waiting (snd r) = txbnotfull_waiting u"
      "fst (fst r) = (if sz \<le> length (snd (fst r)) then Returns (int (length (snd (fst r))))
        else Sleeps (Receiving sz (snd (fst r))))"
      "rxbnotempty_waiting (snd r) = (\<not> sz \<le> length (snd (fst r)))"
      "rxbnotempty_waiting (snd r) \<longrightarrow> rbuf_contents (rxbuf (snd r)) = []"
    by (auto simp: recv_post_def Let_def)
  from inv X rest u show ?thesis
    by (auto simp: uart_inv_def after_recv_def rbuf_contents_nil_iff ier_bits)
qed

lemma after_send_inv:
  assumes inv: "uart_inv s" and h: "\<not> rxbnotempty_waiting (dev s)"
    and post: "send_post sz left (dev s) r"
  shows "uart_inv (after_send left r s)"
proof -
  from post obtain X where X: "left = X @ snd (fst r)"
      "rbuf_contents (txbuf (snd r)) = rbuf_contents (txbuf (dev s)) @ X"
    and rest: "rbuf_inv (txbuf (snd r))" "rxbuf (snd r) = rxbuf (dev s)" "opened (snd r) = opened (dev s)"
      "rxbnotempty_waiting (snd r) = rxbnotempty_waiting (dev s)"
      "\<not> rbuf_empty (txbuf (snd r)) \<longrightarrow> ier (snd r) AND IER_THREIE \<noteq> 0"
      "fst (fst r) = (if snd (fst r) = [] then Returns (int sz) else Sleeps (Sending sz (snd (fst r))))"
      "txbnotfull_waiting (snd r) = (snd (fst r) \<noteq> [])"
      "txbnotfull_waiting (snd r) \<longrightarrow> rbuf_full (txbuf (snd r))"
    unfolding send_post_def Let_def by blast
  have "take (length left - length (snd (fst r))) left = X" using X(1) by (metis append_eq_conv_conj length_append add_diff_cancel_right')
  with inv h X(2) rest show ?thesis
    by (auto simp: uart_inv_def after_send_def)
qed


lemma uart_init_inv: "uart_inv (uart_init_sys (snd (uart_serial_open attached_uart)))"
  by (simp add: uart_inv_def uart_init_sys_def uart_serial_open_def attached_uart_def rbuf_init_def
      rbuf_inv_def rbuf_count_def rbuf_contents_def rbuf_empty_def)

lemma uart_interrupt_inv:
  assumes "uart_inv s" and "uart_step (Interrupt oe rbr room) s = Some s'"
  shows "uart_inv s'"
proof -
  obtain rest thr d where i: "uart_isr oe rbr room (dev s) = ((rest, thr), d)"
    by (metis surj_pair)
  with assms(2) have s': "s' = s\<lparr>dev := d, wire_in := wire_in s @ take (length rbr - length rest) rbr,
      wire_out := wire_out s @ thr\<rparr>"
    by (auto simp: uart_step_def split: if_splits)
  from assms(1) have "rbuf_inv (rxbuf (dev s))" "rbuf_inv (txbuf (dev s))" by (auto simp: uart_inv_def)
  note f = isr_facts [OF this i]
  have e: "rxbnotempty_waiting d \<Longrightarrow> rbuf_empty (rxbuf d)"
    using f(6) assms(1) by (auto simp: uart_inv_def rbuf_contents_nil_iff [symmetric])
  have g: "txbnotfull_waiting d \<Longrightarrow> rbuf_full (txbuf d)"
    using f(7) assms(1) by (auto simp: uart_inv_def rbuf_full_contents)
  show ?thesis
    using assms(1) f(1-5,8) f(6,7) e g unfolding s' uart_inv_def by auto
qed

lemma uart_step_inv:
  assumes inv: "uart_inv s" and st: "uart_step e s = Some s'"
  shows "uart_inv s'"
proof (cases e)
  case (Interrupt oe rbr room)
  with uart_interrupt_inv [OF inv] st show ?thesis by simp
next
  case (Recv sz)
  with inv st have h: "holder s = None" "opened (dev s)" and nw: "\<not> rxbnotempty_waiting (dev s)" "\<not> txbnotfull_waiting (dev s)"
    and s': "s' = after_recv [] (uart_serial_recv False sz (dev s)) s"
    by (auto simp: uart_step_def uart_inv_def split: if_splits)
  let ?u = "dev s\<lparr>ier := ier (dev s) OR IER_DRIE\<rparr>"
  have "recv_post sz [] ?u (recv_run sz [] ?u)"
    using inv nw by (intro recv_run_post) (auto simp: uart_inv_def)
  moreover have "recv_post 0 [] (dev s) ((Returns 0, []), dev s)"
    using inv nw by (simp add: recv_post_def uart_inv_def)
  ultimately show ?thesis
    using h nw inv by (auto simp: s' uart_serial_recv_def intro!: after_recv_inv)
next
  case (Send bs)
  with inv st have h: "holder s = None" "opened (dev s)" and nw: "\<not> rxbnotempty_waiting (dev s)" "\<not> txbnotfull_waiting (dev s)"
    and s': "s' = after_send bs (uart_serial_send (Some bs) (dev s)) s"
    by (auto simp: uart_step_def uart_inv_def split: if_splits)
  have "send_post (length bs) bs (dev s) (send_run (length bs) bs (dev s))"
    using inv nw by (intro send_run_post) (auto simp: uart_inv_def)
  moreover have "send_post 0 [] (dev s) ((Returns 0, []), dev s)"
    using inv nw by (simp add: send_post_def uart_inv_def)
  ultimately show ?thesis
    using h nw inv by (auto simp: s' uart_serial_send_def intro!: after_send_inv)
next
  case Resume
  then consider
      (r) sz got where "holder s = Some (Receiving sz got)" "\<not> rxbnotempty_waiting (dev s)"
        "s' = after_recv got (recv_run sz got (dev s)) s"
    | (t) sz left where "holder s = Some (Sending sz left)" "\<not> txbnotfull_waiting (dev s)"
        "s' = after_send left (send_run sz left (dev s)) s"
    using st by (auto simp: uart_step_def split: option.splits uart_call.splits if_splits)
  then show ?thesis
  proof cases
    case r
    then have nt: "\<not> txbnotfull_waiting (dev s)" using inv by (auto simp: uart_inv_def)
    have "recv_post sz got (dev s) (recv_run sz got (dev s))"
      using inv r by (intro recv_run_post) (auto simp: uart_inv_def)
    with nt inv r(3) show ?thesis
      by (auto simp: uart_inv_def [of s] intro!: after_recv_inv)
  next
    case t
    then have nr: "\<not> rxbnotempty_waiting (dev s)" using inv by (auto simp: uart_inv_def)
    have "send_post sz left (dev s) (send_run sz left (dev s))"
      using inv t by (intro send_run_post) (auto simp: uart_inv_def)
    with nr inv t(3) show ?thesis by (auto intro!: after_send_inv)
  qed
qed

lemma uart_reach_inv: "uart_reach s \<Longrightarrow> uart_inv s"
  by (induction rule: uart_reach.induct) (auto intro: uart_init_inv uart_step_inv)


lemma drie_step:
  assumes inv: "uart_inv s" and dr: "drie_inv s" and st: "uart_step e s = Some s'"
  shows "drie_inv s'"
proof (cases e)
  case (Interrupt oe rbr room)
  obtain rest thr d where i: "uart_isr oe rbr room (dev s) = ((rest, thr), d)"
    by (metis surj_pair)
  with st Interrupt have "dev s' = d" by (auto simp: uart_step_def split: if_splits)
  moreover have "rbuf_full (rxbuf d) \<or> ier d AND IER_DRIE \<noteq> 0"
    using inv by (intro isr_facts(9) [OF _ _ i]) (auto simp: uart_inv_def)
  ultimately show ?thesis by (auto simp: drie_inv_def)
next
  case (Recv sz)
  with inv st have s': "s' = after_recv [] (uart_serial_recv False sz (dev s)) s"
    and nw: "holder s = None" "\<not> rxbnotempty_waiting (dev s)" "opened (dev s)"
    by (auto simp: uart_step_def uart_inv_def split: if_splits)
  let ?u = "dev s\<lparr>ier := ier (dev s) OR IER_DRIE\<rparr>"
  have "recv_post sz [] ?u (recv_run sz [] ?u)"
    using inv nw by (intro recv_run_post) (auto simp: uart_inv_def)
  then have "ier (snd (recv_run sz [] ?u)) AND IER_DRIE \<noteq> 0"
    using ier_bits(1) by (auto simp: recv_post_def Let_def)
  then show ?thesis
    using nw by (auto simp: s' drie_inv_def after_recv_def uart_serial_recv_def)
next
  case (Send bs)
  with inv st have s': "s' = after_send bs (uart_serial_send (Some bs) (dev s)) s"
    and nw: "\<not> txbnotfull_waiting (dev s)" "opened (dev s)"
    by (auto simp: uart_step_def uart_inv_def split: if_splits)
  have "send_post (length bs) bs (dev s) (send_run (length bs) bs (dev s))"
    using inv nw by (intro send_run_post) (auto simp: uart_inv_def)
  then show ?thesis
    using nw by (auto simp: s' drie_inv_def after_send_def uart_serial_send_def send_post_def Let_def)
next
  case Resume
  then consider
      (r) sz got where "holder s = Some (Receiving sz got)" "\<not> rxbnotempty_waiting (dev s)"
        "s' = after_recv got (recv_run sz got (dev s)) s"
    | (t) sz left where "holder s = Some (Sending sz left)" "\<not> txbnotfull_waiting (dev s)"
        "s' = after_send left (send_run sz left (dev s)) s"
    using st by (auto simp: uart_step_def split: option.splits uart_call.splits if_splits)
  then show ?thesis
  proof cases
    case r
    have post: "recv_post sz got (dev s) (recv_run sz got (dev s))"
      using inv r by (intro recv_run_post) (auto simp: uart_inv_def)
    show ?thesis
    proof (cases "ier (dev s) AND IER_DRIE \<noteq> 0")
      case True
      with post show ?thesis
        by (auto simp: r(3) drie_inv_def after_recv_def recv_post_def Let_def)
    next
      case False
      with dr r(1) have "sz \<le> 64 \<longrightarrow> length (rbuf_contents (rxbuf (dev s))) = 64"
        by (auto simp: drie_inv_def rbuf_full_contents)
      with post have "sz \<le> 64 \<longrightarrow> sz \<le> length (snd (fst (recv_run sz got (dev s))))"
        by (auto simp: recv_post_def Let_def)
      with post show ?thesis
        by (auto simp: r(3) drie_inv_def after_recv_def recv_post_def Let_def)
    qed
  next
    case t
    have "send_post sz left (dev s) (send_run sz left (dev s))"
      using inv t by (intro send_run_post) (auto simp: uart_inv_def)
    with t(3) show ?thesis by (auto simp: drie_inv_def after_send_def send_post_def Let_def)
  qed
qed

lemma uart_reach_drie: "uart_reach s \<Longrightarrow> drie_inv s"
proof (induction rule: uart_reach.induct)
  case opened_init
  then show ?case by (simp add: drie_inv_def uart_init_sys_def)
qed (blast intro: drie_step uart_reach_inv)

section \<open>Properties\<close>

text \<open>C1: However interrupts and blocking calls interleave on an open UART, the bytes taken from
  the receiver are the bytes copied to callers followed by the receive ring, and the bytes taken
  from callers are the bytes written to the transmitter followed by the transmit ring: nothing
  is lost, duplicated or reordered, and neither ring holds more than its 64 bytes.\<close>

theorem uart_streams:
  assumes "uart_reach s"
  shows "wire_in s = delivered s @ rbuf_contents (rxbuf (dev s)) \<and>
     queued s = wire_out s @ rbuf_contents (txbuf (dev s)) \<and>
     rbuf_count (rxbuf (dev s)) \<le> UART_RBUFSZ \<and> rbuf_count (txbuf (dev s)) \<le> UART_RBUFSZ"
  using uart_reach_inv [OF assms] by (simp add: uart_inv_def rbuf_inv_def)

text \<open>A run used as a concrete input: ask for 65 bytes, take 64 from the line, resume.\<close>

definition long_recv_run :: "uart_sys option" where
  "long_recv_run =
     do { s1 \<leftarrow> uart_step (Recv 65) (uart_init_sys (snd (uart_serial_open attached_uart)));
          s2 \<leftarrow> uart_step (Interrupt False (replicate 64 7) 0) s1;
          uart_step Resume s2 }"

lemma long_recv_run_reach: "long_recv_run = Some s \<Longrightarrow> uart_reach s"
  unfolding long_recv_run_def
  by (auto split: bind_splits) (blast intro: uart_reach.intros)

lemma long_recv_run_state:
  "\<exists>s. long_recv_run = Some s \<and> ier (dev s) = 0 \<and> rxbnotempty_waiting (dev s) \<and>
     holder s = Some (Receiving 65 (replicate 64 7)) \<and> delivered s = replicate 64 7"
proof -
  have "case long_recv_run of None \<Rightarrow> False
    | Some s \<Rightarrow> ier (dev s) = 0 \<and> rxbnotempty_waiting (dev s) \<and>
        holder s = Some (Receiving 65 (replicate 64 7)) \<and> delivered s = replicate 64 7"
    by code_simp
  then show ?thesis by (auto split: option.splits)
qed

theorem uart_streams_witness:
  "\<exists>s. uart_reach s \<and> delivered s = replicate 64 7 \<and>
     wire_in s = delivered s @ rbuf_contents (rxbuf (dev s))"
  using long_recv_run_state long_recv_run_reach uart_streams by blast

text \<open>C2: On an open UART a receiver that sleeps has found the receive ring empty, a sender that
  sleeps has found the transmit ring full with the transmit interrupt enabled, and a sleeping
  receiver that asked for at most 64 bytes has the receive interrupt enabled: the events
  that wake them can still come.\<close>

theorem uart_no_lost_wakeup:
  assumes "uart_reach s"
  shows "(rxbnotempty_waiting (dev s) \<longrightarrow> rbuf_empty (rxbuf (dev s))) \<and>
     (txbnotfull_waiting (dev s) \<longrightarrow>
        rbuf_full (txbuf (dev s)) \<and> ier (dev s) AND IER_THREIE \<noteq> 0) \<and>
     (rxbnotempty_waiting (dev s) \<longrightarrow>
        (\<forall>sz got. holder s = Some (Receiving sz got) \<longrightarrow> sz \<le> UART_RBUFSZ \<longrightarrow>
           ier (dev s) AND IER_DRIE \<noteq> 0))"
proof -
  have i: "uart_inv s" and d: "drie_inv s" using assms by (auto intro: uart_reach_inv uart_reach_drie)
  have "\<not> (rbuf_empty b \<and> rbuf_full b)" for b by (auto simp: rbuf_empty_iff rbuf_full_iff)
  with i d show ?thesis by (auto simp: uart_inv_def drie_inv_def)
qed

theorem uart_no_lost_wakeup_witness:
  "\<exists>s. uart_reach s \<and> rxbnotempty_waiting (dev s) \<and> rbuf_empty (rxbuf (dev s))"
  using long_recv_run_state long_recv_run_reach uart_no_lost_wakeup by blast

text \<open>A receive call for more bytes than the ring holds can sleep for ever.  When the ring
  fills while the caller sleeps, the interrupt handler turns the receive interrupt off, and
  the call drains the ring and sleeps again without turning it on: from that state no
  interrupt, no call and no resumption is possible.\<close>

theorem uart_long_recv_stalls:
  "\<exists>s. uart_reach s \<and> holder s = Some (Receiving 65 (replicate 64 7)) \<and> (\<forall>e. uart_step e s = None)"
proof -
  obtain s where s: "long_recv_run = Some s" "ier (dev s) = 0" "rxbnotempty_waiting (dev s)"
    "holder s = Some (Receiving 65 (replicate 64 7))" using long_recv_run_state by blast
  then have "uart_step e s = None" for e by (auto simp: uart_step_def split: uart_event.split)
  with s show ?thesis using long_recv_run_reach by blast
qed

end
