(* ===== verification/Pipe.thy ===== *)
theory Pipe
  imports Fifo
begin

text \<open>
  Uniform I/O objects and pipes, \<open>modified/sys/uio.c\<close>: the dispatch functions with their
  reference counts, the null object, and the one-page pipe with its two ends.

  A thread that reads an empty pipe or writes a full one sleeps on a condition variable; it
  releases the pipe's lock before it sleeps and every other path releases it before it returns,
  so on the cooperative kernel the lock is free between steps and the code between two waits
  is one step.
\<close>

section \<open>Dispatch\<close>

text \<open>The interface table: a missing method is \<open>None\<close> (a NULL pointer in the code).\<close>

record ('s, 'r) uio_intf =
  intf_close :: "('s \<Rightarrow> 's) option"
  intf_read :: "(nat \<Rightarrow> 's \<Rightarrow> 'r \<times> 's) option"
  intf_write :: "(bytes \<Rightarrow> 's \<Rightarrow> 'r \<times> 's) option"
  intf_cntl :: "(int \<Rightarrow> 's \<Rightarrow> 'r \<times> 's) option"

definition uio_close :: "('s, 'r) uio_intf \<Rightarrow> nat \<Rightarrow> 's \<Rightarrow> nat \<times> 's" where
  "uio_close intf refcnt s =
     (let refcnt1 = (if refcnt > 0 then refcnt - 1 else refcnt)
      in (refcnt1,
          if refcnt1 = 0 then (case intf_close intf of Some cl \<Rightarrow> cl s | None \<Rightarrow> s) else s))"

definition uio_read :: "('s, 'r) uio_intf \<Rightarrow> u64 \<Rightarrow> 's \<Rightarrow> (int + 'r) \<times> 's" where
  "uio_read intf bufsz s =
     (case intf_read intf of
        Some rd \<Rightarrow>
          (if 0 \<le> sint bufsz then (case rd (unat bufsz) s of (r, s1) \<Rightarrow> (Inr r, s1))
           else (Inl (- EINVAL), s))
      | None \<Rightarrow> (Inl (- ENOTSUP), s))"

text \<open>The buffer is given with its length, which the caller passes as an unsigned long.\<close>

definition uio_write :: "('s, 'r) uio_intf \<Rightarrow> bytes \<Rightarrow> 's \<Rightarrow> (int + 'r) \<times> 's" where
  "uio_write intf buf s =
     (case intf_write intf of
        Some wr \<Rightarrow>
          (if 0 \<le> sint (of_nat (length buf) :: u64)
           then (case wr buf s of (r, s1) \<Rightarrow> (Inr r, s1))
           else (Inl (- EINVAL), s))
      | None \<Rightarrow> (Inl (- ENOTSUP), s))"

definition uio_cntl :: "('s, 'r) uio_intf \<Rightarrow> int \<Rightarrow> 's \<Rightarrow> (int + 'r) \<times> 's" where
  "uio_cntl intf opn s =
     (case intf_cntl intf of
        Some ct \<Rightarrow> (case ct opn s of (r, s1) \<Rightarrow> (Inr r, s1))
      | None \<Rightarrow> (Inl (- ENOTSUP), s))"

definition uio_addref :: "nat \<Rightarrow> nat" where
  "uio_addref refcnt = refcnt + 1"

definition null_uio_intf :: "('s, int) uio_intf" where
  "null_uio_intf =
     \<lparr>intf_close = Some (\<lambda>s. s), intf_read = Some (\<lambda>n s. (- ENOTSUP, s)),
      intf_write = Some (\<lambda>bs s. (- ENOTSUP, s)), intf_cntl = None\<rparr>"

section \<open>The pipe\<close>

datatype pipe_call = ReadCall nat | WriteCall bytes

text \<open>
  The two wait lists hold the calls asleep on \<open>readable\<close> and \<open>writeable\<close>; a broadcast moves
  them to the runnable calls.  \<open>page_frees\<close> counts the calls of \<open>free_phys_page\<close> and
  \<open>kfree\<close> on the pipe.
\<close>

record pipe =
  buf :: pipe_ringbuf
  bytecnt :: nat
  read_open :: bool
  write_open :: bool
  readable_wait :: "pipe_call list"
  writeable_wait :: "pipe_call list"
  runnable :: "pipe_call list"
  page_frees :: nat

datatype pipe_outcome =
    Transfers int bytes
  | Waits

definition broadcast_readable :: "pipe \<Rightarrow> pipe" where
  "broadcast_readable p =
     p\<lparr>runnable := runnable p @ readable_wait p, readable_wait := []\<rparr>"

definition broadcast_writeable :: "pipe \<Rightarrow> pipe" where
  "broadcast_writeable p =
     p\<lparr>runnable := runnable p @ writeable_wait p, writeable_wait := []\<rparr>"

fun ring_put_all :: "bytes \<Rightarrow> pipe_ringbuf \<Rightarrow> pipe_ringbuf" where
  "ring_put_all [] b = b"
| "ring_put_all (c # cs) b = ring_put_all cs (ring_putc b c)"

text \<open>From the call or from a wake-up to the return or the next wait.\<close>

definition pipe_read :: "nat \<Rightarrow> pipe \<Rightarrow> pipe_outcome \<times> pipe" where
  "pipe_read bufsz p =
     (if bufsz = 0 then (Transfers 0 [], p)
      else if bytecnt p = 0 \<and> write_open p
      then (Waits, p\<lparr>readable_wait := readable_wait p @ [ReadCall bufsz]\<rparr>)
      else if bytecnt p = 0 \<and> \<not> write_open p then (Transfers 0 [], p)
      else
        (let n = (if bufsz < bytecnt p then bufsz else bytecnt p)
         in case take_loop ring_getc n (buf p) of (bs, b) \<Rightarrow>
              (Transfers (int n) bs,
               broadcast_writeable (p\<lparr>buf := b, bytecnt := bytecnt p - n\<rparr>))))"

definition pipe_write :: "bytes \<Rightarrow> pipe \<Rightarrow> pipe_outcome \<times> pipe" where
  "pipe_write bs p =
     (if bs = [] then (Transfers 0 [], p)
      else if \<not> read_open p then (Transfers (- EPIPE) [], p)
      else if bytecnt p = PAGE_SIZE \<and> read_open p
      then (Waits, p\<lparr>writeable_wait := writeable_wait p @ [WriteCall bs]\<rparr>)
      else
        (let space = PAGE_SIZE - bytecnt p;
             n = (if length bs < space then length bs else space)
         in (Transfers (int n) (take n bs),
             broadcast_readable (p\<lparr>buf := ring_put_all (take n bs) (buf p), bytecnt := bytecnt p + n\<rparr>))))"

definition read_pipe_close :: "pipe \<Rightarrow> pipe" where
  "read_pipe_close p =
     (let p1 = broadcast_writeable (p\<lparr>read_open := False\<rparr>)
      in if \<not> write_open p1 then p1\<lparr>page_frees := page_frees p1 + 1\<rparr> else p1)"

definition write_pipe_close :: "pipe \<Rightarrow> pipe" where
  "write_pipe_close p =
     (let p1 = broadcast_readable (p\<lparr>write_open := False\<rparr>)
      in if \<not> read_open p1 then p1\<lparr>page_frees := page_frees p1 + 1\<rparr> else p1)"

definition read_pipe_intf :: "(pipe, pipe_outcome) uio_intf" where
  "read_pipe_intf =
     \<lparr>intf_close = Some read_pipe_close, intf_read = Some pipe_read, intf_write = None, intf_cntl = None\<rparr>"

definition write_pipe_intf :: "(pipe, pipe_outcome) uio_intf" where
  "write_pipe_intf =
     \<lparr>intf_close = Some write_pipe_close, intf_read = None, intf_write = Some pipe_write, intf_cntl = None\<rparr>"

text \<open>The page comes from the page allocator with whatever it held.\<close>

definition create_pipe :: "bytes \<Rightarrow> pipe" where
  "create_pipe page =
     \<lparr>buf = \<lparr>p_hpos = 0, p_tpos = 0, p_data = page\<rparr>, bytecnt = 0, read_open = True, write_open = True,
      readable_wait = [], writeable_wait = [], runnable = [], page_frees = 0\<rparr>"


section \<open>A pipe with its references and its users\<close>

text \<open>
  Every descriptor that names an end holds one reference on it, and the process of a call in
  progress holds a descriptor of its own: a new call or a close needs a reference that no
  pending call uses.  The two logs record the bytes taken from writers and given to readers.
\<close>

record pipe_sys =
  obj :: pipe
  rio_refs :: nat
  wio_refs :: nat
  written :: bytes
  got :: bytes

datatype pipe_event =
    StartRead u64
  | StartWrite bytes
  | ResumeCall nat
  | DupRead
  | DupWrite
  | CloseRead
  | CloseWrite

definition is_read :: "pipe_call \<Rightarrow> bool" where
  "is_read c = (case c of ReadCall _ \<Rightarrow> True | WriteCall _ \<Rightarrow> False)"

definition pending_reads :: "pipe \<Rightarrow> nat" where
  "pending_reads p = length (filter is_read (readable_wait p @ writeable_wait p @ runnable p))"

definition pending_writes :: "pipe \<Rightarrow> nat" where
  "pending_writes p =
     length (filter (\<lambda>c. \<not> is_read c) (readable_wait p @ writeable_wait p @ runnable p))"

definition log_read :: "pipe_outcome \<Rightarrow> pipe \<Rightarrow> pipe_sys \<Rightarrow> pipe_sys" where
  "log_read r p s =
     s\<lparr>obj := p, got := got s @ (case r of Transfers _ bs \<Rightarrow> bs | Waits \<Rightarrow> [])\<rparr>"

definition log_write :: "pipe_outcome \<Rightarrow> pipe \<Rightarrow> pipe_sys \<Rightarrow> pipe_sys" where
  "log_write r p s =
     s\<lparr>obj := p, written := written s @ (case r of Transfers _ bs \<Rightarrow> bs | Waits \<Rightarrow> [])\<rparr>"

definition remove_nth :: "nat \<Rightarrow> 'a list \<Rightarrow> 'a list" where
  "remove_nth i xs = take i xs @ drop (Suc i) xs"

definition pipe_step :: "pipe_event \<Rightarrow> pipe_sys \<Rightarrow> pipe_sys option" where
  "pipe_step e s =
     (case e of
        StartRead bufsz \<Rightarrow>
          (if pending_reads (obj s) < rio_refs s
           then (case uio_read read_pipe_intf bufsz (obj s) of
                   (Inl _, p) \<Rightarrow> Some (s\<lparr>obj := p\<rparr>) | (Inr r, p) \<Rightarrow> Some (log_read r p s))
           else None)
      | StartWrite bs \<Rightarrow>
          (if pending_writes (obj s) < wio_refs s
           then (case uio_write write_pipe_intf bs (obj s) of
                   (Inl _, p) \<Rightarrow> Some (s\<lparr>obj := p\<rparr>) | (Inr r, p) \<Rightarrow> Some (log_write r p s))
           else None)
      | ResumeCall i \<Rightarrow>
          (if i < length (runnable (obj s))
           then (let p0 = (obj s)\<lparr>runnable := remove_nth i (runnable (obj s))\<rparr>
                 in case runnable (obj s) ! i of
                      ReadCall n \<Rightarrow> (case pipe_read n p0 of (r, p) \<Rightarrow> Some (log_read r p s))
                    | WriteCall bs \<Rightarrow> (case pipe_write bs p0 of (r, p) \<Rightarrow> Some (log_write r p s)))
           else None)
      | DupRead \<Rightarrow> (if rio_refs s > 0 then Some (s\<lparr>rio_refs := uio_addref (rio_refs s)\<rparr>) else None)
      | DupWrite \<Rightarrow> (if wio_refs s > 0 then Some (s\<lparr>wio_refs := uio_addref (wio_refs s)\<rparr>) else None)
      | CloseRead \<Rightarrow>
          (if pending_reads (obj s) < rio_refs s
           then (case uio_close read_pipe_intf (rio_refs s) (obj s) of
                   (k, p) \<Rightarrow> Some (s\<lparr>obj := p, rio_refs := k\<rparr>))
           else None)
      | CloseWrite \<Rightarrow>
          (if pending_writes (obj s) < wio_refs s
           then (case uio_close write_pipe_intf (wio_refs s) (obj s) of
                   (k, p) \<Rightarrow> Some (s\<lparr>obj := p, wio_refs := k\<rparr>))
           else None))"

definition pipe_init :: "bytes \<Rightarrow> pipe_sys" where
  "pipe_init page = \<lparr>obj = create_pipe page, rio_refs = 1, wio_refs = 1, written = [], got = []\<rparr>"

inductive pipe_reach :: "pipe_sys \<Rightarrow> bool" where
  created: "length page = PAGE_SIZE \<Longrightarrow> pipe_reach (pipe_init page)"
| stepped: "pipe_reach s \<Longrightarrow> pipe_step e s = Some s' \<Longrightarrow> pipe_reach s'"

section \<open>Invariant\<close>

definition pipe_contents :: "pipe \<Rightarrow> bytes" where
  "pipe_contents p = ring_contents (buf p, bytecnt p)"

definition pipe_inv :: "pipe \<Rightarrow> bool" where
  "pipe_inv p \<longleftrightarrow>
     ring_inv (buf p, bytecnt p) \<and>
     (\<forall>c\<in>set (readable_wait p). is_read c) \<and> (\<forall>c\<in>set (writeable_wait p). \<not> is_read c) \<and>
     (readable_wait p \<noteq> [] \<longrightarrow> bytecnt p = 0 \<and> write_open p) \<and>
     (writeable_wait p \<noteq> [] \<longrightarrow> bytecnt p = PAGE_SIZE \<and> read_open p) \<and>
     page_frees p = (if read_open p \<or> write_open p then 0 else 1)"

definition pipe_sys_inv :: "pipe_sys \<Rightarrow> bool" where
  "pipe_sys_inv s \<longleftrightarrow>
     pipe_inv (obj s) \<and> written s = got s @ pipe_contents (obj s) \<and>
     (read_open (obj s) \<longleftrightarrow> rio_refs s > 0) \<and> (write_open (obj s) \<longleftrightarrow> wio_refs s > 0) \<and>
     pending_reads (obj s) \<le> rio_refs s \<and> pending_writes (obj s) \<le> wio_refs s"

lemma length_pipe_contents [simp]: "length (pipe_contents p) = bytecnt p"
  by (simp add: pipe_contents_def)

lemma pipe_contents_cong [simp]:
  "pipe_contents (p\<lparr>runnable := x\<rparr>) = pipe_contents p"
  "pipe_contents (p\<lparr>readable_wait := x\<rparr>) = pipe_contents p"
  "pipe_contents (p\<lparr>writeable_wait := x\<rparr>) = pipe_contents p"
  "pipe_contents (p\<lparr>read_open := b\<rparr>) = pipe_contents p"
  "pipe_contents (p\<lparr>write_open := b\<rparr>) = pipe_contents p"
  "pipe_contents (p\<lparr>page_frees := k\<rparr>) = pipe_contents p"
  "pipe_contents (p\<lparr>buf := b', bytecnt := n\<rparr>) = ring_contents (b', n)"
  by (simp_all add: pipe_contents_def)

lemma ring_put_all_foldl: "ring_put_all cs b = foldl ring_putc b cs"
  by (induction cs arbitrary: b) auto

lemma ring_put_all_spec:
  assumes "ring_inv (b, n)" and "n + length cs \<le> PAGE_SIZE"
  shows "ring_inv (ring_put_all cs b, n + length cs) \<and>
     ring_contents (ring_put_all cs b, n + length cs) = ring_contents (b, n) @ cs"
  using pipe_fifo.put_all [of "(b, n)" cs] assms by (simp add: foldl_counted_put ring_put_all_foldl)

lemma ring_take_spec:
  assumes "ring_inv (b, n)" and "k \<le> n" and "take_loop ring_getc k b = (bs, b')"
  shows "bs = take k (ring_contents (b, n)) \<and> ring_inv (b', n - k) \<and>
     ring_contents (b', n - k) = drop k (ring_contents (b, n))"
  using pipe_fifo.take_all [of "(b, n)" k] assms by (simp add: take_loop_counted_get)

lemma remove_nth_count:
  assumes "i < length xs"
  shows "length (filter P xs) = length (filter P (remove_nth i xs)) + (if P (xs ! i) then 1 else 0)"
proof -
  have "xs = take i xs @ xs ! i # drop (Suc i) xs" using assms by (rule id_take_nth_drop)
  then have "length (filter P xs) = length (filter P (take i xs @ xs ! i # drop (Suc i) xs))" by simp
  then show ?thesis by (simp add: remove_nth_def)
qed

lemma pending_broadcast [simp]:
  "pending_reads (broadcast_readable p) = pending_reads p"
  "pending_reads (broadcast_writeable p) = pending_reads p"
  "pending_writes (broadcast_readable p) = pending_writes p"
  "pending_writes (broadcast_writeable p) = pending_writes p"
  by (simp_all add: pending_reads_def pending_writes_def broadcast_readable_def broadcast_writeable_def)

text \<open>What one run of a read does: everything a step needs to know about it.\<close>

lemma pipe_read_spec:
  assumes inv: "pipe_inv p" and r: "pipe_read n p = (r, p')"
  shows "pipe_inv p'" "read_open p' = read_open p" "write_open p' = write_open p"
    "pipe_contents p = (case r of Transfers _ bs \<Rightarrow> bs | Waits \<Rightarrow> []) @ pipe_contents p'"
    "pending_writes p' = pending_writes p"
    "pending_reads p' = pending_reads p + (if r = Waits then 1 else 0)"
proof -
  consider (zero) "n = 0" | (wait) "n \<noteq> 0" "bytecnt p = 0" "write_open p"
    | (eof) "n \<noteq> 0" "bytecnt p = 0" "\<not> write_open p" | (data) "n \<noteq> 0" "bytecnt p \<noteq> 0" by auto
  then have "pipe_inv p' \<and> read_open p' = read_open p \<and> write_open p' = write_open p \<and>
    pipe_contents p = (case r of Transfers _ bs \<Rightarrow> bs | Waits \<Rightarrow> []) @ pipe_contents p' \<and>
    pending_writes p' = pending_writes p \<and> pending_reads p' = pending_reads p + (if r = Waits then 1 else 0)"
  proof cases
    case wait
    with r inv show ?thesis
      by (auto simp: pipe_read_def pipe_inv_def pending_reads_def pending_writes_def is_read_def)
  next
    case data
    let ?k = "if n < bytecnt p then n else bytecnt p"
    obtain bs b where t: "take_loop ring_getc ?k (buf p) = (bs, b)" by (metis surj_pair)
    let ?q = "p\<lparr>buf := b, bytecnt := bytecnt p - ?k\<rparr>"
    from data r t have p': "r = Transfers (int ?k) bs" "p' = broadcast_writeable ?q"
      by (auto simp: pipe_read_def Let_def split: if_splits)
    have "bs = take ?k (pipe_contents p) \<and> ring_inv (b, bytecnt p - ?k) \<and>
        ring_contents (b, bytecnt p - ?k) = drop ?k (pipe_contents p)"
      unfolding pipe_contents_def by (rule ring_take_spec [OF _ _ t]) (use inv in \<open>auto simp: pipe_inv_def\<close>)
    moreover have "readable_wait p = []" using inv data by (auto simp: pipe_inv_def)
    ultimately show ?thesis
      using inv by (auto simp: p' pipe_inv_def 
          broadcast_writeable_def pending_reads_def pending_writes_def)
  qed (use r inv in \<open>auto simp: pipe_read_def\<close>)
  then show "pipe_inv p'" "read_open p' = read_open p" "write_open p' = write_open p"
    "pipe_contents p = (case r of Transfers _ bs \<Rightarrow> bs | Waits \<Rightarrow> []) @ pipe_contents p'"
    "pending_writes p' = pending_writes p"
    "pending_reads p' = pending_reads p + (if r = Waits then 1 else 0)" by auto
qed

lemma pipe_write_spec:
  assumes inv: "pipe_inv p" and r: "pipe_write cs p = (r, p')"
  shows "pipe_inv p'" "read_open p' = read_open p" "write_open p' = write_open p"
    "pipe_contents p' = pipe_contents p @ (case r of Transfers _ bs \<Rightarrow> bs | Waits \<Rightarrow> [])"
    "pending_reads p' = pending_reads p"
    "pending_writes p' = pending_writes p + (if r = Waits then 1 else 0)"
proof -
  consider (zero) "cs = []" | (epipe) "cs \<noteq> []" "\<not> read_open p"
    | (wait) "cs \<noteq> []" "bytecnt p = PAGE_SIZE" "read_open p"
    | (room) "cs \<noteq> []" "bytecnt p \<noteq> PAGE_SIZE" "read_open p" by auto
  then have "pipe_inv p' \<and> read_open p' = read_open p \<and> write_open p' = write_open p \<and>
    pipe_contents p' = pipe_contents p @ (case r of Transfers _ bs \<Rightarrow> bs | Waits \<Rightarrow> []) \<and>
    pending_reads p' = pending_reads p \<and> pending_writes p' = pending_writes p + (if r = Waits then 1 else 0)"
  proof cases
    case wait
    with r inv show ?thesis
      by (auto simp: pipe_write_def pipe_inv_def pending_reads_def pending_writes_def is_read_def)
  next
    case room
    let ?sp = "PAGE_SIZE - bytecnt p"
    let ?k = "if length cs < ?sp then length cs else ?sp"
    let ?q = "p\<lparr>buf := ring_put_all (take ?k cs) (buf p), bytecnt := bytecnt p + ?k\<rparr>"
    from room r have p': "r = Transfers (int ?k) (take ?k cs)" "p' = broadcast_readable ?q"
      by (auto simp: pipe_write_def Let_def split: if_splits)
    have le: "bytecnt p \<le> 4096" using inv by (auto simp: pipe_inv_def ring_inv_def)
    have len: "length (take ?k cs) = ?k" by simp
    have "ring_inv (ring_put_all (take ?k cs) (buf p), bytecnt p + length (take ?k cs)) \<and>
        ring_contents (ring_put_all (take ?k cs) (buf p), bytecnt p + length (take ?k cs)) =
          ring_contents (buf p, bytecnt p) @ take ?k cs"
      by (rule ring_put_all_spec) (use inv le in \<open>auto simp: pipe_inv_def\<close>)
    then have "ring_inv (buf ?q, bytecnt ?q)" "pipe_contents ?q = pipe_contents p @ take ?k cs"
      unfolding len pipe_contents_def by simp_all
    moreover have "writeable_wait p = []" using inv room by (auto simp: pipe_inv_def)
    ultimately show ?thesis
      using inv by (auto simp: p' pipe_inv_def broadcast_readable_def pending_reads_def pending_writes_def)
  qed (use r inv in \<open>auto simp: pipe_write_def\<close>)
  then show "pipe_inv p'" "read_open p' = read_open p" "write_open p' = write_open p"
    "pipe_contents p' = pipe_contents p @ (case r of Transfers _ bs \<Rightarrow> bs | Waits \<Rightarrow> [])"
    "pending_reads p' = pending_reads p"
    "pending_writes p' = pending_writes p + (if r = Waits then 1 else 0)" by auto
qed


lemma pipe_init_inv: "length page = PAGE_SIZE \<Longrightarrow> pipe_sys_inv (pipe_init page)"
  by (simp add: pipe_sys_inv_def pipe_inv_def pipe_init_def create_pipe_def ring_inv_def
      pipe_contents_def ring_contents_def pending_reads_def pending_writes_def)

lemma log_read_inv:
  assumes s: "pipe_sys_inv s" and p0: "pipe_inv p0" "pipe_contents p0 = pipe_contents (obj s)"
      "read_open p0 = read_open (obj s)" "write_open p0 = write_open (obj s)"
      "pending_writes p0 = pending_writes (obj s)" "Suc (pending_reads p0) \<le> rio_refs s"
    and r: "pipe_read n p0 = (r, p)"
  shows "pipe_sys_inv (log_read r p s)"
  using s p0 pipe_read_spec [OF p0(1) r] by (auto simp: pipe_sys_inv_def log_read_def)

lemma log_write_inv:
  assumes s: "pipe_sys_inv s" and p0: "pipe_inv p0" "pipe_contents p0 = pipe_contents (obj s)"
      "read_open p0 = read_open (obj s)" "write_open p0 = write_open (obj s)"
      "pending_reads p0 = pending_reads (obj s)" "Suc (pending_writes p0) \<le> wio_refs s"
    and r: "pipe_write cs p0 = (r, p)"
  shows "pipe_sys_inv (log_write r p s)"
  using s p0 pipe_write_spec [OF p0(1) r] by (auto simp: pipe_sys_inv_def log_write_def)

lemma read_pipe_close_spec:
  assumes "pipe_inv p" and "read_open p"
  shows "pipe_inv (read_pipe_close p) \<and> \<not> read_open (read_pipe_close p) \<and>
     write_open (read_pipe_close p) = write_open p \<and> pipe_contents (read_pipe_close p) = pipe_contents p \<and>
     pending_reads (read_pipe_close p) = pending_reads p \<and>
     pending_writes (read_pipe_close p) = pending_writes p"
  using assms by (cases "write_open p")
    (auto simp: read_pipe_close_def Let_def pipe_inv_def broadcast_writeable_def pipe_contents_def
      pending_reads_def pending_writes_def)

lemma write_pipe_close_spec:
  assumes "pipe_inv p" and "write_open p"
  shows "pipe_inv (write_pipe_close p) \<and> \<not> write_open (write_pipe_close p) \<and>
     read_open (write_pipe_close p) = read_open p \<and> pipe_contents (write_pipe_close p) = pipe_contents p \<and>
     pending_reads (write_pipe_close p) = pending_reads p \<and>
     pending_writes (write_pipe_close p) = pending_writes p"
  using assms by (cases "read_open p")
    (auto simp: write_pipe_close_def Let_def pipe_inv_def broadcast_readable_def pipe_contents_def
      pending_reads_def pending_writes_def)

lemma pipe_close_inv:
  assumes s: "pipe_sys_inv s"
  shows "pending_reads (obj s) < rio_refs s \<Longrightarrow> uio_close read_pipe_intf (rio_refs s) (obj s) = (k, p) \<Longrightarrow>
      pipe_sys_inv (s\<lparr>obj := p, rio_refs := k\<rparr>)"
    and "pending_writes (obj s) < wio_refs s \<Longrightarrow> uio_close write_pipe_intf (wio_refs s) (obj s) = (k, p) \<Longrightarrow>
      pipe_sys_inv (s\<lparr>obj := p, wio_refs := k\<rparr>)"
  using s read_pipe_close_spec [of "obj s"] write_pipe_close_spec [of "obj s"]
  by (auto simp: pipe_sys_inv_def uio_close_def Let_def read_pipe_intf_def write_pipe_intf_def
      split: if_splits)

lemma pipe_step_inv:
  assumes s: "pipe_sys_inv s" and st: "pipe_step e s = Some s'"
  shows "pipe_sys_inv s'"
proof (cases e)
  case (StartRead n)
  obtain r p where "pipe_read (unat n) (obj s) = (r, p)" by (metis surj_pair)
  with st StartRead s show ?thesis
    using log_read_inv [OF s, of "obj s" "unat n" r p]
    by (auto simp: pipe_step_def uio_read_def read_pipe_intf_def pipe_sys_inv_def split: if_splits)
next
  case (StartWrite bs)
  obtain r p where "pipe_write bs (obj s) = (r, p)" by (metis surj_pair)
  with st StartWrite s show ?thesis
    using log_write_inv [OF s, of "obj s" bs r p]
    by (auto simp: pipe_step_def uio_write_def write_pipe_intf_def pipe_sys_inv_def split: if_splits)
next
  case (ResumeCall i)
  let ?p = "obj s" and ?woken = "obj s\<lparr>runnable := remove_nth i (runnable (obj s))\<rparr>"
  from ResumeCall st have i: "i < length (runnable ?p)" by (simp add: pipe_step_def split: if_splits)
  have p0: "pipe_inv ?woken" "pipe_contents ?woken = pipe_contents ?p"
    using s by (auto simp: pipe_sys_inv_def pipe_inv_def)
  have pr: "pending_reads ?p = pending_reads ?woken + (if is_read (runnable ?p ! i) then 1 else 0)"
    and pw: "pending_writes ?p = pending_writes ?woken + (if is_read (runnable ?p ! i) then 0 else 1)"
    using remove_nth_count [OF i, of is_read] remove_nth_count [OF i, of "\<lambda>c. \<not> is_read c"]
    by (auto simp: pending_reads_def pending_writes_def)
  have bd: "pending_reads ?p \<le> rio_refs s" "pending_writes ?p \<le> wio_refs s"
    using s by (auto simp: pipe_sys_inv_def)
  show ?thesis
  proof (cases "runnable ?p ! i")
    case (ReadCall n)
    obtain r p where "pipe_read n ?woken = (r, p)" by (metis surj_pair)
    with st ResumeCall i ReadCall show ?thesis
      using log_read_inv [OF s p0, of n r p] pr pw bd
      by (auto simp: pipe_step_def is_read_def Let_def)
  next
    case (WriteCall bs)
    obtain r p where "pipe_write bs ?woken = (r, p)" by (metis surj_pair)
    with st ResumeCall i WriteCall show ?thesis
      using log_write_inv [OF s p0, of bs r p] pr pw bd
      by (auto simp: pipe_step_def is_read_def Let_def)
  qed
next
  case CloseRead
  with st s pipe_close_inv(1) [OF s] show ?thesis
    by (auto simp: pipe_step_def split: if_splits prod.splits)
next
  case CloseWrite
  with st s pipe_close_inv(2) [OF s] show ?thesis
    by (auto simp: pipe_step_def split: if_splits prod.splits)
qed (use st s in \<open>auto simp: pipe_step_def pipe_sys_inv_def uio_addref_def split: if_splits\<close>)

lemma pipe_reach_inv: "pipe_reach s \<Longrightarrow> pipe_sys_inv s"
  by (induction rule: pipe_reach.induct) (auto intro: pipe_init_inv pipe_step_inv)

section \<open>Properties\<close>

text \<open>A short run used as a concrete input: write two bytes, read one of them.\<close>

definition pipe_demo :: "bytes \<Rightarrow> pipe_sys option" where
  "pipe_demo page =
     do { s1 \<leftarrow> pipe_step (StartWrite [104, 105]) (pipe_init page); pipe_step (StartRead 1) s1 }"

lemma pipe_demo_reach: "length page = PAGE_SIZE \<Longrightarrow> pipe_demo page = Some s \<Longrightarrow> pipe_reach s"
  unfolding pipe_demo_def by (auto split: bind_splits) (metis created stepped)

lemma pipe_demo_state:
  "length page = PAGE_SIZE \<Longrightarrow> \<exists>s. pipe_demo page = Some s \<and> got s = [104]"
  by (simp add: pipe_demo_def pipe_init_def create_pipe_def pipe_step_def uio_write_def uio_read_def
      write_pipe_intf_def read_pipe_intf_def pipe_write_def pipe_read_def pending_reads_def
      pending_writes_def log_read_def log_write_def broadcast_readable_def broadcast_writeable_def
      ring_putc_def ring_getc_def Let_def)

definition zero_page :: bytes where
  "zero_page = replicate PAGE_SIZE 0"

lemma some_page: "length zero_page = PAGE_SIZE"
  by (simp add: zero_page_def)

lemma filter_both_nil: "filter P xs = [] \<Longrightarrow> filter (\<lambda>x. \<not> P x) xs = [] \<Longrightarrow> xs = []"
  by (cases xs) (auto split: if_splits)

lemma pending_zero_if_closed:
  assumes "pending_reads p = 0" and "pending_writes p = 0"
  shows "readable_wait p = [] \<and> writeable_wait p = [] \<and> runnable p = []"
proof -
  have "readable_wait p @ writeable_wait p @ runnable p = []"
    by (rule filter_both_nil [of is_read])
      (use assms in \<open>simp_all only: pending_reads_def pending_writes_def length_0_conv\<close>)
  then show ?thesis by simp
qed

text \<open>C3: However reads, writes, wake-ups, duplications and closes interleave, the bytes that
  went into a pipe are the bytes read from it followed by its contents, at most one page:
  nothing is lost, duplicated or reordered.\<close>

theorem pipe_stream:
  assumes "pipe_reach s"
  shows "written s = got s @ pipe_contents (obj s) \<and> length (pipe_contents (obj s)) \<le> PAGE_SIZE"
  using pipe_reach_inv [OF assms] by (simp add: pipe_sys_inv_def pipe_inv_def ring_inv_def)

theorem pipe_stream_witness:
  "\<exists>s. pipe_reach s \<and> got s = [104] \<and> written s = [104] @ pipe_contents (obj s)"
proof -
  obtain s where s: "pipe_demo zero_page = Some s" "got s = [104]"
    using pipe_demo_state [OF some_page] by blast
  from pipe_stream [OF pipe_demo_reach [OF some_page s(1)]] s pipe_demo_reach [OF some_page s(1)]
  show ?thesis by metis
qed

text \<open>Results of the pipe calls.  A read of a non-zero size that returns gives the next bytes
  of the stream, and gives none only when the write end is closed and everything written has
  been read.  A write of a non-empty buffer that returns gives -EPIPE when the read end is
  closed, and otherwise appends a non-empty prefix of the buffer and returns its length.\<close>

theorem pipe_results:
  assumes "pipe_reach s"
  shows "(\<forall>n k bs p. n \<noteq> 0 \<and> pipe_read n (obj s) = (Transfers k bs, p) \<longrightarrow>
       k = int (length bs) \<and> length bs \<le> n \<and> written s = got s @ bs @ pipe_contents p \<and>
       (bs = [] \<longleftrightarrow> \<not> write_open (obj s) \<and> written s = got s)) \<and>
     (\<forall>cs k bs p. cs \<noteq> [] \<and> pipe_write cs (obj s) = (Transfers k bs, p) \<longrightarrow>
       (if read_open (obj s)
        then k = int (length bs) \<and> bs \<noteq> [] \<and> bs = take (length bs) cs \<and>
          written s @ bs = got s @ pipe_contents p
        else k = - EPIPE \<and> bs = []))"
proof -
  from assms have i: "pipe_sys_inv s" by (rule pipe_reach_inv)
  then have pi: "pipe_inv (obj s)" and w: "written s = got s @ pipe_contents (obj s)"
    by (auto simp: pipe_sys_inv_def)
  have le: "bytecnt (obj s) \<le> 4096" using pi by (auto simp: pipe_inv_def ring_inv_def)
  have nil: "pipe_contents (obj s) = [] \<longleftrightarrow> bytecnt (obj s) = 0"
    using length_pipe_contents [of "obj s"] by (metis length_0_conv)
  have rd: "k = int (length bs) \<and> length bs \<le> n \<and> written s = got s @ bs @ pipe_contents p \<and>
       (bs = [] \<longleftrightarrow> \<not> write_open (obj s) \<and> written s = got s)"
    if n: "n \<noteq> 0" and r: "pipe_read n (obj s) = (Transfers k bs, p)" for n k bs p
  proof -
    note sp = pipe_read_spec [OF pi r]
    show ?thesis
    proof (cases "bytecnt (obj s) = 0")
      case True
      with n r w nil show ?thesis by (auto simp: pipe_read_def split: if_splits)
    next
      case False
      let ?m = "if n < bytecnt (obj s) then n else bytecnt (obj s)"
      obtain cs b where t: "take_loop ring_getc ?m (buf (obj s)) = (cs, b)" by (metis surj_pair)
      have "cs = take ?m (pipe_contents (obj s))"
        unfolding pipe_contents_def using ring_take_spec [OF _ _ t, of "bytecnt (obj s)"] pi
        by (auto simp: pipe_inv_def)
      with False n r t have "k = int (length bs)" "length bs = ?m"
        by (auto simp: pipe_read_def Let_def split: if_splits)
      with sp(4) False n w nil show ?thesis by (auto split: if_splits)
    qed
  qed
  have wr: "if read_open (obj s)
        then k = int (length bs) \<and> bs \<noteq> [] \<and> bs = take (length bs) cs \<and>
          written s @ bs = got s @ pipe_contents p
        else k = - EPIPE \<and> bs = []"
    if c: "cs \<noteq> []" and r: "pipe_write cs (obj s) = (Transfers k bs, p)" for cs k bs p
  proof (cases "read_open (obj s)")
    case False
    with c r show ?thesis by (simp add: pipe_write_def)
  next
    case True
    let ?k = "if length cs < 4096 - bytecnt (obj s) then length cs else 4096 - bytecnt (obj s)"
    from True c r have "bytecnt (obj s) \<noteq> 4096" "k = int ?k" "bs = take ?k cs"
      by (auto simp: pipe_write_def Let_def split: if_splits)
    moreover have "pipe_contents p = pipe_contents (obj s) @ bs"
      using pipe_write_spec(4) [OF pi r] by simp
    ultimately show ?thesis using True w c le by simp
  qed
  from rd wr show ?thesis by blast
qed

theorem pipe_results_witness:
  "\<exists>s p. pipe_reach s \<and> pipe_write [7] (obj s) = (Transfers 1 [7], p) \<and>
     written s @ [7] = got s @ pipe_contents p"
proof -
  let ?s = "pipe_init zero_page"
  have r: "pipe_reach ?s" by (rule created) (rule some_page)
  obtain p where p: "pipe_write [7] (obj ?s) = (Transfers 1 [7], p)"
    by (simp add: pipe_write_def pipe_init_def create_pipe_def Let_def)
  have "read_open (obj ?s)" by (simp add: pipe_init_def create_pipe_def)
  moreover have "[7] \<noteq> ([] :: bytes)" by simp
  ultimately have "written ?s @ [7] = got ?s @ pipe_contents p"
    using pipe_results [OF r] p by metis
  with p r show ?thesis by blast
qed

text \<open>A reader that sleeps on a pipe has found it empty with its write end open, a writer that
  sleeps has found it full with its read end open; and the page of the pipe is freed exactly
  once, when both ends have lost their last reference, at a moment when no call is asleep or
  runnable, and after which no operation on the pipe is possible.\<close>

theorem pipe_sleep_and_free:
  assumes "pipe_reach s"
  shows "(readable_wait (obj s) \<noteq> [] \<longrightarrow> bytecnt (obj s) = 0 \<and> wio_refs s > 0) \<and>
     (writeable_wait (obj s) \<noteq> [] \<longrightarrow> bytecnt (obj s) = PAGE_SIZE \<and> rio_refs s > 0) \<and>
     page_frees (obj s) = (if rio_refs s = 0 \<and> wio_refs s = 0 then 1 else 0) \<and>
     (page_frees (obj s) = 1 \<longrightarrow>
        readable_wait (obj s) = [] \<and> writeable_wait (obj s) = [] \<and> runnable (obj s) = [] \<and>
        (\<forall>e. pipe_step e s = None))"
proof -
  from assms have i: "pipe_sys_inv s" by (rule pipe_reach_inv)
  then have fr: "page_frees (obj s) = (if rio_refs s = 0 \<and> wio_refs s = 0 then 1 else 0)"
    by (auto simp: pipe_sys_inv_def pipe_inv_def)
  have "readable_wait (obj s) = [] \<and> writeable_wait (obj s) = [] \<and> runnable (obj s) = [] \<and>
        (\<forall>e. pipe_step e s = None)" if "page_frees (obj s) = 1"
  proof -
    have z: "rio_refs s = 0" "wio_refs s = 0" using that fr by (metis zero_neq_one)+
    have pz: "pending_reads (obj s) = 0" "pending_writes (obj s) = 0"
      using i z unfolding pipe_sys_inv_def by simp_all
    note none = pending_zero_if_closed [OF pz]
    have "pipe_step e s = None" for e by (cases e) (simp_all add: pipe_step_def z pz none)
    with none show ?thesis by blast
  qed
  moreover have "readable_wait (obj s) \<noteq> [] \<longrightarrow> bytecnt (obj s) = 0 \<and> wio_refs s > 0"
    and "writeable_wait (obj s) \<noteq> [] \<longrightarrow> bytecnt (obj s) = PAGE_SIZE \<and> rio_refs s > 0"
    using i unfolding pipe_sys_inv_def pipe_inv_def by blast+
  ultimately show ?thesis using fr by blast
qed

theorem pipe_sleep_and_free_witness:
  "\<exists>s. pipe_reach s \<and> rio_refs s = 1 \<and> page_frees (obj s) = 0"
proof -
  let ?page = zero_page
  have r: "pipe_reach (pipe_init ?page)" by (rule created) (rule some_page)
  from pipe_sleep_and_free [OF r] have "page_frees (obj (pipe_init ?page)) = 0"
    by (simp add: pipe_init_def)
  with r show ?thesis by (auto simp: pipe_init_def)
qed

end
