(* ===== verification/PhysPages.thy ===== *)
theory PhysPages
  imports Prelude
begin

text \<open>
  The physical page allocator of \<open>modified/sys/memory.c\<close>: a list of chunks of consecutive free
  pages, allocation from the smallest chunk that fits, and release with coalescing at the end
  of a chunk.  Pages are named by their page number; the chunk header that the code keeps in
  the first free page of each chunk is the list element.  The locale \<open>page_pool\<close> states what
  clients rely on, and derives that any sequence of allocations and releases keeps the blocks
  handed out apart.  The page lock is released on every path and nothing sleeps while it is
  held, so it is not part of the state.
\<close>

section \<open>The chunk list\<close>

record page_chunk =
  base :: nat
  pagecnt :: nat

type_synonym free_chunk_list = "page_chunk list"

text \<open>The scan for the best chunk: its index and size so far.  The code looks at the head
  first and then at each \<open>next\<close>; the test is the same.\<close>

fun best_chunk :: "nat \<Rightarrow> nat \<Rightarrow> (nat \<times> nat) option \<Rightarrow> free_chunk_list \<Rightarrow> (nat \<times> nat) option" where
  "best_chunk cnt i best [] = best"
| "best_chunk cnt i best (c # cs) =
     best_chunk cnt (i + 1)
       (if (case best of None \<Rightarrow> cnt \<le> pagecnt c
                       | Some (_, b) \<Rightarrow> cnt \<le> pagecnt c \<and> pagecnt c < b)
        then Some (i, pagecnt c) else best) cs"

text \<open>\<open>None\<close> is the panic of an empty list or of no chunk that fits.\<close>

definition alloc_phys_pages :: "nat \<Rightarrow> free_chunk_list \<Rightarrow> (nat \<times> free_chunk_list) option" where
  "alloc_phys_pages cnt cs =
     (if cs = [] then None
      else case best_chunk cnt 0 None cs of
        None \<Rightarrow> None
      | Some (i, b) \<Rightarrow>
          (if b = cnt then Some (base (cs ! i), take i cs @ drop (Suc i) cs)
           else Some (base (cs ! i) + (b - cnt), cs[i := (cs ! i)\<lparr>pagecnt := b - cnt\<rparr>])))"

definition alloc_phys_page :: "free_chunk_list \<Rightarrow> (nat \<times> free_chunk_list) option" where
  "alloc_phys_page cs = alloc_phys_pages 1 cs"

text \<open>Extend the first chunk that ends where the freed block begins.\<close>

fun extend_chunk :: "nat \<Rightarrow> nat \<Rightarrow> free_chunk_list \<Rightarrow> free_chunk_list option" where
  "extend_chunk pp cnt [] = None"
| "extend_chunk pp cnt (c # cs) =
     (if base c + pagecnt c = pp then Some (c\<lparr>pagecnt := pagecnt c + cnt\<rparr> # cs)
      else map_option ((#) c) (extend_chunk pp cnt cs))"

definition free_phys_pages :: "nat \<Rightarrow> nat \<Rightarrow> free_chunk_list \<Rightarrow> free_chunk_list" where
  "free_phys_pages pp cnt cs =
     (if pp = 0 \<or> cnt = 0 then cs
      else if cs = [] then [\<lparr>base = pp, pagecnt = cnt\<rparr>]
      else case extend_chunk pp cnt cs of
        Some cs' \<Rightarrow> cs'
      | None \<Rightarrow> \<lparr>base = pp, pagecnt = cnt\<rparr> # cs)"

definition free_phys_page :: "nat \<Rightarrow> free_chunk_list \<Rightarrow> free_chunk_list" where
  "free_phys_page pp cs = free_phys_pages pp 1 cs"

fun free_phys_page_count :: "free_chunk_list \<Rightarrow> nat" where
  "free_phys_page_count [] = 0"
| "free_phys_page_count (c # cs) = pagecnt c + free_phys_page_count cs"

section \<open>The set of free pages\<close>

definition chunk_pages :: "page_chunk \<Rightarrow> nat set" where
  "chunk_pages c = {base c..<base c + pagecnt c}"

fun free_pages :: "free_chunk_list \<Rightarrow> nat set" where
  "free_pages [] = {}"
| "free_pages (c # cs) = chunk_pages c \<union> free_pages cs"

text \<open>Chunks are non-empty, do not overlap and do not hold page 0.\<close>

fun chunks_wf :: "free_chunk_list \<Rightarrow> bool" where
  "chunks_wf [] \<longleftrightarrow> True"
| "chunks_wf (c # cs) \<longleftrightarrow>
     0 < pagecnt c \<and> 0 < base c \<and> chunk_pages c \<inter> free_pages cs = {} \<and> chunks_wf cs"

lemma free_pages_append [simp]: "free_pages (xs @ ys) = free_pages xs \<union> free_pages ys"
  by (induction xs) auto

lemma chunks_wf_append [simp]:
  "chunks_wf (xs @ ys) \<longleftrightarrow> chunks_wf xs \<and> chunks_wf ys \<and> free_pages xs \<inter> free_pages ys = {}"
  by (induction xs) auto

lemma finite_free_pages [simp]: "finite (free_pages cs)"
  by (induction cs) (auto simp: chunk_pages_def)

lemma free_page_count_card: "chunks_wf cs \<Longrightarrow> free_phys_page_count cs = card (free_pages cs)"
  by (induction cs) (auto simp: card_Un_disjoint chunk_pages_def)

lemma best_chunk_mono:
  "best_chunk cnt i best cs = r \<Longrightarrow> best = Some (j, b) \<Longrightarrow> \<exists>k d. r = Some (k, d) \<and> d \<le> b"
  by (induction cs arbitrary: i best j b) (force split: if_splits)+

lemma best_chunk_sound:
  "best_chunk cnt (length pre) best cs = Some (k, d) \<Longrightarrow>
     best = Some (k, d) \<or>
     (k < length (pre @ cs) \<and> pagecnt ((pre @ cs) ! k) = d \<and> cnt \<le> d)"
proof (induction cs arbitrary: pre best)
  case (Cons c cs)
  define best1 where "best1 = (if (case best of None \<Rightarrow> cnt \<le> pagecnt c
                      | Some (_, b) \<Rightarrow> cnt \<le> pagecnt c \<and> pagecnt c < b)
       then Some (length pre, pagecnt c) else best)"
  from Cons.prems have "best_chunk cnt (length (pre @ [c])) best1 cs = Some (k, d)"
    by (simp add: best1_def)
  from Cons.IH [OF this]
  have "best1 = Some (k, d) \<or> k < length (pre @ c # cs) \<and> pagecnt ((pre @ c # cs) ! k) = d \<and> cnt \<le> d"
    by simp
  moreover have "best = Some (k, d) \<or> k = length pre \<and> d = pagecnt c \<and> cnt \<le> d" if "best1 = Some (k, d)"
    using that by (cases best) (auto simp: best1_def split: if_splits)
  ultimately show ?case by auto
qed simp

lemma best_chunk_least:
  "best_chunk cnt i best cs = r \<Longrightarrow> c \<in> set cs \<Longrightarrow> cnt \<le> pagecnt c \<Longrightarrow>
     \<exists>k d. r = Some (k, d) \<and> d \<le> pagecnt c"
proof (induction cs arbitrary: i best)
  case (Cons a cs)
  show ?case
  proof (cases "c \<in> set cs")
    case True
    with Cons show ?thesis by (auto split: if_splits)
  next
    case False
    with Cons.prems have "c = a" by simp
    define best1 where "best1 = (if (case best of None \<Rightarrow> cnt \<le> pagecnt a
                      | Some (_, b) \<Rightarrow> cnt \<le> pagecnt a \<and> pagecnt a < b)
       then Some (i, pagecnt a) else best)"
    have "\<exists>j b. best1 = Some (j, b) \<and> b \<le> pagecnt a"
      using Cons.prems(3) \<open>c = a\<close> by (cases best) (auto simp: best1_def not_less)
    then obtain j b where b: "best1 = Some (j, b)" "b \<le> pagecnt a" by blast
    have "best_chunk cnt (i + 1) best1 cs = r" using Cons.prems(1) by (simp add: best1_def)
    from best_chunk_mono [OF this b(1)] b(2) \<open>c = a\<close> show ?thesis by auto
  qed
qed simp

lemma best_chunk_spec:
  assumes "best_chunk cnt 0 None cs = Some (i, b)"
  shows "i < length cs" and "pagecnt (cs ! i) = b" and "cnt \<le> b"
  using best_chunk_sound [of cnt "[]" None cs i b] assms by auto

text \<open>Taking a block out of a well-formed list.\<close>

lemma alloc_phys_pages_spec:
  assumes wf: "chunks_wf cs" and cnt: "0 < cnt" and al: "alloc_phys_pages cnt cs = Some (p, cs')"
  shows "chunks_wf cs'" and "0 < p" and "{p..<p + cnt} \<subseteq> free_pages cs"
    and "free_pages cs' = free_pages cs - {p..<p + cnt}"
proof -
  from al obtain i b where best: "best_chunk cnt 0 None cs = Some (i, b)"
    by (auto simp: alloc_phys_pages_def split: if_splits option.splits)
  note b = best_chunk_spec [OF best]
  let ?c = "cs ! i"
  define xs ys where "xs = take i cs" and "ys = drop (Suc i) cs"
  have cs: "cs = xs @ ?c # ys" unfolding xs_def ys_def by (rule id_take_nth_drop [OF b(1)])
  have len: "length xs = i" using b(1) by (simp add: xs_def)
  from wf have w: "chunks_wf xs" "chunks_wf ys" "0 < base ?c" "chunk_pages ?c \<inter> free_pages ys = {}"
    "free_pages xs \<inter> (chunk_pages ?c \<union> free_pages ys) = {}"
    by (subst (asm) cs, simp)+
  have fp: "free_pages cs = free_pages xs \<union> chunk_pages ?c \<union> free_pages ys" by (subst cs) auto
  have "chunks_wf cs' \<and> 0 < p \<and> {p..<p + cnt} \<subseteq> free_pages cs \<and>
      free_pages cs' = free_pages cs - {p..<p + cnt}"
  proof (cases "b = cnt")
    case True
    with al best have "p = base ?c" "cs' = xs @ ys"
      by (auto simp: alloc_phys_pages_def xs_def ys_def split: if_splits)
    with True b w fp show ?thesis by (auto simp: chunk_pages_def)
  next
    case False
    let ?d = "?c\<lparr>pagecnt := b - cnt\<rparr>"
    from False al best have p: "p = base ?c + (b - cnt)" "cs' = cs[i := ?d]"
      by (auto simp: alloc_phys_pages_def split: if_splits)
    have cs': "cs' = xs @ ?d # ys"
      unfolding p(2) using cs len by (metis list_update_length)
    have pages: "chunk_pages ?c = chunk_pages ?d \<union> {p..<p + cnt}" "chunk_pages ?d \<inter> {p..<p + cnt} = {}"
      using False b by (auto simp: chunk_pages_def p(1))
    have "0 < pagecnt ?d" "0 < base ?d" "0 < p" using False b w(3) p(1) by simp_all
    moreover have "chunk_pages ?d \<inter> free_pages ys = {}" "free_pages xs \<inter> (chunk_pages ?d \<union> free_pages ys) = {}"
      using w(4,5) pages by auto
    moreover have "free_pages (xs @ ?d # ys) = free_pages cs - {p..<p + cnt}" "{p..<p + cnt} \<subseteq> free_pages cs"
      using w(4,5) pages fp by auto
    ultimately show ?thesis using w(1,2) unfolding cs' by simp
  qed
  then show "chunks_wf cs'" "0 < p" "{p..<p + cnt} \<subseteq> free_pages cs"
    "free_pages cs' = free_pages cs - {p..<p + cnt}" by auto
qed

lemma alloc_phys_pages_none:
  assumes "0 < cnt"
  shows "alloc_phys_pages cnt cs = None \<longleftrightarrow> (\<forall>c\<in>set cs. pagecnt c < cnt)"
proof (cases "best_chunk cnt 0 None cs")
  case None
  with best_chunk_least [OF None] show ?thesis
    by (auto simp: alloc_phys_pages_def not_le [symmetric])
next
  case (Some r)
  then obtain i b where r: "best_chunk cnt 0 None cs = Some (i, b)" by (cases r) auto
  with best_chunk_spec [OF r] have "cs ! i \<in> set cs" "cnt \<le> pagecnt (cs ! i)" "cs \<noteq> []" by auto
  then have "\<not> (\<forall>c\<in>set cs. pagecnt c < cnt)" by (auto simp: not_less)
  with r \<open>cs \<noteq> []\<close> show ?thesis by (auto simp: alloc_phys_pages_def)
qed

lemma extend_chunk_spec:
  assumes "extend_chunk pp cnt cs = Some cs'" and "chunks_wf cs"
    and "{pp..<pp + cnt} \<inter> free_pages cs = {}"
  shows "free_pages cs' = free_pages cs \<union> {pp..<pp + cnt} \<and> chunks_wf cs'"
  using assms
proof (induction cs arbitrary: cs')
  case (Cons c cs)
  show ?case
  proof (cases "base c + pagecnt c = pp")
    case True
    with Cons.prems(1) have cs': "cs' = c\<lparr>pagecnt := pagecnt c + cnt\<rparr> # cs" by simp
    have "chunk_pages (c\<lparr>pagecnt := pagecnt c + cnt\<rparr>) = chunk_pages c \<union> {pp..<pp + cnt}"
      using True by (auto simp: chunk_pages_def)
    with Cons.prems(2,3) show ?thesis by (auto simp: cs')
  next
    case False
    with Cons.prems(1) obtain ds where ds: "extend_chunk pp cnt cs = Some ds" "cs' = c # ds" by auto
    with Cons.IH [OF ds(1)] Cons.prems(2,3) show ?thesis by auto
  qed
qed simp

lemma free_phys_pages_spec:
  assumes "chunks_wf cs" and "0 < pp" and "0 < cnt" and "{pp..<pp + cnt} \<inter> free_pages cs = {}"
  shows "chunks_wf (free_phys_pages pp cnt cs)"
    and "free_pages (free_phys_pages pp cnt cs) = free_pages cs \<union> {pp..<pp + cnt}"
proof -
  have "chunks_wf (free_phys_pages pp cnt cs) \<and>
      free_pages (free_phys_pages pp cnt cs) = free_pages cs \<union> {pp..<pp + cnt}"
    using assms extend_chunk_spec [of pp cnt cs]
    by (auto simp: free_phys_pages_def chunk_pages_def split: option.splits)
  then show "chunks_wf (free_phys_pages pp cnt cs)"
    "free_pages (free_phys_pages pp cnt cs) = free_pages cs \<union> {pp..<pp + cnt}" by auto
qed

section \<open>The contract of a page pool\<close>

datatype page_op = Alloc nat | Release nat

text \<open>
  The pool with the blocks its clients hold, each a first page and a size.  A client releases
  a block it holds, as a whole.
\<close>

definition pool_step ::
    "(nat \<Rightarrow> 'p \<Rightarrow> (nat \<times> 'p) option) \<Rightarrow> (nat \<Rightarrow> nat \<Rightarrow> 'p \<Rightarrow> 'p) \<Rightarrow> page_op \<Rightarrow>
     'p \<times> (nat \<times> nat) list \<Rightarrow> ('p \<times> (nat \<times> nat) list) option" where
  "pool_step alloc release e s =
     (case e of
        Alloc cnt \<Rightarrow>
          (if cnt = 0 then None
           else (case alloc cnt (fst s) of
                   None \<Rightarrow> None | Some (p, q) \<Rightarrow> Some (q, (p, cnt) # snd s)))
      | Release i \<Rightarrow>
          (if i < length (snd s)
           then Some (release (fst (snd s ! i)) (snd (snd s ! i)) (fst s),
                      take i (snd s) @ drop (Suc i) (snd s))
           else None))"

fun pool_run ::
    "(nat \<Rightarrow> 'p \<Rightarrow> (nat \<times> 'p) option) \<Rightarrow> (nat \<Rightarrow> nat \<Rightarrow> 'p \<Rightarrow> 'p) \<Rightarrow> page_op list \<Rightarrow>
     'p \<times> (nat \<times> nat) list \<Rightarrow> ('p \<times> (nat \<times> nat) list) option" where
  "pool_run alloc release [] s = Some s"
| "pool_run alloc release (e # es) s =
     (case pool_step alloc release e s of None \<Rightarrow> None | Some t \<Rightarrow> pool_run alloc release es t)"

definition block_pages :: "nat \<times> nat \<Rightarrow> nat set" where
  "block_pages b = {fst b..<fst b + snd b}"

fun blocks_apart :: "(nat \<times> nat) list \<Rightarrow> bool" where
  "blocks_apart [] \<longleftrightarrow> True"
| "blocks_apart (b # bs) \<longleftrightarrow>
     0 < fst b \<and> 0 < snd b \<and> (\<forall>c\<in>set bs. block_pages b \<inter> block_pages c = {}) \<and> blocks_apart bs"

lemma blocks_apart_append:
  "blocks_apart (xs @ ys) \<longleftrightarrow>
     blocks_apart xs \<and> blocks_apart ys \<and> (\<forall>b\<in>set xs. \<forall>c\<in>set ys. block_pages b \<inter> block_pages c = {})"
  by (induction xs) auto

definition pool_inv ::
    "('p \<Rightarrow> bool) \<Rightarrow> ('p \<Rightarrow> nat set) \<Rightarrow> nat set \<Rightarrow> 'p \<times> (nat \<times> nat) list \<Rightarrow> bool" where
  "pool_inv pool_wf avail ram s \<longleftrightarrow>
     pool_wf (fst s) \<and> blocks_apart (snd s) \<and>
     (\<forall>b\<in>set (snd s). block_pages b \<inter> avail (fst s) = {}) \<and>
     avail (fst s) \<union> (\<Union>b\<in>set (snd s). block_pages b) = ram"

locale page_pool =
  fixes pool_wf :: "'p \<Rightarrow> bool"
    and avail :: "'p \<Rightarrow> nat set"
    and alloc :: "nat \<Rightarrow> 'p \<Rightarrow> (nat \<times> 'p) option"
    and release :: "nat \<Rightarrow> nat \<Rightarrow> 'p \<Rightarrow> 'p"
  assumes alloc_wf: "pool_wf q \<Longrightarrow> 0 < n \<Longrightarrow> alloc n q = Some (p, q') \<Longrightarrow> pool_wf q' \<and> 0 < p"
    and alloc_avail: "pool_wf q \<Longrightarrow> 0 < n \<Longrightarrow> alloc n q = Some (p, q') \<Longrightarrow>
        {p..<p + n} \<subseteq> avail q \<and> avail q' = avail q - {p..<p + n}"
    and release_wf: "pool_wf q \<Longrightarrow> 0 < p \<Longrightarrow> 0 < n \<Longrightarrow> {p..<p + n} \<inter> avail q = {} \<Longrightarrow>
        pool_wf (release p n q)"
    and release_avail: "pool_wf q \<Longrightarrow> 0 < p \<Longrightarrow> 0 < n \<Longrightarrow> {p..<p + n} \<inter> avail q = {} \<Longrightarrow>
        avail (release p n q) = avail q \<union> {p..<p + n}"

context page_pool
begin

lemma step_inv:
  assumes inv: "pool_inv pool_wf avail ram s" and st: "pool_step alloc release e s = Some t"
  shows "pool_inv pool_wf avail ram t"
proof (cases e)
  case (Alloc n)
  with st obtain p q where a: "0 < n" "alloc n (fst s) = Some (p, q)" "t = (q, (p, n) # snd s)"
    by (auto simp: pool_step_def split: if_splits option.splits)
  from inv have w: "pool_wf (fst s)" by (simp add: pool_inv_def)
  note aw = alloc_wf [OF w a(1,2)] and aa = alloc_avail [OF w a(1,2)]
  have "block_pages (p, n) = {p..<p + n}" by (simp add: block_pages_def)
  with aa have b: "block_pages (p, n) \<subseteq> avail (fst s)" "avail q = avail (fst s) - block_pages (p, n)"
    by simp_all
  from inv have ap: "blocks_apart (snd s)" and d: "\<forall>c\<in>set (snd s). block_pages c \<inter> avail (fst s) = {}"
    and un: "avail (fst s) \<union> (\<Union>c\<in>set (snd s). block_pages c) = ram"
    by (simp_all add: pool_inv_def)
  have "blocks_apart ((p, n) # snd s)" using ap d b(1) aw a(1) by auto
  moreover have "\<forall>c\<in>set ((p, n) # snd s). block_pages c \<inter> avail q = {}" using d b(2) by auto
  moreover have "avail q \<union> (\<Union>c\<in>set ((p, n) # snd s). block_pages c) = ram" using un b by auto
  ultimately show ?thesis using aw by (simp add: pool_inv_def a(3))
next
  case (Release i)
  define xs ys where "xs = take i (snd s)" and "ys = drop (Suc i) (snd s)"
  let ?b = "snd s ! i"
  from Release st have i: "i < length (snd s)"
    and t: "t = (release (fst ?b) (snd ?b) (fst s), xs @ ys)"
    by (auto simp: pool_step_def xs_def ys_def split: if_splits)
  have s: "snd s = xs @ ?b # ys" unfolding xs_def ys_def by (rule id_take_nth_drop [OF i])
  from inv have ap: "blocks_apart (xs @ ?b # ys)" and w: "pool_wf (fst s)"
    and un: "avail (fst s) \<union> (\<Union>b\<in>set (xs @ ?b # ys). block_pages b) = ram"
    and d: "\<forall>b\<in>set (xs @ ?b # ys). block_pages b \<inter> avail (fst s) = {}"
    unfolding pool_inv_def using s by simp_all
  from ap have b: "0 < fst ?b" "0 < snd ?b" by (simp_all add: blocks_apart_append)
  from d have e: "{fst ?b..<fst ?b + snd ?b} \<inter> avail (fst s) = {}" by (simp add: block_pages_def)
  note r = release_wf [OF w b e] release_avail [OF w b e]
  have "\<forall>c\<in>set (xs @ ys). block_pages c \<inter> block_pages ?b = {}"
    using ap by (auto simp: blocks_apart_append)
  then show ?thesis
    using r ap un d unfolding pool_inv_def t
    by (auto simp: blocks_apart_append block_pages_def [of ?b])
qed

lemma run_inv: "pool_inv pool_wf avail ram s \<Longrightarrow> pool_run alloc release es s = Some t \<Longrightarrow> pool_inv pool_wf avail ram t"
  by (induction es arbitrary: s) (auto split: option.splits dest: step_inv)

lemma run_apart:
  assumes "pool_wf q" and "pool_run alloc release es (q, []) = Some t"
  shows "blocks_apart (snd t) \<and> (\<forall>b\<in>set (snd t). block_pages b \<inter> avail (fst t) = {}) \<and>
     avail (fst t) \<union> (\<Union>b\<in>set (snd t). block_pages b) = avail q"
  using run_inv [of "avail q" "(q, [])" es t] assms by (simp add: pool_inv_def)

end

interpretation chunk_pool: page_pool chunks_wf free_pages alloc_phys_pages free_phys_pages
proof (unfold_locales, goal_cases)
  case (1 q n p q')
  with alloc_phys_pages_spec(1,2) [of q n p q'] show ?case by simp
next
  case (2 q n p q')
  with alloc_phys_pages_spec(3,4) [of q n p q'] show ?case by simp
next
  case (3 q p n)
  then show ?case by (rule free_phys_pages_spec(1))
next
  case (4 q p n)
  then show ?case by (rule free_phys_pages_spec(2))
qed


section \<open>Properties\<close>

text \<open>C4: An allocation of pages fails exactly when no chunk is large enough; otherwise the block
  is the end of a smallest chunk that fits, its pages were free, and exactly they stop being
  free: the free count drops by the size of the block.\<close>

theorem alloc_phys_pages_best_fit:
  assumes "chunks_wf cs" and "0 < cnt"
  shows "case alloc_phys_pages cnt cs of
     None \<Rightarrow> \<forall>c\<in>set cs. pagecnt c < cnt
   | Some (p, cs') \<Rightarrow>
       (\<exists>c\<in>set cs. cnt \<le> pagecnt c \<and> (\<forall>d\<in>set cs. cnt \<le> pagecnt d \<longrightarrow> pagecnt c \<le> pagecnt d) \<and>
          p = base c + (pagecnt c - cnt)) \<and>
       chunks_wf cs' \<and> {p..<p + cnt} \<subseteq> free_pages cs \<and>
       free_pages cs' = free_pages cs - {p..<p + cnt} \<and>
       free_phys_page_count cs' + cnt = free_phys_page_count cs"
proof (cases "alloc_phys_pages cnt cs")
  case None
  with alloc_phys_pages_none [OF assms(2), of cs] show ?thesis by simp
next
  case (Some r)
  then obtain p cs' where r: "alloc_phys_pages cnt cs = Some (p, cs')" by (cases r) auto
  then obtain i b where best: "best_chunk cnt 0 None cs = Some (i, b)"
    by (auto simp: alloc_phys_pages_def split: if_splits option.splits)
  note b = best_chunk_spec [OF best]
  have "\<forall>d\<in>set cs. cnt \<le> pagecnt d \<longrightarrow> pagecnt (cs ! i) \<le> pagecnt d"
    using best_chunk_least [OF best] b by fastforce
  moreover have "p = base (cs ! i) + (pagecnt (cs ! i) - cnt)"
    using r best b by (auto simp: alloc_phys_pages_def split: if_splits)
  ultimately have c: "\<exists>c\<in>set cs. cnt \<le> pagecnt c \<and>
      (\<forall>d\<in>set cs. cnt \<le> pagecnt d \<longrightarrow> pagecnt c \<le> pagecnt d) \<and> p = base c + (pagecnt c - cnt)"
    using b by (intro bexI [of _ "cs ! i"]) auto
  note s = alloc_phys_pages_spec [OF assms r]
  have "card (free_pages cs) = card (free_pages cs - {p..<p + cnt}) + card {p..<p + cnt}"
    using s(3) by (metis card_Diff_subset card_mono finite_atLeastLessThan finite_free_pages le_add_diff_inverse2)
  with s r c assms(1) show ?thesis by (simp add: free_page_count_card)
qed

theorem alloc_phys_pages_best_fit_witness:
  "case alloc_phys_pages 2 [\<lparr>base = 10, pagecnt = 9\<rparr>, \<lparr>base = 30, pagecnt = 3\<rparr>] of
     None \<Rightarrow> False | Some (p, cs') \<Rightarrow> p = 31 \<and> free_phys_page_count cs' + 2 = 12"
proof -
  let ?cs = "[\<lparr>base = 10, pagecnt = 9\<rparr>, \<lparr>base = 30, pagecnt = 3\<rparr>]"
  have wf: "chunks_wf ?cs" by (auto simp: chunk_pages_def)
  have "alloc_phys_pages 2 ?cs = Some (31, [\<lparr>base = 10, pagecnt = 9\<rparr>, \<lparr>base = 30, pagecnt = 1\<rparr>])"
    by code_simp
  with alloc_phys_pages_best_fit [OF wf, of 2] show ?thesis by simp
qed

text \<open>C5: Over any sequence of allocations and whole-block releases, the blocks that clients hold
  never overlap each other or the free pages, no page is lost or invented, and the free count
  is the number of free pages.\<close>

theorem page_blocks_stay_apart:
  assumes "chunks_wf cs" and "pool_run alloc_phys_pages free_phys_pages es (cs, []) = Some (cs', held)"
  shows "blocks_apart held \<and> (\<forall>b\<in>set held. block_pages b \<inter> free_pages cs' = {}) \<and>
     free_pages cs' \<union> (\<Union>b\<in>set held. block_pages b) = free_pages cs \<and>
     free_phys_page_count cs' = card (free_pages cs')"
proof -
  have "chunks_wf cs'"
    using chunk_pool.run_inv [of "free_pages cs" "(cs, [])" es "(cs', held)"] assms
    by (simp add: pool_inv_def)
  with chunk_pool.run_apart [OF assms] show ?thesis by (simp add: free_page_count_card)
qed

theorem page_blocks_stay_apart_witness:
  "\<exists>cs'. pool_run alloc_phys_pages free_phys_pages [Alloc 2, Alloc 3, Release 1]
       ([\<lparr>base = 1, pagecnt = 9\<rparr>], []) = Some (cs', [(5, 3)]) \<and>
     block_pages (5, 3) \<inter> free_pages cs' = {}"
proof -
  let ?cs = "[\<lparr>base = 1, pagecnt = 9\<rparr>]"
  have run: "pool_run alloc_phys_pages free_phys_pages [Alloc 2, Alloc 3, Release 1] (?cs, []) =
      Some ([\<lparr>base = 8, pagecnt = 2\<rparr>, \<lparr>base = 1, pagecnt = 4\<rparr>], [(5, 3)])"
    by code_simp
  have "chunks_wf ?cs" by simp
  from page_blocks_stay_apart [OF this run] run show ?thesis by simp
qed

end
