(* ===== verification/Storage.thy ===== *)
theory Storage
  imports Prelude
begin

text \<open>
  Storage devices: the dispatch functions of \<open>provided/sys/device.c\<close>, the byte-stream object
  that \<open>device.c\<close> wraps around a device, the RAM disk (\<open>modified/sys/dev/ramdisk.c\<close>) and the
  VirtIO block driver (\<open>modified/sys/dev/vioblk.c\<close>).  The locale \<open>block_disk\<close> states what the
  layers above rely on; the RAM disk interprets it and the block driver satisfies it for any
  hardware that serves requests as the VirtIO specification says.
\<close>

section \<open>The device interface and its dispatch\<close>

text \<open>A fetch returns its code and the bytes it put at the start of the buffer.\<close>

record 'd storage_intf =
  st_blksz :: nat
  st_open :: "('d \<Rightarrow> int \<times> 'd) option"
  st_close :: "('d \<Rightarrow> 'd) option"
  st_fetch :: "(u64 \<Rightarrow> nat \<Rightarrow> 'd \<Rightarrow> (int \<times> bytes) \<times> 'd) option"
  st_store :: "(u64 \<Rightarrow> bytes \<Rightarrow> 'd \<Rightarrow> int \<times> 'd) option"
  st_cntl :: "(int \<Rightarrow> bool \<Rightarrow> 'd \<Rightarrow> int \<times> u64 option) option"

definition storage_open :: "'d storage_intf option \<Rightarrow> 'd \<Rightarrow> int \<times> 'd" where
  "storage_open sto d =
     (case sto of
        None \<Rightarrow> (- EINVAL, d)
      | Some intf \<Rightarrow> (case st_open intf of Some f \<Rightarrow> f d | None \<Rightarrow> (- ENOTSUP, d)))"

definition storage_close :: "'d storage_intf option \<Rightarrow> 'd \<Rightarrow> 'd" where
  "storage_close sto d =
     (case sto of
        None \<Rightarrow> d
      | Some intf \<Rightarrow> (case st_close intf of Some f \<Rightarrow> f d | None \<Rightarrow> d))"

definition storage_fetch ::
    "'d storage_intf option \<Rightarrow> u64 \<Rightarrow> bool \<Rightarrow> nat \<Rightarrow> 'd \<Rightarrow> (int \<times> bytes) \<times> 'd" where
  "storage_fetch sto pos buf_is_null bufsz d =
     (case sto of
        None \<Rightarrow> ((- EINVAL, []), d)
      | Some intf \<Rightarrow>
          (if buf_is_null then ((- EINVAL, []), d)
           else case st_fetch intf of
             Some f \<Rightarrow>
               (if (bufsz = 0 \<or> st_blksz intf \<le> bufsz) \<and> unat pos mod st_blksz intf = 0
                then f pos bufsz d else ((- EINVAL, []), d))
           | None \<Rightarrow> ((- ENOTSUP, []), d)))"

definition storage_store ::
    "'d storage_intf option \<Rightarrow> u64 \<Rightarrow> bytes option \<Rightarrow> 'd \<Rightarrow> int \<times> 'd" where
  "storage_store sto pos buf d =
     (case (sto, buf) of
        (Some intf, Some bs) \<Rightarrow>
          (case st_store intf of
             Some f \<Rightarrow>
               (if (length bs = 0 \<or> st_blksz intf \<le> length bs) \<and> unat pos mod st_blksz intf = 0
                then f pos bs d else (- EINVAL, d))
           | None \<Rightarrow> (- ENOTSUP, d))
      | _ \<Rightarrow> (- EINVAL, d))"

definition storage_cntl :: "'d storage_intf option \<Rightarrow> int \<Rightarrow> bool \<Rightarrow> 'd \<Rightarrow> int \<times> u64 option" where
  "storage_cntl sto opn arg_is_null d =
     (case sto of
        None \<Rightarrow> (- EINVAL, None)
      | Some intf \<Rightarrow> (case st_cntl intf of Some f \<Rightarrow> f opn arg_is_null d | None \<Rightarrow> (- ENOTSUP, None)))"

section \<open>The contract of a block device\<close>

text \<open>
  \<open>img\<close> is the content of the device and \<open>ready\<close> says that it is open.  A fetch gives a
  prefix of what is asked for, and all of it when the range is inside the device and a
  multiple of the block size; a store that fails may leave anything in its own range and
  nothing else.
\<close>

locale block_disk =
  fixes intf :: "'d storage_intf" and img :: "'d \<Rightarrow> bytes" and ready :: "'d \<Rightarrow> bool"
  assumes fetch_frame: "ready d \<Longrightarrow> storage_fetch (Some intf) p False n d = ((rc, bs), d') \<Longrightarrow>
        ready d' \<and> img d' = img d \<and> length bs \<le> n"
    and fetch_data: "ready d \<Longrightarrow> storage_fetch (Some intf) p False n d = ((rc, bs), d') \<Longrightarrow> 0 \<le> rc \<Longrightarrow>
        rc = int (length bs) \<and> bs = take (length bs) (drop (unat p) (img d)) \<and>
        (unat p + n \<le> length (img d) \<and> n mod st_blksz intf = 0 \<longrightarrow> length bs = n)"
    and store_frame: "ready d \<Longrightarrow> storage_store (Some intf) p (Some bs) d = (rc, d') \<Longrightarrow>
        ready d' \<and> length (img d') = length (img d) \<and>
        (\<forall>i<length (img d). \<not> (unat p \<le> i \<and> i < unat p + length bs) \<longrightarrow> img d' ! i = img d ! i)"
    and store_data: "ready d \<Longrightarrow> storage_store (Some intf) p (Some bs) d = (rc, d') \<Longrightarrow> 0 \<le> rc \<Longrightarrow>
        unat p + length bs \<le> length (img d) \<Longrightarrow> length bs mod st_blksz intf = 0 \<Longrightarrow>
        img d' = overwrite (img d) (unat p) bs"

section \<open>The RAM disk\<close>

record ramdisk =
  rd_opened :: bool
  rd_buf :: bytes

definition ramdisk_open :: "ramdisk \<Rightarrow> int \<times> ramdisk" where
  "ramdisk_open rd = (if rd_opened rd then (- ENOTSUP, rd) else (0, rd\<lparr>rd_opened := True\<rparr>))"

definition ramdisk_close :: "ramdisk \<Rightarrow> ramdisk" where
  "ramdisk_close rd = (if \<not> rd_opened rd then rd else rd\<lparr>rd_opened := False\<rparr>)"

definition ramdisk_fetch :: "u64 \<Rightarrow> nat \<Rightarrow> ramdisk \<Rightarrow> (int \<times> bytes) \<times> ramdisk" where
  "ramdisk_fetch pos bytecnt rd =
     (if \<not> rd_opened rd then ((- ENOTSUP, []), rd)
      else if bytecnt = 0 then ((0, []), rd)
      else let disksize = length (rd_buf rd) in
        if disksize \<le> unat pos then ((0, []), rd)
        else let remaining = disksize - unat pos;
                 numbytes = (if bytecnt > remaining then remaining else bytecnt)
             in ((int numbytes, take numbytes (drop (unat pos) (rd_buf rd))), rd))"

abbreviation (input) FCNTL_GETEND :: int where "FCNTL_GETEND \<equiv> 0"
abbreviation (input) FCNTL_SETEND :: int where "FCNTL_SETEND \<equiv> 1"
abbreviation (input) FCNTL_GETPOS :: int where "FCNTL_GETPOS \<equiv> 2"
abbreviation (input) FCNTL_SETPOS :: int where "FCNTL_SETPOS \<equiv> 3"

definition ramdisk_cntl :: "int \<Rightarrow> bool \<Rightarrow> ramdisk \<Rightarrow> int \<times> u64 option" where
  "ramdisk_cntl cmd arg_is_null rd =
     (if arg_is_null then (- ENOTSUP, None)
      else if cmd = FCNTL_GETEND then (0, Some (of_nat (length (rd_buf rd))))
      else (- ENOTSUP, None))"

definition ramdisk_intf :: "ramdisk storage_intf" where
  "ramdisk_intf =
     \<lparr>st_blksz = 1, st_open = Some ramdisk_open, st_close = Some ramdisk_close,
      st_fetch = Some ramdisk_fetch, st_store = None, st_cntl = Some ramdisk_cntl\<rparr>"

interpretation ramdisk: block_disk ramdisk_intf rd_buf rd_opened
proof (unfold_locales, goal_cases)
  case (1 d p n rc bs d')
  then show ?case
    by (auto simp: storage_fetch_def ramdisk_intf_def ramdisk_fetch_def Let_def split: if_splits)
next
  case (2 d p n rc bs d')
  then show ?case
    by (auto simp: storage_fetch_def ramdisk_intf_def ramdisk_fetch_def Let_def min_def split: if_splits)
qed (auto simp: storage_store_def ramdisk_intf_def)

section \<open>The VirtIO block driver\<close>

text \<open>
  The hardware is a parameter: \<open>vio_in sector n h\<close> serves a read of \<open>n\<close> bytes and gives the
  status byte and the data, \<open>vio_out sector bs h\<close> serves a write.  The caller sleeps until the
  used index moves and holds the queue's lock, so one request is one step.  \<open>vb_data\<close> is the
  driver's bounce buffer of two blocks.
\<close>

record 'h vioblk =
  vb_opened :: bool
  vb_blksz :: nat
  vb_capacity :: u64
  vb_data :: bytes
  vb_hw :: 'h

abbreviation (input) VIRTIO_BLK_S_IOERR :: u8 where "VIRTIO_BLK_S_IOERR \<equiv> 1"
abbreviation (input) VIRTIO_BLK_S_UNSUPP :: u8 where "VIRTIO_BLK_S_UNSUPP \<equiv> 2"
abbreviation (input) SECTOR_SIZE :: nat where "SECTOR_SIZE \<equiv> 512"
abbreviation (input) EIO :: int where "EIO \<equiv> 5"

definition vioblk_storage_open :: "'h vioblk \<Rightarrow> int \<times> 'h vioblk" where
  "vioblk_storage_open vbd = (if vb_opened vbd then (- EBUSY, vbd) else (0, vbd\<lparr>vb_opened := True\<rparr>))"

definition vioblk_storage_close :: "'h vioblk \<Rightarrow> 'h vioblk" where
  "vioblk_storage_close vbd = (if \<not> vb_opened vbd then vbd else vbd\<lparr>vb_opened := False\<rparr>)"

text \<open>The sector, the offset in it and the number of sectors of the next request, or \<open>None\<close>
  when it would pass the end of the device.\<close>

definition vioblk_request :: "u64 \<Rightarrow> 'h vioblk \<Rightarrow> (u64 \<times> nat \<times> nat) option" where
  "vioblk_request pos vbd =
     (let offset = unat pos mod SECTOR_SIZE;
          sec = (pos - of_nat offset) div of_nat SECTOR_SIZE;
          sectors_needed = (if offset \<noteq> 0 then vb_blksz vbd div SECTOR_SIZE + 1
                            else vb_blksz vbd div SECTOR_SIZE);
          capacity_sectors = vb_capacity vbd div of_nat SECTOR_SIZE
      in if sec + of_nat sectors_needed > capacity_sectors then None
         else Some (sec, offset, sectors_needed))"

function vioblk_fetch_loop ::
    "(u64 \<Rightarrow> nat \<Rightarrow> 'h \<Rightarrow> (u8 \<times> bytes) \<times> 'h) \<Rightarrow> nat \<Rightarrow> u64 \<Rightarrow> nat \<Rightarrow> bytes \<Rightarrow> 'h vioblk \<Rightarrow>
     (int \<times> bytes) \<times> 'h vioblk" where
  "vioblk_fetch_loop vio_in bytecnt pos bytesleft out vbd =
     (if bytesleft < vb_blksz vbd \<or> vb_blksz vbd = 0 then ((int (bytecnt - bytesleft), out), vbd)
      else case vioblk_request pos vbd of
        None \<Rightarrow> ((int (bytecnt - bytesleft), out), vbd)
      | Some (sec, offset, sectors_needed) \<Rightarrow>
          (case vio_in sec (SECTOR_SIZE * sectors_needed) (vb_hw vbd) of ((status, got), h) \<Rightarrow>
             let vbd1 = vbd\<lparr>vb_data := got @ drop (length got) (vb_data vbd), vb_hw := h\<rparr>
             in if status = VIRTIO_BLK_S_UNSUPP then ((- ENOTSUP, out), vbd1)
                else if status = VIRTIO_BLK_S_IOERR then ((- EIO, out), vbd1)
                else vioblk_fetch_loop vio_in bytecnt (pos + of_nat (vb_blksz vbd))
                       (bytesleft - vb_blksz vbd)
                       (out @ take (vb_blksz vbd) (drop offset (vb_data vbd1))) vbd1))"
  by pat_completeness auto
termination
  by (relation "measure (\<lambda>(f, n, pos, bytesleft, out, vbd). bytesleft)") auto

text \<open>A block size of 0 would make the loop of the code spin; \<open>vioblk_attach\<close> takes the
  block size from the device, whose specification makes it positive.\<close>

definition vioblk_storage_fetch ::
    "(u64 \<Rightarrow> nat \<Rightarrow> 'h \<Rightarrow> (u8 \<times> bytes) \<times> 'h) \<Rightarrow> u64 \<Rightarrow> nat \<Rightarrow> 'h vioblk \<Rightarrow> (int \<times> bytes) \<times> 'h vioblk" where
  "vioblk_storage_fetch vio_in pos bytecnt vbd =
     (if \<not> vb_opened vbd \<or> bytecnt = 0 then ((- EINVAL, []), vbd)
      else vioblk_fetch_loop vio_in bytecnt pos bytecnt [] vbd)"

function vioblk_store_loop ::
    "(u64 \<Rightarrow> bytes \<Rightarrow> 'h \<Rightarrow> u8 \<times> 'h) \<Rightarrow> nat \<Rightarrow> u64 \<Rightarrow> bytes \<Rightarrow> 'h vioblk \<Rightarrow> int \<times> 'h vioblk" where
  "vioblk_store_loop vio_out bytecnt pos inp vbd =
     (if length inp < vb_blksz vbd \<or> vb_blksz vbd = 0 then (int (bytecnt - length inp), vbd)
      else case vioblk_request pos vbd of
        None \<Rightarrow> (int (bytecnt - length inp), vbd)
      | Some (sec, offset, sectors_needed) \<Rightarrow>
          (let dat = overwrite (vb_data vbd) offset (take (vb_blksz vbd) inp)
           in case vio_out sec (take (SECTOR_SIZE * sectors_needed) dat) (vb_hw vbd) of (status, h) \<Rightarrow>
             let vbd1 = vbd\<lparr>vb_data := dat, vb_hw := h\<rparr>
             in if status = VIRTIO_BLK_S_UNSUPP then (- ENOTSUP, vbd1)
                else if status = VIRTIO_BLK_S_IOERR then (- EIO, vbd1)
                else vioblk_store_loop vio_out bytecnt (pos + of_nat (vb_blksz vbd))
                       (drop (vb_blksz vbd) inp) vbd1))"
  by pat_completeness auto
termination
  by (relation "measure (\<lambda>(f, n, pos, inp, vbd). length inp)") auto

declare vioblk_fetch_loop.simps [simp del] vioblk_store_loop.simps [simp del]

definition vioblk_storage_store ::
    "(u64 \<Rightarrow> bytes \<Rightarrow> 'h \<Rightarrow> u8 \<times> 'h) \<Rightarrow> u64 \<Rightarrow> bytes \<Rightarrow> 'h vioblk \<Rightarrow> int \<times> 'h vioblk" where
  "vioblk_storage_store vio_out pos buf vbd =
     (if \<not> vb_opened vbd \<or> length buf = 0 then (- EINVAL, vbd)
      else vioblk_store_loop vio_out (length buf) pos buf vbd)"

definition vioblk_storage_cntl :: "int \<Rightarrow> bool \<Rightarrow> 'h vioblk \<Rightarrow> int \<times> u64 option" where
  "vioblk_storage_cntl opn arg_is_null vbd =
     (if \<not> vb_opened vbd then (- EINVAL, None)
      else if opn = FCNTL_GETEND
      then (if arg_is_null then (- EINVAL, None) else (0, Some (vb_capacity vbd)))
      else (- ENOTSUP, None))"

definition vioblk_intf ::
    "(u64 \<Rightarrow> nat \<Rightarrow> 'h \<Rightarrow> (u8 \<times> bytes) \<times> 'h) \<Rightarrow> (u64 \<Rightarrow> bytes \<Rightarrow> 'h \<Rightarrow> u8 \<times> 'h) \<Rightarrow> nat \<Rightarrow>
     'h vioblk storage_intf" where
  "vioblk_intf vio_in vio_out blksz =
     \<lparr>st_blksz = blksz, st_open = Some vioblk_storage_open, st_close = Some vioblk_storage_close,
      st_fetch = Some (vioblk_storage_fetch vio_in), st_store = Some (vioblk_storage_store vio_out),
      st_cntl = Some vioblk_storage_cntl\<rparr>"


section \<open>The driver over hardware that keeps its contract\<close>

definition virtio_blk_hw ::
    "(u64 \<Rightarrow> nat \<Rightarrow> 'h \<Rightarrow> (u8 \<times> bytes) \<times> 'h) \<Rightarrow> (u64 \<Rightarrow> bytes \<Rightarrow> 'h \<Rightarrow> u8 \<times> 'h) \<Rightarrow> ('h \<Rightarrow> bytes) \<Rightarrow> bool" where
  "virtio_blk_hw vio_in vio_out himg \<longleftrightarrow>
     (\<forall>sec n h st got h'. vio_in sec n h = ((st, got), h') \<longrightarrow>
        himg h' = himg h \<and> st \<in> {0, 1, 2} \<and> length got \<le> n \<and>
        (st = 0 \<and> unat sec * SECTOR_SIZE + n \<le> length (himg h) \<longrightarrow>
           got = take n (drop (unat sec * SECTOR_SIZE) (himg h)))) \<and>
     (\<forall>sec bs h st h'. vio_out sec bs h = (st, h') \<longrightarrow>
        length (himg h') = length (himg h) \<and> st \<in> {0, 1, 2} \<and>
        (\<forall>i<length (himg h). \<not> (unat sec * SECTOR_SIZE \<le> i \<and> i < unat sec * SECTOR_SIZE + length bs) \<longrightarrow>
           himg h' ! i = himg h ! i) \<and>
        (st = 0 \<and> unat sec * SECTOR_SIZE + length bs \<le> length (himg h) \<longrightarrow>
           himg h' = overwrite (himg h) (unat sec * SECTOR_SIZE) bs))"

definition vioblk_ready :: "('h \<Rightarrow> bytes) \<Rightarrow> nat \<Rightarrow> 'h vioblk \<Rightarrow> bool" where
  "vioblk_ready himg blksz vbd \<longleftrightarrow>
     vb_opened vbd \<and> vb_blksz vbd = blksz \<and> length (vb_data vbd) = 2 * blksz \<and>
     unat (vb_capacity vbd) = length (himg (vb_hw vbd)) \<and> length (himg (vb_hw vbd)) mod SECTOR_SIZE = 0"

lemma unat_div_64: "unat (a div b :: u64) = unat a div unat b"
  by (simp add: unat_div)

lemma vioblk_request_aligned:
  assumes "unat pos mod SECTOR_SIZE = 0" and "vb_blksz vbd = SECTOR_SIZE * m" and "m < 2 ^ 32"
    and "unat (vb_capacity vbd) mod SECTOR_SIZE = 0"
  shows "vioblk_request pos vbd =
     (if unat pos + vb_blksz vbd > unat (vb_capacity vbd) then None
      else Some (pos div of_nat SECTOR_SIZE, 0, m))"
    and "unat (pos div 512) * SECTOR_SIZE = unat pos"
proof -
  have s: "unat (pos div 512) = unat pos div 512" by (simp add: unat_div_64)
  show "unat (pos div 512) * SECTOR_SIZE = unat pos" using s assms(1) by auto
  have "unat pos div 512 < 2 ^ 55" using unat_lt_64 [of pos] by (simp add: less_mult_imp_div_less)
  moreover have "unat (of_nat m :: u64) = m" using assms(3) by (intro unat_word_of_nat_small) simp
  ultimately have sum: "unat (pos div 512 + of_nat m) = unat pos div 512 + m"
    using s assms(3) by (subst unat_add_lem [THEN iffD1]) auto
  have cap: "unat (vb_capacity vbd div 512) = unat (vb_capacity vbd) div 512" by (simp add: unat_div_64)
  have "(pos div 512 + of_nat m > vb_capacity vbd div 512) \<longleftrightarrow>
      unat (vb_capacity vbd) div 512 < unat pos div 512 + m"
    by (simp add: word_less_nat_alt sum cap)
  also have "\<dots> \<longleftrightarrow> unat (vb_capacity vbd) < unat pos + 512 * m"
    using assms(1,4) by auto
  finally show "vioblk_request pos vbd =
     (if unat pos + vb_blksz vbd > unat (vb_capacity vbd) then None
      else Some (pos div of_nat SECTOR_SIZE, 0, m))"
    using assms(1,2) by (simp add: vioblk_request_def)
qed

text \<open>The contract of the read loop, started at an aligned position.\<close>

definition fetch_post :: "('h \<Rightarrow> bytes) \<Rightarrow> nat \<Rightarrow> nat \<Rightarrow> u64 \<Rightarrow> nat \<Rightarrow> bytes \<Rightarrow> 'h vioblk \<Rightarrow>
     (int \<times> bytes) \<times> 'h vioblk \<Rightarrow> bool" where
  "fetch_post himg blksz bytecnt pos bytesleft out vbd r \<longleftrightarrow>
     vioblk_ready himg blksz (snd r) \<and> himg (vb_hw (snd r)) = himg (vb_hw vbd) \<and>
     (\<exists>X. snd (fst r) = out @ X \<and> X = take (length X) (drop (unat pos) (himg (vb_hw vbd))) \<and>
        length X \<le> bytesleft \<and>
        (0 \<le> fst (fst r) \<longrightarrow> fst (fst r) = int (bytecnt - bytesleft + length X)) \<and>
        (0 \<le> fst (fst r) \<and> unat pos + bytesleft \<le> length (himg (vb_hw vbd)) \<and> bytesleft mod blksz = 0 \<longrightarrow>
           length X = bytesleft))"

lemma take_take_drop:
  "a \<le> n \<Longrightarrow> take a (drop p xs) @ take (n - a) (drop (p + a) xs) = take n (drop p xs)"
  by (metis add.commute drop_drop le_add_diff_inverse take_add)

lemma take_length_self: "xs = take n ys \<Longrightarrow> xs = take (length xs) ys"
  by (metis append_eq_conv_conj append_take_drop_id)

lemma unat_add_small:
  "unat a + n < 2 ^ 64 \<Longrightarrow> unat ((a :: u64) + of_nat n) = unat a + n"
  by (simp add: unat_word_ariths unat_of_nat mod_simps)

lemma fetch_post_extend:
  assumes post: "fetch_post himg b n pos' (l - b) (out @ A) v r"
    and np: "unat pos' = unat pos + b" and A: "A = take b (drop (unat pos) (himg (vb_hw u)))"
    and img: "himg (vb_hw v) = himg (vb_hw u)" and in_dev: "unat pos + b \<le> length (himg (vb_hw u))"
    and le: "b \<le> l" "l \<le> n" "0 < b"
  shows "fetch_post himg b n pos l out u r"
proof -
  let ?img = "himg (vb_hw u)"
  from post obtain X where X: "snd (fst r) = (out @ A) @ X" "X = take (length X) (drop (unat pos + b) ?img)"
      "length X \<le> l - b" "0 \<le> fst (fst r) \<longrightarrow> fst (fst r) = int (n - (l - b) + length X)"
      "0 \<le> fst (fst r) \<and> unat pos + b + (l - b) \<le> length ?img \<and> (l - b) mod b = 0 \<longrightarrow> length X = l - b"
    and r: "vioblk_ready himg b (snd r)" "himg (vb_hw (snd r)) = ?img"
    unfolding fetch_post_def np img by blast
  have lA: "length A = b" using A in_dev by simp
  have "A @ X = take (b + length X) (drop (unat pos) ?img)"
    using X(2) A take_take_drop [of b "b + length X" "unat pos" ?img] by simp
  then have app: "A @ X = take (length (A @ X)) (drop (unat pos) ?img)"
    by (rule take_length_self)
  have "(l - b) mod b = l mod b" using le by (simp add: le_mod_geq)
  with X(3-5) le lA have
    "length (A @ X) \<le> l" "0 \<le> fst (fst r) \<longrightarrow> fst (fst r) = int (n - l + length (A @ X))"
    "0 \<le> fst (fst r) \<and> unat pos + l \<le> length ?img \<and> l mod b = 0 \<longrightarrow> length (A @ X) = l"
    by auto
  with app X(1) r show ?thesis unfolding fetch_post_def by (metis append.assoc)
qed

lemma vioblk_fetch_loop_post:
  assumes "virtio_blk_hw vio_in vio_out himg" and "vioblk_ready himg blksz vbd"
    and "blksz = SECTOR_SIZE * m" and "0 < m" and "m < 2 ^ 32"
    and "unat pos mod SECTOR_SIZE = 0" and "bytesleft \<le> bytecnt"
  shows "fetch_post himg blksz bytecnt pos bytesleft out vbd
     (vioblk_fetch_loop vio_in bytecnt pos bytesleft out vbd)"
  using assms(2,6,7)
proof (induction bytesleft arbitrary: pos out vbd rule: less_induct)
  case (less bytesleft)
  note hw = assms(1) and rdy = less(2) and m = assms(3-5)
  from rdy have b: "vb_blksz vbd = blksz" "unat (vb_capacity vbd) = length (himg (vb_hw vbd))"
    "unat (vb_capacity vbd) mod 512 = 0" "length (vb_data vbd) = 2 * blksz"
    by (auto simp: vioblk_ready_def)
  have pos: "0 < blksz" using m by simp
  note rq = vioblk_request_aligned [OF less(3) _ m(3) b(3), unfolded b(1), OF m(1)]
  consider (short) "bytesleft < blksz" | (past) "\<not> bytesleft < blksz" "unat (vb_capacity vbd) < unat pos + blksz"
    | (req) "\<not> bytesleft < blksz" "\<not> unat (vb_capacity vbd) < unat pos + blksz" by blast
  then show ?case
  proof cases
    case short
    then have "bytesleft mod blksz = 0 \<Longrightarrow> bytesleft = 0" by simp
    with short rdy b show ?thesis
      by (auto simp: fetch_post_def vioblk_fetch_loop.simps [of vio_in bytecnt pos bytesleft out vbd])
  next
    case past
    with rdy b rq pos show ?thesis
      by (auto simp: fetch_post_def vioblk_fetch_loop.simps [of vio_in bytecnt pos bytesleft out vbd])
  next
    case req
    obtain st got h where v: "vio_in (pos div 512) (512 * m) (vb_hw vbd) = ((st, got), h)"
      by (metis surj_pair)
    let ?img = "himg (vb_hw vbd)"
    let ?v = "vbd\<lparr>vb_data := got @ drop (length got) (vb_data vbd), vb_hw := h\<rparr>"
    from hw v rq(2) have h: "himg h = ?img" "st \<in> {0, 1, 2}" "length got \<le> 512 * m"
      "st = 0 \<and> unat pos + 512 * m \<le> length ?img \<longrightarrow> got = take (512 * m) (drop (unat pos) ?img)"
      unfolding virtio_blk_hw_def by (metis, metis, metis, metis)
    have rdy': "vioblk_ready himg blksz ?v" using rdy h(1,3) m(1) by (auto simp: vioblk_ready_def)
    have run: "vioblk_fetch_loop vio_in bytecnt pos bytesleft out vbd =
        (if st = 2 then ((- ENOTSUP, out), ?v) else if st = 1 then ((- EIO, out), ?v)
         else vioblk_fetch_loop vio_in bytecnt (pos + of_nat blksz) (bytesleft - blksz)
           (out @ take blksz (vb_data ?v)) ?v)"
      using req pos v rq(1) b by (simp add: vioblk_fetch_loop.simps [of vio_in bytecnt pos bytesleft out vbd] Let_def)
    show ?thesis
    proof (cases "st = 0")
      case False
      with h(2) run rdy' h(1) show ?thesis by (auto simp: fetch_post_def intro!: exI [of _ 0])
    next
      case True
      have in_dev: "unat pos + blksz \<le> length ?img" using req b by simp
      have got: "got = take blksz (drop (unat pos) ?img)" using h(4) True in_dev m(1) by simp
      then have data: "take blksz (vb_data ?v) = take blksz (drop (unat pos) ?img)" using in_dev by simp
      have np: "unat (pos + of_nat blksz) = unat pos + blksz"
        using in_dev b(2) unat_lt_64 [of "vb_capacity vbd"] by (intro unat_add_small) simp
      have al: "unat (pos + of_nat blksz) mod 512 = 0" using np m(1) less(3) by simp
      have IH: "fetch_post himg blksz bytecnt (pos + of_nat blksz) (bytesleft - blksz)
          (out @ take blksz (vb_data ?v)) ?v
          (vioblk_fetch_loop vio_in bytecnt (pos + of_nat blksz) (bytesleft - blksz)
            (out @ take blksz (vb_data ?v)) ?v)"
        by (rule less(1)) (use req pos rdy' al less(4) in simp_all)
      have "fetch_post himg blksz bytecnt pos bytesleft out vbd
          (vioblk_fetch_loop vio_in bytecnt (pos + of_nat blksz) (bytesleft - blksz)
            (out @ take blksz (vb_data ?v)) ?v)"
        by (rule fetch_post_extend [OF IH np data _ in_dev _ less(4) pos]) (use h(1) req in simp_all)
      with run True show ?thesis by simp
    qed
  qed
qed


text \<open>The contract of the write loop.\<close>

definition store_post :: "('h \<Rightarrow> bytes) \<Rightarrow> nat \<Rightarrow> u64 \<Rightarrow> bytes \<Rightarrow> 'h vioblk \<Rightarrow> int \<times> 'h vioblk \<Rightarrow> bool" where
  "store_post himg blksz pos inp vbd r \<longleftrightarrow>
     vioblk_ready himg blksz (snd r) \<and>
     length (himg (vb_hw (snd r))) = length (himg (vb_hw vbd)) \<and>
     (\<forall>i<length (himg (vb_hw vbd)). \<not> (unat pos \<le> i \<and> i < unat pos + length inp) \<longrightarrow>
        himg (vb_hw (snd r)) ! i = himg (vb_hw vbd) ! i) \<and>
     (0 \<le> fst r \<and> unat pos + length inp \<le> length (himg (vb_hw vbd)) \<and> length inp mod blksz = 0 \<longrightarrow>
        himg (vb_hw (snd r)) = overwrite (himg (vb_hw vbd)) (unat pos) inp)"

lemma overwrite_split:
  assumes "b \<le> length bs" and "p + length bs \<le> length img"
  shows "overwrite (overwrite img p (take b bs)) (p + b) (drop b bs) = overwrite img p bs"
  using assms by (intro nth_equalityI) (auto simp: nth_overwrite)

lemma overwrite_nil [simp]: "p \<le> length img \<Longrightarrow> overwrite img p [] = img"
  by (simp add: overwrite_def)

lemma store_post_extend:
  assumes post: "store_post himg b pos' (drop b inp) v r"
    and np: "unat pos' = unat pos + b"
    and img: "himg (vb_hw v) = overwrite (himg (vb_hw u)) (unat pos) (take b inp)"
    and in_dev: "unat pos + b \<le> length (himg (vb_hw u))" and le: "b \<le> length inp" "0 < b"
  shows "store_post himg b pos inp u r"
proof -
  let ?img = "himg (vb_hw u)" and ?res = "himg (vb_hw (snd r))"
  from in_dev le have len: "length (overwrite ?img (unat pos) (take b inp)) = length ?img" by simp
  from post have r: "vioblk_ready himg b (snd r)" "length ?res = length ?img"
    and fr: "\<forall>i<length ?img. \<not> (unat pos + b \<le> i \<and> i < unat pos + length inp) \<longrightarrow>
        ?res ! i = overwrite ?img (unat pos) (take b inp) ! i"
    and all: "0 \<le> fst r \<and> unat pos + length inp \<le> length ?img \<and> (length inp - b) mod b = 0 \<longrightarrow>
        ?res = overwrite (overwrite ?img (unat pos) (take b inp)) (unat pos + b) (drop b inp)"
    using le unfolding store_post_def np img len by auto
  have "\<forall>i<length ?img. \<not> (unat pos \<le> i \<and> i < unat pos + length inp) \<longrightarrow> ?res ! i = ?img ! i"
    using fr in_dev le by (auto simp: nth_overwrite)
  moreover have "(length inp - b) mod b = length inp mod b" using le by (simp add: le_mod_geq)
  ultimately show ?thesis using r all le(1) by (auto simp: store_post_def overwrite_split)
qed

lemma vioblk_store_loop_post:
  assumes "virtio_blk_hw vio_in vio_out himg" and "vioblk_ready himg blksz vbd"
    and "blksz = SECTOR_SIZE * m" and "0 < m" and "m < 2 ^ 32"
    and "unat pos mod SECTOR_SIZE = 0"
  shows "store_post himg blksz pos inp vbd (vioblk_store_loop vio_out bytecnt pos inp vbd)"
  using assms(2,6)
proof (induction "length inp" arbitrary: pos inp vbd rule: less_induct)
  case less
  note hw = assms(1) and rdy = less(2) and m = assms(3-5)
  from rdy have b: "vb_blksz vbd = blksz" "unat (vb_capacity vbd) = length (himg (vb_hw vbd))"
    "unat (vb_capacity vbd) mod 512 = 0" "length (vb_data vbd) = 2 * blksz"
    by (auto simp: vioblk_ready_def)
  have pos: "0 < blksz" using m by simp
  note rq = vioblk_request_aligned [OF less(3) _ m(3) b(3), unfolded b(1), OF m(1)]
  consider (short) "length inp < blksz"
    | (past) "\<not> length inp < blksz" "unat (vb_capacity vbd) < unat pos + blksz"
    | (req) "\<not> length inp < blksz" "\<not> unat (vb_capacity vbd) < unat pos + blksz" by blast
  then show ?case
  proof cases
    case short
    then have "length inp mod blksz = 0 \<Longrightarrow> inp = []" by simp
    with short rdy b show ?thesis
      by (auto simp: store_post_def vioblk_store_loop.simps [of vio_out bytecnt pos inp vbd])
  next
    case past
    with rdy b rq pos show ?thesis
      by (auto simp: store_post_def vioblk_store_loop.simps [of vio_out bytecnt pos inp vbd])
  next
    case req
    let ?img = "himg (vb_hw vbd)" and ?chunk = "take blksz inp"
    let ?dat = "overwrite (vb_data vbd) 0 ?chunk"
    obtain st h where v: "vio_out (pos div 512) ?chunk (vb_hw vbd) = (st, h)" by (metis surj_pair)
    let ?v = "vbd\<lparr>vb_data := ?dat, vb_hw := h\<rparr>"
    have chunk: "take (512 * m) ?dat = ?chunk" "length ?chunk = blksz"
      using req b m(1) by (auto simp: overwrite_def)
    have in_dev: "unat pos + blksz \<le> length ?img" using req b by simp
    from hw v rq(2) chunk(2) in_dev have h: "length (himg h) = length ?img" "st \<in> {0, 1, 2}"
      "\<forall>i<length ?img. \<not> (unat pos \<le> i \<and> i < unat pos + blksz) \<longrightarrow> himg h ! i = ?img ! i"
      "st = 0 \<longrightarrow> himg h = overwrite ?img (unat pos) ?chunk"
      unfolding virtio_blk_hw_def by (metis, metis, metis, metis)
    have rdy': "vioblk_ready himg blksz ?v" using rdy h(1) b by (auto simp: vioblk_ready_def)
    have run: "vioblk_store_loop vio_out bytecnt pos inp vbd =
        (if st = 2 then (- ENOTSUP, ?v) else if st = 1 then (- EIO, ?v)
         else vioblk_store_loop vio_out bytecnt (pos + of_nat blksz) (drop blksz inp) ?v)"
      using req pos v rq(1) b chunk(1)
      by (simp add: vioblk_store_loop.simps [of vio_out bytecnt pos inp vbd] Let_def)
    show ?thesis
    proof (cases "st = 0")
      case False
      with h req run rdy' show ?thesis by (auto simp: store_post_def)
    next
      case True
      have np: "unat (pos + of_nat blksz) = unat pos + blksz"
        using in_dev b(2) unat_lt_64 [of "vb_capacity vbd"] by (intro unat_add_small) simp
      have al: "unat (pos + of_nat blksz) mod 512 = 0" using np m(1) less(3) by simp
      have IH: "store_post himg blksz (pos + of_nat blksz) (drop blksz inp) ?v
          (vioblk_store_loop vio_out bytecnt (pos + of_nat blksz) (drop blksz inp) ?v)"
        by (rule less(1)) (use req pos rdy' al in simp_all)
      have "store_post himg blksz pos inp vbd
          (vioblk_store_loop vio_out bytecnt (pos + of_nat blksz) (drop blksz inp) ?v)"
        by (rule store_post_extend [OF IH np _ in_dev _ pos]) (use h(4) True req in simp_all)
      with run True show ?thesis by simp
    qed
  qed
qed

lemma fetch_post_disk:
  assumes "fetch_post himg blksz n p n [] d ((rc, bs), d')"
  shows "vioblk_ready himg blksz d'" "himg (vb_hw d') = himg (vb_hw d)" "length bs \<le> n"
    "0 \<le> rc \<Longrightarrow> rc = int (length bs) \<and> bs = take (length bs) (drop (unat p) (himg (vb_hw d))) \<and>
       (unat p + n \<le> length (himg (vb_hw d)) \<and> n mod blksz = 0 \<longrightarrow> length bs = n)"
  using assms by (auto simp: fetch_post_def)

text \<open>Hence the driver is a block device for the layers above.\<close>

lemma vioblk_block_disk:
  assumes hw: "virtio_blk_hw vio_in vio_out himg"
    and bs: "blksz = SECTOR_SIZE * m" "0 < m" "m < 2 ^ 32"
  shows "block_disk (vioblk_intf vio_in vio_out blksz) (himg \<circ> vb_hw) (vioblk_ready himg blksz)"
proof -
  have fetch: "fetch_post himg blksz n p n [] d ((rc, out), d') \<or> (rc = - EINVAL \<and> out = [] \<and> d' = d)"
    if "vioblk_ready himg blksz d" "storage_fetch (Some (vioblk_intf vio_in vio_out blksz)) p False n d = ((rc, out), d')"
    for d p n rc out d'
    using that vioblk_fetch_loop_post [OF hw that(1) bs, of p n n "[]"] bs(1)
    by (auto simp: storage_fetch_def vioblk_intf_def vioblk_storage_fetch_def mod_mult_self1_is_0
        dest: mod_mod_cancel [of 512 blksz, THEN sym] split: if_splits)
  have store: "store_post himg blksz p inp d (rc, d') \<or> (rc = - EINVAL \<and> d' = d)"
    if "vioblk_ready himg blksz d"
      "storage_store (Some (vioblk_intf vio_in vio_out blksz)) p (Some inp) d = (rc, d')"
    for d p inp rc d'
    using that vioblk_store_loop_post [OF hw that(1) bs, of p inp "length inp"] bs(1)
    by (auto simp: storage_store_def vioblk_intf_def vioblk_storage_store_def split: if_splits)
  show ?thesis
  proof (unfold_locales, goal_cases)
    case (1 d p n rc out d')
    with fetch [of d p n rc out d'] fetch_post_disk [of himg blksz n p d rc out d'] show ?case by auto
  next
    case (2 d p n rc out d')
    with fetch [of d p n rc out d'] fetch_post_disk [of himg blksz n p d rc out d'] show ?case
      by (auto simp: vioblk_intf_def)
  next
    case (3 d p inp rc d')
    with store [of d p inp rc d'] show ?case by (auto simp: store_post_def)
  next
    case (4 d p inp rc d')
    with store [of d p inp rc d'] show ?case by (auto simp: store_post_def vioblk_intf_def)
  qed
qed


section \<open>The byte stream over a device\<close>

text \<open>The position and the one-block buffer of \<open>struct storage_uio\<close>, with the device.\<close>

record 'd storage_uio =
  su_dev :: 'd
  su_pos :: u64
  su_buffer :: bytes

definition ROUND_DOWN :: "nat \<Rightarrow> nat \<Rightarrow> nat" where
  "ROUND_DOWN n k = n div k * k"

definition storage_open_uio :: "'d storage_intf \<Rightarrow> 'd \<Rightarrow> int \<times> 'd storage_uio option" where
  "storage_open_uio intf d =
     (case storage_open (Some intf) d of
        (result, d1) \<Rightarrow>
          if result \<noteq> 0 then (result, None)
          else (0, Some \<lparr>su_dev = d1, su_pos = 0, su_buffer = replicate (st_blksz intf) 0\<rparr>))"

definition storage_uio_close :: "'d storage_intf \<Rightarrow> 'd storage_uio \<Rightarrow> 'd" where
  "storage_uio_close intf u = storage_close (Some intf) (su_dev u)"

definition unaligned_fetch ::
    "'d storage_intf \<Rightarrow> nat \<Rightarrow> 'd storage_uio \<Rightarrow> (int \<times> bytes) \<times> 'd storage_uio" where
  "unaligned_fetch intf bufsz u =
     (let blksz = st_blksz intf; off = unat (su_pos u) mod blksz
      in case storage_fetch (Some intf) (of_nat (ROUND_DOWN (unat (su_pos u)) blksz)) False blksz (su_dev u) of
           ((rc, got), d) \<Rightarrow>
             let u1 = u\<lparr>su_dev := d, su_buffer := got @ drop (length got) (su_buffer u)\<rparr>;
                 n = min (blksz - off) bufsz
             in if rc < 0 then ((rc, []), u1)
                else ((int n, take n (drop off (su_buffer u1))), u1))"

text \<open>The part of \<open>storage_uio_read\<close> after the unaligned start: \<open>r0\<close> bytes, \<open>out0\<close>, are read so
  far and \<open>left\<close> are still asked for.  The result lists the bytes that the count covers.\<close>

definition storage_uio_read_rest ::
    "'d storage_intf \<Rightarrow> int \<Rightarrow> bytes \<Rightarrow> nat \<Rightarrow> 'd storage_uio \<Rightarrow> (int \<times> bytes) \<times> 'd storage_uio" where
  "storage_uio_read_rest intf r0 out0 left u =
     (if left = 0 then ((r0, out0), u)
      else case storage_fetch (Some intf) (su_pos u) False (ROUND_DOWN left (st_blksz intf)) (su_dev u) of
        ((r1, out1), d1) \<Rightarrow>
          let u1 = u\<lparr>su_dev := d1\<rparr>
          in if r1 < 0 then ((if r0 > 0 then r0 else r1, out0), u1)
             else
               let u2 = u1\<lparr>su_pos := su_pos u1 + of_nat (nat r1)\<rparr>
               in if nat r1 < ROUND_DOWN left (st_blksz intf) then ((r0 + r1, out0 @ out1), u2)
                  else
                    let left1 = left - nat r1
                    in if left1 mod st_blksz intf \<noteq> 0
                       then (case unaligned_fetch intf left1 u2 of
                               ((r2, out2), u3) \<Rightarrow>
                                 if r2 < 0 then ((r0 + r1, out0 @ out1), u3)
                                 else ((r0 + r1 + r2, out0 @ out1 @ out2),
                                       u3\<lparr>su_pos := su_pos u3 + of_nat (nat r2)\<rparr>))
                       else ((r0 + r1, out0 @ out1), u2))"

definition storage_uio_read ::
    "'d storage_intf \<Rightarrow> nat \<Rightarrow> 'd storage_uio \<Rightarrow> (int \<times> bytes) \<times> 'd storage_uio" where
  "storage_uio_read intf bufsz u =
     (if unat (su_pos u) mod st_blksz intf \<noteq> 0
      then (case unaligned_fetch intf bufsz u of
              ((r, out), u1) \<Rightarrow>
                if r \<le> 0 then ((r, out), u1)
                else storage_uio_read_rest intf r out (bufsz - nat r)
                       (u1\<lparr>su_pos := su_pos u1 + of_nat (nat r)\<rparr>))
      else storage_uio_read_rest intf 0 [] bufsz u)"

definition unaligned_store ::
    "'d storage_intf \<Rightarrow> bytes \<Rightarrow> 'd storage_uio \<Rightarrow> int \<times> 'd storage_uio" where
  "unaligned_store intf buf u =
     (let blksz = st_blksz intf; off = unat (su_pos u) mod blksz;
          p = of_nat (ROUND_DOWN (unat (su_pos u)) blksz)
      in case storage_fetch (Some intf) p False blksz (su_dev u) of
           ((rc, got), d) \<Rightarrow>
             let u1 = u\<lparr>su_dev := d, su_buffer := got @ drop (length got) (su_buffer u)\<rparr>
             in if rc < 0 then (rc, u1)
                else
                  let n = min (blksz - off) (length buf);
                      u2 = u1\<lparr>su_buffer := overwrite (su_buffer u1) off (take n buf)\<rparr>
                  in case storage_store (Some intf) p (Some (take blksz (su_buffer u2))) (su_dev u2) of
                       (rc1, d1) \<Rightarrow>
                         (if rc1 < 0 then rc1 else int n, u2\<lparr>su_dev := d1\<rparr>))"

definition storage_uio_write_rest ::
    "'d storage_intf \<Rightarrow> int \<Rightarrow> bytes \<Rightarrow> 'd storage_uio \<Rightarrow> int \<times> 'd storage_uio" where
  "storage_uio_write_rest intf r0 left u =
     (if left = [] then (r0, u)
      else
        let mid = ROUND_DOWN (length left) (st_blksz intf)
        in case storage_store (Some intf) (su_pos u) (Some (take mid left)) (su_dev u) of
             (r1, d1) \<Rightarrow>
               let u1 = u\<lparr>su_dev := d1\<rparr>
               in if r1 < 0 then (if r0 > 0 then r0 else r1, u1)
                  else
                    let u2 = u1\<lparr>su_pos := su_pos u1 + of_nat (nat r1)\<rparr>
                    in if nat r1 < mid then (r0 + r1, u2)
                       else
                         let left1 = drop (nat r1) left
                         in if length left1 mod st_blksz intf \<noteq> 0
                            then (case unaligned_store intf left1 u2 of
                                    (r2, u3) \<Rightarrow>
                                      if r2 < 0 then (r0 + r1, u3)
                                      else (r0 + r1 + r2, u3\<lparr>su_pos := su_pos u3 + of_nat (nat r2)\<rparr>))
                            else (r0 + r1, u2))"

definition storage_uio_write ::
    "'d storage_intf \<Rightarrow> bytes \<Rightarrow> 'd storage_uio \<Rightarrow> int \<times> 'd storage_uio" where
  "storage_uio_write intf buf u =
     (if unat (su_pos u) mod st_blksz intf \<noteq> 0
      then (case unaligned_store intf buf u of
              (r, u1) \<Rightarrow>
                if r < 0 then (r, u1)
                else storage_uio_write_rest intf r (drop (nat r) buf)
                       (u1\<lparr>su_pos := su_pos u1 + of_nat (nat r)\<rparr>))
      else storage_uio_write_rest intf 0 buf u)"

text \<open>The argument cell of a position command: \<open>None\<close> is a NULL pointer.\<close>

definition storage_uio_cntl ::
    "'d storage_intf \<Rightarrow> u64 \<Rightarrow> int \<Rightarrow> u64 option \<Rightarrow> 'd storage_uio \<Rightarrow> (int \<times> u64 option) \<times> 'd storage_uio" where
  "storage_uio_cntl intf capacity opn arg u =
     (if opn = FCNTL_SETPOS then
        (case arg of
           None \<Rightarrow> ((- EINVAL, None), u)
         | Some p \<Rightarrow> if p > capacity then ((- EINVAL, arg), u) else ((0, arg), u\<lparr>su_pos := p\<rparr>))
      else if opn = FCNTL_GETPOS then
        (case arg of None \<Rightarrow> ((- EINVAL, None), u) | Some _ \<Rightarrow> ((0, Some (su_pos u)), u))
      else (storage_cntl (Some intf) opn (arg = None) (su_dev u), u))"


lemma stream_compose:
  assumes "a = take (length a) (drop p xs)" and "b = take (length b) (drop (p + length a) xs)"
  shows "a @ b = take (length (a @ b)) (drop p xs)"
  using assms by (metis drop_drop add.commute length_append take_add)

text \<open>A result that gives a prefix of at most \<open>n\<close> bytes of the device at the position.\<close>

definition reads ::
    "('d \<Rightarrow> bytes) \<Rightarrow> ('d \<Rightarrow> bool) \<Rightarrow> 'd storage_uio \<Rightarrow> nat \<Rightarrow> int \<Rightarrow> bytes \<Rightarrow> 'd storage_uio \<Rightarrow> bool" where
  "reads img ready u n r out u' \<longleftrightarrow>
     r = int (length out) \<and> length out \<le> n \<and> out = take (length out) (drop (unat (su_pos u)) (img (su_dev u))) \<and>
     unat (su_pos u') = unat (su_pos u) + length out \<and> img (su_dev u') = img (su_dev u) \<and> ready (su_dev u')"

lemma reads_trans:
  assumes "reads img ready u n r out v" and "reads img ready v k r2 out2 w" and "nat r + k \<le> m"
  shows "reads img ready u m (r + r2) (out @ out2) w"
proof -
  from assms(1,2) have "out @ out2 = take (length (out @ out2)) (drop (unat (su_pos u)) (img (su_dev u)))"
    by (intro stream_compose) (simp_all add: reads_def)
  moreover have "r + r2 = int (length (out @ out2))" "length (out @ out2) \<le> m"
    "unat (su_pos w) = unat (su_pos u) + length (out @ out2)"
    "img (su_dev w) = img (su_dev u)" "ready (su_dev w)"
    using assms by (auto simp: reads_def)
  ultimately show ?thesis unfolding reads_def by blast
qed

lemma reads_pos:
  assumes "r = int (length out)" and "length out \<le> n" and "unat (su_pos u) + n < 2 ^ 64"
    and "out = take (length out) (drop (unat (su_pos u)) (img (su_dev u)))"
    and "img (su_dev v) = img (su_dev u)" and "ready (su_dev v)" and "su_pos v = su_pos u"
  shows "reads img ready u n r out (v\<lparr>su_pos := su_pos v + of_nat (nat r)\<rparr>)"
  using assms unat_add_small [of "su_pos u" "length out"] by (simp add: reads_def)

context block_disk
begin

lemma unaligned_fetch_frame:
  assumes "ready (su_dev u)" and "unaligned_fetch intf n u = ((r, out), u')"
  shows "ready (su_dev u') \<and> img (su_dev u') = img (su_dev u) \<and> su_pos u' = su_pos u"
proof -
  let ?p = "of_nat (ROUND_DOWN (unat (su_pos u)) (st_blksz intf)) :: u64"
  obtain rc got d where f: "storage_fetch (Some intf) ?p False (st_blksz intf) (su_dev u) = ((rc, got), d)"
    by (metis surj_pair)
  from assms(2) f have "su_dev u' = d" "su_pos u' = su_pos u"
    by (auto simp: unaligned_fetch_def Let_def split: if_splits)
  with fetch_frame [OF assms(1) f] show ?thesis by simp
qed

lemma unaligned_fetch_data:
  assumes rdy: "ready (su_dev u)" and bs: "0 < st_blksz intf" and al: "length (img (su_dev u)) mod st_blksz intf = 0"
    and inside: "unat (su_pos u) < length (img (su_dev u))"
    and uf: "unaligned_fetch intf n u = ((r, out), u')" and r: "0 \<le> r"
  shows "length out = min (st_blksz intf - unat (su_pos u) mod st_blksz intf) n \<and> r = int (length out) \<and>
     out = take (length out) (drop (unat (su_pos u)) (img (su_dev u)))"
proof -
  let ?b = "st_blksz intf" and ?img = "img (su_dev u)" and ?pos = "unat (su_pos u)"
  let ?rd = "ROUND_DOWN ?pos ?b" and ?off = "?pos mod ?b"
  have rd: "?rd + ?off = ?pos" by (simp add: ROUND_DOWN_def)
  have p: "unat (of_nat ?rd :: u64) = ?rd"
    using rd unat_lt_64 [of "su_pos u"] by (intro unat_word_of_nat_small) simp
  obtain rc got d where f: "storage_fetch (Some intf) (of_nat ?rd) False ?b (su_dev u) = ((rc, got), d)"
    by (metis surj_pair)
  from uf f have rc: "0 \<le> rc" and o: "r = int (min (?b - ?off) n)"
      "out = take (min (?b - ?off) n) (drop ?off (got @ drop (length got) (su_buffer u)))"
    using r by (auto simp: unaligned_fetch_def Let_def split: if_splits)
  obtain q where q: "length ?img = ?b * q" using al by (auto simp: mod_eq_0_iff_dvd elim: dvdE)
  have "?pos div ?b < q" using inside q bs by (simp add: less_mult_imp_div_less mult.commute)
  then have "?pos div ?b * ?b + ?b \<le> ?b * q"
    by (metis Suc_leI add.commute mult.commute mult_Suc mult_le_mono2)
  then have "?rd + ?b \<le> length ?img" by (simp add: ROUND_DOWN_def q)
  with fetch_data [OF rdy f rc] p have g: "length got = ?b" "got = take ?b (drop ?rd ?img)" by auto
  have lt: "?off < ?b" using bs by simp
  have len: "length out = min (?b - ?off) n" using o(2) g(1) lt by auto
  have "drop ?off got = take (?b - ?off) (drop ?pos ?img)"
    using g(2) rd by (metis drop_drop drop_take add.commute)
  moreover have "out = take (min (?b - ?off) n) (drop ?off got)" using o(2) g(1) lt by simp
  ultimately have "out = take (min (?b - ?off) n) (drop ?pos ?img)" by (simp add: min.absorb2 min.commute)
  with len o(1) show ?thesis by simp
qed

lemma unaligned_fetch_reads:
  assumes rdy: "ready (su_dev u)" and bs: "0 < st_blksz intf" and al: "length (img (su_dev u)) mod st_blksz intf = 0"
    and inside: "unat (su_pos u) < length (img (su_dev u))" "unat (su_pos u) + n < 2 ^ 64"
    and uf: "unaligned_fetch intf n u = ((r, out), u1)" and r: "0 \<le> r"
  shows "reads img ready u n r out (u1\<lparr>su_pos := su_pos u1 + of_nat (nat r)\<rparr>)"
proof (rule reads_pos)
  note d = unaligned_fetch_data [OF rdy bs al inside(1) uf r]
  note f = unaligned_fetch_frame [OF rdy uf]
  show "r = int (length out)" "length out \<le> n"
    "out = take (length out) (drop (unat (su_pos u)) (img (su_dev u)))"
    using d by (blast, simp, blast)
  show "img (su_dev u1) = img (su_dev u)" "ready (su_dev u1)" "su_pos u1 = su_pos u" using f by simp_all
qed (rule inside(2))

lemma storage_uio_read_rest_reads:
  assumes rdy: "ready (su_dev u)" and bs: "0 < st_blksz intf" and al: "length (img (su_dev u)) mod st_blksz intf = 0"
    and inside: "unat (su_pos u) + left \<le> length (img (su_dev u))" "unat (su_pos u) + left < 2 ^ 64"
    and rd: "storage_uio_read_rest intf r0 out0 left u = ((r, out), u')" and r: "0 \<le> r" "0 \<le> r0"
  shows "\<exists>X k. out = out0 @ X \<and> r = r0 + k \<and> reads img ready u left k X u'"
proof (cases "left = 0")
  case True
  with rd rdy show ?thesis by (simp add: storage_uio_read_rest_def reads_def)
next
  case False
  let ?b = "st_blksz intf"
  let ?mid = "ROUND_DOWN left ?b"
  obtain r1 o1 d1 where f: "storage_fetch (Some intf) (su_pos u) False ?mid (su_dev u) = ((r1, o1), d1)"
    by (metis surj_pair)
  note fr = fetch_frame [OF rdy f]
  let ?u1 = "u\<lparr>su_dev := d1\<rparr>"
  let ?u2 = "?u1\<lparr>su_pos := su_pos ?u1 + of_nat (nat r1)\<rparr>"
  show ?thesis
  proof (cases "r1 < 0")
    case True
    with rd f False r have "r = r0" "out = out0" "u' = ?u1"
      by (auto simp: storage_uio_read_rest_def Let_def split: if_splits)
    with fr show ?thesis by (simp add: reads_def)
  next
    case nn: False
    then have "0 \<le> r1" by simp
    from fetch_data [OF rdy f this] have d: "r1 = int (length o1)"
      "o1 = take (length o1) (drop (unat (su_pos u)) (img (su_dev u)))"
      "unat (su_pos u) + ?mid \<le> length (img (su_dev u)) \<and> ?mid mod ?b = 0 \<longrightarrow> length o1 = ?mid" by auto
    have mid: "?mid \<le> left" "?mid mod ?b = 0" by (simp_all add: ROUND_DOWN_def)
    with d inside have l1: "length o1 = ?mid" by simp
    have first: "reads img ready u ?mid r1 o1 ?u2"
    proof (rule reads_pos)
      show "o1 = take (length o1) (drop (unat (su_pos u)) (img (su_dev u)))" by (rule d(2))
    qed (use d(1) l1 mid inside fr in simp_all)
    then have p2: "unat (su_pos ?u2) = unat (su_pos u) + ?mid" using l1 unfolding reads_def by metis
    show ?thesis
    proof (cases "(left - ?mid) mod ?b = 0")
      case True
      with rd f False nn d(1) l1 have "r = r0 + r1" "out = out0 @ o1" "u' = ?u2"
        by (auto simp: storage_uio_read_rest_def Let_def)
      with first mid(1) show ?thesis by (auto simp: reads_def)
    next
      case ne: False
      obtain r2 o2 u3 where uf: "unaligned_fetch intf (left - ?mid) ?u2 = ((r2, o2), u3)" by (metis surj_pair)
      have res: "((r, out), u') = (if r2 < 0 then ((r0 + r1, out0 @ o1), u3)
          else ((r0 + r1 + r2, out0 @ o1 @ o2), u3\<lparr>su_pos := su_pos u3 + of_nat (nat r2)\<rparr>))"
        using rd f False nn d(1) l1 ne uf
        by (cases "r2 < 0") (simp_all add: storage_uio_read_rest_def Let_def)
      have lt: "?mid < left" using ne mid(1) by (cases "?mid = left") auto
      show ?thesis
      proof (cases "r2 < 0")
        case True
        have "reads img ready u left r1 o1 u3"
          using first mid(1) unaligned_fetch_frame [OF _ uf] by (auto simp: reads_def)
        with res True show ?thesis by auto
      next
        case False
        then have "0 \<le> r2" by simp
        then have "reads img ready ?u2 (left - ?mid) r2 o2 (u3\<lparr>su_pos := su_pos u3 + of_nat (nat r2)\<rparr>)"
          by (intro unaligned_fetch_reads [OF _ bs _ _ _ uf]) (use first al inside p2 lt in \<open>auto simp: reads_def\<close>)
        from reads_trans [OF first this, of left] d(1) l1 mid(1) res False show ?thesis by auto
      qed
    qed
  qed
qed

lemma storage_uio_read_reads:
  assumes rdy: "ready (su_dev u)" and bs: "0 < st_blksz intf" and al: "length (img (su_dev u)) mod st_blksz intf = 0"
    and inside: "unat (su_pos u) + n \<le> length (img (su_dev u))" "unat (su_pos u) + n < 2 ^ 64"
    and rd: "storage_uio_read intf n u = ((r, out), u')" and r: "0 \<le> r"
  shows "reads img ready u n r out u'"
proof (cases "unat (su_pos u) mod st_blksz intf = 0")
  case True
  with rd storage_uio_read_rest_reads [OF rdy bs al inside, of 0 "[]" r out u'] r
  show ?thesis by (auto simp: storage_uio_read_def)
next
  case False
  obtain r0 o0 u1 where uf: "unaligned_fetch intf n u = ((r0, o0), u1)" by (metis surj_pair)
  let ?u1 = "u1\<lparr>su_pos := su_pos u1 + of_nat (nat r0)\<rparr>"
  have res: "((r, out), u') = (if r0 \<le> 0 then ((r0, o0), u1) else storage_uio_read_rest intf r0 o0 (n - nat r0) ?u1)"
    using rd False uf by (simp add: storage_uio_read_def)
  have r0: "0 \<le> r0" using res r by (auto split: if_splits)
  have lt: "unat (su_pos u) < length (img (su_dev u))"
    using inside(1) False al by (metis add_leD1 le_neq_implies_less)
  note first = unaligned_fetch_reads [OF rdy bs al lt inside(2) uf r0]
  show ?thesis
  proof (cases "r0 = 0")
    case True
    then have "?u1 = u1" by simp
    with res first True show ?thesis by simp
  next
    case ne: False
    have l0: "nat r0 = length o0" "length o0 \<le> n" using first by (simp_all add: reads_def)
    have "\<exists>X k. out = o0 @ X \<and> r = r0 + k \<and> reads img ready ?u1 (n - nat r0) k X u'"
      by (rule storage_uio_read_rest_reads [OF _ bs])
        (use res ne r0 r first al inside l0 in \<open>auto simp: reads_def\<close>)
    then obtain X k where X: "out = o0 @ X" "r = r0 + k" "reads img ready ?u1 (n - nat r0) k X u'" by blast
    from reads_trans [OF first X(3), of n] l0 show ?thesis unfolding X(1,2) by simp
  qed
qed

end

text \<open>C9: Reading \<open>n\<close> bytes through the byte-stream object of a block device, at any position and
  of any size inside the device, returns a negative code or the bytes of the device at the
  position, in order, as many as the returned count, and moves the position by that count;
  the blocks it reads to align the range do not show.\<close>

theorem storage_uio_read_exact:
  assumes "block_disk intf img ready" and "ready (su_dev u)" and "0 < st_blksz intf"
    and "length (img (su_dev u)) mod st_blksz intf = 0"
    and "unat (su_pos u) + n \<le> length (img (su_dev u))" and "unat (su_pos u) + n < 2 ^ 64"
    and "storage_uio_read intf n u = ((r, out), u')" and "0 \<le> r"
  shows "r = int (length out) \<and> length out \<le> n \<and> out = take (length out) (drop (unat (su_pos u)) (img (su_dev u))) \<and>
     unat (su_pos u') = unat (su_pos u) + length out \<and> img (su_dev u') = img (su_dev u) \<and> ready (su_dev u')"
  using block_disk.storage_uio_read_reads [OF assms] by (simp add: reads_def)


theorem storage_uio_read_exact_witness:
  "fst (storage_uio_read ramdisk_intf 2
     \<lparr>su_dev = \<lparr>rd_opened = True, rd_buf = [10, 20, 30]\<rparr>, su_pos = 1, su_buffer = [0]\<rparr>) = (2, [20, 30])"
proof -
  let ?u = "\<lparr>su_dev = \<lparr>rd_opened = True, rd_buf = [10, 20, 30]\<rparr>, su_pos = 1, su_buffer = [0 :: u8]\<rparr>"
  obtain r out u' where run: "storage_uio_read ramdisk_intf 2 ?u = ((r, out), u')" by (metis surj_pair)
  have "fst (fst (storage_uio_read ramdisk_intf 2 ?u)) = 2" by code_simp
  with run have r: "r = 2" by simp
  have "r = int (length out) \<and> length out \<le> 2 \<and>
      out = take (length out) (drop (unat (su_pos ?u)) (rd_buf (su_dev ?u))) \<and>
      unat (su_pos u') = unat (su_pos ?u) + length out \<and> rd_buf (su_dev u') = rd_buf (su_dev ?u) \<and>
      rd_opened (su_dev u')"
    by (rule storage_uio_read_exact [OF ramdisk.block_disk_axioms _ _ _ _ _ run])
      (simp_all add: ramdisk_intf_def r)
  then have len: "r = int (length out)"
    and eq: "out = take (length out) (drop (unat (su_pos ?u)) (rd_buf (su_dev ?u)))" by blast+
  from len r have "length out = 2" by simp
  with eq have "out = take 2 (drop (unat (su_pos ?u)) (rd_buf (su_dev ?u)))" by metis
  with r run show ?thesis by simp
qed

text \<open>Hardware that serves requests from an image, the concrete input of the witness.\<close>

definition image_in :: "u64 \<Rightarrow> nat \<Rightarrow> bytes \<Rightarrow> (u8 \<times> bytes) \<times> bytes" where
  "image_in sec n h = ((0, take n (drop (unat sec * SECTOR_SIZE) h)), h)"

definition image_out :: "u64 \<Rightarrow> bytes \<Rightarrow> bytes \<Rightarrow> u8 \<times> bytes" where
  "image_out sec bs h =
     (if unat sec * SECTOR_SIZE + length bs \<le> length h
      then (0, overwrite h (unat sec * SECTOR_SIZE) bs) else (1, h))"

lemma image_virtio_blk_hw: "virtio_blk_hw image_in image_out id"
  by (auto simp: virtio_blk_hw_def image_in_def image_out_def nth_overwrite split: if_splits)

text \<open>C10: Over hardware that serves VirtIO block requests as specified, the block driver with a
  block size that is a multiple of the sector size is a block device: a fetch returns a prefix
  of the bytes at the position and all of them for whole blocks inside the device, a store
  writes exactly its range, and a request that the hardware fails changes nothing outside it.\<close>

theorem vioblk_is_block_device:
  assumes "virtio_blk_hw vio_in vio_out himg"
    and "blksz = SECTOR_SIZE * m" and "0 < m" and "m < 2 ^ 32"
  shows "block_disk (vioblk_intf vio_in vio_out blksz) (himg \<circ> vb_hw) (vioblk_ready himg blksz)"
  using assms by (rule vioblk_block_disk)

theorem vioblk_is_block_device_witness:
  "block_disk (vioblk_intf image_in image_out 512) (id \<circ> vb_hw) (vioblk_ready id 512)"
  by (rule vioblk_is_block_device [OF image_virtio_blk_hw, of 512 1]) simp_all

text \<open>A read of less than one block through the byte stream of the block driver fails with
  -EINVAL when the position is on a block boundary: the stream asks the driver for the whole
  blocks in the range, none, and the driver rejects a request for nothing.\<close>

theorem vioblk_short_read_fails:
  assumes "0 < n" and "n < blksz" and "unat (su_pos u) mod blksz = 0"
  shows "storage_uio_read (vioblk_intf vio_in vio_out blksz) n u = ((- EINVAL, []), u)"
proof -
  have "ROUND_DOWN n blksz = 0" using assms by (simp add: ROUND_DOWN_def)
  with assms show ?thesis
    by (simp add: storage_uio_read_def storage_uio_read_rest_def storage_fetch_def vioblk_intf_def
        vioblk_storage_fetch_def)
qed

theorem vioblk_short_read_fails_witness:
  "fst (storage_uio_read (vioblk_intf image_in image_out 512) 16
     \<lparr>su_dev = \<lparr>vb_opened = True, vb_blksz = 512, vb_capacity = 1024, vb_data = [], vb_hw = []\<rparr>,
      su_pos = 512, su_buffer = []\<rparr>) = (- EINVAL, [])"
  by (subst vioblk_short_read_fails) simp_all

end
