(* ===== verification/BlockCache.thy ===== *)
theory BlockCache
  imports Storage
begin

text \<open>
  The write-back block cache, \<open>modified/sys/cache.c\<close>.  The block list runs from the head, the
  least recently used block, to the tail; a block is named by its identity, which stands for
  the address that \<open>cache_get_block\<close> hands out.  \<open>kcalloc\<close> never returns NULL (it halts the
  machine when memory runs out), so the branches that test it are not reachable.  The cache
  lock is released on every path.
\<close>

section \<open>State\<close>

abbreviation (input) CACHE_BLKSZ :: nat where "CACHE_BLKSZ \<equiv> 512"
abbreviation (input) CACHE_BLKS :: nat where "CACHE_BLKS \<equiv> 64"

record block =
  b_id :: nat
  b_dirty :: bool
  b_pos :: u64
  b_buf :: bytes
  b_pins :: nat

record 'd cache =
  c_disk :: 'd
  c_numBlocks :: nat
  c_blocks :: "block list"
  c_next :: nat

definition create_cache :: "'d \<Rightarrow> 'd cache" where
  "create_cache disk = \<lparr>c_disk = disk, c_numBlocks = 0, c_blocks = [], c_next = 0\<rparr>"

text \<open>A block as \<open>kcalloc\<close> gives it.\<close>

definition new_block :: "'d cache \<Rightarrow> block" where
  "new_block c =
     \<lparr>b_id = c_next c, b_dirty = False, b_pos = 0, b_buf = replicate CACHE_BLKSZ 0, b_pins = 0\<rparr>"

section \<open>Operations\<close>

definition cache_fetch_into ::
    "'d storage_intf \<Rightarrow> block \<Rightarrow> u64 \<Rightarrow> 'd \<Rightarrow> (int \<times> block) \<times> 'd" where
  "cache_fetch_into sto blk pos d =
     (case storage_fetch (Some sto) pos False CACHE_BLKSZ d of
        ((rc, got), d1) \<Rightarrow>
          ((if rc < 0 then rc else 0,
            blk\<lparr>b_pos := pos, b_dirty := False, b_pins := 0,
                b_buf := got @ drop (length got) (b_buf blk)\<rparr>), d1))"

text \<open>The first block with a property: the blocks before it, the block, the blocks after it.\<close>

fun split_first :: "('a \<Rightarrow> bool) \<Rightarrow> 'a list \<Rightarrow> ('a list \<times> 'a \<times> 'a list) option" where
  "split_first P [] = None"
| "split_first P (x # xs) =
     (if P x then Some ([], x, xs)
      else map_option (\<lambda>(as, y, bs). (x # as, y, bs)) (split_first P xs))"

text \<open>
  The result is the code with the identity of the block whose buffer is returned.  The branches
  are the code's: empty cache; hit at the head, in the middle or at the tail, which all leave the
  block at the tail; miss with room; miss with an eviction.
\<close>

definition cache_get_block ::
    "'d storage_intf \<Rightarrow> u64 \<Rightarrow> 'd cache \<Rightarrow> (int \<times> nat option) \<times> 'd cache" where
  "cache_get_block sto pos c =
     (if unat pos mod CACHE_BLKSZ \<noteq> 0 then ((- ENOTSUP, None), c)
      else if c_blocks c = [] then
        (case cache_fetch_into sto (new_block c) pos (c_disk c) of
           ((rc, b), d) \<Rightarrow>
             if rc < 0 then ((rc, None), c\<lparr>c_disk := d, c_next := c_next c + 1\<rparr>)
             else ((0, Some (b_id b)),
                   c\<lparr>c_disk := d, c_next := c_next c + 1, c_numBlocks := c_numBlocks c + 1,
                     c_blocks := [b\<lparr>b_pins := 1\<rparr>]\<rparr>))
      else case split_first (\<lambda>b. b_pos b = pos) (c_blocks c) of
        Some (as, b, bs) \<Rightarrow>
          ((0, Some (b_id b)), c\<lparr>c_blocks := as @ bs @ [b\<lparr>b_pins := b_pins b + 1\<rparr>]\<rparr>)
      | None \<Rightarrow>
          (if c_numBlocks c < CACHE_BLKS then
             (case cache_fetch_into sto (new_block c) pos (c_disk c) of
                ((rc, b), d) \<Rightarrow>
                  if rc < 0 then ((rc, None), c\<lparr>c_disk := d, c_next := c_next c + 1\<rparr>)
                  else ((0, Some (b_id b)),
                        c\<lparr>c_disk := d, c_next := c_next c + 1, c_numBlocks := c_numBlocks c + 1,
                          c_blocks := c_blocks c @ [b\<lparr>b_pins := 1\<rparr>]\<rparr>))
           else case split_first (\<lambda>b. b_pins b = 0) (c_blocks c) of
             None \<Rightarrow> ((- ENOTSUP, None), c)
           | Some (as, victim, bs) \<Rightarrow>
               (case (if b_dirty victim
                      then storage_store (Some sto) (b_pos victim) (Some (b_buf victim)) (c_disk c)
                      else (0, c_disk c)) of
                  (rc, d) \<Rightarrow>
                    if rc < 0 then ((rc, None), c\<lparr>c_disk := d\<rparr>)
                    else
                      (case cache_fetch_into sto (victim\<lparr>b_dirty := False\<rparr>) pos d of
                         ((rc1, b), d1) \<Rightarrow>
                           if rc1 < 0
                           then ((rc1, None), c\<lparr>c_disk := d1, c_blocks := as @ b # bs\<rparr>)
                           else ((0, Some (b_id b)),
                                 c\<lparr>c_disk := d1, c_blocks := as @ bs @ [b\<lparr>b_pins := 1\<rparr>]\<rparr>)))))"

definition release_block :: "bool \<Rightarrow> block \<Rightarrow> block" where
  "release_block dirt b =
     b\<lparr>b_pins := (if b_pins b > 0 then b_pins b - 1 else b_pins b), b_dirty := (b_dirty b \<or> dirt)\<rparr>"

definition cache_release_block :: "nat \<Rightarrow> bool \<Rightarrow> 'd cache \<Rightarrow> 'd cache" where
  "cache_release_block k dirt c =
     (case split_first (\<lambda>b. b_id b = k) (c_blocks c) of
        None \<Rightarrow> c
      | Some (as, b, bs) \<Rightarrow> c\<lparr>c_blocks := as @ release_block dirt b # bs\<rparr>)"

fun flush_blocks :: "'d storage_intf \<Rightarrow> block list \<Rightarrow> 'd \<Rightarrow> (int \<times> block list) \<times> 'd" where
  "flush_blocks sto [] d = ((0, []), d)"
| "flush_blocks sto (b # bs) d =
     (if b_dirty b then
        (case storage_store (Some sto) (b_pos b) (Some (b_buf b)) d of
           (rc, d1) \<Rightarrow>
             if rc < 0 then ((rc, b # bs), d1)
             else (case flush_blocks sto bs d1 of
                     ((rc1, bs1), d2) \<Rightarrow> ((rc1, b\<lparr>b_dirty := False\<rparr> # bs1), d2)))
      else (case flush_blocks sto bs d of ((rc1, bs1), d2) \<Rightarrow> ((rc1, b # bs1), d2)))"

definition cache_flush :: "'d storage_intf \<Rightarrow> 'd cache \<Rightarrow> int \<times> 'd cache" where
  "cache_flush sto c =
     (case flush_blocks sto (c_blocks c) (c_disk c) of
        ((rc, bs), d) \<Rightarrow> (rc, c\<lparr>c_blocks := bs, c_disk := d\<rparr>))"

text \<open>What a client does through the pointer it was given: read and write the buffer.\<close>

definition cache_buf :: "nat \<Rightarrow> 'd cache \<Rightarrow> bytes option" where
  "cache_buf k c = map_option b_buf (find (\<lambda>b. b_id b = k) (c_blocks c))"

definition cache_write_buf :: "nat \<Rightarrow> bytes \<Rightarrow> 'd cache \<Rightarrow> 'd cache" where
  "cache_write_buf k bs c =
     c\<lparr>c_blocks := map (\<lambda>b. if b_id b = k then b\<lparr>b_buf := bs\<rparr> else b) (c_blocks c)\<rparr>"

section \<open>The disk that clients see\<close>

text \<open>
  The content of a position is the cached buffer when there is one and the disk block otherwise.
\<close>

definition disk_block :: "('d \<Rightarrow> bytes) \<Rightarrow> 'd \<Rightarrow> u64 \<Rightarrow> bytes" where
  "disk_block img d p = take CACHE_BLKSZ (drop (unat p) (img d))"

definition cache_view :: "('d \<Rightarrow> bytes) \<Rightarrow> 'd cache \<Rightarrow> u64 \<Rightarrow> bytes" where
  "cache_view img c p =
     (case find (\<lambda>b. b_pos b = p) (c_blocks c) of
        Some b \<Rightarrow> b_buf b | None \<Rightarrow> disk_block img (c_disk c) p)"

definition on_disk :: "('d \<Rightarrow> bytes) \<Rightarrow> 'd \<Rightarrow> u64 \<Rightarrow> bool" where
  "on_disk img d p \<longleftrightarrow> unat p mod CACHE_BLKSZ = 0 \<and> unat p + CACHE_BLKSZ \<le> length (img d)"

text \<open>
  \<open>W\<close> holds the identities of the blocks that a client has written and not yet released as
  dirty; they are pinned.
\<close>

definition cache_inv :: "('d \<Rightarrow> bytes) \<Rightarrow> ('d \<Rightarrow> bool) \<Rightarrow> nat set \<Rightarrow> 'd cache \<Rightarrow> bool" where
  "cache_inv img ready W c \<longleftrightarrow>
     ready (c_disk c) \<and>
     distinct (map b_pos (c_blocks c)) \<and> distinct (map b_id (c_blocks c)) \<and>
     (\<forall>b\<in>set (c_blocks c).
        b_id b < c_next c \<and> length (b_buf b) = CACHE_BLKSZ \<and> on_disk img (c_disk c) (b_pos b) \<and>
        (b_id b \<in> W \<longrightarrow> b_pins b > 0) \<and>
        (\<not> b_dirty b \<and> b_id b \<notin> W \<longrightarrow> b_buf b = disk_block img (c_disk c) (b_pos b))) \<and>
     W \<subseteq> b_id ` set (c_blocks c) \<and>
     c_numBlocks c = length (c_blocks c) \<and> c_numBlocks c \<le> CACHE_BLKS"


section \<open>Lookups by position depend on the set of blocks only\<close>

lemma split_first_Some:
  "split_first P xs = Some (as, y, bs) \<Longrightarrow> xs = as @ y # bs \<and> P y \<and> (\<forall>x\<in>set as. \<not> P x)"
  by (induction xs arbitrary: as) (auto split: if_splits)

lemma split_first_None: "split_first P xs = None \<longleftrightarrow> (\<forall>x\<in>set xs. \<not> P x)"
  by (induction xs) auto

lemma find_pos:
  "distinct (map b_pos bs) \<Longrightarrow> find (\<lambda>b. b_pos b = p) bs = Some b \<longleftrightarrow> b \<in> set bs \<and> b_pos b = p"
  by (induction bs) (auto simp: image_iff)

lemma find_pos_None: "find (\<lambda>b. b_pos b = p) bs = None \<longleftrightarrow> p \<notin> b_pos ` set bs"
  by (auto simp: find_None_iff)

lemma find_id:
  "distinct (map b_id bs) \<Longrightarrow> find (\<lambda>b. b_id b = k) bs = Some b \<longleftrightarrow> b \<in> set bs \<and> b_id b = k"
  by (induction bs) (auto simp: image_iff)

lemma view_cached:
  "distinct (map b_pos (c_blocks c)) \<Longrightarrow> b \<in> set (c_blocks c) \<Longrightarrow> b_pos b = p \<Longrightarrow>
     cache_view img c p = b_buf b"
  using find_pos [of "c_blocks c" p b] by (simp add: cache_view_def)

lemma view_uncached:
  "p \<notin> b_pos ` set (c_blocks c) \<Longrightarrow> cache_view img c p = disk_block img (c_disk c) p"
  using find_pos_None [of p "c_blocks c"] by (simp add: cache_view_def)

text \<open>Writes to one block of the disk do not touch another.\<close>

lemma aligned_apart:
  "p mod 512 = 0 \<Longrightarrow> q mod 512 = 0 \<Longrightarrow> p \<noteq> q \<Longrightarrow> i < (512::nat) \<Longrightarrow> \<not> (p \<le> q + i \<and> q + i < p + 512)"
  by (elim dvdE [OF mod_0_imp_dvd]) auto

lemma disk_block_frame:
  assumes "length (img d') = length (img d)"
    and "\<forall>i<length (img d). \<not> (unat p \<le> i \<and> i < unat p + CACHE_BLKSZ) \<longrightarrow> img d' ! i = img d ! i"
    and "on_disk img d p" and "on_disk img d q" and "p \<noteq> q"
  shows "disk_block img d' q = disk_block img d q"
proof (rule nth_equalityI)
  show "length (disk_block img d' q) = length (disk_block img d q)"
    using assms(1) by (simp add: disk_block_def)
  fix i assume "i < length (disk_block img d' q)"
  then have i: "i < 512" "unat q + i < length (img d)" using assms(1) by (auto simp: disk_block_def)
  have "unat p \<noteq> unat q" using assms(5) by (simp add: word_unat_eq_iff)
  then have "\<not> (unat p \<le> unat q + i \<and> unat q + i < unat p + 512)"
    using assms(3,4) i(1) by (intro aligned_apart) (auto simp: on_disk_def)
  with assms(2) i show "disk_block img d' q ! i = disk_block img d q ! i"
    using assms(1) by (simp add: disk_block_def)
qed

lemma disk_block_overwrite:
  "on_disk img d p \<Longrightarrow> length bs = CACHE_BLKSZ \<Longrightarrow> img d' = overwrite (img d) (unat p) bs \<Longrightarrow>
     disk_block img d' p = bs"
  by (auto simp: disk_block_def on_disk_def overwrite_def)

lemma length_disk_block: "on_disk img d p \<Longrightarrow> length (disk_block img d p) = CACHE_BLKSZ"
  by (auto simp: disk_block_def on_disk_def)

lemma on_disk_cong: "length (img d') = length (img d) \<Longrightarrow> on_disk img d' p = on_disk img d p"
  by (simp add: on_disk_def)

section \<open>The invariant, block by block\<close>

definition block_ok :: "('d \<Rightarrow> bytes) \<Rightarrow> nat set \<Rightarrow> nat \<Rightarrow> 'd \<Rightarrow> block \<Rightarrow> bool" where
  "block_ok img W nxt d b \<longleftrightarrow>
     b_id b < nxt \<and> length (b_buf b) = CACHE_BLKSZ \<and> on_disk img d (b_pos b) \<and>
     (b_id b \<in> W \<longrightarrow> b_pins b > 0) \<and>
     (\<not> b_dirty b \<and> b_id b \<notin> W \<longrightarrow> b_buf b = disk_block img d (b_pos b))"

lemma cache_inv_blocks:
  "cache_inv img ready W c \<longleftrightarrow>
     ready (c_disk c) \<and> distinct (map b_pos (c_blocks c)) \<and> distinct (map b_id (c_blocks c)) \<and>
     (\<forall>b\<in>set (c_blocks c). block_ok img W (c_next c) (c_disk c) b) \<and>
     W \<subseteq> b_id ` set (c_blocks c) \<and>
     c_numBlocks c = length (c_blocks c) \<and> c_numBlocks c \<le> CACHE_BLKS"
  by (simp add: cache_inv_def block_ok_def)

lemma block_ok_frame:
  assumes "block_ok img W nxt d b" and "length (img d') = length (img d)"
    and "\<forall>i<length (img d). \<not> (unat p \<le> i \<and> i < unat p + CACHE_BLKSZ) \<longrightarrow> img d' ! i = img d ! i"
    and "on_disk img d p" and "b_pos b \<noteq> p" and "nxt \<le> nxt'"
  shows "block_ok img W nxt' d' b"
  using assms disk_block_frame [OF assms(2-4), of "b_pos b"]
  by (auto simp: block_ok_def on_disk_cong [of img d' d])

text \<open>A failed or successful store of a dirty block.\<close>

context block_disk
begin

lemma store_block:
  assumes "ready d" and "on_disk img d (b_pos b)" and "length (b_buf b) = CACHE_BLKSZ"
    and "CACHE_BLKSZ mod st_blksz intf = 0"
    and "storage_store (Some intf) (b_pos b) (Some (b_buf b)) d = (rc, d')"
  shows "ready d'" "length (img d') = length (img d)"
    "\<forall>i<length (img d). \<not> (unat (b_pos b) \<le> i \<and> i < unat (b_pos b) + CACHE_BLKSZ) \<longrightarrow> img d' ! i = img d ! i"
    "0 \<le> rc \<Longrightarrow> disk_block img d' (b_pos b) = b_buf b"
proof -
  note f = store_frame [OF assms(1,5)]
  then show "ready d'" "length (img d') = length (img d)"
    "\<forall>i<length (img d). \<not> (unat (b_pos b) \<le> i \<and> i < unat (b_pos b) + CACHE_BLKSZ) \<longrightarrow> img d' ! i = img d ! i"
    using assms(3) by auto
  assume "0 \<le> rc"
  with store_data [OF assms(1,5)] assms show "disk_block img d' (b_pos b) = b_buf b"
    by (intro disk_block_overwrite [of img d]) (auto simp: on_disk_def)
qed

lemma fetch_block:
  assumes "ready d" and "on_disk img d p" and "CACHE_BLKSZ mod st_blksz intf = 0"
    and "cache_fetch_into intf b p d = ((rc, b'), d')"
  shows "ready d'" "img d' = img d" "b_id b' = b_id b" "b_pos b' = p" "b_pins b' = 0" "\<not> b_dirty b'"
    "rc = 0 \<or> rc < 0" "0 \<le> rc \<Longrightarrow> length (b_buf b) = CACHE_BLKSZ \<Longrightarrow> b_buf b' = disk_block img d p"
    "rc < 0 \<Longrightarrow> fst (fst (storage_fetch (Some intf) p False CACHE_BLKSZ d)) < 0"
proof -
  obtain r got d1 where f: "storage_fetch (Some intf) p False CACHE_BLKSZ d = ((r, got), d1)"
    by (metis surj_pair)
  have e: "rc = (if r < 0 then r else 0)" "d' = d1"
      "b' = b\<lparr>b_pos := p, b_dirty := False, b_pins := 0, b_buf := got @ drop (length got) (b_buf b)\<rparr>"
    using assms(4) f by (auto simp: cache_fetch_into_def)
  show "ready d'" "img d' = img d" using fetch_frame [OF assms(1) f] e by auto
  show "b_id b' = b_id b" "b_pos b' = p" "b_pins b' = 0" "\<not> b_dirty b'" "rc = 0 \<or> rc < 0"
    using e by auto
  show "rc < 0 \<Longrightarrow> fst (fst (storage_fetch (Some intf) p False CACHE_BLKSZ d)) < 0"
    using e f by (simp split: if_splits)
  assume "0 \<le> rc" and l: "length (b_buf b) = CACHE_BLKSZ"
  then have "0 \<le> r" using e by (simp split: if_splits)
  from fetch_data [OF assms(1) f this] assms(2,3)
  have len: "length got = 512" and "got = take (length got) (drop (unat p) (img d))"
    by (auto simp: on_disk_def)
  then have "got = disk_block img d p" unfolding disk_block_def by metis
  with l len show "b_buf b' = disk_block img d p" by (simp add: e)
qed

end


section \<open>What the operations keep\<close>

text \<open>Two caches show clients the same disk.\<close>

definition same_view :: "('d \<Rightarrow> bytes) \<Rightarrow> 'd cache \<Rightarrow> 'd cache \<Rightarrow> bool" where
  "same_view img c c' \<longleftrightarrow>
     length (img (c_disk c')) = length (img (c_disk c)) \<and>
     (\<forall>p. on_disk img (c_disk c) p \<longrightarrow> cache_view img c' p = cache_view img c p)"

lemma same_view_refl [simp]: "same_view img c c"
  by (simp add: same_view_def)

text \<open>A new or refilled block goes to the tail.\<close>

lemma view_insert:
  assumes "distinct (map b_pos (xs @ [b]))" and "distinct (map b_pos (c_blocks c))"
    and "set xs \<subseteq> set (c_blocks c)" and "b_buf b = cache_view img c (b_pos b)"
    and "\<And>v. v \<in> set (c_blocks c) - set xs \<Longrightarrow> b_buf v = disk_block img d (b_pos v)"
    and "\<And>q. on_disk img (c_disk c) q \<Longrightarrow> q \<notin> b_pos ` set (c_blocks c) \<Longrightarrow>
       disk_block img d q = disk_block img (c_disk c) q"
    and "length (img d) = length (img (c_disk c))"
    and "c_blocks c' = xs @ [b]" and "c_disk c' = d"
  shows "same_view img c c'"
  unfolding same_view_def
proof (intro conjI allI impI)
  show "length (img (c_disk c')) = length (img (c_disk c))" using assms by simp
  fix p assume p: "on_disk img (c_disk c) p"
  consider (new) "p = b_pos b" | (kept) x where "x \<in> set xs" "b_pos x = p"
    | (gone) v where "v \<in> set (c_blocks c) - set xs" "b_pos v = p" "p \<notin> b_pos ` set (xs @ [b])"
    | (never) "p \<notin> b_pos ` set (c_blocks c)" "p \<notin> b_pos ` set (xs @ [b])"
    by (auto simp: image_iff) (metis DiffI)
  then show "cache_view img c' p = cache_view img c p"
  proof cases
    case new
    then show ?thesis using assms by (subst view_cached [of c' b]) auto
  next
    case kept
    then have "cache_view img c' p = b_buf x" "cache_view img c p = b_buf x"
      using assms view_cached [of c' x p img] view_cached [of c x p img] by auto
    then show ?thesis by simp
  next
    case gone
    then have "cache_view img c' p = disk_block img d p"
      using assms(8,9) by (subst view_uncached) auto
    moreover have "cache_view img c p = b_buf v" using gone assms(2) by (intro view_cached) auto
    ultimately show ?thesis using assms(5) gone by auto
  next
    case never
    then show ?thesis using assms(6,8,9) p view_uncached [of p c img] view_uncached [of p c' img] by simp
  qed
qed

context block_disk
begin

lemma get_hit:
  assumes inv: "cache_inv img ready W c" and sp: "split_first (\<lambda>b. b_pos b = pos) (c_blocks c) = Some (as, b, bs)"
    and c': "c' = c\<lparr>c_blocks := as @ bs @ [b\<lparr>b_pins := b_pins b + 1\<rparr>]\<rparr>"
  shows "cache_inv img ready W c' \<and> same_view img c c' \<and> b\<lparr>b_pins := b_pins b + 1\<rparr> \<in> set (c_blocks c') \<and>
     b_buf b = cache_view img c pos"
proof -
  let ?b = "b\<lparr>b_pins := b_pins b + 1\<rparr>"
  from split_first_Some [OF sp] have blk: "c_blocks c = as @ b # bs" and pos: "b_pos b = pos" by auto
  from inv have d: "distinct (map b_pos (as @ b # bs))" "distinct (map b_id (as @ b # bs))"
    by (simp_all add: cache_inv_blocks blk)
  have inv': "cache_inv img ready W c'"
    using inv d by (auto simp: cache_inv_blocks c' blk block_ok_def)
  have bf: "b_buf b = cache_view img c pos"
    using d pos blk by (subst view_cached [of c b]) auto
  have "cache_view img c' p = cache_view img c p" for p
  proof (cases "p \<in> b_pos ` set (as @ b # bs)")
    case True
    then obtain x where x: "x \<in> set (as @ b # bs)" "b_pos x = p" by auto
    then have "cache_view img c p = b_buf x" using d blk by (intro view_cached) auto
    moreover have "cache_view img c' p = b_buf x"
    proof (cases "x = b")
      case True
      then show ?thesis using x d by (subst view_cached [of c' ?b]) (auto simp: c')
    next
      case False
      then show ?thesis using x d by (intro view_cached) (auto simp: c')
    qed
    ultimately show ?thesis by simp
  next
    case False
    then show ?thesis by (subst (1 2) view_uncached) (auto simp: c' blk)
  qed
  with inv' bf show ?thesis by (simp add: same_view_def c')
qed

lemma get_fill:
  assumes inv: "cache_inv img ready W c" and bs: "CACHE_BLKSZ mod st_blksz intf = 0"
    and pos: "on_disk img (c_disk c) pos" "pos \<notin> b_pos ` set (c_blocks c)" and room: "c_numBlocks c < CACHE_BLKS"
    and f: "cache_fetch_into intf (new_block c) pos (c_disk c) = ((rc, b), d)" and rc: "\<not> rc < 0"
    and c': "c' = c\<lparr>c_disk := d, c_next := c_next c + 1, c_numBlocks := c_numBlocks c + 1,
                    c_blocks := c_blocks c @ [b\<lparr>b_pins := 1\<rparr>]\<rparr>"
  shows "cache_inv img ready W c' \<and> same_view img c c' \<and> b_buf b = cache_view img c pos"
proof -
  have rdy: "ready (c_disk c)" using inv by (simp add: cache_inv_blocks)
  note fb = fetch_block [OF rdy pos(1) bs f]
  have b: "b_id b = c_next c" "b_buf b = disk_block img (c_disk c) pos"
    using fb(3) fb(8) rc by (simp_all add: new_block_def)
  have W: "c_next c \<notin> W"
  proof
    assume "c_next c \<in> W"
    then obtain x where "x \<in> set (c_blocks c)" "b_id x = c_next c"
      using inv by (auto simp: cache_inv_blocks dest!: subsetD)
    with inv show False by (auto simp: cache_inv_blocks block_ok_def)
  qed
  have same: "disk_block img d q = disk_block img (c_disk c) q" "on_disk img d q = on_disk img (c_disk c) q" for q
    using fb(2) by (simp_all add: disk_block_def on_disk_def)
  have ok: "block_ok img W (c_next c + 1) d x" if "x \<in> set (c_blocks c)" for x
    using inv that same by (auto simp: cache_inv_blocks block_ok_def)
  have okb: "block_ok img W (c_next c + 1) d (b\<lparr>b_pins := 1\<rparr>)"
    using b fb(4) same pos W by (auto simp: block_ok_def length_disk_block)
  have "c_next c \<notin> b_id ` set (c_blocks c)" using inv by (auto simp: cache_inv_blocks block_ok_def)
  then have dist: "distinct (map b_id (c_blocks c @ [b\<lparr>b_pins := 1\<rparr>]))"
      "distinct (map b_pos (c_blocks c @ [b\<lparr>b_pins := 1\<rparr>]))"
    using inv b fb(4) pos(2) by (auto simp: cache_inv_blocks)
  have inv': "cache_inv img ready W c'"
    using inv room ok okb dist fb(1) by (auto simp: cache_inv_blocks c')
  have bf: "b_buf b = cache_view img c pos" using b(2) view_uncached [OF pos(2)] by simp
  have "same_view img c c'"
    by (rule view_insert [of "c_blocks c" "b\<lparr>b_pins := 1\<rparr>" c img d])
      (use dist inv bf fb(2,4) same c' in \<open>simp_all add: cache_inv_blocks\<close>)
  with inv' bf show ?thesis by simp
qed

end


context block_disk
begin

text \<open>An eviction: the victim is written back when dirty.\<close>

lemma evict_store:
  assumes inv: "cache_inv img ready W c" and bs: "CACHE_BLKSZ mod st_blksz intf = 0"
    and v: "v \<in> set (c_blocks c)" "b_pins v = 0"
    and st: "(if b_dirty v then storage_store (Some intf) (b_pos v) (Some (b_buf v)) (c_disk c) else (0, c_disk c)) = (rc, d)"
  shows "ready d" "length (img d) = length (img (c_disk c))"
    "\<And>q. on_disk img (c_disk c) q \<Longrightarrow> q \<noteq> b_pos v \<Longrightarrow> disk_block img d q = disk_block img (c_disk c) q"
    "\<not> rc < 0 \<Longrightarrow> disk_block img d (b_pos v) = b_buf v"
proof -
  have ok: "block_ok img W (c_next c) (c_disk c) v" and rdy: "ready (c_disk c)"
    using inv v by (auto simp: cache_inv_blocks)
  then have o: "on_disk img (c_disk c) (b_pos v)" "length (b_buf v) = 512" "b_id v \<notin> W"
    using v(2) by (auto simp: block_ok_def)
  note s = store_block [OF rdy o(1,2) bs]
  show "ready d" "length (img d) = length (img (c_disk c))"
    using st s(1,2) rdy by (auto split: if_splits)
  show "\<And>q. on_disk img (c_disk c) q \<Longrightarrow> q \<noteq> b_pos v \<Longrightarrow> disk_block img d q = disk_block img (c_disk c) q"
    using st s(2,3) o(1) disk_block_frame [of img d "c_disk c" "b_pos v"] by (cases "b_dirty v") auto
  show "\<not> rc < 0 \<Longrightarrow> disk_block img d (b_pos v) = b_buf v"
    using st s(4) ok o(3) by (auto simp: block_ok_def split: if_splits)
qed

lemma evict_fail:
  assumes inv: "cache_inv img ready W c" and bs: "CACHE_BLKSZ mod st_blksz intf = 0"
    and v: "v \<in> set (c_blocks c)" "b_pins v = 0"
    and st: "(if b_dirty v then storage_store (Some intf) (b_pos v) (Some (b_buf v)) (c_disk c) else (0, c_disk c)) = (rc, d)"
    and rc: "rc < 0"
  shows "cache_inv img ready W (c\<lparr>c_disk := d\<rparr>) \<and> same_view img c (c\<lparr>c_disk := d\<rparr>)"
proof -
  note e = evict_store [OF inv bs v st]
  have on: "on_disk img d q = on_disk img (c_disk c) q" for q using e(2) by (simp add: on_disk_def)
  have dirty: "b_dirty v" using st rc by (auto split: if_splits)
  have d: "distinct (map b_pos (c_blocks c))" using inv by (simp add: cache_inv_blocks)
  have "block_ok img W (c_next c) d x" if x: "x \<in> set (c_blocks c)" for x
  proof (cases "x = v")
    case True
    then show ?thesis using inv v dirty by (auto simp: cache_inv_blocks block_ok_def on)
  next
    case False
    then have "b_pos x \<noteq> b_pos v" using d x v by (auto simp: distinct_map inj_on_def)
    then show ?thesis using inv x e(3) by (auto simp: cache_inv_blocks block_ok_def on)
  qed
  then have "cache_inv img ready W (c\<lparr>c_disk := d\<rparr>)" using inv e(1) by (simp add: cache_inv_blocks)
  moreover have "cache_view img (c\<lparr>c_disk := d\<rparr>) p = cache_view img c p" if "on_disk img (c_disk c) p" for p
  proof (cases "p \<in> b_pos ` set (c_blocks c)")
    case True
    then show ?thesis using find_pos_None [of p "c_blocks c"] by (auto simp: cache_view_def split: option.splits)
  next
    case False
    then have "p \<noteq> b_pos v" using v by auto
    with False that e(3) show ?thesis by (subst (1 2) view_uncached) auto
  qed
  ultimately show ?thesis using e(2) by (simp add: same_view_def)
qed

lemma get_evict:
  assumes inv: "cache_inv img ready W c" and bs: "CACHE_BLKSZ mod st_blksz intf = 0"
    and pos: "on_disk img (c_disk c) pos" "pos \<notin> b_pos ` set (c_blocks c)"
    and sp: "split_first (\<lambda>b. b_pins b = 0) (c_blocks c) = Some (xs, v, ys)"
    and st: "(if b_dirty v then storage_store (Some intf) (b_pos v) (Some (b_buf v)) (c_disk c) else (0, c_disk c)) = (rc, d)"
    and rc: "\<not> rc < 0"
    and f: "cache_fetch_into intf (v\<lparr>b_dirty := False\<rparr>) pos d = ((rc1, b), d1)" and rc1: "\<not> rc1 < 0"
    and c': "c' = c\<lparr>c_disk := d1, c_blocks := xs @ ys @ [b\<lparr>b_pins := 1\<rparr>]\<rparr>"
  shows "cache_inv img ready W c' \<and> same_view img c c' \<and> b_buf b = cache_view img c pos"
proof -
  from split_first_Some [OF sp] have blk: "c_blocks c = xs @ v # ys" and v: "v \<in> set (c_blocks c)" "b_pins v = 0"
    by auto
  note e = evict_store [OF inv bs v st]
  have on: "on_disk img d q = on_disk img (c_disk c) q" for q using e(2) by (simp add: on_disk_def)
  note fb = fetch_block [OF e(1) _ bs f]
  have pv: "pos \<noteq> b_pos v" using pos(2) v by auto
  have okv: "block_ok img W (c_next c) (c_disk c) v" using inv v by (auto simp: cache_inv_blocks)
  have vW: "b_id v \<notin> W" using okv v(2) by (auto simp: block_ok_def)
  have b: "b_id b = b_id v" "b_buf b = disk_block img (c_disk c) pos" "b_pos b = pos" "\<not> b_dirty b"
    "ready d1" "img d1 = img d"
    using fb pos on okv e(3) pv rc1 by (auto simp: block_ok_def)
  have same: "disk_block img d1 q = disk_block img d q" "on_disk img d1 q = on_disk img (c_disk c) q" for q
    using b(6) e(2) by (simp_all add: disk_block_def on_disk_def)
  let ?b = "b\<lparr>b_pins := 1\<rparr>"
  have d: "distinct (map b_pos (xs @ v # ys))" "distinct (map b_id (xs @ v # ys))"
    using inv by (simp_all add: cache_inv_blocks blk)
  have ok: "block_ok img W (c_next c) d1 x" if "x \<in> set (xs @ ys)" for x
  proof -
    have "b_pos v \<notin> b_pos ` set (xs @ ys)" using d by auto
    with that have "b_pos x \<noteq> b_pos v" by (metis imageI)
    then show ?thesis using inv that blk same e(3) by (auto simp: cache_inv_blocks block_ok_def)
  qed
  have okb: "block_ok img W (c_next c) d1 ?b"
    using b okv same pos e(3) pv by (auto simp: block_ok_def length_disk_block)
  have dist: "distinct (map b_id (xs @ ys @ [?b]))" "distinct (map b_pos (xs @ ys @ [?b]))"
    using d b pos(2) blk by auto
  have "W \<subseteq> b_id ` set (xs @ ys @ [?b])"
    using inv vW blk b(1) by (auto simp: cache_inv_blocks)
  then have inv': "cache_inv img ready W c'"
    using inv ok okb dist b(5) blk by (auto simp: cache_inv_blocks c')
  have bf: "b_buf b = cache_view img c pos" using b(2) view_uncached [OF pos(2)] by simp
  have "same_view img c c'"
  proof (rule view_insert [of "xs @ ys" ?b c img d1])
    show "\<And>w. w \<in> set (c_blocks c) - set (xs @ ys) \<Longrightarrow> b_buf w = disk_block img d1 (b_pos w)"
      using blk e(4) rc same by auto
    show "\<And>q. on_disk img (c_disk c) q \<Longrightarrow> q \<notin> b_pos ` set (c_blocks c) \<Longrightarrow>
        disk_block img d1 q = disk_block img (c_disk c) q"
      using e(3) same v by auto
    show "set (xs @ ys) \<subseteq> set (c_blocks c)" using blk by auto
  qed (use dist inv bf b blk c' e(2) in \<open>simp_all add: cache_inv_blocks\<close>)
  with inv' bf show ?thesis by simp
qed

text \<open>The whole of \<open>cache_get_block\<close>.\<close>

lemma cache_get_block_spec:
  assumes inv: "cache_inv img ready W c" and bs: "CACHE_BLKSZ mod st_blksz intf = 0"
    and pos: "on_disk img (c_disk c) pos" and get: "cache_get_block intf pos c = ((rc, k), c')"
  shows "rc = 0 \<and> cache_inv img ready W c' \<and> same_view img c c' \<and>
       (\<exists>b\<in>set (c_blocks c'). k = Some (b_id b) \<and> b_pos b = pos \<and> b_pins b > 0 \<and> b_buf b = cache_view img c pos) \<or>
     rc < 0 \<and> k = None \<and>
       ((\<forall>d. ready d \<longrightarrow> 0 \<le> fst (fst (storage_fetch (Some intf) pos False CACHE_BLKSZ d))) \<longrightarrow>
          cache_inv img ready W c' \<and> same_view img c c')"
proof -
  have al: "unat pos mod 512 = 0" and rdy: "ready (c_disk c)"
    using pos inv by (auto simp: on_disk_def cache_inv_blocks)
  have empty: "split_first (\<lambda>b. b_pos b = pos) (c_blocks c) = None \<and> c_numBlocks c < 64" if "c_blocks c = []"
    using that inv by (simp add: cache_inv_blocks)
  show ?thesis
  proof (cases "split_first (\<lambda>b. b_pos b = pos) (c_blocks c)")
    case (Some t)
    then obtain as b ys where sp: "split_first (\<lambda>b. b_pos b = pos) (c_blocks c) = Some (as, b, ys)"
      by (cases t) auto
    with empty have ne: "c_blocks c \<noteq> []" by auto
    let ?c = "c\<lparr>c_blocks := as @ ys @ [b\<lparr>b_pins := b_pins b + 1\<rparr>]\<rparr>"
    from get al ne sp have r: "rc = 0" "k = Some (b_id b)" "c' = ?c" by (auto simp: cache_get_block_def)
    have "b_pos b = pos" using split_first_Some [OF sp] by simp
    with get_hit [OF inv sp r(3)] r show ?thesis by auto
  next
    case None
    then have out: "pos \<notin> b_pos ` set (c_blocks c)" by (auto simp: split_first_None)
    show ?thesis
    proof (cases "c_numBlocks c < 64")
      case True
      obtain r b d where f: "cache_fetch_into intf (new_block c) pos (c_disk c) = ((r, b), d)" by (metis surj_pair)
      note fb = fetch_block [OF rdy pos bs f]
      show ?thesis
      proof (cases "r < 0")
        case True
        with get al None \<open>c_numBlocks c < 64\<close> f
        have "rc = r" "k = None" by (auto simp: cache_get_block_def split: if_splits)
        with fb(9) rdy True show ?thesis by force
      next
        case False
        with get al None \<open>c_numBlocks c < 64\<close> f
        have "rc = 0" "k = Some (b_id b)"
          and c': "c' = c\<lparr>c_disk := d, c_next := c_next c + 1, c_numBlocks := c_numBlocks c + 1,
                    c_blocks := c_blocks c @ [b\<lparr>b_pins := 1\<rparr>]\<rparr>"
          by (auto simp: cache_get_block_def split: if_splits)
        with get_fill [OF inv bs pos out True f False c'] fb(4) show ?thesis by auto
      qed
    next
      case full: False
      then have ne: "c_blocks c \<noteq> []" using empty by auto
      show ?thesis
      proof (cases "split_first (\<lambda>b. b_pins b = 0) (c_blocks c)")
        case None2: None
        with get al ne None full have "rc = - ENOTSUP" "k = None" "c' = c" by (auto simp: cache_get_block_def)
        with inv show ?thesis by simp
      next
        case (Some t)
        then obtain xs v ys where sp: "split_first (\<lambda>b. b_pins b = 0) (c_blocks c) = Some (xs, v, ys)"
          by (cases t) auto
        have v: "v \<in> set (c_blocks c)" "b_pins v = 0" using split_first_Some [OF sp] by auto
        obtain r d where st: "(if b_dirty v then storage_store (Some intf) (b_pos v) (Some (b_buf v)) (c_disk c)
            else (0, c_disk c)) = (r, d)" by (metis surj_pair)
        show ?thesis
        proof (cases "r < 0")
          case True
          with get al ne None full sp st have "rc = r" "k = None" "c' = c\<lparr>c_disk := d\<rparr>"
            by (auto simp: cache_get_block_def)
          with evict_fail [OF inv bs v st True] True show ?thesis by simp
        next
          case False
          note e = evict_store [OF inv bs v st]
          obtain r1 b d1 where f: "cache_fetch_into intf (v\<lparr>b_dirty := False\<rparr>) pos d = ((r1, b), d1)"
            by (metis surj_pair)
          have on: "on_disk img d pos" using pos e(2) by (simp add: on_disk_def)
          note fb = fetch_block [OF e(1) on bs f]
          show ?thesis
          proof (cases "r1 < 0")
            case True
            with get al ne None full sp st False f have "rc = r1" "k = None" by (auto simp: cache_get_block_def)
            with fb(9) e(1) True show ?thesis by force
          next
            case ok: False
            with get al ne None full sp st False f
            have "rc = 0" "k = Some (b_id b)"
              and c': "c' = c\<lparr>c_disk := d1, c_blocks := xs @ ys @ [b\<lparr>b_pins := 1\<rparr>]\<rparr>"
              by (auto simp: cache_get_block_def)
            with get_evict [OF inv bs pos out sp st False f ok c'] fb(4) show ?thesis by auto
          qed
        qed
      qed
    qed
  qed
qed

end


section \<open>Writing, releasing and flushing\<close>

lemma map_id_update: "map b_pos (map (\<lambda>b. if b_id b = k then b\<lparr>b_buf := bs\<rparr> else b) xs) = map b_pos xs"
  "map b_id (map (\<lambda>b. if b_id b = k then b\<lparr>b_buf := bs\<rparr> else b) xs) = map b_id xs"
  by (induction xs) auto

lemma write_buf_spec:
  assumes inv: "cache_inv img ready W c" and b: "b \<in> set (c_blocks c)" "b_pins b > 0"
    and len: "length bs = CACHE_BLKSZ"
  shows "cache_inv img ready (insert (b_id b) W) (cache_write_buf (b_id b) bs c)"
    and "cache_view img (cache_write_buf (b_id b) bs c) p = (if p = b_pos b then bs else cache_view img c p)"
proof -
  let ?f = "\<lambda>x. if b_id x = b_id b then x\<lparr>b_buf := bs\<rparr> else x"
  let ?c = "cache_write_buf (b_id b) bs c"
  have blk: "c_blocks ?c = map ?f (c_blocks c)" by (simp add: cache_write_buf_def)
  have uniq: "x = b" if "x \<in> set (c_blocks c)" "b_id x = b_id b" for x
    using inv that b(1) by (auto simp: cache_inv_blocks distinct_map inj_on_def)
  have ok: "block_ok img (insert (b_id b) W) (c_next c) (c_disk c) (?f x)" if "x \<in> set (c_blocks c)" for x
    using inv that len b uniq [of x] by (auto simp: cache_inv_blocks block_ok_def)
  have d: "distinct (map b_pos (c_blocks ?c))" "distinct (map b_id (c_blocks ?c))"
    using inv by (simp_all only: blk map_id_update) (simp_all add: cache_inv_blocks)
  have "b_id ` set (c_blocks ?c) = b_id ` set (c_blocks c)"
    using map_id_update(2) [of "b_id b" bs "c_blocks c"] blk by (metis list.set_map)
  moreover have "b_id b \<in> b_id ` set (c_blocks c)" using b by simp
  moreover have "\<forall>x\<in>set (c_blocks ?c). block_ok img (insert (b_id b) W) (c_next c) (c_disk c) x"
    unfolding blk set_map using ok by blast
  ultimately show "cache_inv img ready (insert (b_id b) W) ?c"
    using inv d by (auto simp: cache_inv_blocks cache_write_buf_def)
  show "cache_view img ?c p = (if p = b_pos b then bs else cache_view img c p)"
  proof (cases "p \<in> b_pos ` set (c_blocks c)")
    case True
    then obtain x where x: "x \<in> set (c_blocks c)" "b_pos x = p" by auto
    then have "cache_view img c p = b_buf x" using inv by (intro view_cached) (auto simp: cache_inv_blocks)
    moreover have "cache_view img ?c p = b_buf (?f x)"
      using x d(1) blk by (intro view_cached) (auto intro!: image_eqI [of _ _ x])
    moreover have "p = b_pos b \<longleftrightarrow> x = b"
      using x b inv by (auto simp: cache_inv_blocks distinct_map inj_on_def)
    ultimately show ?thesis using uniq [OF x(1)] by auto
  next
    case False
    then have "p \<notin> b_pos ` set (c_blocks ?c)"
      using map_id_update(1) [of "b_id b" bs "c_blocks c"] blk by (metis list.set_map)
    with False b show ?thesis by (subst (1 2) view_uncached) (auto simp: cache_write_buf_def)
  qed
qed

lemma find_pos_replace:
  "b_pos x = b_pos y \<Longrightarrow> b_buf x = b_buf y \<Longrightarrow>
     map_option b_buf (find (\<lambda>b. b_pos b = p) (as @ x # bs)) =
     map_option b_buf (find (\<lambda>b. b_pos b = p) (as @ y # bs))"
  by (induction as) auto

lemma cache_view_map:
  "cache_view img c p =
     (case map_option b_buf (find (\<lambda>b. b_pos b = p) (c_blocks c)) of
        Some bs \<Rightarrow> bs | None \<Rightarrow> disk_block img (c_disk c) p)"
  by (auto simp: cache_view_def split: option.splits)

lemma release_spec:
  assumes inv: "cache_inv img ready W c" and k: "k \<in> W \<longrightarrow> dirt"
  shows "cache_inv img ready (W - {k}) (cache_release_block k dirt c)"
    and "same_view img c (cache_release_block k dirt c)"
proof -
  have "cache_inv img ready (W - {k}) (cache_release_block k dirt c) \<and>
      same_view img c (cache_release_block k dirt c)"
  proof (cases "split_first (\<lambda>b. b_id b = k) (c_blocks c)")
    case None
    then have "k \<notin> W" using inv by (auto simp: cache_inv_blocks split_first_None)
    with None inv show ?thesis by (simp add: cache_release_block_def)
  next
    case (Some t)
    then obtain as b bs where sp: "split_first (\<lambda>b. b_id b = k) (c_blocks c) = Some (as, b, bs)"
      by (cases t) auto
    from split_first_Some [OF sp] have blk: "c_blocks c = as @ b # bs" and id: "b_id b = k" by auto
    let ?b = "release_block dirt b"
    let ?c = "c\<lparr>c_blocks := as @ ?b # bs\<rparr>"
    have r: "cache_release_block k dirt c = ?c" using sp by (simp add: cache_release_block_def)
    have rb: "b_id (release_block x b) = k" "b_pos (release_block x b) = b_pos b"
        "b_buf (release_block x b) = b_buf b" "b_dirty (release_block x b) = (b_dirty b \<or> x)" for x
      by (simp_all add: release_block_def id)
    have ok: "\<forall>x\<in>set (c_blocks c). block_ok img W (c_next c) (c_disk c) x"
      using inv by (simp add: cache_inv_blocks)
    have "block_ok img (W - {k}) (c_next c) (c_disk c) ?b"
      using ok k by (auto simp: blk block_ok_def rb id)
    moreover have "block_ok img (W - {k}) (c_next c) (c_disk c) x" if "x \<in> set as \<union> set bs" for x
    proof -
      have "b_id b \<notin> b_id ` (set as \<union> set bs)" using inv by (auto simp: cache_inv_blocks blk)
      with that id have "b_id x \<noteq> k" by (metis imageI)
      with ok that show ?thesis by (auto simp: blk block_ok_def)
    qed
    ultimately have "cache_inv img ready (W - {k}) ?c"
      using inv id by (auto simp: cache_inv_blocks blk rb)
    moreover have "cache_view img ?c p = cache_view img c p" for p
    proof -
      have "c_blocks ?c = as @ ?b # bs" "c_disk ?c = c_disk c" by simp_all
      with find_pos_replace [of ?b b p as bs, OF rb(2,3)] show ?thesis
        by (simp only: cache_view_map blk)
    qed
    ultimately show ?thesis unfolding r by (simp add: same_view_def)
  qed
  then show "cache_inv img ready (W - {k}) (cache_release_block k dirt c)"
    "same_view img c (cache_release_block k dirt c)" by auto
qed

context block_disk
begin

lemma flush_blocks_spec:
  assumes "flush_blocks intf bs d = ((rc, bs'), d')" and "ready d" and "distinct (map b_pos bs)"
    and "\<forall>b\<in>set bs. block_ok img W nxt d b" and "CACHE_BLKSZ mod st_blksz intf = 0"
  shows "ready d' \<and> length (img d') = length (img d) \<and> (\<forall>b\<in>set bs'. block_ok img W nxt d' b) \<and>
     map (\<lambda>b. (b_id b, b_pos b, b_buf b)) bs' = map (\<lambda>b. (b_id b, b_pos b, b_buf b)) bs \<and>
     (\<forall>q. on_disk img d q \<longrightarrow> q \<notin> b_pos ` set bs \<longrightarrow> disk_block img d' q = disk_block img d q) \<and>
     rc \<le> 0 \<and> (rc = 0 \<longrightarrow> (\<forall>b\<in>set bs'. \<not> b_dirty b))"
  using assms
proof (induction bs arbitrary: d rc bs' d')
  case (Cons b bs)
  let ?key = "\<lambda>b. (b_id b, b_pos b, b_buf b)"
  have okb: "block_ok img W nxt d b" using Cons.prems by simp
  have step: ?case
    if d1: "ready d1" "length (img d1) = length (img d)"
        "\<And>q. on_disk img d q \<Longrightarrow> q \<noteq> b_pos b \<Longrightarrow> disk_block img d1 q = disk_block img d q"
      and b1: "?key b1 = ?key b" "block_ok img W nxt d1 b1" "\<not> b_dirty b1"
      and fl: "flush_blocks intf bs d1 = ((rc, bs1), d')" "bs' = b1 # bs1"
    for d1 b1 bs1
  proof -
    have on: "on_disk img d1 q = on_disk img d q" for q using d1(2) by (simp add: on_disk_def)
    have "\<forall>x\<in>set bs. block_ok img W nxt d1 x"
    proof
      fix x assume x: "x \<in> set bs"
      have "b_pos b \<notin> b_pos ` set bs" using Cons.prems(3) by simp
      with x have "b_pos x \<noteq> b_pos b" by (metis imageI)
      with x Cons.prems(4) d1(3) show "block_ok img W nxt d1 x" by (auto simp: block_ok_def on)
    qed
    from Cons.IH [OF fl(1) d1(1) _ this Cons.prems(5)] Cons.prems(3)
    have IH: "ready d'" "length (img d') = length (img d1)" "\<forall>b\<in>set bs1. block_ok img W nxt d' b"
      "map ?key bs1 = map ?key bs"
      "\<forall>q. on_disk img d1 q \<longrightarrow> q \<notin> b_pos ` set bs \<longrightarrow> disk_block img d' q = disk_block img d1 q"
      "rc \<le> 0" "rc = 0 \<longrightarrow> (\<forall>b\<in>set bs1. \<not> b_dirty b)" by auto
    have "b_pos b1 = b_pos b" using b1(1) by simp
    then have "block_ok img W nxt d' b1"
      using b1(2) IH(2,5) Cons.prems(3) by (auto simp: block_ok_def on_disk_def)
    with IH d1 b1 fl(2) on show ?thesis by auto
  qed
  show ?case
  proof (cases "b_dirty b")
    case False
    obtain rc1 bs1 d2 where f: "flush_blocks intf bs d = ((rc1, bs1), d2)" by (metis surj_pair)
    with Cons.prems(1) False have "rc = rc1" "bs' = b # bs1" "d' = d2" by auto
    with f okb False Cons.prems(2) show ?thesis by (intro step [of d b bs1]) auto
  next
    case True
    obtain r d1 where s: "storage_store (Some intf) (b_pos b) (Some (b_buf b)) d = (r, d1)" by (metis surj_pair)
    have o: "on_disk img d (b_pos b)" "length (b_buf b) = 512" using okb by (auto simp: block_ok_def)
    note st = store_block [OF Cons.prems(2) o Cons.prems(5) s]
    have fr: "disk_block img d1 q = disk_block img d q" if "on_disk img d q" "q \<noteq> b_pos b" for q
      using disk_block_frame [OF st(2,3) o(1) that(1)] that(2) by simp
    have on: "on_disk img d1 q = on_disk img d q" for q using st(2) by (simp add: on_disk_def)
    show ?thesis
    proof (cases "r < 0")
      case neg: True
      with Cons.prems(1) True s have res: "rc = r" "bs' = b # bs" "d' = d1" by auto
      have "block_ok img W nxt d1 x" if x: "x \<in> set (b # bs)" for x
      proof (cases "x = b")
        case True
        then show ?thesis using okb \<open>b_dirty b\<close> by (auto simp: block_ok_def on)
      next
        case False
        with x have "x \<in> set bs" by simp
        moreover have "b_pos b \<notin> b_pos ` set bs" using Cons.prems(3) by simp
        ultimately have "b_pos x \<noteq> b_pos b" by (metis imageI)
        with x Cons.prems(4) fr show ?thesis by (auto simp: block_ok_def on)
      qed
      with res st fr neg show ?thesis by auto
    next
      case False
      obtain rc1 bs1 d2 where f: "flush_blocks intf bs d1 = ((rc1, bs1), d2)" by (metis surj_pair)
      with Cons.prems(1) True False s
      have res: "rc = rc1" "bs' = b\<lparr>b_dirty := False\<rparr> # bs1" "d' = d2" by auto
      have "block_ok img W nxt d1 (b\<lparr>b_dirty := False\<rparr>)"
        using okb st(4) False on by (auto simp: block_ok_def)
      with res f st(1,2) fr show ?thesis by (intro step [of d1 "b\<lparr>b_dirty := False\<rparr>" bs1]) auto
    qed
  qed
qed simp

lemma cache_flush_spec:
  assumes inv: "cache_inv img ready W c" and bs: "CACHE_BLKSZ mod st_blksz intf = 0"
    and fl: "cache_flush intf c = (rc, c')"
  shows "cache_inv img ready W c' \<and> same_view img c c' \<and> rc \<le> 0 \<and>
     (rc = 0 \<longrightarrow> (\<forall>b\<in>set (c_blocks c'). \<not> b_dirty b))"
proof -
  let ?key = "\<lambda>b. (b_id b, b_pos b, b_buf b)"
  obtain xs d where f: "flush_blocks intf (c_blocks c) (c_disk c) = ((rc, xs), d)"
    and c': "c' = c\<lparr>c_blocks := xs, c_disk := d\<rparr>"
    using fl by (auto simp: cache_flush_def split: prod.splits)
  from inv have pre: "ready (c_disk c)" "distinct (map b_pos (c_blocks c))"
    "\<forall>b\<in>set (c_blocks c). block_ok img W (c_next c) (c_disk c) b" by (simp_all add: cache_inv_blocks)
  from flush_blocks_spec [OF f pre bs]
  have sp: "ready d" "length (img d) = length (img (c_disk c))" "\<forall>b\<in>set xs. block_ok img W (c_next c) d b"
    "map ?key xs = map ?key (c_blocks c)"
    "\<forall>q. on_disk img (c_disk c) q \<longrightarrow> q \<notin> b_pos ` set (c_blocks c) \<longrightarrow> disk_block img d q = disk_block img (c_disk c) q"
    "rc \<le> 0" "rc = 0 \<longrightarrow> (\<forall>b\<in>set xs. \<not> b_dirty b)" by auto
  have key: "map b_id xs = map b_id (c_blocks c)" "map b_pos xs = map b_pos (c_blocks c)"
    using arg_cong [OF sp(4), of "map fst"] arg_cong [OF sp(4), of "map (fst \<circ> snd)"]
    by (simp_all add: comp_def)
  have inv': "cache_inv img ready W c'"
  proof -
    have "length xs = length (c_blocks c)" using map_eq_imp_length_eq [OF key(1)] .
    moreover have "b_id ` set xs = b_id ` set (c_blocks c)" using key(1) by (metis list.set_map)
    ultimately show ?thesis using inv sp(1,3) key unfolding cache_inv_blocks c' by simp
  qed
  have "cache_view img c' p = cache_view img c p" if on: "on_disk img (c_disk c) p" for p
  proof (cases "p \<in> b_pos ` set (c_blocks c)")
    case True
    then obtain b where b: "b \<in> set (c_blocks c)" "b_pos b = p" by auto
    then obtain i where i: "i < length (c_blocks c)" "c_blocks c ! i = b" by (auto simp: in_set_conv_nth)
    have l: "length xs = length (c_blocks c)" using map_eq_imp_length_eq [OF key(1)] .
    have "map ?key xs ! i = map ?key (c_blocks c) ! i" by (simp only: sp(4))
    then have "?key (xs ! i) = ?key b" using i l by (simp only: nth_map)
    moreover have "xs ! i \<in> set xs" using i l by simp
    ultimately have "cache_view img c' p = b_buf b"
      using b inv' view_cached [of c' "xs ! i" p img] by (simp add: cache_inv_blocks c')
    moreover have "cache_view img c p = b_buf b" using b pre by (intro view_cached)
    ultimately show ?thesis by simp
  next
    case False
    moreover have "p \<notin> b_pos ` set xs" using False key(2) by (metis list.set_map)
    ultimately show ?thesis using sp(5) on view_uncached [of p c img] view_uncached [of p c' img]
      by (simp add: c')
  qed
  then have "same_view img c c'" using sp(2) by (simp add: same_view_def c')
  with inv' sp(6,7) show ?thesis by (simp add: c')
qed

end

lemma clean_cache_is_disk:
  assumes "cache_inv img ready {} c" and "\<forall>b\<in>set (c_blocks c). \<not> b_dirty b"
  shows "cache_view img c p = disk_block img (c_disk c) p"
proof (cases "p \<in> b_pos ` set (c_blocks c)")
  case True
  then obtain b where "b \<in> set (c_blocks c)" "b_pos b = p" by auto
  with assms show ?thesis by (subst view_cached [of c b]) (auto simp: cache_inv_blocks block_ok_def)
qed (rule view_uncached)


section \<open>Properties\<close>

text \<open>C7: Getting a block.  On success the invariant of the cache holds again, the disk that
  clients see is unchanged, and the returned buffer is the pinned block of the position with
  exactly its content, whether it was cached, read in, or read in after an eviction that wrote
  the victim back.  On failure nothing changes for clients, provided the disk itself did not
  fail to read the position.\<close>

theorem cache_get_block_correct:
  assumes "block_disk sto img ready" and "CACHE_BLKSZ mod st_blksz sto = 0"
    and "cache_inv img ready W c" and "on_disk img (c_disk c) pos"
    and "cache_get_block sto pos c = ((rc, k), c')"
  shows "rc = 0 \<and> cache_inv img ready W c' \<and> same_view img c c' \<and>
       (\<exists>b\<in>set (c_blocks c'). k = Some (b_id b) \<and> b_pos b = pos \<and> b_pins b > 0 \<and> b_buf b = cache_view img c pos) \<or>
     rc < 0 \<and> k = None \<and>
       ((\<forall>d. ready d \<longrightarrow> 0 \<le> fst (fst (storage_fetch (Some sto) pos False CACHE_BLKSZ d))) \<longrightarrow>
          cache_inv img ready W c' \<and> same_view img c c')"
  by (rule block_disk.cache_get_block_spec [OF assms(1,3,2,4,5)])

lemma create_cache_inv: "ready d \<Longrightarrow> cache_inv img ready {} (create_cache d)"
  by (simp add: cache_inv_def create_cache_def)

definition demo_ramdisk :: ramdisk where
  "demo_ramdisk = \<lparr>rd_opened = True, rd_buf = replicate 1024 7\<rparr>"

theorem cache_get_block_correct_witness:
  "\<exists>c'. cache_get_block ramdisk_intf 512 (create_cache demo_ramdisk) = ((0, Some 0), c') \<and>
     cache_inv rd_buf rd_opened {} c' \<and> same_view rd_buf (create_cache demo_ramdisk) c'"
proof -
  let ?c = "create_cache demo_ramdisk"
  have dsk: "c_disk ?c = demo_ramdisk" "c_blocks ?c = []" "c_next ?c = 0" by (simp_all add: create_cache_def)
  have on: "on_disk rd_buf (c_disk ?c) 512"
    unfolding dsk by (simp only: on_disk_def demo_ramdisk_def ramdisk.simps length_replicate) simp
  have inv: "cache_inv rd_buf rd_opened {} ?c" by (rule create_cache_inv) (simp add: demo_ramdisk_def)
  obtain rc k c' where g: "cache_get_block ramdisk_intf 512 ?c = ((rc, k), c')" by (metis surj_pair)
  have len: "length (rd_buf demo_ramdisk) = 1024" "rd_opened demo_ramdisk"
    by (simp_all only: demo_ramdisk_def ramdisk.simps length_replicate)
  have "\<not> rc < 0" "k = Some 0"
    using g dsk len by (auto simp: cache_get_block_def cache_fetch_into_def storage_fetch_def ramdisk_intf_def
        ramdisk_fetch_def new_block_def Let_def split: if_splits)
  with cache_get_block_correct [OF ramdisk.block_disk_axioms _ inv on g] g show ?thesis
    by (auto simp: ramdisk_intf_def)
qed



text \<open>When the disk fails to read the block that an eviction makes room for, the victim stays in
  the cache under the new position with its old content: the next request for that position
  is a hit that returns the wrong data with code 0.\<close>

theorem cache_failed_refill_is_stale:
  assumes "c_numBlocks c = CACHE_BLKS" and "length (c_blocks c) = CACHE_BLKS"
    and "unat pos mod CACHE_BLKSZ = 0" and "pos \<notin> b_pos ` set (c_blocks c)"
    and "split_first (\<lambda>b. b_pins b = 0) (c_blocks c) = Some (xs, v, ys)" and "\<not> b_dirty v"
    and "storage_fetch (Some sto) pos False CACHE_BLKSZ (c_disk c) = ((e, []), d)" and "e < 0"
  shows "\<exists>c1 c2. cache_get_block sto pos c = ((e, None), c1) \<and>
     cache_get_block sto pos c1 = ((0, Some (b_id v)), c2) \<and>
     (\<exists>b\<in>set (c_blocks c2). b_id b = b_id v \<and> b_pos b = pos \<and> b_buf b = b_buf v)"
proof -
  let ?b = "v\<lparr>b_dirty := False, b_pos := pos, b_dirty := False, b_pins := 0, b_buf := b_buf v\<rparr>"
  let ?c1 = "c\<lparr>c_disk := d, c_blocks := xs @ ?b # ys\<rparr>"
  from split_first_Some [OF assms(5)] have blk: "c_blocks c = xs @ v # ys" by simp
  have miss: "split_first (\<lambda>b. b_pos b = pos) (c_blocks c) = None" using assms(4) by (auto simp: split_first_None)
  have first: "cache_get_block sto pos c = ((e, None), ?c1)"
    using assms miss by (auto simp: cache_get_block_def cache_fetch_into_def)
  have "\<forall>x\<in>set xs. b_pos x \<noteq> pos" using assms(4) blk by auto
  then have hit: "split_first (\<lambda>b. b_pos b = pos) (xs @ ?b # ys) = Some (xs, ?b, ys)"
    by (induction xs) auto
  then have "cache_get_block sto pos ?c1 =
      ((0, Some (b_id v)), ?c1\<lparr>c_blocks := xs @ ys @ [?b\<lparr>b_pins := 1\<rparr>]\<rparr>)"
    using assms(3) by (auto simp: cache_get_block_def)
  with first show ?thesis by (intro exI conjI) (assumption, assumption, simp)
qed


text \<open>A full cache of clean blocks over a device whose reads fail with -EIO.\<close>

definition failing_intf :: "unit storage_intf" where
  "failing_intf =
     \<lparr>st_blksz = 512, st_open = None, st_close = None, st_fetch = Some (\<lambda>p n d. ((- EIO, []), d)),
      st_store = None, st_cntl = None\<rparr>"

definition clean_block :: "nat \<Rightarrow> block" where
  "clean_block i = \<lparr>b_id = i, b_dirty = False, b_pos = of_nat (512 * (i + 1)), b_buf = [], b_pins = 0\<rparr>"

definition full_cache :: "unit cache" where
  "full_cache =
     \<lparr>c_disk = (), c_numBlocks = 64, c_blocks = map clean_block [0..<64], c_next = 64\<rparr>"

theorem cache_failed_refill_is_stale_witness:
  "\<exists>c1 c2. cache_get_block failing_intf 0 full_cache = ((- EIO, None), c1) \<and>
     cache_get_block failing_intf 0 c1 = ((0, Some 0), c2)"
proof -
  have len: "c_numBlocks full_cache = 64" "length (c_blocks full_cache) = 64"
    by (simp_all add: full_cache_def)
  have "b_pos (clean_block i) \<noteq> 0" if "i < 64" for i
  proof -
    have "unat (of_nat (512 * (i + 1)) :: u64) = 512 * (i + 1)"
      using that by (intro unat_word_of_nat_small) simp
    then show ?thesis by (auto simp: clean_block_def)
  qed
  then have out: "0 \<notin> b_pos ` set (c_blocks full_cache)" by (auto simp: full_cache_def)
  have "c_blocks full_cache = clean_block 0 # map clean_block [1..<64]"
    by (simp only: full_cache_def cache.simps upt_conv_Cons [of 0 64]) simp
  then have sp: "split_first (\<lambda>b. b_pins b = 0) (c_blocks full_cache) =
      Some ([], clean_block 0, map clean_block [1..<64])"
    by (simp add: clean_block_def [of 0])
  have f: "storage_fetch (Some failing_intf) 0 False 512 (c_disk full_cache) = ((- EIO, []), ())"
    by (simp add: storage_fetch_def failing_intf_def)
  from cache_failed_refill_is_stale [OF len _ out sp _ f] show ?thesis
    by (auto simp: clean_block_def)
qed

end
