(* ===== verification/BlockPins.thy ===== *)
theory BlockPins
  imports BlockCache "HOL-Library.Multiset"
begin

text \<open>
  Programming with pinned blocks.  The file system asks the cache for a block, works on its
  buffer and gives it back; this theory has the shorthands in which the file system's model is
  written, and the rules by which its proofs follow such a program over a disk that answers every
  request inside it.
\<close>

section \<open>Shorthands\<close>

text \<open>\<open>cache_get_block\<close> with its result as a value: the code or the block.\<close>

definition kget :: "'d storage_intf \<Rightarrow> u64 \<Rightarrow> 'd cache \<Rightarrow> (int + nat) \<times> 'd cache" where
  "kget sto pos c =
     (case cache_get_block sto pos c of
        ((rc, Some k), c1) \<Rightarrow> (Inr k, c1) | ((rc, None), c1) \<Rightarrow> (Inl rc, c1))"

definition block_bytes :: "nat \<Rightarrow> 'd cache \<Rightarrow> bytes" where
  "block_bytes k c = (case cache_buf k c of Some bs \<Rightarrow> bs | None \<Rightarrow> [])"

section \<open>A disk that answers\<close>

locale steady_disk = block_disk intf img ready
  for intf :: "'d storage_intf" and img :: "'d \<Rightarrow> bytes" and ready :: "'d \<Rightarrow> bool" +
  assumes fetch_ok: "ready d \<Longrightarrow> on_disk img d p \<Longrightarrow> 0 \<le> fst (fst (storage_fetch (Some intf) p False CACHE_BLKSZ d))"
    and store_ok: "ready d \<Longrightarrow> on_disk img d p \<Longrightarrow> length bs = CACHE_BLKSZ \<Longrightarrow>
        0 \<le> fst (storage_store (Some intf) p (Some bs) d)"
    and whole_blocks: "CACHE_BLKSZ mod st_blksz intf = 0"

section \<open>Pins\<close>

text \<open>
  \<open>V\<close> is the disk as clients see it, \<open>N\<close> its size, \<open>H\<close> the pins that are held, each with its
  block and position, and \<open>W\<close> the blocks that were written and not yet given back as dirty.
\<close>

definition in_disk :: "nat \<Rightarrow> u64 \<Rightarrow> bool" where
  "in_disk N p \<longleftrightarrow> unat p mod CACHE_BLKSZ = 0 \<and> unat p + CACHE_BLKSZ \<le> N"

definition cache_rel ::
    "('d \<Rightarrow> bytes) \<Rightarrow> ('d \<Rightarrow> bool) \<Rightarrow> (u64 \<Rightarrow> bytes) \<Rightarrow> nat \<Rightarrow> (nat \<times> u64) multiset \<Rightarrow> nat set \<Rightarrow> 'd cache \<Rightarrow> bool" where
  "cache_rel img ready V N H W c \<longleftrightarrow>
     cache_inv img ready W c \<and> length (img (c_disk c)) = N \<and>
     (\<forall>p. in_disk N p \<longrightarrow> cache_view img c p = V p) \<and>
     (\<forall>b\<in>set (c_blocks c). b_pins b = count (image_mset fst H) (b_id b)) \<and>
     (\<forall>h\<in>#H. \<exists>b\<in>set (c_blocks c). b_id b = fst h \<and> b_pos b = snd h)"

lemma in_disk_on_disk: "length (img (c_disk c)) = N \<Longrightarrow> on_disk img (c_disk c) p = in_disk N p"
  by (auto simp: on_disk_def in_disk_def)

lemma cache_rel_inv: "cache_rel img ready V N H W c \<Longrightarrow> cache_inv img ready W c"
  by (simp add: cache_rel_def)

lemma cache_rel_written:
  assumes "cache_rel img ready V N H W c"
  shows "W \<subseteq> fst ` set_mset H"
proof
  fix k assume k: "k \<in> W"
  from assms k obtain b where b: "b \<in> set (c_blocks c)" "b_id b = k"
    by (auto simp: cache_rel_def cache_inv_blocks)
  with assms k have "b_pins b > 0" by (auto simp: cache_rel_def cache_inv_blocks block_ok_def)
  with assms b have "k \<in># image_mset fst H" by (auto simp: cache_rel_def count_greater_zero_iff)
  then show "k \<in> fst ` set_mset H" by simp
qed

lemma cache_rel_held:
  assumes "cache_rel img ready V N H W c" and "(k, p) \<in># H"
  obtains b where "b \<in> set (c_blocks c)" "b_id b = k" "b_pos b = p" "b_pins b > 0"
    "b_buf b = cache_view img c p" "find (\<lambda>b. b_id b = k) (c_blocks c) = Some b"
proof -
  from assms obtain b where b: "b \<in> set (c_blocks c)" "b_id b = k" "b_pos b = p"
    by (fastforce simp: cache_rel_def)
  have "k \<in># image_mset fst H" using assms(2) by force
  with assms b have "b_pins b > 0" by (auto simp: cache_rel_def)
  moreover have "cache_view img c p = b_buf b"
    using assms b by (intro view_cached) (auto simp: cache_rel_def cache_inv_blocks)
  moreover have "find (\<lambda>b. b_id b = k) (c_blocks c) = Some b"
    using assms b find_id [of "c_blocks c" k b] by (auto simp: cache_rel_def cache_inv_blocks)
  ultimately show thesis using b that by simp
qed

lemma cache_rel_in_disk:
  assumes "cache_rel img ready V N H W c" and "(k, p) \<in># H"
  shows "in_disk N p"
proof -
  from cache_rel_held [OF assms] obtain b where b: "b \<in> set (c_blocks c)" "b_pos b = p" by blast
  with assms have "on_disk img (c_disk c) p" by (auto simp: cache_rel_def cache_inv_blocks block_ok_def)
  then show ?thesis using assms by (auto simp: cache_rel_def in_disk_def on_disk_def)
qed

lemma cache_rel_bytes:
  assumes "cache_rel img ready V N H W c" and "(k, p) \<in># H"
  shows "block_bytes k c = V p"
proof -
  from cache_rel_held [OF assms] obtain b where
    b: "b_buf b = cache_view img c p" "find (\<lambda>b. b_id b = k) (c_blocks c) = Some b" by metis
  have "cache_view img c p = V p" using assms cache_rel_in_disk [OF assms] by (simp add: cache_rel_def)
  with b show ?thesis by (simp add: block_bytes_def cache_buf_def)
qed

lemma cache_rel_length:
  assumes "cache_rel img ready V N H W c" and "in_disk N p"
  shows "length (V p) = CACHE_BLKSZ"
proof -
  have on: "on_disk img (c_disk c) p" using assms by (simp add: cache_rel_def in_disk_on_disk)
  have "length (cache_view img c p) = CACHE_BLKSZ"
  proof (cases "p \<in> b_pos ` set (c_blocks c)")
    case True
    then obtain b where b: "b \<in> set (c_blocks c)" "b_pos b = p" by auto
    with assms show ?thesis
      by (subst view_cached [of c b]) (auto simp: cache_rel_def cache_inv_blocks block_ok_def)
  next
    case False
    then show ?thesis using length_disk_block [OF on] by (simp add: view_uncached)
  qed
  then show ?thesis using assms by (simp add: cache_rel_def)
qed

text \<open>A pin by its block determines the position, and the other way round.\<close>

lemma cache_rel_unique:
  assumes "cache_rel img ready V N H W c" and "(k, p) \<in># H" and "(j, q) \<in># H"
  shows "k = j \<longleftrightarrow> p = q"
proof -
  from cache_rel_held [OF assms(1,2)] obtain a where a: "a \<in> set (c_blocks c)" "b_id a = k" "b_pos a = p" by metis
  from cache_rel_held [OF assms(1,3)] obtain b where b: "b \<in> set (c_blocks c)" "b_id b = j" "b_pos b = q" by metis
  have "distinct (map b_pos (c_blocks c))" "distinct (map b_id (c_blocks c))"
    using assms(1) by (auto simp: cache_rel_def cache_inv_blocks)
  with a b show ?thesis by (auto simp: distinct_map inj_on_def)
qed

section \<open>The rules\<close>

lemma pins_room:
  assumes "distinct (map b_id bs)" and "\<forall>b\<in>set bs. b_pins b = count (image_mset fst H) (b_id b)"
    and "size H < length bs"
  shows "\<exists>b\<in>set bs. b_pins b = 0"
proof (rule ccontr)
  assume "\<not> ?thesis"
  with assms(2) have "b_id ` set bs \<subseteq> set_mset (image_mset fst H)"
    by (metis count_eq_zero_iff image_subsetI)
  then have "card (b_id ` set bs) \<le> card (set_mset (image_mset fst H))" by (intro card_mono) auto
  also have "\<dots> \<le> size (image_mset fst H)"
    by (metis card_mono dual_order.refl finite_set_mset size_mset_set mset_set_set_mset_msubset size_mset_mono)
  finally have "card (b_id ` set bs) \<le> size H" by simp
  moreover have "card (b_id ` set bs) = length bs" using distinct_card [OF assms(1)] by simp
  ultimately show False using assms(3) by simp
qed

lemma cache_rel_fresh:
  assumes "cache_rel img ready V N H W c" and "k \<notin> b_id ` set (c_blocks c)"
  shows "count (image_mset fst H) k = 0"
proof -
  have "k \<notin># image_mset fst H" using assms by (fastforce simp: cache_rel_def)
  then show ?thesis by (simp only: not_in_iff)
qed

text \<open>What a successful \<open>cache_get_block\<close> does to the pins, in the three cases.\<close>

lemma cache_rel_get:
  assumes rel: "cache_rel img ready V N H W c"
    and inv: "cache_inv img ready W c'" and same: "same_view img c c'"
    and b: "b \<in> set (c_blocks c')" "b_pos b = p"
    and pin: "b_pins b = count (image_mset fst H) (b_id b) + 1"
    and old: "\<And>x. x \<in> set (c_blocks c') \<Longrightarrow> b_id x \<noteq> b_id b \<Longrightarrow> x \<in> set (c_blocks c)"
    and kept: "\<And>x. x \<in> set (c_blocks c) \<Longrightarrow> b_pins x > 0 \<Longrightarrow>
        \<exists>y\<in>set (c_blocks c'). b_id y = b_id x \<and> b_pos y = b_pos x"
  shows "cache_rel img ready V N (add_mset (b_id b, p) H) W c'"
  unfolding cache_rel_def
proof (intro conjI ballI allI impI)
  show "length (img (c_disk c')) = N" using same rel by (simp add: same_view_def cache_rel_def)
  fix q assume "in_disk N q"
  then show "cache_view img c' q = V q"
    using same rel in_disk_on_disk [of img c N q] by (simp add: same_view_def cache_rel_def)
next
  fix x assume x: "x \<in> set (c_blocks c')"
  show "b_pins x = count (image_mset fst (add_mset (b_id b, p) H)) (b_id x)"
  proof (cases "b_id x = b_id b")
    case True
    then have "x = b" using inv x b by (auto simp: cache_inv_blocks distinct_map inj_on_def)
    then show ?thesis using pin by simp
  next
    case False
    then show ?thesis using old [OF x] rel by (simp add: cache_rel_def)
  qed
next
  fix h assume "h \<in># add_mset (b_id b, p) H"
  then consider "h = (b_id b, p)" | "h \<in># H" by auto
  then show "\<exists>x\<in>set (c_blocks c'). b_id x = fst h \<and> b_pos x = snd h"
  proof cases
    case 1
    then show ?thesis using b by auto
  next
    case 2
    then have "(fst h, snd h) \<in># H" by simp
    from cache_rel_held [OF rel this] kept show ?thesis by metis
  qed
qed (rule inv)

context steady_disk
begin

lemma get_steady:
  assumes rel: "cache_rel img ready V N H W c" and p: "in_disk N p" and room: "size H < CACHE_BLKS"
  shows "\<exists>k c'. kget intf p c = (Inr k, c') \<and> cache_rel img ready V N (add_mset (k, p) H) W c'"
proof -
  have inv: "cache_inv img ready W c" using rel by (rule cache_rel_inv)
  have on: "on_disk img (c_disk c) p" using p rel by (simp add: cache_rel_def in_disk_on_disk)
  have al: "unat p mod 512 = 0" using p by (simp add: in_disk_def)
  have rdy: "ready (c_disk c)" using inv by (simp add: cache_inv_blocks)
  have pins: "\<forall>b\<in>set (c_blocks c). b_pins b = count (image_mset fst H) (b_id b)"
    using rel by (simp add: cache_rel_def)
  show ?thesis
  proof (cases "split_first (\<lambda>b. b_pos b = p) (c_blocks c)")
    case (Some t)
    then obtain xs b ys where sp: "split_first (\<lambda>b. b_pos b = p) (c_blocks c) = Some (xs, b, ys)"
      by (cases t) auto
    from split_first_Some [OF sp] have blk: "c_blocks c = xs @ b # ys" and bp: "b_pos b = p" by auto
    let ?c = "c\<lparr>c_blocks := xs @ ys @ [b\<lparr>b_pins := b_pins b + 1\<rparr>]\<rparr>"
    have "kget intf p c = (Inr (b_id b), ?c)" using al sp blk by (simp add: kget_def cache_get_block_def)
    moreover from get_hit [OF inv sp refl]
    have "cache_rel img ready V N (add_mset (b_id (b\<lparr>b_pins := b_pins b + 1\<rparr>), p) H) W ?c"
      by (intro cache_rel_get [OF rel]) (use bp blk pins in auto)
    ultimately show ?thesis by auto
  next
    case None
    then have out: "p \<notin> b_pos ` set (c_blocks c)" by (auto simp: split_first_None)
    show ?thesis
    proof (cases "c_numBlocks c < 64")
      case True
      obtain r b d where f: "cache_fetch_into intf (new_block c) p (c_disk c) = ((r, b), d)" by (metis surj_pair)
      note fb = fetch_block [OF rdy on whole_blocks f]
      have r: "\<not> r < 0" using fb(9) fetch_ok [OF rdy on] by force
      have id: "b_id b = c_next c" using fb(3) by (simp add: new_block_def)
      let ?b = "b\<lparr>b_pins := 1\<rparr>"
      let ?c = "c\<lparr>c_disk := d, c_next := c_next c + 1, c_numBlocks := c_numBlocks c + 1, c_blocks := c_blocks c @ [?b]\<rparr>"
      have "kget intf p c = (Inr (b_id ?b), ?c)"
        using al None f r True by (auto simp: kget_def cache_get_block_def)
      moreover have "c_next c \<notin> b_id ` set (c_blocks c)" using inv by (auto simp: cache_inv_blocks block_ok_def)
      from cache_rel_fresh [OF rel this] get_fill [OF inv whole_blocks on out True f r refl]
      have "cache_rel img ready V N (add_mset (b_id ?b, p) H) W ?c"
        by (intro cache_rel_get [OF rel]) (use fb(4) id in auto)
      ultimately show ?thesis by blast
    next
      case full: False
      then have n64: "length (c_blocks c) = 64" using inv by (simp add: cache_inv_blocks)
      have ids: "distinct (map b_id (c_blocks c))" using inv by (simp add: cache_inv_blocks)
      have "\<exists>b\<in>set (c_blocks c). b_pins b = 0" by (rule pins_room [OF ids pins]) (use room n64 in simp)
      then have "split_first (\<lambda>b. b_pins b = 0) (c_blocks c) \<noteq> None" by (auto simp: split_first_None)
      then obtain xs v ys where sp: "split_first (\<lambda>b. b_pins b = 0) (c_blocks c) = Some (xs, v, ys)" by auto
      from split_first_Some [OF sp] have blk: "c_blocks c = xs @ v # ys" and v: "v \<in> set (c_blocks c)" "b_pins v = 0"
        by auto
      obtain r d where st: "(if b_dirty v then storage_store (Some intf) (b_pos v) (Some (b_buf v)) (c_disk c)
            else (0, c_disk c)) = (r, d)" by (metis surj_pair)
      have "on_disk img (c_disk c) (b_pos v)" "length (b_buf v) = 512"
        using inv v by (auto simp: cache_inv_blocks block_ok_def)
      from store_ok [OF rdy this] st have r: "\<not> r < 0" by (auto split: if_splits)
      note e = evict_store [OF inv whole_blocks v st]
      obtain r1 b d1 where f: "cache_fetch_into intf (v\<lparr>b_dirty := False\<rparr>) p d = ((r1, b), d1)"
        by (metis surj_pair)
      have on': "on_disk img d p" using on e(2) by (simp add: on_disk_def)
      note fb = fetch_block [OF e(1) on' whole_blocks f]
      have r1: "\<not> r1 < 0" using fb(9) fetch_ok [OF e(1) on'] by force
      let ?b = "b\<lparr>b_pins := 1\<rparr>"
      let ?c = "c\<lparr>c_disk := d1, c_blocks := xs @ ys @ [?b]\<rparr>"
      have "kget intf p c = (Inr (b_id ?b), ?c)"
        using al blk None full sp st r f r1 by (simp add: kget_def cache_get_block_def)
      moreover have "cache_rel img ready V N (add_mset (b_id ?b, p) H) W ?c"
      proof (rule cache_rel_get [OF rel])
        show "cache_inv img ready W ?c" "same_view img c ?c"
          using get_evict [OF inv whole_blocks on out sp st r f r1 refl] by auto
        have "count (image_mset fst H) (b_id v) = 0" using pins v by auto
        then show "b_pins ?b = count (image_mset fst H) (b_id ?b) + 1" using fb(3) by simp
        fix x
        show "x \<in> set (c_blocks c)" if "x \<in> set (c_blocks ?c)" "b_id x \<noteq> b_id ?b" using that blk by auto
        show "\<exists>y\<in>set (c_blocks ?c). b_id y = b_id x \<and> b_pos y = b_pos x"
          if "x \<in> set (c_blocks c)" "b_pins x > 0"
        proof -
          have "x \<noteq> v" using that v by auto
          then have "x \<in> set (c_blocks ?c)" using that blk by auto
          then show ?thesis by blast
        qed
      qed (use fb(4) in auto)
      ultimately show ?thesis by blast
    qed
  qed
qed

end

lemma write_steady:
  assumes rel: "cache_rel img ready V N H W c" and h: "(k, p) \<in># H" and len: "length bs = CACHE_BLKSZ"
  shows "cache_rel img ready (V(p := bs)) N H (insert k W) (cache_write_buf k bs c)"
proof -
  from cache_rel_held [OF rel h] obtain b where
    b: "b \<in> set (c_blocks c)" "b_id b = k" "b_pos b = p" "b_pins b > 0" by metis
  note w = write_buf_spec [OF cache_rel_inv [OF rel] b(1,4) len]
  let ?f = "\<lambda>x. if b_id x = k then x\<lparr>b_buf := bs\<rparr> else x"
  have blk: "set (c_blocks (cache_write_buf k bs c)) = ?f ` set (c_blocks c)"
    by (simp add: cache_write_buf_def)
  have f: "b_pins (?f x) = b_pins x" "b_id (?f x) = b_id x" "b_pos (?f x) = b_pos x" for x by auto
  have "\<forall>x\<in>set (c_blocks (cache_write_buf k bs c)). b_pins x = count (image_mset fst H) (b_id x)"
    unfolding blk using rel by (auto simp: f cache_rel_def)
  moreover have "\<forall>h\<in>#H. \<exists>x\<in>set (c_blocks (cache_write_buf k bs c)). b_id x = fst h \<and> b_pos x = snd h"
    using rel unfolding cache_rel_def blk bex_simps f by blast
  moreover have "c_disk (cache_write_buf k bs c) = c_disk c" by (simp add: cache_write_buf_def)
  ultimately show ?thesis using w b rel by (simp add: cache_rel_def)
qed

lemma release_pins:
  assumes rel: "cache_rel img ready V N (add_mset (k, p) H) W c"
    and inv: "cache_inv img ready W' (cache_release_block k dirt c)"
    and same: "same_view img c (cache_release_block k dirt c)"
  shows "cache_rel img ready V N H W' (cache_release_block k dirt c)"
proof -
  from cache_rel_held [OF rel, of k p] obtain b0 where b0: "b0 \<in> set (c_blocks c)" "b_id b0 = k" by auto
  then obtain xs b ys where sp: "split_first (\<lambda>b. b_id b = k) (c_blocks c) = Some (xs, b, ys)"
    by (cases "split_first (\<lambda>b. b_id b = k) (c_blocks c)") (auto simp: split_first_None)
  from split_first_Some [OF sp] have blk: "c_blocks c = xs @ b # ys" and id: "b_id b = k" by auto
  have blk': "c_blocks (cache_release_block k dirt c) = xs @ release_block dirt b # ys"
    using sp by (simp add: cache_release_block_def)
  have dist: "distinct (map b_id (xs @ b # ys))" using rel blk by (simp add: cache_rel_def cache_inv_blocks)
  have pins: "\<forall>x\<in>set (xs @ b # ys). b_pins x = count (image_mset fst (add_mset (k, p) H)) (b_id x)"
    using rel blk by (simp add: cache_rel_def)
  then have "b_pins b = Suc (count (image_mset fst H) k)" using id by simp
  moreover have "\<forall>x\<in>set xs \<union> set ys. b_id x \<noteq> k"
  proof -
    have "k \<notin> b_id ` (set xs \<union> set ys)" using dist id by auto
    then show ?thesis by blast
  qed
  moreover have "\<forall>h\<in>#H. \<exists>x\<in>set (xs @ b # ys). b_id x = fst h \<and> b_pos x = snd h"
    using rel blk by (simp add: cache_rel_def)
  moreover have "b_id (release_block dirt b) = k" "b_pos (release_block dirt b) = b_pos b"
    "b_pins (release_block dirt b) = b_pins b - 1" by (simp_all add: release_block_def id)
  moreover have "\<forall>p. in_disk N p \<longrightarrow> cache_view img (cache_release_block k dirt c) p = V p"
    "length (img (c_disk (cache_release_block k dirt c))) = N"
    using same rel in_disk_on_disk [of img c N] by (simp_all add: same_view_def cache_rel_def)
  ultimately show ?thesis
    using inv pins id unfolding cache_rel_def blk' by (auto simp: Ball_def)
qed

text \<open>More blocks may be counted as written than have to be.\<close>

lemma cache_inv_more_written:
  "cache_inv img ready W' c \<Longrightarrow> W' \<subseteq> W \<Longrightarrow> W \<subseteq> b_id ` {b \<in> set (c_blocks c). b_pins b > 0} \<Longrightarrow> cache_inv img ready W c"
proof -
  assume a: "cache_inv img ready W' c" "W' \<subseteq> W" "W \<subseteq> b_id ` {b \<in> set (c_blocks c). b_pins b > 0}"
  have "b_pins b > 0" if b: "b \<in> set (c_blocks c)" "b_id b \<in> W" for b
  proof -
    from a(3) b obtain x where x: "x \<in> set (c_blocks c)" "b_pins x > 0" "b_id x = b_id b" by fastforce
    have "distinct (map b_id (c_blocks c))" using a(1) by (simp add: cache_inv_blocks)
    with x b have "x = b" by (auto simp: distinct_map inj_on_def)
    with x show ?thesis by simp
  qed
  with a(1,2) have "\<forall>b\<in>set (c_blocks c). block_ok img W (c_next c) (c_disk c) b"
    by (auto simp: cache_inv_blocks block_ok_def)
  with a show ?thesis by (auto simp: cache_inv_blocks)
qed

lemma cache_rel_more_written:
  assumes "cache_rel img ready V N H W' c" and "W' \<subseteq> W" and "W \<subseteq> fst ` set_mset H"
  shows "cache_rel img ready V N H W c"
proof -
  have "W \<subseteq> b_id ` {b \<in> set (c_blocks c). b_pins b > 0}"
  proof
    fix k assume "k \<in> W"
    with assms(3) obtain p where "(k, p) \<in># H" by auto
    from cache_rel_held [OF assms(1) this] show "k \<in> b_id ` {b \<in> set (c_blocks c). b_pins b > 0}" by blast
  qed
  from cache_inv_more_written [OF cache_rel_inv [OF assms(1)] assms(2) this] assms(1)
  show ?thesis by (simp add: cache_rel_def)
qed

lemma release_dirty_steady:
  assumes rel: "cache_rel img ready V N (add_mset (k, p) H) W' c" and W: "W' \<subseteq> insert k W" "W \<subseteq> fst ` set_mset H"
  shows "cache_rel img ready V N H W (cache_release_block k True c)"
proof (rule cache_rel_more_written)
  show "cache_rel img ready V N H (W' - {k}) (cache_release_block k True c)"
    using release_spec [OF cache_rel_inv [OF rel], of k True] by (intro release_pins [OF rel]) auto
qed (use W in auto)

lemma disk_release: "c_disk (cache_release_block k dirt c) = c_disk c"
  by (auto simp: cache_release_block_def split: option.splits)

lemma view_release: "cache_view img (cache_release_block k dirt c) p = cache_view img c p"
proof (cases "split_first (\<lambda>b. b_id b = k) (c_blocks c)")
  case (Some t)
  then obtain xs b ys where sp: "split_first (\<lambda>b. b_id b = k) (c_blocks c) = Some (xs, b, ys)"
    by (cases t) auto
  from split_first_Some [OF sp] have blk: "c_blocks c = xs @ b # ys" by simp
  have "b_pos (release_block dirt b) = b_pos b" "b_buf (release_block dirt b) = b_buf b"
    by (simp_all add: release_block_def)
  note r = find_pos_replace [OF this]
  have "c_blocks (cache_release_block k dirt c) = xs @ release_block dirt b # ys"
    by (simp add: cache_release_block_def sp)
  then show ?thesis by (simp only: cache_view_map disk_release r blk)
qed (simp add: cache_release_block_def)

text \<open>A clean release of a block that is still held elsewhere keeps its written content.\<close>

lemma release_clean_inv:
  assumes inv: "cache_inv img ready W c" and b: "b \<in> set (c_blocks c)" "b_id b = k" "k \<in> W \<Longrightarrow> b_pins b > 1"
  shows "cache_inv img ready W (cache_release_block k False c)" "same_view img c (cache_release_block k False c)"
proof -
  show "same_view img c (cache_release_block k False c)"
    by (simp add: same_view_def view_release disk_release)
  show "cache_inv img ready W (cache_release_block k False c)"
  proof -
    obtain xs b' ys where sp: "split_first (\<lambda>b. b_id b = k) (c_blocks c) = Some (xs, b', ys)"
      using b by (cases "split_first (\<lambda>b. b_id b = k) (c_blocks c)") (auto simp: split_first_None)
    from split_first_Some [OF sp] have blk: "c_blocks c = xs @ b' # ys" and id: "b_id b' = k" by auto
    have "b' = b" using inv b blk id by (auto simp: cache_inv_blocks)
    moreover have r: "b_id (release_block False b) = b_id b" "b_pos (release_block False b) = b_pos b"
        "b_buf (release_block False b) = b_buf b" "b_dirty (release_block False b) = b_dirty b"
        "b_pins b > 1 \<Longrightarrow> b_pins (release_block False b) > 0"
      by (simp_all add: release_block_def)
    ultimately show ?thesis using inv sp b(2,3)
      by (auto simp: cache_inv_blocks cache_release_block_def block_ok_def blk)
  qed
qed

lemma release_clean_steady:
  assumes rel: "cache_rel img ready V N (add_mset (k, p) H) W c" and W: "W \<subseteq> fst ` set_mset H"
  shows "cache_rel img ready V N H W (cache_release_block k False c)"
proof -
  from cache_rel_held [OF rel, of k p] obtain b where b: "b \<in> set (c_blocks c)" "b_id b = k" by auto
  have "b_pins b > 1" if "k \<in> W"
  proof -
    have "k \<in># image_mset fst H" using W that by auto
    then have "count (image_mset fst H) k > 0" by (simp only: count_greater_zero_iff)
    moreover have "b_pins b = count (image_mset fst (add_mset (k, p) H)) k" using rel b by (auto simp: cache_rel_def)
    ultimately show ?thesis by simp
  qed
  from release_clean_inv [OF cache_rel_inv [OF rel] b this] show ?thesis by (intro release_pins [OF rel])
qed

section \<open>The block driver over hardware that always succeeds\<close>

lemma vioblk_fetch_one:
  assumes rdy: "vioblk_ready himg 512 d" and on: "on_disk (himg \<circ> vb_hw) d p"
    and ok: "\<And>sec n h. fst (fst (vio_in sec n h)) = 0"
  shows "fst (fst (vioblk_storage_fetch vio_in p 512 d)) = 512"
proof -
  have cap: "unat (vb_capacity d) mod 512 = 0" using rdy by (simp add: vioblk_ready_def)
  have b: "vb_blksz d = 512 * 1" using rdy by (simp add: vioblk_ready_def)
  have "vioblk_request p d = Some (p div 512, 0, 1)"
    using vioblk_request_aligned(1) [OF _ b _ cap, of p] on rdy by (simp add: on_disk_def vioblk_ready_def)
  moreover obtain got h where "vio_in (p div 512) 512 (vb_hw d) = ((0, got), h)"
    using ok [of "p div 512" 512 "vb_hw d"] by (metis surj_pair fst_conv)
  moreover have "vb_opened d" using rdy by (simp add: vioblk_ready_def)
  ultimately show ?thesis
    using b by (simp add: vioblk_storage_fetch_def vioblk_fetch_loop.simps [of vio_in 512 p 512] Let_def
        vioblk_fetch_loop.simps [of vio_in 512 "p + 512" 0])
qed

lemma vioblk_store_one:
  assumes rdy: "vioblk_ready himg 512 d" and on: "on_disk (himg \<circ> vb_hw) d p" and len: "length bs = 512"
    and ok: "\<And>sec bs h. unat sec * 512 + length bs \<le> length (himg h) \<Longrightarrow> fst (vio_out sec bs h) = 0"
  shows "fst (vioblk_storage_store vio_out p bs d) = 512"
proof -
  have cap: "unat (vb_capacity d) mod 512 = 0" using rdy by (simp add: vioblk_ready_def)
  have b: "vb_blksz d = 512 * 1" using rdy by (simp add: vioblk_ready_def)
  note rq = vioblk_request_aligned [OF _ b _ cap, of p]
  have "vioblk_request p d = Some (p div 512, 0, 1)"
    using rq(1) on rdy by (simp add: on_disk_def vioblk_ready_def)
  moreover have chunk: "take 512 (overwrite (vb_data d) 0 bs) = bs"
    using len rdy by (simp add: overwrite_def vioblk_ready_def)
  moreover have "fst (vio_out (p div 512) bs (vb_hw d)) = 0"
    using rq(2) on len by (intro ok) (simp add: on_disk_def)
  then obtain h where "vio_out (p div 512) bs (vb_hw d) = (0, h)" by (metis prod.collapse)
  moreover have "vb_opened d" using rdy by (simp add: vioblk_ready_def)
  moreover have "drop 512 bs = []" "bs \<noteq> []" using len by auto
  ultimately show ?thesis
    using b len by (simp add: vioblk_storage_store_def vioblk_store_loop.simps [of vio_out 512 p bs] Let_def
        vioblk_store_loop.simps [of vio_out 512 "p + 512" "[]"])
qed

lemma vioblk_steady:
  assumes hw: "virtio_blk_hw vio_in vio_out himg" and "\<And>sec n h. fst (fst (vio_in sec n h)) = 0"
    and "\<And>sec bs h. unat sec * 512 + length bs \<le> length (himg h) \<Longrightarrow> fst (vio_out sec bs h) = 0"
  shows "steady_disk (vioblk_intf vio_in vio_out 512) (himg \<circ> vb_hw) (vioblk_ready himg 512)"
proof -
  have disk: "block_disk (vioblk_intf vio_in vio_out 512) (himg \<circ> vb_hw) (vioblk_ready himg 512)"
    using hw by (rule vioblk_block_disk [where m = 1]) simp_all
  show ?thesis
  proof (rule steady_disk.intro)
    show "steady_disk_axioms (vioblk_intf vio_in vio_out 512) (himg \<circ> vb_hw) (vioblk_ready himg 512)"
    proof (unfold_locales, goal_cases)
      case (1 d p)
      from vioblk_fetch_one [of himg d p vio_in, OF 1 assms(2)]
      show ?case using 1 by (simp add: storage_fetch_def vioblk_intf_def on_disk_def)
    next
      case (2 d p bs)
      then have "bs \<noteq> []" by auto
      with vioblk_store_one [of himg d p bs vio_out, OF 2 assms(3)]
      show ?case using 2 by (simp add: storage_store_def vioblk_intf_def on_disk_def)
    qed (simp add: vioblk_intf_def)
  qed (rule disk)
qed

interpretation image_disk: steady_disk "vioblk_intf image_in image_out 512" "id \<circ> vb_hw" "vioblk_ready id 512"
  by (rule vioblk_steady [OF image_virtio_blk_hw]) (simp_all add: image_in_def image_out_def)

end
