(* ===== verification/KtfsLayout.thy ===== *)
theory KtfsLayout
  imports BlockPins CString
begin

text \<open>
  The on-disk structures of the file system, \<open>modified/sys/ktfs.h\<close>: superblock, inode,
  directory entry, arrays of block numbers and bitmaps, as little-endian fields of a 512-byte
  block, with the positions at which \<open>ktfs.c\<close> looks for them.
\<close>

abbreviation (input) KTFS_BLKSZ :: nat where "KTFS_BLKSZ \<equiv> 512"
abbreviation (input) KTFS_INOSZ :: nat where "KTFS_INOSZ \<equiv> 32"
abbreviation (input) KTFS_DENSZ :: nat where "KTFS_DENSZ \<equiv> 16"
abbreviation (input) KTFS_NUM_DIRECT_DATA_BLOCKS :: nat where "KTFS_NUM_DIRECT_DATA_BLOCKS \<equiv> 4"
abbreviation (input) KTFS_NUM_DINDIRECT_BLOCKS :: nat where "KTFS_NUM_DINDIRECT_BLOCKS \<equiv> 2"
abbreviation (input) PTRS_PER_BLOCK :: nat where "PTRS_PER_BLOCK \<equiv> 128"

definition KTFS_MAX_FILE_SIZE :: nat where
  "KTFS_MAX_FILE_SIZE = 4 * 512 + 1 * 128 * 512 + 2 * 128 * 128 * 512"

section \<open>Little-endian fields\<close>

definition get_u16 :: "bytes \<Rightarrow> nat \<Rightarrow> u16" where
  "get_u16 bs p = ucast (bs ! p) OR push_bit 8 (ucast (bs ! (p + 1)))"

definition get_u32 :: "bytes \<Rightarrow> nat \<Rightarrow> u32" where
  "get_u32 bs p =
     ucast (bs ! p) OR push_bit 8 (ucast (bs ! (p + 1))) OR
     push_bit 16 (ucast (bs ! (p + 2))) OR push_bit 24 (ucast (bs ! (p + 3)))"

definition enc_u16 :: "u16 \<Rightarrow> bytes" where
  "enc_u16 w = [ucast w, ucast (drop_bit 8 w)]"

definition enc_u32 :: "u32 \<Rightarrow> bytes" where
  "enc_u32 w = [ucast w, ucast (drop_bit 8 w), ucast (drop_bit 16 w), ucast (drop_bit 24 w)]"

lemma length_enc [simp]: "length (enc_u16 v) = 2" "length (enc_u32 w) = 4"
  by (simp_all add: enc_u16_def enc_u32_def)

lemma u16_bytes: "(ucast (ucast w :: u8) :: u16) OR push_bit 8 (ucast (ucast (drop_bit 8 w) :: u8)) = w"
  by (rule bit_word_eqI) (auto simp: bit_simps)

lemma u32_bytes:
  "(ucast (ucast w :: u8) :: u32) OR push_bit 8 (ucast (ucast (drop_bit 8 w) :: u8)) OR
     push_bit 16 (ucast (ucast (drop_bit 16 w) :: u8)) OR push_bit 24 (ucast (ucast (drop_bit 24 w) :: u8)) = w"
proof (rule bit_word_eqI)
  fix n assume n: "n < LENGTH(32)"
  consider "n < 8" | "8 \<le> n" "n < 16" | "16 \<le> n" "n < 24" | "24 \<le> n" by linarith
  then show "bit ((ucast (ucast w :: u8) :: u32) OR push_bit 8 (ucast (ucast (drop_bit 8 w) :: u8)) OR
     push_bit 16 (ucast (ucast (drop_bit 16 w) :: u8)) OR push_bit 24 (ucast (ucast (drop_bit 24 w) :: u8))) n = bit w n"
    using n by cases (auto simp: bit_simps)
qed

lemma get_u16_enc: "get_u16 (xs @ enc_u16 w @ ys) (length xs) = w"
  using u16_bytes [of w] by (simp add: get_u16_def enc_u16_def nth_append)

lemma get_u32_enc: "get_u32 (xs @ enc_u32 w @ ys) (length xs) = w"
  using u32_bytes [of w] by (simp add: get_u32_def enc_u32_def nth_append)

lemma get_u32_overwrite_out:
  "q + length bs \<le> length buf \<Longrightarrow> p + 4 \<le> length buf \<Longrightarrow> p + 4 \<le> q \<or> q + length bs \<le> p \<Longrightarrow>
     get_u32 (overwrite buf q bs) p = get_u32 buf p"
  by (auto simp: get_u32_def nth_overwrite)

lemma get_u32_overwrite_in:
  "q + length bs \<le> length buf \<Longrightarrow> q \<le> p \<Longrightarrow> p + 4 \<le> q + length bs \<Longrightarrow>
     get_u32 (overwrite buf q bs) p = get_u32 bs (p - q)"
  by (simp add: get_u32_def nth_overwrite Suc_diff_le add.commute)

lemma get_u16_overwrite_out:
  "q + length bs \<le> length buf \<Longrightarrow> p + 2 \<le> length buf \<Longrightarrow> p + 2 \<le> q \<or> q + length bs \<le> p \<Longrightarrow>
     get_u16 (overwrite buf q bs) p = get_u16 buf p"
  by (auto simp: get_u16_def nth_overwrite)

lemma get_u16_overwrite_in:
  "q + length bs \<le> length buf \<Longrightarrow> q \<le> p \<Longrightarrow> p + 2 \<le> q + length bs \<Longrightarrow>
     get_u16 (overwrite buf q bs) p = get_u16 bs (p - q)"
  by (simp add: get_u16_def nth_overwrite Suc_diff_le)

section \<open>Superblock\<close>

record ktfs_superblock =
  sb_block_count :: u32
  sb_inode_bitmap_block_count :: u32
  sb_bitmap_block_count :: u32
  sb_inode_block_count :: u32
  sb_root_directory_inode :: u16

definition superblock_of :: "bytes \<Rightarrow> ktfs_superblock" where
  "superblock_of bs =
     \<lparr>sb_block_count = get_u32 bs 0, sb_inode_bitmap_block_count = get_u32 bs 4,
      sb_bitmap_block_count = get_u32 bs 8, sb_inode_block_count = get_u32 bs 12,
      sb_root_directory_inode = get_u16 bs 16\<rparr>"

section \<open>Inodes\<close>

record ktfs_inode =
  ino_size :: u32
  ino_block :: "u32 list"
  ino_indirect :: u32
  ino_dindirect :: "u32 list"

definition inode_at :: "bytes \<Rightarrow> nat \<Rightarrow> ktfs_inode" where
  "inode_at bs i =
     (let p = KTFS_INOSZ * i in
      \<lparr>ino_size = get_u32 bs p,
       ino_block = [get_u32 bs (p + 4), get_u32 bs (p + 8), get_u32 bs (p + 12), get_u32 bs (p + 16)],
       ino_indirect = get_u32 bs (p + 20),
       ino_dindirect = [get_u32 bs (p + 24), get_u32 bs (p + 28)]\<rparr>)"

definition enc_inode :: "ktfs_inode \<Rightarrow> bytes" where
  "enc_inode ino =
     enc_u32 (ino_size ino) @ concat (map enc_u32 (ino_block ino)) @ enc_u32 (ino_indirect ino) @
     concat (map enc_u32 (ino_dindirect ino))"

definition put_inode :: "nat \<Rightarrow> ktfs_inode \<Rightarrow> bytes \<Rightarrow> bytes" where
  "put_inode i ino bs = overwrite bs (KTFS_INOSZ * i) (enc_inode ino)"

definition inode_wf :: "ktfs_inode \<Rightarrow> bool" where
  "inode_wf ino \<longleftrightarrow> length (ino_block ino) = 4 \<and> length (ino_dindirect ino) = 2"

lemma inode_at_wf [simp]: "inode_wf (inode_at bs i)"
  by (simp add: inode_wf_def inode_at_def Let_def)

lemma inode_wf_lists:
  "inode_wf ino \<Longrightarrow> \<exists>a b c d x y. ino_block ino = [a, b, c, d] \<and> ino_dindirect ino = [x, y]"
  by (auto simp: inode_wf_def length_Suc_conv numeral_eq_Suc)

lemma length_enc_inode [simp]: "inode_wf ino \<Longrightarrow> length (enc_inode ino) = 32"
  by (drule inode_wf_lists) (auto simp: enc_inode_def)

lemma length_put_inode [simp]: "inode_wf ino \<Longrightarrow> i < 16 \<Longrightarrow> length bs = 512 \<Longrightarrow> length (put_inode i ino bs) = 512"
  by (simp add: put_inode_def)

lemma inode_at_enc: "inode_wf ino \<Longrightarrow> inode_at (enc_inode ino) 0 = ino"
proof -
  assume wf: "inode_wf ino"
  then obtain a b c d x y where l: "ino_block ino = [a, b, c, d]" "ino_dindirect ino = [x, y]"
    using inode_wf_lists by blast
  let ?e = "enc_u32 (ino_size ino) @ enc_u32 a @ enc_u32 b @ enc_u32 c @ enc_u32 d @
      enc_u32 (ino_indirect ino) @ enc_u32 x @ enc_u32 y"
  have e: "enc_inode ino = ?e" by (simp add: enc_inode_def l)
  have "get_u32 ?e 0 = ino_size ino" using get_u32_enc [of "[]"] by simp
  moreover have "get_u32 ?e 4 = a" using get_u32_enc [of "enc_u32 (ino_size ino)" a] by simp
  moreover have "get_u32 ?e 8 = b" using get_u32_enc [of "enc_u32 (ino_size ino) @ enc_u32 a" b] by simp
  moreover have "get_u32 ?e 12 = c"
    using get_u32_enc [of "enc_u32 (ino_size ino) @ enc_u32 a @ enc_u32 b" c] by simp
  moreover have "get_u32 ?e 16 = d"
    using get_u32_enc [of "enc_u32 (ino_size ino) @ enc_u32 a @ enc_u32 b @ enc_u32 c" d] by simp
  moreover have "get_u32 ?e 20 = ino_indirect ino"
    using get_u32_enc [of "enc_u32 (ino_size ino) @ enc_u32 a @ enc_u32 b @ enc_u32 c @ enc_u32 d" "ino_indirect ino"]
    by simp
  moreover have "get_u32 ?e 24 = x"
    using get_u32_enc [of "enc_u32 (ino_size ino) @ enc_u32 a @ enc_u32 b @ enc_u32 c @ enc_u32 d @
        enc_u32 (ino_indirect ino)" x] by simp
  moreover have "get_u32 ?e 28 = y"
    using get_u32_enc [of "enc_u32 (ino_size ino) @ enc_u32 a @ enc_u32 b @ enc_u32 c @ enc_u32 d @
        enc_u32 (ino_indirect ino) @ enc_u32 x" y "[]"] by simp
  ultimately show ?thesis using l by (simp add: inode_at_def e)
qed

lemma inode_at_put:
  assumes "inode_wf ino" and "i < 16" and "j < 16" and "length bs = 512"
  shows "inode_at (put_inode j ino bs) i = (if i = j then ino else inode_at bs i)"
proof (cases "i = j")
  case True
  have "inode_at (put_inode j ino bs) j = inode_at (enc_inode ino) 0"
    using assms by (simp add: inode_at_def put_inode_def get_u32_overwrite_in)
  with True assms inode_at_enc show ?thesis by simp
next
  case False
  then have "32 * i + 32 \<le> 32 * j \<or> 32 * j + 32 \<le> 32 * i" by auto
  with False assms show ?thesis
    by (auto simp: inode_at_def put_inode_def get_u32_overwrite_out)
qed

section \<open>Directory entries\<close>

record ktfs_dir_entry =
  de_inode :: u16
  de_name :: bytes

definition dentry_at :: "bytes \<Rightarrow> nat \<Rightarrow> ktfs_dir_entry" where
  "dentry_at bs i =
     \<lparr>de_inode = get_u16 bs (KTFS_DENSZ * i), de_name = take 14 (drop (KTFS_DENSZ * i + 2) bs)\<rparr>"

definition enc_dentry :: "ktfs_dir_entry \<Rightarrow> bytes" where
  "enc_dentry de = enc_u16 (de_inode de) @ de_name de"

definition put_dentry :: "nat \<Rightarrow> ktfs_dir_entry \<Rightarrow> bytes \<Rightarrow> bytes" where
  "put_dentry i de bs = overwrite bs (KTFS_DENSZ * i) (enc_dentry de)"

lemma length_enc_dentry [simp]: "length (de_name de) = 14 \<Longrightarrow> length (enc_dentry de) = 16"
  by (simp add: enc_dentry_def)

lemma length_put_dentry [simp]:
  "length (de_name de) = 14 \<Longrightarrow> i < 32 \<Longrightarrow> length bs = 512 \<Longrightarrow> length (put_dentry i de bs) = 512"
  by (simp add: put_dentry_def)

lemma length_dentry_name [simp]: "length bs = 512 \<Longrightarrow> i < 32 \<Longrightarrow> length (de_name (dentry_at bs i)) = 14"
  by (simp add: dentry_at_def)

lemma dentry_at_put:
  assumes "length (de_name de) = 14" and "i < 32" and "j < 32" and "length bs = 512"
  shows "dentry_at (put_dentry j de bs) i = (if i = j then de else dentry_at bs i)"
proof (cases "i = j")
  case True
  have "get_u16 (put_dentry j de bs) (16 * j) = de_inode de"
    using assms get_u16_enc [of "[]" "de_inode de" "de_name de"]
    by (simp add: put_dentry_def get_u16_overwrite_in enc_dentry_def)
  moreover have "take 14 (drop (16 * j + 2) (put_dentry j de bs)) = de_name de"
    by (rule nth_equalityI) (use assms in \<open>auto simp: put_dentry_def nth_overwrite enc_dentry_def nth_append\<close>)
  ultimately show ?thesis using True by (simp add: dentry_at_def)
next
  case False
  then have d: "16 * i + 16 \<le> 16 * j \<or> 16 * j + 16 \<le> 16 * i" by auto
  have "take 14 (drop (16 * i + 2) (put_dentry j de bs)) = take 14 (drop (16 * i + 2) bs)"
    by (rule nth_equalityI) (use assms d in \<open>auto simp: put_dentry_def nth_overwrite\<close>)
  with False assms d show ?thesis by (auto simp: dentry_at_def put_dentry_def get_u16_overwrite_out)
qed

section \<open>Arrays of block numbers\<close>

definition ptr_at :: "bytes \<Rightarrow> nat \<Rightarrow> u32" where
  "ptr_at bs i = get_u32 bs (4 * i)"

definition put_ptr :: "nat \<Rightarrow> u32 \<Rightarrow> bytes \<Rightarrow> bytes" where
  "put_ptr i v bs = overwrite bs (4 * i) (enc_u32 v)"

lemma length_put_ptr [simp]: "i < 128 \<Longrightarrow> length bs = 512 \<Longrightarrow> length (put_ptr i v bs) = 512"
  by (simp add: put_ptr_def)

lemma ptr_at_put:
  assumes "i < 128" and "j < 128" and "length bs = 512"
  shows "ptr_at (put_ptr j v bs) i = (if i = j then v else ptr_at bs i)"
proof (cases "i = j")
  case True
  then show ?thesis using assms get_u32_enc [of "[]" v "[]"]
    by (simp add: ptr_at_def put_ptr_def get_u32_overwrite_in)
next
  case False
  then have "4 * i + 4 \<le> 4 * j \<or> 4 * j + 4 \<le> 4 * i" by auto
  with False assms show ?thesis by (auto simp: ptr_at_def put_ptr_def get_u32_overwrite_out)
qed

section \<open>Bitmaps\<close>

definition bit_at :: "bytes \<Rightarrow> nat \<Rightarrow> bool" where
  "bit_at bs n \<longleftrightarrow> bs ! (n div 8) AND push_bit (n mod 8) 1 \<noteq> 0"

definition put_bit :: "nat \<Rightarrow> bool \<Rightarrow> bytes \<Rightarrow> bytes" where
  "put_bit n v bs =
     (let select = push_bit (n mod 8) 1
      in bs[n div 8 := (if v then bs ! (n div 8) OR select else bs ! (n div 8) AND NOT select)])"

lemma length_put_bit [simp]: "length (put_bit n v bs) = length bs"
  by (simp add: put_bit_def Let_def)

lemma bit_at_bit: "bit_at bs n = bit (bs ! (n div 8)) (n mod 8)"
proof -
  let ?b = "bs ! (n div 8)" and ?k = "n mod 8"
  have "bit (?b AND push_bit ?k 1) ?k = bit ?b ?k" by (simp add: bit_simps)
  moreover have "?b AND push_bit ?k 1 = 0" if "\<not> bit ?b ?k"
    by (rule bit_word_eqI) (use that in \<open>auto simp: bit_simps\<close>)
  ultimately show ?thesis by (metis bit_at_def bit_0_eq bot_apply bot_bool_def)
qed

lemma bit_at_put:
  assumes "m div 8 < length bs"
  shows "bit_at (put_bit n v bs) m = (if m = n then v else bit_at bs m)"
proof (cases "m div 8 = n div 8")
  case True
  then have "m = n \<longleftrightarrow> m mod 8 = n mod 8" by (metis div_mult_mod_eq)
  moreover have "m mod 8 < 8" by simp
  ultimately show ?thesis using True assms
    by (auto simp: bit_at_bit put_bit_def Let_def bit_simps)
next
  case False
  then show ?thesis by (auto simp: bit_at_bit put_bit_def Let_def)
qed

section \<open>Positions\<close>

text \<open>As the code computes them: sums and products of 32-bit numbers, widened afterwards.\<close>

definition inode_bitmap_pos :: "u32 \<Rightarrow> u64" where
  "inode_bitmap_pos i = ucast ((1 + i) * of_nat KTFS_BLKSZ)"

definition bitmap_pos :: "ktfs_superblock \<Rightarrow> u32 \<Rightarrow> u64" where
  "bitmap_pos sb i = ucast ((1 + i + sb_inode_bitmap_block_count sb) * of_nat KTFS_BLKSZ)"

definition inode_pos :: "ktfs_superblock \<Rightarrow> nat \<Rightarrow> u64" where
  "inode_pos sb n =
     ucast ((1 + sb_inode_bitmap_block_count sb + sb_bitmap_block_count sb) * of_nat KTFS_BLKSZ) +
     of_nat (n div (KTFS_BLKSZ div KTFS_INOSZ)) * of_nat KTFS_BLKSZ"

definition data_pos :: "ktfs_superblock \<Rightarrow> u32 \<Rightarrow> u64" where
  "data_pos sb idx =
     ucast ((1 + sb_inode_bitmap_block_count sb + sb_bitmap_block_count sb + sb_inode_block_count sb + idx) *
       of_nat KTFS_BLKSZ)"

text \<open>\<open>free_data_blocks\<close> widens before it adds the block number.\<close>

definition data_pos_wide :: "ktfs_superblock \<Rightarrow> u32 \<Rightarrow> u64" where
  "data_pos_wide sb idx =
     (ucast (1 + sb_inode_bitmap_block_count sb + sb_bitmap_block_count sb + sb_inode_block_count sb) + ucast idx) *
       of_nat KTFS_BLKSZ"

end
