(* ===== verification/KtfsOps.thy ===== *)
theory KtfsOps
  imports KtfsLayout
begin

text \<open>
  The block-level operations of \<open>modified/sys/ktfs.c\<close>: reading an inode, setting and searching the
  two bitmaps, finding or allocating the block of a file, freeing a file's blocks.

  The code keeps pointers to the superblock, to inodes and to pointer blocks inside the
  buffers of pinned cache blocks; here such a pointer is the pinned block with an index, and
  every access reads or writes the buffer.  The superblock is the exception: its fields are
  read once, when its block is pinned, and passed on as \<open>sb\<close> (no operation writes block 0 of
  the disk, which is neither bitmap nor inode nor data).  \<open>get_or_alloc_data_block\<close> gets its
  inode by value and gives the changed inode back, since its callers pass both inodes in
  buffers and local copies.
\<close>

section \<open>Inodes and bitmaps\<close>

definition get_inode :: "'d storage_intf \<Rightarrow> ktfs_superblock \<Rightarrow> u16 \<Rightarrow> 'd cache \<Rightarrow> (int + ktfs_inode) \<times> 'd cache" where
  "get_inode sto sb inodeNum c =
     (case kget sto (inode_pos sb (unat inodeNum)) c of
        (Inl rc, c1) \<Rightarrow> (Inl rc, c1)
      | (Inr k, c1) \<Rightarrow>
          (Inr (inode_at (block_bytes k c1) (unat inodeNum mod (KTFS_BLKSZ div KTFS_INOSZ))),
           cache_release_block k False c1))"

abbreviation (input) BITS_PER_BLOCK :: nat where "BITS_PER_BLOCK \<equiv> 4096"

definition set_inode_status :: "'d storage_intf \<Rightarrow> u32 \<Rightarrow> bool \<Rightarrow> 'd cache \<Rightarrow> 'd cache" where
  "set_inode_status sto inodeNum status c =
     (case kget sto (inode_bitmap_pos (inodeNum div of_nat BITS_PER_BLOCK)) c of
        (Inl rc, c1) \<Rightarrow> c1
      | (Inr k, c1) \<Rightarrow>
          cache_release_block k True
            (cache_write_buf k (put_bit (unat inodeNum mod BITS_PER_BLOCK) status (block_bytes k c1)) c1))"

definition set_data_block_status ::
    "'d storage_intf \<Rightarrow> ktfs_superblock \<Rightarrow> u32 \<Rightarrow> bool \<Rightarrow> 'd cache \<Rightarrow> 'd cache" where
  "set_data_block_status sto sb dataNum status c =
     (case kget sto (bitmap_pos sb (dataNum div of_nat BITS_PER_BLOCK)) c of
        (Inl rc, c1) \<Rightarrow> c1
      | (Inr k, c1) \<Rightarrow>
          cache_release_block k True
            (cache_write_buf k (put_bit (unat dataNum mod BITS_PER_BLOCK) status (block_bytes k c1)) c1))"

text \<open>The two inner loops: the first clear bit of a bitmap block, by bytes and bits.\<close>

definition first_clear :: "bytes \<Rightarrow> nat option" where
  "first_clear bs = find (\<lambda>b. \<not> bit_at bs b) [0..<BITS_PER_BLOCK]"

text \<open>A block without a clear bit stays pinned here: the code does not release it.\<close>

fun find_free_inode_loop :: "'d storage_intf \<Rightarrow> nat list \<Rightarrow> 'd cache \<Rightarrow> int \<times> 'd cache" where
  "find_free_inode_loop sto [] c = (- ENOTSUP, c)"
| "find_free_inode_loop sto (i # is) c =
     (case kget sto (inode_bitmap_pos (of_nat i)) c of
        (Inl rc, c1) \<Rightarrow> (- ENOTSUP, c1)
      | (Inr k, c1) \<Rightarrow>
          (case first_clear (block_bytes k c1) of
             Some b \<Rightarrow> (int (i * BITS_PER_BLOCK + b), cache_release_block k False c1)
           | None \<Rightarrow> find_free_inode_loop sto is c1))"

definition find_free_inode :: "'d storage_intf \<Rightarrow> ktfs_superblock \<Rightarrow> 'd cache \<Rightarrow> int \<times> 'd cache" where
  "find_free_inode sto sb c = find_free_inode_loop sto [0..<unat (sb_inode_bitmap_block_count sb)] c"

fun find_free_data_block_loop ::
    "'d storage_intf \<Rightarrow> ktfs_superblock \<Rightarrow> nat list \<Rightarrow> 'd cache \<Rightarrow> int \<times> 'd cache" where
  "find_free_data_block_loop sto sb [] c = (- ENOTSUP, c)"
| "find_free_data_block_loop sto sb (i # is) c =
     (case kget sto (bitmap_pos sb (of_nat i)) c of
        (Inl rc, c1) \<Rightarrow> (- ENOTSUP, c1)
      | (Inr k, c1) \<Rightarrow>
          (case first_clear (block_bytes k c1) of
             Some b \<Rightarrow> (sint (of_nat (i * BITS_PER_BLOCK + b) :: u32), cache_release_block k False c1)
           | None \<Rightarrow> find_free_data_block_loop sto sb is (cache_release_block k False c1)))"

definition find_free_data_block :: "'d storage_intf \<Rightarrow> ktfs_superblock \<Rightarrow> 'd cache \<Rightarrow> int \<times> 'd cache" where
  "find_free_data_block sto sb c = find_free_data_block_loop sto sb [0..<unat (sb_bitmap_block_count sb)] c"

section \<open>The block of a file\<close>

text \<open>The steps that recur: taking a free block, clearing one, filling an empty entry of a
  pinned pointer block.\<close>

definition alloc_data_block ::
    "'d storage_intf \<Rightarrow> ktfs_superblock \<Rightarrow> 'd cache \<Rightarrow> (int + u32) \<times> 'd cache" where
  "alloc_data_block sto sb c =
     (case find_free_data_block sto sb c of
        (newidx, c1) \<Rightarrow>
          if newidx < 0 then (Inl newidx, c1)
          else (Inr (word_of_int newidx), set_data_block_status sto sb (word_of_int newidx) True c1))"

definition alloc_zeroed_block ::
    "'d storage_intf \<Rightarrow> ktfs_superblock \<Rightarrow> 'd cache \<Rightarrow> (int + u32) \<times> 'd cache" where
  "alloc_zeroed_block sto sb c =
     (case alloc_data_block sto sb c of
        (Inl rc, c1) \<Rightarrow> (Inl rc, c1)
      | (Inr ib, c1) \<Rightarrow>
          (case kget sto (data_pos sb ib) c1 of
             (Inl rc, c2) \<Rightarrow> (Inl rc, c2)
           | (Inr k, c2) \<Rightarrow>
               (Inr ib, cache_release_block k True (cache_write_buf k (replicate KTFS_BLKSZ 0) c2))))"

text \<open>One step of a walk: entry \<open>i\<close> of the pointer block \<open>p\<close>, filled by \<open>alloc\<close> when it is empty.
  The middle step of a doubly indirect walk clears the new block, the last step does not.\<close>

definition fill_ptr ::
    "('d cache \<Rightarrow> (int + u32) \<times> 'd cache) \<Rightarrow> 'd storage_intf \<Rightarrow> ktfs_superblock \<Rightarrow> u32 \<Rightarrow> nat \<Rightarrow>
     'd cache \<Rightarrow> (int + u32) \<times> 'd cache" where
  "fill_ptr alloc sto sb p i c =
     (case kget sto (data_pos sb p) c of
        (Inl rc, c1) \<Rightarrow> (Inl rc, c1)
      | (Inr k, c1) \<Rightarrow>
          if ptr_at (block_bytes k c1) i = 0
          then (case alloc c1 of
                  (Inl rc, c2) \<Rightarrow> (Inl rc, cache_release_block k False c2)
                | (Inr newidx, c2) \<Rightarrow>
                    (Inr newidx,
                     cache_release_block k True (cache_write_buf k (put_ptr i newidx (block_bytes k c2)) c2)))
          else (Inr (ptr_at (block_bytes k c1) i), cache_release_block k False c1))"

definition get_or_alloc_data_block ::
    "'d storage_intf \<Rightarrow> ktfs_superblock \<Rightarrow> ktfs_inode \<Rightarrow> u32 \<Rightarrow> 'd cache \<Rightarrow> ((int + u32) \<times> ktfs_inode) \<times> 'd cache" where
  "get_or_alloc_data_block sto sb ino blkno c =
     (if unat blkno < KTFS_NUM_DIRECT_DATA_BLOCKS then
        (if ino_block ino ! unat blkno = 0
         then (case alloc_data_block sto sb c of
                 (Inl rc, c1) \<Rightarrow> ((Inl rc, ino), c1)
               | (Inr newidx, c1) \<Rightarrow>
                   ((Inr newidx, ino\<lparr>ino_block := (ino_block ino)[unat blkno := newidx]\<rparr>), c1))
         else ((Inr (ino_block ino ! unat blkno), ino), c))
      else let blkno1 = unat blkno - KTFS_NUM_DIRECT_DATA_BLOCKS in
        if blkno1 < PTRS_PER_BLOCK then
          (case (if ino_indirect ino = 0 then alloc_zeroed_block sto sb c else (Inr (ino_indirect ino), c)) of
             (Inl rc, c1) \<Rightarrow> ((Inl rc, ino), c1)
           | (Inr ib, c1) \<Rightarrow>
               (case fill_ptr (alloc_data_block sto sb) sto sb ib blkno1 c1 of
                  (r, c2) \<Rightarrow> ((r, ino\<lparr>ino_indirect := ib\<rparr>), c2)))
        else let blkno2 = blkno1 - PTRS_PER_BLOCK;
                 outer = blkno2 div (PTRS_PER_BLOCK * PTRS_PER_BLOCK);
                 inner = blkno2 mod (PTRS_PER_BLOCK * PTRS_PER_BLOCK) in
          if outer \<ge> KTFS_NUM_DINDIRECT_BLOCKS then ((Inl (- ENOTSUP), ino), c)
          else
            (case (if ino_dindirect ino ! outer = 0 then alloc_zeroed_block sto sb c
                   else (Inr (ino_dindirect ino ! outer), c)) of
               (Inl rc, c1) \<Rightarrow> ((Inl rc, ino), c1)
             | (Inr dib, c1) \<Rightarrow>
                 let ino1 = ino\<lparr>ino_dindirect := (ino_dindirect ino)[outer := dib]\<rparr> in
                 (case fill_ptr (alloc_zeroed_block sto sb) sto sb dib (inner div PTRS_PER_BLOCK) c1 of
                    (Inl rc, c2) \<Rightarrow> ((Inl rc, ino1), c2)
                  | (Inr secondIdx, c2) \<Rightarrow>
                      (case fill_ptr (alloc_data_block sto sb) sto sb secondIdx (inner mod PTRS_PER_BLOCK) c2 of
                         (r, c3) \<Rightarrow> ((r, ino1), c3)))))"

section \<open>Freeing the blocks of a file\<close>

fun free_entries :: "'d storage_intf \<Rightarrow> ktfs_superblock \<Rightarrow> u32 list \<Rightarrow> u32 \<Rightarrow> u32 \<Rightarrow> 'd cache \<Rightarrow> u32 \<times> 'd cache" where
  "free_entries sto sb [] x n c = (x, c)"
| "free_entries sto sb (p # ps) x n c =
     (if x < n then free_entries sto sb ps (x + 1) n (set_data_block_status sto sb p False c) else (x, c))"

text \<open>The same over the entries of the pinned pointer block \<open>k\<close>.\<close>

fun free_ptrs :: "'d storage_intf \<Rightarrow> ktfs_superblock \<Rightarrow> nat \<Rightarrow> nat list \<Rightarrow> u32 \<Rightarrow> u32 \<Rightarrow> 'd cache \<Rightarrow> u32 \<times> 'd cache" where
  "free_ptrs sto sb k [] x n c = (x, c)"
| "free_ptrs sto sb k (i # is) x n c =
     (if x < n
      then free_ptrs sto sb k is (x + 1) n (set_data_block_status sto sb (ptr_at (block_bytes k c) i) False c)
      else (x, c))"

text \<open>One pointer block: it is marked free, whether it could be read or not.\<close>

definition free_ptr_block ::
    "'d storage_intf \<Rightarrow> ktfs_superblock \<Rightarrow> u32 \<Rightarrow> u32 \<Rightarrow> u32 \<Rightarrow> 'd cache \<Rightarrow> u32 option \<times> 'd cache" where
  "free_ptr_block sto sb p x n c =
     (case kget sto (data_pos_wide sb p) c of
        (Inl rc, c1) \<Rightarrow> (None, set_data_block_status sto sb p False c1)
      | (Inr k, c1) \<Rightarrow>
          (case free_ptrs sto sb k [0..<PTRS_PER_BLOCK] x n (set_data_block_status sto sb p False c1) of
             (x1, c2) \<Rightarrow> (Some x1, cache_release_block k False c2)))"

fun free_second ::
    "'d storage_intf \<Rightarrow> ktfs_superblock \<Rightarrow> nat \<Rightarrow> nat list \<Rightarrow> u32 \<Rightarrow> u32 \<Rightarrow> 'd cache \<Rightarrow> u32 option \<times> 'd cache" where
  "free_second sto sb k [] x n c = (Some x, c)"
| "free_second sto sb k (j # js) x n c =
     (if x < n
      then (case free_ptr_block sto sb (ptr_at (block_bytes k c) j) x n c of
              (None, c1) \<Rightarrow> (None, c1)
            | (Some x1, c1) \<Rightarrow> free_second sto sb k js x1 n c1)
      else (Some x, c))"

fun free_dindirect :: "'d storage_intf \<Rightarrow> ktfs_superblock \<Rightarrow> u32 list \<Rightarrow> u32 \<Rightarrow> u32 \<Rightarrow> 'd cache \<Rightarrow> 'd cache" where
  "free_dindirect sto sb [] x n c = c"
| "free_dindirect sto sb (p # ps) x n c =
     (if x < n
      then (case kget sto (data_pos_wide sb p) c of
              (Inl rc, c1) \<Rightarrow> set_data_block_status sto sb p False c1
            | (Inr k, c1) \<Rightarrow>
                (case free_second sto sb k [0..<PTRS_PER_BLOCK] x n (set_data_block_status sto sb p False c1) of
                   (None, c2) \<Rightarrow> cache_release_block k False c2
                 | (Some x1, c2) \<Rightarrow> free_dindirect sto sb ps x1 n (cache_release_block k False c2)))
      else c)"

definition free_data_blocks ::
    "'d storage_intf \<Rightarrow> ktfs_superblock \<Rightarrow> u32 \<Rightarrow> ktfs_inode \<Rightarrow> 'd cache \<Rightarrow> 'd cache" where
  "free_data_blocks sto sb sz ino c =
     (let numDataBlocks = (sz + of_nat KTFS_BLKSZ - 1) div of_nat KTFS_BLKSZ in
      case free_entries sto sb (ino_block ino) 0 numDataBlocks c of
        (x, c1) \<Rightarrow>
          if x = numDataBlocks then c1
          else (case free_ptr_block sto sb (ino_indirect ino) x numDataBlocks c1 of
                  (None, c2) \<Rightarrow> c2
                | (Some x1, c2) \<Rightarrow>
                    if x1 = numDataBlocks then c2
                    else free_dindirect sto sb (ino_dindirect ino) x1 numDataBlocks c2))"

end
