(* ===== verification/KtfsTree.thy ===== *)
theory KtfsTree
  imports KtfsLayout
begin

text \<open>
  The disk of the file system as the proofs see it: where the regions lie, which data blocks
  the bitmap marks as taken, and the block map of a file as a tree of slots, each of which
  names a data block or is empty (0).
\<close>

section \<open>Regions of the disk\<close>

type_synonym disk_view = "u64 \<Rightarrow> bytes"

definition data_start :: "ktfs_superblock \<Rightarrow> nat" where
  "data_start sb = 1 + unat (sb_inode_bitmap_block_count sb) + unat (sb_bitmap_block_count sb) +
     unat (sb_inode_block_count sb)"

text \<open>A disk below 4 GB, so that no 32-bit product of the code wraps, with room for the
  metadata that the superblock announces.\<close>

definition geometry :: "nat \<Rightarrow> ktfs_superblock \<Rightarrow> bool" where
  "geometry N sb \<longleftrightarrow> N < 2 ^ 32 \<and> 512 * data_start sb \<le> N"

definition valid_idx :: "nat \<Rightarrow> ktfs_superblock \<Rightarrow> u32 \<Rightarrow> bool" where
  "valid_idx N sb idx \<longleftrightarrow> 512 * (data_start sb + unat idx) + 512 \<le> N"

lemma unat_times_512:
  assumes "512 * unat (w :: u32) < 2 ^ 32"
  shows "unat (ucast (w * 512) :: u64) = 512 * unat w"
proof -
  have "unat (w * 512) = unat w * 512" using assms by (subst unat_mult_lem [THEN iffD1]) simp_all
  moreover have "unat (ucast v :: u64) = unat (v :: u32)" for v
    using less_trans [OF unat_lt_32 [of v], of "2 ^ 64"] by (simp add: unsigned_ucast_eq take_bit_nat_eq_self)
  ultimately show ?thesis by simp
qed

lemma unat_add_32: "unat a + unat b < 2 ^ 32 \<Longrightarrow> unat (a + b :: u32) = unat a + unat b"
  by (subst unat_add_lem [THEN iffD1]) simp_all

lemma unat_data_pos:
  assumes "geometry N sb" and "valid_idx N sb idx"
  shows "unat (data_pos sb idx) = 512 * (data_start sb + unat idx)"
proof -
  let ?w = "1 + sb_inode_bitmap_block_count sb + sb_bitmap_block_count sb + sb_inode_block_count sb + idx"
  have le: "512 * (data_start sb + unat idx) < 2 ^ 32" using assms by (simp add: geometry_def valid_idx_def)
  have "unat ?w = data_start sb + unat idx"
    using le by (simp add: unat_add_32 data_start_def)
  with le show ?thesis using unat_times_512 [of ?w] by (simp add: data_pos_def)
qed

lemma unat_bitmap_pos:
  assumes "geometry N sb" and "i < unat (sb_bitmap_block_count sb)"
  shows "unat (bitmap_pos sb (of_nat i)) = 512 * (1 + i + unat (sb_inode_bitmap_block_count sb))"
proof -
  have le: "512 * (1 + i + unat (sb_inode_bitmap_block_count sb)) < 2 ^ 32"
    using assms by (simp add: geometry_def data_start_def)
  let ?w = "1 + of_nat i + sb_inode_bitmap_block_count sb"
  have "unat (of_nat i :: u32) = i" using le by (intro unat_word_of_nat_small) simp
  then have "unat ?w = 1 + i + unat (sb_inode_bitmap_block_count sb)"
    using le by (simp add: unat_add_32)
  with le show ?thesis using unat_times_512 [of ?w] by (simp add: bitmap_pos_def)
qed

lemma unat_inode_bitmap_pos:
  assumes "geometry N sb" and "i < unat (sb_inode_bitmap_block_count sb)"
  shows "unat (inode_bitmap_pos (of_nat i)) = 512 * (1 + i)"
proof -
  have le: "512 * (1 + i) < 2 ^ 32" using assms by (simp add: geometry_def data_start_def)
  have "unat (of_nat i :: u32) = i" using le by (intro unat_word_of_nat_small) simp
  then have "unat (1 + of_nat i :: u32) = 1 + i" using le by (simp add: unat_add_32)
  with le show ?thesis using unat_times_512 [of "1 + of_nat i"] by (simp add: inode_bitmap_pos_def)
qed

lemma unat_inode_pos:
  assumes "geometry N sb" and "n div 16 < unat (sb_inode_block_count sb)"
  shows "unat (inode_pos sb n) =
     512 * (1 + unat (sb_inode_bitmap_block_count sb) + unat (sb_bitmap_block_count sb) + n div 16)"
proof -
  let ?w = "1 + sb_inode_bitmap_block_count sb + sb_bitmap_block_count sb"
  have le: "512 * (1 + unat (sb_inode_bitmap_block_count sb) + unat (sb_bitmap_block_count sb) + n div 16) < 2 ^ 32"
    using assms by (simp add: geometry_def data_start_def)
  have w: "unat ?w = 1 + unat (sb_inode_bitmap_block_count sb) + unat (sb_bitmap_block_count sb)"
    using le by (simp add: unat_add_32)
  have p: "inode_pos sb n = ucast (?w * 512) + of_nat (n div 16 * 512)" by (simp add: inode_pos_def)
  have u: "unat (ucast (?w * 512) :: u64) = 512 * unat ?w" using le w by (intro unat_times_512) simp
  have "unat (inode_pos sb n) = 512 * unat ?w + n div 16 * 512"
    unfolding p using le by (subst unat_add_small) (simp_all only: u w, simp_all)
  with w show ?thesis by simp
qed

lemma data_in_disk: "geometry N sb \<Longrightarrow> valid_idx N sb idx \<Longrightarrow> in_disk N (data_pos sb idx)"
  by (simp add: in_disk_def unat_data_pos) (simp add: valid_idx_def)

lemma bitmap_in_disk:
  "geometry N sb \<Longrightarrow> i < unat (sb_bitmap_block_count sb) \<Longrightarrow> in_disk N (bitmap_pos sb (of_nat i))"
  by (simp add: in_disk_def unat_bitmap_pos) (simp add: geometry_def data_start_def)

lemma inode_bitmap_in_disk:
  "geometry N sb \<Longrightarrow> i < unat (sb_inode_bitmap_block_count sb) \<Longrightarrow> in_disk N (inode_bitmap_pos (of_nat i))"
  by (simp add: in_disk_def unat_inode_bitmap_pos) (simp add: geometry_def data_start_def)

lemma inode_in_disk:
  "geometry N sb \<Longrightarrow> n div 16 < unat (sb_inode_block_count sb) \<Longrightarrow> in_disk N (inode_pos sb n)"
  by (simp add: in_disk_def unat_inode_pos) (simp add: geometry_def data_start_def)

text \<open>The regions do not overlap.\<close>

lemma times_512_cancel: "512 * a = 512 * b \<Longrightarrow> a = (b :: nat)"
  by simp

lemma data_pos_inj:
  assumes "geometry N sb" "valid_idx N sb a" "valid_idx N sb b"
  shows "data_pos sb a = data_pos sb b \<longleftrightarrow> a = b"
proof
  assume "data_pos sb a = data_pos sb b"
  then have "512 * (data_start sb + unat a) = 512 * (data_start sb + unat b)"
    using unat_data_pos assms by metis
  then have "data_start sb + unat a = data_start sb + unat b" by (rule times_512_cancel)
  then show "a = b" by (simp add: word_unat_eq_iff)
qed simp

lemma bitmap_pos_inj:
  assumes "geometry N sb" "i < unat (sb_bitmap_block_count sb)" "j < unat (sb_bitmap_block_count sb)"
  shows "bitmap_pos sb (of_nat i) = bitmap_pos sb (of_nat j) \<longleftrightarrow> i = j"
proof
  assume "bitmap_pos sb (of_nat i) = bitmap_pos sb (of_nat j)"
  then have "512 * (1 + i + unat (sb_inode_bitmap_block_count sb)) = 512 * (1 + j + unat (sb_inode_bitmap_block_count sb))"
    using unat_bitmap_pos assms by metis
  then have "1 + i + unat (sb_inode_bitmap_block_count sb) = 1 + j + unat (sb_inode_bitmap_block_count sb)"
    by (rule times_512_cancel)
  then show "i = j" by simp
qed simp

lemma data_not_bitmap:
  assumes "geometry N sb" "valid_idx N sb a" "i < unat (sb_bitmap_block_count sb)"
  shows "data_pos sb a \<noteq> bitmap_pos sb (of_nat i)"
proof
  assume "data_pos sb a = bitmap_pos sb (of_nat i)"
  then have "unat (data_pos sb a) = unat (bitmap_pos sb (of_nat i))" by (rule arg_cong)
  from this [unfolded unat_data_pos [OF assms(1,2)] unat_bitmap_pos [OF assms(1,3)], THEN times_512_cancel] show False using assms(3) by (simp add: data_start_def)
qed

lemma data_not_inode:
  assumes "geometry N sb" "valid_idx N sb a" "n div 16 < unat (sb_inode_block_count sb)"
  shows "data_pos sb a \<noteq> inode_pos sb n"
proof
  assume "data_pos sb a = inode_pos sb n"
  then have "unat (data_pos sb a) = unat (inode_pos sb n)" by (rule arg_cong)
  from this [unfolded unat_data_pos [OF assms(1,2)] unat_inode_pos [OF assms(1,3)], THEN times_512_cancel] show False using assms(3) by (simp add: data_start_def)
qed

lemma inode_not_bitmap:
  assumes "geometry N sb" "n div 16 < unat (sb_inode_block_count sb)" "i < unat (sb_bitmap_block_count sb)"
  shows "inode_pos sb n \<noteq> bitmap_pos sb (of_nat i)"
proof
  assume "inode_pos sb n = bitmap_pos sb (of_nat i)"
  then have "unat (inode_pos sb n) = unat (bitmap_pos sb (of_nat i))" by (rule arg_cong)
  from this [unfolded unat_inode_pos [OF assms(1,2)] unat_bitmap_pos [OF assms(1,3)], THEN times_512_cancel] show False using assms(3) by (simp add: data_start_def)
qed

section \<open>Taken and free data blocks\<close>

definition data_bit :: "disk_view \<Rightarrow> ktfs_superblock \<Rightarrow> nat \<Rightarrow> bool" where
  "data_bit V sb n = bit_at (V (bitmap_pos sb (of_nat (n div 4096)))) (n mod 4096)"

definition set_data_bit :: "disk_view \<Rightarrow> ktfs_superblock \<Rightarrow> nat \<Rightarrow> bool \<Rightarrow> disk_view" where
  "set_data_bit V sb n v =
     (let p = bitmap_pos sb (of_nat (n div 4096)) in V(p := put_bit (n mod 4096) v (V p)))"

definition bits_of :: "ktfs_superblock \<Rightarrow> nat" where
  "bits_of sb = 4096 * unat (sb_bitmap_block_count sb)"

text \<open>A usable file system: the blocks that the bitmap offers lie on the disk, and block 0,
  whose number stands for an empty slot, is taken.\<close>

definition fs_ok :: "disk_view \<Rightarrow> nat \<Rightarrow> ktfs_superblock \<Rightarrow> bool" where
  "fs_ok V N sb \<longleftrightarrow>
     geometry N sb \<and> (\<forall>p. in_disk N p \<longrightarrow> length (V p) = 512) \<and>
     0 < bits_of sb \<and> data_bit V sb 0 \<and>
     (\<forall>n<bits_of sb. \<not> data_bit V sb n \<longrightarrow> 512 * (data_start sb + n) + 512 \<le> N)"

lemma div_bits: "n < bits_of sb \<Longrightarrow> n div 4096 < unat (sb_bitmap_block_count sb)"
  by (simp add: bits_of_def less_mult_imp_div_less)

lemma fs_ok_geometry: "fs_ok V N sb \<Longrightarrow> geometry N sb"
  by (simp add: fs_ok_def)

lemma data_bit_set:
  assumes ok: "fs_ok V N sb" and n: "n < bits_of sb" and m: "m < bits_of sb"
  shows "data_bit (set_data_bit V sb n v) sb m = (if m = n then v else data_bit V sb m)"
proof -
  note g = fs_ok_geometry [OF ok]
  have len: "length (V (bitmap_pos sb (of_nat (m div 4096)))) = 512"
    using ok bitmap_in_disk [OF g div_bits [OF m]] by (simp add: fs_ok_def)
  have pos: "bitmap_pos sb (of_nat (m div 4096)) = bitmap_pos sb (of_nat (n div 4096)) \<longleftrightarrow> m div 4096 = n div 4096"
    using bitmap_pos_inj [OF g div_bits [OF m] div_bits [OF n]] by simp
  have eq: "m = n \<longleftrightarrow> m div 4096 = n div 4096 \<and> m mod 4096 = n mod 4096"
    by (metis div_mult_mod_eq)
  have "m mod 4096 div 8 < 512" by (simp add: less_mult_imp_div_less)
  then show ?thesis
    using len pos eq by (auto simp: data_bit_def set_data_bit_def Let_def bit_at_put)
qed

lemma set_data_bit_data:
  assumes "fs_ok V N sb" and "n < bits_of sb" and "valid_idx N sb a"
  shows "set_data_bit V sb n v (data_pos sb a) = V (data_pos sb a)"
  using data_not_bitmap [OF fs_ok_geometry [OF assms(1)] assms(3) div_bits [OF assms(2)]]
  by (simp add: set_data_bit_def Let_def)

lemma data_bit_upd_data:
  assumes "geometry N sb" and "valid_idx N sb a" and "n < bits_of sb"
  shows "data_bit (V(data_pos sb a := bs)) sb n = data_bit V sb n"
  using data_not_bitmap [OF assms(1,2) div_bits [OF assms(3)]] by (auto simp: data_bit_def)

text \<open>Free blocks can be named by a 32-bit number.\<close>

lemma free_block:
  assumes ok: "fs_ok V N sb" and n: "n < bits_of sb" "\<not> data_bit V sb n"
  shows "n < 2 ^ 23" "unat (of_nat n :: u32) = n" "valid_idx N sb (of_nat n)" "(of_nat n :: u32) \<noteq> 0" "n \<noteq> 0"
    "sint (of_nat n :: u32) = int n" "word_of_int (int n) = (of_nat n :: u32)"
proof -
  have le: "512 * (data_start sb + n) + 512 \<le> N" "N < 2 ^ 32"
    using ok n by (auto simp: fs_ok_def geometry_def)
  then show lt: "n < 2 ^ 23" by simp
  then show u: "unat (of_nat n :: u32) = n" by (intro unat_word_of_nat_small) simp
  show "n \<noteq> 0" using ok n(2) by (metis fs_ok_def)
  then show "(of_nat n :: u32) \<noteq> 0" using u by auto
  show "valid_idx N sb (of_nat n)" using le u by (simp add: valid_idx_def)
  show "sint (of_nat n :: u32) = int n"
    using lt by (simp add: signed_of_nat) (intro signed_take_bit_int_eq_self; simp)
  show "word_of_int (int n) = (of_nat n :: u32)" by simp
qed

section \<open>The block map of a file\<close>

text \<open>
  The slots of a file: its data blocks, the indirect block, the two doubly indirect blocks and
  the second-level pointer blocks.  \<open>up\<close> gives the pointer block that holds a slot and the
  entry in it; the other slots are fields of the inode.
\<close>

datatype slot = Data nat | Single | Double nat | Second nat

abbreviation (input) MAX_BLOCKS :: nat where "MAX_BLOCKS \<equiv> 32900"

fun is_slot :: "slot \<Rightarrow> bool" where
  "is_slot (Data i) = (i < MAX_BLOCKS)"
| "is_slot Single = True"
| "is_slot (Double d) = (d < 2)"
| "is_slot (Second m) = (m < 256)"

fun up :: "slot \<Rightarrow> (slot \<times> nat) option" where
  "up (Data i) =
     (if i < 4 then None else if i < 132 then Some (Single, i - 4)
      else Some (Second ((i - 132) div 128), (i - 132) mod 128))"
| "up (Second m) = Some (Double (m div 128), m mod 128)"
| "up Single = None"
| "up (Double d) = None"

fun inode_slot :: "ktfs_inode \<Rightarrow> slot \<Rightarrow> u32" where
  "inode_slot ino (Data i) = ino_block ino ! i"
| "inode_slot ino Single = ino_indirect ino"
| "inode_slot ino (Double d) = ino_dindirect ino ! d"
| "inode_slot ino (Second m) = 0"

fun slot_rank :: "slot \<Rightarrow> nat" where
  "slot_rank (Data i) = 2"
| "slot_rank (Second m) = 1"
| "slot_rank s = 0"

lemma up_rank: "up s = Some (t, i) \<Longrightarrow> slot_rank t < slot_rank s"
  by (cases s) (auto split: if_splits)

lemma up_is_slot: "up s = Some (t, i) \<Longrightarrow> is_slot s \<Longrightarrow> is_slot t \<and> i < 128"
  by (cases s) (auto split: if_splits simp: less_mult_imp_div_less)

lemma up_inj: "up s = Some x \<Longrightarrow> up t = Some x \<Longrightarrow> s = t"
proof (cases s; cases t)
  fix i j assume *: "up s = Some x" "up t = Some x" "s = Data i" "t = Data j"
  show "s = t"
  proof (cases "i < 132 \<or> j < 132")
    case False
    then have "(i - 132) div 128 = (j - 132) div 128" "(i - 132) mod 128 = (j - 132) mod 128"
      using * by auto
    then have "i - 132 = j - 132" by (metis div_mult_mod_eq)
    with False * show ?thesis by auto
  qed (use * in \<open>auto split: if_splits\<close>)
next
  fix i j assume *: "up s = Some x" "up t = Some x" "s = Second i" "t = Second j"
  then have "i div 128 = j div 128" "i mod 128 = j mod 128" by auto
  then have "i = j" by (metis div_mult_mod_eq)
  with * show "s = t" by simp
qed (auto split: if_splits)

function slot_ptr :: "disk_view \<Rightarrow> ktfs_superblock \<Rightarrow> ktfs_inode \<Rightarrow> slot \<Rightarrow> u32" where
  "slot_ptr V sb ino s =
     (case up s of
        None \<Rightarrow> inode_slot ino s
      | Some (t, i) \<Rightarrow>
          let p = slot_ptr V sb ino t in if p = 0 then 0 else ptr_at (V (data_pos sb p)) i)"
  by pat_completeness auto
termination
  by (relation "measure (\<lambda>(V, sb, ino, s). slot_rank s)") (auto dest: up_rank)

declare slot_ptr.simps [simp del]

lemma slot_ptr_root: "up s = None \<Longrightarrow> slot_ptr V sb ino s = inode_slot ino s"
  by (simp add: slot_ptr.simps)

lemma slot_ptr_up:
  "up s = Some (t, i) \<Longrightarrow>
     slot_ptr V sb ino s =
       (if slot_ptr V sb ino t = 0 then 0 else ptr_at (V (data_pos sb (slot_ptr V sb ino t))) i)"
  by (subst slot_ptr.simps) (simp add: Let_def)

text \<open>A sound file: every filled slot names a taken block of the disk, no two the same.\<close>

definition file_ok :: "disk_view \<Rightarrow> nat \<Rightarrow> ktfs_superblock \<Rightarrow> ktfs_inode \<Rightarrow> bool" where
  "file_ok V N sb ino \<longleftrightarrow>
     inode_wf ino \<and>
     (\<forall>s. is_slot s \<and> slot_ptr V sb ino s \<noteq> 0 \<longrightarrow>
        valid_idx N sb (slot_ptr V sb ino s) \<and> unat (slot_ptr V sb ino s) < bits_of sb \<and>
        data_bit V sb (unat (slot_ptr V sb ino s))) \<and>
     (\<forall>s t. is_slot s \<and> is_slot t \<and> slot_ptr V sb ino s = slot_ptr V sb ino t \<and> slot_ptr V sb ino s \<noteq> 0 \<longrightarrow> s = t)"

text \<open>The slots that name pointer blocks.\<close>

definition ptr_slot :: "slot \<Rightarrow> bool" where
  "ptr_slot s \<longleftrightarrow> (\<forall>i. s \<noteq> Data i)"

lemma up_ptr_slot: "up s = Some (t, i) \<Longrightarrow> ptr_slot t"
  by (cases s) (auto simp: ptr_slot_def split: if_splits)

text \<open>
  Filling an empty slot \<open>s\<close> with a fresh block, either in the inode or in the pointer block that
  holds it, changes this slot of the map and no other.
\<close>

lemma slot_ptr_link:
  assumes root: "\<And>t. is_slot t \<Longrightarrow> up t = None \<Longrightarrow> inode_slot ino' t = (if t = s then new else inode_slot ino t)"
    and blocks: "\<And>u i. is_slot u \<Longrightarrow> slot_ptr V sb ino u \<noteq> 0 \<Longrightarrow> ptr_slot u \<Longrightarrow> i < 128 \<Longrightarrow>
        ptr_at (V' (data_pos sb (slot_ptr V sb ino u))) i =
          (if up s = Some (u, i) then new else ptr_at (V (data_pos sb (slot_ptr V sb ino u))) i)"
    and clear: "\<And>i. ptr_slot s \<Longrightarrow> i < 128 \<Longrightarrow> ptr_at (V' (data_pos sb new)) i = 0"
    and s: "is_slot s" "slot_ptr V sb ino s = 0" "new \<noteq> 0"
    and parent: "\<And>u i. up s = Some (u, i) \<Longrightarrow> slot_ptr V sb ino u \<noteq> 0"
    and t: "is_slot t"
  shows "slot_ptr V' sb ino' t = (if t = s then new else slot_ptr V sb ino t)"
  using t
proof (induction "slot_rank t" arbitrary: t rule: less_induct)
  case less
  show ?case
  proof (cases "up t")
    case None
    then show ?thesis using root [OF less(2) None] by (simp add: slot_ptr_root)
  next
    case (Some x)
    then obtain u i where up: "up t = Some (u, i)" by (cases x) auto
    note us = up_is_slot [OF up less(2)]
    have IH: "slot_ptr V' sb ino' u = (if u = s then new else slot_ptr V sb ino u)"
      using less(1) [OF up_rank [OF up]] us by simp
    show ?thesis
    proof (cases "u = s")
      case True
      then have "t \<noteq> s" using up_rank [OF up] by auto
      moreover have "slot_ptr V sb ino t = 0" using True s(2) by (simp add: slot_ptr_up [OF up])
      moreover have "slot_ptr V' sb ino' t = 0"
        using IH True clear [of i] us up_ptr_slot [OF up] by (simp add: slot_ptr_up [OF up])
      ultimately show ?thesis by simp
    next
      case False
      with IH have q: "slot_ptr V' sb ino' u = slot_ptr V sb ino u" by simp
      show ?thesis
      proof (cases "slot_ptr V sb ino u = 0")
        case True
        then have "t \<noteq> s" using parent up by auto
        with True q show ?thesis by (simp add: slot_ptr_up [OF up])
      next
        case ne: False
        have "up s = Some (u, i) \<longleftrightarrow> t = s" using up_inj up by metis
        moreover have "ptr_at (V' (data_pos sb (slot_ptr V sb ino u))) i =
            (if up s = Some (u, i) then new else ptr_at (V (data_pos sb (slot_ptr V sb ino u))) i)"
          using blocks ne up_ptr_slot [OF up] us by blast
        ultimately show ?thesis using ne unfolding slot_ptr_up [OF up] q by simp
      qed
    qed
  qed
qed

section \<open>How an operation extends a file\<close>

text \<open>
  The effect of allocating on the file that allocates and on the rest of the disk: the file
  stays sound and keeps its blocks, new blocks were free before, and what changes are bitmap
  blocks, pointer blocks of the file and blocks that were free.
\<close>

definition file_grows ::
    "nat \<Rightarrow> ktfs_superblock \<Rightarrow> disk_view \<Rightarrow> ktfs_inode \<Rightarrow> disk_view \<Rightarrow> ktfs_inode \<Rightarrow> bool" where
  "file_grows N sb V ino V' ino' \<longleftrightarrow>
     fs_ok V' N sb \<and> file_ok V' N sb ino' \<and> ino_size ino' = ino_size ino \<and>
     (\<forall>s. is_slot s \<and> slot_ptr V sb ino s \<noteq> 0 \<longrightarrow> slot_ptr V' sb ino' s = slot_ptr V sb ino s) \<and>
     (\<forall>s. is_slot s \<and> slot_ptr V sb ino s = 0 \<and> slot_ptr V' sb ino' s \<noteq> 0 \<longrightarrow>
        \<not> data_bit V sb (unat (slot_ptr V' sb ino' s))) \<and>
     (\<forall>n<bits_of sb. data_bit V' sb n \<longleftrightarrow>
        data_bit V sb n \<or> (\<exists>s. is_slot s \<and> slot_ptr V' sb ino' s \<noteq> 0 \<and> unat (slot_ptr V' sb ino' s) = n)) \<and>
     (\<forall>a. valid_idx N sb a \<and> unat a < bits_of sb \<and> data_bit V sb (unat a) \<and>
        (\<forall>u. is_slot u \<and> ptr_slot u \<and> slot_ptr V sb ino u \<noteq> 0 \<longrightarrow> slot_ptr V sb ino u \<noteq> a) \<longrightarrow> V' (data_pos sb a) = V (data_pos sb a)) \<and>
     (\<forall>p. (\<forall>i<unat (sb_bitmap_block_count sb). p \<noteq> bitmap_pos sb (of_nat i)) \<and>
        (\<forall>a. valid_idx N sb a \<longrightarrow> p \<noteq> data_pos sb a) \<longrightarrow> V' p = V p)"

lemma file_ok_bit:
  assumes "file_ok V N sb ino" and "is_slot s" and "fs_ok V N sb"
  shows "data_bit V sb (unat (slot_ptr V sb ino s))"
  using assms by (cases "slot_ptr V sb ino s = 0") (auto simp: file_ok_def fs_ok_def)

lemma file_grows_refl: "fs_ok V N sb \<Longrightarrow> file_ok V N sb ino \<Longrightarrow> file_grows N sb V ino V ino"
  by (auto simp: file_grows_def dest: file_ok_bit)

lemma file_grows_trans:
  assumes 1: "file_grows N sb V ino V1 ino1" and 2: "file_grows N sb V1 ino1 V2 ino2"
  shows "file_grows N sb V ino V2 ino2"
proof -
  have keep: "is_slot s \<Longrightarrow> slot_ptr V sb ino s \<noteq> 0 \<Longrightarrow> slot_ptr V1 sb ino1 s = slot_ptr V sb ino s"
    "is_slot s \<Longrightarrow> slot_ptr V1 sb ino1 s \<noteq> 0 \<Longrightarrow> slot_ptr V2 sb ino2 s = slot_ptr V1 sb ino1 s" for s
    using 1 2 by (auto simp: file_grows_def)
  have bits: "n < bits_of sb \<Longrightarrow> data_bit V sb n \<Longrightarrow> data_bit V1 sb n" for n
    using 1 by (simp add: file_grows_def)
  have lt: "is_slot s \<Longrightarrow> slot_ptr V2 sb ino2 s \<noteq> 0 \<Longrightarrow> unat (slot_ptr V2 sb ino2 s) < bits_of sb" for s
    using 2 by (auto simp: file_grows_def file_ok_def)
  have new: "\<not> data_bit V sb (unat (slot_ptr V2 sb ino2 s))"
    if s: "is_slot s" "slot_ptr V sb ino s = 0" "slot_ptr V2 sb ino2 s \<noteq> 0" for s
  proof (cases "slot_ptr V1 sb ino1 s = 0")
    case True
    then have "\<not> data_bit V1 sb (unat (slot_ptr V2 sb ino2 s))" using 2 s by (auto simp: file_grows_def)
    then show ?thesis using bits lt [OF s(1,3)] by blast
  next
    case False
    then show ?thesis using 1 s keep(2) by (auto simp: file_grows_def)
  qed
  let ?in = "\<lambda>V ino n. \<exists>s. is_slot s \<and> slot_ptr V sb ino s \<noteq> 0 \<and> unat (slot_ptr V sb ino s) = n"
  have set: "data_bit V2 sb n \<longleftrightarrow> data_bit V sb n \<or> ?in V2 ino2 n" if n: "n < bits_of sb" for n
  proof -
    have "data_bit V2 sb n \<longleftrightarrow> data_bit V1 sb n \<or> ?in V2 ino2 n"
      "data_bit V1 sb n \<longleftrightarrow> data_bit V sb n \<or> ?in V1 ino1 n"
      using 1 2 n by (simp_all add: file_grows_def)
    moreover have "?in V1 ino1 n \<Longrightarrow> ?in V2 ino2 n" using keep(2) by metis
    ultimately show ?thesis by blast
  qed
  have frame: "V2 (data_pos sb a) = V (data_pos sb a)"
    if a: "valid_idx N sb a" "unat a < bits_of sb" "data_bit V sb (unat a)"
      "\<And>u. is_slot u \<Longrightarrow> ptr_slot u \<Longrightarrow> slot_ptr V sb ino u \<noteq> 0 \<Longrightarrow> slot_ptr V sb ino u \<noteq> a" for a
  proof -
    have V1: "V1 (data_pos sb a) = V (data_pos sb a)" using 1 a by (simp add: file_grows_def)
    have "slot_ptr V1 sb ino1 u \<noteq> a" if u: "is_slot u" "ptr_slot u" "slot_ptr V1 sb ino1 u \<noteq> 0" for u
    proof (cases "slot_ptr V sb ino u = 0")
      case True
      then have "\<not> data_bit V sb (unat (slot_ptr V1 sb ino1 u))" using 1 u by (simp add: file_grows_def)
      then show ?thesis using a(3) by auto
    next
      case False
      then show ?thesis using a(4) [OF u(1,2)] keep(1) u by simp
    qed
    with V1 a bits [OF a(2,3)] 2 show ?thesis by (simp add: file_grows_def)
  qed
  have rest: "V2 p = V p"
    if "\<And>i. i < unat (sb_bitmap_block_count sb) \<Longrightarrow> p \<noteq> bitmap_pos sb (of_nat i)"
      "\<And>a. valid_idx N sb a \<Longrightarrow> p \<noteq> data_pos sb a" for p
    using 1 2 that by (simp add: file_grows_def)
  show ?thesis
    unfolding file_grows_def
    using 1 2 keep new set frame rest by (intro conjI allI impI) (simp_all add: file_grows_def)
qed

end
