(* ===== verification/KtfsAlloc.thy ===== *)
theory KtfsAlloc
  imports KtfsOps KtfsTree
begin

text \<open>
  What the block operations of the file system do, over a disk that answers: the bitmap
  operations act on single bits, a search finds the first clear bit, and
  \<open>get_or_alloc_data_block\<close> fills one empty slot of the file and leaves every other file alone.
\<close>

section \<open>Bitmaps\<close>

lemma first_clear_Some:
  "first_clear bs = Some b \<Longrightarrow> b < 4096 \<and> \<not> bit_at bs b \<and> (\<forall>a<b. bit_at bs a)"
  by (auto simp: first_clear_def find_Some_iff)

lemma first_clear_None: "first_clear bs = None \<longleftrightarrow> (\<forall>b<4096. bit_at bs b)"
  by (auto simp: first_clear_def find_None_iff)

text \<open>The search over the bitmap blocks, on the disk as seen.\<close>

fun first_free :: "(nat \<Rightarrow> bytes) \<Rightarrow> nat list \<Rightarrow> nat option" where
  "first_free blk [] = None"
| "first_free blk (i # is) =
     (case first_clear (blk i) of Some b \<Rightarrow> Some (i * 4096 + b) | None \<Rightarrow> first_free blk is)"

lemma first_free_least:
  "(case first_free blk [a..<a + m] of
      None \<Rightarrow> \<forall>n. 4096 * a \<le> n \<and> n < 4096 * (a + m) \<longrightarrow> bit_at (blk (n div 4096)) (n mod 4096)
    | Some n \<Rightarrow> n < 4096 * (a + m) \<and> \<not> bit_at (blk (n div 4096)) (n mod 4096) \<and>
        (\<forall>k. 4096 * a \<le> k \<and> k < n \<longrightarrow> bit_at (blk (k div 4096)) (k mod 4096)))"
proof (induction m arbitrary: a)
  case (Suc m)
  have upt: "[a..<a + Suc m] = a # [Suc a..<Suc a + m]" by (simp add: upt_conv_Cons)
  have split: "4096 * a \<le> n \<Longrightarrow> \<not> 4096 * Suc a \<le> n \<Longrightarrow> n div 4096 = a \<and> n mod 4096 = n - 4096 * a" for n
    by (auto simp: div_nat_eqI mod_nat_eqI)
  show ?case
  proof (cases "first_clear (blk a)")
    case None
    then have full: "bit_at (blk a) b" if "b < 4096" for b using that by (simp add: first_clear_None)
    have here: "bit_at (blk (n div 4096)) (n mod 4096)" if "4096 * a \<le> n" "\<not> 4096 * Suc a \<le> n" for n
      using conjunct1 [OF split [OF that]] full [of "n mod 4096"] by simp
    show ?thesis
    proof (cases "first_free blk [Suc a..<Suc a + m]")
      case N: None
      have "bit_at (blk (n div 4096)) (n mod 4096)" if "4096 * a \<le> n" "n < 4096 * (a + Suc m)" for n
        using here [OF that(1)] Suc [of "Suc a"] N that(2) by (cases "4096 * Suc a \<le> n") simp_all
      with None N show ?thesis unfolding upt by simp
    next
      case S: (Some x)
      have x: "x < 4096 * (a + Suc m)" "\<not> bit_at (blk (x div 4096)) (x mod 4096)"
        "\<And>k. 4096 * Suc a \<le> k \<Longrightarrow> k < x \<Longrightarrow> bit_at (blk (k div 4096)) (k mod 4096)"
        using Suc [of "Suc a"] S by simp_all
      have "bit_at (blk (k div 4096)) (k mod 4096)" if "4096 * a \<le> k" "k < x" for k
        using here [OF that(1)] x(3) [OF _ that(2)] by (cases "4096 * Suc a \<le> k") simp_all
      with None S x(1,2) show ?thesis unfolding upt by simp
    qed
  next
    case (Some b)
    from first_clear_Some [OF this] have b: "b < 4096" "\<not> bit_at (blk a) b" "\<forall>c<b. bit_at (blk a) c" by auto
    have "bit_at (blk (k div 4096)) (k mod 4096)" if k: "4096 * a \<le> k" "k < a * 4096 + b" for k
      using split [OF k(1)] k b by auto
    then show ?thesis using Some b unfolding upt by (simp add: mult.commute)
  qed
qed auto

context steady_disk
begin

lemma get_inode_steady:
  assumes rel: "cache_rel img ready V N H W c" and p: "in_disk N (inode_pos sb (unat n))" and room: "size H < 64"
  shows "\<exists>c'. get_inode intf sb n c = (Inr (inode_at (V (inode_pos sb (unat n))) (unat n mod 16)), c') \<and>
     cache_rel img ready V N H W c'"
proof -
  from get_steady [OF rel p room] obtain k c1 where g: "kget intf (inode_pos sb (unat n)) c = (Inr k, c1)"
    and r1: "cache_rel img ready V N (add_mset (k, inode_pos sb (unat n)) H) W c1" by auto
  have "block_bytes k c1 = V (inode_pos sb (unat n))" by (rule cache_rel_bytes [OF r1]) simp
  moreover have "cache_rel img ready V N H W (cache_release_block k False c1)"
    by (rule release_clean_steady [OF r1 cache_rel_written [OF rel]])
  ultimately show ?thesis using g by (simp add: get_inode_def)
qed

text \<open>Getting a block, changing its buffer and giving it back as dirty.\<close>

lemma update_block_steady:
  assumes rel: "cache_rel img ready V N (add_mset (k, p) H) W c" and W: "W \<subseteq> fst ` set_mset H"
    and len: "length bs = 512"
  shows "cache_rel img ready (V(p := bs)) N H W (cache_release_block k True (cache_write_buf k bs c))"
proof -
  have "cache_rel img ready (V(p := bs)) N (add_mset (k, p) H) (insert k W) (cache_write_buf k bs c)"
    by (rule write_steady [OF rel _ len]) simp
  then show ?thesis using W by (intro release_dirty_steady) auto
qed

lemma set_data_block_status_steady:
  assumes rel: "cache_rel img ready V N H W c" and room: "size H < 64"
    and ok: "fs_ok V N sb" and n: "unat a < bits_of sb"
  shows "cache_rel img ready (set_data_bit V sb (unat a) v) N H W (set_data_block_status intf sb a v c)"
proof -
  let ?p = "bitmap_pos sb (of_nat (unat a div 4096))"
  note g = fs_ok_geometry [OF ok]
  have p: "in_disk N ?p" by (rule bitmap_in_disk [OF g div_bits [OF n]])
  have w: "bitmap_pos sb (a div 4096) = ?p"
    by (simp add: word_arith_nat_div)
  from get_steady [OF rel p room] obtain k c1 where k: "kget intf ?p c = (Inr k, c1)"
    and r1: "cache_rel img ready V N (add_mset (k, ?p) H) W c1" by auto
  have b: "block_bytes k c1 = V ?p" by (rule cache_rel_bytes [OF r1]) simp
  have "length (V ?p) = 512" by (rule cache_rel_length [OF rel p])
  then have "cache_rel img ready (V(?p := put_bit (unat a mod 4096) v (V ?p))) N H W
      (cache_release_block k True (cache_write_buf k (put_bit (unat a mod 4096) v (V ?p)) c1))"
    by (intro update_block_steady [OF r1 cache_rel_written [OF rel]]) simp
  then show ?thesis using k b w by (simp add: set_data_block_status_def set_data_bit_def Let_def)
qed

lemma find_free_data_block_loop_steady:
  assumes "cache_rel img ready V N H W c" and "size H < 64" and "geometry N sb"
    and "\<forall>i\<in>set is. i < unat (sb_bitmap_block_count sb)"
  shows "\<exists>c'. find_free_data_block_loop intf sb is c =
       (case first_free (\<lambda>i. V (bitmap_pos sb (of_nat i))) is of
          None \<Rightarrow> - ENOTSUP | Some n \<Rightarrow> sint (of_nat n :: u32), c') \<and>
     cache_rel img ready V N H W c'"
  using assms(1,4)
proof (induction "is" arbitrary: c)
  case (Cons i "is")
  let ?p = "bitmap_pos sb (of_nat i)"
  have p: "in_disk N ?p" by (rule bitmap_in_disk [OF assms(3)]) (use Cons.prems in simp)
  from get_steady [OF Cons.prems(1) p assms(2)] obtain k c1 where k: "kget intf ?p c = (Inr k, c1)"
    and r1: "cache_rel img ready V N (add_mset (k, ?p) H) W c1" by auto
  have b: "block_bytes k c1 = V ?p" by (rule cache_rel_bytes [OF r1]) simp
  have r2: "cache_rel img ready V N H W (cache_release_block k False c1)"
    by (rule release_clean_steady [OF r1 cache_rel_written [OF Cons.prems(1)]])
  show ?case
  proof (cases "first_clear (V ?p)")
    case None
    then show ?thesis using Cons.IH [OF r2] Cons.prems k b by simp
  next
    case (Some n)
    then show ?thesis using r2 k b by simp
  qed
qed simp

lemma find_free_data_block_steady:
  assumes rel: "cache_rel img ready V N H W c" and room: "size H < 64" and ok: "fs_ok V N sb"
  shows "\<exists>r c'. find_free_data_block intf sb c = (r, c') \<and> cache_rel img ready V N H W c' \<and>
     (r = - ENOTSUP \<and> (\<forall>n<bits_of sb. data_bit V sb n) \<or>
      (\<exists>n<bits_of sb. r = int n \<and> \<not> data_bit V sb n \<and> (\<forall>m<n. data_bit V sb m)))"
proof -
  let ?f = "first_free (\<lambda>i. V (bitmap_pos sb (of_nat i))) [0..<unat (sb_bitmap_block_count sb)]"
  from find_free_data_block_loop_steady [OF rel room fs_ok_geometry [OF ok], of "[0..<unat (sb_bitmap_block_count sb)]"]
  obtain c' where c': "find_free_data_block intf sb c = (case ?f of None \<Rightarrow> - ENOTSUP | Some n \<Rightarrow> sint (of_nat n :: u32), c')"
    "cache_rel img ready V N H W c'" by (auto simp: find_free_data_block_def)
  note least = first_free_least [where blk = "\<lambda>i. V (bitmap_pos sb (of_nat i))" and a = 0 and m = "unat (sb_bitmap_block_count sb)", simplified]
  show ?thesis
  proof (cases ?f)
    case None
    then show ?thesis using c' least by (auto simp: data_bit_def bits_of_def)
  next
    case (Some n)
    then have n: "n < bits_of sb" "\<not> data_bit V sb n" "\<forall>m<n. data_bit V sb m"
      using least by (auto simp: data_bit_def bits_of_def)
    then show ?thesis using c' Some free_block(6) [OF ok n(1,2)] by auto
  qed
qed

end

section \<open>Taking a block and linking it\<close>

definition take_block :: "disk_view \<Rightarrow> ktfs_superblock \<Rightarrow> nat \<Rightarrow> bool \<Rightarrow> disk_view" where
  "take_block V sb n zeroed =
     (let W = set_data_bit V sb n True
      in if zeroed then W(data_pos sb (of_nat n) := replicate 512 0) else W)"

definition link_block :: "disk_view \<Rightarrow> ktfs_superblock \<Rightarrow> (u32 \<times> nat) option \<Rightarrow> u32 \<Rightarrow> disk_view" where
  "link_block V sb par new =
     (case par of None \<Rightarrow> V | Some (p, i) \<Rightarrow> V(data_pos sb p := put_ptr i new (V (data_pos sb p))))"

lemma in_disk_set_data_bit:
  "fs_ok V N sb \<Longrightarrow> n < bits_of sb \<Longrightarrow> in_disk N p \<Longrightarrow> length (set_data_bit V sb n v p) = 512"
  by (auto simp: set_data_bit_def Let_def fs_ok_def)

lemma ptr_at_zeros: "i < 128 \<Longrightarrow> ptr_at (replicate 512 0) i = 0"
  by (simp add: ptr_at_def get_u32_def)

lemma take_block_facts:
  assumes ok: "fs_ok V N sb" and n: "n < bits_of sb" "\<not> data_bit V sb n"
  shows "fs_ok (take_block V sb n z) N sb"
    "\<And>m. m < bits_of sb \<Longrightarrow> data_bit (take_block V sb n z) sb m \<longleftrightarrow> data_bit V sb m \<or> m = n"
    "\<And>a. valid_idx N sb a \<Longrightarrow> a \<noteq> of_nat n \<Longrightarrow> take_block V sb n z (data_pos sb a) = V (data_pos sb a)"
    "z \<Longrightarrow> take_block V sb n z (data_pos sb (of_nat n)) = replicate 512 0"
    "\<And>p. (\<And>i. i < unat (sb_bitmap_block_count sb) \<Longrightarrow> p \<noteq> bitmap_pos sb (of_nat i)) \<Longrightarrow>
       (\<And>a. valid_idx N sb a \<Longrightarrow> p \<noteq> data_pos sb a) \<Longrightarrow> take_block V sb n z p = V p"
proof -
  note g = fs_ok_geometry [OF ok] and f = free_block [OF ok n]
  show bits: "data_bit (take_block V sb n z) sb m \<longleftrightarrow> data_bit V sb m \<or> m = n" if "m < bits_of sb" for m
    using data_bit_set [OF ok n(1) that] data_bit_upd_data [OF g f(3) that] by (simp add: take_block_def Let_def)
  show "fs_ok (take_block V sb n z) N sb"
    unfolding fs_ok_def
  proof (intro conjI allI impI)
    show "length (take_block V sb n z p) = 512" if "in_disk N p" for p
      using in_disk_set_data_bit [OF ok n(1) that] by (simp add: take_block_def Let_def)
  qed (use ok bits in \<open>auto simp: fs_ok_def\<close>)
  show "take_block V sb n z (data_pos sb a) = V (data_pos sb a)" if "valid_idx N sb a" "a \<noteq> of_nat n" for a
    using set_data_bit_data [OF ok n(1) that(1)] data_pos_inj [OF g that(1) f(3)] that(2)
    by (simp add: take_block_def Let_def)
  show "z \<Longrightarrow> take_block V sb n z (data_pos sb (of_nat n)) = replicate 512 0"
    by (simp add: take_block_def Let_def)
  show "take_block V sb n z p = V p"
    if p: "\<And>i. i < unat (sb_bitmap_block_count sb) \<Longrightarrow> p \<noteq> bitmap_pos sb (of_nat i)"
      "\<And>a. valid_idx N sb a \<Longrightarrow> p \<noteq> data_pos sb a" for p
    using p(1) [OF div_bits [OF n(1)]] p(2) [OF f(3)] by (simp add: take_block_def set_data_bit_def Let_def)
qed

lemma link_block_facts:
  assumes ok: "fs_ok V N sb" and pars: "\<forall>p i. par = Some (p, i) \<longrightarrow> valid_idx N sb p \<and> i < 128"
  shows "fs_ok (link_block V sb par new) N sb"
    "\<And>m. m < bits_of sb \<Longrightarrow> data_bit (link_block V sb par new) sb m = data_bit V sb m"
    "\<And>a. valid_idx N sb a \<Longrightarrow> (\<And>p i. par = Some (p, i) \<Longrightarrow> a \<noteq> p) \<Longrightarrow>
       link_block V sb par new (data_pos sb a) = V (data_pos sb a)"
    "\<And>p i j. par = Some (p, i) \<Longrightarrow> j < 128 \<Longrightarrow>
       ptr_at (link_block V sb par new (data_pos sb p)) j = (if j = i then new else ptr_at (V (data_pos sb p)) j)"
    "\<And>p. (\<And>a. valid_idx N sb a \<Longrightarrow> p \<noteq> data_pos sb a) \<Longrightarrow> link_block V sb par new p = V p"
proof -
  note g = fs_ok_geometry [OF ok]
  have par: "valid_idx N sb p \<and> i < 128" if "par = Some (p, i)" for p i using pars that by blast
  have len: "length (V (data_pos sb p)) = 512" if "par = Some (p, i)" for p i
    using data_in_disk [OF g] par [OF that] ok by (simp add: fs_ok_def)
  show bits: "data_bit (link_block V sb par new) sb m = data_bit V sb m" if "m < bits_of sb" for m
    using data_bit_upd_data [OF g _ that] par by (auto simp: link_block_def split: option.splits)
  show "fs_ok (link_block V sb par new) N sb"
    unfolding fs_ok_def
  proof (intro conjI allI impI)
    show "length (link_block V sb par new p) = 512" if "in_disk N p" for p
      using ok len par that by (auto simp: link_block_def fs_ok_def split: option.splits)
  qed (use ok bits in \<open>auto simp: fs_ok_def\<close>)
  show "link_block V sb par new (data_pos sb a) = V (data_pos sb a)"
    if "valid_idx N sb a" "\<And>p i. par = Some (p, i) \<Longrightarrow> a \<noteq> p" for a
    using data_pos_inj [OF g that(1)] par that(2) by (auto simp: link_block_def split: option.splits)
  show "ptr_at (link_block V sb par new (data_pos sb p)) j = (if j = i then new else ptr_at (V (data_pos sb p)) j)"
    if "par = Some (p, i)" "j < 128" for p i j
    using that len [OF that(1)] par [OF that(1)] by (auto simp: link_block_def ptr_at_put)
  show "link_block V sb par new p = V p" if "\<And>a. valid_idx N sb a \<Longrightarrow> p \<noteq> data_pos sb a" for p
    using par that by (auto simp: link_block_def split: option.splits)
qed

text \<open>Where a slot is held: the pointer block and the entry, or nowhere for a field of the inode.\<close>

definition slot_home :: "disk_view \<Rightarrow> ktfs_superblock \<Rightarrow> ktfs_inode \<Rightarrow> slot \<Rightarrow> (u32 \<times> nat) option" where
  "slot_home V sb ino s = map_option (\<lambda>(u, i). (slot_ptr V sb ino u, i)) (up s)"

lemma link_grows:
  assumes ok: "fs_ok V N sb" and fok: "file_ok V N sb ino"
    and s: "is_slot s" "slot_ptr V sb ino s = 0" and z: "ptr_slot s \<Longrightarrow> zeroed"
    and n: "n < bits_of sb" "\<not> data_bit V sb n"
    and parent: "\<And>u i. up s = Some (u, i) \<Longrightarrow> slot_ptr V sb ino u \<noteq> 0"
    and ino: "inode_wf ino'" "ino_size ino' = ino_size ino"
      "\<And>t. is_slot t \<Longrightarrow> up t = None \<Longrightarrow> inode_slot ino' t = (if t = s then of_nat n else inode_slot ino t)"
    and V': "V' = link_block (take_block V sb n zeroed) sb (slot_home V sb ino s) (of_nat n)"
  shows "file_grows N sb V ino V' ino'" "slot_ptr V' sb ino' s = of_nat n"
proof -
  let ?W = "take_block V sb n zeroed" and ?new = "of_nat n :: u32"
  note f = free_block [OF ok n]
  note tb = take_block_facts [OF ok n, where z = zeroed]
  have par: "valid_idx N sb p \<and> i < 128 \<and> (\<exists>u. up s = Some (u, i) \<and> is_slot u \<and> slot_ptr V sb ino u = p) \<and> p \<noteq> ?new"
    if h: "slot_home V sb ino s = Some (p, i)" for p i
  proof -
    obtain u where u: "up s = Some (u, i)" "p = slot_ptr V sb ino u" using h by (auto simp: slot_home_def)
    then have "is_slot u" "i < 128" "p \<noteq> 0" using up_is_slot [OF u(1) s(1)] parent by auto
    with fok u have "valid_idx N sb p" "data_bit V sb (unat p)" by (auto simp: file_ok_def)
    with u \<open>is_slot u\<close> \<open>i < 128\<close> n(2) f(2) show ?thesis by auto
  qed
  have par': "\<forall>p i. slot_home V sb ino s = Some (p, i) \<longrightarrow> valid_idx N sb p \<and> i < 128" using par by blast
  note lb = link_block_facts [OF tb(1) par', where new = ?new, folded V']
  have bits: "data_bit V' sb m \<longleftrightarrow> data_bit V sb m \<or> m = n" if "m < bits_of sb" for m
    using lb(2) [OF that] tb(2) [OF that] by simp
  have taken: "valid_idx N sb p \<and> unat p < bits_of sb \<and> data_bit V sb (unat p) \<and> p \<noteq> ?new"
    if "is_slot u" "slot_ptr V sb ino u = p" "p \<noteq> 0" for u p
    using that fok n(2) f(2) by (auto simp: file_ok_def)
  have blocks: "ptr_at (V' (data_pos sb (slot_ptr V sb ino u))) i =
      (if up s = Some (u, i) then ?new else ptr_at (V (data_pos sb (slot_ptr V sb ino u))) i)"
    if u: "is_slot u" "slot_ptr V sb ino u \<noteq> 0" "i < 128" for u i
  proof -
    let ?p = "slot_ptr V sb ino u"
    note t = taken [OF u(1) refl u(2)]
    have W: "?W (data_pos sb ?p) = V (data_pos sb ?p)" using tb(3) t by simp
    show ?thesis
    proof (cases "\<exists>j. slot_home V sb ino s = Some (?p, j)")
      case True
      then obtain j where j: "slot_home V sb ino s = Some (?p, j)" by auto
      with par obtain v where v: "up s = Some (v, j)" "is_slot v" "slot_ptr V sb ino v = ?p" by blast
      then have "v = u" using fok u by (auto simp: file_ok_def)
      with v j u lb(4) [OF j u(3)] W show ?thesis by auto
    next
      case False
      then have "up s \<noteq> Some (u, i)" by (auto simp: slot_home_def)
      moreover have "V' (data_pos sb ?p) = ?W (data_pos sb ?p)" using lb(3) [of ?p] t False by auto
      ultimately show ?thesis using W by simp
    qed
  qed
  have ptr: "slot_ptr V' sb ino' t = (if t = s then ?new else slot_ptr V sb ino t)" if "is_slot t" for t
  proof (rule slot_ptr_link [OF ino(3) _ _ s f(4) parent that])
    show "ptr_at (V' (data_pos sb ?new)) i = 0" if "ptr_slot s" "i < 128" for i
      using lb(3) [OF f(3)] par tb(4) z that ptr_at_zeros by metis
  qed (use blocks in auto)
  then show "slot_ptr V' sb ino' s = of_nat n" using s by simp
  have fok': "file_ok V' N sb ino'"
    unfolding file_ok_def
  proof (intro conjI allI impI, goal_cases)
    case 1
    then show ?case by (rule ino(1))
  next
    case (2 t)
    then show ?case using ptr f(3) taken [of t] by (auto split: if_splits)
  next
    case (3 t)
    then show ?case using ptr f(2) n taken [of t] by (auto split: if_splits)
  next
    case (4 t)
    then show ?case using ptr f(2) n taken [of t] bits by (auto split: if_splits)
  next
    case (5 t u)
    then show ?case using ptr taken [of t] taken [of u] fok by (auto simp: file_ok_def split: if_splits)
  qed
  show "file_grows N sb V ino V' ino'"
    unfolding file_grows_def
  proof (intro conjI allI impI, goal_cases)
    case (4 t)
    then show ?case using ptr s by auto
  next
    case (5 t)
    then show ?case using ptr [of t] n f(2) by (auto split: if_splits)
  next
    case (6 m)
    have "(\<exists>t. is_slot t \<and> slot_ptr V' sb ino' t \<noteq> 0 \<and> unat (slot_ptr V' sb ino' t) = m) \<longrightarrow> data_bit V sb m \<or> m = n"
      using ptr taken f(2) by (metis (full_types))
    moreover have "is_slot s \<and> slot_ptr V' sb ino' s \<noteq> 0 \<and> unat (slot_ptr V' sb ino' s) = n"
      using ptr s f(2,4) by simp
    ultimately show ?case using bits [OF 6] by blast
  next
    case (7 a)
    then have "a \<noteq> ?new" using n f(2) by auto
    moreover have "a \<noteq> p" if "slot_home V sb ino s = Some (p, i)" for p i
      using par [OF that] 7 parent up_ptr_slot by metis
    ultimately show ?case using 7 lb(3) [of a] tb(3) [of a] by auto
  next
    case (8 p)
    then show ?case using lb(5) [of p] tb(5) [of p] by auto
  qed (use lb(1) fok' ino in auto)
qed

section \<open>The allocators\<close>

lemma link_block_eq: "link_block V sb (Some (p, i)) new = V(data_pos sb p := put_ptr i new (V (data_pos sb p)))"
  by (simp add: link_block_def)

context steady_disk
begin

text \<open>What an allocator promises: the number of a block that was free and is taken now, or
  -ENOTSUP when there is none.\<close>

definition allocates :: "('d cache \<Rightarrow> (int + u32) \<times> 'd cache) \<Rightarrow> nat \<Rightarrow> ktfs_superblock \<Rightarrow> bool \<Rightarrow> bool" where
  "allocates alloc N sb zeroed \<longleftrightarrow>
     (\<forall>V H W c. cache_rel img ready V N H W c \<and> size H < 64 \<and> fs_ok V N sb \<longrightarrow>
        (\<exists>c'. alloc c = (Inl (- ENOTSUP), c') \<and> cache_rel img ready V N H W c' \<and> (\<forall>n<bits_of sb. data_bit V sb n)) \<or>
        (\<exists>n c'. alloc c = (Inr (of_nat n), c') \<and> n < bits_of sb \<and> \<not> data_bit V sb n \<and>
           cache_rel img ready (take_block V sb n zeroed) N H W c'))"

lemma alloc_data_block_allocates: "allocates (alloc_data_block intf sb) N sb False"
  unfolding allocates_def
proof (intro allI impI)
  fix V H W c assume a: "cache_rel img ready V N H W c \<and> size H < 64 \<and> fs_ok V N sb"
  then have ok: "fs_ok V N sb" and room: "size H < 64" by simp_all
  from find_free_data_block_steady [of V N H W c sb] a obtain r c1 where
    r: "find_free_data_block intf sb c = (r, c1)" "cache_rel img ready V N H W c1"
      "r = - ENOTSUP \<and> (\<forall>n<bits_of sb. data_bit V sb n) \<or> (\<exists>n<bits_of sb. r = int n \<and> \<not> data_bit V sb n)" by blast
  then consider "r = - ENOTSUP" "\<forall>n<bits_of sb. data_bit V sb n"
    | n where "n < bits_of sb" "r = int n" "\<not> data_bit V sb n" by blast
  then show "(\<exists>c'. alloc_data_block intf sb c = (Inl (- ENOTSUP), c') \<and> cache_rel img ready V N H W c' \<and>
        (\<forall>n<bits_of sb. data_bit V sb n)) \<or>
      (\<exists>n c'. alloc_data_block intf sb c = (Inr (of_nat n), c') \<and> n < bits_of sb \<and> \<not> data_bit V sb n \<and>
           cache_rel img ready (take_block V sb n False) N H W c')"
  proof cases
    case 1
    with r show ?thesis by (simp add: alloc_data_block_def)
  next
    case (2 n)
    note f = free_block [OF ok 2(1,3)]
    have "cache_rel img ready (set_data_bit V sb n True) N H W (set_data_block_status intf sb (of_nat n) True c1)"
      using set_data_block_status_steady [OF r(2) room ok, of "of_nat n" True] f(2) 2(1) by simp
    with r(1) 2 show ?thesis by (auto simp: alloc_data_block_def take_block_def)
  qed
qed

lemma alloc_zeroed_block_allocates: "allocates (alloc_zeroed_block intf sb) N sb True"
  unfolding allocates_def
proof (intro allI impI)
  fix V H W c assume a: "cache_rel img ready V N H W c \<and> size H < 64 \<and> fs_ok V N sb"
  then have ok: "fs_ok V N sb" and room: "size H < 64" and rel: "cache_rel img ready V N H W c" by simp_all
  show "(\<exists>c'. alloc_zeroed_block intf sb c = (Inl (- ENOTSUP), c') \<and> cache_rel img ready V N H W c' \<and>
        (\<forall>n<bits_of sb. data_bit V sb n)) \<or>
      (\<exists>n c'. alloc_zeroed_block intf sb c = (Inr (of_nat n), c') \<and> n < bits_of sb \<and> \<not> data_bit V sb n \<and>
           cache_rel img ready (take_block V sb n True) N H W c')"
  proof (cases "\<exists>c'. alloc_data_block intf sb c = (Inl (- ENOTSUP), c') \<and> cache_rel img ready V N H W c' \<and>
        (\<forall>n<bits_of sb. data_bit V sb n)")
    case True
    then show ?thesis by (auto simp: alloc_zeroed_block_def)
  next
    case False
    with a alloc_data_block_allocates [of sb N] obtain n c1 where
      n: "alloc_data_block intf sb c = (Inr (of_nat n), c1)" "n < bits_of sb" "\<not> data_bit V sb n"
        "cache_rel img ready (take_block V sb n False) N H W c1" unfolding allocates_def by blast
    let ?p = "data_pos sb (of_nat n)"
    have p: "in_disk N ?p" using data_in_disk [OF fs_ok_geometry [OF ok] free_block(3) [OF ok n(2,3)]] .
    from get_steady [OF n(4) p room] obtain k c2 where k: "kget intf ?p c1 = (Inr k, c2)"
      and r2: "cache_rel img ready (take_block V sb n False) N (add_mset (k, ?p) H) W c2" by auto
    have "cache_rel img ready ((take_block V sb n False)(?p := replicate 512 0)) N H W
        (cache_release_block k True (cache_write_buf k (replicate 512 0) c2))"
      by (rule update_block_steady [OF r2 cache_rel_written [OF rel]]) simp
    with n k show ?thesis by (auto simp: alloc_zeroed_block_def take_block_def Let_def)
  qed
qed

text \<open>An allocation that fills a slot of the inode itself.\<close>

lemma alloc_root_slot:
  assumes al: "allocates alloc N sb zeroed" and rel: "cache_rel img ready V N H W c" and room: "size H < 64"
    and ok: "fs_ok V N sb" "file_ok V N sb ino" and s: "is_slot s" "up s = None" "slot_ptr V sb ino s = 0"
    and z: "ptr_slot s \<longrightarrow> zeroed"
  shows "(\<exists>c'. alloc c = (Inl (- ENOTSUP), c') \<and> cache_rel img ready V N H W c' \<and> (\<forall>n<bits_of sb. data_bit V sb n)) \<or>
    (\<exists>new V' c'. alloc c = (Inr new, c') \<and> new \<noteq> 0 \<and> cache_rel img ready V' N H W c' \<and>
       (\<forall>ino'. inode_wf ino' \<and> ino_size ino' = ino_size ino \<and>
          (\<forall>t. is_slot t \<longrightarrow> up t = None \<longrightarrow> inode_slot ino' t = (if t = s then new else inode_slot ino t)) \<longrightarrow>
          file_grows N sb V ino V' ino' \<and> slot_ptr V' sb ino' s = new))"
proof (cases "\<exists>c'. alloc c = (Inl (- ENOTSUP), c') \<and> cache_rel img ready V N H W c' \<and> (\<forall>n<bits_of sb. data_bit V sb n)")
  case False
  with al rel room ok obtain n c1 where
    n: "alloc c = (Inr (of_nat n), c1)" "n < bits_of sb" "\<not> data_bit V sb n"
      "cache_rel img ready (take_block V sb n zeroed) N H W c1" unfolding allocates_def by blast
  have "link_block (take_block V sb n zeroed) sb (slot_home V sb ino s) (of_nat n) = take_block V sb n zeroed"
    using s(2) by (simp add: slot_home_def link_block_def)
  note l = link_grows [OF ok s(1,3) z [rule_format] n(2,3) _ _ _ _ this [symmetric]]
  show ?thesis
    by (rule disjI2, intro exI conjI, rule n(1), rule free_block(4) [OF ok(1) n(2,3)], rule n(4))
      (use l s(2) in auto)
qed simp

text \<open>An allocation that fills an entry of a pointer block.\<close>

lemma fill_ptr_steady:
  assumes al: "allocates alloc N sb zeroed" and rel: "cache_rel img ready V N H W c" and room: "size H < 63"
    and ok: "fs_ok V N sb" "file_ok V N sb ino" and s: "is_slot s" "up s = Some (u, i)"
    and u: "slot_ptr V sb ino u = p" "p \<noteq> 0" and z: "ptr_slot s \<longrightarrow> zeroed"
  shows "(\<exists>c'. fill_ptr alloc intf sb p i c = (Inl (- ENOTSUP), c') \<and> cache_rel img ready V N H W c' \<and>
       (\<forall>n<bits_of sb. data_bit V sb n)) \<or>
    (\<exists>new V' c'. fill_ptr alloc intf sb p i c = (Inr new, c') \<and> new \<noteq> 0 \<and> cache_rel img ready V' N H W c' \<and>
       file_grows N sb V ino V' ino \<and> slot_ptr V' sb ino s = new)"
proof -
  have us: "is_slot u" "i < 128" using up_is_slot [OF s(2,1)] by auto
  have vp: "valid_idx N sb p" using ok(2) us u by (auto simp: file_ok_def)
  let ?p = "data_pos sb p"
  have ip: "in_disk N ?p" using data_in_disk [OF fs_ok_geometry [OF ok(1)] vp] .
  from get_steady [OF rel ip] room obtain k c1 where k: "kget intf ?p c = (Inr k, c1)"
    and r1: "cache_rel img ready V N (add_mset (k, ?p) H) W c1" by auto
  have b1: "block_bytes k c1 = V ?p" by (rule cache_rel_bytes [OF r1]) simp
  have ptr: "slot_ptr V sb ino s = ptr_at (V ?p) i" using u by (simp add: slot_ptr_up [OF s(2)])
  note W = cache_rel_written [OF rel]
  show ?thesis
  proof (cases "ptr_at (V ?p) i = 0")
    case False
    have "cache_rel img ready V N H W (cache_release_block k False c1)" by (rule release_clean_steady [OF r1 W])
    with False k b1 ptr file_grows_refl [OF ok] show ?thesis by (auto simp: fill_ptr_def)
  next
    case zero: True
    have room1: "size (add_mset (k, ?p) H) < 64" using room by simp
    show ?thesis
    proof (cases "\<exists>c'. alloc c1 = (Inl (- ENOTSUP), c') \<and> cache_rel img ready V N (add_mset (k, ?p) H) W c' \<and>
        (\<forall>n<bits_of sb. data_bit V sb n)")
      case True
      then obtain c2 where c2: "alloc c1 = (Inl (- ENOTSUP), c2)" "cache_rel img ready V N (add_mset (k, ?p) H) W c2"
        "\<forall>n<bits_of sb. data_bit V sb n" by blast
      have "cache_rel img ready V N H W (cache_release_block k False c2)" by (rule release_clean_steady [OF c2(2) W])
      with c2 k b1 zero show ?thesis by (auto simp: fill_ptr_def)
    next
      case False
      with al r1 room1 ok obtain n c2 where
        n: "alloc c1 = (Inr (of_nat n), c2)" "n < bits_of sb" "\<not> data_bit V sb n"
          "cache_rel img ready (take_block V sb n zeroed) N (add_mset (k, ?p) H) W c2" unfolding allocates_def by blast
      let ?T = "take_block V sb n zeroed"
      have b2: "block_bytes k c2 = ?T ?p" by (rule cache_rel_bytes [OF n(4)]) simp
      have "length (?T ?p) = 512" by (rule cache_rel_length [OF n(4) ip])
      then have "cache_rel img ready (?T(?p := put_ptr i (of_nat n) (?T ?p))) N H W
          (cache_release_block k True (cache_write_buf k (put_ptr i (of_nat n) (?T ?p)) c2))"
        using us by (intro update_block_steady [OF n(4) W]) simp
      moreover have "link_block ?T sb (slot_home V sb ino s) (of_nat n) = ?T(?p := put_ptr i (of_nat n) (?T ?p))"
        using s(2) u by (simp add: slot_home_def link_block_def)
      note V' = this [symmetric]
      have zero': "slot_ptr V sb ino s = 0" using zero ptr by simp
      have wf: "inode_wf ino" using ok(2) by (simp add: file_ok_def)
      have "file_grows N sb V ino (?T(?p := put_ptr i (of_nat n) (?T ?p))) ino"
        by (rule link_grows(1) [OF ok s(1) zero' z [rule_format] n(2,3) _ wf refl _ V']) (use s u in auto)
      moreover have "slot_ptr (?T(?p := put_ptr i (of_nat n) (?T ?p))) sb ino s = of_nat n"
        by (rule link_grows(2) [OF ok s(1) zero' z [rule_format] n(2,3) _ wf refl _ V']) (use s u in auto)
      ultimately show ?thesis
        using k b1 zero n(1) b2 free_block(4) [OF ok(1) n(2,3)] by (auto simp: fill_ptr_def)
    qed
  qed
qed

end

section \<open>The block of a file\<close>

text \<open>Setting a slot of the inode.\<close>

fun set_slot :: "slot \<Rightarrow> u32 \<Rightarrow> ktfs_inode \<Rightarrow> ktfs_inode" where
  "set_slot (Data i) v ino = ino\<lparr>ino_block := (ino_block ino)[i := v]\<rparr>"
| "set_slot Single v ino = ino\<lparr>ino_indirect := v\<rparr>"
| "set_slot (Double d) v ino = ino\<lparr>ino_dindirect := (ino_dindirect ino)[d := v]\<rparr>"
| "set_slot (Second m) v ino = ino"

lemma set_slot_facts:
  assumes wf: "inode_wf ino" and s: "is_slot s" "up s = None"
  shows "inode_wf (set_slot s v ino)" "ino_size (set_slot s v ino) = ino_size ino"
    "\<And>t. is_slot t \<Longrightarrow> up t = None \<Longrightarrow> inode_slot (set_slot s v ino) t = (if t = s then v else inode_slot ino t)"
    "set_slot s (inode_slot ino s) ino = ino"
proof -
  show "inode_wf (set_slot s v ino)" "ino_size (set_slot s v ino) = ino_size ino"
    using wf by (cases s; simp add: inode_wf_def)+
  show "set_slot s (inode_slot ino s) ino = ino"
    by (cases s) (simp_all add: list_update_id)
  show "inode_slot (set_slot s v ino) t = (if t = s then v else inode_slot ino t)"
    if "is_slot t" "up t = None" for t
    using wf s that by (cases s; cases t) (auto simp: inode_wf_def nth_list_update split: if_splits)
qed

definition found_block ::
    "nat \<Rightarrow> ktfs_superblock \<Rightarrow> nat \<Rightarrow> disk_view \<Rightarrow> ktfs_inode \<Rightarrow> (int + u32) \<Rightarrow> bool" where
  "found_block N sb b V' ino' r \<longleftrightarrow>
     (case r of
        Inr idx \<Rightarrow> b < MAX_BLOCKS \<and> idx \<noteq> 0 \<and> slot_ptr V' sb ino' (Data b) = idx
      | Inl e \<Rightarrow> e = - ENOTSUP \<and> (MAX_BLOCKS \<le> b \<or> (\<forall>n<bits_of sb. data_bit V' sb n)))"

lemma file_grows_ok: "file_grows N sb V ino V' ino' \<Longrightarrow> fs_ok V' N sb \<and> file_ok V' N sb ino'"
  by (simp add: file_grows_def)

lemma file_grows_ptr:
  "file_grows N sb V ino V' ino' \<Longrightarrow> is_slot s \<Longrightarrow> slot_ptr V sb ino s \<noteq> 0 \<Longrightarrow>
     slot_ptr V' sb ino' s = slot_ptr V sb ino s"
  by (simp add: file_grows_def)

context steady_disk
begin

lemma ensure_root_slot:
  assumes al: "allocates alloc N sb zeroed" and rel: "cache_rel img ready V N H W c" and room: "size H < 64"
    and ok: "fs_ok V N sb" "file_ok V N sb ino" and s: "is_slot s" "up s = None" and z: "ptr_slot s \<longrightarrow> zeroed"
  obtains c' where "(if inode_slot ino s = 0 then alloc c else (Inr (inode_slot ino s), c)) = (Inl (- ENOTSUP), c')"
      "cache_rel img ready V N H W c'" "\<forall>n<bits_of sb. data_bit V sb n"
  | v V' c' where "(if inode_slot ino s = 0 then alloc c else (Inr (inode_slot ino s), c)) = (Inr v, c')"
      "v \<noteq> 0" "cache_rel img ready V' N H W c'" "file_grows N sb V ino V' (set_slot s v ino)"
      "slot_ptr V' sb (set_slot s v ino) s = v"
proof (cases "inode_slot ino s = 0")
  case False
  have wf: "inode_wf ino" using ok(2) by (simp add: file_ok_def)
  show ?thesis
    by (rule that(2) [of "inode_slot ino s" c V])
      (use False rel file_grows_refl [OF ok] set_slot_facts(4) [OF wf s] s in \<open>simp_all add: slot_ptr_root\<close>)
next
  case True
  have wf: "inode_wf ino" using ok(2) by (simp add: file_ok_def)
  have zero: "slot_ptr V sb ino s = 0" using True s by (simp add: slot_ptr_root)
  from alloc_root_slot [OF al rel room ok s zero z]
  show ?thesis
  proof (elim disjE exE conjE, goal_cases)
    case (1 c')
    then show ?thesis using True by (intro that(1) [of c']) simp_all
  next
    case (2 new V' c')
    from 2(4) [rule_format, of "set_slot s new ino"] set_slot_facts(1-3) [OF wf s, where v = new]
    have "file_grows N sb V ino V' (set_slot s new ino)" "slot_ptr V' sb (set_slot s new ino) s = new" by blast+
    with 2(1-3) True show ?thesis by (intro that(2) [of new c' V']) simp_all
  qed
qed

lemma get_or_alloc_steady:
  assumes rel: "cache_rel img ready V N H W c" and room: "size H < 63"
    and ok: "fs_ok V N sb" "file_ok V N sb ino"
  shows "\<exists>r ino' V' c'. get_or_alloc_data_block intf sb ino blkno c = ((r, ino'), c') \<and>
     cache_rel img ready V' N H W c' \<and> file_grows N sb V ino V' ino' \<and> found_block N sb (unat blkno) V' ino' r"
proof -
  let ?b = "unat blkno"
  have yes: "ptr_slot u \<longrightarrow> True" for u by simp
  note data = alloc_data_block_allocates [of sb N] and zeroed = alloc_zeroed_block_allocates [of sb N]
  have room': "size H < 64" using room by simp
  consider (direct) "?b < 4" | (single) "\<not> ?b < 4" "?b - 4 < 128"
    | (double) "\<not> ?b < 4" "\<not> ?b - 4 < 128" "(?b - 132) div 16384 < 2"
    | (large) "\<not> ?b < 4" "\<not> ?b - 4 < 128" "\<not> (?b - 132) div 16384 < 2" by blast
  then show ?thesis
  proof cases
    case direct
    then have s: "is_slot (Data ?b)" "up (Data ?b) = None" by simp_all
    have z: "ptr_slot (Data ?b) \<longrightarrow> False" by (simp add: ptr_slot_def)
    show ?thesis
    proof (rule ensure_root_slot [OF data rel room' ok s z])
      fix c' assume "(if inode_slot ino (Data ?b) = 0 then alloc_data_block intf sb c else (Inr (inode_slot ino (Data ?b)), c)) =
          (Inl (- ENOTSUP), c')" "cache_rel img ready V N H W c'" "\<forall>n<bits_of sb. data_bit V sb n"
      then show ?thesis using direct file_grows_refl [OF ok]
        by (auto simp: get_or_alloc_data_block_def found_block_def split: if_splits)
    next
      fix v V' c' assume *: "(if inode_slot ino (Data ?b) = 0 then alloc_data_block intf sb c else (Inr (inode_slot ino (Data ?b)), c)) =
          (Inr v, c')" "v \<noteq> 0" "cache_rel img ready V' N H W c'" "file_grows N sb V ino V' (set_slot (Data ?b) v ino)"
          "slot_ptr V' sb (set_slot (Data ?b) v ino) (Data ?b) = v"
      have "get_or_alloc_data_block intf sb ino blkno c = ((Inr v, set_slot (Data ?b) v ino), c')"
        using *(1) direct by (auto simp: get_or_alloc_data_block_def list_update_id split: if_splits)
      with * direct show ?thesis by (auto simp: found_block_def)
    qed
  next
    case single
    let ?s = "Data ?b"
    have s: "is_slot Single" "up Single = None" by simp_all
    have t: "is_slot ?s" "up ?s = Some (Single, ?b - 4)" "?b < 32900" using single by auto
    have z: "ptr_slot ?s \<longrightarrow> False" by (simp add: ptr_slot_def)
    show ?thesis
    proof (rule ensure_root_slot [OF zeroed rel room' ok s yes])
      fix c' assume "(if inode_slot ino Single = 0 then alloc_zeroed_block intf sb c else (Inr (inode_slot ino Single), c)) =
          (Inl (- ENOTSUP), c')" "cache_rel img ready V N H W c'" "\<forall>n<bits_of sb. data_bit V sb n"
      then show ?thesis using single file_grows_refl [OF ok]
        by (auto simp: get_or_alloc_data_block_def found_block_def Let_def split: if_splits)
    next
      fix v V1 c1 assume *: "(if inode_slot ino Single = 0 then alloc_zeroed_block intf sb c else (Inr (inode_slot ino Single), c)) =
          (Inr v, c1)" "v \<noteq> 0" "cache_rel img ready V1 N H W c1" "file_grows N sb V ino V1 (set_slot Single v ino)"
          "slot_ptr V1 sb (set_slot Single v ino) Single = v"
      let ?i = "ino\<lparr>ino_indirect := v\<rparr>"
      have ok1: "fs_ok V1 N sb" "file_ok V1 N sb ?i" using file_grows_ok [OF *(4)] by simp_all
      have u: "slot_ptr V1 sb ?i Single = v" using *(5) by simp
      have run: "get_or_alloc_data_block intf sb ino blkno c =
          (case fill_ptr (alloc_data_block intf sb) intf sb v (?b - 4) c1 of (r, c2) \<Rightarrow> ((r, ?i), c2))"
        using *(1) single by (auto simp: get_or_alloc_data_block_def Let_def split: if_splits)
      have gr1: "file_grows N sb V ino V1 ?i" using *(4) by simp
      from fill_ptr_steady [OF data *(3) room ok1 t(1,2) u *(2) z] show ?thesis
      proof (elim disjE exE conjE, goal_cases)
        case (1 c2)
        with run gr1 show ?thesis by (auto simp: found_block_def)
      next
        case (2 q V2 c2)
        with run file_grows_trans [OF gr1 2(4)] t(3) show ?thesis
          by (intro exI [of _ "Inr q"] exI [of _ ?i] exI [of _ V2] exI [of _ c2]) (simp add: found_block_def)
      qed
    qed
  next
    case double
    let ?j = "?b - 132"
    let ?d = "?j div 16384" and ?m = "?j div 128"
    let ?s = "Data ?b" and ?t = "Second ?m"
    have s: "is_slot (Double ?d)" "up (Double ?d) = None" using double by simp_all
    have m: "?m div 128 = ?d" "?j mod 16384 div 128 = ?m mod 128" "?j mod 16384 mod 128 = ?j mod 128"
      by (simp_all add: div_mult2_eq [symmetric] mod_mult2_eq [of ?j 128 128, simplified] mod_mod_cancel)
    have "?m < 256" using double(3) unfolding m(1) [symmetric] by linarith
    then have t: "is_slot ?t" "up ?t = Some (Double ?d, ?m mod 128)" using m by auto
    have r: "is_slot ?s" "up ?s = Some (?t, ?j mod 128)" "?b < 32900" using double by auto
    have z: "ptr_slot ?s \<longrightarrow> False" by (simp add: ptr_slot_def)
    have sub: "?b - 4 - 128 = ?j" by simp
    have sq: "(128 :: nat) * 128 = 16384" by simp
    show ?thesis
    proof (rule ensure_root_slot [OF zeroed rel room' ok s yes])
      fix c' assume "(if inode_slot ino (Double ?d) = 0 then alloc_zeroed_block intf sb c else (Inr (inode_slot ino (Double ?d)), c)) =
          (Inl (- ENOTSUP), c')" "cache_rel img ready V N H W c'" "\<forall>n<bits_of sb. data_bit V sb n"
      then show ?thesis using double file_grows_refl [OF ok]
        by (auto simp: get_or_alloc_data_block_def found_block_def Let_def sub split: if_splits)
    next
      fix v V1 c1 assume *: "(if inode_slot ino (Double ?d) = 0 then alloc_zeroed_block intf sb c else (Inr (inode_slot ino (Double ?d)), c)) =
          (Inr v, c1)" "v \<noteq> 0" "cache_rel img ready V1 N H W c1" "file_grows N sb V ino V1 (set_slot (Double ?d) v ino)"
          "slot_ptr V1 sb (set_slot (Double ?d) v ino) (Double ?d) = v"
      let ?i = "ino\<lparr>ino_dindirect := (ino_dindirect ino)[?d := v]\<rparr>"
      have ok1: "fs_ok V1 N sb" "file_ok V1 N sb ?i" using file_grows_ok [OF *(4)] by simp_all
      have u: "slot_ptr V1 sb ?i (Double ?d) = v" using *(5) by simp
      have run: "get_or_alloc_data_block intf sb ino blkno c =
          (case fill_ptr (alloc_zeroed_block intf sb) intf sb v (?m mod 128) c1 of
             (Inl rc, c2) \<Rightarrow> ((Inl rc, ?i), c2)
           | (Inr q, c2) \<Rightarrow> (case fill_ptr (alloc_data_block intf sb) intf sb q (?j mod 128) c2 of (r, c3) \<Rightarrow> ((r, ?i), c3)))"
      proof -
        have a: "(if ino_dindirect ino ! ?d = 0 then alloc_zeroed_block intf sb c
            else (Inr (ino_dindirect ino ! ?d), c)) = (Inr v, c1)" using *(1) by (simp only: inode_slot.simps)
        have "\<not> 2 \<le> ?d" using double(3) by simp
        then show ?thesis
          using double(1,2) a unfolding get_or_alloc_data_block_def Let_def
          by (simp only: if_False sub sum.case prod.case m sq)
      qed
      from fill_ptr_steady [OF zeroed *(3) room ok1 t u *(2) yes] show ?thesis
      proof (elim disjE exE conjE, goal_cases)
        case (1 c2)
        with run *(4) show ?thesis by (auto simp: found_block_def)
      next
        case (2 q V2 c2)
        have ok2: "fs_ok V2 N sb" "file_ok V2 N sb ?i" using file_grows_ok [OF 2(4)] by simp_all
        have gr: "file_grows N sb V ino V2 ?i" using file_grows_trans [OF _ 2(4)] *(4) by simp
        from fill_ptr_steady [OF data 2(3) room ok2 r(1,2) 2(5,2) z] show ?thesis
        proof (elim disjE exE conjE, goal_cases)
          case (1 c3)
          with run 2(1) gr show ?thesis by (auto simp: found_block_def)
        next
          case (2 w V3 c3)
          with run \<open>fill_ptr (alloc_zeroed_block intf sb) intf sb v (?m mod 128) c1 = (Inr q, c2)\<close>
            file_grows_trans [OF gr 2(4)] r(3) show ?thesis
            by (intro exI [of _ "Inr w"] exI [of _ ?i] exI [of _ V3] exI [of _ c3]) (simp add: found_block_def)
        qed
      qed
    qed
  next
    case large
    have "32900 \<le> ?b"
    proof (rule ccontr)
      assume "\<not> 32900 \<le> ?b"
      then have "?b - 132 < 2 * 16384" by linarith
      with large(3) show False by (simp add: less_mult_imp_div_less)
    qed
    moreover have "?b - 4 - 128 = ?b - 132" by simp
    ultimately show ?thesis using large rel file_grows_refl [OF ok]
      by (auto simp: get_or_alloc_data_block_def found_block_def Let_def)
  qed
qed

text \<open>A block that is there is found without allocating anything.\<close>

lemma fill_ptr_present:
  assumes rel: "cache_rel img ready V N H W c" and room: "size H < 64" and ok: "fs_ok V N sb" "file_ok V N sb ino"
    and s: "is_slot s" "up s = Some (u, i)" "slot_ptr V sb ino s \<noteq> 0"
  shows "\<exists>c'. fill_ptr alloc intf sb (slot_ptr V sb ino u) i c = (Inr (slot_ptr V sb ino s), c') \<and>
     cache_rel img ready V N H W c' \<and> slot_ptr V sb ino u \<noteq> 0"
proof -
  have u0: "slot_ptr V sb ino u \<noteq> 0" using s(3) slot_ptr_up [OF s(2)] by metis
  then have e: "slot_ptr V sb ino s = ptr_at (V (data_pos sb (slot_ptr V sb ino u))) i"
    using slot_ptr_up [OF s(2)] by simp
  have "is_slot u" using up_is_slot [OF s(2,1)] by simp
  then have "valid_idx N sb (slot_ptr V sb ino u)" using ok(2) u0 by (simp add: file_ok_def)
  then have p: "in_disk N (data_pos sb (slot_ptr V sb ino u))" using data_in_disk fs_ok_geometry [OF ok(1)] by blast
  from get_steady [OF rel p room] obtain k c1 where k: "kget intf (data_pos sb (slot_ptr V sb ino u)) c = (Inr k, c1)"
    and r1: "cache_rel img ready V N (add_mset (k, data_pos sb (slot_ptr V sb ino u)) H) W c1" by auto
  have "block_bytes k c1 = V (data_pos sb (slot_ptr V sb ino u))" by (rule cache_rel_bytes [OF r1]) simp
  then have "fill_ptr alloc intf sb (slot_ptr V sb ino u) i c =
      (Inr (slot_ptr V sb ino s), cache_release_block k False c1)"
    using k s(3) e by (simp add: fill_ptr_def)
  moreover have "cache_rel img ready V N H W (cache_release_block k False c1)"
    by (rule release_clean_steady [OF r1 cache_rel_written [OF rel]])
  ultimately show ?thesis using u0 by blast
qed

lemma get_or_alloc_present:
  assumes rel: "cache_rel img ready V N H W c" and room: "size H < 64" and ok: "fs_ok V N sb" "file_ok V N sb ino"
    and b: "unat blkno < MAX_BLOCKS" "slot_ptr V sb ino (Data (unat blkno)) \<noteq> 0"
  shows "\<exists>c'. get_or_alloc_data_block intf sb ino blkno c = ((Inr (slot_ptr V sb ino (Data (unat blkno))), ino), c') \<and>
     cache_rel img ready V N H W c'"
proof -
  let ?b = "unat blkno"
  have s: "is_slot (Data ?b)" using b(1) by simp
  consider (direct) "?b < 4" | (single) "\<not> ?b < 4" "?b < 132" | (double) "132 \<le> ?b" by linarith
  then show ?thesis
  proof cases
    case direct
    then have "slot_ptr V sb ino (Data ?b) = ino_block ino ! ?b" by (simp add: slot_ptr_root)
    then show ?thesis using direct b(2) rel by (simp add: get_or_alloc_data_block_def)
  next
    case single
    then have u: "up (Data ?b) = Some (Single, ?b - 4)" by simp
    from fill_ptr_present [OF rel room ok s u b(2), of "alloc_data_block intf sb"] obtain c' where
      "fill_ptr (alloc_data_block intf sb) intf sb (ino_indirect ino) (?b - 4) c = (Inr (slot_ptr V sb ino (Data ?b)), c')"
      "cache_rel img ready V N H W c'" "ino_indirect ino \<noteq> 0" by (auto simp: slot_ptr_root)
    moreover have "?b - 4 < 128" using single by linarith
    ultimately show ?thesis using single(1) by (simp add: get_or_alloc_data_block_def Let_def)
  next
    case double
    let ?j = "?b - 132"
    let ?d = "?j div 16384" and ?m = "?j div 128"
    have m: "?m div 128 = ?d" "?j mod 16384 div 128 = ?m mod 128" "?j mod 16384 mod 128 = ?j mod 128"
      by (simp_all add: div_mult2_eq [symmetric] mod_mult2_eq [of ?j 128 128, simplified] mod_mod_cancel)
    have u: "up (Data ?b) = Some (Second ?m, ?j mod 128)" using double by simp
    have v: "up (Second ?m) = Some (Double ?d, ?m mod 128)" using m by simp
    have t: "is_slot (Second ?m)" using up_is_slot [OF u s] by simp
    have d: "\<not> 2 \<le> ?d" using up_is_slot [OF v t] by simp
    have sm: "slot_ptr V sb ino (Second ?m) \<noteq> 0" using b(2) slot_ptr_up [OF u] by metis
    from fill_ptr_present [OF rel room ok t v sm, of "alloc_zeroed_block intf sb"] obtain c1 where
      1: "fill_ptr (alloc_zeroed_block intf sb) intf sb (ino_dindirect ino ! ?d) (?m mod 128) c =
          (Inr (slot_ptr V sb ino (Second ?m)), c1)" "cache_rel img ready V N H W c1" "ino_dindirect ino ! ?d \<noteq> 0"
      by (auto simp: slot_ptr_root)
    from fill_ptr_present [OF 1(2) room ok s u b(2), of "alloc_data_block intf sb"] obtain c2 where
      2: "fill_ptr (alloc_data_block intf sb) intf sb (slot_ptr V sb ino (Second ?m)) (?j mod 128) c1 =
          (Inr (slot_ptr V sb ino (Data ?b)), c2)" "cache_rel img ready V N H W c2" by auto
    have sub: "?b - 4 - 128 = ?j" and sq: "(128 :: nat) * 128 = 16384" by simp_all
    have ge: "\<not> ?b < 4" "\<not> ?b - 4 < 128" using double by simp_all
    have "get_or_alloc_data_block intf sb ino blkno c = ((Inr (slot_ptr V sb ino (Data ?b)), ino), c2)"
      unfolding get_or_alloc_data_block_def Let_def
      using ge 1(3) d by (simp only: if_False sub sum.case prod.case m sq 1(1) 2(1)) (simp add: list_update_id)
    with 2(2) show ?thesis by blast
  qed
qed

end

end
