(* ===== verification/KtfsFile.thy ===== *)
theory KtfsFile
  imports KtfsAlloc
begin

text \<open>
  Open files of \<open>modified/sys/ktfs.c\<close>: reading, writing, control, closing and flushing.

  \<open>ks_open\<close> is the list from \<open>g_open_head\<close>, \<open>ks_listings\<close> the open directory listings, each with
  its next index; a file is named by the address of its \<open>uio\<close>.  A file
  operation holds the recursive lock of the file for its whole run; \<open>None\<close> is the outcome in
  which the lock belongs to another thread and the caller sleeps (holding the lock of the open
  list, which the code takes first and releases last, and which no other path keeps).  Where
  an error path of the code returns without giving back a lock or a pin, so does the model.
\<close>

section \<open>Open files\<close>

record ktfs_file =
  kf_id :: nat
  kf_fileSize :: u64
  kf_dentry :: ktfs_dir_entry
  kf_pos :: u64
  kf_owner :: "nat option"
  kf_cnt :: nat

record 'd ktfs =
  ks_cache :: "'d cache"
  ks_open :: "ktfs_file list"
  ks_listings :: "(nat \<times> u32) list"
  ks_next :: nat

definition file_lock :: "nat \<Rightarrow> ktfs_file \<Rightarrow> ktfs_file option" where
  "file_lock me f =
     (if kf_owner f = Some me then Some (f\<lparr>kf_cnt := kf_cnt f + 1\<rparr>)
      else if kf_owner f = None then Some (f\<lparr>kf_owner := Some me, kf_cnt := 1\<rparr>)
      else None)"

definition file_unlock :: "ktfs_file \<Rightarrow> ktfs_file" where
  "file_unlock f = (if kf_cnt f \<le> 1 then f\<lparr>kf_owner := None, kf_cnt := 0\<rparr> else f\<lparr>kf_cnt := kf_cnt f - 1\<rparr>)"

definition put_file :: "ktfs_file \<Rightarrow> 'd ktfs \<Rightarrow> 'd ktfs" where
  "put_file f ks = ks\<lparr>ks_open := map (\<lambda>g. if kf_id g = kf_id f then f else g) (ks_open ks)\<rparr>"

text \<open>The head of \<open>ktfs_fetch\<close>, \<open>ktfs_store\<close> and \<open>ktfs_cntl\<close>: the file of the \<open>uio\<close>, locked.\<close>

definition with_file ::
    "nat \<Rightarrow> nat option \<Rightarrow> bool \<Rightarrow> 'a \<Rightarrow> (ktfs_file \<Rightarrow> 'd cache \<Rightarrow> 'a \<times> ktfs_file \<times> 'd cache) \<Rightarrow>
     'd ktfs \<Rightarrow> ('a \<times> 'd ktfs) option" where
  "with_file me uio arg_null err body ks =
     (case uio of
        None \<Rightarrow> Some (err, ks)
      | Some u \<Rightarrow>
          if arg_null then Some (err, ks)
          else case find (\<lambda>f. kf_id f = u) (ks_open ks) of
            None \<Rightarrow> Some (err, ks)
          | Some f \<Rightarrow>
              (case file_lock me f of
                 None \<Rightarrow> None
               | Some f1 \<Rightarrow>
                   (case body f1 (ks_cache ks) of
                      (r, f2, c) \<Rightarrow> Some (r, put_file f2 (ks\<lparr>ks_cache := c\<rparr>)))))"

section \<open>Reading\<close>

datatype fetch_status = More | Done | Fail int

text \<open>Progress: \<open>walked\<close> and the bytes copied so far.\<close>

type_synonym fetch_state = "nat \<times> bytes"

text \<open>One block of the file that is not skipped; \<open>off\<close> is the offset of the first byte.\<close>

definition fetch_chunk ::
    "'d storage_intf \<Rightarrow> ktfs_superblock \<Rightarrow> nat \<Rightarrow> nat \<Rightarrow> u32 \<Rightarrow> fetch_state \<Rightarrow> 'd cache \<Rightarrow>
     fetch_status \<times> fetch_state \<times> 'd cache" where
  "fetch_chunk sto sb off toRead dataIdx st c =
     (case kget sto (data_pos sb dataIdx) c of
        (Inl rc, c1) \<Rightarrow> (Fail rc, st, c1)
      | (Inr k, c1) \<Rightarrow>
          let (walked, out) = st;
              intraOffset = (if out = [] then off else 0);
              chunk = min (KTFS_BLKSZ - intraOffset) (toRead - length out);
              out1 = out @ take chunk (drop intraOffset (block_bytes k c1))
          in (if length out1 = toRead then Done else More, (walked + KTFS_BLKSZ, out1),
              cache_release_block k False c1))"

fun fetch_direct ::
    "'d storage_intf \<Rightarrow> ktfs_superblock \<Rightarrow> nat \<Rightarrow> nat \<Rightarrow> nat \<Rightarrow> u32 list \<Rightarrow> fetch_state \<Rightarrow> 'd cache \<Rightarrow>
     fetch_status \<times> fetch_state \<times> 'd cache" where
  "fetch_direct sto sb start off toRead [] st c = (More, st, c)"
| "fetch_direct sto sb start off toRead (p # ps) (walked, out) c =
     (if toRead \<le> length out then (More, (walked, out), c)
      else if walked < start then fetch_direct sto sb start off toRead ps (walked + KTFS_BLKSZ, out) c
      else (case fetch_chunk sto sb off toRead p (walked, out) c of
              (More, st1, c1) \<Rightarrow> fetch_direct sto sb start off toRead ps st1 c1
            | res \<Rightarrow> res))"

text \<open>The blocks that the pinned pointer block \<open>k\<close> lists.\<close>

fun fetch_ptrs ::
    "'d storage_intf \<Rightarrow> ktfs_superblock \<Rightarrow> nat \<Rightarrow> nat \<Rightarrow> nat \<Rightarrow> nat \<Rightarrow> nat list \<Rightarrow> fetch_state \<Rightarrow> 'd cache \<Rightarrow>
     fetch_status \<times> fetch_state \<times> 'd cache" where
  "fetch_ptrs sto sb start off toRead k [] st c = (More, st, c)"
| "fetch_ptrs sto sb start off toRead k (i # is) (walked, out) c =
     (if toRead \<le> length out then (Done, (walked, out), c)
      else if walked < start then fetch_ptrs sto sb start off toRead k is (walked + KTFS_BLKSZ, out) c
      else (case fetch_chunk sto sb off toRead (ptr_at (block_bytes k c) i) (walked, out) c of
              (More, st1, c1) \<Rightarrow> fetch_ptrs sto sb start off toRead k is st1 c1
            | res \<Rightarrow> res))"

text \<open>A pointer block: pinned, walked, released unless a block of it could not be read.\<close>

definition fetch_indirect ::
    "'d storage_intf \<Rightarrow> ktfs_superblock \<Rightarrow> nat \<Rightarrow> nat \<Rightarrow> nat \<Rightarrow> u32 \<Rightarrow> fetch_state \<Rightarrow> 'd cache \<Rightarrow>
     fetch_status \<times> fetch_state \<times> 'd cache" where
  "fetch_indirect sto sb start off toRead p st c =
     (case kget sto (data_pos sb p) c of
        (Inl rc, c1) \<Rightarrow> (Fail rc, st, c1)
      | (Inr k, c1) \<Rightarrow>
          (case fetch_ptrs sto sb start off toRead k [0..<PTRS_PER_BLOCK] st c1 of
             (Fail rc, st1, c2) \<Rightarrow> (Fail rc, st1, c2)
           | (res, st1, c2) \<Rightarrow> (res, st1, cache_release_block k False c2)))"

fun fetch_second ::
    "'d storage_intf \<Rightarrow> ktfs_superblock \<Rightarrow> nat \<Rightarrow> nat \<Rightarrow> nat \<Rightarrow> nat \<Rightarrow> nat list \<Rightarrow> fetch_state \<Rightarrow> 'd cache \<Rightarrow>
     fetch_status \<times> fetch_state \<times> 'd cache" where
  "fetch_second sto sb start off toRead k [] st c = (More, st, c)"
| "fetch_second sto sb start off toRead k (j # js) st c =
     (if toRead \<le> length (snd st) then (Done, st, c)
      else (case fetch_indirect sto sb start off toRead (ptr_at (block_bytes k c) j) st c of
              (More, st1, c1) \<Rightarrow> fetch_second sto sb start off toRead k js st1 c1
            | res \<Rightarrow> res))"

fun fetch_dindirect ::
    "'d storage_intf \<Rightarrow> ktfs_superblock \<Rightarrow> nat \<Rightarrow> nat \<Rightarrow> nat \<Rightarrow> u32 list \<Rightarrow> fetch_state \<Rightarrow> 'd cache \<Rightarrow>
     fetch_status \<times> fetch_state \<times> 'd cache" where
  "fetch_dindirect sto sb start off toRead [] st c = (More, st, c)"
| "fetch_dindirect sto sb start off toRead (p # ps) st c =
     (if toRead \<le> length (snd st) then (More, st, c)
      else (case kget sto (data_pos sb p) c of
              (Inl rc, c1) \<Rightarrow> (Fail rc, st, c1)
            | (Inr k, c1) \<Rightarrow>
                (case fetch_second sto sb start off toRead k [0..<PTRS_PER_BLOCK] st c1 of
                   (Fail rc, st1, c2) \<Rightarrow> (Fail rc, st1, c2)
                 | (Done, st1, c2) \<Rightarrow> (Done, st1, cache_release_block k False c2)
                 | (More, st1, c2) \<Rightarrow>
                     fetch_dindirect sto sb start off toRead ps st1 (cache_release_block k False c2))))"

text \<open>The three parts of the walk over the blocks of an inode.\<close>

definition fetch_blocks ::
    "'d storage_intf \<Rightarrow> ktfs_superblock \<Rightarrow> ktfs_inode \<Rightarrow> nat \<Rightarrow> nat \<Rightarrow> nat \<Rightarrow> 'd cache \<Rightarrow>
     fetch_status \<times> fetch_state \<times> 'd cache" where
  "fetch_blocks sto sb ino start off toRead c =
     (case fetch_direct sto sb start off toRead (ino_block ino) (0, []) c of
        (More, st1, c1) \<Rightarrow>
          (case (if ino_indirect ino \<noteq> 0
                 then fetch_indirect sto sb start off toRead (ino_indirect ino) st1 c1
                 else (More, st1, c1)) of
             (More, st2, c2) \<Rightarrow> fetch_dindirect sto sb start off toRead (ino_dindirect ino) st2 c2
           | res \<Rightarrow> res)
      | res \<Rightarrow> res)"

definition fetch_body ::
    "'d storage_intf \<Rightarrow> u64 \<Rightarrow> ktfs_file \<Rightarrow> 'd cache \<Rightarrow> (int \<times> bytes) \<times> ktfs_file \<times> 'd cache" where
  "fetch_body sto len f c =
     (let pos = kf_pos f; sz = kf_fileSize f
      in if pos \<ge> sz then ((0, []), file_unlock f, c)
         else
           let toRead = (if pos + len > sz then sz - pos else len)
           in case kget sto 0 c of
                (Inl rc, c1) \<Rightarrow> ((rc, []), file_unlock f, c1)
              | (Inr ksb, c1) \<Rightarrow>
                  let sb = superblock_of (block_bytes ksb c1)
                  in case get_inode sto sb (de_inode (kf_dentry f)) c1 of
                       (Inl rc, c2) \<Rightarrow> ((rc, []), file_unlock f, cache_release_block ksb False c2)
                     | (Inr ino, c2) \<Rightarrow>
                         (case fetch_blocks sto sb ino (unat pos div KTFS_BLKSZ * KTFS_BLKSZ) (unat pos mod KTFS_BLKSZ)
                                 (unat toRead) (cache_release_block ksb False c2) of
                            (Fail rc, st, c3) \<Rightarrow> ((rc, snd st), file_unlock f, c3)
                          | (_, st, c3) \<Rightarrow>
                              ((int (length (snd st)), snd st),
                               file_unlock (f\<lparr>kf_pos := pos + of_nat (length (snd st))\<rparr>), c3)))"

definition ktfs_fetch ::
    "'d storage_intf \<Rightarrow> nat \<Rightarrow> nat option \<Rightarrow> bool \<Rightarrow> u64 \<Rightarrow> 'd ktfs \<Rightarrow> ((int \<times> bytes) \<times> 'd ktfs) option" where
  "ktfs_fetch sto me uio buf_null len ks =
     with_file me uio buf_null (- ENOTSUP, []) (fetch_body sto len) ks"

section \<open>Writing\<close>

text \<open>The inode in the pinned inode block \<open>k\<close>, at index \<open>i\<close>.\<close>

definition inode_in :: "nat \<Rightarrow> nat \<Rightarrow> 'd cache \<Rightarrow> ktfs_inode" where
  "inode_in k i c = inode_at (block_bytes k c) i"

definition inode_set :: "nat \<Rightarrow> nat \<Rightarrow> ktfs_inode \<Rightarrow> 'd cache \<Rightarrow> 'd cache" where
  "inode_set k i ino c = cache_write_buf k (put_inode i ino (block_bytes k c)) c"

text \<open>\<open>get_or_alloc_data_block\<close> on an inode in a buffer.\<close>

definition file_block ::
    "'d storage_intf \<Rightarrow> ktfs_superblock \<Rightarrow> nat \<Rightarrow> nat \<Rightarrow> u32 \<Rightarrow> 'd cache \<Rightarrow> (int + u32) \<times> 'd cache" where
  "file_block sto sb k i blkno c =
     (case get_or_alloc_data_block sto sb (inode_in k i c) blkno c of
        ((r, ino), c1) \<Rightarrow> (r, inode_set k i ino c1))"

text \<open>The loop that copies the caller's bytes, block by block.\<close>

function store_loop ::
    "'d storage_intf \<Rightarrow> ktfs_superblock \<Rightarrow> nat \<Rightarrow> nat \<Rightarrow> u64 \<Rightarrow> bytes \<Rightarrow> 'd cache \<Rightarrow> (int + u64) \<times> 'd cache" where
  "store_loop sto sb k i pos buf c =
     (if buf = [] then (Inr pos, c)
      else
        let block_off = unat pos mod KTFS_BLKSZ
        in case file_block sto sb k i (ucast (pos div of_nat KTFS_BLKSZ)) c of
             (Inl rc, c1) \<Rightarrow> (Inl rc, c1)
           | (Inr dataIdx, c1) \<Rightarrow>
               (case kget sto (data_pos sb dataIdx) c1 of
                  (Inl rc, c2) \<Rightarrow> (Inl rc, c2)
                | (Inr kd, c2) \<Rightarrow>
                    let chunk = min (KTFS_BLKSZ - block_off) (length buf);
                        c3 = cache_release_block kd True
                               (cache_write_buf kd (overwrite (block_bytes kd c2) block_off (take chunk buf)) c2)
                    in store_loop sto sb k i (pos + of_nat chunk) (drop chunk buf) c3))"
  by pat_completeness auto
termination
  by (relation "measure (\<lambda>(sto, sb, k, i, pos, buf, c). length buf)") auto

declare store_loop.simps [simp del]

text \<open>The blocks of a gap before the position, all allocated.\<close>

fun alloc_gap ::
    "'d storage_intf \<Rightarrow> ktfs_superblock \<Rightarrow> nat \<Rightarrow> nat \<Rightarrow> nat list \<Rightarrow> 'd cache \<Rightarrow> int option \<times> 'd cache" where
  "alloc_gap sto sb k i [] c = (None, c)"
| "alloc_gap sto sb k i (b # bs) c =
     (case file_block sto sb k i (of_nat b) c of
        (Inl rc, c1) \<Rightarrow> (Some rc, c1)
      | (Inr idx, c1) \<Rightarrow> alloc_gap sto sb k i bs c1)"

text \<open>The zeroed rest of the last block of the file, \<open>first\<close>, up to the position or to the end of
  the block.\<close>

definition zero_tail ::
    "'d storage_intf \<Rightarrow> ktfs_superblock \<Rightarrow> nat \<Rightarrow> nat \<Rightarrow> u32 \<Rightarrow> u32 \<Rightarrow> nat \<Rightarrow> nat \<Rightarrow> 'd cache \<Rightarrow> int option \<times> 'd cache" where
  "zero_tail sto sb k i first lst off pos_off c =
     (case file_block sto sb k i first c of
        (Inl rc, c1) \<Rightarrow> (Some rc, c1)
      | (Inr dataIdx, c1) \<Rightarrow>
          (case kget sto (data_pos sb dataIdx) c1 of
             (Inl rc, c2) \<Rightarrow> (Some rc, c2)
           | (Inr kd, c2) \<Rightarrow>
               let end_off = (if first = lst then (if pos_off = 0 then KTFS_BLKSZ else pos_off) else KTFS_BLKSZ)
               in (None, cache_release_block kd True
                     (cache_write_buf kd
                        (if off < end_off then overwrite (block_bytes kd c2) off (replicate (end_off - off) 0)
                         else block_bytes kd c2) c2))))"

text \<open>Growing the file up to the position; \<open>Inl (rc, True)\<close> is the error path that gives back
  what it holds, \<open>Inl (rc, False)\<close> the ones that do not.\<close>

definition fill_gap ::
    "'d storage_intf \<Rightarrow> ktfs_superblock \<Rightarrow> nat \<Rightarrow> nat \<Rightarrow> u64 \<Rightarrow> 'd cache \<Rightarrow> (int \<times> bool + unit) \<times> 'd cache" where
  "fill_gap sto sb k i pos c =
     (let old_size = unat (ino_size (inode_in k i c))
      in if unat pos \<le> old_size then (Inr (), c)
         else
           let first_blk = (of_nat (old_size div KTFS_BLKSZ) :: u32);
               last_blk = (of_nat ((unat pos - 1) div KTFS_BLKSZ) :: u32);
               off = old_size mod KTFS_BLKSZ
           in case (if off \<noteq> 0 then zero_tail sto sb k i first_blk last_blk off (unat pos mod KTFS_BLKSZ) c
                    else (None, c)) of
                (Some rc, c1) \<Rightarrow> (Inl (rc, False), c1)
              | (None, c1) \<Rightarrow>
                  (case alloc_gap sto sb k i
                          [(if off \<noteq> 0 then unat (first_blk + 1) else unat first_blk)..<unat last_blk + 1] c1 of
                     (Some rc, c2) \<Rightarrow> (Inl (rc, True), c2)
                   | (None, c2) \<Rightarrow> (Inr (), inode_set k i ((inode_in k i c2)\<lparr>ino_size := ucast pos\<rparr>) c2)))"

definition store_body ::
    "'d storage_intf \<Rightarrow> bytes \<Rightarrow> ktfs_file \<Rightarrow> 'd cache \<Rightarrow> int \<times> ktfs_file \<times> 'd cache" where
  "store_body sto buf f c =
     (if buf = [] then (0, file_unlock f, c)
      else case kget sto 0 c of
        (Inl rc, c1) \<Rightarrow> (rc, file_unlock f, c1)
      | (Inr ksb, c1) \<Rightarrow>
          let sb = superblock_of (block_bytes ksb c1);
              n = unat (de_inode (kf_dentry f));
              i = n mod (KTFS_BLKSZ div KTFS_INOSZ)
          in case kget sto (inode_pos sb n) c1 of
               (Inl rc, c2) \<Rightarrow> (rc, f, c2)
             | (Inr k, c2) \<Rightarrow>
                 (case fill_gap sto sb k i (kf_pos f) c2 of
                    (Inl (rc, True), c3) \<Rightarrow>
                      (rc, file_unlock f, cache_release_block ksb False (cache_release_block k True c3))
                  | (Inl (rc, False), c3) \<Rightarrow> (rc, f, c3)
                  | (Inr _, c3) \<Rightarrow>
                      (case store_loop sto sb k i (kf_pos f) buf c3 of
                         (Inl rc, c4) \<Rightarrow> (rc, f, c4)
                       | (Inr pos, c4) \<Rightarrow>
                           let ino = inode_in k i c4;
                               c5 = (if unat pos > unat (ino_size ino)
                                     then inode_set k i (ino\<lparr>ino_size := ucast pos\<rparr>) c4 else c4)
                           in (int (length buf),
                               file_unlock (f\<lparr>kf_fileSize := ucast (ino_size (inode_in k i c5)), kf_pos := pos\<rparr>),
                               cache_release_block ksb False (cache_release_block k True c5)))))"

definition ktfs_store ::
    "'d storage_intf \<Rightarrow> nat \<Rightarrow> nat option \<Rightarrow> bytes option \<Rightarrow> 'd ktfs \<Rightarrow> (int \<times> 'd ktfs) option" where
  "ktfs_store sto me uio buf ks =
     with_file me uio (buf = None) (- ENOTSUP) (store_body sto (the buf)) ks"

section \<open>Control, closing and flushing\<close>

text \<open>\<open>*arg\<close> comes in and goes out.  \<open>FCNTL_SETEND\<close> works on a copy of the inode, which is
  written back at the end; its error paths return with everything held.\<close>

fun grow_blocks ::
    "'d storage_intf \<Rightarrow> ktfs_superblock \<Rightarrow> nat list \<Rightarrow> ktfs_inode \<Rightarrow> 'd cache \<Rightarrow> (int + ktfs_inode) \<times> 'd cache" where
  "grow_blocks sto sb [] ino c = (Inr ino, c)"
| "grow_blocks sto sb (b # bs) ino c =
     (case get_or_alloc_data_block sto sb ino (of_nat b) c of
        ((Inl rc, _), c1) \<Rightarrow> (Inl rc, c1)
      | ((Inr _, ino1), c1) \<Rightarrow> grow_blocks sto sb bs ino1 c1)"

definition blocks_for :: "nat \<Rightarrow> nat" where
  "blocks_for n = (if n \<noteq> 0 then (n + KTFS_BLKSZ - 1) div KTFS_BLKSZ else 0)"

definition set_end ::
    "'d storage_intf \<Rightarrow> u64 \<Rightarrow> ktfs_file \<Rightarrow> 'd cache \<Rightarrow> int \<times> ktfs_file \<times> 'd cache" where
  "set_end sto new_size f c =
     (if unat new_size > KTFS_MAX_FILE_SIZE then (- ENOTSUP, file_unlock f, c)
      else case kget sto 0 c of
        (Inl rc, c1) \<Rightarrow> (rc, f, c1)
      | (Inr ksb, c1) \<Rightarrow>
          let sb = superblock_of (block_bytes ksb c1); n = de_inode (kf_dentry f)
          in case get_inode sto sb n c1 of
               (Inl rc, c2) \<Rightarrow> (rc, f, c2)
             | (Inr ino, c2) \<Rightarrow>
                 let old_size = unat (ino_size ino)
                 in case grow_blocks sto sb
                           (if unat new_size > old_size then [blocks_for old_size..<blocks_for (unat new_size)] else [])
                           ino c2 of
                      (Inl rc, c3) \<Rightarrow> (rc, f, c3)
                    | (Inr ino1, c3) \<Rightarrow>
                        (case kget sto (inode_pos sb (unat n)) c3 of
                           (Inl rc, c4) \<Rightarrow> (rc, f, c4)
                         | (Inr k, c4) \<Rightarrow>
                             let c5 = cache_release_block k True
                                        (inode_set k (unat n mod (KTFS_BLKSZ div KTFS_INOSZ))
                                           (ino1\<lparr>ino_size := ucast new_size\<rparr>) c4)
                             in (0, file_unlock (f\<lparr>kf_fileSize := new_size,
                                      kf_pos := (if kf_pos f > new_size then new_size else kf_pos f)\<rparr>),
                                 cache_release_block ksb False c5)))"

definition cntl_body ::
    "'d storage_intf \<Rightarrow> int \<Rightarrow> u64 \<Rightarrow> ktfs_file \<Rightarrow> 'd cache \<Rightarrow> (int \<times> u64) \<times> ktfs_file \<times> 'd cache" where
  "cntl_body sto cmd arg f c =
     (if cmd = FCNTL_GETEND then ((0, kf_fileSize f), file_unlock f, c)
      else if cmd = FCNTL_SETPOS \<and> arg \<le> kf_fileSize f then ((0, arg), file_unlock (f\<lparr>kf_pos := arg\<rparr>), c)
      else if cmd = FCNTL_GETPOS then ((0, kf_pos f), file_unlock f, c)
      else if cmd = FCNTL_SETEND then (case set_end sto arg f c of (rc, f1, c1) \<Rightarrow> ((rc, arg), f1, c1))
      else ((- ENOTSUP, arg), file_unlock f, c))"

definition ktfs_cntl ::
    "'d storage_intf \<Rightarrow> nat \<Rightarrow> nat option \<Rightarrow> int \<Rightarrow> u64 option \<Rightarrow> 'd ktfs \<Rightarrow> ((int \<times> u64) \<times> 'd ktfs) option" where
  "ktfs_cntl sto me uio cmd arg ks =
     with_file me uio (arg = None) (- ENOTSUP, 0) (cntl_body sto cmd (the arg)) ks"

text \<open>Closing unlinks the file, flushes the cache and frees the file, whatever the flush says.\<close>

definition ktfs_close :: "'d storage_intf \<Rightarrow> nat option \<Rightarrow> 'd ktfs \<Rightarrow> 'd ktfs" where
  "ktfs_close sto uio ks =
     (case uio of
        None \<Rightarrow> ks
      | Some u \<Rightarrow>
          (case split_first (\<lambda>f. kf_id f = u) (ks_open ks) of
             None \<Rightarrow> ks
           | Some (xs, f, ys) \<Rightarrow>
               ks\<lparr>ks_open := xs @ ys, ks_cache := snd (cache_flush sto (ks_cache ks))\<rparr>))"

definition ktfs_flush :: "'d storage_intf \<Rightarrow> 'd ktfs \<Rightarrow> 'd ktfs" where
  "ktfs_flush sto ks = ks\<lparr>ks_cache := snd (cache_flush sto (ks_cache ks))\<rparr>"

end
