(* ===== verification/KtfsDir.thy ===== *)
theory KtfsDir
  imports KtfsFile
begin

text \<open>
  The directory of \<open>modified/sys/ktfs.c\<close>: looking a name up, opening, creating and deleting
  files, and the listing.  \<open>None\<close> is the outcome in which a string function reads past the
  block or the object that it was given, or an array index leaves its array.
\<close>

section \<open>Looking a name up\<close>

text \<open>The entries of one directory block: the index of the first match, or the count of entries
  passed.  A name that is not terminated runs on into the next entry, up to the end of the
  block.\<close>

fun scan_entries :: "bytes \<Rightarrow> bytes \<Rightarrow> nat list \<Rightarrow> nat \<Rightarrow> nat \<Rightarrow> (nat + nat) option" where
  "scan_entries bs name [] i n = Some (Inr i)"
| "scan_entries bs name (k # ks) i n =
     (if i < n
      then (case strcmp (Some (drop (KTFS_DENSZ * k + 2) bs)) (Some name) of
              None \<Rightarrow> None
            | Some r \<Rightarrow> if r = 0 then Some (Inl k) else scan_entries bs name ks (i + 1) n)
      else Some (Inr i))"

text \<open>A hit keeps its blocks pinned: the pointer blocks, innermost first, and the directory block
  with the index of the entry in it.\<close>

datatype search = Sfail int | Shit "nat list" nat nat | Smiss nat

definition search_block ::
    "'d storage_intf \<Rightarrow> ktfs_superblock \<Rightarrow> bytes \<Rightarrow> nat \<Rightarrow> u32 \<Rightarrow> nat \<Rightarrow> 'd cache \<Rightarrow> (search \<times> 'd cache) option" where
  "search_block sto sb name n p i c =
     (case kget sto (data_pos sb p) c of
        (Inl rc, c1) \<Rightarrow> Some (Sfail rc, c1)
      | (Inr k, c1) \<Rightarrow>
          (case scan_entries (block_bytes k c1) name [0..<KTFS_BLKSZ div KTFS_DENSZ] i n of
             None \<Rightarrow> None
           | Some (Inl e) \<Rightarrow> Some (Shit [] k e, c1)
           | Some (Inr i1) \<Rightarrow> Some (Smiss i1, cache_release_block k False c1)))"

fun search_direct ::
    "'d storage_intf \<Rightarrow> ktfs_superblock \<Rightarrow> bytes \<Rightarrow> nat \<Rightarrow> u32 list \<Rightarrow> nat \<Rightarrow> 'd cache \<Rightarrow> (search \<times> 'd cache) option" where
  "search_direct sto sb name n [] i c = Some (Smiss i, c)"
| "search_direct sto sb name n (p # ps) i c =
     (if i < n
      then (case search_block sto sb name n p i c of
              Some (Smiss i1, c1) \<Rightarrow> search_direct sto sb name n ps i1 c1
            | res \<Rightarrow> res)
      else Some (Smiss i, c))"

text \<open>The directory blocks that the pinned pointer block \<open>k\<close> lists.\<close>

fun search_ptrs ::
    "'d storage_intf \<Rightarrow> ktfs_superblock \<Rightarrow> bytes \<Rightarrow> nat \<Rightarrow> nat \<Rightarrow> nat list \<Rightarrow> nat \<Rightarrow> 'd cache \<Rightarrow> (search \<times> 'd cache) option" where
  "search_ptrs sto sb name n k [] i c = Some (Smiss i, c)"
| "search_ptrs sto sb name n k (j # js) i c =
     (if i < n
      then (case search_block sto sb name n (ptr_at (block_bytes k c) j) i c of
              Some (Smiss i1, c1) \<Rightarrow> search_ptrs sto sb name n k js i1 c1
            | res \<Rightarrow> res)
      else Some (Smiss i, c))"

text \<open>A pointer block around its search: kept on a hit, released otherwise.\<close>

definition search_around ::
    "'d storage_intf \<Rightarrow> ktfs_superblock \<Rightarrow> u32 \<Rightarrow> (nat \<Rightarrow> 'd cache \<Rightarrow> (search \<times> 'd cache) option) \<Rightarrow> 'd cache \<Rightarrow>
     (search \<times> 'd cache) option" where
  "search_around sto sb p walk c =
     (case kget sto (data_pos sb p) c of
        (Inl rc, c1) \<Rightarrow> Some (Sfail rc, c1)
      | (Inr k, c1) \<Rightarrow>
          (case walk k c1 of
             None \<Rightarrow> None
           | Some (Shit ks kd e, c2) \<Rightarrow> Some (Shit (ks @ [k]) kd e, c2)
           | Some (res, c2) \<Rightarrow> Some (res, cache_release_block k False c2)))"

definition search_indirect ::
    "'d storage_intf \<Rightarrow> ktfs_superblock \<Rightarrow> bytes \<Rightarrow> nat \<Rightarrow> u32 \<Rightarrow> nat \<Rightarrow> 'd cache \<Rightarrow> (search \<times> 'd cache) option" where
  "search_indirect sto sb name n p i c =
     search_around sto sb p (\<lambda>k. search_ptrs sto sb name n k [0..<PTRS_PER_BLOCK] i) c"

fun search_second ::
    "'d storage_intf \<Rightarrow> ktfs_superblock \<Rightarrow> bytes \<Rightarrow> nat \<Rightarrow> nat \<Rightarrow> nat list \<Rightarrow> nat \<Rightarrow> 'd cache \<Rightarrow> (search \<times> 'd cache) option" where
  "search_second sto sb name n k [] i c = Some (Smiss i, c)"
| "search_second sto sb name n k (j # js) i c =
     (if i < n
      then (case search_indirect sto sb name n (ptr_at (block_bytes k c) j) i c of
              Some (Smiss i1, c1) \<Rightarrow> search_second sto sb name n k js i1 c1
            | res \<Rightarrow> res)
      else Some (Smiss i, c))"

fun search_dindirect ::
    "'d storage_intf \<Rightarrow> ktfs_superblock \<Rightarrow> bytes \<Rightarrow> nat \<Rightarrow> u32 list \<Rightarrow> nat \<Rightarrow> 'd cache \<Rightarrow> (search \<times> 'd cache) option" where
  "search_dindirect sto sb name n [] i c = Some (Smiss i, c)"
| "search_dindirect sto sb name n (p # ps) i c =
     (if i < n
      then (case search_around sto sb p (\<lambda>k. search_second sto sb name n k [0..<PTRS_PER_BLOCK] i) c of
              Some (Smiss i1, c1) \<Rightarrow> search_dindirect sto sb name n ps i1 c1
            | res \<Rightarrow> res)
      else Some (Smiss i, c))"

text \<open>The lookup of \<open>ktfs_open\<close> and \<open>ktfs_delete\<close>; a miss of either kind is -ENOENT there.\<close>

definition lookup ::
    "'d storage_intf \<Rightarrow> ktfs_superblock \<Rightarrow> ktfs_inode \<Rightarrow> bytes \<Rightarrow> nat \<Rightarrow> 'd cache \<Rightarrow> (search \<times> 'd cache) option" where
  "lookup sto sb root name n c =
     (case search_direct sto sb name n (ino_block root) 0 c of
        Some (Smiss i, c1) \<Rightarrow>
          if i = n then Some (Smiss i, c1)
          else (case (if ino_indirect root \<noteq> 0 then search_indirect sto sb name n (ino_indirect root) i c1
                      else Some (Smiss i, c1)) of
                  Some (Smiss i2, c2) \<Rightarrow>
                    if i2 = n then Some (Smiss i2, c2)
                    else search_dindirect sto sb name n (ino_dindirect root) i2 c2
                | res \<Rightarrow> res)
      | res \<Rightarrow> res)"

text \<open>\<open>ktfs_create\<close> reads the indirect block even when there is none.\<close>

definition lookup_create ::
    "'d storage_intf \<Rightarrow> ktfs_superblock \<Rightarrow> ktfs_inode \<Rightarrow> bytes \<Rightarrow> nat \<Rightarrow> 'd cache \<Rightarrow> (search \<times> 'd cache) option" where
  "lookup_create sto sb root name n c =
     (case search_direct sto sb name n (ino_block root) 0 c of
        Some (Smiss i, c1) \<Rightarrow>
          (case search_indirect sto sb name n (ino_indirect root) i c1 of
             Some (Smiss i2, c2) \<Rightarrow> search_dindirect sto sb name n (ino_dindirect root) i2 c2
           | res \<Rightarrow> res)
      | res \<Rightarrow> res)"

fun release_all :: "bool \<Rightarrow> nat list \<Rightarrow> 'd cache \<Rightarrow> 'd cache" where
  "release_all dirt [] c = c"
| "release_all dirt (k # ks) c = release_all dirt ks (cache_release_block k dirt c)"

section \<open>Opening\<close>

text \<open>The number of a new object is the code's result through \<open>uioptr\<close>.\<close>

definition open_found ::
    "'d storage_intf \<Rightarrow> nat list \<Rightarrow> nat \<Rightarrow> nat \<Rightarrow> 'd ktfs \<Rightarrow> (int \<times> nat option) \<times> 'd ktfs" where
  "open_found sto ks kd e fs =
     (let dentry = dentry_at (block_bytes kd (ks_cache fs)) e in
      case kget sto 0 (ks_cache fs) of
        (Inl rc, c1) \<Rightarrow> ((rc, None), fs\<lparr>ks_cache := release_all False (kd # ks) c1\<rparr>)
      | (Inr ksb, c1) \<Rightarrow>
          (case get_inode sto (superblock_of (block_bytes ksb c1)) (de_inode dentry) c1 of
             (Inl rc, c2) \<Rightarrow>
               ((rc, None), fs\<lparr>ks_cache := release_all False (kd # ks) (cache_release_block ksb False c2)\<rparr>)
           | (Inr ino, c2) \<Rightarrow>
               ((0, Some (ks_next fs)),
                fs\<lparr>ks_cache := release_all False (kd # ks) (cache_release_block ksb False c2),
                   ks_open := \<lparr>kf_id = ks_next fs, kf_fileSize = ucast (ino_size ino), kf_dentry = dentry,
                               kf_pos = 0, kf_owner = None, kf_cnt = 0\<rparr> # ks_open fs,
                   ks_next := ks_next fs + 1\<rparr>)))"

definition ktfs_open ::
    "'d storage_intf \<Rightarrow> bool \<Rightarrow> bytes option \<Rightarrow> 'd ktfs \<Rightarrow> ((int \<times> nat option) \<times> 'd ktfs) option" where
  "ktfs_open sto ptr_null name fs =
     (if ptr_null then Some ((- ENOTSUP, None), fs)
      else case name of
        None \<Rightarrow> Some ((0, Some (ks_next fs)),
                  fs\<lparr>ks_listings := (ks_next fs, 0) # ks_listings fs, ks_next := ks_next fs + 1\<rparr>)
      | Some [] \<Rightarrow> None
      | Some (ch # nm) \<Rightarrow>
          if ch = 0
          then Some ((0, Some (ks_next fs)),
                  fs\<lparr>ks_listings := (ks_next fs, 0) # ks_listings fs, ks_next := ks_next fs + 1\<rparr>)
          else case kget sto 0 (ks_cache fs) of
            (Inl rc, c1) \<Rightarrow> Some ((rc, None), fs\<lparr>ks_cache := c1\<rparr>)
          | (Inr ksb, c1) \<Rightarrow>
              let sb = superblock_of (block_bytes ksb c1)
              in case get_inode sto sb (sb_root_directory_inode sb) c1 of
                   (Inl rc, c2) \<Rightarrow> Some ((rc, None), fs\<lparr>ks_cache := cache_release_block ksb False c2\<rparr>)
                 | (Inr root, c2) \<Rightarrow>
                     (case lookup sto sb root (ch # nm) (unat (ino_size root) div KTFS_DENSZ)
                             (cache_release_block ksb False c2) of
                        None \<Rightarrow> None
                      | Some (Sfail rc, c3) \<Rightarrow> Some ((rc, None), fs\<lparr>ks_cache := c3\<rparr>)
                      | Some (Smiss i, c3) \<Rightarrow> Some ((- ENOENT, None), fs\<lparr>ks_cache := c3\<rparr>)
                      | Some (Shit ks kd e, c3) \<Rightarrow> Some (open_found sto ks kd e (fs\<lparr>ks_cache := c3\<rparr>))))"

end
