(* ===== verification/KtfsRead.thy ===== *)
theory KtfsRead
  imports KtfsFile
begin

text \<open>
  Reading a file gives the bytes of its blocks: the walk of \<open>ktfs_fetch\<close> over direct, indirect
  and doubly indirect blocks against the file as an array of bytes.
\<close>

section \<open>The file as bytes\<close>

definition file_byte :: "disk_view \<Rightarrow> ktfs_superblock \<Rightarrow> ktfs_inode \<Rightarrow> nat \<Rightarrow> u8" where
  "file_byte V sb ino m = V (data_pos sb (slot_ptr V sb ino (Data (m div 512)))) ! (m mod 512)"

definition file_bytes :: "disk_view \<Rightarrow> ktfs_superblock \<Rightarrow> ktfs_inode \<Rightarrow> nat \<Rightarrow> nat \<Rightarrow> bytes" where
  "file_bytes V sb ino p n = map (file_byte V sb ino) [p..<p + n]"

text \<open>Every block below the size is there.\<close>

definition dense :: "disk_view \<Rightarrow> ktfs_superblock \<Rightarrow> ktfs_inode \<Rightarrow> nat \<Rightarrow> bool" where
  "dense V sb ino sz \<longleftrightarrow> (\<forall>i. 512 * i < sz \<longrightarrow> i < MAX_BLOCKS \<and> slot_ptr V sb ino (Data i) \<noteq> 0)"

lemma length_file_bytes [simp]: "length (file_bytes V sb ino p n) = n"
  by (simp add: file_bytes_def)

lemma file_bytes_0 [simp]: "file_bytes V sb ino p 0 = []"
  by (simp add: file_bytes_def)

lemma file_bytes_append: "file_bytes V sb ino p m @ file_bytes V sb ino (p + m) n = file_bytes V sb ino p (m + n)"
  using upt_add_eq_append [of p "p + m" n] by (simp add: file_bytes_def add.assoc flip: map_append)

lemma below_div_512: "i < p div 512 \<Longrightarrow> 512 * (i + 1) \<le> (p :: nat)"
proof -
  assume "i < p div 512"
  then have "512 * (i + 1) \<le> 512 * (p div 512)" by simp
  also have "\<dots> \<le> p" by simp
  finally show ?thesis .
qed

lemma file_bytes_block:
  assumes "length (V (data_pos sb (slot_ptr V sb ino (Data i)))) = 512" and "a + n \<le> 512"
  shows "take n (drop a (V (data_pos sb (slot_ptr V sb ino (Data i))))) = file_bytes V sb ino (512 * i + a) n"
proof (rule nth_equalityI)
  show "length (take n (drop a (V (data_pos sb (slot_ptr V sb ino (Data i)))))) =
      length (file_bytes V sb ino (512 * i + a) n)" using assms by simp
  fix x assume "x < length (take n (drop a (V (data_pos sb (slot_ptr V sb ino (Data i))))))"
  then have x: "x < n" "a + x < 512" using assms by auto
  have "(512 * i + a + x) div 512 = i" "(512 * i + a + x) mod 512 = a + x" using x(2) by (simp_all add: add.assoc)
  with x assms show "take n (drop a (V (data_pos sb (slot_ptr V sb ino (Data i))))) ! x =
      file_bytes V sb ino (512 * i + a) n ! x"
    by (simp add: file_bytes_def file_byte_def)
qed

section \<open>The walk\<close>

text \<open>The progress of a read of \<open>n\<close> bytes at \<open>pos\<close> that has passed the first \<open>i\<close> blocks.\<close>

definition progress ::
    "disk_view \<Rightarrow> ktfs_superblock \<Rightarrow> ktfs_inode \<Rightarrow> nat \<Rightarrow> nat \<Rightarrow> nat \<Rightarrow> fetch_state \<Rightarrow> bool" where
  "progress V sb ino pos n i st \<longleftrightarrow> st = (512 * i, file_bytes V sb ino pos (min n (512 * i - pos)))"

definition fetched ::
    "disk_view \<Rightarrow> ktfs_superblock \<Rightarrow> ktfs_inode \<Rightarrow> nat \<Rightarrow> nat \<Rightarrow> nat \<Rightarrow> fetch_status \<Rightarrow> fetch_state \<Rightarrow> bool" where
  "fetched V sb ino pos n i s st \<longleftrightarrow>
     s = Done \<and> snd st = file_bytes V sb ino pos n \<or> s = More \<and> progress V sb ino pos n i st"

lemma progress_complete: "progress V sb ino pos n i (w, out) \<Longrightarrow> 0 < n \<Longrightarrow> n \<le> length out \<longleftrightarrow> pos + n \<le> 512 * i"
  by (auto simp: progress_def)

lemma progress_done:
  "progress V sb ino pos n i (w, out) \<Longrightarrow> n \<le> length out \<Longrightarrow> out = file_bytes V sb ino pos n"
  by (auto simp: progress_def min_def split: if_splits)

lemma progress_skip:
  assumes "progress V sb ino pos n i (w, out)" and "w < pos div 512 * 512"
  shows "progress V sb ino pos n (i + 1) (w + 512, out)"
proof -
  have w: "w = 512 * i" using assms(1) by (simp add: progress_def)
  then have "i < pos div 512" using assms(2) by simp
  then have "512 * (i + 1) \<le> pos" by (rule below_div_512)
  then show ?thesis using assms(1) w by (simp add: progress_def)
qed

context steady_disk
begin

lemma fetch_chunk_steady:
  assumes rel: "cache_rel img ready V N H W c" and room: "size H < 64"
    and ok: "fs_ok V N sb" "file_ok V N sb ino" and dn: "dense V sb ino sz" "pos + n \<le> sz"
    and pr: "progress V sb ino pos n i (w, out)" and todo: "\<not> n \<le> length out" "\<not> w < pos div 512 * 512"
  shows "\<exists>s st c'. fetch_chunk intf sb (pos mod 512) n (slot_ptr V sb ino (Data i)) (w, out) c = (s, st, c') \<and>
     cache_rel img ready V N H W c' \<and> fetched V sb ino pos n (i + 1) s st"
proof -
  have n0: "0 < n" using todo(1) by (cases n) auto
  have w: "w = 512 * i" and out: "out = file_bytes V sb ino pos (min n (512 * i - pos))"
    using pr by (simp_all add: progress_def)
  have lt: "512 * i < pos + n" using progress_complete [OF pr n0] todo(1) by simp
  then have i: "i < MAX_BLOCKS" "slot_ptr V sb ino (Data i) \<noteq> 0" using dn by (simp_all add: dense_def)
  let ?idx = "slot_ptr V sb ino (Data i)"
  let ?p = "data_pos sb ?idx"
  have "valid_idx N sb ?idx" using ok(2) i by (simp add: file_ok_def)
  then have p: "in_disk N ?p" using data_in_disk fs_ok_geometry [OF ok(1)] by blast
  from get_steady [OF rel p room] obtain k c1 where k: "kget intf ?p c = (Inr k, c1)"
    and r1: "cache_rel img ready V N (add_mset (k, ?p) H) W c1" by auto
  have b: "block_bytes k c1 = V ?p" by (rule cache_rel_bytes [OF r1]) simp
  have len: "length (V ?p) = 512" by (rule cache_rel_length [OF rel p])
  let ?q = "pos div 512" and ?r = "pos mod 512"
  have pos: "pos = 512 * ?q + ?r" "?r < 512" by simp_all
  have qi: "?q \<le> i" using todo(2) w by simp
  define a where "a = (if out = [] then ?r else 0)"
  define m where "m = min (512 - a) (n - length out)"
  have emp: "out = [] \<longleftrightarrow> i = ?q"
  proof -
    have "length out = min n (512 * i - pos)" using out by simp
    then have "out = [] \<longleftrightarrow> 512 * i \<le> pos" using n0 by (auto simp flip: length_0_conv)
    also have "\<dots> \<longleftrightarrow> i = ?q" using qi pos by linarith
    finally show ?thesis .
  qed
  have at: "512 * i + a = pos + length out" "a + m \<le> 512"
    "length out + m = min n (512 * (i + 1) - pos)"
  proof -
    have l: "length out = min n (512 * i - pos)" using out by simp
    show "512 * i + a = pos + length out"
    proof (cases "i = ?q")
      case True
      then show ?thesis using emp pos by (simp add: a_def)
    next
      case False
      then have "pos \<le> 512 * i" using qi pos by linarith
      moreover have "a = 0" using False emp by (simp add: a_def)
      ultimately show ?thesis using l lt by linarith
    qed
    moreover show "a + m \<le> 512" using pos(2) by (auto simp: a_def m_def min_def)
    ultimately show "length out + m = min n (512 * (i + 1) - pos)"
      using todo(1) pos(2) unfolding m_def a_def by (auto simp: min_def split: if_splits)
  qed
  have "take m (drop a (V ?p)) = file_bytes V sb ino (pos + length out) m"
    using file_bytes_block [where V = V and sb = sb and ino = ino and i = i, OF len at(2)] at(1) by simp
  then have out1: "out @ take m (drop a (V ?p)) = file_bytes V sb ino pos (min n (512 * (i + 1) - pos))"
    using out at(3) file_bytes_append [of V sb ino pos "length out" m] by simp
  have "cache_rel img ready V N H W (cache_release_block k False c1)"
    by (rule release_clean_steady [OF r1 cache_rel_written [OF rel]])
  moreover have "fetch_chunk intf sb ?r n ?idx (w, out) c =
      (if length (out @ take m (drop a (V ?p))) = n then Done else More, (w + 512, out @ take m (drop a (V ?p))),
       cache_release_block k False c1)"
    using k b by (simp add: fetch_chunk_def Let_def a_def m_def)
  moreover have "fetched V sb ino pos n (i + 1)
      (if length (out @ take m (drop a (V ?p))) = n then Done else More) (w + 512, out @ take m (drop a (V ?p)))"
    unfolding out1 by (auto simp: fetched_def progress_def w)
  ultimately show ?thesis by blast
qed

lemma fetch_direct_steady:
  assumes rel: "cache_rel img ready V N H W c" and room: "size H < 64"
    and ok: "fs_ok V N sb" "file_ok V N sb ino" and dn: "dense V sb ino sz" "pos + n \<le> sz" "0 < n"
    and pr: "progress V sb ino pos n i st" and ps: "ps = map (\<lambda>j. slot_ptr V sb ino (Data j)) [i..<m]" and im: "i \<le> m"
    and lt: "512 * i < pos + n"
  shows "\<exists>s st' c'. fetch_direct intf sb (pos div 512 * 512) (pos mod 512) n ps st c = (s, st', c') \<and>
     cache_rel img ready V N H W c' \<and> fetched V sb ino pos n m s st' \<and> (s = More \<longrightarrow> 512 * m < pos + n)"
  using rel pr ps im lt
proof (induction ps arbitrary: i st c)
  case Nil
  then show ?case by (auto simp: fetched_def)
next
  case (Cons p ps)
  obtain w out where st: "st = (w, out)" by (cases st)
  have im: "i < m" using Cons.prems(3,4) by (cases "i < m") auto
  then have p: "p = slot_ptr V sb ino (Data i)" "ps = map (\<lambda>j. slot_ptr V sb ino (Data j)) [i + 1..<m]"
    using Cons.prems(3) by (auto simp: upt_conv_Cons)
  note pr = Cons.prems(2) [unfolded st]
  have todo: "\<not> n \<le> length out" using progress_complete [OF pr dn(3)] Cons.prems(5) by simp
  show ?case
  proof (cases "w < pos div 512 * 512")
    case True
    have w: "w = 512 * i" using pr by (simp add: progress_def)
    then have "512 * (i + 1) \<le> pos" using True by (intro below_div_512) simp
    then have "512 * (i + 1) < pos + n" using dn(3) by simp
    from Cons.IH [OF Cons.prems(1) progress_skip [OF pr True] p(2) _ this] im True todo show ?thesis
      by (simp add: st)
  next
    case False
    from fetch_chunk_steady [OF Cons.prems(1) room ok dn(1,2) pr todo False] obtain s st1 c1 where
      ch: "fetch_chunk intf sb (pos mod 512) n p (w, out) c = (s, st1, c1)"
        "cache_rel img ready V N H W c1" "fetched V sb ino pos n (i + 1) s st1" unfolding p(1) by blast
    show ?thesis
    proof (cases "s = More")
      case more: True
      then have pr1: "progress V sb ino pos n (i + 1) st1" using ch(3) by (simp add: fetched_def)
      show ?thesis
      proof (cases "512 * (i + 1) < pos + n")
        case True
        from Cons.IH [OF ch(2) pr1 p(2) _ this] im ch(1) more todo False show ?thesis by (simp add: st)
      next
        case full: False
        obtain w1 out1 where st1: "st1 = (w1, out1)" by (cases st1)
        have "length out1 = n" using pr1 full by (simp add: st1 progress_def)
        moreover have "length out1 \<noteq> n"
        proof -
          have "s = (if length (snd st1) = n then Done else More)"
            using ch(1) by (auto simp: fetch_chunk_def Let_def more split: prod.splits sum.splits if_splits)
          then show ?thesis using more st1 by (auto split: if_splits)
        qed
        ultimately show ?thesis by simp
      qed
    next
      case False
      then have "s = Done" using ch(3) by (simp add: fetched_def)
      with ch \<open>\<not> w < pos div 512 * 512\<close> todo show ?thesis by (simp add: st fetched_def)
    qed
  qed
qed

text \<open>A pointer block whose entries are the blocks from \<open>b\<close> on.\<close>

lemma fetch_ptrs_steady:
  assumes rel: "cache_rel img ready V N H W c" and room: "size H < 64"
    and ok: "fs_ok V N sb" "file_ok V N sb ino" and dn: "dense V sb ino sz" "pos + n \<le> sz" "0 < n"
    and k: "(k, q) \<in># H" and ents: "\<forall>x<128. slot_ptr V sb ino (Data (b + x)) = ptr_at (V q) x"
    and pr: "progress V sb ino pos n (b + j) st" and j: "is = [j..<128]" "j \<le> 128"
  shows "\<exists>s st' c'. fetch_ptrs intf sb (pos div 512 * 512) (pos mod 512) n k is st c = (s, st', c') \<and>
     cache_rel img ready V N H W c' \<and> fetched V sb ino pos n (b + 128) s st'"
  using rel pr j
proof (induction "is" arbitrary: j st c)
  case Nil
  then have "j = 128" using upt_eq_Nil_conv [of j 128] by auto
  with Nil show ?case by (auto simp: fetched_def)
next
  case (Cons x xs)
  obtain w out where st: "st = (w, out)" by (cases st)
  have j: "x = j" "j < 128" "xs = [j + 1..<128]" using Cons.prems(3,4) by (cases "j < 128"; auto simp: upt_conv_Cons)+
  note pr = Cons.prems(2) [unfolded st]
  show ?case
  proof (cases "n \<le> length out")
    case True
    then show ?thesis using Cons.prems(1) progress_done [OF pr] by (auto simp: st fetched_def)
  next
    case todo: False
    show ?thesis
    proof (cases "w < pos div 512 * 512")
      case True
      have "progress V sb ino pos n (b + (j + 1)) (w + 512, out)" using progress_skip [OF pr True] by (simp add: add.assoc)
      from Cons.IH [OF Cons.prems(1) this j(3)] j(2) True todo show ?thesis by (simp add: st)
    next
      case False
      have "block_bytes k c = V q" by (rule cache_rel_bytes [OF Cons.prems(1) k])
      then have p: "ptr_at (block_bytes k c) x = slot_ptr V sb ino (Data (b + j))" using ents j by simp
      from fetch_chunk_steady [OF Cons.prems(1) room ok dn(1,2) pr todo False] obtain s st1 c1 where
        ch: "fetch_chunk intf sb (pos mod 512) n (ptr_at (block_bytes k c) x) (w, out) c = (s, st1, c1)"
          "cache_rel img ready V N H W c1" "fetched V sb ino pos n (b + j + 1) s st1" unfolding p by blast
      show ?thesis
      proof (cases "s = More")
        case True
        then have "progress V sb ino pos n (b + (j + 1)) st1" using ch(3) by (simp add: fetched_def add.assoc)
        from Cons.IH [OF ch(2) this j(3)] j(2) ch(1) True todo False show ?thesis by (simp add: st)
      next
        case fin: False
        then have "s = Done" using ch(3) by (simp add: fetched_def)
        with ch False todo show ?thesis by (simp add: st fetched_def)
      qed
    qed
  qed
qed

lemma fetch_indirect_steady:
  assumes rel: "cache_rel img ready V N H W c" and room: "size H < 63"
    and ok: "fs_ok V N sb" "file_ok V N sb ino" and dn: "dense V sb ino sz" "pos + n \<le> sz" "0 < n"
    and u: "is_slot u" "slot_ptr V sb ino u \<noteq> 0" "\<forall>x<128. up (Data (b + x)) = Some (u, x)"
    and pr: "progress V sb ino pos n b st"
  shows "\<exists>s st' c'. fetch_indirect intf sb (pos div 512 * 512) (pos mod 512) n (slot_ptr V sb ino u) st c = (s, st', c') \<and>
     cache_rel img ready V N H W c' \<and> fetched V sb ino pos n (b + 128) s st'"
proof -
  let ?p = "data_pos sb (slot_ptr V sb ino u)"
  have "valid_idx N sb (slot_ptr V sb ino u)" using ok(2) u by (simp add: file_ok_def)
  then have p: "in_disk N ?p" using data_in_disk fs_ok_geometry [OF ok(1)] by blast
  from get_steady [OF rel p] room obtain k c1 where k: "kget intf ?p c = (Inr k, c1)"
    and r1: "cache_rel img ready V N (add_mset (k, ?p) H) W c1" by auto
  have ents: "\<forall>x<128. slot_ptr V sb ino (Data (b + x)) = ptr_at (V ?p) x"
  proof (intro allI impI)
    fix x :: nat assume "x < 128"
    then have "up (Data (b + x)) = Some (u, x)" using u(3) by blast
    from slot_ptr_up [OF this, of V sb ino] u(2) show "slot_ptr V sb ino (Data (b + x)) = ptr_at (V ?p) x" by simp
  qed
  have "size (add_mset (k, ?p) H) < 64" "(k, ?p) \<in># add_mset (k, ?p) H" using room by simp_all
  from fetch_ptrs_steady [OF r1 this(1) ok dn this(2) ents _ refl, of 0 st] pr obtain s st' c2 where
    f: "fetch_ptrs intf sb (pos div 512 * 512) (pos mod 512) n k [0..<128] st c1 = (s, st', c2)"
      "cache_rel img ready V N (add_mset (k, ?p) H) W c2" "fetched V sb ino pos n (b + 128) s st'" by auto
  have "cache_rel img ready V N H W (cache_release_block k False c2)"
    by (rule release_clean_steady [OF f(2) cache_rel_written [OF rel]])
  with k f show ?thesis by (cases st') (auto simp: fetch_indirect_def fetched_def)
qed

text \<open>A slot above a present data block is present.\<close>

lemma parent_present: "up s = Some (t, i) \<Longrightarrow> slot_ptr V sb ino s \<noteq> 0 \<Longrightarrow> slot_ptr V sb ino t \<noteq> 0"
  by (auto simp: slot_ptr_up split: if_splits)

lemma up_data_second: "x < 128 \<Longrightarrow> up (Data (132 + 128 * m + x)) = Some (Second m, x)"
  by simp

lemma fetch_second_steady:
  assumes rel: "cache_rel img ready V N H W c" and room: "size H < 63"
    and ok: "fs_ok V N sb" "file_ok V N sb ino" and dn: "dense V sb ino sz" "pos + n \<le> sz" "0 < n"
    and k: "(k, q) \<in># H" and d: "d < 2" "\<forall>x<128. slot_ptr V sb ino (Second (128 * d + x)) = ptr_at (V q) x"
    and pr: "progress V sb ino pos n (132 + 16384 * d + 128 * j) st" and j: "js = [j..<128]" "j \<le> 128"
  shows "\<exists>s st' c'. fetch_second intf sb (pos div 512 * 512) (pos mod 512) n k js st c = (s, st', c') \<and>
     cache_rel img ready V N H W c' \<and> fetched V sb ino pos n (132 + 16384 * (d + 1)) s st'"
  using rel pr j
proof (induction js arbitrary: j st c)
  case Nil
  then have "j = 128" using upt_eq_Nil_conv [of j 128] by auto
  then have "132 + 16384 * d + 128 * j = 132 + 16384 * (d + 1)" by simp
  with Nil show ?case by (auto simp: fetched_def simp del: distrib_left_numeral)
next
  case (Cons x xs)
  obtain w out where st: "st = (w, out)" by (cases st)
  have j: "x = j" "j < 128" "xs = [j + 1..<128]" using Cons.prems(3,4) by (cases "j < 128"; auto simp: upt_conv_Cons)+
  note pr = Cons.prems(2) [unfolded st]
  let ?b = "132 + 16384 * d + 128 * j"
  show ?case
  proof (cases "n \<le> length out")
    case True
    then show ?thesis using Cons.prems(1) progress_done [OF pr] by (auto simp: st fetched_def)
  next
    case todo: False
    let ?u = "Second (128 * d + j)"
    have b: "132 + 128 * (128 * d + j) = ?b" by simp
    have ups: "\<forall>x<128. up (Data (?b + x)) = Some (?u, x)"
      using up_data_second [of _ "128 * d + j"] unfolding b by blast
    have "512 * ?b < pos + n" using progress_complete [OF pr dn(3)] todo by simp
    then have "slot_ptr V sb ino (Data (?b + 0)) \<noteq> 0" using dn by (simp add: dense_def)
    moreover have "up (Data (?b + 0)) = Some (?u, 0)" using ups [rule_format, of 0] by simp
    ultimately have "slot_ptr V sb ino ?u \<noteq> 0" using parent_present by blast
    moreover have "is_slot ?u" using d(1) j(2) by simp
    ultimately have u: "is_slot ?u" "slot_ptr V sb ino ?u \<noteq> 0" by simp_all
    have p: "ptr_at (block_bytes k c) x = slot_ptr V sb ino ?u"
      using cache_rel_bytes [OF Cons.prems(1) k] d(2) j by simp
    from fetch_indirect_steady [OF Cons.prems(1) room ok dn u ups pr] obtain s st1 c1 where
      ch: "fetch_indirect intf sb (pos div 512 * 512) (pos mod 512) n (ptr_at (block_bytes k c) x) st c = (s, st1, c1)"
        "cache_rel img ready V N H W c1" "fetched V sb ino pos n (?b + 128) s st1" unfolding p st by blast
    show ?thesis
    proof (cases "s = More")
      case True
      have "?b + 128 = 132 + 16384 * d + 128 * (j + 1)" by simp
      then have "progress V sb ino pos n (132 + 16384 * d + 128 * (j + 1)) st1"
        using ch(3) True by (simp add: fetched_def)
      from Cons.IH [OF ch(2) this j(3)] j(2) ch(1) True todo show ?thesis by (simp add: st)
    next
      case False
      then have "s = Done" using ch(3) by (simp add: fetched_def)
      with ch todo show ?thesis by (simp add: st fetched_def)
    qed
  qed
qed

lemma fetch_dindirect_steady:
  assumes rel: "cache_rel img ready V N H W c" and room: "size H < 62"
    and ok: "fs_ok V N sb" "file_ok V N sb ino" and dn: "dense V sb ino sz" "pos + n \<le> sz" "0 < n"
    and pr: "progress V sb ino pos n (132 + 16384 * d) st"
    and ps: "ps = map (\<lambda>e. slot_ptr V sb ino (Double e)) [d..<2]" "d \<le> 2"
  shows "\<exists>s st' c'. fetch_dindirect intf sb (pos div 512 * 512) (pos mod 512) n ps st c = (s, st', c') \<and>
     cache_rel img ready V N H W c' \<and> (s = Done \<or> s = More) \<and> snd st' = file_bytes V sb ino pos n"
  using rel pr ps
proof (induction ps arbitrary: d st c)
  case Nil
  then have "d = 2" using upt_eq_Nil_conv [of d 2] by auto
  obtain w out where st: "st = (w, out)" by (cases st)
  have "\<not> 512 * 32900 < sz" using dn(1) [unfolded dense_def, rule_format, of 32900] by auto
  then have "pos + n \<le> 512 * 32900" using dn(2) by simp
  then have "n \<le> length out"
    using progress_complete [OF Nil(2) [unfolded st \<open>d = 2\<close>] dn(3)] by simp
  with Nil progress_done [OF Nil(2) [unfolded st]] show ?case by (simp add: st)
next
  case (Cons p ps)
  obtain w out where st: "st = (w, out)" by (cases st)
  have d: "d < 2" using Cons.prems(3,4) by (cases "d < 2") auto
  then have p: "p = slot_ptr V sb ino (Double d)" "ps = map (\<lambda>e. slot_ptr V sb ino (Double e)) [d + 1..<2]"
    using Cons.prems(3) by (auto simp: upt_conv_Cons)
  note pr = Cons.prems(2) [unfolded st]
  let ?b = "132 + 16384 * d"
  show ?case
  proof (cases "n \<le> length out")
    case True
    then show ?thesis using Cons.prems(1) progress_done [OF pr] by (simp add: st)
  next
    case todo: False
    have "512 * ?b < pos + n" using progress_complete [OF pr dn(3)] todo by simp
    then have "slot_ptr V sb ino (Data ?b) \<noteq> 0" using dn by (simp add: dense_def)
    moreover have "up (Data ?b) = Some (Second (128 * d), 0)" using up_data_second [of 0 "128 * d"] by simp
    ultimately have "slot_ptr V sb ino (Second (128 * d)) \<noteq> 0" by (rule parent_present [rotated])
    moreover have "up (Second (128 * d)) = Some (Double d, 0)" by simp
    ultimately have pz: "p \<noteq> 0" using parent_present unfolding p(1) by blast
    have "valid_idx N sb p" using ok(2) pz d unfolding p(1) by (simp add: file_ok_def)
    then have ip: "in_disk N (data_pos sb p)" using data_in_disk fs_ok_geometry [OF ok(1)] by blast
    from get_steady [OF Cons.prems(1) ip] room obtain k c1 where k: "kget intf (data_pos sb p) c = (Inr k, c1)"
      and r1: "cache_rel img ready V N (add_mset (k, data_pos sb p) H) W c1" by auto
    have ents: "\<forall>x<128. slot_ptr V sb ino (Second (128 * d + x)) = ptr_at (V (data_pos sb p)) x"
    proof (intro allI impI)
      fix x :: nat assume "x < 128"
      then have "up (Second (128 * d + x)) = Some (Double d, x)" by simp
      from slot_ptr_up [OF this, of V sb ino] pz p(1)
      show "slot_ptr V sb ino (Second (128 * d + x)) = ptr_at (V (data_pos sb p)) x" by simp
    qed
    have "size (add_mset (k, data_pos sb p) H) < 63" "(k, data_pos sb p) \<in># add_mset (k, data_pos sb p) H"
      using room by simp_all
    from fetch_second_steady [OF r1 this(1) ok dn this(2) d ents _ refl, of 0 st] Cons.prems(2)
    obtain s st1 c2 where
      f: "fetch_second intf sb (pos div 512 * 512) (pos mod 512) n k [0..<128] st c1 = (s, st1, c2)"
        "cache_rel img ready V N (add_mset (k, data_pos sb p) H) W c2"
        "fetched V sb ino pos n (132 + 16384 * (d + 1)) s st1" by auto
    have r3: "cache_rel img ready V N H W (cache_release_block k False c2)"
      by (rule release_clean_steady [OF f(2) cache_rel_written [OF rel]])
    show ?thesis
    proof (cases "s = More")
      case True
      then have "progress V sb ino pos n (132 + 16384 * (d + 1)) st1" using f(3) by (simp add: fetched_def)
      from Cons.IH [OF r3 this p(2)] d todo k f(1) True show ?thesis by (simp add: st)
    next
      case False
      then have "s = Done" using f(3) by (simp add: fetched_def)
      with f r3 k todo show ?thesis by (simp add: st fetched_def)
    qed
  qed
qed

lemma fetch_blocks_steady:
  assumes rel: "cache_rel img ready V N H W c" and room: "size H < 62"
    and ok: "fs_ok V N sb" "file_ok V N sb ino" and dn: "dense V sb ino sz" "pos + n \<le> sz"
  shows "\<exists>s st' c'. fetch_blocks intf sb ino (pos div 512 * 512) (pos mod 512) n c = (s, st', c') \<and>
     cache_rel img ready V N H W c' \<and> (s = Done \<or> s = More) \<and> snd st' = file_bytes V sb ino pos n"
proof -
  have wf: "inode_wf ino" using ok(2) by (simp add: file_ok_def)
  have blk: "ino_block ino = map (\<lambda>j. slot_ptr V sb ino (Data j)) [0..<4]"
    using wf by (auto simp: inode_wf_def slot_ptr_root intro!: nth_equalityI)
  have dind: "ino_dindirect ino = map (\<lambda>e. slot_ptr V sb ino (Double e)) [0..<2]"
    using wf by (auto simp: inode_wf_def slot_ptr_root intro!: nth_equalityI)
  have single: "ino_indirect ino = slot_ptr V sb ino Single" by (simp add: slot_ptr_root)
  have room': "size H < 64" "size H < 63" using room by simp_all
  show ?thesis
  proof (cases "n = 0")
    case True
    obtain b bs where "ino_block ino = b # bs" using wf by (cases "ino_block ino") (auto simp: inode_wf_def)
    then have d: "fetch_direct intf sb (pos div 512 * 512) (pos mod 512) n (ino_block ino) (0, []) c = (More, (0, []), c)"
      using True by simp
    obtain e es where e: "ino_dindirect ino = e # es" using wf by (cases "ino_dindirect ino") (auto simp: inode_wf_def)
    show ?thesis
    proof (cases "ino_indirect ino = 0")
      case zero: True
      with d e True rel show ?thesis by (simp add: fetch_blocks_def)
    next
      case False
      let ?p = "data_pos sb (ino_indirect ino)"
      have "valid_idx N sb (ino_indirect ino)" using ok(2) False single by (auto simp: file_ok_def)
      then have p: "in_disk N ?p" using data_in_disk fs_ok_geometry [OF ok(1)] by blast
      from get_steady [OF rel p room'(1)] obtain k c1 where k: "kget intf ?p c = (Inr k, c1)"
        and r1: "cache_rel img ready V N (add_mset (k, ?p) H) W c1" by auto
      have "cache_rel img ready V N H W (cache_release_block k False c1)"
        by (rule release_clean_steady [OF r1 cache_rel_written [OF rel]])
      with d False True k show ?thesis by (simp add: fetch_blocks_def fetch_indirect_def upt_conv_Cons)
    qed
  next
    case False
    then have n0: "0 < n" by simp
    have p0: "progress V sb ino pos n 0 (0, [])" by (simp add: progress_def)
    from fetch_direct_steady [OF rel room'(1) ok dn n0 p0 blk] n0 obtain s st1 c1 where
      a: "fetch_direct intf sb (pos div 512 * 512) (pos mod 512) n (ino_block ino) (0, []) c = (s, st1, c1)"
        "cache_rel img ready V N H W c1" "fetched V sb ino pos n 4 s st1" "s = More \<longrightarrow> 512 * 4 < pos + n" by auto
    show ?thesis
    proof (cases "s = More")
      case False
      then have "s = Done" using a(3) by (simp add: fetched_def)
      with a show ?thesis by (auto simp: fetch_blocks_def fetched_def)
    next
      case True
      then have pr: "progress V sb ino pos n 4 st1" using a(3) by (simp add: fetched_def)
      have "slot_ptr V sb ino (Data 4) \<noteq> 0" using dn a(4) True by (simp add: dense_def)
      moreover have up4: "\<forall>x<128. up (Data (4 + x)) = Some (Single, x)" by simp
      then have "up (Data 4) = Some (Single, 0)" by simp
      ultimately have sz: "slot_ptr V sb ino Single \<noteq> 0" using parent_present by blast
      from fetch_indirect_steady [OF a(2) room'(2) ok dn n0 _ sz up4 pr] obtain s2 st2 c2 where
        b: "fetch_indirect intf sb (pos div 512 * 512) (pos mod 512) n (ino_indirect ino) st1 c1 = (s2, st2, c2)"
          "cache_rel img ready V N H W c2" "fetched V sb ino pos n 132 s2 st2" unfolding single by auto
      show ?thesis
      proof (cases "s2 = More")
        case False
        then have "s2 = Done" using b(3) by (simp add: fetched_def)
        with a(1) b True sz single show ?thesis by (auto simp: fetch_blocks_def fetched_def)
      next
        case m2: True
        then have pr2: "progress V sb ino pos n (132 + 16384 * 0) st2" using b(3) by (simp add: fetched_def)
        from fetch_dindirect_steady [OF b(2) room ok dn n0 pr2 dind] a(1) b(1) True m2 sz single show ?thesis
          by (auto simp: fetch_blocks_def)
      qed
    qed
  qed
qed

text \<open>The whole of \<open>ktfs_fetch\<close> under the lock.\<close>

lemma fetch_body_steady:
  assumes rel: "cache_rel img ready V N H W c" and room: "size H < 61"
    and sb: "sb = superblock_of (V 0)" and ok: "fs_ok V N sb"
    and ino: "n = unat (de_inode (kf_dentry f))" "n div 16 < unat (sb_inode_block_count sb)"
      "ino = inode_at (V (inode_pos sb n)) (n mod 16)" "file_ok V N sb ino"
    and dn: "dense V sb ino (unat (kf_fileSize f))" and pos: "kf_pos f < kf_fileSize f"
    and len: "unat (kf_pos f) + unat len < 2 ^ 64"
    and m: "m = min (unat len) (unat (kf_fileSize f) - unat (kf_pos f))"
  shows "\<exists>c'. fetch_body intf len f c =
      ((int m, file_bytes V sb ino (unat (kf_pos f)) m), file_unlock (f\<lparr>kf_pos := kf_pos f + of_nat m\<rparr>), c') \<and>
     cache_rel img ready V N H W c'"
proof -
  let ?p = "unat (kf_pos f)" and ?s = "unat (kf_fileSize f)"
  have lt: "?p < ?s" using pos by (simp add: word_less_nat_alt)
  define toRead where "toRead = (if kf_pos f + len > kf_fileSize f then kf_fileSize f - kf_pos f else len)"
  have "unat (kf_pos f + len) = ?p + unat len" using len by (subst unat_add_lem [THEN iffD1]) simp_all
  moreover have "unat (kf_fileSize f - kf_pos f) = ?s - ?p" using pos by (intro unat_sub) simp
  ultimately have tr: "unat toRead = m" using lt by (auto simp: toRead_def m word_less_nat_alt)
  have room': "size H < 64" "size H < 63" using room by simp_all
  have "512 * data_start sb \<le> N" using ok by (simp add: fs_ok_def geometry_def)
  moreover have "1 \<le> data_start sb" by (simp add: data_start_def)
  ultimately have p0: "in_disk N 0" by (simp add: in_disk_def)
  from get_steady [OF rel p0 room'(1)] obtain ksb c1 where k: "kget intf 0 c = (Inr ksb, c1)"
    and r1: "cache_rel img ready V N (add_mset (ksb, 0) H) W c1" by auto
  have b: "superblock_of (block_bytes ksb c1) = sb" using cache_rel_bytes [OF r1, of ksb 0] sb by simp
  have pi: "in_disk N (inode_pos sb (unat (de_inode (kf_dentry f))))"
    using inode_in_disk [OF fs_ok_geometry [OF ok]] ino(1,2) by simp
  have "size (add_mset (ksb, 0 :: u64) H) < 64" using room by simp
  from get_inode_steady [OF r1 pi this] obtain c2 where
    g: "get_inode intf sb (de_inode (kf_dentry f)) c1 = (Inr ino, c2)"
    and r2: "cache_rel img ready V N (add_mset (ksb, 0) H) W c2" using ino(1,3) by auto
  have r3: "cache_rel img ready V N H W (cache_release_block ksb False c2)"
    by (rule release_clean_steady [OF r2 cache_rel_written [OF rel]])
  have "?p + m \<le> ?s" using lt m by simp
  from fetch_blocks_steady [OF r3 _ ok ino(4) dn this] room obtain s st c3 where
    f: "fetch_blocks intf sb ino (?p div 512 * 512) (?p mod 512) m (cache_release_block ksb False c2) = (s, st, c3)"
      "cache_rel img ready V N H W c3" "s = Done \<or> s = More" "snd st = file_bytes V sb ino ?p m" by auto
  have "\<not> kf_fileSize f \<le> kf_pos f" using pos by simp
  then have "fetch_body intf len f c =
      ((int m, file_bytes V sb ino ?p m), file_unlock (f\<lparr>kf_pos := kf_pos f + of_nat m\<rparr>), c3)"
    using k b g f(1,3,4) tr by (auto simp: fetch_body_def Let_def toRead_def [symmetric])
  with f(2) show ?thesis by blast
qed

end

end
