(* ===== verification/KtfsNames.thy ===== *)
theory KtfsNames
  imports KtfsDir KtfsRead
begin

text \<open>
  The lookup against the directory as a list of entries: the walk over the directory blocks
  stops at the first entry with the name, with exactly the blocks on the way to it pinned, or
  passes all entries and holds nothing.
\<close>

section \<open>The entries of a directory\<close>

definition entry_pos :: "disk_view \<Rightarrow> ktfs_superblock \<Rightarrow> ktfs_inode \<Rightarrow> nat \<Rightarrow> u64" where
  "entry_pos V sb ino j = data_pos sb (slot_ptr V sb ino (Data (j div 32)))"

definition entry :: "disk_view \<Rightarrow> ktfs_superblock \<Rightarrow> ktfs_inode \<Rightarrow> nat \<Rightarrow> ktfs_dir_entry" where
  "entry V sb ino j = dentry_at (V (entry_pos V sb ino j)) (j mod 32)"

definition names_ok :: "disk_view \<Rightarrow> ktfs_superblock \<Rightarrow> ktfs_inode \<Rightarrow> nat \<Rightarrow> bool" where
  "names_ok V sb ino n \<longleftrightarrow> (\<forall>j<n. nul_terminated (de_name (entry V sb ino j)))"

text \<open>The first entry with a name.\<close>

definition find_entry :: "disk_view \<Rightarrow> ktfs_superblock \<Rightarrow> ktfs_inode \<Rightarrow> nat \<Rightarrow> bytes \<Rightarrow> nat option" where
  "find_entry V sb ino n name = find (\<lambda>j. cstr (de_name (entry V sb ino j)) = cstr name) [0..<n]"

lemma find_entry_Some:
  assumes "find_entry V sb ino n name = Some j"
  shows "j < n" "cstr (de_name (entry V sb ino j)) = cstr name"
    "\<And>i. i < j \<Longrightarrow> cstr (de_name (entry V sb ino i)) \<noteq> cstr name"
  using assms by (auto simp: find_entry_def find_Some_iff)

lemma find_entry_None:
  "find_entry V sb ino n name = None \<longleftrightarrow> (\<forall>j<n. cstr (de_name (entry V sb ino j)) \<noteq> cstr name)"
  by (auto simp: find_entry_def find_None_iff)

section \<open>One block\<close>

lemma cstr_take: "nul_terminated (take m s) \<Longrightarrow> cstr (take m s) = cstr s"
proof (induction s arbitrary: m)
  case (Cons c s)
  then show ?case by (cases m) (auto simp: cstr_def)
qed simp

lemma nul_terminated_take: "nul_terminated (take m s) \<Longrightarrow> nul_terminated s"
  by (auto simp: nul_terminated_def dest: in_set_takeD)

lemma strcmp_name:
  assumes "nul_terminated (take 14 s)" and "nul_terminated name"
  shows "\<exists>r. strcmp (Some s) (Some name) = Some r \<and> (r = 0 \<longleftrightarrow> cstr (take 14 s) = cstr name)"
proof -
  note s = nul_terminated_take [OF assms(1)]
  from strcmp_loop_defined [OF s assms(2)] strcmp_loop_zero [OF s assms(2)] show ?thesis
    by (auto simp: strcmp_def cstr_take [OF assms(1)])
qed

lemma scan_entries_find:
  assumes name: "nul_terminated name" and "k \<le> 32" and "b + k \<le> n"
    and "\<And>e. k \<le> e \<Longrightarrow> e < 32 \<Longrightarrow> b + e < n \<Longrightarrow> nul_terminated (take 14 (drop (16 * e + 2) bs))"
  shows "scan_entries bs name [k..<32] (b + k) n =
     (case find (\<lambda>e. cstr (take 14 (drop (16 * e + 2) bs)) = cstr name) [k..<min 32 (n - b)] of
        None \<Rightarrow> Some (Inr (min (b + 32) n)) | Some e \<Rightarrow> Some (Inl e))"
  using assms(2-4)
proof (induction "32 - k" arbitrary: k)
  case 0
  then show ?case by simp
next
  case (Suc m)
  have k: "[k..<32] = k # [Suc k..<32]" using Suc.hyps(2) by (simp add: upt_conv_Cons)
  show ?case
  proof (cases "b + k < n")
    case False
    then have "b + k = n" using Suc.prems(2) by simp
    then show ?thesis using Suc.prems(1) by (simp add: k)
  next
    case True
    have k32: "k < 32" using Suc.hyps(2) by simp
    then have u: "[k..<min 32 (n - b)] = k # [Suc k..<min 32 (n - b)]"
      using True by (intro upt_conv_Cons) simp
    from strcmp_name [OF Suc.prems(3) [OF order_refl k32 True] name] obtain r where
      r: "strcmp (Some (drop (16 * k + 2) bs)) (Some name) = Some r"
        "r = 0 \<longleftrightarrow> cstr (take 14 (drop (16 * k + 2) bs)) = cstr name" by auto
    have IH: "scan_entries bs name [Suc k..<32] (b + Suc k) n =
       (case find (\<lambda>e. cstr (take 14 (drop (16 * e + 2) bs)) = cstr name) [Suc k..<min 32 (n - b)] of
          None \<Rightarrow> Some (Inr (min (b + 32) n)) | Some e \<Rightarrow> Some (Inl e))"
      by (rule Suc.hyps(1)) (use Suc.hyps(2) True Suc.prems(3) in simp_all)
    show ?thesis unfolding k u using True r IH by simp
  qed
qed

section \<open>Walks\<close>

text \<open>A walk that starts with \<open>a\<close> entries passed and ends with \<open>b\<close>: it finds the first entry with
  \<open>P\<close> among those from \<open>a\<close> to \<open>b\<close>, of which there are \<open>n\<close> in all; \<open>pos\<close> is the place of an entry.\<close>

definition seeks ::
    "nat \<Rightarrow> ('d \<Rightarrow> bytes) \<Rightarrow> ('d \<Rightarrow> bool) \<Rightarrow> disk_view \<Rightarrow> nat \<Rightarrow> (nat \<times> u64) multiset \<Rightarrow> nat set \<Rightarrow> (nat \<Rightarrow> bool) \<Rightarrow> (nat \<Rightarrow> u64) \<Rightarrow>
     nat \<Rightarrow> nat \<Rightarrow> nat \<Rightarrow> (nat \<Rightarrow> 'd cache \<Rightarrow> (search \<times> 'd cache) option) \<Rightarrow> bool" where
  "seeks L img ready V N H W P pos n a b walk \<longleftrightarrow>
     (\<forall>c. cache_rel img ready V N H W c \<longrightarrow>
       (\<exists>res c'. walk (min a n) c = Some (res, c') \<and>
         (case find P [min a n..<min b n] of
            None \<Rightarrow> res = Smiss (min b n) \<and> cache_rel img ready V N H W c'
          | Some j \<Rightarrow> \<exists>ks kd ps. res = Shit ks kd (j mod 32) \<and> length ps = length ks \<and> length ks \<le> L \<and>
              cache_rel img ready V N (add_mset (kd, pos j) (mset (zip ks ps) + H)) W c')))"

lemma seeksD:
  "seeks L img ready V N H W P pos n a b walk \<Longrightarrow> cache_rel img ready V N H W c \<Longrightarrow>
     \<exists>res c'. walk (min a n) c = Some (res, c') \<and>
       (case find P [min a n..<min b n] of
          None \<Rightarrow> res = Smiss (min b n) \<and> cache_rel img ready V N H W c'
        | Some j \<Rightarrow> \<exists>ks kd ps. res = Shit ks kd (j mod 32) \<and> length ps = length ks \<and> length ks \<le> L \<and>
            cache_rel img ready V N (add_mset (kd, pos j) (mset (zip ks ps) + H)) W c')"
  unfolding seeks_def by (drule spec, erule mp)

lemma find_in_set: "find P xs = Some x \<Longrightarrow> x \<in> set xs"
  by (induction xs) (auto split: if_splits)

lemma find_append: "find P (xs @ ys) = (case find P xs of None \<Rightarrow> find P ys | Some x \<Rightarrow> Some x)"
  by (induction xs) auto

lemma find_upt_split:
  "a \<le> b \<Longrightarrow> b \<le> d \<Longrightarrow>
     find P [min a n..<min d n] = (case find P [min a n..<min b n] of None \<Rightarrow> find P [min b n..<min d n] | Some x \<Rightarrow> Some x)"
proof -
  assume "a \<le> b" "b \<le> d"
  then have "min a n \<le> min b n" "min b n \<le> min d n" by (auto simp: min_def)
  then have "[min a n..<min d n] = [min a n..<min b n] @ [min b n..<min d n]"
    by (metis le_add_diff_inverse upt_add_eq_append)
  then show ?thesis by (simp add: find_append)
qed

lemma upt_shift: "map ((+) a) [0..<l] = [a..<a + l]"
  by (induction l) auto

lemma seeks_nil: "seeks L img ready V N H W P pos n a a (\<lambda>i c. Some (Smiss i, c))"
  by (simp add: seeks_def)

lemma seeks_cong:
  "(\<And>i c. cache_rel img ready V N H W c \<Longrightarrow> f i c = g i c) \<Longrightarrow>
     seeks L img ready V N H W P pos n a b g \<Longrightarrow> seeks L img ready V N H W P pos n a b f"
  by (simp add: seeks_def)

lemma seeks_seq:
  assumes f: "seeks L img ready V N H W P pos n a b f" and g: "seeks L img ready V N H W P pos n b d g"
    and le: "a \<le> b" "b \<le> d"
  shows "seeks L img ready V N H W P pos n a d
     (\<lambda>i c. case f i c of Some (Smiss i1, c1) \<Rightarrow> g i1 c1 | res \<Rightarrow> res)"
  unfolding seeks_def
proof (intro allI impI)
  fix c assume rel: "cache_rel img ready V N H W c"
  note split = find_upt_split [OF le, of P n]
  from seeksD [OF f rel] obtain res c1 where
    1: "f (min a n) c = Some (res, c1)"
      "case find P [min a n..<min b n] of
        None \<Rightarrow> res = Smiss (min b n) \<and> cache_rel img ready V N H W c1
      | Some j \<Rightarrow> \<exists>ks kd ps. res = Shit ks kd (j mod 32) \<and> length ps = length ks \<and> length ks \<le> L \<and>
          cache_rel img ready V N (add_mset (kd, pos j) (mset (zip ks ps) + H)) W c1"
    by (elim exE conjE)
  show "\<exists>res c'. (case f (min a n) c of Some (Smiss i1, c1) \<Rightarrow> g i1 c1 | res \<Rightarrow> res) = Some (res, c') \<and>
       (case find P [min a n..<min d n] of
          None \<Rightarrow> res = Smiss (min d n) \<and> cache_rel img ready V N H W c'
        | Some j \<Rightarrow> \<exists>ks kd ps. res = Shit ks kd (j mod 32) \<and> length ps = length ks \<and> length ks \<le> L \<and>
            cache_rel img ready V N (add_mset (kd, pos j) (mset (zip ks ps) + H)) W c')"
  proof (cases "find P [min a n..<min b n]")
    case None
    with 1 have "res = Smiss (min b n)" "cache_rel img ready V N H W c1" by simp_all
    with g 1(1) None show ?thesis unfolding split seeks_def by simp
  next
    case (Some j)
    with 1(2) obtain ks kd ps where h: "res = Shit ks kd (j mod 32)" "length ps = length ks" "length ks \<le> L"
      "cache_rel img ready V N (add_mset (kd, pos j) (mset (zip ks ps) + H)) W c1" by auto
    from 1(1) h(1) have "(case f (min a n) c of Some (Smiss i1, c1) \<Rightarrow> g i1 c1 | res \<Rightarrow> res) = Some (res, c1)" by simp
    moreover have "\<exists>ks kd ps. res = Shit ks kd (j mod 32) \<and> length ps = length ks \<and> length ks \<le> L \<and>
        cache_rel img ready V N (add_mset (kd, pos j) (mset (zip ks ps) + H)) W c1" using h by metis
    ultimately show ?thesis unfolding split Some option.case by (intro exI [of _ res] exI [of _ c1] conjI)
  qed
qed

text \<open>The loops test for the end before each step.\<close>

lemma seeks_then:
  assumes f: "a < n \<Longrightarrow> seeks L img ready V N H W P pos n a b f" and g: "seeks L img ready V N H W P pos n b d g"
    and le: "a \<le> b" "b \<le> d"
  shows "seeks L img ready V N H W P pos n a d
     (\<lambda>i c. if i < n then (case f i c of Some (Smiss i1, c1) \<Rightarrow> g i1 c1 | res \<Rightarrow> res) else Some (Smiss i, c))"
proof (cases "a < n")
  case True
  from seeks_seq [OF f [OF True] g le] True show ?thesis by (simp add: seeks_def)
next
  case False
  then show ?thesis using le by (simp add: seeks_def min_def)
qed

context steady_disk
begin

lemma seeks_block:
  assumes room: "size H < 64" and pd: "in_disk N p" and m: "32 * m < n" and name: "nul_terminated name"
    and p: "p = data_pos sb q" and P: "\<And>j. j div 32 = m \<Longrightarrow> P j \<longleftrightarrow> cstr (de_name (dentry_at (V p) (j mod 32))) = cstr name"
    and pos: "\<And>j. j div 32 = m \<Longrightarrow> pos j = p"
    and names: "\<And>j. j div 32 = m \<Longrightarrow> j < n \<Longrightarrow> nul_terminated (de_name (dentry_at (V p) (j mod 32)))"
  shows "seeks L img ready V N H W P pos n (32 * m) (32 * m + 32) (search_block intf sb name n q)"
  unfolding seeks_def
proof (intro allI impI)
  fix c assume rel: "cache_rel img ready V N H W c"
  from get_steady [OF rel pd] room obtain k c1 where k: "kget intf p c = (Inr k, c1)"
    and r1: "cache_rel img ready V N (add_mset (k, p) H) W c1" by auto
  have bb: "block_bytes k c1 = V p" by (rule cache_rel_bytes [OF r1]) simp
  let ?nm = "\<lambda>e. take 14 (drop (16 * e + 2) (V p))"
  have nm: "?nm e = de_name (dentry_at (V p) e)" for e by (simp add: dentry_at_def)
  have e: "(32 * m + e) div 32 = m" "(32 * m + e) mod 32 = e" if "e < 32" for e using that by auto
  have scan: "scan_entries (V p) name [0..<32] (32 * m) n =
     (case find (\<lambda>e. cstr (?nm e) = cstr name) [0..<min 32 (n - 32 * m)] of
        None \<Rightarrow> Some (Inr (min (32 * m + 32) n)) | Some e \<Rightarrow> Some (Inl e))"
  proof (rule scan_entries_find [OF name, of 0 "32 * m" n "V p", unfolded add_0_right])
    show "nul_terminated (?nm x)" if "0 \<le> x" "x < 32" "32 * m + x < n" for x
      using names [OF e(1) that(3)] e(2) that(2) nm by metis
  qed (use m in simp_all)
  let ?Q = "\<lambda>e. cstr (de_name (dentry_at (V p) e)) = cstr name"
  have "find P [32 * m..<min (32 * m + 32) n] =
      map_option ((+) (32 * m)) (find ?Q [0..<min 32 (n - 32 * m)])"
  proof -
    have "[32 * m..<min (32 * m + 32) n] = map ((+) (32 * m)) [0..<min 32 (n - 32 * m)]"
      unfolding upt_shift using m by (simp add: min_add_distrib_right min_def)
    moreover have "find P (map ((+) (32 * m)) es) = map_option ((+) (32 * m)) (find ?Q es)"
      if "\<forall>e\<in>set es. e < 32" for es
      using that by (induction es) (auto simp: P e)
    ultimately show ?thesis by simp
  qed
  then have sc: "scan_entries (V p) name [0..<32] (32 * m) n =
      (case find P [32 * m..<min (32 * m + 32) n] of
         None \<Rightarrow> Some (Inr (min (32 * m + 32) n)) | Some j \<Rightarrow> Some (Inl (j - 32 * m)))"
    using scan unfolding nm by (auto split: option.split)
  have jr: "j div 32 = m \<and> j - 32 * m = j mod 32" if "find P [32 * m..<min (32 * m + 32) n] = Some j" for j
  proof -
    have "32 * m \<le> j" "j < 32 * m + 32" using find_in_set [OF that] by auto
    then obtain x where "j = 32 * m + x" "x < 32" by (metis add_less_cancel_left le_iff_add)
    then show ?thesis by simp
  qed
  have rel2: "cache_rel img ready V N H W (cache_release_block k False c1)"
    by (rule release_clean_steady [OF r1 cache_rel_written [OF rel]])
  have mn: "min (32 * m) n = 32 * m" using m by simp
  show "\<exists>res c'. search_block intf sb name n q (min (32 * m) n) c = Some (res, c') \<and>
       (case find P [min (32 * m) n..<min (32 * m + 32) n] of
          None \<Rightarrow> res = Smiss (min (32 * m + 32) n) \<and> cache_rel img ready V N H W c'
        | Some j \<Rightarrow> \<exists>ks kd ps. res = Shit ks kd (j mod 32) \<and> length ps = length ks \<and> length ks \<le> L \<and>
            cache_rel img ready V N (add_mset (kd, pos j) (mset (zip ks ps) + H)) W c')"
  proof (cases "find P [32 * m..<min (32 * m + 32) n]")
    case None
    then show ?thesis using k p bb rel2 sc unfolding mn by (simp add: search_block_def)
  next
    case (Some j)
    with jr have j: "j div 32 = m" "j - 32 * m = j mod 32" by simp_all
    have "search_block intf sb name n q (32 * m) c = Some (Shit [] k (j mod 32), c1)"
      using k p bb sc Some j(2) by (simp add: search_block_def)
    moreover have "cache_rel img ready V N (add_mset (k, pos j) (mset (zip [] []) + H)) W c1"
      using r1 pos [OF j(1)] by simp
    ultimately show ?thesis unfolding mn Some by (intro exI [of _ "Shit [] k (j mod 32)"] exI [of _ c1]) auto
  qed
qed

lemma seeks_around:
  assumes room: "size H < 64" and pd: "in_disk N (data_pos sb q)"
    and walk: "\<And>k. seeks L img ready V N (add_mset (k, data_pos sb q) H) W P pos n a b (walk k)"
  shows "seeks (Suc L) img ready V N H W P pos n a b (\<lambda>i. search_around intf sb q (\<lambda>k. walk k i))"
  unfolding seeks_def
proof (intro allI impI)
  fix c assume rel: "cache_rel img ready V N H W c"
  let ?p = "data_pos sb q"
  from get_steady [OF rel pd] room obtain k c1 where k: "kget intf ?p c = (Inr k, c1)"
    and r1: "cache_rel img ready V N (add_mset (k, ?p) H) W c1" by auto
  from seeksD [OF walk r1] obtain res c2 where
    w: "walk k (min a n) c1 = Some (res, c2)"
      "case find P [min a n..<min b n] of
        None \<Rightarrow> res = Smiss (min b n) \<and> cache_rel img ready V N (add_mset (k, ?p) H) W c2
      | Some j \<Rightarrow> \<exists>ks kd ps. res = Shit ks kd (j mod 32) \<and> length ps = length ks \<and> length ks \<le> L \<and>
          cache_rel img ready V N (add_mset (kd, pos j) (mset (zip ks ps) + add_mset (k, ?p) H)) W c2"
    by (elim exE conjE)
  show "\<exists>res c'. search_around intf sb q (\<lambda>k. walk k (min a n)) c = Some (res, c') \<and>
       (case find P [min a n..<min b n] of
          None \<Rightarrow> res = Smiss (min b n) \<and> cache_rel img ready V N H W c'
        | Some j \<Rightarrow> \<exists>ks kd ps. res = Shit ks kd (j mod 32) \<and> length ps = length ks \<and> length ks \<le> Suc L \<and>
            cache_rel img ready V N (add_mset (kd, pos j) (mset (zip ks ps) + H)) W c')"
  proof (cases "find P [min a n..<min b n]")
    case None
    with w have "res = Smiss (min b n)" "cache_rel img ready V N (add_mset (k, ?p) H) W c2" by simp_all
    with None k w(1) show ?thesis
      using release_clean_steady [OF _ cache_rel_written [OF rel]] by (simp add: search_around_def)
  next
    case (Some j)
    with w obtain ks kd ps where h: "res = Shit ks kd (j mod 32)" "length ps = length ks" "length ks \<le> L"
      "cache_rel img ready V N (add_mset (kd, pos j) (mset (zip ks ps) + add_mset (k, ?p) H)) W c2" by auto
    then have "cache_rel img ready V N (add_mset (kd, pos j) (mset (zip (ks @ [k]) (ps @ [?p])) + H)) W c2"
      by simp
    moreover have "length (ps @ [?p]) = length (ks @ [k])" "length (ks @ [k]) \<le> Suc L" using h(2,3) by simp_all
    moreover have "search_around intf sb q (\<lambda>k. walk k (min a n)) c = Some (Shit (ks @ [k]) kd (j mod 32), c2)"
      using k w(1) h(1) by (simp add: search_around_def)
    ultimately show ?thesis unfolding Some option.case
      by (intro exI [of _ "Shit (ks @ [k]) kd (j mod 32)"] exI [of _ c2] exI [of _ "ks @ [k]"] exI [of _ kd]
          exI [of _ "ps @ [?p]"] conjI refl)
  qed
qed

text \<open>The levels of the walk over a sound directory with \<open>n\<close> entries.\<close>

abbreviation (input) named :: "disk_view \<Rightarrow> ktfs_superblock \<Rightarrow> ktfs_inode \<Rightarrow> bytes \<Rightarrow> nat \<Rightarrow> bool" where
  "named V sb ino name j \<equiv> cstr (de_name (entry V sb ino j)) = cstr name"

lemma slot_in_disk:
  "fs_ok V N sb \<Longrightarrow> file_ok V N sb ino \<Longrightarrow> is_slot s \<Longrightarrow> slot_ptr V sb ino s \<noteq> 0 \<Longrightarrow>
     in_disk N (data_pos sb (slot_ptr V sb ino s))"
  using data_in_disk fs_ok_geometry by (simp add: file_ok_def)

lemma seeks_data:
  assumes room: "size H < 64" and ok: "fs_ok V N sb" "file_ok V N sb ino" and dn: "dense V sb ino (16 * n)"
    and m: "32 * m < n" and name: "nul_terminated name" "names_ok V sb ino n"
  shows "seeks L img ready V N H W (named V sb ino name) (entry_pos V sb ino) n (32 * m) (32 * m + 32)
     (search_block intf sb name n (slot_ptr V sb ino (Data m)))"
proof (rule seeks_block [OF room _ m name(1) refl])
  have "slot_ptr V sb ino (Data m) \<noteq> 0" "m < MAX_BLOCKS" using dn m by (auto simp: dense_def)
  then show "in_disk N (data_pos sb (slot_ptr V sb ino (Data m)))" by (intro slot_in_disk [OF ok]) simp_all
  show "nul_terminated (de_name (dentry_at (V (data_pos sb (slot_ptr V sb ino (Data m)))) (j mod 32)))"
    if "j div 32 = m" "j < n" for j
    using name(2) [unfolded names_ok_def, rule_format, OF that(2)] that(1) by (simp add: entry_def entry_pos_def)
qed (simp_all add: entry_def entry_pos_def)

lemma seeks_direct:
  assumes room: "size H < 64" and ok: "fs_ok V N sb" "file_ok V N sb ino" and dn: "dense V sb ino (16 * n)"
    and name: "nul_terminated name" "names_ok V sb ino n" and "m \<le> 4"
  shows "seeks L img ready V N H W (named V sb ino name) (entry_pos V sb ino) n (32 * m) (32 * 4)
     (search_direct intf sb name n (map (\<lambda>j. slot_ptr V sb ino (Data j)) [m..<4]))"
  using \<open>m \<le> 4\<close>
proof (induction "4 - m" arbitrary: m)
  case 0
  then show ?case by (simp add: seeks_nil)
next
  case (Suc x)
  then have m: "[m..<4] = m # [Suc m..<4]" by (simp add: upt_conv_Cons)
  have "seeks L img ready V N H W (named V sb ino name) (entry_pos V sb ino) n (32 * m + 32) (32 * 4)
     (search_direct intf sb name n (map (\<lambda>j. slot_ptr V sb ino (Data j)) [Suc m..<4]))"
    using Suc(1) [of "Suc m"] Suc(2) by (simp add: algebra_simps)
  from seeks_then [OF seeks_data [OF room ok dn _ name] this] Suc(2)
  show ?case unfolding m list.map search_direct.simps by simp
qed

lemma seeks_ptrs:
  assumes room: "size H < 64" and ok: "fs_ok V N sb" "file_ok V N sb ino" and dn: "dense V sb ino (16 * n)"
    and name: "nul_terminated name" "names_ok V sb ino n"
    and k: "(k, p) \<in># H" and b: "\<forall>x<128. slot_ptr V sb ino (Data (b + x)) = ptr_at (V p) x" and "m \<le> 128"
  shows "seeks L img ready V N H W (named V sb ino name) (entry_pos V sb ino) n (32 * (b + m)) (32 * (b + 128))
     (search_ptrs intf sb name n k [m..<128])"
  using \<open>m \<le> 128\<close>
proof (induction "128 - m" arbitrary: m)
  case 0
  then show ?case by (simp add: seeks_nil)
next
  case (Suc x)
  then have m: "[m..<128] = m # [Suc m..<128]" and m128: "m < 128" by (simp_all add: upt_conv_Cons)
  have IH: "seeks L img ready V N H W (named V sb ino name) (entry_pos V sb ino) n (32 * (b + m) + 32) (32 * (b + 128))
     (search_ptrs intf sb name n k [Suc m..<128])"
    using Suc(1) [of "Suc m"] Suc(2) by (simp add: algebra_simps)
  have "seeks L img ready V N H W (named V sb ino name) (entry_pos V sb ino) n (32 * (b + m)) (32 * (b + m) + 32)
     (\<lambda>i c. search_block intf sb name n (ptr_at (block_bytes k c) m) i c)" if "32 * (b + m) < n"
  proof (rule seeks_cong [OF _ seeks_data [OF room ok dn that name]])
    show "search_block intf sb name n (ptr_at (block_bytes k c) m) i c =
        search_block intf sb name n (slot_ptr V sb ino (Data (b + m))) i c"
      if "cache_rel img ready V N H W c" for i c
      using cache_rel_bytes [OF that k] b m128 by simp
  qed
  from seeks_then [OF this IH] m128 show ?case unfolding m search_ptrs.simps by simp
qed

lemma seeks_indirect:
  assumes room: "size H < 63" and ok: "fs_ok V N sb" "file_ok V N sb ino" and dn: "dense V sb ino (16 * n)"
    and name: "nul_terminated name" "names_ok V sb ino n"
    and s: "is_slot s" "slot_ptr V sb ino s \<noteq> 0" and b: "\<forall>x<128. up (Data (b + x)) = Some (s, x)"
  shows "seeks (Suc L) img ready V N H W (named V sb ino name) (entry_pos V sb ino) n (32 * b) (32 * (b + 128))
     (search_indirect intf sb name n (slot_ptr V sb ino s))"
proof -
  let ?p = "data_pos sb (slot_ptr V sb ino s)"
  have ents: "\<forall>x<128. slot_ptr V sb ino (Data (b + x)) = ptr_at (V ?p) x"
    using slot_ptr_up s(2) b by simp
  have "seeks (Suc L) img ready V N H W (named V sb ino name) (entry_pos V sb ino) n (32 * b) (32 * (b + 128))
     (\<lambda>i. search_around intf sb (slot_ptr V sb ino s) (\<lambda>k. search_ptrs intf sb name n k [0..<128] i))"
  proof (rule seeks_around)
    fix k
    show "seeks L img ready V N (add_mset (k, ?p) H) W (named V sb ino name) (entry_pos V sb ino) n (32 * b) (32 * (b + 128))
       (search_ptrs intf sb name n k [0..<128])"
      using seeks_ptrs [OF _ ok dn name _ ents, of "add_mset (k, ?p) H" k 0] room by simp
  qed (use room slot_in_disk [OF ok s] in simp_all)
  then show ?thesis by (simp add: search_indirect_def [abs_def])
qed

lemma seeks_second:
  assumes room: "size H < 63" and ok: "fs_ok V N sb" "file_ok V N sb ino" and dn: "dense V sb ino (16 * n)"
    and name: "nul_terminated name" "names_ok V sb ino n"
    and k: "(k, p) \<in># H" and d: "d < 2" and ents: "\<forall>x<128. slot_ptr V sb ino (Second (128 * d + x)) = ptr_at (V p) x"
    and "m \<le> 128"
  shows "seeks (Suc L) img ready V N H W (named V sb ino name) (entry_pos V sb ino) n
     (32 * (132 + 128 * (128 * d + m))) (32 * (132 + 128 * (128 * d + 128))) (search_second intf sb name n k [m..<128])"
  using \<open>m \<le> 128\<close>
proof (induction "128 - m" arbitrary: m)
  case 0
  then show ?case by (simp add: seeks_nil)
next
  case (Suc x)
  then have m: "[m..<128] = m # [Suc m..<128]" and m128: "m < 128" by (simp_all add: upt_conv_Cons)
  let ?b = "132 + 128 * (128 * d + m)" and ?s = "Second (128 * d + m)"
  have IH: "seeks (Suc L) img ready V N H W (named V sb ino name) (entry_pos V sb ino) n (32 * (?b + 128))
     (32 * (132 + 128 * (128 * d + 128))) (search_second intf sb name n k [Suc m..<128])"
    using Suc(1) [of "Suc m"] Suc(2) by (simp add: algebra_simps)
  have "seeks (Suc L) img ready V N H W (named V sb ino name) (entry_pos V sb ino) n (32 * ?b) (32 * (?b + 128))
     (\<lambda>i c. search_indirect intf sb name n (ptr_at (block_bytes k c) m) i c)" if b: "32 * ?b < n"
  proof (rule seeks_cong [OF _ seeks_indirect [OF room ok dn name, of ?s]])
    show "search_indirect intf sb name n (ptr_at (block_bytes k c) m) i c =
        search_indirect intf sb name n (slot_ptr V sb ino ?s) i c"
      if "cache_rel img ready V N H W c" for i c
      using cache_rel_bytes [OF that k] ents m128 by simp
    show "is_slot ?s" using m128 d by simp
    show "\<forall>x<128. up (Data (?b + x)) = Some (?s, x)" using up_data_second by blast
    have "slot_ptr V sb ino (Data ?b) \<noteq> 0" using dn b by (simp add: dense_def)
    with up_data_second [of 0 "128 * d + m"] show "slot_ptr V sb ino ?s \<noteq> 0"
      using parent_present [of "Data ?b" ?s 0] by simp
  qed
  from seeks_then [OF this IH] m128 show ?case unfolding m search_second.simps by simp
qed

lemma seeks_dindirect:
  assumes room: "size H < 62" and ok: "fs_ok V N sb" "file_ok V N sb ino" and dn: "dense V sb ino (16 * n)"
    and name: "nul_terminated name" "names_ok V sb ino n" and "d \<le> 2"
  shows "seeks (Suc (Suc L)) img ready V N H W (named V sb ino name) (entry_pos V sb ino) n
     (32 * (132 + 16384 * d)) (32 * MAX_BLOCKS)
     (search_dindirect intf sb name n (map (\<lambda>e. slot_ptr V sb ino (Double e)) [d..<2]))"
  using \<open>d \<le> 2\<close>
proof (induction "2 - d" arbitrary: d)
  case 0
  then show ?case by (simp add: seeks_nil)
next
  case (Suc x)
  then have d: "[d..<2] = d # [Suc d..<2]" and d2: "d < 2" by (simp_all add: upt_conv_Cons)
  let ?b = "132 + 16384 * d" and ?q = "slot_ptr V sb ino (Double d)"
  have IH: "seeks (Suc (Suc L)) img ready V N H W (named V sb ino name) (entry_pos V sb ino) n (32 * (?b + 16384)) (32 * MAX_BLOCKS)
     (search_dindirect intf sb name n (map (\<lambda>e. slot_ptr V sb ino (Double e)) [Suc d..<2]))"
    using Suc(1) [of "Suc d"] Suc(2) by (simp add: algebra_simps)
  have "seeks (Suc (Suc L)) img ready V N H W (named V sb ino name) (entry_pos V sb ino) n (32 * ?b) (32 * (?b + 16384))
     (\<lambda>i. search_around intf sb ?q (\<lambda>k. search_second intf sb name n k [0..<128] i))" if b: "32 * ?b < n"
  proof (rule seeks_around)
    have "slot_ptr V sb ino (Data ?b) \<noteq> 0" using dn b by (simp add: dense_def)
    with up_data_second [of 0 "128 * d"] have "slot_ptr V sb ino (Second (128 * d)) \<noteq> 0"
      using parent_present [of "Data ?b" "Second (128 * d)" 0] by simp
    then have qz: "?q \<noteq> 0" using parent_present [of "Second (128 * d)" "Double d" 0] by simp
    then show "in_disk N (data_pos sb ?q)" using d2 by (intro slot_in_disk [OF ok]) simp_all
    have up: "up (Second (128 * d + x)) = Some (Double d, x)" if "x < 128" for x using that by simp
    have ents: "\<forall>x<128. slot_ptr V sb ino (Second (128 * d + x)) = ptr_at (V (data_pos sb ?q)) x"
      using slot_ptr_up [OF up] qz by simp
    fix k
    show "seeks (Suc L) img ready V N (add_mset (k, data_pos sb ?q) H) W (named V sb ino name) (entry_pos V sb ino) n
       (32 * ?b) (32 * (?b + 16384)) (search_second intf sb name n k [0..<128])"
      using seeks_second [OF _ ok dn name _ d2 ents, of "add_mset (k, data_pos sb ?q) H" k 0] room
      by (simp add: algebra_simps)
  qed (use room in simp)
  from seeks_then [OF this IH] d2
  show ?case unfolding d list.map search_dindirect.simps by simp
qed

lemma search_dindirect_stop: "search_dindirect sto sb name n ps n c = Some (Smiss n, c)"
  by (cases ps) simp_all

lemma lookup_steady:
  assumes rel: "cache_rel img ready V N H W c" and room: "size H < 62"
    and ok: "fs_ok V N sb" "file_ok V N sb ino" and dn: "dense V sb ino (16 * n)"
    and name: "nul_terminated name" "names_ok V sb ino n"
  shows "\<exists>res c'. lookup intf sb ino name n c = Some (res, c') \<and>
     (case find_entry V sb ino n name of
        None \<Rightarrow> res = Smiss n \<and> cache_rel img ready V N H W c'
      | Some j \<Rightarrow> \<exists>ks kd ps. res = Shit ks kd (j mod 32) \<and> length ps = length ks \<and> length ks \<le> 2 \<and>
          cache_rel img ready V N (add_mset (kd, entry_pos V sb ino j) (mset (zip ks ps) + H)) W c')"
proof -
  have wf: "inode_wf ino" using ok(2) by (simp add: file_ok_def)
  have blk: "ino_block ino = map (\<lambda>j. slot_ptr V sb ino (Data j)) [0..<4]"
    using wf by (auto simp: inode_wf_def slot_ptr_root intro!: nth_equalityI)
  have dind: "ino_dindirect ino = map (\<lambda>e. slot_ptr V sb ino (Double e)) [0..<2]"
    using wf by (auto simp: inode_wf_def slot_ptr_root intro!: nth_equalityI)
  have single: "ino_indirect ino = slot_ptr V sb ino Single" by (simp add: slot_ptr_root)
  have room': "size H < 64" "size H < 63" using room by simp_all
  let ?ind = "\<lambda>i c. if ino_indirect ino \<noteq> 0 then search_indirect intf sb name n (ino_indirect ino) i c else Some (Smiss i, c)"
  let ?dd = "search_dindirect intf sb name n (ino_dindirect ino)"
  have dd: "seeks 2 img ready V N H W (named V sb ino name) (entry_pos V sb ino) n (32 * 132) (32 * MAX_BLOCKS) ?dd"
    using seeks_dindirect [OF room ok dn name, of 0, where L = 0] dind by (simp add: numeral_2_eq_2 [symmetric])
  have "seeks 2 img ready V N H W (named V sb ino name) (entry_pos V sb ino) n (32 * 4) (32 * 132) ?ind" if "32 * 4 < n"
  proof -
    have "slot_ptr V sb ino (Data 4) \<noteq> 0" using dn that by (simp add: dense_def)
    then have s: "slot_ptr V sb ino Single \<noteq> 0" using parent_present [of "Data 4" Single 0] by simp
    with seeks_indirect [OF room'(2) ok dn name, of Single 4, where L = 1] single show ?thesis
      by (simp add: numeral_2_eq_2 [symmetric])
  qed
  from seeks_then [OF this dd]
  have rest: "seeks 2 img ready V N H W (named V sb ino name) (entry_pos V sb ino) n (32 * 4) (32 * MAX_BLOCKS)
     (\<lambda>i c. if i < n then (case ?ind i c of Some (Smiss i1, c1) \<Rightarrow> ?dd i1 c1 | res \<Rightarrow> res) else Some (Smiss i, c))"
    by simp
  have "(if i2 = n then Some (Smiss i2, c2) else ?dd i2 c2) = ?dd i2 c2" for i2 c2
    by (simp add: search_dindirect_stop)
  then have eq: "lookup intf sb ino name n c = (case search_direct intf sb name n (ino_block ino) 0 c of
      Some (Smiss i, c1) \<Rightarrow> if i = n then Some (Smiss i, c1)
        else (case ?ind i c1 of Some (Smiss i2, c2) \<Rightarrow> ?dd i2 c2 | res \<Rightarrow> res)
    | res \<Rightarrow> res)" by (simp only: lookup_def)
  have stop: "\<not> 32 * MAX_BLOCKS < n"
  proof
    assume "32 * MAX_BLOCKS < n"
    then have "512 * MAX_BLOCKS < 16 * n" by simp
    then have "MAX_BLOCKS < MAX_BLOCKS" using dn by (simp only: dense_def)
    then show False by simp
  qed
  from seeksD [OF seeks_direct [OF room'(1) ok dn name le0] rel] blk obtain r1 c1 where
    1: "search_direct intf sb name n (ino_block ino) 0 c = Some (r1, c1)"
      "case find (named V sb ino name) [0..<min (32 * 4) n] of
        None \<Rightarrow> r1 = Smiss (min (32 * 4) n) \<and> cache_rel img ready V N H W c1
      | Some j \<Rightarrow> \<exists>ks kd ps. r1 = Shit ks kd (j mod 32) \<and> length ps = length ks \<and> length ks \<le> 2 \<and>
          cache_rel img ready V N (add_mset (kd, entry_pos V sb ino j) (mset (zip ks ps) + H)) W c1"
    by (simp only: mult_0_right min_0L) blast
  have split: "find_entry V sb ino n name =
      (case find (named V sb ino name) [0..<min (32 * 4) n] of
         None \<Rightarrow> find (named V sb ino name) [min (32 * 4) n..<min (32 * MAX_BLOCKS) n] | Some x \<Rightarrow> Some x)"
    using find_upt_split [of 0 "32 * 4" "32 * MAX_BLOCKS" "named V sb ino name" n] stop by (simp add: find_entry_def min_def)
  show ?thesis
  proof (cases "find (named V sb ino name) [0..<min (32 * 4) n]")
    case None
    with 1 have r1: "search_direct intf sb name n (ino_block ino) 0 c = Some (Smiss (min (32 * 4) n), c1)"
      "cache_rel img ready V N H W c1" by simp_all
    have lk: "lookup intf sb ino name n c =
        (if min (32 * 4) n < n then (case ?ind (min (32 * 4) n) c1 of Some (Smiss i1, c1) \<Rightarrow> ?dd i1 c1 | res \<Rightarrow> res)
         else Some (Smiss (min (32 * 4) n), c1))"
      unfolding eq r1(1) by (simp add: min_def)
    have mx: "min (32 * MAX_BLOCKS) n = n" using stop by simp
    from seeksD [OF rest r1(2)] show ?thesis unfolding lk split None option.case mx .
  next
    case (Some j)
    with 1(2) obtain ks kd ps where h: "r1 = Shit ks kd (j mod 32)" "length ps = length ks" "length ks \<le> 2"
      "cache_rel img ready V N (add_mset (kd, entry_pos V sb ino j) (mset (zip ks ps) + H)) W c1" by auto
    with 1(1) Some split show ?thesis unfolding eq by auto
  qed
qed

section \<open>Opening\<close>

lemma release_all_clean:
  assumes "cache_rel img ready V N (mset (zip ks ps) + H) W c" and "length ps = length ks" and "W \<subseteq> fst ` set_mset H"
  shows "cache_rel img ready V N H W (release_all False ks c)"
  using assms(1,2)
proof (induction ks arbitrary: ps c)
  case (Cons k ks)
  then obtain p qs where ps: "ps = p # qs" by (cases ps) auto
  have "W \<subseteq> fst ` set_mset (mset (zip ks qs) + H)" using assms(3) by auto
  then have "cache_rel img ready V N (mset (zip ks qs) + H) W (cache_release_block k False c)"
    using Cons.prems ps by (intro release_clean_steady) simp_all
  with Cons ps show ?case by simp
qed simp

text \<open>What \<open>ktfs_open\<close> does on a sound disk, for a name that is not empty.\<close>

lemma ktfs_open_steady:
  assumes rel: "cache_rel img ready V N H W (ks_cache fs)" and room: "size H < 59"
    and sb: "sb = superblock_of (V 0)" and ok: "fs_ok V N sb"
    and r: "r = unat (sb_root_directory_inode sb)" "r div 16 < unat (sb_inode_block_count sb)"
    and root: "root = inode_at (V (inode_pos sb r)) (r mod 16)" "file_ok V N sb root"
      "n = unat (ino_size root) div 16" "dense V sb root (16 * n)" "names_ok V sb root n"
    and inodes: "\<And>j. j < n \<Longrightarrow> unat (de_inode (entry V sb root j)) div 16 < unat (sb_inode_block_count sb)"
    and name: "nul_terminated name" "cstr name \<noteq> []"
  shows "\<exists>c'. cache_rel img ready V N H W c' \<and>
     ktfs_open intf False (Some name) fs =
       Some (case find_entry V sb root n name of
               None \<Rightarrow> ((- ENOENT, None), fs\<lparr>ks_cache := c'\<rparr>)
             | Some j \<Rightarrow>
                 let d = entry V sb root j; i = unat (de_inode d)
                 in ((0, Some (ks_next fs)),
                     fs\<lparr>ks_cache := c',
                        ks_open := \<lparr>kf_id = ks_next fs,
                                    kf_fileSize = ucast (ino_size (inode_at (V (inode_pos sb i)) (i mod 16))),
                                    kf_dentry = d, kf_pos = 0, kf_owner = None, kf_cnt = 0\<rparr> # ks_open fs,
                        ks_next := ks_next fs + 1\<rparr>))"
proof -
  note g = fs_ok_geometry [OF ok] and W = cache_rel_written [OF rel]
  obtain ch nm where nm: "name = ch # nm" "ch \<noteq> 0" using name(2) by (cases name) (auto simp: cstr_def split: if_splits)
  have p0: "in_disk N 0" using g by (simp add: geometry_def in_disk_def data_start_def)
  from get_steady [OF rel p0] room obtain ksb c1 where k: "kget intf 0 (ks_cache fs) = (Inr ksb, c1)"
    and r1: "cache_rel img ready V N (add_mset (ksb, 0) H) W c1" by auto
  have b: "superblock_of (block_bytes ksb c1) = sb" using cache_rel_bytes [OF r1, of ksb 0] sb by simp
  from get_inode_steady [OF r1, of sb "sb_root_directory_inode sb"] inode_in_disk [OF g r(2)] room r(1) root(1)
  obtain c2 where gi: "get_inode intf sb (sb_root_directory_inode sb) c1 = (Inr root, c2)"
    and r2: "cache_rel img ready V N (add_mset (ksb, 0) H) W c2" by auto
  let ?c3 = "cache_release_block ksb False c2"
  have r3: "cache_rel img ready V N H W ?c3" by (rule release_clean_steady [OF r2 W])
  have "size H < 62" using room by simp
  from lookup_steady [OF r3 this ok root(2,4) name(1) root(5)] obtain res c4 where
    l: "lookup intf sb root name n ?c3 = Some (res, c4)"
      "case find_entry V sb root n name of
        None \<Rightarrow> res = Smiss n \<and> cache_rel img ready V N H W c4
      | Some j \<Rightarrow> \<exists>ks kd ps. res = Shit ks kd (j mod 32) \<and> length ps = length ks \<and> length ks \<le> 2 \<and>
          cache_rel img ready V N (add_mset (kd, entry_pos V sb root j) (mset (zip ks ps) + H)) W c4"
    by (elim exE conjE)
  have op: "ktfs_open intf False (Some name) fs =
      (case res of
         Sfail rc \<Rightarrow> Some ((rc, None), fs\<lparr>ks_cache := c4\<rparr>)
       | Smiss i \<Rightarrow> Some ((- ENOENT, None), fs\<lparr>ks_cache := c4\<rparr>)
       | Shit ks kd e \<Rightarrow> Some (open_found intf ks kd e (fs\<lparr>ks_cache := c4\<rparr>)))"
    using k b gi l(1) nm(2) unfolding nm(1) root(3) by (simp add: ktfs_open_def split: search.split)
  show ?thesis
  proof (cases "find_entry V sb root n name")
    case None
    with l(2) op show ?thesis by (intro exI [of _ c4]) simp
  next
    case (Some j)
    with l(2) obtain ks kd ps where h: "res = Shit ks kd (j mod 32)" "length ps = length ks" "length ks \<le> 2"
      "cache_rel img ready V N (add_mset (kd, entry_pos V sb root j) (mset (zip ks ps) + H)) W c4" by auto
    let ?H = "add_mset (kd, entry_pos V sb root j) (mset (zip ks ps) + H)"
    have d: "dentry_at (block_bytes kd c4) (j mod 32) = entry V sb root j"
      using cache_rel_bytes [OF h(4), of kd "entry_pos V sb root j"] by (simp add: entry_def)
    have W': "W \<subseteq> fst ` set_mset ?H" using W by auto
    have rm: "size ?H < 63" using h(2,3) room by simp
    let ?d = "entry V sb root j"
    from get_steady [OF h(4) p0] rm obtain ks1 c5 where k1: "kget intf 0 c4 = (Inr ks1, c5)"
      and r5: "cache_rel img ready V N (add_mset (ks1, 0) ?H) W c5" by auto
    have b1: "superblock_of (block_bytes ks1 c5) = sb" using cache_rel_bytes [OF r5, of ks1 0] sb by simp
    have j: "unat (de_inode ?d) div 16 < unat (sb_inode_block_count sb)"
      using inodes find_entry_Some(1) [OF Some] by simp
    from get_inode_steady [OF r5 inode_in_disk [OF g j]] rm obtain c6 where
      g1: "get_inode intf sb (de_inode ?d) c5 =
        (Inr (inode_at (V (inode_pos sb (unat (de_inode ?d)))) (unat (de_inode ?d) mod 16)), c6)"
      and r6: "cache_rel img ready V N (add_mset (ks1, 0) ?H) W c6" by auto
    have "cache_rel img ready V N ?H W (cache_release_block ks1 False c6)" by (rule release_clean_steady [OF r6 W'])
    then have "cache_rel img ready V N H W (release_all False (kd # ks) (cache_release_block ks1 False c6))"
      by (intro release_all_clean [where ps = "entry_pos V sb root j # ps"]) (use h(2) W in simp_all)
    then show ?thesis using op h(1) d k1 b1 g1 Some by (auto simp: open_found_def Let_def)
  qed
qed

end

end
