(* ===== verification/KtfsWrite.thy ===== *)
theory KtfsWrite
  imports KtfsRead
begin

text \<open>
  Writing a file: what \<open>ktfs_store\<close> puts on the disk.  The bytes at the position become the
  caller's, the other bytes of the file stay, and no block of another file changes.
\<close>

section \<open>Changes of one file\<close>

text \<open>The file is the inode at index \<open>i\<close> of the block at \<open>ip\<close>.\<close>

definition file_at :: "u64 \<Rightarrow> nat \<Rightarrow> disk_view \<Rightarrow> ktfs_inode" where
  "file_at ip i V = inode_at (V ip) i"

definition slot_of :: "ktfs_superblock \<Rightarrow> u64 \<Rightarrow> nat \<Rightarrow> disk_view \<Rightarrow> slot \<Rightarrow> u32" where
  "slot_of sb ip i V s = slot_ptr V sb (file_at ip i V) s"

definition file_changes :: "nat \<Rightarrow> ktfs_superblock \<Rightarrow> u64 \<Rightarrow> nat \<Rightarrow> disk_view \<Rightarrow> disk_view \<Rightarrow> bool" where
  "file_changes N sb ip i V V' \<longleftrightarrow>
     fs_ok V' N sb \<and> file_ok V' N sb (file_at ip i V') \<and>
     (\<forall>s. is_slot s \<and> slot_of sb ip i V s \<noteq> 0 \<longrightarrow> slot_of sb ip i V' s = slot_of sb ip i V s) \<and>
     (\<forall>s. is_slot s \<and> slot_of sb ip i V s = 0 \<and> slot_of sb ip i V' s \<noteq> 0 \<longrightarrow>
        \<not> data_bit V sb (unat (slot_of sb ip i V' s))) \<and>
     (\<forall>n<bits_of sb. data_bit V sb n \<longrightarrow> data_bit V' sb n) \<and>
     (\<forall>a. valid_idx N sb a \<and> unat a < bits_of sb \<and> data_bit V sb (unat a) \<and>
        (\<forall>s. is_slot s \<and> slot_of sb ip i V s \<noteq> 0 \<longrightarrow> slot_of sb ip i V s \<noteq> a) \<longrightarrow>
        V' (data_pos sb a) = V (data_pos sb a)) \<and>
     (\<forall>p. p \<noteq> ip \<and> (\<forall>j<unat (sb_bitmap_block_count sb). p \<noteq> bitmap_pos sb (of_nat j)) \<and>
        (\<forall>a. valid_idx N sb a \<longrightarrow> p \<noteq> data_pos sb a) \<longrightarrow> V' p = V p) \<and>
     (\<forall>j<16. j \<noteq> i \<longrightarrow> inode_at (V' ip) j = inode_at (V ip) j)"

lemma file_changes_refl:
  "fs_ok V N sb \<Longrightarrow> file_ok V N sb (file_at ip i V) \<Longrightarrow> file_changes N sb ip i V V"
  by (auto simp: file_changes_def)

lemma file_changes_ok:
  "file_changes N sb ip i V V' \<Longrightarrow> fs_ok V' N sb \<and> file_ok V' N sb (file_at ip i V')"
  by (simp add: file_changes_def)

lemma file_changes_slot:
  "file_changes N sb ip i V V' \<Longrightarrow> is_slot s \<Longrightarrow> slot_of sb ip i V s \<noteq> 0 \<Longrightarrow>
     slot_of sb ip i V' s = slot_of sb ip i V s"
  by (simp add: file_changes_def)

lemma file_changes_trans:
  assumes 1: "file_changes N sb ip i V V1" and 2: "file_changes N sb ip i V1 V2"
  shows "file_changes N sb ip i V V2"
proof -
  let ?S = "slot_of sb ip i"
  have keep: "?S V2 s = ?S V s" if "is_slot s" "?S V s \<noteq> 0" for s
    using file_changes_slot [OF 1 that] file_changes_slot [OF 2 that(1)] that(2) by simp
  have bits: "n < bits_of sb \<Longrightarrow> data_bit V sb n \<Longrightarrow> data_bit V1 sb n" for n
    using 1 by (simp add: file_changes_def)
  have new: "\<not> data_bit V sb (unat (?S V2 s))" if s: "is_slot s" "?S V s = 0" "?S V2 s \<noteq> 0" for s
  proof (cases "?S V1 s = 0")
    case True
    then have "\<not> data_bit V1 sb (unat (?S V2 s))" using 2 s by (simp add: file_changes_def)
    moreover have "unat (?S V2 s) < bits_of sb"
      using file_changes_ok [OF 2] s by (simp add: file_ok_def slot_of_def)
    ultimately show ?thesis using bits by blast
  next
    case False
    then have "\<not> data_bit V sb (unat (?S V1 s))" using 1 s by (simp add: file_changes_def)
    then show ?thesis using file_changes_slot [OF 2 s(1) False] by simp
  qed
  have frame: "V2 (data_pos sb a) = V (data_pos sb a)"
    if a: "valid_idx N sb a" "unat a < bits_of sb" "data_bit V sb (unat a)"
      "\<And>s. is_slot s \<Longrightarrow> ?S V s \<noteq> 0 \<Longrightarrow> ?S V s \<noteq> a" for a
  proof -
    have V1: "V1 (data_pos sb a) = V (data_pos sb a)" using 1 a by (simp add: file_changes_def)
    have "?S V1 s \<noteq> a" if s: "is_slot s" "?S V1 s \<noteq> 0" for s
    proof (cases "?S V s = 0")
      case True
      then have "\<not> data_bit V sb (unat (?S V1 s))" using 1 s by (simp add: file_changes_def)
      then show ?thesis using a(3) by auto
    next
      case False
      then show ?thesis using a(4) [OF s(1)] file_changes_slot [OF 1 s(1)] by simp
    qed
    with V1 a bits [OF a(2,3)] 2 show ?thesis by (simp add: file_changes_def)
  qed
  show ?thesis
    unfolding file_changes_def
    using 1 2 keep new frame by (intro conjI allI impI) (simp_all add: file_changes_def)
qed

text \<open>The block map depends on the pointer blocks only.\<close>

lemma slot_ptr_cong:
  assumes "\<And>u. is_slot u \<Longrightarrow> ptr_slot u \<Longrightarrow> slot_ptr V sb ino u \<noteq> 0 \<Longrightarrow>
      V' (data_pos sb (slot_ptr V sb ino u)) = V (data_pos sb (slot_ptr V sb ino u))"
    and "\<And>t. inode_slot ino' t = inode_slot ino t" and "is_slot s"
  shows "slot_ptr V' sb ino' s = slot_ptr V sb ino s"
  using assms(3)
proof (induction "slot_rank s" arbitrary: s rule: less_induct)
  case less
  show ?case
  proof (cases "up s")
    case None
    then show ?thesis using assms(2) by (simp add: slot_ptr_root)
  next
    case (Some x)
    then obtain u i where up: "up s = Some (u, i)" by (cases x) auto
    then have u: "is_slot u" "slot_ptr V' sb ino' u = slot_ptr V sb ino u"
      using up_is_slot [OF up less(2)] less(1) [OF up_rank [OF up]] by simp_all
    then show ?thesis using assms(1) [OF u(1) up_ptr_slot [OF up]] unfolding slot_ptr_up [OF up] by simp
  qed
qed

text \<open>A position that is neither in the bitmap nor in the data region.\<close>

definition meta_pos :: "nat \<Rightarrow> ktfs_superblock \<Rightarrow> u64 \<Rightarrow> bool" where
  "meta_pos N sb p \<longleftrightarrow>
     in_disk N p \<and> (\<forall>j<unat (sb_bitmap_block_count sb). p \<noteq> bitmap_pos sb (of_nat j)) \<and>
     (\<forall>a. valid_idx N sb a \<longrightarrow> p \<noteq> data_pos sb a)"

lemma inode_meta_pos:
  assumes "geometry N sb" and "n div 16 < unat (sb_inode_block_count sb)"
  shows "meta_pos N sb (inode_pos sb n)"
  unfolding meta_pos_def using inode_in_disk [OF assms] inode_not_bitmap [OF assms]
    data_not_inode [OF assms(1) _ assms(2)] by metis

lemma meta_upd:
  assumes ok: "fs_ok V N sb" and m: "meta_pos N sb p" and len: "length bs = 512"
  shows "fs_ok (V(p := bs)) N sb" "n < bits_of sb \<Longrightarrow> data_bit (V(p := bs)) sb n = data_bit V sb n"
    "valid_idx N sb a \<Longrightarrow> (V(p := bs)) (data_pos sb a) = V (data_pos sb a)"
proof -
  show bits: "data_bit (V(p := bs)) sb n = data_bit V sb n" if "n < bits_of sb" for n
    using m div_bits [OF that] by (auto simp: data_bit_def meta_pos_def)
  show "fs_ok (V(p := bs)) N sb"
    using ok bits len unfolding fs_ok_def by (auto simp: fun_upd_apply)
  show "valid_idx N sb a \<Longrightarrow> (V(p := bs)) (data_pos sb a) = V (data_pos sb a)"
    using m by (auto simp: meta_pos_def)
qed

lemma file_ok_cong:
  assumes ok: "file_ok V N sb ino" and wf: "inode_wf ino'"
    and ptr: "\<And>s. is_slot s \<Longrightarrow> slot_ptr V' sb ino' s = slot_ptr V sb ino s"
    and bits: "\<And>n. n < bits_of sb \<Longrightarrow> data_bit V sb n \<Longrightarrow> data_bit V' sb n"
  shows "file_ok V' N sb ino'"
  using ok wf ptr bits unfolding file_ok_def by auto

text \<open>Growing the file and writing its inode back.\<close>

lemma grow_changes:
  assumes ok: "fs_ok V N sb" and g: "file_grows N sb V (file_at ip i V) V1 ino" and m: "meta_pos N sb ip"
    and i: "i < 16" and V': "V' = V1(ip := put_inode i (ino\<lparr>ino_size := sz\<rparr>) (V1 ip))"
  shows "file_changes N sb ip i V V'" "file_at ip i V' = ino\<lparr>ino_size := sz\<rparr>"
    "\<And>s. is_slot s \<Longrightarrow> slot_of sb ip i V' s = slot_ptr V1 sb ino s"
    "\<And>a. valid_idx N sb a \<Longrightarrow> V' (data_pos sb a) = V1 (data_pos sb a)"
    "\<And>n. n < bits_of sb \<Longrightarrow> data_bit V' sb n = data_bit V1 sb n"
    "V1 ip = V ip"
proof -
  let ?ino = "ino\<lparr>ino_size := sz\<rparr>"
  have ok1: "fs_ok V1 N sb" "file_ok V1 N sb ino" using file_grows_ok [OF g] by simp_all
  have wf: "inode_wf ?ino" using ok1(2) by (simp add: file_ok_def inode_wf_def)
  have len: "length (V1 ip) = 512" using ok1(1) m by (simp add: fs_ok_def meta_pos_def)
  then have len': "length (put_inode i ?ino (V1 ip)) = 512" using wf i by simp
  note u = meta_upd [OF ok1(1) m len', folded V']
  show data: "V' (data_pos sb a) = V1 (data_pos sb a)" if "valid_idx N sb a" for a by (rule u(3) [OF that])
  show bits: "data_bit V' sb n = data_bit V1 sb n" if "n < bits_of sb" for n by (rule u(2) [OF that])
  show V1: "V1 ip = V ip" using g m by (simp add: file_grows_def meta_pos_def)
  have at: "inode_at (V' ip) j = (if j = i then ?ino else inode_at (V ip) j)" if "j < 16" for j
    using inode_at_put [OF wf that i len] V1 V' by simp
  then show F: "file_at ip i V' = ?ino" using i by (simp add: file_at_def)
  have slots: "slot_ptr V' sb ?ino s = slot_ptr V1 sb ino s" if "is_slot s" for s
  proof (rule slot_ptr_cong [OF _ _ that])
    show "inode_slot ?ino t = inode_slot ino t" for t by (cases t) simp_all
    show "V' (data_pos sb (slot_ptr V1 sb ino u)) = V1 (data_pos sb (slot_ptr V1 sb ino u))"
      if "is_slot u" "slot_ptr V1 sb ino u \<noteq> 0" for u
      using ok1(2) that by (intro data) (simp add: file_ok_def)
  qed
  then show S: "slot_of sb ip i V' s = slot_ptr V1 sb ino s" if "is_slot s" for s
    using that F by (simp add: slot_of_def)
  have fok: "file_ok V' N sb (file_at ip i V')"
    unfolding F by (rule file_ok_cong [OF ok1(2) wf slots]) (use bits in auto)
  show "file_changes N sb ip i V V'"
    unfolding file_changes_def
  proof (intro conjI allI impI, goal_cases)
    case (3 s)
    then show ?case using S g by (simp add: file_grows_def slot_of_def)
  next
    case (4 s)
    then have "slot_of sb ip i V' s = slot_ptr V1 sb ino s" using S by blast
    with 4 g show ?case by (simp add: file_grows_def slot_of_def [of sb ip i V])
  next
    case (5 n)
    then show ?case using bits g by (simp add: file_grows_def)
  next
    case (6 a)
    then show ?case using data g by (simp add: file_grows_def slot_of_def)
  next
    case (7 p)
    then have "V' p = V1 p" by (simp add: V')
    with 7 g show ?case by (simp add: file_grows_def)
  next
    case (8 j)
    then show ?case using at by simp
  qed (use u(1) fok in auto)
qed

text \<open>Writing a data block of the file.\<close>

lemma data_changes:
  assumes ok: "fs_ok V N sb" "file_ok V N sb (file_at ip i V)" and m: "meta_pos N sb ip"
    and b: "b < MAX_BLOCKS" "slot_of sb ip i V (Data b) \<noteq> 0" and len: "length bs = 512"
    and V': "V' = V(data_pos sb (slot_of sb ip i V (Data b)) := bs)"
  shows "file_changes N sb ip i V V'" "file_at ip i V' = file_at ip i V"
    "\<And>s. is_slot s \<Longrightarrow> slot_of sb ip i V' s = slot_of sb ip i V s"
    "\<And>c. c < MAX_BLOCKS \<Longrightarrow> slot_of sb ip i V (Data c) \<noteq> 0 \<Longrightarrow>
       V' (data_pos sb (slot_of sb ip i V (Data c))) =
         (if c = b then bs else V (data_pos sb (slot_of sb ip i V (Data c))))"
proof -
  let ?S = "slot_of sb ip i V" and ?g = "fs_ok_geometry [OF ok(1)]"
  let ?a = "?S (Data b)"
  note g = fs_ok_geometry [OF ok(1)]
  have isb: "is_slot (Data b)" using b(1) by simp
  have va: "valid_idx N sb ?a" using ok(2) isb b(2) by (simp add: file_ok_def slot_of_def)
  have inj: "?S s = ?a \<longleftrightarrow> s = Data b" if "is_slot s" for s
    using ok(2) isb b(2) that unfolding file_ok_def slot_of_def by metis
  have valid: "valid_idx N sb (?S s)" if "is_slot s" "?S s \<noteq> 0" for s
    using ok(2) that by (simp add: file_ok_def slot_of_def)
  have V'ip: "V' ip = V ip" using m va by (auto simp: V' meta_pos_def)
  then show F: "file_at ip i V' = file_at ip i V" by (simp add: file_at_def)
  have data: "V' (data_pos sb (?S s)) = (if s = Data b then bs else V (data_pos sb (?S s)))"
    if "is_slot s" "?S s \<noteq> 0" for s
    using data_pos_inj [OF g valid [OF that] va] inj [OF that(1)] by (simp add: V')
  then show "\<And>c. c < MAX_BLOCKS \<Longrightarrow> ?S (Data c) \<noteq> 0 \<Longrightarrow>
      V' (data_pos sb (?S (Data c))) = (if c = b then bs else V (data_pos sb (?S (Data c))))" by simp
  show S: "slot_of sb ip i V' s = ?S s" if "is_slot s" for s
    unfolding slot_of_def F
  proof (rule slot_ptr_cong [OF _ refl that])
    fix u assume u: "is_slot u" "ptr_slot u" "slot_ptr V sb (file_at ip i V) u \<noteq> 0"
    then have "u \<noteq> Data b" by (auto simp: ptr_slot_def)
    with data [of u] u show "V' (data_pos sb (slot_ptr V sb (file_at ip i V) u)) =
        V (data_pos sb (slot_ptr V sb (file_at ip i V) u))" by (simp add: slot_of_def)
  qed
  have bits: "data_bit V' sb n = data_bit V sb n" if "n < bits_of sb" for n
    unfolding V' by (rule data_bit_upd_data [OF g va that])
  have ok': "fs_ok V' N sb" using ok(1) bits len unfolding fs_ok_def by (auto simp: V')
  have fok: "file_ok V' N sb (file_at ip i V')"
    unfolding F by (rule file_ok_cong [OF ok(2)]) (use ok(2) S F bits in \<open>auto simp: slot_of_def file_ok_def\<close>)
  show "file_changes N sb ip i V V'"
    unfolding file_changes_def
  proof (intro conjI allI impI, goal_cases)
    case (6 a)
    then have "a \<noteq> ?a" using isb b(2) by metis
    then show ?case using data_pos_inj [OF g _ va, of a] 6 by (simp add: V')
  qed (use ok' fok S bits va V'ip in \<open>auto simp: V'\<close>)
qed

lemma unat_ucast_32: "unat q < 2 ^ 32 \<Longrightarrow> unat (ucast (q :: u64) :: u32) = unat q"
  by (simp add: unsigned_ucast_eq take_bit_nat_eq_self)

lemma unat_ucast_64: "unat (ucast (q :: u32) :: u64) = unat q"
  using less_trans [OF unat_lt_32 [of q], of "2 ^ 64"] by (simp add: unsigned_ucast_eq take_bit_nat_eq_self)

section \<open>The bytes that were written\<close>

definition byte_of :: "ktfs_superblock \<Rightarrow> u64 \<Rightarrow> nat \<Rightarrow> disk_view \<Rightarrow> nat \<Rightarrow> u8" where
  "byte_of sb ip i V m = file_byte V sb (file_at ip i V) m"

lemma byte_of_slot: "byte_of sb ip i V m = V (data_pos sb (slot_of sb ip i V (Data (m div 512)))) ! (m mod 512)"
  by (simp add: byte_of_def file_byte_def slot_of_def)

definition present :: "ktfs_superblock \<Rightarrow> u64 \<Rightarrow> nat \<Rightarrow> disk_view \<Rightarrow> nat \<Rightarrow> bool" where
  "present sb ip i V m \<longleftrightarrow> m div 512 < MAX_BLOCKS \<and> slot_of sb ip i V (Data (m div 512)) \<noteq> 0"

text \<open>The bytes from \<open>p\<close> on are \<open>buf\<close>, the others are as before.\<close>

definition written ::
    "ktfs_superblock \<Rightarrow> u64 \<Rightarrow> nat \<Rightarrow> disk_view \<Rightarrow> disk_view \<Rightarrow> nat \<Rightarrow> bytes \<Rightarrow> bool" where
  "written sb ip i V V' p buf \<longleftrightarrow>
     (\<forall>m. p \<le> m \<and> m < p + length buf \<longrightarrow> present sb ip i V' m \<and> byte_of sb ip i V' m = buf ! (m - p)) \<and>
     (\<forall>m. \<not> (p \<le> m \<and> m < p + length buf) \<and> present sb ip i V m \<longrightarrow>
        byte_of sb ip i V' m = byte_of sb ip i V m)"

text \<open>A write for which some block has to be allocated.\<close>

definition lacks :: "ktfs_superblock \<Rightarrow> u64 \<Rightarrow> nat \<Rightarrow> disk_view \<Rightarrow> nat \<Rightarrow> bytes \<Rightarrow> bool" where
  "lacks sb ip i V p buf \<longleftrightarrow> (\<exists>m. p \<le> m \<and> m < p + length buf \<and> \<not> present sb ip i V m)"

lemma written_nil: "written sb ip i V V p []"
  by (auto simp: written_def)

lemma present_changes: "file_changes N sb ip i V V' \<Longrightarrow> present sb ip i V m \<Longrightarrow> present sb ip i V' m"
  using file_changes_slot [of N sb ip i V V' "Data (m div 512)"] by (simp add: present_def)

lemma written_append:
  assumes 1: "written sb ip i V V1 p xs" and 2: "written sb ip i V1 V2 (p + length xs) ys"
    and g: "file_changes N sb ip i V V1" "file_changes N sb ip i V1 V2"
  shows "written sb ip i V V2 p (xs @ ys)"
  unfolding written_def
proof (intro conjI allI impI)
  fix m assume m: "p \<le> m \<and> m < p + length (xs @ ys)"
  have "present sb ip i V2 m \<and> byte_of sb ip i V2 m = (xs @ ys) ! (m - p)"
  proof (cases "m < p + length xs")
    case True
    then have "present sb ip i V1 m" "byte_of sb ip i V1 m = xs ! (m - p)" using 1 m by (auto simp: written_def)
    moreover from this True have "byte_of sb ip i V2 m = byte_of sb ip i V1 m" using 2 by (auto simp: written_def)
    moreover have "m - p < length xs" using True m by linarith
    ultimately show ?thesis using present_changes [OF g(2)] by (simp add: nth_append)
  next
    case False
    then have "present sb ip i V2 m" "byte_of sb ip i V2 m = ys ! (m - (p + length xs))"
      using 2 m by (auto simp: written_def)
    moreover have "\<not> m - p < length xs" "m - p - length xs = m - (p + length xs)" using False m by linarith+
    ultimately show ?thesis by (simp only: nth_append if_False simp_thms)
  qed
  then show "present sb ip i V2 m" "byte_of sb ip i V2 m = (xs @ ys) ! (m - p)" by simp_all
next
  fix m assume m: "\<not> (p \<le> m \<and> m < p + length (xs @ ys)) \<and> present sb ip i V m"
  then have "byte_of sb ip i V1 m = byte_of sb ip i V m" "present sb ip i V1 m"
    using 1 present_changes [OF g(1)] by (auto simp: written_def)
  with m 2 show "byte_of sb ip i V2 m = byte_of sb ip i V m" by (auto simp: written_def)
qed

text \<open>One block: present after the allocation, then overwritten from an offset on.\<close>

lemma written_block:
  assumes ok: "fs_ok V N sb" "file_ok V N sb (file_at ip i V)" and m: "meta_pos N sb ip"
    and b: "b < MAX_BLOCKS" "slot_of sb ip i V (Data b) \<noteq> 0" and o: "off + length xs \<le> 512"
    and blk: "length (V (data_pos sb (slot_of sb ip i V (Data b)))) = 512"
    and V': "V' = V(data_pos sb (slot_of sb ip i V (Data b)) :=
        overwrite (V (data_pos sb (slot_of sb ip i V (Data b)))) off xs)"
  shows "written sb ip i V V' (512 * b + off) xs"
proof -
  let ?o = "overwrite (V (data_pos sb (slot_of sb ip i V (Data b)))) off xs"
  have len: "length ?o = 512" using blk o by simp
  note d = data_changes [OF ok m b len V']
  have byt: "byte_of sb ip i V' n =
      (if n div 512 = b \<and> off \<le> n mod 512 \<and> n mod 512 < off + length xs then xs ! (n mod 512 - off)
       else byte_of sb ip i V n)" if n: "present sb ip i V n" for n
  proof -
    have "byte_of sb ip i V' n = (if n div 512 = b then ?o else V (data_pos sb (slot_of sb ip i V (Data (n div 512))))) ! (n mod 512)"
      using d(3) d(4) n by (simp add: byte_of_slot present_def)
    then show ?thesis using blk o by (auto simp: nth_overwrite byte_of_slot)
  qed
  have split: "512 * b + off \<le> n \<and> n < 512 * b + off + length xs \<longleftrightarrow>
      n div 512 = b \<and> off \<le> n mod 512 \<and> n mod 512 < off + length xs" for n
  proof -
    have n: "n = 512 * (n div 512) + n mod 512" "n mod 512 < 512" by simp_all
    show ?thesis
    proof (cases "n div 512 = b")
      case True
      define x where "x = n mod 512"
      have "n = 512 * b + x" "x < 512" using n True by (simp_all add: x_def)
      then show ?thesis using True o by (auto simp flip: x_def)
    next
      case False
      then have "n div 512 + 1 \<le> b \<or> b + 1 \<le> n div 512" by auto
      then have "512 * (n div 512 + 1) \<le> 512 * b \<or> 512 * (b + 1) \<le> 512 * (n div 512)" by auto
      then have "512 * (n div 512) + 512 \<le> 512 * b \<or> 512 * b + 512 \<le> 512 * (n div 512)" by auto
      then show ?thesis using n o False by linarith
    qed
  qed
  have pres: "present sb ip i V n" if "n div 512 = b" for n using that b by (simp add: present_def)
  show ?thesis
    unfolding written_def split
  proof (intro conjI allI impI, goal_cases)
    case (1 n)
    then show ?case using present_changes [OF d(1)] pres by simp
  next
    case (2 n)
    have "n = 512 * (n div 512) + n mod 512" by simp
    then have "n - (512 * b + off) = n mod 512 - off" using 2 by simp
    then show ?case using byt [of n] pres 2 by simp
  next
    case (3 n)
    then show ?case using byt [of n] by auto
  qed
qed

context steady_disk
begin

text \<open>\<open>get_or_alloc_data_block\<close> on the inode in the pinned block \<open>k\<close>.\<close>

lemma file_block_steady:
  assumes rel: "cache_rel img ready V N H W c" and room: "size H < 63" and k: "(k, ip) \<in># H" and i: "i < 16"
    and m: "meta_pos N sb ip" and ok: "fs_ok V N sb" "file_ok V N sb (file_at ip i V)"
  shows "\<exists>r V' c'. file_block intf sb k i blkno c = (r, c') \<and>
     cache_rel img ready V' N H (insert k W) c' \<and> file_changes N sb ip i V V' \<and>
     ino_size (file_at ip i V') = ino_size (file_at ip i V) \<and>
     (\<forall>b. b < MAX_BLOCKS \<and> slot_of sb ip i V (Data b) \<noteq> 0 \<longrightarrow>
        V' (data_pos sb (slot_of sb ip i V (Data b))) = V (data_pos sb (slot_of sb ip i V (Data b)))) \<and>
     (case r of
        Inr idx \<Rightarrow> unat blkno < MAX_BLOCKS \<and> idx \<noteq> 0 \<and> slot_of sb ip i V' (Data (unat blkno)) = idx
      | Inl e \<Rightarrow> e = - ENOTSUP \<and> (MAX_BLOCKS \<le> unat blkno \<or>
          (\<forall>n<bits_of sb. data_bit V' sb n) \<and> slot_of sb ip i V (Data (unat blkno)) = 0))"
proof -
  have F: "inode_in k i c = file_at ip i V" using cache_rel_bytes [OF rel k] by (simp add: inode_in_def file_at_def)
  from get_or_alloc_steady [OF rel room ok, of blkno] obtain r ino V1 c1 where
    g: "get_or_alloc_data_block intf sb (file_at ip i V) blkno c = ((r, ino), c1)"
      "cache_rel img ready V1 N H W c1" "file_grows N sb V (file_at ip i V) V1 ino"
      "found_block N sb (unat blkno) V1 ino r" by blast
  let ?V' = "V1(ip := put_inode i ino (V1 ip))"
  have b: "block_bytes k c1 = V1 ip" by (rule cache_rel_bytes [OF g(2) k])
  have wf: "inode_wf ino" using file_grows_ok [OF g(3)] by (simp add: file_ok_def)
  have len: "length (V1 ip) = 512" by (rule cache_rel_length [OF g(2)]) (use m in \<open>simp add: meta_pos_def\<close>)
  have rel': "cache_rel img ready ?V' N H (insert k W) (inode_set k i ino c1)"
    unfolding inode_set_def b by (rule write_steady [OF g(2) k]) (use wf i len in simp)
  note ch = grow_changes [OF ok(1) g(3) m i, where sz = "ino_size ino", simplified, OF refl]
  have keep: "?V' (data_pos sb (slot_of sb ip i V (Data b))) = V (data_pos sb (slot_of sb ip i V (Data b)))"
    if b: "b < MAX_BLOCKS" "slot_of sb ip i V (Data b) \<noteq> 0" for b
  proof -
    let ?a = "slot_of sb ip i V (Data b)"
    have a: "valid_idx N sb ?a" "unat ?a < bits_of sb" "data_bit V sb (unat ?a)"
      using ok(2) b by (simp_all add: file_ok_def slot_of_def)
    have "slot_ptr V sb (file_at ip i V) u \<noteq> ?a" if "is_slot u" "ptr_slot u" for u
      using ok(2) b that unfolding file_ok_def slot_of_def ptr_slot_def by (metis is_slot.simps(1))
    then have "V1 (data_pos sb ?a) = V (data_pos sb ?a)" using g(3) a by (simp add: file_grows_def)
    then show ?thesis using ch(4) [OF a(1)] by simp
  qed
  have "case r of
      Inr idx \<Rightarrow> unat blkno < MAX_BLOCKS \<and> idx \<noteq> 0 \<and> slot_of sb ip i ?V' (Data (unat blkno)) = idx
    | Inl e \<Rightarrow> e = - ENOTSUP \<and> (MAX_BLOCKS \<le> unat blkno \<or>
        (\<forall>n<bits_of sb. data_bit ?V' sb n) \<and> slot_of sb ip i V (Data (unat blkno)) = 0)"
  proof (cases r)
    case (Inl e)
    have "size H < 64" using room by simp
    from get_or_alloc_present [OF rel this ok, of blkno] g(1) Inl
    have "MAX_BLOCKS \<le> unat blkno \<or> slot_of sb ip i V (Data (unat blkno)) = 0" by (fastforce simp: slot_of_def)
    then show ?thesis using Inl g(4) ch(5) by (auto simp: found_block_def)
  qed (use g(4) ch(3,5) in \<open>auto simp: found_block_def\<close>)
  moreover have "ino_size (file_at ip i ?V') = ino_size (file_at ip i V)"
    using ch(2) g(3) by (simp add: file_grows_def)
  ultimately show ?thesis using g(1) rel' ch(1) keep F
    by (intro exI [of _ r] exI [of _ ?V'] exI [of _ "inode_set k i ino c1"]) (simp add: file_block_def)
qed

lemma store_loop_steady:
  assumes "cache_rel img ready V N H W c" and room: "size H < 62" and k: "(k, ip) \<in># H" and i: "i < 16"
    and m: "meta_pos N sb ip" and "fs_ok V N sb" "file_ok V N sb (file_at ip i V)"
    and "unat pos + length buf \<le> 512 * MAX_BLOCKS"
  shows "\<exists>r V' c'. store_loop intf sb k i pos buf c = (r, c') \<and>
     cache_rel img ready V' N H (insert k W) c' \<and> file_changes N sb ip i V V' \<and>
     ino_size (file_at ip i V') = ino_size (file_at ip i V) \<and>
     (case r of
        Inr q \<Rightarrow> unat q = unat pos + length buf \<and> written sb ip i V V' (unat pos) buf
      | Inl e \<Rightarrow> e = - ENOTSUP \<and> (\<forall>n<bits_of sb. data_bit V' sb n) \<and> lacks sb ip i V (unat pos) buf)"
  using assms(1,6-8)
proof (induction "length buf" arbitrary: pos buf V W c rule: less_induct)
  case less
  note rel = less.prems(1) and ok = less.prems(2,3) and lim = less.prems(4)
  have kH: "k \<in> fst ` set_mset H" using k by force
  show ?case
  proof (cases "buf = []")
    case True
    have "cache_rel img ready V N H (insert k W) c"
      by (rule cache_rel_more_written [OF rel]) (use cache_rel_written [OF rel] kH in auto)
    moreover have "store_loop intf sb k i pos buf c = (Inr pos, c)"
      by (subst store_loop.simps) (simp add: True)
    ultimately show ?thesis using True file_changes_refl [OF ok] written_nil
      by (intro exI [of _ "Inr pos"] exI [of _ V] exI [of _ c]) simp
  next
    case False
    then have l0: "0 < length buf" by simp
    define b where "b = unat pos div 512"
    define off where "off = unat pos mod 512"
    define chunk where "chunk = min (512 - off) (length buf)"
    have off: "off < 512" by (simp add: off_def)
    have pos: "unat pos = 512 * b + off" by (simp add: b_def off_def)
    have c0: "0 < chunk" "chunk \<le> length buf" "off + chunk \<le> 512" using l0 off by (auto simp: chunk_def)
    have "512 * b < 512 * 32900" using lim l0 pos by linarith
    then have b32: "b < 32900" by simp
    have "unat (pos div 512) = b" by (simp add: b_def unat_div_64)
    then have blkno: "unat (ucast (pos div 512) :: u32) = b"
      using b32 by (simp add: unsigned_ucast_eq take_bit_nat_eq_self)
    from file_block_steady [OF rel _ k i m ok, of "ucast (pos div 512)"] room obtain r V1 c1 where
      f: "file_block intf sb k i (ucast (pos div 512)) c = (r, c1)" "cache_rel img ready V1 N H (insert k W) c1"
        "file_changes N sb ip i V V1" "ino_size (file_at ip i V1) = ino_size (file_at ip i V)"
        "\<forall>b. b < MAX_BLOCKS \<and> slot_of sb ip i V (Data b) \<noteq> 0 \<longrightarrow>
           V1 (data_pos sb (slot_of sb ip i V (Data b))) = V (data_pos sb (slot_of sb ip i V (Data b)))"
        "case r of Inr idx \<Rightarrow> b < MAX_BLOCKS \<and> idx \<noteq> 0 \<and> slot_of sb ip i V1 (Data b) = idx
         | Inl e \<Rightarrow> e = - ENOTSUP \<and> (MAX_BLOCKS \<le> b \<or>
             (\<forall>n<bits_of sb. data_bit V1 sb n) \<and> slot_of sb ip i V (Data b) = 0)"
      unfolding blkno by auto
    show ?thesis
    proof (cases r)
      case (Inl e)
      then have "store_loop intf sb k i pos buf c = (Inl e, c1)"
        using False f(1) by (simp add: store_loop.simps [of intf sb k i pos buf c])
      moreover have "lacks sb ip i V (unat pos) buf"
        using f(6) Inl b32 l0 by (auto simp: lacks_def present_def b_def intro: exI [of _ "unat pos"])
      ultimately show ?thesis using f Inl b32 by auto
    next
      case (Inr idx)
      then have idx: "idx \<noteq> 0" "slot_of sb ip i V1 (Data b) = idx" using f(6) by simp_all
      note ok1 = file_changes_ok [OF f(3)]
      let ?p = "data_pos sb idx"
      have "valid_idx N sb idx"
        using conjunct2 [OF ok1] idx b32 unfolding file_ok_def slot_of_def by (metis is_slot.simps(1))
      then have p: "in_disk N ?p" using data_in_disk fs_ok_geometry ok1 by blast
      from get_steady [OF f(2) p] room obtain kd c2 where kd: "kget intf ?p c1 = (Inr kd, c2)"
        and r2: "cache_rel img ready V1 N (add_mset (kd, ?p) H) (insert k W) c2" by auto
      have bb: "block_bytes kd c2 = V1 ?p" by (rule cache_rel_bytes [OF r2]) simp
      have len: "length (V1 ?p) = 512" by (rule cache_rel_length [OF f(2) p])
      let ?xs = "take chunk buf"
      let ?o = "overwrite (V1 ?p) off ?xs"
      let ?V2 = "V1(?p := ?o)"
      let ?c3 = "cache_release_block kd True (cache_write_buf kd ?o c2)"
      have lxs: "length ?xs = chunk" using c0 by simp
      have lo: "length ?o = 512" using len c0 lxs by simp
      have r3: "cache_rel img ready ?V2 N H (insert k W) ?c3"
        by (rule update_block_steady [OF r2 cache_rel_written [OF f(2)] lo])
      note dc = data_changes [OF conjunct1 [OF ok1] conjunct2 [OF ok1] m b32, unfolded idx(2), OF idx(1) lo refl]
      have wr1: "written sb ip i V1 ?V2 (unat pos) ?xs"
        using written_block [OF conjunct1 [OF ok1] conjunct2 [OF ok1] m b32, unfolded idx(2), OF idx(1) _ len refl, of off ?xs]
          lxs c0 unfolding pos by simp
      have wr0: "written sb ip i V V1 (unat pos) []"
        unfolding written_def
      proof (intro conjI allI impI, goal_cases)
        case (3 n)
        then have n: "n div 512 < MAX_BLOCKS" "slot_of sb ip i V (Data (n div 512)) \<noteq> 0" by (simp_all add: present_def)
        then have "slot_of sb ip i V1 (Data (n div 512)) = slot_of sb ip i V (Data (n div 512))"
          using file_changes_slot [OF f(3), of "Data (n div 512)"] by simp
        then show ?case using f(5) n by (simp add: byte_of_slot)
      qed auto
      have wr: "written sb ip i V ?V2 (unat pos) ?xs"
        using written_append [OF wr0 _ f(3) dc(1), of ?xs] wr1 by simp
      have g2: "file_changes N sb ip i V ?V2" by (rule file_changes_trans [OF f(3) dc(1)])
      note ok2 = file_changes_ok [OF g2]
      have np: "unat (pos + of_nat chunk) = unat pos + chunk" using lim c0(2) by (intro unat_add_small) simp
      have shorter: "length (drop chunk buf) < length buf" using c0 l0 by simp
      have lim2: "unat (pos + of_nat chunk) + length (drop chunk buf) \<le> 512 * MAX_BLOCKS" using np lim c0(2) by simp
      from less.hyps [OF shorter r3 conjunct1 [OF ok2] conjunct2 [OF ok2] lim2] obtain r' V3 c4 where
        h: "store_loop intf sb k i (pos + of_nat chunk) (drop chunk buf) ?c3 = (r', c4)"
          "cache_rel img ready V3 N H (insert k (insert k W)) c4" "file_changes N sb ip i ?V2 V3"
          "ino_size (file_at ip i V3) = ino_size (file_at ip i ?V2)"
          "case r' of Inr q \<Rightarrow> unat q = unat (pos + of_nat chunk) + length (drop chunk buf) \<and>
               written sb ip i ?V2 V3 (unat (pos + of_nat chunk)) (drop chunk buf)
           | Inl e \<Rightarrow> e = - ENOTSUP \<and> (\<forall>n<bits_of sb. data_bit V3 sb n) \<and>
               lacks sb ip i ?V2 (unat (pos + of_nat chunk)) (drop chunk buf)" by blast
      have run: "store_loop intf sb k i pos buf c = (r', c4)"
        using False f(1) Inr kd bb h(1)
        by (simp add: store_loop.simps [of intf sb k i pos buf c] Let_def off_def [symmetric] chunk_def [symmetric])
      have sz: "ino_size (file_at ip i V3) = ino_size (file_at ip i V)" using h(4) dc(2) f(4) by simp
      have fin: "case r' of Inr q \<Rightarrow> unat q = unat pos + length buf \<and> written sb ip i V V3 (unat pos) buf
         | Inl e \<Rightarrow> e = - ENOTSUP \<and> (\<forall>n<bits_of sb. data_bit V3 sb n) \<and> lacks sb ip i V (unat pos) buf"
      proof (cases r')
        case (Inr q)
        then have q: "unat q = unat pos + length buf" "written sb ip i ?V2 V3 (unat pos + length ?xs) (drop chunk buf)"
          using h(5) np c0 lxs by auto
        from written_append [OF wr q(2) g2 h(3)] q(1) Inr show ?thesis by simp
      next
        case (Inl e)
        then obtain m where m: "unat pos + chunk \<le> m" "m < unat pos + chunk + length (drop chunk buf)" "\<not> present sb ip i ?V2 m"
          using h(5) np by (auto simp: lacks_def)
        then have "\<not> present sb ip i V m" using present_changes [OF g2] by blast
        then have "lacks sb ip i V (unat pos) buf" using m(1,2) c0 by (auto simp: lacks_def intro!: exI [of _ m])
        with h(5) Inl show ?thesis by simp
      qed
      have "cache_rel img ready V3 N H (insert k W) c4" using h(2) by simp
      with run file_changes_trans [OF g2 h(3)] sz fin show ?thesis by blast
    qed
  qed
qed

text \<open>Setting the size in the inode.\<close>

lemma set_size_steady:
  assumes rel: "cache_rel img ready V N H W c" and k: "(k, ip) \<in># H" and i: "i < 16"
    and m: "meta_pos N sb ip" and ok: "fs_ok V N sb" "file_ok V N sb (file_at ip i V)"
  shows "\<exists>V'. cache_rel img ready V' N H (insert k W) (inode_set k i ((inode_in k i c)\<lparr>ino_size := sz\<rparr>) c) \<and>
     file_changes N sb ip i V V' \<and> ino_size (file_at ip i V') = sz \<and>
     (\<forall>n. n div 512 < MAX_BLOCKS \<and> present sb ip i V n \<longrightarrow> byte_of sb ip i V' n = byte_of sb ip i V n) \<and>
     (\<forall>n. present sb ip i V' n = present sb ip i V n)"
proof -
  have b: "block_bytes k c = V ip" by (rule cache_rel_bytes [OF rel k])
  have F: "inode_in k i c = file_at ip i V" by (simp add: inode_in_def file_at_def b)
  let ?V' = "V(ip := put_inode i ((file_at ip i V)\<lparr>ino_size := sz\<rparr>) (V ip))"
  note ch = grow_changes [where sz = sz, OF ok(1) file_grows_refl [OF ok] m i refl]
  have len: "length (V ip) = 512" by (rule cache_rel_length [OF rel]) (use m in \<open>simp add: meta_pos_def\<close>)
  have "inode_wf ((file_at ip i V)\<lparr>ino_size := sz\<rparr>)" using ok(2) by (simp add: file_ok_def inode_wf_def)
  then have "cache_rel img ready ?V' N H (insert k W) (inode_set k i ((inode_in k i c)\<lparr>ino_size := sz\<rparr>) c)"
    unfolding inode_set_def b F by (intro write_steady [OF rel k]) (use i len in simp)
  moreover have S: "slot_of sb ip i ?V' (Data b) = slot_of sb ip i V (Data b)" if "b < MAX_BLOCKS" for b
    using ch(3) [of "Data b"] that by (simp add: slot_of_def)
  moreover have "byte_of sb ip i ?V' n = byte_of sb ip i V n" if "present sb ip i V n" for n
  proof -
    have n: "n div 512 < MAX_BLOCKS" "slot_of sb ip i V (Data (n div 512)) \<noteq> 0" using that by (simp_all add: present_def)
    then have "valid_idx N sb (slot_of sb ip i V (Data (n div 512)))" using ok(2) by (simp add: file_ok_def slot_of_def)
    from ch(4) [OF this] S [OF n(1)] show ?thesis by (simp add: byte_of_slot)
  qed
  ultimately show ?thesis using ch(1,2) by (intro exI [of _ ?V']) (auto simp: present_def)
qed

text \<open>The end of a successful write: the size, and everything given back.\<close>

lemma store_finish:
  assumes rel: "cache_rel img ready V N (add_mset (k, ip) (add_mset (ksb, 0) H)) W' c" and i: "i < 16"
    and W: "W' \<subseteq> insert k W" "W \<subseteq> fst ` set_mset H"
    and m: "meta_pos N sb ip" and ok: "fs_ok V N sb" "file_ok V N sb (file_at ip i V)"
    and q: "unat (q :: u64) < 2 ^ 32" and c': "c' = (if unat q > unat (ino_size (inode_in k i c))
        then inode_set k i ((inode_in k i c)\<lparr>ino_size := ucast q\<rparr>) c else c)"
  shows "\<exists>V'. cache_rel img ready V' N H W (cache_release_block ksb False (cache_release_block k True c')) \<and>
     file_changes N sb ip i V V' \<and>
     unat (ino_size (file_at ip i V')) = max (unat (ino_size (file_at ip i V))) (unat q) \<and>
     inode_in k i c' = file_at ip i V' \<and>
     (\<forall>n. n div 512 < MAX_BLOCKS \<and> present sb ip i V n \<longrightarrow> byte_of sb ip i V' n = byte_of sb ip i V n) \<and>
     (\<forall>n. present sb ip i V' n = present sb ip i V n)"
proof -
  let ?H = "add_mset (k, ip) (add_mset (ksb, 0) H)"
  have kH: "(k, ip) \<in># ?H" by simp
  have F: "inode_in k i x = file_at ip i U" if "cache_rel img ready U N ?H X x" for U X x
    using cache_rel_bytes [OF that kH] by (simp add: inode_in_def file_at_def)
  have "\<exists>V' X. cache_rel img ready V' N ?H X c' \<and> X \<subseteq> insert k W \<and> file_changes N sb ip i V V' \<and>
      unat (ino_size (file_at ip i V')) = max (unat (ino_size (file_at ip i V))) (unat q) \<and>
      (\<forall>n. n div 512 < MAX_BLOCKS \<and> present sb ip i V n \<longrightarrow> byte_of sb ip i V' n = byte_of sb ip i V n) \<and>
      (\<forall>n. present sb ip i V' n = present sb ip i V n)"
  proof (cases "unat q > unat (ino_size (inode_in k i c))")
    case True
    from set_size_steady [OF rel kH i m ok, of "ucast q"] obtain V' where
      V': "cache_rel img ready V' N ?H (insert k W') c'" "file_changes N sb ip i V V'"
        "ino_size (file_at ip i V') = ucast q"
        "\<forall>n. n div 512 < MAX_BLOCKS \<and> present sb ip i V n \<longrightarrow> byte_of sb ip i V' n = byte_of sb ip i V n"
        "\<forall>n. present sb ip i V' n = present sb ip i V n" using c' True by auto
    have "unat (ino_size (file_at ip i V')) = max (unat (ino_size (file_at ip i V))) (unat q)"
      using V'(3) True F [OF rel] by (simp add: unat_ucast_32 [OF q])
    with V' W(1) show ?thesis by blast
  next
    case False
    then have "c' = c" "max (unat (ino_size (file_at ip i V))) (unat q) = unat (ino_size (file_at ip i V))"
      using c' F [OF rel] by simp_all
    with rel W(1) file_changes_refl [OF ok] show ?thesis by (intro exI [of _ V] exI [of _ W']) simp
  qed
  then obtain V' X where V': "cache_rel img ready V' N ?H X c'" "X \<subseteq> insert k W" "file_changes N sb ip i V V'"
      "unat (ino_size (file_at ip i V')) = max (unat (ino_size (file_at ip i V))) (unat q)"
      "\<forall>n. n div 512 < MAX_BLOCKS \<and> present sb ip i V n \<longrightarrow> byte_of sb ip i V' n = byte_of sb ip i V n"
      "\<forall>n. present sb ip i V' n = present sb ip i V n" by blast
  have "cache_rel img ready V' N (add_mset (ksb, 0) H) W (cache_release_block k True c')"
    by (rule release_dirty_steady [OF V'(1,2)]) (use W(2) in auto)
  from release_clean_steady [OF this W(2)] V'(3-6) F [OF V'(1)] show ?thesis by blast
qed

lemma store_body_steady:
  assumes rel: "cache_rel img ready V N H W c" and room: "size H < 60"
    and sb: "sb = superblock_of (V 0)" and ok: "fs_ok V N sb"
    and n: "n = unat (de_inode (kf_dentry f))" "n div 16 < unat (sb_inode_block_count sb)"
    and ip: "ip = inode_pos sb n" "i = n mod 16" and fok: "file_ok V N sb (file_at ip i V)"
    and pos: "unat (kf_pos f) \<le> unat (ino_size (file_at ip i V))"
    and lim: "unat (kf_pos f) + length buf \<le> 512 * MAX_BLOCKS" and ne: "buf \<noteq> []"
  shows "\<exists>r f' c' V'. store_body intf buf f c = (r, f', c') \<and> file_changes N sb ip i V V' \<and>
    (let sz = max (unat (ino_size (file_at ip i V))) (unat (kf_pos f) + length buf) in
     r = int (length buf) \<and> cache_rel img ready V' N H W c' \<and>
       f' = file_unlock (f\<lparr>kf_fileSize := of_nat sz, kf_pos := kf_pos f + of_nat (length buf)\<rparr>) \<and>
       unat (ino_size (file_at ip i V')) = sz \<and> written sb ip i V V' (unat (kf_pos f)) buf \<or>
     r = - ENOTSUP \<and> f' = f \<and> (\<forall>n<bits_of sb. data_bit V' sb n) \<and> lacks sb ip i V (unat (kf_pos f)) buf \<and>
       (\<exists>k ksb. cache_rel img ready V' N (add_mset (k, ip) (add_mset (ksb, 0) H)) (insert k W) c'))"
proof -
  have i16: "i < 16" by (simp add: ip)
  note g = fs_ok_geometry [OF ok]
  have m: "meta_pos N sb ip" using inode_meta_pos [OF g n(2)] ip by simp
  have p0: "in_disk N 0" using g by (simp add: geometry_def in_disk_def data_start_def)
  from get_steady [OF rel p0] room obtain ksb c1 where k0: "kget intf 0 c = (Inr ksb, c1)"
    and r1: "cache_rel img ready V N (add_mset (ksb, 0) H) W c1" by auto
  have b: "superblock_of (block_bytes ksb c1) = sb" using cache_rel_bytes [OF r1, of ksb 0] sb by simp
  have pi: "in_disk N ip" using m by (simp add: meta_pos_def)
  from get_steady [OF r1 pi] room obtain k c2 where k: "kget intf ip c1 = (Inr k, c2)"
    and r2: "cache_rel img ready V N (add_mset (k, ip) (add_mset (ksb, 0) H)) W c2" by auto
  let ?H = "add_mset (k, ip) (add_mset (ksb, 0) H)"
  have kH: "(k, ip) \<in># ?H" by simp
  have F2: "inode_in k i c2 = file_at ip i V" using cache_rel_bytes [OF r2 kH] by (simp add: inode_in_def file_at_def)
  have gap: "fill_gap intf sb k i (kf_pos f) c2 = (Inr (), c2)" using pos by (simp add: fill_gap_def F2)
  have "size ?H < 62" using room by simp
  from store_loop_steady [OF r2 this kH i16 m ok fok lim] obtain r V3 c3 where
    s: "store_loop intf sb k i (kf_pos f) buf c2 = (r, c3)"
      "cache_rel img ready V3 N ?H (insert k W) c3" "file_changes N sb ip i V V3"
      "ino_size (file_at ip i V3) = ino_size (file_at ip i V)"
      "case r of Inr q \<Rightarrow> unat q = unat (kf_pos f) + length buf \<and> written sb ip i V V3 (unat (kf_pos f)) buf
       | Inl e \<Rightarrow> e = - ENOTSUP \<and> (\<forall>n<bits_of sb. data_bit V3 sb n) \<and> lacks sb ip i V (unat (kf_pos f)) buf" by blast
  note ok3 = file_changes_ok [OF s(3)]
  show ?thesis
  proof (cases r)
    case (Inl e)
    then have "store_body intf buf f c = (- ENOTSUP, f, c3)"
      using ne k0 b k gap s(1,5) by (simp add: store_body_def Let_def n(1) [symmetric] ip [symmetric])
    with s(2,3,5) Inl show ?thesis by (auto simp: Let_def)
  next
    case (Inr q)
    then have q: "unat q = unat (kf_pos f) + length buf" "written sb ip i V V3 (unat (kf_pos f)) buf"
      using s(5) by simp_all
    define c4 where "c4 = (if unat q > unat (ino_size (inode_in k i c3))
        then inode_set k i ((inode_in k i c3)\<lparr>ino_size := ucast q\<rparr>) c3 else c3)"
    have q32: "unat q < 2 ^ 32" using q(1) lim by simp
    from store_finish [OF s(2) i16 subset_refl cache_rel_written [OF rel] m conjunct1 [OF ok3] conjunct2 [OF ok3] q32 c4_def]
    obtain V4 where V4: "cache_rel img ready V4 N H W (cache_release_block ksb False (cache_release_block k True c4))"
      "file_changes N sb ip i V3 V4"
      "unat (ino_size (file_at ip i V4)) = max (unat (ino_size (file_at ip i V3))) (unat q)"
      "inode_in k i c4 = file_at ip i V4"
      "\<forall>n. n div 512 < MAX_BLOCKS \<and> present sb ip i V3 n \<longrightarrow> byte_of sb ip i V4 n = byte_of sb ip i V3 n"
      "\<forall>n. present sb ip i V4 n = present sb ip i V3 n" by blast
    let ?sz = "max (unat (ino_size (file_at ip i V))) (unat (kf_pos f) + length buf)"
    have sz: "unat (ino_size (file_at ip i V4)) = ?sz" using V4(3) s(4) q(1) by simp
    then have szw: "ucast (ino_size (inode_in k i c4)) = (of_nat ?sz :: u64)"
      unfolding sz [symmetric] V4(4) by simp
    have qw: "q = kf_pos f + of_nat (length buf)"
      using q(1) lim by (simp add: word_unat_eq_iff unat_add_small)
    have wr: "written sb ip i V V4 (unat (kf_pos f)) buf"
      unfolding written_def
    proof (intro conjI allI impI, goal_cases)
      case (1 x)
      then show ?case using q(2) V4(6) by (simp add: written_def)
    next
      case (2 x)
      then have "present sb ip i V3 x" "byte_of sb ip i V3 x = buf ! (x - unat (kf_pos f))"
        using q(2) by (simp_all add: written_def)
      then show ?case using V4(5) by (simp add: present_def)
    next
      case (3 x)
      then have "present sb ip i V3 x" "byte_of sb ip i V3 x = byte_of sb ip i V x"
        using q(2) present_changes [OF s(3)] by (auto simp: written_def)
      then show ?case using V4(5) by (simp add: present_def)
    qed
    have "store_body intf buf f c =
        (int (length buf), file_unlock (f\<lparr>kf_fileSize := ucast (ino_size (inode_in k i c4)), kf_pos := q\<rparr>),
         cache_release_block ksb False (cache_release_block k True c4))"
      using ne k0 b k gap s(1) Inr
      by (simp add: store_body_def Let_def n(1) [symmetric] ip [symmetric] c4_def)
    then have "store_body intf buf f c =
        (int (length buf), file_unlock (f\<lparr>kf_fileSize := of_nat ?sz, kf_pos := kf_pos f + of_nat (length buf)\<rparr>),
         cache_release_block ksb False (cache_release_block k True c4))"
      unfolding szw qw [symmetric] .
    with V4(1) file_changes_trans [OF s(3) V4(2)] sz wr show ?thesis by (auto simp: Let_def)
  qed
qed

end

end
