(* ===== verification/KtfsEntries.thy ===== *)
theory KtfsEntries
  imports KtfsDir
begin

text \<open>
  Changing the directory of \<open>modified/sys/ktfs.c\<close>: adding and removing an entry, creating and
  deleting a file, and the listing.  The inode of the root directory is changed inside its
  pinned block \<open>kr\<close>, entry \<open>i\<close>; sizes are computed in 32 bits as the code does.  \<open>None\<close> is an
  index outside the arrays of the inode, or a name that runs off its object.
\<close>

section \<open>Adding an entry\<close>

text \<open>The entry and the new size, with the directory block \<open>kd\<close> pinned.\<close>

definition entry_store :: "nat \<Rightarrow> nat \<Rightarrow> nat \<Rightarrow> ktfs_dir_entry \<Rightarrow> u32 \<Rightarrow> 'd cache \<Rightarrow> 'd cache" where
  "entry_store kr i kd dentry size_after c =
     (let c1 = cache_write_buf kd
                 (put_dentry (unat ((size_after - 1) div of_nat KTFS_DENSZ) mod (KTFS_BLKSZ div KTFS_DENSZ)) dentry
                    (block_bytes kd c)) c
      in inode_set kr i ((inode_in kr i c1)\<lparr>ino_size := size_after\<rparr>) c1)"

text \<open>The last steps of the three cases; \<open>ks\<close> are the pinned pointer blocks, innermost first.\<close>

definition add_finish ::
    "'d storage_intf \<Rightarrow> ktfs_superblock \<Rightarrow> nat \<Rightarrow> nat \<Rightarrow> ktfs_dir_entry \<Rightarrow> u32 \<Rightarrow> nat list \<Rightarrow>
     (int + u32) \<times> 'd cache \<Rightarrow> 'd cache" where
  "add_finish sto sb kr i dentry size_after ks r =
     (case r of
        (Inl rc, c) \<Rightarrow> release_all False (ks @ [kr]) c
      | (Inr d, c) \<Rightarrow>
          (case kget sto (data_pos sb d) c of
             (Inl rc, c1) \<Rightarrow> release_all False (ks @ [kr]) c1
           | (Inr kd, c1) \<Rightarrow> release_all True (kd # ks @ [kr]) (entry_store kr i kd dentry size_after c1)))"

text \<open>An empty entry of the pinned pointer block \<open>k\<close> gets a block when \<open>may\<close> holds; the block is
  not cleared.\<close>

definition fill_pinned ::
    "'d storage_intf \<Rightarrow> ktfs_superblock \<Rightarrow> bool \<Rightarrow> nat \<Rightarrow> nat \<Rightarrow> 'd cache \<Rightarrow> (int + u32) \<times> 'd cache" where
  "fill_pinned sto sb may k j c =
     (if may \<and> ptr_at (block_bytes k c) j = 0
      then (case alloc_data_block sto sb c of
              (Inl rc, c1) \<Rightarrow> (Inl rc, c1)
            | (Inr d, c1) \<Rightarrow> (Inr d, cache_write_buf k (put_ptr j d (block_bytes k c1)) c1))
      else (Inr (ptr_at (block_bytes k c) j), c))"

text \<open>The same for a field of the inode, read by \<open>get\<close> and set by \<open>put\<close>.\<close>

definition fill_field ::
    "'d storage_intf \<Rightarrow> ktfs_superblock \<Rightarrow> bool \<Rightarrow> nat \<Rightarrow> nat \<Rightarrow> (ktfs_inode \<Rightarrow> u32) \<Rightarrow>
     (u32 \<Rightarrow> ktfs_inode \<Rightarrow> ktfs_inode) \<Rightarrow> 'd cache \<Rightarrow> (int + u32) \<times> 'd cache" where
  "fill_field sto sb may kr i get put c =
     (if may \<and> get (inode_in kr i c) = 0
      then (case alloc_data_block sto sb c of
              (Inl rc, c1) \<Rightarrow> (Inl rc, c1)
            | (Inr d, c1) \<Rightarrow> (Inr d, inode_set kr i (put d (inode_in kr i c1)) c1))
      else (Inr (get (inode_in kr i c)), c))"

definition put_block :: "nat \<Rightarrow> u32 \<Rightarrow> ktfs_inode \<Rightarrow> ktfs_inode" where
  "put_block b d ino = ino\<lparr>ino_block := (ino_block ino)[b := d]\<rparr>"

definition put_indirect :: "u32 \<Rightarrow> ktfs_inode \<Rightarrow> ktfs_inode" where
  "put_indirect d ino = ino\<lparr>ino_indirect := d\<rparr>"

definition put_dindirect :: "nat \<Rightarrow> u32 \<Rightarrow> ktfs_inode \<Rightarrow> ktfs_inode" where
  "put_dindirect b d ino = ino\<lparr>ino_dindirect := (ino_dindirect ino)[b := d]\<rparr>"

definition size_direct :: u32 where "size_direct = 2048"

definition size_indirect :: u32 where "size_indirect = 2048 + 512 * 128"

definition add_direct ::
    "'d storage_intf \<Rightarrow> ktfs_superblock \<Rightarrow> nat \<Rightarrow> nat \<Rightarrow> ktfs_dir_entry \<Rightarrow> u32 \<Rightarrow> 'd cache \<Rightarrow> 'd cache option" where
  "add_direct sto sb kr i dentry size_before c =
     (let size_after = size_before + of_nat KTFS_DENSZ;
          b = unat ((size_after - 1) div of_nat KTFS_BLKSZ)
      in if b \<ge> KTFS_NUM_DIRECT_DATA_BLOCKS then None
         else Some (add_finish sto sb kr i dentry size_after []
                (fill_field sto sb (size_before mod of_nat KTFS_BLKSZ = 0) kr i (\<lambda>ino. ino_block ino ! b) (put_block b) c)))"

definition add_indirect ::
    "'d storage_intf \<Rightarrow> ktfs_superblock \<Rightarrow> nat \<Rightarrow> nat \<Rightarrow> ktfs_dir_entry \<Rightarrow> u32 \<Rightarrow> 'd cache \<Rightarrow> 'd cache" where
  "add_indirect sto sb kr i dentry size_before c =
     (let size_after = size_before + of_nat KTFS_DENSZ;
          b = unat ((size_after - size_direct - 1) div of_nat KTFS_BLKSZ)
      in case fill_field sto sb True kr i ino_indirect put_indirect c of
           (Inl rc, c1) \<Rightarrow> cache_release_block kr False c1
         | (Inr ib, c1) \<Rightarrow>
             (case kget sto (data_pos sb ib) c1 of
                (Inl rc, c2) \<Rightarrow> cache_release_block kr False c2
              | (Inr k1, c2) \<Rightarrow>
                  add_finish sto sb kr i dentry size_after [k1]
                    (fill_pinned sto sb (size_before mod of_nat KTFS_BLKSZ = 0) k1 b c2)))"

definition add_dindirect ::
    "'d storage_intf \<Rightarrow> ktfs_superblock \<Rightarrow> nat \<Rightarrow> nat \<Rightarrow> ktfs_dir_entry \<Rightarrow> u32 \<Rightarrow> 'd cache \<Rightarrow> 'd cache option" where
  "add_dindirect sto sb kr i dentry size_before c =
     (let size_after = size_before + of_nat KTFS_DENSZ;
          offset = size_after - size_indirect;
          big_chunk = of_nat (KTFS_BLKSZ * PTRS_PER_BLOCK * PTRS_PER_BLOCK) :: u32;
          mid_chunk = of_nat (KTFS_BLKSZ * PTRS_PER_BLOCK) :: u32;
          d = (offset - 1) div big_chunk;
          rem1 = offset - d * big_chunk;
          j = (rem1 - 1) div mid_chunk;
          rem2 = rem1 - j * mid_chunk;
          b = (rem2 - 1) div of_nat KTFS_BLKSZ
      in if unat d \<ge> KTFS_NUM_DINDIRECT_BLOCKS then None
         else Some
          (case fill_field sto sb True kr i (\<lambda>ino. ino_dindirect ino ! unat d) (put_dindirect (unat d)) c of
             (Inl rc, c1) \<Rightarrow> cache_release_block kr False c1
           | (Inr dib, c1) \<Rightarrow>
               (case kget sto (data_pos sb dib) c1 of
                  (Inl rc, c2) \<Rightarrow> cache_release_block kr False c2
                | (Inr k2, c2) \<Rightarrow>
                    (case fill_pinned sto sb True k2 (unat j) c2 of
                       (Inl rc, c3) \<Rightarrow> release_all False [k2, kr] c3
                     | (Inr ib, c3) \<Rightarrow>
                         (case kget sto (data_pos sb ib) c3 of
                            (Inl rc, c4) \<Rightarrow> release_all False [k2, kr] c4
                          | (Inr k1, c4) \<Rightarrow>
                              add_finish sto sb kr i dentry size_after [k1, k2]
                                (fill_pinned sto sb (size_before mod of_nat KTFS_BLKSZ = 0) k1 (unat b) c4))))))"

definition add_dentry ::
    "'d storage_intf \<Rightarrow> bytes \<Rightarrow> ktfs_superblock \<Rightarrow> u16 \<Rightarrow> 'd cache \<Rightarrow> 'd cache option" where
  "add_dentry sto name sb inodeNum c =
     (let n = unat (sb_root_directory_inode sb); i = n mod (KTFS_BLKSZ div KTFS_INOSZ)
      in case kget sto (inode_pos sb n) c of
           (Inl rc, c1) \<Rightarrow> Some c1
         | (Inr kr, c1) \<Rightarrow>
             (case strncpy (replicate 14 0) name 14 of
                None \<Rightarrow> None
              | Some nm \<Rightarrow>
                  let dentry = \<lparr>de_inode = inodeNum, de_name = nm\<rparr>;
                      size_before = ino_size (inode_in kr i c1);
                      size_after = size_before + of_nat KTFS_DENSZ
                  in if size_after \<le> size_direct then add_direct sto sb kr i dentry size_before c1
                     else if size_after \<le> size_indirect then Some (add_indirect sto sb kr i dentry size_before c1)
                     else add_dindirect sto sb kr i dentry size_before c1))"

section \<open>Removing an entry\<close>

text \<open>The last entry, \<open>j\<close> of the block \<open>d\<close>, moves to entry \<open>e\<close> of the pinned block \<open>kd\<close>.  A failed
  read leaves everything pinned.\<close>

definition delete_finish ::
    "'d storage_intf \<Rightarrow> ktfs_superblock \<Rightarrow> nat \<Rightarrow> nat \<Rightarrow> nat \<Rightarrow> nat \<Rightarrow> u32 \<Rightarrow> nat \<Rightarrow> nat list \<Rightarrow> 'd cache \<Rightarrow> 'd cache" where
  "delete_finish sto sb kr i kd e d j ks c =
     (case kget sto (data_pos sb d) c of
        (Inl rc, c1) \<Rightarrow> c1
      | (Inr kt, c1) \<Rightarrow>
          let c2 = cache_write_buf kd (put_dentry e (dentry_at (block_bytes kt c1) j) (block_bytes kd c1)) c1;
              ino = inode_in kr i c2;
              c3 = inode_set kr i (ino\<lparr>ino_size := ino_size ino - of_nat KTFS_DENSZ\<rparr>) c2
          in cache_release_block kr True (release_all False (ks @ [kt]) c3))"

abbreviation (input) entry_index :: "u32 \<Rightarrow> nat" where
  "entry_index sz \<equiv> unat ((sz - 1) div of_nat KTFS_DENSZ) mod (KTFS_BLKSZ div KTFS_DENSZ)"

definition delete_dentry ::
    "'d storage_intf \<Rightarrow> ktfs_superblock \<Rightarrow> nat \<Rightarrow> nat \<Rightarrow> 'd cache \<Rightarrow> 'd cache option" where
  "delete_dentry sto sb kd e c =
     (let n = unat (sb_root_directory_inode sb); i = n mod (KTFS_BLKSZ div KTFS_INOSZ)
      in case kget sto (inode_pos sb n) c of
           (Inl rc, c1) \<Rightarrow> Some c1
         | (Inr kr, c1) \<Rightarrow>
             let sz = ino_size (inode_in kr i c1)
             in if sz \<le> size_direct
                then let b = unat ((sz - 1) div of_nat KTFS_BLKSZ)
                     in if b \<ge> KTFS_NUM_DIRECT_DATA_BLOCKS then None
                        else Some (delete_finish sto sb kr i kd e (ino_block (inode_in kr i c1) ! b) (entry_index sz) [] c1)
                else if sz \<le> size_indirect
                then let sz1 = sz - size_direct
                     in Some (case kget sto (data_pos sb (ino_indirect (inode_in kr i c1))) c1 of
                          (Inl rc, c2) \<Rightarrow> c2
                        | (Inr k1, c2) \<Rightarrow>
                            delete_finish sto sb kr i kd e
                              (ptr_at (block_bytes k1 c2) (unat ((sz1 - 1) div of_nat KTFS_BLKSZ))) (entry_index sz1) [k1] c2)
                else let sz1 = sz - size_indirect;
                         d = (sz1 - 1) div of_nat (KTFS_BLKSZ * PTRS_PER_BLOCK * PTRS_PER_BLOCK);
                         sz2 = sz1 - d * of_nat (KTFS_BLKSZ * PTRS_PER_BLOCK * PTRS_PER_BLOCK);
                         j = (sz2 - 1) div of_nat (KTFS_BLKSZ * PTRS_PER_BLOCK);
                         sz3 = sz2 - j * of_nat (KTFS_BLKSZ * PTRS_PER_BLOCK)
                     in if unat d \<ge> KTFS_NUM_DINDIRECT_BLOCKS then None
                        else Some (case kget sto (data_pos sb (ino_dindirect (inode_in kr i c1) ! unat d)) c1 of
                          (Inl rc, c2) \<Rightarrow> c2
                        | (Inr k2, c2) \<Rightarrow>
                            (case kget sto (data_pos sb (ptr_at (block_bytes k2 c2) (unat j))) c2 of
                               (Inl rc, c3) \<Rightarrow> c3
                             | (Inr k1, c3) \<Rightarrow>
                                 delete_finish sto sb kr i kd e
                                   (ptr_at (block_bytes k1 c3) (unat ((sz3 - 1) div of_nat KTFS_BLKSZ)))
                                   (entry_index sz3) [k2, k1] c3)))"

section \<open>Creating and deleting a file\<close>

text \<open>From the free inode on.  Nothing tells \<open>ktfs_create\<close> that \<open>add_dentry\<close> gave up.\<close>

definition create_found ::
    "'d storage_intf \<Rightarrow> bytes \<Rightarrow> nat \<Rightarrow> ktfs_superblock \<Rightarrow> 'd cache \<Rightarrow> (int \<times> 'd cache) option" where
  "create_found sto name ksb sb c =
     (case find_free_inode sto sb c of
        (n, c1) \<Rightarrow>
          if n < 0 then Some (n, cache_release_block ksb False c1)
          else (case add_dentry sto name sb (word_of_int n) (set_inode_status sto (word_of_int n) True c1) of
                  None \<Rightarrow> None
                | Some c2 \<Rightarrow>
                    (case kget sto (inode_pos sb (nat n)) c2 of
                       (Inl rc, c3) \<Rightarrow> Some (rc, cache_release_block ksb False c3)
                     | (Inr ki, c3) \<Rightarrow>
                         let c4 = inode_set ki (nat n mod (KTFS_BLKSZ div KTFS_INOSZ))
                               \<lparr>ino_size = 0, ino_block = [0, 0, 0, 0], ino_indirect = 0, ino_dindirect = [0, 0]\<rparr> c3
                         in Some (0, snd (cache_flush sto
                              (cache_release_block ksb False (cache_release_block ki True c4)))))))"

definition ktfs_create ::
    "'d storage_intf \<Rightarrow> bool \<Rightarrow> bytes option \<Rightarrow> 'd ktfs \<Rightarrow> (int \<times> 'd ktfs) option" where
  "ktfs_create sto fs_null name fs =
     (if fs_null \<or> name = None then Some (- ENOTSUP, fs)
      else case strlen name of
        None \<Rightarrow> None
      | Some l \<Rightarrow>
          if l > 13 then Some (- ENOTSUP, fs)
          else case kget sto 0 (ks_cache fs) of
            (Inl rc, c1) \<Rightarrow> Some (- ENOTSUP, fs\<lparr>ks_cache := c1\<rparr>)
          | (Inr ksb, c1) \<Rightarrow>
              let sb = superblock_of (block_bytes ksb c1)
              in case get_inode sto sb (sb_root_directory_inode sb) c1 of
                   (Inl rc, c2) \<Rightarrow> Some (rc, fs\<lparr>ks_cache := cache_release_block ksb False c2\<rparr>)
                 | (Inr root, c2) \<Rightarrow>
                     (case lookup_create sto sb root (the name) (unat (ino_size root) div KTFS_DENSZ) c2 of
                        None \<Rightarrow> None
                      | Some (Sfail rc, c3) \<Rightarrow> Some (rc, fs\<lparr>ks_cache := c3\<rparr>)
                      | Some (Shit ks kd e, c3) \<Rightarrow>
                          Some (- ENOTSUP, fs\<lparr>ks_cache := release_all False (rev ks @ [kd, ksb]) c3\<rparr>)
                      | Some (Smiss n, c3) \<Rightarrow>
                          map_option (\<lambda>(rc, c4). (rc, fs\<lparr>ks_cache := c4\<rparr>)) (create_found sto (the name) ksb sb c3)))"

definition delete_found ::
    "'d storage_intf \<Rightarrow> nat \<Rightarrow> ktfs_superblock \<Rightarrow> nat list \<Rightarrow> nat \<Rightarrow> nat \<Rightarrow> 'd cache \<Rightarrow> (int \<times> 'd cache) option" where
  "delete_found sto ksb sb ks kd e c =
     (let n = de_inode (dentry_at (block_bytes kd c) e) in
      case delete_dentry sto sb kd e c of
        None \<Rightarrow> None
      | Some c1 \<Rightarrow>
          (case get_inode sto sb n (set_inode_status sto (ucast n) False c1) of
             (Inl rc, c2) \<Rightarrow> Some (- ENOTSUP, c2)
           | (Inr ino, c2) \<Rightarrow>
               Some (0, snd (cache_flush sto
                 (release_all False (ks @ [ksb])
                   (cache_release_block kd True (free_data_blocks sto sb (ino_size ino) ino c2)))))))"

definition ktfs_delete ::
    "'d storage_intf \<Rightarrow> bool \<Rightarrow> bytes option \<Rightarrow> 'd ktfs \<Rightarrow> (int \<times> 'd ktfs) option" where
  "ktfs_delete sto fs_null name fs =
     (if fs_null then Some (- ENOTSUP, fs)
      else case name of
        None \<Rightarrow> Some (- ENOTSUP, fs)
      | Some nm \<Rightarrow>
          (case kget sto 0 (ks_cache fs) of
             (Inl rc, c1) \<Rightarrow> Some (- ENOTSUP, fs\<lparr>ks_cache := c1\<rparr>)
           | (Inr ksb, c1) \<Rightarrow>
               let sb = superblock_of (block_bytes ksb c1)
               in case get_inode sto sb (sb_root_directory_inode sb) c1 of
                    (Inl rc, c2) \<Rightarrow> Some (rc, fs\<lparr>ks_cache := cache_release_block ksb False c2\<rparr>)
                  | (Inr root, c2) \<Rightarrow>
                      (case lookup sto sb root nm (unat (ino_size root) div KTFS_DENSZ) c2 of
                         None \<Rightarrow> None
                       | Some (Sfail rc, c3) \<Rightarrow> Some (rc, fs\<lparr>ks_cache := c3\<rparr>)
                       | Some (Smiss n, c3) \<Rightarrow> Some (- ENOENT, fs\<lparr>ks_cache := cache_release_block ksb False c3\<rparr>)
                       | Some (Shit ks kd e, c3) \<Rightarrow>
                           map_option (\<lambda>(rc, c4). (rc, fs\<lparr>ks_cache := c4\<rparr>)) (delete_found sto ksb sb ks kd e c3))))"

section \<open>The listing\<close>

definition read_ptr :: "'d storage_intf \<Rightarrow> ktfs_superblock \<Rightarrow> u32 \<Rightarrow> nat \<Rightarrow> 'd cache \<Rightarrow> (int + u32) \<times> 'd cache" where
  "read_ptr sto sb p j c =
     (case kget sto (data_pos sb p) c of
        (Inl rc, c1) \<Rightarrow> (Inl rc, c1)
      | (Inr k, c1) \<Rightarrow> (Inr (ptr_at (block_bytes k c1) j), cache_release_block k False c1))"

definition read_dentry ::
    "'d storage_intf \<Rightarrow> ktfs_superblock \<Rightarrow> u32 \<Rightarrow> nat \<Rightarrow> 'd cache \<Rightarrow> (int + ktfs_dir_entry) \<times> 'd cache" where
  "read_dentry sto sb p e c =
     (case kget sto (data_pos sb p) c of
        (Inl rc, c1) \<Rightarrow> (Inl rc, c1)
      | (Inr k, c1) \<Rightarrow> (Inr (dentry_at (block_bytes k c1) e), cache_release_block k False c1))"

fun dentry_dindirect ::
    "'d storage_intf \<Rightarrow> ktfs_superblock \<Rightarrow> u32 list \<Rightarrow> u32 \<Rightarrow> 'd cache \<Rightarrow> (int + ktfs_dir_entry) \<times> 'd cache" where
  "dentry_dindirect sto sb [] index c = (Inl (- ENOENT), c)"
| "dentry_dindirect sto sb (p # ps) index c =
     (if index \<ge> 524288 then dentry_dindirect sto sb ps (index - 524288) c
      else if p = 0 then (Inl (- ENOTSUP), c)
      else case read_ptr sto sb p (unat (index div 4096)) c of
        (Inl rc, c1) \<Rightarrow> (Inl rc, c1)
      | (Inr p2, c1) \<Rightarrow>
          (case read_ptr sto sb p2 (unat (index mod 4096 div 32)) c1 of
             (Inl rc, c2) \<Rightarrow> (Inl rc, c2)
           | (Inr p3, c2) \<Rightarrow> read_dentry sto sb p3 (unat (index mod 4096 mod 32)) c2))"

text \<open>Without an indirect block the second subtraction wraps and the last part finds nothing.\<close>

definition get_dentry_at_index ::
    "'d storage_intf \<Rightarrow> ktfs_superblock \<Rightarrow> ktfs_inode \<Rightarrow> u32 \<Rightarrow> 'd cache \<Rightarrow> (int + ktfs_dir_entry) \<times> 'd cache" where
  "get_dentry_at_index sto sb root index c =
     (if index < 128
      then read_dentry sto sb (ino_block root ! unat (index div 32)) (unat (index mod 32)) c
      else let index1 = index - 128 in
        if index1 < 4096 \<and> ino_indirect root \<noteq> 0
        then (case read_ptr sto sb (ino_indirect root) (unat (index1 div 32)) c of
                (Inl rc, c1) \<Rightarrow> (Inl rc, c1)
              | (Inr p, c1) \<Rightarrow> read_dentry sto sb p (unat (index1 mod 32)) c1)
        else dentry_dindirect sto sb (ino_dindirect root) (index1 - 4096) c)"

definition ktfs_listing_close :: "nat option \<Rightarrow> 'd ktfs \<Rightarrow> 'd ktfs" where
  "ktfs_listing_close uio fs =
     (case uio of None \<Rightarrow> fs | Some u \<Rightarrow> fs\<lparr>ks_listings := filter (\<lambda>(v, ix). v \<noteq> u) (ks_listings fs)\<rparr>)"

definition next_name ::
    "'d storage_intf \<Rightarrow> u64 \<Rightarrow> u32 \<Rightarrow> 'd cache \<Rightarrow> (((int \<times> bytes) \<times> u32) \<times> 'd cache) option" where
  "next_name sto bufsz index c =
     (case kget sto 0 c of
        (Inl rc, c1) \<Rightarrow> Some (((rc, []), index), c1)
      | (Inr ksb, c1) \<Rightarrow>
          let sb = superblock_of (block_bytes ksb c1)
          in case get_inode sto sb (sb_root_directory_inode sb) c1 of
               (Inl rc, c2) \<Rightarrow> Some (((rc, []), index), c2)
             | (Inr root, c2) \<Rightarrow>
                 if index \<ge> ino_size root div of_nat KTFS_DENSZ
                 then Some (((0, []), index), cache_release_block ksb False c2)
                 else (case get_dentry_at_index sto sb root index c2 of
                         (Inl rc, c3) \<Rightarrow> Some (((rc, []), index), cache_release_block ksb False c3)
                       | (Inr dentry, c3) \<Rightarrow>
                           (case strlen (Some (de_name dentry)) of
                              None \<Rightarrow> None
                            | Some l \<Rightarrow>
                                if l + 1 > unat bufsz
                                then Some (((- ENOTSUP, []), index), cache_release_block ksb False c3)
                                else map_option (\<lambda>out. (((int l + 1, out), index + 1), cache_release_block ksb False c3))
                                       (strncpy (replicate (unat bufsz) 0) (de_name dentry) (unat bufsz)))))"

definition ktfs_listing_read ::
    "'d storage_intf \<Rightarrow> nat option \<Rightarrow> bool \<Rightarrow> u64 \<Rightarrow> 'd ktfs \<Rightarrow> ((int \<times> bytes) \<times> 'd ktfs) option" where
  "ktfs_listing_read sto uio buf_null bufsz fs =
     (case uio of
        None \<Rightarrow> Some ((- ENOTSUP, []), fs)
      | Some u \<Rightarrow>
          if buf_null then Some ((- ENOTSUP, []), fs)
          else if bufsz = 0 then Some ((0, []), fs)
          else (case map_of (ks_listings fs) u of
                  None \<Rightarrow> None
                | Some index \<Rightarrow>
                    map_option (\<lambda>((r, index1), c).
                        (r, fs\<lparr>ks_cache := c,
                               ks_listings := map (\<lambda>(v, ix). if v = u then (v, index1) else (v, ix)) (ks_listings fs)\<rparr>))
                      (next_name sto bufsz index (ks_cache fs))))"

end
