(* ===== verification/KtfsDemo.thy ===== *)
theory KtfsDemo
  imports KtfsNames KtfsWrite KtfsEntries
begin

text \<open>
  A file system of eight blocks behind the block driver, the concrete input of the witnesses: a
  superblock, the two bitmaps, one inode block and four data blocks; the root directory holds
  one file with the name \<open>a\<close> and the content \<open>hello\<close>.
\<close>

section \<open>States of the file system\<close>

definition disk_inode :: "disk_view \<Rightarrow> ktfs_superblock \<Rightarrow> nat \<Rightarrow> ktfs_inode" where
  "disk_inode V sb n = inode_at (V (inode_pos sb n)) (n mod 16)"

text \<open>A mounted file system that nobody is working on: no block is pinned, and the clients of the
  cache see the disk \<open>V\<close>.\<close>

definition mounted :: "('d \<Rightarrow> bytes) \<Rightarrow> ('d \<Rightarrow> bool) \<Rightarrow> disk_view \<Rightarrow> nat \<Rightarrow> ktfs_superblock \<Rightarrow> 'd ktfs \<Rightarrow> bool" where
  "mounted img ready V N sb fs \<longleftrightarrow>
     cache_rel img ready V N {#} {} (ks_cache fs) \<and> sb = superblock_of (V 0) \<and> fs_ok V N sb"

text \<open>A sound file: its inode lies in the inode blocks, its block map is sound and complete up to
  its size.\<close>

definition sound_file :: "disk_view \<Rightarrow> nat \<Rightarrow> ktfs_superblock \<Rightarrow> nat \<Rightarrow> bool" where
  "sound_file V N sb n \<longleftrightarrow>
     n div 16 < unat (sb_inode_block_count sb) \<and> file_ok V N sb (disk_inode V sb n) \<and>
     dense V sb (disk_inode V sb n) (unat (ino_size (disk_inode V sb n)))"

text \<open>An open file that no thread is using, in step with its inode.\<close>

definition idle_file :: "disk_view \<Rightarrow> nat \<Rightarrow> ktfs_superblock \<Rightarrow> nat \<Rightarrow> ktfs_file \<Rightarrow> 'd ktfs \<Rightarrow> bool" where
  "idle_file V N sb u f fs \<longleftrightarrow>
     find (\<lambda>f. kf_id f = u) (ks_open fs) = Some f \<and> kf_owner f = None \<and> kf_cnt f = 0 \<and>
     sound_file V N sb (unat (de_inode (kf_dentry f))) \<and>
     kf_fileSize f = ucast (ino_size (disk_inode V sb (unat (de_inode (kf_dentry f)))))"

section \<open>The disk\<close>

definition zeros :: "nat \<Rightarrow> bytes" where "zeros n = replicate n 0"

definition ones :: bytes where "ones = replicate 512 255"

lemma length_zeros [simp]: "length (zeros n) = n" "length ones = 512"
  by (simp_all add: zeros_def ones_def)

definition demo_root :: ktfs_inode where
  "demo_root = \<lparr>ino_size = 16, ino_block = [1, 0, 0, 0], ino_indirect = 0, ino_dindirect = [0, 0]\<rparr>"

definition demo_file :: ktfs_inode where
  "demo_file = \<lparr>ino_size = 5, ino_block = [2, 0, 0, 0], ino_indirect = 0, ino_dindirect = [0, 0]\<rparr>"

definition demo_name :: bytes where "demo_name = [97, 0, 0, 0, 0, 0, 0, 0, 0, 0, 0, 0, 0, 0]"

definition demo_blocks :: "bytes list" where
  "demo_blocks =
     [[8, 0, 0, 0, 1, 0, 0, 0, 1, 0, 0, 0, 1, 0, 0, 0, 0, 0] @ zeros 494,
      put_bit 0 True (put_bit 1 True (zeros 512)),
      put_bit 3 False ones,
      put_inode 0 demo_root (put_inode 1 demo_file (zeros 512)),
      zeros 512,
      put_dentry 0 \<lparr>de_inode = 1, de_name = demo_name\<rparr> (zeros 512),
      [104, 101, 108, 108, 111] @ zeros 507,
      zeros 512]"

definition demo_disk :: "bytes vioblk" where
  "demo_disk = \<lparr>vb_opened = True, vb_blksz = 512, vb_capacity = 4096, vb_data = zeros 1024, vb_hw = concat demo_blocks\<rparr>"

definition demo_view :: disk_view where
  "demo_view p = (if unat p div 512 < 8 then demo_blocks ! (unat p div 512) else [])"

definition demo_sb :: ktfs_superblock where
  "demo_sb = \<lparr>sb_block_count = 8, sb_inode_bitmap_block_count = 1, sb_bitmap_block_count = 1,
     sb_inode_block_count = 1, sb_root_directory_inode = 0\<rparr>"

abbreviation (input) demo_img :: "bytes vioblk \<Rightarrow> bytes" where "demo_img \<equiv> id \<circ> vb_hw"

abbreviation (input) demo_ready :: "bytes vioblk \<Rightarrow> bool" where "demo_ready \<equiv> vioblk_ready id 512"

abbreviation (input) demo_intf :: "bytes vioblk storage_intf" where "demo_intf \<equiv> vioblk_intf image_in image_out 512"

lemma take_drop_concat:
  "\<forall>x\<in>set xs. length x = n \<Longrightarrow> i < length xs \<Longrightarrow> take n (drop (n * i) (concat xs)) = xs ! i"
proof (induction xs arbitrary: i)
  case (Cons x xs)
  then show ?case by (cases i) simp_all
qed simp

lemma demo_lengths: "\<forall>x\<in>set demo_blocks. length x = 512" "length demo_blocks = 8"
  by (simp_all add: demo_blocks_def demo_root_def demo_file_def inode_wf_def demo_name_def)

lemma length_concat_const: "\<forall>x\<in>set xs. length x = n \<Longrightarrow> length (concat xs) = n * length xs"
  by (induction xs) simp_all

lemma demo_disk_ready: "demo_ready demo_disk"
  by (simp add: vioblk_ready_def demo_disk_def length_concat_const [OF demo_lengths(1)] demo_lengths(2))

lemma demo_length: "length (demo_img demo_disk) = 4096"
  by (simp add: demo_disk_def length_concat_const [OF demo_lengths(1)] demo_lengths(2))

lemma demo_block_view: "in_disk 4096 p \<Longrightarrow> disk_block demo_img demo_disk p = demo_view p"
proof -
  assume p: "in_disk 4096 p"
  then have "unat p div 512 < 8" by (auto simp: in_disk_def)
  moreover have "unat p = 512 * (unat p div 512)" using p by (auto simp: in_disk_def)
  moreover have "take 512 (drop (512 * i) (concat demo_blocks)) = demo_blocks ! i" if "i < 8" for i
    using take_drop_concat [OF demo_lengths(1)] that by (simp add: demo_lengths(2))
  ultimately have "take 512 (drop (unat p) (concat demo_blocks)) = demo_blocks ! (unat p div 512)" by metis
  with \<open>unat p div 512 < 8\<close> show ?thesis by (simp add: disk_block_def demo_disk_def demo_view_def)
qed

lemma fresh_cache_rel:
  assumes "ready d" and "length (img d) = N" and "\<And>p. in_disk N p \<Longrightarrow> disk_block img d p = V p"
  shows "cache_rel img ready V N {#} {} (create_cache d)"
  using assms create_cache_inv [where ready = ready and d = d and img = img]
  by (auto simp: cache_rel_def create_cache_def view_uncached)

lemma demo_cache_rel: "cache_rel demo_img demo_ready demo_view 4096 {#} {} (create_cache demo_disk)"
  using demo_disk_ready demo_length demo_block_view by (intro fresh_cache_rel)

lemma demo_superblock: "superblock_of (demo_view 0) = demo_sb"
  by (simp add: demo_view_def demo_blocks_def superblock_of_def get_u32_def get_u16_def demo_sb_def)

lemma demo_geometry: "geometry 4096 demo_sb" "data_start demo_sb = 4" "bits_of demo_sb = 4096"
  by (simp_all add: geometry_def data_start_def demo_sb_def bits_of_def)

lemma ones_bit: "n < 4096 \<Longrightarrow> bit_at ones n"
proof -
  assume "n < 4096"
  then have "n div 8 < 512" by (simp add: less_mult_imp_div_less)
  then have "ones ! (n div 8) = 255" by (simp add: ones_def)
  moreover have "n mod 8 < 8" by simp
  moreover have "(255 :: u8) = - 1" by simp
  ultimately have "bit (ones ! (n div 8)) (n mod 8)" by (simp only: bit_minus_1_iff) simp
  then show ?thesis by (simp add: bit_at_bit)
qed

lemma demo_bit: "n < 4096 \<Longrightarrow> data_bit demo_view demo_sb n \<longleftrightarrow> n \<noteq> 3"
proof -
  assume n: "n < 4096"
  then have d: "n div 4096 = 0" "n mod 4096 = n" by simp_all
  have "unat (bitmap_pos demo_sb 0) = 1024" by (simp add: bitmap_pos_def demo_sb_def)
  then have "demo_view (bitmap_pos demo_sb 0) = put_bit 3 False ones" by (simp add: demo_view_def demo_blocks_def)
  then show ?thesis using ones_bit [OF n] n
    by (simp add: data_bit_def d bit_at_put less_mult_imp_div_less)
qed

lemma demo_fs_ok: "fs_ok demo_view 4096 demo_sb"
  unfolding fs_ok_def
proof (intro conjI allI impI)
  fix p assume p: "in_disk 4096 p"
  then have "unat p div 512 < 8" by (auto simp: in_disk_def)
  then show "length (demo_view p) = 512" using demo_lengths by (simp add: demo_view_def)
next
  fix n assume "n < bits_of demo_sb" "\<not> data_bit demo_view demo_sb n"
  then have "n = 3" using demo_bit by (simp add: demo_geometry)
  then show "512 * (data_start demo_sb + n) + 512 \<le> 4096" by (simp add: demo_geometry)
qed (simp_all add: demo_geometry demo_bit)

text \<open>An inode with only direct blocks.\<close>

lemma direct_slots:
  assumes "inode_wf ino" and "ino_indirect ino = 0" and "ino_dindirect ino = [0, 0]" and "is_slot s"
  shows "slot_ptr V sb ino s = (case s of Data i \<Rightarrow> if i < 4 then ino_block ino ! i else 0 | _ \<Rightarrow> 0)"
proof -
  have s: "slot_ptr V sb ino Single = 0" using assms(2) by (simp add: slot_ptr_root)
  have d: "slot_ptr V sb ino (Double e) = 0" if "e < 2" for e
    using assms(3) that by (auto simp: slot_ptr_root less_Suc_eq numeral_2_eq_2)
  have m: "slot_ptr V sb ino (Second m) = 0" if "m < 256" for m
    using d [of "m div 128"] that by (simp add: slot_ptr_up less_mult_imp_div_less)
  show ?thesis
  proof (cases s)
    case (Data i)
    then have "i < 4 \<or> 4 \<le> i \<and> i < 132 \<or> 132 \<le> i \<and> (i - 132) div 128 < 256"
      using assms(4) by (auto simp: less_mult_imp_div_less)
    then show ?thesis using Data s m [of "(i - 132) div 128"]
      by (auto simp: slot_ptr_root slot_ptr_up)
  qed (use s d m assms(4) in simp_all)
qed

lemma demo_inode: "demo_view (inode_pos demo_sb n) = put_inode 0 demo_root (put_inode 1 demo_file (zeros 512))"
  if "n < 16" for n
proof -
  have "unat (inode_pos demo_sb n) = 1536" using that by (simp add: inode_pos_def demo_sb_def)
  then show ?thesis by (simp add: demo_view_def demo_blocks_def)
qed

lemma demo_wf: "inode_wf demo_root" "inode_wf demo_file"
  by (simp_all add: inode_wf_def demo_root_def demo_file_def)

lemma demo_inodes: "disk_inode demo_view demo_sb 0 = demo_root" "disk_inode demo_view demo_sb 1 = demo_file"
    "disk_inode demo_view demo_sb (Suc 0) = demo_file"
  using demo_wf by (simp_all add: disk_inode_def demo_inode inode_at_put)

lemma demo_slots:
  assumes "is_slot s"
  shows "slot_ptr demo_view demo_sb demo_root s = (if s = Data 0 then 1 else 0)"
    "slot_ptr demo_view demo_sb demo_file s = (if s = Data 0 then 2 else 0)"
  using direct_slots [OF demo_wf(1) _ _ assms] direct_slots [OF demo_wf(2) _ _ assms]
  by (auto simp: demo_root_def demo_file_def less_Suc_eq numeral_eq_Suc split: slot.splits)

lemma demo_fields: "sb_inode_block_count demo_sb = 1" "ino_size demo_root = 16" "ino_size demo_file = 5"
  by (simp_all add: demo_sb_def demo_root_def demo_file_def)

lemma demo_files: "sound_file demo_view 4096 demo_sb 0" "sound_file demo_view 4096 demo_sb 1"
proof -
  have v: "valid_idx 4096 demo_sb 1" "valid_idx 4096 demo_sb 2" by (simp_all add: valid_idx_def demo_geometry)
  have "file_ok demo_view 4096 demo_sb demo_root" "file_ok demo_view 4096 demo_sb demo_file"
    using v demo_wf demo_slots demo_bit by (auto simp: file_ok_def demo_geometry split: if_splits)
  moreover have "dense demo_view demo_sb demo_root 16" "dense demo_view demo_sb demo_file 5"
    using demo_slots by (auto simp: dense_def)
  ultimately show "sound_file demo_view 4096 demo_sb 0" "sound_file demo_view 4096 demo_sb 1"
    by (simp_all add: sound_file_def demo_inodes demo_fields)
qed

definition demo_fs :: "bytes vioblk ktfs" where
  "demo_fs = \<lparr>ks_cache = create_cache demo_disk,
     ks_open = [\<lparr>kf_id = 7, kf_fileSize = 5, kf_dentry = \<lparr>de_inode = 1, de_name = demo_name\<rparr>, kf_pos = 0,
                 kf_owner = None, kf_cnt = 0\<rparr>],
     ks_listings = [(9, 0)], ks_next = 10\<rparr>"

abbreviation (input) demo_open :: ktfs_file where "demo_open \<equiv> hd (ks_open demo_fs)"

lemma demo_mounted: "mounted demo_img demo_ready demo_view 4096 demo_sb demo_fs"
  unfolding mounted_def demo_fs_def ktfs.simps
  using demo_cache_rel demo_superblock demo_fs_ok by simp

lemma demo_idle: "idle_file demo_view 4096 demo_sb 7 demo_open demo_fs"
  using demo_files by (simp add: idle_file_def demo_fs_def demo_inodes demo_fields)

lemma demo_entry: "entry demo_view demo_sb demo_root 0 = \<lparr>de_inode = 1, de_name = demo_name\<rparr>"
proof -
  have "unat (data_pos demo_sb 1) = 2560" by (simp add: data_pos_def demo_sb_def)
  then have "demo_view (data_pos demo_sb 1) = put_dentry 0 \<lparr>de_inode = 1, de_name = demo_name\<rparr> (zeros 512)"
    by (simp add: demo_view_def demo_blocks_def)
  then show ?thesis by (simp add: entry_def entry_pos_def demo_slots dentry_at_put demo_name_def)
qed

lemma demo_content: "file_bytes demo_view demo_sb demo_file 0 5 = [104, 101, 108, 108, 111]"
proof -
  have "unat (data_pos demo_sb 2) = 3072" by (simp add: data_pos_def demo_sb_def)
  then have "demo_view (data_pos demo_sb 2) = [104, 101, 108, 108, 111] @ zeros 507"
    by (simp add: demo_view_def demo_blocks_def)
  then show ?thesis by (simp add: file_bytes_def file_byte_def demo_slots upt_rec)
qed

end
