(* ===== verification/KtfsEnd.thy ===== *)
theory KtfsEnd
  imports KtfsWrite
begin

text \<open>
  Setting the end of a file: \<open>FCNTL_SETEND\<close> of \<open>ktfs_cntl\<close> allocates the missing blocks and
  writes the inode back with the new size.
\<close>

context steady_disk
begin

lemma grow_blocks_steady:
  assumes "cache_rel img ready V N H W c" and room: "size H < 63" and "fs_ok V N sb" and "file_ok V N sb ino"
    and "\<forall>b\<in>set bs. b < MAX_BLOCKS"
  shows "\<exists>r V' ino' c'. grow_blocks intf sb bs ino c = (r, c') \<and>
     cache_rel img ready V' N H W c' \<and> file_grows N sb V ino V' ino' \<and>
     (r = Inr ino' \<and> (\<forall>b\<in>set bs. slot_ptr V' sb ino' (Data b) \<noteq> 0) \<or>
      r = Inl (- ENOTSUP) \<and> (\<forall>n<bits_of sb. data_bit V' sb n) \<and> (\<exists>b\<in>set bs. slot_ptr V sb ino (Data b) = 0))"
  using assms(1,3-5)
proof (induction bs arbitrary: V ino c)
  case Nil
  then show ?case using file_grows_refl by auto
next
  case (Cons b bs)
  have b: "b < MAX_BLOCKS" "unat (of_nat b :: u32) = b"
    using Cons.prems(4) by (auto intro: unat_word_of_nat_small)
  from get_or_alloc_steady [OF Cons.prems(1) room Cons.prems(2,3), of "of_nat b"] obtain r ino1 V1 c1 where
    g: "get_or_alloc_data_block intf sb ino (of_nat b) c = ((r, ino1), c1)" "cache_rel img ready V1 N H W c1"
      "file_grows N sb V ino V1 ino1" "found_block N sb b V1 ino1 r" unfolding b(2) by blast
  note ok1 = file_grows_ok [OF g(3)]
  show ?case
  proof (cases r)
    case (Inl e)
    have "size H < 64" using room by simp
    from get_or_alloc_present [OF Cons.prems(1) this Cons.prems(2,3), of "of_nat b"] g(1) Inl
    have "slot_ptr V sb ino (Data b) = 0" using b by (fastforce simp only: b(2))
    then show ?thesis using Inl g b(1) by (auto simp: found_block_def)
  next
    case (Inr idx)
    then have idx: "slot_ptr V1 sb ino1 (Data b) \<noteq> 0" using g(4) by (auto simp: found_block_def)
    have bm: "\<forall>b\<in>set bs. b < MAX_BLOCKS" using Cons.prems(4) by simp
    from Cons.IH [OF g(2) conjunct1 [OF ok1] conjunct2 [OF ok1] bm] obtain r2 V2 ino2 c2 where
      h: "grow_blocks intf sb bs ino1 c1 = (r2, c2)" "cache_rel img ready V2 N H W c2" "file_grows N sb V1 ino1 V2 ino2"
        "r2 = Inr ino2 \<and> (\<forall>b\<in>set bs. slot_ptr V2 sb ino2 (Data b) \<noteq> 0) \<or>
         r2 = Inl (- ENOTSUP) \<and> (\<forall>n<bits_of sb. data_bit V2 sb n) \<and> (\<exists>b\<in>set bs. slot_ptr V1 sb ino1 (Data b) = 0)"
      by blast
    have absent: "slot_ptr V sb ino (Data x) = 0" if "x \<in> set bs" "slot_ptr V1 sb ino1 (Data x) = 0" for x
      using file_grows_ptr [OF g(3), of "Data x"] that Cons.prems(4) by (cases "slot_ptr V sb ino (Data x) = 0") simp_all
    have "slot_ptr V2 sb ino2 (Data b) \<noteq> 0" using file_grows_ptr [OF h(3), of "Data b"] b(1) idx by simp
    moreover have "grow_blocks intf sb (b # bs) ino c = (r2, c2)" using g(1) h(1) Inr by simp
    ultimately show ?thesis using h(2,4) absent file_grows_trans [OF g(3) h(3)]
      by (intro exI [of _ r2] exI [of _ V2] exI [of _ ino2] exI [of _ c2]) auto
  qed
qed

text \<open>The new end: complete up to it, the bytes that stay are as they were.\<close>

lemma set_end_steady:
  assumes rel: "cache_rel img ready V N H W c" and room: "size H < 60"
    and sb: "sb = superblock_of (V 0)" and ok: "fs_ok V N sb"
    and n: "n = unat (de_inode (kf_dentry f))" "n div 16 < unat (sb_inode_block_count sb)"
    and ip: "ip = inode_pos sb n" "i = n mod 16" and fok: "file_ok V N sb (file_at ip i V)"
    and dn: "dense V sb (file_at ip i V) (unat (ino_size (file_at ip i V)))"
    and lim: "unat new \<le> KTFS_MAX_FILE_SIZE"
  shows "\<exists>r f' c' V'. set_end intf new f c = (r, f', c') \<and>
    (r = 0 \<and> cache_rel img ready V' N H W c' \<and> file_changes N sb ip i V V' \<and>
       f' = file_unlock (f\<lparr>kf_fileSize := new, kf_pos := (if kf_pos f > new then new else kf_pos f)\<rparr>) \<and>
       ino_size (file_at ip i V') = ucast new \<and> dense V' sb (file_at ip i V') (unat new) \<and>
       (\<forall>m. present sb ip i V m \<longrightarrow> byte_of sb ip i V' m = byte_of sb ip i V m) \<or>
     r = - ENOTSUP \<and> f' = f \<and> (\<forall>n<bits_of sb. data_bit V' sb n) \<and>
       \<not> dense V sb (file_at ip i V) (unat new) \<and>
       (\<exists>ksb. cache_rel img ready V' N (add_mset (ksb, 0) H) W c'))"
proof -
  have i16: "i < 16" by (simp add: ip)
  note g = fs_ok_geometry [OF ok] and W = cache_rel_written [OF rel]
  have m: "meta_pos N sb ip" using inode_meta_pos [OF g n(2)] ip by simp
  have p0: "in_disk N 0" using g by (simp add: geometry_def in_disk_def data_start_def)
  from get_steady [OF rel p0] room obtain ksb c1 where k0: "kget intf 0 c = (Inr ksb, c1)"
    and r1: "cache_rel img ready V N (add_mset (ksb, 0) H) W c1" by auto
  let ?H = "add_mset (ksb, 0 :: u64) H" and ?ino = "file_at ip i V"
  have b: "superblock_of (block_bytes ksb c1) = sb" using cache_rel_bytes [OF r1, of ksb 0] sb by simp
  have pi: "in_disk N ip" using m by (simp add: meta_pos_def)
  from get_inode_steady [OF r1, of sb "de_inode (kf_dentry f)"] pi room obtain c2 where
    gi: "get_inode intf sb (de_inode (kf_dentry f)) c1 = (Inr ?ino, c2)" and r2: "cache_rel img ready V N ?H W c2"
    by (auto simp: n(1) [symmetric] ip [symmetric] file_at_def)
  let ?old = "unat (ino_size ?ino)"
  let ?bs = "if unat new > ?old then [blocks_for ?old..<blocks_for (unat new)] else []"
  have bf: "blocks_for x \<le> MAX_BLOCKS" if "x \<le> KTFS_MAX_FILE_SIZE" for x
    using that div_le_mono [of "511 + x" "511 + 16844800" 512] by (simp add: blocks_for_def KTFS_MAX_FILE_SIZE_def)
  have "\<forall>b\<in>set ?bs. b < MAX_BLOCKS" using bf [OF lim] by auto
  moreover have "size ?H < 63" using room by simp
  ultimately obtain r V3 ino3 c3 where
    gr: "grow_blocks intf sb ?bs ?ino c2 = (r, c3)" "cache_rel img ready V3 N ?H W c3" "file_grows N sb V ?ino V3 ino3"
      "r = Inr ino3 \<and> (\<forall>b\<in>set ?bs. slot_ptr V3 sb ino3 (Data b) \<noteq> 0) \<or>
       r = Inl (- ENOTSUP) \<and> (\<forall>n<bits_of sb. data_bit V3 sb n) \<and> (\<exists>b\<in>set ?bs. slot_ptr V sb ?ino (Data b) = 0)"
    using grow_blocks_steady [OF r2 _ ok fok] by blast
  have nl: "\<not> KTFS_MAX_FILE_SIZE < unat new" using lim by simp
  from gr(4) show ?thesis
  proof (elim disjE conjE, goal_cases)
    case 2
    then have "set_end intf new f c = (- ENOTSUP, f, c3)"
      using k0 b gi gr(1) nl by (simp add: set_end_def Let_def)
    moreover from 2(3) obtain x where x: "x \<in> set ?bs" "slot_ptr V sb ?ino (Data x) = 0" by blast
    then have "x < blocks_for (unat new)" by (auto split: if_splits)
    then have "512 * x < unat new" by (auto simp: blocks_for_def split: if_splits)
    with x(2) have "\<not> dense V sb ?ino (unat new)" by (auto simp: dense_def)
    ultimately show ?case using gr(2) 2 by auto
  next
    case 1
    from get_steady [OF gr(2) pi] room obtain k c4 where k: "kget intf ip c3 = (Inr k, c4)"
      and r4: "cache_rel img ready V3 N (add_mset (k, ip) ?H) W c4" by auto
    let ?ino4 = "ino3\<lparr>ino_size := ucast new\<rparr>"
    define V4 where "V4 = V3(ip := put_inode i ?ino4 (V3 ip))"
    note gc = grow_changes [OF ok gr(3) m i16 V4_def]
    have wf: "inode_wf ?ino4" using file_grows_ok [OF gr(3)] by (simp add: file_ok_def inode_wf_def)
    have "length (V3 ip) = 512" using file_grows_ok [OF gr(3)] pi by (simp add: fs_ok_def)
    then have "length (put_inode i ?ino4 (V3 ip)) = 512" using wf i16 by simp
    from update_block_steady [OF r4 _ this] W
    have r5: "cache_rel img ready V4 N ?H W (cache_release_block k True (inode_set k i ?ino4 c4))"
      using cache_rel_bytes [OF r4, of k ip] by (auto simp: inode_set_def V4_def)
    let ?c6 = "cache_release_block ksb False (cache_release_block k True (inode_set k i ?ino4 c4))"
    have r6: "cache_rel img ready V4 N H W ?c6" by (rule release_clean_steady [OF r5 W])
    have run: "set_end intf new f c = (0, file_unlock (f\<lparr>kf_fileSize := new,
        kf_pos := (if kf_pos f > new then new else kf_pos f)\<rparr>), ?c6)"
      using k0 b gi gr(1) nl 1(1) k by (simp add: set_end_def Let_def n(1) [symmetric] ip [symmetric])
    have S4: "slot_of sb ip i V4 s = slot_ptr V3 sb ino3 s" if "is_slot s" for s using gc(3) [OF that] .
    have dn4: "dense V4 sb (file_at ip i V4) (unat new)"
      unfolding dense_def
    proof (intro allI impI)
      fix j assume j: "512 * j < unat new"
      then have jm: "j < MAX_BLOCKS" using lim by (simp add: KTFS_MAX_FILE_SIZE_def)
      have "slot_ptr V3 sb ino3 (Data j) \<noteq> 0"
      proof (cases "512 * j < ?old")
        case True
        then have "slot_ptr V sb ?ino (Data j) \<noteq> 0" using dn by (simp add: dense_def)
        with file_grows_ptr [OF gr(3), of "Data j"] jm show ?thesis by simp
      next
        case False
        then have "?old < unat new" "blocks_for ?old \<le> j" "j < blocks_for (unat new)"
          using j by (auto simp: blocks_for_def)
        then show ?thesis using 1(2) by simp
      qed
      then show "j < MAX_BLOCKS \<and> slot_ptr V4 sb (file_at ip i V4) (Data j) \<noteq> 0"
        using jm S4 [of "Data j"] by (simp add: slot_of_def)
    qed
    have bytes: "byte_of sb ip i V4 x = byte_of sb ip i V x" if x: "present sb ip i V x" for x
    proof -
      let ?s = "Data (x div 512)"
      have s: "is_slot ?s" "slot_ptr V sb ?ino ?s \<noteq> 0" using x by (auto simp: present_def slot_of_def)
      let ?a = "slot_ptr V sb ?ino ?s"
      have a: "valid_idx N sb ?a" "unat ?a < bits_of sb" "data_bit V sb (unat ?a)"
        using fok s by (auto simp: file_ok_def)
      have apart: "?a \<noteq> slot_ptr V sb ?ino u" if "is_slot u" "ptr_slot u" for u
      proof
        assume "?a = slot_ptr V sb ?ino u"
        then have "?s = u" using fok s that(1) unfolding file_ok_def by blast
        with that(2) show False by (auto simp: ptr_slot_def)
      qed
      from gr(3) have "valid_idx N sb ?a \<and> unat ?a < bits_of sb \<and> data_bit V sb (unat ?a) \<and>
          (\<forall>u. is_slot u \<and> ptr_slot u \<and> slot_ptr V sb ?ino u \<noteq> 0 \<longrightarrow> slot_ptr V sb ?ino u \<noteq> ?a) \<longrightarrow>
          V3 (data_pos sb ?a) = V (data_pos sb ?a)" unfolding file_grows_def by blast
      with a apart have "V3 (data_pos sb ?a) = V (data_pos sb ?a)" by metis
      moreover have "slot_of sb ip i V4 ?s = ?a" using S4 [OF s(1)] file_grows_ptr [OF gr(3) s] by simp
      moreover have "slot_of sb ip i V ?s = ?a" by (simp add: slot_of_def)
      ultimately show ?thesis using gc(4) [OF a(1)] by (simp add: byte_of_slot)
    qed
    show ?case
      using run r6 gc(1,2) dn4 bytes by (intro exI [of _ 0] exI [of _ ?c6] exI [of _ V4] exI) auto
  qed
qed

end

end
