(* ===== verification/KtfsProps.thy ===== *)
theory KtfsProps
  imports KtfsDemo KtfsEnd
begin

text \<open>
  What the file system promises, stated for the operations as they are called: on a mounted file
  system, over any disk that answers inside its bounds, with the disk that clients of the cache
  see as the state.  The witnesses run on the demonstration disk.
\<close>

section \<open>Lemmas\<close>

lemma find_put_file:
  "find (\<lambda>f. kf_id f = u) fs = Some f \<Longrightarrow> kf_id f' = u \<Longrightarrow>
     find (\<lambda>f. kf_id f = u) (map (\<lambda>g. if kf_id g = kf_id f' then f' else g) fs) = Some f'"
  by (induction fs) (auto split: if_splits)

lemma idle_id: "idle_file V N sb u f fs \<Longrightarrow> kf_id f = u"
  by (auto simp: idle_file_def find_Some_iff)

lemma with_file_idle:
  assumes "idle_file V N sb u f fs" and "body (f\<lparr>kf_owner := Some me, kf_cnt := 1\<rparr>) (ks_cache fs) = (r, f', c)"
  shows "with_file me (Some u) False err body fs = Some (r, put_file f' (fs\<lparr>ks_cache := c\<rparr>))"
  using assms by (simp add: idle_file_def with_file_def file_lock_def)

lemma unlock_idle:
  assumes "kf_owner f = None" and "kf_cnt f = 0"
  shows "file_unlock (f\<lparr>kf_owner := Some me, kf_cnt := Suc 0, kf_pos := p\<rparr>) = f\<lparr>kf_pos := p\<rparr>"
    "file_unlock (f\<lparr>kf_owner := Some me, kf_cnt := Suc 0\<rparr>) = f"
    "file_unlock (f\<lparr>kf_owner := Some me, kf_cnt := Suc 0, kf_fileSize := s, kf_pos := p\<rparr>) = f\<lparr>kf_fileSize := s, kf_pos := p\<rparr>"
  using assms by (cases f; simp add: file_unlock_def)+

lemma mounted_cache:
  "mounted img ready V N sb fs \<Longrightarrow> cache_rel img ready V N {#} {} c \<Longrightarrow> mounted img ready V N sb (fs\<lparr>ks_cache := c\<rparr>)"
  by (auto simp: mounted_def)

lemma mounted_put_file: "mounted img ready V N sb (put_file f fs) = mounted img ready V N sb fs"
  by (simp add: mounted_def put_file_def)

lemma idle_file_size: "idle_file V N sb u f fs \<Longrightarrow>
    unat (kf_fileSize f) = unat (ino_size (disk_inode V sb (unat (de_inode (kf_dentry f)))))"
  by (simp add: idle_file_def unat_ucast_64)

section \<open>Reading\<close>

lemma ktfs_fetch_step:
  assumes "steady_disk sto img ready" and "mounted img ready V N sb fs" and "idle_file V N sb u f fs"
    and "unat (kf_pos f) + unat len < 2 ^ 64"
  shows "\<exists>c'. mounted img ready V N sb (fs\<lparr>ks_cache := c'\<rparr>) \<and>
    (let m = min (unat len) (unat (kf_fileSize f) - unat (kf_pos f)) in
     ktfs_fetch sto me (Some u) False len fs =
       Some ((int m, file_bytes V sb (disk_inode V sb (unat (de_inode (kf_dentry f)))) (unat (kf_pos f)) m),
         put_file (f\<lparr>kf_pos := kf_pos f + of_nat m\<rparr>) (fs\<lparr>ks_cache := c'\<rparr>)))"
proof -
  let ?f = "f\<lparr>kf_owner := Some me, kf_cnt := 1\<rparr>" and ?n = "unat (de_inode (kf_dentry f))"
  let ?m = "min (unat len) (unat (kf_fileSize f) - unat (kf_pos f))"
  have id: "kf_owner f = None" "kf_cnt f = 0" using assms(3) by (auto simp: idle_file_def)
  show ?thesis
  proof (cases "kf_pos f < kf_fileSize f")
    case False
    then have "kf_fileSize f \<le> kf_pos f" by simp
    then have "fetch_body sto len ?f (ks_cache fs) = ((0, []), f, ks_cache fs)"
      using id by (simp add: fetch_body_def unlock_idle Let_def)
    note run = with_file_idle [OF assms(3), of "fetch_body sto len", OF this]
    moreover have "?m = 0" using False by (simp add: word_less_nat_alt)
    moreover have "fs\<lparr>ks_cache := ks_cache fs\<rparr> = fs" "f\<lparr>kf_pos := kf_pos f\<rparr> = f" by simp_all
    ultimately show ?thesis using assms(2)
      by (intro exI [of _ "ks_cache fs"]) (simp add: ktfs_fetch_def Let_def)
  next
    case True
    have m: "cache_rel img ready V N {#} {} (ks_cache fs)" "sb = superblock_of (V 0)" "fs_ok V N sb"
      using assms(2) by (auto simp: mounted_def)
    have s: "?n div 16 < unat (sb_inode_block_count sb)" "file_ok V N sb (disk_inode V sb ?n)"
      "dense V sb (disk_inode V sb ?n) (unat (kf_fileSize f))"
      using assms(3) idle_file_size [OF assms(3)] by (auto simp: idle_file_def sound_file_def)
    from steady_disk.fetch_body_steady [where f = ?f and len = len and n = ?n and m = ?m, OF assms(1) m(1) _ m(2,3)]
      s True assms(4) obtain c' where
      b: "fetch_body sto len ?f (ks_cache fs) = ((int ?m, file_bytes V sb (disk_inode V sb ?n) (unat (kf_pos f)) ?m),
         file_unlock (?f\<lparr>kf_pos := kf_pos f + of_nat ?m\<rparr>), c')" and c': "cache_rel img ready V N {#} {} c'"
      by (auto simp: disk_inode_def)
    have "file_unlock (?f\<lparr>kf_pos := kf_pos f + of_nat ?m\<rparr>) = f\<lparr>kf_pos := kf_pos f + of_nat ?m\<rparr>"
      using unlock_idle(1) [OF id, where me = me] by simp
    with with_file_idle [OF assms(3), of "fetch_body sto len", OF b] mounted_cache [OF assms(2) c'] show ?thesis
      by (intro exI [of _ c']) (simp add: ktfs_fetch_def Let_def)
  qed
qed

text \<open>C12: Reading an open file gives exactly the bytes of the file from the position on, cut at its
  end (nothing at or past the end), moves the position by as many, and leaves the disk, the
  pins and the lock as they were; direct, indirect and doubly indirect blocks alike.\<close>

theorem ktfs_fetch_reads:
  assumes "steady_disk sto img ready" and "mounted img ready V N sb fs" and "idle_file V N sb u f fs"
    and "unat (kf_pos f) + unat len < 2 ^ 64"
  shows "\<exists>c'. mounted img ready V N sb (fs\<lparr>ks_cache := c'\<rparr>) \<and>
    (let m = min (unat len) (unat (kf_fileSize f) - unat (kf_pos f)) in
     ktfs_fetch sto me (Some u) False len fs =
       Some ((int m, file_bytes V sb (disk_inode V sb (unat (de_inode (kf_dentry f)))) (unat (kf_pos f)) m),
         put_file (f\<lparr>kf_pos := kf_pos f + of_nat m\<rparr>) (fs\<lparr>ks_cache := c'\<rparr>)))"
  by (rule ktfs_fetch_step [OF assms])

theorem ktfs_fetch_reads_witness:
  "\<exists>fs'. ktfs_fetch demo_intf 1 (Some 7) False 100 demo_fs = Some ((5, [104, 101, 108, 108, 111]), fs') \<and>
     mounted demo_img demo_ready demo_view 4096 demo_sb fs'"
proof -
  have d: "kf_pos demo_open = 0" "kf_fileSize demo_open = 5" "de_inode (kf_dentry demo_open) = 1"
    by (simp_all add: demo_fs_def)
  have "unat (kf_pos demo_open) + unat (100 :: u64) < 2 ^ 64" by (simp add: d)
  from ktfs_fetch_reads [OF image_disk.steady_disk_axioms demo_mounted demo_idle this, of 1]
  show ?thesis by (auto simp: Let_def d demo_inodes demo_content mounted_put_file)
qed

section \<open>Writing\<close>

lemma zero_meta_pos:
  assumes "geometry N sb"
  shows "meta_pos N sb 0"
  unfolding meta_pos_def
proof (intro conjI allI impI)
  show "in_disk N 0" using assms by (simp add: geometry_def in_disk_def data_start_def)
  show "0 \<noteq> bitmap_pos sb (of_nat j)" if "j < unat (sb_bitmap_block_count sb)" for j
    using unat_bitmap_pos [OF assms that] by auto
  show "0 \<noteq> data_pos sb a" if "valid_idx N sb a" for a
    using unat_data_pos [OF assms that] by (auto simp: data_start_def)
qed

lemma inode_pos_nonzero:
  "geometry N sb \<Longrightarrow> n div 16 < unat (sb_inode_block_count sb) \<Longrightarrow> inode_pos sb n \<noteq> 0"
  using unat_inode_pos [of N sb n] by auto

text \<open>A change of one file leaves the superblock alone.\<close>

lemma file_changes_super:
  assumes "file_changes N sb (inode_pos sb n) i V V'" and "n div 16 < unat (sb_inode_block_count sb)"
  shows "V' 0 = V 0"
proof -
  have g: "geometry N sb" using assms(1) by (simp add: file_changes_def fs_ok_def)
  from zero_meta_pos [OF g] inode_pos_nonzero [OF g assms(2)] assms(1) show ?thesis
    by (auto simp: file_changes_def meta_pos_def)
qed

text \<open>After a write the file is still complete up to its size.\<close>

lemma dense_written:
  assumes old: "dense V sb (file_at ip i V) sz" and p: "p \<le> sz"
    and w: "written sb ip i V V' p buf" and ch: "file_changes N sb ip i V V'"
  shows "dense V' sb (file_at ip i V') (max sz (p + length buf))"
  unfolding dense_def
proof (intro allI impI)
  fix j assume j: "512 * j < max sz (p + length buf)"
  have "present sb ip i V' (512 * j)"
  proof (cases "512 * j < sz")
    case True
    then have "present sb ip i V (512 * j)" using old by (simp add: present_def slot_of_def dense_def)
    then show ?thesis by (rule present_changes [OF ch])
  next
    case False
    then show ?thesis using j p w by (simp add: written_def)
  qed
  then show "j < MAX_BLOCKS \<and> slot_ptr V' sb (file_at ip i V') (Data j) \<noteq> 0"
    by (simp add: present_def slot_of_def)
qed

lemma ktfs_store_step:
  assumes "steady_disk sto img ready" and "mounted img ready V N sb fs" and "idle_file V N sb u f fs"
    and "kf_pos f \<le> kf_fileSize f" and "unat (kf_pos f) + length buf \<le> KTFS_MAX_FILE_SIZE" and "buf \<noteq> []"
  shows "let n = unat (de_inode (kf_dentry f)); ip = inode_pos sb n; i = n mod 16;
             sz = max (unat (kf_fileSize f)) (unat (kf_pos f) + length buf);
             f' = f\<lparr>kf_fileSize := of_nat sz, kf_pos := kf_pos f + of_nat (length buf)\<rparr>
    in \<exists>r fs' V'. ktfs_store sto me (Some u) (Some buf) fs = Some (r, fs') \<and> file_changes N sb ip i V V' \<and>
      (r = int (length buf) \<and> mounted img ready V' N sb fs' \<and> idle_file V' N sb u f' fs' \<and>
         written sb ip i V V' (unat (kf_pos f)) buf \<or>
       r = - ENOTSUP \<and> (\<forall>b<bits_of sb. data_bit V' sb b) \<and> lacks sb ip i V (unat (kf_pos f)) buf \<and>
         find (\<lambda>g. kf_id g = u) (ks_open fs') = Some (f\<lparr>kf_owner := Some me, kf_cnt := 1\<rparr>))"
proof -
  let ?f = "f\<lparr>kf_owner := Some me, kf_cnt := 1\<rparr>" and ?n = "unat (de_inode (kf_dentry f))"
  let ?ip = "inode_pos sb ?n" and ?i = "?n mod 16" and ?p = "unat (kf_pos f)"
  let ?sz = "max (unat (kf_fileSize f)) (?p + length buf)"
  let ?f' = "f\<lparr>kf_fileSize := of_nat ?sz, kf_pos := kf_pos f + of_nat (length buf)\<rparr>"
  have id: "kf_owner f = None" "kf_cnt f = 0" "kf_id f = u" and fd: "find (\<lambda>g. kf_id g = u) (ks_open fs) = Some f"
    using assms(3) idle_id [OF assms(3)] by (auto simp: idle_file_def)
  have m: "cache_rel img ready V N {#} {} (ks_cache fs)" "sb = superblock_of (V 0)" "fs_ok V N sb"
    using assms(2) by (auto simp: mounted_def)
  have inode: "disk_inode V' sb ?n = file_at ?ip ?i V'" for V' by (simp add: disk_inode_def file_at_def)
  have s: "?n div 16 < unat (sb_inode_block_count sb)" "file_ok V N sb (file_at ?ip ?i V)"
    "dense V sb (file_at ?ip ?i V) (unat (kf_fileSize f))" "unat (kf_fileSize f) = unat (ino_size (file_at ?ip ?i V))"
    using assms(3) idle_file_size [OF assms(3)] by (auto simp: idle_file_def sound_file_def inode)
  have lim: "?p + length buf \<le> 512 * MAX_BLOCKS" using assms(5) by (simp add: KTFS_MAX_FILE_SIZE_def)
  have pos: "?p \<le> unat (ino_size (file_at ?ip ?i V))" using assms(4) s(4) by (simp add: word_le_nat_alt)
  from steady_disk.store_body_steady [where f = ?f and n = ?n and ip = ?ip and i = ?i and buf = buf,
      OF assms(1) m(1) _ m(2,3) _ s(1) refl refl s(2)] pos lim assms(6)
  obtain r f1 c' V' where run: "store_body sto buf ?f (ks_cache fs) = (r, f1, c')" and ch: "file_changes N sb ?ip ?i V V'"
    and res: "r = int (length buf) \<and> cache_rel img ready V' N {#} {} c' \<and>
       f1 = file_unlock (?f\<lparr>kf_fileSize := of_nat ?sz, kf_pos := kf_pos f + of_nat (length buf)\<rparr>) \<and>
       unat (ino_size (file_at ?ip ?i V')) = ?sz \<and> written sb ?ip ?i V V' ?p buf \<or>
     r = - ENOTSUP \<and> f1 = ?f \<and> (\<forall>n<bits_of sb. data_bit V' sb n) \<and> lacks sb ?ip ?i V ?p buf"
    by (auto simp: Let_def s(4))
  let ?fs = "put_file f1 (fs\<lparr>ks_cache := c'\<rparr>)"
  have st: "ktfs_store sto me (Some u) (Some buf) fs = Some (r, ?fs)"
    using with_file_idle [OF assms(3), of "store_body sto buf", OF run] by (simp add: ktfs_store_def)
  from res show ?thesis
  proof (elim disjE conjE, goal_cases)
    case 1
    then have f1: "f1 = ?f'" using unlock_idle(3) [OF id(1,2), where me = me] by simp
    have "find (\<lambda>g. kf_id g = u) (ks_open ?fs) = Some ?f'"
      unfolding f1 put_file_def using find_put_file [OF fd, of ?f'] id(3) by simp
    moreover have "sound_file V' N sb ?n"
      using s(1) file_changes_ok [OF ch] dense_written [OF s(3) _ 1(5) ch] pos s(4) 1(4)
      by (simp add: sound_file_def inode)
    moreover have "(of_nat ?sz :: u64) = ucast (ino_size (file_at ?ip ?i V'))" unfolding 1(4) [symmetric] by simp
    ultimately have "idle_file V' N sb u ?f' ?fs" using id by (simp add: idle_file_def inode)
    moreover have "mounted img ready V' N sb ?fs"
      using 1(2) m(2) file_changes_super [OF ch s(1)] file_changes_ok [OF ch]
      unfolding mounted_put_file by (simp add: mounted_def)
    ultimately show ?case using st ch 1(1,5) unfolding Let_def by blast
  next
    case 2
    have "find (\<lambda>g. kf_id g = u) (ks_open ?fs) = Some ?f"
      unfolding 2(2) put_file_def using find_put_file [OF fd, of ?f] id(3) by simp
    with st ch 2(1,3,4) show ?case unfolding Let_def by blast
  qed
qed


lemma demo_not_lacking: "\<not> lacks demo_sb (inode_pos demo_sb 1) 1 demo_view 0 [72, 105]"
proof -
  have f: "file_at (inode_pos demo_sb 1) 1 demo_view = demo_file"
    using demo_inodes by (simp add: disk_inode_def file_at_def)
  have "m div 512 = 0" if "m < 2" for m :: nat using that by simp
  then show ?thesis by (auto simp: lacks_def present_def slot_of_def f [unfolded One_nat_def] demo_slots)
qed

lemma demo_open_fields: "kf_pos demo_open = 0" "kf_fileSize demo_open = 5" "de_inode (kf_dentry demo_open) = 1"
  by (simp_all add: demo_fs_def)


section \<open>Position and size\<close>

text \<open>C14: Control of an open file.  The end and the position are reported; the position is set to
  any value up to the end and to nothing beyond it; an end beyond the largest file the block
  map can hold is refused; any other command fails.  Refusals change nothing, and the lock is
  given back.\<close>

theorem ktfs_cntl_bounds:
  assumes "idle_file V N sb u f fs"
  shows "ktfs_cntl sto me (Some u) FCNTL_GETEND (Some a) fs = Some ((0, kf_fileSize f), put_file f fs) \<and>
    ktfs_cntl sto me (Some u) FCNTL_GETPOS (Some a) fs = Some ((0, kf_pos f), put_file f fs) \<and>
    ktfs_cntl sto me (Some u) FCNTL_SETPOS (Some a) fs =
      Some (if a \<le> kf_fileSize f then ((0, a), put_file (f\<lparr>kf_pos := a\<rparr>) fs) else ((- ENOTSUP, a), put_file f fs)) \<and>
    (unat a > KTFS_MAX_FILE_SIZE \<longrightarrow>
      ktfs_cntl sto me (Some u) FCNTL_SETEND (Some a) fs = Some ((- ENOTSUP, a), put_file f fs)) \<and>
    (cmd \<notin> {FCNTL_GETEND, FCNTL_SETEND, FCNTL_GETPOS, FCNTL_SETPOS} \<longrightarrow>
      ktfs_cntl sto me (Some u) cmd (Some a) fs = Some ((- ENOTSUP, a), put_file f fs))"
proof -
  have id: "kf_owner f = None" "kf_cnt f = 0" using assms by (auto simp: idle_file_def)
  have s: "fs\<lparr>ks_cache := ks_cache fs\<rparr> = fs" by simp
  have run: "ktfs_cntl sto me (Some u) c (Some a) fs =
      (case cntl_body sto c a (f\<lparr>kf_owner := Some me, kf_cnt := 1\<rparr>) (ks_cache fs) of
         (r, f', k) \<Rightarrow> Some (r, put_file f' (fs\<lparr>ks_cache := k\<rparr>)))" for c
    using with_file_idle [OF assms, of "cntl_body sto c a"]
    by (auto simp: ktfs_cntl_def split: prod.split)
  note u = unlock_idle [OF id, where me = me]
  show ?thesis by (simp add: run cntl_body_def set_end_def u s)
qed

theorem ktfs_cntl_bounds_witness:
  "ktfs_cntl demo_intf 1 (Some 7) FCNTL_SETPOS (Some 6) demo_fs = Some ((- ENOTSUP, 6), put_file demo_open demo_fs) \<and>
   ktfs_cntl demo_intf 1 (Some 7) FCNTL_SETEND (Some 16844801) demo_fs =
     Some ((- ENOTSUP, 16844801), put_file demo_open demo_fs)"
proof -
  have d: "kf_fileSize demo_open = 5" by (simp add: demo_fs_def)
  from ktfs_cntl_bounds [OF demo_idle, of demo_intf 1 6 0] ktfs_cntl_bounds [OF demo_idle, of demo_intf 1 16844801 0]
  show ?thesis by (simp add: d KTFS_MAX_FILE_SIZE_def)
qed

lemma cntl_setpos:
  assumes "idle_file V N sb u f fs" and "p \<le> kf_fileSize f"
  shows "ktfs_cntl sto me (Some u) FCNTL_SETPOS (Some p) fs = Some ((0, p), put_file (f\<lparr>kf_pos := p\<rparr>) fs)"
proof -
  have id: "kf_owner f = None" "kf_cnt f = 0" using assms by (auto simp: idle_file_def)
  have "cntl_body sto FCNTL_SETPOS p (f\<lparr>kf_owner := Some me, kf_cnt := 1\<rparr>) (ks_cache fs) =
      ((0, p), f\<lparr>kf_pos := p\<rparr>, ks_cache fs)"
    using assms(2) unlock_idle [OF id, where me = me] by (simp add: cntl_body_def)
  from with_file_idle [OF assms(1), of "cntl_body sto FCNTL_SETPOS p", OF this] show ?thesis by (simp add: ktfs_cntl_def)
qed

lemma idle_setpos:
  assumes "idle_file V N sb u f fs"
  shows "idle_file V N sb u (f\<lparr>kf_pos := p\<rparr>) (put_file (f\<lparr>kf_pos := p\<rparr>) fs)"
proof -
  have "find (\<lambda>g. kf_id g = u) (ks_open fs) = Some f" using assms by (simp add: idle_file_def)
  from find_put_file [OF this, of "f\<lparr>kf_pos := p\<rparr>"] idle_id [OF assms] assms show ?thesis
    by (simp add: idle_file_def put_file_def)
qed

text \<open>C11: What is written is read back: after a write that succeeds, setting the position back and
  reading as many bytes gives the caller's bytes, whatever blocks the file needed for them.\<close>

theorem ktfs_write_read_back:
  assumes "steady_disk sto img ready" and "mounted img ready V N sb fs" and "idle_file V N sb u f fs"
    and "kf_pos f \<le> kf_fileSize f" and "unat (kf_pos f) + length buf \<le> KTFS_MAX_FILE_SIZE" and "buf \<noteq> []"
    and "ktfs_store sto me (Some u) (Some buf) fs = Some (r, fs1)" and "r \<noteq> - ENOTSUP"
  shows "\<exists>fs2 fs3. ktfs_cntl sto me (Some u) FCNTL_SETPOS (Some (kf_pos f)) fs1 = Some ((0, kf_pos f), fs2) \<and>
     ktfs_fetch sto me (Some u) False (of_nat (length buf)) fs2 = Some ((int (length buf), buf), fs3)"
proof -
  let ?n = "unat (de_inode (kf_dentry f))" and ?p = "unat (kf_pos f)"
  let ?ip = "inode_pos sb ?n" and ?i = "?n mod 16"
  let ?sz = "max (unat (kf_fileSize f)) (?p + length buf)"
  let ?f' = "f\<lparr>kf_fileSize := of_nat ?sz, kf_pos := kf_pos f + of_nat (length buf)\<rparr>"
  from ktfs_store_step [OF assms(1-6), of me] obtain r' fs' V' where
    st: "ktfs_store sto me (Some u) (Some buf) fs = Some (r', fs')"
      "mounted img ready V' N sb fs' \<and> idle_file V' N sb u ?f' fs' \<and> written sb ?ip ?i V V' ?p buf \<or> r' = - ENOTSUP"
    unfolding Let_def by blast
  then have V': "mounted img ready V' N sb fs1" "idle_file V' N sb u ?f' fs1" "written sb ?ip ?i V V' ?p buf"
    using assms(7,8) by simp_all
  have sz: "unat (of_nat ?sz :: u64) = ?sz"
    using assms(5) unat_lt_64 [of "kf_fileSize f"]
    by (intro unat_word_of_nat_small) (auto simp: KTFS_MAX_FILE_SIZE_def)
  then have le: "kf_pos f \<le> kf_fileSize ?f'" using assms(4) by (simp add: word_le_nat_alt)
  let ?g = "f\<lparr>kf_fileSize := of_nat ?sz, kf_pos := kf_pos f\<rparr>"
  note c = cntl_setpos [OF V'(2) le, of sto me]
  have l: "unat (of_nat (length buf) :: u64) = length buf"
    using assms(5) by (intro unat_word_of_nat_small) (simp add: KTFS_MAX_FILE_SIZE_def)
  have "mounted img ready V' N sb (put_file ?g fs1)" using V'(1) by (simp add: mounted_put_file)
  moreover have "idle_file V' N sb u ?g (put_file ?g fs1)" using idle_setpos [OF V'(2), of "kf_pos f"] by simp
  moreover have "unat (kf_pos ?g) + unat (of_nat (length buf) :: u64) < 2 ^ 64"
    using assms(5) l by (simp add: KTFS_MAX_FILE_SIZE_def)
  ultimately obtain c3 where
    "let m = min (unat (of_nat (length buf) :: u64)) (unat (kf_fileSize ?g) - unat (kf_pos ?g)) in
     ktfs_fetch sto me (Some u) False (of_nat (length buf)) (put_file ?g fs1) =
       Some ((int m, file_bytes V' sb (disk_inode V' sb (unat (de_inode (kf_dentry ?g)))) (unat (kf_pos ?g)) m),
         put_file (?g\<lparr>kf_pos := kf_pos ?g + of_nat m\<rparr>) (put_file ?g fs1\<lparr>ks_cache := c3\<rparr>))"
    using ktfs_fetch_step [OF assms(1), where fs = "put_file ?g fs1" and f = ?g] by blast
  moreover have "min (unat (of_nat (length buf) :: u64)) (unat (kf_fileSize ?g) - unat (kf_pos ?g)) = length buf"
    using sz l by simp
  ultimately obtain fs3 where
    "ktfs_fetch sto me (Some u) False (of_nat (length buf)) (put_file ?g fs1) =
      Some ((int (length buf), file_bytes V' sb (disk_inode V' sb ?n) ?p (length buf)), fs3)"
    by (simp only: Let_def) simp
  moreover have "file_bytes V' sb (disk_inode V' sb ?n) ?p (length buf) = buf"
    by (rule nth_equalityI)
      (use V'(3) in \<open>auto simp: file_bytes_def written_def byte_of_def disk_inode_def file_at_def\<close>)
  ultimately show ?thesis using c by auto
qed

theorem ktfs_write_read_back_witness:
  "\<exists>fs1 fs2 fs3. ktfs_store demo_intf 1 (Some 7) (Some [72, 105]) demo_fs = Some (2, fs1) \<and>
     ktfs_cntl demo_intf 1 (Some 7) FCNTL_SETPOS (Some 0) fs1 = Some ((0, 0), fs2) \<and>
     ktfs_fetch demo_intf 1 (Some 7) False 2 fs2 = Some ((2, [72, 105]), fs3)"
proof -
  have h: "kf_pos demo_open \<le> kf_fileSize demo_open"
    "unat (kf_pos demo_open) + length [72 :: u8, 105] \<le> KTFS_MAX_FILE_SIZE" "[72 :: u8, 105] \<noteq> []"
    by (simp_all add: demo_open_fields KTFS_MAX_FILE_SIZE_def)
  from ktfs_store_step [OF image_disk.steady_disk_axioms demo_mounted demo_idle h, of 1] demo_not_lacking
  obtain fs1 where st: "ktfs_store demo_intf 1 (Some 7) (Some [72, 105]) demo_fs = Some (2, fs1)"
    unfolding Let_def demo_open_fields by force
  from ktfs_write_read_back [OF image_disk.steady_disk_axioms demo_mounted demo_idle h st]
  show ?thesis using st by (simp add: demo_open_fields)
qed



section \<open>Names\<close>

text \<open>C16: Opening by name searches the directory in order: with the first entry of that name it
  makes a new open file at position 0 for the inode of the entry, with the size of the inode;
  without one it returns -ENOENT and opens nothing.  Either way no block stays pinned.\<close>

theorem ktfs_open_finds_first:
  assumes "steady_disk sto img ready" and "mounted img ready V N sb fs"
    and "r = unat (sb_root_directory_inode sb)" and "sound_file V N sb r" and "root = disk_inode V sb r"
    and "n = unat (ino_size root) div 16" and "names_ok V sb root n"
    and "\<And>j. j < n \<Longrightarrow> unat (de_inode (entry V sb root j)) div 16 < unat (sb_inode_block_count sb)"
    and "nul_terminated name" and "cstr name \<noteq> []"
  shows "\<exists>c'. mounted img ready V N sb (fs\<lparr>ks_cache := c'\<rparr>) \<and>
     ktfs_open sto False (Some name) fs =
       Some (case find_entry V sb root n name of
               None \<Rightarrow> ((- ENOENT, None), fs\<lparr>ks_cache := c'\<rparr>)
             | Some j \<Rightarrow>
                 let d = entry V sb root j
                 in ((0, Some (ks_next fs)),
                     fs\<lparr>ks_cache := c',
                        ks_open := \<lparr>kf_id = ks_next fs, kf_fileSize = ucast (ino_size (disk_inode V sb (unat (de_inode d)))),
                                    kf_dentry = d, kf_pos = 0, kf_owner = None, kf_cnt = 0\<rparr> # ks_open fs,
                        ks_next := ks_next fs + 1\<rparr>))"
proof -
  have m: "cache_rel img ready V N {#} {} (ks_cache fs)" "sb = superblock_of (V 0)" "fs_ok V N sb"
    using assms(2) by (auto simp: mounted_def)
  have "16 * n \<le> unat (ino_size root)" using assms(6) by simp
  then have dn: "dense V sb root (16 * n)" using assms(4,5) by (auto simp: sound_file_def dense_def)
  from steady_disk.ktfs_open_steady [where sb = sb and r = r and root = root and n = n and name = name,
      OF assms(1) m(1) _ m(2,3) assms(3)] assms(4-10) dn
  obtain c' where c': "cache_rel img ready V N {#} {} c'"
    "ktfs_open sto False (Some name) fs =
       Some (case find_entry V sb root n name of
               None \<Rightarrow> ((- ENOENT, None), fs\<lparr>ks_cache := c'\<rparr>)
             | Some j \<Rightarrow>
                 let d = entry V sb root j; i = unat (de_inode d)
                 in ((0, Some (ks_next fs)),
                     fs\<lparr>ks_cache := c',
                        ks_open := \<lparr>kf_id = ks_next fs,
                                    kf_fileSize = ucast (ino_size (inode_at (V (inode_pos sb i)) (i mod 16))),
                                    kf_dentry = d, kf_pos = 0, kf_owner = None, kf_cnt = 0\<rparr> # ks_open fs,
                        ks_next := ks_next fs + 1\<rparr>))"
    by (auto simp: sound_file_def disk_inode_def)
  with mounted_cache [OF assms(2) c'(1)] show ?thesis unfolding disk_inode_def Let_def by blast
qed

theorem ktfs_open_finds_first_witness:
  "\<exists>fs'. ktfs_open demo_intf False (Some [97, 0]) demo_fs = Some ((0, Some 10), fs') \<and>
     kf_fileSize (hd (ks_open fs')) = 5"
proof -
  have e: "\<And>j. j < 1 \<Longrightarrow> entry demo_view demo_sb demo_root j = \<lparr>de_inode = 1, de_name = demo_name\<rparr>"
    using demo_entry by simp
  have n: "0 = unat (sb_root_directory_inode demo_sb)" "1 = unat (ino_size demo_root) div 16"
    "names_ok demo_view demo_sb demo_root 1"
    using e by (simp_all add: demo_sb_def demo_root_def names_ok_def demo_name_def)
  have nm: "nul_terminated [97 :: u8, 0]" "cstr [97 :: u8, 0] \<noteq> []" by simp_all
  have f: "find_entry demo_view demo_sb demo_root 1 [97, 0] = Some 0"
    using e by (simp add: find_entry_def demo_name_def)
  have inodes: "\<And>j. j < 1 \<Longrightarrow> unat (de_inode (entry demo_view demo_sb demo_root j)) div 16 < unat (sb_inode_block_count demo_sb)"
    using e by (simp add: demo_fields)
  from ktfs_open_finds_first [OF image_disk.steady_disk_axioms demo_mounted n(1) demo_files(1)
      demo_inodes(1) [symmetric] n(2,3) inodes nm]
  obtain c' where "ktfs_open demo_intf False (Some [97, 0]) demo_fs =
      Some (let d = entry demo_view demo_sb demo_root 0
                 in ((0, Some (ks_next demo_fs)),
                     demo_fs\<lparr>ks_cache := c',
                        ks_open := \<lparr>kf_id = ks_next demo_fs, kf_fileSize = ucast (ino_size (disk_inode demo_view demo_sb (unat (de_inode d)))),
                                    kf_dentry = d, kf_pos = 0, kf_owner = None, kf_cnt = 0\<rparr> # ks_open demo_fs,
                        ks_next := ks_next demo_fs + 1\<rparr>))" unfolding f by auto
  moreover have "ks_next demo_fs = 10" by (simp add: demo_fs_def)
  ultimately show ?thesis by (simp add: e Let_def demo_inodes demo_fields)
qed

end
