(* ===== verification/KtfsCreate.thy ===== *)
theory KtfsCreate
  imports KtfsProps
begin

text \<open>
  Adding an entry to a directory whose entries lie in its direct blocks, and creating a file:
  the directory gets exactly the new entry behind the old ones.
\<close>

section \<open>The directory as a list\<close>

text \<open>The directory is the inode at index \<open>i\<close> of the block at \<open>ip\<close>.\<close>

definition dir_entry :: "ktfs_superblock \<Rightarrow> u64 \<Rightarrow> nat \<Rightarrow> disk_view \<Rightarrow> nat \<Rightarrow> ktfs_dir_entry" where
  "dir_entry sb ip i V j = entry V sb (file_at ip i V) j"

lemma dir_entry_slot:
  "dir_entry sb ip i V j = dentry_at (V (data_pos sb (slot_of sb ip i V (Data (j div 32))))) (j mod 32)"
  by (simp add: dir_entry_def entry_def entry_pos_def slot_of_def)

text \<open>A directory of \<open>n\<close> entries.\<close>

definition dir_ok :: "disk_view \<Rightarrow> nat \<Rightarrow> ktfs_superblock \<Rightarrow> u64 \<Rightarrow> nat \<Rightarrow> nat \<Rightarrow> bool" where
  "dir_ok V N sb ip i n \<longleftrightarrow>
     fs_ok V N sb \<and> file_ok V N sb (file_at ip i V) \<and> unat (ino_size (file_at ip i V)) = 16 * n \<and>
     dense V sb (file_at ip i V) (16 * n)"

lemma dir_slot:
  assumes "dir_ok V N sb ip i n" and "j < n"
  shows "j div 32 < MAX_BLOCKS" "slot_of sb ip i V (Data (j div 32)) \<noteq> 0"
proof -
  have "512 * (j div 32) \<le> 16 * j" by simp
  then have "512 * (j div 32) < 16 * n" using assms(2) by linarith
  then show "j div 32 < MAX_BLOCKS" "slot_of sb ip i V (Data (j div 32)) \<noteq> 0"
    using assms(1) unfolding dir_ok_def dense_def slot_of_def by blast+
qed

lemma size_words:
  assumes "unat (w :: u32) = 16 * n" and "n < 2 ^ 27"
  shows "unat (w + 16) = 16 * (n + 1)" "unat ((w + 16 - 1) div 16) = n" "unat ((w + 16 - 1) div 512) = n div 32"
    "(w mod 512 = 0) = (n mod 32 = 0)"
proof -
  show a: "unat (w + 16) = 16 * (n + 1)" using assms by (simp add: unat_add_32)
  have "unat (w + 16 - 1) = unat (w + 16) - unat (1 :: u32)" using a by (intro unat_sub) (simp add: word_le_nat_alt)
  then have b: "unat (w + 16 - 1) = 16 * n + 15" using a by simp
  show "unat ((w + 16 - 1) div 16) = n" unfolding unat_div b by simp
  have "(16 * n + 15) div 512 = n div 32" using div_mult2_eq [of "16 * n + 15" 16 32] by simp
  then show "unat ((w + 16 - 1) div 512) = n div 32" unfolding unat_div b by simp
  have "16 * n mod 512 = 16 * (n mod 32)" using mult_mod_right [of 16 n 32] by simp
  then show "(w mod 512 = 0) = (n mod 32 = 0)" using assms(1) by (simp add: word_unat_eq_iff unat_mod)
qed

text \<open>Blocks whose bytes are the same are the same.\<close>

lemma same_block:
  assumes ch: "file_changes N sb ip i V V'"
    and b: "\<forall>x. x div 512 < MAX_BLOCKS \<and> present sb ip i V x \<longrightarrow> byte_of sb ip i V' x = byte_of sb ip i V x"
    and p: "\<forall>x. present sb ip i V' x = present sb ip i V x"
    and ok: "fs_ok V N sb" "file_ok V N sb (file_at ip i V)" and x: "x < MAX_BLOCKS" "slot_of sb ip i V (Data x) \<noteq> 0"
  shows "V' (data_pos sb (slot_of sb ip i V' (Data x))) = V (data_pos sb (slot_of sb ip i V (Data x)))"
proof (rule nth_equalityI)
  have s: "slot_of sb ip i V' (Data x) = slot_of sb ip i V (Data x)" using file_changes_slot [OF ch, of "Data x"] x by simp
  have "valid_idx N sb (slot_of sb ip i V (Data x))" using ok(2) x by (simp add: file_ok_def slot_of_def)
  note in_d = data_in_disk [OF fs_ok_geometry [OF ok(1)] this]
  have len: "length (V (data_pos sb (slot_of sb ip i V (Data x)))) = 512"
    "length (V' (data_pos sb (slot_of sb ip i V (Data x)))) = 512"
    using in_d ok(1) ch by (simp_all add: fs_ok_def file_changes_def)
  then show "length (V' (data_pos sb (slot_of sb ip i V' (Data x)))) = length (V (data_pos sb (slot_of sb ip i V (Data x))))"
    using s by simp
  fix y assume "y < length (V' (data_pos sb (slot_of sb ip i V' (Data x))))"
  then have y: "y < 512" using len s by simp
  then have d: "(512 * x + y) div 512 = x" "(512 * x + y) mod 512 = y" by simp_all
  have "byte_of sb ip i V' (512 * x + y) = byte_of sb ip i V (512 * x + y)" using b x d by (simp add: present_def)
  then show "V' (data_pos sb (slot_of sb ip i V' (Data x))) ! y = V (data_pos sb (slot_of sb ip i V (Data x))) ! y"
    by (simp add: byte_of_slot d y)
qed

definition padded :: "bytes \<Rightarrow> bytes" where
  "padded name = take 14 (cstr name @ replicate 14 0)"

text \<open>What \<open>add_dentry\<close> does to a directory with \<open>n\<close> entries: nothing when a block is needed and
  none is free, else \<open>e\<close> is entry \<open>n\<close>.\<close>

definition added ::
    "disk_view \<Rightarrow> nat \<Rightarrow> ktfs_superblock \<Rightarrow> u64 \<Rightarrow> nat \<Rightarrow> nat \<Rightarrow> ktfs_dir_entry \<Rightarrow> disk_view \<Rightarrow> bool" where
  "added V N sb ip i n e V' \<longleftrightarrow>
     V' = V \<and> n mod 32 = 0 \<and> slot_of sb ip i V (Data (n div 32)) = 0 \<and> (\<forall>x<bits_of sb. data_bit V sb x) \<or>
     file_changes N sb ip i V V' \<and> dir_ok V' N sb ip i (n + 1) \<and>
       (\<forall>j<n. dir_entry sb ip i V' j = dir_entry sb ip i V j) \<and> dir_entry sb ip i V' n = e"

definition empty_inode :: ktfs_inode where
  "empty_inode = \<lparr>ino_size = 0, ino_block = [0, 0, 0, 0], ino_indirect = 0, ino_dindirect = [0, 0]\<rparr>"

text \<open>Writing metadata that leaves the inode of the directory as it is.\<close>

lemma meta_keeps_dir:
  assumes dir: "dir_ok V N sb ip i n" and m: "meta_pos N sb p" and len: "length bs = 512"
    and same: "file_at ip i (V(p := bs)) = file_at ip i V"
  shows "dir_ok (V(p := bs)) N sb ip i n" "\<And>j. j < n \<Longrightarrow> dir_entry sb ip i (V(p := bs)) j = dir_entry sb ip i V j"
proof -
  let ?V = "V(p := bs)" and ?ino = "file_at ip i V"
  have ok: "fs_ok V N sb" "file_ok V N sb ?ino" using dir by (simp_all add: dir_ok_def)
  note u = meta_upd [OF ok(1) m len]
  have data: "?V (data_pos sb (slot_ptr V sb ?ino s)) = V (data_pos sb (slot_ptr V sb ?ino s))"
    if "is_slot s" "slot_ptr V sb ?ino s \<noteq> 0" for s
    using ok(2) that by (intro u(3)) (simp add: file_ok_def)
  have slots: "slot_ptr ?V sb ?ino s = slot_ptr V sb ?ino s" if "is_slot s" for s
    by (rule slot_ptr_cong [OF _ refl that]) (use data in blast)
  have "inode_wf ?ino" using ok(2) by (simp add: file_ok_def)
  from file_ok_cong [OF ok(2) this slots] u(2) have "file_ok ?V N sb ?ino" by blast
  moreover have "dense ?V sb ?ino (16 * n)" using dir slots by (auto simp: dir_ok_def dense_def)
  ultimately show "dir_ok ?V N sb ip i n" using dir u(1) same by (simp add: dir_ok_def)
  show "dir_entry sb ip i ?V j = dir_entry sb ip i V j" if j: "j < n" for j
  proof -
    note d = dir_slot [OF dir j]
    then have "slot_of sb ip i ?V (Data (j div 32)) = slot_of sb ip i V (Data (j div 32))"
      using slots [of "Data (j div 32)"] same by (simp add: slot_of_def)
    moreover have "?V (data_pos sb (slot_of sb ip i V (Data (j div 32)))) = V (data_pos sb (slot_of sb ip i V (Data (j div 32))))"
      using data [of "Data (j div 32)"] d by (simp add: slot_of_def)
    ultimately show ?thesis by (simp add: dir_entry_slot)
  qed
qed

lemma unat_inode_bitmap_0: "unat (inode_bitmap_pos 0) = 512"
  by (simp add: inode_bitmap_pos_def)

lemma inode_bitmap_meta:
  assumes g: "geometry N sb" and K: "0 < unat (sb_inode_bitmap_block_count sb)"
  shows "meta_pos N sb (inode_bitmap_pos 0)"
    "n div 16 < unat (sb_inode_block_count sb) \<Longrightarrow> inode_pos sb n \<noteq> inode_bitmap_pos 0"
    "inode_bitmap_pos 0 \<noteq> 0"
proof -
  have "inode_bitmap_pos 0 \<noteq> bitmap_pos sb (of_nat j)" if "j < unat (sb_bitmap_block_count sb)" for j
    using unat_bitmap_pos [OF g that] unat_inode_bitmap_0 K by auto
  moreover have "inode_bitmap_pos 0 \<noteq> data_pos sb a" if "valid_idx N sb a" for a
    using unat_data_pos [OF g that] unat_inode_bitmap_0 K by (auto simp: data_start_def)
  moreover have "in_disk N (inode_bitmap_pos 0)" using inode_bitmap_in_disk [OF g K] by simp
  ultimately show "meta_pos N sb (inode_bitmap_pos 0)" by (auto simp: meta_pos_def)
  show "n div 16 < unat (sb_inode_block_count sb) \<Longrightarrow> inode_pos sb n \<noteq> inode_bitmap_pos 0"
    using unat_inode_pos [OF g, of n] unat_inode_bitmap_0 K by auto
  show "inode_bitmap_pos 0 \<noteq> 0" using unat_inode_bitmap_0 by auto
qed

text \<open>Flushing changes nothing but the dirty marks.\<close>

lemma flush_blocks_keep:
  "flush_blocks sto bs d = ((rc, bs'), d') \<Longrightarrow> map (\<lambda>b. b\<lparr>b_dirty := False\<rparr>) bs' = map (\<lambda>b. b\<lparr>b_dirty := False\<rparr>) bs"
  by (induction bs arbitrary: d rc bs' d') (auto split: if_splits prod.splits)

context steady_disk
begin

section \<open>Adding an entry\<close>

text \<open>An empty direct slot of the pinned inode is filled when a block is free.\<close>

lemma fill_field_steady:
  assumes rel: "cache_rel img ready V N H W c" and room: "size H < 63" and k: "(kr, ip) \<in># H" and i: "i < 16"
    and m: "meta_pos N sb ip" and ok: "fs_ok V N sb" "file_ok V N sb (file_at ip i V)" and b: "b < 4"
    and may: "may \<or> slot_of sb ip i V (Data b) \<noteq> 0"
  shows "\<exists>r V' c'. fill_field intf sb may kr i (\<lambda>ino. ino_block ino ! b) (put_block b) c = (r, c') \<and>
     cache_rel img ready V' N H (if r = Inl (- ENOTSUP) then W else insert kr W) c' \<and>
     (r = Inl (- ENOTSUP) \<and> V' = V \<and> slot_of sb ip i V (Data b) = 0 \<and> (\<forall>n<bits_of sb. data_bit V sb n) \<or>
      (\<exists>v. r = Inr v \<and> v \<noteq> 0 \<and> slot_of sb ip i V' (Data b) = v \<and> file_changes N sb ip i V V' \<and>
         ino_size (file_at ip i V') = ino_size (file_at ip i V) \<and>
         (\<forall>x. x < MAX_BLOCKS \<and> slot_of sb ip i V (Data x) \<noteq> 0 \<longrightarrow>
            V' (data_pos sb (slot_of sb ip i V (Data x))) = V (data_pos sb (slot_of sb ip i V (Data x))))))"
proof -
  let ?ino = "file_at ip i V"
  have F: "inode_in kr i c = ?ino" using cache_rel_bytes [OF rel k] by (simp add: inode_in_def file_at_def)
  have s: "is_slot (Data b)" "up (Data b) = None" using b by simp_all
  have sv: "slot_of sb ip i V (Data b) = ino_block ?ino ! b" using b by (simp add: slot_of_def slot_ptr_root)
  have kW: "cache_rel img ready V N H (insert kr W) c'" if "cache_rel img ready V N H W c'" for c'
  proof (rule cache_rel_more_written [OF that])
    have "kr \<in> fst ` set_mset H" using k by (metis fst_conv image_eqI)
    then show "insert kr W \<subseteq> fst ` set_mset H" using cache_rel_written [OF that] by simp
  qed auto
  show ?thesis
  proof (cases "ino_block ?ino ! b = 0")
    case False
    then have "fill_field intf sb may kr i (\<lambda>ino. ino_block ino ! b) (put_block b) c = (Inr (ino_block ?ino ! b), c)"
      by (simp add: fill_field_def F)
    with False sv kW [OF rel] file_changes_refl [OF ok] show ?thesis by auto
  next
    case True
    then have may: "may" using may sv by simp
    have z: "ptr_slot (Data b) \<longrightarrow> False" by (simp add: ptr_slot_def)
    have room': "size H < 64" using room by simp
    have sz: "slot_ptr V sb ?ino (Data b) = 0" using True b by (simp add: slot_ptr_root)
    from alloc_root_slot [OF alloc_data_block_allocates rel room' ok s sz z] show ?thesis
    proof (elim disjE exE conjE, goal_cases)
      case (1 c')
      then have "fill_field intf sb may kr i (\<lambda>ino. ino_block ino ! b) (put_block b) c = (Inl (- ENOTSUP), c')"
        using True may by (simp add: fill_field_def F)
      with 1 sv True show ?case by auto
    next
      case (2 new V1 c1)
      let ?ino1 = "put_block b new ?ino"
      have wf: "inode_wf ?ino" using ok(2) by (simp add: file_ok_def)
      have wf1: "inode_wf ?ino1" using wf by (simp add: inode_wf_def put_block_def)
      have "inode_slot ?ino1 t = (if t = Data b then new else inode_slot ?ino t)" if "is_slot t" "up t = None" for t
        using that wf b by (cases t) (auto simp: put_block_def inode_wf_def nth_list_update split: if_splits)
      with 2(4) [rule_format, of ?ino1] wf1 have gr: "file_grows N sb V ?ino V1 ?ino1" "slot_ptr V1 sb ?ino1 (Data b) = new"
        by (auto simp: put_block_def)
      let ?V' = "V1(ip := put_inode i ?ino1 (V1 ip))"
      note gc = grow_changes [OF ok(1) gr(1) m i, where sz = "ino_size ?ino1", simplified, OF refl]
      have F1: "inode_in kr i c1 = ?ino" using cache_rel_bytes [OF 2(3) k] gc(6) by (simp add: inode_in_def file_at_def)
      have bb: "block_bytes kr c1 = V1 ip" by (rule cache_rel_bytes [OF 2(3) k])
      have "length (V1 ip) = 512" by (rule cache_rel_length [OF 2(3)]) (use m in \<open>simp add: meta_pos_def\<close>)
      then have rel': "cache_rel img ready ?V' N H (insert kr W) (inode_set kr i ?ino1 c1)"
        unfolding inode_set_def bb by (intro write_steady [OF 2(3) k]) (use wf1 i in simp)
      have run: "fill_field intf sb may kr i (\<lambda>ino. ino_block ino ! b) (put_block b) c = (Inr new, inode_set kr i ?ino1 c1)"
        using True may 2(1) F1 by (simp add: fill_field_def F)
      have keep: "?V' (data_pos sb (slot_of sb ip i V (Data x))) = V (data_pos sb (slot_of sb ip i V (Data x)))"
        if x: "x < MAX_BLOCKS" "slot_of sb ip i V (Data x) \<noteq> 0" for x
      proof -
        let ?a = "slot_of sb ip i V (Data x)"
        have a: "valid_idx N sb ?a" "unat ?a < bits_of sb" "data_bit V sb (unat ?a)"
          using ok(2) x by (simp_all add: file_ok_def slot_of_def)
        have "slot_ptr V sb ?ino u \<noteq> ?a" if "is_slot u" "ptr_slot u" for u
          using ok(2) x that unfolding file_ok_def slot_of_def ptr_slot_def by (metis is_slot.simps(1))
        then have "V1 (data_pos sb ?a) = V (data_pos sb ?a)" using gr(1) a by (simp add: file_grows_def)
        then show ?thesis using gc(4) [OF a(1)] by simp
      qed
      have "slot_of sb ip i ?V' (Data b) = new" using gc(3) [OF s(1)] gr(2) by simp
      moreover have "ino_size (file_at ip i ?V') = ino_size ?ino" using gc(2) by (simp add: put_block_def)
      ultimately show ?case using run rel' gc(1) keep 2(2) by auto
    qed
  qed
qed

lemma add_direct_steady:
  assumes rel: "cache_rel img ready V N (add_mset (kr, ip) H) W c" and room: "size H < 60"
    and W: "W \<subseteq> fst ` set_mset H" and i: "i < 16" and m: "meta_pos N sb ip" and dir: "dir_ok V N sb ip i n"
    and n: "n < 128" and e: "length (de_name e) = 14"
  shows "\<exists>c' V'. add_direct intf sb kr i e (ino_size (file_at ip i V)) c = Some c' \<and> cache_rel img ready V' N H W c' \<and>
     (V' = V \<and> n mod 32 = 0 \<and> slot_of sb ip i V (Data (n div 32)) = 0 \<and> (\<forall>x<bits_of sb. data_bit V sb x) \<or>
      file_changes N sb ip i V V' \<and> dir_ok V' N sb ip i (n + 1) \<and>
        (\<forall>j<n. dir_entry sb ip i V' j = dir_entry sb ip i V j) \<and> dir_entry sb ip i V' n = e)"
proof -
  let ?H = "add_mset (kr, ip) H" and ?b = "n div 32"
  let ?w = "ino_size (file_at ip i V)"
  have ok: "fs_ok V N sb" "file_ok V N sb (file_at ip i V)" and w: "unat ?w = 16 * n" and dn: "dense V sb (file_at ip i V) (16 * n)"
    using dir by (simp_all add: dir_ok_def)
  note sw = size_words [OF w]
  have b4: "?b < 4" using n by (simp add: less_mult_imp_div_less)
  have n27: "n < 2 ^ 27" using n by simp
  have kH: "(kr, ip) \<in># ?H" by simp
  have part: "n mod 32 = 0 \<or> slot_of sb ip i V (Data ?b) \<noteq> 0"
  proof (cases "n mod 32 = 0")
    case False
    then have "32 * ?b < n" by (metis div_mult_mod_eq less_add_same_cancel1 mult.commute neq0_conv)
    then have "512 * ?b < 16 * n" by simp
    then show ?thesis using dn by (simp add: dense_def slot_of_def)
  qed simp
  then have may: "?w mod 512 = 0 \<or> slot_of sb ip i V (Data ?b) \<noteq> 0" using sw(4) n27 by simp
  have "size ?H < 63" using room by simp
  from fill_field_steady [OF rel this kH i m ok b4 may] obtain r V1 c1 where
    f: "fill_field intf sb (?w mod 512 = 0) kr i (\<lambda>ino. ino_block ino ! ?b) (put_block ?b) c = (r, c1)"
      "cache_rel img ready V1 N ?H (if r = Inl (- ENOTSUP) then W else insert kr W) c1"
      "r = Inl (- ENOTSUP) \<and> V1 = V \<and> slot_of sb ip i V (Data ?b) = 0 \<and> (\<forall>n<bits_of sb. data_bit V sb n) \<or>
       (\<exists>v. r = Inr v \<and> v \<noteq> 0 \<and> slot_of sb ip i V1 (Data ?b) = v \<and> file_changes N sb ip i V V1 \<and>
         ino_size (file_at ip i V1) = ?w \<and>
         (\<forall>x. x < MAX_BLOCKS \<and> slot_of sb ip i V (Data x) \<noteq> 0 \<longrightarrow>
            V1 (data_pos sb (slot_of sb ip i V (Data x))) = V (data_pos sb (slot_of sb ip i V (Data x)))))" by blast
  have run: "add_direct intf sb kr i e ?w c = Some (add_finish intf sb kr i e (?w + 16) [] (r, c1))"
    using b4 sw(3) n27 f(1) by (simp add: add_direct_def Let_def)
  from f(3) show ?thesis
  proof (elim disjE exE conjE, goal_cases)
    case 1
    then have "cache_rel img ready V N ?H W c1" using f(2) by simp
    from release_clean_steady [OF this W] 1 part run show ?case by (auto simp: add_finish_def)
  next
    case (2 v)
    let ?S = "\<lambda>b. slot_of sb ip i V1 (Data b)"
    have f2: "cache_rel img ready V1 N ?H (insert kr W) c1" using f(2) 2 by simp
    have ok1: "fs_ok V1 N sb" "file_ok V1 N sb (file_at ip i V1)" using 2(4) by (simp_all add: file_changes_def)
    have bM: "?b < MAX_BLOCKS" using b4 by simp
    have v: "valid_idx N sb v" using ok1(2) bM 2(2,3) by (auto simp: file_ok_def slot_of_def)
    note g = fs_ok_geometry [OF ok1(1)]
    note pv = data_in_disk [OF g v]
    have "size ?H < 64" using room by simp
    from get_steady [OF f2 pv this] obtain kd c2 where k: "kget intf (data_pos sb v) c1 = (Inr kd, c2)"
      and r2: "cache_rel img ready V1 N (add_mset (kd, data_pos sb v) ?H) (insert kr W) c2" by auto
    let ?Hd = "add_mset (kd, data_pos sb v) ?H"
    let ?bs = "put_dentry (n mod 32) e (V1 (data_pos sb v))"
    let ?V2 = "V1(data_pos sb v := ?bs)"
    have bd: "block_bytes kd c2 = V1 (data_pos sb v)" by (rule cache_rel_bytes [OF r2]) simp
    have lv: "length (V1 (data_pos sb v)) = 512" by (rule cache_rel_length [OF r2 pv])
    have lb: "length ?bs = 512" using e lv by simp
    have r3: "cache_rel img ready ?V2 N ?Hd (insert kd (insert kr W)) (cache_write_buf kd ?bs c2)"
      by (rule write_steady [OF r2]) (use lb in simp_all)
    have "?S ?b \<noteq> 0" using 2(2,3) by simp
    note dc = data_changes [OF ok1 m bM this lb, of ?V2, unfolded 2(3), OF refl]
    have ok2: "fs_ok ?V2 N sb" "file_ok ?V2 N sb (file_at ip i ?V2)" using dc(1) by (simp_all add: file_changes_def)
    from set_size_steady [OF r3 _ i m ok2, of kr "?w + 16"] obtain V3 where
      r4: "cache_rel img ready V3 N ?Hd (insert kr (insert kd (insert kr W))) (entry_store kr i kd e (?w + 16) c2)"
      and s3: "file_changes N sb ip i ?V2 V3" "ino_size (file_at ip i V3) = ?w + 16"
        "\<forall>x. x div 512 < MAX_BLOCKS \<and> present sb ip i ?V2 x \<longrightarrow> byte_of sb ip i V3 x = byte_of sb ip i ?V2 x"
        "\<forall>x. present sb ip i V3 x = present sb ip i ?V2 x"
      using sw(2) n27 bd by (auto simp: entry_store_def Let_def)
    have "cache_rel img ready V3 N ?H (insert kr W) (cache_release_block kd True (entry_store kr i kd e (?w + 16) c2))"
      by (rule release_dirty_steady [OF r4]) (use W in auto)
    then have "cache_rel img ready V3 N H W (release_all True [kd, kr] (entry_store kr i kd e (?w + 16) c2))"
      unfolding release_all.simps by (rule release_dirty_steady) (use W in auto)
    moreover have "add_direct intf sb kr i e ?w c = Some (release_all True [kd, kr] (entry_store kr i kd e (?w + 16) c2))"
      using run 2(1) k by (simp add: add_finish_def)
    moreover have ch: "file_changes N sb ip i V V3"
      by (rule file_changes_trans [OF file_changes_trans [OF 2(4) dc(1)] s3(1)])
    moreover have blk: "V3 (data_pos sb (slot_of sb ip i V3 (Data x))) = (if x = ?b then ?bs else V (data_pos sb (slot_of sb ip i V (Data x))))"
      "slot_of sb ip i V3 (Data x) \<noteq> 0"
      if x: "x < MAX_BLOCKS" "x = ?b \<or> slot_of sb ip i V (Data x) \<noteq> 0" for x
    proof -
      have x1: "?S x \<noteq> 0" using x 2(2,3) file_changes_slot [OF 2(4), of "Data x"] by auto
      then have x2: "slot_of sb ip i ?V2 (Data x) \<noteq> 0" using dc(3) [of "Data x"] x(1) by simp
      then show "slot_of sb ip i V3 (Data x) \<noteq> 0" using file_changes_slot [OF s3(1), of "Data x"] x(1) by simp
      have "V3 (data_pos sb (slot_of sb ip i V3 (Data x))) = ?V2 (data_pos sb (slot_of sb ip i ?V2 (Data x)))"
        by (rule same_block [OF s3(1,3,4) ok2 x(1) x2])
      also have "\<dots> = (if x = ?b then ?bs else V1 (data_pos sb (?S x)))"
        using dc(3) [of "Data x"] dc(4) [OF x(1) x1] x(1) by simp
      also have "\<dots> = (if x = ?b then ?bs else V (data_pos sb (slot_of sb ip i V (Data x))))"
        using x 2(6) file_changes_slot [OF 2(4), of "Data x"] by auto
      finally show "V3 (data_pos sb (slot_of sb ip i V3 (Data x))) = (if x = ?b then ?bs else V (data_pos sb (slot_of sb ip i V (Data x))))" .
    qed
    moreover have "dir_entry sb ip i V3 j = dir_entry sb ip i V j" if j: "j < n" for j
    proof -
      note d = dir_slot [OF dir j]
      show ?thesis
      proof (cases "j div 32 = ?b")
        case True
        then have ne: "j mod 32 \<noteq> n mod 32" using j by (metis div_mult_mod_eq less_irrefl)
        have "v = slot_of sb ip i V (Data ?b)" using file_changes_slot [OF 2(4), of "Data ?b"] d 2(3) True by simp
        then have "V1 (data_pos sb v) = V (data_pos sb (slot_of sb ip i V (Data ?b)))" using 2(6) d True by auto
        then show ?thesis using blk(1) [OF d(1)] d(2) True ne e lv by (simp add: dir_entry_slot dentry_at_put)
      qed (use blk(1) [OF d(1)] d(2) in \<open>simp add: dir_entry_slot\<close>)
    qed
    moreover have "dir_entry sb ip i V3 n = e"
      using blk(1) [OF bM] e lv by (simp add: dir_entry_slot dentry_at_put)
    moreover have "dir_ok V3 N sb ip i (n + 1)"
    proof -
      have "dense V3 sb (file_at ip i V3) (16 * (n + 1))"
        unfolding dense_def
      proof (intro allI impI)
        fix x assume x: "512 * x < 16 * (n + 1)"
        then have xb: "x \<le> ?b" by simp
        have "x = ?b \<or> slot_of sb ip i V (Data x) \<noteq> 0"
        proof (cases "x = ?b")
          case False
          then have "x < ?b" using xb by simp
          then have "512 * x < 16 * n" by simp
          then show ?thesis using dn by (simp add: dense_def slot_of_def)
        qed simp
        moreover have "x < MAX_BLOCKS" using xb b4 by simp
        ultimately show "x < MAX_BLOCKS \<and> slot_ptr V3 sb (file_at ip i V3) (Data x) \<noteq> 0"
          using blk(2) [of x] by (simp add: slot_of_def)
      qed
      then show ?thesis using ch s3(2) sw(1) n27 by (simp add: dir_ok_def file_changes_def)
    qed
    ultimately show ?case by blast
  qed
qed

text \<open>The lookup of \<open>ktfs_create\<close>.\<close>

lemma lookup_create_steady:
  assumes rel: "cache_rel img ready V N H W c" and room: "size H < 62"
    and ok: "fs_ok V N sb" "file_ok V N sb ino" and dn: "dense V sb ino (16 * n)"
    and name: "nul_terminated name" "names_ok V sb ino n" and n: "n \<le> 128"
    and ind: "in_disk N (data_pos sb (ino_indirect ino))"
  shows "\<exists>res c'. lookup_create intf sb ino name n c = Some (res, c') \<and>
     (case find_entry V sb ino n name of
        None \<Rightarrow> res = Smiss n \<and> cache_rel img ready V N H W c'
      | Some j \<Rightarrow> \<exists>ks kd ps. res = Shit ks kd (j mod 32) \<and> length ps = length ks \<and> length ks \<le> 2 \<and>
          cache_rel img ready V N (add_mset (kd, entry_pos V sb ino j) (mset (zip ks ps) + H)) W c')"
proof -
  have wf: "inode_wf ino" using ok(2) by (simp add: file_ok_def)
  have blk: "ino_block ino = map (\<lambda>j. slot_ptr V sb ino (Data j)) [0..<4]"
    using wf by (auto simp: inode_wf_def slot_ptr_root intro!: nth_equalityI)
  have room': "size H < 64" using room by simp
  note d = seeks_direct [OF room' ok dn name, where m = 0 and L = 2, folded blk]
  have mn: "min (32 * 0) n = 0" "min (32 * 4) n = n" using n by simp_all
  from seeksD [OF d rel, unfolded mn] obtain r1 c1 where
    1: "search_direct intf sb name n (ino_block ino) 0 c = Some (r1, c1)"
      "case find_entry V sb ino n name of
        None \<Rightarrow> r1 = Smiss n \<and> cache_rel img ready V N H W c1
      | Some j \<Rightarrow> \<exists>ks kd ps. r1 = Shit ks kd (j mod 32) \<and> length ps = length ks \<and> length ks \<le> 2 \<and>
          cache_rel img ready V N (add_mset (kd, entry_pos V sb ino j) (mset (zip ks ps) + H)) W c1"
    unfolding find_entry_def by auto
  show ?thesis
  proof (cases "find_entry V sb ino n name")
    case None
    then have r: "r1 = Smiss n" "cache_rel img ready V N H W c1" using 1(2) by simp_all
    from get_steady [OF r(2) ind room'] obtain k c2 where k: "kget intf (data_pos sb (ino_indirect ino)) c1 = (Inr k, c2)"
      and r2: "cache_rel img ready V N (add_mset (k, data_pos sb (ino_indirect ino)) H) W c2" by auto
    have r3: "cache_rel img ready V N H W (cache_release_block k False c2)"
      by (rule release_clean_steady [OF r2 cache_rel_written [OF rel]])
    have stop: "search_ptrs intf sb name n k js n c2 = Some (Smiss n, c2)" for js by (cases js) simp_all
    have "search_dindirect intf sb name n qs n x = Some (Smiss n, x)" for qs x by (cases qs) simp_all
    then have "lookup_create intf sb ino name n c = Some (Smiss n, cache_release_block k False c2)"
      using 1(1) r(1) k stop by (simp add: lookup_create_def search_indirect_def search_around_def)
    with r3 None show ?thesis by simp
  next
    case (Some j)
    with 1(2) obtain ks kd ps where h: "r1 = Shit ks kd (j mod 32)" "length ps = length ks" "length ks \<le> 2"
      "cache_rel img ready V N (add_mset (kd, entry_pos V sb ino j) (mset (zip ks ps) + H)) W c1" by auto
    then have "lookup_create intf sb ino name n c = Some (r1, c1)" using 1(1) by (simp add: lookup_create_def)
    with h Some show ?thesis by auto
  qed
qed

lemma flush_steady:
  assumes rel: "cache_rel img ready V N H W c"
  shows "cache_rel img ready V N H W (snd (cache_flush intf c))"
proof -
  obtain rc c' where f: "cache_flush intf c = (rc, c')" by (cases "cache_flush intf c")
  obtain bs d where b: "flush_blocks intf (c_blocks c) (c_disk c) = ((rc, bs), d)" and c': "c' = c\<lparr>c_blocks := bs, c_disk := d\<rparr>"
    using f by (auto simp: cache_flush_def split: prod.splits)
  from cache_flush_spec [OF cache_rel_inv [OF rel] whole_blocks f]
  have sp: "cache_inv img ready W c'" "same_view img c c'" by simp_all
  let ?u = "\<lambda>b. b\<lparr>b_dirty := False\<rparr>"
  have keep: "?u ` set bs = ?u ` set (c_blocks c)" using arg_cong [OF flush_blocks_keep [OF b], of set] by simp
  have fields: "b_id (?u b) = b_id b" "b_pins (?u b) = b_pins b" "b_pos (?u b) = b_pos b" for b by simp_all
  have to: "\<exists>y\<in>set (c_blocks c). ?u x = ?u y" if "x \<in> set bs" for x using that keep by blast
  have from_old: "\<exists>y\<in>set bs. ?u x = ?u y" if "x \<in> set (c_blocks c)" for x using that keep by (metis (no_types, lifting) image_iff)
  show ?thesis
    unfolding f snd_conv cache_rel_def
  proof (intro conjI ballI allI impI)
    show "cache_inv img ready W c'" by (rule sp(1))
    show "length (img (c_disk c')) = N" using sp(2) rel by (simp add: same_view_def cache_rel_def)
    fix q assume "in_disk N q"
    then show "cache_view img c' q = V q"
      using sp(2) rel in_disk_on_disk [of img c N q] by (simp add: same_view_def cache_rel_def)
  next
    fix x assume "x \<in> set (c_blocks c')"
    then obtain y where y: "y \<in> set (c_blocks c)" "?u x = ?u y" using to c' by auto
    then have "b_id x = b_id y" "b_pins x = b_pins y" using fields by metis+
    then show "b_pins x = count (image_mset fst H) (b_id x)" using rel y(1) by (simp add: cache_rel_def)
  next
    fix h assume "h \<in># H"
    then obtain x where x: "x \<in> set (c_blocks c)" "b_id x = fst h" "b_pos x = snd h" using rel by (auto simp: cache_rel_def)
    from from_old [OF x(1)] obtain y where y: "y \<in> set bs" "?u x = ?u y" by auto
    then have "b_id x = b_id y" "b_pos x = b_pos y" using fields by metis+
    then show "\<exists>b\<in>set (c_blocks c'). b_id b = fst h \<and> b_pos b = snd h" using x y(1) c' by auto
  qed
qed

text \<open>The first block of the inode bitmap has a free inode.\<close>

lemma find_free_inode_steady:
  assumes rel: "cache_rel img ready V N H W c" and room: "size H < 64" and g: "geometry N sb"
    and K: "0 < unat (sb_inode_bitmap_block_count sb)" and b: "first_clear (V (inode_bitmap_pos 0)) = Some m"
  shows "\<exists>c'. find_free_inode intf sb c = (int m, c') \<and> cache_rel img ready V N H W c'"
proof -
  have p: "in_disk N (inode_bitmap_pos 0)" using inode_bitmap_in_disk [OF g K] by simp
  from get_steady [OF rel p] room obtain k c1 where k: "kget intf (inode_bitmap_pos 0) c = (Inr k, c1)"
    and r1: "cache_rel img ready V N (add_mset (k, inode_bitmap_pos 0) H) W c1" by auto
  have "block_bytes k c1 = V (inode_bitmap_pos 0)" by (rule cache_rel_bytes [OF r1]) simp
  moreover have "[0..<unat (sb_inode_bitmap_block_count sb)] = 0 # [1..<unat (sb_inode_bitmap_block_count sb)]"
    using K by (simp add: upt_conv_Cons)
  moreover have "cache_rel img ready V N H W (cache_release_block k False c1)"
    by (rule release_clean_steady [OF r1 cache_rel_written [OF rel]])
  ultimately show ?thesis using k b by (simp add: find_free_inode_def)
qed

lemma set_inode_status_steady:
  assumes rel: "cache_rel img ready V N H W c" and room: "size H < 64" and g: "geometry N sb"
    and K: "0 < unat (sb_inode_bitmap_block_count sb)" and m: "m < 4096"
  shows "cache_rel img ready (V(inode_bitmap_pos 0 := put_bit m v (V (inode_bitmap_pos 0)))) N H W
     (set_inode_status intf (word_of_int (int m)) v c)"
proof -
  have p: "in_disk N (inode_bitmap_pos 0)" using inode_bitmap_in_disk [OF g K] by simp
  from get_steady [OF rel p] room obtain k c1 where k: "kget intf (inode_bitmap_pos 0) c = (Inr k, c1)"
    and r1: "cache_rel img ready V N (add_mset (k, inode_bitmap_pos 0) H) W c1" by auto
  have b: "block_bytes k c1 = V (inode_bitmap_pos 0)" by (rule cache_rel_bytes [OF r1]) simp
  have "length (V (inode_bitmap_pos 0)) = 512" by (rule cache_rel_length [OF rel p])
  then have "length (put_bit m v (V (inode_bitmap_pos 0))) = 512" by simp
  note up = update_block_steady [OF r1 cache_rel_written [OF rel] this]
  have u: "unat (word_of_int (int m) :: u32) = m" using m by (simp add: unat_word_of_nat_small)
  then have "(word_of_int (int m) :: u32) div of_nat 4096 = 0" using m by (simp add: word_arith_nat_div)
  then show ?thesis using up k b u m by (simp add: set_inode_status_def)
qed

text \<open>A name padded to the width of an entry.\<close>

lemma strncpy_name:
  assumes "nul_terminated name" and "length (cstr name) \<le> 13"
  shows "strncpy (replicate 14 0) name 14 = Some (padded name)" "length (padded name) = 14"
    "nul_terminated (padded name)" "cstr (padded name) = cstr name"
proof -
  show "strncpy (replicate 14 0) name 14 = Some (padded name)"
    using strncpy_nul_terminated [OF assms(1), of 14 "replicate 14 0"] by (simp add: padded_def)
  show "length (padded name) = 14" by (simp add: padded_def)
  have p: "padded name = cstr name @ replicate (14 - length (cstr name)) 0"
    using assms(2) by (simp add: padded_def)
  obtain x where x: "14 - length (cstr name) = Suc x" using assms(2) by (cases "14 - length (cstr name)") auto
  show "nul_terminated (padded name)" using x unfolding p nul_terminated_def by simp
  show "cstr (padded name) = cstr name" unfolding p x using zero_notin_cstr by simp
qed

lemma add_dentry_steady:
  assumes rel: "cache_rel img ready V N H W c" and room: "size H < 60"
    and r: "r = unat (sb_root_directory_inode sb)" "r div 16 < unat (sb_inode_block_count sb)"
    and dir: "dir_ok V N sb (inode_pos sb r) (r mod 16) n" and n: "n < 128"
    and name: "nul_terminated name" "length (cstr name) \<le> 13"
  shows "\<exists>c' V'. add_dentry intf name sb m c = Some c' \<and> cache_rel img ready V' N H W c' \<and>
     added V N sb (inode_pos sb r) (r mod 16) n \<lparr>de_inode = m, de_name = padded name\<rparr> V'"
proof -
  let ?ip = "inode_pos sb r"
  have g: "geometry N sb" using dir fs_ok_geometry [of V N sb] by (simp add: dir_ok_def)
  note mp = inode_meta_pos [OF g r(2)]
  have p: "in_disk N ?ip" by (rule inode_in_disk [OF g r(2)])
  have "size H < 64" using room by simp
  from get_steady [OF rel p this] obtain kr c1 where k: "kget intf ?ip c = (Inr kr, c1)"
    and r1: "cache_rel img ready V N (add_mset (kr, ?ip) H) W c1" by auto
  have F: "inode_in kr (r mod 16) c1 = file_at ?ip (r mod 16) V"
    using cache_rel_bytes [OF r1, of kr ?ip] by (simp add: inode_in_def file_at_def)
  let ?w = "ino_size (file_at ?ip (r mod 16) V)"
  have "unat ?w = 16 * n" using dir by (simp add: dir_ok_def)
  from size_words(1) [OF this] n have "unat (?w + 16) \<le> 2048" by simp
  then have small: "?w + of_nat KTFS_DENSZ \<le> size_direct" by (simp add: word_le_nat_alt size_direct_def)
  have i: "r mod 16 < 16" by simp
  from add_direct_steady [OF r1 room cache_rel_written [OF rel] i mp dir n, of "\<lparr>de_inode = m, de_name = padded name\<rparr>"]
    strncpy_name(2) [OF name] obtain c' V' where
    "add_direct intf sb kr (r mod 16) \<lparr>de_inode = m, de_name = padded name\<rparr> ?w c1 = Some c'"
      "cache_rel img ready V' N H W c'" "added V N sb ?ip (r mod 16) n \<lparr>de_inode = m, de_name = padded name\<rparr> V'"
    unfolding added_def by auto
  moreover have "add_dentry intf name sb m c = add_direct intf sb kr (r mod 16) \<lparr>de_inode = m, de_name = padded name\<rparr> ?w c1"
    using k F r(1) small strncpy_name(1) [OF name] by (simp add: add_dentry_def Let_def)
  ultimately show ?thesis by auto
qed

section \<open>Creating a file\<close>

lemma ktfs_create_steady:
  assumes rel: "cache_rel img ready V N H W (ks_cache fs)" and room: "size H < 55"
    and sb: "sb = superblock_of (V 0)"
    and r: "r = unat (sb_root_directory_inode sb)" "r div 16 < unat (sb_inode_block_count sb)"
    and dir: "dir_ok V N sb (inode_pos sb r) (r mod 16) n" and n: "n < 128"
    and root: "root = file_at (inode_pos sb r) (r mod 16) V" "names_ok V sb root n"
    and ind: "in_disk N (data_pos sb (ino_indirect root))"
    and name: "nul_terminated name" "length (cstr name) \<le> 13"
    and free: "0 < unat (sb_inode_bitmap_block_count sb)" "first_clear (V (inode_bitmap_pos 0)) = Some m"
      "m div 16 < unat (sb_inode_block_count sb)"
  shows "\<exists>rc c'. ktfs_create intf False (Some name) fs = Some (rc, fs\<lparr>ks_cache := c'\<rparr>) \<and>
     (case find_entry V sb root n name of
        Some j \<Rightarrow> rc = - ENOTSUP \<and> cache_rel img ready V N H W c'
      | None \<Rightarrow> rc = 0 \<and> (\<exists>V1.
          added (V(inode_bitmap_pos 0 := put_bit m True (V (inode_bitmap_pos 0)))) N sb (inode_pos sb r) (r mod 16) n
            \<lparr>de_inode = of_nat m, de_name = padded name\<rparr> V1 \<and>
          cache_rel img ready (V1(inode_pos sb m := put_inode (m mod 16) empty_inode (V1 (inode_pos sb m)))) N H W c'))"
proof -
  let ?ip = "inode_pos sb r" and ?i = "r mod 16" and ?bm = "inode_bitmap_pos 0"
  have ok: "fs_ok V N sb" "file_ok V N sb root" "dense V sb root (16 * n)" "unat (ino_size root) = 16 * n"
    using dir root(1) by (simp_all add: dir_ok_def)
  note g = fs_ok_geometry [OF ok(1)] and W = cache_rel_written [OF rel]
  have p0: "in_disk N 0" using g by (simp add: geometry_def in_disk_def data_start_def)
  from get_steady [OF rel p0] room obtain ksb c1 where k: "kget intf 0 (ks_cache fs) = (Inr ksb, c1)"
    and r1: "cache_rel img ready V N (add_mset (ksb, 0) H) W c1" by auto
  let ?H = "add_mset (ksb, 0) H"
  have W': "W \<subseteq> fst ` set_mset ?H" using W by auto
  have b: "superblock_of (block_bytes ksb c1) = sb" using cache_rel_bytes [OF r1, of ksb 0] sb by simp
  from get_inode_steady [OF r1, of sb "sb_root_directory_inode sb"] inode_in_disk [OF g r(2)] room r(1) root(1)
  obtain c2 where gi: "get_inode intf sb (sb_root_directory_inode sb) c1 = (Inr root, c2)"
    and r2: "cache_rel img ready V N ?H W c2" by (auto simp: file_at_def)
  have rm: "size ?H < 62" "size ?H < 64" "size ?H < 60" using room by simp_all
  have nd: "unat (ino_size root) div 16 = n" using ok(4) by simp
  have n128: "n \<le> 128" using n by simp
  obtain l where l: "strlen (Some name) = Some l" "l \<le> 13"
    using name by (simp add: strlen_def strlen_loop_eq)
  from lookup_create_steady [OF r2 rm(1) ok(1-3) name(1) root(2) n128 ind] obtain res c3 where
    3: "lookup_create intf sb root name n c2 = Some (res, c3)"
     "case find_entry V sb root n name of
        None \<Rightarrow> res = Smiss n \<and> cache_rel img ready V N ?H W c3
      | Some j \<Rightarrow> \<exists>ks kd ps. res = Shit ks kd (j mod 32) \<and> length ps = length ks \<and> length ks \<le> 2 \<and>
          cache_rel img ready V N (add_mset (kd, entry_pos V sb root j) (mset (zip ks ps) + ?H)) W c3"
    by (elim exE conjE)
  have run: "ktfs_create intf False (Some name) fs =
      (case res of Sfail rc \<Rightarrow> Some (rc, fs\<lparr>ks_cache := c3\<rparr>)
       | Shit ks kd e \<Rightarrow> Some (- ENOTSUP, fs\<lparr>ks_cache := release_all False (rev ks @ [kd, ksb]) c3\<rparr>)
       | Smiss n \<Rightarrow> map_option (\<lambda>(rc, c4). (rc, fs\<lparr>ks_cache := c4\<rparr>)) (create_found intf name ksb sb c3))"
    using k b gi 3(1) nd l by (simp add: ktfs_create_def Let_def split: search.split)
  show ?thesis
  proof (cases "find_entry V sb root n name")
    case (Some j)
    with 3(2) obtain ks kd ps where h: "res = Shit ks kd (j mod 32)" "length ps = length ks"
      "cache_rel img ready V N (add_mset (kd, entry_pos V sb root j) (mset (zip ks ps) + ?H)) W c3" by auto
    have "cache_rel img ready V N H W (release_all False (rev ks @ [kd, ksb]) c3)"
    proof (rule release_all_clean [where ps = "rev ps @ [entry_pos V sb root j, 0]"])
      have "zip (rev ks @ [kd, ksb]) (rev ps @ [entry_pos V sb root j, 0]) =
          rev (zip ks ps) @ [(kd, entry_pos V sb root j), (ksb, 0)]" using h(2) by (simp add: zip_rev)
      then show "cache_rel img ready V N (mset (zip (rev ks @ [kd, ksb]) (rev ps @ [entry_pos V sb root j, 0])) + H) W c3"
        using h(3) by (simp add: add_mset_commute)
    qed (use h(2) W in simp_all)
    with run h(1) Some show ?thesis by auto
  next
    case None
    with 3(2) have res: "res = Smiss n" and r3: "cache_rel img ready V N ?H W c3" by simp_all
    have m: "m < 4096" using first_clear_Some [OF free(2)] by simp
    from find_free_inode_steady [OF r3 rm(2) g free(1,2)] obtain c4 where
      4: "find_free_inode intf sb c3 = (int m, c4)" "cache_rel img ready V N ?H W c4" by auto
    let ?Vb = "V(?bm := put_bit m True (V ?bm))"
    let ?c5 = "set_inode_status intf (word_of_int (int m)) True c4"
    have r5: "cache_rel img ready ?Vb N ?H W ?c5" by (rule set_inode_status_steady [OF 4(2) rm(2) g free(1) m])
    note bm = inode_bitmap_meta [OF g free(1)]
    have "in_disk N ?bm" using bm(1) by (simp add: meta_pos_def)
    then have lb: "length (put_bit m True (V ?bm)) = 512" using ok(1) by (simp add: fs_ok_def)
    have same: "file_at ?ip ?i ?Vb = file_at ?ip ?i V" using bm(2) [OF r(2)] by (simp add: file_at_def)
    have dirb: "dir_ok ?Vb N sb ?ip ?i n" by (rule meta_keeps_dir(1) [OF dir bm(1) lb same])
    from add_dentry_steady [OF r5 rm(3) r dirb n name, of "of_nat m"] obtain c6 V1 where
      6: "add_dentry intf name sb (of_nat m) ?c5 = Some c6" "cache_rel img ready V1 N ?H W c6"
        "added ?Vb N sb ?ip ?i n \<lparr>de_inode = of_nat m, de_name = padded name\<rparr> V1" by auto
    let ?im = "inode_pos sb m"
    have pm: "in_disk N ?im" by (rule inode_in_disk [OF g free(3)])
    from get_steady [OF 6(2) pm] rm(2) obtain ki c7 where k7: "kget intf ?im c6 = (Inr ki, c7)"
      and r7: "cache_rel img ready V1 N (add_mset (ki, ?im) ?H) W c7" by auto
    let ?V' = "V1(?im := put_inode (m mod 16) empty_inode (V1 ?im))"
    let ?c8 = "inode_set ki (m mod 16) empty_inode c7"
    have b7: "block_bytes ki c7 = V1 ?im" by (rule cache_rel_bytes [OF r7]) simp
    have "length (V1 ?im) = 512" by (rule cache_rel_length [OF r7 pm])
    then have "cache_rel img ready ?V' N ?H W (cache_release_block ki True ?c8)"
      unfolding inode_set_def b7 by (intro update_block_steady [OF r7 W']) (simp add: inode_wf_def empty_inode_def)
    from release_clean_steady [OF this W]
    have "cache_rel img ready ?V' N H W (snd (cache_flush intf (cache_release_block ksb False (cache_release_block ki True ?c8))))"
      by (rule flush_steady)
    moreover have "create_found intf name ksb sb c3 =
        Some (0, snd (cache_flush intf (cache_release_block ksb False (cache_release_block ki True ?c8))))"
      using 4(1) 6(1) k7 by (simp add: create_found_def empty_inode_def)
    ultimately show ?thesis using run res None 6(3) by auto
  qed
qed

end

section \<open>Created files\<close>

definition dir_list :: "disk_view \<Rightarrow> ktfs_superblock \<Rightarrow> nat \<Rightarrow> ktfs_dir_entry list" where
  "dir_list V sb r = map (entry V sb (disk_inode V sb r)) [0..<unat (ino_size (disk_inode V sb r)) div 16]"

lemma dir_list_eq:
  assumes "dir_ok V N sb (inode_pos sb r) (r mod 16) n"
  shows "dir_list V sb r = map (dir_entry sb (inode_pos sb r) (r mod 16) V) [0..<n]"
  using assms by (simp add: dir_list_def dir_ok_def dir_entry_def disk_inode_def file_at_def)

lemma dir_ok_sound:
  "dir_ok V N sb (inode_pos sb r) (r mod 16) n \<Longrightarrow> r div 16 < unat (sb_inode_block_count sb) \<Longrightarrow> sound_file V N sb r"
  by (simp add: dir_ok_def sound_file_def disk_inode_def file_at_def)

lemma inode_pos_eq:
  assumes "geometry N sb" "a div 16 < unat (sb_inode_block_count sb)" "b div 16 < unat (sb_inode_block_count sb)"
    and "inode_pos sb a = inode_pos sb b" "a \<noteq> b"
  shows "a mod 16 \<noteq> b mod 16"
proof -
  have "unat (inode_pos sb a) = unat (inode_pos sb b)" using assms(4) by simp
  from this [unfolded unat_inode_pos [OF assms(1,2)] unat_inode_pos [OF assms(1,3)], THEN times_512_cancel]
  have "a div 16 = b div 16" by simp
  then show ?thesis using assms(5) by (metis div_mult_mod_eq)
qed

lemma create_view:
  assumes ok: "geometry N sb" and r: "r div 16 < unat (sb_inode_block_count sb)" and m: "m div 16 < unat (sb_inode_block_count sb)" "m \<noteq> r"
    and dir: "dir_ok V1 N sb (inode_pos sb r) (r mod 16) n"
    and V': "V' = V1(inode_pos sb m := put_inode (m mod 16) empty_inode (V1 (inode_pos sb m)))"
  shows "dir_ok V' N sb (inode_pos sb r) (r mod 16) n" "dir_list V' sb r = dir_list V1 sb r"
    "disk_inode V' sb m = empty_inode"
proof -
  let ?p = "inode_pos sb m"
  note mp = inode_meta_pos [OF ok m(1)]
  have len: "length (V1 ?p) = 512" using dir mp by (simp add: dir_ok_def fs_ok_def meta_pos_def)
  have wf: "inode_wf empty_inode" by (simp add: inode_wf_def empty_inode_def)
  have at: "inode_at (put_inode (m mod 16) empty_inode (V1 ?p)) j = (if j = m mod 16 then empty_inode else inode_at (V1 ?p) j)"
    if "j < 16" for j by (rule inode_at_put [OF wf that _ len]) simp
  then show "disk_inode V' sb m = empty_inode" by (simp add: disk_inode_def V')
  have same: "file_at (inode_pos sb r) (r mod 16) V' = file_at (inode_pos sb r) (r mod 16) V1"
    using inode_pos_eq [OF ok m(1) r _ m(2)] at [of "r mod 16"] by (auto simp: file_at_def V')
  have l: "length (put_inode (m mod 16) empty_inode (V1 ?p)) = 512" using wf len by simp
  note keep = meta_keeps_dir [OF dir mp l, folded V', OF same]
  show d: "dir_ok V' N sb (inode_pos sb r) (r mod 16) n" by (rule keep(1))
  show "dir_list V' sb r = dir_list V1 sb r"
    unfolding dir_list_eq [OF d] dir_list_eq [OF dir] using keep(2) by auto
qed

lemma demo_free_inode: "first_clear (demo_view (inode_bitmap_pos 0)) = Some 2"
proof -
  have v: "demo_view (inode_bitmap_pos 0) = put_bit 0 True (put_bit 1 True (zeros 512))"
    by (simp add: demo_view_def unat_inode_bitmap_0 demo_blocks_def)
  have z: "\<not> bit_at (zeros 512) b" if "b < 4096" for b
    using that by (simp add: bit_at_def zeros_def less_mult_imp_div_less)
  have b: "bit_at (demo_view (inode_bitmap_pos 0)) b \<longleftrightarrow> b < 2" if "b < 4096" for b
    using that z [OF that] by (auto simp: v bit_at_put less_mult_imp_div_less)
  have find_free: "find P [0..<n] = Some 2" if "n > 2" "\<not> P 0" "\<not> P 1" "P 2" for P and n :: nat
    using that by (auto simp: find_Some_iff less_Suc_eq numeral_2_eq_2 intro!: exI [of _ "Suc (Suc 0)"])
  show ?thesis unfolding first_clear_def by (rule find_free) (use b [of 0] b [of 1] b [of 2] in simp_all)
qed

text \<open>C18: Creating a file.  A name that the directory has already is refused and nothing
  changes.  Otherwise the first free inode is marked and cleared, the code returns 0, and the
  directory is the old one with the new entry appended -- or, when the entry needs a new block
  and no data block is free, exactly the old one: the failure of \<open>add_dentry\<close> is not reported.
  For directories within the direct blocks.\<close>

theorem ktfs_create_appends:
  assumes "steady_disk sto img ready" and "mounted img ready V N sb fs"
    and "r = unat (sb_root_directory_inode sb)" and "sound_file V N sb r"
    and "unat (ino_size (disk_inode V sb r)) = 16 * n" and "n < 128" and "names_ok V sb (disk_inode V sb r) n"
    and "in_disk N (data_pos sb (ino_indirect (disk_inode V sb r)))"
    and "0 < unat (sb_inode_bitmap_block_count sb)" and "first_clear (V (inode_bitmap_pos 0)) = Some m"
    and "m div 16 < unat (sb_inode_block_count sb)" and "m \<noteq> r"
    and "nul_terminated name" and "length (cstr name) \<le> 13"
  shows "\<exists>rc c' V'. ktfs_create sto False (Some name) fs = Some (rc, fs\<lparr>ks_cache := c'\<rparr>) \<and>
     mounted img ready V' N sb (fs\<lparr>ks_cache := c'\<rparr>) \<and>
     (if \<exists>d\<in>set (dir_list V sb r). cstr (de_name d) = cstr name then rc = - ENOTSUP \<and> V' = V
      else rc = 0 \<and> bit_at (V' (inode_bitmap_pos 0)) m \<and> disk_inode V' sb m = empty_inode \<and> sound_file V' N sb r \<and>
        (dir_list V' sb r = dir_list V sb r @ [\<lparr>de_inode = of_nat m, de_name = padded name\<rparr>] \<or>
         dir_list V' sb r = dir_list V sb r \<and> n mod 32 = 0 \<and> (\<forall>x<bits_of sb. data_bit V sb x)))"
proof -
  let ?ip = "inode_pos sb r" and ?i = "r mod 16" and ?bm = "inode_bitmap_pos 0"
  let ?root = "file_at ?ip ?i V" and ?new = "\<lparr>de_inode = of_nat m, de_name = padded name\<rparr>"
  have mo: "cache_rel img ready V N {#} {} (ks_cache fs)" "sb = superblock_of (V 0)" "fs_ok V N sb"
    using assms(2) by (auto simp: mounted_def)
  note g = fs_ok_geometry [OF mo(3)]
  have ri: "r div 16 < unat (sb_inode_block_count sb)" using assms(4) by (simp add: sound_file_def)
  have root: "disk_inode V sb r = ?root" by (simp add: disk_inode_def file_at_def)
  have dir: "dir_ok V N sb ?ip ?i n" using assms(4,5) mo(3) by (simp add: dir_ok_def sound_file_def root)
  have hit: "(\<exists>d\<in>set (dir_list V sb r). cstr (de_name d) = cstr name) \<longleftrightarrow> find_entry V sb ?root n name \<noteq> None"
    unfolding find_entry_None dir_list_eq [OF dir] by (auto simp: dir_entry_def)
  from steady_disk.ktfs_create_steady [OF assms(1) mo(1) _ mo(2) assms(3) ri dir assms(6) refl
      assms(7,8) [unfolded root] assms(13,14,9-11)]
  obtain rc c' where c': "ktfs_create sto False (Some name) fs = Some (rc, fs\<lparr>ks_cache := c'\<rparr>)"
    "case find_entry V sb ?root n name of
        Some j \<Rightarrow> rc = - ENOTSUP \<and> cache_rel img ready V N {#} {} c'
      | None \<Rightarrow> rc = 0 \<and> (\<exists>V1. added (V(?bm := put_bit m True (V ?bm))) N sb ?ip ?i n ?new V1 \<and>
          cache_rel img ready (V1(inode_pos sb m := put_inode (m mod 16) empty_inode (V1 (inode_pos sb m)))) N {#} {} c')"
    by auto
  show ?thesis
  proof (cases "find_entry V sb ?root n name")
    case (Some j)
    with c' hit mo show ?thesis by (intro exI [of _ rc] exI [of _ c'] exI [of _ V]) (simp add: mounted_def)
  next
    case None
    let ?Vb = "V(?bm := put_bit m True (V ?bm))"
    from None c'(2) obtain V1 where V1: "added ?Vb N sb ?ip ?i n ?new V1" and rc: "rc = 0" and
      rel: "cache_rel img ready (V1(inode_pos sb m := put_inode (m mod 16) empty_inode (V1 (inode_pos sb m)))) N {#} {} c'"
      by auto
    let ?V' = "V1(inode_pos sb m := put_inode (m mod 16) empty_inode (V1 (inode_pos sb m)))"
    note bm = inode_bitmap_meta [OF g assms(9)]
    have lb: "length (V ?bm) = 512" using bm(1) mo(3) by (simp add: meta_pos_def fs_ok_def)
    have m: "m < 4096" using first_clear_Some [OF assms(10)] by simp
    then have bit: "bit_at (put_bit m True (V ?bm)) m" using lb by (simp add: bit_at_put less_mult_imp_div_less)
    have same: "file_at ?ip ?i ?Vb = ?root" using bm(2) [OF ri] by (simp add: file_at_def)
    note keep = meta_keeps_dir [OF dir bm(1) _ same]
    have dirb: "dir_ok ?Vb N sb ?ip ?i n" using keep(1) lb by simp
    have eb: "dir_list ?Vb sb r = dir_list V sb r"
      unfolding dir_list_eq [OF dirb] dir_list_eq [OF dir] using keep(2) lb by auto
    have bits: "data_bit ?Vb sb x = data_bit V sb x" if "x < bits_of sb" for x
      by (rule meta_upd(2) [OF mo(3) bm(1) _ that]) (use lb in simp)
    have V0: "?Vb 0 = V 0" using bm(3) by simp
    have fin: ?thesis if d1: "dir_ok V1 N sb ?ip ?i n1" and keep1: "V1 0 = V 0" "V1 ?bm = ?Vb ?bm"
      and l: "dir_list V1 sb r = dir_list V sb r @ [?new] \<or>
         dir_list V1 sb r = dir_list V sb r \<and> n mod 32 = 0 \<and> (\<forall>x<bits_of sb. data_bit V sb x)" for n1
    proof -
      note v = create_view [OF g ri assms(11,12) d1 refl]
      have "?V' 0 = V 0" "?V' ?bm = ?Vb ?bm" using keep1 inode_pos_nonzero [OF g assms(11)] bm(2) [OF assms(11)] by auto
      then have "mounted img ready ?V' N sb (fs\<lparr>ks_cache := c'\<rparr>)" "bit_at (?V' ?bm) m"
        using rel v(1) mo(2) bit by (simp_all add: mounted_def dir_ok_def)
      then show ?thesis using c'(1) rc hit None v(2,3) l dir_ok_sound [OF v(1) ri]
        by (intro exI [of _ rc] exI [of _ c'] exI [of _ ?V']) simp
    qed
    from V1 [unfolded added_def] show ?thesis
    proof (elim disjE conjE, goal_cases)
      case 1
      with dirb eb bits V0 show ?case by (intro fin [of n]) auto
    next
      case 2
      have "V1 ?bm = ?Vb ?bm" using 2(1) bm(1) bm(2) [OF ri] by (auto simp: file_changes_def meta_pos_def)
      moreover have "V1 0 = V 0" using file_changes_super [OF 2(1) ri] V0 by simp
      moreover have "dir_list V1 sb r = dir_list V sb r @ [?new]"
        unfolding eb [symmetric] dir_list_eq [OF dirb] dir_list_eq [OF 2(2)] using 2(3,4) by simp
      ultimately show ?case using 2(2) by (intro fin) auto
    qed
  qed
qed

theorem ktfs_create_appends_witness:
  "\<exists>c' V'. ktfs_create demo_intf False (Some [98, 0]) demo_fs = Some (0, demo_fs\<lparr>ks_cache := c'\<rparr>) \<and>
     dir_list V' demo_sb 0 = [\<lparr>de_inode = 1, de_name = demo_name\<rparr>, \<lparr>de_inode = 2, de_name = padded [98, 0]\<rparr>]"
proof -
  have e: "entry demo_view demo_sb demo_root 0 = \<lparr>de_inode = 1, de_name = demo_name\<rparr>" using demo_entry by simp
  have l: "dir_list demo_view demo_sb 0 = [\<lparr>de_inode = 1, de_name = demo_name\<rparr>]"
    using e by (simp add: dir_list_def demo_inodes demo_root_def)
  have n: "0 = unat (sb_root_directory_inode demo_sb)" "unat (ino_size (disk_inode demo_view demo_sb 0)) = 16 * 1"
    "names_ok demo_view demo_sb (disk_inode demo_view demo_sb 0) 1"
    using e by (simp add: demo_sb_def, simp_all add: demo_inodes names_ok_def demo_name_def) (simp add: demo_root_def)
  have i: "ino_indirect (disk_inode demo_view demo_sb 0) = 0" unfolding demo_inodes by (simp add: demo_root_def)
  have p: "in_disk 4096 (data_pos demo_sb (ino_indirect (disk_inode demo_view demo_sb 0)))"
    unfolding i by (simp add: data_pos_def in_disk_def demo_sb_def)
  have k: "0 < unat (sb_inode_bitmap_block_count demo_sb)" "first_clear (demo_view (inode_bitmap_pos 0)) = Some 2"
    "2 div 16 < unat (sb_inode_block_count demo_sb)" "(2 :: nat) \<noteq> 0"
    using demo_free_inode by (simp_all add: demo_sb_def)
  have nm: "nul_terminated [98 :: u8, 0]" "length (cstr [98 :: u8, 0]) \<le> 13" by simp_all
  from ktfs_create_appends [OF image_disk.steady_disk_axioms demo_mounted n(1) demo_files(1) n(2) _ n(3) p k nm]
  show ?thesis using l by (auto simp: demo_name_def)
qed

end
