(* ===== verification/KtfsList.thy ===== *)
theory KtfsList
  imports KtfsCreate
begin

text \<open>
  The listing: reading it goes through the directory in order, one name per call, up to the end.
\<close>

lemma div_mod_pow:
  "r div 4096 mod 128 = r mod 524288 div (4096 :: nat)" "r div 32 mod 128 = r mod 4096 div (32 :: nat)"
proof -
  have "a mod (b * 128) div b = a div b mod 128" if "0 < b" for a b :: nat
    using that by (simp add: mod_mult2_eq)
  from this [of 4096 r] this [of 32 r]
  show "r div 4096 mod 128 = r mod 524288 div 4096" "r div 32 mod 128 = r mod 4096 div 32" by simp_all
qed

lemma sub_blocks:
  assumes "32 * k \<le> (a :: nat)"
  shows "(a - 32 * k) div 32 = a div 32 - k" "(a - 32 * k) mod 32 = a mod 32" "k \<le> a div 32"
proof -
  obtain c where "a = c + 32 * k" using assms by (metis le_add_diff_inverse2)
  then show "(a - 32 * k) div 32 = a div 32 - k" "(a - 32 * k) mod 32 = a mod 32" "k \<le> a div 32" by simp_all
qed

context steady_disk
begin

lemma read_block_steady:
  assumes rel: "cache_rel img ready V N H W c" and room: "size H < 64" and p: "in_disk N (data_pos sb p)"
  shows "\<exists>c'. cache_rel img ready V N H W c' \<and>
       read_ptr intf sb p j c = (Inr (ptr_at (V (data_pos sb p)) j), c')"
    "\<exists>c'. cache_rel img ready V N H W c' \<and>
       read_dentry intf sb p j c = (Inr (dentry_at (V (data_pos sb p)) j), c')"
proof -
  from get_steady [OF rel p] room obtain k c1 where k: "kget intf (data_pos sb p) c = (Inr k, c1)"
    and r1: "cache_rel img ready V N (add_mset (k, data_pos sb p) H) W c1" by auto
  have b: "block_bytes k c1 = V (data_pos sb p)" by (rule cache_rel_bytes [OF r1]) simp
  have "cache_rel img ready V N H W (cache_release_block k False c1)"
    by (rule release_clean_steady [OF r1 cache_rel_written [OF rel]])
  with k b show "\<exists>c'. cache_rel img ready V N H W c' \<and> read_ptr intf sb p j c = (Inr (ptr_at (V (data_pos sb p)) j), c')"
    "\<exists>c'. cache_rel img ready V N H W c' \<and> read_dentry intf sb p j c = (Inr (dentry_at (V (data_pos sb p)) j), c')"
    by (simp_all add: read_ptr_def read_dentry_def)
qed

text \<open>Following one step of the block map.\<close>

lemma read_slot_steady:
  assumes rel: "cache_rel img ready V N H W c" and room: "size H < 64" and ok: "fs_ok V N sb" "file_ok V N sb ino"
    and s: "is_slot s" "up s = Some (t, i)" "slot_ptr V sb ino s \<noteq> 0"
  shows "\<exists>c'. cache_rel img ready V N H W c' \<and> read_ptr intf sb (slot_ptr V sb ino t) i c = (Inr (slot_ptr V sb ino s), c')"
    "slot_ptr V sb ino t \<noteq> 0" "is_slot t"
proof -
  show t: "slot_ptr V sb ino t \<noteq> 0" using s(3) slot_ptr_up [OF s(2)] by metis
  show u: "is_slot t" using up_is_slot [OF s(2,1)] by simp
  have "in_disk N (data_pos sb (slot_ptr V sb ino t))" by (rule slot_in_disk [OF ok u t])
  from read_block_steady(1) [OF rel room this, of i] slot_ptr_up [OF s(2)] t
  show "\<exists>c'. cache_rel img ready V N H W c' \<and> read_ptr intf sb (slot_ptr V sb ino t) i c = (Inr (slot_ptr V sb ino s), c')"
    by simp
qed

lemma get_dentry_at_index_steady:
  assumes rel: "cache_rel img ready V N H W c" and room: "size H < 64"
    and ok: "fs_ok V N sb" "file_ok V N sb ino" and dn: "dense V sb ino (16 * n)" and j: "unat index < n"
  shows "\<exists>c'. cache_rel img ready V N H W c' \<and>
     get_dentry_at_index intf sb ino index c = (Inr (entry V sb ino (unat index)), c')"
proof -
  let ?j = "unat index" and ?P = "slot_ptr V sb ino"
  let ?m = "?j div 32"
  have "512 * ?m \<le> 16 * ?j" by simp
  then have "512 * ?m < 16 * n" using j by linarith
  then have s: "is_slot (Data ?m)" "?P (Data ?m) \<noteq> 0" using dn by (simp_all add: dense_def)
  note pd = slot_in_disk [OF ok s]
  have e: "entry V sb ino ?j = dentry_at (V (data_pos sb (?P (Data ?m)))) (?j mod 32)" by (simp add: entry_def entry_pos_def)
  consider (direct) "?j < 128" | (single) "128 \<le> ?j" "?j < 4224" | (double) "4224 \<le> ?j" by linarith
  then show ?thesis
  proof cases
    case direct
    then have "index < 128" "?m < 4" by (simp_all add: word_less_nat_alt)
    moreover from this have "?P (Data ?m) = ino_block ino ! ?m" by (simp add: slot_ptr_root)
    ultimately show ?thesis using read_block_steady(2) [OF rel room pd, of "?j mod 32"] e
      by (simp add: get_dentry_at_index_def unat_div unat_mod)
  next
    case single
    have ge: "128 \<le> index" using single by (simp add: word_le_nat_alt)
    then have sub: "unat (index - 128) = ?j - 128" by (simp add: unat_sub)
    have m: "(?j - 128) div 32 = ?m - 4" "(?j - 128) mod 32 = ?j mod 32"
      using single(1) sub_blocks [of 4 ?j] by simp_all
    have up: "up (Data ?m) = Some (Single, ?m - 4)" using single by auto
    from read_slot_steady [OF rel room ok s(1) up s(2)] obtain c1 where
      1: "cache_rel img ready V N H W c1" "read_ptr intf sb (ino_indirect ino) (?m - 4) c = (Inr (?P (Data ?m)), c1)"
        "ino_indirect ino \<noteq> 0"
      using read_slot_steady(2) [OF rel room ok s(1) up s(2)] slot_ptr_root [of Single V sb ino] by auto
    have "index - 128 < 4096" using sub single by (simp add: word_less_nat_alt)
    moreover have "\<not> index < 128" using ge by simp
    ultimately show ?thesis using read_block_steady(2) [OF 1(1) room pd, of "?j mod 32"] 1(2,3) e sub m
      by (simp add: get_dentry_at_index_def unat_div unat_mod Let_def)
  next
    case double
    have ge: "4224 \<le> index" using double by (simp add: word_le_nat_alt)
    have lt: "?m < MAX_BLOCKS" using s(1) by simp
    let ?r = "?j - 4224"
    let ?d = "?r div 524288" and ?x = "index - 4224"
    have xr: "unat ?x = ?r" using ge by (simp add: unat_sub)
    have m132: "?m - 132 = ?r div 32" "132 \<le> ?m" "?r mod 32 = ?j mod 32"
      using double sub_blocks [of 132 ?j] by simp_all
    have rlt: "?r < 2 * 524288" using lt m132 by linarith
    define q where "q = (if ?r < 524288 then ?x else ?x - 524288)"
    have q: "unat q = ?r mod 524288" using rlt xr by (auto simp: q_def unat_sub word_le_nat_alt mod_if)
    have wf: "length (ino_dindirect ino) = 2" using ok(2) by (simp add: file_ok_def inode_wf_def)
    then obtain d0 d1 where dd: "ino_dindirect ino = [d0, d1]" by (cases "ino_dindirect ino"; cases "tl (ino_dindirect ino)") auto
    let ?s2 = "Second ((?m - 132) div 128)"
    have up1: "up (Data ?m) = Some (?s2, (?m - 132) mod 128)" using m132 by simp
    note p1 = read_slot_steady [OF rel room ok s(1) up1 s(2)]
    have s2: "(?m - 132) div 128 div 128 = ?d" "(?m - 132) div 128 mod 128 = ?r mod 524288 div 4096"
      "(?m - 132) mod 128 = ?r mod 524288 mod 4096 div 32" "?r mod 524288 mod 4096 mod 32 = ?j mod 32"
      unfolding m132(1) m132(3) [symmetric]
      by (simp_all add: div_mult2_eq [symmetric] mod_mod_cancel div_mod_pow)
    have up2: "up ?s2 = Some (Double ?d, ?r mod 524288 div 4096)" using s2 by simp
    from read_slot_steady [OF rel room ok p1(3) up2 p1(2)] obtain c1 where
      1: "cache_rel img ready V N H W c1" "read_ptr intf sb (?P (Double ?d)) (?r mod 524288 div 4096) c = (Inr (?P ?s2), c1)"
        "?P (Double ?d) \<noteq> 0" by auto
    from read_slot_steady [OF 1(1) room ok s(1) up1 s(2)] obtain c2 where
      2: "cache_rel img ready V N H W c2" "read_ptr intf sb (?P ?s2) ((?m - 132) mod 128) c1 = (Inr (?P (Data ?m)), c2)" by auto
    from read_block_steady(2) [OF 2(1) room pd, of "?j mod 32"] obtain c3 where
      3: "cache_rel img ready V N H W c3" "read_dentry intf sb (?P (Data ?m)) (?j mod 32) c2 = (Inr (entry V sb ino ?j), c3)"
      using e by auto
    have run: "dentry_dindirect intf sb (p # ps) q c = (Inr (entry V sb ino ?j), c3)" if "p = ?P (Double ?d)" for p ps
    proof -
      have "\<not> 524288 \<le> q" using q by (simp add: word_le_nat_alt)
      moreover have "unat (q div 4096) = ?r mod 524288 div 4096" "unat (q mod 4096 div 32) = (?m - 132) mod 128"
        "unat (q mod 4096 mod 32) = ?j mod 32" unfolding s2(3) s2(4) [symmetric] by (simp_all add: unat_div unat_mod q)
      ultimately show ?thesis unfolding that dentry_dindirect.simps
        by (simp only: 1(2,3) 2(2) 3(2) if_False sum.case prod.case)
    qed
    have root: "?P (Double 0) = d0" "?P (Double 1) = d1" by (simp_all add: slot_ptr_root dd)
    have "dentry_dindirect intf sb (ino_dindirect ino) ?x c = (Inr (entry V sb ino ?j), c3)"
    proof (cases "?r < 524288")
      case True
      then have "q = ?x" "?d = 0" by (simp_all add: q_def)
      then show ?thesis using run [of d0 "[d1]"] root(1) dd by metis
    next
      case False
      then have "q = ?x - 524288" "?d = 1" "524288 \<le> ?x" using rlt xr by (auto simp: q_def word_le_nat_alt)
      then have "dentry_dindirect intf sb [d1] (?x - 524288) c = (Inr (entry V sb ino ?j), c3)"
        using run [of d1 "[]"] root(2) by metis
      moreover have "dentry_dindirect intf sb [d0, d1] ?x c = dentry_dindirect intf sb [d1] (?x - 524288) c"
        using \<open>524288 \<le> ?x\<close> by (simp only: dentry_dindirect.simps(2) [of intf sb d0 "[d1]"] if_True)
      ultimately show ?thesis using dd by metis
    qed
    moreover have "\<not> index < 128" "\<not> index - 128 < 4096" "index - 128 - 4096 = ?x"
      using double by (auto simp: word_less_nat_alt unat_sub word_le_nat_alt)
    ultimately show ?thesis using 3(1) by (auto simp: get_dentry_at_index_def Let_def)
  qed
qed

end

section \<open>Reading the listing\<close>

text \<open>C19: Reading the listing.  The k-th read returns the name of entry k of the directory with
  its terminator and moves on by one; a buffer that is too small is refused without moving on,
  and past the last entry the read returns 0.\<close>

theorem ktfs_listing_reads:
  assumes "steady_disk sto img ready" and "mounted img ready V N sb fs"
    and "r = unat (sb_root_directory_inode sb)" and "sound_file V N sb r"
    and "names_ok V sb (disk_inode V sb r) (length (dir_list V sb r))"
    and "map_of (ks_listings fs) u = Some index" and "bufsz \<noteq> 0"
  shows "\<exists>c'. mounted img ready V N sb (fs\<lparr>ks_cache := c'\<rparr>) \<and>
     ktfs_listing_read sto (Some u) False bufsz fs =
       (let moved = \<lambda>ix. fs\<lparr>ks_cache := c', ks_listings := map (\<lambda>(v, x). if v = u then (v, ix) else (v, x)) (ks_listings fs)\<rparr> in
        if unat index \<ge> length (dir_list V sb r) then Some ((0, []), moved index)
        else let name = cstr (de_name (dir_list V sb r ! unat index)) in
          if length name + 1 > unat bufsz then Some ((- ENOTSUP, []), moved index)
          else Some ((int (length name) + 1, take (unat bufsz) (name @ replicate (unat bufsz) 0)), moved (index + 1)))"
proof -
  have mo: "cache_rel img ready V N {#} {} (ks_cache fs)" "sb = superblock_of (V 0)" "fs_ok V N sb"
    using assms(2) by (auto simp: mounted_def)
  note g = fs_ok_geometry [OF mo(3)] and st = assms(1)
  let ?root = "disk_inode V sb r"
  have sr: "r div 16 < unat (sb_inode_block_count sb)" "file_ok V N sb ?root" "dense V sb ?root (unat (ino_size ?root))"
    using assms(4) by (simp_all add: sound_file_def)
  let ?n = "unat (ino_size ?root) div 16"
  have len: "length (dir_list V sb r) = ?n" by (simp add: dir_list_def)
  have dn: "dense V sb ?root (16 * ?n)" using sr(3) unfolding dense_def by (meson less_le_trans times_div_less_eq_dividend)
  have p0: "in_disk N 0" using g by (simp add: geometry_def in_disk_def data_start_def)
  from steady_disk.get_steady [OF st mo(1) p0] obtain ksb c1 where k: "kget sto 0 (ks_cache fs) = (Inr ksb, c1)"
    and r1: "cache_rel img ready V N {#(ksb, 0)#} {} c1" by auto
  have b: "superblock_of (block_bytes ksb c1) = sb" using cache_rel_bytes [OF r1, of ksb 0] mo(2) by simp
  from steady_disk.get_inode_steady [OF st r1, of sb "sb_root_directory_inode sb"] inode_in_disk [OF g sr(1)] assms(3)
  obtain c2 where gi: "get_inode sto sb (sb_root_directory_inode sb) c1 = (Inr ?root, c2)"
    and r2: "cache_rel img ready V N {#(ksb, 0)#} {} c2" by (auto simp: disk_inode_def)
  have rel: "mounted img ready V N sb (fs\<lparr>ks_cache := cache_release_block ksb False c\<rparr>)"
    if "cache_rel img ready V N {#(ksb, 0)#} {} c" for c
    using release_clean_steady [of img ready V N ksb 0 "{#}" "{}" c] that mo(2,3) by (simp add: mounted_def)
  have stop: "index \<ge> ino_size ?root div of_nat KTFS_DENSZ \<longleftrightarrow> unat index \<ge> ?n"
    by (simp add: word_le_nat_alt unat_div)
  have run: "ktfs_listing_read sto (Some u) False bufsz fs =
      map_option (\<lambda>((r, index1), c). (r, fs\<lparr>ks_cache := c,
          ks_listings := map (\<lambda>(v, ix). if v = u then (v, index1) else (v, ix)) (ks_listings fs)\<rparr>))
        (next_name sto bufsz index (ks_cache fs))"
    using assms(6,7) by (simp add: ktfs_listing_read_def)
  show ?thesis
  proof (cases "unat index \<ge> ?n")
    case True
    then have "next_name sto bufsz index (ks_cache fs) = Some (((0, []), index), cache_release_block ksb False c2)"
      using k b gi stop by (simp add: next_name_def Let_def)
    then show ?thesis using run rel [OF r2] True unfolding Let_def len by (intro exI conjI) simp_all
  next
    case False
    have "size {#(ksb, 0)#} < 64" by simp
    from steady_disk.get_dentry_at_index_steady [OF st r2 this mo(3) sr(2) dn, of index] False obtain c3 where
      3: "cache_rel img ready V N {#(ksb, 0)#} {} c3"
        "get_dentry_at_index sto sb ?root index c2 = (Inr (entry V sb ?root (unat index)), c3)" by auto
    let ?nm = "de_name (entry V sb ?root (unat index))"
    have nul: "nul_terminated ?nm" using assms(5) False len by (simp add: names_ok_def)
    have e: "dir_list V sb r ! unat index = entry V sb ?root (unat index)" using False by (simp add: dir_list_def)
    have "next_name sto bufsz index (ks_cache fs) =
        Some (if length (cstr ?nm) + 1 > unat bufsz
              then (((- ENOTSUP, []), index), cache_release_block ksb False c3)
              else (((int (length (cstr ?nm)) + 1, take (unat bufsz) (cstr ?nm @ replicate (unat bufsz) 0)), index + 1),
                    cache_release_block ksb False c3))"
      using k b gi stop False 3(2) nul strncpy_nul_terminated [OF nul, of "unat bufsz" "replicate (unat bufsz) 0"]
      by (simp add: next_name_def Let_def strlen_def strlen_loop_eq)
    then show ?thesis using run rel [OF 3(1)] False e unfolding Let_def len
      by (intro exI conjI) (simp, simp split: if_split add: case_prod_unfold)
  qed
qed

theorem ktfs_listing_reads_witness:
  "\<exists>c'. ktfs_listing_read demo_intf (Some 5) False 3 (demo_fs\<lparr>ks_listings := [(5, 0)]\<rparr>) =
     Some ((2, [97, 0, 0]), demo_fs\<lparr>ks_cache := c', ks_listings := [(5, 1)]\<rparr>)"
proof -
  let ?fs = "demo_fs\<lparr>ks_listings := [(5, 0)]\<rparr>"
  have e: "entry demo_view demo_sb demo_root 0 = \<lparr>de_inode = 1, de_name = demo_name\<rparr>" using demo_entry by simp
  have l: "dir_list demo_view demo_sb 0 = [\<lparr>de_inode = 1, de_name = demo_name\<rparr>]"
    using e by (simp add: dir_list_def demo_inodes demo_root_def)
  have m: "mounted demo_img demo_ready demo_view 4096 demo_sb ?fs" using demo_mounted by (simp add: mounted_def)
  have n: "0 = unat (sb_root_directory_inode demo_sb)"
    "names_ok demo_view demo_sb (disk_inode demo_view demo_sb 0) (length (dir_list demo_view demo_sb 0))"
    using e by (simp add: demo_sb_def, simp add: l demo_inodes names_ok_def demo_name_def)
  have u: "map_of (ks_listings ?fs) 5 = Some 0" "(3 :: u64) \<noteq> 0" by simp_all
  from ktfs_listing_reads [OF image_disk.steady_disk_axioms m n(1) demo_files(1) n(2) u]
  obtain c' where "ktfs_listing_read demo_intf (Some 5) False 3 ?fs =
      Some ((int 1 + 1, take (unat (3 :: u64)) ([97] @ replicate (unat (3 :: u64)) 0)), ?fs\<lparr>ks_cache := c', ks_listings := [(5, 0 + 1)]\<rparr>)"
    by (auto simp: l demo_name_def Let_def)
  moreover have "take (unat (3 :: u64)) ([97] @ replicate (unat (3 :: u64)) (0 :: u8)) = [97, 0, 0]"
  proof -
    have "unat (3 :: u64) = 3" by simp
    then show ?thesis by (simp only:) (simp add: numeral_3_eq_3)
  qed
  ultimately show ?thesis by (intro exI [of _ c']) simp
qed

end
