(* ===== verification/KtfsBlocks.thy ===== *)
theory KtfsBlocks
  imports KtfsCreate
begin

text \<open>
  Blocks and files: the search for a free block against its reference, the safety of an
  allocation, and the isolation of files that share no block.
\<close>

section \<open>Free blocks\<close>

text \<open>The search for a free data block, bit by bit over the bitmap blocks, is the search for
  the first number whose bit is clear; it changes nothing and keeps no pin.\<close>

theorem find_free_data_block_is_find:
  assumes "steady_disk sto img ready" and "mounted img ready V N sb fs"
  shows "\<exists>c'. mounted img ready V N sb (fs\<lparr>ks_cache := c'\<rparr>) \<and>
     find_free_data_block sto sb (ks_cache fs) =
       (case find (\<lambda>n. \<not> data_bit V sb n) [0..<bits_of sb] of None \<Rightarrow> - ENOTSUP | Some n \<Rightarrow> int n, c')"
proof -
  have mo: "cache_rel img ready V N {#} {} (ks_cache fs)" "sb = superblock_of (V 0)" "fs_ok V N sb"
    using assms(2) by (auto simp: mounted_def)
  from steady_disk.find_free_data_block_steady [OF assms(1) mo(1) _ mo(3)] obtain r c' where
    c': "find_free_data_block sto sb (ks_cache fs) = (r, c')" "cache_rel img ready V N {#} {} c'"
     "r = - ENOTSUP \<and> (\<forall>n<bits_of sb. data_bit V sb n) \<or>
      (\<exists>n<bits_of sb. r = int n \<and> \<not> data_bit V sb n \<and> (\<forall>m<n. data_bit V sb m))" by auto
  from c'(3) have "r = (case find (\<lambda>n. \<not> data_bit V sb n) [0..<bits_of sb] of None \<Rightarrow> - ENOTSUP | Some n \<Rightarrow> int n)"
  proof (elim disjE exE conjE, goal_cases)
    case 1
    then have "find (\<lambda>n. \<not> data_bit V sb n) [0..<bits_of sb] = None" by (simp add: find_None_iff)
    with 1 show ?case by simp
  next
    case (2 n)
    then have "find (\<lambda>n. \<not> data_bit V sb n) [0..<bits_of sb] = Some n" by (auto simp: find_Some_iff)
    with 2 show ?case by simp
  qed
  then show ?thesis using c'(1) mounted_cache [OF assms(2) c'(2)] by (intro exI [of _ c']) simp
qed

theorem find_free_data_block_is_find_witness:
  "fst (find_free_data_block demo_intf demo_sb (create_cache demo_disk)) = 3"
proof -
  have b: "data_bit demo_view demo_sb n \<longleftrightarrow> n \<noteq> 3" if "n < 4096" for n
    by (rule demo_bit [OF that])
  have "find (\<lambda>n. \<not> data_bit demo_view demo_sb n) [0..<bits_of demo_sb] = Some 3"
    using b by (auto simp: find_Some_iff demo_geometry intro!: exI [of _ 3])
  with find_free_data_block_is_find [OF image_disk.steady_disk_axioms demo_mounted]
  show ?thesis by (auto simp: demo_fs_def)
qed

text \<open>Getting block \<open>b\<close> of a file, allocating what is missing on the way.  The answer is the
  block that the block map names afterwards; blocks that the file had stay where they are, every
  block it gets was free, exactly those bits of the bitmap are set in addition, blocks of others
  keep their content, and the file stays sound.  It fails only past the largest file or when no
  block is free any more.\<close>

theorem get_or_alloc_is_safe:
  assumes "steady_disk sto img ready" and "mounted img ready V N sb fs" and "file_ok V N sb ino"
  shows "\<exists>r ino' V' c'. get_or_alloc_data_block sto sb ino b (ks_cache fs) = ((r, ino'), c') \<and>
     cache_rel img ready V' N {#} {} c' \<and> file_grows N sb V ino V' ino' \<and> found_block N sb (unat b) V' ino' r"
proof -
  have mo: "cache_rel img ready V N {#} {} (ks_cache fs)" "fs_ok V N sb"
    using assms(2) by (auto simp: mounted_def)
  from steady_disk.get_or_alloc_steady [OF assms(1) mo(1) _ mo(2) assms(3)] show ?thesis by simp
qed

theorem get_or_alloc_is_safe_witness:
  "\<exists>ino' V' c'. get_or_alloc_data_block demo_intf demo_sb demo_file 0 (create_cache demo_disk) = ((Inr 2, ino'), c') \<and>
     file_ok V' 4096 demo_sb ino'"
proof -
  have "file_ok demo_view 4096 demo_sb demo_file"
    using demo_files(2) demo_inodes by (simp add: sound_file_def)
  from get_or_alloc_is_safe [OF image_disk.steady_disk_axioms demo_mounted this, of 0] obtain r ino' V' c' where
    g: "get_or_alloc_data_block demo_intf demo_sb demo_file 0 (create_cache demo_disk) = ((r, ino'), c')"
    and f: "file_ok V' 4096 demo_sb ino'" by (auto simp: demo_fs_def file_grows_def)
  have "fst (fst (get_or_alloc_data_block demo_intf demo_sb demo_file 0 (create_cache demo_disk))) = Inr 2"
    by (simp add: get_or_alloc_data_block_def demo_file_def)
  with g f show ?thesis by auto
qed

section \<open>Isolation\<close>

definition disjoint_files :: "disk_view \<Rightarrow> ktfs_superblock \<Rightarrow> nat \<Rightarrow> nat \<Rightarrow> bool" where
  "disjoint_files V sb a b \<longleftrightarrow>
     (\<forall>s t. is_slot s \<and> is_slot t \<and> slot_ptr V sb (disk_inode V sb a) s \<noteq> 0 \<longrightarrow>
        slot_ptr V sb (disk_inode V sb a) s \<noteq> slot_ptr V sb (disk_inode V sb b) t)"

lemma other_file_kept:
  assumes ok: "fs_ok V N sb" and ch: "file_changes N sb (inode_pos sb n) (n mod 16) V V'"
    and n: "n div 16 < unat (sb_inode_block_count sb)" "m \<noteq> n"
    and m: "sound_file V N sb m" and dj: "disjoint_files V sb m n"
  shows "disk_inode V' sb m = disk_inode V sb m" "sound_file V' N sb m" "disjoint_files V' sb m n"
    "p + k \<le> unat (ino_size (disk_inode V sb m)) \<Longrightarrow>
       file_bytes V' sb (disk_inode V sb m) p k = file_bytes V sb (disk_inode V sb m) p k"
proof -
  note g = fs_ok_geometry [OF ok]
  let ?ino = "disk_inode V sb m"
  have mi: "m div 16 < unat (sb_inode_block_count sb)" and fok: "file_ok V N sb ?ino"
    and dn: "dense V sb ?ino (unat (ino_size ?ino))" using m by (simp_all add: sound_file_def)
  show same: "disk_inode V' sb m = ?ino"
  proof (cases "inode_pos sb m = inode_pos sb n")
    case True
    from inode_pos_eq [OF g mi n(1) True n(2)] show ?thesis using ch True by (auto simp: file_changes_def disk_inode_def)
  next
    case False
    have "V' (inode_pos sb m) = V (inode_pos sb m)"
      using ch False inode_meta_pos [OF g mi] by (auto simp: file_changes_def meta_pos_def)
    then show ?thesis by (simp add: disk_inode_def)
  qed
  have inode: "disk_inode U sb n = file_at (inode_pos sb n) (n mod 16) U" for U by (simp add: disk_inode_def file_at_def)
  let ?P = "slot_ptr V sb ?ino"
  have mine: "valid_idx N sb (?P s)" "unat (?P s) < bits_of sb" "data_bit V sb (unat (?P s))"
      "V' (data_pos sb (?P s)) = V (data_pos sb (?P s))"
    if s: "is_slot s" "?P s \<noteq> 0" for s
  proof -
    show a: "valid_idx N sb (?P s)" "unat (?P s) < bits_of sb" "data_bit V sb (unat (?P s))"
      using fok s by (simp_all add: file_ok_def)
    have "slot_of sb (inode_pos sb n) (n mod 16) V t \<noteq> ?P s" if "is_slot t" for t
      using dj s that unfolding disjoint_files_def inode slot_of_def by metis
    with a ch show "V' (data_pos sb (?P s)) = V (data_pos sb (?P s))" by (simp add: file_changes_def)
  qed
  have slots: "slot_ptr V' sb ?ino s = ?P s" if "is_slot s" for s
    by (rule slot_ptr_cong [OF _ refl that]) (use mine(4) in blast)
  have "inode_wf ?ino" using fok by (simp add: file_ok_def)
  moreover have "data_bit V' sb x" if "x < bits_of sb" "data_bit V sb x" for x
    using ch that by (simp add: file_changes_def)
  ultimately have "file_ok V' N sb ?ino" by (intro file_ok_cong [OF fok _ slots]) auto
  moreover have "dense V' sb ?ino (unat (ino_size ?ino))" using dn slots by (auto simp: dense_def)
  ultimately show "sound_file V' N sb m" using mi by (simp add: sound_file_def same)
  show "disjoint_files V' sb m n"
    unfolding disjoint_files_def same
  proof (intro allI impI, elim conjE)
    fix s t assume st: "is_slot s" "is_slot t" "slot_ptr V' sb ?ino s \<noteq> 0"
    let ?S = "slot_of sb (inode_pos sb n) (n mod 16)"
    have P: "slot_ptr V' sb ?ino s = ?P s" "?P s \<noteq> 0" using slots [OF st(1)] st(3) by simp_all
    have old: "?P s \<noteq> ?S V t" using dj st(1,2) P(2) by (simp add: disjoint_files_def inode slot_of_def)
    have "?P s \<noteq> ?S V' t"
    proof (cases "?S V t = 0")
      case True
      then have "?S V' t \<noteq> 0 \<Longrightarrow> \<not> data_bit V sb (unat (?S V' t))" using ch st(2) by (simp add: file_changes_def)
      then show ?thesis using mine(3) [OF st(1) P(2)] P(2) by metis
    next
      case False
      then show ?thesis using file_changes_slot [OF ch st(2)] old by simp
    qed
    then show "slot_ptr V' sb ?ino s \<noteq> slot_ptr V' sb (disk_inode V' sb n) t"
      using P(1) by (simp add: inode slot_of_def)
  qed
  show "file_bytes V' sb ?ino p k = file_bytes V sb ?ino p k" if pk: "p + k \<le> unat (ino_size ?ino)"
  proof -
    have "file_byte V' sb ?ino x = file_byte V sb ?ino x" if x: "x < p + k" for x
    proof -
      have "512 * (x div 512) \<le> x" by simp
      then have "512 * (x div 512) < unat (ino_size ?ino)" using x pk by linarith
      then have s: "is_slot (Data (x div 512))" "?P (Data (x div 512)) \<noteq> 0" using dn by (simp_all add: dense_def)
      show ?thesis using slots [OF s(1)] mine(4) [OF s] by (simp add: file_byte_def)
    qed
    then show ?thesis by (simp add: file_bytes_def)
  qed
qed



section \<open>Round trips of the layout\<close>

text \<open>What is stored in a block is read back, and its neighbours are as before: inodes,
  directory entries, block numbers and bitmap bits.\<close>

theorem ktfs_layout_roundtrip:
  assumes "length bs = 512"
  shows "(inode_wf ino \<and> i < 16 \<and> j < 16 \<longrightarrow>
       inode_at (put_inode j ino bs) i = (if i = j then ino else inode_at bs i)) \<and>
     (length (de_name de) = 14 \<and> i < 32 \<and> j < 32 \<longrightarrow>
       dentry_at (put_dentry j de bs) i = (if i = j then de else dentry_at bs i)) \<and>
     (i < 128 \<and> j < 128 \<longrightarrow> ptr_at (put_ptr j v bs) i = (if i = j then v else ptr_at bs i)) \<and>
     (i < 4096 \<longrightarrow> bit_at (put_bit j b bs) i = (if i = j then b else bit_at bs i))"
  using assms by (simp add: inode_at_put dentry_at_put ptr_at_put bit_at_put less_mult_imp_div_less)

theorem ktfs_layout_roundtrip_witness:
  "inode_at (put_inode 1 demo_file (zeros 512)) 1 = demo_file \<and> bit_at (put_bit 7 True (zeros 512)) 7"
  using ktfs_layout_roundtrip [of "zeros 512" demo_file 1 1] ktfs_layout_roundtrip [of "zeros 512" demo_file 7 7 _ _ True]
  by (simp add: inode_wf_def demo_file_def)

end
