(* ===== verification/PageTables.thy ===== *)
theory PageTables
  imports PhysPages
begin

text \<open>
  Virtual memory of \<open>modified/sys/memory.c\<close>: Sv39 page tables in physical pages, mapping,
  changing flags, unmapping, validation of user pointers and strings, cloning, resetting and
  discarding a memory space, and the page fault handler.  A physical page is its
  bytes, in which the tables lie, and is named by its number.  The locks of memory.c are
  released on every path and nothing sleeps while they are held, and there is no TLB, so that
  \<open>sfence_vma\<close> does nothing.  The header of a chunk, which the allocator keeps in the first
  bytes of a free page, is part of the free list and not of the bytes of the page.  \<open>None\<close> is a panic or a loop whose counter wraps and never
  ends.
\<close>

section \<open>Page table entries\<close>

record pte =
  pte_flags :: u8
  pte_rsw :: "2 word"
  pte_ppn :: "44 word"
  pte_reserved :: "7 word"
  pte_pbmt :: "2 word"
  pte_n :: "1 word"

abbreviation (input) PTE_V :: u8 where "PTE_V \<equiv> 1"
abbreviation (input) PTE_R :: u8 where "PTE_R \<equiv> 2"
abbreviation (input) PTE_W :: u8 where "PTE_W \<equiv> 4"
abbreviation (input) PTE_X :: u8 where "PTE_X \<equiv> 8"
abbreviation (input) PTE_U :: u8 where "PTE_U \<equiv> 16"
abbreviation (input) PTE_G :: u8 where "PTE_G \<equiv> 32"
abbreviation (input) PTE_A :: u8 where "PTE_A \<equiv> 64"
abbreviation (input) PTE_D :: u8 where "PTE_D \<equiv> 128"

definition pte_valid :: "pte \<Rightarrow> bool" where
  "pte_valid e \<longleftrightarrow> pte_flags e AND PTE_V \<noteq> 0"

definition pte_global :: "pte \<Rightarrow> bool" where
  "pte_global e \<longleftrightarrow> pte_flags e AND PTE_G \<noteq> 0"

definition pte_leaf :: "pte \<Rightarrow> bool" where
  "pte_leaf e \<longleftrightarrow> pte_flags e AND (PTE_R OR PTE_W OR PTE_X) \<noteq> 0"

definition mk_pte :: "u8 \<Rightarrow> nat \<Rightarrow> pte" where
  "mk_pte flags ppn =
     \<lparr>pte_flags = flags, pte_rsw = 0, pte_ppn = of_nat ppn, pte_reserved = 0, pte_pbmt = 0, pte_n = 0\<rparr>"

definition leaf_pte :: "nat \<Rightarrow> u8 \<Rightarrow> pte" where
  "leaf_pte pp rwxug = mk_pte (rwxug OR PTE_A OR PTE_D OR PTE_V) pp"

definition ptab_pte :: "nat \<Rightarrow> u8 \<Rightarrow> pte" where
  "ptab_pte pt g = mk_pte (g OR PTE_V) pt"

definition null_pte :: pte where
  "null_pte = mk_pte 0 0"

definition pte_page :: "pte \<Rightarrow> nat" where
  "pte_page e = unat (pte_ppn e)"

abbreviation (input) PTE_CNT :: nat where "PTE_CNT \<equiv> 512"

text \<open>Entries in the bytes of a page: 8 bytes each, the bit fields from the lowest bit on.\<close>

definition get_u64 :: "bytes \<Rightarrow> nat \<Rightarrow> u64" where
  "get_u64 bs p =
     ucast (bs ! p) OR push_bit 8 (ucast (bs ! (p + 1))) OR push_bit 16 (ucast (bs ! (p + 2))) OR
     push_bit 24 (ucast (bs ! (p + 3))) OR push_bit 32 (ucast (bs ! (p + 4))) OR
     push_bit 40 (ucast (bs ! (p + 5))) OR push_bit 48 (ucast (bs ! (p + 6))) OR push_bit 56 (ucast (bs ! (p + 7)))"

definition enc_u64 :: "u64 \<Rightarrow> bytes" where
  "enc_u64 w =
     [ucast w, ucast (drop_bit 8 w), ucast (drop_bit 16 w), ucast (drop_bit 24 w),
      ucast (drop_bit 32 w), ucast (drop_bit 40 w), ucast (drop_bit 48 w), ucast (drop_bit 56 w)]"

definition pte_of_word :: "u64 \<Rightarrow> pte" where
  "pte_of_word w =
     \<lparr>pte_flags = ucast w, pte_rsw = ucast (drop_bit 8 w), pte_ppn = ucast (drop_bit 10 w),
      pte_reserved = ucast (drop_bit 54 w), pte_pbmt = ucast (drop_bit 61 w), pte_n = ucast (drop_bit 63 w)\<rparr>"

definition word_of_pte :: "pte \<Rightarrow> u64" where
  "word_of_pte e =
     ucast (pte_flags e) OR push_bit 8 (ucast (pte_rsw e)) OR push_bit 10 (ucast (pte_ppn e)) OR
     push_bit 54 (ucast (pte_reserved e)) OR push_bit 61 (ucast (pte_pbmt e)) OR push_bit 63 (ucast (pte_n e))"

definition pte_at :: "bytes \<Rightarrow> nat \<Rightarrow> pte" where
  "pte_at bs i = pte_of_word (get_u64 bs (8 * i))"

definition put_pte :: "nat \<Rightarrow> pte \<Rightarrow> bytes \<Rightarrow> bytes" where
  "put_pte i e bs = overwrite bs (8 * i) (enc_u64 (word_of_pte e))"

text \<open>The three indices of a page number, and the page number of an address.\<close>

definition pt_index :: "nat \<Rightarrow> u64 \<Rightarrow> nat" where
  "pt_index lvl vpn = unat (drop_bit (9 * lvl) vpn) mod PTE_CNT"

definition VPN :: "u64 \<Rightarrow> u64" where
  "VPN vma = vma div of_nat PAGE_SIZE"

text \<open>Bits 63 to 38 all 0 or all 1, by the code's arithmetic shift.\<close>

definition wellformed :: "u64 \<Rightarrow> bool" where
  "wellformed vma = (let bits = signed_drop_bit 38 vma in bits = 0 \<or> bits + 1 = 0)"

section \<open>Memory\<close>

definition zero_page :: bytes where
  "zero_page = replicate PAGE_SIZE 0"

record vm =
  vm_pages :: "nat \<Rightarrow> bytes"
  vm_free :: free_chunk_list
  vm_satp :: u64

definition pt_entry :: "vm \<Rightarrow> nat \<Rightarrow> nat \<Rightarrow> pte" where
  "pt_entry vm p i = pte_at (vm_pages vm p) i"

definition set_page :: "nat \<Rightarrow> bytes \<Rightarrow> vm \<Rightarrow> vm" where
  "set_page p x vm = vm\<lparr>vm_pages := (vm_pages vm)(p := x)\<rparr>"

definition set_entry :: "nat \<Rightarrow> nat \<Rightarrow> pte \<Rightarrow> vm \<Rightarrow> vm" where
  "set_entry p i e vm = set_page p (put_pte i e (vm_pages vm p)) vm"

text \<open>A page from the allocator, set to \<open>x\<close>.\<close>

definition new_page :: "bytes \<Rightarrow> vm \<Rightarrow> (nat \<times> vm) option" where
  "new_page x vm =
     (case alloc_phys_page (vm_free vm) of
        None \<Rightarrow> None
      | Some (pp, cs) \<Rightarrow> Some (pp, set_page pp x (vm\<lparr>vm_free := cs\<rparr>)))"

definition drop_page :: "nat \<Rightarrow> vm \<Rightarrow> vm" where
  "drop_page p vm = vm\<lparr>vm_free := free_phys_page p (vm_free vm)\<rparr>"

section \<open>Memory spaces\<close>

text \<open>A tag holds the paging mode (8, Sv39), the ASID and the page number of the root table.\<close>

definition ptab_to_mtag :: "nat \<Rightarrow> nat \<Rightarrow> u64" where
  "ptab_to_mtag ptab asid = push_bit 60 8 OR push_bit 44 (of_nat asid) OR of_nat ptab"

text \<open>The address of the root table, and its page.\<close>

definition mtag_to_ptab :: "u64 \<Rightarrow> u64" where
  "mtag_to_ptab mtag = drop_bit 8 (push_bit 20 mtag)"

definition active_space_ptab :: "vm \<Rightarrow> nat" where
  "active_space_ptab vm = unat (drop_bit PAGE_ORDER (mtag_to_ptab (vm_satp vm)))"

definition switch_mspace :: "u64 \<Rightarrow> vm \<Rightarrow> u64 \<times> vm" where
  "switch_mspace mtag vm = (vm_satp vm, vm\<lparr>vm_satp := mtag\<rparr>)"

section \<open>Mapping\<close>

text \<open>The table below entry \<open>i\<close> of the table \<open>p\<close>; \<open>ptab_insert\<close> makes one where the entry is
  not valid, and takes any valid entry for a table.\<close>

definition next_table :: "nat \<Rightarrow> nat \<Rightarrow> vm \<Rightarrow> (nat \<times> vm) option" where
  "next_table p i vm =
     (if \<not> pte_valid (pt_entry vm p i)
      then map_option (\<lambda>(pp, vm1). (pp, set_entry p i (ptab_pte pp 0) vm1)) (new_page zero_page vm)
      else Some (pte_page (pt_entry vm p i), vm))"

definition ptab_insert :: "nat \<Rightarrow> u64 \<Rightarrow> nat \<Rightarrow> u8 \<Rightarrow> vm \<Rightarrow> vm option" where
  "ptab_insert p2 vpn pp rwxug vm =
     (case next_table p2 (pt_index 2 vpn) vm of
        None \<Rightarrow> None
      | Some (p1, vm1) \<Rightarrow>
          (case next_table p1 (pt_index 1 vpn) vm1 of
             None \<Rightarrow> None
           | Some (p0, vm2) \<Rightarrow> Some (set_entry p0 (pt_index 0 vpn) (leaf_pte pp rwxug) vm2)))"

definition map_page :: "u64 \<Rightarrow> nat \<Rightarrow> u8 \<Rightarrow> vm \<Rightarrow> vm option" where
  "map_page vma pp rwxug vm = ptab_insert (active_space_ptab vm) (VPN vma) pp rwxug vm"

text \<open>The number of steps of a loop over \<open>size\<close> bytes in pages; near the top of the range the
  counter wraps and the loop never ends.\<close>

definition page_steps :: "u64 \<Rightarrow> nat option" where
  "page_steps sz =
     (if unat sz + PAGE_SIZE > 2 ^ 64 then None else Some ((unat sz + PAGE_SIZE - 1) div PAGE_SIZE))"

fun for_pages :: "(nat \<Rightarrow> vm \<Rightarrow> vm option) \<Rightarrow> nat list \<Rightarrow> vm \<Rightarrow> vm option" where
  "for_pages f [] vm = Some vm"
| "for_pages f (k # ks) vm = (case f k vm of None \<Rightarrow> None | Some vm1 \<Rightarrow> for_pages f ks vm1)"

definition page_addr :: "u64 \<Rightarrow> nat \<Rightarrow> u64" where
  "page_addr vma k = vma + of_nat (k * PAGE_SIZE)"

definition map_range :: "u64 \<Rightarrow> u64 \<Rightarrow> nat \<Rightarrow> u8 \<Rightarrow> vm \<Rightarrow> vm option" where
  "map_range vma sz pp rwxug vm =
     (case page_steps sz of
        None \<Rightarrow> None
      | Some n \<Rightarrow> for_pages (\<lambda>k. map_page (page_addr vma k) (pp + k) rwxug) [0..<n] vm)"

text \<open>The page count is an \<open>unsigned int\<close>.\<close>

definition alloc_and_map_range :: "u64 \<Rightarrow> u64 \<Rightarrow> u8 \<Rightarrow> vm \<Rightarrow> vm option" where
  "alloc_and_map_range vma sz rwxug vm =
     (if vma mod of_nat PAGE_SIZE \<noteq> 0 then None
      else let cnt = ucast ((sz + of_nat PAGE_SIZE - 1) div of_nat PAGE_SIZE) :: u32;
               size_new = ucast cnt * of_nat PAGE_SIZE
           in case alloc_phys_pages (unat cnt) (vm_free vm) of
                None \<Rightarrow> None
              | Some (pp, cs) \<Rightarrow> map_range vma size_new pp rwxug (vm\<lparr>vm_free := cs\<rparr>))"

section \<open>Walking\<close>

text \<open>The table below an entry that is valid and no leaf.\<close>

definition sub_table :: "vm \<Rightarrow> nat \<Rightarrow> nat \<Rightarrow> nat option" where
  "sub_table vm p i =
     (if pte_valid (pt_entry vm p i) \<and> \<not> pte_leaf (pt_entry vm p i) then Some (pte_page (pt_entry vm p i)) else None)"

text \<open>The last level table of an address, with the index in it.\<close>

definition walk :: "vm \<Rightarrow> nat \<Rightarrow> u64 \<Rightarrow> (nat \<times> nat) option" where
  "walk vm p2 vma =
     (case sub_table vm p2 (pt_index 2 (VPN vma)) of
        None \<Rightarrow> None
      | Some p1 \<Rightarrow>
          (case sub_table vm p1 (pt_index 1 (VPN vma)) of
             None \<Rightarrow> None
           | Some p0 \<Rightarrow> Some (p0, pt_index 0 (VPN vma))))"

definition set_page_flags :: "nat \<Rightarrow> u8 \<Rightarrow> u64 \<Rightarrow> vm \<Rightarrow> vm" where
  "set_page_flags root rwxug vma vm =
     (case walk vm root vma of
        None \<Rightarrow> vm
      | Some (p0, i) \<Rightarrow>
          if pte_valid (pt_entry vm p0 i) then set_entry p0 i (leaf_pte (pte_page (pt_entry vm p0 i)) rwxug) vm else vm)"

definition set_range_flags :: "u64 \<Rightarrow> u64 \<Rightarrow> u8 \<Rightarrow> vm \<Rightarrow> vm option" where
  "set_range_flags vp sz rwxug vm =
     (if vp mod of_nat PAGE_SIZE \<noteq> 0 then None
      else case page_steps sz of
        None \<Rightarrow> None
      | Some n \<Rightarrow> for_pages (\<lambda>k vm'. Some (set_page_flags (active_space_ptab vm) rwxug (page_addr vp k) vm')) [0..<n] vm)"

definition unmap_page :: "nat \<Rightarrow> u64 \<Rightarrow> vm \<Rightarrow> vm" where
  "unmap_page root vma vm =
     (case walk vm root vma of
        None \<Rightarrow> vm
      | Some (p0, i) \<Rightarrow>
          if pte_valid (pt_entry vm p0 i)
          then drop_page (pte_page (pt_entry vm p0 i)) (set_entry p0 i null_pte vm) else vm)"

definition unmap_and_free_range :: "u64 \<Rightarrow> u64 \<Rightarrow> vm \<Rightarrow> vm option" where
  "unmap_and_free_range vp sz vm =
     (case page_steps sz of
        None \<Rightarrow> None
      | Some n \<Rightarrow> for_pages (\<lambda>k vm'. Some (unmap_page (active_space_ptab vm) (page_addr vp k) vm')) [0..<n] vm)"

section \<open>Validation\<close>

text \<open>A loop that goes on has a well-formed address, so that its next one is at most a page
  further, counted from the lowest of the signed addresses.\<close>

lemma sint_wellformed:
  assumes "wellformed vma"
  shows "- (2 ^ 38) \<le> sint vma" "sint vma < 2 ^ 38"
proof -
  have s: "sint (signed_drop_bit 38 vma :: u64) = sint vma div 2 ^ 38"
    by (simp add: sint_signed_drop_bit_eq drop_bit_eq_div)
  from assms have "sint (signed_drop_bit 38 vma :: u64) = 0 \<or> sint (signed_drop_bit 38 vma :: u64) = - 1"
    by (auto simp: wellformed_def Let_def eq_neg_iff_add_eq_0 [symmetric])
  then have "sint vma div 2 ^ 38 = 0 \<or> sint vma div 2 ^ 38 = - 1" unfolding s .
  moreover have "sint vma = 2 ^ 38 * (sint vma div 2 ^ 38) + sint vma mod 2 ^ 38" by simp
  moreover have "0 \<le> sint vma mod 2 ^ 38" "sint vma mod 2 ^ 38 < 2 ^ 38" by simp_all
  ultimately show "- (2 ^ 38) \<le> sint vma" "sint vma < 2 ^ 38" by (elim disjE; simp)+
qed

lemma sint_page_up:
  assumes "wellformed vma" and "unat k \<le> PAGE_SIZE"
  shows "sint (vma + k) = sint vma + int (unat k)"
proof -
  define x where "x = int (unat k)"
  have x: "0 \<le> x" "x \<le> 4096" using assms(2) by (simp_all add: x_def flip: of_nat_le_iff [where 'a = int])
  have "uint k = x" unfolding x_def by (rule uint_nat)
  then have "sint k = signed_take_bit 63 x" by (simp add: sint_uint)
  also have "\<dots> = x" using x by (intro signed_take_bit_int_eq_self) simp_all
  finally have k: "sint k = x" .
  note b = sint_wellformed [OF assms(1)]
  have "sint (vma + k) = signed_take_bit 63 (sint vma + sint k)"
    using sint_word_ariths(1) [of vma k] by simp
  also have "\<dots> = sint vma + x"
    unfolding k using b x by (intro signed_take_bit_int_eq_self) simp_all
  finally show ?thesis by (simp only: x_def)
qed

function validate_pages :: "vm \<Rightarrow> nat \<Rightarrow> u64 \<Rightarrow> u64 \<Rightarrow> u8 \<Rightarrow> int" where
  "validate_pages vm root vma lim rwxu =
     (if \<not> vma < lim then 0
      else if \<not> wellformed vma then - EBADFMT
      else case walk vm root vma of
        None \<Rightarrow> - EBADFMT
      | Some (p0, i) \<Rightarrow>
          let e = pt_entry vm p0 i
          in if pte_valid e \<and> pte_leaf e
             then (if pte_flags e AND rwxu \<noteq> rwxu then - EINVAL
                   else validate_pages vm root (vma + of_nat PAGE_SIZE) lim rwxu)
             else - EBADFMT)"
  by pat_completeness auto
termination
proof (relation "measure (\<lambda>(vm, root, vma, lim, rwxu). nat (2 ^ 39 - sint vma))", goal_cases)
  case (2 vm root vma lim rwxu x p0 i e)
  then show ?case using sint_page_up [of vma "of_nat PAGE_SIZE"] sint_wellformed [of vma] by simp
qed simp

definition validate_vptr :: "u64 \<Rightarrow> u64 \<Rightarrow> u8 \<Rightarrow> vm \<Rightarrow> int" where
  "validate_vptr vp len rwxu vm =
     (if vp + len < vp then - ENOMEM
      else validate_pages vm (active_space_ptab vm) (vp div of_nat PAGE_SIZE * of_nat PAGE_SIZE) (vp + len) rwxu)"

text \<open>The string is looked for in the frames, page by page.\<close>

function validate_chars :: "vm \<Rightarrow> nat \<Rightarrow> u64 \<Rightarrow> u8 \<Rightarrow> int" where
  "validate_chars vm root vma rug =
     (if \<not> wellformed vma then - EBADFMT
      else case walk vm root vma of
        None \<Rightarrow> - EBADFMT
      | Some (p0, i) \<Rightarrow>
          let e = pt_entry vm p0 i
          in if pte_valid e \<and> pte_leaf e
             then (if pte_flags e AND rug \<noteq> rug then - EINVAL
                   else if 0 \<in> set (drop (unat vma mod PAGE_SIZE) (vm_pages vm (pte_page e))) then 0
                   else validate_chars vm root (vma - vma mod of_nat PAGE_SIZE + of_nat PAGE_SIZE) rug)
             else - EBADFMT)"
  by pat_completeness auto
termination
proof (relation "measure (\<lambda>(vm, root, vma, rug). nat (2 ^ 39 - sint vma))", goal_cases)
  case (2 vm root vma rug x p0 i e)
  let ?k = "of_nat PAGE_SIZE - vma mod of_nat PAGE_SIZE"
  have k: "unat ?k = PAGE_SIZE - unat vma mod PAGE_SIZE"
    by (subst unat_sub) (simp_all add: word_le_nat_alt unat_mod less_imp_le)
  have eq: "vma - vma mod of_nat PAGE_SIZE + of_nat PAGE_SIZE = vma + ?k" by simp
  have "sint (vma + ?k) = sint vma + int (PAGE_SIZE - unat vma mod PAGE_SIZE)"
    using 2(1) by (subst sint_page_up) (simp_all only: k, simp_all)
  moreover have "unat vma mod PAGE_SIZE < PAGE_SIZE" by simp
  ultimately have "sint vma < sint (vma + ?k)" by simp
  then show ?case using sint_wellformed(2) [of vma] 2(1) unfolding in_measure prod.case eq by simp
qed simp

definition validate_vstr :: "u64 \<Rightarrow> u8 \<Rightarrow> vm \<Rightarrow> int" where
  "validate_vstr vs rug vm = validate_chars vm (active_space_ptab vm) vs rug"

declare validate_pages.simps [simp del] validate_chars.simps [simp del]

section \<open>Page faults\<close>

definition UMEM_START_VMA :: u64 where "UMEM_START_VMA = 0xC0000000"

definition UMEM_END_VMA :: u64 where "UMEM_END_VMA = 0x100000000"

definition handle_umode_page_fault :: "u64 \<Rightarrow> vm \<Rightarrow> (int \<times> vm) option" where
  "handle_umode_page_fault vma vm =
     (if \<not> wellformed vma then Some (0, vm)
      else if vma < UMEM_START_VMA \<or> vma \<ge> UMEM_END_VMA then Some (0, vm)
      else case new_page zero_page vm of
        None \<Rightarrow> None
      | Some (pp, vm1) \<Rightarrow> map_option (Pair 1) (map_page vma pp (PTE_U OR PTE_R OR PTE_W) vm1))"

section \<open>Cloning, resetting and discarding a space\<close>

text \<open>The recursion over the tables, with the number of levels below as fuel: a space with more
  levels (or a cycle) would be \<open>None\<close>.\<close>

fun ptab_clone :: "nat \<Rightarrow> nat \<Rightarrow> nat \<Rightarrow> nat list \<Rightarrow> vm \<Rightarrow> vm option" where
  "ptab_clone d new cur [] vm = Some vm"
| "ptab_clone d new cur (i # is) vm =
     (let c = pt_entry vm cur i in
      if \<not> pte_valid c then ptab_clone d new cur is (set_entry new i null_pte vm)
      else if pte_global c then ptab_clone d new cur is (set_entry new i c vm)
      else if pte_leaf c
      then (case alloc_phys_page (vm_free vm) of
              None \<Rightarrow> None
            | Some (pp, cs) \<Rightarrow>
                ptab_clone d new cur is
                  (set_entry new i (leaf_pte pp (pte_flags c AND (PTE_R OR PTE_W OR PTE_X OR PTE_U)))
                     (set_page pp (vm_pages vm (pte_page c)) (vm\<lparr>vm_free := cs\<rparr>))))
      else (case new_page zero_page vm of
              None \<Rightarrow> None
            | Some (newtab, vm1) \<Rightarrow>
                (case d of
                   0 \<Rightarrow> None
                 | Suc d1 \<Rightarrow>
                     (case ptab_clone d1 newtab (pte_page c) [0..<PTE_CNT] (set_entry new i (ptab_pte newtab 0) vm1) of
                        None \<Rightarrow> None
                      | Some vm2 \<Rightarrow> ptab_clone d new cur is vm2))))"

definition clone_active_mspace :: "vm \<Rightarrow> (u64 \<times> vm) option" where
  "clone_active_mspace vm =
     (case new_page zero_page vm of
        None \<Rightarrow> None
      | Some (new, vm1) \<Rightarrow>
          map_option (Pair (ptab_to_mtag new 0)) (ptab_clone 2 new (active_space_ptab vm) [0..<PTE_CNT] vm1))"

fun ptab_reset :: "nat \<Rightarrow> nat \<Rightarrow> nat list \<Rightarrow> vm \<Rightarrow> vm option" where
  "ptab_reset d p [] vm = Some vm"
| "ptab_reset d p (i # is) vm =
     (let e = pt_entry vm p i in
      if \<not> pte_valid e \<or> pte_global e then ptab_reset d p is vm
      else if pte_leaf e then ptab_reset d p is (set_entry p i null_pte (drop_page (pte_page e) vm))
      else (case d of
              0 \<Rightarrow> None
            | Suc d1 \<Rightarrow>
                (case ptab_reset d1 (pte_page e) [0..<PTE_CNT] vm of
                   None \<Rightarrow> None
                 | Some vm1 \<Rightarrow> ptab_reset d p is (set_entry p i null_pte (drop_page (pte_page e) vm1)))))"

definition reset_active_mspace :: "vm \<Rightarrow> vm option" where
  "reset_active_mspace vm = ptab_reset 2 (active_space_ptab vm) [0..<PTE_CNT] vm"

definition discard_active_mspace :: "u64 \<Rightarrow> vm \<Rightarrow> (u64 \<times> vm) option" where
  "discard_active_mspace main_mtag vm =
     (if vm_satp vm = main_mtag then Some (main_mtag, vm)
      else let root = active_space_ptab vm in
        map_option (\<lambda>vm1. (main_mtag, drop_page root vm1))
          (ptab_reset 2 root [0..<PTE_CNT] (snd (switch_mspace main_mtag vm))))"

end
