(* ===== verification/PageEntries.thy ===== *)
theory PageEntries
  imports PageTables
begin

text \<open>
  Entries in the bytes of pages, and tables as trees: what is stored in an entry is read back,
  the pages that a table holds, the lookup of a page number, and the frame rule that a change
  of other pages does not matter.
\<close>

section \<open>Encoding\<close>

lemma pte_word: "pte_of_word (word_of_pte e) = e"
proof -
  have "(ucast (word_of_pte e) :: u8) = pte_flags e" "(ucast (drop_bit 8 (word_of_pte e)) :: 2 word) = pte_rsw e"
    "(ucast (drop_bit 10 (word_of_pte e)) :: 44 word) = pte_ppn e"
    "(ucast (drop_bit 54 (word_of_pte e)) :: 7 word) = pte_reserved e"
    "(ucast (drop_bit 61 (word_of_pte e)) :: 2 word) = pte_pbmt e" "(ucast (drop_bit 63 (word_of_pte e)) :: 1 word) = pte_n e"
    unfolding word_of_pte_def by (rule bit_word_eqI; auto simp: bit_simps dest: bit_imp_le_length)+
  then show ?thesis by (simp add: pte_of_word_def)
qed

lemma take_bit_byte:
  "take_bit n w OR push_bit n (ucast (ucast (drop_bit n w) :: u8)) = (take_bit (n + 8) w :: u64)"
  by (rule bit_word_eqI) (auto simp: bit_simps)

lemma get_u64_enc: "get_u64 (enc_u64 w) 0 = w"
proof -
  have "ucast (ucast w :: u8) = take_bit 8 w" by (rule bit_word_eqI) (auto simp: bit_simps)
  then have "get_u64 (enc_u64 w) 0 = take_bit 64 w"
    unfolding get_u64_def enc_u64_def
    by (simp add: or.assoc [symmetric] take_bit_byte [of 8, simplified] take_bit_byte [of 16, simplified]
        take_bit_byte [of 24, simplified] take_bit_byte [of 32, simplified] take_bit_byte [of 40, simplified]
        take_bit_byte [of 48, simplified] take_bit_byte [of 56, simplified] numeral_2_eq_2)
  also have "take_bit 64 w = w" by (rule bit_word_eqI) (simp add: bit_simps)
  finally show ?thesis .
qed

lemma length_enc_u64 [simp]: "length (enc_u64 w) = 8"
  by (simp add: enc_u64_def)

lemma length_put_pte [simp]: "i < 512 \<Longrightarrow> length bs = 4096 \<Longrightarrow> length (put_pte i e bs) = 4096"
  by (simp add: put_pte_def)

lemma pte_at_put:
  assumes "length bs = 4096" and "i < 512" and "j < 512"
  shows "pte_at (put_pte j e bs) i = (if i = j then e else pte_at bs i)"
proof (cases "i = j")
  case True
  have "get_u64 (put_pte j e bs) (8 * j) = get_u64 (enc_u64 (word_of_pte e)) 0"
    using assms by (simp add: get_u64_def put_pte_def nth_overwrite numeral_2_eq_2 [symmetric])
  then show ?thesis using True by (simp add: pte_at_def get_u64_enc pte_word)
next
  case False
  then have "8 * i + 8 \<le> 8 * j \<or> 8 * j + 8 \<le> 8 * i" by auto
  then have "get_u64 (put_pte j e bs) (8 * i) = get_u64 bs (8 * i)"
    using assms by (auto simp: get_u64_def put_pte_def nth_overwrite)
  then show ?thesis using False by (simp add: pte_at_def)
qed

lemma length_zero_page [simp]: "length zero_page = 4096"
  by (simp add: zero_page_def)

lemma pte_at_zero: "i < 512 \<Longrightarrow> pte_at zero_page i = null_pte"
proof -
  assume i: "i < 512"
  have "zero_page ! k = 0" if "k < 4096" for k using that by (simp add: zero_page_def)
  with i have "get_u64 zero_page (8 * i) = 0" by (simp add: get_u64_def)
  then show ?thesis by (simp add: pte_at_def pte_of_word_def null_pte_def mk_pte_def)
qed

section \<open>Flags\<close>

definition live :: "pte \<Rightarrow> bool" where
  "live e \<longleftrightarrow> pte_valid e \<and> \<not> pte_global e"

lemma flag_or: "(a OR b) AND c = (0 :: u8) \<longleftrightarrow> a AND c = 0 \<and> b AND c = 0"
  by (simp add: bit_eq_iff bit_simps) blast

lemma null_pte_flags [simp]: "\<not> pte_valid null_pte" "\<not> live null_pte" "\<not> pte_global null_pte"
  by (simp_all add: null_pte_def mk_pte_def pte_valid_def live_def pte_global_def)

lemma ptab_pte_flags [simp]: "pte_valid (ptab_pte p 0)" "\<not> pte_leaf (ptab_pte p 0)" "\<not> pte_global (ptab_pte p 0)" "live (ptab_pte p 0)"
  by (simp_all add: ptab_pte_def mk_pte_def pte_valid_def pte_leaf_def pte_global_def live_def)

lemma leaf_pte_flags:
  "pte_valid (leaf_pte p f)" "pte_leaf (leaf_pte p f) \<longleftrightarrow> f AND (PTE_R OR PTE_W OR PTE_X) \<noteq> 0"
  "pte_global (leaf_pte p f) \<longleftrightarrow> f AND PTE_G \<noteq> 0" "live (leaf_pte p f) \<longleftrightarrow> f AND PTE_G = 0"
  by (simp_all add: leaf_pte_def mk_pte_def pte_valid_def pte_leaf_def pte_global_def live_def flag_or)

lemma pte_page_leaf: "p < 2 ^ 44 \<Longrightarrow> pte_page (leaf_pte p f) = p" "p < 2 ^ 44 \<Longrightarrow> pte_page (ptab_pte p g) = p"
  by (simp_all add: leaf_pte_def ptab_pte_def mk_pte_def pte_page_def unat_word_of_nat_small)

lemma pt_index_less [simp]: "pt_index l v < 512"
  by (simp add: pt_index_def)

section \<open>Entries of the state\<close>

definition vm_wf :: "vm \<Rightarrow> bool" where
  "vm_wf vm \<longleftrightarrow> (\<forall>p. length (vm_pages vm p) = 4096)"

lemma set_page_simps [simp]:
  "vm_pages (set_page p x vm) q = (if q = p then x else vm_pages vm q)"
  "vm_free (set_page p x vm) = vm_free vm" "vm_satp (set_page p x vm) = vm_satp vm"
  by (simp_all add: set_page_def)

lemma vm_wf_set_page [simp]: "vm_wf vm \<Longrightarrow> length x = 4096 \<Longrightarrow> vm_wf (set_page p x vm)"
  by (simp add: vm_wf_def)

lemma set_entry_simps [simp]:
  "vm_free (set_entry p i e vm) = vm_free vm" "vm_satp (set_entry p i e vm) = vm_satp vm"
  "q \<noteq> p \<Longrightarrow> vm_pages (set_entry p i e vm) q = vm_pages vm q"
  by (simp_all add: set_entry_def)

lemma vm_wf_set_entry [simp]: "vm_wf vm \<Longrightarrow> i < 512 \<Longrightarrow> vm_wf (set_entry p i e vm)"
  by (simp add: vm_wf_def set_entry_def)

lemma entry_set_entry:
  "vm_wf vm \<Longrightarrow> i < 512 \<Longrightarrow> j < 512 \<Longrightarrow>
     pt_entry (set_entry p i e vm) q j = (if q = p \<and> j = i then e else pt_entry vm q j)"
  by (simp add: pt_entry_def set_entry_def vm_wf_def pte_at_put)

lemma entry_set_page: "pt_entry (set_page p x vm) q j = (if q = p then pte_at x j else pt_entry vm q j)"
  by (simp add: pt_entry_def)

lemma drop_page_simps [simp]:
  "vm_pages (drop_page p vm) = vm_pages vm" "vm_satp (drop_page p vm) = vm_satp vm"
  "vm_free (drop_page p vm) = free_phys_page p (vm_free vm)" "pt_entry (drop_page p vm) q i = pt_entry vm q i"
  by (simp_all add: drop_page_def pt_entry_def)

lemma vm_wf_drop_page [simp]: "vm_wf (drop_page p vm) = vm_wf vm"
  by (simp add: vm_wf_def)

text \<open>Pages come from the free ones.\<close>

lemma new_page_spec:
  assumes "new_page x vm = Some (p, vm')" and "chunks_wf (vm_free vm)"
  shows "p \<in> free_pages (vm_free vm)" "0 < p" "chunks_wf (vm_free vm')"
    "free_pages (vm_free vm') = free_pages (vm_free vm) - {p}"
    "vm_pages vm' = (vm_pages vm)(p := x)" "vm_satp vm' = vm_satp vm"
proof -
  from assms(1) obtain cs where a: "alloc_phys_pages 1 (vm_free vm) = Some (p, cs)" and v: "vm' = set_page p x (vm\<lparr>vm_free := cs\<rparr>)"
    by (auto simp: new_page_def alloc_phys_page_def split: option.splits)
  have one: "0 < (1 :: nat)" "{p..<p + 1} = {p}" by auto
  note s = alloc_phys_pages_spec [OF assms(2) one(1) a, unfolded one(2)]
  show "p \<in> free_pages (vm_free vm)" "0 < p" "chunks_wf (vm_free vm')"
    "free_pages (vm_free vm') = free_pages (vm_free vm) - {p}"
    "vm_pages vm' = (vm_pages vm)(p := x)" "vm_satp vm' = vm_satp vm"
    using s v by (auto simp: set_page_def)
qed

lemma new_page_None:
  assumes "chunks_wf (vm_free vm)"
  shows "new_page x vm = None \<longleftrightarrow> free_pages (vm_free vm) = {}"
proof -
  have "(\<forall>c\<in>set cs. pagecnt c < 1) \<longleftrightarrow> free_pages cs = {}" if "chunks_wf cs" for cs
    using that by (induction cs) (auto simp: chunk_pages_def)
  then show ?thesis using alloc_phys_pages_none [of 1 "vm_free vm"] assms
    by (auto simp: new_page_def alloc_phys_page_def split: option.splits)
qed

lemma drop_page_free:
  assumes "chunks_wf (vm_free vm)" and "0 < p" and "p \<notin> free_pages (vm_free vm)"
  shows "chunks_wf (vm_free (drop_page p vm))" "free_pages (vm_free (drop_page p vm)) = insert p (free_pages (vm_free vm))"
  using free_phys_pages_spec [of "vm_free vm" p 1] assms by (auto simp: free_phys_page_def)

section \<open>Trees of tables\<close>

type_synonym entries = "nat \<Rightarrow> nat \<Rightarrow> pte"

text \<open>A table with \<open>d\<close> levels below it: live entries are tables above the last level and leaves
  there, and only the root has global entries.\<close>

fun tree :: "nat \<Rightarrow> entries \<Rightarrow> nat \<Rightarrow> bool" where
  "tree 0 E p \<longleftrightarrow> (\<forall>i<512. live (E p i) \<longrightarrow> pte_leaf (E p i))"
| "tree (Suc d) E p \<longleftrightarrow>
     (\<forall>i<512. live (E p i) \<longrightarrow>
        \<not> pte_leaf (E p i) \<and> tree d E (pte_page (E p i)) \<and> (\<forall>j<512. \<not> pte_global (E (pte_page (E p i)) j)))"

text \<open>The pages below the entries \<open>is\<close> of a table, tables and frames.\<close>

fun own :: "nat \<Rightarrow> entries \<Rightarrow> nat \<Rightarrow> nat list \<Rightarrow> nat list" where
  "own 0 E p is = map (\<lambda>i. pte_page (E p i)) (filter (\<lambda>i. live (E p i)) is)"
| "own (Suc d) E p is =
     concat (map (\<lambda>i. if live (E p i) then pte_page (E p i) # own d E (pte_page (E p i)) [0..<512] else []) is)"

abbreviation own_all :: "nat \<Rightarrow> entries \<Rightarrow> nat \<Rightarrow> nat list" where
  "own_all d E p \<equiv> own d E p [0..<512]"

lemma own_Nil [simp]: "own d E p [] = []"
  by (cases d) simp_all

lemma own_append [simp]: "own d E p (xs @ ys) = own d E p xs @ own d E p ys"
  by (cases d) simp_all

definition below :: "nat \<Rightarrow> entries \<Rightarrow> pte \<Rightarrow> nat list" where
  "below d E e = (case d of 0 \<Rightarrow> [] | Suc d1 \<Rightarrow> own_all d1 E (pte_page e))"

lemma own_Cons:
  "own d E p (i # is) = (if live (E p i) then pte_page (E p i) # below d E (E p i) else []) @ own d E p is"
  by (cases d) (simp_all add: below_def)

lemma own_set:
  "set (own d E p is) = (\<Union>i\<in>{i \<in> set is. live (E p i)}. insert (pte_page (E p i)) (set (below d E (E p i))))"
  by (induction "is") (auto simp: own_Cons)

text \<open>The leaf entry of a page number.\<close>

fun look :: "nat \<Rightarrow> entries \<Rightarrow> nat \<Rightarrow> u64 \<Rightarrow> pte option" where
  "look 0 E p v = (if live (E p (pt_index 0 v)) then Some (E p (pt_index 0 v)) else None)"
| "look (Suc d) E p v =
     (if live (E p (pt_index (Suc d) v)) then look d E (pte_page (E p (pt_index (Suc d) v))) v else None)"

lemma look_own: "look d E p v = Some e \<Longrightarrow> pte_page e \<in> set (own_all d E p)"
proof (induction d arbitrary: p)
  case 0
  then show ?case by (auto split: if_splits)
next
  case (Suc d)
  then have l: "live (E p (pt_index (Suc d) v))" "look d E (pte_page (E p (pt_index (Suc d) v))) v = Some e"
    by (auto split: if_splits)
  from Suc.IH [OF l(2)] l(1) pt_index_less [of "Suc d" v] show ?case by auto
qed

text \<open>Only the entries of the pages of a table matter.\<close>

lemma tree_frame:
  assumes "\<And>q i. q \<in> insert p (set (own_all d E p)) \<Longrightarrow> i < 512 \<Longrightarrow> E' q i = E q i"
  shows "tree d E' p = tree d E p \<and> own_all d E' p = own_all d E p \<and> look d E' p v = look d E p v"
  using assms
proof (induction d arbitrary: p)
  case 0
  then have e: "E' p i = E p i" if "i < 512" for i using that by simp
  then have "map (\<lambda>i. pte_page (E' p i)) (filter (\<lambda>i. live (E' p i)) [0..<512]) =
      map (\<lambda>i. pte_page (E p i)) (filter (\<lambda>i. live (E p i)) [0..<512])"
    by (intro map_cong filter_cong) auto
  with e show ?case by simp
next
  case (Suc d)
  have e: "E' p i = E p i" if "i < 512" for i using that Suc.prems by simp
  have sub: "set (own_all d E (pte_page (E p i))) \<subseteq> set (own_all (Suc d) E p)" "pte_page (E p i) \<in> set (own_all (Suc d) E p)"
    if "i < 512" "live (E p i)" for i using that by auto
  have IH: "tree d E' (pte_page (E p i)) = tree d E (pte_page (E p i)) \<and>
      own_all d E' (pte_page (E p i)) = own_all d E (pte_page (E p i)) \<and>
      look d E' (pte_page (E p i)) v = look d E (pte_page (E p i)) v"
    if i: "i < 512" "live (E p i)" for i
  proof (rule Suc.IH)
    fix q and j :: nat assume "q \<in> insert (pte_page (E p i)) (set (own_all d E (pte_page (E p i))))" "j < 512"
    then show "E' q j = E q j" using sub [OF i] by (intro Suc.prems) auto
  qed
  have g: "E' (pte_page (E p i)) j = E (pte_page (E p i)) j" if "i < 512" "live (E p i)" "j < 512" for i j
    using sub [OF that(1,2)] that(3) by (intro Suc.prems) simp_all
  have "own_all (Suc d) E' p = own_all (Suc d) E p"
    unfolding own.simps by (intro arg_cong [where f = concat] map_cong) (use e IH in auto)
  moreover have "tree (Suc d) E' p = tree (Suc d) E p" using e IH g by auto
  moreover have "look (Suc d) E' p v = look (Suc d) E p v" using e IH by simp
  ultimately show ?case by simp
qed

section \<open>Parts of a table\<close>

definition entry_ok :: "nat \<Rightarrow> entries \<Rightarrow> pte \<Rightarrow> bool" where
  "entry_ok d E e =
     (case d of
        0 \<Rightarrow> pte_leaf e
      | Suc d1 \<Rightarrow> \<not> pte_leaf e \<and> tree d1 E (pte_page e) \<and> (\<forall>j<512. \<not> pte_global (E (pte_page e) j)))"

definition ents_ok :: "nat \<Rightarrow> entries \<Rightarrow> nat \<Rightarrow> nat list \<Rightarrow> bool" where
  "ents_ok d E p is \<longleftrightarrow> (\<forall>i\<in>set is. live (E p i) \<longrightarrow> entry_ok d E (E p i))"

lemma tree_ents: "tree d E p \<longleftrightarrow> ents_ok d E p [0..<512]"
  by (cases d) (auto simp: ents_ok_def entry_ok_def)

lemma ents_ok_Cons: "ents_ok d E p (i # is) \<longleftrightarrow> (live (E p i) \<longrightarrow> entry_ok d E (E p i)) \<and> ents_ok d E p is"
  by (simp add: ents_ok_def)

lemma entry_frame:
  assumes "\<And>q i. q \<in> insert (pte_page e) (set (below d E e)) \<Longrightarrow> i < 512 \<Longrightarrow> E' q i = E q i"
  shows "entry_ok d E' e = entry_ok d E e \<and> below d E' e = below d E e"
proof (cases d)
  case (Suc d1)
  then have "E' q i = E q i" if "q \<in> insert (pte_page e) (set (own_all d1 E (pte_page e)))" "i < 512" for q i
    using assms that by (simp add: below_def)
  note t = tree_frame [where v = 0, OF this]
  moreover have "E' (pte_page e) j = E (pte_page e) j" if "j < 512" for j using assms that by simp
  ultimately show ?thesis using Suc by (simp add: entry_ok_def below_def)
qed (simp_all add: entry_ok_def below_def)

lemma own_frame:
  assumes "\<And>j. j \<in> set js \<Longrightarrow> E' p j = E p j"
    and "\<And>q i. q \<in> set (own d E p js) \<Longrightarrow> i < 512 \<Longrightarrow> E' q i = E q i"
  shows "own d E' p js = own d E p js \<and> ents_ok d E' p js = ents_ok d E p js"
  using assms
proof (induction js)
  case (Cons i js)
  have i: "E' p i = E p i" using Cons.prems(1) by simp
  have "entry_ok d E' (E p i) = entry_ok d E (E p i) \<and> below d E' (E p i) = below d E (E p i)" if "live (E p i)"
    using that by (intro entry_frame Cons.prems(2)) (auto simp: own_Cons)
  moreover have "own d E' p js = own d E p js \<and> ents_ok d E' p js = ents_ok d E p js"
    by (rule Cons.IH) (use Cons.prems in \<open>simp_all add: own_Cons\<close>)
  ultimately show ?case using i by (simp add: own_Cons ents_ok_Cons)
qed (simp add: ents_ok_def)

end
