(* ===== verification/AddressSpace.thy ===== *)
theory AddressSpace
  imports PageEntries
begin

text \<open>
  Memory spaces as maps from pages to frames: resetting gives back exactly the pages of a
  space, cloning copies it frame by frame into free pages, mapping and unmapping change one
  page, and validation of user pointers agrees with the map.
\<close>

section \<open>Resetting\<close>

lemma ptab_reset_spec:
  assumes "vm_wf vm" and "chunks_wf (vm_free vm)" and "\<forall>i\<in>set is. i < 512" and "distinct is"
    and "ents_ok d (pt_entry vm) p is" and "distinct (p # own d (pt_entry vm) p is)"
    and "set (own d (pt_entry vm) p is) \<inter> free_pages (vm_free vm) = {}" and "0 \<notin> set (own d (pt_entry vm) p is)"
  shows "\<exists>vm'. ptab_reset d p is vm = Some vm' \<and> vm_wf vm' \<and> chunks_wf (vm_free vm') \<and> vm_satp vm' = vm_satp vm \<and>
     free_pages (vm_free vm') = free_pages (vm_free vm) \<union> set (own d (pt_entry vm) p is) \<and>
     (\<forall>q. q \<notin> insert p (set (own d (pt_entry vm) p is)) \<longrightarrow> vm_pages vm' q = vm_pages vm q) \<and>
     (\<forall>j<512. pt_entry vm' p j = (if j \<in> set is \<and> live (pt_entry vm p j) then null_pte else pt_entry vm p j))"
  using assms
proof (induction d p "is" vm rule: ptab_reset.induct)
  case (2 d p i "is" vm)
  let ?E = "pt_entry vm" and ?e = "pt_entry vm p i"
  let ?q = "pte_page ?e" and ?O = "own d ?E p is"
  have i: "i < 512" "i \<notin> set is" "\<forall>j\<in>set is. j < 512" "distinct is" using 2(7,8) by simp_all
  show ?case
  proof (cases "live ?e")
    case False
    then have run: "ptab_reset d p (i # is) vm = ptab_reset d p is vm" by (auto simp: live_def Let_def)
    have "\<exists>vm'. ptab_reset d p is vm = Some vm' \<and> vm_wf vm' \<and> chunks_wf (vm_free vm') \<and> vm_satp vm' = vm_satp vm \<and>
       free_pages (vm_free vm') = free_pages (vm_free vm) \<union> set ?O \<and>
       (\<forall>q. q \<notin> insert p (set ?O) \<longrightarrow> vm_pages vm' q = vm_pages vm q) \<and>
       (\<forall>j<512. pt_entry vm' p j = (if j \<in> set is \<and> live (pt_entry vm p j) then null_pte else pt_entry vm p j))"
      by (rule 2(1) [OF refl]) (use False 2 in \<open>auto simp: live_def own_Cons ents_ok_Cons\<close>)
    with run False show ?thesis by (auto simp: own_Cons)
  next
    case True
    then have v: "pte_valid ?e" "\<not> pte_global ?e" by (simp_all add: live_def)
    let ?B = "below d ?E ?e"
    have O: "own d ?E p (i # is) = ?q # ?B @ ?O" using True by (simp add: own_Cons)
    have ok: "entry_ok d ?E ?e" "ents_ok d ?E p is" using 2(9) True by (simp_all add: ents_ok_Cons)
    have dis: "p \<notin> set (?q # ?B @ ?O)" "distinct (?q # ?B @ ?O)" using 2(10) unfolding O by simp_all
    have fr: "set (?q # ?B @ ?O) \<inter> free_pages (vm_free vm) = {}" "0 \<notin> set (?q # ?B @ ?O)" using 2(11,12) unfolding O by simp_all
    have next_: "\<exists>vm'. ptab_reset d p is vm2 = Some vm' \<and> vm_wf vm' \<and> chunks_wf (vm_free vm') \<and> vm_satp vm' = vm_satp vm \<and>
       free_pages (vm_free vm') = free_pages (vm_free vm) \<union> set (?q # ?B @ ?O) \<and>
       (\<forall>q. q \<notin> insert p (set (?q # ?B @ ?O)) \<longrightarrow> vm_pages vm' q = vm_pages vm q) \<and>
       (\<forall>j<512. pt_entry vm' p j = (if j \<in> set (i # is) \<and> live (pt_entry vm p j) then null_pte else pt_entry vm p j))"
      if vm1: "vm_wf vm1" "chunks_wf (vm_free vm1)" "free_pages (vm_free vm1) = free_pages (vm_free vm) \<union> set ?B"
        "\<forall>q. q \<notin> set (?q # ?B) \<longrightarrow> vm_pages vm1 q = vm_pages vm q" "vm_satp vm1 = vm_satp vm"
      and vm2: "vm2 = set_entry p i null_pte (drop_page ?q vm1)"
      and IH: "\<And>E. E = pt_entry vm2 \<Longrightarrow> vm_wf vm2 \<Longrightarrow> chunks_wf (vm_free vm2) \<Longrightarrow> \<forall>i\<in>set is. i < 512 \<Longrightarrow> distinct is \<Longrightarrow>
        ents_ok d E p is \<Longrightarrow> distinct (p # own d E p is) \<Longrightarrow>
        set (own d E p is) \<inter> free_pages (vm_free vm2) = {} \<Longrightarrow> 0 \<notin> set (own d E p is) \<Longrightarrow>
        \<exists>vm'. ptab_reset d p is vm2 = Some vm' \<and> vm_wf vm' \<and> chunks_wf (vm_free vm') \<and> vm_satp vm' = vm_satp vm2 \<and>
          free_pages (vm_free vm') = free_pages (vm_free vm2) \<union> set (own d E p is) \<and>
          (\<forall>q. q \<notin> insert p (set (own d E p is)) \<longrightarrow> vm_pages vm' q = vm_pages vm2 q) \<and>
          (\<forall>j<512. pt_entry vm' p j = (if j \<in> set is \<and> live (E p j) then null_pte else E p j))"
      for vm1 vm2
    proof -
      have qf: "0 < ?q" "?q \<notin> free_pages (vm_free vm1)" using fr dis vm1(3) by auto
      note dp = drop_page_free [OF vm1(2) qf]
      have f2: "chunks_wf (vm_free vm2)" "free_pages (vm_free vm2) = insert ?q (free_pages (vm_free vm) \<union> set ?B)"
        using dp vm1(3) by (simp_all add: vm2)
      have wf2: "vm_wf vm2" using vm1(1) i by (simp add: vm2)
      have e1: "pt_entry vm1 q j = ?E q j" if "q \<notin> set (?q # ?B)" for q j using vm1(4) that by (simp add: pt_entry_def)
      have pp: "p \<notin> set (?q # ?B)" using dis(1) by auto
      have ep: "pt_entry vm2 p j = (if j = i then null_pte else ?E p j)" if "j < 512" for j
        using e1 [OF pp] vm1(1) i that by (simp add: vm2 entry_set_entry)
      have eq: "pt_entry vm2 q j = ?E q j" if "q \<notin> insert p (set (?q # ?B))" "j < 512" for q j
        using e1 [of q j] that vm1(1) i by (simp add: vm2 entry_set_entry)
      have own2: "own d (pt_entry vm2) p is = ?O \<and> ents_ok d (pt_entry vm2) p is = ents_ok d ?E p is"
      proof (rule own_frame)
        show "pt_entry vm2 p j = ?E p j" if "j \<in> set is" for j using ep i that by auto
        show "pt_entry vm2 q j = ?E q j" if "q \<in> set ?O" "j < 512" for q j
          using that dis by (intro eq) auto
      qed
      have "\<exists>vm'. ptab_reset d p is vm2 = Some vm' \<and> vm_wf vm' \<and> chunks_wf (vm_free vm') \<and> vm_satp vm' = vm_satp vm2 \<and>
          free_pages (vm_free vm') = free_pages (vm_free vm2) \<union> set (own d (pt_entry vm2) p is) \<and>
          (\<forall>q. q \<notin> insert p (set (own d (pt_entry vm2) p is)) \<longrightarrow> vm_pages vm' q = vm_pages vm2 q) \<and>
          (\<forall>j<512. pt_entry vm' p j = (if j \<in> set is \<and> live (pt_entry vm2 p j) then null_pte else pt_entry vm2 p j))"
        by (rule IH [OF refl wf2 f2(1) i(3,4)]) (use own2 ok dis fr f2(2) in auto)
      then obtain vm' where vm': "ptab_reset d p is vm2 = Some vm'" "vm_wf vm'" "chunks_wf (vm_free vm')" "vm_satp vm' = vm_satp vm2"
          "free_pages (vm_free vm') = free_pages (vm_free vm2) \<union> set ?O"
          "\<forall>q. q \<notin> insert p (set ?O) \<longrightarrow> vm_pages vm' q = vm_pages vm2 q"
          "\<forall>j<512. pt_entry vm' p j = (if j \<in> set is \<and> live (pt_entry vm2 p j) then null_pte else pt_entry vm2 p j)"
        using own2 by auto
      have "vm_pages vm' q = vm_pages vm q" if "q \<notin> insert p (set (?q # ?B @ ?O))" for q
        using that vm'(6) vm1(4) by (simp add: vm2)
      moreover have "pt_entry vm' p j = (if j \<in> set (i # is) \<and> live (pt_entry vm p j) then null_pte else pt_entry vm p j)"
        if "j < 512" for j
        using vm'(7) ep [OF that] that i(2) True by auto
      moreover have "vm_satp vm' = vm_satp vm" using vm'(4) vm1(5) by (simp add: vm2)
      ultimately show ?thesis using vm'(1-3,5) f2(2) by (intro exI [of _ vm']) auto
    qed
    show ?thesis
    proof (cases d)
      case 0
      then have leaf: "pte_leaf ?e" using ok(1) by (simp add: entry_ok_def)
      have B: "?B = []" using 0 by (simp add: below_def)
      have "ptab_reset d p (i # is) vm = ptab_reset d p is (set_entry p i null_pte (drop_page ?q vm))"
        using v leaf by (simp add: Let_def)
      with next_ [of vm, OF 2(5,6) _ _ refl refl] 2(2) [OF refl _ leaf] v B show ?thesis unfolding O by simp
    next
      case (Suc d1)
      then have leaf: "\<not> pte_leaf ?e" and t: "tree d1 ?E ?q" using ok(1) by (simp_all add: entry_ok_def)
      have B: "?B = own_all d1 ?E ?q" using Suc by (simp add: below_def)
      have "\<exists>vm'. ptab_reset d1 ?q [0..<512] vm = Some vm' \<and> vm_wf vm' \<and> chunks_wf (vm_free vm') \<and> vm_satp vm' = vm_satp vm \<and>
          free_pages (vm_free vm') = free_pages (vm_free vm) \<union> set ?B \<and>
          (\<forall>q. q \<notin> insert ?q (set ?B) \<longrightarrow> vm_pages vm' q = vm_pages vm q) \<and>
          (\<forall>j<512. pt_entry vm' ?q j = (if j \<in> set [0..<512] \<and> live (pt_entry vm ?q j) then null_pte else pt_entry vm ?q j))"
        unfolding B by (rule 2(3) [OF refl _ leaf Suc]) (use v 2(5,6) t dis fr B in \<open>auto simp: tree_ents\<close>)
      then obtain vm1 where vm1: "ptab_reset d1 ?q [0..<512] vm = Some vm1" "vm_wf vm1" "chunks_wf (vm_free vm1)" "vm_satp vm1 = vm_satp vm"
          "free_pages (vm_free vm1) = free_pages (vm_free vm) \<union> set ?B"
          "\<forall>q. q \<notin> set (?q # ?B) \<longrightarrow> vm_pages vm1 q = vm_pages vm q" by auto
      have "ptab_reset d p (i # is) vm = ptab_reset d p is (set_entry p i null_pte (drop_page ?q vm1))"
        using v leaf vm1(1) Suc by (simp add: Let_def)
      with next_ [OF vm1(2,3,5,6,4) refl] 2 v leaf Suc vm1(1) show ?thesis unfolding O by simp
    qed
  qed
qed simp

section \<open>Cloning\<close>

text \<open>The entry that a copy of an entry has: the same flags on another frame with the same bytes.\<close>

definition copy_flags :: "u8 \<Rightarrow> u8" where
  "copy_flags f = f AND (PTE_R OR PTE_W OR PTE_X OR PTE_U)"

definition copied :: "vm \<Rightarrow> vm \<Rightarrow> pte option \<Rightarrow> pte option \<Rightarrow> bool" where
  "copied vm vm' a b \<longleftrightarrow>
     (case a of
        None \<Rightarrow> b = None
      | Some e \<Rightarrow> \<exists>pp. b = Some (leaf_pte pp (copy_flags (pte_flags e))) \<and> pp < 2 ^ 44 \<and>
          pp \<in> free_pages (vm_free vm) - free_pages (vm_free vm') \<and> vm_pages vm' pp = vm_pages vm (pte_page e))"

lemma copy_flags_leaf:
  "copy_flags f AND (PTE_R OR PTE_W OR PTE_X) = f AND (PTE_R OR PTE_W OR PTE_X)" "copy_flags f AND PTE_G = 0"
  by (simp_all add: copy_flags_def and.assoc)

text \<open>A change of the state that takes pages from the free ones and writes only those and \<open>new\<close>.\<close>

definition grows :: "nat \<Rightarrow> vm \<Rightarrow> vm \<Rightarrow> bool" where
  "grows new vm vm' \<longleftrightarrow>
     vm_wf vm' \<and> chunks_wf (vm_free vm') \<and> vm_satp vm' = vm_satp vm \<and> free_pages (vm_free vm') \<subseteq> free_pages (vm_free vm) \<and>
     (\<forall>q. q \<noteq> new \<and> q \<notin> free_pages (vm_free vm) - free_pages (vm_free vm') \<longrightarrow> vm_pages vm' q = vm_pages vm q)"

lemma grows_trans: "grows new vm vm1 \<Longrightarrow> grows new vm1 vm2 \<Longrightarrow> grows new vm vm2"
  unfolding grows_def by (intro conjI allI impI) auto

lemma grows_set_entry: "vm_wf vm \<Longrightarrow> chunks_wf (vm_free vm) \<Longrightarrow> i < 512 \<Longrightarrow> grows new vm (set_entry new i e vm)"
  by (simp add: grows_def)

lemma grows_entry: "grows new vm vm' \<Longrightarrow> q \<noteq> new \<Longrightarrow> q \<notin> free_pages (vm_free vm) \<Longrightarrow> pt_entry vm' q j = pt_entry vm q j"
  by (simp add: grows_def pt_entry_def)

text \<open>What a partial clone achieves for the entries \<open>is\<close>.\<close>

definition cloned :: "nat \<Rightarrow> nat \<Rightarrow> nat \<Rightarrow> nat list \<Rightarrow> vm \<Rightarrow> vm \<Rightarrow> bool" where
  "cloned d new cur is vm vm' \<longleftrightarrow>
     grows new vm vm' \<and>
     (\<forall>j<512. j \<notin> set is \<longrightarrow> pt_entry vm' new j = pt_entry vm new j) \<and>
     (\<forall>i\<in>set is. \<not> live (pt_entry vm cur i) \<longrightarrow>
        pt_entry vm' new i = (if pte_valid (pt_entry vm cur i) then pt_entry vm cur i else null_pte)) \<and>
     (\<forall>i\<in>set is. live (pt_entry vm' new i) = live (pt_entry vm cur i)) \<and>
     ents_ok d (pt_entry vm') new is \<and>
     set (own d (pt_entry vm') new is) = free_pages (vm_free vm) - free_pages (vm_free vm') \<and>
     distinct (own d (pt_entry vm') new is) \<and>
     length (own d (pt_entry vm') new is) = length (own d (pt_entry vm) cur is) \<and>
     (\<forall>v. pt_index d v \<in> set is \<longrightarrow> copied vm vm' (look d (pt_entry vm) cur v) (look d (pt_entry vm') new v))"

definition clonable :: "nat \<Rightarrow> nat \<Rightarrow> nat \<Rightarrow> nat list \<Rightarrow> vm \<Rightarrow> bool" where
  "clonable d new cur is vm \<longleftrightarrow>
     vm_wf vm \<and> chunks_wf (vm_free vm) \<and> (\<forall>p\<in>free_pages (vm_free vm). p < 2 ^ 44) \<and>
     (\<forall>i\<in>set is. i < 512) \<and> distinct is \<and> ents_ok d (pt_entry vm) cur is \<and>
     set (cur # own d (pt_entry vm) cur is) \<inter> free_pages (vm_free vm) = {} \<and>
     new \<notin> free_pages (vm_free vm) \<and> new \<notin> set (cur # own d (pt_entry vm) cur is)"

lemma look_frame:
  assumes "E' p (pt_index d v) = E p (pt_index d v)" and "pt_index d v \<in> set js"
    and "\<And>q i. q \<in> set (own d E p js) \<Longrightarrow> i < 512 \<Longrightarrow> E' q i = E q i"
  shows "look d E' p v = look d E p v"
proof (cases d)
  case (Suc d1)
  let ?e = "E p (pt_index (Suc d1) v)"
  show ?thesis
  proof (cases "live ?e")
    case True
    then have "set (pte_page ?e # own_all d1 E (pte_page ?e)) \<subseteq> set (own d E p js)"
      using assms(2) Suc by auto
    then have "E' q i = E q i" if "q \<in> insert (pte_page ?e) (set (own_all d1 E (pte_page ?e)))" "i < 512" for q i
      using that by (intro assms(3)) auto
    from tree_frame [where v = v, OF this] show ?thesis using assms(1) True Suc by simp
  qed (use assms(1) Suc in simp)
qed (use assms(1) in simp)

lemma look_own_part:
  assumes "look d E p v = Some e" and "pt_index d v \<in> set is"
  shows "pte_page e \<in> set (own d E p is)"
proof (cases d)
  case 0
  then show ?thesis using assms by (auto split: if_splits)
next
  case (Suc d1)
  then have l: "live (E p (pt_index d v))" "look d1 E (pte_page (E p (pt_index d v))) v = Some e"
    using assms(1) by (auto split: if_splits)
  from look_own [OF l(2)] l(1) assms(2) Suc show ?thesis by auto
qed

text \<open>The source is not touched.\<close>

lemma clonable_source:
  assumes c: "clonable d new cur is vm" and g: "grows new vm vm1" and sub: "set js \<subseteq> set is"
  shows "\<And>j. pt_entry vm1 cur j = pt_entry vm cur j"
    "own d (pt_entry vm1) cur js = own d (pt_entry vm) cur js"
    "ents_ok d (pt_entry vm1) cur js = ents_ok d (pt_entry vm) cur js"
    "\<And>q. q \<in> set (own d (pt_entry vm) cur js) \<Longrightarrow> vm_pages vm1 q = vm_pages vm q"
    "\<And>v. pt_index d v \<in> set js \<Longrightarrow> look d (pt_entry vm1) cur v = look d (pt_entry vm) cur v"
proof -
  have o: "set (own d (pt_entry vm) cur js) \<subseteq> set (own d (pt_entry vm) cur is)"
    unfolding own_set using sub by auto
  show cur: "pt_entry vm1 cur j = pt_entry vm cur j" for j
    using c by (intro grows_entry [OF g]) (auto simp: clonable_def)
  have q: "q \<noteq> new" "q \<notin> free_pages (vm_free vm)" if "q \<in> set (own d (pt_entry vm) cur js)" for q
    using c o that by (auto simp: clonable_def)
  then show "vm_pages vm1 q = vm_pages vm q" if "q \<in> set (own d (pt_entry vm) cur js)" for q
    using g that by (simp add: grows_def)
  have e: "pt_entry vm1 q j = pt_entry vm q j" if "q \<in> set (own d (pt_entry vm) cur js)" for q j
    by (rule grows_entry [OF g q [OF that]])
  from own_frame [where E = "pt_entry vm" and E' = "pt_entry vm1" and p = cur and d = d and js = js, OF cur e]
  show "own d (pt_entry vm1) cur js = own d (pt_entry vm) cur js"
    "ents_ok d (pt_entry vm1) cur js = ents_ok d (pt_entry vm) cur js" by simp_all
  show "look d (pt_entry vm1) cur v = look d (pt_entry vm) cur v" if "pt_index d v \<in> set js" for v
    by (rule look_frame [where js = js]) (use cur that e in simp_all)
qed

lemma clonable_next:
  assumes c: "clonable d new cur (i # is) vm" and g: "grows new vm vm1"
  shows "clonable d new cur is vm1"
proof -
  have "set is \<subseteq> set (i # is)" by auto
  note s = clonable_source [OF c g this]
  have fr: "free_pages (vm_free vm1) \<subseteq> free_pages (vm_free vm)" using g by (simp add: grows_def)
  have o: "set (own d (pt_entry vm) cur is) \<subseteq> set (own d (pt_entry vm) cur (i # is))" by (auto simp: own_Cons)
  have "ents_ok d (pt_entry vm) cur is" using c by (simp add: clonable_def ents_ok_Cons)
  then show ?thesis using c g fr o s(2,3) unfolding clonable_def by (auto simp: grows_def)
qed

lemma copied_later:
  assumes "copied vm vm1 a b" and "grows new vm1 vm'" and "new \<notin> free_pages (vm_free vm)"
  shows "copied vm vm' a b"
proof (cases a)
  case (Some e)
  with assms(1) obtain pp where p: "b = Some (leaf_pte pp (copy_flags (pte_flags e)))" "pp < 2 ^ 44"
     "pp \<in> free_pages (vm_free vm) - free_pages (vm_free vm1)" "vm_pages vm1 pp = vm_pages vm (pte_page e)"
    by (auto simp: copied_def)
  then have "pp \<noteq> new" "pp \<notin> free_pages (vm_free vm1)" using assms(3) by auto
  then have "vm_pages vm' pp = vm_pages vm1 pp" "pp \<notin> free_pages (vm_free vm')" using assms(2) by (auto simp: grows_def)
  with p Some show ?thesis by (auto simp: copied_def)
qed (use assms(1) in \<open>simp add: copied_def\<close>)

lemma cloned_Cons:
  assumes c: "clonable d new cur (i # is) vm" and 1: "cloned d new cur [i] vm vm1" and 2: "cloned d new cur is vm1 vm'"
  shows "cloned d new cur (i # is) vm vm'"
proof -
  have g: "grows new vm vm1" "grows new vm1 vm'" using 1 2 by (simp_all add: cloned_def)
  have fr: "free_pages (vm_free vm1) \<subseteq> free_pages (vm_free vm)" "free_pages (vm_free vm') \<subseteq> free_pages (vm_free vm1)"
    using g by (simp_all add: grows_def)
  have new: "new \<notin> free_pages (vm_free vm)" using c by (simp add: clonable_def)
  have i: "i < 512" "i \<notin> set is" using c by (simp_all add: clonable_def)
  let ?E = "pt_entry vm" and ?E1 = "pt_entry vm1" and ?E' = "pt_entry vm'"
  have "set is \<subseteq> set (i # is)" by auto
  note s = clonable_source [OF c g(1) this]
  have same: "?E' new i = ?E1 new i" using 2 i by (simp add: cloned_def)
  have o1: "set (own d ?E1 new [i]) = free_pages (vm_free vm) - free_pages (vm_free vm1)" using 1 by (simp add: cloned_def)
  have e1: "?E' q j = ?E1 q j" if "q \<in> set (own d ?E1 new [i])" for q j
    using that o1 new fr by (intro grows_entry [OF g(2)]) auto
  have f1: "own d ?E' new [i] = own d ?E1 new [i] \<and> ents_ok d ?E' new [i] = ents_ok d ?E1 new [i]"
    by (rule own_frame) (use same e1 in simp_all)
  have oc: "own d ?E' new (i # is) = own d ?E' new [i] @ own d ?E' new is"
    "own d ?E cur (i # is) = own d ?E cur [i] @ own d ?E cur is"
    using own_append [of d ?E' new "[i]" "is"] own_append [of d ?E cur "[i]" "is"] by simp_all
  have o2: "set (own d ?E' new is) = free_pages (vm_free vm1) - free_pages (vm_free vm')" using 2 by (simp add: cloned_def)
  have set_: "set (own d ?E' new (i # is)) = free_pages (vm_free vm) - free_pages (vm_free vm')"
    unfolding oc using f1 o1 o2 fr by auto
  have dist: "distinct (own d ?E' new (i # is))"
    unfolding oc using f1 o1 o2 1 2 by (auto simp: cloned_def)
  have len: "length (own d ?E' new (i # is)) = length (own d ?E cur (i # is))"
    unfolding oc using f1 1 2 s(2) by (simp add: cloned_def)
  have ok: "ents_ok d ?E' new (i # is)"
    using f1 1 2 by (auto simp: cloned_def ents_ok_def)
  have cp: "copied vm vm' (look d ?E cur v) (look d ?E' new v)" if v: "pt_index d v \<in> set (i # is)" for v
  proof (cases "pt_index d v = i")
    case True
    have "look d ?E' new v = look d ?E1 new v"
      by (rule look_frame [where js = "[i]"]) (use True same e1 in simp_all)
    moreover have "copied vm vm1 (look d ?E cur v) (look d ?E1 new v)" using 1 True by (simp add: cloned_def)
    ultimately show ?thesis using copied_later [OF _ g(2) new] by simp
  next
    case False
    then have v: "pt_index d v \<in> set is" using v by simp
    have "copied vm1 vm' (look d ?E1 cur v) (look d ?E' new v)" using 2 v by (simp add: cloned_def)
    then have c1: "copied vm1 vm' (look d ?E cur v) (look d ?E' new v)" using s(5) [OF v] by simp
    show ?thesis
    proof (cases "look d ?E cur v")
      case (Some e)
      have "vm_pages vm1 (pte_page e) = vm_pages vm (pte_page e)"
        using look_own_part [OF Some v] s(4) by blast
      with c1 fr Some show ?thesis by (auto simp: copied_def)
    qed (use c1 in \<open>simp add: copied_def\<close>)
  qed
  show ?thesis
    unfolding cloned_def
  proof (intro conjI allI ballI impI grows_trans [OF g] ok set_ dist len cp)
    fix j assume "j < 512" "j \<notin> set (i # is)"
    then show "?E' new j = ?E new j" using 1 2 by (simp add: cloned_def)
  next
    fix j assume "j \<in> set (i # is)" "\<not> live (?E cur j)"
    then show "?E' new j = (if pte_valid (?E cur j) then ?E cur j else null_pte)"
      using 1 2 same s(1) by (auto simp: cloned_def)
  next
    fix j assume "j \<in> set (i # is)"
    then show "live (?E' new j) = live (?E cur j)" using 1 2 same s(1) by (auto simp: cloned_def)
  qed
qed

lemma look_dead: "\<not> live (E p (pt_index d v)) \<Longrightarrow> look d E p v = None"
  by (cases d) simp_all

lemma clonable_facts:
  assumes "clonable d new cur (i # is) vm"
  shows "vm_wf vm" "chunks_wf (vm_free vm)" "i < 512" "new \<notin> free_pages (vm_free vm)" "new \<noteq> cur"
    "cur \<notin> free_pages (vm_free vm)" "p \<in> free_pages (vm_free vm) \<Longrightarrow> p < 2 ^ 44"
  using assms by (auto simp: clonable_def)

lemma clone_dead:
  assumes c: "clonable d new cur (i # is) vm" and dead: "\<not> live (pt_entry vm cur i)"
  shows "cloned d new cur [i] vm (set_entry new i (if pte_valid (pt_entry vm cur i) then pt_entry vm cur i else null_pte) vm)"
proof -
  let ?x = "if pte_valid (pt_entry vm cur i) then pt_entry vm cur i else null_pte"
  let ?vm1 = "set_entry new i ?x vm"
  note f = clonable_facts [OF c]
  have e: "pt_entry ?vm1 new j = (if j = i then ?x else pt_entry vm new j)" if "j < 512" for j
    using entry_set_entry [OF f(1,3) that, of new ?x new] by simp
  have x: "\<not> live ?x" using dead by simp
  have "\<not> live (pt_entry ?vm1 new i)" using e [OF f(3)] x by simp
  then have "own d (pt_entry ?vm1) new [i] = []" "ents_ok d (pt_entry ?vm1) new [i]"
    by (simp_all add: own_Cons ents_ok_def)
  moreover have "own d (pt_entry vm) cur [i] = []" using dead by (simp add: own_Cons)
  moreover have "copied vm ?vm1 (look d (pt_entry vm) cur v) (look d (pt_entry ?vm1) new v)" if "pt_index d v = i" for v
    using look_dead [of "pt_entry vm" cur d v] look_dead [of "pt_entry ?vm1" new d v] dead x e [OF f(3)] that
    by (simp add: copied_def)
  ultimately show ?thesis using grows_set_entry [OF f(1-3)] e f(3) x dead by (auto simp: cloned_def)
qed

text \<open>Taking a page and putting it into the new table.\<close>

lemma clone_take:
  assumes c: "clonable d new cur (i # is) vm" and n: "new_page x vm = Some (pp, vm0)" and x: "length x = 4096"
    and vm1: "vm1 = set_entry new i e vm0"
  shows "grows new vm vm1" "free_pages (vm_free vm1) = free_pages (vm_free vm) - {pp}" "pp \<in> free_pages (vm_free vm)"
    "vm_pages vm1 pp = x" "pp < 2 ^ 44" "pp \<noteq> new" "vm_wf vm1"
    "\<And>j. j < 512 \<Longrightarrow> pt_entry vm1 new j = (if j = i then e else pt_entry vm new j)"
    "\<And>q. q \<noteq> new \<Longrightarrow> q \<noteq> pp \<Longrightarrow> vm_pages vm1 q = vm_pages vm q"
proof -
  note f = clonable_facts [OF c]
  note p = new_page_spec [OF n f(2)]
  show pp: "pp \<in> free_pages (vm_free vm)" by (rule p(1))
  show "free_pages (vm_free vm1) = free_pages (vm_free vm) - {pp}" using p(4) by (simp add: vm1)
  show lt: "pp < 2 ^ 44" by (rule f(7) [OF p(1)])
  show ne: "pp \<noteq> new" using p(1) f(4) by auto
  show "vm_pages vm1 pp = x" using ne p(5) by (simp add: vm1)
  have wf0: "vm_wf vm0" using f(1) x p(5) by (simp add: vm_wf_def)
  then show wf: "vm_wf vm1" using f(3) by (simp add: vm1)
  show q: "vm_pages vm1 q = vm_pages vm q" if "q \<noteq> new" "q \<noteq> pp" for q using that p(5) by (simp add: vm1)
  show "pt_entry vm1 new j = (if j = i then e else pt_entry vm new j)" if "j < 512" for j
    using entry_set_entry [OF wf0 f(3) that, of new e new] p(5) ne by (simp add: vm1 pt_entry_def)
  show "grows new vm vm1" using wf p(3,4,6) q pp by (auto simp: grows_def vm1)
qed

lemma clone_leaf:
  assumes c: "clonable 0 new cur (i # is) vm" and l: "live (pt_entry vm cur i)"
    and n: "new_page (vm_pages vm (pte_page (pt_entry vm cur i))) vm = Some (pp, vm0)"
    and vm1: "vm1 = set_entry new i (leaf_pte pp (copy_flags (pte_flags (pt_entry vm cur i)))) vm0"
  shows "cloned 0 new cur [i] vm vm1"
proof -
  let ?e = "pt_entry vm cur i"
  let ?l = "leaf_pte pp (copy_flags (pte_flags ?e))"
  note f = clonable_facts [OF c]
  have "length (vm_pages vm (pte_page ?e)) = 4096" using f(1) by (simp add: vm_wf_def)
  note t = clone_take [OF c n this vm1]
  have leaf: "pte_leaf ?e" using c l by (simp add: clonable_def ents_ok_Cons entry_ok_def)
  then have nl: "pte_leaf ?l" "live ?l" using copy_flags_leaf [of "pte_flags ?e"]
    by (simp_all add: leaf_pte_flags pte_leaf_def [of ?e])
  have e: "pt_entry vm1 new i = ?l" using t(8) [OF f(3)] by simp
  have pg: "pte_page ?l = pp" by (rule pte_page_leaf(1) [OF t(5)])
  have "own 0 (pt_entry vm1) new [i] = [pp]" "ents_ok 0 (pt_entry vm1) new [i]"
    using e nl pg by (simp_all add: ents_ok_def entry_ok_def)
  moreover have "own 0 (pt_entry vm) cur [i] = [pte_page ?e]" using l by simp
  moreover have "copied vm vm1 (look 0 (pt_entry vm) cur v) (look 0 (pt_entry vm1) new v)" if "pt_index 0 v = i" for v
    using that l e nl t(2-5) by (auto simp: copied_def intro!: exI [of _ pp])
  moreover have "{pp} = free_pages (vm_free vm) - free_pages (vm_free vm1)" using t(2,3) by auto
  ultimately show ?thesis using t(1,8) e nl l by (auto simp: cloned_def)
qed

lemma clone_table:
  assumes c: "clonable (Suc d) new cur (i # is) vm" and l: "live (pt_entry vm cur i)"
    and n: "new_page zero_page vm = Some (nt, vm0)" and vm1: "vm1 = set_entry new i (ptab_pte nt 0) vm0"
  shows "clonable d nt (pte_page (pt_entry vm cur i)) [0..<512] vm1"
    "own_all d (pt_entry vm1) (pte_page (pt_entry vm cur i)) = own_all d (pt_entry vm) (pte_page (pt_entry vm cur i))"
    "cloned d nt (pte_page (pt_entry vm cur i)) [0..<512] vm1 vm2 \<Longrightarrow> cloned (Suc d) new cur [i] vm vm2"
proof -
  let ?e = "pt_entry vm cur i" and ?t = "ptab_pte nt 0"
  let ?q = "pte_page ?e"
  note f = clonable_facts [OF c]
  note t = clone_take [OF c n length_zero_page vm1]
  have ok: "tree d (pt_entry vm) ?q" "\<forall>j<512. \<not> pte_global (pt_entry vm ?q j)"
    using c l by (simp_all add: clonable_def ents_ok_Cons entry_ok_def)
  have oc: "own (Suc d) (pt_entry vm) cur [i] = ?q # own_all d (pt_entry vm) ?q" using l by simp
  have o: "set (?q # own_all d (pt_entry vm) ?q) \<subseteq> set (own (Suc d) (pt_entry vm) cur (i # is))"
    unfolding oc [symmetric] using own_append [of "Suc d" "pt_entry vm" cur "[i]" "is"] by (simp only: set_append append.simps Un_upper1)
  moreover have "set (own (Suc d) (pt_entry vm) cur (i # is)) \<inter> free_pages (vm_free vm) = {}"
    "new \<notin> set (own (Suc d) (pt_entry vm) cur (i # is))" using c unfolding clonable_def by (simp_all only: list.set) blast+
  ultimately have fr: "set (?q # own_all d (pt_entry vm) ?q) \<inter> free_pages (vm_free vm) = {}"
    "new \<notin> set (?q # own_all d (pt_entry vm) ?q)" by blast+
  have e1: "pt_entry vm1 q j = pt_entry vm q j" if "q \<in> insert ?q (set (own_all d (pt_entry vm) ?q))" for q j
    using that fr by (intro grows_entry [OF t(1)]) auto
  note tf = tree_frame [where p = ?q and d = d and E = "pt_entry vm" and E' = "pt_entry vm1", OF e1]
  show o1: "own_all d (pt_entry vm1) ?q = own_all d (pt_entry vm) ?q" using tf by simp
  have nt: "nt \<noteq> ?q" "nt \<notin> set (own_all d (pt_entry vm) ?q)" using t(3) fr by auto
  show "clonable d nt ?q [0..<512] vm1"
    unfolding clonable_def o1 using t(1,2,7) f(7) fr nt ok tf by (auto simp: grows_def tree_ents)
  assume cl: "cloned d nt ?q [0..<512] vm1 vm2"
  let ?E2 = "pt_entry vm2"
  have g2: "grows nt vm1 vm2" using cl by (simp add: cloned_def)
  have sub: "free_pages (vm_free vm2) \<subseteq> free_pages (vm_free vm1)" using g2 by (simp add: grows_def)
  have g: "grows new vm vm2"
    unfolding grows_def
  proof (intro conjI allI impI)
    fix q assume q: "q \<noteq> new \<and> q \<notin> free_pages (vm_free vm) - free_pages (vm_free vm2)"
    then have "q \<noteq> nt" using t(2,3) sub by auto
    then show "vm_pages vm2 q = vm_pages vm q" using q g2 t(2,9) sub by (auto simp: grows_def)
  qed (use g2 t(1) sub in \<open>auto simp: grows_def\<close>)
  have new2: "?E2 new j = pt_entry vm1 new j" for j using t(2,6) f(4) by (intro grows_entry [OF g2]) auto
  then have e: "?E2 new i = ?t" using t(8) [OF f(3)] by simp
  have pg: "pte_page ?t = nt" by (rule pte_page_leaf(2) [OF t(5)])
  have none: "\<not> pte_global (?E2 nt j)" if j: "j < 512" for j
  proof (cases "live (pt_entry vm1 ?q j)")
    case True
    then have "live (?E2 nt j)" using cl j by (simp add: cloned_def)
    then show ?thesis by (simp add: live_def)
  next
    case False
    moreover have "\<not> pte_valid (pt_entry vm1 ?q j)" using False ok(2) e1 j by (simp add: live_def)
    ultimately have "?E2 nt j = null_pte" using cl j by (simp add: cloned_def)
    then show ?thesis by simp
  qed
  have own2: "own (Suc d) ?E2 new [i] = nt # own_all d ?E2 nt" using e pg by simp
  have set2: "set (own_all d ?E2 nt) = free_pages (vm_free vm1) - free_pages (vm_free vm2)" using cl by (simp add: cloned_def)
  have s: "set (own (Suc d) ?E2 new [i]) = free_pages (vm_free vm) - free_pages (vm_free vm2)"
    unfolding own2 using set2 t(2,3) sub by auto
  have dist: "distinct (own (Suc d) ?E2 new [i])" unfolding own2 using set2 t(2) cl by (auto simp: cloned_def)
  have len: "length (own (Suc d) ?E2 new [i]) = length (own (Suc d) (pt_entry vm) cur [i])"
    unfolding own2 oc using cl o1 by (simp add: cloned_def)
  have ents: "ents_ok (Suc d) ?E2 new [i]"
    using e pg none cl by (simp add: ents_ok_def entry_ok_def tree_ents cloned_def)
  have cp: "copied vm vm2 (look (Suc d) (pt_entry vm) cur v) (look (Suc d) ?E2 new v)" if v: "pt_index (Suc d) v = i" for v
  proof -
    have "copied vm1 vm2 (look d (pt_entry vm1) ?q v) (look d ?E2 nt v)" using cl by (simp add: cloned_def)
    then have c1: "copied vm1 vm2 (look d (pt_entry vm) ?q v) (look d ?E2 nt v)" using tf by simp
    have "copied vm vm2 (look d (pt_entry vm) ?q v) (look d ?E2 nt v)"
    proof (cases "look d (pt_entry vm) ?q v")
      case (Some a)
      from look_own [OF Some] have "pte_page a \<noteq> new" "pte_page a \<noteq> nt" using fr nt by auto
      then have "vm_pages vm1 (pte_page a) = vm_pages vm (pte_page a)" by (rule t(9))
      with c1 Some t(2) show ?thesis by (auto simp: copied_def)
    qed (use c1 in \<open>simp add: copied_def\<close>)
    then show ?thesis using v l e pg by simp
  qed
  show "cloned (Suc d) new cur [i] vm vm2"
    unfolding cloned_def using g s dist len ents cp new2 t(8) e l by auto
qed

lemma clone_step:
  assumes c: "clonable d new cur (i # is) vm"
    and rest: "\<And>vm1. clonable d new cur is vm1 \<Longrightarrow>
      (case ptab_clone d new cur is vm1 of
         None \<Rightarrow> card (free_pages (vm_free vm1)) < length (own d (pt_entry vm1) cur is)
       | Some vm' \<Rightarrow> cloned d new cur is vm1 vm')"
    and sub: "\<And>d1 n c vm1. d = Suc d1 \<Longrightarrow> clonable d1 n c [0..<512] vm1 \<Longrightarrow>
      (case ptab_clone d1 n c [0..<512] vm1 of
         None \<Rightarrow> card (free_pages (vm_free vm1)) < length (own_all d1 (pt_entry vm1) c)
       | Some vm2 \<Rightarrow> cloned d1 n c [0..<512] vm1 vm2)"
  shows "case ptab_clone d new cur (i # is) vm of
      None \<Rightarrow> card (free_pages (vm_free vm)) < length (own d (pt_entry vm) cur (i # is))
    | Some vm' \<Rightarrow> cloned d new cur (i # is) vm vm'"
proof -
  let ?E = "pt_entry vm" and ?e = "pt_entry vm cur i"
  note f = clonable_facts [OF c]
  have len: "length (own d ?E cur (i # is)) = length (own d ?E cur [i]) + length (own d ?E cur is)"
    by (simp add: own_Cons)
  have go: "case ptab_clone d new cur is vm1 of
      None \<Rightarrow> card (free_pages (vm_free vm)) < length (own d ?E cur (i # is))
    | Some vm' \<Rightarrow> cloned d new cur (i # is) vm vm'" if 1: "cloned d new cur [i] vm vm1" for vm1
  proof -
    have g: "grows new vm vm1" using 1 by (simp add: cloned_def)
    have "set is \<subseteq> set (i # is)" by auto
    note s = clonable_source(2) [OF c g this]
    have d: "free_pages (vm_free vm) - free_pages (vm_free vm1) = set (own d (pt_entry vm1) new [i])"
      "free_pages (vm_free vm1) \<subseteq> free_pages (vm_free vm)" using 1 g by (simp_all add: cloned_def grows_def)
    then have "card (set (own d (pt_entry vm1) new [i])) = card (free_pages (vm_free vm)) - card (free_pages (vm_free vm1))"
      using card_Diff_subset [of "free_pages (vm_free vm1)" "free_pages (vm_free vm)"] by simp
    moreover have "card (set (own d (pt_entry vm1) new [i])) = length (own d ?E cur [i])"
      using 1 distinct_card by (fastforce simp: cloned_def)
    moreover have "card (free_pages (vm_free vm1)) \<le> card (free_pages (vm_free vm))" using d(2) by (intro card_mono) auto
    ultimately have "card (free_pages (vm_free vm)) = card (free_pages (vm_free vm1)) + length (own d ?E cur [i])" by linarith
    with rest [OF clonable_next [OF c g]] cloned_Cons [OF c 1] s len show ?thesis
      by (auto split: option.splits)
  qed
  show ?thesis
  proof (cases "live ?e")
    case False
    have "ptab_clone d new cur (i # is) vm =
        ptab_clone d new cur is (set_entry new i (if pte_valid ?e then ?e else null_pte) vm)"
      using False by (auto simp: live_def Let_def)
    with go [OF clone_dead [OF c False]] show ?thesis by simp
  next
    case True
    then have v: "pte_valid ?e" "\<not> pte_global ?e" by (simp_all add: live_def)
    have no: "card (free_pages (vm_free vm)) < length (own d ?E cur (i # is))" if "new_page x vm = None" for x
    proof -
      have "free_pages (vm_free vm) = {}" using that new_page_None [OF f(2)] by simp
      then show ?thesis using True by (simp add: own_Cons)
    qed
    show ?thesis
    proof (cases d)
      case 0
      then have leaf: "pte_leaf ?e" using c True by (simp add: clonable_def ents_ok_Cons entry_ok_def)
      have run: "ptab_clone d new cur (i # is) vm =
          (case new_page (vm_pages vm (pte_page ?e)) vm of
             None \<Rightarrow> None
           | Some (pp, vm0) \<Rightarrow> ptab_clone d new cur is (set_entry new i (leaf_pte pp (copy_flags (pte_flags ?e))) vm0))"
        using v leaf by (simp add: Let_def new_page_def copy_flags_def split: option.split)
      show ?thesis
      proof (cases "new_page (vm_pages vm (pte_page ?e)) vm")
        case None
        with no [OF None] show ?thesis unfolding run by simp
      next
        case (Some r)
        then obtain pp vm0 where r: "new_page (vm_pages vm (pte_page ?e)) vm = Some (pp, vm0)" by (cases r) auto
        have "cloned d new cur [i] vm (set_entry new i (leaf_pte pp (copy_flags (pte_flags ?e))) vm0)"
          using clone_leaf [OF c [unfolded 0] True r refl] unfolding 0 .
        from go [OF this] show ?thesis unfolding run r option.case prod.case .
      qed
    next
      case (Suc d1)
      then have leaf: "\<not> pte_leaf ?e" using c True by (simp add: clonable_def ents_ok_Cons entry_ok_def)
      show ?thesis
      proof (cases "new_page zero_page vm")
        case None
        then show ?thesis using no [OF None] v leaf by (simp add: Let_def)
      next
        case (Some r)
        then obtain nt vm0 where r: "new_page zero_page vm = Some (nt, vm0)" by (cases r) auto
        let ?vm1 = "set_entry new i (ptab_pte nt 0) vm0"
        note t = clone_table [OF c [unfolded Suc] True r refl]
        have run: "ptab_clone d new cur (i # is) vm =
            (case ptab_clone d1 nt (pte_page ?e) [0..<512] ?vm1 of None \<Rightarrow> None | Some vm2 \<Rightarrow> ptab_clone d new cur is vm2)"
          unfolding Suc using v leaf r by (simp add: Let_def)
        show ?thesis
        proof (cases "ptab_clone d1 nt (pte_page ?e) [0..<512] ?vm1")
          case None
          then have "card (free_pages (vm_free ?vm1)) < length (own_all d1 ?E (pte_page ?e))"
            using sub [OF Suc t(1)] t(2) by simp
          moreover have "free_pages (vm_free ?vm1) = free_pages (vm_free vm) - {nt}" "nt \<in> free_pages (vm_free vm)"
            using new_page_spec [OF r f(2)] by simp_all
          ultimately have "card (free_pages (vm_free vm)) < Suc (length (own_all d1 ?E (pte_page ?e)))"
            by (simp add: card_Diff_singleton)
          then show ?thesis unfolding run None using True Suc by simp
        next
          case (Some vm2)
          then have "cloned d new cur [i] vm vm2" using t(3) sub [OF Suc t(1)] Suc by simp
          from go [OF this] show ?thesis unfolding run Some by simp
        qed
      qed
    qed
  qed
qed

lemma ptab_clone_spec:
  assumes "clonable d new cur is vm"
  shows "case ptab_clone d new cur is vm of
      None \<Rightarrow> card (free_pages (vm_free vm)) < length (own d (pt_entry vm) cur is)
    | Some vm' \<Rightarrow> cloned d new cur is vm vm'"
  using assms
proof (induction d arbitrary: new cur "is" vm)
  case (0 new cur "is" vm)
  then show ?case
  proof (induction "is" arbitrary: vm)
    case Nil
    then show ?case by (simp add: cloned_def grows_def clonable_def ents_ok_def)
  next
    case (Cons i "is")
    show ?case
    proof (rule clone_step [OF Cons.prems])
      show "case ptab_clone 0 new cur is vm1 of
          None \<Rightarrow> card (free_pages (vm_free vm1)) < length (own 0 (pt_entry vm1) cur is) | Some vm' \<Rightarrow> cloned 0 new cur is vm1 vm'"
        if "clonable 0 new cur is vm1" for vm1 by (rule Cons.IH [OF that])
    qed simp
  qed
next
  case (Suc d new cur "is" vm)
  from Suc.prems show ?case
  proof (induction "is" arbitrary: vm)
    case Nil
    then show ?case by (simp add: cloned_def grows_def clonable_def ents_ok_def)
  next
    case (Cons i "is")
    show ?case
    proof (rule clone_step [OF Cons.prems])
      show "case ptab_clone (Suc d) new cur is vm1 of
          None \<Rightarrow> card (free_pages (vm_free vm1)) < length (own (Suc d) (pt_entry vm1) cur is) | Some vm' \<Rightarrow> cloned (Suc d) new cur is vm1 vm'"
        if "clonable (Suc d) new cur is vm1" for vm1 by (rule Cons.IH [OF that])
      show "case ptab_clone d1 n c [0..<512] vm1 of
          None \<Rightarrow> card (free_pages (vm_free vm1)) < length (own_all d1 (pt_entry vm1) c) | Some vm2 \<Rightarrow> cloned d1 n c [0..<512] vm1 vm2"
        if d1: "Suc d = Suc d1" and c1: "clonable d1 n c [0..<512] vm1" for d1 n c vm1
      proof -
        have "d1 = d" using d1 by simp
        show ?thesis using Suc.IH [OF c1 [unfolded \<open>d1 = d\<close>]] unfolding \<open>d1 = d\<close> .
      qed
    qed
  qed
qed

end
