(* ===== verification/Spaces.thy ===== *)
theory Spaces
  imports AddressSpace
begin

text \<open>
  A memory space is a root table whose tree of tables and frames lies apart from the free
  pages.  Resetting and discarding give its pages back, cloning makes a second space with
  equal contents, and mapping a fresh page changes the view of one page only.
\<close>

section \<open>Spaces\<close>

abbreviation space_pages :: "vm \<Rightarrow> nat \<Rightarrow> nat list" where
  "space_pages vm root \<equiv> own_all 2 (pt_entry vm) root"

text \<open>The page table entry that the tables give for a virtual page number.\<close>

abbreviation mapped :: "vm \<Rightarrow> nat \<Rightarrow> u64 \<Rightarrow> pte option" where
  "mapped vm root vpn \<equiv> look 2 (pt_entry vm) root vpn"

definition space :: "vm \<Rightarrow> nat \<Rightarrow> bool" where
  "space vm root \<longleftrightarrow>
     vm_wf vm \<and> chunks_wf (vm_free vm) \<and> (\<forall>p\<in>free_pages (vm_free vm). p < 2 ^ 44) \<and>
     tree 2 (pt_entry vm) root \<and> distinct (root # space_pages vm root) \<and>
     set (root # space_pages vm root) \<inter> free_pages (vm_free vm) = {} \<and> 0 \<notin> set (root # space_pages vm root)"

lemma spaceD:
  assumes "space vm root"
  shows "vm_wf vm" "chunks_wf (vm_free vm)" "p \<in> free_pages (vm_free vm) \<Longrightarrow> p < 2 ^ 44"
    "tree 2 (pt_entry vm) root" "ents_ok 2 (pt_entry vm) root [0..<512]" "distinct (root # space_pages vm root)"
    "set (root # space_pages vm root) \<inter> free_pages (vm_free vm) = {}" "0 \<notin> set (root # space_pages vm root)"
  using assms unfolding space_def tree_ents by blast+

section \<open>Tags\<close>

lemma ptab_of_mtag:
  assumes "p < 2 ^ 44"
  shows "active_space_ptab ((vm :: vm)\<lparr>vm_satp := ptab_to_mtag p asid\<rparr>) = p"
proof -
  define w :: u64 where "w = of_nat p"
  have p: "unat w = p" using assms by (simp add: w_def unat_word_of_nat_small)
  have "unat (drop_bit 44 w) = 0" unfolding unat_drop_bit_eq p using assms by (simp add: drop_bit_eq_div)
  then have "drop_bit 44 w = 0" by (simp only: unat_eq_0)
  then have hi: "\<not> bit w n" if "44 \<le> n" for n
  proof -
    have "bit w n = bit (drop_bit 44 w) (n - 44)" using that by (simp add: bit_drop_bit_eq)
    then show ?thesis using \<open>drop_bit 44 w = 0\<close> by simp
  qed
  have cut: "drop_bit 12 (drop_bit 8 (push_bit 20 x)) = take_bit 44 x" for x :: u64
    by (rule bit_word_eqI) (auto simp: bit_simps)
  have "take_bit 44 (push_bit 60 (8 :: u64)) = 0" by (simp add: take_bit_push_bit)
  moreover have "take_bit 44 (push_bit 44 (of_nat asid :: u64)) = 0" by (simp add: take_bit_push_bit)
  moreover have "take_bit 44 w = w" by (rule bit_word_eqI) (use hi not_le in \<open>auto simp: bit_simps\<close>)
  ultimately have "drop_bit 12 (mtag_to_ptab (ptab_to_mtag p asid)) = w"
    unfolding mtag_to_ptab_def ptab_to_mtag_def cut take_bit_or w_def [symmetric] by simp
  then show ?thesis using p by (simp add: active_space_ptab_def)
qed

section \<open>A concrete space\<close>

text \<open>Pages 20, 21 and 22 are the tables of a space that maps the virtual page at
  \<open>UMEM_START_VMA\<close> to page 23; pages 24 to 31 are free.\<close>

definition demo_vm :: vm where
  "demo_vm =
     set_entry 20 3 (ptab_pte 21 0) (set_entry 21 0 (ptab_pte 22 0) (set_entry 22 0 (leaf_pte 23 (PTE_R OR PTE_W OR PTE_U))
       \<lparr>vm_pages = \<lambda>_. zero_page, vm_free = [\<lparr>base = 24, pagecnt = 8\<rparr>], vm_satp = ptab_to_mtag 20 0\<rparr>))"

lemma vm_demo_wf: "vm_wf demo_vm"
  unfolding demo_vm_def by (intro vm_wf_set_entry) (simp_all add: vm_wf_def)

lemma vm_demo_entry:
  assumes "j < 512"
  shows "pt_entry demo_vm 20 j = (if j = 3 then ptab_pte 21 0 else null_pte)"
    "pt_entry demo_vm 21 j = (if j = 0 then ptab_pte 22 0 else null_pte)"
    "pt_entry demo_vm 22 j = (if j = 0 then leaf_pte 23 (PTE_R OR PTE_W OR PTE_U) else null_pte)"
proof -
  let ?v = "\<lparr>vm_pages = \<lambda>_. zero_page, vm_free = [\<lparr>base = 24, pagecnt = 8\<rparr>], vm_satp = ptab_to_mtag 20 0\<rparr>"
  have w: "vm_wf ?v" by (simp add: vm_wf_def)
  have "pt_entry ?v q j = null_pte" for q using assms by (simp add: pt_entry_def pte_at_zero)
  then show "pt_entry demo_vm 20 j = (if j = 3 then ptab_pte 21 0 else null_pte)"
    "pt_entry demo_vm 21 j = (if j = 0 then ptab_pte 22 0 else null_pte)"
    "pt_entry demo_vm 22 j = (if j = 0 then leaf_pte 23 (PTE_R OR PTE_W OR PTE_U) else null_pte)"
    using assms w by (simp_all add: demo_vm_def entry_set_entry)
qed

lemma vm_demo_ptes: "pte_page (ptab_pte 21 0) = 21" "pte_page (ptab_pte 22 0) = 22"
  "pte_page (leaf_pte 23 (PTE_R OR PTE_W OR PTE_U)) = 23"
  by (simp_all add: pte_page_leaf)

lemma filter_upt_single: "k < n \<Longrightarrow> (\<And>i. i < n \<Longrightarrow> P i \<longleftrightarrow> i = k) \<Longrightarrow> filter P [0..<n] = [k]"
proof -
  assume k: "k < n" and P: "\<And>i. i < n \<Longrightarrow> P i \<longleftrightarrow> i = k"
  have "filter P [0..<n] = filter (\<lambda>i. i = k) [0..<n]" using P by (intro filter_cong) auto
  also have "\<dots> = [k]" using k by (induction n) (auto simp: less_Suc_eq)
  finally show ?thesis .
qed

lemma own_filter:
  "own (Suc d) E p is = concat (map (\<lambda>i. pte_page (E p i) # own d E (pte_page (E p i)) [0..<512]) (filter (\<lambda>i. live (E p i)) is))"
  by (induction "is") auto

lemma vm_demo_pages: "space_pages demo_vm 20 = [21, 22, 23]"
proof -
  let ?E = "pt_entry demo_vm"
  have 1: "filter (\<lambda>i. live (?E 20 i)) [0..<512] = [3]"
    by (rule filter_upt_single) (simp_all add: vm_demo_entry leaf_pte_flags)
  have 2: "filter (\<lambda>i. live (?E 21 i)) [0..<512] = [0]"
    by (rule filter_upt_single) (simp_all add: vm_demo_entry leaf_pte_flags)
  have 3: "filter (\<lambda>i. live (?E 22 i)) [0..<512] = [0]"
    by (rule filter_upt_single) (simp_all add: vm_demo_entry leaf_pte_flags)
  have "own 0 ?E 22 [0..<512] = [23]" unfolding own.simps 3 using vm_demo_ptes by (simp add: vm_demo_entry)
  then have "own (Suc 0) ?E 21 [0..<512] = [22, 23]" unfolding own_filter 2 using vm_demo_ptes by (simp add: vm_demo_entry)
  then show ?thesis unfolding numeral_2_eq_2 own_filter 1 using vm_demo_ptes by (simp add: vm_demo_entry)
qed

lemma vm_demo_free: "free_pages (vm_free demo_vm) = {24..<32}" "chunks_wf (vm_free demo_vm)"
  by (auto simp: demo_vm_def chunk_pages_def)

lemma vm_demo_space: "space demo_vm 20"
proof -
  have "tree 0 (pt_entry demo_vm) 22" by (simp add: vm_demo_entry leaf_pte_flags)
  then have "tree (Suc 0) (pt_entry demo_vm) 21" using vm_demo_ptes by (simp add: vm_demo_entry leaf_pte_flags)
  then have "tree (Suc (Suc 0)) (pt_entry demo_vm) 20" using vm_demo_ptes by (simp add: vm_demo_entry)
  then have "tree 2 (pt_entry demo_vm) 20" by (simp only: numeral_2_eq_2)
  then show ?thesis using vm_demo_wf vm_demo_free by (auto simp: space_def vm_demo_pages)
qed

lemma vm_demo_satp: "vm_satp demo_vm = ptab_to_mtag 20 0" "active_space_ptab demo_vm = 20"
proof -
  show s: "vm_satp demo_vm = ptab_to_mtag 20 0" by (simp add: demo_vm_def)
  show "active_space_ptab demo_vm = 20" using ptab_of_mtag [where p = 20 and vm = demo_vm and asid = 0] by (simp add: active_space_ptab_def s)
qed

section \<open>Discarding and cloning\<close>

lemma reset_space:
  assumes "space vm root"
  shows "\<exists>vm'. ptab_reset 2 root [0..<512] (vm\<lparr>vm_satp := m\<rparr>) = Some vm' \<and> vm_satp vm' = m \<and> vm_wf vm' \<and>
     chunks_wf (vm_free vm') \<and> free_pages (vm_free vm') = free_pages (vm_free vm) \<union> set (space_pages vm root) \<and>
     (\<forall>q. q \<notin> set (root # space_pages vm root) \<longrightarrow> vm_pages vm' q = vm_pages vm q) \<and>
     (\<forall>j<512. pt_entry vm' root j = (if live (pt_entry vm root j) then null_pte else pt_entry vm root j))"
proof -
  note s = spaceD [OF assms]
  have E: "pt_entry (vm\<lparr>vm_satp := m\<rparr>) = pt_entry vm" by (intro ext) (simp add: pt_entry_def)
  have wf: "vm_wf (vm\<lparr>vm_satp := m\<rparr>)" "chunks_wf (vm_free (vm\<lparr>vm_satp := m\<rparr>))" using s(1,2) by (simp_all add: vm_wf_def)
  have fr: "set (space_pages vm root) \<inter> free_pages (vm_free (vm\<lparr>vm_satp := m\<rparr>)) = {}" "0 \<notin> set (space_pages vm root)"
    using s(7,8) by auto
  have "\<forall>i\<in>set [0..<512]. i < (512 :: nat)" by simp
  from ptab_reset_spec [OF wf this distinct_upt, unfolded E, OF s(5,6) fr]
  obtain vm' where "ptab_reset 2 root [0..<512] (vm\<lparr>vm_satp := m\<rparr>) = Some vm'" "vm_wf vm'" "chunks_wf (vm_free vm')" "vm_satp vm' = m"
     "free_pages (vm_free vm') = free_pages (vm_free vm) \<union> set (space_pages vm root)"
     "\<forall>q. q \<notin> insert root (set (space_pages vm root)) \<longrightarrow> vm_pages vm' q = vm_pages vm q"
     "\<forall>j<512. pt_entry vm' root j = (if j \<in> set [0..<512] \<and> live (pt_entry vm root j) then null_pte else pt_entry vm root j)"
    by (elim exE conjE) simp
  then show ?thesis by (intro exI [of _ vm']) simp
qed

text \<open>\<open>discard_active_mspace\<close> on a memory space other than the kernel's own always returns the
  kernel's tag, installs it, and gives exactly the pages of the space, its root table included,
  back to the allocator: they were not free before, they are free afterwards, nothing else is,
  and no other page is written.\<close>

theorem discard_frees_space:
  assumes "space vm (active_space_ptab vm)" and "vm_satp vm \<noteq> main_mtag"
  defines "P \<equiv> set (active_space_ptab vm # space_pages vm (active_space_ptab vm))"
  shows "\<exists>vm'. discard_active_mspace main_mtag vm = Some (main_mtag, vm') \<and> vm_satp vm' = main_mtag \<and>
     chunks_wf (vm_free vm') \<and> P \<inter> free_pages (vm_free vm) = {} \<and>
     free_pages (vm_free vm') = free_pages (vm_free vm) \<union> P \<and>
     (\<forall>q. q \<notin> P \<longrightarrow> vm_pages vm' q = vm_pages vm q)"
proof -
  define root where "root = active_space_ptab vm"
  note s = spaceD [OF assms(1), folded root_def]
  obtain vm' where vm': "ptab_reset 2 root [0..<512] (vm\<lparr>vm_satp := main_mtag\<rparr>) = Some vm'" "vm_satp vm' = main_mtag"
     "chunks_wf (vm_free vm')" "free_pages (vm_free vm') = free_pages (vm_free vm) \<union> set (space_pages vm root)"
     "\<forall>q. q \<notin> set (root # space_pages vm root) \<longrightarrow> vm_pages vm' q = vm_pages vm q"
    using reset_space [OF assms(1), folded root_def, of main_mtag] by blast
  have "0 < root" "root \<notin> free_pages (vm_free vm')" using s(6-8) vm'(4) by auto
  note d = drop_page_free [OF vm'(3) this]
  have "discard_active_mspace main_mtag vm = Some (main_mtag, drop_page root vm')"
    using assms(2) vm'(1) by (simp add: discard_active_mspace_def switch_mspace_def Let_def root_def)
  moreover have "P = set (root # space_pages vm root)" unfolding P_def root_def ..
  ultimately show ?thesis using s(7) d vm' by (intro exI [of _ "drop_page root vm'"]) auto
qed

lemma discard_frees_space_witness:
  "\<exists>vm'. discard_active_mspace (ptab_to_mtag 1 0) demo_vm = Some (ptab_to_mtag 1 0, vm') \<and>
     free_pages (vm_free vm') = {20..<32}"
proof -
  have "ptab_to_mtag 20 0 \<noteq> ptab_to_mtag 1 0" by (simp add: ptab_to_mtag_def)
  then show ?thesis
    using discard_frees_space [of demo_vm "ptab_to_mtag 1 0"] vm_demo_space vm_demo_satp vm_demo_pages vm_demo_free by fastforce
qed

lemma clonable_space:
  assumes "space vm root" and "new_page zero_page vm = Some (new, vm1)"
  shows "clonable 2 new root [0..<512] vm1" "pt_entry vm1 q = (if q = new then pte_at zero_page else pt_entry vm q)"
    "space_pages vm1 root = space_pages vm root" "new \<noteq> root" "new \<notin> set (space_pages vm root)"
proof -
  note s = spaceD [OF assms(1)]
  note p = new_page_spec [OF assms(2) s(2)]
  show n: "new \<noteq> root" "new \<notin> set (space_pages vm root)" using p(1) s(7) by auto
  show e: "pt_entry vm1 q = (if q = new then pte_at zero_page else pt_entry vm q)" for q
    by (intro ext) (simp add: pt_entry_def p(5))
  have f: "own_all 2 (pt_entry vm1) root = own_all 2 (pt_entry vm) root \<and>
      ents_ok 2 (pt_entry vm1) root [0..<512] = ents_ok 2 (pt_entry vm) root [0..<512]"
    using n by (intro own_frame) (auto simp: e)
  then show "space_pages vm1 root = space_pages vm root" by simp
  have "vm_wf vm1" using s(1) p(5) by (simp add: vm_wf_def)
  moreover have "set (root # space_pages vm root) \<inter> free_pages (vm_free vm1) = {}" using s(7) p(4) by auto
  ultimately show "clonable 2 new root [0..<512] vm1"
    unfolding clonable_def using s p(3,4) f n by simp
qed

lemma grows_space:
  assumes "space vm root" and g: "grows new vm1 vm'" and "new_page zero_page vm = Some (new, vm1)"
  shows "space vm' root" "space_pages vm' root = space_pages vm root" "mapped vm' root v = mapped vm root v"
proof -
  note s = spaceD [OF assms(1)]
  note p = new_page_spec [OF assms(3) s(2)]
  note c = clonable_space [OF assms(1,3)]
  have "pt_entry vm' q i = pt_entry vm q i" if "q \<in> insert root (set (space_pages vm root))" for q i
  proof -
    have "q \<noteq> new" "q \<notin> free_pages (vm_free vm1)" using that p(4) s(7) c(4,5) by auto
    then show ?thesis using grows_entry [OF g, of q i] c(2) by simp
  qed
  note t = tree_frame [where E = "pt_entry vm" and E' = "pt_entry vm'" and d = 2 and p = root, OF this]
  then show "space_pages vm' root = space_pages vm root" "mapped vm' root v = mapped vm root v" by simp_all
  have "free_pages (vm_free vm') \<subseteq> free_pages (vm_free vm)" using g p(4) by (auto simp: grows_def)
  then show "space vm' root" using g s t unfolding space_def grows_def by auto
qed

lemma free_pages_pos: "chunks_wf cs \<Longrightarrow> 0 \<notin> free_pages cs"
  by (induction cs) (auto simp: chunk_pages_def)

text \<open>C20: \<open>clone_active_mspace\<close> takes one page for each page of the space (tables and frames) and one
  for the new root, and gives up only when the allocator has fewer.  It returns the tag of a
  second space, disjoint from the first, that maps the same virtual pages with the same R, W, X
  and U flags to frames of its own with equal bytes, and keeps the global entries of the root.
  The first space, the active tag and all other pages are as before.\<close>

theorem clone_copies_space:
  assumes "space vm (active_space_ptab vm)"
  defines "root \<equiv> active_space_ptab vm"
  shows "case clone_active_mspace vm of
     None \<Rightarrow> card (free_pages (vm_free vm)) < Suc (length (space_pages vm root))
   | Some (tag, vm') \<Rightarrow> \<exists>new < 2 ^ 44. tag = ptab_to_mtag new 0 \<and> vm_satp vm' = vm_satp vm \<and>
       space vm' root \<and> space vm' new \<and>
       set (new # space_pages vm' new) = free_pages (vm_free vm) - free_pages (vm_free vm') \<and>
       free_pages (vm_free vm') \<subseteq> free_pages (vm_free vm) \<and>
       length (space_pages vm' new) = length (space_pages vm root) \<and>
       (\<forall>q. q \<notin> set (new # space_pages vm' new) \<longrightarrow> vm_pages vm' q = vm_pages vm q) \<and>
       (\<forall>v. mapped vm' root v = mapped vm root v \<and> copied vm vm' (mapped vm root v) (mapped vm' new v)) \<and>
       (\<forall>j<512. pte_global (pt_entry vm root j) \<and> pte_valid (pt_entry vm root j) \<longrightarrow>
          pt_entry vm' new j = pt_entry vm root j)"
proof -
  note sp = assms(1) [folded root_def]
  note s = spaceD [OF sp]
  show ?thesis
  proof (cases "new_page zero_page vm")
    case None
    then have "free_pages (vm_free vm) = {}" using new_page_None [OF s(2)] by simp
    with None show ?thesis by (simp add: clone_active_mspace_def)
  next
    case (Some r)
    then obtain new vm1 where r: "new_page zero_page vm = Some (new, vm1)" by (cases r) auto
    note p = new_page_spec [OF r s(2)]
    note c = clonable_space [OF sp r]
    have run: "clone_active_mspace vm = map_option (Pair (ptab_to_mtag new 0)) (ptab_clone 2 new root [0..<512] vm1)"
      unfolding clone_active_mspace_def r root_def by simp
    have card: "card (free_pages (vm_free vm)) = Suc (card (free_pages (vm_free vm1)))"
      unfolding p(4) using card_Suc_Diff1 [OF _ p(1)] by simp
    show ?thesis
    proof (cases "ptab_clone 2 new root [0..<512] vm1")
      case None
      then have "card (free_pages (vm_free vm1)) < length (space_pages vm1 root)"
        using ptab_clone_spec [OF c(1)] by simp
      then show ?thesis using None c(3) card by (simp add: run)
    next
      case (Some vm')
      then have cl: "cloned 2 new root [0..<512] vm1 vm'" using ptab_clone_spec [OF c(1)] by simp
      then have g: "grows new vm1 vm'" by (simp add: cloned_def)
      note gs = grows_space [OF sp g r]
      have sub: "free_pages (vm_free vm') \<subseteq> free_pages (vm_free vm1)" using g by (simp add: grows_def)
      have o: "set (space_pages vm' new) = free_pages (vm_free vm1) - free_pages (vm_free vm')"
        "distinct (space_pages vm' new)" "length (space_pages vm' new) = length (space_pages vm root)"
        using cl c(3) by (simp_all add: cloned_def)
      have new: "new \<in> free_pages (vm_free vm)" "new \<notin> free_pages (vm_free vm')" "new \<notin> set (space_pages vm' new)"
        using p(1,4) sub o(1) by auto
      have pages: "set (new # space_pages vm' new) = free_pages (vm_free vm) - free_pages (vm_free vm')"
        using o(1) p(1,4) sub new by auto
      have tr: "tree 2 (pt_entry vm') new" using cl by (simp add: tree_ents cloned_def)
      have "0 \<notin> set (new # space_pages vm' new)" unfolding pages using free_pages_pos [OF s(2)] by simp
      then have sn: "space vm' new"
        using spaceD(1-3) [OF gs(1)] tr o(2) new(3) pages unfolding space_def by (intro conjI) (use free_pages_pos [OF s(2)] in auto)
      have other: "vm_pages vm' q = vm_pages vm q" if "q \<notin> set (new # space_pages vm' new)" for q
        using that g p(5) o(1) by (auto simp: grows_def)
      have cp: "copied vm vm' (mapped vm root v) (mapped vm' new v)" for v
      proof -
        have "pt_index 2 v \<in> set [0..<512]" by simp
        then have "copied vm1 vm' (mapped vm1 root v) (mapped vm' new v)" using cl by (simp add: cloned_def)
        moreover have "mapped vm1 root v = mapped vm root v"
          using c(2,4,5) by (intro look_frame [where js = "[0..<512]"]) auto
        moreover have "vm_pages vm1 (pte_page e) = vm_pages vm (pte_page e)" if "mapped vm root v = Some e" for e
          using look_own [OF that] c(5) p(5) by auto
        ultimately show ?thesis using p(4) by (auto simp: copied_def split: option.splits)
      qed
      have gl: "pt_entry vm' new j = pt_entry vm root j"
        if "j < 512" "pte_global (pt_entry vm root j)" "pte_valid (pt_entry vm root j)" for j
      proof -
        have "pt_entry vm1 root j = pt_entry vm root j" using c(2,4) by simp
        then show ?thesis using cl that by (simp add: cloned_def live_def)
      qed
      have "vm_satp vm' = vm_satp vm" using g p(6) by (simp add: grows_def)
      then show ?thesis
        unfolding run Some option.map option.case prod.case
        using gs sn pages o(3) other cp gl s(3) [OF new(1)] p(4) sub
        by (intro exI [of _ new] conjI allI impI) auto
    qed
  qed
qed

lemma clone_copies_space_witness:
  "\<exists>new vm'. clone_active_mspace demo_vm = Some (ptab_to_mtag new 0, vm') \<and> space vm' 20 \<and> space vm' new \<and>
     length (space_pages vm' new) = 3"
proof -
  have "space demo_vm (active_space_ptab demo_vm)" using vm_demo_space by (simp add: vm_demo_satp)
  note c = clone_copies_space [OF this, unfolded vm_demo_satp vm_demo_pages vm_demo_free]
  show ?thesis
  proof (cases "clone_active_mspace demo_vm")
    case (Some r)
    obtain tag vm' where r: "r = (tag, vm')" by (cases r) auto
    from c obtain new where "tag = ptab_to_mtag new 0" "space vm' 20" "space vm' new" "length (space_pages vm' new) = 3"
      unfolding Some r option.case prod.case by (elim exE conjE) simp
    then show ?thesis using Some r by blast
  qed (use c in simp)
qed

end
