(* ===== verification/MapPage.thy ===== *)
theory MapPage
  imports Spaces
begin

text \<open>
  Mapping a page into a space: \<open>ptab_insert\<close> walks down the tables, makes the ones that are
  missing, and stores one leaf; the lookup of every other page is as before.
\<close>

section \<open>Part of a space below a table\<close>

definition part :: "nat \<Rightarrow> nat \<Rightarrow> vm \<Rightarrow> bool" where
  "part d p vm \<longleftrightarrow>
     vm_wf vm \<and> chunks_wf (vm_free vm) \<and> (\<forall>q\<in>free_pages (vm_free vm). q < 2 ^ 44) \<and>
     tree d (pt_entry vm) p \<and> distinct (p # own_all d (pt_entry vm) p) \<and>
     set (p # own_all d (pt_entry vm) p) \<inter> free_pages (vm_free vm) = {} \<and> 0 \<notin> set (p # own_all d (pt_entry vm) p)"

lemma space_part: "space vm root \<longleftrightarrow> part 2 root vm"
  by (simp only: space_def part_def)

text \<open>The walk as a recursion over the levels.\<close>

fun ins :: "nat \<Rightarrow> nat \<Rightarrow> u64 \<Rightarrow> nat \<Rightarrow> u8 \<Rightarrow> vm \<Rightarrow> vm option" where
  "ins 0 p v pp f vm = Some (set_entry p (pt_index 0 v) (leaf_pte pp f) vm)"
| "ins (Suc d) p v pp f vm =
     (case next_table p (pt_index (Suc d) v) vm of None \<Rightarrow> None | Some (q, vm1) \<Rightarrow> ins d q v pp f vm1)"

lemma ptab_insert_ins: "ptab_insert p v pp f vm = ins 2 p v pp f vm"
  by (simp add: ptab_insert_def numeral_2_eq_2 split: option.split prod.split)

definition same_page :: "nat \<Rightarrow> u64 \<Rightarrow> u64 \<Rightarrow> bool" where
  "same_page d v w \<longleftrightarrow> (\<forall>l\<le>d. pt_index l v = pt_index l w)"

lemma same_page_Suc: "same_page (Suc d) v w \<longleftrightarrow> pt_index (Suc d) v = pt_index (Suc d) w \<and> same_page d v w"
  by (auto simp: same_page_def le_Suc_eq)

definition inserted :: "nat \<Rightarrow> nat \<Rightarrow> u64 \<Rightarrow> nat \<Rightarrow> u8 \<Rightarrow> vm \<Rightarrow> vm \<Rightarrow> bool" where
  "inserted d p v pp f vm vm' \<longleftrightarrow>
     part d p vm' \<and> vm_satp vm' = vm_satp vm \<and> free_pages (vm_free vm') \<subseteq> free_pages (vm_free vm) \<and>
     set (own_all d (pt_entry vm') p) =
       set (own_all d (pt_entry vm) p) \<union> {pp} \<union> (free_pages (vm_free vm) - free_pages (vm_free vm')) \<and>
     (\<forall>q. q \<notin> set (p # own_all d (pt_entry vm) p) \<and> q \<notin> free_pages (vm_free vm) - free_pages (vm_free vm') \<longrightarrow>
        vm_pages vm' q = vm_pages vm q) \<and>
     (\<forall>w e. look d (pt_entry vm) p w = Some e \<longrightarrow> vm_pages vm' (pte_page e) = vm_pages vm (pte_page e)) \<and>
     (\<forall>j<512. j \<noteq> pt_index d v \<longrightarrow> pt_entry vm' p j = pt_entry vm p j) \<and> live (pt_entry vm' p (pt_index d v)) \<and>
     (\<forall>w. look d (pt_entry vm') p w = (if same_page d w v then Some (leaf_pte pp f) else look d (pt_entry vm) p w))"

text \<open>The entries of a table around one of them.\<close>

lemma own_split:
  assumes "i < 512"
  shows "own_all d E p = own d E p [0..<i] @ own d E p [i] @ own d E p [Suc i..<512]"
proof -
  have "[0..<512] = [0..<i] @ [i] @ [Suc i..<512]"
    using assms upt_add_eq_append [of 0 i "512 - i"] upt_conv_Cons [of i 512] by simp
  then show ?thesis by (simp only: own_append)
qed

lemma ents_split:
  assumes "i < 512"
  shows "tree d E p \<longleftrightarrow> ents_ok d E p [0..<i] \<and> ents_ok d E p [i] \<and> ents_ok d E p [Suc i..<512]"
proof -
  have "{0..<512} = {0..<i} \<union> {i} \<union> {Suc i..<512}" using assms by auto
  then show ?thesis unfolding tree_ents by (auto simp: ents_ok_def)
qed

lemma partD:
  assumes "part d p vm"
  shows "vm_wf vm" "chunks_wf (vm_free vm)" "q \<in> free_pages (vm_free vm) \<Longrightarrow> q < 2 ^ 44" "tree d (pt_entry vm) p"
    "distinct (p # own_all d (pt_entry vm) p)" "set (p # own_all d (pt_entry vm) p) \<inter> free_pages (vm_free vm) = {}"
    "0 \<notin> set (p # own_all d (pt_entry vm) p)"
  using assms unfolding part_def by blast+

text \<open>A change of one entry of a table, and of what is below it.\<close>

lemma replace_entry:
  fixes E E' :: entries
  assumes p: "part d p vm" and i: "i < 512"
    and wf: "vm_wf vm'" "chunks_wf (vm_free vm')" "free_pages (vm_free vm') \<subseteq> free_pages (vm_free vm)"
  defines "E \<equiv> pt_entry vm" and "E' \<equiv> pt_entry vm'"
  assumes keep: "\<And>j. j < 512 \<Longrightarrow> j \<noteq> i \<Longrightarrow> E' p j = E p j"
    "\<And>q j. q \<in> set (own d E p ([0..<i] @ [Suc i..<512])) \<Longrightarrow> j < 512 \<Longrightarrow> E' q j = E q j"
    and new: "ents_ok d E' p [i]" "distinct (own d E' p [i])"
      "set (own d E' p [i]) = set (own d E p [i]) \<union> {pp} \<union> (free_pages (vm_free vm) - free_pages (vm_free vm'))"
    and pp: "0 < pp" "pp \<notin> set (p # own_all d E p)" "pp \<notin> free_pages (vm_free vm)"
  shows "part d p vm'"
    "set (own_all d E' p) = set (own_all d E p) \<union> {pp} \<union> (free_pages (vm_free vm) - free_pages (vm_free vm'))"
    "\<And>w. pt_index d w \<noteq> i \<Longrightarrow> look d E' p w = look d E p w"
proof -
  let ?js = "[0..<i] @ [Suc i..<512]"
  note d = partD [OF p, folded E_def]
  have js: "j \<in> set ?js \<Longrightarrow> j < 512 \<and> j \<noteq> i" for j using i by auto
  have f: "own d E' p ?js = own d E p ?js \<and> ents_ok d E' p ?js = ents_ok d E p ?js"
    by (rule own_frame) (use keep js in blast)+
  have f1: "own d E' p [0..<i] = own d E p [0..<i]" "own d E' p [Suc i..<512] = own d E p [Suc i..<512]"
    by (rule own_frame [THEN conjunct1]; use keep i in auto)+
  note o = own_split [OF i, of d E p] own_split [OF i, of d E' p, unfolded f1]
  have fr: "free_pages (vm_free vm) \<inter> set (own_all d E p) = {}" "p \<notin> free_pages (vm_free vm)" using d(6) by auto
  show s: "set (own_all d E' p) = set (own_all d E p) \<union> {pp} \<union> (free_pages (vm_free vm) - free_pages (vm_free vm'))"
    unfolding o(2) using new(3) unfolding o(1) by auto
  have "distinct (own_all d E' p)"
    using d(5) fr(1) pp(2,3) new(2,3) unfolding o by auto
  moreover have "tree d E' p"
    using d(4) f new(1) unfolding ents_split [OF i] by (auto simp: ents_ok_def)
  moreover have "p \<notin> set (own_all d E' p)" unfolding s using d(5) pp fr(2) by auto
  moreover have "set (p # own_all d E' p) \<inter> free_pages (vm_free vm') = {}" using s fr pp(3) wf(3) by auto
  moreover have "0 \<notin> set (p # own_all d E' p)" using s d(7) pp(1) free_pages_pos [OF d(2)] by auto
  ultimately show "part d p vm'" using wf d(3) unfolding part_def E'_def by auto
  show "look d E' p w = look d E p w" if "pt_index d w \<noteq> i" for w
    by (rule look_frame [where js = ?js]) (use that keep pt_index_less [of d w] in auto)
qed

lemma ins_leaf:
  assumes p: "part 0 p vm" and none: "look 0 (pt_entry vm) p v = None"
    and pp: "0 < pp" "pp < 2 ^ 44" "pp \<notin> set (p # own_all 0 (pt_entry vm) p)" "pp \<notin> free_pages (vm_free vm)"
    and f: "f AND (PTE_R OR PTE_W OR PTE_X) \<noteq> 0" "f AND PTE_G = 0"
  shows "inserted 0 p v pp f vm (set_entry p (pt_index 0 v) (leaf_pte pp f) vm)"
proof -
  let ?i = "pt_index 0 v" and ?l = "leaf_pte pp f"
  let ?vm' = "set_entry p ?i ?l vm"
  let ?E = "pt_entry vm" and ?E' = "pt_entry ?vm'"
  note d = partD [OF p]
  have l: "live ?l" "pte_leaf ?l" "pte_page ?l = pp" using f pp by (simp_all add: leaf_pte_flags pte_page_leaf)
  have e: "?E' q j = (if q = p \<and> j = ?i then ?l else ?E q j)" if "j < 512" for q j
    using d(1) that by (simp add: entry_set_entry)
  have n: "\<not> live (?E p ?i)" using none by (simp split: if_splits)
  have m: "own 0 ?E' p [?i] = [pp]" "own 0 ?E p [?i] = []" "ents_ok 0 ?E' p [?i]"
    using e l n by (simp_all add: ents_ok_def entry_ok_def)
  have np: "p \<notin> set (own 0 ?E p ([0..<?i] @ [Suc ?i..<512]))"
    using d(5) own_split [of ?i 0 ?E p] by (simp del: own.simps)
  have k1: "?E' p j = ?E p j" if "j < 512" "j \<noteq> ?i" for j using e that by simp
  have k2: "?E' q j = ?E q j" if "q \<in> set (own 0 ?E p ([0..<?i] @ [Suc ?i..<512]))" "j < 512" for q j
    using np that e by (cases "q = p") (simp_all del: own.simps)
  have w: "vm_wf ?vm'" "chunks_wf (vm_free ?vm')" "free_pages (vm_free ?vm') \<subseteq> free_pages (vm_free vm)"
    using d(1,2) by simp_all
  have m1: "distinct (own 0 ?E' p [?i])"
    "set (own 0 ?E' p [?i]) = set (own 0 ?E p [?i]) \<union> {pp} \<union> (free_pages (vm_free vm) - free_pages (vm_free ?vm'))"
    unfolding m by simp_all
  note r = replace_entry [OF p pt_index_less w k1 k2 m(3) m1 pp(1,3,4)]
  have "look 0 ?E' p w = (if same_page 0 w v then Some ?l else look 0 ?E p w)" for w
    using e l by (auto simp: same_page_def)
  moreover have "vm_pages ?vm' (pte_page x) = vm_pages vm (pte_page x)" if "look 0 ?E p w = Some x" for w x
  proof -
    have "pte_page x \<noteq> p" using look_own [OF that] d(5) by auto
    then show ?thesis by simp
  qed
  ultimately show ?thesis unfolding inserted_def using r(1,2) e l by (auto simp del: own.simps)
qed

text \<open>One step down: the table below the entry, found or made.\<close>

lemma next_table_spec:
  assumes p: "part (Suc d) p vm" and i: "i < 512" and g: "\<not> pte_global (pt_entry vm p i)"
    and n: "next_table p i vm = Some (q, vm1)"
  shows "part d q vm1" "live (pt_entry vm1 p i)" "\<not> pte_leaf (pt_entry vm1 p i)" "pte_page (pt_entry vm1 p i) = q"
    "j < 512 \<Longrightarrow> j \<noteq> i \<Longrightarrow> pt_entry vm1 p j = pt_entry vm p j"
    "r \<noteq> p \<Longrightarrow> r \<notin> free_pages (vm_free vm) - free_pages (vm_free vm1) \<Longrightarrow> vm_pages vm1 r = vm_pages vm r"
    "free_pages (vm_free vm1) \<subseteq> free_pages (vm_free vm)" "vm_satp vm1 = vm_satp vm"
    "set (q # own_all d (pt_entry vm1) q) =
       set (own (Suc d) (pt_entry vm) p [i]) \<union> (free_pages (vm_free vm) - free_pages (vm_free vm1))"
    "look d (pt_entry vm1) q w =
       (if live (pt_entry vm p i) then look d (pt_entry vm) (pte_page (pt_entry vm p i)) w else None)"
    "j < 512 \<Longrightarrow> \<not> pte_global (pt_entry vm1 q j)"
proof -
  let ?E = "pt_entry vm" and ?e = "pt_entry vm p i"
  note d = partD [OF p]
  have o: "own_all (Suc d) ?E p = own (Suc d) ?E p [0..<i] @ own (Suc d) ?E p [i] @ own (Suc d) ?E p [Suc i..<512]"
    by (rule own_split [OF i])
  have "part d q vm1 \<and> live (pt_entry vm1 p i) \<and> \<not> pte_leaf (pt_entry vm1 p i) \<and> pte_page (pt_entry vm1 p i) = q \<and>
    (\<forall>j<512. j \<noteq> i \<longrightarrow> pt_entry vm1 p j = pt_entry vm p j) \<and>
    (\<forall>r. r \<noteq> p \<and> r \<notin> free_pages (vm_free vm) - free_pages (vm_free vm1) \<longrightarrow> vm_pages vm1 r = vm_pages vm r) \<and>
    free_pages (vm_free vm1) \<subseteq> free_pages (vm_free vm) \<and> vm_satp vm1 = vm_satp vm \<and>
    set (q # own_all d (pt_entry vm1) q) =
       set (own (Suc d) (pt_entry vm) p [i]) \<union> (free_pages (vm_free vm) - free_pages (vm_free vm1)) \<and>
    (\<forall>w. look d (pt_entry vm1) q w = (if live ?e then look d ?E (pte_page ?e) w else None)) \<and>
    (\<forall>j<512. \<not> pte_global (pt_entry vm1 q j))"
  proof (cases "live ?e")
    case True
    then have q: "q = pte_page ?e" "vm1 = vm" using n by (auto simp: next_table_def live_def split: if_splits)
    have oi: "own (Suc d) ?E p [i] = q # own_all d ?E q" using True q by simp
    have sub: "set (q # own_all d ?E q) \<subseteq> set (own_all (Suc d) ?E p)" "distinct (q # own_all d ?E q)"
      using d(5) unfolding o oi by (auto simp del: own.simps)
    have t: "\<not> pte_leaf ?e \<and> tree d ?E q \<and> (\<forall>j<512. \<not> pte_global (?E q j))" using d(4) True i q by simp
    have "part d q vm" unfolding part_def using d(1-3,6,7) sub t by (auto simp del: own.simps)
    then show ?thesis using True q t oi by (simp del: own.simps)
  next
    case False
    then have nv: "\<not> pte_valid ?e" using g by (simp add: live_def)
    then obtain vm0 where z: "new_page zero_page vm = Some (q, vm0)" "vm1 = set_entry p i (ptab_pte q 0) vm0"
      using n by (auto simp: next_table_def)
    note s = new_page_spec [OF z(1) d(2)]
    have ne: "q \<noteq> p" "q < 2 ^ 44" using s(1) d(3,6) by auto
    have w0: "vm_wf vm0" using d(1) s(5) by (simp add: vm_wf_def)
    have e0: "pt_entry vm0 r = (if r = q then pte_at zero_page else ?E r)" for r by (intro ext) (simp add: pt_entry_def s(5))
    have e1: "pt_entry vm1 r j = (if r = p \<and> j = i then ptab_pte q 0 else if r = q then null_pte else ?E r j)" if "j < 512" for r j
      unfolding z(2) using entry_set_entry [OF w0 i that, of p "ptab_pte q 0" r] e0 that by (simp add: pte_at_zero)
    have z1: "\<not> live (pt_entry vm1 q j)" "\<not> pte_global (pt_entry vm1 q j)" if "j < 512" for j
      using e1 [OF that, of q] ne by simp_all
    have own0: "own_all d (pt_entry vm1) q = []"
    proof -
      have "set (own_all d (pt_entry vm1) q) = {}" unfolding own_set using z1(1) by auto
      then show ?thesis by simp
    qed
    have "tree d (pt_entry vm1) q" unfolding tree_ents ents_ok_def using z1(1) by auto
    then have "part d q vm1"
      unfolding part_def own0 using w0 s(2-4) d(3) i z(2) by simp
    moreover have "look d (pt_entry vm1) q w = None" for w using z1(1) by (intro look_dead) simp
    moreover have "own (Suc d) ?E p [i] = []" using False by simp
    ultimately show ?thesis using e1 [OF i, of p] e1 ne own0 z1 s z(2) False pte_page_leaf(2) [OF ne(2)]
      by (auto simp del: own.simps)
  qed
  then show "part d q vm1" "live (pt_entry vm1 p i)" "\<not> pte_leaf (pt_entry vm1 p i)" "pte_page (pt_entry vm1 p i) = q"
    "j < 512 \<Longrightarrow> j \<noteq> i \<Longrightarrow> pt_entry vm1 p j = pt_entry vm p j"
    "r \<noteq> p \<Longrightarrow> r \<notin> free_pages (vm_free vm) - free_pages (vm_free vm1) \<Longrightarrow> vm_pages vm1 r = vm_pages vm r"
    "free_pages (vm_free vm1) \<subseteq> free_pages (vm_free vm)" "vm_satp vm1 = vm_satp vm"
    "set (q # own_all d (pt_entry vm1) q) =
       set (own (Suc d) (pt_entry vm) p [i]) \<union> (free_pages (vm_free vm) - free_pages (vm_free vm1))"
    "look d (pt_entry vm1) q w =
       (if live (pt_entry vm p i) then look d (pt_entry vm) (pte_page (pt_entry vm p i)) w else None)"
    "j < 512 \<Longrightarrow> \<not> pte_global (pt_entry vm1 q j)"
    by blast+
qed

lemma ins_table:
  assumes p: "part (Suc d) p vm" and g: "\<not> pte_global (pt_entry vm p (pt_index (Suc d) v))"
    and n: "next_table p (pt_index (Suc d) v) vm = Some (q, vm1)"
    and pp: "0 < pp" "pp \<notin> set (p # own_all (Suc d) (pt_entry vm) p)" "pp \<notin> free_pages (vm_free vm)"
    and ins: "inserted d q v pp f vm1 vm'"
  shows "inserted (Suc d) p v pp f vm vm'"
proof -
  let ?i = "pt_index (Suc d) v" and ?E = "pt_entry vm" and ?E1 = "pt_entry vm1" and ?E' = "pt_entry vm'"
  let ?js = "[0..<?i] @ [Suc ?i..<512]"
  note i = pt_index_less [of "Suc d" v]
  note d = partD [OF p]
  note t = next_table_spec [OF p i g n]
  note x = ins [unfolded inserted_def]
  have sub: "free_pages (vm_free vm') \<subseteq> free_pages (vm_free vm1)" using x by blast
  have pt: "part d q vm'" using x by blast
  have o: "own_all (Suc d) ?E p = own (Suc d) ?E p [0..<?i] @ own (Suc d) ?E p [?i] @ own (Suc d) ?E p [Suc ?i..<512]"
    by (rule own_split [OF i])
  have np: "p \<notin> set (q # own_all d ?E1 q)" "p \<notin> free_pages (vm_free vm)"
    unfolding t(9) using d(5,6) unfolding o by (auto simp del: own.simps)
  have other: "vm_pages vm' r = vm_pages vm r"
    if "r \<noteq> p" "r \<notin> set (own (Suc d) ?E p [?i])" "r \<notin> free_pages (vm_free vm) - free_pages (vm_free vm')" for r
  proof -
    have "r \<notin> set (q # own_all d ?E1 q)" unfolding t(9) using that sub by auto
    moreover have "r \<notin> free_pages (vm_free vm1) - free_pages (vm_free vm')" using that t(7) by auto
    ultimately have "vm_pages vm' r = vm_pages vm1 r" using x by blast
    also have "\<dots> = vm_pages vm r" using that sub by (intro t(6)) auto
    finally show ?thesis .
  qed
  have pp1: "vm_pages vm' p = vm_pages vm1 p"
  proof -
    have "p \<notin> free_pages (vm_free vm1)" using np(2) t(7) by auto
    then show ?thesis using x np(1) by blast
  qed
  then have ep: "?E' p j = ?E1 p j" for j by (simp add: pt_entry_def)
  have js: "r \<noteq> p" "r \<notin> set (own (Suc d) ?E p [?i])" "r \<notin> free_pages (vm_free vm)" if "r \<in> set (own (Suc d) ?E p ?js)" for r
    using that d(5,6) unfolding o own_append by (auto simp del: own.simps)
  have k1: "?E' p j = ?E p j" if "j < 512" "j \<noteq> ?i" for j using ep t(5) that by simp
  have k2: "?E' r j = ?E r j" if "r \<in> set (own (Suc d) ?E p ?js)" "j < 512" for r j
    using other [OF js(1,2)] js(3) that by (simp add: pt_entry_def del: own.simps)
  have lv: "live (?E' p ?i)" "\<not> pte_leaf (?E' p ?i)" "pte_page (?E' p ?i) = q" using ep t(2-4) by simp_all
  have ng: "\<not> pte_global (?E' q j)" if "j < 512" for j
  proof (cases "j = pt_index d v")
    case True
    then have "live (?E' q j)" using x by blast
    then show ?thesis by (simp add: live_def)
  next
    case False
    then have "?E' q j = ?E1 q j" using x that by blast
    then show ?thesis using t(11) [OF that] by simp
  qed
  have oi: "own (Suc d) ?E' p [?i] = q # own_all d ?E' q" using lv by simp
  have ok: "ents_ok (Suc d) ?E' p [?i]" using lv ng partD(4) [OF pt] by (simp add: ents_ok_def entry_ok_def)
  have dist: "distinct (own (Suc d) ?E' p [?i])" unfolding oi by (rule partD(5) [OF pt])
  have so: "set (own_all d ?E' q) = set (own_all d ?E1 q) \<union> {pp} \<union> (free_pages (vm_free vm1) - free_pages (vm_free vm'))"
    using x by blast
  have s: "set (own (Suc d) ?E' p [?i]) =
      set (own (Suc d) ?E p [?i]) \<union> {pp} \<union> (free_pages (vm_free vm) - free_pages (vm_free vm'))"
  proof -
    have "set (own (Suc d) ?E' p [?i]) = set (q # own_all d ?E1 q) \<union> {pp} \<union> (free_pages (vm_free vm1) - free_pages (vm_free vm'))"
      unfolding oi list.set so by blast
    then show ?thesis unfolding t(9) using sub t(7) by blast
  qed
  have sub2: "free_pages (vm_free vm') \<subseteq> free_pages (vm_free vm)" using sub t(7) by blast
  note r = replace_entry [OF p i partD(1,2) [OF pt] sub2 k1 k2 ok dist s pp]
  have lk: "look (Suc d) ?E' p w = (if same_page (Suc d) w v then Some (leaf_pte pp f) else look (Suc d) ?E p w)" for w
  proof (cases "pt_index (Suc d) w = ?i")
    case True
    have "look (Suc d) ?E' p w = look d ?E' q w" "look (Suc d) ?E p w = look d ?E1 q w"
      using True lv t(10) by simp_all
    then show ?thesis using x True by (simp add: same_page_Suc)
  next
    case False
    then show ?thesis using r(3) by (simp add: same_page_Suc)
  qed
  have fr: "vm_pages vm' (pte_page e) = vm_pages vm (pte_page e)" if e: "look (Suc d) ?E p w = Some e" for w e
  proof (cases "pt_index (Suc d) w = ?i")
    case True
    then have l1: "look d ?E1 q w = Some e" using e t(10) [of w] by (simp split: if_splits)
    then have "vm_pages vm' (pte_page e) = vm_pages vm1 (pte_page e)" using x by blast
    moreover have "pte_page e \<noteq> p" "pte_page e \<notin> free_pages (vm_free vm)"
      using look_own [OF e] d(5,6) by (auto simp del: own.simps)
    ultimately show ?thesis using t(6) by simp
  next
    case False
    then have "pte_page e \<in> set (own (Suc d) ?E p ?js)"
      by (intro look_own_part [OF e]) (use pt_index_less [of "Suc d" w] in auto)
    from other [OF js(1,2) [OF this]] js(3) [OF this] show ?thesis by simp
  qed
  have "vm_satp vm' = vm_satp vm" using x t(8) by simp
  then show ?thesis
    unfolding inserted_def
  proof (intro conjI r(1,2) sub2 allI impI)
    fix q' assume "q' \<notin> set (p # own_all (Suc d) ?E p) \<and> q' \<notin> free_pages (vm_free vm) - free_pages (vm_free vm')"
    then show "vm_pages vm' q' = vm_pages vm q'" unfolding o by (intro other) (simp_all del: own.simps)
  qed (use fr k1 lv lk in auto)
qed

lemma ins_spec:
  assumes "part d p vm" and "look d (pt_entry vm) p v = None" and "\<not> pte_global (pt_entry vm p (pt_index d v))"
    and "0 < pp" "pp < 2 ^ 44" "pp \<notin> set (p # own_all d (pt_entry vm) p)" "pp \<notin> free_pages (vm_free vm)"
    and f: "f AND (PTE_R OR PTE_W OR PTE_X) \<noteq> 0" "f AND PTE_G = 0"
  shows "case ins d p v pp f vm of
      None \<Rightarrow> card (free_pages (vm_free vm)) < d
    | Some vm' \<Rightarrow> inserted d p v pp f vm vm'"
  using assms(1-7)
proof (induction d arbitrary: p vm)
  case 0
  then show ?case using ins_leaf [OF _ _ _ _ _ _ f] by (simp del: own.simps look.simps)
next
  case (Suc d)
  let ?i = "pt_index (Suc d) v"
  note i = pt_index_less [of "Suc d" v]
  note d = partD [OF Suc.prems(1)]
  show ?case
  proof (cases "next_table p ?i vm")
    case None
    then have "new_page zero_page vm = None" by (auto simp: next_table_def split: if_splits)
    then have "free_pages (vm_free vm) = {}" using new_page_None [OF d(2)] by simp
    with None show ?thesis by simp
  next
    case (Some qv)
    then obtain q vm1 where n: "next_table p ?i vm = Some (q, vm1)" by (cases qv) auto
    note t = next_table_spec [OF Suc.prems(1) i Suc.prems(3) n]
    have "look d (pt_entry vm1) q v = None" unfolding t(10) using Suc.prems(2) by auto
    moreover have "pp \<notin> set (q # own_all d (pt_entry vm1) q)"
      unfolding t(9) using Suc.prems(6,7) own_split [OF i, of "Suc d" "pt_entry vm" p] by (auto simp del: own.simps)
    moreover have "pp \<notin> free_pages (vm_free vm1)" using t(7) Suc.prems(7) by auto
    ultimately have IH: "case ins d q v pp f vm1 of
        None \<Rightarrow> card (free_pages (vm_free vm1)) < d | Some vm' \<Rightarrow> inserted d q v pp f vm1 vm'"
      using Suc.IH [OF t(1)] t(11) Suc.prems(4,5) by simp
    show ?thesis
    proof (cases "ins d q v pp f vm1")
      case None
      have "card (free_pages (vm_free vm)) \<le> Suc (card (free_pages (vm_free vm1)))"
        using n new_page_spec(1,4) [OF _ d(2)] card_Suc_Diff1 [of "free_pages (vm_free vm)"]
        by (auto simp: next_table_def split: if_splits)
      then show ?thesis using None IH n by simp
    next
      case (Some vm')
      then have "inserted d q v pp f vm1 vm'" using IH by simp
      from ins_table [OF Suc.prems(1,3) n Suc.prems(4,6,7) this] show ?thesis using n Some by simp
    qed
  qed
qed

section \<open>Mapping one page\<close>

text \<open>C21: \<open>map_page\<close> of a fresh frame at a page that the active space does not map either gives up
  because fewer than two pages are free for new tables, or changes the view of that one page: it
  is mapped to the frame with the given flags, every other page is mapped as before, the
  contents of mapped frames and of pages outside the space are kept, and the result is again a
  space, which has grown by the frame and by exactly the pages that the allocator lost.\<close>

theorem map_page_maps_one:
  assumes "space vm (active_space_ptab vm)" and "mapped vm (active_space_ptab vm) (VPN vma) = None"
    and "\<not> pte_global (pt_entry vm (active_space_ptab vm) (pt_index 2 (VPN vma)))"
    and "0 < pp" "pp < 2 ^ 44" "pp \<notin> free_pages (vm_free vm)"
      "pp \<notin> set (active_space_ptab vm # space_pages vm (active_space_ptab vm))"
    and "f AND (PTE_R OR PTE_W OR PTE_X) \<noteq> 0" "f AND PTE_G = 0"
  defines "root \<equiv> active_space_ptab vm"
  shows "case map_page vma pp f vm of
     None \<Rightarrow> card (free_pages (vm_free vm)) < 2
   | Some vm' \<Rightarrow> space vm' root \<and> vm_satp vm' = vm_satp vm \<and>
       (\<forall>v. mapped vm' root v = (if same_page 2 v (VPN vma) then Some (leaf_pte pp f) else mapped vm root v)) \<and>
       (\<forall>v e. mapped vm root v = Some e \<longrightarrow> vm_pages vm' (pte_page e) = vm_pages vm (pte_page e)) \<and>
       set (space_pages vm' root) =
         set (space_pages vm root) \<union> {pp} \<union> (free_pages (vm_free vm) - free_pages (vm_free vm')) \<and>
       free_pages (vm_free vm') \<subseteq> free_pages (vm_free vm) \<and>
       (\<forall>q. q \<notin> set (root # space_pages vm root) \<and> q \<notin> free_pages (vm_free vm) - free_pages (vm_free vm') \<longrightarrow>
          vm_pages vm' q = vm_pages vm q)"
proof -
  have p: "part 2 root vm" using assms(1) unfolding space_part root_def .
  have "case ins 2 root (VPN vma) pp f vm of
      None \<Rightarrow> card (free_pages (vm_free vm)) < 2 | Some vm' \<Rightarrow> inserted 2 root (VPN vma) pp f vm vm'"
    by (rule ins_spec [OF p]) (fact assms(2-9) [folded root_def])+
  then show ?thesis
    unfolding map_page_def ptab_insert_ins root_def [symmetric] inserted_def space_part by (auto split: option.splits)
qed

lemma vm_demo_mapped: "mapped demo_vm 20 v = (if same_page 2 v 0xC0000 then Some (leaf_pte 23 (PTE_R OR PTE_W OR PTE_U)) else None)"
proof -
  have "pt_index 0 0xC0000 = 0" "pt_index 1 0xC0000 = 0" "pt_index 2 0xC0000 = 3" by (simp_all add: pt_index_def)
  then have "same_page 2 v 0xC0000 \<longleftrightarrow> pt_index 2 v = 3 \<and> pt_index 1 v = 0 \<and> pt_index 0 v = 0"
    by (auto simp: same_page_def numeral_2_eq_2 le_Suc_eq)
  then show ?thesis using vm_demo_ptes by (auto simp: numeral_2_eq_2 vm_demo_entry leaf_pte_flags)
qed

lemma map_page_maps_one_witness:
  "\<exists>vm'. map_page 0xC0001000 19 (PTE_R OR PTE_U) demo_vm = Some vm' \<and>
     mapped vm' 20 0xC0001 = Some (leaf_pte 19 (PTE_R OR PTE_U)) \<and>
     mapped vm' 20 0xC0000 = Some (leaf_pte 23 (PTE_R OR PTE_W OR PTE_U))"
proof -
  have s: "\<not> same_page 2 0xC0001 0xC0000" "\<not> same_page 2 0xC0000 0xC0001" "same_page 2 w w" for w
    by (auto simp: same_page_def pt_index_def)
  have v: "VPN 0xC0001000 = 0xC0001" by (simp add: VPN_def)
  have "space demo_vm (active_space_ptab demo_vm)" using vm_demo_space by (simp only: vm_demo_satp)
  moreover have "mapped demo_vm (active_space_ptab demo_vm) (VPN 0xC0001000) = None"
    using s by (simp only: vm_demo_satp vm_demo_mapped v if_False)
  moreover have "\<not> pte_global (pt_entry demo_vm (active_space_ptab demo_vm) (pt_index 2 (VPN 0xC0001000)))"
    by (simp add: vm_demo_satp vm_demo_entry)
  moreover have "19 \<notin> set (active_space_ptab demo_vm # space_pages demo_vm (active_space_ptab demo_vm))"
    "19 \<notin> free_pages (vm_free demo_vm)" by (simp_all add: vm_demo_satp vm_demo_pages vm_demo_free)
  ultimately have "case map_page 0xC0001000 19 (PTE_R OR PTE_U) demo_vm of None \<Rightarrow> card (free_pages (vm_free demo_vm)) < 2
    | Some vm' \<Rightarrow> (\<forall>w. mapped vm' 20 w = (if same_page 2 w 0xC0001 then Some (leaf_pte 19 (PTE_R OR PTE_U)) else mapped demo_vm 20 w))"
    using map_page_maps_one [of demo_vm "0xC0001000" 19 "PTE_R OR PTE_U"]
    by (auto simp: vm_demo_satp v split: option.splits)
  then show ?thesis
    using s by (cases "map_page 0xC0001000 19 (PTE_R OR PTE_U) demo_vm") (simp_all add: vm_demo_free vm_demo_mapped)
qed

end
