(* ===== verification/Validate.thy ===== *)
theory Validate
  imports MapPage
begin

text \<open>
  Validation of user pointers and strings: the loops over pages accept exactly the ranges and
  strings all of whose bytes lie in pages that are mapped with the wanted flags.
\<close>

section \<open>Accessible bytes\<close>

text \<open>An address whose page is mapped by a leaf that has all of the flags.\<close>

definition page_ok :: "vm \<Rightarrow> nat \<Rightarrow> u8 \<Rightarrow> u64 \<Rightarrow> bool" where
  "page_ok vm root f a \<longleftrightarrow>
     wellformed a \<and>
     (case walk vm root a of
        None \<Rightarrow> False
      | Some (p0, i) \<Rightarrow> pte_valid (pt_entry vm p0 i) \<and> pte_leaf (pt_entry vm p0 i) \<and> pte_flags (pt_entry vm p0 i) AND f = f)"

text \<open>The byte that a user program reads at an address.\<close>

definition user_byte :: "vm \<Rightarrow> nat \<Rightarrow> u64 \<Rightarrow> u8" where
  "user_byte vm root a =
     (case walk vm root a of
        None \<Rightarrow> 0
      | Some (p0, i) \<Rightarrow> vm_pages vm (pte_page (pt_entry vm p0 i)) ! (unat a mod PAGE_SIZE))"

lemma page_of:
  assumes "a div 4096 = (b :: u64) div 4096"
  shows "walk vm root a = walk vm root b" "wellformed a = wellformed b"
proof -
  have "VPN a = VPN b" using assms by (simp add: VPN_def)
  then show "walk vm root a = walk vm root b" unfolding walk_def by (simp only:)
  have d: "drop_bit 12 a = drop_bit 12 b" using assms by (simp add: drop_bit_eq_div)
  have h: "bit a n = bit b n" if "12 \<le> n" for n
  proof -
    have "bit a n = bit (drop_bit 12 a) (n - 12)" "bit b n = bit (drop_bit 12 b) (n - 12)"
      using that by (simp_all add: bit_drop_bit_eq)
    then show ?thesis using d by simp
  qed
  have "signed_drop_bit 38 a = signed_drop_bit 38 b"
    by (rule bit_word_eqI) (simp add: bit_signed_drop_bit_iff h)
  then show "wellformed a = wellformed b" by (simp add: wellformed_def)
qed

lemma page_ok_page: "a div 4096 = b div 4096 \<Longrightarrow> page_ok vm root f a = page_ok vm root f b"
  by (simp add: page_ok_def page_of [of a b])

lemma same_div:
  fixes a :: u64
  assumes "unat a mod 4096 + k < 4096"
  shows "unat (a + of_nat k) = unat a + k" "(a + of_nat k) div 4096 = a div 4096"
    "unat (a + of_nat k) mod 4096 = unat a mod 4096 + k"
proof -
  have "unat a < 2 ^ LENGTH(64)" by (rule unsigned_less)
  then have "unat a < 2 ^ 64" by simp
  then have "unat a div 4096 < 4503599627370496" by (intro less_mult_imp_div_less) simp
  then have "unat a div 4096 + 1 \<le> 4503599627370496" by simp
  moreover have e: "unat a = 4096 * (unat a div 4096) + unat a mod 4096" by simp
  ultimately have "unat a + k < 18446744073709551616" using assms by linarith
  moreover have "unat (of_nat k :: u64) = k" using assms by (simp add: unat_of_nat)
  ultimately show u: "unat (a + of_nat k) = unat a + k" by (simp add: unat_word_ariths(1))
  have "(unat a + k) div 4096 = unat a div 4096"
  proof (rule div_nat_eqI)
    show "4096 * (unat a div 4096) \<le> unat a + k" using e by linarith
    have "4096 * Suc (unat a div 4096) = 4096 * (unat a div 4096) + 4096" by simp
    then show "unat a + k < 4096 * Suc (unat a div 4096)" using assms e by linarith
  qed
  then show "(a + of_nat k) div 4096 = a div 4096" by (simp add: word_unat_eq_iff unat_div u)
  show "unat (a + of_nat k) mod 4096 = unat a mod 4096 + k"
    unfolding u using assms mod_mult_self4 [of 4096 "unat a div 4096" "unat a mod 4096 + k"] by simp
qed

lemma next_page:
  fixes a :: u64
  shows "a - a mod 4096 + 4096 = a + of_nat (4096 - unat a mod 4096)"
proof -
  have "of_nat (unat a mod 4096) = a mod 4096"
    by (simp add: word_unat_eq_iff unat_mod unat_of_nat)
  then have "of_nat (4096 - unat a mod 4096) = 4096 - a mod 4096"
    by (subst of_nat_diff) (simp_all add: less_imp_le)
  then show ?thesis by simp
qed

section \<open>Strings\<close>

lemma validate_chars_iff:
  assumes "vm_wf vm"
  shows "validate_chars vm root vma f = 0 \<longleftrightarrow>
     (\<exists>n. (\<forall>i\<le>n. page_ok vm root f (vma + of_nat i)) \<and> user_byte vm root (vma + of_nat n) = 0)"
  using assms
proof (induction vm root vma f rule: validate_chars.induct)
  case (1 vm root vma f)
  let ?R = "\<lambda>a. \<exists>n. (\<forall>i\<le>n. page_ok vm root f (a + of_nat i)) \<and> user_byte vm root (a + of_nat n) = 0"
  show ?case
  proof (cases "page_ok vm root f vma")
    case False
    then have "validate_chars vm root vma f \<noteq> 0"
      by (subst validate_chars.simps) (auto simp: page_ok_def Let_def split: option.split)
    moreover have "\<not> ?R vma" using False by (auto intro: exI [of _ "0 :: nat"])
    ultimately show ?thesis by blast
  next
    case True
    then obtain p0 i where w: "wellformed vma" "walk vm root vma = Some (p0, i)" "pte_valid (pt_entry vm p0 i)"
        "pte_leaf (pt_entry vm p0 i)" "pte_flags (pt_entry vm p0 i) AND f = f"
      by (auto simp: page_ok_def split: option.splits)
    let ?fr = "vm_pages vm (pte_page (pt_entry vm p0 i))" and ?o = "unat vma mod 4096"
    let ?m = "4096 - ?o"
    have len: "length ?fr = 4096" using 1(2) by (simp add: vm_wf_def)
    have o: "?o < 4096" by simp
    have ok: "page_ok vm root f (vma + of_nat k)" "user_byte vm root (vma + of_nat k) = ?fr ! (?o + k)" if "k < ?m" for k
    proof -
      have "?o + k < 4096" using that by simp
      note d = same_div [OF this]
      show "page_ok vm root f (vma + of_nat k)" using page_ok_page [OF d(2)] True by simp
      show "user_byte vm root (vma + of_nat k) = ?fr ! (?o + k)"
        unfolding user_byte_def page_of(1) [OF d(2)] w(2) using d(3) by simp
    qed
    show ?thesis
    proof (cases "0 \<in> set (drop ?o ?fr)")
      case True
      then obtain k where k: "k < ?m" "?fr ! (?o + k) = 0" using o len by (auto simp: in_set_conv_nth)
      have "?R vma" using k ok by (intro exI [of _ k]) simp
      moreover have "validate_chars vm root vma f = 0" using w True by (subst validate_chars.simps) simp
      ultimately show ?thesis by simp
    next
      case False
      then have nz: "?fr ! (?o + k) \<noteq> 0" if "k < ?m" for k using that len o by (force simp: in_set_conv_nth)
      have nx: "vma - vma mod of_nat PAGE_SIZE + of_nat PAGE_SIZE = vma + of_nat ?m"
        using next_page [of vma] by simp
      have run: "validate_chars vm root vma f = validate_chars vm root (vma + of_nat ?m) f"
        unfolding nx [symmetric] using w False by (subst validate_chars.simps) simp
      have "validate_chars vm root (vma + of_nat ?m) f = 0 \<longleftrightarrow> ?R (vma + of_nat ?m)"
        unfolding nx [symmetric] by (rule 1(1) [OF _ w(2) refl refl]) (use w False 1(2) in simp_all)
      also have "\<dots> \<longleftrightarrow> ?R vma"
      proof
        assume "?R (vma + of_nat ?m)"
        then obtain n where n: "\<forall>i\<le>n. page_ok vm root f (vma + of_nat ?m + of_nat i)"
          "user_byte vm root (vma + of_nat ?m + of_nat n) = 0" by blast
        have "page_ok vm root f (vma + of_nat i)" if "i \<le> ?m + n" for i
        proof (cases "i < ?m")
          case False
          then have e: "vma + of_nat ?m + of_nat (i - ?m) = vma + of_nat i"
            by (simp only: add.assoc of_nat_add [symmetric] le_add_diff_inverse not_less)
          have "i - ?m \<le> n" using that False by simp
          from n(1) [rule_format, OF this] show ?thesis unfolding e .
        qed (rule ok(1))
        moreover have "vma + of_nat (?m + n) = vma + of_nat ?m + of_nat n" by (simp only: of_nat_add add.assoc)
        ultimately show "?R vma" using n(2) by (intro exI [of _ "?m + n"]) (simp only:, simp)
      next
        assume "?R vma"
        then obtain n where n: "\<forall>i\<le>n. page_ok vm root f (vma + of_nat i)" "user_byte vm root (vma + of_nat n) = 0" by blast
        then have "?m \<le> n" using ok(2) nz by (metis not_le)
        then have e: "vma + of_nat ?m + of_nat (n - ?m) = vma + of_nat n"
          by (simp only: add.assoc of_nat_add [symmetric] le_add_diff_inverse)
        have "page_ok vm root f (vma + of_nat ?m + of_nat i)" if "i \<le> n - ?m" for i
        proof -
          have e: "vma + of_nat ?m + of_nat i = vma + of_nat (?m + i)" by (simp only: of_nat_add add.assoc)
          have "?m + i \<le> n" using that \<open>?m \<le> n\<close> by simp
          from n(1) [rule_format, OF this] show ?thesis unfolding e .
        qed
        moreover have "user_byte vm root (vma + of_nat ?m + of_nat (n - ?m)) = 0" unfolding e by (rule n(2))
        ultimately show "?R (vma + of_nat ?m)" by blast
      qed
      finally show ?thesis unfolding run .
    qed
  qed
qed

section \<open>Ranges\<close>

lemma page_step:
  fixes vma :: u64
  assumes "unat vma mod 4096 = 0" and "vma \<le> a"
  shows "a div 4096 = vma div 4096 \<or> (unat (vma + 4096) = unat vma + 4096 \<and> vma + 4096 \<le> a)"
proof (cases "unat a < unat vma + 4096")
  case True
  define k where "k = unat a - unat vma"
  have le: "unat vma \<le> unat a" using assms(2) by (simp add: word_le_nat_alt)
  then have k: "unat vma mod 4096 + k < 4096" using True assms(1) by (simp add: k_def)
  have "a = vma + of_nat k" using le same_div(1) [OF k] by (simp add: word_unat_eq_iff k_def)
  then show ?thesis using same_div(2) [OF k] by simp
next
  case False
  have "unat a < 2 ^ LENGTH(64)" by (rule unsigned_less)
  then have u: "unat (vma + 4096) = unat vma + 4096" using False by (simp add: unat_word_ariths(1))
  then show ?thesis using False by (simp add: word_le_nat_alt)
qed

lemma validate_pages_step:
  assumes "vma < lim"
  shows "validate_pages vm root vma lim f = 0 \<longleftrightarrow>
     page_ok vm root f vma \<and> validate_pages vm root (vma + 4096) lim f = 0"
  using assms by (subst validate_pages.simps) (auto simp: page_ok_def Let_def split: option.split)

lemma mod_next: "unat (vma :: u64) mod 4096 = 0 \<Longrightarrow> unat (vma + 4096) mod 4096 = 0"
proof -
  assume a: "unat vma mod 4096 = 0"
  have d: "(4096 :: nat) dvd 2 ^ 64" by simp
  have "unat (vma + 4096) = (unat vma + 4096) mod 2 ^ 64" by (simp add: unat_word_ariths(1))
  then have "unat (vma + 4096) mod 4096 = (unat vma + 4096) mod 4096" by (simp only: mod_mod_cancel [OF d])
  then show ?thesis using a by simp
qed

lemma validate_pages_sound:
  assumes "unat vma mod 4096 = 0" and "validate_pages vm root vma lim f = 0" and "vma \<le> a" and "a < lim"
  shows "page_ok vm root f a"
  using assms
proof (induction vm root vma lim f rule: validate_pages.induct)
  case (1 vm root vma lim f)
  have l: "vma < lim" using 1(4,5) by simp
  then have s: "page_ok vm root f vma" "validate_pages vm root (vma + 4096) lim f = 0"
    using validate_pages_step 1(3) by blast+
  from page_step [OF 1(2,4)] show ?case
  proof (elim disjE conjE)
    assume "a div 4096 = vma div 4096"
    then show ?thesis using s(1) page_ok_page by blast
  next
    assume a: "vma + 4096 \<le> a"
    obtain p0 i where w: "wellformed vma" "walk vm root vma = Some (p0, i)" "pte_valid (pt_entry vm p0 i) \<and> pte_leaf (pt_entry vm p0 i)"
        "pte_flags (pt_entry vm p0 i) AND f = f"
      using s(1) by (auto simp: page_ok_def split: option.splits)
    have "vma + of_nat PAGE_SIZE = vma + 4096" by simp
    then show ?thesis
      using 1(1) [OF _ _ w(2) refl refl w(3)] l w s(2) a 1(5) mod_next [OF 1(2)] by simp
  qed
qed

lemma validate_pages_complete:
  assumes "unat vma mod 4096 = 0" and "unat lim \<le> 2 ^ 64 - 4096" and "\<And>a. vma \<le> a \<Longrightarrow> a < lim \<Longrightarrow> page_ok vm root f a"
  shows "validate_pages vm root vma lim f = 0"
  using assms
proof (induction vm root vma lim f rule: validate_pages.induct)
  case (1 vm root vma lim f)
  show ?case
  proof (cases "vma < lim")
    case True
    then have ok: "page_ok vm root f vma" using 1(4) by simp
    then obtain p0 i where w: "wellformed vma" "walk vm root vma = Some (p0, i)" "pte_valid (pt_entry vm p0 i) \<and> pte_leaf (pt_entry vm p0 i)"
        "pte_flags (pt_entry vm p0 i) AND f = f"
      by (auto simp: page_ok_def split: option.splits)
    have up: "unat (vma + 4096) = unat vma + 4096"
      using True 1(3) by (simp add: word_less_nat_alt unat_word_ariths(1))
    have "page_ok vm root f a" if "vma + 4096 \<le> a" "a < lim" for a
      using that up by (intro 1(4)) (simp_all add: word_le_nat_alt)
    then have "validate_pages vm root (vma + of_nat PAGE_SIZE) lim f = 0"
      by (intro 1(1) [OF _ _ w(2) refl refl w(3)]) (use True w 1(3) mod_next [OF 1(2)] in simp_all)
    then show ?thesis using validate_pages_step [OF True] ok by simp
  next
    case False
    then show ?thesis by (subst validate_pages.simps) simp
  qed
qed

lemma page_base:
  fixes a :: u64
  shows "a div 4096 * 4096 \<le> a" "unat (a div 4096 * 4096) mod 4096 = 0" "a div 4096 * 4096 div 4096 = a div 4096"
    "unat (a div 4096 * 4096) = unat a div 4096 * 4096"
proof -
  have "unat (a div 4096 * 4096) = (unat a div 4096 * 4096) mod 2 ^ 64" by (simp add: unat_word_ariths(2) unat_div)
  moreover have "unat a div 4096 * 4096 \<le> unat a" by simp
  moreover have "unat a < 2 ^ LENGTH(64)" by (rule unsigned_less)
  ultimately have u: "unat (a div 4096 * 4096) = unat a div 4096 * 4096" by simp
  then show "a div 4096 * 4096 \<le> a" "unat (a div 4096 * 4096) mod 4096 = 0" "a div 4096 * 4096 div 4096 = a div 4096"
    "unat (a div 4096 * 4096) = unat a div 4096 * 4096"
    by (simp_all add: word_le_nat_alt word_unat_eq_iff unat_div)
qed

text \<open>C22: \<open>validate_vptr\<close> accepts a range only when it does not wrap around and every byte of it is
  accessible (a well-formed address whose page is mapped by a valid leaf with all of the asked
  flags), and it accepts every nonempty range of accessible bytes that ends below the last
  page of the address space.\<close>

theorem validate_vptr_accessible:
  "(validate_vptr vp len f vm = 0 \<longrightarrow>
      vp \<le> vp + len \<and> (\<forall>a. vp \<le> a \<and> a < vp + len \<longrightarrow> page_ok vm (active_space_ptab vm) f a)) \<and>
   (0 < len \<and> unat vp + unat len \<le> 2 ^ 64 - 4096 \<and>
      (\<forall>a. vp \<le> a \<and> a < vp + len \<longrightarrow> page_ok vm (active_space_ptab vm) f a) \<longrightarrow>
    validate_vptr vp len f vm = 0)"
proof (intro conjI impI)
  let ?b = "vp div 4096 * 4096" and ?r = "active_space_ptab vm"
  have b: "vp div of_nat PAGE_SIZE * of_nat PAGE_SIZE = ?b" by simp
  {
    assume v: "validate_vptr vp len f vm = 0"
    then show "vp \<le> vp + len" by (simp add: validate_vptr_def not_less split: if_splits)
    from v have "validate_pages vm ?r ?b (vp + len) f = 0" by (simp add: validate_vptr_def split: if_splits)
    from validate_pages_sound [OF page_base(2) this]
    show "\<forall>a. vp \<le> a \<and> a < vp + len \<longrightarrow> page_ok vm ?r f a"
      using order.trans [OF page_base(1)] by blast
  }
  assume a: "0 < len \<and> unat vp + unat len \<le> 2 ^ 64 - 4096 \<and> (\<forall>a. vp \<le> a \<and> a < vp + len \<longrightarrow> page_ok vm ?r f a)"
  then have u: "unat (vp + len) = unat vp + unat len" by (simp add: unat_word_ariths(1))
  have lt: "vp < vp + len" using a by (simp add: word_less_nat_alt u)
  have "page_ok vm ?r f x" if x: "?b \<le> x" "x < vp + len" for x
  proof (cases "vp \<le> x")
    case False
    from page_step [OF page_base(2) x(1)] have "x div 4096 = vp div 4096"
    proof
      assume s: "unat (?b + 4096) = unat ?b + 4096 \<and> ?b + 4096 \<le> x"
      have "unat vp < unat ?b + 4096" by (simp add: page_base(4))
      then show ?thesis using s False by (simp add: word_le_nat_alt)
    qed (simp add: page_base)
    then show ?thesis using page_ok_page a lt by blast
  qed (use a x in blast)
  then have "validate_pages vm ?r ?b (vp + len) f = 0"
    by (intro validate_pages_complete page_base) (use a u in simp_all)
  then show "validate_vptr vp len f vm = 0" using lt by (simp add: validate_vptr_def not_less)
qed

text \<open>C23: \<open>validate_vstr\<close> comes to an end for every page table and start address, wraps included,
  and accepts exactly the addresses from which some number of accessible bytes up to a NUL byte
  can be read.\<close>

theorem validate_vstr_finds_nul:
  assumes "vm_wf vm"
  shows "validate_vstr vs f vm = 0 \<longleftrightarrow>
    (\<exists>n. (\<forall>i\<le>n. page_ok vm (active_space_ptab vm) f (vs + of_nat i)) \<and>
         user_byte vm (active_space_ptab vm) (vs + of_nat n) = 0)"
  unfolding validate_vstr_def by (rule validate_chars_iff [OF assms])

lemma vm_demo_walk: "walk demo_vm 20 0xC0000010 = Some (22, 0)"
proof -
  have i: "pt_index 0 (VPN 0xC0000010) = 0" "pt_index 1 (VPN 0xC0000010) = 0" "pt_index 2 (VPN 0xC0000010) = 3"
    by (simp_all add: pt_index_def VPN_def)
  show ?thesis unfolding walk_def i sub_table_def using vm_demo_ptes by (simp add: vm_demo_entry)
qed

lemma vm_demo_page_ok: "page_ok demo_vm 20 (PTE_R OR PTE_U) 0xC0000010"
  by (simp add: page_ok_def vm_demo_walk vm_demo_entry leaf_pte_flags wellformed_def)
    (simp add: leaf_pte_def mk_pte_def)

lemma validate_vptr_accessible_witness: "validate_vptr 0xC0000010 16 (PTE_R OR PTE_U) demo_vm = 0"
proof -
  have "page_ok demo_vm 20 (PTE_R OR PTE_U) a" if "0xC0000010 \<le> a" "a < 0xC0000020" for a
  proof -
    have "a div 4096 = 0xC0000010 div 4096"
      using that by (simp add: word_unat_eq_iff unat_div word_le_nat_alt word_less_nat_alt)
    then show ?thesis using page_ok_page vm_demo_page_ok by blast
  qed
  then show ?thesis
    using validate_vptr_accessible [of "0xC0000010" 16 "PTE_R OR PTE_U" demo_vm] by (simp add: vm_demo_satp)
qed

lemma validate_vstr_finds_nul_witness: "validate_vstr 0xC0000010 (PTE_R OR PTE_U) demo_vm = 0"
proof -
  have "user_byte demo_vm 20 0xC0000010 = zero_page ! 16"
    using vm_demo_ptes by (simp add: user_byte_def vm_demo_walk vm_demo_entry) (simp add: demo_vm_def)
  also have "\<dots> = 0" by (simp add: zero_page_def)
  finally show ?thesis
    unfolding validate_vstr_finds_nul [OF vm_demo_wf] vm_demo_satp
    by (intro exI [of _ 0]) (use vm_demo_page_ok in simp)
qed

end
