(* ===== verification/MemInit.thy ===== *)
theory MemInit
  imports Validate
begin

text \<open>
  \<open>memory_init\<close>: the kernel's own memory space, an identity mapping whose entries are all
  global, and the first free chunk.  Addresses are natural numbers; the symbols of the linker
  script are a parameter.
\<close>

record kimg =
  kimg_start :: nat
  text_start :: nat
  text_end :: nat
  rodata_start :: nat
  rodata_end :: nat
  data_start :: nat
  kimg_end :: nat
  main_pt2 :: nat
  main_pt1 :: nat
  main_pt0 :: nat

abbreviation (input) MEGA_SIZE :: nat where "MEGA_SIZE \<equiv> 512 * PAGE_SIZE"
abbreviation (input) GIGA_SIZE :: nat where "GIGA_SIZE \<equiv> 512 * MEGA_SIZE"
abbreviation (input) RAM_START :: nat where "RAM_START \<equiv> 0x80000000"
abbreviation (input) RAM_END :: nat where "RAM_END \<equiv> RAM_START + 64 * 1024 * 1024"
abbreviation (input) HEAP_INIT_MIN :: nat where "HEAP_INIT_MIN \<equiv> 256"

definition ROUND_UP :: "nat \<Rightarrow> nat \<Rightarrow> nat" where
  "ROUND_UP n k = (n + k - 1) div k * k"

text \<open>The addresses of a loop \<open>for (pp = a; pp < b; pp += k)\<close>.\<close>

definition steps :: "nat \<Rightarrow> nat \<Rightarrow> nat \<Rightarrow> nat list" where
  "steps a b k = map (\<lambda>n. a + n * k) [0..<(b - a + k - 1) div k]"

definition VPN_at :: "nat \<Rightarrow> nat \<Rightarrow> nat" where
  "VPN_at l pma = pma div PAGE_SIZE div 2 ^ (9 * l) mod PTE_CNT"

text \<open>Identity mappings of the addresses \<open>pps\<close> in the level \<open>l\<close> table \<open>tab\<close>.\<close>

definition map_all :: "nat \<Rightarrow> nat \<Rightarrow> u8 \<Rightarrow> nat list \<Rightarrow> vm \<Rightarrow> vm" where
  "map_all l tab rwxug pps =
     fold (\<lambda>pp. set_entry tab (VPN_at l pp) (leaf_pte (pp div PAGE_SIZE) (rwxug OR PTE_G))) pps"

definition heap_limit :: "kimg \<Rightarrow> nat" where
  "heap_limit k =
     (let heap_end = ROUND_UP (kimg_end k) PAGE_SIZE
      in if heap_end - kimg_end k < HEAP_INIT_MIN
         then heap_end + ROUND_UP (HEAP_INIT_MIN - (heap_end - kimg_end k)) PAGE_SIZE else heap_end)"

definition main_tables :: "kimg \<Rightarrow> vm \<Rightarrow> vm" where
  "main_tables k vm =
     (let vm1 = map_all 2 (main_pt2 k) (PTE_R OR PTE_W) (steps 0 RAM_START GIGA_SIZE) vm;
          vm2 = set_entry (main_pt2 k) (VPN_at 2 RAM_START) (ptab_pte (main_pt1 k) PTE_G) vm1;
          vm3 = set_entry (main_pt1 k) (VPN_at 1 RAM_START) (ptab_pte (main_pt0 k) PTE_G) vm2;
          vm4 = map_all 0 (main_pt0 k) (PTE_R OR PTE_X) (steps (text_start k) (text_end k) PAGE_SIZE) vm3;
          vm5 = map_all 0 (main_pt0 k) PTE_R (steps (rodata_start k) (rodata_end k) PAGE_SIZE) vm4;
          vm6 = map_all 0 (main_pt0 k) (PTE_R OR PTE_W) (steps (data_start k) (RAM_START + MEGA_SIZE) PAGE_SIZE) vm5
      in map_all 1 (main_pt1 k) (PTE_R OR PTE_W) (steps (RAM_START + MEGA_SIZE) RAM_END MEGA_SIZE) vm6)"

text \<open>The bounds of the heap, and the memory; \<open>None\<close> where an assertion fails or it panics.\<close>

definition memory_init :: "kimg \<Rightarrow> vm \<Rightarrow> (nat \<times> nat \<times> vm) option" where
  "memory_init k vm =
     (if kimg_start k \<noteq> RAM_START \<or> MEGA_SIZE < kimg_end k - kimg_start k then None
      else if RAM_END < heap_limit k then None
      else Some (kimg_end k, heap_limit k,
        (main_tables k vm)\<lparr>
           vm_satp := ptab_to_mtag (main_pt2 k) 0,
           vm_free := [\<lparr>base = heap_limit k div PAGE_SIZE, pagecnt = (RAM_END - heap_limit k) div PAGE_SIZE\<rparr>]\<rparr>))"

lemma VPN_at_less [simp]: "VPN_at l pp < 512"
  by (simp add: VPN_at_def)

text \<open>The entries of a page stay global or invalid.\<close>

definition global_tables :: "nat set \<Rightarrow> vm \<Rightarrow> bool" where
  "global_tables P vm \<longleftrightarrow> vm_wf vm \<and> (\<forall>p\<in>P. \<forall>j<512. \<not> live (pt_entry vm p j))"

lemma global_tables_set:
  "global_tables P vm \<Longrightarrow> i < 512 \<Longrightarrow> \<not> live e \<Longrightarrow> global_tables P (set_entry p i e vm)"
  by (auto simp: global_tables_def entry_set_entry)

lemma or_global: "(f OR PTE_G) AND PTE_G \<noteq> (0 :: u8)"
  by (simp add: flag_or)

lemma global_tables_map:
  "global_tables P vm \<Longrightarrow> global_tables P (map_all l tab f pps vm)"
  unfolding map_all_def
  by (induction pps arbitrary: vm) (simp_all add: global_tables_set leaf_pte_flags or_global)

lemma global_main_tables:
  assumes "global_tables P vm"
  shows "global_tables P (main_tables k vm)"
proof -
  have "\<not> live (ptab_pte q PTE_G)" for q by (simp add: ptab_pte_def mk_pte_def live_def pte_global_def)
  then show ?thesis
    unfolding main_tables_def Let_def using assms by (intro global_tables_map global_tables_set VPN_at_less) auto
qed

text \<open>After \<open>memory_init\<close> on cleared tables the active space is the kernel's, it has no pages of
  its own (resetting it would free nothing), and all memory above the heap is free.\<close>

lemma memory_init_space:
  assumes "memory_init k vm = Some (a, b, vm')" and "vm_wf vm" and "\<forall>j<512. pt_entry vm (main_pt2 k) j = null_pte"
    and "0 < main_pt2 k" "main_pt2 k < heap_limit k div PAGE_SIZE" "heap_limit k < RAM_END - PAGE_SIZE"
  shows "space vm' (main_pt2 k)" "space_pages vm' (main_pt2 k) = []" "active_space_ptab vm' = main_pt2 k"
    "free_pages (vm_free vm') = {heap_limit k div PAGE_SIZE..<heap_limit k div PAGE_SIZE + (RAM_END - heap_limit k) div PAGE_SIZE}"
proof -
  let ?p = "main_pt2 k" and ?h = "heap_limit k div PAGE_SIZE"
  have vm': "vm' = (main_tables k vm)\<lparr>vm_satp := ptab_to_mtag ?p 0,
      vm_free := [\<lparr>base = ?h, pagecnt = (RAM_END - heap_limit k) div PAGE_SIZE\<rparr>]\<rparr>"
    using assms(1) by (auto simp: memory_init_def split: if_splits)
  have E: "pt_entry vm' = pt_entry (main_tables k vm)" by (intro ext) (simp add: pt_entry_def vm')
  have g: "global_tables {?p} (main_tables k vm)"
    by (rule global_main_tables) (use assms(2,3) in \<open>simp add: global_tables_def\<close>)
  then have n: "\<not> live (pt_entry vm' ?p j)" if "j < 512" for j using that by (simp add: global_tables_def E)
  have wf: "vm_wf vm'" using g by (simp add: global_tables_def vm' vm_wf_def)
  have "set (space_pages vm' ?p) = {}" unfolding own_set using n by auto
  then show o: "space_pages vm' ?p = []" by simp
  have t: "tree 2 (pt_entry vm') ?p" unfolding tree_ents ents_ok_def using n by auto
  have h: "?h < 0x84000" using assms(6) by (simp add: less_mult_imp_div_less)
  have lt: "?p < 2 ^ 44" using assms(5) h by simp
  show "active_space_ptab vm' = ?p"
    using ptab_of_mtag [OF lt, where vm = "main_tables k vm" and asid = 0] by (simp add: active_space_ptab_def vm')
  show f: "free_pages (vm_free vm') = {?h..<?h + (RAM_END - heap_limit k) div PAGE_SIZE}"
    by (simp add: vm' chunk_pages_def)
  have "(RAM_END - heap_limit k) div PAGE_SIZE \<le> RAM_END div PAGE_SIZE" by (intro div_le_mono) simp
  then have top: "?h + (RAM_END - heap_limit k) div PAGE_SIZE < 2 ^ 44" using h by simp
  have "0 < ?h" using assms(5) by simp
  moreover have "0 < (RAM_END - heap_limit k) div PAGE_SIZE" using assms(6) by (simp add: div_greater_zero_iff)
  ultimately have c: "chunks_wf (vm_free vm')" unfolding vm' by simp
  show "space vm' ?p"
    unfolding space_def o using wf c t f top assms(4,5) by auto
qed

end
