(* ===== verification/ThreadLists.thy ===== *)
theory ThreadLists
  imports PhysPages "HOL-Library.Monad_Syntax"
begin

text \<open>
  Threads of \<open>modified/sys/thread.c\<close> and their intrusive lists: the thread table entries, the
  ready list and the wait lists of condition variables, linked through \<open>list_next\<close>.  A pointer
  to a \<open>struct thread\<close> is a number; \<open>t_live\<close> tells the structures that have not been freed.
  The lists represent disjoint sequences of threads, and the operations on them are those of
  first-in first-out queues.
\<close>

section \<open>State\<close>

datatype thread_state = UNINITIALIZED | WAITING | SELF | READY | EXITED

text \<open>Condition variables: the one in a thread, the one in a lock, and those of other modules.\<close>

datatype condition = Child_exit nat | Release nat | Cond nat

datatype tlist_id = Ready_list | Wait_list condition

record thread_list =
  tl_head :: "nat option"
  tl_tail :: "nat option"

text \<open>The registers of a thread that has not run yet: its entry point and eight arguments.\<close>

record startup =
  pc :: nat
  args :: "u64 list"

record thread =
  t_live :: bool
  t_id :: nat
  t_state :: thread_state
  t_name :: string
  stack_lowest :: "nat option"
  t_proc :: "nat option"
  t_parent :: "nat option"
  list_next :: "nat option"
  wait_cond :: "condition option"
  lock_list :: "nat list"
  t_startup :: "startup option"

record lock =
  lk_owner :: "nat option"
  lk_cnt :: nat

text \<open>Blocking calls of a thread that have not returned.\<close>

datatype pending = Acquiring nat | Joining nat | Joining_any

record sched =
  thr :: "nat \<Rightarrow> thread"
  thrtab :: "nat \<Rightarrow> nat option"
  tlists :: "tlist_id \<Rightarrow> thread_list"
  lockst :: "nat \<Rightarrow> lock"
  TP :: nat
  sc_free :: free_chunk_list
  sc_satp :: u64
  mtag_of :: "nat \<Rightarrow> u64"
  pend :: "nat \<Rightarrow> pending option"

definition upd :: "nat \<Rightarrow> (thread \<Rightarrow> thread) \<Rightarrow> sched \<Rightarrow> sched" where
  "upd p f s = s\<lparr>thr := (thr s)(p := f (thr s p))\<rparr>"

definition set_state :: "thread_state \<Rightarrow> nat \<Rightarrow> sched \<Rightarrow> sched" where
  "set_state st p = upd p (\<lambda>t. t\<lparr>t_state := st\<rparr>)"

definition set_next :: "nat option \<Rightarrow> nat \<Rightarrow> sched \<Rightarrow> sched" where
  "set_next n p = upd p (\<lambda>t. t\<lparr>list_next := n\<rparr>)"

definition set_list :: "tlist_id \<Rightarrow> nat option \<Rightarrow> nat option \<Rightarrow> sched \<Rightarrow> sched" where
  "set_list q h t s = s\<lparr>tlists := (tlists s)(q := \<lparr>tl_head = h, tl_tail = t\<rparr>)\<rparr>"

section \<open>Lists of threads\<close>

definition tlclear :: "tlist_id \<Rightarrow> sched \<Rightarrow> sched" where
  "tlclear q = set_list q None None"

definition tlempty :: "tlist_id \<Rightarrow> sched \<Rightarrow> bool" where
  "tlempty q s \<longleftrightarrow> tl_head (tlists s q) = None"

definition tlinsert :: "tlist_id \<Rightarrow> nat \<Rightarrow> sched \<Rightarrow> sched option" where
  "tlinsert q p s =
     (let s1 = set_next None p s; l = tlists s q
      in case tl_tail l of
           Some t \<Rightarrow> if tl_head l = None then None else Some (set_list q (tl_head l) (Some p) (set_next (Some p) t s1))
         | None \<Rightarrow> if tl_head l \<noteq> None then None else Some (set_list q (Some p) (Some p) s1))"

definition tlremove :: "tlist_id \<Rightarrow> sched \<Rightarrow> nat option \<times> sched" where
  "tlremove q s =
     (case tl_head (tlists s q) of
        None \<Rightarrow> (None, s)
      | Some p \<Rightarrow>
          let h = list_next (thr s p)
          in (Some p, set_next None p (set_list q h (if h = None then None else tl_tail (tlists s q)) s)))"

definition tlappend :: "tlist_id \<Rightarrow> tlist_id \<Rightarrow> sched \<Rightarrow> sched option" where
  "tlappend q0 q1 s =
     (let l0 = tlists s q0; l1 = tlists s q1
      in map_option (set_list q1 None None)
        (if tl_head l0 \<noteq> None
         then (case tl_tail l0 of
                 None \<Rightarrow> None
               | Some t0 \<Rightarrow>
                   if tl_head l1 = None then Some s
                   else if tl_tail l1 = None then None
                   else Some (set_list q0 (tl_head l0) (tl_tail l1) (set_next (tl_head l1) t0 s)))
         else if tl_tail l0 \<noteq> None then None
         else Some (set_list q0 (tl_head l1) (tl_tail l1) s)))"

text \<open>The threads met from a pointer on along \<open>list_next\<close>; a cycle is never left.\<close>

partial_function (option) chain :: "sched \<Rightarrow> nat option \<Rightarrow> nat list option" where
  "chain s p =
     (case p of None \<Rightarrow> Some [] | Some t \<Rightarrow> do { ts \<leftarrow> chain s (list_next (thr s t)); Some (t # ts) })"

declare chain.simps [code]

section \<open>What the lists represent\<close>

fun links :: "sched \<Rightarrow> nat list \<Rightarrow> bool" where
  "links s [] \<longleftrightarrow> True"
| "links s [p] \<longleftrightarrow> list_next (thr s p) = None"
| "links s (p # q # ps) \<longleftrightarrow> list_next (thr s p) = Some q \<and> links s (q # ps)"

definition is_list :: "sched \<Rightarrow> thread_list \<Rightarrow> nat list \<Rightarrow> bool" where
  "is_list s l ps \<longleftrightarrow>
     tl_head l = (if ps = [] then None else Some (hd ps)) \<and>
     tl_tail l = (if ps = [] then None else Some (last ps)) \<and> links s ps \<and> distinct ps"

text \<open>All lists at once, with no thread in two of them.\<close>

definition queues :: "sched \<Rightarrow> (tlist_id \<Rightarrow> nat list) \<Rightarrow> bool" where
  "queues s f \<longleftrightarrow>
     (\<forall>q. is_list s (tlists s q) (f q)) \<and> (\<forall>q q'. q \<noteq> q' \<longrightarrow> set (f q) \<inter> set (f q') = {})"

lemma upd_simps [simp]:
  "thr (upd p f s) q = (if q = p then f (thr s p) else thr s q)" "thrtab (upd p f s) = thrtab s"
  "tlists (upd p f s) = tlists s" "lockst (upd p f s) = lockst s" "TP (upd p f s) = TP s"
  "sc_free (upd p f s) = sc_free s" "sc_satp (upd p f s) = sc_satp s" "mtag_of (upd p f s) = mtag_of s"
  "pend (upd p f s) = pend s"
  by (simp_all add: upd_def)

lemma set_list_simps [simp]:
  "thr (set_list q h t s) = thr s" "thrtab (set_list q h t s) = thrtab s" "lockst (set_list q h t s) = lockst s"
  "TP (set_list q h t s) = TP s" "sc_free (set_list q h t s) = sc_free s" "sc_satp (set_list q h t s) = sc_satp s"
  "mtag_of (set_list q h t s) = mtag_of s" "pend (set_list q h t s) = pend s"
  "tlists (set_list q h t s) q' = (if q' = q then \<lparr>tl_head = h, tl_tail = t\<rparr> else tlists s q')"
  by (simp_all add: set_list_def)

text \<open>A change of the links of threads and of lists only.\<close>

definition only_links :: "sched \<Rightarrow> sched \<Rightarrow> bool" where
  "only_links s s' \<longleftrightarrow>
     (\<forall>r. \<exists>n. thr s' r = (thr s r)\<lparr>list_next := n\<rparr>) \<and> s' = s\<lparr>thr := thr s', tlists := tlists s'\<rparr>"

lemma only_links_refl [simp]: "only_links s s"
proof -
  have "\<exists>n. t = t\<lparr>list_next := n\<rparr>" for t :: thread by (intro exI [of _ "list_next t"]) simp
  then show ?thesis by (simp add: only_links_def)
qed

lemma only_links_next [intro]: "only_links s s' \<Longrightarrow> only_links s (set_next n p s')"
proof -
  assume a: "only_links s s'"
  have "\<exists>m. thr (set_next n p s') r = (thr s r)\<lparr>list_next := m\<rparr>" for r
  proof -
    obtain m where "thr s' r = (thr s r)\<lparr>list_next := m\<rparr>" using a by (auto simp: only_links_def)
    then show ?thesis by (auto simp: set_next_def)
  qed
  moreover have "set_next n p s' = s\<lparr>thr := thr (set_next n p s'), tlists := tlists (set_next n p s')\<rparr>"
    using a by (cases s; cases s') (simp add: only_links_def set_next_def upd_def)
  ultimately show ?thesis unfolding only_links_def by blast
qed

lemma only_links_list [intro]: "only_links s s' \<Longrightarrow> only_links s (set_list q h t s')"
  by (cases s; cases s') (simp add: only_links_def set_list_def)

lemma only_linksD:
  assumes "only_links s s'"
  shows "t_live (thr s' r) = t_live (thr s r)" "t_id (thr s' r) = t_id (thr s r)" "t_state (thr s' r) = t_state (thr s r)"
    "t_name (thr s' r) = t_name (thr s r)" "stack_lowest (thr s' r) = stack_lowest (thr s r)"
    "t_proc (thr s' r) = t_proc (thr s r)" "t_parent (thr s' r) = t_parent (thr s r)"
    "wait_cond (thr s' r) = wait_cond (thr s r)" "lock_list (thr s' r) = lock_list (thr s r)"
    "t_startup (thr s' r) = t_startup (thr s r)"
    "thrtab s' = thrtab s" "lockst s' = lockst s" "TP s' = TP s" "sc_free s' = sc_free s"
    "sc_satp s' = sc_satp s" "mtag_of s' = mtag_of s" "pend s' = pend s"
proof -
  obtain n where n: "thr s' r = (thr s r)\<lparr>list_next := n\<rparr>" using assms by (auto simp: only_links_def)
  show "t_live (thr s' r) = t_live (thr s r)" "t_id (thr s' r) = t_id (thr s r)" "t_state (thr s' r) = t_state (thr s r)"
    "t_name (thr s' r) = t_name (thr s r)" "stack_lowest (thr s' r) = stack_lowest (thr s r)"
    "t_proc (thr s' r) = t_proc (thr s r)" "t_parent (thr s' r) = t_parent (thr s r)"
    "wait_cond (thr s' r) = wait_cond (thr s r)" "lock_list (thr s' r) = lock_list (thr s r)"
    "t_startup (thr s' r) = t_startup (thr s r)" unfolding n by simp_all
  have "s' = s\<lparr>thr := thr s', tlists := tlists s'\<rparr>" using assms by (simp add: only_links_def)
  then show "thrtab s' = thrtab s" "lockst s' = lockst s" "TP s' = TP s" "sc_free s' = sc_free s"
    "sc_satp s' = sc_satp s" "mtag_of s' = mtag_of s" "pend s' = pend s"
    by (metis sched.simps sched.surjective sched.update_convs)+
qed

lemma links_cong: "(\<And>p. p \<in> set ps \<Longrightarrow> list_next (thr s' p) = list_next (thr s p)) \<Longrightarrow> links s' ps = links s ps"
  by (induction s ps rule: links.induct) auto

lemma is_list_cong:
  "(\<And>p. p \<in> set ps \<Longrightarrow> list_next (thr s' p) = list_next (thr s p)) \<Longrightarrow> is_list s l ps \<Longrightarrow> is_list s' l ps"
  using links_cong [of ps s' s] by (simp add: is_list_def)

lemma links_snoc:
  assumes "links s ps" and "distinct (ps @ [p])" and "ps \<noteq> []"
    and "\<And>q. q \<in> set ps \<Longrightarrow> q \<noteq> last ps \<Longrightarrow> list_next (thr s' q) = list_next (thr s q)"
    and "list_next (thr s' (last ps)) = Some p" "list_next (thr s' p) = None"
  shows "links s' (ps @ [p])"
  using assms
proof (induction s ps rule: links.induct)
  case (3 s a b ps)
  have "a \<noteq> last (b # ps)" using 3(3) last_in_set [of "b # ps"] by auto
  then have "list_next (thr s' a) = Some b" using 3 by simp
  moreover have "links s' ((b # ps) @ [p])" using 3 by (intro "3.IH") auto
  ultimately show ?case by simp
qed auto

lemma links_concat:
  assumes "links s ps" and "links s rs" and "distinct (ps @ rs)" and "ps \<noteq> []" "rs \<noteq> []"
    and "\<And>q. q \<noteq> last ps \<Longrightarrow> list_next (thr s' q) = list_next (thr s q)"
    and "list_next (thr s' (last ps)) = Some (hd rs)"
  shows "links s' (ps @ rs)"
  using assms
proof (induction s ps rule: links.induct)
  case (2 s p)
  have "list_next (thr s' q) = list_next (thr s q)" if "q \<in> set rs" for q
    by (rule 2(6)) (use 2(3) that in auto)
  then have "links s' rs" using 2(2) links_cong [of rs s' s] by simp
  with 2 show ?case by (cases rs) auto
next
  case (3 s a b ps)
  have "a \<noteq> last (b # ps)" using 3(4) last_in_set [of "b # ps"] by auto
  then have "list_next (thr s' a) = Some b" using 3 by simp
  moreover have "links s' ((b # ps) @ rs)" using 3 by (intro "3.IH") auto
  ultimately show ?case by simp
qed simp

lemma links_tl: "links s (p # ps) \<Longrightarrow> links s ps \<and> list_next (thr s p) = (if ps = [] then None else Some (hd ps))"
  by (cases ps) auto

lemma chain_links: "links s ps \<Longrightarrow> chain s (if ps = [] then None else Some (hd ps)) = Some ps"
proof (induction ps)
  case (Cons p ps)
  then have "chain s (list_next (thr s p)) = Some ps" using links_tl [OF Cons.prems] by auto
  then show ?case by (subst chain.simps) simp
qed (simp add: chain.simps)

section \<open>The operations on what they represent\<close>

lemma queuesD: "queues s f \<Longrightarrow> is_list s (tlists s q) (f q)" "queues s f \<Longrightarrow> q \<noteq> q' \<Longrightarrow> set (f q) \<inter> set (f q') = {}"
  by (simp_all add: queues_def)

text \<open>Changes of other fields do not matter.\<close>

lemma queues_cong:
  assumes "queues s f" and "\<And>p q. p \<in> set (f q) \<Longrightarrow> list_next (thr s' p) = list_next (thr s p)" and "tlists s' = tlists s"
  shows "queues s' f"
  using assms is_list_cong [of _ s' s] unfolding queues_def by metis

lemma queues_upd:
  assumes "queues s f" and "is_list s' (tlists s' q) ps" and "\<And>q'. q' \<noteq> q \<Longrightarrow> is_list s' (tlists s' q') (f q')"
    and "\<And>q'. q' \<noteq> q \<Longrightarrow> set ps \<inter> set (f q') = {}"
  shows "queues s' (f(q := ps))"
proof -
  have "is_list s' (tlists s' q') ((f(q := ps)) q')" for q' using assms(2,3) by (cases "q' = q") simp_all
  moreover have "set ((f(q := ps)) a) \<inter> set ((f(q := ps)) b) = {}" if "a \<noteq> b" for a b
    using that assms(4) [of a] assms(4) [of b] queuesD(2) [OF assms(1) that] by (cases "a = q"; cases "b = q") (auto simp: Int_commute)
  ultimately show ?thesis unfolding queues_def by blast
qed

lemma tlempty_queue: "queues s f \<Longrightarrow> tlempty q s \<longleftrightarrow> f q = []"
  using queuesD(1) [of s f q] by (auto simp: tlempty_def is_list_def)

lemma chain_queue: "queues s f \<Longrightarrow> chain s (tl_head (tlists s q)) = Some (f q)"
  using queuesD(1) [of s f q] chain_links [of s "f q"] by (simp add: is_list_def)

lemma tlinsert_queue:
  assumes f: "queues s f" and p: "\<And>q. p \<notin> set (f q)"
  shows "\<exists>s'. tlinsert q p s = Some s' \<and> queues s' (f(q := f q @ [p])) \<and>
     only_links s s'"
proof -
  note l = queuesD(1) [OF f, of q, unfolded is_list_def]
  let ?s' = "if f q = [] then set_list q (Some p) (Some p) (set_next None p s)
     else set_list q (tl_head (tlists s q)) (Some p) (set_next (Some p) (last (f q)) (set_next None p s))"
  have run: "tlinsert q p s = Some ?s'" using l by (auto simp: tlinsert_def Let_def)
  have nx: "list_next (thr ?s' r) = list_next (thr s r)" if "r \<noteq> p" "f q = [] \<or> r \<noteq> last (f q)" for r
    using that by (auto simp: set_next_def)
  have "is_list ?s' (tlists ?s' q) (f q @ [p])"
  proof (cases "f q = []")
    case True
    then show ?thesis by (simp add: is_list_def set_next_def)
  next
    case False
    have ne: "last (f q) \<noteq> p" using p [of q] False by auto
    have "links ?s' (f q @ [p])"
      by (rule links_snoc [of s "f q"]) (use l p False ne nx in \<open>auto simp: set_next_def\<close>)
    then show ?thesis using l p [of q] False by (simp add: is_list_def)
  qed
  moreover have "is_list ?s' (tlists ?s' q') (f q')" if "q' \<noteq> q" for q'
  proof -
    have "is_list ?s' (tlists s q') (f q')"
      by (rule is_list_cong [OF _ queuesD(1) [OF f]])
        (rule nx, use p queuesD(2) [OF f that] in \<open>auto dest: last_in_set\<close>)
    then show ?thesis using that by (simp add: set_next_def split: if_splits)
  qed
  ultimately have "queues ?s' (f(q := f q @ [p]))" using f p unfolding queues_def by auto
  moreover have "only_links s ?s'" by (simp add: only_links_next only_links_list)
  ultimately show ?thesis using run by blast
qed

lemma tlremove_queue:
  assumes f: "queues s f" and q: "f q = p # ps"
  shows "\<exists>s'. tlremove q s = (Some p, s') \<and> queues s' (f(q := ps)) \<and>
     only_links s s'"
proof -
  note l = queuesD(1) [OF f, of q, unfolded is_list_def q]
  have t: "links s ps" "list_next (thr s p) = (if ps = [] then None else Some (hd ps))"
    using l links_tl [of s p ps] by simp_all
  let ?h = "list_next (thr s p)"
  let ?s' = "set_next None p (set_list q ?h (if ?h = None then None else tl_tail (tlists s q)) s)"
  have run: "tlremove q s = (Some p, ?s')" using l by (simp add: tlremove_def Let_def)
  have nx: "list_next (thr ?s' r) = list_next (thr s r)" if "r \<noteq> p" for r using that by (simp add: set_next_def)
  have "links ?s' ps" using t(1) l by (subst links_cong [OF nx]) auto
  then have "is_list ?s' (tlists ?s' q) ps" using l t by (auto simp: is_list_def set_next_def)
  moreover have "is_list ?s' (tlists ?s' q') (f q')" if "q' \<noteq> q" for q'
  proof -
    have "p \<notin> set (f q')" using queuesD(2) [OF f that] q by auto
    then have "is_list ?s' (tlists s q') (f q')"
      by (intro is_list_cong [OF _ queuesD(1) [OF f]] nx) auto
    then show ?thesis using that by (simp add: set_next_def)
  qed
  ultimately have "queues ?s' (f(q := ps))"
    using queuesD(2) [OF f, of q] q by (intro queues_upd [OF f]) fastforce+
  moreover have "only_links s ?s'" by (simp add: only_links_next only_links_list)
  ultimately show ?thesis using run by blast
qed

lemma tlappend_queue:
  assumes f: "queues s f" and ne: "q0 \<noteq> q1"
  shows "\<exists>s'. tlappend q0 q1 s = Some s' \<and> queues s' (f(q0 := f q0 @ f q1, q1 := [])) \<and>
     only_links s s'"
proof -
  note l0 = queuesD(1) [OF f, of q0, unfolded is_list_def] and l1 = queuesD(1) [OF f, of q1, unfolded is_list_def]
  have dj: "set (f q0) \<inter> set (f q1) = {}" by (rule queuesD(2) [OF f ne])
  let ?s1 = "if f q0 = [] then set_list q0 (tl_head (tlists s q1)) (tl_tail (tlists s q1)) s
     else if f q1 = [] then s
     else set_list q0 (tl_head (tlists s q0)) (tl_tail (tlists s q1)) (set_next (tl_head (tlists s q1)) (last (f q0)) s)"
  let ?s' = "set_list q1 None None ?s1"
  have run: "tlappend q0 q1 s = Some ?s'" using l0 l1 by (auto simp: tlappend_def Let_def)
  have nx: "list_next (thr ?s' r) = list_next (thr s r)" if "f q0 = [] \<or> r \<noteq> last (f q0)" for r
    using that by (auto simp: set_next_def)
  have A: "is_list ?s' (tlists ?s' q0) (f q0 @ f q1)"
  proof (cases "f q0 = [] \<or> f q1 = []")
    case True
    then have "links ?s' (f q0 @ f q1)" using l0 l1 by (subst links_cong [of _ ?s' s]) auto
    then show ?thesis using True l0 l1 ne by (auto simp: is_list_def)
  next
    case False
    have "links ?s' (f q0 @ f q1)"
      by (rule links_concat [of s]) (use l0 l1 dj False nx in \<open>auto simp: set_next_def\<close>)
    then show ?thesis using False l0 l1 dj ne by (auto simp: is_list_def)
  qed
  have B: "is_list ?s' (tlists ?s' q1) []" using ne by (simp add: is_list_def)
  have C: "is_list ?s' (tlists ?s' q') (f q')" if "q' \<noteq> q0" "q' \<noteq> q1" for q'
  proof -
    have "is_list ?s' (tlists s q') (f q')"
      by (rule is_list_cong [OF _ queuesD(1) [OF f]])
        (rule nx, use queuesD(2) [OF f that(1)] in \<open>auto dest: last_in_set\<close>)
    then show ?thesis using that by (simp add: set_next_def split: if_splits)
  qed
  have ls: "is_list ?s' (tlists ?s' q) ((f(q0 := f q0 @ f q1, q1 := [])) q)" for q
  proof (cases "q = q1")
    case True
    show ?thesis unfolding True fun_upd_same by (rule B)
  next
    case q1: False
    show ?thesis
    proof (cases "q = q0")
      case True
      show ?thesis unfolding True fun_upd_other [OF ne] fun_upd_same by (rule A)
    next
      case False
      show ?thesis unfolding fun_upd_other [OF q1] fun_upd_other [OF False] by (rule C [OF False q1])
    qed
  qed
  have "queues ?s' (f(q0 := f q0 @ f q1, q1 := []))"
    unfolding queues_def
  proof (intro conjI allI impI)
    fix a b :: tlist_id assume "a \<noteq> b"
    then show "set ((f(q0 := f q0 @ f q1, q1 := [])) a) \<inter> set ((f(q0 := f q0 @ f q1, q1 := [])) b) = {}"
      using queuesD(2) [OF f, of a b] queuesD(2) [OF f, of q0 b] queuesD(2) [OF f, of q1 b]
        queuesD(2) [OF f, of a q0] queuesD(2) [OF f, of a q1] ne by auto
  qed (rule ls)
  moreover have "only_links s ?s'" by (simp add: only_links_next only_links_list)
  ultimately show ?thesis using run by blast
qed

end
