(* ===== verification/Threads.thy ===== *)
theory Threads
  imports ThreadLists
begin

text \<open>
  The thread manager of \<open>modified/sys/thread.c\<close>: creating threads, the round-robin switch,
  conditions, locks, exit and join.  The kernel is cooperative, so that an operation runs up to
  its next switch without interruption; a call that blocks leaves a note in \<open>pend\<close> and is
  entered again, at the head of its loop, when its thread runs next.  The addresses of main's and
  idle's structures are 0 and 1, and the one of a new thread (from \<open>kcalloc\<close>) is an argument.
  \<open>stack_lowest\<close> is the page of an allocated stack; main and idle have static stacks, which
  are never freed.  The chain of a thread's locks is a list, the head first.  \<open>None\<close> is a panic,
  a failed assertion or the use of a null pointer.
\<close>

abbreviation (input) NTHR :: nat where "NTHR \<equiv> 32"
abbreviation (input) MAIN_TID :: nat where "MAIN_TID \<equiv> 0"
abbreviation (input) IDLE_TID :: nat where "IDLE_TID \<equiv> 31"
abbreviation (input) main_thread :: nat where "main_thread \<equiv> 0"
abbreviation (input) idle_thread :: nat where "idle_thread \<equiv> 1"

section \<open>Start\<close>

definition zero_thread :: thread where
  "zero_thread =
     \<lparr>t_live = True, t_id = 0, t_state = UNINITIALIZED, t_name = [], stack_lowest = None, t_proc = None,
      t_parent = None, list_next = None, wait_cond = None, lock_list = [], t_startup = None\<rparr>"

definition no_thread :: thread where
  "no_thread = zero_thread\<lparr>t_live := False\<rparr>"

definition thrmgr_init :: "free_chunk_list \<Rightarrow> u64 \<Rightarrow> sched" where
  "thrmgr_init cs satp =
     \<lparr>thr = (\<lambda>_. no_thread)
        (main_thread := zero_thread\<lparr>t_id := MAIN_TID, t_name := ''main'', t_state := SELF\<rparr>,
         idle_thread := zero_thread\<lparr>t_id := IDLE_TID, t_name := ''idle'', t_state := READY,
           t_parent := Some main_thread, t_startup := Some \<lparr>pc = 0, args = []\<rparr>\<rparr>),
      thrtab = (\<lambda>_. None)(MAIN_TID := Some main_thread, IDLE_TID := Some idle_thread),
      tlists = (\<lambda>_. \<lparr>tl_head = None, tl_tail = None\<rparr>)
        (Ready_list := \<lparr>tl_head = Some idle_thread, tl_tail = Some idle_thread\<rparr>),
      lockst = (\<lambda>_. \<lparr>lk_owner = None, lk_cnt = 0\<rparr>), TP = main_thread, sc_free = cs, sc_satp = satp,
      mtag_of = (\<lambda>_. 0), pend = (\<lambda>_. None)\<rparr>"

section \<open>Switching\<close>

definition push_self :: "sched \<Rightarrow> sched option" where
  "push_self s =
     (if t_state (thr s (TP s)) = SELF then tlinsert Ready_list (TP s) (set_state READY (TP s) s) else Some s)"

text \<open>What the resumed thread does after the switch: a new thread starts at its entry point, any
  other is inside \<open>running_thread_suspend\<close> and frees the stack of an exited predecessor.\<close>

definition after_swtch :: "nat \<Rightarrow> sched \<Rightarrow> sched" where
  "after_swtch prev s =
     (if t_startup (thr s (TP s)) \<noteq> None then upd (TP s) (\<lambda>t. t\<lparr>t_startup := None\<rparr>) s
      else if t_state (thr s prev) = EXITED
      then (case stack_lowest (thr s prev) of
              None \<Rightarrow> s
            | Some x \<Rightarrow> upd prev (\<lambda>t. t\<lparr>stack_lowest := None\<rparr>) (s\<lparr>sc_free := free_phys_page x (sc_free s)\<rparr>))
      else s)"

definition switch_to :: "nat \<Rightarrow> sched \<Rightarrow> sched" where
  "switch_to nx s =
     (case t_proc (thr s nx) of None \<Rightarrow> s | Some pr \<Rightarrow> s\<lparr>sc_satp := mtag_of s pr\<rparr>)"

definition running_thread_suspend :: "sched \<Rightarrow> sched option" where
  "running_thread_suspend s =
     (case push_self s of
        None \<Rightarrow> None
      | Some s1 \<Rightarrow>
          (case tlremove Ready_list s1 of
             (None, _) \<Rightarrow> None
           | (Some nx, s2) \<Rightarrow> Some (after_swtch (TP s) ((set_state SELF nx (switch_to nx s2))\<lparr>TP := nx\<rparr>))))"

definition running_thread_yield :: "sched \<Rightarrow> sched option" where
  "running_thread_yield s = running_thread_suspend s"

section \<open>Conditions\<close>

definition condition_wait :: "condition \<Rightarrow> sched \<Rightarrow> sched option" where
  "condition_wait c s =
     (if t_state (thr s (TP s)) \<noteq> SELF then None
      else case tlinsert (Wait_list c) (TP s)
             (upd (TP s) (\<lambda>t. t\<lparr>t_state := WAITING, wait_cond := Some c, list_next := None\<rparr>) s) of
             None \<Rightarrow> None
           | Some s1 \<Rightarrow> running_thread_suspend s1)"

definition condition_broadcast :: "condition \<Rightarrow> sched \<Rightarrow> sched option" where
  "condition_broadcast c s =
     (case chain s (tl_head (tlists s (Wait_list c))) of
        None \<Rightarrow> None
      | Some ts \<Rightarrow>
          tlappend Ready_list (Wait_list c) (fold (\<lambda>p. upd p (\<lambda>t. t\<lparr>t_state := READY, wait_cond := None\<rparr>)) ts s))"

definition block_in :: "pending \<Rightarrow> condition \<Rightarrow> sched \<Rightarrow> sched option" where
  "block_in call c s = condition_wait c (s\<lparr>pend := (pend s)(TP s := Some call)\<rparr>)"

definition returns :: "sched \<Rightarrow> sched" where
  "returns s = s\<lparr>pend := (pend s)(TP s := None)\<rparr>"

section \<open>Locks\<close>

text \<open>One turn of the loop of \<open>lock_acquire\<close>; the flag tells whether the lock was got.\<close>

definition lock_acquire :: "nat \<Rightarrow> sched \<Rightarrow> (bool \<times> sched) option" where
  "lock_acquire l s =
     (let lk = lockst s l in
      if lk_owner lk \<noteq> Some (TP s)
      then (if lk_owner lk \<noteq> None then map_option (Pair False) (block_in (Acquiring l) (Release l) s)
            else Some (True, returns (upd (TP s) (\<lambda>t. t\<lparr>lock_list := l # lock_list t\<rparr>)
              (s\<lparr>lockst := (lockst s)(l := \<lparr>lk_owner = Some (TP s), lk_cnt = 1\<rparr>)\<rparr>))))
      else Some (True, returns (s\<lparr>lockst := (lockst s)(l := lk\<lparr>lk_cnt := lk_cnt lk + 1\<rparr>)\<rparr>)))"

definition lock_release_completely :: "nat \<Rightarrow> sched \<Rightarrow> sched option" where
  "lock_release_completely l s =
     (case condition_broadcast (Release l) s of
        None \<Rightarrow> None
      | Some s1 \<Rightarrow>
          if l \<notin> set (lock_list (thr s1 (TP s1))) then None
          else Some (upd (TP s1) (\<lambda>t. t\<lparr>lock_list := remove1 l (lock_list t)\<rparr>)
                 (s1\<lparr>lockst := (lockst s1)(l := (lockst s1 l)\<lparr>lk_owner := None\<rparr>)\<rparr>)))"

definition lock_release :: "nat \<Rightarrow> sched \<Rightarrow> sched option" where
  "lock_release l s =
     (let lk = lockst s l; n = lk_cnt lk - 1; s1 = s\<lparr>lockst := (lockst s)(l := lk\<lparr>lk_cnt := n\<rparr>)\<rparr> in
      if lk_owner lk \<noteq> Some (TP s) \<or> lk_cnt lk = 0 then None
      else if n = 0 then lock_release_completely l s1 else Some s1)"

fun release_locks :: "nat list \<Rightarrow> sched \<Rightarrow> sched option" where
  "release_locks [] s = Some s"
| "release_locks (l # ls) s =
     (case condition_broadcast (Release l) (s\<lparr>lockst := (lockst s)(l := \<lparr>lk_owner = None, lk_cnt = 0\<rparr>)\<rparr>) of
        None \<Rightarrow> None
      | Some s1 \<Rightarrow> release_locks ls s1)"

definition release_all_thread_locks :: "nat \<Rightarrow> sched \<Rightarrow> sched option" where
  "release_all_thread_locks p s =
     map_option (upd p (\<lambda>t. t\<lparr>lock_list := []\<rparr>)) (release_locks (lock_list (thr s p)) s)"

section \<open>Creation, exit and join\<close>

text \<open>The slot of a new thread, and \<open>None\<close> for \<open>NULL\<close>.\<close>

definition create_thread :: "nat \<Rightarrow> string \<Rightarrow> sched \<Rightarrow> (nat option \<times> sched) option" where
  "create_thread p nm s =
     (case List.find (\<lambda>i. thrtab s i = None) [1..<NTHR] of
        None \<Rightarrow> Some (None, s)
      | Some tid \<Rightarrow>
          (case alloc_phys_page (sc_free s) of
             None \<Rightarrow> None
           | Some (pg, cs) \<Rightarrow>
               Some (Some tid,
                 s\<lparr>thr := (thr s)(p := zero_thread\<lparr>t_id := tid, t_name := nm, stack_lowest := Some pg,
                      t_parent := Some (TP s), t_proc := t_proc (thr s (TP s))\<rparr>),
                   thrtab := (thrtab s)(tid := Some p), sc_free := cs, pend := (pend s)(p := None)\<rparr>)))"

definition spawn_thread :: "nat \<Rightarrow> string \<Rightarrow> nat \<Rightarrow> u64 list \<Rightarrow> sched \<Rightarrow> (int \<times> sched) option" where
  "spawn_thread p nm entry as s =
     (case create_thread p nm s of
        None \<Rightarrow> None
      | Some (None, s1) \<Rightarrow> Some (- EMTHR, s1)
      | Some (Some tid, s1) \<Rightarrow>
          map_option (\<lambda>s2. (int tid, upd p (\<lambda>t. t\<lparr>t_startup := Some \<lparr>pc = entry, args = take 8 as\<rparr>\<rparr>) s2))
            (tlinsert Ready_list p (set_state READY p s1)))"

datatype outcome = Halted | Goes sched

definition running_thread_exit :: "sched \<Rightarrow> outcome option" where
  "running_thread_exit s =
     (if t_id (thr s (TP s)) = MAIN_TID then Some Halted
      else case release_all_thread_locks (TP s) s of
        None \<Rightarrow> None
      | Some s1 \<Rightarrow>
          let s2 = set_state EXITED (TP s) s1
          in map_option Goes
            (case (case t_parent (thr s2 (TP s)) of None \<Rightarrow> Some s2 | Some q \<Rightarrow> condition_broadcast (Child_exit q) s2) of
               None \<Rightarrow> None
             | Some s3 \<Rightarrow> running_thread_suspend s3))"

definition adopt :: "nat \<Rightarrow> nat \<Rightarrow> sched \<Rightarrow> sched" where
  "adopt p i s =
     (case thrtab s i of
        None \<Rightarrow> s
      | Some c \<Rightarrow> if t_parent (thr s c) = Some p then upd c (\<lambda>t. t\<lparr>t_parent := t_parent (thr s p)\<rparr>) s else s)"

definition thread_reclaim :: "nat \<Rightarrow> sched \<Rightarrow> sched option" where
  "thread_reclaim tid s =
     (case thrtab s tid of
        None \<Rightarrow> None
      | Some p \<Rightarrow>
          if 0 < tid \<and> tid < NTHR \<and> t_state (thr s p) = EXITED
          then (let s1 = fold (adopt p) [1..<NTHR] s
                in Some (upd p (\<lambda>t. t\<lparr>t_live := False\<rparr>) (s1\<lparr>thrtab := (thrtab s1)(tid := None)\<rparr>)))
          else None)"

text \<open>\<open>thread_join\<close> gives a result, or blocks.  The turns of its two loops, and its entry.\<close>

definition join_turn :: "nat \<Rightarrow> sched \<Rightarrow> (int option \<times> sched) option" where
  "join_turn tid s =
     (case thrtab s tid of
        None \<Rightarrow> Some (Some (- EINVAL), returns s)
      | Some c \<Rightarrow>
          if t_parent (thr s c) \<noteq> Some (TP s) then Some (Some (- EINVAL), returns s)
          else if t_state (thr s c) = EXITED
          then map_option (\<lambda>s1. (Some (int tid), returns s1)) (thread_reclaim tid s)
          else map_option (Pair None) (block_in (Joining tid) (Child_exit (TP s)) s))"

definition is_child :: "sched \<Rightarrow> nat \<Rightarrow> bool" where
  "is_child s i = (case thrtab s i of None \<Rightarrow> False | Some c \<Rightarrow> t_parent (thr s c) = Some (TP s))"

definition exited_child :: "sched \<Rightarrow> nat \<Rightarrow> bool" where
  "exited_child s i =
     (case thrtab s i of None \<Rightarrow> False | Some c \<Rightarrow> t_parent (thr s c) = Some (TP s) \<and> t_state (thr s c) = EXITED)"

definition join_any_turn :: "sched \<Rightarrow> (int option \<times> sched) option" where
  "join_any_turn s =
     (case List.find (exited_child s) [1..<IDLE_TID] of
        Some i \<Rightarrow> map_option (\<lambda>s1. (Some (int i), returns s1)) (thread_reclaim i s)
      | None \<Rightarrow> map_option (Pair None) (block_in Joining_any (Child_exit (TP s)) s))"

definition thread_join :: "int \<Rightarrow> sched \<Rightarrow> (int option \<times> sched) option" where
  "thread_join tid s =
     (if tid \<noteq> 0
      then (if tid \<le> 0 \<or> tid \<ge> int NTHR \<or> tid = int IDLE_TID then Some (Some (- EINVAL), s)
            else if \<not> is_child s (nat tid) then Some (Some (- EINVAL), s)
            else join_turn (nat tid) s)
      else (case List.find (exited_child s) [1..<IDLE_TID] of
              Some i \<Rightarrow> map_option (\<lambda>s1. (Some (int i), s1)) (thread_reclaim i s)
            | None \<Rightarrow> if \<not> list_ex (is_child s) [1..<IDLE_TID] then Some (Some (- EINVAL), s) else join_any_turn s))"

definition thread_set_process :: "int \<Rightarrow> nat option \<Rightarrow> sched \<Rightarrow> sched option" where
  "thread_set_process tid pr s =
     (if 0 \<le> tid \<and> tid < int NTHR
      then map_option (\<lambda>p. upd p (\<lambda>t. t\<lparr>t_proc := pr\<rparr>) s) (thrtab s (nat tid)) else None)"

definition thread_process :: "int \<Rightarrow> sched \<Rightarrow> nat option option" where
  "thread_process tid s =
     (if 0 \<le> tid \<and> tid < int NTHR then map_option (\<lambda>p. t_proc (thr s p)) (thrtab s (nat tid)) else None)"

definition thread_name :: "int \<Rightarrow> sched \<Rightarrow> string option" where
  "thread_name tid s =
     (if 0 \<le> tid \<and> tid < int NTHR then map_option (\<lambda>p. t_name (thr s p)) (thrtab s (nat tid)) else None)"

definition thread_detach :: "int \<Rightarrow> sched \<Rightarrow> sched option" where
  "thread_detach tid s =
     (if 0 \<le> tid \<and> tid < int NTHR
      then map_option (\<lambda>p. upd p (\<lambda>t. t\<lparr>t_parent := None\<rparr>) s) (thrtab s (nat tid)) else None)"

section \<open>Steps of the system\<close>

text \<open>A step is a call of the running thread, the next turn of a call that it is in, or an
  interrupt handler that wakes the threads waiting on a condition of a device.  Idle only
  yields.  Other code changes the free pages, but frees no stack, and makes memory spaces.  \<open>thread_detach\<close> has no caller.\<close>

inductive step :: "sched \<Rightarrow> sched \<Rightarrow> bool" where
  yield: "pend s (TP s) = None \<Longrightarrow> running_thread_yield s = Some s' \<Longrightarrow> step s s'"
| spawn: "pend s (TP s) = None \<Longrightarrow> TP s \<noteq> idle_thread \<Longrightarrow> \<not> t_live (thr s p) \<Longrightarrow>
    spawn_thread p nm entry as s = Some (rc, s') \<Longrightarrow> step s s'"
| exit: "pend s (TP s) = None \<Longrightarrow> TP s \<noteq> idle_thread \<Longrightarrow> running_thread_exit s = Some (Goes s') \<Longrightarrow> step s s'"
| join: "pend s (TP s) = None \<Longrightarrow> TP s \<noteq> idle_thread \<Longrightarrow> thread_join tid s = Some (rc, s') \<Longrightarrow> step s s'"
| join_again: "pend s (TP s) = Some (Joining i) \<Longrightarrow> TP s \<noteq> idle_thread \<Longrightarrow> join_turn i s = Some (rc, s') \<Longrightarrow> step s s'"
| join_any_again: "pend s (TP s) = Some Joining_any \<Longrightarrow> TP s \<noteq> idle_thread \<Longrightarrow> join_any_turn s = Some (rc, s') \<Longrightarrow> step s s'"
| acquire: "pend s (TP s) = None \<Longrightarrow> TP s \<noteq> idle_thread \<Longrightarrow> lock_acquire l s = Some (b, s') \<Longrightarrow> step s s'"
| acquire_again: "pend s (TP s) = Some (Acquiring l) \<Longrightarrow> TP s \<noteq> idle_thread \<Longrightarrow> lock_acquire l s = Some (b, s') \<Longrightarrow> step s s'"
| release: "pend s (TP s) = None \<Longrightarrow> TP s \<noteq> idle_thread \<Longrightarrow> lock_release l s = Some s' \<Longrightarrow> step s s'"
| wait: "pend s (TP s) = None \<Longrightarrow> TP s \<noteq> idle_thread \<Longrightarrow> condition_wait (Cond n) s = Some s' \<Longrightarrow> step s s'"
| wake: "condition_broadcast (Cond n) s = Some s' \<Longrightarrow> step s s'"
| set_process: "pend s (TP s) = None \<Longrightarrow> thread_set_process tid pr s = Some s' \<Longrightarrow> step s s'"
| memory: "pend s (TP s) = None \<Longrightarrow> chunks_wf cs \<Longrightarrow>
    (\<And>p x. t_live (thr s p) \<Longrightarrow> stack_lowest (thr s p) = Some x \<Longrightarrow> x \<notin> free_pages cs) \<Longrightarrow> step s (s\<lparr>sc_free := cs\<rparr>)"
| new_space: "pend s (TP s) = None \<Longrightarrow> step s (s\<lparr>mtag_of := m, sc_satp := satp\<rparr>)"

inductive reachable :: "sched \<Rightarrow> bool" where
  start: "chunks_wf cs \<Longrightarrow> reachable (thrmgr_init cs satp)"
| step: "reachable s \<Longrightarrow> step s s' \<Longrightarrow> reachable s'"

end
