(* ===== verification/ThreadInv.thy ===== *)
theory ThreadInv
  imports Threads
begin

text \<open>
  The invariants of the thread manager: the state of a thread says in which list it is, the
  thread table holds the structures in use, locks know their owners, stacks are apart from
  free pages, and whoever waits for a lock or a child has something to wait for.
\<close>

section \<open>Invariants\<close>

text \<open>The queues \<open>f\<close> and the states of threads agree.\<close>

definition queued :: "sched \<Rightarrow> (tlist_id \<Rightarrow> nat list) \<Rightarrow> nat \<Rightarrow> bool" where
  "queued s f p \<longleftrightarrow>
     (case t_state (thr s p) of
        UNINITIALIZED \<Rightarrow> False
      | WAITING \<Rightarrow> \<exists>c. p \<in> set (f (Wait_list c))
      | SELF \<Rightarrow> p = TP s
      | READY \<Rightarrow> p \<in> set (f Ready_list)
      | EXITED \<Rightarrow> True)"

definition in_queues :: "sched \<Rightarrow> (tlist_id \<Rightarrow> nat list) \<Rightarrow> bool" where
  "in_queues s f \<longleftrightarrow>
     (\<forall>p\<in>set (f Ready_list). t_live (thr s p) \<and> t_state (thr s p) = READY) \<and>
     (\<forall>c. \<forall>p\<in>set (f (Wait_list c)). t_live (thr s p) \<and> t_state (thr s p) = WAITING \<and> wait_cond (thr s p) = Some c)"

definition queues_ok :: "sched \<Rightarrow> (tlist_id \<Rightarrow> nat list) \<Rightarrow> bool" where
  "queues_ok s f \<longleftrightarrow>
     queues s f \<and> in_queues s f \<and> (\<forall>p. t_live (thr s p) \<longrightarrow> queued s f p) \<and>
     t_live (thr s (TP s)) \<and> t_live (thr s idle_thread) \<and> t_state (thr s idle_thread) \<in> {SELF, READY} \<and>
     t_state (thr s (TP s)) \<noteq> READY"

definition tab_ok :: "sched \<Rightarrow> bool" where
  "tab_ok s \<longleftrightarrow>
     (\<forall>i p. thrtab s i = Some p \<longrightarrow> i < NTHR \<and> t_live (thr s p) \<and> t_id (thr s p) = i) \<and>
     (\<forall>p. t_live (thr s p) \<longrightarrow> thrtab s (t_id (thr s p)) = Some p) \<and>
     (\<forall>p q. t_live (thr s p) \<longrightarrow> t_parent (thr s p) = Some q \<longrightarrow> t_live (thr s q)) \<and>
     thrtab s IDLE_TID = Some idle_thread \<and> (\<forall>c. thrtab s MAIN_TID = Some c \<longrightarrow> t_parent (thr s c) = None)"

definition locks_ok :: "sched \<Rightarrow> bool" where
  "locks_ok s \<longleftrightarrow>
     (\<forall>l p. lk_owner (lockst s l) = Some p \<longleftrightarrow> t_live (thr s p) \<and> l \<in> set (lock_list (thr s p))) \<and>
     (\<forall>l. lk_owner (lockst s l) = None \<longleftrightarrow> lk_cnt (lockst s l) = 0) \<and>
     (\<forall>p. t_live (thr s p) \<longrightarrow> distinct (lock_list (thr s p))) \<and>
     (\<forall>p. t_live (thr s p) \<longrightarrow> t_state (thr s p) = EXITED \<longrightarrow> lock_list (thr s p) = [])"

definition stacks_ok :: "sched \<Rightarrow> bool" where
  "stacks_ok s \<longleftrightarrow>
     chunks_wf (sc_free s) \<and>
     (\<forall>p x. t_live (thr s p) \<longrightarrow> stack_lowest (thr s p) = Some x \<longrightarrow> 0 < x \<and> x \<notin> free_pages (sc_free s)) \<and>
     (\<forall>p q x. t_live (thr s p) \<longrightarrow> t_live (thr s q) \<longrightarrow> stack_lowest (thr s p) = Some x \<longrightarrow>
        stack_lowest (thr s q) = Some x \<longrightarrow> p = q)"

definition child_in :: "sched \<Rightarrow> nat \<Rightarrow> nat \<Rightarrow> nat \<Rightarrow> bool" where
  "child_in s p i c \<longleftrightarrow> thrtab s i = Some c \<and> t_parent (thr s c) = Some p"

definition joinable :: "sched \<Rightarrow> nat \<Rightarrow> bool" where
  "joinable s p \<longleftrightarrow>
     (case pend s p of
        Some (Joining i) \<Rightarrow> \<exists>c. child_in s p i c \<and> t_state (thr s c) \<noteq> EXITED
      | Some Joining_any \<Rightarrow> (\<exists>i c. 0 < i \<and> i < IDLE_TID \<and> child_in s p i c) \<and>
          (\<forall>i c. 0 < i \<and> i < IDLE_TID \<and> child_in s p i c \<longrightarrow> t_state (thr s c) \<noteq> EXITED)
      | _ \<Rightarrow> False)"

definition waits_ok :: "sched \<Rightarrow> (tlist_id \<Rightarrow> nat list) \<Rightarrow> bool" where
  "waits_ok s f \<longleftrightarrow>
     (\<forall>l. f (Wait_list (Release l)) \<noteq> [] \<longrightarrow> lk_owner (lockst s l) \<noteq> None) \<and>
     (\<forall>l. \<forall>p\<in>set (f (Wait_list (Release l))). pend s p = Some (Acquiring l)) \<and>
     (\<forall>q. \<forall>p\<in>set (f (Wait_list (Child_exit q))). p = q \<and> joinable s p) \<and>
     (\<forall>n. \<forall>p\<in>set (f (Wait_list (Cond n))). pend s p = None)"

definition sched_ok :: "sched \<Rightarrow> (tlist_id \<Rightarrow> nat list) \<Rightarrow> bool" where
  "sched_ok s f \<longleftrightarrow>
     queues_ok s f \<and> tab_ok s \<and> locks_ok s \<and> stacks_ok s \<and> waits_ok s f \<and> t_state (thr s (TP s)) = SELF"

lemma waits_okD:
  assumes "waits_ok s f"
  shows "f (Wait_list (Release l)) \<noteq> [] \<Longrightarrow> lk_owner (lockst s l) \<noteq> None"
    "p \<in> set (f (Wait_list (Release l))) \<Longrightarrow> pend s p = Some (Acquiring l)"
    "p \<in> set (f (Wait_list (Child_exit q))) \<Longrightarrow> p = q" "p \<in> set (f (Wait_list (Child_exit q))) \<Longrightarrow> joinable s p"
    "p \<in> set (f (Wait_list (Cond n))) \<Longrightarrow> pend s p = None"
  using assms unfolding waits_ok_def by blast+

lemma waits_okI:
  assumes "\<And>l. f (Wait_list (Release l)) \<noteq> [] \<Longrightarrow> lk_owner (lockst s l) \<noteq> None"
    "\<And>l p. p \<in> set (f (Wait_list (Release l))) \<Longrightarrow> pend s p = Some (Acquiring l)"
    "\<And>p q. p \<in> set (f (Wait_list (Child_exit q))) \<Longrightarrow> p = q"
    "\<And>p q. p \<in> set (f (Wait_list (Child_exit q))) \<Longrightarrow> joinable s p"
    "\<And>p n. p \<in> set (f (Wait_list (Cond n))) \<Longrightarrow> pend s p = None"
  shows "waits_ok s f"
  using assms unfolding waits_ok_def by blast

lemma locks_okD:
  assumes "locks_ok s"
  shows "lk_owner (lockst s l) = Some p \<longleftrightarrow> t_live (thr s p) \<and> l \<in> set (lock_list (thr s p))"
    "lk_owner (lockst s l) = None \<longleftrightarrow> lk_cnt (lockst s l) = 0"
    "t_live (thr s p) \<Longrightarrow> distinct (lock_list (thr s p))"
    "t_live (thr s p) \<Longrightarrow> t_state (thr s p) = EXITED \<Longrightarrow> lock_list (thr s p) = []"
  using assms unfolding locks_ok_def by blast+

lemma locks_okI:
  assumes "\<And>l p. lk_owner (lockst s l) = Some p \<longleftrightarrow> t_live (thr s p) \<and> l \<in> set (lock_list (thr s p))"
    "\<And>l. lk_owner (lockst s l) = None \<longleftrightarrow> lk_cnt (lockst s l) = 0"
    "\<And>p. t_live (thr s p) \<Longrightarrow> distinct (lock_list (thr s p))"
    "\<And>p. t_live (thr s p) \<Longrightarrow> t_state (thr s p) = EXITED \<Longrightarrow> lock_list (thr s p) = []"
  shows "locks_ok s"
  using assms unfolding locks_ok_def by blast

text \<open>Whoever is in the loop of a join for any child has a child, and nobody waits for its own lock.\<close>

definition any_child :: "sched \<Rightarrow> nat \<Rightarrow> bool" where
  "any_child s p \<longleftrightarrow> (\<exists>i c. 0 < i \<and> i < IDLE_TID \<and> child_in s p i c)"

definition calls_ok :: "sched \<Rightarrow> bool" where
  "calls_ok s \<longleftrightarrow>
     (\<forall>p. t_live (thr s p) \<longrightarrow> pend s p = Some Joining_any \<longrightarrow> any_child s p) \<and>
     (\<forall>p l. pend s p = Some (Acquiring l) \<longrightarrow> lk_owner (lockst s l) \<noteq> Some p)"

lemma calls_okI:
  assumes "\<And>p. t_live (thr s p) \<Longrightarrow> pend s p = Some Joining_any \<Longrightarrow> any_child s p"
    "\<And>p l. pend s p = Some (Acquiring l) \<Longrightarrow> lk_owner (lockst s l) \<noteq> Some p"
  shows "calls_ok s"
  using assms unfolding calls_ok_def by blast

lemma calls_okD:
  assumes "calls_ok s"
  shows "t_live (thr s p) \<Longrightarrow> pend s p = Some Joining_any \<Longrightarrow> any_child s p"
    "pend s p = Some (Acquiring l) \<Longrightarrow> lk_owner (lockst s l) \<noteq> Some p"
  using assms unfolding calls_ok_def by blast+

section \<open>Changes that keep parts of the invariants\<close>

text \<open>Everything but states, links, stacks and the running thread.\<close>

definition keeps :: "sched \<Rightarrow> sched \<Rightarrow> bool" where
  "keeps s s' \<longleftrightarrow>
     (\<forall>p. t_live (thr s' p) = t_live (thr s p) \<and> t_id (thr s' p) = t_id (thr s p) \<and>
        t_parent (thr s' p) = t_parent (thr s p) \<and> lock_list (thr s' p) = lock_list (thr s p)) \<and>
     thrtab s' = thrtab s \<and> lockst s' = lockst s \<and> pend s' = pend s"

definition same_exits :: "sched \<Rightarrow> sched \<Rightarrow> bool" where
  "same_exits s s' \<longleftrightarrow> (\<forall>p. t_state (thr s' p) = EXITED \<longleftrightarrow> t_state (thr s p) = EXITED)"

definition same_stacks :: "sched \<Rightarrow> sched \<Rightarrow> bool" where
  "same_stacks s s' \<longleftrightarrow> (\<forall>p. stack_lowest (thr s' p) = stack_lowest (thr s p)) \<and> sc_free s' = sc_free s"

lemma keeps_refl [simp]: "keeps s s" "same_exits s s" "same_stacks s s"
  by (simp_all add: keeps_def same_exits_def same_stacks_def)

lemma keeps_trans: "keeps s t \<Longrightarrow> keeps t u \<Longrightarrow> keeps s u"
  by (simp add: keeps_def)

lemma same_trans: "same_exits s t \<Longrightarrow> same_exits t u \<Longrightarrow> same_exits s u" "same_stacks s t \<Longrightarrow> same_stacks t u \<Longrightarrow> same_stacks s u"
  by (simp_all add: same_exits_def same_stacks_def)

text \<open>The same threads and parents, and the same calls in progress of threads that do not run.\<close>

definition tree :: "sched \<Rightarrow> sched \<Rightarrow> bool" where
  "tree s s' \<longleftrightarrow>
     thrtab s' = thrtab s \<and> (\<forall>p. t_live (thr s' p) = t_live (thr s p) \<and> t_parent (thr s' p) = t_parent (thr s p)) \<and>
     (\<forall>p. p \<noteq> TP s \<longrightarrow> pend s' p = pend s p)"

text \<open>The locks of threads that do not run stay theirs, and no such thread gets one.\<close>

definition others :: "sched \<Rightarrow> sched \<Rightarrow> bool" where
  "others s s' \<longleftrightarrow> (\<forall>l p. p \<noteq> TP s \<longrightarrow> (lk_owner (lockst s' l) = Some p \<longleftrightarrow> lk_owner (lockst s l) = Some p))"

lemma keeps_tree: "keeps s s' \<Longrightarrow> tree s s'" "keeps s s' \<Longrightarrow> others s s'"
  by (simp_all add: keeps_def tree_def others_def)

lemma calls_ok_tree:
  assumes "calls_ok s" and "tree s s'" and "others s s'"
    and tp: "pend s' (TP s) = Some Joining_any \<Longrightarrow> any_child s (TP s)"
      "\<And>l. pend s' (TP s) = Some (Acquiring l) \<Longrightarrow> lk_owner (lockst s' l) \<noteq> Some (TP s)"
  shows "calls_ok s'"
proof (rule calls_okI)
  have p: "pend s p = pend s' p" if "p \<noteq> TP s" for p using assms(2) that by (simp add: tree_def)
  fix p
  have "any_child s' p = any_child s p" "t_live (thr s' p) = t_live (thr s p)"
    using assms(2) by (simp_all add: any_child_def child_in_def tree_def)
  then show "any_child s' p" if "t_live (thr s' p)" "pend s' p = Some Joining_any"
    using that tp(1) p calls_okD(1) [OF assms(1), of p] by (cases "p = TP s") simp_all
  show "lk_owner (lockst s' l) \<noteq> Some p" if "pend s' p = Some (Acquiring l)" for l
    using that tp(2) p calls_okD(2) [OF assms(1), of p l] assms(3) by (cases "p = TP s") (simp_all add: others_def)
qed

lemma tab_ok_cong:
  assumes "thrtab s' = thrtab s" and "\<And>p. t_live (thr s' p) = t_live (thr s p)" "\<And>p. t_id (thr s' p) = t_id (thr s p)"
    "\<And>p. t_parent (thr s' p) = t_parent (thr s p)"
  shows "tab_ok s' = tab_ok s"
  unfolding tab_ok_def assms ..

lemma locks_ok_cong:
  assumes "lockst s' = lockst s" and "\<And>p. t_live (thr s' p) = t_live (thr s p)" "\<And>p. lock_list (thr s' p) = lock_list (thr s p)"
    "\<And>p. t_state (thr s' p) = EXITED \<longleftrightarrow> t_state (thr s p) = EXITED"
  shows "locks_ok s' = locks_ok s"
  unfolding locks_ok_def assms ..

lemma stacks_ok_cong:
  assumes "sc_free s' = sc_free s" and "\<And>p. t_live (thr s' p) = t_live (thr s p)"
    "\<And>p. stack_lowest (thr s' p) = stack_lowest (thr s p)"
  shows "stacks_ok s' = stacks_ok s"
  unfolding stacks_ok_def assms ..

lemma tab_ok_keeps: "keeps s s' \<Longrightarrow> tab_ok s \<Longrightarrow> tab_ok s'"
  using tab_ok_cong [of s' s] by (simp add: keeps_def)

text \<open>The queues depend on these fields only.\<close>

lemma queues_ok_cong:
  assumes "queues_ok s f" and "tlists s' = tlists s" "TP s' = TP s"
    and "\<And>p. t_live (thr s' p) = t_live (thr s p)" "\<And>p. t_state (thr s' p) = t_state (thr s p)"
      "\<And>p. wait_cond (thr s' p) = wait_cond (thr s p)" "\<And>p. list_next (thr s' p) = list_next (thr s p)"
  shows "queues_ok s' f"
proof -
  have "queued s' f p = queued s f p" for p
    using assms(3,5) by (cases "t_state (thr s p)") (simp_all add: queued_def)
  moreover have "queues s' f" using queues_cong [of s f s'] assms by (simp add: queues_ok_def)
  ultimately show ?thesis using assms by (simp add: queues_ok_def in_queues_def)
qed

lemma locks_ok_keeps: "keeps s s' \<Longrightarrow> same_exits s s' \<Longrightarrow> locks_ok s \<Longrightarrow> locks_ok s'"
  using locks_ok_cong [of s' s] by (simp add: keeps_def same_exits_def)

lemma stacks_ok_same: "keeps s s' \<Longrightarrow> same_stacks s s' \<Longrightarrow> stacks_ok s \<Longrightarrow> stacks_ok s'"
  using stacks_ok_cong [of s' s] by (simp add: keeps_def same_stacks_def)

lemma joinable_cong:
  assumes "pend s' p = pend s p" and "thrtab s' = thrtab s" and "\<And>c. t_parent (thr s' c) = t_parent (thr s c)"
    and "\<And>c. t_state (thr s' c) = EXITED \<longleftrightarrow> t_state (thr s c) = EXITED"
  shows "joinable s' p = joinable s p"
  unfolding joinable_def child_in_def assms ..

lemma waits_ok_cong:
  assumes "waits_ok s f" and "pend s' = pend s" and "thrtab s' = thrtab s" and "\<And>c. t_parent (thr s' c) = t_parent (thr s c)"
    and "\<And>c. t_state (thr s' c) = EXITED \<longleftrightarrow> t_state (thr s c) = EXITED"
    and "\<And>l. f (Wait_list (Release l)) \<noteq> [] \<Longrightarrow> lk_owner (lockst s l) \<noteq> None \<Longrightarrow> lk_owner (lockst s' l) \<noteq> None"
  shows "waits_ok s' f"
proof -
  have j: "joinable s' p = joinable s p" for p by (rule joinable_cong) (use assms(2-5) in simp_all)
  note w = waits_okD [OF assms(1)]
  show ?thesis
    by (rule waits_okI) (use assms(6) w assms(2) j in simp_all)
qed

lemma joinable_keeps: "keeps s s' \<Longrightarrow> same_exits s s' \<Longrightarrow> joinable s' p = joinable s p"
  by (simp add: keeps_def same_exits_def joinable_def child_in_def split: option.split pending.split)

lemma waits_ok_keeps:
  assumes "keeps s s'" and "same_exits s s'" and "waits_ok s f"
    and "\<And>c. f' (Wait_list c) = f (Wait_list c) \<or> f' (Wait_list c) = []"
  shows "waits_ok s' f'"
proof -
  have k: "lockst s' = lockst s" "pend s' = pend s" using assms(1) by (simp_all add: keeps_def)
  have sub: "p \<in> set (f' (Wait_list c)) \<Longrightarrow> p \<in> set (f (Wait_list c))" for p c using assms(4) [of c] by auto
  show ?thesis
    using assms(3) assms(4) [of "Release _"] sub joinable_keeps [OF assms(1,2)] unfolding waits_ok_def k by metis
qed

lemma only_links_keeps:
  "only_links s s' \<Longrightarrow> keeps s s'" "only_links s s' \<Longrightarrow> same_exits s s'" "only_links s s' \<Longrightarrow> same_stacks s s'"
  by (simp_all add: keeps_def same_exits_def same_stacks_def only_linksD)

lemma queued_links: "only_links s s' \<Longrightarrow> queued s' f p = queued s f p" "only_links s s' \<Longrightarrow> in_queues s' f = in_queues s f"
proof -
  assume a: "only_links s s'"
  show "queued s' f p = queued s f p"
    using only_linksD(3) [OF a, of p] only_linksD(13) [OF a] by (cases "t_state (thr s p)") (simp_all add: queued_def)
  show "in_queues s' f = in_queues s f" by (simp add: in_queues_def only_linksD [OF a])
qed

lemma in_queuesD:
  assumes "in_queues s f"
  shows "p \<in> set (f Ready_list) \<Longrightarrow> t_live (thr s p) \<and> t_state (thr s p) = READY"
    "p \<in> set (f (Wait_list c)) \<Longrightarrow> t_live (thr s p) \<and> t_state (thr s p) = WAITING \<and> wait_cond (thr s p) = Some c"
  using assms by (auto simp: in_queues_def)

text \<open>A thread that is neither ready nor waiting is in no list.\<close>

lemma not_queued: "in_queues s f \<Longrightarrow> t_state (thr s p) \<noteq> READY \<Longrightarrow> t_state (thr s p) \<noteq> WAITING \<Longrightarrow> p \<notin> set (f q)"
  by (cases q) (auto dest: in_queuesD)

section \<open>The switch\<close>

definition rest :: "sched \<Rightarrow> (tlist_id \<Rightarrow> nat list) \<Rightarrow> nat list" where
  "rest s f = f Ready_list @ (if t_state (thr s (TP s)) = SELF then [TP s] else [])"

lemma push_self_ok:
  assumes q: "queues_ok s f"
  shows "\<exists>s'. push_self s = Some s' \<and> queues s' (f(Ready_list := rest s f)) \<and> in_queues s' (f(Ready_list := rest s f)) \<and>
     (\<forall>p. t_live (thr s p) \<longrightarrow> p \<in> set (rest s f) \<or> p = TP s \<and> t_state (thr s p) \<in> {WAITING, EXITED} \<or>
        p \<noteq> TP s \<and> t_state (thr s p) \<in> {WAITING, EXITED} \<and> queued s f p) \<and>
     (\<forall>p. t_state (thr s' p) = (if p = TP s \<and> t_state (thr s p) = SELF then READY else t_state (thr s p)) \<and>
        wait_cond (thr s' p) = wait_cond (thr s p) \<and> t_proc (thr s' p) = t_proc (thr s p) \<and>
        t_startup (thr s' p) = t_startup (thr s p)) \<and>
     keeps s s' \<and> same_exits s s' \<and> same_stacks s s' \<and> TP s' = TP s \<and> mtag_of s' = mtag_of s"
proof -
  have f: "queues s f" "in_queues s f" "\<And>p. t_live (thr s p) \<Longrightarrow> queued s f p" "t_live (thr s (TP s))"
    using q by (simp_all add: queues_ok_def)
  have mem: "\<forall>p. t_live (thr s p) \<longrightarrow> p \<in> set (rest s f) \<or> p = TP s \<and> t_state (thr s p) \<in> {WAITING, EXITED} \<or>
        p \<noteq> TP s \<and> t_state (thr s p) \<in> {WAITING, EXITED} \<and> queued s f p"
  proof (intro allI impI)
    fix p assume "t_live (thr s p)"
    from f(3) [OF this] show "p \<in> set (rest s f) \<or> p = TP s \<and> t_state (thr s p) \<in> {WAITING, EXITED} \<or>
        p \<noteq> TP s \<and> t_state (thr s p) \<in> {WAITING, EXITED} \<and> queued s f p"
      by (cases "t_state (thr s p)") (auto simp: queued_def rest_def)
  qed
  show ?thesis
  proof (cases "t_state (thr s (TP s)) = SELF")
    case False
    then show ?thesis using f mem by (simp add: push_self_def rest_def)
  next
    case True
    let ?s1 = "set_state READY (TP s) s"
    have no: "TP s \<notin> set (f q)" for q using not_queued [OF f(2)] True by simp
    have "queues ?s1 f" by (rule queues_cong [OF f(1)]) (simp_all add: set_state_def)
    from tlinsert_queue [OF this no] obtain s' where s': "tlinsert Ready_list (TP s) ?s1 = Some s'"
      "queues s' (f(Ready_list := f Ready_list @ [TP s]))" "only_links ?s1 s'" by blast
    note d = only_linksD [OF s'(3)]
    have st: "t_state (thr s' p) = (if p = TP s then READY else t_state (thr s p))" for p
      unfolding d by (simp add: set_state_def)
    have oth: "wait_cond (thr s' p) = wait_cond (thr s p)" "t_live (thr s' p) = t_live (thr s p)"
      "t_proc (thr s' p) = t_proc (thr s p)" "t_startup (thr s' p) = t_startup (thr s p)" for p
      unfolding d by (simp_all add: set_state_def)
    have "in_queues s' (f(Ready_list := rest s f))"
      using f(2,4) no True unfolding in_queues_def by (auto simp: st oth rest_def)
    moreover have "keeps s s'" "same_stacks s s'" using d by (simp_all add: keeps_def same_stacks_def set_state_def)
    moreover have "same_exits s s'" using True by (simp add: same_exits_def st)
    moreover have "push_self s = Some s'" "queues s' (f(Ready_list := rest s f))"
      using True s' by (simp_all add: push_self_def rest_def)
    ultimately show ?thesis using mem st oth d(13,16) True by (auto simp: set_state_def)
  qed
qed

lemma after_swtch_ok:
  assumes "stacks_ok s" and "t_live (thr s prev)"
  shows "stacks_ok (after_swtch prev s)" "keeps s (after_swtch prev s)" "same_exits s (after_swtch prev s)"
    "tlists (after_swtch prev s) = tlists s" "TP (after_swtch prev s) = TP s" "mtag_of (after_swtch prev s) = mtag_of s"
    "t_state (thr (after_swtch prev s) p) = t_state (thr s p)" "wait_cond (thr (after_swtch prev s) p) = wait_cond (thr s p)"
    "list_next (thr (after_swtch prev s) p) = list_next (thr s p)" "t_live (thr (after_swtch prev s) p) = t_live (thr s p)"
proof -
  show "stacks_ok (after_swtch prev s)"
  proof (cases "t_startup (thr s (TP s)) = None \<and> t_state (thr s prev) = EXITED \<and> stack_lowest (thr s prev) \<noteq> None")
    case True
    then obtain x where x: "stack_lowest (thr s prev) = Some x" by auto
    then have fr: "0 < x" "x \<notin> free_pages (sc_free s)" "chunks_wf (sc_free s)"
      using assms by (auto simp: stacks_ok_def)
    have fs: "chunks_wf (free_phys_page x (sc_free s))" "free_pages (free_phys_page x (sc_free s)) = insert x (free_pages (sc_free s))"
      using free_phys_pages_spec [of "sc_free s" x 1] fr by (auto simp: free_phys_page_def)
    show ?thesis using True x assms fs unfolding stacks_ok_def after_swtch_def by auto
  next
    case False
    then show ?thesis using assms(1) by (auto simp: after_swtch_def stacks_ok_def split: option.splits)
  qed
qed (auto simp: after_swtch_def keeps_def same_exits_def split: option.split)

lemma suspend_ok:
  assumes q: "queues_ok s f" and st: "stacks_ok s"
  shows "\<exists>s' f'. running_thread_suspend s = Some s' \<and> queues_ok s' f' \<and> t_state (thr s' (TP s')) = SELF \<and>
     (\<forall>c. f' (Wait_list c) = f (Wait_list c)) \<and> rest s f = TP s' # f' Ready_list \<and>
     keeps s s' \<and> same_exits s s' \<and> stacks_ok s' \<and> mtag_of s' = mtag_of s"
proof -
  obtain s1 where s1: "push_self s = Some s1" "queues s1 (f(Ready_list := rest s f))" "in_queues s1 (f(Ready_list := rest s f))"
    and mem: "\<And>p. t_live (thr s p) \<Longrightarrow> p \<in> set (rest s f) \<or> p = TP s \<and> t_state (thr s p) \<in> {WAITING, EXITED} \<or>
        p \<noteq> TP s \<and> t_state (thr s p) \<in> {WAITING, EXITED} \<and> queued s f p"
    and st1: "\<And>p. t_state (thr s1 p) = (if p = TP s \<and> t_state (thr s p) = SELF then READY else t_state (thr s p))"
      "\<And>p. wait_cond (thr s1 p) = wait_cond (thr s p)" "\<And>p. t_proc (thr s1 p) = t_proc (thr s p)"
    and k1: "keeps s s1" "same_exits s s1" "same_stacks s s1" "TP s1 = TP s" "mtag_of s1 = mtag_of s"
    using push_self_ok [OF q] by (elim exE conjE) simp
  have qf: "\<And>p. t_live (thr s p) \<Longrightarrow> queued s f p" "t_live (thr s (TP s))" "t_live (thr s idle_thread)"
    "t_state (thr s idle_thread) \<in> {SELF, READY}"
    using q by (simp_all add: queues_ok_def)
  have live1: "t_live (thr s1 p) = t_live (thr s p)" for p using k1(1) by (simp add: keeps_def)
  have "idle_thread \<in> set (rest s f)" using mem [OF qf(3)] qf(4) by auto
  then obtain nx r where r: "rest s f = nx # r" by (cases "rest s f") auto
  obtain s2 where s2: "tlremove Ready_list s1 = (Some nx, s2)" "queues s2 (f(Ready_list := r))" "only_links s1 s2"
    using tlremove_queue [OF s1(2), of Ready_list nx r] r by auto
  note d = only_linksD [OF s2(3)]
  define s3 where "s3 = (set_state SELF nx (switch_to nx s2))\<lparr>TP := nx\<rparr>"
  define s' where "s' = after_swtch (TP s) s3"
  let ?f' = "f(Ready_list := r)"
  have run: "running_thread_suspend s = Some s'"
    by (simp add: running_thread_suspend_def s1(1) s2(1) s'_def s3_def)
  have sw: "thr (switch_to nx s2) = thr s2" "tlists (switch_to nx s2) = tlists s2" "sc_free (switch_to nx s2) = sc_free s2"
    "thrtab (switch_to nx s2) = thrtab s2" "lockst (switch_to nx s2) = lockst s2" "pend (switch_to nx s2) = pend s2"
    "mtag_of (switch_to nx s2) = mtag_of s2"
    by (simp_all add: switch_to_def split: option.split)
  have t3: "thr s3 p = (if p = nx then (thr s2 p)\<lparr>t_state := SELF\<rparr> else thr s2 p)" for p
    by (simp add: s3_def set_state_def sw)
  have nxr: "nx \<in> set (rest s f)" using r by simp
  then have nx1: "t_live (thr s1 nx)" "t_state (thr s1 nx) = READY" using in_queuesD(1) [OF s1(3)] by simp_all
  have k3: "keeps s s3" "same_stacks s s3" "same_exits s s3"
  proof -
    show "keeps s s3" using k1(1) d by (simp add: keeps_def t3) (simp add: s3_def set_state_def sw)
    show "same_stacks s s3" using k1(3) d by (simp add: same_stacks_def t3) (simp add: s3_def set_state_def sw)
    have "t_state (thr s nx) \<noteq> EXITED" using k1(2) [unfolded same_exits_def, THEN spec, of nx] nx1(2) by simp
    then show "same_exits s s3" using k1(2) d by (simp add: same_exits_def t3)
  qed
  have st3: "stacks_ok s3" by (rule stacks_ok_same [OF k3(1,2) st])
  have live3: "t_live (thr s3 p) = t_live (thr s p)" for p using k3(1) by (simp add: keeps_def)
  note a = after_swtch_ok [OF st3, of "TP s", unfolded live3, OF qf(2), folded s'_def]
  have tp: "TP s' = nx" using a(5) by (simp add: s3_def)
  have state: "t_state (thr s' p) = (if p = nx then SELF else if p \<in> set r then READY else t_state (thr s p))" if "t_live (thr s p)" for p
  proof -
    have "t_state (thr s1 p) = READY" if "p \<in> set r" for p using in_queuesD(1) [OF s1(3), of p] r that by simp
    moreover have "t_state (thr s1 p) = t_state (thr s p)" if "p \<noteq> nx" "p \<notin> set r"
      using mem [OF \<open>t_live (thr s p)\<close>] that r st1(1) by auto
    ultimately show ?thesis using a(7) d(3) by (simp add: t3)
  qed
  have lk: "list_next (thr s' p) = list_next (thr s2 p)" for p using a(9) by (simp add: t3)
  have qs: "queues s' ?f'" using queues_cong [OF s2(2), of s'] lk a(4) by (simp add: s3_def set_state_def sw)
  have dist: "nx \<notin> set r" using queuesD(1) [OF s1(2), of Ready_list] r by (simp add: is_list_def)
  have inq: "in_queues s' ?f'"
  proof -
    have "t_live (thr s p)" if "p \<in> set r" for p using in_queuesD(1) [OF s1(3), of p] r that live1 by simp
    moreover have "t_live (thr s p) \<and> t_state (thr s p) = WAITING \<and> wait_cond (thr s p) = Some c \<and> p \<noteq> nx \<and> p \<notin> set r"
      if "p \<in> set (f (Wait_list c))" for p c
      using in_queuesD(2) [OF s1(3), of p c] that live1 st1 queuesD(2) [OF s1(2), of Ready_list "Wait_list c"] r
      by (auto split: if_splits)
    moreover have "wait_cond (thr s' p) = wait_cond (thr s p)" for p using a(8) d(8) st1(2) by (simp add: t3)
    moreover have "t_live (thr s' p) = t_live (thr s p)" for p using a(10) live3 by simp
    ultimately show ?thesis unfolding in_queues_def using state dist by auto
  qed
  have quall: "queued s' ?f' p" if "t_live (thr s p)" for p
    using mem [OF that] state [OF that] qf(1) [OF that] r tp by (auto simp: queued_def)
  have live': "t_live (thr s' p) = t_live (thr s p)" for p using a(10) live3 by simp
  have "t_state (thr s' idle_thread) \<in> {SELF, READY}" using state [OF qf(3)] qf(4) by auto
  moreover have "t_live (thr s nx)" using nx1 live1 by simp
  ultimately have "queues_ok s' ?f'" unfolding queues_ok_def tp live' using qs inq quall qf(3) state by simp
  moreover have "mtag_of s' = mtag_of s" using a(6) d(16) k1(5) by (simp add: s3_def set_state_def sw)
  ultimately show ?thesis
    using run tp state [OF \<open>t_live (thr s nx)\<close>] r a(1) keeps_trans [OF k3(1) a(2)] same_trans(1) [OF k3(3) a(3)]
    by (intro exI [of _ s'] exI [of _ ?f']) simp
qed

end
