(* ===== verification/ThreadSteps.thy ===== *)
theory ThreadSteps
  imports ThreadInv
begin

text \<open>
  Every operation of the thread manager keeps the invariants, and so every reachable state has
  them.
\<close>

section \<open>Waiting and waking\<close>

definition wake :: "nat list \<Rightarrow> sched \<Rightarrow> sched" where
  "wake ts = fold (\<lambda>p. upd p (\<lambda>t. t\<lparr>t_state := READY, wait_cond := None\<rparr>)) ts"

lemma wake_simps:
  "thr (wake ts s) p = (if p \<in> set ts then (thr s p)\<lparr>t_state := READY, wait_cond := None\<rparr> else thr s p)"
  "thrtab (wake ts s) = thrtab s" "tlists (wake ts s) = tlists s" "lockst (wake ts s) = lockst s" "TP (wake ts s) = TP s"
  "sc_free (wake ts s) = sc_free s" "sc_satp (wake ts s) = sc_satp s" "mtag_of (wake ts s) = mtag_of s" "pend (wake ts s) = pend s"
  by (induction ts arbitrary: s) (simp_all add: wake_def)

abbreviation woken :: "(tlist_id \<Rightarrow> nat list) \<Rightarrow> condition \<Rightarrow> tlist_id \<Rightarrow> nat list" where
  "woken f c \<equiv> f(Ready_list := f Ready_list @ f (Wait_list c), Wait_list c := [])"

lemma broadcast_ok:
  assumes f: "queues s f" "in_queues s f"
  shows "\<exists>s'. condition_broadcast c s = Some s' \<and> queues s' (woken f c) \<and> in_queues s' (woken f c) \<and> keeps s s' \<and>
     same_exits s s' \<and> same_stacks s s' \<and> TP s' = TP s \<and> mtag_of s' = mtag_of s \<and> sc_satp s' = sc_satp s \<and>
     (\<forall>p. t_state (thr s' p) = (if p \<in> set (f (Wait_list c)) then READY else t_state (thr s p)) \<and>
        stack_lowest (thr s' p) = stack_lowest (thr s p) \<and> t_proc (thr s' p) = t_proc (thr s p) \<and>
        t_startup (thr s' p) = t_startup (thr s p))"
proof -
  let ?ts = "f (Wait_list c)"
  have q1: "queues (wake ?ts s) f" by (rule queues_cong [OF f(1)]) (simp_all add: wake_simps)
  obtain s' where s': "tlappend Ready_list (Wait_list c) (wake ?ts s) = Some s'" "queues s' (woken f c)"
     "only_links (wake ?ts s) s'"
    using tlappend_queue [OF q1, of Ready_list "Wait_list c"] by auto
  note d = only_linksD [OF s'(3), unfolded wake_simps]
  have run: "condition_broadcast c s = Some s'"
    using s'(1) chain_queue [OF f(1), of "Wait_list c"] by (simp add: condition_broadcast_def wake_def)
  have st: "t_state (thr s' p) = (if p \<in> set ?ts then READY else t_state (thr s p))"
    "wait_cond (thr s' p) = (if p \<in> set ?ts then None else wait_cond (thr s p))" "t_live (thr s' p) = t_live (thr s p)" for p
    unfolding d by simp_all
  have apart: "p \<notin> set ?ts" if "p \<in> set (f (Wait_list c'))" "c' \<noteq> c" for p c'
    using that queuesD(2) [OF f(1), of "Wait_list c'" "Wait_list c"] by auto
  have "in_queues s' (woken f c)"
    unfolding in_queues_def
  proof (rule conjI; intro allI ballI)
    fix p assume "p \<in> set (woken f c Ready_list)"
    then have "p \<in> set (f Ready_list) \<or> p \<in> set ?ts" by auto
    then show "t_live (thr s' p) \<and> t_state (thr s' p) = READY"
      using in_queuesD [OF f(2), of p] by (auto simp: st)
  next
    fix c' p assume p: "p \<in> set (woken f c (Wait_list c'))"
    then have "c' \<noteq> c" "p \<in> set (f (Wait_list c'))" by (auto split: if_splits)
    then show "t_live (thr s' p) \<and> t_state (thr s' p) = WAITING \<and> wait_cond (thr s' p) = Some c'"
      using in_queuesD(2) [OF f(2), of p c'] apart by (simp add: st)
  qed
  moreover have "same_exits s s'"
    using in_queuesD(2) [OF f(2), of _ c] by (auto simp: same_exits_def st)
  moreover have "keeps s s'" "same_stacks s s'" using d by (simp_all add: keeps_def same_stacks_def)
  ultimately show ?thesis using run s'(2) d st by (intro exI [of _ s']) auto
qed

lemma broadcast_queues_ok:
  assumes q: "queues_ok s f" and tp: "t_state (thr s (TP s)) \<noteq> WAITING"
  shows "\<exists>s'. condition_broadcast c s = Some s' \<and> queues_ok s' (woken f c) \<and> keeps s s' \<and> same_exits s s' \<and>
     same_stacks s s' \<and> TP s' = TP s \<and> mtag_of s' = mtag_of s \<and> sc_satp s' = sc_satp s \<and>
     t_state (thr s' (TP s)) = t_state (thr s (TP s)) \<and>
     (\<forall>p. stack_lowest (thr s' p) = stack_lowest (thr s p))"
proof -
  have f: "queues s f" "in_queues s f" "\<And>p. t_live (thr s p) \<Longrightarrow> queued s f p" "t_live (thr s (TP s))"
     "t_live (thr s idle_thread)" "t_state (thr s idle_thread) \<in> {SELF, READY}" "t_state (thr s (TP s)) \<noteq> READY"
    using q by (simp_all add: queues_ok_def)
  obtain s' where s': "condition_broadcast c s = Some s'" "queues s' (woken f c)" "in_queues s' (woken f c)" "keeps s s'"
     "same_exits s s'" "same_stacks s s'" "TP s' = TP s" "mtag_of s' = mtag_of s" "sc_satp s' = sc_satp s"
    and st: "\<And>p. t_state (thr s' p) = (if p \<in> set (f (Wait_list c)) then READY else t_state (thr s p))"
     "\<And>p. stack_lowest (thr s' p) = stack_lowest (thr s p)"
    using broadcast_ok [OF f(1,2), of c] by (elim exE conjE) simp
  have live: "t_live (thr s' p) = t_live (thr s p)" for p using s'(4) by (simp add: keeps_def)
  have no: "TP s \<notin> set (f (Wait_list c))" using in_queuesD(2) [OF f(2), of "TP s" c] tp by auto
  have "queued s' (woken f c) p" if "t_live (thr s p)" for p
  proof (cases "p \<in> set (f (Wait_list c))")
    case True
    then show ?thesis using st by (simp add: queued_def)
  next
    case False
    then have "t_state (thr s' p) = t_state (thr s p)" using st by simp
    then show ?thesis
      using f(3) [OF that] False s'(7) by (cases "t_state (thr s p)") (auto simp: queued_def split: if_splits)
  qed
  then have "queues_ok s' (woken f c)"
    using s'(2,3,7) f no st by (auto simp: queues_ok_def live)
  then show ?thesis using s' st no by (intro exI [of _ s']) simp
qed

lemma waits_ok_woken: "keeps s s' \<Longrightarrow> same_exits s s' \<Longrightarrow> waits_ok s f \<Longrightarrow> waits_ok s' (woken f c)"
  by (erule (2) waits_ok_keeps) simp

text \<open>Blocking: the running thread joins a wait list and the processor goes to another one.\<close>

lemma wait_ok:
  assumes q: "queues_ok s f" and st: "stacks_ok s" and tp: "t_state (thr s (TP s)) = SELF" "TP s \<noteq> idle_thread"
  shows "\<exists>s' f'. condition_wait c s = Some s' \<and> queues_ok s' f' \<and> t_state (thr s' (TP s')) = SELF \<and>
     (\<forall>c'. f' (Wait_list c') = (if c' = c then f (Wait_list c) @ [TP s] else f (Wait_list c'))) \<and>
     keeps s s' \<and> same_exits s s' \<and> stacks_ok s' \<and> mtag_of s' = mtag_of s \<and> f Ready_list = TP s' # f' Ready_list"
proof -
  have f: "queues s f" "in_queues s f" "\<And>p. t_live (thr s p) \<Longrightarrow> queued s f p" "t_live (thr s (TP s))"
     "t_live (thr s idle_thread)" "t_state (thr s idle_thread) \<in> {SELF, READY}"
    using q by (simp_all add: queues_ok_def)
  let ?s1 = "upd (TP s) (\<lambda>t. t\<lparr>t_state := WAITING, wait_cond := Some c, list_next := None\<rparr>) s"
  have no: "TP s \<notin> set (f q)" for q using not_queued [OF f(2)] tp by simp
  have q1: "queues ?s1 f" by (rule queues_cong [OF f(1)]) (use no in auto)
  let ?f = "f(Wait_list c := f (Wait_list c) @ [TP s])"
  obtain s2 where s2: "tlinsert (Wait_list c) (TP s) ?s1 = Some s2" "queues s2 ?f" "only_links ?s1 s2"
    using tlinsert_queue [OF q1 no] by blast
  note d = only_linksD [OF s2(3), simplified]
  have s2st: "t_state (thr s2 p) = (if p = TP s then WAITING else t_state (thr s p))"
     "wait_cond (thr s2 p) = (if p = TP s then Some c else wait_cond (thr s p))" "t_live (thr s2 p) = t_live (thr s p)" for p
    using d by simp_all
  have inq: "in_queues s2 ?f"
    using f(2,4) no unfolding in_queues_def by (auto simp: s2st)
  have "queued s2 ?f p" if "t_live (thr s p)" for p
  proof (cases "p = TP s")
    case False
    then show ?thesis using f(3) [OF that] d(13) by (cases "t_state (thr s p)") (auto simp: queued_def s2st)
  qed (auto simp: queued_def s2st)
  moreover have "t_state (thr s2 idle_thread) \<in> {SELF, READY}" using f(6) tp(2) by (simp add: s2st)
  ultimately have q2: "queues_ok s2 ?f"
    using s2(2) inq f d(13) by (simp add: queues_ok_def s2st)
  have k: "keeps s s2" "same_exits s s2" "same_stacks s s2" "mtag_of s2 = mtag_of s"
    using d tp(1) by (auto simp: keeps_def same_exits_def same_stacks_def)
  have r: "rest s2 ?f = f Ready_list" using d(13) by (simp add: rest_def s2st)
  obtain s' f' where s': "running_thread_suspend s2 = Some s'" "queues_ok s' f'" "t_state (thr s' (TP s')) = SELF"
      "\<forall>c. f' (Wait_list c) = ?f (Wait_list c)" "rest s2 ?f = TP s' # f' Ready_list" "keeps s2 s'" "same_exits s2 s'" "stacks_ok s'"
      "mtag_of s' = mtag_of s2"
    using suspend_ok [OF q2 stacks_ok_same [OF k(1,3) st]] by (elim exE conjE) simp
  have "condition_wait c s = Some s'" using tp s2(1) s'(1) by (simp add: condition_wait_def)
  then show ?thesis
    using s' r k keeps_trans [OF k(1) s'(6)] same_trans(1) [OF k(2) s'(7)] by (intro exI [of _ s'] exI [of _ f']) simp
qed

lemma sched_okD:
  assumes "sched_ok s f"
  shows "queues_ok s f" "tab_ok s" "locks_ok s" "stacks_ok s" "waits_ok s f" "t_state (thr s (TP s)) = SELF"
    "queues s f" "in_queues s f" "t_live (thr s (TP s))" "t_live (thr s idle_thread)" "TP s \<notin> set (f q)"
    "t_live (thr s p) \<Longrightarrow> queued s f p"
  using assms not_queued [of s f "TP s" q] by (simp_all add: sched_ok_def queues_ok_def)

lemma yield_ok:
  assumes "sched_ok s f"
  shows "\<exists>s' f'. running_thread_yield s = Some s' \<and> sched_ok s' f' \<and> keeps s s' \<and>
     (\<forall>c. f' (Wait_list c) = f (Wait_list c)) \<and> f Ready_list @ [TP s] = TP s' # f' Ready_list"
proof -
  note d = sched_okD [OF assms]
  obtain s' f' where s': "running_thread_suspend s = Some s'" "queues_ok s' f'" "t_state (thr s' (TP s')) = SELF"
     "\<forall>c. f' (Wait_list c) = f (Wait_list c)" "rest s f = TP s' # f' Ready_list"
     "keeps s s'" "same_exits s s'" "stacks_ok s'"
    using suspend_ok [OF d(1,4)] by (elim exE conjE) simp
  have "sched_ok s' f'"
    using s' tab_ok_keeps [OF s'(6) d(2)] locks_ok_keeps [OF s'(6,7) d(3)] waits_ok_keeps [OF s'(6,7) d(5)]
    by (simp add: sched_ok_def)
  then show ?thesis using s' d(6) by (intro exI [of _ s'] exI [of _ f']) (simp add: running_thread_yield_def rest_def)
qed

text \<open>What the running thread must have noted before it may wait on a condition.\<close>

definition may_wait :: "sched \<Rightarrow> condition \<Rightarrow> bool" where
  "may_wait s c =
     (case c of
        Release l \<Rightarrow> lk_owner (lockst s l) \<noteq> None \<and> pend s (TP s) = Some (Acquiring l)
      | Child_exit q \<Rightarrow> q = TP s \<and> joinable s (TP s)
      | Cond n \<Rightarrow> pend s (TP s) = None)"

lemma condition_wait_ok:
  assumes "sched_ok s f" and "TP s \<noteq> idle_thread" and m: "may_wait s c"
  shows "\<exists>s' f'. condition_wait c s = Some s' \<and> sched_ok s' f' \<and> keeps s s' \<and>
     (\<forall>c'. f' (Wait_list c') = (if c' = c then f (Wait_list c) @ [TP s] else f (Wait_list c'))) \<and> f Ready_list = TP s' # f' Ready_list"
proof -
  note d = sched_okD [OF assms(1)]
  obtain s' f' where s': "condition_wait c s = Some s'" "queues_ok s' f'" "t_state (thr s' (TP s')) = SELF"
     "\<forall>c'. f' (Wait_list c') = (if c' = c then f (Wait_list c) @ [TP s] else f (Wait_list c'))"
     "keeps s s'" "same_exits s s'" "stacks_ok s'" "f Ready_list = TP s' # f' Ready_list"
    using wait_ok [OF d(1,4,6) assms(2), of c] by (elim exE conjE) simp
  have k: "lockst s' = lockst s" "pend s' = pend s" using s'(5) by (simp_all add: keeps_def)
  have j: "joinable s' p = joinable s p" for p by (rule joinable_keeps [OF s'(5,6)])
  note w = waits_okD [OF d(5)] and f' = s'(4) [rule_format]
  have "waits_ok s' f'"
  proof (rule waits_okI, unfold k j)
    fix l assume "f' (Wait_list (Release l)) \<noteq> []"
    then show "lk_owner (lockst s l) \<noteq> None"
      using w(1) m f' [of "Release l"] by (cases "c = Release l") (simp_all add: may_wait_def)
  next
    fix l p assume "p \<in> set (f' (Wait_list (Release l)))"
    then show "pend s p = Some (Acquiring l)"
      using w(2) [of p l] m f' [of "Release l"] by (cases "c = Release l") (auto simp: may_wait_def)
  next
    fix q p assume p: "p \<in> set (f' (Wait_list (Child_exit q)))"
    then show "p = q" using w(3) [of p q] m f' [of "Child_exit q"] by (cases "c = Child_exit q") (auto simp: may_wait_def)
    show "joinable s p" using p w(4) [of p q] m f' [of "Child_exit q"] by (cases "c = Child_exit q") (auto simp: may_wait_def)
  next
    fix n p assume "p \<in> set (f' (Wait_list (Cond n)))"
    then show "pend s p = None" using w(5) [of p n] m f' [of "Cond n"] by (cases "c = Cond n") (auto simp: may_wait_def)
  qed
  then have "sched_ok s' f'"
    using s' tab_ok_keeps [OF s'(5) d(2)] locks_ok_keeps [OF s'(5,6) d(3)] by (simp add: sched_ok_def)
  then show ?thesis using s' by blast
qed

lemma pend_ok:
  assumes "sched_ok s f"
  shows "sched_ok (s\<lparr>pend := (pend s)(TP s := x)\<rparr>) f"
proof -
  note d = sched_okD [OF assms]
  let ?s = "s\<lparr>pend := (pend s)(TP s := x)\<rparr>"
  have q: "queues_ok ?s f" by (rule queues_ok_cong [OF d(1)]) simp_all
  have j: "joinable ?s p = joinable s p" if "p \<noteq> TP s" for p
    using that by (intro joinable_cong) simp_all
  have ne: "p \<noteq> TP s" if "p \<in> set (f q)" for p q using d(11) that by auto
  note w = waits_okD [OF d(5)]
  have "waits_ok ?s f"
  proof (rule waits_okI)
    fix l assume "f (Wait_list (Release l)) \<noteq> []"
    from w(1) [OF this] show "lk_owner (lockst ?s l) \<noteq> None" by simp
  next
    fix l p assume p: "p \<in> set (f (Wait_list (Release l)))"
    from w(2) [OF p] ne [OF p] show "pend ?s p = Some (Acquiring l)" by simp
  next
    fix p q assume p: "p \<in> set (f (Wait_list (Child_exit q)))"
    from w(3) [OF p] show "p = q" .
    from w(4) [OF p] j [OF ne [OF p]] show "joinable ?s p" by simp
  next
    fix p n assume p: "p \<in> set (f (Wait_list (Cond n)))"
    from w(5) [OF p] ne [OF p] show "pend ?s p = None" by simp
  qed
  moreover have "tab_ok ?s" "locks_ok ?s" "stacks_ok ?s"
    using d(2-4) tab_ok_cong [of ?s s] locks_ok_cong [of ?s s] stacks_ok_cong [of ?s s] by simp_all
  ultimately show ?thesis using q d(6) by (simp add: sched_ok_def)
qed

lemma returns_ok: "sched_ok s f \<Longrightarrow> sched_ok (returns s) f"
  by (simp add: returns_def pend_ok)

lemma block_in_ok:
  assumes "sched_ok s f" and "TP s \<noteq> idle_thread" and "may_wait (s\<lparr>pend := (pend s)(TP s := Some call)\<rparr>) c"
  shows "\<exists>s' f'. block_in call c s = Some s' \<and> sched_ok s' f' \<and> keeps (s\<lparr>pend := (pend s)(TP s := Some call)\<rparr>) s'"
  using condition_wait_ok [OF pend_ok [OF assms(1)] _ assms(3)] assms(2) unfolding block_in_def by auto

lemma broadcast_sched_ok:
  assumes "sched_ok s f"
  shows "\<exists>s'. condition_broadcast c s = Some s' \<and> sched_ok s' (woken f c) \<and> keeps s s' \<and> TP s' = TP s"
proof -
  note d = sched_okD [OF assms]
  have "t_state (thr s (TP s)) \<noteq> WAITING" using d(6) by simp
  from broadcast_queues_ok [OF d(1) this, of c]
  obtain s' where s': "condition_broadcast c s = Some s'" "queues_ok s' (woken f c)" "keeps s s'" "same_exits s s'"
     "same_stacks s s'" "TP s' = TP s" "t_state (thr s' (TP s)) = t_state (thr s (TP s))"
    by (elim exE conjE) simp
  then have "sched_ok s' (woken f c)"
    using tab_ok_keeps [OF s'(3) d(2)] locks_ok_keeps [OF s'(3,4) d(3)] stacks_ok_same [OF s'(3,5) d(4)]
      waits_ok_woken [OF s'(3,4) d(5)] d(6) by (simp add: sched_ok_def)
  then show ?thesis using s' by blast
qed

lemma keeps_pend:
  assumes "keeps (s\<lparr>pend := (pend s)(TP s := x)\<rparr>) s'"
  shows "tree s s'" "others s s'" "pend s' (TP s) = x" "lockst s' = lockst s"
  using assms by (simp_all add: keeps_def tree_def others_def)

section \<open>Locks\<close>

lemma lock_acquire_ok:
  assumes "sched_ok s f" and "TP s \<noteq> idle_thread"
  shows "\<exists>b s' f'. lock_acquire l s = Some (b, s') \<and> sched_ok s' f' \<and>
     (b \<longrightarrow> TP s' = TP s \<and> lk_owner (lockst s' l) = Some (TP s)) \<and> (b \<longleftrightarrow> lk_owner (lockst s l) \<in> {None, Some (TP s)}) \<and>
     tree s s' \<and> others s s' \<and> (pend s' (TP s) = None \<or> pend s' (TP s) = Some (Acquiring l) \<and> lk_owner (lockst s' l) \<noteq> Some (TP s))"
proof -
  note d = sched_okD [OF assms(1)]
  consider (other) "lk_owner (lockst s l) \<noteq> None" "lk_owner (lockst s l) \<noteq> Some (TP s)"
    | (free) "lk_owner (lockst s l) = None" | (mine) "lk_owner (lockst s l) = Some (TP s)" by blast
  then show ?thesis
  proof cases
    case other
    then have "may_wait (s\<lparr>pend := (pend s)(TP s := Some (Acquiring l))\<rparr>) (Release l)" by (simp add: may_wait_def)
    from block_in_ok [OF assms this] obtain s' f' where b: "block_in (Acquiring l) (Release l) s = Some s'" "sched_ok s' f'"
       "keeps (s\<lparr>pend := (pend s)(TP s := Some (Acquiring l))\<rparr>) s'" by blast
    from b(1,2) keeps_pend [OF b(3)] other show ?thesis
      by (intro exI [of _ False] exI [of _ s'] exI [of _ f']) (simp add: lock_acquire_def)
  next
    case free
    let ?s1 = "upd (TP s) (\<lambda>t. t\<lparr>lock_list := l # lock_list t\<rparr>)
       (s\<lparr>lockst := (lockst s)(l := \<lparr>lk_owner = Some (TP s), lk_cnt = 1\<rparr>)\<rparr>)"
    have q: "queues_ok ?s1 f" by (rule queues_ok_cong [OF d(1)]) simp_all
    have nl: "l \<notin> set (lock_list (thr s p))" if "t_live (thr s p)" for p
      using locks_okD(1) [OF d(3), of l p] free that by simp
    note lo = locks_okD [OF d(3)]
    have "locks_ok ?s1"
    proof (rule locks_okI)
      fix l' p show "lk_owner (lockst ?s1 l') = Some p \<longleftrightarrow> t_live (thr ?s1 p) \<and> l' \<in> set (lock_list (thr ?s1 p))"
        using lo(1) [of l' p] nl [of p] d(9) by (cases "l' = l"; cases "p = TP s") auto
    next
      fix l' show "lk_owner (lockst ?s1 l') = None \<longleftrightarrow> lk_cnt (lockst ?s1 l') = 0" using lo(2) by simp
    next
      fix p assume "t_live (thr ?s1 p)"
      then show "distinct (lock_list (thr ?s1 p))" using lo(3) [of p] nl [of p] by (auto split: if_splits)
    next
      fix p assume "t_live (thr ?s1 p)" "t_state (thr ?s1 p) = EXITED"
      then show "lock_list (thr ?s1 p) = []" using lo(4) [of p] d(6) by (auto split: if_splits)
    qed
    moreover have "waits_ok ?s1 f" by (rule waits_ok_cong [OF d(5)]) auto
    moreover have "tab_ok ?s1" "stacks_ok ?s1"
      using d(2,4) tab_ok_cong [of ?s1 s] stacks_ok_cong [of ?s1 s] by simp_all
    ultimately have "sched_ok ?s1 f" using q d(6) by (simp add: sched_ok_def)
    from returns_ok [OF this] show ?thesis using free
      by (intro exI [of _ True] exI [of _ "returns ?s1"] exI [of _ f]) (auto simp: lock_acquire_def returns_def tree_def others_def)
  next
    case mine
    let ?s1 = "s\<lparr>lockst := (lockst s)(l := (lockst s l)\<lparr>lk_cnt := lk_cnt (lockst s l) + 1\<rparr>)\<rparr>"
    have q: "queues_ok ?s1 f" by (rule queues_ok_cong [OF d(1)]) simp_all
    have "locks_ok ?s1"
    proof (rule locks_okI)
      fix l' p show "lk_owner (lockst ?s1 l') = Some p \<longleftrightarrow> t_live (thr ?s1 p) \<and> l' \<in> set (lock_list (thr ?s1 p))"
        using locks_okD(1) [OF d(3), of l' p] by auto
    next
      fix l' show "lk_owner (lockst ?s1 l') = None \<longleftrightarrow> lk_cnt (lockst ?s1 l') = 0"
        using locks_okD(2) [OF d(3), of l'] mine by simp
    next
      fix p show "t_live (thr ?s1 p) \<Longrightarrow> distinct (lock_list (thr ?s1 p))"
        "t_live (thr ?s1 p) \<Longrightarrow> t_state (thr ?s1 p) = EXITED \<Longrightarrow> lock_list (thr ?s1 p) = []"
        using locks_okD(3,4) [OF d(3), of p] by simp_all
    qed
    moreover have "waits_ok ?s1 f" by (rule waits_ok_cong [OF d(5)]) auto
    moreover have "tab_ok ?s1" "stacks_ok ?s1"
      using d(2,4) tab_ok_cong [of ?s1 s] stacks_ok_cong [of ?s1 s] by simp_all
    ultimately have "sched_ok ?s1 f" using q d(6) by (simp add: sched_ok_def)
    from returns_ok [OF this] show ?thesis using mine
      by (intro exI [of _ True] exI [of _ "returns ?s1"] exI [of _ f]) (auto simp: lock_acquire_def returns_def tree_def others_def Let_def)
  qed
qed

lemma lock_release_ok:
  assumes "sched_ok s f" and "lk_owner (lockst s l) = Some (TP s)"
  shows "\<exists>s' f'. lock_release l s = Some s' \<and> sched_ok s' f' \<and> TP s' = TP s \<and>
     (\<forall>l'. lk_owner (lockst s' l') = (if l' = l \<and> lk_cnt (lockst s l) = 1 then None else lk_owner (lockst s l'))) \<and>
     f' = (if lk_cnt (lockst s l) = 1 then woken f (Release l) else f) \<and> tree s s' \<and> pend s' = pend s"
proof -
  note d = sched_okD [OF assms(1)]
  note lo = locks_okD [OF d(3)]
  have cnt: "lk_cnt (lockst s l) \<noteq> 0" using lo(2) [of l] assms(2) by simp
  let ?s1 = "s\<lparr>lockst := (lockst s)(l := (lockst s l)\<lparr>lk_cnt := lk_cnt (lockst s l) - 1\<rparr>)\<rparr>"
  have q1: "queues_ok ?s1 f" by (rule queues_ok_cong [OF d(1)]) simp_all
  have w1: "waits_ok ?s1 f" by (rule waits_ok_cong [OF d(5)]) (use assms(2) in auto)
  show ?thesis
  proof (cases "lk_cnt (lockst s l) = 1")
    case False
    have "locks_ok ?s1"
    proof (rule locks_okI)
      fix l' p show "lk_owner (lockst ?s1 l') = Some p \<longleftrightarrow> t_live (thr ?s1 p) \<and> l' \<in> set (lock_list (thr ?s1 p))"
        using lo(1) [of l' p] by auto
    next
      fix l' show "lk_owner (lockst ?s1 l') = None \<longleftrightarrow> lk_cnt (lockst ?s1 l') = 0"
        using lo(2) [of l'] cnt False by auto
    next
      fix p show "t_live (thr ?s1 p) \<Longrightarrow> distinct (lock_list (thr ?s1 p))"
        "t_live (thr ?s1 p) \<Longrightarrow> t_state (thr ?s1 p) = EXITED \<Longrightarrow> lock_list (thr ?s1 p) = []"
        using lo(3,4) [of p] by simp_all
    qed
    moreover have "tab_ok ?s1" "stacks_ok ?s1" using d(2,4) tab_ok_cong [of ?s1 s] stacks_ok_cong [of ?s1 s] by simp_all
    ultimately have "sched_ok ?s1 f" using q1 w1 d(6) by (simp add: sched_ok_def)
    then show ?thesis using assms(2) cnt False by (simp add: lock_release_def Let_def tree_def)
  next
    case True
    have tp: "t_state (thr ?s1 (TP ?s1)) \<noteq> WAITING" using d(6) by simp
    obtain s2 where s2: "condition_broadcast (Release l) ?s1 = Some s2" "queues_ok s2 (woken f (Release l))" "keeps ?s1 s2"
      "same_exits ?s1 s2" "same_stacks ?s1 s2" "TP s2 = TP s" "t_state (thr s2 (TP s)) = SELF"
      using broadcast_queues_ok [OF q1 tp, of "Release l"] d(6) by (elim exE conjE) simp
    have k: "lockst s2 = lockst ?s1" "\<And>p. t_live (thr s2 p) = t_live (thr s p)" "\<And>p. lock_list (thr s2 p) = lock_list (thr s p)"
      "\<And>p. t_state (thr s2 p) = EXITED \<longleftrightarrow> t_state (thr s p) = EXITED"
      using s2(3,4) by (simp_all add: keeps_def same_exits_def)
    let ?s3 = "upd (TP s2) (\<lambda>t. t\<lparr>lock_list := remove1 l (lock_list t)\<rparr>) (s2\<lparr>lockst := (lockst s2)(l := (lockst s2 l)\<lparr>lk_owner := None\<rparr>)\<rparr>)"
    have mem: "l \<in> set (lock_list (thr s (TP s)))" using lo(1) [of l "TP s"] assms(2) by simp
    then have run: "lock_release l s = Some ?s3"
      using assms(2) True s2(1,6) by (simp add: lock_release_def lock_release_completely_def Let_def k(3))
    have only: "l \<notin> set (lock_list (thr s p))" if "t_live (thr s p)" "p \<noteq> TP s" for p
      using lo(1) [of l p] assms(2) that by simp
    have o3: "lk_owner (lockst ?s3 l') = (if l' = l then None else lk_owner (lockst s l'))" for l' by (simp add: k(1))
    have "locks_ok ?s3"
    proof (rule locks_okI)
      fix l' p show "lk_owner (lockst ?s3 l') = Some p \<longleftrightarrow> t_live (thr ?s3 p) \<and> l' \<in> set (lock_list (thr ?s3 p))"
        using lo(1) [of l' p] lo(3) [of p] only [of p] s2(6) by (cases "l' = l"; cases "p = TP s") (auto simp: k o3)
    next
      fix l' show "lk_owner (lockst ?s3 l') = None \<longleftrightarrow> lk_cnt (lockst ?s3 l') = 0"
        using lo(2) [of l'] True by (simp add: k(1))
    next
      fix p show "t_live (thr ?s3 p) \<Longrightarrow> distinct (lock_list (thr ?s3 p))"
        "t_live (thr ?s3 p) \<Longrightarrow> t_state (thr ?s3 p) = EXITED \<Longrightarrow> lock_list (thr ?s3 p) = []"
        using lo(3,4) [of p] by (auto simp: k)
    qed
    moreover have "queues_ok ?s3 (woken f (Release l))" by (rule queues_ok_cong [OF s2(2)]) simp_all
    moreover have "tab_ok ?s3"
    proof -
      have "tab_ok ?s1" using d(2) tab_ok_cong [of ?s1 s] by simp
      then have "tab_ok s2" by (rule tab_ok_keeps [OF s2(3)])
      then show ?thesis using tab_ok_cong [of ?s3 s2] by simp
    qed
    moreover have "stacks_ok ?s3"
    proof -
      have "stacks_ok ?s1" using d(4) stacks_ok_cong [of ?s1 s] by simp
      then have "stacks_ok s2" by (rule stacks_ok_same [OF s2(3,5)])
      then show ?thesis using stacks_ok_cong [of ?s3 s2] by simp
    qed
    moreover have "waits_ok ?s3 (woken f (Release l))"
      by (rule waits_ok_cong [OF waits_ok_woken [OF s2(3,4) w1, of "Release l"]]) auto
    ultimately have "sched_ok ?s3 (woken f (Release l))" using s2(6,7) by (simp add: sched_ok_def)
    moreover have "tree s ?s3" "pend ?s3 = pend s" using s2(3) by (auto simp: tree_def keeps_def)
    ultimately show ?thesis using run o3 True s2(6) by (intro exI [of _ ?s3]) simp
  qed
qed

section \<open>Exit\<close>

lemma release_locks_ok:
  assumes "queues_ok s f" and "waits_ok s f" and "t_state (thr s (TP s)) = SELF"
  shows "\<exists>s' f'. release_locks ls s = Some s' \<and> queues_ok s' f' \<and> waits_ok s' f' \<and> TP s' = TP s \<and>
     t_state (thr s' (TP s)) = SELF \<and> same_exits s s' \<and> same_stacks s s' \<and> thrtab s' = thrtab s \<and> pend s' = pend s \<and>
     (\<forall>p. t_live (thr s' p) = t_live (thr s p) \<and> t_id (thr s' p) = t_id (thr s p) \<and>
        t_parent (thr s' p) = t_parent (thr s p) \<and> lock_list (thr s' p) = lock_list (thr s p)) \<and>
     (\<forall>l. lockst s' l = (if l \<in> set ls then \<lparr>lk_owner = None, lk_cnt = 0\<rparr> else lockst s l))"
  using assms
proof (induction ls arbitrary: s f)
  case Nil
  then show ?case by (intro exI [of _ s] exI [of _ f]) simp
next
  case (Cons l ls)
  let ?s1 = "s\<lparr>lockst := (lockst s)(l := \<lparr>lk_owner = None, lk_cnt = 0\<rparr>)\<rparr>"
  have q1: "queues_ok ?s1 f" by (rule queues_ok_cong [OF Cons.prems(1)]) simp_all
  have tp: "t_state (thr ?s1 (TP ?s1)) \<noteq> WAITING" using Cons.prems(3) by simp
  obtain s2 where s2: "condition_broadcast (Release l) ?s1 = Some s2" "queues_ok s2 (woken f (Release l))" "keeps ?s1 s2"
      "same_exits ?s1 s2" "same_stacks ?s1 s2" "TP s2 = TP s" "t_state (thr s2 (TP s)) = SELF"
    using broadcast_queues_ok [OF q1 tp, of "Release l"] Cons.prems(3) by (elim exE conjE) simp
  have k: "lockst s2 = lockst ?s1" "thrtab s2 = thrtab s" "pend s2 = pend s"
    "\<And>p. t_live (thr s2 p) = t_live (thr s p)" "\<And>p. t_id (thr s2 p) = t_id (thr s p)"
    "\<And>p. t_parent (thr s2 p) = t_parent (thr s p)" "\<And>p. lock_list (thr s2 p) = lock_list (thr s p)"
    "\<And>p. t_state (thr s2 p) = EXITED \<longleftrightarrow> t_state (thr s p) = EXITED" "same_exits s s2" "same_stacks s s2"
    using s2(3-5) by (simp_all add: keeps_def same_exits_def same_stacks_def)
  have "waits_ok s (woken f (Release l))" by (rule waits_ok_woken [OF _ _ Cons.prems(2)]) simp_all
  then have w2: "waits_ok s2 (woken f (Release l))"
    by (rule waits_ok_cong) (use k in \<open>auto split: if_splits\<close>)
  obtain s' f' where s': "release_locks ls s2 = Some s'" "queues_ok s' f'" "waits_ok s' f'" "TP s' = TP s"
      "t_state (thr s' (TP s)) = SELF" "same_exits s2 s'" "same_stacks s2 s'" "thrtab s' = thrtab s" "pend s' = pend s"
      "\<And>p. t_live (thr s' p) = t_live (thr s2 p) \<and> t_id (thr s' p) = t_id (thr s2 p) \<and>
        t_parent (thr s' p) = t_parent (thr s2 p) \<and> lock_list (thr s' p) = lock_list (thr s2 p)"
      "\<And>l. lockst s' l = (if l \<in> set ls then \<lparr>lk_owner = None, lk_cnt = 0\<rparr> else lockst s2 l)"
  proof -
    have "t_state (thr s2 (TP s2)) = SELF" using s2(6,7) by simp
    from Cons.IH [OF s2(2) w2 this] show ?thesis using that unfolding s2(6) k(2,3) by blast
  qed
  show ?case
    using s'(1-5,8,9) s'(10,11) s2(1) k same_trans(1) [OF k(9) s'(6)] same_trans(2) [OF k(10) s'(7)]
    by (intro exI [of _ s'] exI [of _ f']) simp
qed

lemma waits_ok_exit:
  assumes w: "waits_ok s f" and tp: "\<And>q. TP s \<notin> set (f q)"
    and f': "\<And>c. f' (Wait_list c) = f (Wait_list c) \<or> f' (Wait_list c) = []"
    and par: "\<And>q. t_parent (thr s (TP s)) = Some q \<Longrightarrow> f' (Wait_list (Child_exit q)) = []"
  shows "waits_ok (set_state EXITED (TP s) s) f'"
proof -
  let ?s = "set_state EXITED (TP s) s"
  have sub: "p \<in> set (f (Wait_list c))" if "p \<in> set (f' (Wait_list c))" for p c using f' [of c] that by auto
  show ?thesis
  proof (rule waits_okI)
    fix l assume "f' (Wait_list (Release l)) \<noteq> []"
    then have "f (Wait_list (Release l)) \<noteq> []" using f' [of "Release l"] by auto
    from waits_okD(1) [OF w this] show "lk_owner (lockst ?s l) \<noteq> None" by (simp add: set_state_def)
  next
    fix l p assume "p \<in> set (f' (Wait_list (Release l)))"
    from waits_okD(2) [OF w sub [OF this]] show "pend ?s p = Some (Acquiring l)" by (simp add: set_state_def)
  next
    fix p q assume p: "p \<in> set (f' (Wait_list (Child_exit q)))"
    show e: "p = q" by (rule waits_okD(3) [OF w sub [OF p]])
    have j: "joinable s p" by (rule waits_okD(4) [OF w sub [OF p]])
    have "f' (Wait_list (Child_exit p)) \<noteq> []" using p e by auto
    then have np: "t_parent (thr s (TP s)) \<noteq> Some p" using par [of p] by blast
    have ch: "child_in ?s p i c = child_in s p i c" for i c by (simp add: child_in_def set_state_def)
    have "child_in s p i c \<Longrightarrow> t_state (thr ?s c) = t_state (thr s c)" for i c
      using np by (auto simp: child_in_def set_state_def)
    moreover have "pend ?s p = pend s p" by (simp add: set_state_def)
    ultimately show "joinable ?s p" using j unfolding joinable_def ch by (auto split: option.splits pending.splits)
  next
    fix p n assume "p \<in> set (f' (Wait_list (Cond n)))"
    from waits_okD(5) [OF w sub [OF this]] show "pend ?s p = None" by (simp add: set_state_def)
  qed
qed

lemma exit_ok:
  assumes "sched_ok s f" and "TP s \<noteq> idle_thread"
  shows "running_thread_exit s = Some Halted \<and> t_id (thr s (TP s)) = MAIN_TID \<or>
     (\<exists>s' f'. running_thread_exit s = Some (Goes s') \<and> sched_ok s' f' \<and> t_state (thr s' (TP s)) = EXITED \<and>
        (\<forall>l. lk_owner (lockst s' l) \<noteq> Some (TP s)) \<and> others s s' \<and> tree s s' \<and> pend s' = pend s)"
proof (cases "t_id (thr s (TP s)) = MAIN_TID")
  case True
  then show ?thesis by (simp add: running_thread_exit_def)
next
  case nm: False
  note d = sched_okD [OF assms(1)]
  note lo = locks_okD [OF d(3)]
  obtain s1 f1 where s1: "release_locks (lock_list (thr s (TP s))) s = Some s1" "queues_ok s1 f1" "waits_ok s1 f1" "TP s1 = TP s"
      "t_state (thr s1 (TP s)) = SELF" "same_exits s s1" "same_stacks s s1" "thrtab s1 = thrtab s" "pend s1 = pend s"
    and t1: "\<And>p. t_live (thr s1 p) = t_live (thr s p) \<and> t_id (thr s1 p) = t_id (thr s p) \<and>
        t_parent (thr s1 p) = t_parent (thr s p) \<and> lock_list (thr s1 p) = lock_list (thr s p)"
      "\<And>l. lockst s1 l = (if l \<in> set (lock_list (thr s (TP s))) then \<lparr>lk_owner = None, lk_cnt = 0\<rparr> else lockst s l)"
    using release_locks_ok [OF d(1,5,6), of "lock_list (thr s (TP s))"] by (elim exE conjE) simp
  define s2 where "s2 = upd (TP s) (\<lambda>t. t\<lparr>lock_list := []\<rparr>) s1"
  define s3 where "s3 = set_state EXITED (TP s) s2"
  have iq: "in_queues s1 f1" using s1(2) by (simp add: queues_ok_def)
  have no: "TP s \<notin> set (f1 q)" for q using not_queued [OF iq] s1(5) by simp
  have e3: "t_live (thr s3 p) = t_live (thr s p)" "t_id (thr s3 p) = t_id (thr s p)" "t_parent (thr s3 p) = t_parent (thr s p)"
    "lock_list (thr s3 p) = (if p = TP s then [] else lock_list (thr s p))"
    "t_state (thr s3 p) = (if p = TP s then EXITED else t_state (thr s1 p))"
    "stack_lowest (thr s3 p) = stack_lowest (thr s p)" for p
    using t1(1) [of p] s1(7) by (auto simp add: s3_def s2_def set_state_def same_stacks_def)
  have g3: "thrtab s3 = thrtab s" "lockst s3 = lockst s1" "pend s3 = pend s" "TP s3 = TP s" "sc_free s3 = sc_free s" "tlists s3 = tlists s1"
    using s1(4,7,8,9) by (simp_all add: s3_def s2_def set_state_def same_stacks_def)
  have q3: "queues_ok s3 f1"
  proof -
    have b: "queues s1 f1" "\<And>p. t_live (thr s1 p) \<Longrightarrow> queued s1 f1 p" "t_live (thr s1 idle_thread)" "t_state (thr s1 idle_thread) \<in> {SELF, READY}"
      using s1(2) by (simp_all add: queues_ok_def)
    have "queues s3 f1" by (rule queues_cong [OF b(1)]) (use g3(6) in \<open>auto simp: s3_def s2_def set_state_def\<close>)
    moreover have "in_queues s3 f1"
      using iq no t1(1) unfolding in_queues_def by (auto simp: e3) (auto simp: s3_def s2_def set_state_def)
    moreover have "queued s3 f1 p" if "t_live (thr s1 p)" for p
      using b(2) [OF that] g3(4) s1(4) by (cases "t_state (thr s1 p)"; cases "p = TP s") (auto simp: queued_def e3)
    ultimately show ?thesis using b(3,4) assms(2) d(9) t1(1) g3(4) by (simp add: queues_ok_def e3)
  qed
  have tab3: "tab_ok s3" using d(2) tab_ok_cong [of s3 s] e3 g3 by simp
  have stk3: "stacks_ok s3" using d(4) stacks_ok_cong [of s3 s] e3 g3 by simp
  have own: "lk_owner (lockst s3 l) = (if lk_owner (lockst s l) = Some (TP s) then None else lk_owner (lockst s l))" for l
    using lo(1) [of l "TP s"] d(9) t1(2) [of l] by (simp add: g3)
  have lock3: "locks_ok s3"
  proof (rule locks_okI)
    fix l p show "lk_owner (lockst s3 l) = Some p \<longleftrightarrow> t_live (thr s3 p) \<and> l \<in> set (lock_list (thr s3 p))"
      using lo(1) [of l p] by (auto simp: own e3)
  next
    fix l show "lk_owner (lockst s3 l) = None \<longleftrightarrow> lk_cnt (lockst s3 l) = 0"
      using lo(2) [of l] lo(1) [of l "TP s"] t1(2) [of l] by (auto simp: g3)
  next
    fix p assume "t_live (thr s3 p)"
    then show "distinct (lock_list (thr s3 p))" using lo(3) [of p] by (simp add: e3)
  next
    fix p assume "t_live (thr s3 p)" "t_state (thr s3 p) = EXITED"
    then show "lock_list (thr s3 p) = []"
      using lo(4) [of p] s1(6) [unfolded same_exits_def, THEN spec, of p] by (simp add: e3 split: if_splits)
  qed
  have w2: "waits_ok s2 f1" by (rule waits_ok_cong [OF s1(3)]) (auto simp: s2_def)
  have tp2: "TP s2 = TP s" using s1(4) by (simp add: s2_def)
  have par2: "t_parent (thr s2 (TP s)) = t_parent (thr s (TP s))" using t1(1) by (simp add: s2_def)
  obtain s4 f4 where s4: "(case t_parent (thr s3 (TP s)) of None \<Rightarrow> Some s3 | Some q \<Rightarrow> condition_broadcast (Child_exit q) s3) = Some s4"
     "queues_ok s4 f4" "waits_ok s4 f4" "keeps s3 s4" "same_exits s3 s4" "same_stacks s3 s4" "TP s4 = TP s" "t_state (thr s4 (TP s)) = EXITED"
  proof (cases "t_parent (thr s3 (TP s))")
    case None
    then have "t_parent (thr s2 (TP s2)) \<noteq> Some q" for q using par2 tp2 e3(3) [of "TP s"] by simp
    then have "waits_ok s3 f1"
      unfolding s3_def tp2 [symmetric] by (intro waits_ok_exit [OF w2]) (use no tp2 in auto)
    then show ?thesis using that [of s3 f1] None q3 g3(4) e3(5) by simp
  next
    case (Some q)
    have tp3: "t_state (thr s3 (TP s3)) \<noteq> WAITING" using e3(5) g3(4) by simp
    obtain s4 where b: "condition_broadcast (Child_exit q) s3 = Some s4" "queues_ok s4 (woken f1 (Child_exit q))" "keeps s3 s4"
      "same_exits s3 s4" "same_stacks s3 s4" "TP s4 = TP s" "t_state (thr s4 (TP s)) = EXITED"
      using broadcast_queues_ok [OF q3 tp3, of "Child_exit q"] g3(4) e3(5) by (elim exE conjE) simp
    have "t_parent (thr s2 (TP s2)) = Some q" using Some tp2 par2 e3(3) by simp
    then have "waits_ok s3 (woken f1 (Child_exit q))"
      unfolding s3_def tp2 [symmetric] by (intro waits_ok_exit [OF w2]) (use no tp2 in auto)
    then have "waits_ok s4 (woken f1 (Child_exit q))" by (rule waits_ok_keeps [OF b(3,4)]) simp
    then show ?thesis using that [of s4 "woken f1 (Child_exit q)"] b Some by simp
  qed
  obtain s' f' where s': "running_thread_suspend s4 = Some s'" "queues_ok s' f'" "t_state (thr s' (TP s')) = SELF"
     "\<forall>c. f' (Wait_list c) = f4 (Wait_list c)" "keeps s4 s'" "same_exits s4 s'" "stacks_ok s'"
    using suspend_ok [OF s4(2) stacks_ok_same [OF s4(4,6) stk3]] by (elim exE conjE) simp
  note k = keeps_trans [OF s4(4) s'(5)] and x = same_trans(1) [OF s4(5) s'(6)]
  have "waits_ok s' f'" by (rule waits_ok_keeps [OF s'(5,6) s4(3)]) (use s'(4) in simp)
  then have ok: "sched_ok s' f'"
    using s'(2,3,7) tab_ok_keeps [OF k tab3] locks_ok_keeps [OF k x lock3] by (simp add: sched_ok_def)
  have "running_thread_exit s = Some (Goes s')"
    using nm s1(1) s4(1) s'(1)
    by (simp add: running_thread_exit_def release_all_thread_locks_def Let_def flip: s2_def s3_def)
  moreover have "t_state (thr s' (TP s)) = EXITED" using x e3(5) [of "TP s"] by (simp add: same_exits_def)
  moreover have "lockst s' = lockst s3" using k by (simp add: keeps_def)
  moreover have "tree s s'" "pend s' = pend s" using k e3 g3 by (simp_all add: keeps_def tree_def)
  ultimately show ?thesis using ok own by (intro disjI2 exI [of _ s'] exI [of _ f']) (auto simp: others_def)
qed

end
