(* ===== verification/ThreadReach.thy ===== *)
theory ThreadReach
  imports ThreadSteps
begin

text \<open>
  Creation, reclaiming and joining of threads, the invariant of reachable states, and what it
  means for locks, wake-ups and the order in which threads run.
\<close>

section \<open>Creation\<close>

lemma spawn_ok:
  assumes "sched_ok s f" and p: "\<not> t_live (thr s p)" and sp: "spawn_thread p nm entry as s = Some (rc, s')"
  shows "rc = - EMTHR \<and> s' = s \<or>
    (\<exists>tid. rc = int tid \<and> 0 < tid \<and> tid < IDLE_TID \<and> thrtab s tid = None \<and> thrtab s' = (thrtab s)(tid := Some p) \<and>
       sched_ok s' (f(Ready_list := f Ready_list @ [p])) \<and> t_parent (thr s' p) = Some (TP s) \<and> TP s' = TP s \<and>
       lockst s' = lockst s \<and> pend s' = (pend s)(p := None) \<and> (\<forall>q. q \<noteq> p \<longrightarrow> t_live (thr s' q) = t_live (thr s q) \<and> t_parent (thr s' q) = t_parent (thr s q)))"
proof (cases "create_thread p nm s")
  case None
  then show ?thesis using sp by (simp add: spawn_thread_def)
next
  case (Some r)
  note d = sched_okD [OF assms(1)]
  obtain o1 s1 where r: "r = (o1, s1)" by (cases r)
  show ?thesis
  proof (cases o1)
    case None
    then show ?thesis using sp Some r by (auto simp: spawn_thread_def create_thread_def split: option.splits)
  next
    case tid: (Some tid)
    from Some r tid obtain pg cs where c: "List.find (\<lambda>i. thrtab s i = None) [1..<NTHR] = Some tid" "alloc_phys_page (sc_free s) = Some (pg, cs)"
      and s1: "s1 = s\<lparr>thr := (thr s)(p := zero_thread\<lparr>t_id := tid, t_name := nm, stack_lowest := Some pg,
                      t_parent := Some (TP s), t_proc := t_proc (thr s (TP s))\<rparr>),
                   thrtab := (thrtab s)(tid := Some p), sc_free := cs, pend := (pend s)(p := None)\<rparr>"
      by (auto simp: create_thread_def split: option.splits)
    have t: "0 < tid" "tid < NTHR" "thrtab s tid = None" using c(1) by (auto simp: find_Some_iff)
    have idle: "thrtab s IDLE_TID = Some idle_thread" using d(2) by (simp add: tab_ok_def)
    then have ti: "tid < IDLE_TID" using t by (cases "tid = IDLE_TID") auto
    have ne: "p \<noteq> TP s" "p \<noteq> idle_thread" using p d(9,10) by auto
    have no: "p \<notin> set (f q)" for q using p in_queuesD [OF d(8)] by (cases q) auto
    let ?s2 = "set_state READY p s1"
    have thr2: "thr ?s2 q = (if q = p then zero_thread\<lparr>t_id := tid, t_name := nm, stack_lowest := Some pg,
        t_parent := Some (TP s), t_proc := t_proc (thr s (TP s)), t_state := READY\<rparr> else thr s q)" for q
      by (simp add: set_state_def s1)
    have "queues ?s2 f" by (rule queues_cong [OF d(7)]) (use no in \<open>auto simp: thr2\<close>, simp add: set_state_def s1)
    from tlinsert_queue [OF this no] obtain s3 where s3: "tlinsert Ready_list p ?s2 = Some s3"
      "queues s3 (f(Ready_list := f Ready_list @ [p]))" "only_links ?s2 s3" by blast
    note l = only_linksD [OF s3(3)]
    let ?f = "f(Ready_list := f Ready_list @ [p])"
    have s': "s' = upd p (\<lambda>t. t\<lparr>t_startup := Some \<lparr>pc = entry, args = take 8 as\<rparr>\<rparr>) s3" "rc = int tid"
      using sp Some r tid s3(1) by (simp_all add: spawn_thread_def)
    have th: "t_live (thr s' q) = (q = p \<or> t_live (thr s q))" "t_id (thr s' q) = (if q = p then tid else t_id (thr s q))"
      "t_state (thr s' q) = (if q = p then READY else t_state (thr s q))"
      "t_parent (thr s' q) = (if q = p then Some (TP s) else t_parent (thr s q))"
      "lock_list (thr s' q) = (if q = p then [] else lock_list (thr s q))"
      "wait_cond (thr s' q) = (if q = p then None else wait_cond (thr s q))"
      "stack_lowest (thr s' q) = (if q = p then Some pg else stack_lowest (thr s q))" for q
      by (simp_all add: s' l thr2 zero_thread_def)
    have g: "thrtab s' = (thrtab s)(tid := Some p)" "lockst s' = lockst s" "TP s' = TP s" "sc_free s' = cs" "pend s' = (pend s)(p := None)"
      by (simp_all add: s' l set_state_def s1)
    have qs: "queues s' ?f" by (rule queues_cong [OF s3(2)]) (simp_all add: s')
    have iq: "in_queues s' ?f"
      unfolding in_queues_def
    proof (rule conjI; intro allI ballI)
      fix q assume "q \<in> set (?f Ready_list)"
      then show "t_live (thr s' q) \<and> t_state (thr s' q) = READY" using in_queuesD(1) [OF d(8), of q] by (auto simp: th)
    next
      fix c q assume "q \<in> set (?f (Wait_list c))"
      then have q: "q \<in> set (f (Wait_list c))" by simp
      then have "q \<noteq> p" using no by auto
      then show "t_live (thr s' q) \<and> t_state (thr s' q) = WAITING \<and> wait_cond (thr s' q) = Some c"
        using in_queuesD(2) [OF d(8) q] by (simp add: th)
    qed
    have "queued s' ?f q" if "t_live (thr s' q)" for q
    proof (cases "q = p")
      case False
      then have "queued s f q" using that by (intro d(12)) (simp add: th)
      with False show ?thesis by (cases "t_state (thr s q)") (auto simp: queued_def th g)
    qed (simp add: queued_def th)
    moreover have "t_state (thr s idle_thread) \<in> {SELF, READY}" using d(1) by (simp add: queues_ok_def)
    ultimately have q': "queues_ok s' ?f" unfolding queues_ok_def using qs iq ne d(6,9,10) by (simp add: th g)
    have tab: "tab_ok s'"
    proof -
      note t0 = d(2) [unfolded tab_ok_def]
      have "i < NTHR \<and> t_live (thr s' q) \<and> t_id (thr s' q) = i" if "thrtab s' i = Some q" for i q
      proof (cases "i = tid")
        case True
        then show ?thesis using that t(2) by (simp add: g th)
      next
        case False
        then have i: "thrtab s i = Some q" using that by (simp add: g)
        then have "i < NTHR \<and> t_live (thr s q) \<and> t_id (thr s q) = i" using t0 by blast
        moreover from this have "q \<noteq> p" using p by auto
        ultimately show ?thesis by (simp add: th)
      qed
      moreover have "thrtab s' (t_id (thr s' q)) = Some q" if "t_live (thr s' q)" for q
      proof (cases "q = p")
        case False
        then have "thrtab s (t_id (thr s q)) = Some q" using that t0 by (simp add: th)
        moreover from this have "t_id (thr s q) \<noteq> tid" using t(3) by auto
        ultimately show ?thesis using False by (simp add: g th)
      qed (simp add: g th)
      moreover have "t_live (thr s' q')" if "t_live (thr s' q)" "t_parent (thr s' q) = Some q'" for q q'
      proof (cases "q = p")
        case False
        then have "t_live (thr s q')" using that t0 by (auto simp: th)
        then show ?thesis by (simp add: th)
      qed (use that d(9) in \<open>simp add: th\<close>)
      moreover have "t_parent (thr s' c) = None" if "thrtab s' MAIN_TID = Some c" for c
      proof -
        have m: "thrtab s MAIN_TID = Some c" using that t(1) by (simp add: g)
        then have "t_live (thr s c)" "t_parent (thr s c) = None" using t0 by blast+
        then show ?thesis using p by (auto simp: th)
      qed
      moreover have "thrtab s' IDLE_TID = Some idle_thread" using idle ti by (simp add: g)
      ultimately show ?thesis unfolding tab_ok_def by blast
    qed
    have lck: "locks_ok s'"
    proof (rule locks_okI)
      fix l q show "lk_owner (lockst s' l) = Some q \<longleftrightarrow> t_live (thr s' q) \<and> l \<in> set (lock_list (thr s' q))"
        using locks_okD(1) [OF d(3), of l q] p by (auto simp: g th)
    next
      fix l show "lk_owner (lockst s' l) = None \<longleftrightarrow> lk_cnt (lockst s' l) = 0" using locks_okD(2) [OF d(3)] by (simp add: g)
    next
      fix q show "t_live (thr s' q) \<Longrightarrow> distinct (lock_list (thr s' q))"
        "t_live (thr s' q) \<Longrightarrow> t_state (thr s' q) = EXITED \<Longrightarrow> lock_list (thr s' q) = []"
        using locks_okD(3,4) [OF d(3), of q] by (auto simp: th)
    qed
    have stk: "stacks_ok s'"
    proof -
      note k = d(4) [unfolded stacks_ok_def]
      have a: "alloc_phys_pages 1 (sc_free s) = Some (pg, cs)" using c(2) by (simp add: alloc_phys_page_def)
      have cw: "chunks_wf (sc_free s)" using k by blast
      have "{pg..<pg + 1} = {pg}" by auto
      then have al: "pg \<in> free_pages (sc_free s)" "0 < pg" "chunks_wf cs" "free_pages cs = free_pages (sc_free s) - {pg}"
        using alloc_phys_pages_spec [OF cw _ a] by auto
      have "0 < x \<and> x \<notin> free_pages cs" if "t_live (thr s' q)" "stack_lowest (thr s' q) = Some x" for q x
      proof (cases "q = p")
        case False
        then have "0 < x \<and> x \<notin> free_pages (sc_free s)" using that k by (auto simp: th)
        then show ?thesis using al(4) by auto
      qed (use that al in \<open>simp add: th\<close>)
      moreover have "q = q'" if "t_live (thr s' q)" "t_live (thr s' q')" "stack_lowest (thr s' q) = Some x" "stack_lowest (thr s' q') = Some x"
        for q q' x
      proof -
        have "x \<noteq> pg" if "t_live (thr s r)" "stack_lowest (thr s r) = Some x" for r using that k al(1) by blast
        then show ?thesis using that k by (auto simp: th split: if_splits)
      qed
      ultimately show ?thesis unfolding stacks_ok_def g(4) using al(3) by blast
    qed
    have wt: "waits_ok s' ?f"
    proof (rule waits_okI)
      fix l assume "?f (Wait_list (Release l)) \<noteq> []"
      then show "lk_owner (lockst s' l) \<noteq> None" using waits_okD(1) [OF d(5), of l] by (simp add: g)
    next
      fix l q assume "q \<in> set (?f (Wait_list (Release l)))"
      then show "pend s' q = Some (Acquiring l)" using waits_okD(2) [OF d(5)] no [of "Wait_list (Release l)"] by (auto simp: g)
    next
      fix w q assume "w \<in> set (?f (Wait_list (Child_exit q)))"
      then have w: "w \<in> set (f (Wait_list (Child_exit q)))" by simp
      then show "w = q" by (rule waits_okD(3) [OF d(5)])
      have "w \<noteq> TP s" using w d(11) by auto
      have ch: "child_in s' w i c = child_in s w i c" for i c
      proof -
        have "c \<noteq> p" if "thrtab s i = Some c" using that d(2) p by (auto simp: tab_ok_def)
        then show ?thesis using \<open>w \<noteq> TP s\<close> t(3) by (auto simp: child_in_def g th)
      qed
      moreover have "child_in s w i c \<Longrightarrow> t_state (thr s' c) = t_state (thr s c)" for i c
        using d(2) p by (auto simp: child_in_def th tab_ok_def)
      moreover have "pend s' w = pend s w" using w no by (auto simp: g)
      ultimately show "joinable s' w"
        using waits_okD(4) [OF d(5) w] unfolding joinable_def ch by (auto split: option.splits pending.splits)
    next
      fix q n assume "q \<in> set (?f (Wait_list (Cond n)))"
      then show "pend s' q = None" using waits_okD(5) [OF d(5), of q n] by (simp add: g)
    qed
    have "sched_ok s' ?f" unfolding sched_ok_def using q' tab lck stk wt d(6) ne by (simp add: th g)
    then show ?thesis using s'(2) t ti g th by (intro disjI2 exI [of _ tid]) simp
  qed
qed

section \<open>Reclaiming\<close>

lemma adopt_fold:
  fixes p :: nat and js :: "nat list"
  assumes "t_parent (thr s p) \<noteq> Some p"
  defines "s' \<equiv> fold (adopt p) js s"
  shows "thrtab s' = thrtab s" "tlists s' = tlists s" "lockst s' = lockst s" "TP s' = TP s" "sc_free s' = sc_free s" "pend s' = pend s"
    "\<exists>q. thr s' c = (thr s c)\<lparr>t_parent := q\<rparr>"
    "t_parent (thr s' c) = (if t_parent (thr s c) = Some p \<and> (\<exists>i\<in>set js. thrtab s i = Some c) then t_parent (thr s p) else t_parent (thr s c))"
proof -
  have a: "thrtab (adopt p i s) = thrtab s" "tlists (adopt p i s) = tlists s" "lockst (adopt p i s) = lockst s" "TP (adopt p i s) = TP s"
    "sc_free (adopt p i s) = sc_free s" "pend (adopt p i s) = pend s" for i s
    by (simp_all add: adopt_def split: option.split)
  have up: "\<exists>q. t = t\<lparr>t_parent := q\<rparr>" for t :: thread by (intro exI [of _ "t_parent t"]) simp
  have b: "\<exists>q. thr (adopt p i s) c = (thr s c)\<lparr>t_parent := q\<rparr>" for i s c
    using up by (auto simp: adopt_def split: option.split)
  have c: "t_parent (thr (adopt p i s) c) = (if t_parent (thr s c) = Some p \<and> thrtab s i = Some c then t_parent (thr s p) else t_parent (thr s c))" for i s c
    by (auto simp: adopt_def split: option.split)
  have "thrtab s' = thrtab s \<and> tlists s' = tlists s \<and> lockst s' = lockst s \<and> TP s' = TP s \<and> sc_free s' = sc_free s \<and> pend s' = pend s \<and>
    (\<exists>q. thr s' c = (thr s c)\<lparr>t_parent := q\<rparr>) \<and>
    t_parent (thr s' c) = (if t_parent (thr s c) = Some p \<and> (\<exists>i\<in>set js. thrtab s i = Some c) then t_parent (thr s p) else t_parent (thr s c))"
    unfolding s'_def using assms(1)
  proof (induction js arbitrary: s)
    case Nil
    then show ?case using up by simp
  next
    case (Cons i js)
    have pp: "t_parent (thr (adopt p i s) p) = t_parent (thr s p)" using Cons.prems by (simp add: c)
    then have "t_parent (thr (adopt p i s) p) \<noteq> Some p" using Cons.prems by simp
    note IH = Cons.IH [OF this, unfolded a pp]
    obtain q where q: "thr (adopt p i s) c = (thr s c)\<lparr>t_parent := q\<rparr>" using b by blast
    obtain q' where "thr (fold (adopt p) js (adopt p i s)) c = (thr (adopt p i s) c)\<lparr>t_parent := q'\<rparr>" using IH by blast
    then have "\<exists>q. thr (fold (adopt p) (i # js) s) c = (thr s c)\<lparr>t_parent := q\<rparr>" unfolding q by auto
    moreover have "t_parent (thr (fold (adopt p) (i # js) s) c) =
       (if t_parent (thr s c) = Some p \<and> (\<exists>k\<in>set (i # js). thrtab s k = Some c) then t_parent (thr s p) else t_parent (thr s c))"
      using IH Cons.prems unfolding c by (cases "t_parent (thr s c) = Some p"; cases "thrtab s i = Some c") simp_all
    ultimately show ?case using IH by (metis fold_simps(2))
  qed
  then show "thrtab s' = thrtab s" "tlists s' = tlists s" "lockst s' = lockst s" "TP s' = TP s" "sc_free s' = sc_free s" "pend s' = pend s"
    "\<exists>q. thr s' c = (thr s c)\<lparr>t_parent := q\<rparr>"
    "t_parent (thr s' c) = (if t_parent (thr s c) = Some p \<and> (\<exists>i\<in>set js. thrtab s i = Some c) then t_parent (thr s p) else t_parent (thr s c))"
    by blast+
qed

lemma reclaim_ok:
  assumes ok: "sched_ok s f" and ch: "thrtab s tid = Some p" "t_parent (thr s p) = Some (TP s)" "t_state (thr s p) = EXITED" and tid: "0 < tid"
  shows "\<exists>s'. thread_reclaim tid s = Some s' \<and> sched_ok s' f \<and> thrtab s' = (thrtab s)(tid := None) \<and> TP s' = TP s \<and>
     \<not> t_live (thr s' p) \<and> lockst s' = lockst s \<and> pend s' = pend s \<and>
     (\<forall>c. c \<noteq> p \<longrightarrow> t_live (thr s' c) = t_live (thr s c) \<and> t_state (thr s' c) = t_state (thr s c) \<and>
        (t_live (thr s c) \<longrightarrow>
           t_parent (thr s' c) = (if t_parent (thr s c) = Some p then Some (TP s) else t_parent (thr s c))))"
proof -
  note d = sched_okD [OF ok]
  note t0 = d(2) [unfolded tab_ok_def]
  have pl: "tid < NTHR" "t_live (thr s p)" "t_id (thr s p) = tid" using t0 ch(1) by blast+
  have ptp: "p \<noteq> TP s" using ch(3) d(6) by auto
  have idle: "p \<noteq> idle_thread" using d(1) ch(3) by (auto simp: queues_ok_def)
  define s1 where "s1 = fold (adopt p) [1..<NTHR] s"
  have "t_parent (thr s p) \<noteq> Some p" using ch(2) ptp by simp
  note a = adopt_fold [OF this, of "[1..<NTHR]", folded s1_def]
  define s' where "s' = upd p (\<lambda>t. t\<lparr>t_live := False\<rparr>) (s1\<lparr>thrtab := (thrtab s1)(tid := None)\<rparr>)"
  have run: "thread_reclaim tid s = Some s'"
    using ch tid pl(1) by (simp add: thread_reclaim_def s'_def s1_def Let_def)
  have th1: "t_live (thr s1 c) = t_live (thr s c)" "t_id (thr s1 c) = t_id (thr s c)" "t_state (thr s1 c) = t_state (thr s c)"
    "lock_list (thr s1 c) = lock_list (thr s c)" "wait_cond (thr s1 c) = wait_cond (thr s c)"
    "stack_lowest (thr s1 c) = stack_lowest (thr s c)" "list_next (thr s1 c) = list_next (thr s c)" for c
    using a(7) [of c] by auto
  have th: "t_live (thr s' c) = (c \<noteq> p \<and> t_live (thr s c))" "t_id (thr s' c) = t_id (thr s c)" "t_state (thr s' c) = t_state (thr s c)"
    "lock_list (thr s' c) = lock_list (thr s c)" "wait_cond (thr s' c) = wait_cond (thr s c)"
    "stack_lowest (thr s' c) = stack_lowest (thr s c)" "list_next (thr s' c) = list_next (thr s c)" for c
    by (simp_all add: s'_def th1)
  have par: "t_parent (thr s' c) = (if t_parent (thr s c) = Some p then Some (TP s) else t_parent (thr s c))" if "t_live (thr s c)" for c
  proof -
    have slot: "thrtab s (t_id (thr s c)) = Some c" "t_id (thr s c) < NTHR" using t0 that by blast+
    have "t_id (thr s c) \<noteq> 0" if "t_parent (thr s c) = Some p"
      using t0 slot(1) that by (metis option.distinct(1))
    then have "(\<exists>i\<in>set [1..<NTHR]. thrtab s i = Some c)" if "t_parent (thr s c) = Some p"
      using slot that by (intro bexI [of _ "t_id (thr s c)"]) auto
    then show ?thesis using a(8) [of c] ch(2) by (auto simp: s'_def)
  qed
  have g: "thrtab s' = (thrtab s)(tid := None)" "lockst s' = lockst s" "TP s' = TP s" "sc_free s' = sc_free s" "pend s' = pend s"
    "tlists s' = tlists s"
    by (simp_all add: s'_def a)
  have no: "p \<notin> set (f q)" for q using not_queued [OF d(8)] ch(3) by simp
  have q': "queues_ok s' f"
  proof -
    have "queues s' f" by (rule queues_cong [OF d(7)]) (simp_all add: th g)
    moreover have "in_queues s' f" using d(8) no unfolding in_queues_def th by metis
    moreover have "queued s' f c" if "t_live (thr s c)" for c
      using d(12) [OF that] g(3) by (cases "t_state (thr s c)") (simp_all add: queued_def th)
    ultimately show ?thesis using d(1) ptp idle by (simp add: queues_ok_def th g)
  qed
  have tab: "tab_ok s'"
  proof -
    have "i < NTHR \<and> t_live (thr s' q) \<and> t_id (thr s' q) = i" if "thrtab s' i = Some q" for i q
    proof -
      have "i \<noteq> tid" "thrtab s i = Some q" using that by (auto simp: g split: if_splits)
      moreover from this have "i < NTHR \<and> t_live (thr s q) \<and> t_id (thr s q) = i" using t0 by blast
      ultimately show ?thesis using pl(3) by (auto simp: th)
    qed
    moreover have "thrtab s' (t_id (thr s' q)) = Some q" if "t_live (thr s' q)" for q
    proof -
      have q: "q \<noteq> p" "t_live (thr s q)" using that by (simp_all add: th)
      then have "thrtab s (t_id (thr s q)) = Some q" using t0 by blast
      moreover from this have "t_id (thr s q) \<noteq> tid" using q(1) ch(1) by auto
      ultimately show ?thesis by (simp add: g th)
    qed
    moreover have "t_live (thr s' q')" if "t_live (thr s' q)" "t_parent (thr s' q) = Some q'" for q q'
    proof -
      have q: "q \<noteq> p" "t_live (thr s q)" using that by (simp_all add: th)
      have "t_live (thr s q'')" if "t_parent (thr s q) = Some q''" for q'' using t0 q(2) that by blast
      then show ?thesis using that(2) par [OF q(2)] ptp d(9) by (auto simp: th split: if_splits)
    qed
    moreover have "t_parent (thr s' c) = None" if "thrtab s' MAIN_TID = Some c" for c
    proof -
      have m: "thrtab s MAIN_TID = Some c" using that by (simp add: g split: if_splits)
      then have "t_live (thr s c)" "t_parent (thr s c) = None" using t0 by blast+
      then show ?thesis using par by simp
    qed
    moreover have "thrtab s' IDLE_TID = Some idle_thread"
    proof -
      have "thrtab s IDLE_TID = Some idle_thread" using t0 by blast
      moreover from this have "tid \<noteq> IDLE_TID" using ch(1) idle by auto
      ultimately show ?thesis by (simp add: g)
    qed
    ultimately show ?thesis unfolding tab_ok_def by blast
  qed
  have empty: "lock_list (thr s p) = []" by (rule locks_okD(4) [OF d(3) pl(2) ch(3)])
  have lck: "locks_ok s'"
  proof (rule locks_okI)
    fix l q show "lk_owner (lockst s' l) = Some q \<longleftrightarrow> t_live (thr s' q) \<and> l \<in> set (lock_list (thr s' q))"
      using locks_okD(1) [OF d(3), of l q] empty by (auto simp: g th)
  next
    fix l show "lk_owner (lockst s' l) = None \<longleftrightarrow> lk_cnt (lockst s' l) = 0" using locks_okD(2) [OF d(3)] by (simp add: g)
  next
    fix q show "t_live (thr s' q) \<Longrightarrow> distinct (lock_list (thr s' q))"
      "t_live (thr s' q) \<Longrightarrow> t_state (thr s' q) = EXITED \<Longrightarrow> lock_list (thr s' q) = []"
      using locks_okD(3,4) [OF d(3), of q] by (auto simp: th)
  qed
  have stk: "stacks_ok s'" using d(4) unfolding stacks_ok_def g th by blast
  have wt: "waits_ok s' f"
  proof (rule waits_okI)
    fix l assume "f (Wait_list (Release l)) \<noteq> []"
    then show "lk_owner (lockst s' l) \<noteq> None" using waits_okD(1) [OF d(5), of l] by (simp add: g)
  next
    fix l q assume "q \<in> set (f (Wait_list (Release l)))"
    then show "pend s' q = Some (Acquiring l)" using waits_okD(2) [OF d(5)] by (simp add: g)
  next
    fix w q assume w: "w \<in> set (f (Wait_list (Child_exit q)))"
    then show "w = q" by (rule waits_okD(3) [OF d(5)])
    have wt: "w \<noteq> TP s" using w d(11) by auto
    have ch': "child_in s' w i c = child_in s w i c" for i c
    proof (cases "thrtab s i = Some c")
      case True
      then have "t_live (thr s c)" using t0 by blast
      from par [OF this] True show ?thesis using wt ch ptp no w by (auto simp: child_in_def g split: if_splits)
    qed (auto simp: child_in_def g split: if_splits)
    moreover have "pend s' w = pend s w" by (simp add: g)
    ultimately show "joinable s' w"
      using waits_okD(4) [OF d(5) w] unfolding joinable_def ch' th by simp
  next
    fix q n assume "q \<in> set (f (Wait_list (Cond n)))"
    then show "pend s' q = None" using waits_okD(5) [OF d(5)] by (simp add: g)
  qed
  have "sched_ok s' f" unfolding sched_ok_def using q' tab lck stk wt d(6) by (simp add: th g)
  then show ?thesis using run g par th by (intro exI [of _ s']) simp
qed

section \<open>Join\<close>

text \<open>What an operation of the running thread keeps.\<close>

definition good :: "sched \<Rightarrow> sched \<Rightarrow> bool" where
  "good s s' \<longleftrightarrow> (\<exists>f'. sched_ok s' f') \<and> calls_ok s' \<and> others s s'"

lemma goodI: "sched_ok s' f' \<Longrightarrow> calls_ok s' \<Longrightarrow> others s s' \<Longrightarrow> good s s'"
  unfolding good_def by blast

lemma reclaim_good:
  assumes ok: "sched_ok s f" "calls_ok s" and ch: "child_in s (TP s) i c" "t_state (thr s c) = EXITED"
  shows "\<exists>s'. thread_reclaim i s = Some s' \<and> good s (returns s') \<and> (pend s (TP s) = None \<longrightarrow> good s s') \<and> \<not> t_live (thr s' c)"
proof -
  note d = sched_okD [OF ok(1)]
  have c: "thrtab s i = Some c" "t_parent (thr s c) = Some (TP s)" using ch(1) by (simp_all add: child_in_def)
  have "i \<noteq> 0"
  proof
    assume "i = 0"
    then have "t_parent (thr s c) = None" using d(2) c(1) unfolding tab_ok_def by blast
    then show False using c(2) by simp
  qed
  then have "0 < i" by simp
  from reclaim_ok [OF ok(1) c ch(2) this] obtain s' where s': "thread_reclaim i s = Some s'" "sched_ok s' f"
    "thrtab s' = (thrtab s)(i := None)" "TP s' = TP s" "\<not> t_live (thr s' c)" "lockst s' = lockst s" "pend s' = pend s"
    and t: "\<And>q. q \<noteq> c \<Longrightarrow> t_live (thr s' q) = t_live (thr s q)"
      "\<And>q. q \<noteq> c \<Longrightarrow> t_live (thr s q) \<Longrightarrow> t_parent (thr s' q) = (if t_parent (thr s q) = Some c then Some (TP s) else t_parent (thr s q))"
    by blast
  have o1: "others s s'" using s'(6) by (simp add: others_def)
  have any: "any_child s' p" if p: "any_child s p" "p \<noteq> TP s" "p \<noteq> c" for p
  proof -
    obtain j q where j: "0 < j" "j < IDLE_TID" "thrtab s j = Some q" "t_parent (thr s q) = Some p"
      using p(1) unfolding any_child_def child_in_def by blast
    have q: "t_live (thr s q)" "q \<noteq> c" using d(2) j(3,4) c(2) p(2) unfolding tab_ok_def by auto
    have "j \<noteq> i" using j(3) c(1) q(2) by auto
    then have "child_in s' p j q"
      using t(2) [OF q(2,1)] j(3,4) p(3) s'(3) by (simp add: child_in_def)
    then show ?thesis using j(1,2) by (auto simp: any_child_def)
  qed
  have a: "any_child s' p" if "t_live (thr s' p)" "pend s p = Some Joining_any" "p \<noteq> TP s" for p
  proof -
    have "p \<noteq> c" using that(1) s'(5) by auto
    then show ?thesis using any that t(1) calls_okD(1) [OF ok(2)] by simp
  qed
  note own = calls_okD(2) [OF ok(2), folded s'(6,7)]
  have r: "any_child (returns s') p = any_child s' p" for p by (simp add: any_child_def child_in_def returns_def)
  have "calls_ok (returns s')"
    by (rule calls_okI) (use a r s'(4,7) own in \<open>auto simp: returns_def split: if_splits\<close>)
  moreover have "calls_ok s'" if "pend s (TP s) = None"
    by (rule calls_okI) (use a s'(7) own that in \<open>metis option.distinct(1)\<close>)+
  moreover have "others s (returns s')" using o1 by (simp add: others_def returns_def)
  ultimately show ?thesis
    using s'(1,5) goodI [OF s'(2) _ o1] goodI [OF returns_ok [OF s'(2)]] by (intro exI [of _ s']) simp
qed

lemma join_block_good:
  assumes ok: "sched_ok s f" "calls_ok s" and tp: "TP s \<noteq> idle_thread"
    and j: "joinable (s\<lparr>pend := (pend s)(TP s := Some call)\<rparr>) (TP s)"
  shows "\<exists>s'. block_in call (Child_exit (TP s)) s = Some s' \<and> good s s'"
proof -
  have "may_wait (s\<lparr>pend := (pend s)(TP s := Some call)\<rparr>) (Child_exit (TP s))" using j by (simp add: may_wait_def)
  from block_in_ok [OF ok(1) tp this] obtain s' f' where s': "block_in call (Child_exit (TP s)) s = Some s'" "sched_ok s' f'"
    "keeps (s\<lparr>pend := (pend s)(TP s := Some call)\<rparr>) s'" by blast
  note k = keeps_pend [OF s'(3)]
  have ch: "any_child s (TP s)" if "call = Joining_any"
    using j that unfolding joinable_def any_child_def child_in_def by simp
  then have "pend s' (TP s) = Some Joining_any \<Longrightarrow> any_child s (TP s)" using k(3) ch by simp
  moreover have "lk_owner (lockst s' l) \<noteq> Some (TP s)" if "pend s' (TP s) = Some (Acquiring l)" for l
    using j k(3) that by (auto simp: joinable_def)
  ultimately have "calls_ok s'" by (rule calls_ok_tree [OF ok(2) k(1,2)])
  then show ?thesis using s' k(2) unfolding good_def by blast
qed

lemma good_returns: "sched_ok s f \<Longrightarrow> calls_ok s \<Longrightarrow> good s (returns s)"
  using returns_ok [of s f] calls_ok_tree [of s "returns s"] unfolding good_def by (auto simp: tree_def returns_def others_def)

lemma join_turn_good:
  assumes ok: "sched_ok s f" "calls_ok s" and tp: "TP s \<noteq> idle_thread"
  shows "\<exists>rc s'. join_turn i s = Some (rc, s') \<and> good s s' \<and> (rc = None \<longrightarrow> is_child s i)"
proof (cases "\<exists>c. child_in s (TP s) i c")
  case False
  then show ?thesis
    using good_returns [OF ok] by (auto simp: join_turn_def child_in_def split: option.split)
next
  case True
  then obtain c where c: "child_in s (TP s) i c" by blast
  then have i: "thrtab s i = Some c" "t_parent (thr s c) = Some (TP s)" by (simp_all add: child_in_def)
  show ?thesis
  proof (cases "t_state (thr s c) = EXITED")
    case True
    from reclaim_good [OF ok c this] show ?thesis using i True by (auto simp: join_turn_def)
  next
    case False
    then have "joinable (s\<lparr>pend := (pend s)(TP s := Some (Joining i))\<rparr>) (TP s)"
      using i by (simp add: joinable_def child_in_def)
    from join_block_good [OF ok tp this] show ?thesis using i False by (auto simp: join_turn_def is_child_def)
  qed
qed

lemma exited_child_iff: "exited_child s i \<longleftrightarrow> (\<exists>c. child_in s (TP s) i c \<and> t_state (thr s c) = EXITED)"
  by (simp add: exited_child_def child_in_def split: option.split)

lemma find_upt: "List.find P [a..<b] = Some i \<Longrightarrow> P i \<and> a \<le> i \<and> i < b"
  by (auto simp: find_Some_iff)

lemma join_any_good:
  assumes ok: "sched_ok s f" "calls_ok s" and tp: "TP s \<noteq> idle_thread" and ch: "any_child s (TP s)"
  shows "\<exists>rc s'. join_any_turn s = Some (rc, s') \<and> good s s'"
proof (cases "List.find (exited_child s) [1..<IDLE_TID]")
  case None
  then have no: "\<not> exited_child s i" if "0 < i" "i < IDLE_TID" for i
    using that by (simp add: find_None_iff)
  have "joinable (s\<lparr>pend := (pend s)(TP s := Some Joining_any)\<rparr>) (TP s)"
    using ch no unfolding exited_child_iff by (auto simp: joinable_def any_child_def child_in_def)
  from join_block_good [OF ok tp this] show ?thesis using None by (auto simp: join_any_turn_def)
next
  case (Some i)
  then have "exited_child s i" by (blast dest: find_upt)
  then obtain c where c: "child_in s (TP s) i c" "t_state (thr s c) = EXITED" unfolding exited_child_iff by blast
  from reclaim_good [OF ok c] show ?thesis using Some by (auto simp: join_any_turn_def)
qed

lemma thread_join_good:
  assumes ok: "sched_ok s f" "calls_ok s" and tp: "TP s \<noteq> idle_thread" "pend s (TP s) = None"
  shows "\<exists>rc s'. thread_join tid s = Some (rc, s') \<and> good s s'"
proof (cases "tid = 0")
  case False
  have g: "good s s" using goodI [OF ok] by (simp add: others_def)
  show ?thesis using False g join_turn_good [OF ok tp(1), of "nat tid"] by (auto simp: thread_join_def)
next
  case True
  show ?thesis
  proof (cases "List.find (exited_child s) [1..<IDLE_TID]")
    case None
    have g: "good s s" using goodI [OF ok] by (simp add: others_def)
    have "any_child s (TP s)" if "list_ex (is_child s) [1..<IDLE_TID]"
    proof -
      from that obtain i where "i \<in> set [1..<IDLE_TID]" "is_child s i" unfolding list_ex_iff by blast
      moreover from this(2) obtain c where "child_in s (TP s) i c"
        unfolding is_child_def child_in_def by (auto split: option.splits)
      ultimately show ?thesis unfolding any_child_def by (intro exI [of _ i] exI [of _ c]) simp
    qed
    then show ?thesis using True None g join_any_good [OF ok tp(1)] by (auto simp: thread_join_def simp del: upt_conv_Cons)
  next
    case (Some i)
    then have "exited_child s i" by (blast dest: find_upt)
    then obtain c where c: "child_in s (TP s) i c" "t_state (thr s c) = EXITED" unfolding exited_child_iff by blast
    from reclaim_good [OF ok c] show ?thesis using Some True tp(2) by (auto simp: thread_join_def)
  qed
qed

section \<open>Reachable states\<close>

lemma spawn_good:
  assumes ok: "sched_ok s f" "calls_ok s" and p: "\<not> t_live (thr s p)" and tp: "pend s (TP s) = None"
    and sp: "spawn_thread p nm entry as s = Some (rc, s')"
  shows "good s s'"
proof (rule disjE [OF spawn_ok [OF ok(1) p sp]])
  assume "rc = - EMTHR \<and> s' = s"
  then show ?thesis using goodI [OF ok] by (simp add: others_def)
next
  assume "\<exists>tid. rc = int tid \<and> 0 < tid \<and> tid < IDLE_TID \<and> thrtab s tid = None \<and> thrtab s' = (thrtab s)(tid := Some p) \<and>
       sched_ok s' (f(Ready_list := f Ready_list @ [p])) \<and> t_parent (thr s' p) = Some (TP s) \<and> TP s' = TP s \<and>
       lockst s' = lockst s \<and> pend s' = (pend s)(p := None) \<and> (\<forall>q. q \<noteq> p \<longrightarrow> t_live (thr s' q) = t_live (thr s q) \<and> t_parent (thr s' q) = t_parent (thr s q))"
  then obtain tid where t: "thrtab s tid = None" "thrtab s' = (thrtab s)(tid := Some p)" "lockst s' = lockst s" "pend s' = (pend s)(p := None)"
    and ok': "sched_ok s' (f(Ready_list := f Ready_list @ [p]))"
    and q: "\<And>q. q \<noteq> p \<Longrightarrow> t_live (thr s' q) = t_live (thr s q) \<and> t_parent (thr s' q) = t_parent (thr s q)" by blast
  have d: "tab_ok s" by (rule sched_okD(2) [OF ok(1)])
  have live: "t_live (thr s c)" if "thrtab s j = Some c" for j c using d that unfolding tab_ok_def by blast
  have ch: "child_in s' w j c" if "child_in s w j c" for w j c
    using that q [of c] live [of j c] p t(1) by (auto simp: child_in_def t(2))
  then have any: "any_child s' w" if "any_child s w" for w using that unfolding any_child_def by blast
  have "calls_ok s'"
  proof (rule calls_okI)
    fix w assume w: "t_live (thr s' w)" "pend s' w = Some Joining_any"
    have "w \<noteq> p" using w(2) t(4) by auto
    then show "any_child s' w" using w q [of w] calls_okD(1) [OF ok(2)] any t(4) by simp
  next
    fix w l show "pend s' w = Some (Acquiring l) \<Longrightarrow> lk_owner (lockst s' l) \<noteq> Some w"
      using calls_okD(2) [OF ok(2), of w l] t(3,4) by (simp split: if_splits)
  qed
  then show ?thesis using goodI [OF ok'] t(3) by (simp add: others_def)
qed

lemma keeps_good:
  assumes "keeps s s'" and "calls_ok s" and "t_live (thr s (TP s))" and "sched_ok s' f'"
  shows "good s s'"
proof -
  have "pend s' = pend s" "lockst s' = lockst s" using assms(1) by (simp_all add: keeps_def)
  then have "calls_ok s'"
    by (intro calls_ok_tree [OF assms(2) keeps_tree [OF assms(1)]]) (use assms(2,3) in \<open>simp_all add: calls_ok_def\<close>)
  then show ?thesis by (rule goodI [OF assms(4) _ keeps_tree(2) [OF assms(1)]])
qed

lemma acquire_good:
  assumes "sched_ok s f" and "calls_ok s" and "TP s \<noteq> idle_thread" and run: "lock_acquire l s = Some (b, s')"
  shows "good s s'"
proof -
  from lock_acquire_ok [OF assms(1,3), of l] run obtain f' where f': "sched_ok s' f'" "tree s s'" "others s s'"
    "pend s' (TP s) = None \<or> pend s' (TP s) = Some (Acquiring l) \<and> lk_owner (lockst s' l) \<noteq> Some (TP s)" by auto
  have "calls_ok s'" by (rule calls_ok_tree [OF assms(2) f'(2,3)]) (use f'(4) in auto)
  then show ?thesis by (rule goodI [OF f'(1) _ f'(3)])
qed

lemma release_good:
  assumes "sched_ok s f" and "calls_ok s" and tp: "pend s (TP s) = None" and run: "lock_release l s = Some s'"
  shows "good s s'"
proof -
  have own: "lk_owner (lockst s l) = Some (TP s)" using run by (simp add: lock_release_def Let_def split: if_splits)
  from lock_release_ok [OF assms(1) this] run obtain f' where f': "sched_ok s' f'" "tree s s'" "pend s' = pend s"
    and o': "\<And>l'. lk_owner (lockst s' l') = (if l' = l \<and> lk_cnt (lockst s l) = 1 then None else lk_owner (lockst s l'))"
    by auto
  have o1: "others s s'" using o' own by (auto simp: others_def)
  have "calls_ok s'" by (rule calls_ok_tree [OF assms(2) f'(2) o1]) (use f'(3) tp in auto)
  then show ?thesis by (rule goodI [OF f'(1) _ o1])
qed

lemma exit_good:
  assumes "sched_ok s f" and "calls_ok s" and "TP s \<noteq> idle_thread" and tp: "pend s (TP s) = None" and run: "running_thread_exit s = Some (Goes s')"
  shows "good s s'"
proof -
  from exit_ok [OF assms(1,3)] run obtain f' where f': "sched_ok s' f'" "others s s'" "tree s s'" "pend s' = pend s" by auto
  have "calls_ok s'" by (rule calls_ok_tree [OF assms(2) f'(3,2)]) (use f'(4) tp in auto)
  then show ?thesis by (rule goodI [OF f'(1) _ f'(2)])
qed

lemma set_process_good:
  assumes "sched_ok s f" and "calls_ok s" and run: "thread_set_process tid pr s = Some s'" and tp: "pend s (TP s) = None"
  shows "good s s'"
proof -
  note d = sched_okD [OF assms(1)]
  obtain p where s': "s' = upd p (\<lambda>t. t\<lparr>t_proc := pr\<rparr>) s" using run by (auto simp: thread_set_process_def split: if_splits)
  have "queues_ok s' f" by (rule queues_ok_cong [OF d(1)]) (simp_all add: s')
  moreover have "waits_ok s' f" by (rule waits_ok_cong [OF d(5)]) (simp_all add: s')
  moreover have "tab_ok s'" "locks_ok s'" "stacks_ok s'"
    using d(2-4) tab_ok_cong [of s' s] locks_ok_cong [of s' s] stacks_ok_cong [of s' s] by (simp_all add: s')
  ultimately have "sched_ok s' f" using d(6) by (auto simp add: sched_ok_def s')
  moreover have "calls_ok s'" by (rule calls_ok_tree [OF assms(2)]) (use tp in \<open>auto simp: tree_def others_def s'\<close>)
  ultimately show ?thesis by (rule goodI) (simp add: others_def s')
qed

lemma memory_good:
  assumes "sched_ok s f" and "calls_ok s" and tp: "pend s (TP s) = None"
    and e: "thr s' = thr s" "thrtab s' = thrtab s" "tlists s' = tlists s" "lockst s' = lockst s" "TP s' = TP s" "pend s' = pend s"
    and m: "stacks_ok s'"
  shows "good s s'"
proof -
  note d = sched_okD [OF assms(1)]
  have "queues_ok s' f" by (rule queues_ok_cong [OF d(1)]) (simp_all add: e)
  moreover have "waits_ok s' f" by (rule waits_ok_cong [OF d(5)]) (simp_all add: e)
  moreover have "tab_ok s'" "locks_ok s'" using d(2-4) tab_ok_cong [of s' s] locks_ok_cong [of s' s] by (simp_all add: e)
  ultimately have "sched_ok s' f" using d(6) m by (simp add: sched_ok_def e)
  moreover have "calls_ok s'" by (rule calls_ok_tree [OF assms(2)]) (use tp in \<open>auto simp: tree_def others_def e\<close>)
  ultimately show ?thesis by (rule goodI) (simp add: others_def e)
qed

lemma step_good:
  assumes "step s s'" and "sched_ok s f" and "calls_ok s"
  shows "good s s'"
  using assms(1)
proof cases
  case yield
  then show ?thesis using yield_ok [OF assms(2)] keeps_good [OF _ assms(3) sched_okD(9) [OF assms(2)]] by fastforce
next
  case (spawn p nm entry as rc)
  then show ?thesis using spawn_good [OF assms(2,3)] by blast
next
  case exit
  then show ?thesis using exit_good [OF assms(2,3)] by blast
next
  case (join tid rc)
  then show ?thesis using thread_join_good [OF assms(2,3), of tid] by auto
next
  case (join_again i rc)
  then show ?thesis using join_turn_good [OF assms(2,3), of i] by auto
next
  case (join_any_again rc)
  then have "any_child s (TP s)" using calls_okD(1) [OF assms(3)] sched_okD(9) [OF assms(2)] by simp
  then show ?thesis using join_any_again join_any_good [OF assms(2,3)] by auto
next
  case (acquire l b)
  then show ?thesis using acquire_good [OF assms(2,3)] by blast
next
  case (acquire_again l b)
  then show ?thesis using acquire_good [OF assms(2,3)] by blast
next
  case (release l)
  then show ?thesis using release_good [OF assms(2,3)] by blast
next
  case (wait n)
  then have "may_wait s (Cond n)" by (simp add: may_wait_def)
  from condition_wait_ok [OF assms(2) wait(2) this] wait keeps_good [OF _ assms(3) sched_okD(9) [OF assms(2)]] show ?thesis by fastforce
next
  case (wake n)
  from broadcast_sched_ok [OF assms(2), of "Cond n"] wake obtain f' where f': "sched_ok s' f'" "keeps s s'" by auto
  show ?thesis by (rule keeps_good [OF f'(2) assms(3) sched_okD(9) [OF assms(2)] f'(1)])
next
  case (set_process tid pr)
  then show ?thesis using set_process_good [OF assms(2,3)] by blast
next
  case (memory cs)
  have "stacks_ok (s\<lparr>sc_free := cs\<rparr>)"
    using sched_okD(4) [OF assms(2)] memory(3,4) unfolding stacks_ok_def by auto
  then show ?thesis using memory(1,2) by (intro memory_good [OF assms(2,3)]) simp_all
next
  case (new_space m satp)
  have "stacks_ok s'" using sched_okD(4) [OF assms(2)] new_space(1) by (simp add: stacks_ok_def)
  then show ?thesis using new_space by (intro memory_good [OF assms(2,3)]) simp_all
qed

lemma start_ok:
  assumes "chunks_wf cs"
  shows "sched_ok (thrmgr_init cs satp) ((\<lambda>_. [])(Ready_list := [idle_thread]))" "calls_ok (thrmgr_init cs satp)"
proof -
  let ?s = "thrmgr_init cs satp" and ?f = "(\<lambda>_. [])(Ready_list := [idle_thread])"
  have t: "thr ?s p = (if p = 1 then zero_thread\<lparr>t_id := 31, t_name := ''idle'', t_state := READY, t_parent := Some 0,
        t_startup := Some \<lparr>pc = 0, args = []\<rparr>\<rparr> else if p = 0 then zero_thread\<lparr>t_id := 0, t_name := ''main'', t_state := SELF\<rparr>
        else no_thread)" for p
    by (simp add: thrmgr_init_def)
  have g: "TP ?s = 0" "thrtab ?s = (\<lambda>_. None)(0 := Some 0, 31 := Some 1)" "pend ?s = (\<lambda>_. None)"
    "lockst ?s = (\<lambda>_. \<lparr>lk_owner = None, lk_cnt = 0\<rparr>)" "sc_free ?s = cs"
    "tlists ?s = (\<lambda>_. \<lparr>tl_head = None, tl_tail = None\<rparr>)(Ready_list := \<lparr>tl_head = Some 1, tl_tail = Some 1\<rparr>)"
    by (simp_all add: thrmgr_init_def)
  have "queues ?s ?f"
    by (auto simp: queues_def is_list_def g t zero_thread_def)
  moreover have "in_queues ?s ?f" by (simp add: in_queues_def t zero_thread_def)
  ultimately have "queues_ok ?s ?f"
    by (auto simp: queues_ok_def queued_def g t zero_thread_def no_thread_def)
  moreover have "tab_ok ?s" unfolding tab_ok_def g t by (auto simp: zero_thread_def no_thread_def split: if_splits)
  moreover have "locks_ok ?s" unfolding locks_ok_def g t by (simp add: zero_thread_def no_thread_def)
  moreover have "stacks_ok ?s" using assms unfolding stacks_ok_def g t by (auto simp: zero_thread_def no_thread_def)
  moreover have "waits_ok ?s ?f" by (simp add: waits_ok_def)
  moreover have "t_state (thr ?s (TP ?s)) = SELF" by (simp add: g t)
  ultimately show "sched_ok ?s ?f" by (simp add: sched_ok_def)
  show "calls_ok ?s" by (simp add: calls_ok_def g)
qed

lemma reachable_ok: "reachable s \<Longrightarrow> (\<exists>f. sched_ok s f) \<and> calls_ok s"
proof (induction rule: reachable.induct)
  case (start cs satp)
  then show ?case using start_ok by blast
next
  case (step s s')
  then show ?case using step_good unfolding good_def by blast
qed

section \<open>Turns\<close>

fun yields :: "nat \<Rightarrow> sched \<Rightarrow> sched option" where
  "yields 0 s = Some s"
| "yields (Suc n) s = (case running_thread_yield s of None \<Rightarrow> None | Some s' \<Rightarrow> yields n s')"

lemma yields_rotate:
  assumes "sched_ok s f"
  shows "\<exists>s' f'. yields n s = Some s' \<and> sched_ok s' f' \<and> TP s' # f' Ready_list = rotate n (TP s # f Ready_list)"
  using assms
proof (induction n arbitrary: s f)
  case 0
  then show ?case by auto
next
  case (Suc n)
  obtain s1 f1 where s1: "running_thread_yield s = Some s1" "sched_ok s1 f1" "f Ready_list @ [TP s] = TP s1 # f1 Ready_list"
    using yield_ok [OF Suc.prems] by blast
  obtain s' f' where s': "yields n s1 = Some s'" "sched_ok s' f'" "TP s' # f' Ready_list = rotate n (TP s1 # f1 Ready_list)"
    using Suc.IH [OF s1(2)] by blast
  have "rotate (Suc n) (TP s # f Ready_list) = rotate n (TP s1 # f1 Ready_list)"
    by (simp add: rotate1_rotate_swap flip: s1(3))
  then show ?case using s1(1) s' by auto
qed

end
