(* ===== verification/ThreadDemo.thy ===== *)
theory ThreadDemo
  imports ThreadReach
begin

text \<open>
  Short runs of the thread manager, the concrete input of the witnesses: main starts a child,
  and takes a lock, waits for the child, or lets the child run and exit.
\<close>

definition demo_boot :: sched where
  "demo_boot = thrmgr_init [\<lparr>base = 100, pagecnt = 8\<rparr>] 0"

text \<open>The threads when the child has been started, when it runs, and after its exit; the stack
  page of the child is free then, since main was switched away from before.\<close>

definition demo_main :: thread where
  "demo_main = zero_thread\<lparr>t_name := ''main'', t_state := SELF\<rparr>"

definition demo_idle :: thread where
  "demo_idle = zero_thread\<lparr>t_id := IDLE_TID, t_name := ''idle'', t_state := READY, t_parent := Some 0\<rparr>"

definition demo_kid :: thread where
  "demo_kid = zero_thread\<lparr>t_id := 1, t_name := ''child'', t_state := READY, t_parent := Some 0, stack_lowest := Some 107\<rparr>"

definition demo_list :: "nat \<Rightarrow> nat \<Rightarrow> tlist_id \<Rightarrow> thread_list" where
  "demo_list h t = (\<lambda>_. \<lparr>tl_head = None, tl_tail = None\<rparr>)(Ready_list := \<lparr>tl_head = Some h, tl_tail = Some t\<rparr>)"

definition demo_spawned :: sched where
  "demo_spawned = demo_boot\<lparr>thr := (\<lambda>_. no_thread)(0 := demo_main,
       1 := demo_idle\<lparr>list_next := Some 2, t_startup := Some \<lparr>pc = 0, args = []\<rparr>\<rparr>,
       2 := demo_kid\<lparr>t_startup := Some \<lparr>pc = 4096, args = []\<rparr>\<rparr>),
     thrtab := (\<lambda>_. None)(0 := Some 0, 1 := Some 2, 31 := Some 1),
     tlists := demo_list 1 2, sc_free := [\<lparr>base = 100, pagecnt = 7\<rparr>]\<rparr>"

definition demo_turn :: sched where
  "demo_turn = demo_spawned\<lparr>thr := (\<lambda>_. no_thread)(0 := demo_main\<lparr>t_state := READY\<rparr>, 1 := demo_idle\<lparr>t_state := SELF\<rparr>,
       2 := demo_kid\<lparr>list_next := Some 0, t_startup := Some \<lparr>pc = 4096, args = []\<rparr>\<rparr>),
     tlists := demo_list 2 0, TP := 1\<rparr>"

definition demo_child :: sched where
  "demo_child = demo_spawned\<lparr>thr := (\<lambda>_. no_thread)(0 := demo_main\<lparr>t_state := READY, list_next := Some 1\<rparr>, 1 := demo_idle,
       2 := demo_kid\<lparr>t_state := SELF\<rparr>),
     tlists := demo_list 0 1, TP := 2\<rparr>"

definition demo_exited :: sched where
  "demo_exited = demo_spawned\<lparr>thr := (\<lambda>_. no_thread)(0 := demo_main, 1 := demo_idle,
       2 := demo_kid\<lparr>t_state := EXITED, stack_lowest := None\<rparr>),
     tlists := demo_list 1 1, sc_free := [\<lparr>base = 100, pagecnt = 8\<rparr>]\<rparr>"

definition demo_locked :: sched where
  "demo_locked = snd (the (lock_acquire 0 demo_spawned))"

definition demo_joining :: sched where
  "demo_joining = snd (the (thread_join 1 demo_spawned))"

lemmas demo_state_defs = demo_boot_def demo_spawned_def demo_turn_def demo_child_def demo_exited_def demo_main_def demo_idle_def
  demo_kid_def demo_list_def thrmgr_init_def zero_thread_def no_thread_def

lemmas switch_defs = running_thread_yield_def running_thread_suspend_def push_self_def switch_to_def after_swtch_def
  set_state_def upd_def tlinsert_def tlremove_def set_next_def set_list_def Let_def

lemma demo_boot_state:
  "TP demo_boot = 0" "pend demo_boot 0 = None" "\<not> t_live (thr demo_boot 2)"
  by (simp_all add: demo_boot_def thrmgr_init_def no_thread_def)

lemma demo_slot: "List.find (\<lambda>i. thrtab demo_boot i = None) [1..<NTHR] = Some 1"
  by code_simp

lemma demo_spawn_runs: "spawn_thread 2 ''child'' 4096 [] demo_boot = Some (1, demo_spawned)"
  unfolding spawn_thread_def create_thread_def demo_slot
  by (simp add: demo_state_defs switch_defs alloc_phys_page_def alloc_phys_pages_def fun_upd_twist)

lemma demo_turn_runs: "running_thread_yield demo_spawned = Some demo_turn"
  by (simp add: demo_state_defs switch_defs fun_upd_twist)

lemma demo_child_runs: "running_thread_yield demo_turn = Some demo_child"
  by (simp add: demo_state_defs switch_defs fun_upd_twist)

lemma demo_exit_runs: "running_thread_exit demo_child = Some (Goes demo_exited)"
  by (simp add: demo_state_defs switch_defs running_thread_exit_def release_all_thread_locks_def condition_broadcast_def
      chain.simps tlappend_def free_phys_page_def free_phys_pages_def fun_upd_twist)
    (simp add: fun_eq_iff)

lemma demo_joining_state:
  "thread_join 1 demo_spawned = Some (None, demo_joining)"
  "t_live (thr demo_joining 0)" "t_state (thr demo_joining 0) = WAITING" "wait_cond (thr demo_joining 0) = Some (Child_exit 0)"
  by (simp_all add: demo_joining_def demo_state_defs switch_defs thread_join_def join_turn_def is_child_def block_in_def condition_wait_def)

lemma demo_locked_state:
  "lock_acquire 0 demo_spawned = Some (True, demo_locked)"
  "lk_owner (lockst demo_locked 0) = Some 0" "TP demo_locked = 0" "pend demo_locked 0 = None"
  by (simp_all add: demo_locked_def demo_state_defs lock_acquire_def returns_def upd_def)

lemma demo_spawned_state:
  "TP demo_spawned = 0" "pend demo_spawned = (\<lambda>_. None)" "chain demo_spawned (tl_head (tlists demo_spawned Ready_list)) = Some [1, 2]"
  by (simp_all add: demo_state_defs chain.simps)

lemma demo_reachable: "reachable demo_spawned" "reachable demo_joining" "reachable demo_locked" "reachable demo_exited"
proof -
  have "reachable demo_boot" unfolding demo_boot_def by (rule reachable.start) (simp add: chunk_pages_def)
  from reachable.step [OF this step.spawn [OF _ _ _ demo_spawn_runs]] show s: "reachable demo_spawned"
    by (simp add: demo_boot_state)
  from reachable.step [OF s step.join [OF _ _ demo_joining_state(1)]] show "reachable demo_joining"
    by (simp add: demo_spawned_state)
  from reachable.step [OF s step.acquire [OF _ _ demo_locked_state(1)]] show "reachable demo_locked"
    by (simp add: demo_spawned_state)
  from reachable.step [OF s step.yield [OF _ demo_turn_runs]] have "reachable demo_turn"
    by (simp add: demo_spawned_state)
  from reachable.step [OF this step.yield [OF _ demo_child_runs]] have "reachable demo_child"
    by (simp add: demo_turn_def demo_spawned_state)
  from reachable.step [OF this step.exit [OF _ _ demo_exit_runs]] show "reachable demo_exited"
    by (simp add: demo_child_def demo_spawned_state)
qed

end
