(* ===== verification/ThreadProps.thy ===== *)
theory ThreadProps
  imports ThreadDemo
begin

text \<open>
  What the thread manager promises in every state that the system can reach: its data
  structures agree, no wake-up is lost, locks exclude, and the processor goes round.
\<close>

section \<open>Agreement of the data structures\<close>

definition threads_agree :: "sched \<Rightarrow> (tlist_id \<Rightarrow> nat list) \<Rightarrow> bool" where
  "threads_agree s f \<longleftrightarrow>
     t_live (thr s (TP s)) \<and>
     (\<forall>p. t_live (thr s p) \<longrightarrow> t_state (thr s p) \<noteq> UNINITIALIZED \<and> (t_state (thr s p) = SELF \<longleftrightarrow> p = TP s)) \<and>
     (\<forall>q. chain s (tl_head (tlists s q)) = Some (f q) \<and> distinct (f q)) \<and>
     (\<forall>p. p \<in> set (f Ready_list) \<longleftrightarrow> t_live (thr s p) \<and> t_state (thr s p) = READY) \<and>
     (\<forall>p c. p \<in> set (f (Wait_list c)) \<longleftrightarrow> t_live (thr s p) \<and> t_state (thr s p) = WAITING \<and> wait_cond (thr s p) = Some c)"

definition table_agrees :: "sched \<Rightarrow> bool" where
  "table_agrees s \<longleftrightarrow>
     (\<forall>i p. thrtab s i = Some p \<longleftrightarrow> t_live (thr s p) \<and> t_id (thr s p) = i) \<and>
     (\<forall>p. t_live (thr s p) \<longrightarrow> t_id (thr s p) < NTHR) \<and>
     (\<forall>p q. t_live (thr s p) \<longrightarrow> t_parent (thr s p) = Some q \<longrightarrow> t_live (thr s q))"

definition stacks_apart :: "sched \<Rightarrow> bool" where
  "stacks_apart s \<longleftrightarrow>
     (\<forall>p x. t_live (thr s p) \<longrightarrow> stack_lowest (thr s p) = Some x \<longrightarrow> x \<notin> free_pages (sc_free s)) \<and>
     (\<forall>p q x. t_live (thr s p) \<longrightarrow> t_live (thr s q) \<longrightarrow> stack_lowest (thr s p) = Some x \<longrightarrow>
        stack_lowest (thr s q) = Some x \<longrightarrow> p = q)"

lemma agree_if_ok:
  assumes "sched_ok s f"
  shows "threads_agree s f"
proof -
  note d = sched_okD [OF assms]
  have q: "queued s f p" "p \<noteq> TP s \<Longrightarrow> t_state (thr s p) \<noteq> SELF" "t_state (thr s p) \<noteq> UNINITIALIZED" if "t_live (thr s p)" for p
    using d(12) [OF that] by (auto simp: queued_def)
  have ready: "p \<in> set (f Ready_list) \<longleftrightarrow> t_live (thr s p) \<and> t_state (thr s p) = READY" for p
    using in_queuesD(1) [OF d(8), of p] q(1) [of p] by (auto simp: queued_def)
  have waiting: "p \<in> set (f (Wait_list c)) \<longleftrightarrow> t_live (thr s p) \<and> t_state (thr s p) = WAITING \<and> wait_cond (thr s p) = Some c" for p c
  proof
    assume a: "t_live (thr s p) \<and> t_state (thr s p) = WAITING \<and> wait_cond (thr s p) = Some c"
    then obtain c' where "p \<in> set (f (Wait_list c'))" using q(1) [of p] by (auto simp: queued_def)
    then show "p \<in> set (f (Wait_list c))" using in_queuesD(2) [OF d(8), of p c'] a by auto
  qed (use in_queuesD(2) [OF d(8), of p c] in simp)
  have "chain s (tl_head (tlists s qq)) = Some (f qq) \<and> distinct (f qq)" for qq
    using chain_queue [OF d(7)] d(7) by (auto simp: queues_def is_list_def)
  then show ?thesis unfolding threads_agree_def using d(6,9) ready waiting q by metis
qed

text \<open>C24: In every reachable state the data structures of the thread manager agree: exactly one
  thread is in state \<open>SELF\<close>, the one that runs; the ready list and the wait lists hold, without
  repetition, exactly the threads whose state (and condition) says so; the thread table holds
  exactly the structures in use, each at its number; parents are in use; and no stack page of
  a thread is a free page or the stack of another thread.\<close>

theorem reachable_agrees:
  assumes "reachable s"
  shows "(\<exists>f. threads_agree s f) \<and> table_agrees s \<and> stacks_apart s"
proof -
  obtain f where f: "sched_ok s f" using reachable_ok [OF assms] by blast
  note d = sched_okD [OF f]
  have "table_agrees s" using d(2) unfolding table_agrees_def tab_ok_def by blast
  moreover have "stacks_apart s" using d(4) unfolding stacks_apart_def stacks_ok_def by blast
  ultimately show ?thesis using agree_if_ok [OF f] by blast
qed

lemma reachable_agrees_witness: "(\<exists>f. threads_agree demo_spawned f) \<and> table_agrees demo_spawned \<and> stacks_apart demo_spawned"
  by (rule reachable_agrees [OF demo_reachable(1)])

section \<open>Wake-ups\<close>

text \<open>C25: No wake-up is lost: in a reachable state, a thread that waits for the release of a lock
  waits for a lock that another live thread, one that has not exited, holds; a thread that
  waits for the exit of a child waits for its own children, and the child that it joins (or,
  when it joins any, each of its children, of which there is one) has not exited yet.\<close>

theorem reachable_wakeups:
  assumes "reachable s" and p: "t_live (thr s p)" "t_state (thr s p) = WAITING" "wait_cond (thr s p) = Some c"
  shows "case c of
      Release l \<Rightarrow> pend s p = Some (Acquiring l) \<and> (\<exists>q. q \<noteq> p \<and> lk_owner (lockst s l) = Some q \<and> t_live (thr s q) \<and>
        t_state (thr s q) \<noteq> EXITED \<and> l \<in> set (lock_list (thr s q)))
    | Child_exit q \<Rightarrow> q = p \<and> joinable s p
    | Cond n \<Rightarrow> pend s p = None"
proof -
  obtain f where f: "sched_ok s f" and c: "calls_ok s" using reachable_ok [OF assms(1)] by blast
  have w: "p \<in> set (f (Wait_list c))" using agree_if_ok [OF f] p unfolding threads_agree_def by blast
  note d = waits_okD [OF sched_okD(5) [OF f]] and lo = locks_okD [OF sched_okD(3) [OF f]]
  show ?thesis
  proof (cases c)
    case (Release l)
    with w have a: "pend s p = Some (Acquiring l)" and ne: "f (Wait_list (Release l)) \<noteq> []" using d(2) by auto
    obtain q where q: "lk_owner (lockst s l) = Some q" using d(1) [OF ne] by blast
    then have "t_live (thr s q)" "l \<in> set (lock_list (thr s q))" using lo(1) [of l q] by simp_all
    moreover from this have "t_state (thr s q) \<noteq> EXITED" using lo(4) [of q] by auto
    moreover have "q \<noteq> p" using calls_okD(2) [OF c a] q by auto
    ultimately show ?thesis using Release a q by auto
  next
    case (Child_exit q)
    with w d(3) [of p q] d(4) [of p q] show ?thesis by simp
  next
    case (Cond n)
    with w d(5) [of p n] show ?thesis by simp
  qed
qed

lemma reachable_wakeups_witness: "joinable demo_joining 0"
  using reachable_wakeups [OF demo_reachable(2) demo_joining_state(2,3,4)] by simp

section \<open>Locks\<close>

text \<open>C26: Locks exclude: in a reachable state a lock is in the list of at most one live thread,
  its owner, and an exited thread holds none; and in a step of the system only the running
  thread gets or gives up locks, so a lock that another thread holds stays held by it.\<close>

theorem locks_exclude:
  assumes "reachable s" and "step s s'"
  shows "(\<forall>l p q. t_live (thr s p) \<longrightarrow> t_live (thr s q) \<longrightarrow> l \<in> set (lock_list (thr s p)) \<longrightarrow> l \<in> set (lock_list (thr s q)) \<longrightarrow>
       p = q \<and> lk_owner (lockst s l) = Some p \<and> 0 < lk_cnt (lockst s l) \<and> t_state (thr s p) \<noteq> EXITED) \<and>
     (\<forall>l r. r \<noteq> TP s \<longrightarrow> (lk_owner (lockst s' l) = Some r \<longleftrightarrow> lk_owner (lockst s l) = Some r))"
proof (intro conjI [rotated] allI impI)
  obtain f where f: "sched_ok s f" and c: "calls_ok s" using reachable_ok [OF assms(1)] by blast
  note lo = locks_okD [OF sched_okD(3) [OF f]]
  show "lk_owner (lockst s' l) = Some r \<longleftrightarrow> lk_owner (lockst s l) = Some r" if "r \<noteq> TP s" for l r
    using step_good [OF assms(2) f c] that by (simp add: good_def others_def)
  fix l p q assume a: "t_live (thr s p)" "t_live (thr s q)" "l \<in> set (lock_list (thr s p))" "l \<in> set (lock_list (thr s q))"
  then show "p = q" "lk_owner (lockst s l) = Some p" "0 < lk_cnt (lockst s l)" "t_state (thr s p) \<noteq> EXITED"
    using lo(1) [of l p] lo(1) [of l q] lo(2) [of l] lo(4) [of p] by auto
qed

lemma locks_exclude_witness:
  "\<exists>s'. running_thread_yield demo_locked = Some s' \<and> lk_owner (lockst s' 0) \<noteq> Some 2"
proof -
  obtain f where f: "sched_ok demo_locked f" using reachable_ok [OF demo_reachable(3)] by blast
  obtain s' where s': "running_thread_yield demo_locked = Some s'" using yield_ok [OF f] by blast
  then have "step demo_locked s'" using demo_locked_state(3,4) by (intro step.yield) simp_all
  from locks_exclude [OF demo_reachable(3) this] s' demo_locked_state(2,3) show ?thesis by auto
qed

section \<open>Fairness\<close>

text \<open>C27: The switch is round robin: in a reachable state with the ready list \<open>rs\<close>, a yield never
  fails, the \<open>n\<close>-th of a sequence of yields brings the \<open>n\<close>-th thread of \<open>rs\<close> to run, and after
  one more than its length the thread that began runs again with the same ready list.  So no
  ready thread waits longer than one round.\<close>

theorem yields_fair:
  assumes "reachable s" and rs: "chain s (tl_head (tlists s Ready_list)) = Some rs"
  shows "\<exists>s'. yields n s = Some s' \<and> TP s' = (TP s # rs) ! (n mod Suc (length rs)) \<and>
     chain s' (tl_head (tlists s' Ready_list)) = Some (tl (rotate n (TP s # rs)))"
proof -
  obtain f where f: "sched_ok s f" using reachable_ok [OF assms(1)] by blast
  have r: "f Ready_list = rs" using agree_if_ok [OF f] rs unfolding threads_agree_def by auto
  obtain s' f' where s': "yields n s = Some s'" "sched_ok s' f'" "TP s' # f' Ready_list = rotate n (TP s # rs)"
    using yields_rotate [OF f, of n] unfolding r by blast
  have "TP s' = hd (rotate n (TP s # rs))" "f' Ready_list = tl (rotate n (TP s # rs))"
    using s'(3) by (metis list.sel(1), metis list.sel(3))
  moreover have "chain s' (tl_head (tlists s' Ready_list)) = Some (f' Ready_list)"
    using agree_if_ok [OF s'(2)] unfolding threads_agree_def by blast
  ultimately show ?thesis using s'(1) hd_rotate_conv_nth [of "TP s # rs" n] by simp
qed

lemma yields_fair_witness: "\<exists>s'. yields 2 demo_spawned = Some s' \<and> TP s' = 2"
  using yields_fair [OF demo_reachable(1) demo_spawned_state(3), of 2] demo_spawned_state(1) by (auto simp: numeral_2_eq_2)

section \<open>Joining\<close>

text \<open>In a reachable state, joining a thread that is not a child of the caller gives
  \<open>-EINVAL\<close> and changes nothing; joining a child that has exited returns its number at once,
  frees its slot of the thread table and its structure, makes its children children of the
  caller, and leaves every other thread in use and in its state.\<close>

theorem thread_join_outcome:
  assumes "reachable s" and tp: "TP s \<noteq> idle_thread" "pend s (TP s) = None" and tid: "0 < tid" "tid < IDLE_TID"
  shows "(\<not> is_child s tid \<longrightarrow> thread_join (int tid) s = Some (Some (- EINVAL), s)) \<and>
     (\<forall>c. child_in s (TP s) tid c \<and> t_state (thr s c) = EXITED \<longrightarrow>
        (\<exists>s'. thread_join (int tid) s = Some (Some (int tid), s') \<and> thrtab s' = (thrtab s)(tid := None) \<and>
           \<not> t_live (thr s' c) \<and> TP s' = TP s \<and>
           (\<forall>q. q \<noteq> c \<longrightarrow> t_live (thr s' q) = t_live (thr s q) \<and> t_state (thr s' q) = t_state (thr s q) \<and>
              (t_live (thr s q) \<longrightarrow>
                 t_parent (thr s' q) = (if t_parent (thr s q) = Some c then Some (TP s) else t_parent (thr s q))))))"
proof (intro conjI allI impI)
  show "thread_join (int tid) s = Some (Some (- EINVAL), s)" if "\<not> is_child s tid" using tid that by (simp add: thread_join_def)
  obtain f where f: "sched_ok s f" using reachable_ok [OF assms(1)] by blast
  fix c assume c: "child_in s (TP s) tid c \<and> t_state (thr s c) = EXITED"
  then have i: "thrtab s tid = Some c" "t_parent (thr s c) = Some (TP s)" "t_state (thr s c) = EXITED" by (simp_all add: child_in_def)
  obtain s' where s': "thread_reclaim tid s = Some s'" "thrtab s' = (thrtab s)(tid := None)" "TP s' = TP s" "\<not> t_live (thr s' c)"
     "\<forall>q. q \<noteq> c \<longrightarrow> t_live (thr s' q) = t_live (thr s q) \<and> t_state (thr s' q) = t_state (thr s q) \<and>
        (t_live (thr s q) \<longrightarrow> t_parent (thr s' q) = (if t_parent (thr s q) = Some c then Some (TP s) else t_parent (thr s q)))"
    using reclaim_ok [OF f i tid(1)] by blast
  have "thread_join (int tid) s = Some (Some (int tid), returns s')"
    using tid i s'(1) by (simp add: thread_join_def join_turn_def is_child_def)
  moreover have "thr (returns s') = thr s'" "thrtab (returns s') = thrtab s'" "TP (returns s') = TP s'" by (simp_all add: returns_def)
  ultimately show "\<exists>s'. thread_join (int tid) s = Some (Some (int tid), s') \<and> thrtab s' = (thrtab s)(tid := None) \<and>
           \<not> t_live (thr s' c) \<and> TP s' = TP s \<and>
           (\<forall>q. q \<noteq> c \<longrightarrow> t_live (thr s' q) = t_live (thr s q) \<and> t_state (thr s' q) = t_state (thr s q) \<and>
              (t_live (thr s q) \<longrightarrow>
                 t_parent (thr s' q) = (if t_parent (thr s q) = Some c then Some (TP s) else t_parent (thr s q))))"
    using s'(2-5) by (intro exI [of _ "returns s'"]) simp
qed

lemma thread_join_outcome_witness: "\<exists>s'. thread_join 1 demo_exited = Some (Some 1, s') \<and> thrtab s' 1 = None"
proof -
  have "child_in demo_exited 0 1 2 \<and> t_state (thr demo_exited 2) = EXITED" "TP demo_exited = 0" "pend demo_exited 0 = None"
    by (simp_all add: demo_state_defs child_in_def)
  with thread_join_outcome [OF demo_reachable(4), of 1] show ?thesis by auto
qed

end
