(* ===== verification/KHeap.thy ===== *)
theory KHeap
  imports PhysPages KtfsLayout
begin

text \<open>
  The kernel heap of \<open>provided/sys/heap0.c\<close>: blocks are cut off the high end of a pool, and a
  new page replaces the pool or serves one request when the pool is too small.  Memory is a
  map from addresses to bytes, and the headers lie in it; a physical page \<open>p\<close> is at the address
  \<open>p * PAGE_SIZE\<close>.  \<open>None\<close> is a panic.
\<close>

section \<open>Bytes of memory\<close>

definition mem_put :: "nat \<Rightarrow> bytes \<Rightarrow> (nat \<Rightarrow> u8) \<Rightarrow> nat \<Rightarrow> u8" where
  "mem_put a bs m = (\<lambda>x. if a \<le> x \<and> x < a + length bs then bs ! (x - a) else m x)"

definition load_u32 :: "(nat \<Rightarrow> u8) \<Rightarrow> nat \<Rightarrow> u32" where
  "load_u32 m a = get_u32 (map m [a, a + 1, a + 2, a + 3]) 0"

definition store_u32 :: "nat \<Rightarrow> u32 \<Rightarrow> (nat \<Rightarrow> u8) \<Rightarrow> nat \<Rightarrow> u8" where
  "store_u32 a w = mem_put a (enc_u32 w)"

lemma mem_put_out: "x < a \<or> a + length bs \<le> x \<Longrightarrow> mem_put a bs m x = m x"
  by (auto simp: mem_put_def)

lemma store_out: "x < a \<or> a + 4 \<le> x \<Longrightarrow> store_u32 a w m x = m x"
  by (simp add: store_u32_def mem_put_out)

lemma load_store_same [simp]: "load_u32 (store_u32 a w m) a = w"
  using get_u32_enc [of "[]" w "[]"] by (simp add: load_u32_def store_u32_def mem_put_def enc_u32_def numeral_2_eq_2 numeral_3_eq_3)

lemma load_cong: "(\<And>x. a \<le> x \<Longrightarrow> x < a + 4 \<Longrightarrow> m x = m' x) \<Longrightarrow> load_u32 m a = load_u32 m' a"
  by (simp add: load_u32_def)

lemma load_store_other: "a + 4 \<le> b \<or> b + 4 \<le> a \<Longrightarrow> load_u32 (store_u32 a w m) b = load_u32 m b"
  by (rule load_cong) (auto intro!: store_out)

section \<open>The allocator\<close>

abbreviation (input) HEAP_ALLOC_MAX :: nat where "HEAP_ALLOC_MAX \<equiv> 4032"
abbreviation (input) HEAP_ALIGN :: nat where "HEAP_ALIGN \<equiv> 16"
abbreviation (input) HDR :: nat where "HDR \<equiv> 16"

definition HEAP_ALLOC_MAGIC :: u32 where "HEAP_ALLOC_MAGIC = 0xEAEAEAEA"
definition HEAP_FREE_MAGIC :: u32 where "HEAP_FREE_MAGIC = 0x25252525"

record kheap =
  heap_low :: nat
  heap_end :: nat
  hp_mem :: "nat \<Rightarrow> u8"
  hp_free :: free_chunk_list

definition round_size :: "u64 \<Rightarrow> u64" where
  "round_size n = (n + of_nat HEAP_ALIGN - 1) div of_nat HEAP_ALIGN * of_nat HEAP_ALIGN"

definition heap_init :: "nat \<Rightarrow> nat \<Rightarrow> (nat \<Rightarrow> u8) \<Rightarrow> free_chunk_list \<Rightarrow> kheap option" where
  "heap_init start fin m cs =
     (let lo = (start + HEAP_ALIGN - 1) div HEAP_ALIGN * HEAP_ALIGN; hi = fin div HEAP_ALIGN * HEAP_ALIGN
      in if lo < hi then Some \<lparr>heap_low = lo, heap_end = hi, hp_mem = m, hp_free = cs\<rparr> else None)"

text \<open>The header in front of a block, and the pattern in the block.\<close>

definition put_header :: "nat \<Rightarrow> u64 \<Rightarrow> u32 \<Rightarrow> (nat \<Rightarrow> u8) \<Rightarrow> nat \<Rightarrow> u8" where
  "put_header ptr n ra m =
     store_u32 (ptr - 4) ra (store_u32 (ptr - 8) (NOT (ucast n)) (store_u32 (ptr - 12) (ucast n)
       (store_u32 (ptr - 16) HEAP_ALLOC_MAGIC m)))"

definition heap_malloc_actual :: "u64 \<Rightarrow> u32 \<Rightarrow> kheap \<Rightarrow> (nat option \<times> kheap) option" where
  "heap_malloc_actual sz ra h =
     (if sz = 0 then Some (None, h)
      else let n = round_size sz; k = unat n in
        if HEAP_ALLOC_MAX < k then None
        else let place = (\<lambda>ptr h1. Some (Some ptr, h1\<lparr>hp_mem := mem_put ptr (replicate k 0x33) (put_header ptr n ra (hp_mem h1))\<rparr>))
          in if k + HDR \<le> heap_end h - heap_low h
             then let ptr = heap_end h - k in place ptr (h\<lparr>heap_end := ptr - HDR\<rparr>)
             else if PAGE_SIZE - HDR < k then None
             else case alloc_phys_page (hp_free h) of
               None \<Rightarrow> None
             | Some (pp, cs) \<Rightarrow>
                 let ptr = pp * PAGE_SIZE + PAGE_SIZE - k; leftover = PAGE_SIZE - k - HDR;
                     h1 = h\<lparr>hp_free := cs\<rparr>
                 in place ptr (if heap_end h - heap_low h < leftover then h1\<lparr>heap_end := ptr - HDR, heap_low := pp * PAGE_SIZE\<rparr> else h1))"

definition heap_calloc_actual :: "u64 \<Rightarrow> u64 \<Rightarrow> u32 \<Rightarrow> kheap \<Rightarrow> (nat option \<times> kheap) option" where
  "heap_calloc_actual nelts eltsz ra h =
     (if eltsz = 0 \<or> of_nat HEAP_ALLOC_MAX div eltsz < nelts then None
      else case heap_malloc_actual (nelts * eltsz) ra h of
        None \<Rightarrow> None
      | Some (None, h1) \<Rightarrow> Some (None, h1)
      | Some (Some ptr, h1) \<Rightarrow> Some (Some ptr, h1\<lparr>hp_mem := mem_put ptr (replicate (unat (nelts * eltsz)) 0) (hp_mem h1)\<rparr>))"

text \<open>The check of the header.  The pattern covers the rest of the block after the free record.\<close>

definition heap_free_actual :: "nat \<Rightarrow> u32 \<Rightarrow> kheap \<Rightarrow> kheap option" where
  "heap_free_actual ptr ra h =
     (if ptr < HDR then None
      else let m = hp_mem h; n = load_u32 m (ptr - 12) in
        if n \<noteq> NOT (load_u32 m (ptr - 8)) \<or> unat n < 8 then None
        else let m1 = mem_put (ptr + 8) (replicate (unat n - 8) 0x11) m;
                 m2 = store_u32 (ptr + 4) ra (store_u32 ptr HEAP_FREE_MAGIC m1)
             in Some (h\<lparr>hp_mem := store_u32 (ptr - 8) 0 m2\<rparr>))"

definition kmalloc :: "u64 \<Rightarrow> u32 \<Rightarrow> kheap \<Rightarrow> (nat option \<times> kheap) option" where
  "kmalloc sz ra h = heap_malloc_actual sz ra h"

definition kcalloc :: "u64 \<Rightarrow> u64 \<Rightarrow> u32 \<Rightarrow> kheap \<Rightarrow> (nat option \<times> kheap) option" where
  "kcalloc nelts eltsz ra h = heap_calloc_actual nelts eltsz ra h"

definition kfree :: "nat \<Rightarrow> u32 \<Rightarrow> kheap \<Rightarrow> kheap option" where
  "kfree ptr ra h = heap_free_actual ptr ra h"

section \<open>Invariant\<close>

definition span :: "nat \<times> nat \<Rightarrow> nat set" where
  "span b = {fst b - HDR..<fst b + snd b}"

definition page_bytes :: "free_chunk_list \<Rightarrow> nat set" where
  "page_bytes cs = {x. x div PAGE_SIZE \<in> free_pages cs}"

definition hblock_ok :: "kheap \<Rightarrow> nat \<times> nat \<Rightarrow> bool" where
  "hblock_ok h b \<longleftrightarrow>
     HDR \<le> fst b \<and> fst b mod HEAP_ALIGN = 0 \<and> HEAP_ALIGN \<le> snd b \<and> snd b \<le> HEAP_ALLOC_MAX \<and>
     load_u32 (hp_mem h) (fst b - 12) = of_nat (snd b) \<and> load_u32 (hp_mem h) (fst b - 8) = NOT (of_nat (snd b)) \<and>
     span b \<inter> {heap_low h..<heap_end h} = {} \<and> span b \<inter> page_bytes (hp_free h) = {}"

definition heap_ok :: "kheap \<Rightarrow> (nat \<times> nat) set \<Rightarrow> bool" where
  "heap_ok h B \<longleftrightarrow>
     heap_low h \<le> heap_end h \<and> heap_end h mod HEAP_ALIGN = 0 \<and> chunks_wf (hp_free h) \<and>
     {heap_low h..<heap_end h} \<inter> page_bytes (hp_free h) = {} \<and>
     (\<forall>b\<in>B. hblock_ok h b) \<and> (\<forall>b\<in>B. \<forall>c\<in>B. b \<noteq> c \<longrightarrow> span b \<inter> span c = {})"

text \<open>Changes of memory outside the blocks, or inside one of them, keep the headers.\<close>

lemma hblock_ok_cong:
  assumes "hblock_ok h b" and m: "\<And>x. fst b - 12 \<le> x \<Longrightarrow> x < fst b - 4 \<Longrightarrow> hp_mem h' x = hp_mem h x"
    and "span b \<inter> {heap_low h'..<heap_end h'} = {}" "span b \<inter> page_bytes (hp_free h') = {}"
  shows "hblock_ok h' b"
proof -
  have b: "HDR \<le> fst b" using assms(1) by (simp add: hblock_ok_def)
  have "load_u32 (hp_mem h') (fst b - 12) = load_u32 (hp_mem h) (fst b - 12)"
    "load_u32 (hp_mem h') (fst b - 8) = load_u32 (hp_mem h) (fst b - 8)"
    using b by (auto intro!: load_cong m)
  then show ?thesis using assms(1,3,4) by (simp add: hblock_ok_def)
qed

lemma round_size:
  assumes "0 < sz" "unat sz \<le> 2 ^ 64 - 16"
  shows "unat (round_size sz) = (unat sz + 15) div 16 * 16" "unat sz \<le> unat (round_size sz)" "16 \<le> unat (round_size sz)"
    "unat (round_size sz) mod 16 = 0"
proof -
  have z: "0 < unat sz" using assms(1) by (simp add: unat_gt_0)
  have "unat (sz + 15) = unat sz + 15" using assms(2) by (simp add: unat_word_ariths)
  moreover have "unat ((sz + 15) div 16) = unat (sz + 15) div unat (16 :: u64)" by (rule unat_div)
  moreover have e: "(sz + of_nat HEAP_ALIGN - 1) div of_nat HEAP_ALIGN = (sz + 15) div 16" by (simp add: add.commute)
  ultimately have d: "unat ((sz + of_nat HEAP_ALIGN - 1) div of_nat HEAP_ALIGN) = (unat sz + 15) div 16"
    unfolding e by simp
  have "(unat sz + 15) div 16 * 16 < 2 ^ 64" using assms(2) by simp
  then show r: "unat (round_size sz) = (unat sz + 15) div 16 * 16"
    unfolding round_size_def by (simp add: unat_word_ariths d)
  show "unat sz \<le> unat (round_size sz)" "16 \<le> unat (round_size sz)" "unat (round_size sz) mod 16 = 0"
    unfolding r using z by presburger+
qed

lemma put_header:
  assumes "16 \<le> ptr"
  shows "load_u32 (put_header ptr n ra m) (ptr - 12) = ucast n" "load_u32 (put_header ptr n ra m) (ptr - 8) = NOT (ucast n)"
    "x < ptr - 16 \<or> ptr \<le> x \<Longrightarrow> put_header ptr n ra m x = m x"
proof -
  obtain q where q: "ptr = q + 16" using le_Suc_ex [OF assms] by (auto simp: add.commute)
  show "load_u32 (put_header ptr n ra m) (ptr - 12) = ucast n" "load_u32 (put_header ptr n ra m) (ptr - 8) = NOT (ucast n)"
    by (simp_all add: q put_header_def load_store_other)
  show "put_header ptr n ra m x = m x" if "x < ptr - 16 \<or> ptr \<le> x"
  proof -
    have "x < ptr - k \<or> ptr - k + 4 \<le> x" if "k = 4 \<or> k = 8 \<or> k = 12 \<or> k = 16" for k
      using that \<open>x < ptr - 16 \<or> ptr \<le> x\<close> q by auto
    then show ?thesis by (simp add: put_header_def store_out)
  qed
qed

text \<open>A block in fresh bytes.\<close>

definition placed :: "nat \<Rightarrow> u64 \<Rightarrow> u32 \<Rightarrow> kheap \<Rightarrow> kheap" where
  "placed ptr n ra h = h\<lparr>hp_mem := mem_put ptr (replicate (unat n) 0x33) (put_header ptr n ra (hp_mem h))\<rparr>"

lemma placed_ok:
  assumes ok: "heap_ok h B" and b: "b = (ptr, unat n)" and fits: "16 \<le> ptr" "ptr mod 16 = 0" "16 \<le> unat n" "unat n \<le> 4032"
    and fresh: "span b \<inter> {heap_low h..<heap_end h} = {}" "span b \<inter> page_bytes (hp_free h) = {}" "\<And>c. c \<in> B \<Longrightarrow> span b \<inter> span c = {}"
  shows "heap_ok (placed ptr n ra h) (insert b B)" "\<And>x. x \<notin> span b \<Longrightarrow> hp_mem (placed ptr n ra h) x = hp_mem h x"
proof -
  let ?h = "placed ptr n ra h"
  show out: "hp_mem ?h x = hp_mem h x" if "x \<notin> span b" for x
    using that fits(1) by (auto simp: placed_def span_def b mem_put_def put_header)
  have g: "heap_low ?h = heap_low h" "heap_end ?h = heap_end h" "hp_free ?h = hp_free h" by (simp_all add: placed_def)
  have "hblock_ok ?h c" if "c \<in> B" for c
  proof (rule hblock_ok_cong [where h = h])
    show c: "hblock_ok h c" using ok that by (simp add: heap_ok_def)
    show "hp_mem ?h x = hp_mem h x" if "fst c - 12 \<le> x" "x < fst c - 4" for x
    proof (rule out)
      have "16 \<le> fst c" using c by (simp add: hblock_ok_def)
      then have "x \<in> span c" using that by (auto simp: span_def)
      then show "x \<notin> span b" using fresh(3) [OF \<open>c \<in> B\<close>] by blast
    qed
    show "span c \<inter> {heap_low ?h..<heap_end ?h} = {}" "span c \<inter> page_bytes (hp_free ?h) = {}"
      using c by (simp_all add: g hblock_ok_def)
  qed
  moreover have "hblock_ok ?h b"
  proof -
    have "load_u32 (hp_mem ?h) a = load_u32 (put_header ptr n ra (hp_mem h)) a" if "a + 4 \<le> ptr" for a
      by (rule load_cong) (use that in \<open>simp add: placed_def mem_put_def\<close>)
    then have "load_u32 (hp_mem ?h) (ptr - 12) = ucast n" "load_u32 (hp_mem ?h) (ptr - 8) = NOT (ucast n)"
      using put_header(1,2) [OF fits(1), of n ra "hp_mem h"] fits(1) by simp_all
    then have hd: "load_u32 (hp_mem ?h) (fst b - 12) = of_nat (snd b)" "load_u32 (hp_mem ?h) (fst b - 8) = NOT (of_nat (snd b))"
      by (simp_all add: b)
    show ?thesis unfolding hblock_ok_def g using hd fits fresh(1,2) by (simp only: b fst_conv snd_conv)
  qed
  moreover have pr: "span c \<inter> span d = {}" if "c \<in> insert b B" "d \<in> insert b B" "c \<noteq> d" for c d
  proof -
    have B: "\<forall>c\<in>B. \<forall>d\<in>B. c \<noteq> d \<longrightarrow> span c \<inter> span d = {}" using ok by (simp add: heap_ok_def)
    show ?thesis
    proof (cases "d = b")
      case True
      then show ?thesis using that fresh(3) [of c] by (simp add: Int_commute)
    next
      case False
      then show ?thesis using that fresh(3) [of d] B by (cases "c = b") simp_all
    qed
  qed
  moreover have bl: "\<forall>c\<in>insert b B. hblock_ok ?h c" using calculation(1,2) by blast
  moreover have w: "heap_low h \<le> heap_end h" "heap_end h mod HEAP_ALIGN = 0" "chunks_wf (hp_free h)"
    "{heap_low h..<heap_end h} \<inter> page_bytes (hp_free h) = {}" using ok by (simp_all add: heap_ok_def)
  show "heap_ok ?h (insert b B)"
    unfolding heap_ok_def g by (intro conjI w bl ballI impI pr)
qed

lemma page_bytes_page: "pp \<in> free_pages cs \<Longrightarrow> {pp * 4096..<pp * 4096 + 4096} \<subseteq> page_bytes cs"
proof
  fix x assume pp: "pp \<in> free_pages cs" and "x \<in> {pp * 4096..<pp * 4096 + 4096}"
  then have "x div 4096 = pp" by (intro div_nat_eqI) auto
  with pp show "x \<in> page_bytes cs" by (simp add: page_bytes_def)
qed

text \<open>The bytes that the allocator has left.\<close>

definition rest_bytes :: "kheap \<Rightarrow> nat set" where
  "rest_bytes h = {heap_low h..<heap_end h} \<union> page_bytes (hp_free h)"

lemma heap_ok_less:
  assumes ok: "heap_ok h B" and m: "hp_mem h' = hp_mem h" and sub: "rest_bytes h' \<subseteq> rest_bytes h"
    and w: "heap_low h' \<le> heap_end h'" "heap_end h' mod 16 = 0" "chunks_wf (hp_free h')" "{heap_low h'..<heap_end h'} \<inter> page_bytes (hp_free h') = {}"
  shows "heap_ok h' B"
proof -
  have "hblock_ok h' c" if "c \<in> B" for c
  proof (rule hblock_ok_cong)
    show c: "hblock_ok h c" using ok that by (simp add: heap_ok_def)
    then have "span c \<inter> rest_bytes h = {}" unfolding hblock_ok_def rest_bytes_def by blast
    then show "span c \<inter> {heap_low h'..<heap_end h'} = {}" "span c \<inter> page_bytes (hp_free h') = {}"
      using sub unfolding rest_bytes_def by blast+
  qed (simp add: m)
  then show ?thesis using ok w unfolding heap_ok_def by simp
qed

lemma kmalloc_placed:
  assumes ok: "heap_ok h B" and n: "unat sz \<le> 2 ^ 64 - 16" and run: "kmalloc sz ra h = Some (Some ptr, h')"
  shows "\<exists>h1. h' = placed ptr (round_size sz) ra h1 \<and> heap_ok h1 B \<and> hp_mem h1 = hp_mem h \<and>
     16 \<le> ptr \<and> ptr mod 16 = 0 \<and> unat (round_size sz) \<le> 4032 \<and> 0 < sz \<and>
     span (ptr, unat (round_size sz)) \<subseteq> rest_bytes h - rest_bytes h1"
proof -
  have sz: "0 < sz" using run by (auto simp: kmalloc_def heap_malloc_actual_def word_gt_0 split: if_splits)
  define k where "k = unat (round_size sz)"
  note r = round_size [OF sz n, folded k_def]
  have h: "heap_low h \<le> heap_end h" "heap_end h mod 16 = 0" "chunks_wf (hp_free h)" "{heap_low h..<heap_end h} \<inter> page_bytes (hp_free h) = {}"
    using ok by (simp_all add: heap_ok_def)
  have k: "k \<le> 4032" using run sz by (auto simp: kmalloc_def heap_malloc_actual_def Let_def k_def word_gt_0 split: if_splits)
  show ?thesis
  proof (cases "k + HDR \<le> heap_end h - heap_low h")
    case True
    let ?h = "h\<lparr>heap_end := heap_end h - k - HDR\<rparr>"
    have p: "ptr = heap_end h - k" "h' = placed ptr (round_size sz) ra ?h"
      using run sz True k by (auto simp: kmalloc_def heap_malloc_actual_def Let_def placed_def k_def split: if_splits)
    have reg: "span (ptr, k) \<union> {heap_low ?h..<heap_end ?h} \<subseteq> {heap_low h..<heap_end h}" "span (ptr, k) \<inter> {heap_low ?h..<heap_end ?h} = {}"
      using True p(1) by (auto simp: span_def)
    have al: "16 \<le> ptr" "ptr mod 16 = 0" using True p(1) h(2) r(4) by (simp, presburger)
    have ok1: "heap_ok ?h B"
    proof (rule heap_ok_less [OF ok])
      show "heap_end ?h mod 16 = 0" using True h(2) r(4) by (simp, presburger)
      have "{heap_low ?h..<heap_end ?h} \<subseteq> {heap_low h..<heap_end h}" by auto
      moreover have "hp_free ?h = hp_free h" by simp
      ultimately show "rest_bytes ?h \<subseteq> rest_bytes h" "{heap_low ?h..<heap_end ?h} \<inter> page_bytes (hp_free ?h) = {}"
        using h(4) unfolding rest_bytes_def by (simp_all only:) blast+
    qed (use True h in auto)
    have "span (ptr, k) \<subseteq> rest_bytes h - rest_bytes ?h"
    proof
      fix x assume "x \<in> span (ptr, k)"
      then have "x \<in> {heap_low h..<heap_end h}" "x \<notin> {heap_low ?h..<heap_end ?h}" using reg by blast+
      then show "x \<in> rest_bytes h - rest_bytes ?h" using h(4) unfolding rest_bytes_def by auto
    qed
    then show ?thesis using p(2) al ok1 k sz by (intro exI [of _ ?h]) (simp flip: k_def)
  next
    case False
    obtain pp cs where a: "alloc_phys_page (hp_free h) = Some (pp, cs)"
      using run sz False k by (auto simp: kmalloc_def heap_malloc_actual_def Let_def k_def split: if_splits option.splits)
    define h1 where "h1 = (if heap_end h - heap_low h < PAGE_SIZE - k - HDR
       then h\<lparr>hp_free := cs, heap_end := pp * 4096 + (4096 - k) - HDR, heap_low := pp * 4096\<rparr> else h\<lparr>hp_free := cs\<rparr>)"
    have p: "ptr = pp * 4096 + (4096 - k)" "h' = placed ptr (round_size sz) ra h1"
      using run sz False k a by (auto simp: kmalloc_def heap_malloc_actual_def Let_def placed_def k_def h1_def split: if_splits)
    have "alloc_phys_pages 1 (hp_free h) = Some (pp, cs)" using a by (simp add: alloc_phys_page_def)
    from alloc_phys_pages_spec [OF h(3) _ this] have al: "chunks_wf cs" "pp \<in> free_pages (hp_free h)" "free_pages cs = free_pages (hp_free h) - {pp}"
      by auto
    have pg: "{pp * 4096..<pp * 4096 + 4096} \<subseteq> page_bytes (hp_free h)" by (rule page_bytes_page [OF al(2)])
    have pc: "page_bytes cs = page_bytes (hp_free h) - {pp * 4096..<pp * 4096 + 4096}"
    proof -
      have "x div 4096 = pp \<longleftrightarrow> pp * 4096 \<le> x \<and> x < pp * 4096 + 4096" for x
        using div_nat_eqI [of 4096 pp x] div_times_less_eq_dividend [of x 4096] dividend_less_div_times [of 4096 x] by auto
      then show ?thesis unfolding page_bytes_def al(3) by (simp add: set_eq_iff)
    qed
    have sp: "span (ptr, k) \<subseteq> {pp * 4096..<pp * 4096 + 4096}" using p(1) k by (auto simp: span_def)
    have new: "{heap_low h1..<heap_end h1} \<subseteq> {heap_low h..<heap_end h} \<or>
       {heap_low h1..<heap_end h1} \<subseteq> {pp * 4096..<pp * 4096 + 4096} - span (ptr, k)"
      using p(1) k by (auto simp: h1_def span_def)
    have f1: "hp_free h1 = cs" "hp_mem h1 = hp_mem h" by (simp_all add: h1_def)
    have ok1: "heap_ok h1 B"
    proof (rule heap_ok_less [OF ok])
      show "heap_end h1 mod 16 = 0" using h(2) r(4) k by (auto simp: h1_def)
      show "heap_low h1 \<le> heap_end h1" using h(1) k by (auto simp: h1_def)
      show "rest_bytes h1 \<subseteq> rest_bytes h" "{heap_low h1..<heap_end h1} \<inter> page_bytes (hp_free h1) = {}"
        using new pg h(4) unfolding rest_bytes_def f1 pc by blast+
    qed (use f1 al in simp_all)
    have "span (ptr, k) \<subseteq> rest_bytes h - rest_bytes h1"
      using sp new pg h(4) unfolding rest_bytes_def f1 pc by blast
    moreover have "16 \<le> ptr" using p(1) k by simp
    moreover have "ptr mod 16 = 0"
    proof -
      have "16 dvd k" using r(4) by (simp add: dvd_eq_mod_eq_0)
      then have "16 dvd pp * 4096 + (4096 - k)" by (intro dvd_add dvd_diff_nat) simp_all
      then show ?thesis using p(1) by simp
    qed
    ultimately show ?thesis using p(2) ok1 k sz f1 by (intro exI [of _ h1]) (simp flip: k_def)
  qed
qed

lemma kmalloc_ok:
  assumes ok: "heap_ok h B" and n: "unat sz \<le> 2 ^ 64 - 16" and run: "kmalloc sz ra h = Some (Some ptr, h')"
  shows "\<exists>b. b = (ptr, unat (round_size sz)) \<and> heap_ok h' (insert b B) \<and> (\<forall>c\<in>B. span b \<inter> span c = {}) \<and>
     unat sz \<le> snd b \<and> (\<forall>x. x \<notin> span b \<longrightarrow> hp_mem h' x = hp_mem h x)"
proof -
  let ?b = "(ptr, unat (round_size sz))"
  from kmalloc_placed [OF assms] obtain h1 where h1: "h' = placed ptr (round_size sz) ra h1" "heap_ok h1 B" "hp_mem h1 = hp_mem h"
    "16 \<le> ptr" "ptr mod 16 = 0" "unat (round_size sz) \<le> 4032" "0 < sz" "span ?b \<subseteq> rest_bytes h - rest_bytes h1"
    by (elim exE conjE) (rule that)
  note r = round_size [OF h1(7) n]
  have fresh: "span ?b \<inter> {heap_low h1..<heap_end h1} = {}" "span ?b \<inter> page_bytes (hp_free h1) = {}"
    using h1(8) unfolding rest_bytes_def by blast+
  have apart: "span ?b \<inter> span c = {}" if "c \<in> B" for c
  proof -
    have "hblock_ok h c" using ok that by (simp add: heap_ok_def)
    then have "span c \<inter> rest_bytes h = {}" unfolding hblock_ok_def rest_bytes_def by blast
    then show ?thesis using h1(8) by blast
  qed
  note p = placed_ok [where ra = ra, OF h1(2) refl h1(4,5) r(3) h1(6) fresh apart, folded h1(1)]
  show ?thesis using p apart r(2) h1(3) by (intro exI [of _ ?b]) simp
qed

text \<open>A client writes only into its own block.\<close>

lemma write_ok:
  assumes ok: "heap_ok h B" and b: "b \<in> B" and i: "fst b \<le> a" "a + length bs \<le> fst b + snd b"
  shows "heap_ok (h\<lparr>hp_mem := mem_put a bs (hp_mem h)\<rparr>) B"
proof -
  let ?h = "h\<lparr>hp_mem := mem_put a bs (hp_mem h)\<rparr>"
  have "hblock_ok ?h c" if "c \<in> B" for c
  proof (rule hblock_ok_cong)
    show c: "hblock_ok h c" using ok that by (simp add: heap_ok_def)
    then show "span c \<inter> {heap_low ?h..<heap_end ?h} = {}" "span c \<inter> page_bytes (hp_free ?h) = {}" by (simp_all add: hblock_ok_def)
    show "hp_mem ?h x = hp_mem h x" if x: "fst c - 12 \<le> x" "x < fst c - 4" for x
    proof -
      have xc: "x \<in> span c" "\<not> fst c \<le> x" using x c by (auto simp: span_def hblock_ok_def)
      have "\<not> (a \<le> x \<and> x < a + length bs)"
      proof
        assume "a \<le> x \<and> x < a + length bs"
        then have xb: "x \<in> span b" "fst b \<le> x" using i by (auto simp: span_def)
        then have "c = b" using ok b \<open>c \<in> B\<close> xc(1) unfolding heap_ok_def by blast
        then show False using xb(2) xc(2) by simp
      qed
      then show ?thesis by (auto simp: mem_put_def)
    qed
  qed
  then show ?thesis using ok unfolding heap_ok_def by simp
qed

lemma kcalloc_ok:
  assumes ok: "heap_ok h B" and run: "kcalloc nelts eltsz ra h = Some (Some ptr, h')"
  shows "\<exists>b. b = (ptr, unat (round_size (nelts * eltsz))) \<and> heap_ok h' (insert b B) \<and> (\<forall>c\<in>B. span b \<inter> span c = {}) \<and>
     unat nelts * unat eltsz \<le> snd b \<and> (\<forall>i<unat nelts * unat eltsz. hp_mem h' (ptr + i) = 0) \<and>
     (\<forall>x. x \<notin> span b \<longrightarrow> hp_mem h' x = hp_mem h x)"
proof -
  let ?n = "nelts * eltsz"
  have e: "eltsz \<noteq> 0" "nelts \<le> of_nat 4032 div eltsz"
    using run by (auto simp: kcalloc_def heap_calloc_actual_def split: if_splits)
  have "unat nelts \<le> unat (of_nat 4032 div eltsz)" using e(2) by (simp add: word_le_nat_alt)
  moreover have "unat (of_nat 4032 div eltsz) = unat (of_nat 4032 :: u64) div unat eltsz" by (rule unat_div)
  ultimately have "unat nelts \<le> 4032 div unat eltsz" by simp
  then have m: "unat nelts * unat eltsz \<le> 4032" using e(1) by (simp add: less_eq_div_iff_mult_less_eq unat_gt_0)
  then have un: "unat ?n = unat nelts * unat eltsz" by (simp add: unat_word_ariths)
  obtain h1 where h1: "kmalloc ?n ra h = Some (Some ptr, h1)" "h' = h1\<lparr>hp_mem := mem_put ptr (replicate (unat ?n) 0) (hp_mem h1)\<rparr>"
    using run by (auto simp: kcalloc_def heap_calloc_actual_def kmalloc_def split: if_splits option.splits)
  have "unat ?n \<le> 2 ^ 64 - 16" using m un by simp
  from kmalloc_ok [OF ok this h1(1)] obtain b where b: "b = (ptr, unat (round_size ?n))" "heap_ok h1 (insert b B)"
     "\<forall>c\<in>B. span b \<inter> span c = {}" "unat ?n \<le> snd b" "\<forall>x. x \<notin> span b \<longrightarrow> hp_mem h1 x = hp_mem h x" by blast
  have "heap_ok h' (insert b B)" unfolding h1(2) by (rule write_ok [OF b(2), of b]) (use b(1,4) in simp_all)
  moreover have "hp_mem h' (ptr + i) = 0" if "i < unat ?n" for i using that by (simp add: h1(2) mem_put_def)
  moreover have "hp_mem h' x = hp_mem h x" if "x \<notin> span b" for x
    using that b(1,4,5) by (auto simp: h1(2) mem_put_def span_def)
  ultimately show ?thesis using b un by (intro exI [of _ b]) simp
qed

text \<open>Freeing a block in use never panics, and touches the block and its header only.\<close>

lemma kfree_ok:
  assumes ok: "heap_ok h B" and b: "(ptr, n) \<in> B"
  shows "\<exists>h'. kfree ptr ra h = Some h' \<and> heap_ok h' (B - {(ptr, n)}) \<and> (\<forall>x. x \<notin> span (ptr, n) \<longrightarrow> hp_mem h' x = hp_mem h x)"
proof -
  have k: "16 \<le> ptr" "16 \<le> n" "n \<le> 4032" "load_u32 (hp_mem h) (ptr - 12) = of_nat n" "load_u32 (hp_mem h) (ptr - 8) = NOT (of_nat n)"
    using ok b by (auto simp: heap_ok_def hblock_ok_def)
  define m where "m = store_u32 (ptr - 8) 0 (store_u32 (ptr + 4) ra (store_u32 ptr HEAP_FREE_MAGIC (mem_put (ptr + 8) (replicate (n - 8) 0x11) (hp_mem h))))"
  have un: "unat (of_nat n :: u32) = n" using k(3) by (simp add: unat_word_of_nat_small)
  have run: "kfree ptr ra h = Some (h\<lparr>hp_mem := m\<rparr>)"
    using k un by (simp add: kfree_def heap_free_actual_def Let_def m_def)
  have out: "m x = hp_mem h x" if "x \<notin> span (ptr, n)" for x
  proof -
    have x: "x < ptr - 16 \<or> ptr + n \<le> x" using that by (auto simp: span_def)
    have "x < ptr - 8 \<or> ptr - 8 + 4 \<le> x" "x < ptr + 4 \<or> ptr + 4 + 4 \<le> x" "x < ptr \<or> ptr + 4 \<le> x"
      "x < ptr + 8 \<or> ptr + 8 + length (replicate (n - 8) (0x11 :: u8)) \<le> x"
      using x k(1-3) by auto
    then show ?thesis unfolding m_def by (simp only: store_out mem_put_out)
  qed
  have "hblock_ok (h\<lparr>hp_mem := m\<rparr>) c" if "c \<in> B - {(ptr, n)}" for c
  proof (rule hblock_ok_cong)
    show c: "hblock_ok h c" using ok that by (simp add: heap_ok_def)
    then show "span c \<inter> {heap_low (h\<lparr>hp_mem := m\<rparr>)..<heap_end (h\<lparr>hp_mem := m\<rparr>)} = {}"
      "span c \<inter> page_bytes (hp_free (h\<lparr>hp_mem := m\<rparr>)) = {}" by (simp_all add: hblock_ok_def)
    have d: "span (ptr, n) \<inter> span c = {}" using ok b that unfolding heap_ok_def by blast
    have c16: "16 \<le> fst c" using c by (simp add: hblock_ok_def)
    show "hp_mem (h\<lparr>hp_mem := m\<rparr>) x = hp_mem h x" if x: "fst c - 12 \<le> x" "x < fst c - 4" for x
    proof -
      have "x \<in> span c" using x c16 by (auto simp: span_def)
      then have "x \<notin> span (ptr, n)" using d by blast
      from out [OF this] show ?thesis by simp
    qed
  qed
  then have "heap_ok (h\<lparr>hp_mem := m\<rparr>) (B - {(ptr, n)})" using ok unfolding heap_ok_def by simp
  then show ?thesis using run out by (intro exI [of _ "h\<lparr>hp_mem := m\<rparr>"]) simp
qed

lemma heap_init_ok:
  assumes "heap_init start fin m cs = Some h" and "chunks_wf cs" and "{start..<fin} \<inter> page_bytes cs = {}"
  shows "heap_ok h {}"
proof -
  define lo where "lo = (start + 15) div 16 * 16"
  define hi where "hi = fin div 16 * 16"
  have b: "start \<le> lo" "hi \<le> fin" "hi mod 16 = 0" unfolding lo_def hi_def by simp_all
  have h: "h = \<lparr>heap_low = lo, heap_end = hi, hp_mem = m, hp_free = cs\<rparr>" "lo < hi"
    using assms(1) by (auto simp: heap_init_def Let_def lo_def hi_def split: if_splits)
  have "{lo..<hi} \<subseteq> {start..<fin}" using b by auto
  then have "{lo..<hi} \<inter> page_bytes cs = {}" using assms(3) by blast
  then show ?thesis using h b assms(2) by (simp add: heap_ok_def)
qed

section \<open>Runs\<close>

text \<open>Calls of the allocator, writes into blocks in use, and other code that takes and frees
  pages that the heap has not taken.\<close>

inductive heap_reach :: "kheap \<Rightarrow> (nat \<times> nat) set \<Rightarrow> bool" where
  init: "heap_init start fin m cs = Some h \<Longrightarrow> chunks_wf cs \<Longrightarrow> {start..<fin} \<inter> page_bytes cs = {} \<Longrightarrow> heap_reach h {}"
| malloc: "heap_reach h B \<Longrightarrow> kmalloc sz ra h = Some (Some ptr, h') \<Longrightarrow> unat sz \<le> 2 ^ 64 - 16 \<Longrightarrow>
    heap_reach h' (insert (ptr, unat (round_size sz)) B)"
| calloc: "heap_reach h B \<Longrightarrow> kcalloc nelts eltsz ra h = Some (Some ptr, h') \<Longrightarrow>
    heap_reach h' (insert (ptr, unat (round_size (nelts * eltsz))) B)"
| free: "heap_reach h B \<Longrightarrow> (ptr, n) \<in> B \<Longrightarrow> kfree ptr ra h = Some h' \<Longrightarrow> heap_reach h' (B - {(ptr, n)})"
| client: "heap_reach h B \<Longrightarrow> b \<in> B \<Longrightarrow> fst b \<le> a \<Longrightarrow> a + length bs \<le> fst b + snd b \<Longrightarrow>
    heap_reach (h\<lparr>hp_mem := mem_put a bs (hp_mem h)\<rparr>) B"
| pages: "heap_reach h B \<Longrightarrow> chunks_wf cs \<Longrightarrow> {heap_low h..<heap_end h} \<inter> page_bytes cs = {} \<Longrightarrow>
    (\<And>b. b \<in> B \<Longrightarrow> span b \<inter> page_bytes cs = {}) \<Longrightarrow> heap_reach (h\<lparr>hp_free := cs\<rparr>) B"

lemma heap_reach_ok: "heap_reach h B \<Longrightarrow> heap_ok h B"
proof (induction rule: heap_reach.induct)
  case (init start fin m cs h)
  then show ?case by (rule heap_init_ok)
next
  case (malloc h B sz ra ptr h')
  then show ?case using kmalloc_ok [of h B sz ra ptr h'] by auto
next
  case (calloc h B nelts eltsz ra ptr h')
  then show ?case using kcalloc_ok [of h B nelts eltsz ra ptr h'] by auto
next
  case (free h B ptr n ra h')
  then show ?case using kfree_ok [of h B ptr n ra] by auto
next
  case (client h B b a bs)
  show ?case by (rule write_ok [OF client.IH client.hyps(2-4)])
next
  case (pages h B cs)
  note ok = pages.IH [unfolded heap_ok_def]
  have "hblock_ok (h\<lparr>hp_free := cs\<rparr>) b" if "b \<in> B" for b
  proof (rule hblock_ok_cong)
    show b: "hblock_ok h b" using ok that by blast
    show "span b \<inter> {heap_low (h\<lparr>hp_free := cs\<rparr>)..<heap_end (h\<lparr>hp_free := cs\<rparr>)} = {}" using b by (simp add: hblock_ok_def)
    show "span b \<inter> page_bytes (hp_free (h\<lparr>hp_free := cs\<rparr>)) = {}" using pages.hyps(4) [OF that] by simp
  qed simp
  then show ?case using ok pages.hyps(2,3) by (simp add: heap_ok_def)
qed

section \<open>Properties\<close>


text \<open>A run for the witness: a pool of one page below a free page, and one block.\<close>

definition heap_demo :: kheap where
  "heap_demo = \<lparr>heap_low = 8192, heap_end = 12288, hp_mem = (\<lambda>_. 0), hp_free = [\<lparr>base = 100, pagecnt = 1\<rparr>]\<rparr>"

lemma heap_demo_reach: "heap_reach heap_demo {}"
proof (rule heap_reach.init)
  show "heap_init 8190 12290 (\<lambda>_. 0) [\<lparr>base = 100, pagecnt = 1\<rparr>] = Some heap_demo" by (simp add: heap_init_def heap_demo_def)
  show "{8190..<12290} \<inter> page_bytes [\<lparr>base = 100, pagecnt = 1\<rparr>] = {}" by (auto simp: page_bytes_def chunk_pages_def)
qed (simp add: chunk_pages_def)


text \<open>The rounding of the size wraps: a request of nearly \<open>2 ^ 64\<close> bytes gets a block of none.\<close>

lemma kmalloc_wraps:
  "kmalloc (- 1) ra heap_demo = Some (Some 12288, placed 12288 0 ra (heap_demo\<lparr>heap_end := 12272\<rparr>))"
  by (simp add: kmalloc_def heap_malloc_actual_def round_size_def placed_def heap_demo_def Let_def)

end
