(* ===== verification/Timer.thy ===== *)
theory Timer
  imports Prelude
begin

text \<open>
  The timer of \<open>modified/sys/timer.c\<close>: alarms on a list ordered by their wake-up times, the
  sleep of a thread on an alarm, and the handler of the timer interrupt.  An alarm is named by
  its address; \<open>phase\<close> is what the thread in \<open>alarm_sleep\<close> on it does: nothing, wait on the
  condition of the alarm, or go on after a broadcast.  The readings of \<open>rdtime\<close> are arguments, and
  \<open>clock\<close> keeps the last one.
  \<open>stcmp\<close> is the compare register and \<open>stie\<close> bit 5 of \<open>sie\<close>, the enable of the interrupt.
\<close>

section \<open>State and operations\<close>

datatype phase = Free | Asleep | Woken

record alarm =
  twake :: u64
  al_phase :: phase

record timer =
  alarms :: "nat \<Rightarrow> alarm"
  sleep_list :: "nat list"
  ticks :: u64
  next_tick :: u64
  stcmp :: u64
  stie :: bool
  clock :: u64

definition TIMER_FREQ :: u64 where "TIMER_FREQ = 10000000"

text \<open>The interrupt is enabled by \<open>intr.c\<close> when the system starts.\<close>

definition timer_init :: timer where
  "timer_init = \<lparr>alarms = (\<lambda>_. \<lparr>twake = 0, al_phase = Free\<rparr>), sleep_list = [], ticks = 0, next_tick = 0,
     stcmp = - 1, stie = True, clock = 0\<rparr>"

definition set_alarm :: "nat \<Rightarrow> alarm \<Rightarrow> timer \<Rightarrow> timer" where
  "set_alarm a x st = st\<lparr>alarms := (alarms st)(a := x)\<rparr>"

definition set_phase :: "phase \<Rightarrow> nat \<Rightarrow> timer \<Rightarrow> timer" where
  "set_phase p a st = set_alarm a ((alarms st a)\<lparr>al_phase := p\<rparr>) st"

definition alarm_init :: "nat \<Rightarrow> u64 \<Rightarrow> timer \<Rightarrow> timer" where
  "alarm_init a now st = set_alarm a \<lparr>twake = now, al_phase = Free\<rparr> st"

definition alarm_reset :: "nat \<Rightarrow> u64 \<Rightarrow> timer \<Rightarrow> timer" where
  "alarm_reset a now st = set_alarm a ((alarms st a)\<lparr>twake := now\<rparr>) st"

text \<open>The place in the list, behind a head that is earlier.\<close>

fun insert_behind :: "(nat \<Rightarrow> u64) \<Rightarrow> nat \<Rightarrow> nat list \<Rightarrow> nat list" where
  "insert_behind tw a [] = [a]"
| "insert_behind tw a (c # cs) = (if tw c < tw a then c # insert_behind tw a cs else a # c # cs)"

definition insert_alarm :: "(nat \<Rightarrow> u64) \<Rightarrow> nat \<Rightarrow> nat list \<Rightarrow> nat list" where
  "insert_alarm tw a xs =
     (case xs of [] \<Rightarrow> [a] | h # t \<Rightarrow> if tw a \<le> tw h then a # xs else h # insert_behind tw a t)"

abbreviation twakes :: "timer \<Rightarrow> nat \<Rightarrow> u64" where
  "twakes st \<equiv> (\<lambda>a. twake (alarms st a))"

text \<open>One test of the loop of \<open>alarm_sleep\<close>; the flag tells whether the call returns.\<close>

definition alarm_turn :: "nat \<Rightarrow> u64 \<Rightarrow> timer \<Rightarrow> bool \<times> timer" where
  "alarm_turn a now st =
     (if now < twakes st a then (False, set_phase Asleep a st) else (True, set_phase Free a st))"

text \<open>\<open>None\<close> when the alarm is on the list already: its link would be overwritten.\<close>

definition alarm_sleep :: "nat \<Rightarrow> u64 \<Rightarrow> u64 \<Rightarrow> u64 \<Rightarrow> timer \<Rightarrow> (bool \<times> timer) option" where
  "alarm_sleep a tcnt now now1 st =
     (let tw = (if - 1 - twakes st a < tcnt then - 1 else twakes st a + tcnt);
          st1 = set_alarm a ((alarms st a)\<lparr>twake := tw\<rparr>) st
      in if tw < now then Some (True, st1)
         else if a \<in> set (sleep_list st1) then None
         else let st2 = st1\<lparr>sleep_list := insert_alarm (twakes st1) a (sleep_list st1)\<rparr>;
                  st3 = st2\<lparr>stcmp := twakes st2 (hd (sleep_list st2)), stie := (stie st2 \<or> sleep_list st1 = [])\<rparr>
              in Some (alarm_turn a now1 st3))"

definition alarm_sleep_sec :: "nat \<Rightarrow> u32 \<Rightarrow> u64 \<Rightarrow> u64 \<Rightarrow> timer \<Rightarrow> (bool \<times> timer) option" where
  "alarm_sleep_sec a sec = alarm_sleep a (ucast sec * TIMER_FREQ)"

definition alarm_sleep_ms :: "nat \<Rightarrow> u64 \<Rightarrow> u64 \<Rightarrow> u64 \<Rightarrow> timer \<Rightarrow> (bool \<times> timer) option" where
  "alarm_sleep_ms a ms = alarm_sleep a (ms * (TIMER_FREQ div 1000))"

definition alarm_sleep_us :: "nat \<Rightarrow> u64 \<Rightarrow> u64 \<Rightarrow> u64 \<Rightarrow> timer \<Rightarrow> (bool \<times> timer) option" where
  "alarm_sleep_us a us = alarm_sleep a (us * (TIMER_FREQ div 1000 div 1000))"

definition sleep_us :: "nat \<Rightarrow> u64 \<Rightarrow> u64 \<Rightarrow> u64 \<Rightarrow> u64 \<Rightarrow> timer \<Rightarrow> (bool \<times> timer) option" where
  "sleep_us a us now0 now now1 st = alarm_sleep_us a us now now1 (alarm_init a now0 st)"

definition sleep_ms :: "nat \<Rightarrow> u64 \<Rightarrow> u64 \<Rightarrow> u64 \<Rightarrow> u64 \<Rightarrow> timer \<Rightarrow> (bool \<times> timer) option" where
  "sleep_ms a ms = sleep_us a (1000 * ms)"

definition sleep_sec :: "nat \<Rightarrow> u32 \<Rightarrow> u64 \<Rightarrow> u64 \<Rightarrow> u64 \<Rightarrow> timer \<Rightarrow> (bool \<times> timer) option" where
  "sleep_sec a sec = sleep_ms a (1000 * ucast sec)"

text \<open>The loop of the handler: alarms that are due leave the list and their threads wake up.\<close>

definition wake_alarm :: "nat \<Rightarrow> timer \<Rightarrow> timer" where
  "wake_alarm a st = (if al_phase (alarms st a) = Asleep then set_phase Woken a st else st)"

fun pop_due :: "u64 \<Rightarrow> nat list \<Rightarrow> timer \<Rightarrow> timer" where
  "pop_due now [] st = st"
| "pop_due now (a # as) st =
     (if twakes st a \<le> now then pop_due now as (wake_alarm a (st\<lparr>sleep_list := as\<rparr>)) else st)"

definition next_tick_after :: "u64 \<Rightarrow> u64 \<Rightarrow> u64 \<Rightarrow> u64" where
  "next_tick_after now q nt = (if nt \<le> now then nt + ((now - nt) div q + 1) * q else nt)"

definition next_compare :: "u64 \<Rightarrow> timer \<Rightarrow> u64" where
  "next_compare nt st =
     (case sleep_list st of [] \<Rightarrow> nt | h # _ \<Rightarrow> if twakes st h < nt then twakes st h else nt)"

definition handle_timer_interrupt :: "u64 \<Rightarrow> timer \<Rightarrow> timer" where
  "handle_timer_interrupt now st =
     (let st1 = pop_due now (sleep_list st) st;
          q = (if ticks st1 = 0 then TIMER_FREQ div 100 else ticks st1);
          nt = next_tick_after now q (next_tick st1)
      in st1\<lparr>ticks := q, next_tick := nt, stcmp := next_compare nt st1, stie := False\<rparr>)"

section \<open>Runs\<close>

inductive timer_step :: "timer \<Rightarrow> timer \<Rightarrow> bool" where
  init: "a \<notin> set (sleep_list st) \<Longrightarrow> al_phase (alarms st a) = Free \<Longrightarrow> clock st \<le> now \<Longrightarrow>
    timer_step st ((alarm_init a now st)\<lparr>clock := now\<rparr>)"
| reset: "a \<notin> set (sleep_list st) \<Longrightarrow> al_phase (alarms st a) = Free \<Longrightarrow> clock st \<le> now \<Longrightarrow>
    timer_step st ((alarm_reset a now st)\<lparr>clock := now\<rparr>)"
| sleep: "a \<notin> set (sleep_list st) \<Longrightarrow> al_phase (alarms st a) = Free \<Longrightarrow> clock st \<le> now \<Longrightarrow> now \<le> now1 \<Longrightarrow>
    alarm_sleep a tcnt now now1 st = Some (b, st') \<Longrightarrow> timer_step st (st'\<lparr>clock := now1\<rparr>)"
| again: "al_phase (alarms st a) = Woken \<Longrightarrow> clock st \<le> now \<Longrightarrow> alarm_turn a now st = (b, st') \<Longrightarrow>
    timer_step st (st'\<lparr>clock := now\<rparr>)"
| interrupt: "stie st \<Longrightarrow> stcmp st \<le> now \<Longrightarrow> clock st \<le> now \<Longrightarrow>
    timer_step st ((handle_timer_interrupt now st)\<lparr>clock := now\<rparr>)"

inductive timer_reach :: "timer \<Rightarrow> bool" where
  start: "timer_reach timer_init"
| step: "timer_reach st \<Longrightarrow> timer_step st st' \<Longrightarrow> timer_reach st'"

section \<open>Invariant\<close>

definition timer_ok :: "timer \<Rightarrow> bool" where
  "timer_ok st \<longleftrightarrow>
     sorted (map (twakes st) (sleep_list st)) \<and> distinct (sleep_list st) \<and>
     (\<forall>a. al_phase (alarms st a) = Asleep \<longrightarrow> a \<in> set (sleep_list st)) \<and>
     (\<forall>a. al_phase (alarms st a) = Woken \<longrightarrow> twakes st a \<le> clock st)"

lemma set_alarm_simps [simp]:
  "alarms (set_alarm a x st) b = (if b = a then x else alarms st b)" "sleep_list (set_alarm a x st) = sleep_list st"
  "ticks (set_alarm a x st) = ticks st" "next_tick (set_alarm a x st) = next_tick st" "stcmp (set_alarm a x st) = stcmp st"
  "stie (set_alarm a x st) = stie st" "clock (set_alarm a x st) = clock st"
  by (simp_all add: set_alarm_def)

lemma set_insert_behind: "set (insert_behind tw a xs) = insert a (set xs)"
  by (induction xs) auto

lemma set_insert_alarm [simp]: "set (insert_alarm tw a xs) = insert a (set xs)"
  by (auto simp: insert_alarm_def set_insert_behind split: list.split)

lemma distinct_insert_behind: "distinct xs \<Longrightarrow> a \<notin> set xs \<Longrightarrow> distinct (insert_behind tw a xs)"
  by (induction xs) (auto simp: set_insert_behind)

lemma distinct_insert_alarm: "distinct xs \<Longrightarrow> a \<notin> set xs \<Longrightarrow> distinct (insert_alarm tw a xs)"
  by (auto simp: insert_alarm_def set_insert_behind distinct_insert_behind split: list.split)

lemma sorted_insert_behind:
  "sorted (map tw (xs :: nat list)) \<Longrightarrow> sorted (map (tw :: nat \<Rightarrow> u64) (insert_behind tw a xs))"
  by (induction xs) (force simp: set_insert_behind)+

lemma sorted_insert_alarm:
  "sorted (map tw (xs :: nat list)) \<Longrightarrow> sorted (map (tw :: nat \<Rightarrow> u64) (insert_alarm tw a xs))"
  using sorted_insert_behind [of tw "tl xs" a]
  by (cases xs) (auto simp: insert_alarm_def set_insert_behind)

lemma insert_alarm_not_nil [simp]: "insert_alarm tw a xs \<noteq> []"
  by (simp add: insert_alarm_def split: list.split)

text \<open>The loop of the handler, over a list in order.\<close>

lemma pop_due_spec:
  assumes "sorted (map (twakes st) xs)" and "sleep_list st = xs" and "distinct xs"
  shows "sleep_list (pop_due now xs st) = filter (\<lambda>a. now < twakes st a) xs"
    and "alarms (pop_due now xs st) a =
      (if a \<in> set xs \<and> twakes st a \<le> now \<and> al_phase (alarms st a) = Asleep then (alarms st a)\<lparr>al_phase := Woken\<rparr> else alarms st a)"
    and "clock (pop_due now xs st) = clock st" "ticks (pop_due now xs st) = ticks st"
      "next_tick (pop_due now xs st) = next_tick st" "stcmp (pop_due now xs st) = stcmp st" "stie (pop_due now xs st) = stie st"
  using assms
proof (induction now xs st rule: pop_due.induct)
  case (2 now b bs st)
  let ?st = "wake_alarm b (st\<lparr>sleep_list := bs\<rparr>)"
  have tw: "twakes ?st c = twakes st c" for c by (simp add: wake_alarm_def set_phase_def)
  have g: "sleep_list ?st = bs" "clock ?st = clock st" "ticks ?st = ticks st" "next_tick ?st = next_tick st"
    "stcmp ?st = stcmp st" "stie ?st = stie st" by (simp_all add: wake_alarm_def set_phase_def)
  have al: "alarms ?st c = (if c = b \<and> al_phase (alarms st b) = Asleep then (alarms st b)\<lparr>al_phase := Woken\<rparr> else alarms st c)" for c
    by (simp add: wake_alarm_def set_phase_def)
  have IH: "sleep_list (pop_due now bs ?st) = filter (\<lambda>a. now < twakes st a) bs"
      "alarms (pop_due now bs ?st) a =
        (if a \<in> set bs \<and> twakes st a \<le> now \<and> al_phase (alarms ?st a) = Asleep then (alarms ?st a)\<lparr>al_phase := Woken\<rparr> else alarms ?st a)"
      "clock (pop_due now bs ?st) = clock st" "ticks (pop_due now bs ?st) = ticks st"
      "next_tick (pop_due now bs ?st) = next_tick st" "stcmp (pop_due now bs ?st) = stcmp st" "stie (pop_due now bs ?st) = stie st"
    if "twakes st b \<le> now" "sorted (map (twakes st) (b # bs))" "distinct (b # bs)"
    using "2.IH" [OF that(1), unfolded tw g] that(2,3) by simp_all
  {
    case 1
    have "\<not> twakes st b \<le> now \<Longrightarrow> filter (\<lambda>a. now < twakes st a) bs = bs"
      using 1 by (intro filter_True) auto
    then show ?case using 1 IH(1) by auto
  next
    case 2
    show ?case
    proof (cases "twakes st b \<le> now")
      case True
      have "b \<notin> set bs" using 2 by simp
      then show ?thesis using True IH(2) [OF True 2(1,3)] unfolding al by auto
    next
      case False
      then have "\<not> (a \<in> set (b # bs) \<and> twakes st a \<le> now)" using 2 by auto
      then show ?thesis using False by auto
    qed
  next
    case 3 then show ?case using IH(3) by simp
  next
    case 4 then show ?case using IH(4) by simp
  next
    case 5 then show ?case using IH(5) by simp
  next
    case 6 then show ?case using IH(6) by simp
  next
    case 7 then show ?case using IH(7) by simp
  }
qed simp_all


lemma timer_okD:
  assumes "timer_ok st"
  shows "sorted (map (twakes st) (sleep_list st))" "distinct (sleep_list st)"
    "al_phase (alarms st a) = Asleep \<Longrightarrow> a \<in> set (sleep_list st)" "al_phase (alarms st a) = Woken \<Longrightarrow> twakes st a \<le> clock st"
  using assms by (simp_all add: timer_ok_def)

lemma timer_okI:
  assumes "sorted (map (twakes st) (sleep_list st))" "distinct (sleep_list st)"
    "\<And>a. al_phase (alarms st a) = Asleep \<Longrightarrow> a \<in> set (sleep_list st)"
    "\<And>a. al_phase (alarms st a) = Woken \<Longrightarrow> twakes st a \<le> clock st"
  shows "timer_ok st"
  using assms by (simp add: timer_ok_def)

lemma set_free_ok:
  assumes ok: "timer_ok st" and a: "a \<notin> set (sleep_list st)" and x: "al_phase x = Free" and t: "clock st \<le> now"
  shows "timer_ok ((set_alarm a x st)\<lparr>clock := now\<rparr>)"
proof (rule timer_okI)
  note d = timer_okD [OF ok]
  have "map (twakes ((set_alarm a x st)\<lparr>clock := now\<rparr>)) (sleep_list st) = map (twakes st) (sleep_list st)"
    using a by (intro map_cong) auto
  moreover have "sleep_list ((set_alarm a x st)\<lparr>clock := now\<rparr>) = sleep_list st" by simp
  ultimately show "sorted (map (twakes ((set_alarm a x st)\<lparr>clock := now\<rparr>)) (sleep_list ((set_alarm a x st)\<lparr>clock := now\<rparr>)))"
    using d(1) by (simp only:)
  show "twakes ((set_alarm a x st)\<lparr>clock := now\<rparr>) b \<le> clock ((set_alarm a x st)\<lparr>clock := now\<rparr>)"
    if "al_phase (alarms ((set_alarm a x st)\<lparr>clock := now\<rparr>) b) = Woken" for b
    using that x d(4) [of b] t by (auto split: if_splits)
qed (use timer_okD [OF ok] x in \<open>auto split: if_splits\<close>)

text \<open>The state of a sleeper after its alarm has been put on the list.\<close>

lemma turn_ok:
  assumes s: "sorted (map (twakes st) (sleep_list st))" "distinct (sleep_list st)"
    and o': "\<And>b. b \<noteq> a \<Longrightarrow> al_phase (alarms st b) = Asleep \<Longrightarrow> b \<in> set (sleep_list st)"
      "\<And>b. b \<noteq> a \<Longrightarrow> al_phase (alarms st b) = Woken \<Longrightarrow> twakes st b \<le> now"
    and a: "now < twakes st a \<Longrightarrow> a \<in> set (sleep_list st)" and run: "alarm_turn a now st = (b, st')"
  shows "timer_ok (st'\<lparr>clock := now\<rparr>)"
proof -
  have tw: "twakes (st'\<lparr>clock := now\<rparr>) = twakes st" "sleep_list st' = sleep_list st"
    and ph: "al_phase (alarms st' c) = (if c = a then if now < twakes st a then Asleep else Free else al_phase (alarms st c))" for c
    using run by (auto simp: alarm_turn_def set_phase_def split: if_splits)
  show ?thesis
  proof (rule timer_okI)
    fix c assume "al_phase (alarms (st'\<lparr>clock := now\<rparr>) c) = Asleep"
    then show "c \<in> set (sleep_list (st'\<lparr>clock := now\<rparr>))" using o'(1) [of c] a tw(2) by (auto simp: ph split: if_splits)
  next
    fix c assume "al_phase (alarms (st'\<lparr>clock := now\<rparr>) c) = Woken"
    then have "twakes st c \<le> now" using o'(2) [of c] by (auto simp: ph split: if_splits)
    then show "twakes (st'\<lparr>clock := now\<rparr>) c \<le> clock (st'\<lparr>clock := now\<rparr>)" using fun_cong [OF tw(1), of c] by simp
  next
    have "sleep_list (st'\<lparr>clock := now\<rparr>) = sleep_list st" using tw(2) by simp
    then show "sorted (map (twakes (st'\<lparr>clock := now\<rparr>)) (sleep_list (st'\<lparr>clock := now\<rparr>)))" "distinct (sleep_list (st'\<lparr>clock := now\<rparr>))"
      using s unfolding tw(1) by simp_all
  qed
qed

lemma sleep_ok:
  assumes ok: "timer_ok st" and a: "a \<notin> set (sleep_list st)" "al_phase (alarms st a) = Free"
    and t: "clock st \<le> now" "now \<le> now1" and run: "alarm_sleep a tcnt now now1 st = Some (b, st')"
  shows "timer_ok (st'\<lparr>clock := now1\<rparr>)"
proof -
  note d = timer_okD [OF ok]
  define tw where "tw = (if - 1 - twakes st a < tcnt then - 1 else twakes st a + tcnt)"
  define st1 where "st1 = set_alarm a ((alarms st a)\<lparr>twake := tw\<rparr>) st"
  have cl: "clock st \<le> now1" using t by simp
  show ?thesis
  proof (cases "tw < now")
    case True
    then have "st' = st1" using run by (auto simp: alarm_sleep_def Let_def st1_def tw_def)
    then show ?thesis unfolding st1_def by (simp add: set_free_ok [OF ok a(1) _ cl] a(2))
  next
    case False
    define st3 where "st3 = st1\<lparr>sleep_list := insert_alarm (twakes st1) a (sleep_list st),
       stcmp := twakes st1 (hd (insert_alarm (twakes st1) a (sleep_list st))), stie := (stie st1 \<or> sleep_list st = [])\<rparr>"
    have r: "alarm_turn a now1 st3 = (b, st')"
      using run False a(1) by (simp add: alarm_sleep_def Let_def st1_def tw_def st3_def split: if_splits)
    have al: "alarms st3 c = (if c = a then (alarms st a)\<lparr>twake := tw\<rparr> else alarms st c)" for c by (simp add: st3_def st1_def)
    have "map (twakes st1) (sleep_list st) = map (twakes st) (sleep_list st)"
      using a(1) by (intro map_cong) (auto simp: st1_def)
    then have "sorted (map (twakes st1) (sleep_list st))" using d(1) by (simp only:)
    from sorted_insert_alarm [OF this, of a] have s: "sorted (map (twakes st3) (sleep_list st3))" by (simp add: st3_def)
    show ?thesis
    proof (rule turn_ok [OF s _ _ _ _ r])
      show "distinct (sleep_list st3)" using d(2) a(1) by (simp add: st3_def distinct_insert_alarm)
      show "b \<in> set (sleep_list st3)" if "b \<noteq> a" "al_phase (alarms st3 b) = Asleep" for b
      proof -
        have "al_phase (alarms st b) = Asleep" using that by (simp add: al)
        from d(3) [OF this] show ?thesis by (simp add: st3_def)
      qed
      show "twakes st3 b \<le> now1" if "b \<noteq> a" "al_phase (alarms st3 b) = Woken" for b
        using that d(4) [of b] cl by (simp add: al)
      show "a \<in> set (sleep_list st3)" by (simp add: st3_def)
    qed
  qed
qed

lemma handler_spec:
  assumes ok: "timer_ok st"
  shows "sleep_list (handle_timer_interrupt now st) = filter (\<lambda>a. now < twakes st a) (sleep_list st)"
    and "alarms (handle_timer_interrupt now st) a =
      (if twakes st a \<le> now \<and> al_phase (alarms st a) = Asleep then (alarms st a)\<lparr>al_phase := Woken\<rparr> else alarms st a)"
    and "\<not> stie (handle_timer_interrupt now st)" and "clock (handle_timer_interrupt now st) = clock st"
    and "\<forall>a\<in>set (sleep_list (handle_timer_interrupt now st)). stcmp (handle_timer_interrupt now st) \<le> twakes st a"
proof -
  note d = timer_okD [OF ok]
  note p = pop_due_spec [OF d(1) refl d(2), of now]
  let ?h = "handle_timer_interrupt now st" and ?p = "pop_due now (sleep_list st) st"
  have e: "sleep_list ?h = sleep_list ?p" "alarms ?h = alarms ?p" "\<not> stie ?h" "clock ?h = clock ?p"
    "stcmp ?h = next_compare (next_tick ?h) ?p"
    by (simp_all add: handle_timer_interrupt_def Let_def)
  show l: "sleep_list ?h = filter (\<lambda>a. now < twakes st a) (sleep_list st)" and "\<not> stie ?h" "clock ?h = clock st"
    using e p by simp_all
  have al: "alarms ?h a =
      (if twakes st a \<le> now \<and> al_phase (alarms st a) = Asleep then (alarms st a)\<lparr>al_phase := Woken\<rparr> else alarms st a)" for a
    using p(2) [of a] d(3) [of a] e(2) by auto
  then show "alarms ?h a =
      (if twakes st a \<le> now \<and> al_phase (alarms st a) = Asleep then (alarms st a)\<lparr>al_phase := Woken\<rparr> else alarms st a)" .
  have tw: "twakes ?p b = twakes st b" for b using al [of b] e(2) by simp
  show "\<forall>a\<in>set (sleep_list ?h). stcmp ?h \<le> twakes st a"
  proof (cases "sleep_list ?h")
    case (Cons x xs)
    have "sorted (map (twakes st) (sleep_list ?h))" unfolding l using d(1) by (rule sorted_filter)
    moreover have "sleep_list ?p = x # xs" using e(1) Cons by simp
    then have "stcmp ?h \<le> twakes st x" using e(5) tw by (auto simp: next_compare_def not_less)
    ultimately show ?thesis using Cons by auto
  qed simp
qed


lemma step_ok:
  assumes "timer_step st st'" and ok: "timer_ok st"
  shows "timer_ok st'"
  using assms(1)
proof cases
  case (init a now)
  show ?thesis unfolding init(1) alarm_init_def by (rule set_free_ok [OF ok init(2) _ init(4)]) simp
next
  case (reset a now)
  show ?thesis unfolding reset(1) alarm_reset_def by (rule set_free_ok [OF ok reset(2) _ reset(4)]) (simp add: reset(3))
next
  case (sleep a now now1 tcnt b st1)
  show ?thesis unfolding sleep(1) by (rule sleep_ok [OF ok sleep(2-6)])
next
  case (again a now b st1)
  note d = timer_okD [OF ok]
  have "twakes st a \<le> now" using d(4) [OF again(2)] again(3) by simp
  show ?thesis unfolding again(1)
  proof (rule turn_ok [OF d(1,2) _ _ _ again(4)])
    show "b \<noteq> a \<Longrightarrow> al_phase (alarms st b) = Woken \<Longrightarrow> twakes st b \<le> now" for b using d(4) [of b] again(3) by simp
    show "now < twakes st a \<Longrightarrow> a \<in> set (sleep_list st)" using \<open>twakes st a \<le> now\<close> by simp
  qed (rule d(3))
next
  case (interrupt now)
  note d = timer_okD [OF ok] and h = handler_spec [OF ok, of now]
  let ?h = "(handle_timer_interrupt now st)\<lparr>clock := now\<rparr>"
  have tw: "twakes ?h = twakes st" using h(2) by auto
  show ?thesis unfolding interrupt(1)
  proof (rule timer_okI)
    show "sorted (map (twakes ?h) (sleep_list ?h))" unfolding tw using d(1) by (simp add: h(1) sorted_filter)
    show "distinct (sleep_list ?h)" using d(2) by (simp add: h(1))
    show "al_phase (alarms ?h a) = Asleep \<Longrightarrow> a \<in> set (sleep_list ?h)" for a
      using d(3) [of a] by (auto simp: h(1,2) not_le split: if_splits)
    show "al_phase (alarms ?h a) = Woken \<Longrightarrow> twakes ?h a \<le> clock ?h" for a
      using d(4) [of a] interrupt(4) by (auto simp: h(2) split: if_splits)
  qed
qed

lemma timer_reach_ok: "timer_reach st \<Longrightarrow> timer_ok st"
proof (induction rule: timer_reach.induct)
  case start
  show ?case by (rule timer_okI) (simp_all add: timer_init_def)
next
  case (step st st')
  then show ?case using step_ok by blast
qed

section \<open>Properties\<close>


text \<open>Two threads go to sleep, and the interrupt wakes the first.\<close>

definition timer_demo :: timer where
  "timer_demo = (snd (the (alarm_sleep 2 20 1 1 ((snd (the (alarm_sleep 1 10 1 1 timer_init)))\<lparr>clock := 1\<rparr>))))\<lparr>clock := 1\<rparr>"

lemma timer_demo_state:
  "map_option fst (alarm_sleep 1 10 1 1 timer_init) = Some False"
  "al_phase (alarms timer_demo 1) = Asleep" "twakes timer_demo 1 = 10"
  "al_phase (alarms timer_demo 2) = Asleep" "twakes timer_demo 2 = 20" "stie timer_demo" "stcmp timer_demo = 10" "clock timer_demo = 1"
  by code_simp+

lemma timer_demo_reach: "timer_reach timer_demo"
proof -
  define s where "s = (snd (the (alarm_sleep 1 10 1 1 timer_init)))\<lparr>clock := 1\<rparr>"
  have e: "x = Some (b, snd (the x))" if "map_option fst x = Some b" for x :: "(bool \<times> timer) option" and b
    using that by auto
  have "timer_reach s" unfolding s_def
    by (rule timer_reach.step [OF timer_reach.start timer_step.sleep [OF _ _ _ _ e [OF timer_demo_state(1)]]]) (simp_all add: timer_init_def)
  moreover have "2 \<notin> set (sleep_list s)" "al_phase (alarms s 2) = Free" "clock s \<le> 1"
    "map_option fst (alarm_sleep 2 20 1 1 s) = Some False" unfolding s_def by code_simp+
  ultimately show ?thesis
    unfolding timer_demo_def s_def [symmetric] by (intro timer_reach.step [OF _ timer_step.sleep [of 2 s 1 1 20 False]]) (auto intro: e)
qed


text \<open>A thread that is still asleep after a timer interrupt is never woken: the handler clears
  the enable bit of the timer interrupt, and \<open>alarm_sleep\<close> sets it only when the list is
  empty, which it is not any more.\<close>

theorem later_sleepers_stuck:
  assumes "timer_reach st" and "al_phase (alarms st a) = Asleep" and "now < twakes st a"
    and "rtranclp timer_step ((handle_timer_interrupt now st)\<lparr>clock := now\<rparr>) st'"
  shows "al_phase (alarms st' a) = Asleep \<and> \<not> stie st'"
proof -
  note ok = timer_reach_ok [OF assms(1)]
  note h = handler_spec [OF ok, of now]
  have "a \<in> set (sleep_list st)" by (rule timer_okD(3) [OF ok assms(2)])
  from assms(4) have "\<not> stie st' \<and> a \<in> set (sleep_list st') \<and> al_phase (alarms st' a) = Asleep"
  proof (induction rule: rtranclp_induct)
    case base
    show ?case using h(1-3) \<open>a \<in> set (sleep_list st)\<close> assms(2,3) by simp
  next
    case (step s1 s2)
    from step.hyps(2) show ?case
    proof cases
      case (sleep b now now1 tcnt r s3)
      have "b \<noteq> a" using sleep(2) step.IH by auto
      then show ?thesis
        using sleep(1,6) step.IH
        by (auto simp: alarm_sleep_def Let_def alarm_turn_def set_phase_def split: if_splits)
    next
      case (again b now r s3)
      have "b \<noteq> a" using again(2) step.IH by auto
      then show ?thesis using again(1,4) step.IH by (auto simp: alarm_turn_def set_phase_def split: if_splits)
    qed (use step.IH in \<open>auto simp: alarm_init_def alarm_reset_def\<close>)
  qed
  then show ?thesis by blast
qed

lemma later_sleepers_stuck_witness:
  "\<exists>st. timer_reach st \<and> stie st \<and> al_phase (alarms st 2) = Asleep \<and>
     (\<forall>st'. rtranclp timer_step ((handle_timer_interrupt 10 st)\<lparr>clock := 10\<rparr>) st' \<longrightarrow> al_phase (alarms st' 2) = Asleep)"
proof (intro exI conjI allI impI)
  show "timer_reach timer_demo" "stie timer_demo" "al_phase (alarms timer_demo 2) = Asleep"
    by (rule timer_demo_reach, rule timer_demo_state(6), rule timer_demo_state(4))
  show "al_phase (alarms st' 2) = Asleep" if "rtranclp timer_step ((handle_timer_interrupt 10 timer_demo)\<lparr>clock := 10\<rparr>) st'" for st'
    using later_sleepers_stuck [OF timer_demo_reach timer_demo_state(4) _ that] timer_demo_state(5) by simp
qed

end
