(* ===== verification/FileSys.thy ===== *)
theory FileSys
  imports CString
begin

text \<open>
  The file system manager, \<open>modified/sys/filesys.c\<close>: mount points, the dispatch to the mounted
  file systems, the listing of mount points, and the parsing of paths.  A mounted file system is
  its table of functions; \<open>'u\<close> are the uio objects that it opens and \<open>'w\<close> its state.  The value
  of \<open>EEXIST\<close> is in a header that is not in the repository, so it is an argument.
\<close>

section \<open>State\<close>

record ('u, 'w) filesystem =
  fs_open :: "(bytes option \<Rightarrow> 'w \<Rightarrow> (int + 'u) \<times> 'w) option"
  fs_create :: "(bytes \<Rightarrow> 'w \<Rightarrow> int \<times> 'w) option"
  fs_delete :: "(bytes \<Rightarrow> 'w \<Rightarrow> int \<times> 'w) option"
  fs_flush :: "('w \<Rightarrow> 'w) option"

text \<open>The list of mount points: names (without the NUL) and file systems, the oldest first.\<close>

type_synonym ('u, 'w) mounts = "(bytes \<times> ('u, 'w) filesystem) list"

section \<open>Mounting\<close>

fun getfs :: "bytes \<Rightarrow> ('u, 'w) mounts \<Rightarrow> ('u, 'w) filesystem option" where
  "getfs mp [] = None"
| "getfs mp ((nm, fs) # ms) = (if strcmp (Some (nm @ [0])) (Some (mp @ [0])) = Some 0 then Some fs else getfs mp ms)"

text \<open>The walk to the end of the list; the new entry goes there.\<close>

fun attach_filesystem :: "int \<Rightarrow> bytes \<Rightarrow> ('u, 'w) filesystem \<Rightarrow> ('u, 'w) mounts \<Rightarrow> int \<times> ('u, 'w) mounts" where
  "attach_filesystem EEXIST mp fs [] = (0, [(mp, fs)])"
| "attach_filesystem EEXIST mp fs ((nm, f) # ms) =
     (if strcmp (Some (nm @ [0])) (Some (mp @ [0])) = Some 0 then (- EEXIST, (nm, f) # ms)
      else (case attach_filesystem EEXIST mp fs ms of (rc, ms') \<Rightarrow> (rc, (nm, f) # ms')))"

definition nullfs :: "('u, 'w) filesystem" where
  "nullfs = \<lparr>fs_open = Some (\<lambda>_ w. (Inl (- ENOENT), w)), fs_create = None, fs_delete = None, fs_flush = Some (\<lambda>w. w)\<rparr>"

definition mount_nullfs :: "int \<Rightarrow> bytes \<Rightarrow> ('u, 'w) mounts \<Rightarrow> int \<times> ('u, 'w) mounts" where
  "mount_nullfs EEXIST nm = attach_filesystem EEXIST nm nullfs"

section \<open>Dispatch\<close>

definition fsopen :: "('u, 'w) filesystem \<Rightarrow> bytes option \<Rightarrow> 'w \<Rightarrow> (int + 'u) \<times> 'w" where
  "fsopen fs fl w = (case fs_open fs of Some f \<Rightarrow> f fl w | None \<Rightarrow> (Inl (- ENOTSUP), w))"

definition fscreate :: "('u, 'w) filesystem \<Rightarrow> bytes \<Rightarrow> 'w \<Rightarrow> int \<times> 'w" where
  "fscreate fs fl w = (case fs_create fs of Some f \<Rightarrow> f fl w | None \<Rightarrow> (- ENOTSUP, w))"

definition fsdelete :: "('u, 'w) filesystem \<Rightarrow> bytes \<Rightarrow> 'w \<Rightarrow> int \<times> 'w" where
  "fsdelete fs fl w = (case fs_delete fs of Some f \<Rightarrow> f fl w | None \<Rightarrow> (- ENOTSUP, w))"

definition fsflush :: "('u, 'w) filesystem \<Rightarrow> 'w \<Rightarrow> 'w" where
  "fsflush fs w = (case fs_flush fs of Some f \<Rightarrow> f w | None \<Rightarrow> w)"

definition fsmgr_flushall :: "('u, 'w) mounts \<Rightarrow> 'w \<Rightarrow> 'w" where
  "fsmgr_flushall ms w = fold (\<lambda>(_, fs). fsflush fs) ms w"

text \<open>What is opened: an object of a file system, or a listing that stands at a mount point.\<close>

datatype ('u, 'm) opened = File 'u | Listing 'm

definition fs_open_listing :: "('u, 'w) mounts \<Rightarrow> int + ('u, ('u, 'w) mounts) opened" where
  "fs_open_listing ms = Inr (Listing ms)"

definition open_file :: "bytes option \<Rightarrow> bytes option \<Rightarrow> ('u, 'w) mounts \<Rightarrow> 'w \<Rightarrow> ((int + ('u, ('u, 'w) mounts) opened) \<times> 'w) option" where
  "open_file mp fl ms w =
     (if mp = None \<and> fl \<noteq> None then None
      else if mp = None \<or> mp = Some [] then Some (fs_open_listing ms, w)
      else case getfs (the mp) ms of
        None \<Rightarrow> Some (Inl (- ENOENT), w)
      | Some fs \<Rightarrow> (case fsopen fs fl w of (r, w1) \<Rightarrow> Some (map_sum id File r, w1)))"

definition create_file :: "bytes option \<Rightarrow> bytes option \<Rightarrow> ('u, 'w) mounts \<Rightarrow> 'w \<Rightarrow> int \<times> 'w" where
  "create_file mp fl ms w =
     (case (mp, fl) of
        (Some m, Some f) \<Rightarrow> (case getfs m ms of None \<Rightarrow> (- ENOENT, w) | Some fs \<Rightarrow> fscreate fs f w)
      | _ \<Rightarrow> (- EINVAL, w))"

definition delete_file :: "bytes option \<Rightarrow> bytes option \<Rightarrow> ('u, 'w) mounts \<Rightarrow> 'w \<Rightarrow> int \<times> 'w" where
  "delete_file mp fl ms w =
     (case (mp, fl) of
        (Some m, Some f) \<Rightarrow> (case getfs m ms of None \<Rightarrow> (- ENOENT, w) | Some fs \<Rightarrow> fsdelete fs f w)
      | _ \<Rightarrow> (- EINVAL, w))"

text \<open>The next name: the count, the buffer and the new position.  \<open>None\<close>: the buffer is shorter
  than \<open>bufsz\<close>.\<close>

definition fs_listing_read :: "bytes \<Rightarrow> nat \<Rightarrow> ('u, 'w) mounts \<Rightarrow> (nat \<times> bytes \<times> ('u, 'w) mounts) option" where
  "fs_listing_read buf bufsz ls =
     (case ls of
        [] \<Rightarrow> Some (0, buf, [])
      | (nm, _) # ms \<Rightarrow> map_option (\<lambda>b. (if length nm < bufsz then length nm else bufsz, b, ms)) (strncpy buf (nm @ [0]) bufsz))"

section \<open>Paths\<close>

text \<open>The scan for the slash; \<open>None\<close>: past the end of the string.\<close>

fun scan_slash :: "bytes \<Rightarrow> nat \<Rightarrow> nat option" where
  "scan_slash [] i = None"
| "scan_slash (c # cs) i = (if c \<noteq> 47 \<and> c \<noteq> 0 then scan_slash cs (Suc i) else Some i)"

text \<open>The path with a NUL for the slash, and where the file name begins; the name of the mount
  point begins the path.  \<open>Inl\<close> is the error.\<close>

definition parse_path :: "bytes option \<Rightarrow> (int + bytes \<times> nat option) option" where
  "parse_path path =
     (case path of
        None \<Rightarrow> Some (Inl (- EINVAL))
      | Some p \<Rightarrow>
          if p = [] \<or> p = [47] then None
          else if p ! 0 = 47 \<and> p ! 1 = 0 then Some (Inr (p[0 := 0], None))
          else case scan_slash p 0 of
            None \<Rightarrow> None
          | Some i \<Rightarrow>
              if p ! i = 0 then Some (Inl (- EINVAL))
              else if i = 0 then Some (Inl (- EINVAL))
              else Some (Inr (p[i := 0], Some (i + 1))))"

definition path_names :: "bytes \<times> nat option \<Rightarrow> bytes \<times> bytes option" where
  "path_names r = (case r of (p, fl) \<Rightarrow> (cstr p, map_option (\<lambda>i. cstr (drop i p)) fl))"

section \<open>Mount points as a map\<close>

lemma strcmp_names: "0 \<notin> set a \<Longrightarrow> 0 \<notin> set b \<Longrightarrow> strcmp (Some (a @ [0])) (Some (b @ [0])) = Some 0 \<longleftrightarrow> a = b"
  by (simp add: strcmp_def strcmp_loop_zero nul_terminated_def)

definition named :: "('u, 'w) mounts \<Rightarrow> bool" where
  "named ms \<longleftrightarrow> (\<forall>(nm, fs)\<in>set ms. 0 \<notin> set nm)"

lemma getfs_map: "named ms \<Longrightarrow> 0 \<notin> set mp \<Longrightarrow> getfs mp ms = map_of ms mp"
  by (induction ms) (auto simp: strcmp_names named_def)

lemma attach_map:
  assumes "named ms" and "0 \<notin> set mp"
  shows "attach_filesystem e mp fs ms = (if map_of ms mp \<noteq> None then (- e, ms) else (0, ms @ [(mp, fs)]))"
  using assms by (induction ms) (auto simp: strcmp_names named_def)

text \<open>Mounting adds one name to what can be found and changes no other; a name in use is refused.\<close>

lemma attach_getfs:
  assumes "named ms" and "0 \<notin> set mp" and "attach_filesystem e mp fs ms = (rc, ms')" and "e \<noteq> 0"
  shows "(rc = 0 \<longleftrightarrow> getfs mp ms = None) \<and> named ms' \<and>
     (\<forall>nm. 0 \<notin> set nm \<longrightarrow> getfs nm ms' = (if rc = 0 \<and> nm = mp then Some fs else getfs nm ms))"
proof -
  have n: "named (ms @ [(mp, fs)])" using assms(1,2) by (auto simp: named_def)
  have no: "getfs mp ms = map_of ms mp" using assms(1,2) by (simp add: getfs_map)
  have g: "getfs nm (ms @ [(mp, fs)]) = (if nm = mp then Some fs else getfs nm ms)" if "0 \<notin> set nm" "map_of ms mp = None" for nm
    using n assms(1) that by (auto simp: getfs_map map_add_def split: option.split)
  show ?thesis
    using assms(3,4) n g no assms(1) unfolding attach_map [OF assms(1,2)] by (auto split: if_splits)
qed

lemma scan_slash_append: "47 \<notin> set m \<Longrightarrow> 0 \<notin> set m \<Longrightarrow> scan_slash (m @ c # r) i = (if c \<noteq> 47 \<and> c \<noteq> 0 then scan_slash r (i + length m + 1) else Some (i + length m))"
  by (induction m arbitrary: i) auto

lemma parse_path_join:
  assumes m: "m \<noteq> []" "47 \<notin> set m" "0 \<notin> set m" and f: "0 \<notin> set f"
  shows "\<exists>x. parse_path (Some (m @ 47 # f @ 0 # r)) = Some (Inr x) \<and> path_names x = (m, Some f)"
proof -
  let ?p = "m @ 47 # f @ 0 # r"
  have "?p ! 0 = m ! 0" using m(1) by (simp add: nth_append)
  then have "?p ! 0 \<noteq> 47" using m by (metis length_greater_0_conv nth_mem)
  moreover have "scan_slash ?p 0 = Some (length m)" using m by (simp add: scan_slash_append)
  moreover have "?p[length m := 0] = m @ 0 # f @ 0 # r" by (simp add: list_update_append)
  ultimately have "parse_path (Some ?p) = Some (Inr (m @ 0 # f @ 0 # r, Some (length m + 1)))"
    using m(1) by (simp add: parse_path_def)
  then show ?thesis using m(3) f by (intro exI [of _ "(m @ 0 # f @ 0 # r, Some (length m + 1))"]) (simp add: path_names_def)
qed

lemma mounts_demo: "attach_filesystem 1 [99] nullfs [] = (0, [([99], nullfs)])"
  by simp

text \<open>C30: A path leads to the file system mounted under its first component: after a file system
  has been attached under a new name, opening \<open>name/file\<close>, as parsed, calls its \<open>open\<close> with the
  file name, and paths under other names lead where they led before.\<close>

theorem mounted_path_opens:
  assumes "named ms" and m: "m \<noteq> []" "47 \<notin> set m" "0 \<notin> set m" and f: "0 \<notin> set f" and new: "getfs m ms = None" and "e \<noteq> 0"
  shows "\<exists>ms'. attach_filesystem e m fs ms = (0, ms') \<and>
     (\<forall>r w. \<exists>x. parse_path (Some (m @ 47 # f @ 0 # r)) = Some (Inr x) \<and>
        open_file (Some (fst (path_names x))) (snd (path_names x)) ms' w = Some (map_prod (map_sum id File) id (fsopen fs (Some f) w))) \<and>
     (\<forall>nm. 0 \<notin> set nm \<and> nm \<noteq> m \<longrightarrow> getfs nm ms' = getfs nm ms)"
proof -
  obtain rc ms' where a: "attach_filesystem e m fs ms = (rc, ms')" by (cases "attach_filesystem e m fs ms")
  note g = attach_getfs [OF assms(1) m(3) a assms(7)]
  have rc: "rc = 0" using g new by simp
  have o1: "open_file (Some m) (Some f) ms' w = Some (map_prod (map_sum id File) id (fsopen fs (Some f) w))" for w
    using g rc m(1,3) by (cases "fsopen fs (Some f) w") (auto simp: open_file_def)
  show ?thesis
    using a rc g o1 parse_path_join [OF m f] by (intro exI [of _ ms']) (metis fst_conv snd_conv)
qed

lemma mounted_path_opens_witness:
  "\<exists>x. parse_path (Some [99, 47, 97, 0]) = Some (Inr x) \<and>
     open_file (Some (fst (path_names x))) (snd (path_names x)) [([99], nullfs :: (nat, unit) filesystem)] () = Some (Inl (- 7), ())"
proof -
  have "named ([] :: (nat, unit) mounts)" by (simp add: named_def)
  from mounted_path_opens [OF this, of "[99]" "[97]" 1 nullfs] show ?thesis
    by (auto simp: fsopen_def nullfs_def)
qed

end
