(* ===== verification/Files.thy ===== *)
theory Files
  imports FileSys Pipe Validate
begin

text \<open>
  Open files of processes: the descriptor tables of \<open>modified/sys/process.c\<close> and the system
  calls of \<open>modified/sys/syscall.c\<close> that work on them.  A uio object is named by its address and
  is a file or device, a listing of mount points, or an end of a pipe.  The interface of a file
  works on the state of the devices and file systems, \<open>'w\<close>, and on the word that the argument
  of a control call points at; what a read stores into the buffer of its caller is part of its
  outcome.  The addresses that the allocator gives to new objects are arguments.
\<close>

section \<open>State\<close>

record 'w devs =
  dev_state :: 'w
  dev_arg :: u64

type_synonym 'w intf = "('w devs, int \<times> bytes) uio_intf"

datatype pipe_side = Rd | Wr

datatype 'w uobj = Obj "'w intf" | Lst "(nat, 'w) mounts" | End pipe_side nat

text \<open>\<open>p_alloc\<close>: the structure has been allocated.\<close>

record process =
  p_alloc :: bool
  p_tid :: int
  p_mtag :: u64
  uiotab :: "nat option list"

text \<open>Pipes are named by their addresses too; \<open>k_page\<close> is the page of a pipe's buffer.\<close>

record 'w kernel =
  k_vm :: vm
  k_mounts :: "(nat, 'w) mounts"
  k_obj :: "nat \<Rightarrow> 'w uobj"
  k_ref :: "nat \<Rightarrow> nat"
  k_devs :: "'w devs"
  k_pipe :: "nat \<Rightarrow> pipe"
  k_page :: "nat \<Rightarrow> nat"
  k_proc :: "nat \<Rightarrow> process"
  k_cur :: nat

abbreviation (input) PROCESS_UIOMAX :: nat where "PROCESS_UIOMAX \<equiv> 16"

abbreviation tab :: "'w kernel \<Rightarrow> nat \<Rightarrow> nat option list" where
  "tab k p \<equiv> uiotab (k_proc k p)"

definition set_fd :: "nat \<Rightarrow> nat \<Rightarrow> nat option \<Rightarrow> 'w kernel \<Rightarrow> 'w kernel" where
  "set_fd p i u k = k\<lparr>k_proc := (k_proc k)(p := (k_proc k p)\<lparr>uiotab := (tab k p)[i := u]\<rparr>)\<rparr>"

section \<open>Objects\<close>

definition fs_listing_intf :: "((nat, 'w) mounts, int \<times> bytes) uio_intf" where
  "fs_listing_intf =
     \<lparr>intf_close = Some (\<lambda>ls. ls),
      intf_read = Some (\<lambda>n ls. case fs_listing_read (replicate n 0) n ls of
          None \<Rightarrow> ((0, []), ls) | Some (c, b, ls') \<Rightarrow> ((int c, if ls = [] then [] else b), ls')),
      intf_write = None, intf_cntl = None\<rparr>"

definition pipe_intf :: "pipe_side \<Rightarrow> (pipe, pipe_outcome) uio_intf" where
  "pipe_intf s = (case s of Rd \<Rightarrow> read_pipe_intf | Wr \<Rightarrow> write_pipe_intf)"

text \<open>The close of the second end gives the page of the buffer back.\<close>

definition put_pipe :: "nat \<Rightarrow> pipe \<Rightarrow> 'w kernel \<Rightarrow> 'w kernel" where
  "put_pipe q p k =
     k\<lparr>k_pipe := (k_pipe k)(q := p),
       k_vm := (if page_frees p > page_frees (k_pipe k q) then drop_page (k_page k q) (k_vm k) else k_vm k)\<rparr>"

definition k_close :: "nat \<Rightarrow> 'w kernel \<Rightarrow> 'w kernel" where
  "k_close u k =
     (case k_obj k u of
        Obj f \<Rightarrow> (case uio_close f (k_ref k u) (k_devs k) of (r, d) \<Rightarrow> k\<lparr>k_ref := (k_ref k)(u := r), k_devs := d\<rparr>)
      | Lst ls \<Rightarrow> (case uio_close fs_listing_intf (k_ref k u) ls of (r, ls') \<Rightarrow> k\<lparr>k_ref := (k_ref k)(u := r), k_obj := (k_obj k)(u := Lst ls')\<rparr>)
      | End s q \<Rightarrow> (case uio_close (pipe_intf s) (k_ref k u) (k_pipe k q) of (r, p) \<Rightarrow> put_pipe q p (k\<lparr>k_ref := (k_ref k)(u := r)\<rparr>)))"

definition k_addref :: "nat \<Rightarrow> 'w kernel \<Rightarrow> 'w kernel" where
  "k_addref u k = k\<lparr>k_ref := (k_ref k)(u := uio_addref (k_ref k u))\<rparr>"

text \<open>The outcome of a call: an error of the dispatch, or that of the method.\<close>

definition outcome_of :: "int + int \<times> bytes \<Rightarrow> pipe_outcome" where
  "outcome_of r = (case r of Inl e \<Rightarrow> Transfers e [] | Inr (n, bs) \<Rightarrow> Transfers n bs)"

definition pipe_outcome_of :: "int + pipe_outcome \<Rightarrow> pipe_outcome" where
  "pipe_outcome_of r = (case r of Inl e \<Rightarrow> Transfers e [] | Inr x \<Rightarrow> x)"

definition k_read :: "nat \<Rightarrow> u64 \<Rightarrow> 'w kernel \<Rightarrow> pipe_outcome \<times> 'w kernel" where
  "k_read u n k =
     (case k_obj k u of
        Obj f \<Rightarrow> (case uio_read f n (k_devs k) of (r, d) \<Rightarrow> (outcome_of r, k\<lparr>k_devs := d\<rparr>))
      | Lst ls \<Rightarrow> (case uio_read fs_listing_intf n ls of (r, ls') \<Rightarrow> (outcome_of r, k\<lparr>k_obj := (k_obj k)(u := Lst ls')\<rparr>))
      | End s q \<Rightarrow> (case uio_read (pipe_intf s) n (k_pipe k q) of (r, p) \<Rightarrow> (pipe_outcome_of r, put_pipe q p k)))"

definition k_write :: "nat \<Rightarrow> bytes \<Rightarrow> 'w kernel \<Rightarrow> pipe_outcome \<times> 'w kernel" where
  "k_write u bs k =
     (case k_obj k u of
        Obj f \<Rightarrow> (case uio_write f bs (k_devs k) of (r, d) \<Rightarrow> (outcome_of r, k\<lparr>k_devs := d\<rparr>))
      | Lst ls \<Rightarrow> (outcome_of (fst (uio_write fs_listing_intf bs ls)), k)
      | End s q \<Rightarrow> (case uio_write (pipe_intf s) bs (k_pipe k q) of (r, p) \<Rightarrow> (pipe_outcome_of r, put_pipe q p k)))"

text \<open>A control call with the word that its argument points at, before and after.\<close>

definition k_cntl :: "nat \<Rightarrow> int \<Rightarrow> u64 \<Rightarrow> 'w kernel \<Rightarrow> (int \<times> u64) \<times> 'w kernel" where
  "k_cntl u cmd a k =
     (case k_obj k u of
        Obj f \<Rightarrow> (case uio_cntl f cmd ((k_devs k)\<lparr>dev_arg := a\<rparr>) of
                    (Inl e, d) \<Rightarrow> ((e, dev_arg d), k\<lparr>k_devs := d\<rparr>) | (Inr (rc, _), d) \<Rightarrow> ((rc, dev_arg d), k\<lparr>k_devs := d\<rparr>))
      | _ \<Rightarrow> ((- ENOTSUP, a), k))"

text \<open>A file or a listing is opened as a new object with one reference.\<close>

definition new_obj :: "nat \<Rightarrow> 'w uobj \<Rightarrow> 'w kernel \<Rightarrow> 'w kernel" where
  "new_obj u x k = k\<lparr>k_obj := (k_obj k)(u := x), k_ref := (k_ref k)(u := 1)\<rparr>"

definition k_open :: "bytes option \<Rightarrow> bytes option \<Rightarrow> nat \<Rightarrow> 'w intf \<Rightarrow> 'w kernel \<Rightarrow> ((int + nat) \<times> 'w kernel) option" where
  "k_open mp fl new f k =
     (case open_file mp fl (k_mounts k) (dev_state (k_devs k)) of
        None \<Rightarrow> None
      | Some (r, w) \<Rightarrow>
          let k1 = k\<lparr>k_devs := (k_devs k)\<lparr>dev_state := w\<rparr>\<rparr> in
          Some (case r of
                  Inl e \<Rightarrow> (Inl e, k1)
                | Inr (File u) \<Rightarrow> (Inr u, new_obj u (Obj f) k1)
                | Inr (Listing ls) \<Rightarrow> (Inr new, new_obj new (Lst ls) k1)))"

text \<open>A new pipe \<open>q\<close> with its two ends.\<close>

definition k_create_pipe :: "nat \<Rightarrow> nat \<Rightarrow> nat \<Rightarrow> 'w kernel \<Rightarrow> 'w kernel option" where
  "k_create_pipe w r q k =
     (case alloc_phys_page (vm_free (k_vm k)) of
        None \<Rightarrow> None
      | Some (pp, cs) \<Rightarrow>
          Some (new_obj w (End Wr q) (new_obj r (End Rd q)
            (k\<lparr>k_vm := (k_vm k)\<lparr>vm_free := cs\<rparr>, k_page := (k_page k)(q := pp),
               k_pipe := (k_pipe k)(q := create_pipe (vm_pages (k_vm k) pp))\<rparr>))))"

section \<open>Memory of the running process\<close>

definition user_get :: "vm \<Rightarrow> u64 \<Rightarrow> nat \<Rightarrow> bytes" where
  "user_get vm a n = map (\<lambda>i. user_byte vm (active_space_ptab vm) (a + of_nat i)) [0..<n]"

definition user_set :: "u64 \<Rightarrow> u8 \<Rightarrow> vm \<Rightarrow> vm" where
  "user_set a b vm =
     (case walk vm (active_space_ptab vm) a of
        None \<Rightarrow> vm
      | Some (p0, i) \<Rightarrow>
          let pp = pte_page (pt_entry vm p0 i) in set_page pp ((vm_pages vm pp)[unat a mod PAGE_SIZE := b]) vm)"

fun user_put :: "u64 \<Rightarrow> bytes \<Rightarrow> vm \<Rightarrow> vm" where
  "user_put a [] vm = vm"
| "user_put a (b # bs) vm = user_put (a + 1) bs (user_set a b vm)"

definition k_put :: "u64 \<Rightarrow> bytes \<Rightarrow> 'w kernel \<Rightarrow> 'w kernel" where
  "k_put a bs k = k\<lparr>k_vm := user_put a bs (k_vm k)\<rparr>"

text \<open>The copy of a path in the kernel: at most 127 characters.\<close>

definition copy_path :: "vm \<Rightarrow> u64 \<Rightarrow> bytes option" where
  "copy_path vm path = map_option (\<lambda>p. p[127 := 0]) (strncpy (replicate 128 0) (user_get vm path 128) 128)"

section \<open>System calls\<close>

text \<open>The return value of a call; \<open>None\<close>: the caller sleeps on a pipe.\<close>

definition count_of :: "pipe_outcome \<Rightarrow> int option" where
  "count_of r = (case r of Transfers n _ \<Rightarrow> Some n | Waits \<Rightarrow> None)"

definition bytes_of :: "pipe_outcome \<Rightarrow> bytes" where
  "bytes_of r = (case r of Transfers _ bs \<Rightarrow> bs | Waits \<Rightarrow> [])"

definition fd_of :: "int \<Rightarrow> 'w kernel \<Rightarrow> nat option" where
  "fd_of fd k = (if fd < 0 \<or> int PROCESS_UIOMAX \<le> fd then None else tab k (k_cur k) ! nat fd)"

text \<open>The first descriptor that is free, other than \<open>x\<close>.\<close>

definition free_fd :: "nat option list \<Rightarrow> int \<Rightarrow> nat option" where
  "free_fd t x = List.find (\<lambda>i. t ! i = None \<and> int i \<noteq> x) [0..<PROCESS_UIOMAX]"

definition pick_fd :: "int \<Rightarrow> nat option list \<Rightarrow> int \<Rightarrow> int" where
  "pick_fd fd t x = (if fd < 0 then (case free_fd t x of Some i \<Rightarrow> int i | None \<Rightarrow> fd) else fd)"

definition path_call :: "u64 \<Rightarrow> (bytes \<times> bytes option \<Rightarrow> 'w kernel \<Rightarrow> (int \<times> 'w kernel) option) \<Rightarrow> 'w kernel \<Rightarrow> (int \<times> 'w kernel) option" where
  "path_call path f k =
     (case copy_path (k_vm k) path of
        None \<Rightarrow> None
      | Some p \<Rightarrow>
          (case parse_path (Some p) of
             None \<Rightarrow> None
           | Some (Inl e) \<Rightarrow> Some (e, k)
           | Some (Inr x) \<Rightarrow> f (path_names x) k))"

definition on_devs :: "('w \<Rightarrow> int \<times> 'w) \<Rightarrow> 'w kernel \<Rightarrow> int \<times> 'w kernel" where
  "on_devs f k = (case f (dev_state (k_devs k)) of (rc, w) \<Rightarrow> (rc, k\<lparr>k_devs := (k_devs k)\<lparr>dev_state := w\<rparr>\<rparr>))"

definition sysfscreate :: "u64 \<Rightarrow> 'w kernel \<Rightarrow> (int \<times> 'w kernel) option" where
  "sysfscreate path k =
     (let rc = validate_vstr path (PTE_R OR PTE_U) (k_vm k)
      in if rc < 0 then Some (rc, k)
         else path_call path (\<lambda>(mp, fl) k. Some (on_devs (create_file (Some mp) fl (k_mounts k)) k)) k)"

definition sysfsdelete :: "u64 \<Rightarrow> 'w kernel \<Rightarrow> (int \<times> 'w kernel) option" where
  "sysfsdelete path k =
     (let rc = validate_vstr path (PTE_R OR PTE_U) (k_vm k)
      in if rc < 0 then Some (rc, k)
         else path_call path (\<lambda>(mp, fl) k. Some (on_devs (delete_file (Some mp) fl (k_mounts k)) k)) k)"

definition sysopen :: "int \<Rightarrow> u64 \<Rightarrow> nat \<Rightarrow> 'w intf \<Rightarrow> 'w kernel \<Rightarrow> (int \<times> 'w kernel) option" where
  "sysopen fd path new f k =
     (let rc = validate_vstr path (PTE_R OR PTE_U) (k_vm k); t = tab k (k_cur k)
      in if rc < 0 then Some (rc, k)
         else if fd < - 1 \<or> int PROCESS_UIOMAX \<le> fd then Some (- EBADFD, k)
         else let fd1 = pick_fd fd t (- 1) in
           if fd1 = - 1 then Some (- EMFILE, k)
           else if t ! nat fd1 \<noteq> None then Some (- EBADFD, k)
           else path_call path (\<lambda>(mp, fl) k.
             (case k_open (Some mp) fl new f k of
                None \<Rightarrow> None
              | Some (Inl e, k1) \<Rightarrow> Some (e, k1)
              | Some (Inr u, k1) \<Rightarrow> Some (fd1, set_fd (k_cur k1) (nat fd1) (Some u) k1))) k)"

definition sysclose :: "int \<Rightarrow> 'w kernel \<Rightarrow> int \<times> 'w kernel" where
  "sysclose fd k =
     (case fd_of fd k of
        None \<Rightarrow> (- EBADFD, k)
      | Some u \<Rightarrow> (0, set_fd (k_cur k) (nat fd) None (k_close u k)))"

definition sysread :: "int \<Rightarrow> u64 \<Rightarrow> u64 \<Rightarrow> 'w kernel \<Rightarrow> int option \<times> 'w kernel" where
  "sysread fd ptr bufsz k =
     (case fd_of fd k of
        None \<Rightarrow> (Some (- EBADFD), k)
      | Some u \<Rightarrow>
          let rc = validate_vptr ptr bufsz (PTE_W OR PTE_U) (k_vm k)
          in if rc < 0 then (Some rc, k)
             else (case k_read u bufsz k of (r, k1) \<Rightarrow> (count_of r, k_put ptr (bytes_of r) k1)))"

definition syswrite :: "int \<Rightarrow> u64 \<Rightarrow> u64 \<Rightarrow> 'w kernel \<Rightarrow> int option \<times> 'w kernel" where
  "syswrite fd ptr len k =
     (case fd_of fd k of
        None \<Rightarrow> (Some (- EBADFD), k)
      | Some u \<Rightarrow>
          let rc = validate_vptr ptr len (PTE_R OR PTE_U) (k_vm k)
          in if rc < 0 then (Some rc, k)
             else (case k_write u (user_get (k_vm k) ptr (unat len)) k of (r, k1) \<Rightarrow> (count_of r, k1)))"

text \<open>A call that sleeps in a pipe goes on after a broadcast, in its own process and memory
  space; a read then fills the buffer at \<open>ptr\<close>.\<close>

definition pipe_resume :: "nat \<Rightarrow> nat \<Rightarrow> u64 \<Rightarrow> 'w kernel \<Rightarrow> int option \<times> 'w kernel" where
  "pipe_resume q i ptr k =
     (let p = k_pipe k q; p0 = p\<lparr>runnable := remove_nth i (runnable p)\<rparr>
      in case runnable p ! i of
           ReadCall n \<Rightarrow> (case pipe_read n p0 of (r, p1) \<Rightarrow> (count_of r, k_put ptr (bytes_of r) (put_pipe q p1 k)))
         | WriteCall bs \<Rightarrow> (case pipe_write bs p0 of (r, p1) \<Rightarrow> (count_of r, put_pipe q p1 k)))"

definition sysfcntl :: "int \<Rightarrow> int \<Rightarrow> u64 \<Rightarrow> 'w kernel \<Rightarrow> int \<times> 'w kernel" where
  "sysfcntl fd cmd arg k =
     (case fd_of fd k of
        None \<Rightarrow> (- EBADFD, k)
      | Some u \<Rightarrow>
          let call = (\<lambda>rwxu.
            let rc = validate_vptr arg 8 rwxu (k_vm k)
            in if rc < 0 then (rc, k)
               else (case k_cntl u cmd (get_u64 (user_get (k_vm k) arg 8) 0) k of
                       ((r, a), k1) \<Rightarrow> (r, k_put arg (enc_u64 a) k1)))
          in if cmd = 0 \<or> cmd = 2 then call (PTE_W OR PTE_U)
             else if cmd = 1 \<or> cmd = 3 then call (PTE_R OR PTE_U)
             else if cmd = 4 then call (PTE_W OR PTE_U)
             else (- EINVAL, k))"

definition sysuiodup :: "int \<Rightarrow> int \<Rightarrow> 'w kernel \<Rightarrow> int \<times> 'w kernel" where
  "sysuiodup oldfd newfd k =
     (case fd_of oldfd k of
        None \<Rightarrow> (- EBADFD, k)
      | Some u \<Rightarrow>
          let t = tab k (k_cur k); fd = pick_fd newfd t (- 1)
          in if fd < 0 then (- EMFILE, k)
             else if int PROCESS_UIOMAX \<le> fd then (- EBADFD, k)
             else if t ! nat fd \<noteq> None then (- EBADFD, k)
             else (fd, k_addref u (set_fd (k_cur k) (nat fd) (Some u) k)))"

text \<open>The two descriptors are \<open>int\<close>s in the memory of the process; \<open>w\<close> and \<open>r\<close> are the ends of
  the new pipe \<open>q\<close>.\<close>

definition get_int :: "vm \<Rightarrow> u64 \<Rightarrow> int" where
  "get_int vm a = (let bs = user_get vm a 4 in
     sint (ucast (bs ! 0) OR push_bit 8 (ucast (bs ! 1)) OR push_bit 16 (ucast (bs ! 2)) OR push_bit 24 (ucast (bs ! 3)) :: u32))"

definition enc_int :: "int \<Rightarrow> bytes" where
  "enc_int n = (let w = word_of_int n :: u32 in [ucast w, ucast (drop_bit 8 w), ucast (drop_bit 16 w), ucast (drop_bit 24 w)])"

definition syspipe :: "u64 \<Rightarrow> u64 \<Rightarrow> nat \<Rightarrow> nat \<Rightarrow> nat \<Rightarrow> 'w kernel \<Rightarrow> (int \<times> 'w kernel) option" where
  "syspipe wfdptr rfdptr w r q k =
     (let rc = validate_vptr wfdptr 4 (PTE_W OR PTE_U) (k_vm k); rc2 = validate_vptr rfdptr 4 (PTE_W OR PTE_U) (k_vm k);
          p = k_cur k; t = tab k p; r0 = get_int (k_vm k) rfdptr; wfd = pick_fd (get_int (k_vm k) wfdptr) t r0
      in if rc < 0 then Some (rc, k)
         else if rc2 < 0 then Some (rc2, k)
         else if wfd < 0 \<or> int PROCESS_UIOMAX \<le> wfd then Some (- EBADFD, k)
         else if t ! nat wfd \<noteq> None then Some (- EBUSY, k)
         else let rfd = pick_fd r0 t wfd in
           if rfd < 0 \<or> int PROCESS_UIOMAX \<le> rfd then Some (- EBADFD, k)
           else if t ! nat rfd \<noteq> None then Some (- EBUSY, k)
           else if wfd = rfd then Some (- EBADFD, k)
           else map_option (\<lambda>k1. (0, k_put rfdptr (enc_int rfd) (k_put wfdptr (enc_int wfd)
                  (set_fd p (nat rfd) (Some r) (set_fd p (nat wfd) (Some w) k1))))) (k_create_pipe w r q k))"

end
