(* ===== verification/FileRefs.thy ===== *)
theory FileRefs
  imports Files
begin

text \<open>
  The reference counts of open objects: how many descriptors of all processes name an object, and
  how each operation of \<open>Files\<close> changes that number together with the count in the object.
\<close>

section \<open>Descriptors that name an object\<close>

definition holders :: "'w kernel \<Rightarrow> nat \<Rightarrow> nat" where
  "holders k u = (\<Sum>p | p_alloc (k_proc k p). count_list (tab k p) (Some u))"

abbreviation held :: "'w kernel \<Rightarrow> nat \<Rightarrow> bool" where
  "held k u \<equiv> 0 < holders k u"

definition tables_ok :: "'w kernel \<Rightarrow> bool" where
  "tables_ok k \<longleftrightarrow>
     finite {p. p_alloc (k_proc k p)} \<and> p_alloc (k_proc k (k_cur k)) \<and>
     (\<forall>p. p_alloc (k_proc k p) \<longrightarrow> length (tab k p) = PROCESS_UIOMAX)"

definition end_open :: "pipe_side \<Rightarrow> pipe \<Rightarrow> bool" where
  "end_open s p = (case s of Rd \<Rightarrow> read_open p | Wr \<Rightarrow> write_open p)"

text \<open>The counts are right for all objects but those in \<open>X\<close>, and the ends of the pipes are open
  exactly while a descriptor names them, for all ends but those in \<open>Y\<close>.\<close>

definition refs_ok :: "nat set \<Rightarrow> 'w kernel \<Rightarrow> bool" where
  "refs_ok X k \<longleftrightarrow> (\<forall>u. u \<notin> X \<and> held k u \<longrightarrow> k_ref k u = holders k u)"

definition end_ok :: "'w kernel \<Rightarrow> pipe_side \<Rightarrow> nat \<Rightarrow> bool" where
  "end_ok k s q \<longleftrightarrow>
     (end_open s (k_pipe k q) \<longleftrightarrow> (\<exists>u. held k u \<and> k_obj k u = End s q)) \<and>
     (\<forall>u v. held k u \<and> held k v \<and> k_obj k u = End s q \<and> k_obj k v = End s q \<longrightarrow> u = v)"

definition ends_ok :: "nat set \<Rightarrow> (pipe_side \<times> nat) set \<Rightarrow> 'w kernel \<Rightarrow> bool" where
  "ends_ok X Y k \<longleftrightarrow>
     (\<forall>u s q. u \<in> X \<and> held k u \<and> k_obj k u = End s q \<longrightarrow> (s, q) \<in> Y) \<and>
     (\<forall>s q. (s, q) \<notin> Y \<longrightarrow> end_ok k s q)"

definition files_ok :: "nat set \<Rightarrow> (pipe_side \<times> nat) set \<Rightarrow> 'w kernel \<Rightarrow> bool" where
  "files_ok X Y k \<longleftrightarrow> tables_ok k \<and> refs_ok X k \<and> ends_ok X Y k"

lemma files_okI:
  assumes "tables_ok k" and "\<And>s q. (s, q) \<notin> Y \<Longrightarrow> end_ok k s q" and "refs_ok X k"
    and "\<And>u s q. u \<in> X \<Longrightarrow> held k u \<Longrightarrow> k_obj k u = End s q \<Longrightarrow> (s, q) \<in> Y"
  shows "files_ok X Y k"
  using assms unfolding files_ok_def ends_ok_def by blast

section \<open>Counting\<close>

lemma count_list_update:
  "i < length xs \<Longrightarrow> count_list (xs[i := y]) x + (if xs ! i = x then 1 else 0) = count_list xs x + (if y = x then 1 else 0)"
proof (induction xs arbitrary: i)
  case (Cons z zs)
  show ?case
  proof (cases i)
    case (Suc j)
    then show ?thesis using Cons.IH [of j] Cons.prems by (auto split: if_splits)
  qed simp
qed simp

lemma holders_set_fd:
  assumes t: "tables_ok k" and p: "p_alloc (k_proc k p)" and i: "i < PROCESS_UIOMAX"
  shows "holders (set_fd p i x k) u + (if tab k p ! i = Some u then 1 else 0) = holders k u + (if x = Some u then 1 else 0)"
proof -
  let ?A = "{p. p_alloc (k_proc k p)}"
  have A: "{q. p_alloc (k_proc (set_fd p i x k) q)} = ?A" using p by (auto simp: set_fd_def)
  have fin: "finite ?A" "p \<in> ?A" using t p by (auto simp: tables_ok_def)
  have len: "i < length (tab k p)" using t p i by (auto simp: tables_ok_def)
  have "holders (set_fd p i x k) u = count_list ((tab k p)[i := x]) (Some u) + (\<Sum>q\<in>?A - {p}. count_list (tab k q) (Some u))"
    unfolding holders_def A by (simp add: sum.remove [OF fin] set_fd_def)
  moreover have "holders k u = count_list (tab k p) (Some u) + (\<Sum>q\<in>?A - {p}. count_list (tab k q) (Some u))"
    unfolding holders_def by (simp add: sum.remove [OF fin])
  ultimately show ?thesis using count_list_update [OF len, of x "Some u"] by simp
qed

lemma alloc_set_fd: "p_alloc (k_proc (set_fd p i x k) q) = p_alloc (k_proc k q)"
  by (simp add: set_fd_def)

lemma tables_set_fd [simp]: "tables_ok k \<Longrightarrow> tables_ok (set_fd p i x k)"
  unfolding tables_ok_def alloc_set_fd by (auto simp: set_fd_def)

lemma holders_nth:
  assumes "tables_ok k" and "p_alloc (k_proc k p)" and "i < PROCESS_UIOMAX" and "tab k p ! i = Some u"
  shows "held k u"
  using holders_set_fd [OF assms(1-3), of None u] assms(4) by simp

lemma holders_cong:
  "k_proc k' = k_proc k \<Longrightarrow> holders k' u = holders k u"
  "k_proc k' = k_proc k \<Longrightarrow> k_cur k' = k_cur k \<Longrightarrow> tables_ok k' = tables_ok k"
  by (simp_all add: holders_def tables_ok_def)

lemma held_slot:
  assumes "tables_ok k" and "held k u"
  obtains p i where "p_alloc (k_proc k p)" "i < PROCESS_UIOMAX" "tab k p ! i = Some u"
proof -
  have "\<exists>p\<in>{p. p_alloc (k_proc k p)}. count_list (tab k p) (Some u) \<noteq> 0"
  proof (rule ccontr)
    assume "\<not> ?thesis"
    then have "holders k u = 0" unfolding holders_def by (intro sum.neutral) auto
    then show False using assms(2) by simp
  qed
  then obtain p where p: "p_alloc (k_proc k p)" "count_list (tab k p) (Some u) \<noteq> 0" by auto
  then have "Some u \<in> set (tab k p)" by (simp add: count_list_0_iff)
  then show ?thesis using that p assms(1) by (auto simp: in_set_conv_nth tables_ok_def)
qed

section \<open>Operations that leave descriptors alone\<close>

text \<open>\<open>quiet\<close>: the tables, the counts, the kinds of the objects and what ends of pipes are open
  are as before.\<close>

definition same_kind :: "'w uobj \<Rightarrow> 'w uobj \<Rightarrow> bool" where
  "same_kind x y \<longleftrightarrow> (\<forall>s q. x = End s q \<longleftrightarrow> y = End s q) \<and> (\<forall>f. x = Obj f \<longleftrightarrow> y = Obj f)"

definition quiet :: "'w kernel \<Rightarrow> 'w kernel \<Rightarrow> bool" where
  "quiet k k' \<longleftrightarrow>
     k_proc k' = k_proc k \<and> k_cur k' = k_cur k \<and> k_ref k' = k_ref k \<and>
     (\<forall>u. same_kind (k_obj k' u) (k_obj k u)) \<and> (\<forall>s q. end_open s (k_pipe k' q) = end_open s (k_pipe k q))"

lemma quiet_refl [simp]: "quiet k k"
  by (simp add: quiet_def same_kind_def)

lemma quiet_trans: "quiet k k1 \<Longrightarrow> quiet k1 k2 \<Longrightarrow> quiet k k2"
  by (simp add: quiet_def same_kind_def)

lemma quiet_vm [simp]: "quiet k (k'\<lparr>k_vm := v\<rparr>) = quiet k k'"
  by (simp add: quiet_def)

lemma quiet_put [simp]: "quiet k (k_put a bs k') = quiet k k'"
  by (simp add: k_put_def)

lemma quiet_devs [simp]: "quiet k (k'\<lparr>k_devs := d\<rparr>) = quiet k k'"
  by (simp add: quiet_def)

lemma quiet_listing: "k_obj k u = Lst ls \<Longrightarrow> quiet k (k\<lparr>k_obj := (k_obj k)(u := Lst ls')\<rparr>)"
  by (auto simp: quiet_def same_kind_def)

lemma quiet_put_pipe: "(\<And>s. end_open s p = end_open s (k_pipe k q)) \<Longrightarrow> quiet k (put_pipe q p k)"
  by (auto simp: quiet_def put_pipe_def same_kind_def)

lemma quiet_ok:
  assumes "quiet k k'" and "files_ok X Y k"
  shows "files_ok X Y k'"
proof -
  have q: "k_proc k' = k_proc k" "k_cur k' = k_cur k" "k_ref k' = k_ref k"
    "\<And>u s r. k_obj k' u = End s r \<longleftrightarrow> k_obj k u = End s r" "\<And>s r. end_open s (k_pipe k' r) = end_open s (k_pipe k r)"
    using assms(1) by (auto simp: quiet_def same_kind_def)
  show ?thesis
    using assms(2) unfolding files_ok_def refs_ok_def ends_ok_def end_ok_def by (simp add: holders_cong [OF q(1)] holders_cong(2) [OF q(1,2)] q)
qed

lemma end_open_runnable [simp]: "end_open s (p\<lparr>runnable := x\<rparr>) = end_open s p"
  by (simp add: end_open_def split: pipe_side.split)

lemma pipe_read_ends: "pipe_read n p = (r, p') \<Longrightarrow> end_open s p' = end_open s p"
  by (cases s) (auto simp: pipe_read_def end_open_def broadcast_writeable_def Let_def split: if_splits prod.splits)

lemma pipe_write_ends: "pipe_write bs p = (r, p') \<Longrightarrow> end_open s p' = end_open s p"
  by (cases s) (auto simp: pipe_write_def end_open_def broadcast_readable_def Let_def split: if_splits)

lemma k_read_quiet: "k_read u n k = (r, k') \<Longrightarrow> quiet k k'"
  by (auto simp: k_read_def uio_read_def pipe_intf_def read_pipe_intf_def write_pipe_intf_def quiet_listing
      split: uobj.splits prod.splits option.splits if_splits pipe_side.splits intro!: quiet_put_pipe dest: pipe_read_ends)

lemma k_write_quiet: "k_write u bs k = (r, k') \<Longrightarrow> quiet k k'"
  by (auto simp: k_write_def uio_write_def pipe_intf_def read_pipe_intf_def write_pipe_intf_def
      split: uobj.splits prod.splits option.splits if_splits pipe_side.splits intro!: quiet_put_pipe dest: pipe_write_ends)

lemma k_cntl_quiet: "k_cntl u cmd a k = (r, k') \<Longrightarrow> quiet k k'"
  by (auto simp: k_cntl_def split: uobj.splits prod.splits sum.splits)

lemma on_devs_quiet: "on_devs f k = (rc, k') \<Longrightarrow> quiet k k'"
  by (auto simp: on_devs_def split: prod.splits)

lemma sysread_quiet: "sysread fd ptr n k = (r, k') \<Longrightarrow> quiet k k'"
  by (auto simp: sysread_def Let_def split: option.splits prod.splits if_splits dest: k_read_quiet)

lemma syswrite_quiet: "syswrite fd ptr n k = (r, k') \<Longrightarrow> quiet k k'"
  by (auto simp: syswrite_def Let_def split: option.splits prod.splits if_splits dest: k_write_quiet)

lemma sysfcntl_quiet: "sysfcntl fd cmd arg k = (r, k') \<Longrightarrow> quiet k k'"
  by (auto simp: sysfcntl_def Let_def split: option.splits prod.splits if_splits dest: k_cntl_quiet)

lemma pipe_resume_quiet:
  assumes "pipe_resume q i ptr k = (r, k')"
  shows "quiet k k'"
proof -
  let ?p0 = "(k_pipe k q)\<lparr>runnable := remove_nth i (runnable (k_pipe k q))\<rparr>"
  show ?thesis
  proof (cases "runnable (k_pipe k q) ! i")
    case (ReadCall n)
    obtain x p1 where p: "pipe_read n ?p0 = (x, p1)" by (cases "pipe_read n ?p0")
    show ?thesis using assms ReadCall p pipe_read_ends [OF p] by (auto simp: pipe_resume_def quiet_put_pipe)
  next
    case (WriteCall bs)
    obtain x p1 where p: "pipe_write bs ?p0 = (x, p1)" by (cases "pipe_write bs ?p0")
    show ?thesis using assms WriteCall p pipe_write_ends [OF p] by (auto simp: pipe_resume_def quiet_put_pipe)
  qed
qed

section \<open>Closing\<close>

lemma k_close_effect:
  "k_proc (k_close u k) = k_proc k" "k_cur (k_close u k) = k_cur k"
  "k_ref (k_close u k) = (k_ref k)(u := k_ref k u - 1)"
  "same_kind (k_obj (k_close u k) v) (k_obj k v)"
  "end_open s (k_pipe (k_close u k) q) \<longleftrightarrow> end_open s (k_pipe k q) \<and> \<not> (k_obj k u = End s q \<and> k_ref k u \<le> 1)"
proof -
  have r: "uio_close f n d = (a, b) \<Longrightarrow> a = n - 1" for f :: "('s, 'r) uio_intf" and n d a b
    by (auto simp: uio_close_def Let_def split: if_splits)
  have r': "uio_close (f :: ('s, 'r) uio_intf) n d = (n - 1, snd (uio_close f n d))" for f n d
    using r [of f n d] by (cases "uio_close f n d") auto
  show "k_proc (k_close u k) = k_proc k" "k_cur (k_close u k) = k_cur k"
    by (auto simp: k_close_def put_pipe_def split: uobj.split prod.split)
  show "k_ref (k_close u k) = (k_ref k)(u := k_ref k u - 1)"
    by (auto simp: k_close_def put_pipe_def split: uobj.split prod.split dest: r)
  show "same_kind (k_obj (k_close u k) v) (k_obj k v)"
    by (auto simp: k_close_def put_pipe_def same_kind_def split: uobj.split prod.split)
  show "end_open s (k_pipe (k_close u k) q) \<longleftrightarrow> end_open s (k_pipe k q) \<and> \<not> (k_obj k u = End s q \<and> k_ref k u \<le> 1)"
    by (auto simp: k_close_def put_pipe_def uio_close_def pipe_intf_def read_pipe_intf_def write_pipe_intf_def end_open_def
        read_pipe_close_def write_pipe_close_def broadcast_readable_def broadcast_writeable_def Let_def
        split: uobj.split prod.split pipe_side.split if_splits)
qed

text \<open>A descriptor is closed: the object it names, and the slot.\<close>

definition drop_fd :: "nat \<Rightarrow> nat \<Rightarrow> nat \<Rightarrow> 'w kernel \<Rightarrow> 'w kernel" where
  "drop_fd p i u k = set_fd p i None (k_close u k)"

lemma drop_fd_holders:
  assumes "tables_ok k" and "p_alloc (k_proc k p)" and "i < PROCESS_UIOMAX" and "tab k p ! i = Some u"
  shows "tables_ok (drop_fd p i u k)" "holders (drop_fd p i u k) v = holders k v - (if v = u then 1 else 0)"
proof -
  note c = k_close_effect(1,2) [of u k]
  have t: "tables_ok (k_close u k)" using assms(1) holders_cong(2) [OF c] by simp
  then show "tables_ok (drop_fd p i u k)" by (simp add: drop_fd_def)
  show "holders (drop_fd p i u k) v = holders k v - (if v = u then 1 else 0)"
    using holders_set_fd [OF t, of p i None v] assms holders_cong(1) [OF c(1)] by (auto simp: drop_fd_def c)
qed

lemma drop_fd_rest:
  "k_ref (drop_fd p i u k) = (k_ref k)(u := k_ref k u - 1)"
  "k_obj (drop_fd p i u k) v = End s q \<longleftrightarrow> k_obj k v = End s q"
  "end_open s (k_pipe (drop_fd p i u k) q) \<longleftrightarrow> end_open s (k_pipe k q) \<and> \<not> (k_obj k u = End s q \<and> k_ref k u \<le> 1)"
  using k_close_effect(3-5) [where u = u and k = k] by (auto simp: drop_fd_def set_fd_def same_kind_def)

lemma drop_fd_ok:
  assumes ok: "files_ok X Y k" and p: "p_alloc (k_proc k p)" "i < PROCESS_UIOMAX" "tab k p ! i = Some u"
  shows "files_ok X Y (drop_fd p i u k)"
proof -
  let ?k = "drop_fd p i u k"
  have t: "tables_ok k" and r: "refs_ok X k" and e: "ends_ok X Y k" using ok by (auto simp: files_ok_def)
  note h = drop_fd_holders [OF t p] and d = drop_fd_rest [where p = p and i = i and u = u and k = k]
  have u: "held k u" using holders_nth [OF t p] .
  have "refs_ok X ?k" using r unfolding refs_ok_def by (auto simp: h d)
  moreover have "end_ok ?k s q" if nY: "(s, q) \<notin> Y" for s q
  proof -
    have o: "end_ok k s q" using e nY by (simp add: ends_ok_def)
    show ?thesis
    proof (cases "k_obj k u = End s q")
      case False
      with o show ?thesis unfolding end_ok_def h d by (auto split: if_splits)
    next
      case True
      then have "u \<notin> X" using e nY u by (auto simp: ends_ok_def)
      then have ref: "k_ref k u = holders k u" using r u by (auto simp: refs_ok_def)
      have only: "v = u" if "held k v" "k_obj k v = End s q" for v using o that u True by (auto simp: end_ok_def)
      have "end_open s (k_pipe k q)" using o u True by (auto simp: end_ok_def)
      then show ?thesis unfolding end_ok_def h d using True ref only by (auto split: if_splits intro!: exI [of _ u])
    qed
  qed
  moreover have "(s, q) \<in> Y" if "v \<in> X" "held ?k v" "k_obj ?k v = End s q" for v s q
  proof -
    have "held k v" using that(2) unfolding h by (simp split: if_splits)
    then show ?thesis using e that(1,3) unfolding d ends_ok_def by blast
  qed
  ultimately show ?thesis using h(1) unfolding files_ok_def ends_ok_def by auto
qed

section \<open>New references\<close>

lemma holders_addref [simp]: "holders (k_addref u k) v = holders k v"
  by (simp add: k_addref_def holders_def)

lemma dup_ok:
  assumes ok: "files_ok X Y k" and p: "p_alloc (k_proc k p)" "i < PROCESS_UIOMAX" "tab k p ! i = None" and u: "held k u"
  shows "files_ok X Y (k_addref u (set_fd p i (Some u) k))"
proof -
  let ?k = "k_addref u (set_fd p i (Some u) k)"
  have t: "tables_ok k" and r: "refs_ok X k" and e: "ends_ok X Y k" using ok by (auto simp: files_ok_def)
  have same: "k_proc ?k = k_proc (set_fd p i (Some u) k)" "k_cur ?k = k_cur (set_fd p i (Some u) k)" by (simp_all add: k_addref_def)
  have h: "holders ?k v = holders k v + (if v = u then 1 else 0)" for v
    using holders_set_fd [OF t p(1,2), of "Some u" v] p(3) unfolding holders_cong(1) [OF same(1)] by auto
  have pos: "held ?k v \<longleftrightarrow> held k v" for v unfolding h using u by auto
  have "tables_ok ?k" using t holders_cong(2) [OF same] by simp
  moreover have "k_ref ?k v = k_ref k v + (if v = u then 1 else 0)" "k_obj ?k = k_obj k" "k_pipe ?k = k_pipe k" for v
    by (simp_all add: k_addref_def uio_addref_def set_fd_def)
  ultimately show ?thesis
    using r e unfolding files_ok_def refs_ok_def ends_ok_def end_ok_def pos unfolding h by auto
qed

text \<open>A new object, not the end of a pipe, in a free slot.\<close>

lemma new_obj_ok:
  assumes ok: "files_ok X Y k" and p: "p_alloc (k_proc k p)" "i < PROCESS_UIOMAX" "tab k p ! i = None"
    and u: "\<not> held k u" and x: "\<And>s q. x \<noteq> End s q"
  shows "files_ok (X - {u}) Y (set_fd p i (Some u) (new_obj u x k))"
proof -
  let ?k1 = "new_obj u x k"
  let ?k = "set_fd p i (Some u) ?k1"
  have t: "tables_ok k" and r: "refs_ok X k" and e: "ends_ok X Y k" using ok by (auto simp: files_ok_def)
  have same: "k_proc ?k1 = k_proc k" "k_cur ?k1 = k_cur k" by (simp_all add: new_obj_def)
  have t1: "tables_ok ?k1" using t holders_cong(2) [OF same] by simp
  have h: "holders ?k v = holders k v + (if v = u then 1 else 0)" for v
    using holders_set_fd [OF t1, of p i "Some u" v] p unfolding holders_cong(1) [OF same(1)] by (auto simp: same)
  have o: "k_ref ?k v = (if v = u then 1 else k_ref k v)" "k_obj ?k v = (if v = u then x else k_obj k v)" "k_pipe ?k = k_pipe k" for v
    by (simp_all add: new_obj_def set_fd_def)
  have "end_ok ?k s q" if "(s, q) \<notin> Y" for s q
  proof -
    have "end_ok k s q" using e that by (simp add: ends_ok_def)
    moreover have "held ?k v \<and> k_obj ?k v = End s q \<longleftrightarrow> held k v \<and> k_obj k v = End s q" for v using x u by (auto simp: h o)
    ultimately show ?thesis unfolding end_ok_def by (metis o(3))
  qed
  moreover have "refs_ok (X - {u}) ?k" using r u unfolding refs_ok_def by (auto simp: h o)
  moreover have "(s, q) \<in> Y" if "v \<in> X - {u}" "held ?k v" "k_obj ?k v = End s q" for v s q
    using e that by (auto simp: ends_ok_def h o)
  ultimately show ?thesis using t1 unfolding files_ok_def ends_ok_def by auto
qed

text \<open>A new pipe: its ends are new objects, and no descriptor names an end of it.\<close>

lemma new_pipe_ok:
  assumes ok: "files_ok X Y k" and c: "k_create_pipe w r q k = Some k1"
    and p: "p_alloc (k_proc k p)" "i < PROCESS_UIOMAX" "j < PROCESS_UIOMAX" "i \<noteq> j" "tab k p ! i = None" "tab k p ! j = None"
    and new: "\<not> held k w" "\<not> held k r" "w \<noteq> r" "\<And>u s. held k u \<Longrightarrow> k_obj k u \<noteq> End s q"
  shows "files_ok (X - {w, r}) (Y - {(Rd, q), (Wr, q)}) (set_fd p j (Some r) (set_fd p i (Some w) k1))"
proof -
  let ?k2 = "set_fd p i (Some w) k1"
  let ?k = "set_fd p j (Some r) ?k2"
  have t: "tables_ok k" and rf: "refs_ok X k" and e: "ends_ok X Y k" using ok by (auto simp: files_ok_def)
  have same: "k_proc k1 = k_proc k" "k_cur k1 = k_cur k"
    and o1: "k_ref k1 = (k_ref k)(w := 1, r := 1)" "k_obj k1 = (k_obj k)(r := End Rd q, w := End Wr q)"
      "\<exists>page. k_pipe k1 = (k_pipe k)(q := create_pipe page)"
    using c new(3) by (auto simp: k_create_pipe_def new_obj_def fun_upd_twist split: option.splits)
  have t1: "tables_ok k1" using t holders_cong(2) [OF same] by simp
  have s2: "p_alloc (k_proc ?k2 p)" "tab ?k2 p ! j = None" using p t by (simp_all add: set_fd_def same tables_ok_def)
  have h1: "holders ?k2 v = holders k v + (if v = w then 1 else 0)" for v
    using holders_set_fd [OF t1, of p i "Some w" v] p unfolding holders_cong(1) [OF same(1)] by (auto simp: same)
  have h: "holders ?k v = holders k v + (if v = w \<or> v = r then 1 else 0)" for v
    using holders_set_fd [OF tables_set_fd [OF t1] s2(1) p(3), of "Some r" v] s2(2) new(3) unfolding h1 by (auto split: if_splits)
  have o: "k_ref ?k v = (if v = w \<or> v = r then 1 else k_ref k v)"
      "k_obj ?k v = (if v = w then End Wr q else if v = r then End Rd q else k_obj k v)" for v
    by (simp_all add: set_fd_def o1)
  obtain page where pg: "k_pipe ?k = (k_pipe k)(q := create_pipe page)" using o1(3) by (auto simp: set_fd_def)
  have hk: "held ?k v \<longleftrightarrow> held k v \<or> v = w \<or> v = r" for v by (auto simp: h)
  have "end_ok ?k s a" if "(s, a) \<notin> Y - {(Rd, q), (Wr, q)}" for s a
  proof (cases "a = q")
    case True
    have u: "held ?k v \<and> k_obj ?k v = End s q \<longleftrightarrow> v = (case s of Rd \<Rightarrow> r | Wr \<Rightarrow> w)" for v
      using new unfolding hk o by (cases s) auto
    have "end_open s (create_pipe page)" by (cases s) (simp_all add: end_open_def create_pipe_def)
    then show ?thesis unfolding end_ok_def True pg using u by (metis fun_upd_same)
  next
    case False
    then have "end_ok k s a" using e that by (auto simp: ends_ok_def)
    moreover have "held ?k v \<and> k_obj ?k v = End s a \<longleftrightarrow> held k v \<and> k_obj k v = End s a" for v
      using False new unfolding hk o by auto
    moreover have "k_pipe ?k a = k_pipe k a" using False by (simp add: pg)
    ultimately show ?thesis unfolding end_ok_def by metis
  qed
  moreover have "(s, a) \<in> Y - {(Rd, q), (Wr, q)}" if "v \<in> X - {w, r}" "held ?k v" "k_obj ?k v = End s a" for v s a
  proof -
    have "held k v" "k_obj k v = End s a" using that unfolding hk o by auto
    then show ?thesis using e that(1) new(4) unfolding ends_ok_def by blast
  qed
  moreover have "refs_ok (X - {w, r}) ?k" using rf new unfolding refs_ok_def by (auto simp: h o)
  ultimately show ?thesis using t1 by (intro files_okI) auto
qed

section \<open>The system calls on descriptors\<close>

lemma files_okD: "files_ok X Y k \<Longrightarrow> p_alloc (k_proc k (k_cur k))" "files_ok X Y k \<Longrightarrow> tables_ok k"
  by (simp_all add: files_ok_def tables_ok_def)

lemma fd_ofD: "fd_of fd k = Some u \<Longrightarrow> nat fd < PROCESS_UIOMAX \<and> tab k (k_cur k) ! nat fd = Some u \<and> 0 \<le> fd"
  by (auto simp: fd_of_def split: if_splits)

text \<open>The objects that a step gives a first descriptor, and the pipe ends among them.\<close>

definition newly :: "'w kernel \<Rightarrow> 'w kernel \<Rightarrow> nat set" where
  "newly k k' = {u. \<not> held k u \<and> held k' u}"

definition new_ends :: "'w kernel \<Rightarrow> 'w kernel \<Rightarrow> (pipe_side \<times> nat) set" where
  "new_ends k k' = {(s, q). \<exists>u\<in>newly k k'. k_obj k' u = End s q}"

lemma newly_refl [simp]: "newly k k = {}"
  unfolding newly_def by blast

text \<open>A step is good when the counts stay right: a new object is no longer exempt.\<close>

definition good_step :: "'w kernel \<Rightarrow> 'w kernel \<Rightarrow> bool" where
  "good_step k k' \<longleftrightarrow> (\<forall>X Y. files_ok X Y k \<longrightarrow> files_ok (X - newly k k') (Y - new_ends k k') k')"

lemma good_none:
  assumes "\<And>v. held k' v \<Longrightarrow> held k v" and "\<And>X Y. files_ok X Y k \<Longrightarrow> files_ok X Y k'"
  shows "good_step k k'"
proof -
  have "u \<notin> newly k k'" for u using assms(1) [of u] by (cases "held k' u") (simp_all add: newly_def)
  then have n: "newly k k' = {}" by auto
  then show ?thesis using assms(2) by (simp add: good_step_def new_ends_def)
qed

lemma quiet_good:
  assumes "quiet k k'"
  shows "good_step k k'"
proof (rule good_none)
  have "k_proc k' = k_proc k" using assms by (simp add: quiet_def)
  then show "held k v" if "held k' v" for v using that by (simp add: holders_cong(1) [of k' k])
qed (rule quiet_ok [OF assms])

lemma good_refl [simp]: "good_step k k"
  by (simp add: quiet_good)

lemma drop_fd_good:
  assumes "tables_ok k" and p: "p_alloc (k_proc k p)" "i < PROCESS_UIOMAX" "tab k p ! i = Some u"
  shows "good_step k (drop_fd p i u k)"
  by (rule good_none) (use drop_fd_holders [OF assms] drop_fd_ok [OF _ p] in \<open>auto split: if_splits\<close>)

lemma sysclose_good:
  assumes t: "tables_ok k" and c: "sysclose fd k = (rc, k')"
  shows "good_step k k'"
proof (cases "fd_of fd k")
  case (Some u)
  have "k' = drop_fd (k_cur k) (nat fd) u k" using c Some by (simp add: sysclose_def drop_fd_def)
  then show ?thesis using drop_fd_good [OF t _ _ _, of "k_cur k" "nat fd" u] fd_ofD [OF Some] t by (auto simp: tables_ok_def)
qed (use c in \<open>auto simp: sysclose_def\<close>)

lemma sysuiodup_good:
  assumes t: "tables_ok k" and d: "sysuiodup oldfd newfd k = (rc, k')"
  shows "good_step k k'"
proof (cases "fd_of oldfd k")
  case (Some u)
  let ?fd = "pick_fd newfd (tab k (k_cur k)) (- 1)"
  have p: "p_alloc (k_proc k (k_cur k))" using t by (simp add: tables_ok_def)
  have u: "held k u" using fd_ofD [OF Some] holders_nth [OF t p] by blast
  show ?thesis
  proof (cases "0 \<le> ?fd \<and> ?fd < int PROCESS_UIOMAX \<and> tab k (k_cur k) ! nat ?fd = None")
    case True
    then have "sysuiodup oldfd newfd k = (?fd, k_addref u (set_fd (k_cur k) (nat ?fd) (Some u) k))"
      using Some by (simp add: sysuiodup_def Let_def)
    then have k': "k' = k_addref u (set_fd (k_cur k) (nat ?fd) (Some u) k)" using d by (metis prod.inject)
    have i: "nat ?fd < PROCESS_UIOMAX" using True by (simp add: nat_less_iff)
    have "held k v" if "held k' v" for v
      using that holders_set_fd [OF t p i, of "Some u" v] u True
      by (cases "v = u") (auto simp: k')
    then show ?thesis using dup_ok [OF _ p i _ u] True by (intro good_none) (auto simp: k')
  next
    case False
    then show ?thesis using d Some by (auto simp: sysuiodup_def Let_def split: if_splits)
  qed
qed (use d in \<open>auto simp: sysuiodup_def\<close>)

lemma new_obj_good:
  assumes t: "tables_ok k" and p: "p_alloc (k_proc k p)" "i < PROCESS_UIOMAX" "tab k p ! i = None"
    and u: "\<not> held k u" and x: "\<And>s q. x \<noteq> End s q"
  shows "good_step k (set_fd p i (Some u) (new_obj u x k))" (is "good_step k ?k")
proof -
  have same: "k_proc (new_obj u x k) = k_proc k" "k_cur (new_obj u x k) = k_cur k" by (simp_all add: new_obj_def)
  have t1: "tables_ok (new_obj u x k)" using t holders_cong(2) [OF same] by simp
  have h: "holders ?k v = holders k v + (if v = u then 1 else 0)" for v
    using holders_set_fd [OF t1, of p i "Some u" v] p unfolding holders_cong(1) [OF same(1)] by (auto simp: same)
  have "newly k ?k = {u}" using u by (auto simp: newly_def h split: if_splits)
  moreover have "new_ends k ?k = {}" using x unfolding new_ends_def calculation by (auto simp: set_fd_def new_obj_def)
  ultimately show ?thesis using new_obj_ok [OF _ p u x] by (simp add: good_step_def)
qed

lemma good_step_devs:
  assumes "good_step (k\<lparr>k_devs := d\<rparr>) k'"
  shows "good_step k k'"
proof -
  have "newly (k\<lparr>k_devs := d\<rparr>) k' = newly k k'" "new_ends (k\<lparr>k_devs := d\<rparr>) k' = new_ends k k'"
    by (simp_all add: newly_def new_ends_def holders_def)
  moreover have "files_ok X Y (k\<lparr>k_devs := d\<rparr>)" if "files_ok X Y k" for X Y by (rule quiet_ok [OF _ that]) simp
  ultimately show ?thesis using assms by (auto simp: good_step_def)
qed

text \<open>What can be opened is new: no descriptor names it yet.\<close>

definition opens_new :: "nat \<Rightarrow> 'w intf \<Rightarrow> 'w kernel \<Rightarrow> bool" where
  "opens_new new f k \<longleftrightarrow> (\<forall>mp fl u k1. k_open mp fl new f k = Some (Inr u, k1) \<longrightarrow> \<not> held k u)"

lemma k_open_cases:
  assumes "k_open mp fl new f k = Some (r, k1)"
  obtains e d where "r = Inl e" "k1 = k\<lparr>k_devs := d\<rparr>"
    | u x d where "r = Inr u" "k1 = new_obj u x (k\<lparr>k_devs := d\<rparr>)" "\<And>s q. x \<noteq> End s q"
  using assms that by (auto simp: k_open_def Let_def split: option.splits prod.splits sum.splits opened.splits)

lemma k_open_good:
  assumes o: "k_open mp fl new f k = Some (Inr u, k1)" and "opens_new new f k"
    and t: "tables_ok k" and p: "p_alloc (k_proc k p)" "i < PROCESS_UIOMAX" "tab k p ! i = None"
  shows "good_step k (set_fd p i (Some u) k1)"
proof -
  have u: "\<not> held k u" using o assms(2) by (auto simp: opens_new_def)
  from o show ?thesis
  proof (cases rule: k_open_cases)
    case (2 u' x d)
    have "tables_ok (k\<lparr>k_devs := d\<rparr>)" "\<not> held (k\<lparr>k_devs := d\<rparr>) u"
      using t u by (simp_all add: tables_ok_def holders_def)
    then have "good_step (k\<lparr>k_devs := d\<rparr>) (set_fd p i (Some u) (new_obj u x (k\<lparr>k_devs := d\<rparr>)))"
      using p 2(3) by (intro new_obj_good) auto
    then show ?thesis using 2 by (auto intro: good_step_devs [where d = d])
  qed simp
qed

lemma pick_fd_free: "pick_fd fd t x = i \<Longrightarrow> fd < 0 \<Longrightarrow> 0 \<le> i \<Longrightarrow> i < int PROCESS_UIOMAX \<and> t ! nat i = None"
  by (auto simp: pick_fd_def free_fd_def find_Some_iff split: option.splits)

lemma path_call_cases:
  assumes "path_call path g k = Some (rc, k')"
  obtains "k' = k" | mp fl where "g (mp, fl) k = Some (rc, k')"
proof -
  from assms obtain p r where p: "copy_path (k_vm k) path = Some p" "parse_path (Some p) = Some r"
    by (auto simp: path_call_def split: option.splits)
  show ?thesis
  proof (cases r)
    case (Inl e)
    then show ?thesis using assms p that(1) by (simp add: path_call_def)
  next
    case (Inr x)
    then have "g (path_names x) k = Some (rc, k')" using assms p by (simp add: path_call_def)
    then show ?thesis using that(2) by (metis surj_pair)
  qed
qed

lemma sysopen_good:
  assumes t: "tables_ok k" and o: "sysopen fd path new f k = Some (rc, k')" and n: "opens_new new f k"
  shows "good_step k k'"
proof -
  let ?fd = "pick_fd fd (tab k (k_cur k)) (- 1)"
  consider "k' = k" | mp fl e where "k_open (Some mp) fl new f k = Some (Inl e, k')"
    | mp fl u k1 where "k_open (Some mp) fl new f k = Some (Inr u, k1)" "k' = set_fd (k_cur k1) (nat ?fd) (Some u) k1"
        "?fd \<noteq> - 1" "- 1 \<le> fd" "fd < int PROCESS_UIOMAX" "tab k (k_cur k) ! nat ?fd = None"
  proof -
    let ?g = "\<lambda>(mp, fl) k. case k_open (Some mp) fl new f k of None \<Rightarrow> None | Some (Inl e, k1) \<Rightarrow> Some (e, k1)
        | Some (Inr u, k1) \<Rightarrow> Some (?fd, set_fd (k_cur k1) (nat ?fd) (Some u) k1)"
    have "k' = k \<or> ?fd \<noteq> - 1 \<and> - 1 \<le> fd \<and> fd < int PROCESS_UIOMAX \<and> tab k (k_cur k) ! nat ?fd = None \<and> path_call path ?g k = Some (rc, k')"
      using o unfolding sysopen_def Let_def by (auto split: if_splits)
    then show thesis
    proof
      assume a: "?fd \<noteq> - 1 \<and> - 1 \<le> fd \<and> fd < int PROCESS_UIOMAX \<and> tab k (k_cur k) ! nat ?fd = None \<and> path_call path ?g k = Some (rc, k')"
      then have "path_call path ?g k = Some (rc, k')" by simp
      then show thesis
      proof (cases rule: path_call_cases)
        case (2 mp fl)
        then obtain r k1 where r: "k_open (Some mp) fl new f k = Some (r, k1)" by (auto split: option.splits)
        show thesis
        proof (cases r)
          case (Inl e)
          then have "k1 = k'" using 2 r by simp
          then show thesis using r Inl that(2) by blast
        next
          case (Inr u)
          then have "k' = set_fd (k_cur k1) (nat ?fd) (Some u) k1" using 2 r by auto
          then show thesis using r Inr that(3) a by blast
        qed
      qed (use that(1) in blast)
    qed (use that(1) in blast)
  qed
  then show ?thesis
  proof cases
    case 2
    then show ?thesis by (cases rule: k_open_cases) (auto intro: quiet_good)
  next
    case 3
    have c: "k_cur k1 = k_cur k" using 3(1) by (cases rule: k_open_cases) (auto simp: new_obj_def)
    have i: "nat ?fd < PROCESS_UIOMAX" using 3(3-5) pick_fd_free [of fd _ "- 1" ?fd]
      by (cases "fd < 0") (auto simp: pick_fd_def free_fd_def find_Some_iff split: option.splits)
    show ?thesis unfolding 3(2) c by (rule k_open_good [OF 3(1) n t _ i 3(6)]) (use t in \<open>simp add: tables_ok_def\<close>)
  qed simp
qed

text \<open>A new pipe: two objects and a pipe that no descriptor names.\<close>

definition pipe_new :: "nat \<Rightarrow> nat \<Rightarrow> nat \<Rightarrow> 'w kernel \<Rightarrow> bool" where
  "pipe_new w r q k \<longleftrightarrow> \<not> held k w \<and> \<not> held k r \<and> w \<noteq> r \<and> (\<forall>u s. held k u \<longrightarrow> k_obj k u \<noteq> End s q)"

lemma new_pipe_good:
  assumes t: "tables_ok k" and c: "k_create_pipe w r q k = Some k1"
    and p: "p_alloc (k_proc k p)" "i < PROCESS_UIOMAX" "j < PROCESS_UIOMAX" "i \<noteq> j" "tab k p ! i = None" "tab k p ! j = None"
    and n: "pipe_new w r q k"
  shows "good_step k (set_fd p j (Some r) (set_fd p i (Some w) k1))" (is "good_step k ?k")
proof -
  let ?k2 = "set_fd p i (Some w) k1"
  have same: "k_proc k1 = k_proc k" "k_cur k1 = k_cur k" and o: "k_obj k1 w = End Wr q" "k_obj k1 r = End Rd q"
    using c n by (auto simp: k_create_pipe_def new_obj_def pipe_new_def split: option.splits)
  have t1: "tables_ok k1" using t holders_cong(2) [OF same] by simp
  have s2: "p_alloc (k_proc ?k2 p)" "tab ?k2 p ! j = None" using p t by (simp_all add: set_fd_def same tables_ok_def)
  have "holders ?k2 v = holders k v + (if v = w then 1 else 0)" for v
    using holders_set_fd [OF t1, of p i "Some w" v] p unfolding holders_cong(1) [OF same(1)] by (auto simp: same)
  then have h: "holders ?k v = holders k v + (if v = w \<or> v = r then 1 else 0)" for v
    using holders_set_fd [OF tables_set_fd [OF t1] s2(1) p(3), of "Some r" v] s2(2) n by (auto simp: pipe_new_def split: if_splits)
  have "newly k ?k = {w, r}" using n by (auto simp: newly_def h pipe_new_def split: if_splits)
  moreover have "new_ends k ?k = {(Rd, q), (Wr, q)}" unfolding new_ends_def calculation by (auto simp: set_fd_def o)
  ultimately show ?thesis using new_pipe_ok [OF _ c p] n unfolding good_step_def pipe_new_def by simp
qed

lemma syspipe_good:
  assumes t: "tables_ok k" and c: "syspipe wfdptr rfdptr w r q k = Some (rc, k')" and n: "pipe_new w r q k"
  shows "good_step k k'"
proof -
  define t0 where "t0 = tab k (k_cur k)"
  define W where "W = pick_fd (get_int (k_vm k) wfdptr) t0 (get_int (k_vm k) rfdptr)"
  define R where "R = pick_fd (get_int (k_vm k) rfdptr) t0 W"
  let ?k = "\<lambda>k1. set_fd (k_cur k) (nat R) (Some r) (set_fd (k_cur k) (nat W) (Some w) k1)"
  have "k' = k \<or> (0 \<le> W \<and> W < int PROCESS_UIOMAX \<and> 0 \<le> R \<and> R < int PROCESS_UIOMAX \<and> W \<noteq> R \<and> t0 ! nat W = None \<and> t0 ! nat R = None \<and>
      map_option (\<lambda>k1. (0, k_put rfdptr (enc_int R) (k_put wfdptr (enc_int W) (?k k1)))) (k_create_pipe w r q k) = Some (rc, k'))"
    using c unfolding syspipe_def Let_def t0_def [symmetric] W_def [symmetric] R_def [symmetric]
    by (simp split: if_split_asm)
  then consider "k' = k" | k1 where "k_create_pipe w r q k = Some k1" "quiet (?k k1) k'"
      "0 \<le> W" "W < int PROCESS_UIOMAX" "0 \<le> R" "R < int PROCESS_UIOMAX" "W \<noteq> R" "t0 ! nat W = None" "t0 ! nat R = None"
    by auto
  then show ?thesis
  proof cases
    case 2
    have "p_alloc (k_proc k (k_cur k))" using t by (simp add: tables_ok_def)
    then have g: "good_step k (?k k1)"
      by (intro new_pipe_good [OF t 2(1) _ _ _ _ _ _ n]) (use 2 in \<open>auto simp: nat_less_iff t0_def\<close>)
    have e: "held k' u = held (?k k1) u" for u
      using 2(2) holders_cong(1) [of k' "?k k1"] by (simp add: quiet_def)
    have "newly k k' = newly k (?k k1)" unfolding newly_def e ..
    moreover have "new_ends k k' = new_ends k (?k k1)"
      using 2(2) unfolding new_ends_def calculation by (simp add: quiet_def same_kind_def)
    ultimately show ?thesis using g quiet_ok [OF 2(2)] by (simp add: good_step_def)
  qed simp
qed

end
