(* ===== verification/Exec.thy ===== *)
theory Exec
  imports Files KtfsLayout MemInit
begin

text \<open>
  Processes: the initial stack, the loader of ELF files, and the start, fork and end of a process,
  \<open>modified/sys/elf.c\<close> and \<open>modified/sys/process.c\<close>.  An outcome of \<open>None\<close> is a panic; a call
  that reads from a pipe may sleep.
\<close>

section \<open>The initial stack\<close>

text \<open>The arguments are the bytes at the pointers in \<open>argv\<close>, up to a NUL at least.\<close>

fun args_size :: "bytes list \<Rightarrow> nat \<Rightarrow> (int + nat) option" where
  "args_size [] stksz = Some (Inr stksz)"
| "args_size (a # as) stksz =
     (case strlen (Some a) of
        None \<Rightarrow> None
      | Some n \<Rightarrow> if PAGE_SIZE - stksz < n + 1 then Some (Inl (- ENOMEM)) else args_size as (stksz + (n + 1)))"

text \<open>The pointer of argument \<open>i\<close> goes to \<open>newargv[i]\<close>, its bytes to offset \<open>p\<close> of the page.\<close>

fun put_args :: "nat \<Rightarrow> nat \<Rightarrow> nat \<Rightarrow> bytes list \<Rightarrow> bytes \<Rightarrow> bytes option" where
  "put_args newargv i p [] stack = Some (overwrite stack (newargv + 8 * i) (enc_u64 0))"
| "put_args newargv i p (a # as) stack =
     (case strlen (Some a) of
        None \<Rightarrow> None
      | Some n \<Rightarrow>
          put_args newargv (i + 1) (p + (n + 1)) as
            (overwrite (overwrite stack (newargv + 8 * i) (enc_u64 (UMEM_END_VMA - of_nat PAGE_SIZE + of_nat p)))
               p (take (n + 1) a)))"

definition build_stack :: "bytes \<Rightarrow> bytes list \<Rightarrow> (int \<times> bytes) option" where
  "build_stack stack argv =
     (let argc = length argv in
      if PAGE_SIZE div 8 - 1 < argc then Some (- ENOMEM, stack)
      else case args_size argv ((argc + 1) * 8) of
        None \<Rightarrow> None
      | Some (Inl e) \<Rightarrow> Some (e, stack)
      | Some (Inr sz) \<Rightarrow>
          let stksz = ROUND_UP sz 16 in
          if stksz > PAGE_SIZE then None
          else let newargv = PAGE_SIZE - stksz
               in map_option (Pair (int stksz)) (put_args newargv 0 (newargv + (argc + 1) * 8) argv stack))"

section \<open>Outcomes\<close>

datatype 'a outcome = Sleeps | Fails int | Done 'a

type_synonym ('w, 'a) action = "'w kernel \<Rightarrow> ('a outcome \<times> 'w kernel) option"

definition and_then :: "('w, 'a) action \<Rightarrow> ('a \<Rightarrow> ('w, 'b) action) \<Rightarrow> ('w, 'b) action" where
  "and_then m f k =
     (case m k of
        None \<Rightarrow> None
      | Some (Sleeps, k1) \<Rightarrow> Some (Sleeps, k1)
      | Some (Fails e, k1) \<Rightarrow> Some (Fails e, k1)
      | Some (Done x, k1) \<Rightarrow> f x k1)"

definition fail_unless :: "bool \<Rightarrow> int \<Rightarrow> ('w, unit) action" where
  "fail_unless b e k = Some (if b then Done () else Fails (- e), k)"

text \<open>A step on the memory of the process; \<open>None\<close> is a panic.\<close>

definition on_vm :: "(vm \<Rightarrow> vm option) \<Rightarrow> ('w, unit) action" where
  "on_vm f k = (case f (k_vm k) of None \<Rightarrow> None | Some v \<Rightarrow> Some (Done (), k\<lparr>k_vm := v\<rparr>))"

text \<open>The kernel writes to user memory; a page that is not mapped or not writable is a fault in S
  mode, which panics.\<close>

definition put_user :: "u64 \<Rightarrow> bytes \<Rightarrow> vm \<Rightarrow> vm option" where
  "put_user a bs vm =
     (if \<forall>i\<in>set [0..<length bs]. page_ok vm (active_space_ptab vm) PTE_W (a + of_nat i)
      then Some (user_put a bs vm) else None)"

section \<open>ELF files\<close>

record elf64_ehdr =
  e_ident :: bytes
  e_type :: u16
  e_machine :: u16
  e_version :: u32
  e_entry :: u64
  e_phoff :: u64
  e_ehsize :: u16
  e_phentsize :: u16
  e_phnum :: u16

definition ehdr_of :: "bytes \<Rightarrow> elf64_ehdr" where
  "ehdr_of b =
     \<lparr>e_ident = take 16 b, e_type = get_u16 b 16, e_machine = get_u16 b 18, e_version = get_u32 b 20,
      e_entry = get_u64 b 24, e_phoff = get_u64 b 32, e_ehsize = get_u16 b 52, e_phentsize = get_u16 b 54,
      e_phnum = get_u16 b 56\<rparr>"

record elf64_phdr =
  p_type :: u32
  p_flags :: u32
  p_offset :: u64
  p_vaddr :: u64
  p_filesz :: u64
  p_memsz :: u64

definition phdr_of :: "bytes \<Rightarrow> elf64_phdr" where
  "phdr_of b =
     \<lparr>p_type = get_u32 b 0, p_flags = get_u32 b 4, p_offset = get_u64 b 8, p_vaddr = get_u64 b 16,
      p_filesz = get_u64 b 32, p_memsz = get_u64 b 40\<rparr>"

definition ehdr_ok :: "elf64_ehdr \<Rightarrow> bool" where
  "ehdr_ok h \<longleftrightarrow>
     take 4 (e_ident h) = [0x7F, 0x45, 0x4C, 0x46] \<and>
     e_ident h ! 4 = 2 \<and> e_ident h ! 5 = 1 \<and> e_ident h ! 6 = 1 \<and>
     e_type h = 2 \<and> e_machine h = 243 \<and> e_version h = 1 \<and> e_ehsize h = 64 \<and> e_phentsize h = 56"

text \<open>A read of exactly \<open>n\<close> bytes; \<open>store\<close> is where they go.\<close>

definition read_exactly :: "nat \<Rightarrow> u64 \<Rightarrow> (bytes \<Rightarrow> vm \<Rightarrow> vm option) \<Rightarrow> ('w, bytes) action" where
  "read_exactly u n store k =
     (case k_read u n k of
        (Waits, k1) \<Rightarrow> Some (Sleeps, k1)
      | (Transfers m bs, k1) \<Rightarrow>
          (case store bs (k_vm k1) of
             None \<Rightarrow> None
           | Some v \<Rightarrow>
               Some (if m < 0 then Fails m else if word_of_int m \<noteq> n then Fails (- EINVAL) else Done bs, k1\<lparr>k_vm := v\<rparr>)))"

definition set_pos :: "nat \<Rightarrow> u64 \<Rightarrow> ('w, unit) action" where
  "set_pos u a k =
     (case k_cntl u 3 a k of ((rc, _), k1) \<Rightarrow> Some (if rc < 0 then Fails rc else Done (), k1))"

text \<open>The pages of a segment: the offset in its first page, and their size.\<close>

definition seg_offset :: "elf64_phdr \<Rightarrow> u64" where
  "seg_offset ph = p_vaddr ph mod of_nat PAGE_SIZE"

definition seg_size :: "elf64_phdr \<Rightarrow> u64" where
  "seg_size ph =
     (let data = p_memsz ph + seg_offset ph
      in if data mod of_nat PAGE_SIZE = 0 then data else (data div of_nat PAGE_SIZE + 1) * of_nat PAGE_SIZE)"

definition seg_flags :: "elf64_phdr \<Rightarrow> u8" where
  "seg_flags ph =
     PTE_U OR (if p_flags ph AND 4 \<noteq> 0 then PTE_R else 0) OR (if p_flags ph AND 1 \<noteq> 0 then PTE_X else 0)
     OR (if p_flags ph AND 2 \<noteq> 0 then PTE_W else 0)"

definition seg_in_range :: "elf64_phdr \<Rightarrow> bool" where
  "seg_in_range ph \<longleftrightarrow>
     (let start = p_vaddr ph; fin = p_vaddr ph + p_memsz ph
      in \<not> (start < UMEM_START_VMA \<or> fin > UMEM_END_VMA \<or> fin < start))"

definition load_segment :: "nat \<Rightarrow> elf64_phdr \<Rightarrow> ('w, unit) action" where
  "load_segment u ph =
     and_then (fail_unless (seg_in_range ph) EINVAL) (\<lambda>_.
     and_then (on_vm (alloc_and_map_range (p_vaddr ph - seg_offset ph) (seg_size ph) (PTE_U OR PTE_R OR PTE_W))) (\<lambda>_.
     and_then (set_pos u (p_offset ph)) (\<lambda>_.
     and_then (read_exactly u (p_filesz ph) (put_user (p_vaddr ph))) (\<lambda>_.
     and_then (on_vm (if p_memsz ph > p_filesz ph
                      then put_user (p_vaddr ph + p_filesz ph) (replicate (unat (p_memsz ph - p_filesz ph)) 0)
                      else Some)) (\<lambda>_.
     on_vm (set_range_flags (p_vaddr ph - seg_offset ph) (seg_size ph) (seg_flags ph)))))))"

fun load_segments :: "nat \<Rightarrow> elf64_ehdr \<Rightarrow> nat list \<Rightarrow> ('w, unit) action" where
  "load_segments u h [] k = Some (Done (), k)"
| "load_segments u h (i # is) k =
     and_then (set_pos u (e_phoff h + of_nat (i * unat (e_phentsize h)))) (\<lambda>_.
     and_then (read_exactly u (ucast (e_phentsize h)) (\<lambda>_. Some)) (\<lambda>b.
     and_then (if p_type (phdr_of b) = 1 then load_segment u (phdr_of b) else (\<lambda>k. Some (Done (), k))) (\<lambda>_.
     load_segments u h is))) k"

text \<open>The entry point is the result.\<close>

definition elf_load :: "nat \<Rightarrow> ('w, u64) action" where
  "elf_load u =
     and_then (read_exactly u 64 (\<lambda>_. Some)) (\<lambda>b.
     and_then (fail_unless (ehdr_ok (ehdr_of b)) EINVAL) (\<lambda>_.
     and_then (load_segments u (ehdr_of b) [0..<unat (e_phnum (ehdr_of b))]) (\<lambda>_ k.
     Some (Done (e_entry (ehdr_of b)), k))))"

section \<open>Processes\<close>

text \<open>What the registers hold when the process starts in user mode.\<close>

record user_start =
  us_a0 :: int
  us_a1 :: u64
  us_sp :: u64
  us_sepc :: u64

definition procmgr_init :: "nat \<Rightarrow> int \<Rightarrow> 'w kernel \<Rightarrow> 'w kernel" where
  "procmgr_init main_proc tid k =
     k\<lparr>k_proc := (k_proc k)(main_proc := \<lparr>p_alloc = True, p_tid = tid, p_mtag = vm_satp (k_vm k), uiotab = replicate PROCESS_UIOMAX None\<rparr>),
       k_cur := main_proc\<rparr>"

text \<open>The console as descriptors 2, 0 and 1, when 2 is free; \<open>new\<close> and \<open>f\<close> are what the device
  manager opens.\<close>

definition open_console :: "nat \<Rightarrow> 'w intf \<Rightarrow> ('w, unit) action" where
  "open_console new f k =
     (if tab k (k_cur k) ! 2 \<noteq> None then Some (Done (), k)
      else case k_open (Some [100, 101, 118]) (Some [117, 97, 114, 116, 49]) new f k of
        None \<Rightarrow> None
      | Some (Inl rc, k1) \<Rightarrow> Some (Fails rc, k1)
      | Some (Inr u, k1) \<Rightarrow>
          let p = k_cur k1 in
          Some (Done (), set_fd p 1 (Some u) (k_addref u (set_fd p 0 (Some u) (k_addref u (set_fd p 2 (Some u) k1))))))"

text \<open>The stack goes to the last page of user memory.  The page is given back on a failure,
  although it is mapped by then.\<close>

definition exec_stack :: "nat \<Rightarrow> bytes list \<Rightarrow> ('w, int) action" where
  "exec_stack stack argv =
     and_then (on_vm reset_active_mspace) (\<lambda>_.
     and_then (on_vm (map_page (UMEM_END_VMA - of_nat PAGE_SIZE) stack (PTE_R OR PTE_W OR PTE_U))) (\<lambda>_ k.
     (case build_stack (vm_pages (k_vm k) stack) argv of
        None \<Rightarrow> None
      | Some (rc, page) \<Rightarrow>
          let v = set_page stack page (k_vm k)
          in Some (if rc < 0 then (Fails rc, k\<lparr>k_vm := drop_page stack v\<rparr>) else (Done rc, k\<lparr>k_vm := v\<rparr>)))))"

definition exec_load :: "nat \<Rightarrow> nat \<Rightarrow> ('w, u64) action" where
  "exec_load stack exefile k =
     (case elf_load exefile k of
        Some (Fails _, k1) \<Rightarrow> Some (Fails (- 67), k1\<lparr>k_vm := drop_page stack (k_vm k1)\<rparr>)
      | r \<Rightarrow> r)"

definition process_exec :: "nat \<Rightarrow> bytes list \<Rightarrow> nat \<Rightarrow> 'w intf \<Rightarrow> ('w, user_start) action" where
  "process_exec exefile argv new f k =
     (case alloc_phys_page (vm_free (k_vm k)) of
        None \<Rightarrow> None
      | Some (stack, cs) \<Rightarrow>
          and_then (open_console new f) (\<lambda>_.
          and_then (exec_stack stack argv) (\<lambda>stacksize.
          and_then (exec_load stack exefile) (\<lambda>entry k.
          let top = UMEM_END_VMA - word_of_int stacksize
          in Some (Done \<lparr>us_a0 = int (length argv), us_a1 = top, us_sp = top, us_sepc = entry\<rparr>, k_close exefile k))))
          (k\<lparr>k_vm := (k_vm k)\<lparr>vm_free := cs\<rparr>\<rparr>))"

text \<open>The references of a table, taken and given back.\<close>

fun addref_all :: "nat option list \<Rightarrow> 'w kernel \<Rightarrow> 'w kernel" where
  "addref_all [] k = k"
| "addref_all (None # us) k = addref_all us k"
| "addref_all (Some u # us) k = addref_all us (k_addref u k)"

fun close_refs :: "nat option list \<Rightarrow> 'w kernel \<Rightarrow> 'w kernel" where
  "close_refs [] k = k"
| "close_refs (None # us) k = close_refs us k"
| "close_refs (Some u # us) k = close_refs us (k_close u k)"

text \<open>A fork copies the memory space and takes the references; then the new process is set up at
  \<open>child\<close>, or all is given back when \<open>spawn_thread\<close> returned no thread but an error.  The parent
  goes on when the child has run.\<close>

definition fork_copy :: "'w kernel \<Rightarrow> (u64 \<times> 'w kernel) option" where
  "fork_copy k =
     (case clone_active_mspace (k_vm k) of
        None \<Rightarrow> None
      | Some (new_mspace, v) \<Rightarrow> Some (new_mspace, addref_all (tab k (k_cur k)) (k\<lparr>k_vm := v\<rparr>)))"

definition fork_finish :: "nat \<Rightarrow> int \<Rightarrow> u64 \<Rightarrow> 'w kernel \<Rightarrow> 'w kernel" where
  "fork_finish child tid new_mspace k =
     (let t = tab k (k_cur k)
      in if tid < 0 then close_refs t k
         else k\<lparr>k_proc := (k_proc k)(child := \<lparr>p_alloc = True, p_tid = tid, p_mtag = new_mspace, uiotab = t\<rparr>)\<rparr>)"

definition process_fork :: "nat \<Rightarrow> int \<Rightarrow> 'w kernel \<Rightarrow> (int \<times> 'w kernel) option" where
  "process_fork child tid k =
     map_option (\<lambda>(new_mspace, k1). (tid, fork_finish child tid new_mspace k1)) (fork_copy k)"

text \<open>The descriptors of the process, closed in order.\<close>

fun close_fds :: "nat \<Rightarrow> nat list \<Rightarrow> 'w kernel \<Rightarrow> 'w kernel" where
  "close_fds p [] k = k"
| "close_fds p (i # is) k =
     close_fds p is (case tab k p ! i of None \<Rightarrow> k | Some u \<Rightarrow> set_fd p i None (k_close u k))"

text \<open>The end of a process up to \<open>running_thread_exit\<close>.\<close>

definition process_exit :: "u64 \<Rightarrow> 'w kernel \<Rightarrow> 'w kernel option" where
  "process_exit main_mtag k =
     (let k1 = close_fds (k_cur k) [0..<PROCESS_UIOMAX] k
      in case discard_active_mspace main_mtag (k_vm k1) of
           None \<Rightarrow> None
         | Some (_, v) \<Rightarrow> Some (k1\<lparr>k_vm := v\<rparr>))"

text \<open>Another process goes on: its thread's switch makes its memory space the active one.\<close>

definition switch_process :: "nat \<Rightarrow> 'w kernel \<Rightarrow> 'w kernel" where
  "switch_process p k = k\<lparr>k_cur := p, k_vm := snd (switch_mspace (p_mtag (k_proc k p)) (k_vm k))\<rparr>"

end
