(* ===== verification/ExecRefs.thy ===== *)
theory ExecRefs
  imports FileRefs Exec
begin

text \<open>
  The reference counts when processes are forked, end, and start programs.
\<close>

section \<open>Extra references\<close>

text \<open>During a fork the kernel holds \<open>m u\<close> references on \<open>u\<close> beside those of the tables.\<close>

definition files_plus :: "(nat \<Rightarrow> nat) \<Rightarrow> nat set \<Rightarrow> (pipe_side \<times> nat) set \<Rightarrow> 'w kernel \<Rightarrow> bool" where
  "files_plus m X Y k \<longleftrightarrow>
     tables_ok k \<and> (\<forall>u. u \<notin> X \<and> held k u \<longrightarrow> k_ref k u = holders k u + m u) \<and> ends_ok X Y k"

lemma files_plus_0: "files_plus (\<lambda>_. 0) X Y k = files_ok X Y k"
  by (simp add: files_plus_def files_ok_def refs_ok_def)

lemma addref_plus: "files_plus m X Y k \<Longrightarrow> files_plus (m(u := m u + 1)) X Y (k_addref u k)"
  unfolding files_plus_def ends_ok_def end_ok_def holders_addref
  by (simp add: k_addref_def uio_addref_def tables_ok_def)

lemma close_plus:
  assumes f: "files_plus m X Y k" and u: "held k u" "0 < m u"
  shows "files_plus (m(u := m u - 1)) X Y (k_close u k)"
proof -
  note c = k_close_effect [where u = u and k = k]
  have h: "holders (k_close u k) v = holders k v" for v by (rule holders_cong(1)) (rule c(1))
  have o: "k_obj (k_close u k) v = End s q \<longleftrightarrow> k_obj k v = End s q" for v s q using c(4) by (auto simp: same_kind_def)
  have "end_open s (k_pipe (k_close u k) q) = end_open s (k_pipe k q)" if nY: "(s, q) \<notin> Y" for s q
  proof -
    have "\<not> (k_obj k u = End s q \<and> k_ref k u \<le> 1)"
    proof
      assume a: "k_obj k u = End s q \<and> k_ref k u \<le> 1"
      then have "u \<notin> X" using f u(1) nY by (auto simp: files_plus_def ends_ok_def)
      then have "k_ref k u = holders k u + m u" using f u(1) by (simp add: files_plus_def)
      then show False using a u by simp
    qed
    then show ?thesis by (simp add: c(5))
  qed
  then have "ends_ok X Y (k_close u k)" using f unfolding files_plus_def ends_ok_def end_ok_def h o by auto
  moreover have "tables_ok (k_close u k)" using f holders_cong(2) [OF c(1,2)] by (simp add: files_plus_def)
  ultimately show ?thesis using f u unfolding files_plus_def h c(3) by auto
qed

lemma count_fun: "(\<lambda>v. m v + count_list (Some u # us) (Some v)) = (\<lambda>v. (m(u := m u + 1)) v + count_list us (Some v))"
  by (auto simp: fun_eq_iff)

lemma addref_all_plus: "files_plus m X Y k \<Longrightarrow> files_plus (\<lambda>v. m v + count_list us (Some v)) X Y (addref_all us k)"
proof (induction us k arbitrary: m rule: addref_all.induct)
  case (3 u us k)
  show ?case unfolding count_fun addref_all.simps by (rule 3(1)) (rule addref_plus [OF 3(2)])
qed simp_all

lemma close_refs_plus:
  assumes "files_plus (\<lambda>v. m v + count_list us (Some v)) X Y k" and "\<And>u. Some u \<in> set us \<Longrightarrow> held k u"
  shows "files_plus m X Y (close_refs us k)"
  using assms
proof (induction us k arbitrary: m rule: close_refs.induct)
  case (3 u us k)
  have h: "holders (k_close u k) v = holders k v" for v by (rule holders_cong(1)) (rule k_close_effect(1))
  have "(\<lambda>v. m v + count_list us (Some v)) = (\<lambda>v. m v + count_list (Some u # us) (Some v))(u := m u + count_list (Some u # us) (Some u) - 1)"
    by (auto simp: fun_eq_iff)
  then have "files_plus (\<lambda>v. m v + count_list us (Some v)) X Y (k_close u k)"
    using close_plus [OF 3(2), of u] 3(3) by simp
  then show ?case using 3(1) 3(3) by (simp add: h)
qed simp_all

section \<open>Fork\<close>

lemma addref_all_rest [simp]:
  "k_proc (addref_all us k) = k_proc k" "k_cur (addref_all us k) = k_cur k" "k_obj (addref_all us k) = k_obj k"
  "k_pipe (addref_all us k) = k_pipe k"
  by (induction us k rule: addref_all.induct) (simp_all add: k_addref_def)

lemma close_refs_holders: "holders (close_refs us k) v = holders k v"
proof (induction us k rule: close_refs.induct)
  case (3 u us k)
  then show ?case using holders_cong(1) [OF k_close_effect(1) [of u k]] by simp
qed simp_all

lemma fork_good:
  assumes t: "tables_ok k" and f: "process_fork child tid k = Some (rc, k')" and c: "\<not> p_alloc (k_proc k child)"
  shows "good_step k k'"
proof -
  let ?t = "tab k (k_cur k)"
  from f obtain ms v where v: "clone_active_mspace (k_vm k) = Some (ms, v)" by (auto simp: process_fork_def fork_copy_def split: option.splits)
  define k0 where "k0 = k\<lparr>k_vm := v\<rparr>"
  have p0: "k_proc k0 = k_proc k" "k_cur k0 = k_cur k" by (simp_all add: k0_def)
  have h0: "holders k0 u = holders k u" for u by (rule holders_cong(1)) (rule p0)
  let ?k1 = "addref_all ?t k0"
  have p1: "k_proc ?k1 = k_proc k" "k_cur ?k1 = k_cur k" by (simp_all add: p0)
  have h1: "holders ?k1 u = holders k u" for u using holders_cong(1) [of ?k1 k0] h0 by simp
  have slot: "held k u" if "Some u \<in> set ?t" for u
    using that t holders_nth [OF t] by (auto simp: in_set_conv_nth tables_ok_def)
  have plus: "files_plus (\<lambda>v. count_list ?t (Some v)) X Y ?k1" if "files_ok X Y k" for X Y
  proof -
    have "files_ok X Y k0" by (rule quiet_ok [OF _ that]) (simp add: k0_def)
    then have "files_plus (\<lambda>_. 0) X Y k0" by (simp add: files_plus_0)
    from addref_all_plus [OF this, of ?t] show ?thesis by simp
  qed
  show ?thesis
  proof (cases "tid < 0")
    case True
    then have k': "k' = close_refs ?t ?k1" using f v p1 by (simp add: process_fork_def fork_copy_def fork_finish_def Let_def k0_def)
    have "files_ok X Y k'" if "files_ok X Y k" for X Y
      unfolding k' files_plus_0 [symmetric] by (rule close_refs_plus) (use plus [OF that] slot h1 in auto)
    then show ?thesis by (intro good_none) (auto simp: k' close_refs_holders h1)
  next
    case False
    let ?c = "\<lparr>p_alloc = True, p_tid = tid, p_mtag = ms, uiotab = ?t\<rparr>"
    have k': "k' = ?k1\<lparr>k_proc := (k_proc k)(child := ?c)\<rparr>" using False f v p1 by (auto simp: process_fork_def fork_copy_def fork_finish_def Let_def k0_def)
    let ?A = "{p. p_alloc (k_proc k p)}"
    have A: "{p. p_alloc (k_proc k' p)} = insert child ?A" "child \<notin> ?A" "finite ?A"
      using c t by (auto simp: k' tables_ok_def)
    have "(\<Sum>p\<in>?A. count_list (tab k' p) (Some u)) = holders k u" for u
      unfolding holders_def by (rule sum.cong) (use A(2) in \<open>auto simp: k'\<close>)
    then have h: "holders k' u = holders k u + count_list ?t (Some u)" for u
      unfolding holders_def A(1) by (simp add: sum.insert [OF A(3,2)] k')
    have hk: "held k' u \<longleftrightarrow> held k u" for u
    proof (cases "Some u \<in> set ?t")
      case False
      then show ?thesis by (simp add: h count_list_0_iff)
    qed (use slot [of u] in \<open>simp add: h\<close>)
    have tk: "tables_ok k'" using t A c p0 by (auto simp: tables_ok_def k')
    have "files_ok X Y k'" if ok: "files_ok X Y k" for X Y
    proof -
      note pl = plus [OF ok, unfolded files_plus_def h1]
      have e: "ends_ok X Y k'" using pl unfolding ends_ok_def end_ok_def hk h1 by (simp add: k')
      have "k_ref k' = k_ref ?k1" by (simp add: k')
      then have "refs_ok X k'" using pl unfolding refs_ok_def hk unfolding h by simp
      with e tk show ?thesis by (simp add: files_ok_def)
    qed
    then show ?thesis by (intro good_none) (simp_all add: hk)
  qed
qed

section \<open>Exit\<close>

lemma close_fds_ok:
  assumes "files_ok X Y k" and "p_alloc (k_proc k p)" and "\<forall>i\<in>set is. i < PROCESS_UIOMAX"
  shows "files_ok X Y (close_fds p is k) \<and> (\<forall>v. holders (close_fds p is k) v \<le> holders k v) \<and>
     k_cur (close_fds p is k) = k_cur k \<and> p_alloc (k_proc (close_fds p is k) p) \<and>
     (\<forall>q. q \<noteq> p \<longrightarrow> k_proc (close_fds p is k) q = k_proc k q) \<and>
     (\<forall>i<PROCESS_UIOMAX. tab (close_fds p is k) p ! i = (if i \<in> set is then None else tab k p ! i))"
  using assms
proof (induction p "is" k rule: close_fds.induct)
  case (2 p i "is" k)
  let ?k1 = "case tab k p ! i of None \<Rightarrow> k | Some u \<Rightarrow> set_fd p i None (k_close u k)"
  have t: "tables_ok k" using 2(2) by (simp add: files_ok_def)
  have len: "length (tab k p) = PROCESS_UIOMAX" using t 2(3) by (simp add: tables_ok_def)
  have k1: "files_ok X Y ?k1 \<and> (\<forall>v. holders ?k1 v \<le> holders k v) \<and> k_cur ?k1 = k_cur k \<and> p_alloc (k_proc ?k1 p) \<and>
      (\<forall>q. q \<noteq> p \<longrightarrow> k_proc ?k1 q = k_proc k q) \<and> tab ?k1 p = (tab k p)[i := None]"
  proof (cases "tab k p ! i")
    case None
    then have "(tab k p)[i := None] = tab k p" by (metis list_update_id)
    then show ?thesis using 2(2,3) None by simp
  next
    case (Some u)
    have i: "i < PROCESS_UIOMAX" using 2(4) by simp
    note c = k_close_effect(1,2) [of u k]
    show ?thesis
      using drop_fd_ok [OF 2(2,3) i Some] drop_fd_holders(2) [OF t 2(3) i Some] 2(3)
      by (simp add: Some drop_fd_def set_fd_def c)
  qed
  then have "files_ok X Y ?k1" "p_alloc (k_proc ?k1 p)" by blast+
  then have "files_ok X Y (close_fds p is ?k1) \<and> (\<forall>v. holders (close_fds p is ?k1) v \<le> holders ?k1 v) \<and>
     k_cur (close_fds p is ?k1) = k_cur ?k1 \<and> p_alloc (k_proc (close_fds p is ?k1) p) \<and>
     (\<forall>q. q \<noteq> p \<longrightarrow> k_proc (close_fds p is ?k1) q = k_proc ?k1 q) \<and>
     (\<forall>i<PROCESS_UIOMAX. tab (close_fds p is ?k1) p ! i = (if i \<in> set is then None else tab ?k1 p ! i))"
    using 2(4) by (intro 2(1)) auto
  moreover have "close_fds p (i # is) k = close_fds p is ?k1" by simp
  ultimately show ?case using k1 len 2(4) by (auto simp: nth_list_update intro: order_trans simp del: close_fds.simps)
qed simp

lemma process_exit_good:
  assumes t: "tables_ok k" and x: "process_exit m k = Some k'"
  shows "good_step k k'"
proof (cases "\<exists>X Y. files_ok X Y k")
  case True
  let ?k1 = "close_fds (k_cur k) [0..<PROCESS_UIOMAX] k"
  have a: "p_alloc (k_proc k (k_cur k))" using t by (simp add: tables_ok_def)
  obtain v where k': "k' = ?k1\<lparr>k_vm := v\<rparr>" using x by (auto simp: process_exit_def Let_def split: option.splits)
  have h: "holders k' u = holders ?k1 u" for u by (rule holders_cong(1)) (simp add: k')
  have ok: "files_ok X Y k'" if "files_ok X Y k" for X Y
    using close_fds_ok [OF that a, of "[0..<PROCESS_UIOMAX]"] by (auto simp: k' intro: quiet_ok [of ?k1])
  have "held k u" if "held k' u" for u
    using that True close_fds_ok [OF _ a, of _ _ "[0..<PROCESS_UIOMAX]"] unfolding h by (metis atLeastLessThan_iff atLeastLessThan_upt gr_zeroI le_zero_eq)
  then show ?thesis using ok by (intro good_none)
qed (simp add: good_step_def)

section \<open>Exec\<close>

text \<open>Actions that leave descriptors alone.\<close>

definition quiet_act :: "('w, 'a) action \<Rightarrow> bool" where
  "quiet_act m \<longleftrightarrow> (\<forall>k r k'. m k = Some (r, k') \<longrightarrow> quiet k k')"

lemma quiet_actI: "(\<And>k r k'. m k = Some (r, k') \<Longrightarrow> quiet k k') \<Longrightarrow> quiet_act m"
  by (simp add: quiet_act_def)

lemma quiet_and_then: "quiet_act m \<Longrightarrow> (\<And>x. quiet_act (f x)) \<Longrightarrow> quiet_act (and_then m f)"
  unfolding quiet_act_def and_then_def by (auto split: option.splits prod.splits outcome.splits)
    (blast intro: quiet_trans)

lemma quiet_done [intro!]: "quiet_act (\<lambda>k. Some (r, k))"
  by (rule quiet_actI) simp

lemma quiet_fail_unless [intro!]: "quiet_act (fail_unless b e)"
  by (rule quiet_actI) (auto simp: fail_unless_def)

lemma quiet_on_vm [intro!]: "quiet_act (on_vm f)"
  by (rule quiet_actI) (auto simp: on_vm_def split: option.splits)

lemma quiet_read_exactly [intro!]: "quiet_act (read_exactly u n f)"
  by (rule quiet_actI) (auto simp: read_exactly_def split: prod.splits pipe_outcome.splits option.splits dest: k_read_quiet)

lemma quiet_set_pos [intro!]: "quiet_act (set_pos u a)"
  by (rule quiet_actI) (auto simp: set_pos_def split: prod.splits dest: k_cntl_quiet)

lemma quiet_load_segments: "quiet_act (load_segments u h is)"
proof (induction "is")
  case Nil
  show ?case by (rule quiet_actI) simp
next
  case (Cons i "is")
  have "load_segments u h (i # is) = and_then (set_pos u (e_phoff h + of_nat (i * unat (e_phentsize h)))) (\<lambda>_.
     and_then (read_exactly u (ucast (e_phentsize h)) (\<lambda>_. Some)) (\<lambda>b.
     and_then (if p_type (phdr_of b) = 1 then load_segment u (phdr_of b) else (\<lambda>k. Some (Done (), k))) (\<lambda>_.
     load_segments u h is)))"
    by (rule ext) simp
  then show ?case using Cons by (auto simp: load_segment_def intro!: quiet_and_then)
qed

lemma quiet_elf_load: "quiet_act (elf_load u)"
  unfolding elf_load_def by (auto intro!: quiet_and_then quiet_load_segments)

lemma quiet_exec_load: "quiet_act (exec_load stack u)"
  using quiet_elf_load [of u] unfolding quiet_act_def
  by (auto simp: exec_load_def split: option.splits prod.splits outcome.splits)

lemma quiet_exec_stack: "quiet_act (exec_stack stack argv)"
  unfolding exec_stack_def
  by (intro quiet_and_then quiet_on_vm quiet_actI) (auto simp: Let_def split: option.splits prod.splits if_splits)

text \<open>Objects whose counts are no longer trusted, and the pipe ends among them.\<close>

definition ends_of :: "'w kernel \<Rightarrow> nat set \<Rightarrow> (pipe_side \<times> nat) set" where
  "ends_of k T = {(s, q). \<exists>u\<in>T. k_obj k u = End s q}"

lemma exempt:
  assumes "files_ok X Y k"
  shows "files_ok (X \<union> T) (Y \<union> ends_of k T) k"
  using assms unfolding files_ok_def refs_ok_def ends_ok_def ends_of_def by blast

text \<open>A slot with no object, or with an exempt one, is overwritten with a counted reference.\<close>

lemma retab_ok:
  assumes ok: "files_ok X Y k" and p: "p_alloc (k_proc k p)" "i < PROCESS_UIOMAX"
    and old: "\<And>v. tab k p ! i = Some v \<Longrightarrow> v \<in> X" and u: "held k u"
  shows "files_ok X Y (set_fd p i (Some u) (k_addref u k))"
    "held (set_fd p i (Some u) (k_addref u k)) u"
    "held (set_fd p i (Some u) (k_addref u k)) v \<Longrightarrow> held k v"
proof -
  let ?k1 = "k_addref u k" and ?k = "set_fd p i (Some u) (k_addref u k)"
  have t: "tables_ok k" and r: "refs_ok X k" and e: "ends_ok X Y k" using ok by (auto simp: files_ok_def)
  have same: "k_proc ?k1 = k_proc k" "k_cur ?k1 = k_cur k" by (simp_all add: k_addref_def)
  have t1: "tables_ok ?k1" using t holders_cong(2) [OF same] by simp
  have h: "holders ?k v + (if tab k p ! i = Some v then 1 else 0) = holders k v + (if v = u then 1 else 0)" for v
    using holders_set_fd [OF t1, of p i "Some u" v] p unfolding holders_cong(1) [OF same(1)] same by auto
  show hu: "held ?k u" using h [of u] u by (simp split: if_splits)
  have sub: "held k v" if "held ?k v" for v using h [of v] that u by (cases "v = u") (auto split: if_splits)
  then show "held ?k v \<Longrightarrow> held k v" .
  have keep: "holders ?k v = holders k v + (if v = u then 1 else 0)" if "v \<notin> X" for v
  proof -
    have "tab k p ! i \<noteq> Some v" using old that by blast
    then show ?thesis using h [of v] by simp
  qed
  have o: "k_ref ?k v = k_ref k v + (if v = u then 1 else 0)" "k_obj ?k = k_obj k" "k_pipe ?k = k_pipe k" for v
    by (simp_all add: set_fd_def k_addref_def uio_addref_def)
  have x: "v \<notin> X" if "held k v" "k_obj k v = End s q" "(s, q) \<notin> Y" for v s q using e that by (auto simp: ends_ok_def)
  have pos: "held ?k v \<longleftrightarrow> held k v" if "v \<notin> X" for v using keep [OF that] u by auto
  have "end_ok ?k s q" if nY: "(s, q) \<notin> Y" for s q
  proof -
    have "end_ok k s q" using e nY by (simp add: ends_ok_def)
    moreover have "held ?k v \<and> k_obj k v = End s q \<longleftrightarrow> held k v \<and> k_obj k v = End s q" for v
      using x [OF _ _ nY] sub pos by blast
    ultimately show ?thesis unfolding end_ok_def o by metis
  qed
  moreover have "refs_ok X ?k" using r sub keep unfolding refs_ok_def by (auto simp: o)
  moreover have "(s, q) \<in> Y" if "v \<in> X" "held ?k v" "k_obj ?k v = End s q" for v s q
    using e sub that by (auto simp: ends_ok_def o)
  ultimately show "files_ok X Y ?k" using t1 by (intro files_okI) auto
qed

lemma close_exempt:
  assumes ok: "files_ok X Y k" and u: "u \<in> X" "ends_of k {u} \<subseteq> Y"
  shows "files_ok X Y (k_close u k)"
proof -
  note c = k_close_effect [where u = u and k = k]
  have h: "holders (k_close u k) v = holders k v" for v by (rule holders_cong(1)) (rule c(1))
  have o: "k_obj (k_close u k) v = End s q \<longleftrightarrow> k_obj k v = End s q" for v s q using c(4) by (auto simp: same_kind_def)
  have "end_open s (k_pipe (k_close u k) q) = end_open s (k_pipe k q)" if "(s, q) \<notin> Y" for s q
    using u(2) that by (auto simp: c(5) ends_of_def)
  then have "ends_ok X Y (k_close u k)" using ok unfolding files_ok_def ends_ok_def end_ok_def h o by auto
  moreover have "tables_ok (k_close u k)" using ok holders_cong(2) [OF c(1,2)] by (simp add: files_ok_def)
  ultimately show ?thesis using ok u(1) unfolding files_ok_def refs_ok_def h c(3) by auto
qed

text \<open>\<open>process_exec\<close> closes the file of the program while the descriptor that names it stays, and
  overwrites descriptors 0 and 1 without closing what they named: these are the objects whose
  counts it spoils.\<close>

definition exec_spoils :: "nat \<Rightarrow> 'w kernel \<Rightarrow> nat set" where
  "exec_spoils u k = {u} \<union> {v. tab k (k_cur k) ! 0 = Some v \<or> tab k (k_cur k) ! 1 = Some v}"

lemma newly_sub: "(\<And>v. held k1 v \<Longrightarrow> held k v \<or> v = c) \<Longrightarrow> \<not> held k c \<Longrightarrow> held k1 c \<Longrightarrow> newly k k1 = {c}"
  unfolding newly_def by (rule set_eqI, unfold mem_Collect_eq singleton_iff, metis)

lemma open_console_ok:
  assumes ok: "files_ok X Y k" and o: "open_console new f k = Some (r, k')" and n: "opens_new new f k"
    and X: "exec_spoils u k \<subseteq> X"
  shows "files_ok (X - newly k k') Y k' \<and> k_cur k' = k_cur k \<and> new_ends k k' = {} \<and>
     (\<forall>v s q. v \<notin> newly k k' \<longrightarrow> (k_obj k' v = End s q \<longleftrightarrow> k_obj k v = End s q)) \<and>
     (\<forall>c\<in>newly k k'. \<exists>mp fl k1. k_open mp fl new f k = Some (Inr c, k1))"
proof -
  let ?p = "k_cur k"
  have t: "tables_ok k" using ok by (simp add: files_ok_def)
  have p: "p_alloc (k_proc k ?p)" using t by (simp add: tables_ok_def)
  have none: "newly k (k\<lparr>k_devs := d\<rparr>) = {}" for d
    using holders_cong(1) [of "k\<lparr>k_devs := d\<rparr>" k] by (simp add: newly_def) (metis neq0_conv)
  consider "k' = k" | d where "k' = k\<lparr>k_devs := d\<rparr>"
    | c x d where "\<exists>mp fl k1. k_open mp fl new f k = Some (Inr c, k1)" "tab k ?p ! 2 = None" "\<And>s q. x \<noteq> End s q" "\<not> held k c"
        "k' = (let k1 = set_fd ?p 2 (Some c) (new_obj c x (k\<lparr>k_devs := d\<rparr>)) in
           set_fd ?p 1 (Some c) (k_addref c (set_fd ?p 0 (Some c) (k_addref c k1))))"
  proof (cases "tab k ?p ! 2")
    case None
    then obtain r1 k1 where r1: "k_open (Some [100, 101, 118]) (Some [117, 97, 114, 116, 49]) new f k = Some (r1, k1)"
      using o by (auto simp: open_console_def split: option.splits)
    from r1 show thesis
    proof (cases rule: k_open_cases)
      case (1 e d)
      then show thesis using that(2) [of d] o None r1 by (simp add: open_console_def)
    next
      case (2 c x d)
      have "\<not> held k c" using n r1 2(1) by (auto simp: opens_new_def)
      moreover have "k_cur k1 = ?p" using 2(2) by (simp add: new_obj_def)
      ultimately have k': "k' = (let k1 = set_fd ?p 2 (Some c) (new_obj c x (k\<lparr>k_devs := d\<rparr>)) in
           set_fd ?p 1 (Some c) (k_addref c (set_fd ?p 0 (Some c) (k_addref c k1))))"
        using o None r1 2(1,2) by (simp add: open_console_def Let_def)
      have "\<exists>mp fl k1. k_open mp fl new f k = Some (Inr c, k1)" using r1 2(1) by blast
      then show thesis by (rule that(3) [OF _ None 2(3) \<open>\<not> held k c\<close> k'])
    qed
  next
    case (Some v)
    then show thesis using that(1) o by (simp add: open_console_def)
  qed
  then show ?thesis
  proof cases
    case 1
    then show ?thesis using ok by (simp add: new_ends_def)
  next
    case (2 d)
    then have "files_ok X Y k'" using quiet_ok [OF _ ok, of k'] by simp
    then show ?thesis using none 2 by (simp add: new_ends_def)
  next
    case (3 c x d)
    let ?k0 = "k\<lparr>k_devs := d\<rparr>"
    let ?k1 = "set_fd ?p 2 (Some c) (new_obj c x ?k0)"
    let ?k2 = "set_fd ?p 0 (Some c) (k_addref c ?k1)"
    have k': "k' = set_fd ?p 1 (Some c) (k_addref c ?k2)" using 3(5) by (simp add: Let_def)
    have ok0: "files_ok X Y ?k0" by (rule quiet_ok [OF _ ok]) simp
    have h0: "holders ?k0 v = holders k v" for v by (simp add: holders_def)
    have ok1: "files_ok (X - {c}) Y ?k1" using new_obj_ok [OF ok0, of ?p 2 c x] p 3 h0 by simp
    have same: "k_proc (new_obj c x ?k0) = k_proc k" "k_cur (new_obj c x ?k0) = k_cur k" by (simp_all add: new_obj_def)
    have t1: "tables_ok (new_obj c x ?k0)" using t holders_cong(2) [OF same] by simp
    have h1: "holders ?k1 v = holders k v + (if v = c then 1 else 0)" for v
      using holders_set_fd [OF t1, of ?p 2 "Some c" v] p 3(2) holders_cong(1) [OF same(1), of v] by (simp add: same split: if_splits)
    have slots: "tab ?k1 ?p ! 0 = tab k ?p ! 0" "tab ?k2 ?p ! 1 = tab k ?p ! 1"
      by (simp_all add: set_fd_def new_obj_def k_addref_def)
    have spoilt: "v \<in> X - {c}" if "tab k ?p ! i = Some v" "i = 0 \<or> i = 1" for v i
      using that X 3(4) holders_nth [OF t p, of i v] by (auto simp: exec_spoils_def)
    have p1: "p_alloc (k_proc ?k1 ?p)" "p_alloc (k_proc ?k2 ?p)" using p by (simp_all add: set_fd_def new_obj_def k_addref_def)
    have "held ?k1 c" by (simp add: h1)
    note r2 = retab_ok [OF ok1 p1(1), of 0 c, unfolded slots, OF _ _ this]
    have ok2: "files_ok (X - {c}) Y ?k2" and c2: "held ?k2 c" and s2: "\<And>v. held ?k2 v \<Longrightarrow> held ?k1 v"
      using spoilt r2 by simp_all
    note r3 = retab_ok [OF ok2 p1(2), of 1 c, unfolded slots, OF _ _ c2]
    have ok3: "files_ok (X - {c}) Y k'" and c3: "held k' c" and s3: "\<And>v. held k' v \<Longrightarrow> held ?k2 v"
      using spoilt r3 unfolding k' by simp_all
    have "held k v \<or> v = c" if "held k' v" for v using s2 [OF s3 [OF that]] unfolding h1 by (cases "v = c") simp_all
    then have N: "newly k k' = {c}" using 3(4) c3 by (rule newly_sub)
    have "k_obj k' v = (if v = c then x else k_obj k v)" for v by (simp add: k' set_fd_def new_obj_def k_addref_def)
    then show ?thesis using ok3 3(1,3) unfolding N new_ends_def by (auto simp: k' set_fd_def new_obj_def k_addref_def)
  qed
qed

lemma exec_ok:
  assumes ok: "files_ok X Y k" and x: "process_exec u argv new f k = Some (r, k')"
    and n: "opens_new new f k" "\<And>mp fl k1. k_open mp fl new f k \<noteq> Some (Inr u, k1)"
  shows "files_ok (X \<union> exec_spoils u k - newly k k') (Y \<union> ends_of k (exec_spoils u k) - new_ends k k') k'"
proof -
  let ?T = "exec_spoils u k"
  let ?X = "X \<union> ?T" and ?Y = "Y \<union> ends_of k ?T"
  have okT: "files_ok ?X ?Y k" by (rule exempt [OF ok])
  from x obtain stack cs where a: "alloc_phys_page (vm_free (k_vm k)) = Some (stack, cs)"
    by (auto simp: process_exec_def split: option.splits)
  define k0 where "k0 = k\<lparr>k_vm := (k_vm k)\<lparr>vm_free := cs\<rparr>\<rparr>"
  have q0: "quiet k k0" by (simp add: k0_def)
  have ok0: "files_ok ?X ?Y k0" by (rule quiet_ok [OF q0 okT])
  obtain r1 k1 where c: "open_console new f k0 = Some (r1, k1)"
    using x a by (auto simp: process_exec_def and_then_def k0_def split: option.splits)
  have ko: "k_open mp fl new f k0 = map_option (\<lambda>(r, k1). (r, k1\<lparr>k_vm := k_vm k0\<rparr>)) (k_open mp fl new f k)" for mp fl
    by (auto simp: k_open_def k0_def Let_def new_obj_def split: option.splits prod.splits sum.splits opened.splits)
  have h0: "holders k0 v = holders k v" for v by (simp add: k0_def holders_def)
  have n0: "opens_new new f k0" using n(1) by (auto simp: opens_new_def ko h0)
  have T: "exec_spoils u k0 \<subseteq> ?X" by (auto simp: exec_spoils_def k0_def)
  note c1 = open_console_ok [OF ok0 c n0 T]
  have u: "u \<notin> newly k0 k1" using c1 n(2) by (auto simp: ko)
  have N: "newly k2 k3 = newly k0 k1" if "k_proc k2 = k_proc k0" "k_proc k3 = k_proc k1" for k2 k3 :: "'a kernel"
    using that unfolding newly_def by (simp add: holders_cong(1) [of k2 k0] holders_cong(1) [of k3 k1])
  have rest: "k' = k1 \<or> (\<exists>k3. quiet k1 k3 \<and> (k' = k3 \<or> k' = k_close u k3))"
  proof -
    let ?f = "\<lambda>entry k. let top = UMEM_END_VMA in Some (Done entry, k_close u k)"
    have "quiet k1 k3" if "exec_stack stack argv k1 = Some (r, k2)" "exec_load stack u k2 = Some (r', k3)" for r k2 r' k3
      using that quiet_exec_stack quiet_exec_load unfolding quiet_act_def by (blast intro: quiet_trans)
    moreover have "quiet k1 k2" if "exec_stack stack argv k1 = Some (r, k2)" for r k2
      using that quiet_exec_stack unfolding quiet_act_def by blast
    ultimately show ?thesis
      using x unfolding process_exec_def a option.case prod.case k0_def [symmetric] and_then_def c
      by (auto simp: Let_def split: outcome.splits option.splits prod.splits)
  qed
  have fin: "files_ok (?X - newly k k3) (?Y - new_ends k k3) k3 \<and> (\<forall>v s q. v \<notin> newly k k3 \<longrightarrow> (k_obj k3 v = End s q \<longleftrightarrow> k_obj k v = End s q))
      \<and> newly k k3 = newly k0 k1 \<and> new_ends k k3 = {}" if q: "quiet k1 k3" for k3
  proof -
    have n3: "newly k k3 = newly k0 k1" using q by (intro N) (simp_all add: k0_def quiet_def)
    have e: "k_obj k3 v = End s q \<longleftrightarrow> k_obj k1 v = End s q" for v s q using q by (auto simp: quiet_def same_kind_def)
    have "new_ends k k3 = {}" using c1 unfolding new_ends_def n3 e by simp
    then show ?thesis using quiet_ok [OF q, of "?X - newly k0 k1" ?Y] c1 unfolding n3 e by (simp add: k0_def)
  qed
  show ?thesis
  proof (cases "quiet k1 k'")
    case True
    then show ?thesis using fin by blast
  next
    case False
    then obtain k3 where q: "quiet k1 k3" and k': "k' = k_close u k3" using rest by auto
    note f3 = fin [OF q]
    have n': "newly k k' = newly k k3"
      unfolding newly_def k' using holders_cong(1) [OF k_close_effect(1) [of u k3]] by simp
    have "k_obj k' v = End s q \<longleftrightarrow> k_obj k3 v = End s q" for v s q
      using k_close_effect(4) [of u k3 v] by (auto simp: k' same_kind_def)
    then have e': "new_ends k k' = {}" using f3 unfolding new_ends_def n' by simp
    have "files_ok (?X - newly k k3) ?Y k'" unfolding k'
    proof (rule close_exempt)
      show "files_ok (?X - newly k k3) ?Y k3" using f3 by (elim conjE) simp
      show "u \<in> ?X - newly k k3" using f3 u by (simp add: exec_spoils_def)
      show "ends_of k3 {u} \<subseteq> ?Y" using f3 u by (auto simp: ends_of_def exec_spoils_def)
    qed
    then show ?thesis unfolding n' e' by simp
  qed
qed

end
