(* ===== verification/Descriptors.thy ===== *)
theory Descriptors
  imports ExecRefs
begin

text \<open>
  The descriptors of all processes in any history of system calls: counts, closing, and the ends
  of pipes.
\<close>

section \<open>Histories\<close>

inductive kstep :: "'w kernel \<Rightarrow> 'w kernel \<Rightarrow> bool" where
  open_step: "sysopen fd path new f k = Some (rc, k') \<Longrightarrow> opens_new new f k \<Longrightarrow> kstep k k'"
| close_step: "sysclose fd k = (rc, k') \<Longrightarrow> kstep k k'"
| read_step: "sysread fd ptr n k = (r, k') \<Longrightarrow> kstep k k'"
| write_step: "syswrite fd ptr n k = (r, k') \<Longrightarrow> kstep k k'"
| resume_step: "pipe_resume q i ptr k = (r, k') \<Longrightarrow> kstep k k'"
| fcntl_step: "sysfcntl fd cmd arg k = (rc, k') \<Longrightarrow> kstep k k'"
| create_step: "sysfscreate path k = Some (rc, k') \<Longrightarrow> kstep k k'"
| delete_step: "sysfsdelete path k = Some (rc, k') \<Longrightarrow> kstep k k'"
| dup_step: "sysuiodup oldfd newfd k = (rc, k') \<Longrightarrow> kstep k k'"
| pipe_step: "syspipe wfdptr rfdptr w r q k = Some (rc, k') \<Longrightarrow> pipe_new w r q k \<Longrightarrow> kstep k k'"
| fork_step: "process_fork child tid k = Some (rc, k') \<Longrightarrow> \<not> p_alloc (k_proc k child) \<Longrightarrow> kstep k k'"
| exit_step: "process_exit m k = Some k' \<Longrightarrow> kstep k k'"
| switch_step: "p_alloc (k_proc k p) \<Longrightarrow> kstep k (switch_process p k)"
| fault_step: "handle_umode_page_fault vma (k_vm k) = Some (rc, v) \<Longrightarrow> kstep k (k\<lparr>k_vm := v\<rparr>)"

text \<open>In \<open>kreach X Y k\<close>, \<open>X\<close> are the objects whose counts an \<open>exec\<close> has spoilt and \<open>Y\<close> the pipe ends
  among them; an object or an end that is new is in neither.\<close>

inductive kreach :: "nat set \<Rightarrow> (pipe_side \<times> nat) set \<Rightarrow> 'w kernel \<Rightarrow> bool" where
  start: "(\<And>p. \<not> p_alloc (k_proc k p)) \<Longrightarrow> (\<And>s q. \<not> end_open s (k_pipe k q)) \<Longrightarrow> kreach {} {} (procmgr_init main_proc tid k)"
| step: "kreach X Y k \<Longrightarrow> kstep k k' \<Longrightarrow> kreach (X - newly k k') (Y - new_ends k k') k'"
| exec: "kreach X Y k \<Longrightarrow> process_exec u argv new f k = Some (r, k') \<Longrightarrow> opens_new new f k \<Longrightarrow>
     (\<And>mp fl k1. k_open mp fl new f k \<noteq> Some (Inr u, k1)) \<Longrightarrow>
     kreach (X \<union> exec_spoils u k - newly k k') (Y \<union> ends_of k (exec_spoils u k) - new_ends k k') k'"

lemma path_devs_quiet: "path_call path (\<lambda>(mp, fl) k. Some (on_devs (g mp fl k) k)) k = Some (rc, k') \<Longrightarrow> quiet k k'"
  by (erule path_call_cases) (auto dest: on_devs_quiet)

lemma kstep_good:
  assumes "kstep k k'" and t: "tables_ok k"
  shows "good_step k k'"
  using assms
proof cases
  case (create_step path rc)
  then show ?thesis by (auto simp: sysfscreate_def Let_def split: if_splits intro!: quiet_good dest: path_devs_quiet)
next
  case (delete_step path rc)
  then show ?thesis by (auto simp: sysfsdelete_def Let_def split: if_splits intro!: quiet_good dest: path_devs_quiet)
next
  case (switch_step p)
  have h: "holders k' u = holders k u" for u by (rule holders_cong(1)) (simp add: switch_step switch_process_def)
  have "files_ok X Y k'" if "files_ok X Y k" for X Y
    using that switch_step(2) unfolding files_ok_def refs_ok_def ends_ok_def end_ok_def h
    by (simp add: switch_step(1) switch_process_def tables_ok_def)
  then show ?thesis by (intro good_none) (simp_all add: h)
next
  case (open_step fd path new f rc)
  then show ?thesis using sysopen_good [OF t] by blast
next
  case (pipe_step wfdptr rfdptr w r q rc)
  then show ?thesis using syspipe_good [OF t] by blast
next
  case (fork_step child tid rc)
  then show ?thesis using fork_good [OF t] by blast
qed (use t in \<open>auto intro: sysclose_good sysuiodup_good process_exit_good quiet_good sysread_quiet syswrite_quiet sysfcntl_quiet pipe_resume_quiet\<close>)

lemma kernel_start_ok:
  assumes "\<And>p. \<not> p_alloc (k_proc k p)" and "\<And>s q. \<not> end_open s (k_pipe k q)"
  shows "files_ok {} {} (procmgr_init main_proc tid k)"
proof -
  let ?k = "procmgr_init main_proc tid k"
  have a: "{p. p_alloc (k_proc ?k p)} = {main_proc}" using assms(1) by (auto simp: procmgr_init_def)
  have "holders ?k u = 0" for u unfolding holders_def a by (simp add: procmgr_init_def count_list_0_iff)
  moreover have "tables_ok ?k" unfolding tables_ok_def a using assms(1) by (simp add: procmgr_init_def)
  moreover have "k_pipe ?k = k_pipe k" by (simp add: procmgr_init_def)
  ultimately show ?thesis using assms(2) by (simp add: files_ok_def refs_ok_def ends_ok_def end_ok_def)
qed

lemma kreach_ok: "kreach X Y k \<Longrightarrow> files_ok X Y k"
proof (induction rule: kreach.induct)
  case (step X Y k k')
  then have "good_step k k'" by (intro kstep_good) (simp_all add: files_ok_def)
  then show ?case using step by (simp add: good_step_def)
next
  case (exec X Y k u argv new f r k')
  then show ?case by (intro exec_ok)
qed (rule kernel_start_ok)

section \<open>Slots\<close>

text \<open>Another descriptor than \<open>i\<close> of process \<open>p\<close> names the object.\<close>

definition named_elsewhere :: "'w kernel \<Rightarrow> nat \<Rightarrow> nat \<Rightarrow> nat \<Rightarrow> bool" where
  "named_elsewhere k p i u \<longleftrightarrow>
     (\<exists>q j. (q, j) \<noteq> (p, i) \<and> p_alloc (k_proc k q) \<and> j < PROCESS_UIOMAX \<and> tab k q ! j = Some u)"

lemma holders_elsewhere:
  assumes t: "tables_ok k" and p: "p_alloc (k_proc k p)" "i < PROCESS_UIOMAX" "tab k p ! i = Some u"
  shows "named_elsewhere k p i u \<longleftrightarrow> 1 < holders k u"
proof -
  let ?k = "set_fd p i None k"
  have h: "holders k u = holders ?k u + 1" using holders_set_fd [OF t p(1,2), of None u] p(3) by simp
  have len: "i < length (tab k p)" using t p by (simp add: tables_ok_def)
  have s: "tab ?k q ! j = (if q = p \<and> j = i then None else tab k q ! j)" if "j < PROCESS_UIOMAX" for q j
    using len by (auto simp: set_fd_def nth_list_update)
  have "named_elsewhere k p i u \<longleftrightarrow> held ?k u"
  proof
    assume "named_elsewhere k p i u"
    then obtain q j where q: "(q, j) \<noteq> (p, i)" "p_alloc (k_proc k q)" "j < PROCESS_UIOMAX" "tab k q ! j = Some u"
      by (auto simp: named_elsewhere_def)
    then have "tab ?k q ! j = Some u" using s by auto
    then show "held ?k u" using holders_nth [OF tables_set_fd [OF t], of p i None q j] q(2,3) by (simp add: alloc_set_fd)
  next
    assume "held ?k u"
    then show "named_elsewhere k p i u"
    proof (rule held_slot [OF tables_set_fd [OF t]])
      fix q j assume "p_alloc (k_proc ?k q)" "j < PROCESS_UIOMAX" "tab ?k q ! j = Some u"
      then show ?thesis using s unfolding named_elsewhere_def alloc_set_fd by (metis option.distinct(1) prod.inject)
    qed
  qed
  then show ?thesis using h by simp
qed

section \<open>Properties\<close>


lemma end_named:
  assumes "files_ok X Y k" and "(s, q) \<notin> Y"
  shows "end_open s (k_pipe k q) \<longleftrightarrow>
     (\<exists>p i u. p_alloc (k_proc k p) \<and> i < PROCESS_UIOMAX \<and> tab k p ! i = Some u \<and> k_obj k u = End s q)"
proof -
  have t: "tables_ok k" and e: "end_ok k s q" using assms by (auto simp: files_ok_def ends_ok_def)
  have "(\<exists>u. held k u \<and> k_obj k u = End s q) \<longleftrightarrow>
     (\<exists>p i u. p_alloc (k_proc k p) \<and> i < PROCESS_UIOMAX \<and> tab k p ! i = Some u \<and> k_obj k u = End s q)"
    using held_slot [OF t] holders_nth [OF t] by metis
  with e show ?thesis by (simp add: end_ok_def)
qed


end
