(* ===== verification/KernelDemo.thy ===== *)
theory KernelDemo
  imports Descriptors
begin

text \<open>
  A concrete kernel: one process whose user page holds a path and two descriptor numbers, and one
  mounted file system.  The properties of \<open>Descriptors\<close> are applied to it.
\<close>

definition demo_page :: bytes where
  "demo_page = [99, 47, 97, 0] @ replicate 12 0 @ [1, 0, 0, 0] @ replicate 4076 0"

definition demo_mem :: vm where
  "demo_mem = set_page 23 demo_page demo_vm"

lemma length_demo_page: "length demo_page = 4096"
  by (simp add: demo_page_def)

text \<open>A memory with the tables of \<open>demo_vm\<close>, whatever the user page 23 holds and pages are free.\<close>

definition demo_like :: "vm \<Rightarrow> bool" where
  "demo_like v \<longleftrightarrow> vm_wf v \<and> active_space_ptab v = 20 \<and> (\<forall>p i. p \<noteq> 23 \<longrightarrow> pt_entry v p i = pt_entry demo_vm p i)"

lemma mem_demo_like: "demo_like demo_mem"
  using vm_demo_wf length_demo_page vm_demo_satp
  by (simp add: demo_like_def demo_mem_def entry_set_page active_space_ptab_def)

lemma mem_demo_root: "active_space_ptab demo_mem = 20"
  using mem_demo_like by (simp add: demo_like_def)

lemma like_walk:
  assumes "demo_like v" and "a div 4096 = 0xC0000010 div 4096"
  shows "walk v 20 a = Some (22, 0)"
proof -
  have "VPN a = VPN 0xC0000010" using assms(2) by (simp add: VPN_def)
  then have i: "pt_index 0 (VPN a) = 0" "pt_index 1 (VPN a) = 0" "pt_index 2 (VPN a) = 3"
    by (simp_all add: pt_index_def VPN_def)
  show ?thesis using assms(1) vm_demo_ptes unfolding walk_def i sub_table_def by (simp add: demo_like_def vm_demo_entry)
qed

text \<open>Byte \<open>i\<close> of the user page.\<close>

lemma mem_demo_addr: "i < 4096 \<Longrightarrow> (0xC0000000 + of_nat i :: u64) div 4096 = 0xC0000010 div 4096"
  by (simp add: word_unat_eq_iff unat_div unat_word_ariths(1) unat_of_nat)

lemma mem_demo_byte:
  assumes "i < 4096"
  shows "user_byte demo_mem 20 (0xC0000000 + of_nat i) = demo_page ! i"
proof -
  have "unat (0xC0000000 + of_nat i :: u64) mod 4096 = i"
    using assms mod_mult_self3 [of 786432 4096 i] by (simp add: unat_word_ariths(1) unat_of_nat)
  then show ?thesis
    using vm_demo_ptes like_walk [OF mem_demo_like mem_demo_addr [OF assms]] mem_demo_like
    by (simp add: user_byte_def demo_like_def vm_demo_entry) (simp add: demo_mem_def)
qed

lemma mem_demo_get: "o1 + n \<le> 4096 \<Longrightarrow> user_get demo_mem (0xC0000000 + of_nat o1) n = take n (drop o1 demo_page)"
  by (rule nth_equalityI) (simp_all add: user_get_def mem_demo_root length_demo_page add.assoc mem_demo_byte flip: of_nat_add)

lemma like_flags: "page_ok v 20 f 0xC0000000" if v: "demo_like v" and "f AND (PTE_R OR PTE_W OR PTE_U) = f"
proof -
  have w: "walk v 20 0xC0000000 = Some (22, 0)" by (rule like_walk [OF v]) simp
  have "pte_flags (leaf_pte 23 (PTE_R OR PTE_W OR PTE_U)) AND f = f"
  proof -
    have "pte_flags (leaf_pte 23 (PTE_R OR PTE_W OR PTE_U)) = 0xD7" by (simp add: leaf_pte_def mk_pte_def)
    moreover have "f AND 0x16 = f" using that by simp
    moreover have "0xD7 AND (f AND 0x16) = f AND (0xD7 AND 0x16)" by (simp only: and.left_commute)
    ultimately show ?thesis by simp
  qed
  then show ?thesis using w v by (simp add: page_ok_def demo_like_def vm_demo_entry leaf_pte_flags wellformed_def)
qed

lemma like_vptr:
  assumes v: "demo_like v" and "f AND (PTE_R OR PTE_W OR PTE_U) = f" and "o1 < 4096" and "0 < n" and "o1 + n \<le> 4096"
  shows "validate_vptr (0xC0000000 + of_nat o1) (of_nat n) f v = 0"
proof -
  let ?a = "0xC0000000 + of_nat o1 :: u64"
  have u: "unat ?a = 0xC0000000 + o1" "unat (?a + of_nat n) = 0xC0000000 + o1 + n" using assms by (simp_all add: unat_word_ariths(1) unat_of_nat)
  have b: "?a div of_nat PAGE_SIZE * of_nat PAGE_SIZE = 0xC0000000"
    using mem_demo_addr [OF assms(3)] by simp
  have l: "(0xC0000000 :: u64) < ?a + of_nat n" "\<not> (0xC0000000 :: u64) + 4096 < ?a + of_nat n" "\<not> ?a + of_nat n < ?a"
    using assms by (simp_all add: word_less_nat_alt u)
  have "validate_pages v 20 0xC0000000 (?a + of_nat n) f = 0"
    unfolding validate_pages_step [OF l(1)] using like_flags [OF assms(1,2)] l(2) by (simp add: validate_pages.simps)
  then show ?thesis using v b l(3) by (simp add: validate_vptr_def demo_like_def)
qed

lemma like_put:
  assumes "demo_like v" and "i + length bs \<le> 4096"
  shows "demo_like (user_put (0xC0000000 + of_nat i) bs v)"
  using assms
proof (induction bs arbitrary: i v)
  case (Cons b bs)
  let ?a = "0xC0000000 + of_nat i :: u64"
  have w: "walk v 20 ?a = Some (22, 0)" using Cons.prems by (intro like_walk mem_demo_addr) auto
  have "user_set ?a b v = set_page 23 ((vm_pages v 23)[unat ?a mod 4096 := b]) v"
    using Cons.prems(1) w vm_demo_ptes by (simp add: user_set_def demo_like_def vm_demo_entry Let_def)
  moreover have "length (vm_pages v 23) = 4096" using Cons.prems(1) by (simp add: demo_like_def vm_wf_def)
  ultimately have "demo_like (user_set ?a b v)"
    using Cons.prems(1) by (simp add: demo_like_def entry_set_page active_space_ptab_def)
  then have "demo_like (user_put (0xC0000000 + of_nat (Suc i)) bs (user_set ?a b v))" using Cons.prems(2) by (intro Cons.IH) simp_all
  then show ?case by (simp add: add.assoc add.commute [of 1])
qed simp

lemma mem_demo_vstr: "validate_vstr 0xC0000000 (PTE_R OR PTE_U) demo_mem = 0"
proof -
  have wf: "vm_wf demo_mem" using mem_demo_like by (simp add: demo_like_def)
  show ?thesis unfolding validate_vstr_def validate_chars_iff [OF wf] mem_demo_root
proof (intro exI [of _ 3] conjI allI impI)
  fix i :: nat assume "i \<le> 3"
  then have "(0xC0000000 + of_nat i :: u64) div 4096 = 0xC0000000 div 4096" using mem_demo_addr [of i] mem_demo_addr [of 0] by simp
  then have "page_ok demo_mem 20 (PTE_R OR PTE_U) (0xC0000000 + of_nat i) = page_ok demo_mem 20 (PTE_R OR PTE_U) 0xC0000000"
    by (rule page_ok_page)
  then show "page_ok demo_mem 20 (PTE_R OR PTE_U) (0xC0000000 + of_nat i)"
    using like_flags [OF mem_demo_like, of "PTE_R OR PTE_U"] by simp
next
  show "user_byte demo_mem 20 (0xC0000000 + of_nat 3) = 0" by (subst mem_demo_byte) (simp_all add: demo_page_def)
qed
qed

section \<open>One process and its files\<close>

text \<open>The file system opens object 7, whose close counts in the state of the devices.\<close>

definition demo_fs :: "(nat, nat) filesystem" where
  "demo_fs = \<lparr>fs_open = Some (\<lambda>fl w. (Inr 7, w)), fs_create = None, fs_delete = None, fs_flush = None\<rparr>"

definition demo_file :: "nat intf" where
  "demo_file = \<lparr>intf_close = Some (\<lambda>d. d\<lparr>dev_state := dev_state d + 1\<rparr>), intf_read = None, intf_write = None, intf_cntl = None\<rparr>"

definition demo_kernel :: "nat kernel" where
  "demo_kernel = procmgr_init 1 0
     \<lparr>k_vm = demo_mem, k_mounts = [([99], demo_fs)], k_obj = (\<lambda>_. Lst []), k_ref = (\<lambda>_. 0),
      k_devs = \<lparr>dev_state = 0, dev_arg = 0\<rparr>, k_pipe = (\<lambda>_. (create_pipe [])\<lparr>read_open := False, write_open := False\<rparr>),
      k_page = (\<lambda>_. 0), k_proc = (\<lambda>_. \<lparr>p_alloc = False, p_tid = 0, p_mtag = 0, uiotab = []\<rparr>), k_cur = 0\<rparr>"

lemma kernel_demo_reach: "kreach {} {} demo_kernel"
  unfolding demo_kernel_def by (rule kreach.start) (simp_all add: end_open_def split: pipe_side.split)

lemma kernel_demo_simps:
  "k_vm demo_kernel = demo_mem" "k_cur demo_kernel = 1" "k_mounts demo_kernel = [([99], demo_fs)]"
  "k_devs demo_kernel = \<lparr>dev_state = 0, dev_arg = 0\<rparr>" "tab demo_kernel p = (if p = 1 then replicate 16 None else [])"
  "p_alloc (k_proc demo_kernel p) = (p = 1)"
  by (simp_all add: demo_kernel_def procmgr_init_def)

lemma kernel_demo_held: "holders demo_kernel u = 0"
  unfolding holders_def kernel_demo_simps by (simp add: count_list_0_iff)

lemma kernel_demo_path: "copy_path demo_mem 0xC0000000 = Some ([99, 47, 97] @ replicate 125 0)"
proof -
  have "user_get demo_mem 0xC0000000 128 = take 128 demo_page" using mem_demo_get [of 0 128] by simp
  also have "\<dots> = [99, 47, 97] @ 0 # (replicate 12 0 @ [1, 0, 0, 0] @ replicate 108 0)"
    by (simp add: demo_page_def take_Cons')
  finally have g: "user_get demo_mem 0xC0000000 128 = [99, 47, 97] @ 0 # (replicate 12 0 @ [1, 0, 0, 0] @ replicate 108 0)" .
  have "strncpy (replicate 128 0) ([99, 47, 97] @ 0 # r) 128 = Some ([99, 47, 97] @ replicate 125 0)" for r
    using strncpy_nul_terminated [of "[99, 47, 97] @ 0 # r" 128 "replicate 128 0"] cstr_append_nul [of "[99, 47, 97]" r]
    by (simp add: nul_terminated_def)
  then show ?thesis unfolding copy_path_def g by (simp add: list_update_same_conv)
qed

text \<open>The path \<open>c/a\<close> opens object 7 as descriptor 0.\<close>

definition demo_opened :: "nat kernel" where
  "demo_opened = set_fd 1 0 (Some 7) (new_obj 7 (Obj demo_file) demo_kernel)"

lemma kernel_demo_open: "sysopen (- 1) 0xC0000000 9 demo_file demo_kernel = Some (0, demo_opened)"
proof -
  have t: "tab demo_kernel 1 = None # replicate 15 None" by (simp add: kernel_demo_simps eval_nat_numeral)
  have f: "pick_fd (- 1) (tab demo_kernel 1) (- 1) = 0" unfolding t pick_fd_def free_fd_def by (simp add: upt_rec)
  have o: "k_open (Some [99]) (Some [97]) 9 demo_file demo_kernel = Some (Inr 7, new_obj 7 (Obj demo_file) demo_kernel)"
    by (simp add: k_open_def open_file_def kernel_demo_simps strcmp_def fsopen_def demo_fs_def new_obj_def)
  have c: "k_cur (new_obj 7 (Obj demo_file) demo_kernel) = 1" by (simp add: new_obj_def kernel_demo_simps)
  have p: "parse_path (Some ([99, 47, 97] @ replicate 125 0)) = Some (Inr ([99, 0, 97] @ replicate 125 0, Some 2))"
    by (simp add: parse_path_def)
  have n: "path_names ([99, 0, 97] @ replicate 125 0, Some 2) = ([99], Some [97])"
    using cstr_append_zeros [of "[97]" 125] cstr_append_nul [of "[99]" "97 # replicate 125 0"] by (simp add: path_names_def)
  have pc: "path_call 0xC0000000 g demo_kernel = g ([99], Some [97]) demo_kernel" for g
    unfolding path_call_def kernel_demo_simps kernel_demo_path option.case p sum.case n ..
  show ?thesis
    unfolding sysopen_def Let_def kernel_demo_simps(1,2) mem_demo_vstr f pc prod.case o by (simp add: t [unfolded One_nat_def] c demo_opened_def)
qed

lemma kernel_opened_reach: "kreach {} {} demo_opened"
proof -
  have "opens_new 9 demo_file demo_kernel" by (simp add: opens_new_def kernel_demo_held)
  then have "kstep demo_kernel demo_opened" by (rule open_step [OF kernel_demo_open])
  from kreach.step [OF kernel_demo_reach this] show ?thesis by simp
qed


section \<open>A pipe\<close>

definition demo_piped :: "nat kernel" where
  "demo_piped = snd (the (syspipe (0xC0000010) (0xC0000020) 5 6 4 demo_kernel))"

lemma kernel_demo_pipe:
  "syspipe 0xC0000010 0xC0000020 5 6 4 demo_kernel = Some (0, demo_piped)"
  "fd_of 0 demo_piped = Some 6" "k_obj demo_piped 6 = End Rd 4" "bytecnt (k_pipe demo_piped 4) = 0"
  "fd_of 1 demo_piped = Some 5" "k_obj demo_piped 5 = End Wr 4" "demo_like (k_vm demo_piped)"
  "p_alloc (k_proc demo_piped 1)" "tab demo_piped 1 ! 1 = Some 5"
proof -
  have "user_get demo_mem (0xC0000000 + of_nat 16) 4 = [1, 0, 0, 0]" "user_get demo_mem (0xC0000000 + of_nat 32) 4 = [0, 0, 0, 0]"
    by (subst mem_demo_get; simp add: demo_page_def eval_nat_numeral)+
  then have g: "get_int demo_mem (0xC0000000 + of_nat 16) = 1" "get_int demo_mem (0xC0000000 + of_nat 32) = 0"
    unfolding get_int_def Let_def by simp_all
  have v: "validate_vptr (0xC0000000 + of_nat 16) (of_nat 4) (PTE_W OR PTE_U) demo_mem = 0"
    "validate_vptr (0xC0000000 + of_nat 32) (of_nat 4) (PTE_W OR PTE_U) demo_mem = 0"
    by (rule like_vptr [OF mem_demo_like]; simp)+
  have f: "alloc_phys_page (vm_free demo_mem) \<noteq> None"
    using alloc_phys_pages_none [of 1 "vm_free demo_mem"] by (simp add: alloc_phys_page_def demo_mem_def demo_vm_def)
  then obtain k1 where k1: "k_create_pipe 5 6 4 demo_kernel = Some k1" by (auto simp: k_create_pipe_def kernel_demo_simps split: option.splits)
  have k: "demo_piped = k_put 0xC0000020 (enc_int 0) (k_put 0xC0000010 (enc_int 1) (set_fd 1 0 (Some 6) (set_fd 1 1 (Some 5) k1)))"
    and s: "syspipe 0xC0000010 0xC0000020 5 6 4 demo_kernel = Some (0, demo_piped)"
    using g v k1 by (simp_all add: syspipe_def Let_def kernel_demo_simps pick_fd_def demo_piped_def)
  show "syspipe 0xC0000010 0xC0000020 5 6 4 demo_kernel = Some (0, demo_piped)" by (rule s)
  obtain pp cs where k1': "k1 = new_obj 5 (End Wr 4) (new_obj 6 (End Rd 4) (demo_kernel\<lparr>k_vm := demo_mem\<lparr>vm_free := cs\<rparr>, k_page := (k_page demo_kernel)(4 := pp),
      k_pipe := (k_pipe demo_kernel)(4 := create_pipe (vm_pages (k_vm demo_kernel) pp))\<rparr>))"
    using k1 by (auto simp: k_create_pipe_def kernel_demo_simps split: option.splits)
  have t: "tab demo_piped 1 = Some 6 # Some 5 # replicate 14 None"
    by (simp add: k k1' k_put_def set_fd_def new_obj_def kernel_demo_simps eval_nat_numeral)
  have c: "k_cur demo_piped = 1" by (simp add: k k1' k_put_def set_fd_def new_obj_def kernel_demo_simps)
  show "fd_of 0 demo_piped = Some 6" "fd_of 1 demo_piped = Some 5" by (simp_all add: fd_of_def c t [unfolded One_nat_def])
  show "k_obj demo_piped 6 = End Rd 4" "k_obj demo_piped 5 = End Wr 4" "bytecnt (k_pipe demo_piped 4) = 0"
    by (simp_all add: k k1' k_put_def set_fd_def new_obj_def create_pipe_def)
  show "p_alloc (k_proc demo_piped 1)" by (simp add: k k1' k_put_def set_fd_def new_obj_def kernel_demo_simps)
  show "tab demo_piped 1 ! 1 = Some 5" by (simp add: t [unfolded One_nat_def])
  have "demo_like (demo_mem\<lparr>vm_free := cs\<rparr>)"
    using mem_demo_like by (simp add: demo_like_def vm_wf_def pt_entry_def active_space_ptab_def)
  then have "demo_like (user_put (0xC0000000 + of_nat 16) (enc_int 1) (demo_mem\<lparr>vm_free := cs\<rparr>))" by (rule like_put) (simp add: enc_int_def)
  then have "demo_like (user_put (0xC0000000 + of_nat 32) (enc_int 0) (user_put (0xC0000000 + of_nat 16) (enc_int 1) (demo_mem\<lparr>vm_free := cs\<rparr>)))"
    by (rule like_put) (simp add: enc_int_def)
  then show "demo_like (k_vm demo_piped)" by (simp add: k k1' k_put_def set_fd_def new_obj_def)
qed

lemma kernel_piped_reach: "kreach {} {} demo_piped"
proof -
  have "pipe_new 5 6 4 demo_kernel" by (simp add: pipe_new_def kernel_demo_held)
  then have "kstep demo_kernel demo_piped" by (rule pipe_step [OF kernel_demo_pipe(1)])
  from kreach.step [OF kernel_demo_reach this] show ?thesis by simp
qed


end
