(* ===== verification/Console.thy ===== *)
theory Console
  imports Printf
begin

text \<open>
  The console of \<open>provided/sys/console.c\<close>: end-of-line conversion in both directions, formatted
  printing, and the line editor.  The characters that the console device has taken are
  \<open>con_out\<close>, the static \<open>cprev\<close> of \<open>kputc\<close> is \<open>con_prev\<close>; the characters that the device
  delivers are a list, and a call that finds it empty spins, which is \<open>None\<close>.
\<close>

section \<open>Output\<close>

record console =
  con_out :: bytes
  con_prev :: u8

definition kputc :: "console \<Rightarrow> u8 \<Rightarrow> console" where
  "kputc st c =
     st\<lparr>con_out := con_out st @
          (if c = 13 then [c, 10] else (if c = 10 \<and> con_prev st \<noteq> 13 then [13] else []) @ [c]),
        con_prev := c\<rparr>"

definition kputs :: "console \<Rightarrow> bytes \<Rightarrow> console option" where
  "kputs st str = map_option (\<lambda>n. kputc (foldl kputc st (take n str)) 10) (strlen (Some str))"

definition kprintf :: "console \<Rightarrow> bytes \<Rightarrow> varg list \<Rightarrow> console option" where
  "kprintf st fmt ap = map_option snd (vgprintf kputc st fmt ap)"

section \<open>Input\<close>

text \<open>The loop of \<open>kgetc\<close> with its \<open>cprev\<close>; the character is not converted yet.\<close>

fun kgetc_loop :: "u8 \<Rightarrow> bytes \<Rightarrow> (u8 \<times> bytes) option" where
  "kgetc_loop cprev [] = None"
| "kgetc_loop cprev (c # inp) = (if c = 10 \<and> cprev = 13 then kgetc_loop cprev inp else Some (c, inp))"

text \<open>The character returned, \<open>cprev\<close> afterwards, and the input left.\<close>

definition kgetc :: "u8 \<Rightarrow> bytes \<Rightarrow> (u8 \<times> u8 \<times> bytes) option" where
  "kgetc cprev inp = map_option (\<lambda>(c, r). (if c = 13 then 10 else c, c, r)) (kgetc_loop cprev inp)"

lemma kgetc_loop_length: "kgetc_loop cp inp = Some (c, r) \<Longrightarrow> length r < length inp"
  by (induction cp inp rule: kgetc_loop.induct) (auto split: if_splits)

lemma kgetc_length: "kgetc cp inp = Some (c, cp', r) \<Longrightarrow> length r < length inp"
  by (auto simp: kgetc_def dest: kgetc_loop_length)

section \<open>The line editor\<close>

text \<open>The loop that \<open>kgetsn\<close> and the \<open>getsn\<close> of user programs share: \<open>p\<close> is the place of the
  next character in \<open>buf\<close>, \<open>n\<close> the room left, and \<open>putc\<close> echoes.  A store outside the buffer
  is \<open>None\<close>.\<close>

function getsn_loop :: "('s \<Rightarrow> u8 \<Rightarrow> 's) \<Rightarrow> u8 \<Rightarrow> bytes \<Rightarrow> bytes \<Rightarrow> nat \<Rightarrow> nat \<Rightarrow> 's \<Rightarrow> (bytes \<times> u8 \<times> bytes \<times> 's) option" where
  "getsn_loop putc cprev inp buf p n st =
     (case kgetc cprev inp of
        None \<Rightarrow> None
      | Some (c, cprev1, inp1) \<Rightarrow>
          if c = 13 then getsn_loop putc cprev1 inp1 buf p n st
          else if c = 10 then
            (if p < length buf then Some (buf[p := 0], cprev1, inp1, putc st 10) else None)
          else if c = 8 \<or> c = 127 then
            (if p \<noteq> 0 then getsn_loop putc cprev1 inp1 buf (p - 1) (n + 1) (putc (putc (putc st 8) 32) 8)
             else getsn_loop putc cprev1 inp1 buf p n st)
          else if n > 1 then
            (if p < length buf then getsn_loop putc cprev1 inp1 (buf[p := c]) (p + 1) (n - 1) (putc st c) else None)
          else getsn_loop putc cprev1 inp1 buf p n (putc st 7))"
  by pat_completeness auto
termination
  by (relation "measure (\<lambda>(_, _, inp, _). length inp)") (auto dest: kgetc_length)

declare getsn_loop.simps [simp del]

definition kgetsn :: "u8 \<Rightarrow> bytes \<Rightarrow> bytes \<Rightarrow> nat \<Rightarrow> console \<Rightarrow> (bytes \<times> u8 \<times> bytes \<times> console) option" where
  "kgetsn cprev inp buf n st = getsn_loop kputc cprev inp buf 0 n st"

section \<open>What the editor stores\<close>

text \<open>Specification: the characters up to the end of the line, each of which is appended if
  there is room, or takes the last one back.\<close>

definition edit :: "nat \<Rightarrow> bytes \<Rightarrow> u8 \<Rightarrow> bytes" where
  "edit room line c =
     (if c = 8 \<or> c = 127 then butlast line else if length line < room then line @ [c] else line)"

text \<open>The typed characters of one line: those before the first CR or NL, after the NLs that
  follow a CR.\<close>

fun split_line :: "u8 \<Rightarrow> bytes \<Rightarrow> (bytes \<times> u8 \<times> bytes) option" where
  "split_line cprev [] = None"
| "split_line cprev (c # inp) =
     (if c = 10 \<and> cprev = 13 then split_line cprev inp
      else if c = 10 \<or> c = 13 then Some ([], c, inp)
      else map_option (\<lambda>(l, e, r). (c # l, e, r)) (split_line c inp))"

lemma getsn_loop_edits:
  assumes "p < length buf" and "n = length buf - p" and "take p buf = line"
  shows "(case split_line cprev inp of
            None \<Rightarrow> getsn_loop putc cprev inp buf p n st = None
          | Some (l, e, r) \<Rightarrow>
              let res = foldl (edit (length buf - 1)) line l
              in \<exists>buf' st'. getsn_loop putc cprev inp buf p n st = Some (buf', e, r, st') \<and>
                   length buf' = length buf \<and> length res < length buf \<and> take (length res + 1) buf' = res @ [0])"
  using assms
proof (induction cprev inp arbitrary: buf p n st line rule: split_line.induct)
  case (1 cprev)
  show ?case by (subst getsn_loop.simps) (simp add: kgetc_def)
next
  case (2 cprev c inp)
  have len: "length line = p" using 2(3,5) by auto
  consider "c = 10 \<and> cprev = 13" | "\<not> (c = 10 \<and> cprev = 13)" "c = 10 \<or> c = 13"
    | "c \<noteq> 10" "c \<noteq> 13" "c = 8 \<or> c = 127" | "c \<noteq> 10" "c \<noteq> 13" "\<not> (c = 8 \<or> c = 127)"
    by blast
  then show ?case
  proof cases
    case 1
    then have "kgetc cprev (c # inp) = kgetc cprev inp" by (simp add: kgetc_def)
    then have "getsn_loop putc cprev (c # inp) buf p n st = getsn_loop putc cprev inp buf p n st"
      by (subst (1 2) getsn_loop.simps) simp
    then show ?thesis using 2(1) [OF 1 2(3-5)] 1 by (simp split del: if_split cong: option.case_cong)
  next
    case nl: 2
    then have k: "kgetc cprev (c # inp) = Some (10, c, inp)" by (auto simp: kgetc_def)
    have "getsn_loop putc cprev (c # inp) buf p n st = Some (buf[p := 0], c, inp, putc st 10)"
      using 2(3) by (subst getsn_loop.simps) (simp add: k)
    moreover have "take (p + 1) (buf[p := 0]) = line @ [0]"
      using 2(3,5) by (simp add: take_Suc_conv_app_nth)
    moreover have "split_line cprev (c # inp) = Some ([], c, inp)" using nl by auto
    ultimately show ?thesis using 2(3) len by simp
  next
    case 3
    then have k: "kgetc cprev (c # inp) = Some (c, c, inp)" by (auto simp: kgetc_def)
    have e: "edit (length buf - 1) line c = butlast line" using 3 by (simp add: edit_def)
    define st' where "st' = (if p \<noteq> 0 then putc (putc (putc st 8) 32) 8 else st)"
    have g: "getsn_loop putc cprev (c # inp) buf p n st = getsn_loop putc c inp buf (p - 1) (if p \<noteq> 0 then n + 1 else n) st'"
      using 3 by (subst getsn_loop.simps) (auto simp add: k st'_def)
    have "take (p - 1) buf = butlast line"
      using 2(3) unfolding 2(5) [symmetric] by (simp add: butlast_take)
    then have "case split_line c inp of
            None \<Rightarrow> getsn_loop putc c inp buf (p - 1) (if p \<noteq> 0 then n + 1 else n) st' = None
          | Some (l, e, r) \<Rightarrow>
              let res = foldl (edit (length buf - 1)) (butlast line) l
              in \<exists>buf' st''. getsn_loop putc c inp buf (p - 1) (if p \<noteq> 0 then n + 1 else n) st' = Some (buf', e, r, st'') \<and>
                   length buf' = length buf \<and> length res < length buf \<and> take (length res + 1) buf' = res @ [0]"
      using 3 2(3,4) by (intro 2(2)) auto
    then show ?thesis unfolding g using 3 e by (auto split: option.splits simp: Let_def)
  next
    case 4
    then have k: "kgetc cprev (c # inp) = Some (c, c, inp)" by (auto simp: kgetc_def)
    show ?thesis
    proof (cases "n > 1")
      case True
      have e: "edit (length buf - 1) line c = line @ [c]" using 4 True 2(3,4) len by (simp add: edit_def)
      have g: "getsn_loop putc cprev (c # inp) buf p n st = getsn_loop putc c inp (buf[p := c]) (p + 1) (n - 1) (putc st c)"
        using 4 True 2(3) by (subst getsn_loop.simps) (simp add: k)
      have "take (p + 1) (buf[p := c]) = line @ [c]" using 2(3,5) by (simp add: take_Suc_conv_app_nth)
      then have "case split_line c inp of
            None \<Rightarrow> getsn_loop putc c inp (buf[p := c]) (p + 1) (n - 1) (putc st c) = None
          | Some (l, e, r) \<Rightarrow>
              let res = foldl (edit (length (buf[p := c]) - 1)) (line @ [c]) l
              in \<exists>buf' st''. getsn_loop putc c inp (buf[p := c]) (p + 1) (n - 1) (putc st c) = Some (buf', e, r, st'') \<and>
                   length buf' = length (buf[p := c]) \<and> length res < length (buf[p := c]) \<and> take (length res + 1) buf' = res @ [0]"
        using 4 2(3,4) True by (intro 2(2)) auto
      then show ?thesis unfolding g using 4 e by (auto split: option.splits simp: Let_def)
    next
      case False
      have e: "edit (length buf - 1) line c = line" using 4 False 2(3,4) len by (simp add: edit_def)
      have g: "getsn_loop putc cprev (c # inp) buf p n st = getsn_loop putc c inp buf p n (putc st 7)"
        using 4 False by (subst getsn_loop.simps) (simp add: k)
      have "case split_line c inp of
            None \<Rightarrow> getsn_loop putc c inp buf p n (putc st 7) = None
          | Some (l, e, r) \<Rightarrow>
              let res = foldl (edit (length buf - 1)) line l
              in \<exists>buf' st''. getsn_loop putc c inp buf p n (putc st 7) = Some (buf', e, r, st'') \<and>
                   length buf' = length buf \<and> length res < length buf \<and> take (length res + 1) buf' = res @ [0]"
        using 4 2(3-5) by (intro 2(2)) auto
      then show ?thesis unfolding g using 4 e by (auto split: option.splits simp: Let_def)
    qed
  qed
qed

text \<open>The line editor.  Into a buffer of n > 0 bytes, \<open>kgetsn\<close> stores exactly the edited line and
  its terminator -- the characters up to the end of the line, each appended while there is room
  for it and the NUL, or taking the last one back -- writes nothing outside the buffer, leaves
  the input behind the line for the next call, and waits exactly while no line is complete.\<close>

theorem kgetsn_edits:
  assumes "buf \<noteq> []"
  shows "case split_line cprev inp of
     None \<Rightarrow> kgetsn cprev inp buf (length buf) st = None
   | Some (l, e, r) \<Rightarrow>
       let line = foldl (edit (length buf - 1)) [] l
       in \<exists>buf' st'. kgetsn cprev inp buf (length buf) st = Some (buf', e, r, st') \<and>
            length buf' = length buf \<and> length line < length buf \<and> take (length line + 1) buf' = line @ [0]"
  unfolding kgetsn_def by (rule getsn_loop_edits) (use assms in auto)

lemma kgetsn_edits_witness:
  "\<exists>buf' st'. kgetsn 13 [10, 97, 98, 8, 99, 100, 13, 101] [1, 2, 3] 3 \<lparr>con_out = [], con_prev = 0\<rparr> = Some (buf', 13, [101], st') \<and>
     length buf' = 3 \<and> take (length [97, 99 :: u8] + 1) buf' = [97, 99, 0]"
proof -
  have "split_line 13 [10, 97, 98, 8, 99, 100, 13, 101] = Some ([97, 98, 8, 99, 100], 13, [101])" by simp
  moreover have "foldl (edit 2) [] [97, 98, 8, 99, 100] = [97, 99]" by (simp add: edit_def)
  moreover have "length [1, 2, 3 :: u8] = 3" by simp
  ultimately show ?thesis
    using kgetsn_edits [of "[1, 2, 3]" 13 "[10, 97, 98, 8, 99, 100, 13, 101]" "\<lparr>con_out = [], con_prev = 0\<rparr>"]
    by (simp only: option.case prod.case Let_def) simp
qed

end
