(* ===== verification/Syscalls.thy ===== *)
theory Syscalls
  imports KernelDemo ThreadReach Timer KHeap Console
begin

text \<open>
  System calls and exceptions: the rest of \<open>modified/sys/syscall.c\<close>, its dispatcher, and
  \<open>modified/sys/excp.c\<close>, over the kernel as a whole: descriptors and memory, threads, the timer,
  the kernel heap and the console.  These parts share the free pages, the active memory space and
  the running process, which \<open>on_threads\<close> and \<open>on_heap\<close> carry over.  The addresses of the
  structures that a call may allocate and the clock readings are arguments.  A call that sleeps in
  a pipe waits in the pipe's own lists.
\<close>

section \<open>State\<close>

record 'w system =
  sy_k :: "'w kernel"
  sy_thr :: sched
  sy_timer :: timer
  sy_heap :: kheap
  sy_con :: console
  sy_main_mtag :: u64

record 'w fresh =
  fr_obj :: nat
  fr_intf :: "'w intf"
  fr_wio :: nat
  fr_rio :: nat
  fr_pipe :: nat
  fr_child :: nat
  fr_thread :: nat
  fr_sync :: nat
  fr_alarm :: nat
  fr_now0 :: u64
  fr_now :: u64
  fr_now1 :: u64

text \<open>What becomes of the caller: it gets a result, goes on as it was, waits in a pipe, has given the
  processor to another thread, enters its new program, or was the main thread and is over.\<close>

datatype call_result = Returns int | Resumes | Waits_in_pipe | Switched | Enters user_start | Halts

definition on_threads :: "(sched \<Rightarrow> ('r \<times> sched) option) \<Rightarrow> 'w system \<Rightarrow> ('r \<times> 'w system) option" where
  "on_threads f sy =
     (let k = sy_k sy; v = k_vm k in
      case f ((sy_thr sy)\<lparr>sc_free := vm_free v, sc_satp := vm_satp v, mtag_of := (\<lambda>p. p_mtag (k_proc k p))\<rparr>) of
        None \<Rightarrow> None
      | Some (r, s) \<Rightarrow>
          Some (r, sy\<lparr>sy_thr := s,
            sy_k := k\<lparr>k_vm := v\<lparr>vm_free := sc_free s, vm_satp := sc_satp s\<rparr>,
                      k_cur := (case t_proc (thr s (TP s)) of None \<Rightarrow> k_cur k | Some p \<Rightarrow> p)\<rparr>\<rparr>))"

definition on_heap :: "(kheap \<Rightarrow> ('r \<times> kheap) option) \<Rightarrow> 'w system \<Rightarrow> ('r \<times> 'w system) option" where
  "on_heap f sy =
     (let k = sy_k sy in
      case f ((sy_heap sy)\<lparr>hp_free := vm_free (k_vm k)\<rparr>) of
        None \<Rightarrow> None
      | Some (r, h) \<Rightarrow> Some (r, sy\<lparr>sy_heap := h, sy_k := k\<lparr>k_vm := (k_vm k)\<lparr>vm_free := hp_free h\<rparr>\<rparr>\<rparr>))"

type_synonym 'w call = "'w system \<Rightarrow> (call_result \<times> 'w system) option"

text \<open>Calls on descriptors.\<close>

definition on_files :: "('w kernel \<Rightarrow> (int \<times> 'w kernel) option) \<Rightarrow> 'w call" where
  "on_files f sy = map_option (\<lambda>(rc, k). (Returns rc, sy\<lparr>sy_k := k\<rparr>)) (f (sy_k sy))"

definition on_transfer :: "('w kernel \<Rightarrow> int option \<times> 'w kernel) \<Rightarrow> 'w call" where
  "on_transfer f sy =
     (case f (sy_k sy) of (r, k) \<Rightarrow> Some (case r of None \<Rightarrow> Waits_in_pipe | Some n \<Rightarrow> Returns n, sy\<lparr>sy_k := k\<rparr>))"

section \<open>Strings of user programs\<close>

text \<open>The characters up to the NUL, read by the kernel; \<open>None\<close> is a fault in S mode.\<close>

function user_cstr :: "vm \<Rightarrow> nat \<Rightarrow> u64 \<Rightarrow> bytes option" where
  "user_cstr vm root a =
     (if \<not> page_ok vm root PTE_R a then None
      else let b = user_byte vm root a
           in if b = 0 then Some [] else map_option ((#) b) (user_cstr vm root (a + 1)))"
  by pat_completeness auto
termination
proof (relation "measure (\<lambda>(vm, root, a). nat (2 ^ 39 - sint a))", goal_cases)
  case (2 vm root a b)
  then have w: "wellformed a" by (simp add: page_ok_def)
  then have "sint (a + 1) = sint a + 1" using sint_page_up [of a 1] by simp
  then show ?case using sint_wellformed(2) [OF w] by simp
qed simp

declare user_cstr.simps [simp del]

section \<open>Processes\<close>

definition sysexit :: "'w call" where
  "sysexit sy =
     (case process_exit (sy_main_mtag sy) (sy_k sy) of
        None \<Rightarrow> None
      | Some k \<Rightarrow>
          on_threads (\<lambda>s. case running_thread_exit s of
              None \<Rightarrow> None | Some Halted \<Rightarrow> Some (Halts, s) | Some (Goes s1) \<Rightarrow> Some (Switched, s1))
            (sy\<lparr>sy_k := k\<rparr>))"

text \<open>The copies of the arguments in the kernel heap, with their addresses; \<open>Inl\<close> is the error.\<close>

fun copy_args :: "u64 \<Rightarrow> nat list \<Rightarrow> (nat \<times> bytes) list \<Rightarrow> 'w system \<Rightarrow> (((int + unit) \<times> (nat \<times> bytes) list) \<times> 'w system) option" where
  "copy_args argv [] kargv sy = Some ((Inr (), kargv), sy)"
| "copy_args argv (i # is) kargv sy =
     (let vm = k_vm (sy_k sy); a = get_u64 (user_get vm (argv + 8 * of_nat i) 8) 0
      in if a = 0 then Some ((Inl (- EINVAL), kargv), sy)
         else let rc = validate_vstr a (PTE_R OR PTE_U) vm
           in if rc < 0 then Some ((Inl rc, kargv), sy)
              else case user_cstr vm (active_space_ptab vm) a of
                None \<Rightarrow> None
              | Some s \<Rightarrow>
                  (case on_heap (kmalloc (of_nat (length s + 1)) 0) sy of
                     None \<Rightarrow> None
                   | Some (None, sy1) \<Rightarrow> Some ((Inl (- ENOMEM), kargv), sy1)
                   | Some (Some ptr, sy1) \<Rightarrow> copy_args argv is (kargv @ [(ptr, s @ [0])]) sy1))"

fun free_args :: "nat list \<Rightarrow> 'w system \<Rightarrow> 'w system option" where
  "free_args [] sy = Some sy"
| "free_args (ptr # ps) sy =
     (case on_heap (\<lambda>h. map_option (Pair ()) (kfree ptr 0 h)) sy of None \<Rightarrow> None | Some (_, sy1) \<Rightarrow> free_args ps sy1)"

text \<open>\<open>process_exec\<close> returns only when it fails, so that the copies are freed on failure only and
  the descriptor is never cleared.\<close>

definition exec_with :: "nat \<Rightarrow> (nat \<times> bytes) list \<Rightarrow> 'w fresh \<Rightarrow> 'w call" where
  "exec_with u kargv fr sy =
     (case process_exec u (map snd kargv) (fr_obj fr) (fr_intf fr) (sy_k sy) of
        None \<Rightarrow> None
      | Some (Sleeps, k) \<Rightarrow> Some (Waits_in_pipe, sy\<lparr>sy_k := k\<rparr>)
      | Some (Done us, k) \<Rightarrow> Some (Enters us, sy\<lparr>sy_k := k\<rparr>)
      | Some (Fails rc, k) \<Rightarrow> map_option (Pair (Returns rc)) (free_args (map fst kargv) (sy\<lparr>sy_k := k\<rparr>)))"

definition sysexec :: "int \<Rightarrow> int \<Rightarrow> u64 \<Rightarrow> 'w fresh \<Rightarrow> 'w call" where
  "sysexec fd argc argv fr sy =
     (case fd_of fd (sy_k sy) of
        None \<Rightarrow> Some (Returns (- EBADFD), sy)
      | Some u \<Rightarrow>
          if argc < 0 \<or> 8 < argc then Some (Returns (- EINVAL), sy)
          else if argc = 0 then exec_with u [] fr sy
          else let vm = k_vm (sy_k sy); rc = validate_vptr argv (of_int (argc + 1) * 8) (PTE_R OR PTE_U) vm
            in if rc < 0 then Some (Returns rc, sy)
               else if get_u64 (user_get vm (argv + 8 * of_int argc) 8) 0 \<noteq> 0 then Some (Returns (- EINVAL), sy)
               else (case copy_args argv [0..<nat argc] [] sy of
                  None \<Rightarrow> None
                | Some ((Inl rc, kargv), sy1) \<Rightarrow> map_option (Pair (Returns rc)) (free_args (map fst kargv) sy1)
                | Some ((Inr _, kargv), sy1) \<Rightarrow> exec_with u kargv fr sy1))"

text \<open>The thread of the child starts in \<open>fork_func\<close>; its parent waits for that on the condition
  \<open>fr_sync\<close>, and the call returns \<open>tid\<close> when it goes on.\<close>

definition sysfork :: "'w fresh \<Rightarrow> 'w call" where
  "sysfork fr sy =
     (case fork_copy (sy_k sy) of
        None \<Rightarrow> None
      | Some (mtag, k1) \<Rightarrow>
          (case on_threads (spawn_thread (fr_thread fr) [] 0 [of_nat (fr_sync fr)]) (sy\<lparr>sy_k := k1\<rparr>) of
             None \<Rightarrow> None
           | Some (tid, sy1) \<Rightarrow>
               let sy2 = sy1\<lparr>sy_k := fork_finish (fr_child fr) tid mtag (sy_k sy1)\<rparr>
               in if tid < 0 then Some (Returns tid, sy2)
                  else on_threads (\<lambda>s. case thread_set_process tid (Some (fr_child fr)) s of
                           None \<Rightarrow> None
                         | Some s1 \<Rightarrow> map_option (Pair Switched) (condition_wait (Cond (fr_sync fr)) s1)) sy2))"

text \<open>What the child does first, on its copy of the registers.\<close>

definition fork_func :: "nat \<Rightarrow> 'w call" where
  "fork_func sync = on_threads (\<lambda>s. map_option (Pair (Returns 0)) (condition_broadcast (Cond sync) s))"

definition syswait :: "int \<Rightarrow> 'w call" where
  "syswait tid sy =
     (if 0 \<le> tid
      then on_threads (\<lambda>s. map_option (\<lambda>(r, s1). (case r of None \<Rightarrow> Switched | Some n \<Rightarrow> Returns n, s1)) (thread_join tid s)) sy
      else Some (Returns (- EINVAL), sy))"

definition sysprint :: "u64 \<Rightarrow> 'w call" where
  "sysprint msg sy =
     (let vm = k_vm (sy_k sy); rc = validate_vstr msg (PTE_R OR PTE_U) vm
      in if rc < 0 then Some (Returns rc, sy)
         else case user_cstr vm (active_space_ptab vm) msg of
           None \<Rightarrow> None
         | Some s \<Rightarrow> map_option (\<lambda>c. (Returns 0, sy\<lparr>sy_con := c\<rparr>)) (kprintf (sy_con sy) [37, 115, 0] [VStr (Some (s @ [0]))]))"

definition sysusleep :: "u64 \<Rightarrow> 'w fresh \<Rightarrow> 'w call" where
  "sysusleep us fr sy =
     (case sleep_us (fr_alarm fr) us (fr_now0 fr) (fr_now fr) (fr_now1 fr) (sy_timer sy) of
        None \<Rightarrow> None
      | Some (True, t) \<Rightarrow> Some (Returns 0, sy\<lparr>sy_timer := t\<rparr>)
      | Some (False, t) \<Rightarrow>
          on_threads (\<lambda>s. map_option (Pair Switched) (condition_wait (Cond (fr_alarm fr)) s)) (sy\<lparr>sy_timer := t\<rparr>))"

section \<open>The dispatcher\<close>

text \<open>The registers that a system call uses.\<close>

record trap_frame =
  tf_a0 :: u64
  tf_a1 :: u64
  tf_a2 :: u64
  tf_a7 :: u64
  tf_sepc :: u64

definition as_int :: "u64 \<Rightarrow> int" where
  "as_int w = sint (ucast w :: u32)"

definition syscall :: "trap_frame \<Rightarrow> 'w fresh \<Rightarrow> 'w call" where
  "syscall tfr fr sy =
     (let n = tf_a7 tfr; a0 = tf_a0 tfr; a1 = tf_a1 tfr; a2 = tf_a2 tfr in
      if n = 0 then sysexit sy
      else if n = 1 then sysexec (as_int a0) (as_int a1) a2 fr sy
      else if n = 2 then sysfork fr sy
      else if n = 3 then syswait (as_int a0) sy
      else if n = 4 then sysprint a0 sy
      else if n = 5 then sysusleep a0 fr sy
      else if n = 10 then on_files (sysfscreate a0) sy
      else if n = 11 then on_files (sysfsdelete a0) sy
      else if n = 15 then on_files (sysopen (as_int a0) a1 (fr_obj fr) (fr_intf fr)) sy
      else if n = 16 then on_files (\<lambda>k. Some (sysclose (as_int a0) k)) sy
      else if n = 17 then on_transfer (sysread (as_int a0) a1 a2) sy
      else if n = 18 then on_transfer (syswrite (as_int a0) a1 a2) sy
      else if n = 19 then on_files (\<lambda>k. Some (sysfcntl (as_int a0) (as_int a1) a2 k)) sy
      else if n = 20 then on_files (syspipe a0 a1 (fr_wio fr) (fr_rio fr) (fr_pipe fr)) sy
      else if n = 21 then on_files (\<lambda>k. Some (sysuiodup (as_int a0) (as_int a1) k)) sy
      else Some (Returns (- EINVAL), sy))"

definition handle_syscall :: "trap_frame \<Rightarrow> 'w fresh \<Rightarrow> 'w system \<Rightarrow> ((call_result \<times> trap_frame) \<times> 'w system) option" where
  "handle_syscall tfr fr sy =
     (let tfr1 = tfr\<lparr>tf_sepc := tf_sepc tfr + 4\<rparr> in
      case syscall tfr1 fr sy of
        None \<Rightarrow> None
      | Some (Returns rc, sy1) \<Rightarrow> Some ((Resumes, tfr1\<lparr>tf_a0 := of_int rc\<rparr>), sy1)
      | Some (r, sy1) \<Rightarrow> Some ((r, tfr1), sy1))"

section \<open>Exceptions\<close>

definition ascii :: "string \<Rightarrow> bytes" where
  "ascii s = map of_char s"

definition excp_names :: "nat \<Rightarrow> bytes option" where
  "excp_names cause = map_option ascii (map_of
     [(0, ''Misaligned instruction address''), (1, ''Instruction access fault''), (2, ''Illegal instruction''),
      (3, ''Breakpoint''), (4, ''Misaligned load address''), (5, ''Load access fault''),
      (6, ''Misaligned store address''), (7, ''Store access fault''), (8, ''Environment call from U mode''),
      (9, ''Environment call from S mode''), (12, ''Instruction page fault''), (13, ''Load page fault''),
      (15, ''Store page fault'')] cause)"

text \<open>The message for the console, in a buffer of 80 bytes.\<close>

definition excp_message :: "nat \<Rightarrow> u64 \<Rightarrow> u64 \<Rightarrow> (nat \<times> bytes) option" where
  "excp_message cause sepc stval =
     (let print = (\<lambda>fmt ap. vsnprintf (replicate 80 0) 80 (ascii fmt @ [0]) ap) in
      case excp_names cause of
        None \<Rightarrow> print ''Exception %d at %p in U mode'' [VInt (of_nat cause), VInt sepc]
      | Some name \<Rightarrow>
          if cause \<in> {13, 15, 12, 4, 6, 0, 5, 7, 1}
          then print ''%s at %p for %p in U mode'' [VStr (Some (name @ [0])), VInt sepc, VInt stval]
          else print ''%s at %p in U mode'' [VStr (Some (name @ [0])), VInt sepc])"

definition handle_umode_exception :: "nat \<Rightarrow> u64 \<Rightarrow> trap_frame \<Rightarrow> 'w fresh \<Rightarrow> 'w system \<Rightarrow> ((call_result \<times> trap_frame) \<times> 'w system) option" where
  "handle_umode_exception cause vma tfr fr sy =
     (let fatal = (\<lambda>sy.
        case excp_message cause (tf_sepc tfr) vma of
          None \<Rightarrow> None
        | Some (_, msgbuf) \<Rightarrow>
            (case kprintf (sy_con sy) [37, 115, 0] [VStr (Some msgbuf)] of
               None \<Rightarrow> None
             | Some c \<Rightarrow> map_option (\<lambda>(r, sy1). ((r, tfr), sy1)) (sysexit (sy\<lparr>sy_con := c\<rparr>))))
      in if cause = 8 then handle_syscall tfr fr sy
         else if cause \<in> {13, 15, 12}
         then (case handle_umode_page_fault vma (k_vm (sy_k sy)) of
                 None \<Rightarrow> None
               | Some (rc, v) \<Rightarrow>
                   let sy1 = sy\<lparr>sy_k := (sy_k sy)\<lparr>k_vm := v\<rparr>\<rparr>
                   in if rc = 1 then Some ((Resumes, tfr), sy1) else fatal sy1)
         else fatal sy)"

section \<open>No argument panics the kernel\<close>

lemma strncpy_total: "n \<le> length dst \<Longrightarrow> n \<le> length src \<Longrightarrow> \<exists>r. strncpy dst src n = Some r \<and> length r = length dst"
proof (induction dst src n rule: strncpy.induct)
  case (3 dst c src n)
  then show ?case by (cases "c = 0") (auto simp: memset_eq split: list.splits)
qed auto

lemma path_copied: "\<exists>p. copy_path vm path = Some p \<and> length p = 128 \<and> p ! 127 = 0"
proof -
  obtain r where "strncpy (replicate 128 0) (user_get vm path 128) 128 = Some r" "length r = 128"
    using strncpy_total [of 128 "replicate 128 0" "user_get vm path 128"] by (auto simp: user_get_def)
  then show ?thesis by (simp add: copy_path_def)
qed

lemma scan_slash_total: "0 \<in> set p \<Longrightarrow> scan_slash p i \<noteq> None"
  by (induction p i rule: scan_slash.induct) auto

lemma path_call_total:
  assumes "\<And>x k1. f x k1 \<noteq> None"
  shows "path_call path f k \<noteq> None"
proof -
  obtain p where p: "copy_path (k_vm k) path = Some p" "length p = 128" "p ! 127 = 0" using path_copied by blast
  then have "0 \<in> set p" using nth_mem [of 127 p] by simp
  then have "scan_slash p 0 \<noteq> None" by (rule scan_slash_total)
  then have "parse_path (Some p) \<noteq> None" using p(2) by (auto simp: parse_path_def split: option.split)
  then show ?thesis using assms p(1) by (auto simp: path_call_def split: option.split sum.split)
qed

lemma k_open_total: "k_open (Some mp) fl new f k \<noteq> None"
  by (auto simp: k_open_def open_file_def Let_def split: option.splits prod.splits)

lemma sysopen_total: "sysopen fd path new f k \<noteq> None"
proof -
  have "path_call path (\<lambda>(mp, fl) k. case k_open (Some mp) fl new f k of None \<Rightarrow> None
      | Some (Inl e, k1) \<Rightarrow> Some (e, k1) | Some (Inr u, k1) \<Rightarrow> Some (d, set_fd (k_cur k1) (nat d) (Some u) k1)) k \<noteq> None" for d
    by (rule path_call_total) (auto simp: k_open_total split: option.splits prod.splits sum.splits)
  then show ?thesis unfolding sysopen_def Let_def by (simp del: not_None_eq)
qed

lemma syspipe_total: "alloc_phys_page (vm_free (k_vm k)) \<noteq> None \<Longrightarrow> syspipe a b w r q k \<noteq> None"
  by (auto simp: syspipe_def Let_def k_create_pipe_def split: option.splits prod.splits)

lemma validate_chars_le: "validate_chars vm root a f \<le> 0"
proof (induction vm root a f rule: validate_chars.induct)
  case (1 vm root a f)
  then show ?case by (subst validate_chars.simps) (auto simp: Let_def split: option.splits prod.splits)
qed

lemma user_cstr_ends:
  assumes "\<forall>i\<le>n. page_ok vm root PTE_R (a + of_nat i)" and "user_byte vm root (a + of_nat n) = 0"
  shows "\<exists>s. user_cstr vm root a = Some s \<and> 0 \<notin> set s"
  using assms
proof (induction n arbitrary: a)
  case 0
  then show ?case by (subst user_cstr.simps) simp
next
  case (Suc n)
  have p: "page_ok vm root PTE_R a" using Suc.prems(1) [rule_format, of 0] by simp
  have "\<forall>i\<le>n. page_ok vm root PTE_R (a + 1 + of_nat i)" using Suc.prems(1) by (force simp: add.assoc dest: spec [of _ "Suc _"])
  moreover have "user_byte vm root (a + 1 + of_nat n) = 0" using Suc.prems(2) by (simp add: add.assoc)
  ultimately obtain s where "user_cstr vm root (a + 1) = Some s" "0 \<notin> set s" using Suc.IH by blast
  then show ?case using p by (subst user_cstr.simps) (simp add: Let_def)
qed

lemma validated_string:
  assumes "vm_wf vm" and "0 \<le> validate_vstr a (PTE_R OR PTE_U) vm"
  shows "\<exists>s. user_cstr vm (active_space_ptab vm) a = Some s \<and> 0 \<notin> set s"
proof -
  let ?root = "active_space_ptab vm"
  have "validate_chars vm ?root a (PTE_R OR PTE_U) = 0"
    using assms(2) validate_chars_le [of vm ?root a] by (simp add: validate_vstr_def dual_order.antisym)
  then obtain n where n: "\<forall>i\<le>n. page_ok vm ?root (PTE_R OR PTE_U) (a + of_nat i)" "user_byte vm ?root (a + of_nat n) = 0"
    unfolding validate_chars_iff [OF assms(1)] by blast
  have w: "page_ok vm ?root PTE_R b" if "page_ok vm ?root (PTE_R OR PTE_U) b" for b
  proof -
    have "f AND PTE_R = PTE_R" if "f AND (PTE_R OR PTE_U) = (PTE_R OR PTE_U)" for f :: u8
    proof -
      have "(f AND (PTE_R OR PTE_U)) AND PTE_R = (PTE_R OR PTE_U) AND PTE_R" by (simp only: that)
      then show ?thesis by (simp add: and.assoc)
    qed
    then show ?thesis using that unfolding page_ok_def by (auto simp only: split: option.splits prod.splits)
  qed
  show ?thesis by (rule user_cstr_ends [of n]) (use n w in auto)
qed

lemma kprintf_string: "0 \<notin> set s \<Longrightarrow> kprintf st [37, 115, 0] [VStr (Some (s @ [0]))] = Some (foldl kputc st s)"
  by (simp add: kprintf_def vgprintf_refines_text fmt_text.simps parse_spec_def parse_prefix_def convert_text_def str_text_def
      nul_terminated_def Let_def)

lemma sysprint_total:
  assumes "vm_wf (k_vm (sy_k sy))"
  shows "\<exists>rc c. sysprint msg sy = Some (Returns rc, sy\<lparr>sy_con := c\<rparr>)"
proof (cases "validate_vstr msg (PTE_R OR PTE_U) (k_vm (sy_k sy)) < 0")
  case True
  then show ?thesis by (intro exI [of _ "sy_con sy"] exI) (simp add: sysprint_def Let_def)
next
  case False
  then obtain s where "user_cstr (k_vm (sy_k sy)) (active_space_ptab (k_vm (sy_k sy))) msg = Some s" "0 \<notin> set s"
    using validated_string [OF assms, of msg] by auto
  then show ?thesis using False by (auto simp: sysprint_def Let_def kprintf_string)
qed

lemma on_files_total: "f (sy_k sy) \<noteq> None \<Longrightarrow> \<exists>rc k. on_files f sy = Some (Returns rc, sy\<lparr>sy_k := k\<rparr>)"
  by (auto simp: on_files_def)

lemma on_transfer_total: "\<exists>r k. on_transfer f sy = Some (r, sy\<lparr>sy_k := k\<rparr>) \<and> (r = Waits_in_pipe \<or> (\<exists>rc. r = Returns rc))"
  by (auto simp: on_transfer_def split: prod.split option.split)


definition demo_system :: "nat system" where
  "demo_system = \<lparr>sy_k = demo_kernel, sy_thr = thrmgr_init [] 0, sy_timer = timer_init,
     sy_heap = \<lparr>heap_low = 16, heap_end = 4096, hp_mem = (\<lambda>_. 0), hp_free = []\<rparr>,
     sy_con = \<lparr>con_out = [], con_prev = 0\<rparr>, sy_main_mtag = 0\<rparr>"

definition demo_fresh :: "nat fresh" where
  "demo_fresh = \<lparr>fr_obj = 9, fr_intf = demo_file, fr_wio = 10, fr_rio = 11, fr_pipe = 12, fr_child = 13, fr_thread = 14,
     fr_sync = 15, fr_alarm = 16, fr_now0 = 0, fr_now = 0, fr_now1 = 0\<rparr>"


end
