(* ===== verification/Stack.thy ===== *)
theory Stack
  imports KernelDemo
begin

text \<open>
  What a program finds on its initial stack: the arguments of \<open>process_exec\<close>, from the bytes that
  \<open>build_stack\<close> stores to the view of the program through its page tables.
\<close>

section \<open>The bytes of the page\<close>

lemma get_u64_cong:
  assumes "\<And>x. x < 8 \<Longrightarrow> bs ! (p + x) = bs' ! (q + x)"
  shows "get_u64 bs p = get_u64 bs' q"
  using assms [of 0] assms [of 1] assms [of 2] assms [of 3] assms [of 4] assms [of 5] assms [of 6] assms [of 7]
  by (simp add: get_u64_def)

lemma get_u64_overwrite: "p + 8 \<le> length bs \<Longrightarrow> get_u64 (overwrite bs p (enc_u64 w)) p = w"
  using get_u64_cong [of "overwrite bs p (enc_u64 w)" p "enc_u64 w" 0] by (simp add: nth_overwrite get_u64_enc)

text \<open>The size of an argument with its terminator, and its place behind the arguments before it.\<close>

definition slen :: "bytes \<Rightarrow> nat" where
  "slen a = length (cstr a) + 1"

definition total :: "bytes list \<Rightarrow> nat" where
  "total as = sum_list (map slen as)"

lemma total_simps [simp]: "total [] = 0" "total (a # as) = slen a + total as"
  by (simp_all add: total_def)

lemma strlen_cstr: "nul_terminated a \<Longrightarrow> strlen (Some a) = Some (length (cstr a))"
  by (simp add: strlen_def strlen_loop_eq)

lemma take_slen: "nul_terminated a \<Longrightarrow> take (slen a) a = cstr a @ [0]"
  by (subst nul_terminated_split [of a]) (auto simp: slen_def)

lemma length_slen: "nul_terminated a \<Longrightarrow> slen a \<le> length a"
  using length_cstr_less [of a] by (simp add: slen_def)

definition arg_addr :: "nat \<Rightarrow> u64" where
  "arg_addr p = UMEM_END_VMA - of_nat PAGE_SIZE + of_nat p"

lemma put_args_spec:
  assumes "length st = PAGE_SIZE" and "\<forall>a\<in>set as. nul_terminated a"
    and "n + 8 * (i + length as + 1) \<le> p" and "p + total as \<le> PAGE_SIZE"
  shows "\<exists>st'. put_args n i p as st = Some st' \<and> length st' = PAGE_SIZE \<and>
     (\<forall>x<PAGE_SIZE. x < n + 8 * i \<or> (n + 8 * (i + length as + 1) \<le> x \<and> x < p) \<longrightarrow> st' ! x = st ! x) \<and>
     (\<forall>j<length as. let o1 = p + total (take j as)
        in get_u64 st' (n + 8 * (i + j)) = arg_addr o1 \<and> take (slen (as ! j)) (drop o1 st') = cstr (as ! j) @ [0]) \<and>
     get_u64 st' (n + 8 * (i + length as)) = 0"
  using assms
proof (induction "as" arbitrary: i p st)
  case Nil
  then show ?case by (auto simp: nth_overwrite get_u64_overwrite)
next
  case (Cons a as)
  define w where "w = arg_addr p"
  define st0 where "st0 = overwrite st (n + 8 * i) (enc_u64 w)"
  define st1 where "st1 = overwrite st0 p (cstr a @ [0])"
  have a: "nul_terminated a" using Cons.prems(2) by simp
  have la: "length (cstr a @ [0]) = slen a" by (simp add: slen_def)
  have len: "length st0 = PAGE_SIZE" "length st1 = PAGE_SIZE" using Cons.prems by (simp_all add: st0_def st1_def slen_def)
  have "put_args n i p (a # as) st = put_args n (i + 1) (p + slen a) as st1"
    using take_slen [OF a] by (simp add: strlen_cstr [OF a] st1_def st0_def w_def arg_addr_def slen_def)
  moreover obtain st' where st': "put_args n (i + 1) (p + slen a) as st1 = Some st'" "length st' = PAGE_SIZE"
     "\<forall>x<PAGE_SIZE. x < n + 8 * (i + 1) \<or> (n + 8 * (i + 1 + length as + 1) \<le> x \<and> x < p + slen a) \<longrightarrow> st' ! x = st1 ! x"
     "\<forall>j<length as. let o1 = p + slen a + total (take j as)
        in get_u64 st' (n + 8 * (i + 1 + j)) = arg_addr o1 \<and> take (slen (as ! j)) (drop o1 st') = cstr (as ! j) @ [0]"
     "get_u64 st' (n + 8 * (i + 1 + length as)) = 0"
    using Cons.IH [of st1 "i + 1" "p + slen a"] Cons.prems len by auto
  have s1: "st1 ! x = (if p \<le> x \<and> x < p + slen a then (cstr a @ [0]) ! (x - p)
      else if n + 8 * i \<le> x \<and> x < n + 8 * i + 8 then enc_u64 w ! (x - (n + 8 * i)) else st ! x)" if "x < PAGE_SIZE" for x
    using that len Cons.prems by (simp add: st1_def st0_def nth_overwrite slen_def)
  have "get_u64 st' (n + 8 * i) = get_u64 (enc_u64 w) 0"
    using st'(3) s1 Cons.prems by (intro get_u64_cong) simp
  then have ptr: "get_u64 st' (n + 8 * i) = arg_addr p" by (simp add: get_u64_enc w_def)
  have str: "take (slen a) (drop p st') = cstr a @ [0]"
  proof (rule nth_equalityI)
    show "length (take (slen a) (drop p st')) = length (cstr a @ [0])" using st'(2) Cons.prems by (simp add: slen_def)
    fix x assume x: "x < length (take (slen a) (drop p st'))"
    then have "st' ! (p + x) = st1 ! (p + x)" using st'(2,3) Cons.prems by simp
    then show "take (slen a) (drop p st') ! x = (cstr a @ [0]) ! x" using x s1 [of "p + x"] st'(2) Cons.prems by simp
  qed
  have "\<forall>x<PAGE_SIZE. x < n + 8 * i \<or> (n + 8 * (i + length (a # as) + 1) \<le> x \<and> x < p) \<longrightarrow> st' ! x = st ! x"
    using st'(3) s1 Cons.prems by auto
  moreover have "let o1 = p + total (take j (a # as))
        in get_u64 st' (n + 8 * (i + j)) = arg_addr o1 \<and> take (slen ((a # as) ! j)) (drop o1 st') = cstr ((a # as) ! j) @ [0]"
    if "j < length (a # as)" for j
    using that ptr str st'(4) by (cases j) (simp_all add: add.assoc)
  ultimately show ?case using st' by (intro exI [of _ st']) simp
qed

lemma args_size_spec:
  "\<forall>a\<in>set as. nul_terminated a \<Longrightarrow> s \<le> PAGE_SIZE \<Longrightarrow>
     args_size as s = Some (if s + total as \<le> PAGE_SIZE then Inr (s + total as) else Inl (- ENOMEM))"
proof (induction "as" arbitrary: s)
  case (Cons a as)
  then show ?case by (cases "s + slen a \<le> PAGE_SIZE") (auto simp: strlen_cstr slen_def)
qed simp

text \<open>The arguments and the vector of pointers to them fit on the page.\<close>

definition fits :: "bytes list \<Rightarrow> bool" where
  "fits argv \<longleftrightarrow> 8 * (length argv + 1) + total argv \<le> PAGE_SIZE"

lemma build_stack_spec:
  assumes "length st = PAGE_SIZE" and "\<forall>a\<in>set argv. nul_terminated a"
  shows "if fits argv
     then \<exists>sz st'. build_stack st argv = Some (int sz, st') \<and> sz \<le> PAGE_SIZE \<and> 16 dvd sz \<and> length st' = PAGE_SIZE \<and>
       (\<forall>j<length argv. \<exists>o1. o1 + slen (argv ! j) \<le> PAGE_SIZE \<and>
          get_u64 st' (PAGE_SIZE - sz + 8 * j) = arg_addr o1 \<and> take (slen (argv ! j)) (drop o1 st') = cstr (argv ! j) @ [0]) \<and>
       get_u64 st' (PAGE_SIZE - sz + 8 * length argv) = 0 \<and> 8 * (length argv + 1) \<le> sz
     else build_stack st argv = Some (- ENOMEM, st)"
proof -
  let ?need = "8 * (length argv + 1) + total argv"
  define need where "need = ?need"
  show ?thesis
  proof (cases "PAGE_SIZE div 8 - 1 < length argv")
    case True
    then have "\<not> fits argv" by (simp add: fits_def)
    then show ?thesis using True by (simp add: build_stack_def Let_def)
  next
    case False
    then have s: "args_size argv ((length argv + 1) * 8) = Some (if fits argv then Inr need else Inl (- ENOMEM))"
      using args_size_spec [OF assms(2), of "(length argv + 1) * 8"] by (simp add: fits_def need_def algebra_simps)
    show ?thesis
    proof (cases "fits argv")
      case True
      define sz where "sz = ROUND_UP need 16"
      have sz: "?need \<le> sz" "sz \<le> PAGE_SIZE" "16 dvd sz"
      proof -
        have "?need \<le> (?need + 15) div 16 * 16" "(?need + 15) div 16 * 16 \<le> 256 * 16"
          using True by (simp_all add: fits_def div_le_mono [of _ "4096 + 15" 16, simplified])
        then show "?need \<le> sz" "sz \<le> PAGE_SIZE" "16 dvd sz" by (simp_all add: sz_def need_def ROUND_UP_def)
      qed
      let ?n = "PAGE_SIZE - sz"
      have room: "?n + 8 * (0 + length argv + 1) \<le> ?n + 8 * (length argv + 1)" "?n + 8 * (length argv + 1) + total argv \<le> PAGE_SIZE"
        using sz by simp_all
      from put_args_spec [OF assms(1,2) room] obtain st' where
        st': "put_args ?n 0 (?n + 8 * (length argv + 1)) argv st = Some st'" "length st' = PAGE_SIZE"
         "\<forall>j<length argv. let o1 = ?n + 8 * (length argv + 1) + total (take j argv)
           in get_u64 st' (?n + 8 * (0 + j)) = arg_addr o1 \<and> take (slen (argv ! j)) (drop o1 st') = cstr (argv ! j) @ [0]"
         "get_u64 st' (?n + 8 * (0 + length argv)) = 0"
        by blast
      have tot: "total (take j argv) + slen (argv ! j) \<le> total argv" if "j < length argv" for j
      proof -
        have "argv = take j argv @ argv ! j # drop (Suc j) argv" using that by (rule id_take_nth_drop)
        then have "total argv = total (take j argv) + (slen (argv ! j) + total (drop (Suc j) argv))"
          by (metis (no_types) total_def map_append sum_list_append total_simps(2))
        then show ?thesis by simp
      qed
      have "build_stack st argv = Some (int sz, st')"
        using False s True st'(1) sz by (simp add: build_stack_def Let_def sz_def [symmetric] mult.commute)
      moreover have "\<exists>o1. o1 + slen (argv ! j) \<le> PAGE_SIZE \<and>
          get_u64 st' (?n + 8 * j) = arg_addr o1 \<and> take (slen (argv ! j)) (drop o1 st') = cstr (argv ! j) @ [0]"
        if "j < length argv" for j
        using st'(3) that tot [OF that] sz by (intro exI [of _ "?n + 8 * (length argv + 1) + total (take j argv)"]) (simp add: Let_def)
      ultimately show ?thesis using True st' sz by auto
    next
      case nf: False
      then show ?thesis using False s by (simp add: build_stack_def Let_def)
    qed
  qed
qed

section \<open>The view of the program\<close>

text \<open>The tables that lead to a mapped page; they are apart from its frame.\<close>

lemma own_below:
  assumes "i < 512" and "live (E p i)" and "distinct (p # own_all (Suc d) E p)"
  shows "distinct (pte_page (E p i) # own_all d E (pte_page (E p i)))" "p \<notin> set (pte_page (E p i) # own_all d E (pte_page (E p i)))"
proof -
  have "own (Suc d) E p [i] = pte_page (E p i) # own_all d E (pte_page (E p i))" using assms(2) by simp
  then show "distinct (pte_page (E p i) # own_all d E (pte_page (E p i)))" "p \<notin> set (pte_page (E p i) # own_all d E (pte_page (E p i)))"
    using assms(3) own_split [OF assms(1), of "Suc d" E p] by (auto simp del: own.simps)
qed

lemma mapped_walk:
  assumes s: "space vm root" and m: "mapped vm root (VPN a) = Some e"
  obtains p1 p0 where "\<forall>vm'. pt_entry vm' root = pt_entry vm root \<longrightarrow> pt_entry vm' p1 = pt_entry vm p1 \<longrightarrow>
       walk vm' root a = Some (p0, pt_index 0 (VPN a))"
    "pt_entry vm p0 (pt_index 0 (VPN a)) = e" "pte_valid e" "pte_leaf e" "pte_page e \<noteq> root" "pte_page e \<noteq> p1" "pte_page e \<noteq> p0"
proof -
  let ?E = "pt_entry vm"
  note d = spaceD [OF s]
  define i2 where "i2 = pt_index 2 (VPN a)"
  define i1 where "i1 = pt_index 1 (VPN a)"
  define i0 where "i0 = pt_index 0 (VPN a)"
  have i: "i2 < 512" "i1 < 512" "i0 < 512" by (simp_all add: i2_def i1_def i0_def)
  define p1 where "p1 = pte_page (?E root i2)"
  define p0 where "p0 = pte_page (?E p1 i1)"
  have t2: "tree (Suc (Suc 0)) ?E root" and d2: "distinct (root # own_all (Suc (Suc 0)) ?E root)"
    using d(4,6) by (simp_all only: numeral_2_eq_2)
  have "look (Suc (Suc 0)) ?E root (VPN a) = Some e" using m by (simp only: numeral_2_eq_2)
  then have l2: "live (?E root i2)" and k1: "look (Suc 0) ?E p1 (VPN a) = Some e"
    by (auto simp: i2_def p1_def numeral_2_eq_2 split: if_splits)
  have t1: "\<not> pte_leaf (?E root i2)" "tree (Suc 0) ?E p1" using t2 l2 i(1) unfolding p1_def by auto
  note o2 = own_below [OF i(1) l2 d2, folded p1_def]
  from k1 have l1: "live (?E p1 i1)" and k0: "look 0 ?E p0 (VPN a) = Some e"
    by (auto simp: i1_def p0_def split: if_splits)
  have t0: "\<not> pte_leaf (?E p1 i1)" "tree 0 ?E p0" using t1(2) l1 i(2) unfolding p0_def by auto
  note o1 = own_below [OF i(2) l1 o2(1), folded p0_def]
  from k0 have e: "live (?E p0 i0)" "?E p0 i0 = e" by (auto simp: i0_def split: if_splits)
  have f: "pte_page e \<in> set (own_all 0 ?E p0)" by (rule look_own [OF k0])
  have f1: "pte_page e \<in> set (own_all (Suc 0) ?E p1)" by (rule look_own [OF k1])
  show thesis
  proof (rule that [of p1 p0])
    show "\<forall>vm'. pt_entry vm' root = ?E root \<longrightarrow> pt_entry vm' p1 = ?E p1 \<longrightarrow> walk vm' root a = Some (p0, pt_index 0 (VPN a))"
      using l2 l1 t1(1) t0(1)
      by (simp add: walk_def sub_table_def i2_def [symmetric] i1_def [symmetric] i1_def [unfolded One_nat_def, symmetric] p1_def [symmetric] p0_def [symmetric] live_def)
    show "pte_valid e" "pte_leaf e" using e t0(2) i(3) by (auto simp: live_def)
    show "pte_page e \<noteq> root" "pte_page e \<noteq> p1" "pte_page e \<noteq> p0" using f f1 o2 o1 by (auto simp del: own.simps)
  qed (use e in \<open>simp add: i0_def\<close>)
qed

text \<open>The view of a page whose frame has got new contents.\<close>

lemma user_get_page:
  assumes s: "space vm root" and m: "mapped vm root (VPN a) = Some e" and a: "unat a mod PAGE_SIZE = 0"
    and o: "o1 + n \<le> PAGE_SIZE" and r: "active_space_ptab vm = root" and st: "length st = PAGE_SIZE"
  shows "user_get (set_page (pte_page e) st vm) (a + of_nat o1) n = take n (drop o1 st)"
proof (rule nth_equalityI)
  show "length (user_get (set_page (pte_page e) st vm) (a + of_nat o1) n) = length (take n (drop o1 st))"
    using o st by (simp add: user_get_def)
  fix i assume "i < length (user_get (set_page (pte_page e) st vm) (a + of_nat o1) n)"
  then have i: "i < n" by (simp add: user_get_def)
  let ?vm = "set_page (pte_page e) st vm" and ?a = "a + of_nat o1 + of_nat i"
  obtain p1 p0 where w: "\<forall>vm'. pt_entry vm' root = pt_entry vm root \<longrightarrow> pt_entry vm' p1 = pt_entry vm p1 \<longrightarrow>
       walk vm' root a = Some (p0, pt_index 0 (VPN a))"
    "pt_entry vm p0 (pt_index 0 (VPN a)) = e" "pte_valid e" "pte_leaf e" "pte_page e \<noteq> root" "pte_page e \<noteq> p1" "pte_page e \<noteq> p0"
    by (rule mapped_walk [OF s m])
  have same: "pt_entry ?vm q = pt_entry vm q" if "pte_page e \<noteq> q" for q
    using that by (intro ext) (simp add: entry_set_page)
  have k: "unat a mod 4096 + (o1 + i) < 4096" using a i o by simp
  note sd = same_div [OF k]
  have "walk ?vm root ?a = walk ?vm root a" using page_of(1) [OF sd(2)] by (simp add: add.assoc)
  also have "\<dots> = Some (p0, pt_index 0 (VPN a))" using w(1) same w(5,6) by simp
  finally have "user_byte ?vm root ?a = st ! (o1 + i)"
    using sd(3) a w(2,7) same [of p0] by (simp add: user_byte_def add.assoc)
  moreover have "active_space_ptab ?vm = root" using r by (simp add: active_space_ptab_def)
  ultimately show "user_get ?vm (a + of_nat o1) n ! i = take n (drop o1 st) ! i"
    using i o st by (simp add: user_get_def)
qed

section \<open>The space after a reset\<close>

lemma pte_page_less: "pte_page e < 2 ^ 44"
  using unsigned_less [of "pte_ppn e", where ?'a = nat] by (simp add: pte_page_def)

lemma own_lt: "q \<in> set (own d E p is) \<Longrightarrow> q < 2 ^ 44"
proof (induction d arbitrary: p "is")
  case 0
  then show ?case using pte_page_less by auto
next
  case (Suc d)
  then show ?case using pte_page_less by (auto split: if_splits)
qed

lemma reset_is_space:
  assumes "space vm root" and r: "root = active_space_ptab vm"
  shows "\<exists>vm'. reset_active_mspace vm = Some vm' \<and> space vm' root \<and> space_pages vm' root = [] \<and> vm_satp vm' = vm_satp vm \<and>
     free_pages (vm_free vm') = free_pages (vm_free vm) \<union> set (space_pages vm root) \<and> (\<forall>v. mapped vm' root v = None) \<and>
     (\<forall>j<512. \<not> pte_global (pt_entry vm root j) \<longrightarrow> \<not> pte_global (pt_entry vm' root j))"
proof -
  note s = spaceD [OF assms(1)]
  obtain vm' where vm': "ptab_reset 2 root [0..<512] vm = Some vm'" "vm_satp vm' = vm_satp vm" "vm_wf vm'" "chunks_wf (vm_free vm')"
     "free_pages (vm_free vm') = free_pages (vm_free vm) \<union> set (space_pages vm root)"
     "\<forall>j<512. pt_entry vm' root j = (if live (pt_entry vm root j) then null_pte else pt_entry vm root j)"
    using reset_space [OF assms(1), of "vm_satp vm"] by auto
  have dead: "\<not> live (pt_entry vm' root j)" if "j < 512" for j using vm'(6) that by (cases "live (pt_entry vm root j)") auto
  have own: "space_pages vm' root = []"
  proof -
    have "set (space_pages vm' root) = {}" unfolding own_set using dead by auto
    then show ?thesis by simp
  qed
  have "tree 2 (pt_entry vm') root" unfolding tree_ents ents_ok_def using dead by auto
  moreover have "q < 2 ^ 44" if "q \<in> free_pages (vm_free vm')" for q using that vm'(5) s(3) own_lt by auto
  moreover have "root \<notin> free_pages (vm_free vm')" "root \<noteq> 0" using vm'(5) s(6-8) by auto
  ultimately have "space vm' root" unfolding space_def own using vm'(3,4) by auto
  moreover have "mapped vm' root v = None" for v using dead by (intro look_dead) simp
  moreover have "\<not> pte_global (pt_entry vm' root j)" if "j < 512" "\<not> pte_global (pt_entry vm root j)" for j
    using that vm'(6) by simp
  ultimately show ?thesis using vm' own r by (auto simp: reset_active_mspace_def)
qed

section \<open>The arguments of a program\<close>

abbreviation (input) stack_base :: u64 where "stack_base \<equiv> UMEM_END_VMA - of_nat PAGE_SIZE"

lemma stack_addr: "sz \<le> PAGE_SIZE \<Longrightarrow> UMEM_END_VMA - of_nat sz + of_nat d = arg_addr (PAGE_SIZE - sz + d)"
  by (simp add: arg_addr_def of_nat_diff)

lemma user_u64:
  assumes "user_get vm a 8 = take 8 (drop o1 st)" and "o1 + 8 \<le> length st"
  shows "get_u64 (user_get vm a 8) 0 = get_u64 st o1"
  unfolding assms(1) using assms(2) by (intro get_u64_cong) simp

text \<open>The stack page after a reset: it is mapped and holds what \<open>build_stack\<close> makes of it.\<close>

lemma exec_stack_runs:
  fixes k :: "'w kernel"
  assumes s: "space (k_vm k) root" and r: "root = active_space_ptab (k_vm k)" and g: "\<not> pte_global (pt_entry (k_vm k) root 3)"
    and st: "0 < stack" "stack < 2 ^ 44" "stack \<notin> free_pages (vm_free (k_vm k))" "stack \<notin> set (root # space_pages (k_vm k) root)"
  obtains "exec_stack stack argv k = None" "card (free_pages (vm_free (k_vm k)) \<union> set (space_pages (k_vm k) root)) < 2"
  | v where "space v root" "active_space_ptab v = root" "mapped v root (VPN stack_base) = Some (leaf_pte stack (PTE_R OR PTE_W OR PTE_U))"
    "stack \<notin> free_pages (vm_free v)"
    "exec_stack stack argv k = (case build_stack (vm_pages v stack) argv of
        None \<Rightarrow> None
      | Some (rc, page) \<Rightarrow> let v1 = set_page stack page v
          in Some (if rc < 0 then (Fails rc, k\<lparr>k_vm := drop_page stack v1\<rparr>) else (Done rc, k\<lparr>k_vm := v1\<rparr>)))"
proof -
  define f where "f = PTE_R OR PTE_W OR PTE_U"
  obtain v0 where v0: "reset_active_mspace (k_vm k) = Some v0" "space v0 root" "space_pages v0 root = []" "vm_satp v0 = vm_satp (k_vm k)"
      "free_pages (vm_free v0) = free_pages (vm_free (k_vm k)) \<union> set (space_pages (k_vm k) root)" "\<forall>v. mapped v0 root v = None"
      "\<not> pte_global (pt_entry v0 root 3)"
    using reset_is_space [OF s r] g by auto
  have r0: "active_space_ptab v0 = root" using v0(4) r by (simp add: active_space_ptab_def)
  have vpn: "VPN stack_base = 0xFFFFF" by (simp add: VPN_def UMEM_END_VMA_def)
  have i: "pt_index 2 (VPN stack_base) = 3" unfolding vpn by (simp add: pt_index_def)
  have "case ins 2 root (VPN stack_base) stack f v0 of
      None \<Rightarrow> card (free_pages (vm_free v0)) < 2 | Some v \<Rightarrow> inserted 2 root (VPN stack_base) stack f v0 v"
  proof (rule ins_spec)
    show "part 2 root v0" using v0(2) by (simp add: space_part)
    show "\<not> pte_global (pt_entry v0 root (pt_index 2 (VPN stack_base)))" using v0(7) i by simp
    show "stack \<notin> set (root # space_pages v0 root)" using st(4) v0(3) by simp
    show "stack \<notin> free_pages (vm_free v0)" using st(3,4) v0(5) by simp
  qed (use st v0(6) in \<open>simp_all add: f_def\<close>)
  note ins = this
  have mp: "map_page stack_base stack f v0 = ins 2 root (VPN stack_base) stack f v0"
    by (simp add: map_page_def r0 ptab_insert_ins)
  have run: "exec_stack stack argv k = (case map_page stack_base stack f v0 of None \<Rightarrow> None
      | Some v \<Rightarrow> (case build_stack (vm_pages v stack) argv of None \<Rightarrow> None
      | Some (rc, page) \<Rightarrow> let v1 = set_page stack page v
          in Some (if rc < 0 then (Fails rc, k\<lparr>k_vm := drop_page stack v1\<rparr>) else (Done rc, k\<lparr>k_vm := v1\<rparr>))))"
    using v0(1) by (simp add: exec_stack_def and_then_def on_vm_def f_def Let_def split: option.split)
  show thesis
  proof (cases "map_page stack_base stack f v0")
    case None
    then show thesis using that(1) run ins v0(5) unfolding mp by simp
  next
    case (Some v)
    then have x: "inserted 2 root (VPN stack_base) stack f v0 v" using ins unfolding mp by simp
    have "mapped v root (VPN stack_base) = Some (leaf_pte stack f)" using x by (simp add: inserted_def same_page_def del: look.simps)
    moreover have "space v root" "vm_satp v = vm_satp v0" "free_pages (vm_free v) \<subseteq> free_pages (vm_free v0)"
      using x by (simp_all add: inserted_def space_part)
    moreover have "active_space_ptab v = root" using r0 \<open>vm_satp v = vm_satp v0\<close> by (simp add: active_space_ptab_def)
    moreover have "stack \<notin> free_pages (vm_free v)" using \<open>free_pages (vm_free v) \<subseteq> _\<close> st(3,4) v0(5) by auto
    ultimately show thesis using that(2) [of v] run Some unfolding f_def by simp
  qed
qed

text \<open>C34: The initial stack of a program.  With the arguments on it, \<open>process_exec\<close> gives up only when
  fewer than two pages are free for page tables.  Otherwise, if the strings and the pointers to
  them fit on the page, the stack pointer it returns is aligned to 16 bytes, and through its own
  page tables the program reads there one pointer for each argument, in order, each to that
  argument with its NUL, and a null pointer behind them.  If they do not fit it fails with
  \<open>-ENOMEM\<close>, and then the stack page is free while it is still mapped.\<close>

theorem exec_args:
  fixes k :: "'w kernel"
  assumes "space (k_vm k) (active_space_ptab (k_vm k))" and "\<not> pte_global (pt_entry (k_vm k) (active_space_ptab (k_vm k)) 3)"
    and "0 < stack" "stack < 2 ^ 44" "stack \<notin> free_pages (vm_free (k_vm k))"
      "stack \<notin> set (active_space_ptab (k_vm k) # space_pages (k_vm k) (active_space_ptab (k_vm k)))"
    and "\<forall>a\<in>set argv. nul_terminated a"
  shows "case exec_stack stack argv k of
     None \<Rightarrow> card (free_pages (vm_free (k_vm k)) \<union> set (space_pages (k_vm k) (active_space_ptab (k_vm k)))) < 2
   | Some (Done sz, k') \<Rightarrow> fits argv \<and> 0 \<le> sz \<and> sz \<le> int PAGE_SIZE \<and> 16 dvd sz \<and>
       (let top = UMEM_END_VMA - of_int sz; word = (\<lambda>a. get_u64 (user_get (k_vm k') a 8) 0)
        in (\<forall>j<length argv. user_get (k_vm k') (word (top + of_nat (8 * j))) (slen (argv ! j)) = cstr (argv ! j) @ [0]) \<and>
           word (top + of_nat (8 * length argv)) = 0)
   | Some (Fails rc, k') \<Rightarrow> \<not> fits argv \<and> rc = - ENOMEM \<and> stack \<in> free_pages (vm_free (k_vm k')) \<and>
       page_ok (k_vm k') (active_space_ptab (k_vm k')) (PTE_W OR PTE_U) stack_base
   | Some (Sleeps, k') \<Rightarrow> False"
proof (rule exec_stack_runs [OF assms(1) refl assms(2-6), of argv], goal_cases)
  case 1
  then show ?thesis by simp
next
  case (2 v)
  define root where "root = active_space_ptab (k_vm k)"
  note v = 2 [folded root_def]
  have len: "length (vm_pages v stack) = PAGE_SIZE" using spaceD(1) [OF v(1)] by (simp add: vm_wf_def)
  have page: "pte_page (leaf_pte stack (PTE_R OR PTE_W OR PTE_U)) = stack" using assms(4) by (simp add: pte_page_leaf)
  note b = build_stack_spec [OF len assms(7)]
  show ?thesis
  proof (cases "fits argv")
    case True
    then obtain sz st' where st': "build_stack (vm_pages v stack) argv = Some (int sz, st')" "sz \<le> PAGE_SIZE" "16 dvd sz" "length st' = PAGE_SIZE"
       "\<And>j. j < length argv \<Longrightarrow> \<exists>o1. o1 + slen (argv ! j) \<le> PAGE_SIZE \<and>
          get_u64 st' (PAGE_SIZE - sz + 8 * j) = arg_addr o1 \<and> take (slen (argv ! j)) (drop o1 st') = cstr (argv ! j) @ [0]"
       "get_u64 st' (PAGE_SIZE - sz + 8 * length argv) = 0" "8 * (length argv + 1) \<le> sz"
      using b by auto
    let ?v = "set_page stack st' v"
    have get: "user_get ?v (arg_addr o1) n = take n (drop o1 st')" if "o1 + n \<le> PAGE_SIZE" for o1 n
      using user_get_page [OF v(1,3) _ that v(2) st'(4)] unfolding page arg_addr_def by (simp add: UMEM_END_VMA_def)
    have word: "get_u64 (user_get ?v (UMEM_END_VMA - of_int (int sz) + of_nat (8 * j)) 8) 0 = get_u64 st' (PAGE_SIZE - sz + 8 * j)"
      if "j \<le> length argv" for j
    proof -
      have o: "PAGE_SIZE - sz + 8 * j + 8 \<le> PAGE_SIZE" using st'(2,7) that by simp
      have a: "UMEM_END_VMA - of_int (int sz) + of_nat (8 * j) = arg_addr (PAGE_SIZE - sz + 8 * j)"
        using stack_addr [OF st'(2), of "8 * j"] by simp
      show ?thesis unfolding a by (rule user_u64 [OF get [OF o]]) (use o st'(4) in simp)
    qed
    have strs: "user_get ?v (get_u64 st' (PAGE_SIZE - sz + 8 * j)) (slen (argv ! j)) = cstr (argv ! j) @ [0]" if "j < length argv" for j
      using st'(5) [OF that] get by auto
    have "exec_stack stack argv k = Some (Done (int sz), k\<lparr>k_vm := ?v\<rparr>)" using v(5) st'(1) by simp
    moreover have "16 dvd int sz" using st'(3) by presburger
    ultimately show ?thesis using True st'(2,6) word strs by (simp add: Let_def)
  next
    case False
    let ?v = "drop_page stack (set_page stack (vm_pages v stack) v)"
    have e: "exec_stack stack argv k = Some (Fails (- ENOMEM), k\<lparr>k_vm := ?v\<rparr>)" using v(5) b False by simp
    have fr: "stack \<in> free_pages (vm_free ?v)"
      using drop_page_free [of "set_page stack (vm_pages v stack) v" stack] spaceD(2) [OF v(1)] v(4) assms(3) by simp
    obtain p1 p0 where w: "\<forall>vm'. pt_entry vm' root = pt_entry v root \<longrightarrow> pt_entry vm' p1 = pt_entry v p1 \<longrightarrow>
         walk vm' root stack_base = Some (p0, pt_index 0 (VPN stack_base))"
      "pt_entry v p0 (pt_index 0 (VPN stack_base)) = leaf_pte stack (PTE_R OR PTE_W OR PTE_U)"
      "pte_valid (leaf_pte stack (PTE_R OR PTE_W OR PTE_U))" "pte_leaf (leaf_pte stack (PTE_R OR PTE_W OR PTE_U))"
      by (rule mapped_walk [OF v(1,3)])
    have same: "pt_entry ?v q = pt_entry v q" for q by (intro ext) (simp add: pt_entry_def)
    have "walk ?v root stack_base = Some (p0, pt_index 0 (VPN stack_base))" using w(1) same by blast
    moreover have "active_space_ptab ?v = root" using v(2) by (simp add: active_space_ptab_def)
    moreover have "wellformed stack_base" by (simp add: wellformed_def UMEM_END_VMA_def)
    ultimately have "page_ok ?v (active_space_ptab ?v) (PTE_W OR PTE_U) stack_base"
      using w(2-4) same [of p0, THEN fun_cong, of "pt_index 0 (VPN stack_base)"]
      by (simp add: page_ok_def leaf_pte_def mk_pte_def)
    then show ?thesis using e fr False by simp
  qed
qed

lemma all_less_two: "(\<forall>j<Suc (Suc 0). P j) \<longleftrightarrow> P 0 \<and> P (Suc 0)"
  by (auto simp: less_Suc_eq)

lemma exec_args_witness:
  "\<exists>sz k'. exec_stack 19 [[97, 98, 0], [99, 0]] (demo_kernel\<lparr>k_vm := demo_vm\<rparr>) = Some (Done sz, k') \<and> 16 dvd sz \<and>
     (let word = (\<lambda>a. get_u64 (user_get (k_vm k') a 8) 0)
      in user_get (k_vm k') (word (UMEM_END_VMA - of_int sz)) 3 = [97, 98, 0] \<and>
         user_get (k_vm k') (word (UMEM_END_VMA - of_int sz + 8)) 2 = [99, 0] \<and> word (UMEM_END_VMA - of_int sz + 16) = 0)"
proof -
  let ?argv = "[[97, 98, 0], [99, 0]] :: bytes list" and ?k = "demo_kernel\<lparr>k_vm := demo_vm\<rparr>"
  have l: "slen [97, 98, 0] = 3" "slen [99, 0] = 2" by (simp_all add: slen_def)
  then have f: "fits ?argv" by (simp add: fits_def)
  have "space (k_vm ?k) (active_space_ptab (k_vm ?k))" using vm_demo_space by (simp add: vm_demo_satp)
  moreover have "\<not> pte_global (pt_entry (k_vm ?k) (active_space_ptab (k_vm ?k)) 3)" by (simp add: vm_demo_satp vm_demo_entry)
  moreover have "19 \<notin> free_pages (vm_free (k_vm ?k))" "19 \<notin> set (active_space_ptab (k_vm ?k) # space_pages (k_vm ?k) (active_space_ptab (k_vm ?k)))"
    by (simp_all add: vm_demo_satp vm_demo_pages vm_demo_free)
  moreover have "card (free_pages (vm_free (k_vm ?k)) \<union> set (space_pages (k_vm ?k) (active_space_ptab (k_vm ?k)))) = 11"
  proof -
    have "free_pages (vm_free (k_vm ?k)) \<union> set (space_pages (k_vm ?k) (active_space_ptab (k_vm ?k))) = {21..<32}"
      by (auto simp: vm_demo_satp vm_demo_pages vm_demo_free)
    then show ?thesis by simp
  qed
  ultimately show ?thesis
    using exec_args [of ?k 19 ?argv] f
    by (auto simp: Let_def l all_less_two split: option.splits prod.splits outcome.splits)
qed

end
