(* ===== verification/ExecFile.thy ===== *)
theory ExecFile
  imports Stack
begin

text \<open>
  The file of a program after \<open>process_exec\<close>: it has been closed, and its descriptor is still there.
\<close>

lemma close_last:
  assumes "k_obj k u = Obj f" and "intf_close f = Some cl" and "k_ref k u \<le> 1"
  shows "k_devs (k_close u k) = cl (k_devs k)" "k_ref (k_close u k) u = 0" "k_obj (k_close u k) = k_obj k" "k_proc (k_close u k) = k_proc k"
    "k_cur (k_close u k) = k_cur k"
  using assms by (auto simp: k_close_def uio_close_def Let_def split: prod.splits)

lemma exec_done_quiet:
  assumes x: "process_exec u argv new g k = Some (Done us, k')" and c: "tab k (k_cur k) ! 2 \<noteq> None"
  shows "\<exists>k3. quiet k k3 \<and> k' = k_close u k3"
proof -
  from x obtain stack cs where a: "alloc_phys_page (vm_free (k_vm k)) = Some (stack, cs)"
    by (auto simp: process_exec_def split: option.splits)
  define k0 where "k0 = k\<lparr>k_vm := (k_vm k)\<lparr>vm_free := cs\<rparr>\<rparr>"
  have o: "open_console new g k0 = Some (Done (), k0)" using c by (simp add: open_console_def k0_def)
  obtain sz k2 en k3 where r: "exec_stack stack argv k0 = Some (Done sz, k2)" "exec_load stack u k2 = Some (Done en, k3)" "k' = k_close u k3"
    using x unfolding process_exec_def a option.case prod.case k0_def [symmetric] and_then_def o
    by (auto simp: Let_def split: outcome.splits option.splits prod.splits)
  have "quiet k k0" by (simp add: k0_def)
  moreover have "quiet k0 k2" "quiet k2 k3" using r quiet_exec_stack quiet_exec_load unfolding quiet_act_def by blast+
  ultimately show ?thesis using r(3) quiet_trans by blast
qed


section \<open>A program without segments\<close>

definition exe_header :: bytes where
  "exe_header =
     [0x7F, 0x45, 0x4C, 0x46, 2, 1, 1, 0, 0, 0, 0, 0, 0, 0, 0, 0, 2, 0, 243, 0, 1, 0, 0, 0, 0, 0, 0, 192, 0, 0, 0, 0,
      0, 0, 0, 0, 0, 0, 0, 0, 0, 0, 0, 0, 0, 0, 0, 0, 0, 0, 0, 0, 64, 0, 56, 0, 0, 0, 0, 0, 0, 0, 0, 0]"

definition exe_file :: "nat intf" where
  "exe_file = demo_file\<lparr>intf_read := Some (\<lambda>n d. ((64, exe_header), d))\<rparr>"

definition exe_kernel :: "nat kernel" where
  "exe_kernel = demo_kernel\<lparr>k_vm := demo_vm, k_obj := (\<lambda>_. Obj exe_file), k_ref := (\<lambda>_. 1),
     k_proc := (k_proc demo_kernel)(1 := (k_proc demo_kernel 1)\<lparr>uiotab := [None, None, Some 8, Some 7] @ replicate 12 None\<rparr>)\<rparr>"

lemma exe_header_ok: "ehdr_ok (ehdr_of exe_header)" "e_phnum (ehdr_of exe_header) = 0"
  by (simp_all add: ehdr_ok_def ehdr_of_def exe_header_def get_u16_def get_u32_def)

lemma exe_loads: "k_obj k u = Obj exe_file \<Longrightarrow> exec_load stack u k = Some (Done (e_entry (ehdr_of exe_header)), k)"
  using exe_header_ok
  by (simp add: exec_load_def elf_load_def and_then_def read_exactly_def k_read_def uio_read_def exe_file_def outcome_of_def fail_unless_def)

lemma exe_runs: "\<exists>us k'. process_exec 7 [] 9 demo_file exe_kernel = Some (Done us, k')"
proof -
  obtain stack cs where a: "alloc_phys_page (vm_free demo_vm) = Some (stack, cs)"
    using new_page_None [of demo_vm zero_page] vm_demo_free by (auto simp: new_page_def split: option.splits)
  let ?v = "demo_vm\<lparr>vm_free := cs\<rparr>"
  have "new_page (vm_pages demo_vm stack) demo_vm = Some (stack, set_page stack (vm_pages demo_vm stack) ?v)"
    using a by (simp add: new_page_def)
  note n = new_page_spec [OF this vm_demo_free(2)]
  have e: "pt_entry ?v = pt_entry demo_vm" by (intro ext) (simp add: pt_entry_def)
  have s: "stack \<in> {24..<32}" "free_pages cs = {24..<32} - {stack}" "chunks_wf cs"
    using n(1,3,4) vm_demo_free by (simp_all add: set_page_def)
  have sp: "space ?v 20"
    using vm_demo_space s(2,3) unfolding space_def e vm_demo_pages by (auto simp: vm_wf_def)
  define k0 where "k0 = exe_kernel\<lparr>k_vm := ?v\<rparr>"
  have k0: "k_vm k0 = ?v" by (simp add: k0_def)
  have r: "20 = active_space_ptab (k_vm k0)" using vm_demo_satp by (simp add: k0 active_space_ptab_def)
  have o: "open_console 9 demo_file k0 = Some (Done (), k0)"
    by (simp add: open_console_def k0_def exe_kernel_def kernel_demo_simps)
  have pages: "space_pages (k_vm k0) 20 = [21, 22, 23]" by (simp only: k0 e vm_demo_pages)
  have free: "free_pages (vm_free (k_vm k0)) = {24..<32} - {stack}" using s(2) by (simp add: k0)
  have card: "card (free_pages (vm_free (k_vm k0)) \<union> set (space_pages (k_vm k0) 20)) = 10"
  proof -
    have "free_pages (vm_free (k_vm k0)) \<union> set (space_pages (k_vm k0) 20) = {21..<32} - {stack}"
      unfolding free pages using s(1) by auto
    then show ?thesis using s(1) by simp
  qed
  obtain v where v: "space v 20"
    "exec_stack stack [] k0 = (case build_stack (vm_pages v stack) [] of
        None \<Rightarrow> None
      | Some (rc, page) \<Rightarrow> let v1 = set_page stack page v
          in Some (if rc < 0 then (Fails rc, k0\<lparr>k_vm := drop_page stack v1\<rparr>) else (Done rc, k0\<lparr>k_vm := v1\<rparr>)))"
  proof -
    have g: "\<not> pte_global (pt_entry (k_vm k0) 20 3)" by (simp add: k0 e vm_demo_entry)
    have st: "0 < stack" "stack < 2 ^ 44" "stack \<notin> free_pages (vm_free (k_vm k0))" "stack \<notin> set (20 # space_pages (k_vm k0) 20)"
      unfolding free pages using s(1) by auto
    show thesis
    proof (rule exec_stack_runs [OF sp [folded k0] r g st, of "[]"], goal_cases)
      case 1
      then show thesis using card by simp
    next
      case (2 v)
      then show thesis by (intro that [of v])
    qed
  qed
  have len: "length (vm_pages v stack) = PAGE_SIZE" using spaceD(1) [OF v(1)] by (simp add: vm_wf_def)
  have "fits []" by (simp add: fits_def)
  then obtain sz st' where "build_stack (vm_pages v stack) [] = Some (int sz, st')" using build_stack_spec [OF len, of "[]"] by auto
  then have x: "exec_stack stack [] k0 = Some (Done (int sz), k0\<lparr>k_vm := set_page stack st' v\<rparr>)" using v(2) by simp
  have l: "exec_load stack 7 (k0\<lparr>k_vm := w\<rparr>) = Some (Done (e_entry (ehdr_of exe_header)), k0\<lparr>k_vm := w\<rparr>)" for w
    by (rule exe_loads) (simp add: k0_def exe_kernel_def)
  have a': "alloc_phys_page (vm_free (k_vm exe_kernel)) = Some (stack, cs)" using a by (simp add: exe_kernel_def)
  have k0': "exe_kernel\<lparr>k_vm := (k_vm exe_kernel)\<lparr>vm_free := cs\<rparr>\<rparr> = k0" by (simp add: k0_def) (simp add: exe_kernel_def)
  show ?thesis unfolding process_exec_def a' option.case prod.case k0' and_then_def o x l by (simp add: l Let_def)
qed


end
