(* ===== verification/Devices.thy ===== *)
theory Devices
  imports Storage Printf FileSys PageTables
begin

text \<open>
  The device manager, \<open>provided/sys/device.c\<close>: the list of devices with their names and instance
  numbers, the dispatch to serial and video devices, the byte-stream object over a serial device, and the
  file system \<open>devfs\<close> whose files are the devices; and the real-time clock, \<open>modified/sys/dev/rtc.c\<close>.
  A device structure is named by its address; \<open>'d\<close> is the state of all devices.  Names are the
  characters before the NUL.  A device of the list is of one of the three types that
  \<open>register_device\<close> admits, so that the panic for other types is not reachable.
\<close>

section \<open>Serial devices\<close>

record 'd serial_intf =
  se_blksz :: nat
  se_open :: "('d \<Rightarrow> int \<times> 'd) option"
  se_close :: "('d \<Rightarrow> 'd) option"
  se_recv :: "(nat \<Rightarrow> 'd \<Rightarrow> (int \<times> bytes) \<times> 'd) option"
  se_send :: "(bytes \<Rightarrow> 'd \<Rightarrow> int \<times> 'd) option"
  se_cntl :: "(int \<Rightarrow> 'd \<Rightarrow> int \<times> 'd) option"

definition serial_open :: "'d serial_intf option \<Rightarrow> 'd \<Rightarrow> int \<times> 'd" where
  "serial_open ser d =
     (case ser of
        None \<Rightarrow> (- EINVAL, d)
      | Some intf \<Rightarrow> (case se_open intf of Some f \<Rightarrow> f d | None \<Rightarrow> (- ENOTSUP, d)))"

definition serial_close :: "'d serial_intf option \<Rightarrow> 'd \<Rightarrow> 'd" where
  "serial_close ser d =
     (case ser of
        None \<Rightarrow> d
      | Some intf \<Rightarrow> (case se_close intf of Some f \<Rightarrow> f d | None \<Rightarrow> d))"

definition serial_recv :: "'d serial_intf option \<Rightarrow> bool \<Rightarrow> nat \<Rightarrow> 'd \<Rightarrow> (int \<times> bytes) \<times> 'd" where
  "serial_recv ser buf_is_null bufsz d =
     (case ser of
        None \<Rightarrow> ((- EINVAL, []), d)
      | Some intf \<Rightarrow>
          if buf_is_null then ((- EINVAL, []), d)
          else case se_recv intf of
            None \<Rightarrow> ((- ENOTSUP, []), d)
          | Some f \<Rightarrow>
              if bufsz = 0 \<or> se_blksz intf \<le> bufsz then f (bufsz div se_blksz intf * se_blksz intf) d
              else ((- EINVAL, []), d))"

definition serial_send :: "'d serial_intf option \<Rightarrow> bytes option \<Rightarrow> 'd \<Rightarrow> int \<times> 'd" where
  "serial_send ser buf d =
     (case (ser, buf) of
        (Some intf, Some bs) \<Rightarrow>
          (case se_send intf of
             None \<Rightarrow> (- ENOTSUP, d)
           | Some f \<Rightarrow>
               if length bs = 0 \<or> se_blksz intf \<le> length bs
               then f (take (length bs div se_blksz intf * se_blksz intf) bs) d
               else (- EINVAL, d))
      | _ \<Rightarrow> (- EINVAL, d))"

definition serial_cntl :: "'d serial_intf option \<Rightarrow> int \<Rightarrow> 'd \<Rightarrow> int \<times> 'd" where
  "serial_cntl ser opn d =
     (case ser of
        None \<Rightarrow> (- EINVAL, d)
      | Some intf \<Rightarrow> (case se_cntl intf of Some f \<Rightarrow> f opn d | None \<Rightarrow> (- ENOTSUP, d)))"

definition serial_blksz :: "'d serial_intf option \<Rightarrow> u32" where
  "serial_blksz ser = (case ser of None \<Rightarrow> word_of_int (- EINVAL) | Some intf \<Rightarrow> of_nat (se_blksz intf))"

section \<open>The byte stream over a serial device\<close>

record 'd serial_uio =
  sr_ser :: "'d serial_intf"
  sr_buffer :: bytes

definition serial_open_uio :: "'d serial_intf option \<Rightarrow> 'd \<Rightarrow> (int + 'd serial_uio) \<times> 'd" where
  "serial_open_uio ser d =
     (case serial_open ser d of
        (result, d1) \<Rightarrow>
          if result \<noteq> 0 then (Inl result, d1)
          else (case ser of None \<Rightarrow> (Inl result, d1) | Some intf \<Rightarrow> (Inr \<lparr>sr_ser = intf, sr_buffer = replicate (se_blksz intf) 0\<rparr>, d1)))"

definition serial_uio_close :: "'d serial_uio \<Rightarrow> 'd \<Rightarrow> 'd" where
  "serial_uio_close su d = serial_close (Some (sr_ser su)) d"

text \<open>The count goes to the device as an \<open>unsigned int\<close>.  The rest of the request, less than a block,
  is copied from the object's own buffer, whatever part of it the device has filled.\<close>

definition serial_uio_read :: "nat \<Rightarrow> 'd serial_uio \<times> 'd \<Rightarrow> (int \<times> bytes) \<times> 'd serial_uio \<times> 'd" where
  "serial_uio_read bufsz s =
     (case s of (su, d) \<Rightarrow>
      let blksz = se_blksz (sr_ser su); aligned_bufsz = bufsz div blksz * blksz in
      case serial_recv (Some (sr_ser su)) False (aligned_bufsz mod 2 ^ 32) d of
        ((result, bs), d1) \<Rightarrow>
          if result < 0 then ((result, bs), su, d1)
          else if bufsz mod blksz \<noteq> 0 \<and> int aligned_bufsz = result
          then (case serial_recv (Some (sr_ser su)) False blksz d1 of
                  ((result2, got), d2) \<Rightarrow>
                    let su2 = su\<lparr>sr_buffer := overwrite (sr_buffer su) 0 got\<rparr> in
                    if result2 \<le> 0 then ((int aligned_bufsz, bs), su2, d2)
                    else ((int bufsz, bs @ take (bufsz mod blksz) (sr_buffer su2)), su2, d2))
          else ((result, bs), su, d1))"

definition serial_uio_write :: "bytes option \<Rightarrow> 'd serial_uio \<Rightarrow> 'd \<Rightarrow> int \<times> 'd" where
  "serial_uio_write buf su d = serial_send (Some (sr_ser su)) buf d"

definition serial_uio_cntl :: "int \<Rightarrow> 'd serial_uio \<Rightarrow> 'd \<Rightarrow> int \<times> 'd" where
  "serial_uio_cntl opn su d = serial_cntl (Some (sr_ser su)) opn d"

section \<open>Video devices\<close>

record 'd video_intf =
  vi_open :: "(int \<Rightarrow> 'd \<Rightarrow> int \<times> 'd) option"
  vi_close :: "('d \<Rightarrow> 'd) option"
  vi_flush :: "('d \<Rightarrow> 'd) option"
  vi_cntl :: "(int \<Rightarrow> 'd \<Rightarrow> int \<times> 'd) option"

definition video_open :: "'d video_intf \<Rightarrow> int \<Rightarrow> 'd \<Rightarrow> int \<times> 'd" where
  "video_open vid mode d = (case vi_open vid of Some f \<Rightarrow> f mode d | None \<Rightarrow> (- ENOTSUP, d))"

definition video_close :: "'d video_intf \<Rightarrow> 'd \<Rightarrow> 'd" where
  "video_close vid d = (case vi_close vid of Some f \<Rightarrow> f d | None \<Rightarrow> d)"

definition video_flush :: "'d video_intf \<Rightarrow> 'd \<Rightarrow> 'd" where
  "video_flush vid d = (case vi_flush vid of Some f \<Rightarrow> f d | None \<Rightarrow> d)"

definition video_cntl :: "'d video_intf \<Rightarrow> int \<Rightarrow> 'd \<Rightarrow> int \<times> 'd" where
  "video_cntl vid opn d = (case vi_cntl vid of Some f \<Rightarrow> f opn d | None \<Rightarrow> (- ENOTSUP, d))"

section \<open>The list of devices\<close>

datatype device_type = DEV_SERIAL | DEV_STORAGE | DEV_VIDEO

record device_record =
  dv_name :: bytes
  dv_instno :: nat
  dv_type :: device_type
  dv_struct :: nat

text \<open>The type as the number of the \<open>enum\<close>; other numbers are refused.\<close>

definition device_type_of :: "nat \<Rightarrow> device_type option" where
  "device_type_of n = map_of [(1, DEV_SERIAL), (2, DEV_STORAGE), (3, DEV_VIDEO)] n"

fun count_named :: "bytes \<Rightarrow> device_record list \<Rightarrow> nat" where
  "count_named nm [] = 0"
| "count_named nm (dev # devs) =
     (if strcmp (Some (nm @ [0])) (Some (dv_name dev @ [0])) = Some 0 then 1 else 0) + count_named nm devs"

definition register_device :: "bytes \<Rightarrow> nat \<Rightarrow> nat \<Rightarrow> device_record list \<Rightarrow> int \<times> device_record list" where
  "register_device nm type device_struct devlist =
     (case device_type_of type of
        None \<Rightarrow> (- EINVAL, devlist)
      | Some ty \<Rightarrow>
          let instno = count_named nm devlist
          in (int instno, devlist @ [\<lparr>dv_name = nm, dv_instno = instno, dv_type = ty, dv_struct = device_struct\<rparr>]))"

fun find_device :: "bytes \<Rightarrow> device_type \<Rightarrow> nat \<Rightarrow> device_record list \<Rightarrow> nat option" where
  "find_device nm ty instno [] = None"
| "find_device nm ty instno (dev # devs) =
     (if dv_type dev = ty \<and> dv_instno dev = instno \<and> strcmp (Some (nm @ [0])) (Some (dv_name dev @ [0])) = Some 0
      then Some (dv_struct dev) else find_device nm ty instno devs)"

definition device_type_short_name :: "device_type option \<Rightarrow> bytes" where
  "device_type_short_name ty =
     (case ty of
        Some DEV_SERIAL \<Rightarrow> [115, 101, 114]
      | Some DEV_STORAGE \<Rightarrow> [115, 116, 111]
      | Some DEV_VIDEO \<Rightarrow> [118, 105, 100]
      | None \<Rightarrow> [85, 78, 75])"

section \<open>The device file system\<close>

text \<open>What opening a device gives, and the structures at the addresses (0 is NULL).\<close>

datatype 'd dev_uio = Serial_uio "'d serial_uio" | Storage_uio "'d storage_uio" | Devfs_listing "device_record list"

record 'd devices =
  ser_at :: "nat \<Rightarrow> 'd serial_intf option"
  sto_at :: "nat \<Rightarrow> 'd storage_intf option"

definition video_open_uio :: "nat \<Rightarrow> int" where
  "video_open_uio vid = - ENOTSUP"

text \<open>The start of the digits at the end of a name: the scan from \<open>i\<close>, with what was found so far.\<close>

fun last_digits :: "bytes \<Rightarrow> nat \<Rightarrow> nat option \<Rightarrow> nat option" where
  "last_digits [] i dp = dp"
| "last_digits (c # s) i dp =
     last_digits s (i + 1) (if 48 \<le> c \<and> c \<le> 57 then (case dp of None \<Rightarrow> Some i | Some j \<Rightarrow> dp) else None)"

definition open_device :: "'d devices \<Rightarrow> device_record \<Rightarrow> 'd \<Rightarrow> (int + 'd dev_uio) \<times> 'd" where
  "open_device io dev d =
     (case dv_type dev of
        DEV_SERIAL \<Rightarrow>
          (case serial_open_uio (ser_at io (dv_struct dev)) d of (r, d1) \<Rightarrow> (map_sum id Serial_uio r, d1))
      | DEV_STORAGE \<Rightarrow>
          (case sto_at io (dv_struct dev) of
             None \<Rightarrow> (Inl (- EINVAL), d)
           | Some intf \<Rightarrow>
               (case storage_open_uio intf d of
                  (result, None) \<Rightarrow> (Inl result, snd (storage_open (Some intf) d))
                | (_, Some u) \<Rightarrow> (Inr (Storage_uio u), su_dev u)))
      | DEV_VIDEO \<Rightarrow> (Inl (video_open_uio (dv_struct dev)), d))"

text \<open>The search of the list; \<open>dp\<close> is where the digits begin.  \<open>None\<close>: a string function or the index
  runs off a name.\<close>

fun find_named :: "bytes \<Rightarrow> nat \<Rightarrow> u64 \<Rightarrow> device_record list \<Rightarrow> device_record option option" where
  "find_named nm dp instno [] = Some None"
| "find_named nm dp instno (dev # devs) =
     (case strncmp (nm @ [0]) (dv_name dev @ [0]) dp of
        None \<Rightarrow> None
      | Some r \<Rightarrow>
          if r \<noteq> 0 then find_named nm dp instno devs
          else if length (dv_name dev) < dp then None
          else if (dv_name dev @ [0]) ! dp = 0 \<and> of_nat (dv_instno dev) = instno then Some (Some dev)
          else find_named nm dp instno devs)"

definition devfs_open_file :: "'d devices \<Rightarrow> device_record list \<Rightarrow> bytes \<Rightarrow> 'd \<Rightarrow> ((int + 'd dev_uio) \<times> 'd) option" where
  "devfs_open_file io devlist nm d =
     (case last_digits nm 0 None of
        None \<Rightarrow> Some (Inl (- ENOENT), d)
      | Some dp \<Rightarrow>
          (case strtoul (Some (drop dp nm @ [0])) 10 of
             None \<Rightarrow> None
           | Some (instno, _) \<Rightarrow>
               (case find_named nm dp instno devlist of
                  None \<Rightarrow> None
                | Some None \<Rightarrow> Some (Inl (- ENOENT), d)
                | Some (Some dev) \<Rightarrow> Some (open_device io dev d))))"

definition devfs_open :: "'d devices \<Rightarrow> device_record list \<Rightarrow> bytes option \<Rightarrow> 'd \<Rightarrow> ((int + 'd dev_uio) \<times> 'd) option" where
  "devfs_open io devlist nm d =
     (case nm of
        None \<Rightarrow> Some (Inr (Devfs_listing devlist), d)
      | Some s \<Rightarrow> if s = [] then Some (Inr (Devfs_listing devlist), d) else devfs_open_file io devlist s d)"

text \<open>The next name of a listing: the count, the buffer and the devices still to come.\<close>

definition devfs_listing_read :: "bytes \<Rightarrow> nat \<Rightarrow> device_record list \<Rightarrow> (nat \<times> bytes \<times> device_record list) option" where
  "devfs_listing_read buf bufsz ls =
     (case ls of
        [] \<Rightarrow> Some (0, buf, [])
      | dev # devs \<Rightarrow>
          map_option (\<lambda>(len, b). (if len < bufsz then len else bufsz, b, devs))
            (vsnprintf buf bufsz [37, 115, 37, 100, 0] [VStr (Some (dv_name dev @ [0])), VInt (of_nat (dv_instno dev))]))"

text \<open>The file system, over the names that are in use when it is mounted.  \<open>devfs_open\<close> has a value for
  every name (below).\<close>

definition devfs :: "'d devices \<Rightarrow> device_record list \<Rightarrow> ('d dev_uio, 'd) filesystem" where
  "devfs io devlist =
     \<lparr>fs_open = Some (\<lambda>nm d. the (devfs_open io devlist nm d)), fs_create = None, fs_delete = None, fs_flush = None\<rparr>"

definition mount_devfs :: "int \<Rightarrow> 'd devices \<Rightarrow> device_record list \<Rightarrow> bytes \<Rightarrow> ('d dev_uio, 'd) mounts \<Rightarrow> int \<times> ('d dev_uio, 'd) mounts" where
  "mount_devfs EEXIST io devlist nm = attach_filesystem EEXIST nm (devfs io devlist)"

section \<open>The real-time clock\<close>

text \<open>The two registers hold what reading \<open>k\<close> of the clock, \<open>clk k\<close>, puts there; the state is the number
  of readings so far.\<close>

definition read_real_time :: "u32 \<times> u32 \<Rightarrow> u64" where
  "read_real_time regs = (case regs of (time_low, time_high) \<Rightarrow> ucast time_low + push_bit 32 (ucast time_high))"

function rtc_loop :: "(nat \<Rightarrow> u32 \<times> u32) \<Rightarrow> nat \<Rightarrow> nat \<Rightarrow> bytes \<times> nat" where
  "rtc_loop clk left k =
     (if left = 0 then ([], k)
      else let chunk = (if left > 8 then 8 else left)
        in case rtc_loop clk (left - chunk) (k + 1) of
             (bs, k1) \<Rightarrow> (take chunk (enc_u64 (read_real_time (clk k))) @ bs, k1))"
  by pat_completeness auto
termination
  by (relation "measure (\<lambda>(clk, left, k). left)") auto

declare rtc_loop.simps [simp del]

definition rtc_recv :: "(nat \<Rightarrow> u32 \<times> u32) \<Rightarrow> nat \<Rightarrow> nat \<Rightarrow> (int \<times> bytes) \<times> nat" where
  "rtc_recv clk bufsz k =
     (if bufsz = 0 then ((0, []), k)
      else case rtc_loop clk bufsz k of (bs, k1) \<Rightarrow> ((sint (of_nat bufsz :: u32), bs), k1))"

definition rtc_serial_intf :: "(nat \<Rightarrow> u32 \<times> u32) \<Rightarrow> nat serial_intf" where
  "rtc_serial_intf clk =
     \<lparr>se_blksz = 8, se_open = Some (\<lambda>k. (0, k)), se_close = Some (\<lambda>k. k), se_recv = Some (rtc_recv clk),
      se_send = None, se_cntl = None\<rparr>"

section \<open>Names of devices\<close>

inductive registered :: "device_record list \<Rightarrow> bool" where
  none: "registered []"
| more: "registered devs \<Longrightarrow> 0 \<notin> set nm \<Longrightarrow> register_device nm ty p devs = (rc, devs') \<Longrightarrow> registered devs'"

lemma count_named: "0 \<notin> set nm \<Longrightarrow> \<forall>dev\<in>set devs. 0 \<notin> set (dv_name dev) \<Longrightarrow>
    count_named nm devs = length (filter (\<lambda>dev. dv_name dev = nm) devs)"
  by (induction devs) (auto simp: strcmp_names)

text \<open>No two devices of the list have both name and number in common.\<close>

lemma registered_distinct:
  assumes "registered devs"
  shows "(\<forall>dev\<in>set devs. 0 \<notin> set (dv_name dev) \<and> dv_instno dev < length (filter (\<lambda>e. dv_name e = dv_name dev) devs)) \<and>
     distinct (map (\<lambda>dev. (dv_name dev, dv_instno dev)) devs)"
  using assms
proof induction
  case (more devs nm ty p rc devs')
  then show ?case
    by (auto simp: register_device_def count_named Let_def less_Suc_eq split: option.splits) (metis less_irrefl)
qed simp

definition is_digit :: "u8 \<Rightarrow> bool" where
  "is_digit c \<longleftrightarrow> 48 \<le> c \<and> c \<le> 57"

lemma last_digits_append: "last_digits (a @ b) i dp = last_digits b (i + length a) (last_digits a i dp)"
  by (induction a arbitrary: i dp) auto

lemma last_digits_run: "\<forall>c\<in>set ds. is_digit c \<Longrightarrow>
    last_digits ds i dp = (case dp of Some j \<Rightarrow> Some j | None \<Rightarrow> if ds = [] then None else Some i)"
  by (induction ds arbitrary: i dp) (auto simp: is_digit_def split: option.split)

lemma last_digits_name:
  assumes "nm = [] \<or> \<not> is_digit (last nm)" and "\<forall>c\<in>set ds. is_digit c" and "ds \<noteq> []"
  shows "last_digits (nm @ ds) 0 None = Some (length nm)"
proof -
  have "last_digits nm 0 None = None"
  proof (cases nm rule: rev_cases)
    case (snoc a c)
    then show ?thesis using assms(1) by (auto simp: last_digits_append is_digit_def)
  qed simp
  then show ?thesis using last_digits_run [OF assms(2), of "length nm" None] assms(3) by (simp add: last_digits_append)
qed

lemma byte_difference_0: "sint (ucast (a :: u8) - ucast b :: u32) = 0 \<longleftrightarrow> a = b"
proof -
  have "sint (ucast a - ucast b :: u32) = 0 \<longleftrightarrow> (ucast a :: u32) = ucast b" by (simp add: signed_eq_0_iff)
  also have "\<dots> \<longleftrightarrow> a = b"
  proof
    assume "(ucast a :: u32) = ucast b"
    then have "unat (ucast a :: u32) = unat (ucast b :: u32)" by simp
    then show "a = b" by (simp add: unsigned_ucast_eq take_bit_nat_eq_self unat_lt_8 [THEN order.strict_trans2] word_unat_eq_iff)
  qed simp
  finally show ?thesis .
qed

lemma strncmp_prefix:
  assumes "0 \<notin> set nm" and "0 \<notin> set a"
  shows "\<exists>r. strncmp (nm @ u) (a @ 0 # v) (length nm) = Some r \<and> (r = 0 \<longleftrightarrow> length nm \<le> length a \<and> take (length nm) a = nm)"
  using assms
proof (induction nm arbitrary: a)
  case (Cons c nm)
  show ?case
  proof (cases a)
    case Nil
    then show ?thesis using Cons.prems byte_difference_0 [of c 0] by simp
  next
    case (Cons x xs)
    then show ?thesis using Cons.IH [of xs] Cons.prems byte_difference_0 [of c x] by auto
  qed
qed simp

text \<open>The search finds the device of that name and number.\<close>

lemma find_named_at:
  assumes "\<forall>dev\<in>set devs. 0 \<notin> set (dv_name dev) \<and> dv_instno dev < 2 ^ 64" and "0 \<notin> set nm" and "k < 2 ^ 64"
  shows "find_named (nm @ ds) (length nm) (of_nat k) devs = Some (find (\<lambda>dev. dv_name dev = nm \<and> dv_instno dev = k) devs)"
  using assms(1)
proof (induction devs)
  case (Cons dev devs)
  let ?a = "dv_name dev"
  obtain r where r: "strncmp (nm @ ds @ [0]) (?a @ [0]) (length nm) = Some r" "r = 0 \<longleftrightarrow> length nm \<le> length ?a \<and> take (length nm) ?a = nm"
    using strncmp_prefix [OF assms(2), of ?a "ds @ [0]" "[]"] Cons.prems by auto
  have n: "(of_nat (dv_instno dev) :: u64) = of_nat k \<longleftrightarrow> dv_instno dev = k"
  proof
    assume "(of_nat (dv_instno dev) :: u64) = of_nat k"
    then have "unat (of_nat (dv_instno dev) :: u64) = unat (of_nat k :: u64)" by simp
    then show "dv_instno dev = k" using Cons.prems assms(3) by (simp add: unat_word_of_nat_small)
  qed simp
  have e: "(?a @ [0]) ! length nm = 0 \<longleftrightarrow> ?a = nm" if "r = 0"
  proof -
    have p: "length nm \<le> length ?a" "take (length nm) ?a = nm" using r(2) that by auto
    show ?thesis
    proof (cases "length nm = length ?a")
      case False
      then have "(?a @ [0]) ! length nm \<in> set ?a" using p(1) by (simp add: nth_append)
      then have "(?a @ [0]) ! length nm \<noteq> 0" using Cons.prems by (metis list.set_intros(1))
      then show ?thesis using False by auto
    qed (use p in auto)
  qed
  have "\<not> length ?a < length nm" if "r = 0" using r(2) that by simp
  moreover have "?a \<noteq> nm" if "r \<noteq> 0" using r(2) that by auto
  ultimately show ?case using Cons r(1) n e by auto
qed simp

text \<open>A listing prints the name and the number in decimal.\<close>

definition decimal :: "nat \<Rightarrow> bytes" where
  "decimal k = the (fmt_digits 40 (of_nat k) 10 [])"

lemma decimal:
  assumes "k < 2 ^ 31"
  shows "fmt_digits 40 (of_nat k) 10 [] = Some (decimal k)" and "decimal k \<noteq> []" and "\<forall>c\<in>set (decimal k). is_digit c"
    and "strtoul (Some (decimal k @ [0])) 10 = Some (of_nat k, Some (length (decimal k)))"
proof -
  have "unat (of_nat k :: u64) < unat (10 :: u64) ^ 40" using unat_lt_64 by (rule less_trans) simp
  then show f: "fmt_digits 40 (of_nat k) 10 [] = Some (decimal k)"
    using fmt_digits_defined [of "10 :: u64" "of_nat k" 40] by (auto simp: decimal_def)
  from fmt_digits_decimal [OF this] have
    d: "decimal k \<noteq> []" "decimal_value 0 (decimal k) = of_nat k" "\<forall>c\<in>set (decimal k). 48 \<le> uint c \<and> uint c < 58" by auto
  show "decimal k \<noteq> []" by (rule d)
  show "\<forall>c\<in>set (decimal k). is_digit c" using d(3) by (auto simp: is_digit_def word_le_def)
  obtain c r where cr: "decimal k = c # r" using d(1) by (cases "decimal k") auto
  with d(3) have "c \<noteq> 45" "c \<noteq> 43" by auto
  with d strtoul_loop_decimal [of "decimal k" 0 "[]" 0 0]
  show "strtoul (Some (decimal k @ [0])) 10 = Some (of_nat k, Some (length (decimal k)))"
    by (simp add: strtoul_def cr)
qed

lemma entry_text:
  assumes "0 \<notin> set nm" and "k < 2 ^ 31"
  shows "fmt_text [37, 115, 37, 100, 0] [VStr (Some (nm @ [0])), VInt (of_nat k)] = Some (nm @ decimal k)"
proof -
  have c: "cstr (nm @ [0]) = nm" using assms(1) by (induction nm) (auto simp: cstr_def)
  have u: "(ucast (of_nat k :: u64) :: u32) = of_nat k" using assms(2) by (simp add: unsigned_of_nat take_bit_nat_eq_self)
  have s: "sint (of_nat k :: u32) = int k" using assms(2) by (simp add: signed_of_nat signed_take_bit_int_eq_self)
  have a: "signed_arg 0 (of_nat k) = of_nat k" by (simp add: signed_arg_def u scast_eq s)
  have "sint (of_nat k :: u64) = int k" using assms(2) by (simp add: signed_of_nat signed_take_bit_int_eq_self)
  then have p: "\<not> of_nat k <s (0 :: u64)" by (simp add: word_sless_alt)
  show ?thesis
    using assms(1) decimal(1) [OF assms(2)] p
    by (simp add: fmt_text.simps parse_spec_def parse_prefix_def convert_text_def str_text_def nul_terminated_def c a int_text_def)
qed

lemma listing_entry:
  assumes "0 \<notin> set (dv_name dev)" and "dv_instno dev < 2 ^ 31" and "length (dv_name dev @ decimal (dv_instno dev)) < bufsz" and "bufsz \<le> length buf"
  shows "devfs_listing_read buf bufsz (dev # devs) =
     (let t = dv_name dev @ decimal (dv_instno dev) in Some (length t + 1, t @ 0 # drop (length t + 1) buf, devs))"
  using assms vsnprintf_text [OF entry_text [OF assms(1,2)], of bufsz buf]
  by (auto simp: devfs_listing_read_def Let_def min_def)

section \<open>Listings and names\<close>

text \<open>C36: The names in a listing of the device file system open the devices.  However devices have been
  registered, entry i of the listing is read as the name and the decimal number of device i; and if
  no name ends in a digit, that text, opened in the file system or under the name where it is
  mounted, opens exactly device i.\<close>

theorem devfs_names_open:
  assumes "registered devs" and "length devs < 2 ^ 31" and "i < length devs"
    and "dv_name (devs ! i) = [] \<or> \<not> is_digit (last (dv_name (devs ! i)))"
  shows "\<exists>t. (\<forall>bufsz buf. length t < bufsz \<and> bufsz \<le> length buf \<longrightarrow>
         devfs_listing_read buf bufsz (drop i devs) = Some (length t + 1, t @ 0 # drop (length t + 1) buf, drop (i + 1) devs)) \<and>
       devfs_open_file io devs t d = Some (open_device io (devs ! i) d) \<and>
       (\<forall>e mp ms ms'. named ms \<and> 0 \<notin> set mp \<and> mp \<noteq> [] \<and> e \<noteq> 0 \<and> mount_devfs e io devs mp ms = (0, ms') \<longrightarrow>
          open_file (Some mp) (Some t) ms' d = Some (map_sum id File (fst (open_device io (devs ! i) d)), snd (open_device io (devs ! i) d)))"
proof -
  let ?dev = "devs ! i"
  let ?t = "dv_name ?dev @ decimal (dv_instno ?dev)"
  have inv: "\<forall>dev\<in>set devs. 0 \<notin> set (dv_name dev) \<and> dv_instno dev < 2 ^ 31"
    and dist: "distinct (map (\<lambda>dev. (dv_name dev, dv_instno dev)) devs)"
    using registered_distinct [OF assms(1)] assms(2) by (auto intro: less_le_trans [OF _ length_filter_le, THEN less_trans])
  have k: "dv_instno ?dev < 2 ^ 31" and nm: "0 \<notin> set (dv_name ?dev)" using inv assms(3) by auto
  note dec = decimal [OF k]
  have l: "last_digits ?t 0 None = Some (length (dv_name ?dev))" by (rule last_digits_name) (use assms(4) dec in auto)
  have "find (\<lambda>dev. dv_name dev = dv_name ?dev \<and> dv_instno dev = dv_instno ?dev) devs = Some ?dev"
    using dist assms(3) by (auto simp: find_Some_iff distinct_conv_nth intro!: exI [of _ i])
  then have "find_named ?t (length (dv_name ?dev)) (of_nat (dv_instno ?dev)) devs = Some (Some ?dev)"
    using find_named_at [OF _ nm, of devs "dv_instno ?dev" "decimal (dv_instno ?dev)"] inv k by fastforce
  then have o: "devfs_open_file io devs ?t d = Some (open_device io ?dev d)"
    by (simp add: devfs_open_file_def l dec(4))
  have fo: "fsopen (devfs io devs) (Some ?t) d = open_device io ?dev d"
    using dec(2) by (simp add: fsopen_def devfs_def devfs_open_def o)
  have "open_file (Some mp) (Some ?t) ms' d = Some (map_sum id File (fst (open_device io ?dev d)), snd (open_device io ?dev d))"
    if "named ms" "0 \<notin> set mp" "mp \<noteq> []" "e \<noteq> 0" "mount_devfs e io devs mp ms = (0, ms')" for e mp ms ms'
  proof -
    have "getfs mp ms' = Some (devfs io devs)"
      using attach_getfs [OF that(1,2) that(5) [unfolded mount_devfs_def] that(4)] that(2) by simp
    then show ?thesis using that(3) by (simp add: open_file_def fo split: prod.split)
  qed
  moreover have "devfs_listing_read buf bufsz (drop i devs) = Some (length ?t + 1, ?t @ 0 # drop (length ?t + 1) buf, drop (i + 1) devs)"
    if "length ?t < bufsz" "bufsz \<le> length buf" for bufsz buf
    using listing_entry [OF nm k that] assms(3) by (simp add: Let_def Cons_nth_drop_Suc [symmetric])
  ultimately show ?thesis using o by (intro exI [of _ ?t]) blast
qed

text \<open>Two UARTs and a clock.\<close>

definition demo_devices :: "device_record list" where
  "demo_devices = snd (register_device [117] 1 9 (snd (register_device [114] 1 8 (snd (register_device [117] 1 7 [])))))"

lemma demo_devices_registered: "registered demo_devices"
  unfolding demo_devices_def
  by (intro registered.more [OF _ _ prod.collapse [symmetric]] registered.none) auto

lemma devfs_names_open_witness:
  "\<forall>io d. \<exists>t. (\<forall>bufsz buf. length t < bufsz \<and> bufsz \<le> length buf \<longrightarrow>
         devfs_listing_read buf bufsz (drop 2 demo_devices) = Some (length t + 1, t @ 0 # drop (length t + 1) buf, [])) \<and>
       devfs_open_file io demo_devices t d = Some (open_device io \<lparr>dv_name = [117], dv_instno = 1, dv_type = DEV_SERIAL, dv_struct = 9\<rparr> d)"
proof -
  have e: "length demo_devices = 3" "demo_devices ! 2 = \<lparr>dv_name = [117], dv_instno = 1, dv_type = DEV_SERIAL, dv_struct = 9\<rparr>"
    by code_simp+
  show ?thesis using devfs_names_open [OF demo_devices_registered, of 2] by (force simp: e is_digit_def)
qed

section \<open>Reading the clock\<close>

definition readings :: "(nat \<Rightarrow> u32 \<times> u32) \<Rightarrow> nat \<Rightarrow> nat \<Rightarrow> bytes" where
  "readings clk k m = concat (map (\<lambda>j. enc_u64 (read_real_time (clk j))) [k..<k + m])"

lemma length_enc_u64' [simp]: "length (enc_u64 w) = 8"
  by (simp add: enc_u64_def)

lemma readings_Suc: "readings clk k (Suc m) = enc_u64 (read_real_time (clk k)) @ readings clk (Suc k) m"
  by (simp add: readings_def upt_conv_Cons del: upt_Suc)

lemma readings_snoc: "readings clk k (m + 1) = readings clk k m @ enc_u64 (read_real_time (clk (k + m)))"
  by (simp add: readings_def)

lemma length_readings: "length (readings clk k m) = 8 * m"
  by (induction m arbitrary: k) (simp_all add: readings_Suc, simp add: readings_def)

lemma rtc_loop_readings: "rtc_loop clk left k = (take left (readings clk k ((left + 7) div 8)), k + (left + 7) div 8)"
proof (induction clk left k rule: rtc_loop.induct)
  case (1 clk left k)
  show ?case
  proof (cases "left \<le> 8")
    case True
    then show ?thesis
    proof (cases "left = 0")
      case False
      then have "(left + 7) div 8 = 1" using True by simp
      then show ?thesis using False True by (subst rtc_loop.simps) (simp add: Let_def rtc_loop.simps [of _ 0] readings_def)
    qed (simp add: rtc_loop.simps)
  next
    case False
    then have "(left + 7) div 8 = Suc ((left - 8 + 7) div 8)" by simp
    moreover have "rtc_loop clk (left - 8) (k + 1) =
        (take (left - 8) (readings clk (k + 1) ((left - 8 + 7) div 8)), k + 1 + (left - 8 + 7) div 8)"
      using 1 False by simp
    ultimately show ?thesis using False by (subst rtc_loop.simps) (simp add: Let_def readings_Suc)
  qed
qed

text \<open>Reading the clock through its file.  A read of n bytes always gives n bytes: those of successive
  readings of the clock, each of 8 bytes with the low byte first, as many as are begun; a program
  that reads 8 bytes gets the time, high and low word together.\<close>

theorem rtc_file_reads:
  assumes "n < 2 ^ 31" and "length (sr_buffer su) = 8" and "sr_ser su = rtc_serial_intf clk"
  shows "(\<exists>su'. serial_uio_read n (su, k) = ((int n, take n (readings clk k ((n + 7) div 8))), su', k + (n + 7) div 8)) \<and>
     take 8 (readings clk k 1) = enc_u64 (ucast (fst (clk k)) + push_bit 32 (ucast (snd (clk k))))"
proof
  have recv: "serial_recv (Some (rtc_serial_intf clk)) False (8 * m) d = ((int (8 * m), readings clk d m), d + m)"
    if "8 * m < 2 ^ 31" for m d
  proof -
    have s: "sint (of_nat (8 * m) :: u32) = int (8 * m)" unfolding signed_of_nat of_int_eq_id id_apply using that
      by (intro signed_take_bit_int_eq_self) simp_all
    have q: "(8 * m + 7) div 8 = m" by simp
    have "rtc_recv clk (8 * m) d = ((int (8 * m), readings clk d m), d + m)"
    proof (cases "m = 0")
      case False
      then show ?thesis unfolding rtc_recv_def rtc_loop_readings q s by (simp add: length_readings)
    qed (simp add: rtc_recv_def readings_def)
    moreover have "8 * m div 8 * 8 = 8 * m" "8 * m = 0 \<or> 8 \<le> 8 * m" by auto
    ultimately show ?thesis by (simp only: serial_recv_def rtc_serial_intf_def option.case serial_intf.simps if_False if_True)
  qed
  let ?q = "n div 8"
  have blocks: "(8 * m + s + 7) div 8 = (if s = 0 then m else m + 1)" if "s < 8" for m s :: nat
  proof (cases "s = 0")
    case False
    then obtain u where "s = Suc u" by (cases s) auto
    then have "8 * m + s + 7 = 8 * (m + 1) + u" "u < 8" using that by simp_all
    then have "(8 * m + s + 7) div 8 = m + 1" by simp
    then show ?thesis using False by simp
  qed simp
  have e: "8 * ?q + n mod 8 = n" by (rule mult_div_mod_eq)
  have qq: "(n + 7) div 8 = (if n mod 8 = 0 then ?q else ?q + 1)" using blocks [of "n mod 8" ?q] unfolding e by simp
  have r1: "readings clk j 1 = enc_u64 (read_real_time (clk j))" for j by (simp add: readings_def)
  have a: "8 * ?q < 2 ^ 31" using assms(1) by (rule le_less_trans [rotated]) simp
  have b: "se_blksz (sr_ser su) = 8" using assms(3) by (simp add: rtc_serial_intf_def)
  have "n div 8 * 8 mod 2 ^ 32 = 8 * ?q" unfolding mult.commute [of _ 8] by (rule mod_less) (rule less_trans [OF a], simp)
  then have r: "serial_recv (Some (sr_ser su)) False (n div se_blksz (sr_ser su) * se_blksz (sr_ser su) mod 2 ^ 32) k =
      ((int (8 * ?q), readings clk k ?q), k + ?q)"
    unfolding b using recv [OF a, of k] assms(3) by (simp only:)
  have r8: "serial_recv (Some (sr_ser su)) False 8 d = ((8, readings clk d 1), d + 1)" for d
    using recv [of 1 d] assms(3) by simp
  show "\<exists>su'. serial_uio_read n (su, k) = ((int n, take n (readings clk k ((n + 7) div 8))), su', k + (n + 7) div 8)"
  proof (cases "n mod 8 = 0")
    case True
    then have q: "(n + 7) div 8 = ?q" "8 * ?q = n" using qq e by simp_all
    have "take n (readings clk k ?q) = readings clk k ?q" using q(2) by (simp add: length_readings)
    then show ?thesis using r unfolding serial_uio_read_def prod.case Let_def b q by (simp add: True)
  next
    case False
    then have q: "(n + 7) div 8 = ?q + 1" using qq by simp
    have "take n (readings clk k (?q + 1)) = readings clk k ?q @ take (n mod 8) (readings clk (k + ?q) 1)"
      unfolding readings_snoc r1 take_append length_readings by (simp add: length_readings minus_mult_div_eq_mod)
    moreover have "overwrite (sr_buffer su) 0 (readings clk (k + ?q) 1) = readings clk (k + ?q) 1"
      using assms(2) by (simp add: overwrite_def length_readings)
    ultimately show ?thesis using r r8 b False q
      by (simp add: serial_uio_read_def Let_def mult.commute)
  qed
  show "take 8 (readings clk k 1) = enc_u64 (ucast (fst (clk k)) + push_bit 32 (ucast (snd (clk k))))"
    by (simp add: readings_def read_real_time_def split: prod.split)
qed

lemma rtc_file_reads_witness:
  "\<exists>su'. serial_uio_read 9 (\<lparr>sr_ser = rtc_serial_intf (\<lambda>k. (of_nat k + 1, 2)), sr_buffer = replicate 8 0\<rparr>, 0) =
     ((int 9, [1, 0, 0, 0, 2, 0, 0, 0, 2]), su', 0 + (9 + 7) div 8)"
proof -
  let ?c = "\<lambda>k. (of_nat k + 1, 2)"
  have "take 9 (readings ?c 0 ((9 + 7) div 8)) = [1, 0, 0, 0, 2, 0, 0, 0, 2]" by code_simp
  moreover have "9 < (2 :: nat) ^ 31" "length (sr_buffer \<lparr>sr_ser = rtc_serial_intf ?c, sr_buffer = replicate 8 0\<rparr>) = 8"
    "sr_ser \<lparr>sr_ser = rtc_serial_intf ?c, sr_buffer = replicate 8 0\<rparr> = rtc_serial_intf ?c" by simp_all
  ultimately show ?thesis
    using rtc_file_reads [of 9 "\<lparr>sr_ser = rtc_serial_intf ?c, sr_buffer = replicate 8 0\<rparr>" ?c 0] by metis
qed

end
