(* ===== verification/Interrupts.thy ===== *)
theory Interrupts
  imports Prelude
begin

text \<open>
  Interrupts: the table of handlers of \<open>modified/sys/intr.c\<close> and the registers of the interrupt controller,
  \<open>modified/sys/plic.c\<close>.  The value that the claim register gives is an argument, and what is written to
  it is collected in \<open>pl_completed\<close>; \<open>'d\<close> is the state that the handlers work on.  The stores of an
  operation are named, since an interrupt can come between two of them.  \<open>None\<close> is a panic or a failed
  assertion.
\<close>

abbreviation (input) PLIC_SRC_CNT :: nat where "PLIC_SRC_CNT \<equiv> 96"
abbreviation (input) PLIC_CTX_CNT :: nat where "PLIC_CTX_CNT \<equiv> 2"
abbreviation (input) NIRQ :: nat where "NIRQ \<equiv> PLIC_SRC_CNT"

record 'd intr =
  pl_priority :: "nat \<Rightarrow> u32"
  pl_pending :: "nat \<Rightarrow> u32"
  pl_enable :: "nat \<Rightarrow> nat \<Rightarrow> u32"
  pl_threshold :: "nat \<Rightarrow> u32"
  pl_completed :: "nat list"
  it_isr :: "nat \<Rightarrow> (nat \<Rightarrow> nat \<Rightarrow> 'd \<Rightarrow> 'd) option"
  it_aux :: "nat \<Rightarrow> nat"
  it_dev :: 'd
  it_sie :: u64

definition CTX :: "nat \<Rightarrow> nat \<Rightarrow> nat" where
  "CTX i s = 2 * i + s"

section \<open>The controller\<close>

definition plic_set_source_priority :: "nat \<Rightarrow> u32 \<Rightarrow> 'd intr \<Rightarrow> 'd intr" where
  "plic_set_source_priority srcno level s = s\<lparr>pl_priority := (pl_priority s)(srcno := level)\<rparr>"

definition plic_source_pending :: "nat \<Rightarrow> 'd intr \<Rightarrow> int" where
  "plic_source_pending srcno s = (if pl_pending s (srcno div 32) AND push_bit (srcno mod 32) 1 \<noteq> 0 then 1 else 0)"

definition plic_enable_source_for_context :: "nat \<Rightarrow> nat \<Rightarrow> 'd intr \<Rightarrow> 'd intr" where
  "plic_enable_source_for_context ctxno srcno s =
     s\<lparr>pl_enable := (pl_enable s)(ctxno := (pl_enable s ctxno)(srcno div 32 := pl_enable s ctxno (srcno div 32) OR push_bit (srcno mod 32) 1))\<rparr>"

definition plic_disable_source_for_context :: "nat \<Rightarrow> nat \<Rightarrow> 'd intr \<Rightarrow> 'd intr" where
  "plic_disable_source_for_context ctxno srcid s =
     s\<lparr>pl_enable := (pl_enable s)(ctxno := (pl_enable s ctxno)(srcid div 32 := pl_enable s ctxno (srcid div 32) AND NOT (push_bit (srcid mod 32) 1)))\<rparr>"

definition plic_set_context_threshold :: "nat \<Rightarrow> u32 \<Rightarrow> 'd intr \<Rightarrow> 'd intr" where
  "plic_set_context_threshold ctxno level s = s\<lparr>pl_threshold := (pl_threshold s)(ctxno := level)\<rparr>"

definition plic_claim_context_interrupt :: "nat \<Rightarrow> nat \<Rightarrow> nat" where
  "plic_claim_context_interrupt ctxno claim = claim"

definition plic_complete_context_interrupt :: "nat \<Rightarrow> nat \<Rightarrow> 'd intr \<Rightarrow> 'd intr" where
  "plic_complete_context_interrupt ctxno srcno s = s\<lparr>pl_completed := pl_completed s @ [srcno]\<rparr>"

fun enable_words :: "u32 \<Rightarrow> nat list \<Rightarrow> nat \<Rightarrow> 'd intr \<Rightarrow> 'd intr" where
  "enable_words w [] ctxno s = s"
| "enable_words w (i # is) ctxno s =
     enable_words w is ctxno (s\<lparr>pl_enable := (pl_enable s)(ctxno := (pl_enable s ctxno)(i := w))\<rparr>)"

definition plic_enable_all_sources_for_context :: "nat \<Rightarrow> 'd intr \<Rightarrow> 'd intr" where
  "plic_enable_all_sources_for_context = enable_words (- 1) [0..<32]"

definition plic_disable_all_sources_for_context :: "nat \<Rightarrow> 'd intr \<Rightarrow> 'd intr" where
  "plic_disable_all_sources_for_context = enable_words 0 [0..<32]"

definition plic_init :: "'d intr \<Rightarrow> 'd intr" where
  "plic_init s =
     (let s1 = fold (\<lambda>i. plic_set_source_priority i 0) [0..<PLIC_SRC_CNT] s;
          s2 = fold plic_disable_all_sources_for_context [0..<PLIC_CTX_CNT] s1
      in plic_enable_all_sources_for_context (CTX 0 1) s2)"

definition plic_enable_source :: "int \<Rightarrow> int \<Rightarrow> 'd intr \<Rightarrow> 'd intr option" where
  "plic_enable_source srcno prio s =
     (if \<not> (0 < srcno \<and> srcno \<le> int PLIC_SRC_CNT) \<or> \<not> 0 < prio then None
      else Some (plic_set_source_priority (nat srcno) (of_int prio) s))"

definition plic_disable_source :: "int \<Rightarrow> 'd intr \<Rightarrow> 'd intr" where
  "plic_disable_source irqno s = (if 0 < irqno then plic_set_source_priority (nat irqno) 0 s else s)"

definition plic_claim_interrupt :: "nat \<Rightarrow> nat" where
  "plic_claim_interrupt claim = plic_claim_context_interrupt (CTX 0 1) claim"

definition plic_finish_interrupt :: "nat \<Rightarrow> 'd intr \<Rightarrow> 'd intr" where
  "plic_finish_interrupt irqno = plic_complete_context_interrupt (CTX 0 1) irqno"

section \<open>Handlers\<close>

definition intrmgr_init :: "'d intr \<Rightarrow> 'd intr" where
  "intrmgr_init s = (plic_init s)\<lparr>it_sie := push_bit 9 1 OR push_bit 5 1\<rparr>"

datatype 'd store =
    Set_isr nat "(nat \<Rightarrow> nat \<Rightarrow> 'd \<Rightarrow> 'd) option"
  | Set_aux nat nat
  | Enable_source int int
  | Disable_source int

fun do_store :: "'d store \<Rightarrow> 'd intr \<Rightarrow> 'd intr option" where
  "do_store (Set_isr n f) s = Some (s\<lparr>it_isr := (it_isr s)(n := f)\<rparr>)"
| "do_store (Set_aux n a) s = Some (s\<lparr>it_aux := (it_aux s)(n := a)\<rparr>)"
| "do_store (Enable_source n prio) s = plic_enable_source n prio s"
| "do_store (Disable_source n) s = Some (plic_disable_source n s)"

definition enable_intr_source :: "int \<Rightarrow> int \<Rightarrow> (nat \<Rightarrow> nat \<Rightarrow> 'd \<Rightarrow> 'd) \<Rightarrow> nat \<Rightarrow> 'd store list option" where
  "enable_intr_source srcno prio isr isr_aux =
     (if \<not> (0 < srcno \<and> srcno < int NIRQ) \<or> \<not> 0 < prio then None
      else Some [Set_isr (nat srcno) (Some isr), Set_aux (nat srcno) isr_aux, Enable_source srcno prio])"

text \<open>The index is used as it is; the drivers pass the number that they enabled.\<close>

definition disable_intr_source :: "int \<Rightarrow> 'd store list option" where
  "disable_intr_source srcno =
     (if \<not> (0 \<le> srcno \<and> srcno < int NIRQ) then None
      else Some [Disable_source srcno, Set_isr (nat srcno) None, Set_aux (nat srcno) 0])"

definition handle_extern_interrupt :: "nat \<Rightarrow> 'd intr \<Rightarrow> 'd intr option" where
  "handle_extern_interrupt claim s =
     (let srcno = plic_claim_interrupt claim in
      if \<not> srcno < NIRQ then None
      else if srcno = 0 then Some s
      else (case it_isr s srcno of
              None \<Rightarrow> None
            | Some isr \<Rightarrow> Some (plic_finish_interrupt srcno (s\<lparr>it_dev := isr srcno (it_aux s srcno) (it_dev s)\<rparr>))))"

text \<open>The timer's handler is \<open>ti\<close>.\<close>

definition handle_interrupt :: "('d intr \<Rightarrow> 'd intr option) \<Rightarrow> nat \<Rightarrow> nat \<Rightarrow> 'd intr \<Rightarrow> 'd intr option" where
  "handle_interrupt ti cause claim s =
     (if cause = 5 then ti s
      else if cause = 9 then handle_extern_interrupt claim s
      else None)"

section \<open>Any interleaving\<close>

text \<open>What the controller's specification says of a claim: 0, or a source that is enabled for the
  context and whose priority is above the threshold.\<close>

definition claim_ok :: "nat \<Rightarrow> 'd intr \<Rightarrow> bool" where
  "claim_ok n s \<longleftrightarrow> n = 0 \<or> n < PLIC_SRC_CNT \<and> bit (pl_enable s (CTX 0 1) (n div 32)) (n mod 32) \<and> pl_threshold s (CTX 0 1) < pl_priority s n"

text \<open>The stores of the operation that is in progress, and the interrupts between them.\<close>

inductive intr_reach :: "'d intr \<Rightarrow> 'd store list \<Rightarrow> bool" where
  start: "(\<And>n. it_isr s n = None) \<Longrightarrow> intr_reach (intrmgr_init s) []"
| enable: "intr_reach s [] \<Longrightarrow> enable_intr_source srcno prio isr aux = Some p \<Longrightarrow> intr_reach s p"
| disable: "intr_reach s [] \<Longrightarrow> disable_intr_source srcno = Some p \<Longrightarrow> intr_reach s p"
| store: "intr_reach s (st # p) \<Longrightarrow> do_store st s = Some s' \<Longrightarrow> intr_reach s' p"
| interrupt: "intr_reach s p \<Longrightarrow> claim_ok n s \<Longrightarrow> handle_extern_interrupt n s = Some s' \<Longrightarrow> intr_reach s' p"
| device: "intr_reach s p \<Longrightarrow> intr_reach (s\<lparr>it_dev := d, pl_pending := w\<rparr>) p"

text \<open>A source with a priority has a handler, and the rest of an operation keeps it so.\<close>

definition handled :: "'d intr \<Rightarrow> bool" where
  "handled s \<longleftrightarrow> (\<forall>n<NIRQ. 0 < pl_priority s n \<longrightarrow> it_isr s n \<noteq> None)"

fun rest_ok :: "'d store list \<Rightarrow> 'd intr \<Rightarrow> bool" where
  "rest_ok [] s \<longleftrightarrow> True"
| "rest_ok (Set_isr n (Some f) # p) s \<longleftrightarrow> (\<exists>a prio. 0 < n \<and> n < NIRQ \<and> 0 < prio \<and> p = [Set_aux n a, Enable_source (int n) prio])"
| "rest_ok (Set_isr n None # p) s \<longleftrightarrow> n < NIRQ \<and> (n = 0 \<or> pl_priority s n = 0) \<and> (\<exists>a. p = [Set_aux n a])"
| "rest_ok (Set_aux n a # p) s \<longleftrightarrow> p = [] \<or> 0 < n \<and> n < NIRQ \<and> it_isr s n \<noteq> None \<and> (\<exists>prio. 0 < prio \<and> p = [Enable_source (int n) prio])"
| "rest_ok (Enable_source k prio # p) s \<longleftrightarrow> 0 < k \<and> k < int NIRQ \<and> 0 < prio \<and> it_isr s (nat k) \<noteq> None \<and> p = []"
| "rest_ok (Disable_source k # p) s \<longleftrightarrow> 0 \<le> k \<and> k < int NIRQ \<and> (\<exists>a. p = [Set_isr (nat k) None, Set_aux (nat k) a])"

lemma enable_words_keeps [simp]:
  "pl_priority (enable_words w is c s) = pl_priority s" "it_isr (enable_words w is c s) = it_isr s"
  "it_dev (enable_words w is c s) = it_dev s" "pl_completed (enable_words w is c s) = pl_completed s"
  by (induction "is" arbitrary: s) simp_all

lemma fold_priority:
  "pl_priority (fold (\<lambda>i. plic_set_source_priority i 0) is s) n = (if n \<in> set is then 0 else pl_priority s n)"
  "it_isr (fold (\<lambda>i. plic_set_source_priority i 0) is s) = it_isr s"
  by (induction "is" arbitrary: s) (auto simp: plic_set_source_priority_def)

lemma fold_disable:
  "pl_priority (fold plic_disable_all_sources_for_context is s) = pl_priority s"
  "it_isr (fold plic_disable_all_sources_for_context is s) = it_isr s"
  by (induction "is" arbitrary: s) (simp_all add: plic_disable_all_sources_for_context_def)

lemma init_quiet: "n < NIRQ \<Longrightarrow> pl_priority (intrmgr_init s) n = 0"
  by (simp add: intrmgr_init_def plic_init_def Let_def plic_enable_all_sources_for_context_def fold_disable fold_priority del: upt_Suc)

lemma claim_keeps:
  assumes "handle_extern_interrupt n s = Some s'"
  shows "pl_priority s' = pl_priority s \<and> it_isr s' = it_isr s"
  using assms
  by (auto simp: handle_extern_interrupt_def Let_def plic_finish_interrupt_def plic_complete_context_interrupt_def split: if_splits option.splits)

lemma rest_ok_cong: "pl_priority s' = pl_priority s \<Longrightarrow> it_isr s' = it_isr s \<Longrightarrow> rest_ok p s' = rest_ok p s"
  by (induction p s rule: rest_ok.induct) auto

lemma intr_reach_inv: "intr_reach s p \<Longrightarrow> handled s \<and> pl_priority s 0 = 0 \<and> rest_ok p s"
proof (induction rule: intr_reach.induct)
  case (start s)
  then show ?case by (simp add: handled_def init_quiet)
next
  case (store s st p s')
  show ?case
  proof (cases st)
    case (Set_isr n f)
    then show ?thesis using store by (cases f; cases "n = 0") (auto simp: handled_def intro!: gr0I)
  qed (use store in \<open>auto simp: handled_def plic_enable_source_def plic_disable_source_def plic_set_source_priority_def split: if_splits\<close>)
next
  case (interrupt s p n s')
  then show ?case using claim_keeps rest_ok_cong unfolding handled_def by metis
next
  case (device s p w d)
  then show ?case using rest_ok_cong [of "s\<lparr>it_dev := d, pl_pending := w\<rparr>" s p] by (simp add: handled_def)
qed (auto simp: enable_intr_source_def disable_intr_source_def split: if_splits)

section \<open>No interrupt is stray\<close>

text \<open>C37: Interrupts always find a handler.  However drivers enable and disable sources, and wherever between
  the stores of such a call an interrupt comes, whatever the controller may claim has its handler in
  the table: no interrupt panics the kernel, the handler runs on what it was registered with, and the
  source is completed; a claim of nothing changes nothing.  The stores of enabling and disabling do not
  fail either.\<close>

theorem interrupts_are_handled:
  assumes "intr_reach s p" and "claim_ok n s"
  shows "(\<exists>s'. handle_interrupt ti 9 n s = Some s' \<and>
       (if n = 0 then s' = s
        else \<exists>isr. it_isr s n = Some isr \<and> it_dev s' = isr n (it_aux s n) (it_dev s) \<and> pl_completed s' = pl_completed s @ [n])) \<and>
     (\<forall>st p'. p = st # p' \<longrightarrow> do_store st s \<noteq> None)"
proof -
  note inv = intr_reach_inv [OF assms(1)]
  have "\<exists>isr. it_isr s n = Some isr" if "n \<noteq> 0"
  proof -
    have "n < NIRQ" and "pl_threshold s (CTX 0 1) < pl_priority s n" using assms(2) that by (auto simp: claim_ok_def)
    then have "0 < pl_priority s n" using le_less_trans [OF word_zero_le] by blast
    then show ?thesis using inv \<open>n < NIRQ\<close> by (auto simp: handled_def)
  qed
  moreover have "n < NIRQ" using assms(2) by (auto simp: claim_ok_def)
  ultimately have "\<exists>s'. handle_interrupt ti 9 n s = Some s' \<and>
       (if n = 0 then s' = s
        else \<exists>isr. it_isr s n = Some isr \<and> it_dev s' = isr n (it_aux s n) (it_dev s) \<and> pl_completed s' = pl_completed s @ [n])"
    by (auto simp: handle_interrupt_def handle_extern_interrupt_def plic_claim_interrupt_def plic_claim_context_interrupt_def
        plic_finish_interrupt_def plic_complete_context_interrupt_def)
  moreover have "do_store st s \<noteq> None" if "p = st # p'" for st p'
    using inv that by (cases st) (auto simp: plic_enable_source_def)
  ultimately show ?thesis by blast
qed

text \<open>A source that has been enabled but for its last store, and then is.\<close>

definition demo_intr :: "nat intr" where
  "demo_intr = \<lparr>pl_priority = (\<lambda>_. 7), pl_pending = (\<lambda>_. 0), pl_enable = (\<lambda>_ _. 0), pl_threshold = (\<lambda>_. 0), pl_completed = [],
     it_isr = (\<lambda>_. None), it_aux = (\<lambda>_. 0), it_dev = 0, it_sie = 0\<rparr>"

definition demo_enabled :: "nat intr" where
  "demo_enabled = the (do_store (Enable_source 10 3) (the (do_store (Set_aux 10 5) (the (do_store (Set_isr 10 (Some (\<lambda>n a d. n + a + d))) (intrmgr_init demo_intr))))))"

lemma demo_enabled_reach: "intr_reach demo_enabled []"
proof -
  let ?s0 = "intrmgr_init demo_intr"
  let ?s1 = "the (do_store (Set_isr 10 (Some (\<lambda>n a d. n + a + d))) ?s0)"
  let ?s2 = "the (do_store (Set_aux 10 5) ?s1)"
  have "intr_reach ?s0 []" by (rule start) (simp add: demo_intr_def)
  then have "intr_reach ?s0 [Set_isr 10 (Some (\<lambda>n a d. n + a + d)), Set_aux 10 5, Enable_source 10 3]"
    by (rule enable [where srcno = 10 and prio = 3 and aux = 5]) (simp add: enable_intr_source_def)
  then have "intr_reach ?s1 [Set_aux 10 5, Enable_source 10 3]" by (rule store) simp
  then have "intr_reach ?s2 [Enable_source 10 3]" by (rule store) simp
  then show ?thesis unfolding demo_enabled_def by (rule store) (simp add: plic_enable_source_def)
qed

lemma interrupts_are_handled_witness:
  "\<exists>s'. handle_interrupt (\<lambda>_. None) 9 10 demo_enabled = Some s' \<and> it_dev s' = 15 \<and> pl_completed s' = [10]"
proof -
  have e: "claim_ok 10 demo_enabled" "it_isr demo_enabled 10 = Some (\<lambda>n a d. n + a + d)" "it_aux demo_enabled 10 = 5"
      "it_dev demo_enabled = 0" "pl_completed demo_enabled = []"
    by (code_simp, simp add: demo_enabled_def plic_enable_source_def plic_set_source_priority_def, code_simp+)
  from interrupts_are_handled [OF demo_enabled_reach e(1), of "\<lambda>_. None"] show ?thesis by (auto simp: e)
qed

end
