(* ===== verification/UString.thy ===== *)
theory UString
  imports Console
begin

text \<open>
  The library of user programs, \<open>provided/usr/string.c\<close> and \<open>provided/usr/heap.c\<close>, where it differs from
  the kernel's: characters and lines on descriptors, comparison without case, searching and moving
  memory, its own \<open>strncpy\<close> and formatted output, and the heap that is never freed.  The other
  functions of the file are those of \<open>CString\<close> and \<open>Printf\<close>.
\<close>

section \<open>Characters on descriptors\<close>

text \<open>What has been written, in order, and the static arrays of previous characters.\<close>

record stdio =
  sd_out :: "(nat \<times> u8) list"
  sd_pcprev :: "nat \<Rightarrow> u8"

definition dwrite :: "nat \<Rightarrow> u8 \<Rightarrow> stdio \<Rightarrow> stdio" where
  "dwrite fd c st = st\<lparr>sd_out := sd_out st @ [(fd, c)]\<rparr>"

definition dputc :: "nat \<Rightarrow> stdio \<Rightarrow> u8 \<Rightarrow> stdio" where
  "dputc fd st c =
     (let st1 = (if c = 13 then dwrite fd 10 (dwrite fd c st)
                 else if c = 10 then dwrite fd c (if sd_pcprev st fd \<noteq> 13 then dwrite fd 13 st else st)
                 else dwrite fd c st)
      in st1\<lparr>sd_pcprev := (sd_pcprev st1)(fd := c)\<rparr>)"

text \<open>\<open>dgetc\<close> does not look at what \<open>_read\<close> returns; a read that gives no byte is not modelled (\<open>None\<close>).\<close>

fun dgetc_loop :: "u8 \<Rightarrow> bytes \<Rightarrow> (u8 \<times> bytes) option" where
  "dgetc_loop gcprev [] = None"
| "dgetc_loop gcprev (c # inp) = (if c = 10 \<and> gcprev = 13 then dgetc_loop gcprev inp else Some (c, inp))"

definition dgetc :: "u8 \<Rightarrow> bytes \<Rightarrow> (u8 \<times> u8 \<times> bytes) option" where
  "dgetc gcprev inp = map_option (\<lambda>(c, r). (if c = 13 then 10 else c, c, r)) (dgetc_loop gcprev inp)"

definition dputs :: "nat \<Rightarrow> stdio \<Rightarrow> bytes \<Rightarrow> stdio option" where
  "dputs fd st str = map_option (\<lambda>n. dputc fd (foldl (dputc fd) st (take n str)) 10) (strlen (Some str))"

lemma dgetc_loop_length: "dgetc_loop cp inp = Some (c, r) \<Longrightarrow> length r < length inp"
  by (induction cp inp rule: dgetc_loop.induct) (auto split: if_splits)

lemma dgetc_length: "dgetc cp inp = Some (c, cp', r) \<Longrightarrow> length r < length inp"
  by (auto simp: dgetc_def dest: dgetc_loop_length)

text \<open>The line that \<open>dgetsn\<close> stores; \<open>None\<close> is also a store outside the buffer.\<close>

function dgetsn_loop :: "u8 \<Rightarrow> bytes \<Rightarrow> bytes \<Rightarrow> nat \<Rightarrow> nat \<Rightarrow> (bytes \<times> u8 \<times> bytes) option" where
  "dgetsn_loop gcprev inp buf p n =
     (case dgetc gcprev inp of
        None \<Rightarrow> None
      | Some (c, gcprev1, inp1) \<Rightarrow>
          if c = 0 \<or> c = 10 then (if p < length buf then Some (buf[p := 0], gcprev1, inp1) else None)
          else if n > 1 then
            (if p < length buf then dgetsn_loop gcprev1 inp1 (buf[p := c]) (p + 1) (n - 1) else None)
          else dgetsn_loop gcprev1 inp1 buf p n)"
  by pat_completeness auto
termination
  by (relation "measure (\<lambda>(_, inp, _). length inp)") (auto dest: dgetc_length)

declare dgetsn_loop.simps [simp del]

definition dgetsn :: "u8 \<Rightarrow> bytes \<Rightarrow> bytes \<Rightarrow> nat \<Rightarrow> (bytes \<times> u8 \<times> bytes) option" where
  "dgetsn gcprev inp buf n = dgetsn_loop gcprev inp buf 0 n"

text \<open>The line editor on the console, descriptor 2, whose loop is that of the kernel.\<close>

definition getsn :: "u8 \<Rightarrow> bytes \<Rightarrow> bytes \<Rightarrow> nat \<Rightarrow> stdio \<Rightarrow> (bytes \<times> u8 \<times> bytes \<times> stdio) option" where
  "getsn gcprev inp buf n st = getsn_loop (dputc 2) gcprev inp buf 0 n st"

lemma dgetc_is_kgetc: "dgetc cp inp = kgetc cp inp"
proof -
  have "dgetc_loop cp inp = kgetc_loop cp inp" for cp inp by (induction cp inp rule: dgetc_loop.induct) auto
  then show ?thesis by (simp add: dgetc_def kgetc_def)
qed

section \<open>Strings and memory\<close>

definition islower :: "u8 \<Rightarrow> bool" where
  "islower c \<longleftrightarrow> c \<ge> 97 \<and> c \<le> 122"

definition toupper :: "u8 \<Rightarrow> u8" where
  "toupper c = (if islower c then c - 97 + 65 else c)"

fun strcasecmp_loop :: "bytes \<Rightarrow> bytes \<Rightarrow> int option" where
  "strcasecmp_loop (c1 # s1) (c2 # s2) =
     (if toupper c1 = toupper c2 \<and> c1 \<noteq> 0 then strcasecmp_loop s1 s2
      else if toupper c1 < toupper c2 then Some (- 1)
      else if toupper c1 > toupper c2 then Some 1
      else Some 0)"
| "strcasecmp_loop _ _ = None"

definition strcasecmp :: "bytes option \<Rightarrow> bytes option \<Rightarrow> int option" where
  "strcasecmp s1 s2 =
     (case (s1, s2) of
        (None, None) \<Rightarrow> Some 0
      | (None, Some _) \<Rightarrow> Some (- 1)
      | (Some _, None) \<Rightarrow> Some 1
      | (Some p1, Some p2) \<Rightarrow> strcasecmp_loop p1 p2)"

fun strncasecmp :: "bytes \<Rightarrow> bytes \<Rightarrow> nat \<Rightarrow> int option" where
  "strncasecmp s1 s2 0 = Some 0"
| "strncasecmp (c1 # s1) (c2 # s2) (Suc n) =
     (if c1 \<noteq> 0 \<and> c1 = c2 then strncasecmp s1 s2 n
      else Some (sint (ucast (toupper c1) - ucast (toupper c2) :: u32)))"
| "strncasecmp _ _ (Suc n) = None"

text \<open>This \<open>strncpy\<close> writes at most one NUL.\<close>

fun ustrncpy :: "bytes \<Rightarrow> bytes \<Rightarrow> nat \<Rightarrow> bytes option" where
  "ustrncpy dst src 0 = Some dst"
| "ustrncpy dst [] (Suc n) = None"
| "ustrncpy [] (c # src) (Suc n) = None"
| "ustrncpy (x # dst) (c # src) (Suc n) =
     (if c \<noteq> 0 then map_option ((#) c) (ustrncpy dst src n) else Some (0 # dst))"

text \<open>The search compares memory; the result is where the string begins, \<open>Some None\<close> is NULL.\<close>

fun strstr_loop :: "bytes \<Rightarrow> bytes \<Rightarrow> nat \<Rightarrow> nat \<Rightarrow> nat option option" where
  "strstr_loop [] s2 n i = None"
| "strstr_loop (c # s1) s2 n i =
     (if c = 0 then Some None
      else case memcmp (c # s1) s2 n of
        None \<Rightarrow> None
      | Some r \<Rightarrow> if r = 0 then Some (Some i) else strstr_loop s1 s2 n (i + 1))"

definition strstr :: "bytes \<Rightarrow> bytes \<Rightarrow> nat option option" where
  "strstr s1 s2 = (case strlen (Some s2) of None \<Rightarrow> None | Some n \<Rightarrow> strstr_loop s1 s2 n 0)"

text \<open>\<open>memmove\<close> inside one object, byte by byte: upwards when the destination is below the source,
  downwards otherwise.\<close>

fun move_up :: "nat \<Rightarrow> nat \<Rightarrow> nat \<Rightarrow> bytes \<Rightarrow> bytes" where
  "move_up d s 0 mem = mem"
| "move_up d s (Suc len) mem = move_up (d + 1) (s + 1) len (mem[d := mem ! s])"

fun move_down :: "nat \<Rightarrow> nat \<Rightarrow> nat \<Rightarrow> bytes \<Rightarrow> bytes" where
  "move_down d s 0 mem = mem"
| "move_down d s (Suc len) mem = move_down d s len (mem[d + len := mem ! (s + len)])"

definition memmove :: "nat \<Rightarrow> nat \<Rightarrow> nat \<Rightarrow> bytes \<Rightarrow> bytes option" where
  "memmove dest src len mem =
     (if length mem < dest + len \<or> length mem < src + len then None
      else Some (if dest < src then move_up dest src len mem else move_down dest src len mem))"

fun ustrtoul_loop :: "bytes \<Rightarrow> int \<Rightarrow> u64 \<Rightarrow> nat \<Rightarrow> (u64 \<times> nat) option" where
  "ustrtoul_loop [] base val i = None"
| "ustrtoul_loop (ch # str) base val i =
     (let c = toupper ch in
      if uint c < 48 \<or> 48 + base \<le> uint c then Some (val, i)
      else ustrtoul_loop str base (val * word_of_int base + (ucast c - 48)) (i + 1))"

definition ustrtoul :: "bytes option \<Rightarrow> int \<Rightarrow> (u64 \<times> nat option) option" where
  "ustrtoul str base =
     (case str of
        None \<Rightarrow> Some (- 1, None)
      | Some p \<Rightarrow>
          if base \<le> 1 \<or> 10 < base then Some (- 1, None)
          else (case p of
                  [] \<Rightarrow> None
                | c # p' \<Rightarrow>
                    if c = 45 then map_option (\<lambda>(val, i). (- val, Some i)) (ustrtoul_loop p' base 0 1)
                    else if c = 43 then map_option (\<lambda>(val, i). (val, Some i)) (ustrtoul_loop p' base 0 1)
                    else map_option (\<lambda>(val, i). (val, Some i)) (ustrtoul_loop p base 0 0)))"

section \<open>The heap of a program\<close>

record uheap =
  uh_low :: u64
  uh_end :: u64

text \<open>\<open>Inl ()\<close> is the end of the program; a block is an address, \<open>None\<close> for NULL.\<close>

definition uheap_init :: "u64 \<Rightarrow> u64 \<Rightarrow> unit + uheap" where
  "uheap_init start end' = (if start > end' then Inl () else Inr \<lparr>uh_low = start, uh_end = end'\<rparr>)"

definition malloc :: "u64 \<Rightarrow> uheap \<Rightarrow> unit + u64 option \<times> uheap" where
  "malloc sz h =
     (if sz = 0 then Inr (None, h)
      else if sz > uh_end h - uh_low h then Inl ()
      else Inr (Some (uh_low h), h\<lparr>uh_low := uh_low h + sz\<rparr>))"

text \<open>The product may wrap around.  The bytes to be zeroed go with the block.\<close>

definition calloc :: "u64 \<Rightarrow> u64 \<Rightarrow> uheap \<Rightarrow> unit + (u64 \<times> u64) option \<times> uheap" where
  "calloc nelts eltsz h =
     (let sz = nelts * eltsz in
      case malloc sz h of
        Inl e \<Rightarrow> Inl e
      | Inr (None, h1) \<Rightarrow> Inr (None, h1)
      | Inr (Some ptr, h1) \<Rightarrow> Inr (Some (ptr, sz), h1))"

text \<open>The copy of a string with its NUL.\<close>

definition strdup :: "bytes \<Rightarrow> uheap \<Rightarrow> (unit + (u64 \<times> bytes) option \<times> uheap) option" where
  "strdup s h =
     (case strlen (Some s) of
        None \<Rightarrow> None
      | Some n \<Rightarrow>
          Some (case malloc (of_nat (n + 1)) h of
                  Inl e \<Rightarrow> Inl e
                | Inr (None, h1) \<Rightarrow> Inr (None, h1)
                | Inr (Some new, h1) \<Rightarrow> Inr (Some (new, take (n + 1) s), h1)))"

section \<open>Formatted output\<close>

definition uparse_prefix :: "nat \<Rightarrow> bytes \<Rightarrow> (nat \<times> bytes) option" where
  "uparse_prefix lcnt p =
     (case p of
        [] \<Rightarrow> None
      | c # p' \<Rightarrow> if c = 122 \<or> c = 106 then Some (2, p') else Some (lcnt, c # p'))"

definition uparse_spec :: "bytes \<Rightarrow> (u32 \<times> nat \<times> u8 \<times> bytes) option" where
  "uparse_spec p =
     (case parse_width 0 p of
        None \<Rightarrow> None
      | Some (len, p1) \<Rightarrow>
          (case parse_longs 0 p1 of
             None \<Rightarrow> None
           | Some (lcnt, p2) \<Rightarrow>
               (case uparse_prefix lcnt p2 of
                  None \<Rightarrow> None
                | Some (lcnt', p3) \<Rightarrow> (case p3 of [] \<Rightarrow> None | c # p4 \<Rightarrow> Some (len, lcnt', c, p4)))))"

text \<open>The conversions \<open>d\<close>, \<open>u\<close>, \<open>x\<close> and \<open>p\<close> have the code of the kernel's; \<open>c\<close> has no width, \<open>i\<close> is not
  known, and NULL prints as \<open>(null)\<close>.\<close>

definition uconvert ::
  "('s \<Rightarrow> u8 \<Rightarrow> 's) \<Rightarrow> 's \<Rightarrow> u8 \<Rightarrow> bool \<Rightarrow> u32 \<Rightarrow> nat \<Rightarrow> varg list \<Rightarrow> (nat \<times> 's \<times> varg list) option" where
  "uconvert putcfn aux c zpad len lcnt ap =
     (if c = 100 \<or> c = 117 \<or> c = 120 \<or> c = 112 then convert putcfn aux c zpad len lcnt ap
      else if c = 115 then
        (case ap of
           VStr s # ap' \<Rightarrow>
             map_option (\<lambda>(n, aux'). (n, aux', ap'))
               (format_str putcfn aux (Some (case s of None \<Rightarrow> [40, 110, 117, 108, 108, 41, 0] | Some p \<Rightarrow> p)) len)
         | _ \<Rightarrow> None)
      else if c = 99 then (case ap of VInt w # ap' \<Rightarrow> Some (1, putcfn aux (ucast w), ap') | _ \<Rightarrow> None)
      else Some (2, putcfn (putcfn aux 37) (if c < 32 \<or> 127 \<le> c then 63 else c), ap))"

lemma uparse_prefix_length: "uparse_prefix n p = Some (l, q) \<Longrightarrow> length q \<le> length p"
  by (auto simp: uparse_prefix_def split: list.splits if_splits)

lemma uparse_spec_length:
  assumes "uparse_spec p = Some (len, lcnt, c, q)"
  shows "length q < length p"
proof -
  obtain p1 n p2 where *: "parse_width 0 p = Some (len, p1)" "parse_longs 0 p1 = Some (n, p2)" "uparse_prefix n p2 = Some (lcnt, c # q)"
    using assms by (auto simp: uparse_spec_def split: option.splits list.splits)
  show ?thesis using parse_width_length [OF *(1)] parse_longs_length [OF *(2)] uparse_prefix_length [OF *(3)] by simp
qed

function uvgprintf :: "('s \<Rightarrow> u8 \<Rightarrow> 's) \<Rightarrow> 's \<Rightarrow> bytes \<Rightarrow> varg list \<Rightarrow> (nat \<times> 's) option" where
  "uvgprintf putcfn aux fmt ap =
     (case fmt of
        [] \<Rightarrow> None
      | c # p \<Rightarrow>
          if c = 0 then Some (0, aux)
          else if c = 37 then
            (case uparse_spec p of
               None \<Rightarrow> None
             | Some (len, lcnt, s, q) \<Rightarrow>
                 (case uconvert putcfn aux s (take 1 p = [48]) len lcnt ap of
                    None \<Rightarrow> None
                  | Some (n, aux', ap') \<Rightarrow>
                      if s = 0 then Some (n, aux')
                      else map_option (\<lambda>(m, r). (n + m, r)) (uvgprintf putcfn aux' q ap')))
          else map_option (\<lambda>(m, r). (Suc m, r)) (uvgprintf putcfn (putcfn aux c) p ap))"
  by pat_completeness auto
termination
  by (relation "measure (\<lambda>(_, _, fmt, _). length fmt)") (auto dest: uparse_spec_length)

declare uvgprintf.simps [simp del]

definition uvsnprintf :: "bytes \<Rightarrow> nat \<Rightarrow> bytes \<Rightarrow> varg list \<Rightarrow> (nat \<times> bytes) option" where
  "uvsnprintf buf bufsz fmt ap =
     map_option (\<lambda>(n, st). (n, if vrem st \<noteq> 0 then (vbuf st)[vpos st := 0] else vbuf st))
       (uvgprintf vsnprintf_putc \<lparr>vbuf = buf, vpos = 0, vrem = bufsz\<rparr> fmt ap)"

definition uprintf :: "nat \<Rightarrow> stdio \<Rightarrow> bytes \<Rightarrow> varg list \<Rightarrow> stdio option" where
  "uprintf fd st fmt ap = map_option snd (uvgprintf (dputc fd) st fmt ap)"

section \<open>The formats of the programs\<close>

text \<open>On formats that only use \<open>d\<close>, \<open>u\<close>, \<open>x\<close>, \<open>p\<close> and \<open>s\<close>, and without NULL, the two libraries print the same.\<close>

function common_format :: "bytes \<Rightarrow> bool" where
  "common_format fmt =
     (case fmt of
        [] \<Rightarrow> False
      | c # p \<Rightarrow>
          if c = 0 then True
          else if c = 37 then
            (case uparse_spec p of
               None \<Rightarrow> False
             | Some (len, lcnt, s, q) \<Rightarrow> parse_spec p = Some (len, lcnt, s, q) \<and> s \<in> {100, 117, 120, 112, 115} \<and> common_format q)
          else common_format p)"
  by pat_completeness auto
termination
  by (relation "measure length") (auto dest: uparse_spec_length)

declare common_format.simps [simp del]

lemma convert_drops: "convert f a c z l n ap = Some (m, a', ap') \<Longrightarrow> ap' = ap \<or> ap' = tl ap"
  by (auto simp: convert_def Let_def split: if_splits list.splits varg.splits option.splits prod.splits)

lemma uconvert_common:
  "s \<in> {100, 117, 120, 112, 115} \<Longrightarrow> VStr None \<notin> set ap \<Longrightarrow> uconvert f a s z l n ap = convert f a s z l n ap"
  by (cases ap) (auto simp: uconvert_def convert_def split: varg.split option.split)

lemma uvgprintf_common: "common_format fmt \<Longrightarrow> VStr None \<notin> set ap \<Longrightarrow> uvgprintf f a fmt ap = vgprintf f a fmt ap"
proof (induction f a fmt ap rule: uvgprintf.induct)
  case (1 f a fmt ap)
  show ?case
  proof (cases fmt)
    case Nil
    then show ?thesis by (simp add: uvgprintf.simps vgprintf.simps)
  next
    case (Cons c p)
    consider "c = 0" | "c = 37" | "c \<noteq> 0" "c \<noteq> 37" by blast
    then show ?thesis
    proof cases
      case 1
      with Cons show ?thesis by (simp add: vgprintf.simps [of f a] uvgprintf.simps [of f a])
    next
      case 2
      obtain len lcnt s q where p: "uparse_spec p = Some (len, lcnt, s, q)" "parse_spec p = Some (len, lcnt, s, q)"
          "s \<in> {100, 117, 120, 112, 115}" "common_format q"
        using "1.prems"(1) 2 Cons by (auto simp: common_format.simps [of "37 # p"] split: option.splits)
      have s0: "s \<noteq> 0" using p(3) by auto
      note cv = uconvert_common [OF p(3) "1.prems"(2), of f a "take 1 p = [48]" len lcnt]
      show ?thesis
      proof (cases "convert f a s (take 1 p = [48]) len lcnt ap")
        case None
        then show ?thesis using 2 Cons p cv by (simp add: vgprintf.simps [of f a] uvgprintf.simps [of f a])
      next
        case (Some y)
        obtain n a' ap' where y: "y = (n, a', ap')" by (cases y) auto
        have "VStr None \<notin> set ap'" using convert_drops [OF Some [unfolded y]] "1.prems"(2) by (cases ap) auto
        then have "uvgprintf f a' q ap' = vgprintf f a' q ap'"
          using Cons 2 p cv Some y s0 by (intro "1.IH"(1)) auto
        then show ?thesis using Some y 2 Cons p cv s0 by (simp add: vgprintf.simps [of f a] uvgprintf.simps [of f a])
      qed
    next
      case 3
      then have "common_format p" using "1.prems"(1) Cons by (simp add: common_format.simps [of "c # p"])
      then have "uvgprintf f (f a c) p ap = vgprintf f (f a c) p ap" using Cons 3 "1.prems" by (intro "1.IH"(2)) auto
      then show ?thesis using 3 Cons by (simp add: vgprintf.simps [of f a] uvgprintf.simps [of f a])
    qed
  qed
qed

lemma uvsnprintf_text:
  assumes "common_format fmt" and "VStr None \<notin> set ap" and "fmt_text fmt ap = Some t" and "0 < bufsz" and "bufsz \<le> length buf"
  shows "uvsnprintf buf bufsz fmt ap = Some (length t, take (bufsz - 1) t @ 0 # drop (Suc (min (length t) (bufsz - 1))) buf)"
proof -
  note v = vsnprintf_text [OF assms(3-5)]
  obtain n st where g: "vgprintf vsnprintf_putc \<lparr>vbuf = buf, vpos = 0, vrem = bufsz\<rparr> fmt ap = Some (n, st)"
    using v by (auto simp: vsnprintf_def split: option.splits)
  have n: "n = length t" using g assms(3) by (auto simp: vgprintf_refines_text)
  show ?thesis using v g n by (auto simp: uvsnprintf_def uvgprintf_common [OF assms(1,2)] vsnprintf_def split: if_splits)
qed

section \<open>Lines and case\<close>

text \<open>\<open>getsn\<close> stores the edited line, as \<open>kgetsn\<close> does; \<open>strcasecmp\<close> is \<open>strcmp\<close> on upper case.\<close>

lemma getsn_edits:
  assumes "buf \<noteq> []"
  shows "case split_line gcprev inp of
     None \<Rightarrow> getsn gcprev inp buf (length buf) st = None
   | Some (l, e, r) \<Rightarrow>
       let line = foldl (edit (length buf - 1)) [] l
       in \<exists>buf' st'. getsn gcprev inp buf (length buf) st = Some (buf', e, r, st') \<and>
            length buf' = length buf \<and> length line < length buf \<and> take (length line + 1) buf' = line @ [0]"
  unfolding getsn_def by (rule getsn_loop_edits) (use assms in auto)

lemma toupper_0: "toupper c = 0 \<longleftrightarrow> c = 0"
proof
  assume a: "toupper c = 0"
  show "c = 0"
  proof (cases "islower c")
    case True
    then have "c = 32" using a by (simp add: toupper_def)
    then show ?thesis using True by (simp add: islower_def)
  qed (use a in \<open>simp add: toupper_def\<close>)
qed (simp add: toupper_def islower_def)

lemma strcasecmp_upper: "strcasecmp_loop s1 s2 = strcmp_loop (map toupper s1) (map toupper s2)"
  by (induction s1 s2 rule: strcasecmp_loop.induct) (auto simp: toupper_0)

section \<open>Moving memory\<close>

lemma move_up_nth:
  assumes "d < s" and "s + len \<le> length mem" and "i < length mem"
  shows "length (move_up d s len mem) = length mem \<and>
     move_up d s len mem ! i = (if d \<le> i \<and> i < d + len then mem ! (i - d + s) else mem ! i)"
  using assms
proof (induction d s len mem rule: move_up.induct)
  case (2 d s len mem)
  have a: "d \<noteq> i - Suc d + Suc s" using "2.prems"(1) by simp
  show ?case
  proof (cases "d < i")
    case True
    then have "i - Suc d + Suc s = i - d + s" by simp
    then show ?thesis using 2 True a by auto
  qed (use 2 in auto)
qed auto

lemma move_down_nth:
  assumes "s \<le> d" and "d + len \<le> length mem" and "i < length mem"
  shows "length (move_down d s len mem) = length mem \<and>
     move_down d s len mem ! i = (if d \<le> i \<and> i < d + len then mem ! (i - d + s) else mem ! i)"
  using assms
proof (induction d s len mem rule: move_down.induct)
  case (2 d s len mem)
  have IH: "length (move_down d s len (mem[d + len := mem ! (s + len)])) = length mem \<and>
      move_down d s len (mem[d + len := mem ! (s + len)]) ! i =
        (if d \<le> i \<and> i < d + len then mem[d + len := mem ! (s + len)] ! (i - d + s) else mem[d + len := mem ! (s + len)] ! i)"
    using 2 by simp
  have r: "mem[d + len := mem ! (s + len)] ! (i - d + s) = mem ! (i - d + s)" if "d \<le> i" "i < d + len"
    using that "2.prems"(1) by (subst nth_list_update_neq) auto
  have e: "mem[d + len := mem ! (s + len)] ! i = (if i = d + len then mem ! (i - d + s) else mem ! i)"
    using "2.prems" by (auto simp: nth_list_update add.commute)
  have "d \<le> i \<and> i < d + Suc len \<longleftrightarrow> d \<le> i \<and> i < d + len \<or> i = d + len" by auto
  then show ?case using IH r e by auto
qed auto

text \<open>Moving memory inside an object, overlapping or not, copies the bytes that the source had before
  and changes no other byte; nothing is read or written outside the object.\<close>

theorem memmove_copies:
  "memmove dest src len mem =
     (if dest + len \<le> length mem \<and> src + len \<le> length mem then Some (overwrite mem dest (take len (drop src mem))) else None)"
proof (cases "dest + len \<le> length mem \<and> src + len \<le> length mem")
  case True
  let ?r = "if dest < src then move_up dest src len mem else move_down dest src len mem"
  have l: "length ?r = length mem"
    using True move_up_nth [of dest src len mem] move_down_nth [of src dest len mem]
    by (cases "mem = []"; cases len; cases "dest < src") auto
  have "?r = overwrite mem dest (take len (drop src mem))"
  proof (rule nth_equalityI)
    show "length ?r = length (overwrite mem dest (take len (drop src mem)))" using l True by simp
    fix i assume "i < length ?r"
    then have i: "i < length mem" by (simp only: l)
    show "?r ! i = overwrite mem dest (take len (drop src mem)) ! i"
      using True i move_up_nth [of dest src len mem i] move_down_nth [of src dest len mem i]
      by (auto simp: nth_overwrite add.commute)
  qed
  then show ?thesis using True by (auto simp: memmove_def)
qed (auto simp: memmove_def)

end
