(* ===== verification/Uterm.thy ===== *)
theory Uterm
  imports UString
begin

text \<open>
  Terminals of user programs, \<open>modified/usr/uio.c\<close>: the dispatch to a uniform I/O object, formatted
  output to it, and the object that converts line ends in both directions and edits lines.  \<open>'w\<close> is
  what is behind the raw object.  A loop that never returns is \<open>None\<close>.
\<close>

section \<open>Dispatch\<close>

record 'w uio_obj =
  uo_refcnt :: nat
  uo_close :: "('w \<Rightarrow> 'w) option"
  uo_read :: "(nat \<Rightarrow> 'w \<Rightarrow> (int \<times> bytes) \<times> 'w) option"
  uo_write :: "(bytes \<Rightarrow> 'w \<Rightarrow> int \<times> 'w) option"
  uo_cntl :: "(int \<Rightarrow> 'w \<Rightarrow> int \<times> 'w) option"

definition u_addref :: "'w uio_obj \<Rightarrow> nat \<times> 'w uio_obj" where
  "u_addref u = (uo_refcnt u + 1, u\<lparr>uo_refcnt := uo_refcnt u + 1\<rparr>)"

definition u_close :: "'w uio_obj \<Rightarrow> 'w \<Rightarrow> 'w uio_obj \<times> 'w" where
  "u_close u w =
     (let n = (if uo_refcnt u > 0 then uo_refcnt u - 1 else uo_refcnt u); u1 = u\<lparr>uo_refcnt := n\<rparr>
      in case uo_close u of
           Some f \<Rightarrow> if n = 0 then (u1, f w) else (u1, w)
         | None \<Rightarrow> (u1, w))"

definition u_read :: "'w uio_obj \<Rightarrow> nat \<Rightarrow> 'w \<Rightarrow> (int \<times> bytes) \<times> 'w" where
  "u_read u bufsz w =
     (case uo_read u of
        Some f \<Rightarrow> if bufsz < 2 ^ 63 then f bufsz w else ((- EINVAL, []), w)
      | None \<Rightarrow> ((- ENOTSUP, []), w))"

definition u_write :: "'w uio_obj \<Rightarrow> bytes \<Rightarrow> 'w \<Rightarrow> int \<times> 'w" where
  "u_write u buf w =
     (case uo_write u of
        Some f \<Rightarrow> if length buf < 2 ^ 63 then f buf w else (- EINVAL, w)
      | None \<Rightarrow> (- ENOTSUP, w))"

definition u_cntl :: "'w uio_obj \<Rightarrow> int \<Rightarrow> 'w \<Rightarrow> int \<times> 'w" where
  "u_cntl u opn w = (case uo_cntl u of Some f \<Rightarrow> f opn w | None \<Rightarrow> (- ENOTSUP, w))"

definition u_putc :: "'w uio_obj \<Rightarrow> u8 \<Rightarrow> 'w \<Rightarrow> int \<times> 'w" where
  "u_putc u c w =
     (case u_write u [c] w of
        (wlen, w1) \<Rightarrow> (if wlen < 0 then wlen else if wlen = 0 then - 5 else uint c, w1))"

definition uio_puts :: "'w uio_obj \<Rightarrow> bytes \<Rightarrow> 'w \<Rightarrow> (int \<times> 'w) option" where
  "uio_puts u s w =
     (case strlen (Some s) of
        None \<Rightarrow> None
      | Some slen \<Rightarrow>
          Some (case u_write u (take slen s) w of
                  (wlen, w1) \<Rightarrow>
                    if wlen < 0 then (wlen, w1)
                    else (case u_write u [10] w1 of (wlen2, w2) \<Rightarrow> if wlen2 < 0 then (wlen2, w2) else (0, w2))))"

definition uio_vprintf_putc :: "'w uio_obj \<Rightarrow> int \<times> 'w \<Rightarrow> u8 \<Rightarrow> int \<times> 'w" where
  "uio_vprintf_putc u st c =
     (case st of (err, w) \<Rightarrow>
        if err = 0 then (case u_putc u c w of (result, w1) \<Rightarrow> if result < 0 then (result, w1) else (err, w1))
        else (err, w))"

definition uio_vprintf :: "'w uio_obj \<Rightarrow> bytes \<Rightarrow> varg list \<Rightarrow> 'w \<Rightarrow> (int \<times> 'w) option" where
  "uio_vprintf u fmt ap w =
     map_option (\<lambda>(nout, err, w1). (if err \<noteq> 0 then err else int nout, w1)) (uvgprintf (uio_vprintf_putc u) (0, w) fmt ap)"

section \<open>Terminals\<close>

record 'w uioterm =
  ut_raw :: "'w uio_obj"
  ut_cr_out :: bool
  ut_cr_in :: bool

definition uioterm_init :: "'w uio_obj \<Rightarrow> 'w uioterm" where
  "uioterm_init rawuio = \<lparr>ut_raw = rawuio, ut_cr_out = False, ut_cr_in = False\<rparr>"

definition uioterm_close :: "'w uioterm \<Rightarrow> 'w \<Rightarrow> 'w uioterm \<times> 'w" where
  "uioterm_close t w = (case u_close (ut_raw t) w of (r, w1) \<Rightarrow> (t\<lparr>ut_raw := r\<rparr>, w1))"

definition uioterm_cntl :: "'w uioterm \<Rightarrow> int \<Rightarrow> 'w \<Rightarrow> int \<times> 'w" where
  "uioterm_cntl t cmd w = (if cmd \<noteq> 3 then u_cntl (ut_raw t) cmd w else (- ENOTSUP, w))"

text \<open>The scan of what was read: the characters kept, and \<open>cr_in\<close>.\<close>

fun fix_input :: "bool \<Rightarrow> bytes \<Rightarrow> bytes \<times> bool" where
  "fix_input cr [] = ([], cr)"
| "fix_input cr (ch # r) =
     (if cr
      then if ch = 13 then (case fix_input cr r of (o1, c1) \<Rightarrow> (10 # o1, c1))
           else if ch = 10 then fix_input False r
           else (case fix_input False r of (o1, c1) \<Rightarrow> (ch # o1, c1))
      else if ch = 13 then (case fix_input True r of (o1, c1) \<Rightarrow> (10 # o1, c1))
           else (case fix_input cr r of (o1, c1) \<Rightarrow> (ch # o1, c1)))"

partial_function (option) term_read :: "'w uio_obj \<Rightarrow> nat \<Rightarrow> bool \<Rightarrow> 'w \<Rightarrow> ((int \<times> bytes) \<times> bool \<times> 'w) option" where
  "term_read raw len cr w =
     (case u_read raw len w of
        ((cnt, bs), w1) \<Rightarrow>
          if cnt < 0 then Some ((cnt, bs), cr, w1)
          else (case fix_input cr (take (nat cnt) bs) of
                  (kept, cr1) \<Rightarrow>
                    if kept = [] then term_read raw len cr1 w1
                    else Some ((int (length kept), kept), cr1, w1)))"

definition uioterm_read :: "'w uioterm \<Rightarrow> nat \<Rightarrow> 'w \<Rightarrow> ((int \<times> bytes) \<times> 'w uioterm \<times> 'w) option" where
  "uioterm_read t len w =
     map_option (\<lambda>(r, cr, w1). (r, t\<lparr>ut_cr_in := cr\<rparr>, w1)) (term_read (ut_raw t) len (ut_cr_in t) w)"

text \<open>The scan of what is written: everything before \<open>wp\<close> has gone out, \<open>rp\<close> is looked at next.  The
  result is a return from within the loop, or the state behind it.\<close>

definition slice :: "nat \<Rightarrow> nat \<Rightarrow> bytes \<Rightarrow> bytes" where
  "slice i j buf = take (j - i) (drop i buf)"

function write_loop :: "'w uio_obj \<Rightarrow> bytes \<Rightarrow> nat \<Rightarrow> nat \<Rightarrow> int \<Rightarrow> bool \<Rightarrow> 'w \<Rightarrow> (int + nat \<times> nat \<times> int) \<times> bool \<times> 'w" where
  "write_loop raw buf rp wp acc cr w =
     (if \<not> rp < length buf then (Inr (rp, wp, acc), cr, w)
      else if buf ! rp = 13 then
        (if rp + 1 < length buf \<and> buf ! (rp + 1) = 10 then write_loop raw buf (rp + 2) wp acc False w
         else (case u_write raw (slice wp (rp + 1) buf) w of
                 (cnt, w1) \<Rightarrow>
                   if cnt < 0 then (Inl cnt, cr, w1)
                   else if cnt = 0 then (Inl acc, cr, w1)
                   else (case u_putc raw 10 w1 of
                           (cnt2, w2) \<Rightarrow>
                             if cnt2 < 0 then (Inl cnt2, cr, w2)
                             else write_loop raw buf (rp + 1) (wp + nat cnt) (acc + cnt) True w2)))
      else if buf ! rp = 10 then
        (if cr then write_loop raw buf (rp + 1) (wp + 1) acc False w
         else (let put_cr = (\<lambda>wp acc w. case u_putc raw 13 w of
                               (cnt, w1) \<Rightarrow> if cnt < 0 then (Inl cnt, cr, w1) else write_loop raw buf (rp + 1) wp acc False w1)
               in if wp \<noteq> rp
                  then (case u_write raw (slice wp rp buf) w of
                          (cnt, w1) \<Rightarrow>
                            if cnt < 0 then (Inl cnt, cr, w1)
                            else if cnt = 0 then (Inl acc, cr, w1)
                            else put_cr (wp + nat cnt) (acc + cnt) w1)
                  else put_cr wp acc w))
      else write_loop raw buf (rp + 1) wp acc False w)"
  by pat_completeness auto
termination
  by (relation "measure (\<lambda>(raw, buf, rp, _). length buf - rp)") auto

declare write_loop.simps [simp del]

definition uioterm_write :: "'w uioterm \<Rightarrow> bytes \<Rightarrow> 'w \<Rightarrow> int \<times> 'w uioterm \<times> 'w" where
  "uioterm_write t buf w =
     (case write_loop (ut_raw t) buf 0 0 0 (ut_cr_out t) w of
        (Inl rc, cr, w1) \<Rightarrow> (rc, t\<lparr>ut_cr_out := cr\<rparr>, w1)
      | (Inr (rp, wp, acc), cr, w1) \<Rightarrow>
          if rp \<noteq> wp
          then (case u_write (ut_raw t) (slice wp rp buf) w1 of
                  (cnt, w2) \<Rightarrow>
                    (if cnt < 0 then cnt else if cnt = 0 then acc else acc + cnt, t\<lparr>ut_cr_out := cr\<rparr>, w2))
          else (acc, t\<lparr>ut_cr_out := cr\<rparr>, w1))"

section \<open>Output\<close>

text \<open>The conversion that \<open>uio.h\<close> describes, one character at a time.\<close>

fun crlf :: "bool \<Rightarrow> bytes \<Rightarrow> bytes" where
  "crlf cr [] = []"
| "crlf cr (ch # r) =
     (if ch = 13 then 13 # 10 # crlf True r
      else if ch = 10 then (if cr then crlf False r else 13 # 10 # crlf False r)
      else ch # crlf False r)"

definition ends_cr :: "bool \<Rightarrow> bytes \<Rightarrow> bool" where
  "ends_cr cr buf = (if buf = [] then cr else last buf = 13)"

lemma ends_cr_Cons [simp]: "ends_cr cr (c # r) = ends_cr (c = 13) r"
  by (simp add: ends_cr_def)

lemma crlf_append: "crlf cr (a @ b) = crlf cr a @ crlf (ends_cr cr a) b"
  by (induction cr a rule: crlf.induct) (auto simp: ends_cr_def [of _ "[]"])

text \<open>A raw object that takes all it is given; \<open>out\<close> is what it has taken.\<close>

definition takes_all :: "'w uio_obj \<Rightarrow> ('w \<Rightarrow> bytes) \<Rightarrow> bool" where
  "takes_all raw out \<longleftrightarrow>
     (\<forall>bs w. bs \<noteq> [] \<and> length bs < 2 ^ 63 \<longrightarrow> (\<exists>w'. u_write raw bs w = (int (length bs), w') \<and> out w' = out w @ bs))"

lemma takes_allD:
  assumes "takes_all raw out" and "bs \<noteq> []" and "length bs < 2 ^ 63"
  obtains w' where "u_write raw bs w = (int (length bs), w')" and "out w' = out w @ bs"
  using assms unfolding takes_all_def by blast

lemma takes_all_putc:
  assumes "takes_all raw out"
  obtains w' where "u_putc raw c w = (uint c, w')" and "out w' = out w @ [c]"
proof (rule takes_allD [OF assms, of "[c]" w])
  fix w' assume "u_write raw [c] w = (int (length [c]), w')" "out w' = out w @ [c]"
  then show thesis by (intro that [of w']) (simp_all add: u_putc_def)
qed simp_all

lemma slice_step: "wp \<le> rp \<Longrightarrow> rp < length buf \<Longrightarrow> slice wp (rp + 1) buf = slice wp rp buf @ [buf ! rp]"
  by (simp add: slice_def Suc_diff_le take_Suc_conv_app_nth)

lemma length_slice: "wp \<le> rp \<Longrightarrow> rp \<le> length buf \<Longrightarrow> length (slice wp rp buf) = rp - wp"
  by (simp add: slice_def)

lemma slice_same [simp]: "slice i i buf = []"
  by (simp add: slice_def)

lemma takes_all_slice:
  assumes "takes_all raw out" and "length buf < 2 ^ 63" and "i < j" and "j \<le> length buf"
  obtains w' where "u_write raw (slice i j buf) w = (int (j - i), w')" and "out w' = out w @ slice i j buf"
proof -
  have l: "length (slice i j buf) = j - i" using assms(3,4) by (simp add: length_slice)
  have "slice i j buf \<noteq> []" using l assms(3) by force
  moreover have "length (slice i j buf) < 2 ^ 63" unfolding l using assms(2,4) by linarith
  ultimately show thesis using takes_allD [OF assms(1), of "slice i j buf" w] that unfolding l by blast
qed

lemma write_loop_takes_all:
  assumes "takes_all raw out" and "length buf < 2 ^ 63"
    and "wp \<le> rp" and "rp \<le> length buf" and "cr \<longrightarrow> wp = rp"
  shows "\<exists>wp' acc' w'. write_loop raw buf rp wp acc cr w = (Inr (length buf, wp', acc'), ends_cr cr (drop rp buf), w') \<and>
     wp' \<le> length buf \<and> out w' @ drop wp' buf = out w @ slice wp rp buf @ crlf cr (drop rp buf) \<and>
     acc' - int wp' = acc - int wp - (if cr \<and> rp < length buf \<and> buf ! rp = 10 then 1 else 0)"
  using assms(3-5)
proof (induction "length buf - rp" arbitrary: rp wp acc cr w rule: less_induct)
  case less
  let ?Q = "\<lambda>rp wp acc cr w. \<exists>wp' acc' w'. write_loop raw buf rp wp acc cr w = (Inr (length buf, wp', acc'), ends_cr cr (drop rp buf), w') \<and>
     wp' \<le> length buf \<and> out w' @ drop wp' buf = out w @ slice wp rp buf @ crlf cr (drop rp buf) \<and>
     acc' - int wp' = acc - int wp - (if cr \<and> rp < length buf \<and> buf ! rp = 10 then 1 else 0)"
  have IH: "?Q rp1 wp1 acc1 cr1 w1" if "rp < rp1" "rp1 \<le> length buf" "wp1 \<le> rp1" "cr1 \<longrightarrow> wp1 = rp1" for rp1 wp1 acc1 cr1 w1
    using that by (intro less.hyps) auto
  note unroll = write_loop.simps [of raw buf rp wp acc cr w]
  show ?case
  proof (cases "rp < length buf")
    case False
    then show ?thesis using less.prems by (subst unroll) (simp add: ends_cr_def slice_def)
  next
    case rp: True
    define ch where "ch = buf ! rp"
    have d: "drop rp buf = ch # drop (rp + 1) buf" using rp by (simp add: ch_def Cons_nth_drop_Suc)
    have st: "slice wp (rp + 1) buf = slice wp rp buf @ [ch]" using slice_step [OF less.prems(1) rp] by (simp add: ch_def)
    have len: "length (slice wp rp buf) = rp - wp" using less.prems by (simp add: length_slice)
    show ?thesis
    proof (cases "ch = 13")
      case cr13: True
      show ?thesis
      proof (cases "rp + 1 < length buf \<and> buf ! (rp + 1) = 10")
        case True
        then have d2: "drop (rp + 1) buf = 10 # drop (rp + 2) buf" using Cons_nth_drop_Suc [of "rp + 1" buf] by simp
        have s2: "slice wp (rp + 2) buf = slice wp rp buf @ [13, 10]"
          using slice_step [of wp "rp + 1" buf] True less.prems st cr13 by (simp add: numeral_2_eq_2)
        have "write_loop raw buf rp wp acc cr w = write_loop raw buf (rp + 2) wp acc False w"
          using True rp cr13 by (subst unroll) (simp add: ch_def)
        then show ?thesis using IH [of "rp + 2" wp False acc w] True less.prems cr13
          unfolding s2 d d2 by (auto simp: ch_def [symmetric])
      next
        case False
        have nw: "wp + nat (1 + int rp - int wp) = Suc rp" using less.prems(1) by simp
        obtain w1 where w1: "u_write raw (slice wp (rp + 1) buf) w = (int (rp + 1 - wp), w1)" "out w1 = out w @ slice wp (rp + 1) buf"
          using takes_all_slice [OF assms(1,2), of wp "rp + 1" w] rp less.prems(1) by auto
        obtain w2 where w2: "u_putc raw 10 w1 = (uint (10 :: u8), w2)" "out w2 = out w1 @ [10]"
          using takes_all_putc [OF assms(1), of 10 w1] by auto
        have "write_loop raw buf rp wp acc cr w = write_loop raw buf (rp + 1) (rp + 1) (acc + int (rp + 1 - wp)) True w2"
          using False rp cr13 w1(1) w2(1) less.prems nw by (subst unroll) (auto simp: ch_def)
        then show ?thesis using IH [of "rp + 1" "rp + 1" True "acc + int (rp + 1 - wp)" w2] False rp less.prems cr13
          unfolding d w2(2) w1(2) st by (auto simp: ch_def [symmetric])
      qed
    next
      case n13: False
      show ?thesis
      proof (cases "ch = 10")
        case nl: True
        show ?thesis
        proof (cases cr)
          case True
          then have "write_loop raw buf rp wp acc cr w = write_loop raw buf (rp + 1) (wp + 1) acc False w"
            using rp nl by (subst unroll) (simp add: ch_def)
          then show ?thesis using IH [of "rp + 1" "wp + 1" False acc w] rp less.prems True nl
            unfolding d by (auto simp: ch_def [symmetric] n13)
        next
          case False
          have "\<exists>w2. out w2 = out w @ slice wp rp buf @ [13] \<and>
              write_loop raw buf rp wp acc cr w = write_loop raw buf (rp + 1) rp (acc + int (rp - wp)) False w2"
          proof (cases "wp = rp")
            case True
            obtain w2 where w2: "u_putc raw 13 w = (uint (13 :: u8), w2)" "out w2 = out w @ [13]"
              using takes_all_putc [OF assms(1), of 13 w] by auto
            then show ?thesis using True False rp nl by (intro exI [of _ w2]) (subst unroll, simp add: ch_def)
          next
            case wp: False
            obtain w1 where w1: "u_write raw (slice wp rp buf) w = (int (rp - wp), w1)" "out w1 = out w @ slice wp rp buf"
              using takes_all_slice [OF assms(1,2), of wp rp w] rp less.prems wp by auto
            obtain w2 where w2: "u_putc raw 13 w1 = (uint (13 :: u8), w2)" "out w2 = out w1 @ [13]"
              using takes_all_putc [OF assms(1), of 13 w1] by auto
            have "wp + nat (int rp - int wp) = rp" using less.prems(1) by simp
            then show ?thesis using wp False rp nl w1 w2 less.prems by (intro exI [of _ w2]) (subst unroll, simp add: ch_def)
          qed
          then obtain w2 where w2: "out w2 = out w @ slice wp rp buf @ [13]"
              "write_loop raw buf rp wp acc cr w = write_loop raw buf (rp + 1) rp (acc + int (rp - wp)) False w2" by blast
          have "slice rp (rp + 1) buf = [10]" using slice_step [of rp rp buf] rp nl by (simp add: ch_def)
          then show ?thesis using IH [of "rp + 1" rp False "acc + int (rp - wp)" w2] rp less.prems False nl w2
            unfolding d by (auto simp: ch_def [symmetric] n13)
        qed
      next
        case False
        then have "write_loop raw buf rp wp acc cr w = write_loop raw buf (rp + 1) wp acc False w"
          using rp n13 by (subst unroll) (simp add: ch_def)
        then show ?thesis using IH [of "rp + 1" wp False acc w] rp less.prems False n13
          unfolding d st by (auto simp: ch_def [symmetric])
      qed
    qed
  qed
qed

text \<open>C38: Writing to a terminal.  Over a raw object that takes all it is given, what comes out of a write is
  the conversion described in \<open>uio.h\<close>, from the state in which the last write left off: a lone CR or
  NL becomes CR NL, a CR NL stays, also when it is split between two writes, so that the output of
  several writes is that of one write of all their bytes.  The count is the length of the buffer, less one
  if its first byte is the NL of a CR written before.\<close>

theorem uioterm_write_converts:
  assumes "takes_all (ut_raw t) out" and "length buf < 2 ^ 63"
  shows "\<exists>w'. uioterm_write t buf w =
       (int (length buf) - (if ut_cr_out t \<and> take 1 buf = [10] then 1 else 0), t\<lparr>ut_cr_out := ends_cr (ut_cr_out t) buf\<rparr>, w') \<and>
     out w' = out w @ crlf (ut_cr_out t) buf \<and>
     (\<forall>a b. buf = a @ b \<longrightarrow> crlf (ut_cr_out t) buf = crlf (ut_cr_out t) a @ crlf (ends_cr (ut_cr_out t) a) b)"
proof -
  obtain wp acc w1 where l: "write_loop (ut_raw t) buf 0 0 0 (ut_cr_out t) w = (Inr (length buf, wp, acc), ends_cr (ut_cr_out t) buf, w1)"
      "wp \<le> length buf" "out w1 @ drop wp buf = out w @ crlf (ut_cr_out t) buf"
      "acc - int wp = 0 - int 0 - (if ut_cr_out t \<and> 0 < length buf \<and> buf ! 0 = 10 then 1 else 0)"
    using write_loop_takes_all [OF assms, of 0 0 "ut_cr_out t" 0 w] unfolding drop_0 slice_same append_Nil by blast
  have acc: "acc = int wp - (if ut_cr_out t \<and> 0 < length buf \<and> buf ! 0 = 10 then 1 else 0)" using l(4) by linarith
  have c: "ut_cr_out t \<and> 0 < length buf \<and> buf ! 0 = 10 \<longleftrightarrow> ut_cr_out t \<and> take 1 buf = [10]" by (cases buf) auto
  show ?thesis
  proof (cases "wp = length buf")
    case True
    then show ?thesis using l(1,3) acc unfolding c by (auto simp: uioterm_write_def crlf_append)
  next
    case False
    then have "wp < length buf" using l(2) by simp
    then obtain w2 where w2: "u_write (ut_raw t) (slice wp (length buf) buf) w1 = (int (length buf - wp), w2)" "out w2 = out w1 @ slice wp (length buf) buf"
      using takes_all_slice [OF assms, of wp "length buf" w1] by auto
    moreover have "slice wp (length buf) buf = drop wp buf" by (simp add: slice_def)
    ultimately show ?thesis using l(1-3) acc False \<open>wp < length buf\<close> unfolding c
      by (intro exI [of _ w2]) (auto simp: uioterm_write_def crlf_append)
  qed
qed

text \<open>A raw object that collects its bytes.\<close>

definition sink :: "bytes uio_obj" where
  "sink = \<lparr>uo_refcnt = 1, uo_close = None, uo_read = None, uo_write = Some (\<lambda>bs w. (int (length bs), w @ bs)), uo_cntl = None\<rparr>"

lemma uioterm_write_converts_witness:
  "\<exists>w'. uioterm_write \<lparr>ut_raw = sink, ut_cr_out = True, ut_cr_in = False\<rparr> [10, 97, 10, 98, 13] [13, 10] =
     (4, \<lparr>ut_raw = sink, ut_cr_out = True, ut_cr_in = False\<rparr>, w') \<and> w' = [13, 10, 97, 13, 10, 98, 13, 10]"
proof -
  have "takes_all sink (\<lambda>w. w)" by (simp add: takes_all_def sink_def u_write_def)
  then show ?thesis
    using uioterm_write_converts [of "\<lparr>ut_raw = sink, ut_cr_out = True, ut_cr_in = False\<rparr>" "\<lambda>w. w" "[10, 97, 10, 98, 13]" "[13, 10]"]
    by (simp add: ends_cr_def)
qed

section \<open>Input\<close>

text \<open>A raw object that delivers the bytes \<open>src\<close> in pieces, at least one while there are any.\<close>

definition delivers :: "'w uio_obj \<Rightarrow> ('w \<Rightarrow> bytes) \<Rightarrow> bool" where
  "delivers raw src \<longleftrightarrow>
     (\<forall>len w. 0 < len \<and> len < 2 ^ 63 \<longrightarrow>
        (\<exists>bs w'. u_read raw len w = ((int (length bs), bs), w') \<and> src w = bs @ src w' \<and> (src w \<noteq> [] \<longrightarrow> bs \<noteq> [])))"

lemma fix_input_append:
  "fix_input cr (a @ b) = (case fix_input cr a of (o1, c1) \<Rightarrow> case fix_input c1 b of (o2, c2) \<Rightarrow> (o1 @ o2, c2))"
  by (induction cr a rule: fix_input.induct) (auto split: prod.splits)

lemma term_read_some:
  assumes "delivers raw src" and "0 < len" and "len < 2 ^ 63" and "fst (fix_input cr (src w)) \<noteq> []"
  shows "term_read raw len cr w \<noteq> None"
  using assms(4)
proof (induction "length (src w)" arbitrary: cr w rule: less_induct)
  case less
  obtain bs w' where r: "u_read raw len w = ((int (length bs), bs), w')" "src w = bs @ src w'" "src w \<noteq> [] \<longrightarrow> bs \<noteq> []"
    using assms(1-3) unfolding delivers_def by blast
  obtain kept cr1 where k: "fix_input cr bs = (kept, cr1)" by force
  have "bs \<noteq> []" using r(3) less.prems by auto
  show ?case
  proof (cases "kept = []")
    case True
    have "fst (fix_input cr1 (src w')) \<noteq> []" using less.prems True unfolding r(2) fix_input_append k by (auto split: prod.splits)
    then have "term_read raw len cr1 w' \<noteq> None" using \<open>bs \<noteq> []\<close> r(2) by (intro less.hyps) auto
    then show ?thesis using True by (subst term_read.simps) (simp add: r(1) k)
  next
    case False
    then show ?thesis by (subst term_read.simps) (simp add: r(1) k)
  qed
qed

lemma term_read_result:
  assumes "term_read raw len cr w = Some y" and "delivers raw src" and "0 < len" and "len < 2 ^ 63"
  shows "case y of ((rc, kept), cr', w') \<Rightarrow> kept \<noteq> [] \<and> rc = int (length kept) \<and>
     fix_input cr (src w) = (case fix_input cr' (src w') of (o2, c2) \<Rightarrow> (kept @ o2, c2))"
  using assms
proof (induction rule: term_read.raw_induct [rotated, consumes 1, case_names 1])
  case (1 f raw len cr w y)
  obtain bs w' where r: "u_read raw len w = ((int (length bs), bs), w')" "src w = bs @ src w'"
    using 1(3-5) unfolding delivers_def by blast
  obtain kept cr1 where k: "fix_input cr bs = (kept, cr1)" by force
  show ?case
  proof (cases "kept = []")
    case True
    then have "f raw len cr1 w' = Some y" using 1(2) by (simp add: r(1) k)
    from 1(1) [OF this 1(3-5)] True show ?thesis unfolding r(2) fix_input_append k by simp
  next
    case False
    then have "y = ((int (length kept), kept), cr1, w')" using 1(2) by (simp add: r(1) k)
    then show ?thesis using False unfolding r(2) fix_input_append k by simp
  qed
qed


text \<open>A raw object that delivers one byte at a time.\<close>

definition source :: "bytes uio_obj" where
  "source = \<lparr>uo_refcnt = 1, uo_close = None, uo_read = Some (\<lambda>len w. ((int (length (take 1 w)), take 1 w), drop 1 w)), uo_write = None, uo_cntl = None\<rparr>"


section \<open>The line editor of a terminal\<close>

definition uioterm_getc :: "'w uioterm \<Rightarrow> 'w \<Rightarrow> (int \<times> 'w uioterm \<times> 'w) option" where
  "uioterm_getc t w =
     map_option (\<lambda>((rlen, bs), t1, w1). (if rlen < 0 then rlen else if rlen = 0 then - 5 else uint (hd bs), t1, w1))
       (uioterm_read t 1 w)"

fun put_codes :: "'w uio_obj \<Rightarrow> bytes \<Rightarrow> 'w \<Rightarrow> bool \<times> 'w" where
  "put_codes raw [] w = (True, w)"
| "put_codes raw (c # cs) w = (case u_putc raw c w of (r, w1) \<Rightarrow> if r < 0 then (False, w1) else put_codes raw cs w1)"

text \<open>The character that is read is cut to a \<open>char\<close>, also when it is an error code.  The result is the
  buffer, or \<open>None\<close> for NULL; a store outside the buffer counts as not returning.\<close>

partial_function (option) term_getsn :: "'w uioterm \<Rightarrow> bytes \<Rightarrow> nat \<Rightarrow> nat \<Rightarrow> 'w \<Rightarrow> (bytes option \<times> 'w uioterm \<times> 'w) option" where
  "term_getsn t buf p n w =
     (case uioterm_getc t w of
        None \<Rightarrow> None
      | Some (i, t1, w1) \<Rightarrow>
          let c = (of_int i :: u8); raw = ut_raw t1 in
          if c = 91 then term_getsn (t1\<lparr>ut_cr_in := False\<rparr>) buf p n w1
          else if c = 13 \<or> c = 10 then
            (case put_codes raw [13, 10] w1 of
               (ok, w2) \<Rightarrow> if \<not> ok then Some (None, t1, w2) else if p < length buf then Some (Some (buf[p := 0]), t1, w2) else None)
          else if c = 8 \<or> c = 127 then
            (if p \<noteq> 0
             then (case put_codes raw [8, 32, 8] w1 of (ok, w2) \<Rightarrow> if \<not> ok then Some (None, t1, w2) else term_getsn t1 buf (p - 1) (n + 1) w2)
             else (case put_codes raw [7] w1 of (ok, w2) \<Rightarrow> if \<not> ok then Some (None, t1, w2) else term_getsn t1 buf p n w2))
          else if n > 1 then
            (case put_codes raw [c] w1 of
               (ok, w2) \<Rightarrow>
                 if \<not> p < length buf then None
                 else if \<not> ok then Some (None, t1, w2) else term_getsn t1 (buf[p := c]) (p + 1) (n - 1) w2)
          else (case put_codes raw [7] w1 of (ok, w2) \<Rightarrow> if \<not> ok then Some (None, t1, w2) else term_getsn t1 buf p n w2))"

definition uioterm_getsn :: "'w uioterm \<Rightarrow> bytes \<Rightarrow> nat \<Rightarrow> 'w \<Rightarrow> (bytes option \<times> 'w uioterm \<times> 'w) option" where
  "uioterm_getsn t buf n w = term_getsn t buf 0 n w"

text \<open>The case for the escape character has the code of an opening bracket: a bracket is neither
  stored nor echoed.\<close>

lemma getsn_drops_brackets:
  "uioterm_getc t w = Some (uint (91 :: u8), t1, w1) \<Longrightarrow> term_getsn t buf p n w = term_getsn (t1\<lparr>ut_cr_in := False\<rparr>) buf p n w1"
  by (subst term_getsn.simps) simp

end
