(* ===== verification/Date.thy ===== *)
theory Date
  imports UString
begin

text \<open>
  The program \<open>modified/usr/progs/date.c\<close>: from nanoseconds since 1970 to a date and a time of day.
  What \<open>_open\<close> and \<open>_read\<close> give are arguments; the result are the writes, each a descriptor with
  its bytes.  Years are \<open>int\<close> as in the code; a day count is a \<open>nat\<close> below \<open>2 ^ 64\<close>.
\<close>

section \<open>The calendar\<close>

definition is_leap_year :: "int \<Rightarrow> int" where
  "is_leap_year year =
     (if year mod 400 = 0 then 1 else if year mod 100 = 0 then 0 else if year mod 4 = 0 then 1 else 0)"

definition days_in_year :: "int \<Rightarrow> int" where
  "days_in_year year = (if is_leap_year year \<noteq> 0 then 366 else 365)"

definition month_days :: "int list" where
  "month_days = [31, 28, 31, 30, 31, 30, 31, 31, 30, 31, 30, 31]"

definition days_in_month :: "int \<Rightarrow> nat \<Rightarrow> int" where
  "days_in_month year month_index =
     (if month_index = 1 then month_days ! month_index + is_leap_year year else month_days ! month_index)"

lemma days_in_year_pos: "0 < nat (days_in_year year)"
  by (simp add: days_in_year_def)

function year_loop :: "nat \<Rightarrow> int \<Rightarrow> nat \<times> int" where
  "year_loop total_days year =
     (if nat (days_in_year year) \<le> total_days then year_loop (total_days - nat (days_in_year year)) (year + 1)
      else (total_days, year))"
  by pat_completeness auto
termination
proof (relation "measure fst", goal_cases)
  case (2 total_days year)
  then show ?case using days_in_year_pos [of year] by simp
qed simp

declare year_loop.simps [simp del]

function month_loop :: "int \<Rightarrow> nat \<Rightarrow> nat \<Rightarrow> nat \<times> nat" where
  "month_loop year total_days month =
     (if month < 12 \<and> nat (days_in_month year month) \<le> total_days
      then month_loop year (total_days - nat (days_in_month year month)) (month + 1)
      else (total_days, month))"
  by pat_completeness auto
termination
  by (relation "measure (\<lambda>(_, _, month). 12 - month)") auto

declare month_loop.simps [simp del]

record date_time =
  dt_year :: int
  dt_month :: nat
  dt_day :: int
  dt_hour :: int
  dt_minute :: int
  dt_second :: int

definition date_of :: "u64 \<Rightarrow> date_time" where
  "date_of time_ns =
     (let total_seconds = unat (time_ns div 1000000000);
          seconds_of_day = total_seconds mod 86400
      in case year_loop (total_seconds div 86400) 1970 of
           (days, year) \<Rightarrow>
             (case month_loop year days 0 of
                (rest, month) \<Rightarrow>
                  \<lparr>dt_year = year, dt_month = month, dt_day = int rest + 1, dt_hour = int (seconds_of_day div 3600),
                   dt_minute = int (seconds_of_day mod 3600 div 60), dt_second = int (seconds_of_day mod 60)\<rparr>))"

section \<open>The program\<close>

definition month_names :: "bytes list" where
  "month_names =
     [[74, 97, 110], [70, 101, 98], [77, 97, 114], [65, 112, 114], [77, 97, 121], [74, 117, 110],
      [74, 117, 108], [65, 117, 103], [83, 101, 112], [79, 99, 116], [78, 111, 118], [68, 101, 99]]"

text \<open>\<open>"%02d %s %d %02d:%02d:%02d UTC\r\n"\<close>\<close>

definition date_format :: bytes where
  "date_format =
     [37, 48, 50, 100, 32, 37, 115, 32, 37, 100, 32, 37, 48, 50, 100, 58, 37, 48, 50, 100, 58, 37, 48, 50, 100,
      32, 85, 84, 67, 13, 10, 0]"

definition date_text :: "date_time \<Rightarrow> (nat \<times> bytes) option" where
  "date_text d =
     uvsnprintf (replicate 64 0) 64 date_format
       [VInt (of_int (dt_day d)), VStr (Some (month_names ! dt_month d @ [0])), VInt (of_int (dt_year d)),
        VInt (of_int (dt_hour d)), VInt (of_int (dt_minute d)), VInt (of_int (dt_second d))]"

text \<open>\<open>"Could not open RTC device\r\n"\<close> and \<open>"Could not read RTC device\r\n"\<close>\<close>

definition open_message :: bytes where
  "open_message =
     [67, 111, 117, 108, 100, 32, 110, 111, 116, 32, 111, 112, 101, 110, 32, 82, 84, 67, 32, 100, 101, 118, 105, 99, 101, 13, 10]"

definition read_message :: bytes where
  "read_message =
     [67, 111, 117, 108, 100, 32, 110, 111, 116, 32, 114, 101, 97, 100, 32, 82, 84, 67, 32, 100, 101, 118, 105, 99, 101, 13, 10]"

text \<open>\<open>None\<close>: the month has no name, or a string function leaves its object.\<close>

definition date_main :: "int \<Rightarrow> int \<Rightarrow> u64 \<Rightarrow> (int \<times> bytes) list option" where
  "date_main rtc_fd rc time_ns =
     (if rtc_fd < 0 then Some [(2, open_message)]
      else if rc < 8 then Some [(2, read_message)]
      else let d = date_of time_ns in
        if \<not> dt_month d < 12 then None
        else case date_text d of
               None \<Rightarrow> None
             | Some (_, out) \<Rightarrow> map_option (\<lambda>n. [(1, take n out)]) (strlen (Some out)))"

section \<open>The date is right\<close>

text \<open>The number of leap days before a year, and of days before a date.\<close>

definition leap_days :: "int \<Rightarrow> int" where
  "leap_days y = (y - 1) div 4 - (y - 1) div 100 + (y - 1) div 400"

definition days_before_year :: "int \<Rightarrow> int" where
  "days_before_year y = 365 * (y - 1970) + leap_days y - leap_days 1970"

definition days_before_date :: "int \<Rightarrow> nat \<Rightarrow> int \<Rightarrow> int" where
  "days_before_date y m d = days_before_year y + (\<Sum>i<m. days_in_month y i) + (d - 1)"

lemma leap_days_Suc: "leap_days (y + 1) = leap_days y + is_leap_year y"
proof -
  have s: "y div k = (y - 1) div k + (if y mod k = 0 then 1 else 0)" if "0 < k" for k :: int
  proof -
    have e: "y = k * (y div k) + y mod k" by simp
    have r: "0 \<le> y mod k" "y mod k < k" using that by simp_all
    show ?thesis
    proof (cases "y mod k = 0")
      case True
      then have "y - 1 = k * (y div k - 1) + (k - 1)" using e by (simp add: right_diff_distrib)
      then have "(y - 1) div k = y div k - 1" by (rule int_div_pos_eq) (use that in auto)
      then show ?thesis using True by simp
    next
      case False
      have "y - 1 = k * (y div k) + (y mod k - 1)" using e by linarith
      then have "(y - 1) div k = y div k" by (rule int_div_pos_eq) (use False r in linarith)+
      then show ?thesis using False by simp
    qed
  qed
  have "(4 :: int) dvd 100" "(100 :: int) dvd 400" by simp_all
  then have m: "y mod 100 = 0 \<Longrightarrow> y mod 4 = 0" "y mod 400 = 0 \<Longrightarrow> y mod 100 = 0"
    unfolding dvd_eq_mod_eq_0 [symmetric] using dvd_trans by blast+
  let ?z = "\<lambda>k. if y mod k = 0 then 1 else 0 :: int"
  have "y div 4 = (y - 1) div 4 + ?z 4" "y div 100 = (y - 1) div 100 + ?z 100" "y div 400 = (y - 1) div 400 + ?z 400"
    by (rule s, simp)+
  moreover have "?z 4 - ?z 100 + ?z 400 = is_leap_year y" unfolding is_leap_year_def using m by (simp split: if_split)
  moreover have "leap_days (y + 1) = y div 4 - y div 100 + y div 400" by (simp add: leap_days_def)
  ultimately show ?thesis unfolding leap_days_def by linarith
qed

lemma days_before_year_Suc: "days_before_year (y + 1) = days_before_year y + days_in_year y"
proof -
  have "is_leap_year y = 0 \<or> is_leap_year y = 1" by (simp add: is_leap_year_def)
  then show ?thesis unfolding days_before_year_def leap_days_Suc days_in_year_def by (elim disjE) simp_all
qed

lemma days_in_month_pos:
  assumes "m < 12"
  shows "28 \<le> days_in_month y m"
proof -
  have "list_all (\<lambda>m. 28 \<le> month_days ! m) [0..<12]" by code_simp
  then have "28 \<le> month_days ! m" using assms by (simp add: list_all_iff)
  then show ?thesis by (auto simp: days_in_month_def is_leap_year_def)
qed

lemma sum_days_in_month: "(\<Sum>i<12. days_in_month y i) = days_in_year y"
  by (simp add: eval_nat_numeral lessThan_Suc days_in_month_def month_days_def days_in_year_def is_leap_year_def)

lemma year_loop_days:
  "year_loop days y = (rest, y') \<Longrightarrow>
     y \<le> y' \<and> int rest < days_in_year y' \<and> days_before_year y' + int rest = days_before_year y + int days"
proof (induction days y rule: year_loop.induct)
  case (1 days y)
  have p: "0 < days_in_year y" using days_in_year_pos [of y] by simp
  show ?case
  proof (cases "nat (days_in_year y) \<le> days")
    case True
    then have "year_loop (days - nat (days_in_year y)) (y + 1) = (rest, y')" using "1.prems" by (subst (asm) year_loop.simps) simp
    from "1.IH" [OF True this] show ?thesis using True p by (simp add: days_before_year_Suc of_nat_diff)
  next
    case False
    then have "rest = days" "y' = y" using "1.prems" by (subst (asm) year_loop.simps, simp)+
    then show ?thesis using False by simp
  qed
qed

lemma month_loop_days:
  "month_loop y days m = (rest, m') \<Longrightarrow> m \<le> 12 \<Longrightarrow>
     m' \<le> 12 \<and> (\<Sum>i<m'. days_in_month y i) + int rest = (\<Sum>i<m. days_in_month y i) + int days \<and>
     (m' < 12 \<longrightarrow> int rest < days_in_month y m')"
proof (induction y days m rule: month_loop.induct)
  case (1 y days m)
  show ?case
  proof (cases "m < 12 \<and> nat (days_in_month y m) \<le> days")
    case True
    then have "month_loop y (days - nat (days_in_month y m)) (m + 1) = (rest, m')" using "1.prems" by (subst (asm) month_loop.simps) simp
    from "1.IH" [OF True this] show ?thesis using True days_in_month_pos [of m y] by (simp add: of_nat_diff)
  next
    case False
    then have "rest = days" "m' = m" using "1.prems" by (subst (asm) month_loop.simps, simp)+
    then show ?thesis using False "1.prems" by auto
  qed
qed

lemma date_of_civil:
  "let d = date_of time_ns in
     1970 \<le> dt_year d \<and> dt_month d < 12 \<and> 1 \<le> dt_day d \<and> dt_day d \<le> days_in_month (dt_year d) (dt_month d) \<and>
     0 \<le> dt_hour d \<and> dt_hour d < 24 \<and> 0 \<le> dt_minute d \<and> dt_minute d < 60 \<and> 0 \<le> dt_second d \<and> dt_second d < 60 \<and>
     86400 * days_before_date (dt_year d) (dt_month d) (dt_day d) + 3600 * dt_hour d + 60 * dt_minute d + dt_second d
       = int (unat time_ns div 10 ^ 9)"
proof -
  define s where "s = unat time_ns div 10 ^ 9"
  have s: "unat (time_ns div 1000000000) = s" by (simp add: s_def unat_div)
  obtain days year where y: "year_loop (s div 86400) 1970 = (days, year)" by force
  obtain rest month where m: "month_loop year days 0 = (rest, month)" by force
  note yl = year_loop_days [OF y] and ml = month_loop_days [OF m]
  have "month < 12"
  proof (rule ccontr)
    assume "\<not> month < 12"
    then have "month = 12" using ml by simp
    then have "days_in_year year + int rest = int days" using ml sum_days_in_month [of year] by simp
    then show False using yl by simp
  qed
  moreover have "days_before_date year month (int rest + 1) = int (s div 86400)"
    using ml yl by (simp add: days_before_date_def) (simp add: days_before_year_def)
  moreover have "3600 * (s mod 86400 div 3600) + 60 * (s mod 86400 mod 3600 div 60) + s mod 86400 mod 60 = s mod 86400"
  proof -
    have "s mod 86400 mod 60 = s mod 86400 mod 3600 mod 60" by (simp add: mod_mod_cancel)
    then show ?thesis using mult_div_mod_eq [of 60 "s mod 86400 mod 3600"] mult_div_mod_eq [of 3600 "s mod 86400"] by linarith
  qed
  moreover have "s mod 86400 div 3600 < 24" using less_mult_imp_div_less [of "s mod 86400" 24 3600] by simp
  moreover have "s mod 86400 mod 3600 div 60 < 60" using less_mult_imp_div_less [of "s mod 86400 mod 3600" 60 60] by simp
  moreover have "86400 * int (s div 86400) + 3600 * int (s mod 86400 div 3600) + 60 * int (s mod 86400 mod 3600 div 60) + int (s mod 86400 mod 60) = int s"
  proof -
    have "86400 * (s div 86400) + 3600 * (s mod 86400 div 3600) + 60 * (s mod 86400 mod 3600 div 60) + s mod 86400 mod 60 = s"
      using calculation(3) mult_div_mod_eq [of 86400 s] by linarith
    from arg_cong [OF this, of int] show ?thesis by (simp only: of_nat_add of_nat_mult of_nat_numeral)
  qed
  ultimately show ?thesis using yl ml
    unfolding date_of_def Let_def s y m prod.case date_time.simps s_def [symmetric] by (simp del: mod_mod_cancel)
qed

text \<open>The program always writes one message: no name of a month is missing and no buffer overruns.\<close>

lemma int_text_decimal: "\<exists>t. int_text v 10 z l = Some t"
proof -
  have "unat v < unat (10 :: u64) ^ 40" using unat_lt_64 by (rule less_trans) simp
  then show ?thesis using fmt_digits_defined [of "10 :: u64" v 40] by (auto simp: int_text_def)
qed

lemma convert_decimal: "\<exists>t. convert_text 100 z l n (VInt w # ap) = Some (t, ap)"
  using int_text_decimal [of "- signed_arg n w"] int_text_decimal [of "signed_arg n w"]
  by (auto simp: convert_text_def Let_def)

lemma convert_name: "0 \<notin> set nm \<Longrightarrow> convert_text 115 z 0 n (VStr (Some (nm @ [0])) # ap) = Some (cstr (nm @ [0]), ap)"
  by (simp add: convert_text_def str_text_def nul_terminated_def)

lemma date_format_text:
  assumes "0 \<notin> set nm"
  shows "\<exists>t. fmt_text date_format [VInt d, VStr (Some (nm @ [0])), VInt y, VInt h, VInt m, VInt s] = Some t"
proof -
  obtain t1 t2 t3 t4 t5 where
    "convert_text 100 True 2 0 [VInt d, VStr (Some (nm @ [0])), VInt y, VInt h, VInt m, VInt s] = Some (t1, [VStr (Some (nm @ [0])), VInt y, VInt h, VInt m, VInt s])"
    "convert_text 100 False 0 0 [VInt y, VInt h, VInt m, VInt s] = Some (t2, [VInt h, VInt m, VInt s])"
    "convert_text 100 True 2 0 [VInt h, VInt m, VInt s] = Some (t3, [VInt m, VInt s])"
    "convert_text 100 True 2 0 [VInt m, VInt s] = Some (t4, [VInt s])"
    "convert_text 100 True 2 0 [VInt s] = Some (t5, [])"
    using convert_decimal by meson
  then show ?thesis using convert_name [OF assms]
    by (simp add: date_format_def fmt_text.simps parse_spec_def parse_prefix_def)
qed

lemma date_format_common: "common_format date_format"
  by (simp add: date_format_def common_format.simps uparse_spec_def parse_spec_def uparse_prefix_def parse_prefix_def)

lemma date_main_writes: "\<exists>fd out. date_main rtc_fd rc time_ns = Some [(fd, out)]"
proof -
  let ?d = "date_of time_ns"
  have m: "dt_month ?d < 12" using date_of_civil [of time_ns] by (simp add: Let_def)
  have "list_all (\<lambda>nm. 0 \<notin> set nm) month_names" by (simp add: month_names_def)
  then have "0 \<notin> set (month_names ! dt_month ?d)" using m by (simp add: list_all_length month_names_def)
  then obtain t where "fmt_text date_format [VInt (of_int (dt_day ?d)), VStr (Some (month_names ! dt_month ?d @ [0])), VInt (of_int (dt_year ?d)),
        VInt (of_int (dt_hour ?d)), VInt (of_int (dt_minute ?d)), VInt (of_int (dt_second ?d))] = Some t"
    using date_format_text by blast
  then have "\<exists>n out r. date_text ?d = Some (n, out @ 0 # r)" unfolding date_text_def
    by (subst uvsnprintf_text [OF date_format_common]) auto
  then obtain n out r where o: "date_text ?d = Some (n, out @ 0 # r)" by blast
  have "\<exists>k. strlen (Some (out @ 0 # r)) = Some k" by (induction out) (auto simp: strlen_def)
  then show ?thesis using m o by (auto simp: date_main_def Let_def)
qed

text \<open>C40: The date is the date.  For every clock value the program finds a month that exists, a day that the
  month has in that year, and a time within the day, and they are the right ones: the days before that
  date, counted with the leap years of the Gregorian calendar, and the time of day together are the
  seconds since 1970.  The program always writes exactly one message.\<close>

theorem date_is_civil:
  "let d = date_of time_ns in
     1970 \<le> dt_year d \<and> dt_month d < 12 \<and> 1 \<le> dt_day d \<and> dt_day d \<le> days_in_month (dt_year d) (dt_month d) \<and>
     0 \<le> dt_hour d \<and> dt_hour d < 24 \<and> 0 \<le> dt_minute d \<and> dt_minute d < 60 \<and> 0 \<le> dt_second d \<and> dt_second d < 60 \<and>
     86400 * days_before_date (dt_year d) (dt_month d) (dt_day d) + 3600 * dt_hour d + 60 * dt_minute d + dt_second d
       = int (unat time_ns div 10 ^ 9) \<and>
     (\<exists>fd out. date_main rtc_fd rc time_ns = Some [(fd, out)])"
  using date_of_civil [of time_ns] date_main_writes [of rtc_fd rc time_ns] unfolding Let_def by blast

end
