(* ===== verification/Spec2Isabelle.thy ===== *)
theory Spec2Isabelle
  imports Printf Uart Pipe PhysPages Storage KtfsList KtfsBlocks MemInit ThreadProps KHeap Timer KernelDemo Syscalls ExecFile Devices Interrupts Uterm Date
begin

text \<open>
  A verification library for a small Unix-like kernel for RV64 (directory \<open>src/\<close>).

  \<^bold>\<open>The program.\<close>  The kernel is cooperative: threads switch only in \<open>running_thread_suspend\<close>.
  Devices (\<open>sys/dev/\<close>) register with the device manager (\<open>sys/device.c\<close>); the UART gives the
  console and a serial stream, the VirtIO block driver and the RAM disk are storage, over which
  \<open>sys/cache.c\<close> keeps a write-back block cache and \<open>sys/ktfs.c\<close> a file system with inodes.
  \<open>sys/filesys.c\<close> mounts file systems under names; \<open>sys/uio.c\<close> has the counted objects that
  stand for open files, devices and pipes.  \<open>sys/memory.c\<close> hands out physical pages and keeps the
  Sv39 page tables of each process, \<open>sys/heap0.c\<close> the kernel heap, \<open>sys/thread.c\<close> threads,
  conditions and locks, \<open>sys/timer.c\<close> sleeping.  \<open>sys/process.c\<close> and \<open>sys/elf.c\<close> start, copy and end
  programs, and \<open>sys/excp.c\<close> and \<open>sys/syscall.c\<close> are what a program reaches: exceptions and system
  calls, which work on the descriptors of its process.  Files under \<open>modified/\<close> replace those of the
  same name under \<open>provided/\<close>; four of them are identical.

  \<^bold>\<open>How code becomes definitions.\<close>  An operation is a function with the name of the C function, from
  the state it works on to a result and the new state; a loop is a recursive function of its own.
  Return codes are \<open>int\<close>, negative for errors, with the numbers of \<open>error.h\<close>.  \<open>None\<close> is the outcome
  in which the machine stops (a panic or a failed assertion) or memory outside an object is
  touched; that it does not happen is part of the properties.  Machine integers are words where they
  may wrap (positions in the rings, addresses, page table entries, sizes of requests), and \<open>nat\<close>
  where the code keeps them in range, as page and block numbers and buffer lengths.  A blocking call is
  a step up to its wait and a resumption, and a step relation interleaves the steps of all callers.
  Assertions about locks that only order accesses on a preemptive machine are left out, as the
  theories say.  What lies outside the repository is an argument: addresses
  that \<open>kmalloc\<close> gives to new objects, clock readings, the requests that the disk hardware serves,
  the bytes that a line delivers, the methods of an open file.

  \<^bold>\<open>Theories.\<close>  \<open>Prelude\<close> has the word types, error numbers, and lemmas on lists and words.

  Text.  \<open>CString\<close> (the C string functions) and \<open>Printf\<close> (\<open>vgprintf\<close>, \<open>vsnprintf\<close>) model
  \<open>provided/sys/string.c\<close>; \<open>Console\<close> models \<open>provided/sys/console.c\<close>.  The lemmas give each
  function its specification on terminated strings: order, exact writes, prefix of the formatted text,
  printing and parsing of numbers, the edited line.

  Byte streams.  \<open>Fifo\<close> states the contract of a bounded queue as the locale \<open>byte_fifo\<close>, which the
  ring of the UART and the ring of a pipe interpret; \<open>Uart\<close> (\<open>modified/sys/dev/uart.c\<close>) and \<open>Pipe\<close>
  (\<open>modified/sys/uio.c\<close>) prove with it, for every interleaving of calls, interrupts and wake-ups,
  that no byte is lost, doubled or reordered, and what a sleeper can rely on.

  Memory.  \<open>PhysPages\<close> is the page allocator, with the locale \<open>page_pool\<close> for its clients;
  \<open>PageTables\<close> models the rest of \<open>modified/sys/memory.c\<close>: tables as bytes in pages, mapping,
  unmapping, cloning, resetting, validation, page faults.  \<open>PageEntries\<close>, \<open>AddressSpace\<close>, \<open>Spaces\<close>,
  \<open>MapPage\<close> and \<open>Validate\<close> show that tables represent a map from pages to frames, and what each
  operation does to the map and to the free pages.  The tables have three levels, so the recursion
  over tables has depth 2 and ends at leaves.  \<open>MemInit\<close> is the start.  \<open>KHeap\<close> is the kernel heap
  over bytes, with its headers.

  Threads.  \<open>ThreadLists\<close> and \<open>Threads\<close> model \<open>modified/sys/thread.c\<close> with its intrusive lists;
  \<open>ThreadInv\<close>, \<open>ThreadSteps\<close>, \<open>ThreadReach\<close> and \<open>ThreadProps\<close> show the invariant of all reachable
  states and its consequences: agreement of the data structures, no lost wake-up, exclusion, fairness.
  \<open>Timer\<close> is \<open>modified/sys/timer.c\<close>.

  Storage.  \<open>Storage\<close> models the storage part of \<open>provided/sys/device.c\<close>, the RAM disk and the block
  driver, with the locale \<open>block_disk\<close>; \<open>BlockCache\<close> is \<open>modified/sys/cache.c\<close>, with what
  its clients see of the disk as the abstract state.  \<open>KtfsLayout\<close>, \<open>KtfsOps\<close>, \<open>KtfsFile\<close>, \<open>KtfsDir\<close> and
  \<open>KtfsEntries\<close> model \<open>modified/sys/ktfs.c\<close>, written with the shorthands of \<open>BlockPins\<close> for programs
  over pinned blocks.  \<open>KtfsTree\<close> states when the disk is sound and what the bytes of a
  file are; \<open>KtfsAlloc\<close>, \<open>KtfsRead\<close>, \<open>KtfsWrite\<close>, \<open>KtfsEnd\<close>, \<open>KtfsNames\<close>, \<open>KtfsCreate\<close>, \<open>KtfsBlocks\<close>, \<open>KtfsList\<close>
  and \<open>KtfsProps\<close> show that the operations act on files as arrays of bytes and on the directory as a
  list.

  Processes.  \<open>FileSys\<close> is \<open>modified/sys/filesys.c\<close>; \<open>Files\<close> the descriptor tables with the system calls on
  them; \<open>Exec\<close> the stack of a program, the loader \<open>modified/sys/elf.c\<close>, exec, fork and exit of
  \<open>modified/sys/process.c\<close>; \<open>Syscalls\<close> the other calls, the dispatcher and the exceptions, over the kernel
  as a whole.  \<open>FileRefs\<close> and \<open>ExecRefs\<close> carry the reference counts through every call; \<open>Descriptors\<close>
  draws the conclusions for closing and for the ends of pipes.  \<open>Stack\<close> follows the arguments of a
  program from \<open>build_stack\<close> to the program's view, \<open>ExecFile\<close> the executable.  \<open>KtfsDemo\<close>,
  \<open>ThreadDemo\<close> and \<open>KernelDemo\<close> are concrete inputs.

  Devices and interrupts.  \<open>Devices\<close> models the rest of \<open>provided/sys/device.c\<close>: the list of devices
  with their instance numbers, the dispatch to serial and video drivers, byte streams over serial
  devices, and the file system that lists the devices and opens them by name; it also has the
  real-time clock \<open>modified/sys/dev/rtc.c\<close>.  \<open>Interrupts\<close> is \<open>modified/sys/intr.c\<close> over
  \<open>modified/sys/plic.c\<close>, store by store.  The lemmas show that each name in the listing opens the
  device it stands for, and that between any two stores an interrupt that can arrive has its handler.

  User programs.  \<open>UString\<close> has the functions of \<open>provided/usr/string.c\<close> that differ from the kernel's,
  and the allocator \<open>provided/usr/heap.c\<close>; \<open>Uterm\<close> is \<open>modified/usr/uio.c\<close>, whose conversion of line
  ends is shown to refine an automaton on single bytes in both directions, however the bytes are cut
  into calls.  \<open>Date\<close> is \<open>modified/usr/progs/date.c\<close>, with the calendar date and the text it prints.

  \<^bold>\<open>Bounds and fuel.\<close>  No definition takes fuel that a caller could run out of.  Loops are structural or
  come with a measure (\<open>validate_vstr\<close> walks at most the address space; digits of a
  64-bit number fit a buffer of 40); a loop over input ends when the input does, which is the call's
  sleep.

  \<^bold>\<open>Not modelled.\<close>  Assembly (\<open>trap.s\<close>, \<open>thrasm.s\<close>, \<open>start.s\<close>, \<open>see.s\<close>): its effects are arguments
  or steps (the switch of registers is the change of the running thread).  What devices answer when
  their registers are read is an argument.  The set-up of VirtIO devices in \<open>virtio.c\<close> only writes
  registers, and \<open>viorng.c\<close> hands over what its device writes.  \<open>main.c\<close> calls the initialisers
  in order, \<open>misc.c\<close> prints and halts.  The shell and the other small programs of
  \<open>modified/usr/progs\<close> are left out.  Tests and build tools are no part of the kernel.
\<close>

end
